(* ===== verification/Prelude.thy ===== *)
theory Prelude
  imports Main "HOL-Library.Word"
begin

text \<open>
  Shared vocabulary of the development: the integer types of \<^verbatim>\<open>include/aoo_types.h\<close>, the
  error enumeration \<^verbatim>\<open>AooError\<close>, the collections of rewrite rules the component theories
  fill, and generic lemmas on lists and natural numbers.

  Conventions of the whole development.
  \<^item> Unsigned fixed-width integers are words of that width, so their arithmetic wraps.
  \<^item> Signed 32-bit integers (sequence numbers, identifiers, sizes) are \<^typ>\<open>int\<close> where the code
    only compares and offsets them, since signed overflow has no defined meaning in C++; where
    they cross the wire they are words read back by \<^const>\<open>sint\<close>.
  \<^item> A buffer is the list of its bytes; a null pointer is \<^const>\<open>None\<close>; a pointer into a vector is
    an index.
  \<^item> A call that fails returns \<^const>\<open>Inl\<close> of its error code and leaves its output parameters
    alone; \<^const>\<open>Inr\<close> carries the value of the output parameters on \<^verbatim>\<open>kAooOk\<close>.
\<close>

type_synonym byte = "8 word"
type_synonym u16 = "16 word"
type_synonym u32 = "32 word"
type_synonym u64 = "64 word"

text \<open>A \<^verbatim>\<open>double\<close> that is only stored, sent and compared with zero is its bit pattern. Times that are
  added and compared are real numbers, without rounding.\<close>

type_synonym double = u64

definition double_is_zero :: "double \<Rightarrow> bool" where
  "double_is_zero x \<longleftrightarrow> x = 0 \<or> x = 0x8000000000000000"

named_theorems wire_simps \<open>length and round trip facts of the wire encodings\<close>
named_theorems ring_simps \<open>facts about positions and contents of ring buffers\<close>
named_theorems heap_simps \<open>facts about linked structures in a heap\<close>

datatype AooError =
    kAooErrorUnspecified
  | kAooOk
  | kAooErrorNotImplemented
  | kAooErrorNotPermitted
  | kAooErrorNotInitialized
  | kAooErrorBadArgument
  | kAooErrorBadFormat
  | kAooErrorOutOfRange
  | kAooErrorIdle
  | kAooErrorWouldBlock
  | kAooErrorOverflow
  | kAooErrorTimeout
  | kAooErrorOutOfMemory
  | kAooErrorAlreadyExists
  | kAooErrorNotFound
  | kAooErrorInsufficientBuffer
  | kAooErrorBadState
  | kAooErrorSocket
  | kAooErrorCodec
  | kAooErrorInternal
  | kAooErrorSystem
  | kAooErrorUserDefined
  | kAooErrorRequestInProgress
  | kAooErrorUnhandledRequest
  | kAooErrorVersionNotSupported
  | kAooErrorUDPHandshakeTimeout
  | kAooErrorWrongPassword
  | kAooErrorAlreadyConnected
  | kAooErrorNotConnected
  | kAooErrorGroupDoesNotExist
  | kAooErrorCannotCreateGroup
  | kAooErrorAlreadyGroupMember
  | kAooErrorNotGroupMember
  | kAooErrorUserAlreadyExists
  | kAooErrorUserDoesNotExist
  | kAooErrorCannotCreateUser
  | kAooErrorNotResponding
  | kAooErrorCustom

text \<open>
  What a C++ program does when it leaves its defined behaviour: the model stops with the reason
  instead of inventing a value.
\<close>

datatype cpp_fault =
    OutOfBounds
  | NullDereference
  | DivisionByZero
  | Uncaught_runtime_error

type_synonym 'a checked = "cpp_fault + 'a"

text \<open>The message types of \<^verbatim>\<open>AooMsgType\<close> are small integers that also travel as one byte.\<close>

definition kAooMsgTypeSource :: nat where "kAooMsgTypeSource = 0"
definition kAooMsgTypeSink :: nat where "kAooMsgTypeSink = 1"
definition kAooMsgTypeServer :: nat where "kAooMsgTypeServer = 2"
definition kAooMsgTypeClient :: nat where "kAooMsgTypeClient = 3"
definition kAooMsgTypePeer :: nat where "kAooMsgTypePeer = 4"
definition kAooMsgTypeRelay :: nat where "kAooMsgTypeRelay = 5"

lemmas msg_type_defs =
  kAooMsgTypeSource_def kAooMsgTypeSink_def kAooMsgTypeServer_def
  kAooMsgTypeClient_def kAooMsgTypePeer_def kAooMsgTypeRelay_def

definition AOO_MAX_PACKET_SIZE :: nat where "AOO_MAX_PACKET_SIZE = 4096"

subsection \<open>Lists\<close>

lemma map_nth_rev:
  assumes "length xs = n"
  shows "map (\<lambda>i. xs ! (n - Suc i)) [0..<n] = rev xs"
  using assms by (intro nth_equalityI) (simp_all add: rev_nth)

lemma map_nth_rev_take:
  assumes "n \<le> length xs"
  shows "map (\<lambda>i. xs ! (n - Suc i)) [0..<n] = rev (take n xs)"
  using assms by (intro nth_equalityI) (simp_all add: rev_nth)

lemma take_append_length [simp]: "length xs = n \<Longrightarrow> take n (xs @ ys) = xs"
  by simp

lemma drop_append_length [simp]: "length xs = n \<Longrightarrow> drop n (xs @ ys) = ys"
  by simp

text \<open>Cutting a list into pieces of equal length, with a shorter one at the end.\<close>

lemma concat_chunks:
  "concat (map (\<lambda>i. take k (drop (i * k) xs)) [0..<n]) = take (n * k) xs"
proof (induction n)
  case 0
  then show ?case by simp
next
  case (Suc n)
  then show ?case by (simp add: take_add [symmetric] add.commute)
qed

end
