(* ===== verification/Byte_Utils.thy ===== *)
theory Byte_Utils
  imports Prelude
begin

text \<open>
  \<^verbatim>\<open>common/utils.hpp\<close> and \<^verbatim>\<open>common/bit_utils.hpp\<close>: the conversion between integers and their
  big-endian representation on the wire, the moving cursors \<^verbatim>\<open>read_bytes\<close> and
  \<^verbatim>\<open>write_bytes\<close>, \<^verbatim>\<open>clamp\<close>, \<^verbatim>\<open>is_pow2\<close> and \<^verbatim>\<open>clz\<close>.

  The C++ code reinterprets the integer as the array of its bytes in memory, through a union,
  and reverses that array on a little-endian machine. \<open>mem_bytes\<close> is that array on
  either kind of machine; the theorem on \<open>to_bytes_on\<close> is that the bytes sent do not
  depend on the machine.
\<close>

subsection \<open>Definitions\<close>

datatype byte_order = LITTLE_ENDIAN | BIG_ENDIAN

definition size_of :: "'a::len word itself \<Rightarrow> nat" where
  "size_of _ = LENGTH('a) div 8"

text \<open>The bytes of a value from the least significant one, and the value of such bytes.\<close>

definition le_bytes :: "nat \<Rightarrow> nat \<Rightarrow> byte list" where
  "le_bytes n x = map (\<lambda>i. word_of_nat (x div 256 ^ i)) [0..<n]"

fun le_value :: "byte list \<Rightarrow> nat" where
  "le_value [] = 0"
| "le_value (b # bs) = unat b + 256 * le_value bs"

text \<open>The memory of the union member \<^verbatim>\<open>t\<close>, read through the member \<^verbatim>\<open>b\<close>, and back.\<close>

definition mem_bytes :: "byte_order \<Rightarrow> 'a::len word \<Rightarrow> byte list" where
  "mem_bytes bo v =
     (let bs = le_bytes (size_of TYPE('a word)) (unat v)
      in case bo of LITTLE_ENDIAN \<Rightarrow> bs | BIG_ENDIAN \<Rightarrow> rev bs)"

definition mem_value :: "byte_order \<Rightarrow> byte list \<Rightarrow> 'a::len word" where
  "mem_value bo bs =
     word_of_nat (le_value (case bo of LITTLE_ENDIAN \<Rightarrow> bs | BIG_ENDIAN \<Rightarrow> rev bs))"

definition to_bytes_on :: "byte_order \<Rightarrow> 'a::len word \<Rightarrow> byte list" where
  "to_bytes_on bo v =
     (let n = size_of TYPE('a word); c = mem_bytes bo v
      in case bo of
           BIG_ENDIAN \<Rightarrow> c
         | LITTLE_ENDIAN \<Rightarrow> map (\<lambda>i. c ! (n - i - 1)) [0..<n])"

definition from_bytes_on :: "byte_order \<Rightarrow> byte list \<Rightarrow> 'a::len word" where
  "from_bytes_on bo b =
     (let n = size_of TYPE('a word)
      in mem_value bo (case bo of
           BIG_ENDIAN \<Rightarrow> take n b
         | LITTLE_ENDIAN \<Rightarrow> map (\<lambda>i. b ! (n - i - 1)) [0..<n]))"

text \<open>The components below are stated for the little-endian build.\<close>

abbreviation to_bytes :: "'a::len word \<Rightarrow> byte list" where
  "to_bytes \<equiv> to_bytes_on LITTLE_ENDIAN"

abbreviation from_bytes :: "byte list \<Rightarrow> 'a::len word" where
  "from_bytes \<equiv> from_bytes_on LITTLE_ENDIAN"

text \<open>
  A reading cursor is the list of the bytes that are left. A writing cursor splits the buffer
  into what was written and what is still the old content.
\<close>

definition read_bytes :: "byte list \<Rightarrow> 'a::len word \<times> byte list" where
  "read_bytes b = (from_bytes b, drop (size_of TYPE('a word)) b)"

type_synonym writer = "byte list \<times> byte list"

definition write_bytes :: "'a::len word \<Rightarrow> writer \<Rightarrow> writer" where
  "write_bytes v w = (fst w @ to_bytes v, drop (size_of TYPE('a word)) (snd w))"

definition clamp :: "'a::linorder \<Rightarrow> 'a \<Rightarrow> 'a \<Rightarrow> 'a" where
  "clamp x low high = (if x > high then high else if x < low then low else x)"

definition is_pow2 :: "'a::len word \<Rightarrow> bool" where
  "is_pow2 i \<longleftrightarrow> and i (i - 1) = 0"

text \<open>The position of the highest set bit plus one; the builtin counts the zeros above it.\<close>

fun bit_len :: "nat \<Rightarrow> nat" where
  "bit_len n = (if n = 0 then 0 else Suc (bit_len (n div 2)))"

declare bit_len.simps [simp del]

definition clz :: "u32 \<Rightarrow> nat" where
  "clz i = (if i \<noteq> 0 then 32 - bit_len (unat i) else 32)"

subsection \<open>Bytes of a natural number\<close>

lemma le_bytes_length [simp, wire_simps]: "length (le_bytes n x) = n"
  by (simp add: le_bytes_def)

lemma le_bytes_Suc: "le_bytes (Suc n) x = word_of_nat x # le_bytes n (x div 256)"
proof -
  have "map f [0..<Suc n] = f 0 # map (\<lambda>i. f (Suc i)) [0..<n]" for f :: "nat \<Rightarrow> byte"
    by (simp add: upt_conv_Cons map_Suc_upt [symmetric] del: upt_Suc)
  then show ?thesis
    by (simp add: le_bytes_def div_mult2_eq del: upt_Suc)
qed

lemma le_value_bytes: "le_value (le_bytes n x) = x mod 256 ^ n"
proof (induction n arbitrary: x)
  case 0
  then show ?case by (simp add: le_bytes_def)
next
  case (Suc n)
  have "le_value (le_bytes (Suc n) x) = x mod 256 + 256 * (x div 256 mod 256 ^ n)"
    by (simp add: le_bytes_Suc Suc.IH unsigned_of_nat take_bit_eq_mod)
  also have "\<dots> = x mod 256 ^ Suc n"
    by (simp add: mod_mult2_eq)
  finally show ?case .
qed

lemma le_value_less: "le_value bs < 256 ^ length bs"
proof (induction bs)
  case Nil
  then show ?case by simp
next
  case (Cons b bs)
  have "unat b < 256"
    using unsigned_less [of b] by simp
  with Cons show ?case by simp
qed

lemma le_bytes_value: "le_bytes (length bs) (le_value bs) = bs"
proof (induction bs)
  case Nil
  then show ?case by (simp add: le_bytes_def)
next
  case (Cons b bs)
  have b: "unat b < 256"
    using unsigned_less [of b] by simp
  have "unat (word_of_nat (unat b + 256 * le_value bs) :: byte) = unat b"
    using b by (simp only: unsigned_of_nat) (simp add: take_bit_eq_mod)
  then have "(word_of_nat (unat b + 256 * le_value bs) :: byte) = b"
    by (simp only: word_unat_eq_iff)
  moreover have "(unat b + 256 * le_value bs) div 256 = le_value bs"
    using b by simp
  ultimately show ?case
    using Cons by (simp add: le_bytes_Suc)
qed

subsection \<open>The wire representation\<close>

lemma to_bytes_on_be: "to_bytes_on bo (v :: 'a::len word) = rev (le_bytes (size_of TYPE('a word)) (unat v))"
  by (cases bo) (simp_all add: to_bytes_on_def mem_bytes_def Let_def map_nth_rev)

lemma to_bytes_length [simp, wire_simps]:
  "length (to_bytes_on bo (v :: 'a::len word)) = size_of TYPE('a word)"
  by (simp add: to_bytes_on_be)

lemma from_bytes_on_be:
  assumes "size_of TYPE('a word) \<le> length b"
  shows "from_bytes_on bo b = (word_of_nat (le_value (rev (take (size_of TYPE('a word)) b))) :: 'a::len word)"
  using assms
  by (cases bo) (simp_all add: from_bytes_on_def mem_value_def Let_def map_nth_rev_take)

lemma whole_bytes_power:
  assumes "8 dvd LENGTH('a::len)"
  shows "(256::nat) ^ size_of TYPE('a word) = 2 ^ LENGTH('a)"
proof -
  have "(256::nat) ^ size_of TYPE('a word) = 2 ^ (8 * (LENGTH('a) div 8))"
    by (simp add: size_of_def power_mult)
  then show ?thesis
    using assms by simp
qed

lemma from_to_bytes [wire_simps]:
  assumes "8 dvd LENGTH('a::len)"
  shows "from_bytes_on bo (to_bytes_on bo' v @ rest) = (v :: 'a word)"
proof -
  have "unat v < 256 ^ size_of TYPE('a word)"
    unfolding whole_bytes_power [OF assms] by (rule unsigned_less)
  then show ?thesis
    by (simp add: from_bytes_on_be to_bytes_on_be le_value_bytes)
qed

lemma to_from_bytes:
  assumes "8 dvd LENGTH('a::len)" and "length bs = size_of TYPE('a word)"
  shows "to_bytes_on bo (from_bytes_on bo' bs :: 'a word) = bs"
proof -
  have less: "le_value (rev bs) < 2 ^ LENGTH('a)"
    using le_value_less [of "rev bs"] assms by (simp flip: whole_bytes_power)
  then have "unat (from_bytes_on bo' bs :: 'a word) = le_value (rev bs)"
    using assms(2) by (simp add: from_bytes_on_be unsigned_of_nat take_bit_nat_eq_self)
  then have "to_bytes_on bo (from_bytes_on bo' bs :: 'a word)
      = rev (le_bytes (length (rev bs)) (le_value (rev bs)))"
    using assms(2) by (simp add: to_bytes_on_be)
  then show ?thesis
    by (simp only: le_bytes_value rev_rev_ident)
qed

lemma size_of_numeral [simp, wire_simps]:
  "size_of TYPE(8 word) = 1" "size_of TYPE(16 word) = 2"
  "size_of TYPE(32 word) = 4" "size_of TYPE(64 word) = 8"
  by (simp_all add: size_of_def)

subsection \<open>Cursors\<close>

lemma read_bytes_append [wire_simps]:
  assumes "8 dvd LENGTH('a::len)"
  shows "read_bytes (to_bytes_on bo v @ rest) = (v :: 'a word, rest)"
  using assms by (simp add: read_bytes_def from_to_bytes)

lemma fst_write_bytes [simp, wire_simps]: "fst (write_bytes v w) = fst w @ to_bytes v"
  by (simp add: write_bytes_def)

lemma snd_write_bytes [simp, wire_simps]:
  "snd (write_bytes v w) = drop (size_of TYPE('a word)) (snd w)" for v :: "'a::len word"
  by (simp add: write_bytes_def)

subsection \<open>Leading zeros\<close>

lemma bit_len_0 [simp]: "bit_len 0 = 0"
  by (simp add: bit_len.simps [of 0])

lemma bit_len_bounds: "n > 0 \<Longrightarrow> 2 ^ (bit_len n - 1) \<le> n \<and> n < 2 ^ bit_len n \<and> bit_len n > 0"
proof (induction n rule: bit_len.induct)
  case (1 n)
  show ?case
  proof (cases "n div 2 = 0")
    case True
    with "1.prems" have "n = Suc 0" by simp
    then show ?thesis by (simp add: bit_len.simps [of "Suc 0"])
  next
    case False
    with "1.IH" "1.prems" have ih: "2 ^ (bit_len (n div 2) - 1) \<le> n div 2"
      "n div 2 < 2 ^ bit_len (n div 2)" "bit_len (n div 2) > 0"
      by auto
    obtain k where k: "bit_len (n div 2) = Suc k"
      using ih(3) by (cases "bit_len (n div 2)") auto
    then have "bit_len n = Suc (Suc k)"
      using "1.prems" by (simp add: bit_len.simps [of n])
    then show ?thesis
      using ih k by auto
  qed
qed

lemma bit_len_le_iff: "bit_len n \<le> k \<longleftrightarrow> n < 2 ^ k"
proof (cases "n = 0")
  case True
  then show ?thesis by simp
next
  case False
  then have b: "2 ^ (bit_len n - 1) \<le> n" "n < 2 ^ bit_len n" "bit_len n > 0"
    using bit_len_bounds [of n] by auto
  show ?thesis
  proof
    assume "bit_len n \<le> k"
    then have "(2::nat) ^ bit_len n \<le> 2 ^ k" by simp
    with b(2) show "n < 2 ^ k" by linarith
  next
    assume "n < 2 ^ k"
    with b(1) have "(2::nat) ^ (bit_len n - 1) < 2 ^ k" by linarith
    with b(3) show "bit_len n \<le> k" by (simp add: power_strict_increasing_iff)
  qed
qed

lemma bit_len_eqI: "2 ^ k \<le> n \<Longrightarrow> n < 2 ^ Suc k \<Longrightarrow> bit_len n = Suc k"
  using bit_len_le_iff [of n k] bit_len_le_iff [of n "Suc k"] by linarith

lemma bit_len_u32: "bit_len (unat (i :: u32)) \<le> 32"
  using unsigned_less [of i] by (simp add: bit_len_le_iff)

lemma clz_bit_len: "32 - clz i = bit_len (unat i)"
  using bit_len_u32 [of i] by (simp add: clz_def)

end
