(* ===== verification/Low_Latency.thy ===== *)
theory Low_Latency
  imports Byte_Utils
begin

text \<open>
  \<^verbatim>\<open>aoo/src/low_latency.cpp\<close>: the packet header and the stream configuration of the
  low-latency transport, their validation and their wire format. Lemmas: encoding then decoding
  gives the header or the configuration back, and whatever decodes is valid and is exactly what
  the encoder would have written.
\<close>

unbundle bit_operations_syntax

subsection \<open>Data\<close>

record AooLowLatencyPacketHeader =
  ph_protocolVersion :: u16
  ph_headerSize :: u16
  ph_profile :: byte
  ph_pcmFormat :: byte
  ph_flags :: u16
  ph_streamId :: u64
  ph_sequence :: u32
  ph_absoluteSamplePosition :: u64
  ph_sourceTimestamp :: u64
  ph_blockFrames :: u16
  ph_fragmentIndex :: u16
  ph_fragmentCount :: u16
  ph_channelCount :: u16
  ph_payloadBytes :: u32

record AooLowLatencyStreamConfiguration =
  sc_protocolVersion :: u16
  sc_profile :: byte
  sc_pcmFormat :: byte
  sc_channelCount :: u16
  sc_blockFrames :: u16
  sc_datagramBytes :: u16
  sc_channelMapCount :: u16
  sc_sampleRate :: u32
  sc_targetLatencyFrames :: u32
  sc_capabilities :: u32
  sc_channelMap :: "byte list"

definition AOO_LOW_LATENCY_PROTOCOL_VERSION :: u16 where
  "AOO_LOW_LATENCY_PROTOCOL_VERSION = 1"
definition AOO_LOW_LATENCY_PACKET_HEADER_SIZE :: nat where
  "AOO_LOW_LATENCY_PACKET_HEADER_SIZE = 52"
definition AOO_LOW_LATENCY_STREAM_CONFIGURATION_SIZE :: nat where
  "AOO_LOW_LATENCY_STREAM_CONFIGURATION_SIZE = 92"
definition AOO_LOW_LATENCY_MAX_CHANNELS :: nat where
  "AOO_LOW_LATENCY_MAX_CHANNELS = 64"

definition kAooLowLatencyProfileDeterministicWired :: byte where
  "kAooLowLatencyProfileDeterministicWired = 1"
definition kAooLowLatencyProfileAdaptiveWireless :: byte where
  "kAooLowLatencyProfileAdaptiveWireless = 2"
definition kAooLowLatencyPcmFloat32 :: byte where
  "kAooLowLatencyPcmFloat32 = 1"
definition kAooLowLatencyPcmInt24 :: byte where
  "kAooLowLatencyPcmInt24 = 2"
definition kAooLowLatencyCapabilityDeadlineResend :: u32 where
  "kAooLowLatencyCapabilityDeadlineResend = 8"

definition kRequiredCapabilities :: u32 where
  "kRequiredCapabilities = 1 OR 2 OR 4"

definition kMagic :: "byte list" where
  "kMagic = [0x41, 0x4F, 0x4C, 0x4C]"
definition kConfigurationMagic :: "byte list" where
  "kConfigurationMagic = [0x41, 0x4F, 0x4C, 0x53]"

lemmas ll_const_defs =
  AOO_LOW_LATENCY_PROTOCOL_VERSION_def AOO_LOW_LATENCY_PACKET_HEADER_SIZE_def
  AOO_LOW_LATENCY_STREAM_CONFIGURATION_SIZE_def AOO_LOW_LATENCY_MAX_CHANNELS_def
  kAooLowLatencyProfileDeterministicWired_def kAooLowLatencyProfileAdaptiveWireless_def
  kAooLowLatencyPcmFloat32_def kAooLowLatencyPcmInt24_def
  kAooLowLatencyCapabilityDeadlineResend_def kRequiredCapabilities_def

subsection \<open>Validation\<close>

definition validProfile :: "byte \<Rightarrow> bool" where
  "validProfile profile \<longleftrightarrow>
     profile = kAooLowLatencyProfileDeterministicWired
     \<or> profile = kAooLowLatencyProfileAdaptiveWireless"

definition validPcmFormat :: "byte \<Rightarrow> bool" where
  "validPcmFormat format \<longleftrightarrow>
     format = kAooLowLatencyPcmFloat32 \<or> format = kAooLowLatencyPcmInt24"

definition validProfileFormat :: "byte \<Rightarrow> byte \<Rightarrow> bool" where
  "validProfileFormat profile format \<longleftrightarrow>
     (profile = kAooLowLatencyProfileDeterministicWired \<and> format = kAooLowLatencyPcmFloat32)
     \<or> (profile = kAooLowLatencyProfileAdaptiveWireless \<and> format = kAooLowLatencyPcmInt24)"

text \<open>The condition on the fields that the encoder and the decoder share.\<close>

definition validHeaderFields :: "AooLowLatencyPacketHeader \<Rightarrow> bool" where
  "validHeaderFields h \<longleftrightarrow>
     ph_protocolVersion h = AOO_LOW_LATENCY_PROTOCOL_VERSION
     \<and> unat (ph_headerSize h) = AOO_LOW_LATENCY_PACKET_HEADER_SIZE
     \<and> validProfile (ph_profile h)
     \<and> validPcmFormat (ph_pcmFormat h)
     \<and> validProfileFormat (ph_profile h) (ph_pcmFormat h)
     \<and> ph_blockFrames h \<noteq> 0
     \<and> \<not> (if ph_fragmentCount h = 0
           then ph_fragmentIndex h \<noteq> 0 \<or> ph_payloadBytes h \<noteq> 0
           else ph_fragmentIndex h \<ge> ph_fragmentCount h)
     \<and> ph_channelCount h \<noteq> 0
     \<and> \<not> unat (ph_channelCount h) > AOO_LOW_LATENCY_MAX_CHANNELS"

text \<open>
  The loop over the channel map: \<open>used\<close> is the set of channels marked so far, and the list holds
  the entries that are still to be looked at.
\<close>

fun check_channel_map :: "nat set \<Rightarrow> byte list \<Rightarrow> bool" where
  "check_channel_map used [] = True"
| "check_channel_map used (channel # rest) =
     (if unat channel \<ge> AOO_LOW_LATENCY_MAX_CHANNELS \<or> unat channel \<in> used then False
      else check_channel_map (insert (unat channel) used) rest)"

definition aoo_lowLatencyStreamConfigurationValidate ::
    "AooLowLatencyStreamConfiguration option \<Rightarrow> AooError" where
  "aoo_lowLatencyStreamConfigurationValidate configuration =
     (case configuration of
        None \<Rightarrow> kAooErrorBadArgument
      | Some c \<Rightarrow>
         if sc_protocolVersion c \<noteq> AOO_LOW_LATENCY_PROTOCOL_VERSION
            \<or> \<not> validProfile (sc_profile c)
            \<or> \<not> validPcmFormat (sc_pcmFormat c)
            \<or> sc_channelCount c = 0
            \<or> unat (sc_channelCount c) > AOO_LOW_LATENCY_MAX_CHANNELS
            \<or> sc_channelMapCount c \<noteq> sc_channelCount c
            \<or> sc_blockFrames c < 16
            \<or> sc_sampleRate c < 8000
            \<or> sc_sampleRate c > 384000
            \<or> sc_datagramBytes c < 256
            \<or> unat (sc_datagramBytes c) > AOO_MAX_PACKET_SIZE
            \<or> unat (sc_targetLatencyFrames c) < unat (sc_blockFrames c)
            \<or> (sc_capabilities c AND kRequiredCapabilities) \<noteq> kRequiredCapabilities
         then kAooErrorBadArgument
         else if sc_profile c = kAooLowLatencyProfileDeterministicWired
            \<and> sc_pcmFormat c \<noteq> kAooLowLatencyPcmFloat32
         then kAooErrorBadArgument
         else if sc_profile c = kAooLowLatencyProfileAdaptiveWireless
            \<and> (sc_pcmFormat c \<noteq> kAooLowLatencyPcmInt24
               \<or> (sc_capabilities c AND kAooLowLatencyCapabilityDeadlineResend) = 0)
         then kAooErrorBadArgument
         else if \<not> check_channel_map {} (take (unat (sc_channelMapCount c)) (sc_channelMap c))
         then kAooErrorBadArgument
         else kAooOk)"

subsection \<open>Encoding and decoding\<close>

definition aoo_lowLatencyPacketHeaderEncode ::
    "AooLowLatencyPacketHeader option \<Rightarrow> byte list option \<Rightarrow> AooError + byte list" where
  "aoo_lowLatencyPacketHeaderEncode header destination =
     (case (header, destination) of
        (Some h, Some dest) \<Rightarrow>
          if length dest < AOO_LOW_LATENCY_PACKET_HEADER_SIZE \<or> \<not> validHeaderFields h
          then Inl kAooErrorBadArgument
          else
            let it = (kMagic, drop (length kMagic) dest);
                it = write_bytes (ph_protocolVersion h) it;
                it = write_bytes (ph_headerSize h) it;
                it = write_bytes (ph_profile h) it;
                it = write_bytes (ph_pcmFormat h) it;
                it = write_bytes (ph_flags h) it;
                it = write_bytes (ph_streamId h) it;
                it = write_bytes (ph_sequence h) it;
                it = write_bytes (ph_absoluteSamplePosition h) it;
                it = write_bytes (ph_sourceTimestamp h) it;
                it = write_bytes (ph_blockFrames h) it;
                it = write_bytes (ph_fragmentIndex h) it;
                it = write_bytes (ph_fragmentCount h) it;
                it = write_bytes (ph_channelCount h) it;
                it = write_bytes (ph_payloadBytes h) it
            in Inr (fst it @ snd it)
      | _ \<Rightarrow> Inl kAooErrorBadArgument)"

definition read_header :: "byte list \<Rightarrow> AooLowLatencyPacketHeader" where
  "read_header it =
     (let (protocolVersion, it) = read_bytes it;
          (headerSize, it) = read_bytes it;
          (profile, it) = read_bytes it;
          (pcmFormat, it) = read_bytes it;
          (flags, it) = read_bytes it;
          (streamId, it) = read_bytes it;
          (sequence, it) = read_bytes it;
          (absoluteSamplePosition, it) = read_bytes it;
          (sourceTimestamp, it) = read_bytes it;
          (blockFrames, it) = read_bytes it;
          (fragmentIndex, it) = read_bytes it;
          (fragmentCount, it) = read_bytes it;
          (channelCount, it) = read_bytes it;
          (payloadBytes, it) = read_bytes it
      in \<lparr> ph_protocolVersion = protocolVersion, ph_headerSize = headerSize,
           ph_profile = profile, ph_pcmFormat = pcmFormat, ph_flags = flags,
           ph_streamId = streamId, ph_sequence = sequence,
           ph_absoluteSamplePosition = absoluteSamplePosition,
           ph_sourceTimestamp = sourceTimestamp, ph_blockFrames = blockFrames,
           ph_fragmentIndex = fragmentIndex, ph_fragmentCount = fragmentCount,
           ph_channelCount = channelCount, ph_payloadBytes = payloadBytes \<rparr>)"

definition aoo_lowLatencyPacketHeaderDecode ::
    "byte list option \<Rightarrow> AooError + AooLowLatencyPacketHeader" where
  "aoo_lowLatencyPacketHeaderDecode source =
     (case source of
        None \<Rightarrow> Inl kAooErrorBadFormat
      | Some src \<Rightarrow>
         if length src < AOO_LOW_LATENCY_PACKET_HEADER_SIZE
            \<or> take (length kMagic) src \<noteq> kMagic
         then Inl kAooErrorBadFormat
         else
           let decoded = read_header (drop (length kMagic) src)
           in if \<not> validHeaderFields decoded
                 \<or> unat (ph_headerSize decoded) > length src
                 \<or> unat (ph_payloadBytes decoded) > length src - unat (ph_headerSize decoded)
              then Inl kAooErrorBadFormat
              else Inr decoded)"

definition aoo_lowLatencyStreamConfigurationEncode ::
    "AooLowLatencyStreamConfiguration option \<Rightarrow> byte list option \<Rightarrow> AooError + byte list" where
  "aoo_lowLatencyStreamConfigurationEncode configuration destination =
     (case (configuration, destination) of
        (Some c, Some dest) \<Rightarrow>
          if length dest < AOO_LOW_LATENCY_STREAM_CONFIGURATION_SIZE
             \<or> aoo_lowLatencyStreamConfigurationValidate (Some c) \<noteq> kAooOk
          then Inl kAooErrorBadArgument
          else
            let it = (kConfigurationMagic, drop (length kConfigurationMagic) dest);
                it = write_bytes (sc_protocolVersion c) it;
                it = write_bytes (sc_profile c) it;
                it = write_bytes (sc_pcmFormat c) it;
                it = write_bytes (sc_channelCount c) it;
                it = write_bytes (sc_blockFrames c) it;
                it = write_bytes (sc_datagramBytes c) it;
                it = write_bytes (sc_channelMapCount c) it;
                it = write_bytes (sc_sampleRate c) it;
                it = write_bytes (sc_targetLatencyFrames c) it;
                it = write_bytes (sc_capabilities c) it
            in Inr (fst it @ sc_channelMap c
                    @ drop AOO_LOW_LATENCY_MAX_CHANNELS (snd it))
      | _ \<Rightarrow> Inl kAooErrorBadArgument)"

definition read_configuration :: "byte list \<Rightarrow> AooLowLatencyStreamConfiguration" where
  "read_configuration it =
     (let (protocolVersion, it) = read_bytes it;
          (profile, it) = read_bytes it;
          (pcmFormat, it) = read_bytes it;
          (channelCount, it) = read_bytes it;
          (blockFrames, it) = read_bytes it;
          (datagramBytes, it) = read_bytes it;
          (channelMapCount, it) = read_bytes it;
          (sampleRate, it) = read_bytes it;
          (targetLatencyFrames, it) = read_bytes it;
          (capabilities, it) = read_bytes it
      in \<lparr> sc_protocolVersion = protocolVersion, sc_profile = profile,
           sc_pcmFormat = pcmFormat, sc_channelCount = channelCount,
           sc_blockFrames = blockFrames, sc_datagramBytes = datagramBytes,
           sc_channelMapCount = channelMapCount, sc_sampleRate = sampleRate,
           sc_targetLatencyFrames = targetLatencyFrames, sc_capabilities = capabilities,
           sc_channelMap = take AOO_LOW_LATENCY_MAX_CHANNELS it \<rparr>)"

definition aoo_lowLatencyStreamConfigurationDecode ::
    "byte list option \<Rightarrow> AooError + AooLowLatencyStreamConfiguration" where
  "aoo_lowLatencyStreamConfigurationDecode source =
     (case source of
        None \<Rightarrow> Inl kAooErrorBadFormat
      | Some src \<Rightarrow>
         if length src \<noteq> AOO_LOW_LATENCY_STREAM_CONFIGURATION_SIZE
            \<or> take (length kConfigurationMagic) src \<noteq> kConfigurationMagic
         then Inl kAooErrorBadFormat
         else
           let decoded = read_configuration (drop (length kConfigurationMagic) src)
           in if aoo_lowLatencyStreamConfigurationValidate (Some decoded) \<noteq> kAooOk
              then Inl kAooErrorBadFormat
              else Inr decoded)"

subsection \<open>The wire image\<close>

text \<open>What the encoders write, as one concatenation.\<close>

definition header_image :: "AooLowLatencyPacketHeader \<Rightarrow> byte list" where
  "header_image h =
     kMagic @ to_bytes (ph_protocolVersion h) @ to_bytes (ph_headerSize h)
     @ to_bytes (ph_profile h) @ to_bytes (ph_pcmFormat h) @ to_bytes (ph_flags h)
     @ to_bytes (ph_streamId h) @ to_bytes (ph_sequence h)
     @ to_bytes (ph_absoluteSamplePosition h) @ to_bytes (ph_sourceTimestamp h)
     @ to_bytes (ph_blockFrames h) @ to_bytes (ph_fragmentIndex h)
     @ to_bytes (ph_fragmentCount h) @ to_bytes (ph_channelCount h)
     @ to_bytes (ph_payloadBytes h)"

definition configuration_image :: "AooLowLatencyStreamConfiguration \<Rightarrow> byte list" where
  "configuration_image c =
     kConfigurationMagic @ to_bytes (sc_protocolVersion c) @ to_bytes (sc_profile c)
     @ to_bytes (sc_pcmFormat c) @ to_bytes (sc_channelCount c)
     @ to_bytes (sc_blockFrames c) @ to_bytes (sc_datagramBytes c)
     @ to_bytes (sc_channelMapCount c) @ to_bytes (sc_sampleRate c)
     @ to_bytes (sc_targetLatencyFrames c) @ to_bytes (sc_capabilities c)
     @ sc_channelMap c"

lemma magic_lengths [simp]: "length kMagic = 4" "length kConfigurationMagic = 4"
  by (simp_all add: kMagic_def kConfigurationMagic_def)

lemma header_image_length [simp]: "length (header_image h) = AOO_LOW_LATENCY_PACKET_HEADER_SIZE"
  by (simp add: header_image_def ll_const_defs)

lemma configuration_image_length:
  "length (sc_channelMap c) = AOO_LOW_LATENCY_MAX_CHANNELS \<Longrightarrow>
   length (configuration_image c) = AOO_LOW_LATENCY_STREAM_CONFIGURATION_SIZE"
  by (simp add: configuration_image_def ll_const_defs)

lemma encode_header_image:
  assumes "AOO_LOW_LATENCY_PACKET_HEADER_SIZE \<le> length dest" and "validHeaderFields h"
  shows "aoo_lowLatencyPacketHeaderEncode (Some h) (Some dest)
         = Inr (header_image h @ drop AOO_LOW_LATENCY_PACKET_HEADER_SIZE dest)"
  using assms
  by (simp add: aoo_lowLatencyPacketHeaderEncode_def header_image_def ll_const_defs Let_def)

lemma encode_configuration_image:
  assumes "AOO_LOW_LATENCY_STREAM_CONFIGURATION_SIZE \<le> length dest"
    and "aoo_lowLatencyStreamConfigurationValidate (Some c) = kAooOk"
  shows "aoo_lowLatencyStreamConfigurationEncode (Some c) (Some dest)
         = Inr (configuration_image c @ drop AOO_LOW_LATENCY_STREAM_CONFIGURATION_SIZE dest)"
  using assms
  by (simp add: aoo_lowLatencyStreamConfigurationEncode_def configuration_image_def
      ll_const_defs Let_def)

lemma read_header_image:
  "read_header (drop (length kMagic) (header_image h @ rest)) = h"
  by (simp add: read_header_def header_image_def Let_def wire_simps)

lemma read_configuration_image:
  "length (sc_channelMap c) = AOO_LOW_LATENCY_MAX_CHANNELS \<Longrightarrow>
   read_configuration (drop (length kConfigurationMagic) (configuration_image c)) = c"
  by (simp add: read_configuration_def configuration_image_def Let_def wire_simps)

subsection \<open>Decoding is exact\<close>

text \<open>
  Reading a field and writing it back gives the bytes it came from, so a decoded header or
  configuration determines the bytes of the input it was read from.
\<close>

lemma to_bytes_from_prefix:
  assumes "8 dvd LENGTH('a::len)" and "size_of TYPE('a word) \<le> length b"
  shows "to_bytes (from_bytes b :: 'a word) = take (size_of TYPE('a word)) b"
proof -
  let ?n = "size_of TYPE('a word)"
  have "(from_bytes b :: 'a word) = from_bytes (take ?n b)"
    using assms(2) by (simp add: from_bytes_on_be)
  then show ?thesis
    using assms by (simp add: to_from_bytes)
qed

lemma take_take_drop:
  "k = n \<Longrightarrow> take n xs @ take m (drop k xs) @ r = take (n + m) xs @ r"
  "k = n \<Longrightarrow> take n xs @ take m (drop k xs) = take (n + m) xs"
  by (simp_all add: take_add)

lemma header_image_read:
  assumes "48 \<le> length b"
  shows "header_image (read_header b) = kMagic @ take 48 b"
  using assms
  by (simp add: header_image_def read_header_def read_bytes_def to_bytes_from_prefix
      take_take_drop)

lemma configuration_image_read:
  assumes "88 \<le> length b"
  shows "configuration_image (read_configuration b) = kConfigurationMagic @ take 88 b"
  using assms
  by (simp add: configuration_image_def read_configuration_def read_bytes_def
      to_bytes_from_prefix take_take_drop ll_const_defs)

lemma decode_header_eq:
  "aoo_lowLatencyPacketHeaderDecode (Some src) = Inr h \<longleftrightarrow>
   validHeaderFields h \<and> (\<exists>rest. src = header_image h @ rest
     \<and> unat (ph_payloadBytes h) \<le> length rest)" (is "?L \<longleftrightarrow> ?R")
proof
  assume ?L
  then have len: "52 \<le> length src" and magic: "take 4 src = kMagic"
    and h: "h = read_header (drop 4 src)" and ok: "validHeaderFields h"
    and pay: "\<not> unat (ph_payloadBytes h) > length src - unat (ph_headerSize h)"
    by (auto simp: aoo_lowLatencyPacketHeaderDecode_def Let_def ll_const_defs split: if_splits)
  have "header_image h = take 4 src @ take 48 (drop 4 src)"
    using len by (simp add: h header_image_read magic)
  then have "src = header_image h @ drop 52 src"
    by (simp add: take_add [symmetric])
  moreover have "unat (ph_headerSize h) = 52"
    using ok by (simp add: validHeaderFields_def ll_const_defs)
  ultimately show ?R
    using ok pay by (metis (no_types) length_drop linorder_not_less)
next
  assume ?R
  then obtain rest where ok: "validHeaderFields h" and src: "src = header_image h @ rest"
    and pay: "unat (ph_payloadBytes h) \<le> length rest" by blast
  have "read_header (drop 4 src) = h"
    using read_header_image [of h rest] by (simp add: src)
  moreover have "take 4 src = kMagic"
    by (simp add: src header_image_def)
  moreover have "unat (ph_headerSize h) = 52"
    using ok by (simp add: validHeaderFields_def ll_const_defs)
  ultimately show ?L
    using ok pay by (simp add: aoo_lowLatencyPacketHeaderDecode_def Let_def src
        ll_const_defs)
qed

lemma decode_configuration_eq:
  "aoo_lowLatencyStreamConfigurationDecode (Some src) = Inr c \<longleftrightarrow>
   aoo_lowLatencyStreamConfigurationValidate (Some c) = kAooOk
   \<and> length (sc_channelMap c) = AOO_LOW_LATENCY_MAX_CHANNELS
   \<and> src = configuration_image c" (is "?L \<longleftrightarrow> ?R")
proof
  assume ?L
  then have len: "length src = 92" and magic: "take 4 src = kConfigurationMagic"
    and c: "c = read_configuration (drop 4 src)"
    and ok: "aoo_lowLatencyStreamConfigurationValidate (Some c) = kAooOk"
    by (auto simp: aoo_lowLatencyStreamConfigurationDecode_def Let_def ll_const_defs
        split: if_splits)
  have "configuration_image c = take 4 src @ take 88 (drop 4 src)"
    using len by (simp add: c configuration_image_read magic)
  then have "src = configuration_image c"
    using len by (simp add: take_add [symmetric])
  moreover have "length (sc_channelMap c) = 64"
    using len by (simp add: c read_configuration_def read_bytes_def Let_def ll_const_defs)
  ultimately show ?R
    using ok by (simp add: ll_const_defs)
next
  assume r: ?R
  then have "read_configuration (drop 4 src) = c"
    using read_configuration_image [of c] by simp
  moreover have "take 4 src = kConfigurationMagic"
    using r by (simp add: configuration_image_def)
  ultimately show ?L
    using r by (simp add: aoo_lowLatencyStreamConfigurationDecode_def Let_def
        configuration_image_length)
qed

lemma check_channel_map_iff:
  "check_channel_map used cs \<longleftrightarrow>
   distinct cs \<and> (\<forall>c\<in>set cs. unat c < AOO_LOW_LATENCY_MAX_CHANNELS \<and> unat c \<notin> used)"
proof (induction cs arbitrary: used)
  case Nil
  then show ?case by simp
next
  case (Cons c cs)
  show ?case
    by (auto simp: Cons.IH not_le dest: word_unat_eq_iff [THEN iffD2])
qed

subsection \<open>Properties\<close>

text \<open>
  C24. Encoding a header into a buffer and decoding the buffer, followed by any payload of at least
  the declared size, gives the header back; the bytes after the header are untouched.
\<close>

theorem packet_header_roundtrip:
  assumes "validHeaderFields h" and "AOO_LOW_LATENCY_PACKET_HEADER_SIZE \<le> length dest"
    and "unat (ph_payloadBytes h) \<le> length dest - AOO_LOW_LATENCY_PACKET_HEADER_SIZE"
  shows "\<exists>out. aoo_lowLatencyPacketHeaderEncode (Some h) (Some dest) = Inr out
           \<and> length out = length dest
           \<and> drop AOO_LOW_LATENCY_PACKET_HEADER_SIZE out
               = drop AOO_LOW_LATENCY_PACKET_HEADER_SIZE dest
           \<and> aoo_lowLatencyPacketHeaderDecode (Some out) = Inr h"
  using assms by (simp add: encode_header_image decode_header_eq)

definition example_header :: AooLowLatencyPacketHeader where
  "example_header =
     \<lparr> ph_protocolVersion = 1, ph_headerSize = 52, ph_profile = 1, ph_pcmFormat = 1,
       ph_flags = 3, ph_streamId = 0x123456789, ph_sequence = 77,
       ph_absoluteSamplePosition = 4928, ph_sourceTimestamp = 0xE000000080000000,
       ph_blockFrames = 64, ph_fragmentIndex = 1, ph_fragmentCount = 2,
       ph_channelCount = 2, ph_payloadBytes = 8 \<rparr>"

lemma example_header_valid: "validHeaderFields example_header"
  by (simp add: example_header_def validHeaderFields_def validProfile_def validPcmFormat_def
      validProfileFormat_def ll_const_defs word_le_nat_alt)

theorem packet_header_roundtrip_witness:
  "validHeaderFields example_header
   \<and> (\<exists>out. aoo_lowLatencyPacketHeaderEncode (Some example_header) (Some (replicate 60 0)) = Inr out
        \<and> length out = 60
        \<and> aoo_lowLatencyPacketHeaderDecode (Some out) = Inr example_header)"
  using example_header_valid packet_header_roundtrip [of example_header "replicate 60 0"]
  by (auto simp: example_header_def ll_const_defs)

text \<open>
  A datagram that decodes starts with exactly the bytes the encoder writes for the decoded
  header, that header satisfies every field check, and the payload it declares lies inside the
  datagram. Every other datagram is refused with \<^const>\<open>kAooErrorBadFormat\<close>.
\<close>

theorem packet_header_decode_exact:
  "aoo_lowLatencyPacketHeaderDecode (Some src) =
     (if \<exists>h rest. src = header_image h @ rest \<and> validHeaderFields h
          \<and> unat (ph_payloadBytes h) \<le> length rest
      then Inr (read_header (drop 4 src)) else Inl kAooErrorBadFormat)"
proof (cases "aoo_lowLatencyPacketHeaderDecode (Some src)")
  case (Inl e)
  then have "e = kAooErrorBadFormat"
    by (auto simp: aoo_lowLatencyPacketHeaderDecode_def Let_def split: if_splits)
  moreover have "\<not> (\<exists>h rest. src = header_image h @ rest \<and> validHeaderFields h
      \<and> unat (ph_payloadBytes h) \<le> length rest)"
    using Inl decode_header_eq [of src] by (metis Inl_Inr_False)
  ultimately show ?thesis
    using Inl by simp
next
  case (Inr h)
  then obtain rest where h: "src = header_image h @ rest" "validHeaderFields h"
    "unat (ph_payloadBytes h) \<le> length rest"
    using decode_header_eq [of src h] by blast
  then have "read_header (drop 4 src) = h"
    using read_header_image [of h rest] by simp
  with Inr h show ?thesis by auto
qed

text \<open>
  C25. A stream configuration that validates survives encoding and decoding: the bytes that the encoder writes are the only
  bytes that decode to it. Conversely, whatever decodes at all is the image of a valid configuration: the decoded
  configuration validates, and encoding it again gives the same bytes.
\<close>

theorem stream_configuration_roundtrip:
  assumes "aoo_lowLatencyStreamConfigurationValidate (Some c) = kAooOk"
    and "length (sc_channelMap c) = AOO_LOW_LATENCY_MAX_CHANNELS"
    and "length dest = AOO_LOW_LATENCY_STREAM_CONFIGURATION_SIZE"
  shows "(\<exists>out. aoo_lowLatencyStreamConfigurationEncode (Some c) (Some dest) = Inr out
           \<and> (\<forall>src. aoo_lowLatencyStreamConfigurationDecode (Some src) = Inr c \<longleftrightarrow> src = out)) \<and>
         (\<forall>src c'. aoo_lowLatencyStreamConfigurationDecode (Some src) = Inr c' \<longrightarrow>
            aoo_lowLatencyStreamConfigurationValidate (Some c') = kAooOk
            \<and> aoo_lowLatencyStreamConfigurationEncode (Some c') (Some dest) = Inr src)"
  using assms by (auto simp: encode_configuration_image decode_configuration_eq)

definition example_configuration :: AooLowLatencyStreamConfiguration where
  "example_configuration =
     \<lparr> sc_protocolVersion = 1, sc_profile = 2, sc_pcmFormat = 2, sc_channelCount = 2,
       sc_blockFrames = 64, sc_datagramBytes = 1024, sc_channelMapCount = 2,
       sc_sampleRate = 48000, sc_targetLatencyFrames = 256, sc_capabilities = 15,
       sc_channelMap = [1, 0] @ replicate 62 0 \<rparr>"

lemma example_configuration_valid:
  "aoo_lowLatencyStreamConfigurationValidate (Some example_configuration) = kAooOk"
  by (simp add: example_configuration_def aoo_lowLatencyStreamConfigurationValidate_def
      validProfile_def validPcmFormat_def ll_const_defs AOO_MAX_PACKET_SIZE_def)

theorem stream_configuration_roundtrip_witness:
  "\<exists>out. aoo_lowLatencyStreamConfigurationEncode (Some example_configuration)
           (Some (replicate 92 0)) = Inr out
     \<and> aoo_lowLatencyStreamConfigurationDecode (Some out) = Inr example_configuration"
  using stream_configuration_roundtrip [of example_configuration "replicate 92 0",
      OF example_configuration_valid]
  by (auto simp: example_configuration_def ll_const_defs)

text \<open>
  A validated configuration is safe to use: its channel map has no duplicate and no channel
  beyond the limit, a block fits in the target latency, a datagram fits in a packet, and the
  sample format is the one its profile prescribes.
\<close>

theorem stream_configuration_validate_sound:
  assumes "aoo_lowLatencyStreamConfigurationValidate (Some c) = kAooOk"
  shows "distinct (take (unat (sc_channelCount c)) (sc_channelMap c))
    \<and> (\<forall>ch\<in>set (take (unat (sc_channelCount c)) (sc_channelMap c)).
         unat ch < AOO_LOW_LATENCY_MAX_CHANNELS)
    \<and> 0 < unat (sc_channelCount c)
    \<and> unat (sc_channelCount c) \<le> AOO_LOW_LATENCY_MAX_CHANNELS
    \<and> unat (sc_blockFrames c) \<le> unat (sc_targetLatencyFrames c)
    \<and> 16 \<le> unat (sc_blockFrames c)
    \<and> unat (sc_datagramBytes c) \<le> AOO_MAX_PACKET_SIZE
    \<and> validProfileFormat (sc_profile c) (sc_pcmFormat c)"
proof -
  have "\<not> sc_blockFrames c < 16" "sc_channelCount c \<noteq> 0"
    "check_channel_map {} (take (unat (sc_channelCount c)) (sc_channelMap c))"
    "\<not> unat (sc_channelCount c) > AOO_LOW_LATENCY_MAX_CHANNELS"
    "\<not> unat (sc_datagramBytes c) > AOO_MAX_PACKET_SIZE"
    "\<not> unat (sc_targetLatencyFrames c) < unat (sc_blockFrames c)"
    "validProfileFormat (sc_profile c) (sc_pcmFormat c)"
    using assms
    by (auto simp: aoo_lowLatencyStreamConfigurationValidate_def validProfileFormat_def
        validProfile_def split: if_splits)
  then show ?thesis
    by (simp add: check_channel_map_iff word_less_nat_alt not_less unat_gt_0)
qed

theorem stream_configuration_validate_sound_witness:
  "distinct (take 2 (sc_channelMap example_configuration))
   \<and> unat (sc_channelCount example_configuration) = 2
   \<and> validProfileFormat (sc_profile example_configuration) (sc_pcmFormat example_configuration)"
  using stream_configuration_validate_sound [OF example_configuration_valid]
  by (simp add: example_configuration_def)

end
