(* ===== verification/Net_Address.thy ===== *)
theory Net_Address
  imports Byte_Utils
begin

text \<open>
  The class \<^verbatim>\<open>ip_address\<close> of \<^verbatim>\<open>common/net_utils.hpp\<close>, as far as it is pure: a socket address of
  family IPv4 or IPv6 (or none), its port and its address bytes, equality, hashing, and the
  IPv4-mapped form. The port and the address are kept as they lie in the \<^verbatim>\<open>sockaddr\<close>, in
  network byte order. Name resolution is the operating system's and is not part of the model.
\<close>

unbundle bit_operations_syntax

subsection \<open>Definitions\<close>

datatype sa_family = AF_UNSPEC | AF_INET | AF_INET6

datatype ip_type = Unspec | IPv4 | IPv6

record ip_address =
  sa_family :: sa_family
  sin_port :: "byte list"
  sin_addr :: "byte list"

definition ip_clear :: ip_address where
  "ip_clear = \<lparr> sa_family = AF_UNSPEC, sin_port = [0, 0], sin_addr = [] \<rparr>"

definition htons :: "u16 \<Rightarrow> byte list" where
  "htons p = to_bytes p"

definition ntohs :: "byte list \<Rightarrow> u16" where
  "ntohs bs = from_bytes bs"

definition ip_from_bytes :: "byte list \<Rightarrow> u16 \<Rightarrow> ip_type \<Rightarrow> ip_address" where
  "ip_from_bytes bytes p ty =
     (case ty of
        IPv6 \<Rightarrow> \<lparr> sa_family = AF_INET6, sin_port = htons p, sin_addr = take 16 bytes \<rparr>
      | IPv4 \<Rightarrow> \<lparr> sa_family = AF_INET, sin_port = htons p, sin_addr = take 4 bytes \<rparr>
      | Unspec \<Rightarrow> ip_clear)"

definition ip_equal :: "ip_address \<Rightarrow> ip_address \<Rightarrow> bool" where
  "ip_equal a b =
     (if sa_family a = sa_family b
      then (case sa_family a of
              AF_INET \<Rightarrow> sin_addr a = sin_addr b \<and> sin_port a = sin_port b
            | AF_INET6 \<Rightarrow> sin_addr a = sin_addr b \<and> sin_port a = sin_port b
            | AF_UNSPEC \<Rightarrow> False)
      else False)"

text \<open>The hash reads the address in machine words, on a little-endian machine.\<close>

definition ip_hash :: "ip_address \<Rightarrow> u64" where
  "ip_hash a =
     (case sa_family a of
        AF_INET6 \<Rightarrow>
          let w = (\<lambda>i. mem_value LITTLE_ENDIAN (take 4 (drop (4 * i) (sin_addr a))) :: u64);
              st = mem_value LITTLE_ENDIAN (sin_port a) :: u64;
              st = push_bit 1 st XOR w 0;
              st = push_bit 1 st XOR w 1;
              st = push_bit 1 st XOR w 2;
              st = push_bit 1 st XOR w 3
          in st
      | AF_INET \<Rightarrow>
          push_bit 1 (mem_value LITTLE_ENDIAN (sin_port a)) XOR mem_value LITTLE_ENDIAN (sin_addr a)
      | AF_UNSPEC \<Rightarrow> 0)"

definition ip_port :: "ip_address \<Rightarrow> u16" where
  "ip_port a =
     (case sa_family a of AF_INET \<Rightarrow> ntohs (sin_port a) | AF_INET6 \<Rightarrow> ntohs (sin_port a)
      | AF_UNSPEC \<Rightarrow> 0)"

definition ip_address_size :: "ip_address \<Rightarrow> nat" where
  "ip_address_size a = (case sa_family a of AF_INET \<Rightarrow> 4 | AF_INET6 \<Rightarrow> 16 | AF_UNSPEC \<Rightarrow> 0)"

definition ip_valid :: "ip_address \<Rightarrow> bool" where
  "ip_valid a \<longleftrightarrow> sa_family a \<noteq> AF_UNSPEC"

definition ip_type_of :: "ip_address \<Rightarrow> ip_type" where
  "ip_type_of a = (case sa_family a of AF_INET \<Rightarrow> IPv4 | AF_INET6 \<Rightarrow> IPv6 | AF_UNSPEC \<Rightarrow> Unspec)"

text \<open>The prefix of an IPv4-mapped address: five zero words and a word of ones.\<close>

definition mapped_prefix :: "byte list" where
  "mapped_prefix = replicate 10 0 @ [0xFF, 0xFF]"

definition is_ipv4_mapped :: "ip_address \<Rightarrow> bool" where
  "is_ipv4_mapped a \<longleftrightarrow> sa_family a = AF_INET6 \<and> take 12 (sin_addr a) = mapped_prefix"

definition ipv4_mapped :: "ip_address \<Rightarrow> ip_address" where
  "ipv4_mapped a =
     (if sa_family a = AF_INET
      then ip_from_bytes (mapped_prefix @ take 4 (sin_addr a)) (ip_port a) IPv6
      else a)"

definition unmapped :: "ip_address \<Rightarrow> ip_address" where
  "unmapped a =
     (if is_ipv4_mapped a then ip_from_bytes (drop 12 (sin_addr a)) (ip_port a) IPv4 else a)"

text \<open>Addresses as the constructors and the socket calls make them.\<close>

definition ip_wf :: "ip_address \<Rightarrow> bool" where
  "ip_wf a \<longleftrightarrow> length (sin_port a) = 2 \<and> length (sin_addr a) = ip_address_size a"

subsection \<open>Lemmas\<close>

lemmas ip_defs = ip_address_size_def ip_valid_def ip_type_of_def ip_port_def

lemma ntohs_htons [simp]: "ntohs (htons p) = p"
  using from_to_bytes [of LITTLE_ENDIAN LITTLE_ENDIAN p "[]"] by (simp add: ntohs_def htons_def)

lemma htons_ntohs [simp]: "length bs = 2 \<Longrightarrow> htons (ntohs bs) = bs"
  by (simp add: ntohs_def htons_def to_from_bytes)

lemma htons_length [simp]: "length (htons p) = 2"
  by (simp add: htons_def)

lemma ip_from_bytes_wf:
  "length bs = (case ty of IPv6 \<Rightarrow> 16 | IPv4 \<Rightarrow> 4 | Unspec \<Rightarrow> length bs) \<Longrightarrow>
   ip_wf (ip_from_bytes bs p ty)"
  by (cases ty) (simp_all add: ip_wf_def ip_from_bytes_def ip_defs ip_clear_def)

lemma ip_from_bytes_inverse:
  "ip_wf a \<Longrightarrow> ip_valid a \<Longrightarrow> ip_from_bytes (sin_addr a) (ip_port a) (ip_type_of a) = a"
  by (cases a; cases "sa_family a") (simp_all add: ip_wf_def ip_from_bytes_def ip_defs)

lemma ip_type_from_bytes [simp]: "ip_type_of (ip_from_bytes bs p ty) = ty"
  by (cases ty) (simp_all add: ip_from_bytes_def ip_defs ip_clear_def)

lemma ip_equal_iff: "ip_equal a b \<longleftrightarrow> ip_valid a \<and> a = b" for a b :: ip_address
  by (cases a; cases b) (auto simp: ip_equal_def ip_valid_def split: sa_family.splits)

lemma mapped_prefix_length [simp]: "length mapped_prefix = 12"
  by (simp add: mapped_prefix_def)

lemma ipv4_mapped_wf: "ip_wf a \<Longrightarrow> ip_wf (ipv4_mapped a)"
  by (auto simp: ipv4_mapped_def ip_from_bytes_def ip_wf_def ip_defs)

lemma unmapped_wf: "ip_wf a \<Longrightarrow> ip_wf (unmapped a)"
  by (auto simp: unmapped_def ip_wf_def is_ipv4_mapped_def ip_defs ip_from_bytes_def)

lemma is_ipv4_mapped_mapped:
  "sa_family a = AF_INET \<Longrightarrow> is_ipv4_mapped (ipv4_mapped a)"
  by (simp add: is_ipv4_mapped_def ipv4_mapped_def ip_from_bytes_def)

lemma unmapped_not_mapped: "\<not> is_ipv4_mapped (unmapped a)"
  by (auto simp: unmapped_def is_ipv4_mapped_def ip_from_bytes_def)

lemma not_mapped_first:
  assumes "sin_addr a ! 0 \<noteq> 0" and "sin_addr a \<noteq> []"
  shows "\<not> is_ipv4_mapped a"
proof
  assume "is_ipv4_mapped a"
  then have "take 12 (sin_addr a) ! 0 = mapped_prefix ! 0"
    by (simp add: is_ipv4_mapped_def)
  also have "mapped_prefix ! 0 = 0"
    by (simp add: mapped_prefix_def nth_append)
  finally show False
    using assms by simp
qed

text \<open>
  Mapping an IPv4 address into IPv6 and unmapping it gives the address back, port included; the
  mapped form is recognised as such, and unmapping never yields a mapped address.
\<close>

theorem ipv4_mapped_roundtrip:
  assumes "ip_wf a" and "ip_type_of a = IPv4"
  shows "unmapped (ipv4_mapped a) = a \<and> is_ipv4_mapped (ipv4_mapped a)
    \<and> ip_port (ipv4_mapped a) = ip_port a \<and> \<not> is_ipv4_mapped a"
proof -
  have fam: "sa_family a = AF_INET"
    using assms(2) by (cases "sa_family a") (simp_all add: ip_defs)
  then have "unmapped (ipv4_mapped a) = a"
    using assms(1) is_ipv4_mapped_mapped [OF fam]
    by (cases a) (simp add: unmapped_def ipv4_mapped_def ip_from_bytes_def ip_wf_def ip_defs)
  moreover have "ip_port (ipv4_mapped a) = ip_port a"
    using fam by (simp add: ipv4_mapped_def ip_from_bytes_def ip_defs)
  ultimately show ?thesis
    using fam is_ipv4_mapped_mapped [OF fam] by (simp add: is_ipv4_mapped_def)
qed

theorem ipv4_mapped_roundtrip_witness:
  "unmapped (ipv4_mapped (ip_from_bytes [192, 168, 0, 7] 9998 IPv4))
     = ip_from_bytes [192, 168, 0, 7] 9998 IPv4"
  using ipv4_mapped_roundtrip [of "ip_from_bytes [192, 168, 0, 7] 9998 IPv4"]
  by (simp add: ip_from_bytes_wf)

text \<open>
  Equal addresses have equal hashes, as the hash tables over addresses need, and equality is
  reflexive exactly on valid addresses: an unspecified address is not equal to itself.
\<close>

theorem ip_equal_hash:
  "(ip_equal a b \<longrightarrow> ip_hash a = ip_hash b) \<and> (ip_equal a a \<longleftrightarrow> ip_valid a)"
  by (auto simp: ip_equal_iff)

theorem ip_equal_hash_witness:
  "ip_equal (ip_from_bytes [10, 0, 0, 1] 7000 IPv4) (ip_from_bytes [10, 0, 0, 1] 7000 IPv4)
   \<and> \<not> ip_equal ip_clear ip_clear"
  using ip_equal_hash [of "ip_from_bytes [10, 0, 0, 1] 7000 IPv4"
      "ip_from_bytes [10, 0, 0, 1] 7000 IPv4"] ip_equal_hash [of ip_clear ip_clear]
  by (simp add: ip_from_bytes_def ip_valid_def ip_clear_def)

end
