(* ===== verification/Bin_Msg.thy ===== *)
theory Bin_Msg
  imports Net_Address
begin

text \<open>
  \<^verbatim>\<open>aoo/src/binmsg.hpp\<close>: the header of binary messages, padded strings and the binary relay
  header; \<^verbatim>\<open>aoo/src/net/detail.cpp\<close>: the address pattern parser of client and server and the binary
  branch of \<^verbatim>\<open>write_relay_message\<close>; \<^verbatim>\<open>aoo_parsePattern\<close> and the binary branch of
  \<^verbatim>\<open>aoo_handleRelayMessage\<close> from \<^verbatim>\<open>aoo/src/aoo.cpp\<close>.

  A writer takes the destination buffer and returns the number of bytes written, 0 on failure,
  with the new buffer. Lemmas: a written header is read back, whichever form it has; a relayed
  message is recovered by the receiver.
\<close>

unbundle bit_operations_syntax

subsection \<open>Definitions\<close>

definition kAooBinMsgDomainBit :: byte where "kAooBinMsgDomainBit = 0x80"
definition kAooBinMsgSizeBit :: byte where "kAooBinMsgSizeBit = 0x80"
definition kAooBinMsgCmdRelayIPv4 :: byte where "kAooBinMsgCmdRelayIPv4 = 0"
definition kAooBinMsgCmdRelayIPv6 :: byte where "kAooBinMsgCmdRelayIPv6 = 1"
definition kAooIdInvalid :: int where "kAooIdInvalid = -1"

lemmas binmsg_const_defs =
  kAooBinMsgDomainBit_def kAooBinMsgSizeBit_def kAooBinMsgCmdRelayIPv4_def
  kAooBinMsgCmdRelayIPv6_def kAooIdInvalid_def

text \<open>Storing a run of bytes at a position of a buffer.\<close>

definition put_bytes :: "nat \<Rightarrow> byte list \<Rightarrow> byte list \<Rightarrow> byte list" where
  "put_bytes pos bs buffer = take pos buffer @ bs @ drop (pos + length bs) buffer"

definition binmsg_write_short_header :: "byte list \<Rightarrow> nat \<Rightarrow> int \<Rightarrow> nat \<times> byte list" where
  "binmsg_write_short_header buffer type cmd =
     (if length buffer \<ge> 4
      then (4, put_bytes 0 [word_of_nat type OR kAooBinMsgDomainBit, word_of_int cmd, 0, 0] buffer)
      else (0, buffer))"

definition binmsg_write_header ::
    "byte list \<Rightarrow> nat \<Rightarrow> int \<Rightarrow> int \<Rightarrow> int \<Rightarrow> nat \<times> byte list" where
  "binmsg_write_header buffer type cmd to from =
     (if to \<ge> 256 \<or> from \<ge> 256 then
        (if length buffer < 12 then (0, buffer)
         else (12, put_bytes 0
                ([word_of_nat type OR kAooBinMsgDomainBit,
                  word_of_int cmd OR kAooBinMsgSizeBit, 0, 0]
                 @ to_bytes (word_of_int to :: u32) @ to_bytes (word_of_int from :: u32)) buffer))
      else
        (if length buffer < 4 then (0, buffer)
         else (4, put_bytes 0
                [word_of_nat type OR kAooBinMsgDomainBit, word_of_int cmd,
                 word_of_int to, word_of_int from] buffer)))"

definition binmsg_string_size :: "nat \<Rightarrow> nat" where
  "binmsg_string_size n = (n + 3) div 4 * 4"

text \<open>A C string is the list of its bytes before the terminating zero.\<close>

definition binmsg_write_string :: "byte list \<Rightarrow> byte list \<Rightarrow> nat \<times> byte list" where
  "binmsg_write_string buffer str =
     (let n = length str + 1; total = binmsg_string_size n
      in (total, put_bytes 0 (str @ [0] @ replicate (total - n) 0) buffer))"

definition strnlen :: "byte list \<Rightarrow> nat" where
  "strnlen buffer = length (takeWhile (\<lambda>b. b \<noteq> 0) buffer)"

definition binmsg_skip_string :: "byte list \<Rightarrow> nat" where
  "binmsg_skip_string buffer =
     (let n = strnlen buffer + 1
      in if n \<le> length buffer then binmsg_string_size n else 0)"

definition binmsg_check :: "byte list \<Rightarrow> bool" where
  "binmsg_check data \<longleftrightarrow> length data \<ge> 4 \<and> (data ! 0) AND kAooBinMsgDomainBit \<noteq> 0"

definition binmsg_headersize :: "byte list \<Rightarrow> nat" where
  "binmsg_headersize data =
     (let large = (data ! 1) AND kAooBinMsgSizeBit \<noteq> 0;
          n = (if large then 12 else 4)
      in if length data \<ge> n then n else 0)"

definition binmsg_type :: "byte list \<Rightarrow> nat" where
  "binmsg_type data = unat ((data ! 0) AND NOT kAooBinMsgDomainBit)"

definition binmsg_cmd :: "byte list \<Rightarrow> byte" where
  "binmsg_cmd data = (data ! 1) AND NOT kAooBinMsgSizeBit"

definition binmsg_to :: "byte list \<Rightarrow> int" where
  "binmsg_to data =
     (let large = (data ! 1) AND kAooBinMsgSizeBit \<noteq> 0
      in if large then
           (if length data \<ge> 12 then sint (from_bytes (drop 4 data) :: u32) else kAooIdInvalid)
         else uint (data ! 2))"

text \<open>
  \<^verbatim>\<open>binmsg_from\<close> asserts that a message with large identifiers has at least 12 bytes; a release
  build reads past a shorter one, which the model makes an explicit \<^const>\<open>None\<close>.
\<close>

definition binmsg_from :: "byte list \<Rightarrow> int option" where
  "binmsg_from data =
     (let large = (data ! 1) AND kAooBinMsgSizeBit \<noteq> 0
      in if large then
           (if length data \<ge> 12 then Some (sint (from_bytes (drop 8 data) :: u32)) else None)
         else Some (uint (data ! 3)))"

definition binmsg_group :: "byte list \<Rightarrow> int" where
  "binmsg_group data = binmsg_to data"

definition binmsg_user :: "byte list \<Rightarrow> int option" where
  "binmsg_user data = binmsg_from data"

subsubsection \<open>Relay\<close>

definition binmsg_write_relay :: "byte list \<Rightarrow> ip_address \<Rightarrow> nat \<times> byte list" where
  "binmsg_write_relay buffer addr =
     (if ip_type_of addr = IPv6 then
        (if length buffer \<ge> 20
         then (20, put_bytes 0
                ([word_of_nat kAooMsgTypeRelay OR kAooBinMsgDomainBit, kAooBinMsgCmdRelayIPv6]
                 @ to_bytes (ip_port addr) @ take 16 (sin_addr addr)) buffer)
         else (0, buffer))
      else
        (if length buffer \<ge> 8
         then (8, put_bytes 0
                ([word_of_nat kAooMsgTypeRelay OR kAooBinMsgDomainBit, kAooBinMsgCmdRelayIPv4]
                 @ to_bytes (ip_port addr) @ take 4 (sin_addr addr)) buffer)
         else (0, buffer)))"

definition binmsg_read_relay :: "byte list \<Rightarrow> nat \<times> ip_address" where
  "binmsg_read_relay buffer =
     (if buffer ! 1 = kAooBinMsgCmdRelayIPv6 then
        (if length buffer \<ge> 20
         then (20, ip_from_bytes (take 16 (drop 4 buffer)) (from_bytes (drop 2 buffer)) IPv6)
         else (0, ip_clear))
      else
        (if length buffer \<ge> 8
         then (8, ip_from_bytes (take 4 (drop 4 buffer)) (from_bytes (drop 2 buffer)) IPv4)
         else (0, ip_clear)))"

text \<open>The branch of \<^verbatim>\<open>write_relay_message\<close> for \<^verbatim>\<open>binary\<close>.\<close>

definition write_relay_message_binary ::
    "byte list \<Rightarrow> byte list \<Rightarrow> ip_address \<Rightarrow> nat \<times> byte list" where
  "write_relay_message_binary buffer msg addr =
     (let (onset, buffer) = binmsg_write_relay buffer addr;
          total = length msg + onset
      in if length buffer \<ge> total then (total, put_bytes onset msg buffer) else (0, buffer))"

text \<open>
  The outcome of relaying: an error code, a datagram handed to the send function, or the branch
  for OSC messages, which is outside this model.
\<close>

datatype relay_result =
    RelayError AooError
  | RelaySend "byte list" ip_address
  | RelayOsc

record socket_flags =
  kAooSocketIPv4 :: bool
  kAooSocketIPv6 :: bool
  kAooSocketIPv4Mapped :: bool

definition relay_check_addr :: "socket_flags \<Rightarrow> ip_address \<Rightarrow> ip_address option" where
  "relay_check_addr socketType addr =
     (if is_ipv4_mapped addr then None
      else if ip_type_of addr = IPv6 then
        (if kAooSocketIPv6 socketType then Some addr else None)
      else if kAooSocketIPv4 socketType then Some addr
      else if kAooSocketIPv4Mapped socketType then Some (ipv4_mapped addr)
      else None)"

definition aoo_handleRelayMessage_binary ::
    "byte list \<Rightarrow> ip_address \<Rightarrow> socket_flags \<Rightarrow> relay_result" where
  "aoo_handleRelayMessage_binary data address socketType =
     (if \<not> (kAooSocketIPv4 socketType \<or> kAooSocketIPv6 socketType)
      then RelayError kAooErrorBadArgument
      else
        let src_addr = unmapped address
        in if \<not> binmsg_check data then RelayOsc
           else if binmsg_type data \<noteq> kAooMsgTypeRelay then RelayError kAooErrorBadFormat
           else
             let (offset, dst) = binmsg_read_relay data
             in if offset = 0 then RelayError kAooErrorBadFormat
                else case relay_check_addr socketType dst of
                  None \<Rightarrow> RelayError kAooErrorNotPermitted
                | Some dst_addr \<Rightarrow>
                    if ip_type_of src_addr = ip_type_of dst_addr
                    then RelaySend (snd (binmsg_write_relay data src_addr)) dst_addr
                    else
                      let (result, buffer) =
                            write_relay_message_binary (replicate AOO_MAX_PACKET_SIZE 0)
                              (drop offset data) src_addr
                      in if result = 0 then RelayError kAooErrorInsufficientBuffer
                         else RelaySend (take result buffer) dst_addr)"

subsubsection \<open>Address patterns\<close>

definition ascii :: "string \<Rightarrow> byte list" where
  "ascii s = map of_char s"

definition has_prefix_at :: "nat \<Rightarrow> string \<Rightarrow> byte list \<Rightarrow> bool" where
  "has_prefix_at count s msg \<longleftrightarrow>
     length msg \<ge> count + length s \<and> take (length s) (drop count msg) = ascii s"

definition kAooMsgDomain :: string where "kAooMsgDomain = ''/aoo''"
definition kAooMsgSource :: string where "kAooMsgSource = ''/src''"
definition kAooMsgSink :: string where "kAooMsgSink = ''/sink''"
definition kAooMsgServer :: string where "kAooMsgServer = ''/server''"
definition kAooMsgClient :: string where "kAooMsgClient = ''/client''"
definition kAooMsgPeer :: string where "kAooMsgPeer = ''/peer''"
definition kAooMsgRelay :: string where "kAooMsgRelay = ''/relay''"

lemmas pattern_defs =
  kAooMsgDomain_def kAooMsgSource_def kAooMsgSink_def kAooMsgServer_def kAooMsgClient_def
  kAooMsgPeer_def kAooMsgRelay_def

definition parse_pattern :: "byte list \<Rightarrow> AooError + (nat \<times> nat)" where
  "parse_pattern msg =
     (if binmsg_check msg then Inr (binmsg_type msg, binmsg_headersize msg)
      else if has_prefix_at 0 kAooMsgDomain msg then
        let count = length kAooMsgDomain
        in if has_prefix_at count kAooMsgServer msg
             then Inr (kAooMsgTypeServer, count + length kAooMsgServer)
           else if has_prefix_at count kAooMsgClient msg
             then Inr (kAooMsgTypeClient, count + length kAooMsgClient)
           else if has_prefix_at count kAooMsgPeer msg
             then Inr (kAooMsgTypePeer, count + length kAooMsgPeer)
           else if has_prefix_at count kAooMsgRelay msg
             then Inr (kAooMsgTypeRelay, count + length kAooMsgRelay)
           else Inl kAooErrorBadFormat
      else Inl kAooErrorBadFormat)"

text \<open>
  \<^verbatim>\<open>sscanf\<close> with the format \<^verbatim>\<open>/%d%n\<close>: a slash, white space, an optional sign and at least one
  digit; the result is the number and the count of characters consumed. The scan works on the
  memory behind the address pattern and is not bounded by the size of the message.
\<close>

definition isspace :: "byte \<Rightarrow> bool" where
  "isspace b \<longleftrightarrow> b = 0x20 \<or> (0x09 \<le> b \<and> b \<le> 0x0D)"

definition isdigit :: "byte \<Rightarrow> bool" where
  "isdigit b \<longleftrightarrow> 0x30 \<le> b \<and> b \<le> 0x39"

definition digits_value :: "byte list \<Rightarrow> int" where
  "digits_value ds = foldl (\<lambda>v d. 10 * v + (uint d - 0x30)) 0 ds"

definition scan_id :: "byte list \<Rightarrow> (int \<times> nat) option" where
  "scan_id s =
     (case s of
        [] \<Rightarrow> None
      | c # r \<Rightarrow>
         if c \<noteq> 0x2F then None
         else
           let ws = takeWhile isspace r; r = dropWhile isspace r;
               neg = (r \<noteq> [] \<and> hd r = 0x2D); sign = (r \<noteq> [] \<and> (hd r = 0x2D \<or> hd r = 0x2B));
               r = (if sign then tl r else r);
               ds = takeWhile isdigit r;
               v = digits_value ds
           in if ds = [] then None
              else Some (if neg then - v else v,
                         1 + length ws + (if sign then 1 else 0) + length ds))"

text \<open>
  \<open>mem\<close> is the memory from the start of the message, of which \<open>n\<close> bytes belong to it. The result
  holds the message type, the identifier where the pattern has one, and the offset.
\<close>

definition aoo_parsePattern ::
    "byte list \<Rightarrow> nat \<Rightarrow> AooError + (nat \<times> int option \<times> nat)" where
  "aoo_parsePattern mem n =
     (let msg = take n mem
      in if binmsg_check msg then
           (if binmsg_headersize msg > 0
            then Inr (binmsg_type msg, Some (binmsg_to msg), binmsg_headersize msg)
            else Inl kAooErrorBadArgument)
         else if has_prefix_at 0 kAooMsgDomain msg then
           let count = length kAooMsgDomain;
               with_id = (\<lambda>type count.
                 case scan_id (drop count mem) of
                   Some (i, skip) \<Rightarrow> Inr (type, Some i, count + skip)
                 | None \<Rightarrow> Inl kAooErrorBadArgument)
           in if has_prefix_at count kAooMsgSource msg
                then with_id kAooMsgTypeSource (count + length kAooMsgSource)
              else if has_prefix_at count kAooMsgSink msg
                then with_id kAooMsgTypeSink (count + length kAooMsgSink)
              else if has_prefix_at count kAooMsgClient msg
                then Inr (kAooMsgTypeClient, None, count + length kAooMsgClient)
              else if has_prefix_at count kAooMsgServer msg
                then Inr (kAooMsgTypeServer, None, count + length kAooMsgServer)
              else if has_prefix_at count kAooMsgPeer msg
                then Inr (kAooMsgTypePeer, None, count + length kAooMsgPeer)
              else if has_prefix_at count kAooMsgRelay msg
                then Inr (kAooMsgTypeRelay, None, count + length kAooMsgRelay)
              else Inl kAooErrorBadArgument
         else Inl kAooErrorBadArgument)"

subsection \<open>Headers\<close>

lemma put_bytes_length:
  "pos + length bs \<le> length buffer \<Longrightarrow> length (put_bytes pos bs buffer) = length buffer"
  by (simp add: put_bytes_def)

lemma put_bytes_0: "put_bytes 0 bs buffer = bs @ drop (length bs) buffer"
  by (simp add: put_bytes_def)

lemma put_bytes_append: "length xs = pos \<Longrightarrow>
  put_bytes pos bs (xs @ ys) = xs @ bs @ drop (length bs) ys"
  by (simp add: put_bytes_def)

lemma or_and_absorb: "((x::byte) OR m) AND m = m"
  by (rule bit_word_eqI) (auto simp: bit_simps)

lemma low_bits:
  assumes "x < 128"
  shows "(x::byte) AND 0x80 = 0" and "(x OR 0x80) AND - 129 = x" and "x AND - 129 = x"
proof -
  have neg: "(- 129 :: byte) = NOT 0x80" by simp
  have "take_bit 7 x = x"
    using assms
    by (simp add: word_unat_eq_iff unsigned_take_bit_eq take_bit_nat_eq_self word_less_nat_alt)
  then have hi: "\<not> bit x k" if "7 \<le> k" for k
    using that by (metis bit_take_bit_iff linorder_not_less)
  have mask: "bit (0x80::byte) k \<longleftrightarrow> k = 7" for k
  proof -
    have "(0x80::byte) = push_bit 7 1" by simp
    then show ?thesis by (simp only: bit_push_bit_iff bit_1_iff) auto
  qed
  show "x AND 0x80 = 0"
    by (rule bit_word_eqI) (auto simp only: bit_and_iff bit_0_eq bot_apply bot_bool_def mask hi)
  show "(x OR 0x80) AND - 129 = x"
    unfolding neg by (rule bit_word_eqI) (auto simp only: bit_and_iff bit_or_iff bit_not_iff possible_bit_word mask hi)
  show "x AND - 129 = x"
    unfolding neg by (rule bit_word_eqI) (auto simp only: bit_and_iff bit_or_iff bit_not_iff possible_bit_word mask hi)
qed

lemma small_word: "n < 128 \<Longrightarrow> (word_of_nat n :: byte) < 128"
  "n < 128 \<Longrightarrow> unat (word_of_nat n :: byte) = n"
  by (simp_all add: word_less_nat_alt unsigned_of_nat take_bit_nat_eq_self)

lemma small_word_int:
  "0 \<le> i \<Longrightarrow> i < 128 \<Longrightarrow> (word_of_int i :: byte) < 128"
  "0 \<le> i \<Longrightarrow> i < 256 \<Longrightarrow> uint (word_of_int i :: byte) = i"
  by (simp_all add: word_less_def unsigned_of_int take_bit_int_eq_self)

lemma sint_u32: "0 \<le> i \<Longrightarrow> i < 2 ^ 31 \<Longrightarrow> sint (word_of_int i :: u32) = i"
  by (simp add: signed_of_int signed_take_bit_int_eq_self)

lemma headersize_values: "binmsg_headersize data \<in> {0, 4, 12}"
  by (simp add: binmsg_headersize_def Let_def)

text \<open>The bytes of a header.\<close>

definition binmsg_header_image :: "nat \<Rightarrow> int \<Rightarrow> int \<Rightarrow> int \<Rightarrow> byte list" where
  "binmsg_header_image type cmd to from =
     (if to \<ge> 256 \<or> from \<ge> 256
      then [word_of_nat type OR kAooBinMsgDomainBit, word_of_int cmd OR kAooBinMsgSizeBit, 0, 0]
        @ to_bytes (word_of_int to :: u32) @ to_bytes (word_of_int from :: u32)
      else [word_of_nat type OR kAooBinMsgDomainBit, word_of_int cmd, word_of_int to, word_of_int from])"

lemma binmsg_header_image_length:
  "length (binmsg_header_image type cmd to from) = (if to \<ge> 256 \<or> from \<ge> 256 then 12 else 4)"
  by (simp add: binmsg_header_image_def)

lemma binmsg_write_header_image:
  assumes "length (binmsg_header_image type cmd to from) \<le> length buffer"
  shows "binmsg_write_header buffer type cmd to from
    = (length (binmsg_header_image type cmd to from),
       binmsg_header_image type cmd to from @ drop (length (binmsg_header_image type cmd to from)) buffer)"
  using assms
  by (cases "to \<ge> 256 \<or> from \<ge> 256")
     (auto simp: binmsg_write_header_def binmsg_header_image_def put_bytes_0)

lemma binmsg_header_fields:
  assumes "type < 128" and "0 \<le> cmd" and "cmd < 128"
    and "0 \<le> to" and "to < 2 ^ 31" and "0 \<le> from" and "from < 2 ^ 31"
    and "binmsg_write_header buffer type cmd to from = (n, out)" and "n \<noteq> 0"
  shows "binmsg_check out \<and> binmsg_type out = type \<and> binmsg_cmd out = word_of_int cmd
    \<and> binmsg_to out = to \<and> binmsg_from out = Some from \<and> binmsg_headersize out = n
    \<and> n = (if to < 256 \<and> from < 256 then 4 else 12) \<and> drop n out = drop n buffer"
proof (cases "to \<ge> 256 \<or> from \<ge> 256")
  case True
  then have len: "12 \<le> length buffer" and n: "n = 12"
    using assms(8,9) by (auto simp: binmsg_write_header_def split: if_splits)
  have out: "out = [word_of_nat type OR 0x80, word_of_int cmd OR 0x80, 0, 0]
      @ to_bytes (word_of_int to :: u32) @ to_bytes (word_of_int from :: u32) @ drop 12 buffer"
    using assms(8,9) True
    by (auto simp: binmsg_write_header_def put_bytes_0 binmsg_const_defs split: if_splits)
  show ?thesis
    using assms(1-7) True len n
    by (auto simp: out binmsg_check_def binmsg_type_def binmsg_cmd_def binmsg_to_def
        binmsg_from_def binmsg_headersize_def binmsg_const_defs or_and_absorb low_bits
        small_word small_word_int sint_u32 from_to_bytes)
next
  case False
  then have len: "4 \<le> length buffer" and n: "n = 4"
    using assms(8,9) by (auto simp: binmsg_write_header_def split: if_splits)
  have out: "out = [word_of_nat type OR 0x80, word_of_int cmd, word_of_int to, word_of_int from]
      @ drop 4 buffer"
    using assms(8,9) False
    by (auto simp: binmsg_write_header_def put_bytes_0 binmsg_const_defs numeral_eq_Suc
        split: if_splits)
  show ?thesis
    using assms(1-7) False len n
    by (auto simp: out binmsg_check_def binmsg_type_def binmsg_cmd_def binmsg_to_def
        binmsg_from_def binmsg_headersize_def binmsg_const_defs or_and_absorb low_bits
        small_word small_word_int)
qed

text \<open>
  A header written by \<^const>\<open>binmsg_write_header\<close> is recognised as a binary message and every field is
  read back from it, for identifiers of any size: the short form is used exactly when both
  identifiers fit in a byte, and the length returned is the header size the reader computes.
\<close>

theorem binmsg_header_roundtrip:
  assumes "type < 128" and "0 \<le> cmd" and "cmd < 128"
    and "0 \<le> to" and "to < 2 ^ 31" and "0 \<le> from" and "from < 2 ^ 31"
    and "binmsg_write_header buffer type cmd to from = (n, out)" and "n \<noteq> 0"
  shows "binmsg_check out \<and> binmsg_type out = type \<and> binmsg_cmd out = word_of_int cmd
    \<and> binmsg_to out = to \<and> binmsg_from out = Some from \<and> binmsg_headersize out = n
    \<and> n = (if to < 256 \<and> from < 256 then 4 else 12) \<and> drop n out = drop n buffer"
  using binmsg_header_fields [OF assms] .

theorem binmsg_header_roundtrip_witness:
  "binmsg_to (snd (binmsg_write_header (replicate 16 0) 1 0 70000 3)) = 70000
   \<and> binmsg_from (snd (binmsg_write_header (replicate 16 0) 1 0 70000 3)) = Some 3"
  using binmsg_header_roundtrip [of 1 0 70000 3 "replicate 16 0" 12
      "snd (binmsg_write_header (replicate 16 0) 1 0 70000 3)"]
  by (simp add: binmsg_write_header_def)

text \<open>Padded strings: what is written is skipped exactly.\<close>

lemma binmsg_string_size_bounds:
  "n \<le> binmsg_string_size n \<and> binmsg_string_size n < n + 4 \<and> 4 dvd binmsg_string_size n"
  unfolding binmsg_string_size_def by presburger

lemma takeWhile_until_zero: "0 \<notin> set str \<Longrightarrow> takeWhile (\<lambda>b. b \<noteq> (0::byte)) (str @ 0 # r) = str"
  by (induction str) auto

lemma binmsg_string_roundtrip:
  assumes "0 \<notin> set str" and "binmsg_string_size (length str + 1) \<le> length buffer"
    and "binmsg_write_string buffer str = (n, out)"
  shows "binmsg_skip_string out = n \<and> take (length str) out = str \<and> length out = length buffer
    \<and> strnlen out = length str"
proof -
  let ?n = "length str + 1"
  have t: "?n \<le> binmsg_string_size ?n"
    using binmsg_string_size_bounds [of ?n] by simp
  have n: "n = binmsg_string_size ?n"
    and out: "out = str @ 0 # replicate (n - ?n) 0 @ drop n buffer"
    using assms(3) t by (auto simp: binmsg_write_string_def Let_def put_bytes_0)
  have "strnlen out = length str"
    using assms(1) by (simp add: out strnlen_def takeWhile_until_zero)
  moreover have "length out = length buffer"
    using t assms(2) by (simp add: out n)
  ultimately show ?thesis
    using t assms(2) by (simp add: binmsg_skip_string_def n out)
qed

subsection \<open>Relay\<close>

text \<open>The relay header of an address.\<close>

definition relay_image :: "ip_address \<Rightarrow> byte list" where
  "relay_image addr =
     [0x85, if ip_type_of addr = IPv6 then 1 else 0] @ to_bytes (ip_port addr) @ sin_addr addr"

lemma relay_image_length [simp]:
  "ip_wf addr \<Longrightarrow> length (relay_image addr) = 4 + ip_address_size addr"
  by (simp add: relay_image_def ip_wf_def)

lemma address_size_cases:
  "ip_valid addr \<Longrightarrow> ip_address_size addr = (if ip_type_of addr = IPv6 then 16 else 4)"
  by (cases "sa_family addr") (simp_all add: ip_defs)

lemma write_relay_image:
  assumes "ip_wf addr" and "ip_valid addr" and "4 + ip_address_size addr \<le> length buffer"
  shows "binmsg_write_relay buffer addr
    = (4 + ip_address_size addr, relay_image addr @ drop (4 + ip_address_size addr) buffer)"
  using assms
  by (cases "sa_family addr")
     (auto simp: binmsg_write_relay_def put_bytes_0 binmsg_const_defs msg_type_defs ip_wf_def
       ip_defs relay_image_def)

lemma read_relay_image:
  assumes "ip_wf addr" and "ip_valid addr"
  shows "binmsg_read_relay (relay_image addr @ rest) = (4 + ip_address_size addr, addr)"
proof -
  have len: "length (sin_addr addr) = ip_address_size addr"
    using assms by (simp add: ip_wf_def)
  have inv: "ip_from_bytes (sin_addr addr) (ip_port addr) (ip_type_of addr) = addr"
    using assms by (rule ip_from_bytes_inverse)
  have d: "drop 4 (relay_image addr @ rest) = sin_addr addr @ rest"
    "drop 2 (relay_image addr @ rest) = to_bytes (ip_port addr) @ sin_addr addr @ rest"
    "(relay_image addr @ rest) ! 1 = (if ip_type_of addr = IPv6 then 1 else 0)"
    by (simp_all add: relay_image_def)
  have ty: "ip_type_of addr = IPv6 \<or> ip_type_of addr = IPv4"
    using assms(2) by (cases "sa_family addr") (simp_all add: ip_defs)
  show ?thesis
    using assms len inv ty unfolding binmsg_read_relay_def d
    by (auto simp: binmsg_const_defs from_to_bytes address_size_cases)
qed

lemma relay_image_check:
  "binmsg_check (relay_image addr @ rest)"
  "binmsg_type (relay_image addr @ rest) = kAooMsgTypeRelay"
  by (simp_all add: relay_image_def binmsg_check_def binmsg_type_def binmsg_const_defs
      msg_type_defs)

lemma unmapped_valid: "ip_valid (unmapped a) \<longleftrightarrow> ip_valid a"
  by (auto simp: unmapped_def ip_from_bytes_def ip_valid_def is_ipv4_mapped_def)

lemma write_relay_message_image:
  assumes "ip_wf addr" and "ip_valid addr" and "4 + ip_address_size addr + length msg \<le> length buffer"
  shows "write_relay_message_binary buffer msg addr
    = (4 + ip_address_size addr + length msg,
       relay_image addr @ msg @ drop (4 + ip_address_size addr + length msg) buffer)"
  using assms
  by (simp add: write_relay_message_binary_def write_relay_image put_bytes_def
      add.commute Let_def)

text \<open>
  C31. A message wrapped for relaying is recognised as a relay message, and reading the relay header
  gives back the address and, behind the header, the message, for IPv4 and for IPv6.
\<close>

theorem relay_message_roundtrip:
  assumes "ip_wf addr" and "ip_valid addr"
    and "4 + ip_address_size addr + length msg \<le> length buffer"
  shows "\<exists>n out. write_relay_message_binary buffer msg addr = (n, out)
    \<and> binmsg_check (take n out) \<and> binmsg_type (take n out) = kAooMsgTypeRelay
    \<and> binmsg_read_relay (take n out) = (n - length msg, addr)
    \<and> drop (n - length msg) (take n out) = msg"
proof -
  let ?n = "4 + ip_address_size addr + length msg"
  have "take ?n (relay_image addr @ msg @ drop ?n buffer) = relay_image addr @ msg"
    using assms(1) by (simp add: add.assoc)
  then show ?thesis
    using assms relay_image_check read_relay_image [OF assms(1,2), of msg]
    by (simp add: write_relay_message_image)
qed

theorem relay_message_roundtrip_witness:
  "\<exists>n out. write_relay_message_binary (replicate 64 0) [1, 2, 3]
             (ip_from_bytes [10, 0, 0, 1] 7000 IPv4) = (n, out)
    \<and> snd (binmsg_read_relay (take n out)) = ip_from_bytes [10, 0, 0, 1] 7000 IPv4
    \<and> drop (n - 3) (take n out) = [1, 2, 3]"
proof -
  let ?d = "ip_from_bytes [10, 0, 0, 1] 7000 IPv4"
  have "ip_wf ?d" "ip_valid ?d" "ip_address_size ?d = 4"
    by (simp_all add: ip_from_bytes_wf) (simp_all add: ip_from_bytes_def ip_defs)
  then show ?thesis
    using relay_message_roundtrip [of ?d "[1, 2, 3]" "replicate 64 0"]
    by (auto simp: numeral_3_eq_3)
qed

text \<open>
  When the buffer is too small for the relay header but large enough for the message,
  \<^const>\<open>write_relay_message_binary\<close> ignores that no header was written: it copies the bare message and
  returns its length, so the caller sends the message to the relay without a destination.
\<close>

lemma write_relay_message_without_header:
  assumes "ip_type_of addr \<noteq> IPv6" and "length buffer < 8" and "length msg \<le> length buffer"
  shows "write_relay_message_binary buffer msg addr = (length msg, msg @ drop (length msg) buffer)"
  using assms by (simp add: write_relay_message_binary_def binmsg_write_relay_def put_bytes_0 Let_def)

text \<open>
  Relaying by the server: the datagram that leaves is the message wrapped with the source's address, unless a
  destination had to be mapped for an IPv6 sender.
\<close>

lemma relay_check_addr_type:
  assumes "relay_check_addr fl dst = Some dst'" and "ip_valid dst"
  shows "ip_type_of dst' = ip_type_of dst \<or> ip_type_of dst = IPv4 \<and> ip_type_of dst' = IPv6"
proof -
  have "ip_type_of (ipv4_mapped dst) = IPv6" if "ip_type_of dst = IPv4"
    using that by (cases "sa_family dst") (simp_all add: ipv4_mapped_def ip_type_of_def ip_from_bytes_def)
  moreover have "ip_type_of dst = IPv4 \<or> ip_type_of dst = IPv6" using assms(2) by (auto simp: ip_defs split: sa_family.splits)
  ultimately show ?thesis using assms(1) by (auto simp: relay_check_addr_def split: if_splits)
qed

lemma relay_replaces_address:
  assumes dst: "ip_wf dst" "ip_valid dst"
    and src: "ip_wf src" "ip_valid src"
    and flags: "kAooSocketIPv4 fl \<or> kAooSocketIPv6 fl" "relay_check_addr fl dst = Some dst'"
    and types: "ip_type_of dst' = ip_type_of dst \<or> ip_type_of (unmapped src) = IPv4"
    and size: "20 + length msg \<le> AOO_MAX_PACKET_SIZE"
  shows "aoo_handleRelayMessage_binary (relay_image dst @ msg) src fl
    = RelaySend (relay_image (unmapped src) @ msg) dst'"
proof -
  let ?s = "unmapped src" and ?data = "relay_image dst @ msg"
  have s: "ip_wf ?s" "ip_valid ?s"
    using src by (simp_all add: unmapped_wf unmapped_valid)
  note step = flags relay_image_check read_relay_image [OF dst(1,2)]
  show ?thesis
  proof (cases "ip_type_of ?s = ip_type_of dst'")
    case True
    then have "ip_type_of ?s = ip_type_of dst" using types relay_check_addr_type [OF flags(2) dst(2)] by auto
    then have sz: "ip_address_size ?s = ip_address_size dst"
      using s(2) dst(2) by (simp add: address_size_cases)
    then have "binmsg_write_relay ?data ?s = (4 + ip_address_size ?s, relay_image ?s @ msg)"
      using s dst(1) by (subst write_relay_image) simp_all
    with True show ?thesis
      using step by (auto simp: aoo_handleRelayMessage_binary_def Let_def)
  next
    case False
    have "ip_address_size ?s \<le> 16"
      using s(2) by (simp add: address_size_cases)
    then have "write_relay_message_binary (replicate AOO_MAX_PACKET_SIZE 0) msg ?s
      = (4 + ip_address_size ?s + length msg, relay_image ?s @ msg
         @ drop (4 + ip_address_size ?s + length msg) (replicate AOO_MAX_PACKET_SIZE 0))"
      using size s by (intro write_relay_message_image) simp_all
    moreover have "drop (4 + ip_address_size dst) ?data = msg"
      using dst(1) by simp
    ultimately show ?thesis
      using False step s(1)
      by (auto simp: aoo_handleRelayMessage_binary_def Let_def)
  qed
qed

text \<open>
  The server relays a binary message to its destination unchanged, on IPv4, IPv6 and dual-stack sockets, if it accepts the
  destination, and unless an IPv4 destination has to be mapped to IPv6 while the sender has an IPv6 address (that case
  loses data, \<^verbatim>\<open>relay_dual_stack_truncates\<close>): what leaves is a relay message that carries the sender's (unmapped)
  address and the same content, so that the receiver reads both back.
\<close>

theorem handleRelayMessage_delivers:
  assumes "ip_wf dst" and "ip_valid dst"
    and "ip_wf src" and "ip_valid src"
    and "kAooSocketIPv4 fl \<or> kAooSocketIPv6 fl" and "relay_check_addr fl dst = Some dst'"
    and "ip_type_of dst' = ip_type_of dst \<or> ip_type_of (unmapped src) = IPv4"
    and "20 + length msg \<le> AOO_MAX_PACKET_SIZE"
    and "length buffer = AOO_MAX_PACKET_SIZE"
    and "write_relay_message_binary buffer msg dst = (n, out)"
  shows "\<exists>sent. aoo_handleRelayMessage_binary (take n out) src fl = RelaySend sent dst'
    \<and> binmsg_read_relay sent = (4 + ip_address_size (unmapped src), unmapped src)
    \<and> drop (4 + ip_address_size (unmapped src)) sent = msg"
proof -
  have "ip_address_size dst \<le> 16"
    using assms(2) by (simp add: address_size_cases)
  then have img: "take n out = relay_image dst @ msg"
    using write_relay_message_image [OF assms(1,2), of msg buffer] assms(1,8-10)
    by (auto simp: add.assoc)
  have s: "ip_wf (unmapped src)" "ip_valid (unmapped src)"
    using assms(3,4) by (simp_all add: unmapped_wf unmapped_valid)
  show ?thesis
    using relay_replaces_address [OF assms(1-8)] img s read_relay_image [OF s, of msg] by simp
qed

theorem handleRelayMessage_delivers_witness:
  "\<exists>sent. aoo_handleRelayMessage_binary
       (take 11 (snd (write_relay_message_binary (replicate 4096 0) [1, 2, 3]
          (ip_from_bytes [10, 0, 0, 1] 7000 IPv4))))
       (ip_from_bytes (replicate 16 7) 9000 IPv6)
       \<lparr> kAooSocketIPv4 = True, kAooSocketIPv6 = True, kAooSocketIPv4Mapped = False \<rparr>
     = RelaySend sent (ip_from_bytes [10, 0, 0, 1] 7000 IPv4)
     \<and> drop 20 sent = [1, 2, 3]"
proof -
  let ?d = "ip_from_bytes [10, 0, 0, 1] 7000 IPv4"
  let ?s = "ip_from_bytes (replicate 16 7) 9000 IPv6"
  have d: "ip_wf ?d" "ip_valid ?d" "\<not> is_ipv4_mapped ?d" "ip_address_size ?d = 4"
    by (simp_all add: ip_from_bytes_wf) (simp_all add: ip_from_bytes_def ip_defs is_ipv4_mapped_def)
  have "\<not> is_ipv4_mapped ?s"
    by (rule not_mapped_first) (simp_all add: ip_from_bytes_def)
  then have s: "ip_wf ?s" "ip_valid ?s" "unmapped ?s = ?s" "ip_address_size ?s = 16"
    by (simp_all add: ip_from_bytes_wf unmapped_def) (simp_all add: ip_from_bytes_def ip_defs)
  have w: "write_relay_message_binary (replicate 4096 0) [1, 2, 3] ?d
      = (11, snd (write_relay_message_binary (replicate 4096 0) [1, 2, 3] ?d))"
    using write_relay_message_image [OF d(1,2), of "[1, 2, 3]" "replicate 4096 0"] d(4) by simp
  show ?thesis
    using handleRelayMessage_delivers [OF d(1,2) s(1,2) _ _ _ _ _ w,
        of "\<lparr> kAooSocketIPv4 = True, kAooSocketIPv6 = True, kAooSocketIPv4Mapped = False \<rparr>" ?d] s d(3)
    by (auto simp: AOO_MAX_PACKET_SIZE_def relay_check_addr_def)
qed

text \<open>
  On a dual-stack IPv6 socket the server sends an IPv4 destination to its IPv4-mapped address.
  When the sender has an IPv6 address, the two addresses then have the same type, and the server
  overwrites the 8-byte IPv4 relay header of the message with its own 20-byte IPv6 header: the first
  12 bytes of the relayed message are lost.
\<close>

theorem relay_dual_stack_truncates:
  assumes "ip_wf dst" and "ip_type_of dst = IPv4"
    and "ip_wf src" and "ip_type_of src = IPv6" and "\<not> is_ipv4_mapped src"
    and "kAooSocketIPv6 fl" and "\<not> kAooSocketIPv4 fl" and "kAooSocketIPv4Mapped fl"
    and "12 \<le> length msg"
  shows "aoo_handleRelayMessage_binary (relay_image dst @ msg) src fl
    = RelaySend (relay_image src @ drop 12 msg) (ipv4_mapped dst)"
proof -
  have v: "ip_valid dst" "ip_valid src"
    using assms(2,4) by (auto simp: ip_defs split: sa_family.splits)
  have nm: "\<not> is_ipv4_mapped dst"
    using assms(2) by (auto simp: is_ipv4_mapped_def ip_defs split: sa_family.splits)
  have s: "unmapped src = src"
    using assms(5) by (simp add: unmapped_def)
  have sz: "ip_address_size dst = 4" "ip_address_size src = 16"
    using assms(2,4) v by (simp_all add: address_size_cases)
  have ty: "ip_type_of (ipv4_mapped dst) = IPv6"
    using assms(2)
    by (cases "sa_family dst") (simp_all add: ipv4_mapped_def ip_type_of_def ip_from_bytes_def)
  have "binmsg_write_relay (relay_image dst @ msg) src
      = (20, relay_image src @ drop 20 (relay_image dst @ msg))"
    using assms(1,3,9) v sz by (subst write_relay_image) simp_all
  moreover have "drop 20 (relay_image dst @ msg) = drop 12 msg"
    using assms(1) sz by simp
  ultimately show ?thesis
    using assms nm s ty sz relay_image_check [of dst msg] read_relay_image [OF assms(1) v(1), of msg]
    by (simp add: aoo_handleRelayMessage_binary_def Let_def relay_check_addr_def)
qed

theorem relay_dual_stack_truncates_witness:
  "aoo_handleRelayMessage_binary
     (relay_image (ip_from_bytes [10, 0, 0, 1] 7000 IPv4) @ replicate 12 65 @ [1, 2, 3])
     (ip_from_bytes (replicate 16 7) 9000 IPv6)
     \<lparr> kAooSocketIPv4 = False, kAooSocketIPv6 = True, kAooSocketIPv4Mapped = True \<rparr>
   = RelaySend (relay_image (ip_from_bytes (replicate 16 7) 9000 IPv6) @ [1, 2, 3])
       (ipv4_mapped (ip_from_bytes [10, 0, 0, 1] 7000 IPv4))"
proof -
  let ?s = "ip_from_bytes (replicate 16 7) 9000 IPv6"
  have "\<not> is_ipv4_mapped ?s"
    by (rule not_mapped_first) (simp_all add: ip_from_bytes_def)
  then show ?thesis
    using relay_dual_stack_truncates [of "ip_from_bytes [10, 0, 0, 1] 7000 IPv4" ?s
        "\<lparr> kAooSocketIPv4 = False, kAooSocketIPv6 = True, kAooSocketIPv4Mapped = True \<rparr>"
        "replicate 12 65 @ [1, 2, 3]"]
    by (simp add: ip_from_bytes_wf)
qed

subsection \<open>Address patterns\<close>

text \<open>Decimal notation of an identifier, as \<^verbatim>\<open>snprintf\<close> with \<^verbatim>\<open>%d\<close> writes it.\<close>

fun decimal :: "nat \<Rightarrow> byte list" where
  "decimal n = (if n < 10 then [0x30 + word_of_nat n]
                else decimal (n div 10) @ [0x30 + word_of_nat (n mod 10)])"

declare decimal.simps [simp del]

lemma digit_facts:
  assumes "d < 10"
  shows "isdigit (0x30 + word_of_nat d)" and "uint (0x30 + word_of_nat d :: byte) = 0x30 + int d"
proof -
  have "unat (word_of_nat (0x30 + d) :: byte) = 0x30 + d"
    using assms by (simp only: unsigned_of_nat) (simp add: take_bit_nat_eq_self)
  then have u: "unat (0x30 + word_of_nat d :: byte) = 0x30 + d"
    by simp
  then show "isdigit (0x30 + word_of_nat d)"
    using assms by (simp add: isdigit_def word_le_nat_alt)
  have "uint (0x30 + word_of_nat d :: byte) = int (unat (0x30 + word_of_nat d :: byte))"
    by simp
  with u show "uint (0x30 + word_of_nat d :: byte) = 0x30 + int d"
    by simp
qed

lemma decimal_digits: "decimal n \<noteq> [] \<and> (\<forall>d\<in>set (decimal n). isdigit d)"
proof (induction n rule: decimal.induct)
  case (1 n)
  then show ?case
    by (subst (1 2) decimal.simps) (auto simp: digit_facts)
qed

lemma digits_value_snoc: "digits_value (ds @ [d]) = 10 * digits_value ds + (uint d - 0x30)"
  by (simp add: digits_value_def)

lemma digits_value_decimal: "digits_value (decimal n) = int n"
proof (induction n rule: decimal.induct)
  case (1 n)
  show ?case
  proof (cases "n < 10")
    case True
    then show ?thesis
      by (subst decimal.simps) (simp add: digits_value_def digit_facts)
  next
    case False
    then have "digits_value (decimal n)
        = 10 * int (n div 10) + (uint (0x30 + word_of_nat (n mod 10) :: byte) - 0x30)"
      using "1.IH" by (subst decimal.simps) (simp add: digits_value_snoc)
    also have "\<dots> = int n"
      by (simp add: digit_facts zdiv_int zmod_int)
    finally show ?thesis .
  qed
qed

lemma isdigit_not_space: "isdigit b \<Longrightarrow> \<not> isspace b \<and> b \<noteq> 0x2D \<and> b \<noteq> 0x2B"
  by (auto simp: isdigit_def isspace_def word_le_nat_alt)

lemma scan_id_decimal:
  assumes "rest = [] \<or> \<not> isdigit (hd rest)"
  shows "scan_id (0x2F # decimal n @ rest) = Some (int n, 1 + length (decimal n))"
proof -
  obtain d ds where d: "decimal n = d # ds"
    using decimal_digits [of n] by (cases "decimal n") auto
  have dig: "\<forall>x\<in>set (decimal n). isdigit x"
    using decimal_digits [of n] by blast
  then have "\<not> isspace d" "d \<noteq> 0x2D" "d \<noteq> 0x2B"
    using d isdigit_not_space by auto
  moreover have "takeWhile isdigit (decimal n @ rest) = decimal n"
    using dig assms by (cases rest) (simp_all add: takeWhile_append)
  ultimately show ?thesis
    using digits_value_decimal [of n] by (simp add: scan_id_def d)
qed

lemma ascii_simps [simp]: "ascii [] = []" "ascii (c # s) = of_char c # ascii s"
  "length (ascii s) = length s"
  by (simp_all add: ascii_def)

lemma has_prefix_at_0: "has_prefix_at 0 s (ascii s @ r)"
  by (simp add: has_prefix_at_def)

lemma domain_not_binmsg: "has_prefix_at 0 kAooMsgDomain msg \<Longrightarrow> \<not> binmsg_check msg"
proof -
  assume "has_prefix_at 0 kAooMsgDomain msg"
  then have "msg ! 0 = 0x2F"
    by (cases msg) (auto simp: has_prefix_at_def pattern_defs)
  then show ?thesis
    by (simp add: binmsg_check_def binmsg_const_defs)
qed

lemma parsePattern_scan:
  assumes "role = kAooMsgSource \<and> type = kAooMsgTypeSource
           \<or> role = kAooMsgSink \<and> type = kAooMsgTypeSink"
    and "mem = ascii (kAooMsgDomain @ role) @ 0x2F # decimal i @ rest"
    and "rest = [] \<or> \<not> isdigit (hd rest)"
    and "length (kAooMsgDomain @ role) \<le> n" and "n \<le> length mem"
  shows "aoo_parsePattern mem n
    = Inr (type, Some (int i), length (kAooMsgDomain @ role) + 1 + length (decimal i))"
proof -
  let ?p = "length (kAooMsgDomain @ role)"
  have pre: "take n mem = ascii (kAooMsgDomain @ role) @ take (n - ?p) (0x2F # decimal i @ rest)"
    using assms(4) by (simp add: assms(2) ascii_def)
  have dom: "has_prefix_at 0 kAooMsgDomain (take n mem)"
    unfolding pre by (simp add: has_prefix_at_def ascii_def)
  have sc: "scan_id (drop ?p mem) = Some (int i, 1 + length (decimal i))"
    using scan_id_decimal [OF assms(3), of i] by (simp add: assms(2) ascii_def)
  have four: "length kAooMsgDomain = 4"
    by (simp add: pattern_defs)
  show ?thesis
    using assms(1)
  proof
    assume r: "role = kAooMsgSource \<and> type = kAooMsgTypeSource"
    then have "has_prefix_at 4 kAooMsgSource (take n mem)"
      unfolding pre by (simp add: has_prefix_at_def pattern_defs)
    with dom sc r four show ?thesis
      by (simp add: aoo_parsePattern_def domain_not_binmsg Let_def)
  next
    assume r: "role = kAooMsgSink \<and> type = kAooMsgTypeSink"
    then have "has_prefix_at 4 kAooMsgSink (take n mem)"
      "\<not> has_prefix_at 4 kAooMsgSource (take n mem)"
      unfolding pre by (simp_all add: has_prefix_at_def pattern_defs)
    with dom sc r four show ?thesis
      by (simp add: aoo_parsePattern_def domain_not_binmsg Let_def)
  qed
qed

lemma inj_of_char_byte: "inj (of_char :: char \<Rightarrow> byte)"
proof (rule injI)
  fix c d :: char
  assume "(of_char c :: byte) = of_char d"
  then have "unat (word_of_nat (of_char c) :: byte) = unat (word_of_nat (of_char d) :: byte)"
    by (simp only: of_nat_of_char)
  then have "(of_char c :: nat) = of_char d"
    by (simp only: unsigned_of_nat) (simp add: take_bit_nat_eq_self nat_of_char_less_256)
  then show "c = d"
    by simp
qed

lemma has_prefix_at_common:
  assumes "has_prefix_at k s msg" and "has_prefix_at k t msg"
  shows "take (min (length s) (length t)) s = take (min (length s) (length t)) t"
proof -
  let ?m = "min (length s) (length t)"
  have "take ?m (ascii s) = take ?m (take (length s) (drop k msg))"
    "take ?m (ascii t) = take ?m (take (length t) (drop k msg))"
    using assms by (simp_all add: has_prefix_at_def)
  then have "take ?m (ascii s) = take ?m (ascii t)"
    by (simp add: min.commute min.left_commute)
  then have "map of_char (take ?m s) = (map of_char (take ?m t) :: byte list)"
    by (simp add: ascii_def take_map)
  then show ?thesis
    by (rule map_injective) (rule inj_of_char_byte)
qed

text \<open>
  A message to a source or a sink is parsed to its type and its identifier, and the offset points
  behind the identifier, whatever follows it.
\<close>

theorem parsePattern_id:
  assumes "role = kAooMsgSource \<and> type = kAooMsgTypeSource
           \<or> role = kAooMsgSink \<and> type = kAooMsgTypeSink"
    and "mem = ascii (kAooMsgDomain @ role) @ 0x2F # decimal i @ rest"
    and "rest = [] \<or> \<not> isdigit (hd rest)"
    and "length (kAooMsgDomain @ role) \<le> n" and "n \<le> length mem"
  shows "aoo_parsePattern mem n
    = Inr (type, Some (int i), length (kAooMsgDomain @ role) + 1 + length (decimal i))"
  using assms by (rule parsePattern_scan)

theorem parsePattern_id_witness:
  "aoo_parsePattern (ascii ''/aoo/sink/42/data'' @ [0, 0, 0]) 20 = Inr (kAooMsgTypeSink, Some 42, 12)"
proof -
  have d: "decimal 42 = [0x34, 0x32]"
    by (simp add: decimal.simps [of 42] decimal.simps [of 4])
  have nd: "\<not> isdigit 0x2F"
    by (simp add: isdigit_def word_le_nat_alt)
  show ?thesis
    using parsePattern_id [of kAooMsgSink kAooMsgTypeSink
        "ascii ''/aoo/sink/42/data'' @ [0, 0, 0]" 42 "ascii ''/data'' @ [0, 0, 0]" 20]
    by (simp add: d nd pattern_defs)
qed

text \<open>
  The scan for the identifier is not bounded by the message: a message that ends right after the
  role is accepted, and its identifier is read from the memory behind the message.
\<close>

theorem parsePattern_reads_past_end:
  "aoo_parsePattern (ascii ''/aoo/sink'' @ 0x2F # decimal i) 9
     = Inr (kAooMsgTypeSink, Some (int i), 10 + length (decimal i))
   \<and> 9 < 10 + length (decimal i)"
proof -
  have p: "aoo_parsePattern (ascii (kAooMsgDomain @ kAooMsgSink) @ 0x2F # decimal i @ [])
      (length (kAooMsgDomain @ kAooMsgSink))
    = Inr (kAooMsgTypeSink, Some (int i),
        length (kAooMsgDomain @ kAooMsgSink) + 1 + length (decimal i))"
    by (rule parsePattern_scan [where rest = "[]"]) simp_all
  show ?thesis
    using p by (simp add: pattern_defs numeral_eq_Suc)
qed

text \<open>
  The parser of client and server agrees with \<^const>\<open>aoo_parsePattern\<close>: it reports the same
  type and the same offset, except that it accepts a binary message whose large header does not fit
  into the message, with offset 0, where \<^const>\<open>aoo_parsePattern\<close> reports an error.
\<close>

theorem parse_pattern_agrees:
  assumes "parse_pattern msg = Inr (type, offset)"
  shows "(\<exists>i. aoo_parsePattern msg (length msg) = Inr (type, i, offset))
    \<or> (offset = 0 \<and> binmsg_check msg
       \<and> aoo_parsePattern msg (length msg) = Inl kAooErrorBadArgument)"
proof (cases "binmsg_check msg")
  case True
  with assms show ?thesis
    by (auto simp: parse_pattern_def aoo_parsePattern_def Let_def)
next
  case False
  then have dom: "has_prefix_at 0 kAooMsgDomain msg"
    using assms by (auto simp: parse_pattern_def split: if_splits)
  have four: "length kAooMsgDomain = 4"
    by (simp add: pattern_defs)
  have excl: "has_prefix_at 4 s msg \<Longrightarrow> has_prefix_at 4 t msg \<Longrightarrow>
      take (min (length s) (length t)) s = take (min (length s) (length t)) t" for s t
    by (rule has_prefix_at_common)
  show ?thesis
    using assms False dom four excl [of kAooMsgServer kAooMsgSource]
      excl [of kAooMsgServer kAooMsgSink] excl [of kAooMsgServer kAooMsgClient]
      excl [of kAooMsgClient kAooMsgSource] excl [of kAooMsgClient kAooMsgSink]
      excl [of kAooMsgPeer kAooMsgSource] excl [of kAooMsgPeer kAooMsgSink]
      excl [of kAooMsgRelay kAooMsgSource] excl [of kAooMsgRelay kAooMsgSink]
    by (auto simp: parse_pattern_def aoo_parsePattern_def Let_def pattern_defs
        numeral_eq_Suc split: if_splits)
qed

theorem parse_pattern_agrees_witness:
  "parse_pattern (ascii ''/aoo/peer/ping'') = Inr (kAooMsgTypePeer, 9)
   \<and> (\<exists>i. aoo_parsePattern (ascii ''/aoo/peer/ping'') 14 = Inr (kAooMsgTypePeer, i, 9))"
proof -
  have p: "parse_pattern (ascii ''/aoo/peer/ping'') = Inr (kAooMsgTypePeer, 9)"
    by (simp add: parse_pattern_def binmsg_check_def has_prefix_at_def pattern_defs
        binmsg_const_defs Let_def)
  with parse_pattern_agrees [OF p] show ?thesis by (simp add: numeral_eq_Suc)
qed

end
