(* ===== verification/Data_Frame.thy ===== *)
theory Data_Frame
  imports Byte_Utils "HOL-Library.Monad_Syntax" "HOL-Library.Multiset"
begin

text \<open>
  \<^verbatim>\<open>aoo/src/data_frame.cpp\<close>: the pooling allocator of stream data frames and the per-block storage
  of received frames.

  Frames live in a heap, a map from addresses to frames with the header the C++ code gives them.
  The free lists of the allocator and the sorted list of a storage are linked through the header's
  \<^verbatim>\<open>next\<close> pointer, so they are chains in that heap. An operation that follows pointers
  returns an option: \<^const>\<open>None\<close> is a dangling pointer, an array index out of range, a loop that
  does not end or a failed assertion, and the theorems show that none of these happens under the invariants.

  The compare-and-swap loops on the heads of the free lists are modelled as the atomic operation
  they implement. Frames are taken off a free list by one thread at a time (packets are handled
  under the source mutex), so a head cannot be recycled between its load and its exchange.
\<close>

subsection \<open>Frames and the allocator\<close>

record data_frame =
  fr_size :: int
  fr_bin_index :: nat
  fr_frame_index :: int
  fr_next :: "nat option"
  fr_data :: "byte list"

type_synonym frame_heap = "nat \<rightharpoonup> data_frame"

record data_frame_allocator =
  bins :: "nat option list"
  allocated_counts :: "nat list"
  num_alloc_bytes :: int
  num_alloc_frames :: int
  heap :: frame_heap
  next_addr :: nat

text \<open>\<^verbatim>\<open>calc_bin_count\<close>: a bin for every power of two from \<open>min\<close> up to \<open>max\<close>.\<close>

function calc_bin_count :: "nat \<Rightarrow> nat \<Rightarrow> nat \<Rightarrow> nat" where
  "calc_bin_count sz mx cnt =
     (if 0 < sz \<and> sz \<le> mx then calc_bin_count (2 * sz) mx (Suc cnt) else cnt)"
  by pat_completeness auto
termination
  by (relation "measure (\<lambda>(sz, mx, cnt). Suc mx - sz)") auto

declare calc_bin_count.simps [simp del]

definition min_bin_size :: nat where "min_bin_size = 64"
definition max_bin_size :: nat where "max_bin_size = AOO_MAX_PACKET_SIZE"
definition min_bin_ilog2_size :: nat where "min_bin_ilog2_size = 6"
definition bin_count :: nat where "bin_count = calc_bin_count min_bin_size max_bin_size 0"
definition sizeof_header :: nat where "sizeof_header = 16"

lemmas bin_const_defs =
  min_bin_size_def max_bin_size_def min_bin_ilog2_size_def sizeof_header_def
  AOO_MAX_PACKET_SIZE_def

definition alloc_init :: data_frame_allocator where
  "alloc_init = \<lparr> bins = replicate bin_count None, allocated_counts = replicate bin_count 0,
     num_alloc_bytes = 0, num_alloc_frames = 0, heap = Map.empty, next_addr = 0 \<rparr>"

text \<open>\<^const>\<open>None\<close> is the \<^verbatim>\<open>runtime_error\<close> for a request that is too large, or one of the two assertions
  (an empty request, a bin that does not exist).\<close>

definition size_to_bin :: "nat \<Rightarrow> nat option" where
  "size_to_bin sz =
     (if sz = 0 then None
      else if sz > max_bin_size then None
      else let next_ilog2 = 32 - clz (word_of_nat sz - 1);
               index = (if next_ilog2 > min_bin_ilog2_size then next_ilog2 - min_bin_ilog2_size else 0)
           in if index < bin_count then Some index else None)"

definition bin_to_alloc_size :: "nat \<Rightarrow> nat" where
  "bin_to_alloc_size index = 2 ^ (index + min_bin_ilog2_size) + sizeof_header"

definition allocate_frame :: "nat \<Rightarrow> data_frame_allocator \<Rightarrow> nat \<times> data_frame_allocator" where
  "allocate_frame index al =
     (let p = next_addr al; alloc_size = bin_to_alloc_size index
      in (p, al\<lparr> heap := (heap al)(p \<mapsto> \<lparr> fr_size = 0, fr_bin_index = index, fr_frame_index = 0,
                                     fr_next = None, fr_data = [] \<rparr>),
                next_addr := Suc p,
                allocated_counts := (allocated_counts al)[index := Suc (allocated_counts al ! index)],
                num_alloc_bytes := num_alloc_bytes al + int alloc_size,
                num_alloc_frames := num_alloc_frames al + 1 \<rparr>))"

definition set_frame :: "nat \<Rightarrow> (data_frame \<Rightarrow> data_frame) \<Rightarrow> frame_heap \<Rightarrow> frame_heap option" where
  "set_frame p upd h = (case h p of None \<Rightarrow> None | Some f \<Rightarrow> Some (h(p \<mapsto> upd f)))"

definition alloc_allocate :: "nat \<Rightarrow> data_frame_allocator \<Rightarrow> (nat \<times> data_frame_allocator) option" where
  "alloc_allocate sz al = do {
     index \<leftarrow> size_to_bin sz;
     (frame, al) \<leftarrow> (case bins al ! index of
        None \<Rightarrow> Some (allocate_frame index al)
      | Some p \<Rightarrow> do {
          f \<leftarrow> heap al p;
          Some (p, al\<lparr> bins := (bins al)[index := fr_next f] \<rparr>) });
     h \<leftarrow> set_frame frame (\<lambda>f. f\<lparr> fr_size := int sz \<rparr>) (heap al);
     Some (frame, al\<lparr> heap := h \<rparr>) }"

text \<open>The size \<^verbatim>\<open>0xdeadbeef\<close>, as a signed integer, marks a frame on a free list; the assertion on it
  catches a frame that is freed twice.\<close>

definition dead_size :: int where "dead_size = -559038737"

definition alloc_deallocate :: "nat option \<Rightarrow> data_frame_allocator \<Rightarrow> data_frame_allocator option" where
  "alloc_deallocate frame al =
     (case frame of
        None \<Rightarrow> Some al
      | Some p \<Rightarrow> do {
          f \<leftarrow> heap al p;
          let index = fr_bin_index f;
          if index < length (bins al) \<and> 0 \<le> fr_frame_index f \<and> fr_size f \<noteq> dead_size then do {
            h \<leftarrow> set_frame p (\<lambda>f. f\<lparr> fr_size := dead_size, fr_next := bins al ! index \<rparr>) (heap al);
            Some (al\<lparr> heap := h, bins := (bins al)[index := Some p] \<rparr>) }
          else None })"

text \<open>The loop of \<^verbatim>\<open>reserve\<close> adds frames until the bin has \<open>cnt\<close> of them.\<close>

fun reserve_loop :: "nat \<Rightarrow> nat \<Rightarrow> nat \<Rightarrow> data_frame_allocator \<Rightarrow> data_frame_allocator option" where
  "reserve_loop 0 index sz al = Some al"
| "reserve_loop (Suc n) index sz al = do {
     let (frame, al) = allocate_frame index al;
     h \<leftarrow> set_frame frame (\<lambda>f. f\<lparr> fr_size := int sz \<rparr>) (heap al);
     al \<leftarrow> alloc_deallocate (Some frame) (al\<lparr> heap := h \<rparr>);
     reserve_loop n index sz al }"

definition alloc_reserve ::
    "nat \<Rightarrow> nat \<Rightarrow> data_frame_allocator \<Rightarrow> (nat \<times> data_frame_allocator) option" where
  "alloc_reserve sz cnt al = do {
     index \<leftarrow> size_to_bin sz;
     let added = cnt - allocated_counts al ! index;
     al \<leftarrow> reserve_loop added index sz al;
     Some (added, al) }"

text \<open>\<^verbatim>\<open>release_memory\<close> empties every free list and returns its frames to the system.\<close>

partial_function (option) release_list ::
    "nat option \<Rightarrow> data_frame_allocator \<Rightarrow> data_frame_allocator option" where
  "release_list ptr al =
     (case ptr of
        None \<Rightarrow> Some al
      | Some p \<Rightarrow> do {
          f \<leftarrow> heap al p;
          if fr_bin_index f < length (allocated_counts al) \<and> 0 \<le> fr_frame_index f then
            release_list (fr_next f)
              (al\<lparr> heap := (heap al)(p := None),
                  allocated_counts :=
                    (allocated_counts al)[fr_bin_index f := allocated_counts al ! fr_bin_index f - 1],
                  num_alloc_bytes := num_alloc_bytes al - int (bin_to_alloc_size (fr_bin_index f)),
                  num_alloc_frames := num_alloc_frames al - 1 \<rparr>)
          else None })"

fun release_bins :: "nat list \<Rightarrow> data_frame_allocator \<Rightarrow> data_frame_allocator option" where
  "release_bins [] al = Some al"
| "release_bins (i # is) al = do {
     al \<leftarrow> release_list (bins al ! i) (al\<lparr> bins := (bins al)[i := None] \<rparr>);
     release_bins is al }"

text \<open>The leak detection resets the two counters and asserts that they were zero.\<close>

definition alloc_release_memory :: "data_frame_allocator \<Rightarrow> data_frame_allocator option" where
  "alloc_release_memory al = do {
     al \<leftarrow> release_bins [0..<bin_count] al;
     if num_alloc_frames al = 0 \<and> num_alloc_bytes al = 0
     then Some (al\<lparr> num_alloc_bytes := 0, num_alloc_frames := 0 \<rparr>)
     else None }"

subsection \<open>Storage of the frames of a block\<close>

text \<open>
  Up to \<open>small_frame_limit\<close> frames are kept in an array, more of them in a sorted linked list with
  a bitset over the first 256 indices. The two share memory in a union; which one is in use follows
  from the size.
\<close>

record data_frame_storage =
  st_vec :: "nat option list"
  st_head :: "nat option"
  st_tail :: "nat option"
  st_bitset :: "256 word"
  st_size :: nat

definition frame_limit :: nat where "frame_limit = 256"
definition small_frame_limit :: nat where "small_frame_limit = 2 + frame_limit div (8 * 8)"

lemma small_frame_limit_eq [simp]: "small_frame_limit = 6"
  by (simp add: small_frame_limit_def frame_limit_def)

definition storage_empty :: data_frame_storage where
  "storage_empty = \<lparr> st_vec = replicate small_frame_limit None, st_head = None, st_tail = None,
     st_bitset = 0, st_size = 0 \<rparr>"

definition storage_init :: "nat \<Rightarrow> data_frame_storage \<Rightarrow> data_frame_storage" where
  "storage_init n st =
     (if n > small_frame_limit
      then st\<lparr> st_head := None, st_tail := None, st_bitset := 0, st_size := n \<rparr>
      else st\<lparr> st_vec := replicate small_frame_limit None, st_size := n \<rparr>)"

partial_function (option) clear_list ::
    "nat option \<Rightarrow> data_frame_allocator \<Rightarrow> data_frame_allocator option" where
  "clear_list ptr al =
     (case ptr of
        None \<Rightarrow> Some al
      | Some p \<Rightarrow> do {
          f \<leftarrow> heap al p;
          al' \<leftarrow> alloc_deallocate (Some p) al;
          clear_list (fr_next f) al' })"

fun clear_vec :: "nat option list \<Rightarrow> data_frame_allocator \<Rightarrow> data_frame_allocator option" where
  "clear_vec [] al = Some al"
| "clear_vec (p # ps) al = do { al \<leftarrow> alloc_deallocate p al; clear_vec ps al }"

definition storage_clear ::
    "data_frame_storage \<Rightarrow> data_frame_allocator \<Rightarrow> (data_frame_storage \<times> data_frame_allocator) option" where
  "storage_clear st al =
     (if st_size st > small_frame_limit then do {
        al \<leftarrow> clear_list (st_head st) al;
        Some (st\<lparr> st_head := None, st_tail := None, st_size := 0 \<rparr>, al) }
      else if st_size st > 0 then do {
        al \<leftarrow> clear_vec (st_vec st) al;
        Some (st\<lparr> st_size := 0 \<rparr>, al) }
      else Some (st\<lparr> st_size := 0 \<rparr>, al))"

partial_function (option) find_frame ::
    "frame_heap \<Rightarrow> nat option \<Rightarrow> nat \<Rightarrow> nat option option" where
  "find_frame h ptr index =
     (case ptr of
        None \<Rightarrow> Some None
      | Some p \<Rightarrow> do {
          f \<leftarrow> h p;
          if fr_frame_index f = int index then Some (Some p)
          else if fr_frame_index f > int index then Some None
          else find_frame h (fr_next f) index })"

definition storage_has_frame :: "frame_heap \<Rightarrow> data_frame_storage \<Rightarrow> nat \<Rightarrow> bool option" where
  "storage_has_frame h st index =
     (if st_size st > small_frame_limit then
        (if index < frame_limit then Some (bit (st_bitset st) index)
         else map_option (\<lambda>r. r \<noteq> None) (find_frame h (st_head st) index))
      else if index < length (st_vec st) then Some (st_vec st ! index \<noteq> None)
      else None)"

text \<open>The search for the place of a frame in the middle of the list. The assertion inside the loop
  (\<^verbatim>\<open>next->frame_index != index\<close>) follows from the condition of the loop.\<close>

partial_function (option) insert_pos :: "frame_heap \<Rightarrow> nat \<Rightarrow> nat \<Rightarrow> nat option" where
  "insert_pos h p index = do {
     f \<leftarrow> h p;
     (case fr_next f of
        None \<Rightarrow> Some p
      | Some q \<Rightarrow> do {
          g \<leftarrow> h q;
          if int index > fr_frame_index g then insert_pos h q index else Some p }) }"

definition list_add_frame ::
    "nat \<Rightarrow> nat \<Rightarrow> frame_heap \<Rightarrow> data_frame_storage \<Rightarrow> (frame_heap \<times> data_frame_storage) option" where
  "list_add_frame index frame h st =
     (let append = (case st_tail st of
            None \<Rightarrow> Some False
          | Some t \<Rightarrow> map_option (\<lambda>f. int index > fr_frame_index f) (h t))
      in do {
        app \<leftarrow> append;
        if app then do {
          t \<leftarrow> st_tail st;
          h \<leftarrow> set_frame frame (\<lambda>f. f\<lparr> fr_next := None \<rparr>) h;
          h \<leftarrow> set_frame t (\<lambda>f. f\<lparr> fr_next := Some frame \<rparr>) h;
          Some (h, st\<lparr> st_tail := Some frame \<rparr>) }
        else do {
          prepend \<leftarrow> (case st_head st of
             None \<Rightarrow> Some True
           | Some p \<Rightarrow> map_option (\<lambda>f. int index < fr_frame_index f) (h p));
          (h, st) \<leftarrow>
            (if prepend then do {
               h \<leftarrow> set_frame frame (\<lambda>f. f\<lparr> fr_next := st_head st \<rparr>) h;
               Some (h, st\<lparr> st_head := Some frame \<rparr>) }
             else do {
               p \<leftarrow> st_head st;
               f \<leftarrow> h p;
               p \<leftarrow> (if fr_frame_index f = int index then None else insert_pos h p index);
               f \<leftarrow> h p;
               h \<leftarrow> set_frame frame (\<lambda>g. g\<lparr> fr_next := fr_next f \<rparr>) h;
               h \<leftarrow> set_frame p (\<lambda>g. g\<lparr> fr_next := Some frame \<rparr>) h;
               Some (h, st) });
          f \<leftarrow> h frame;
          Some (h, if fr_next f = None then st\<lparr> st_tail := Some frame \<rparr> else st) } })"

text \<open>The header keeps the frame index in an \<^verbatim>\<open>int16_t\<close>.\<close>

definition to_int16 :: "nat \<Rightarrow> int" where
  "to_int16 i = sint (word_of_nat i :: 16 word)"

definition storage_add_frame ::
    "nat \<Rightarrow> nat \<Rightarrow> frame_heap \<Rightarrow> data_frame_storage \<Rightarrow> (frame_heap \<times> data_frame_storage) option" where
  "storage_add_frame index frame h st =
     (if index < st_size st then do {
        h \<leftarrow> set_frame frame (\<lambda>f. f\<lparr> fr_frame_index := to_int16 index \<rparr>) h;
        if st_size st > small_frame_limit then do {
          (h, st) \<leftarrow> list_add_frame index frame h st;
          Some (h, if index < frame_limit
                   then st\<lparr> st_bitset := Bit_Operations.set_bit index (st_bitset st) \<rparr> else st) }
        else if index < length (st_vec st) \<and> st_vec st ! index = None
        then Some (h, st\<lparr> st_vec := (st_vec st)[index := Some frame] \<rparr>)
        else None }
      else None)"

text \<open>\<open>out\<close> holds the bytes written to the destination buffer so far; the frames of the list are
  asserted to have the indices 0, 1, 2 and so on.\<close>

partial_function (option) copy_list ::
    "frame_heap \<Rightarrow> nat option \<Rightarrow> int \<Rightarrow> byte list \<Rightarrow> byte list option" where
  "copy_list h ptr index out =
     (case ptr of
        None \<Rightarrow> Some out
      | Some p \<Rightarrow> do {
          f \<leftarrow> h p;
          if fr_frame_index f = index
          then copy_list h (fr_next f) (index + 1) (out @ take (nat (fr_size f)) (fr_data f))
          else None })"

fun copy_vec :: "frame_heap \<Rightarrow> nat option list \<Rightarrow> byte list \<Rightarrow> byte list option" where
  "copy_vec h [] out = Some out"
| "copy_vec h (p # ps) out = do {
     p \<leftarrow> p;
     f \<leftarrow> h p;
     copy_vec h ps (out @ take (nat (fr_size f)) (fr_data f)) }"

definition storage_copy_frames :: "frame_heap \<Rightarrow> data_frame_storage \<Rightarrow> byte list option" where
  "storage_copy_frames h st =
     (if st_size st > small_frame_limit then copy_list h (st_head st) 0 []
      else copy_vec h (take (st_size st) (st_vec st)) [])"

subsection \<open>Chains in the heap\<close>

primrec frame_seg :: "frame_heap \<Rightarrow> nat option \<Rightarrow> nat list \<Rightarrow> nat option \<Rightarrow> bool" where
  "frame_seg h p [] q \<longleftrightarrow> p = q"
| "frame_seg h p (a # as) q \<longleftrightarrow> p = Some a \<and> (\<exists>f. h a = Some f \<and> frame_seg h (fr_next f) as q)"

abbreviation frame_list :: "frame_heap \<Rightarrow> nat option \<Rightarrow> nat list \<Rightarrow> bool" where
  "frame_list h p as \<equiv> frame_seg h p as None"

lemma frame_seg_append [heap_simps]:
  "frame_seg h p (as @ bs) q \<longleftrightarrow> (\<exists>r. frame_seg h p as r \<and> frame_seg h r bs q)"
  by (induction as arbitrary: p) auto

lemma frame_seg_cong:
  assumes "\<And>a. a \<in> set as \<Longrightarrow> map_option fr_next (h' a) = map_option fr_next (h a)"
  shows "frame_seg h' p as q \<longleftrightarrow> frame_seg h p as q"
  using assms
proof (induction as arbitrary: p)
  case Nil
  then show ?case by simp
next
  case (Cons a as)
  then have "map_option fr_next (h' a) = map_option fr_next (h a)" by simp
  then show ?case
    using Cons.IH Cons.prems by (cases "h a"; cases "h' a") auto
qed

lemma frame_seg_upd_other [heap_simps]:
  "a \<notin> set as \<Longrightarrow> frame_seg (h(a := v)) p as q \<longleftrightarrow> frame_seg h p as q"
  by (rule frame_seg_cong) auto

lemma frame_list_unique: "frame_list h p as \<Longrightarrow> frame_list h p bs \<Longrightarrow> as = bs"
proof (induction as arbitrary: p bs)
  case Nil
  then show ?case by (cases bs) auto
next
  case (Cons a as)
  then show ?case by (cases bs) auto
qed

lemma frame_list_hd_notin: "frame_list h (Some a) (a # as) \<Longrightarrow> a \<notin> set as"
proof
  assume l: "frame_list h (Some a) (a # as)" and "a \<in> set as"
  then obtain bs cs where as: "as = bs @ a # cs" by (auto simp: in_set_conv_decomp)
  with l obtain r where "frame_list h r (a # cs)"
    by (auto simp: frame_seg_append)
  then have "frame_list h (Some a) (a # cs)" by auto
  with l have "a # as = a # cs" by (rule frame_list_unique)
  with as show False by simp
qed

lemma frame_list_distinct: "frame_list h p as \<Longrightarrow> distinct as"
proof (induction as arbitrary: p)
  case Nil
  then show ?case by simp
next
  case (Cons a as)
  then show ?case
    using frame_list_hd_notin [of h a as] by auto
qed

lemma frame_list_alive: "frame_seg h p as q \<Longrightarrow> a \<in> set as \<Longrightarrow> h a \<noteq> None"
  by (induction as arbitrary: p) auto

text \<open>The last cell of a chain points behind it; redirecting it extends the chain.\<close>

lemma frame_seg_snoc:
  "frame_seg h p (as @ [b]) q \<longleftrightarrow>
   frame_seg h p as (Some b) \<and> (\<exists>f. h b = Some f \<and> fr_next f = q)"
  by (auto simp: frame_seg_append)

lemma frame_seg_redirect:
  assumes "frame_seg h p (as @ [b]) q" and "distinct (as @ [b])"
  shows "frame_seg (h(b \<mapsto> (the (h b))\<lparr> fr_next := r \<rparr>)) p (as @ [b]) r"
  using assms by (auto simp: frame_seg_snoc frame_seg_upd_other)

definition fidx :: "frame_heap \<Rightarrow> nat \<Rightarrow> int" where
  "fidx h a = fr_frame_index (the (h a))"

definition fbin :: "frame_heap \<Rightarrow> nat \<Rightarrow> nat" where
  "fbin h a = fr_bin_index (the (h a))"

definition fsize :: "frame_heap \<Rightarrow> nat \<Rightarrow> int" where
  "fsize h a = fr_size (the (h a))"

definition payload :: "frame_heap \<Rightarrow> nat \<Rightarrow> byte list" where
  "payload h a = take (nat (fr_size (the (h a)))) (fr_data (the (h a)))"

subsection \<open>The loops over a chain\<close>

lemma copy_list_chain:
  "frame_list h p as \<Longrightarrow> map (fidx h) as = map int [k..<k + length as] \<Longrightarrow>
    copy_list h p (int k) out = Some (out @ concat (map (payload h) as))"
proof (induction as arbitrary: p k out)
  case Nil
  then show ?case by (subst copy_list.simps) simp
next
  case (Cons a as)
  then obtain f where f: "h a = Some f" "frame_list h (fr_next f) as" and p: "p = Some a"
    by auto
  have "[k..<k + length (a # as)] = k # [Suc k..<Suc k + length as]" by (subst upt_conv_Cons) simp_all
  then have i: "fidx h a = int k" "map (fidx h) as = map int [Suc k..<Suc k + length as]"
    using Cons.prems(2) by (simp_all del: upt_Suc)
  then have "payload h a = take (nat (fr_size f)) (fr_data f)" "fr_frame_index f = int k"
    using f by (simp_all add: payload_def fidx_def)
  then show ?case
    using Cons.IH [OF f(2) i(2)] f p by (subst copy_list.simps) (simp add: add.commute)
qed

lemma find_frame_chain:
  assumes "frame_list h p as" and "sorted_wrt (<) (map (fidx h) as)"
  shows "find_frame h p i = Some (map_of (map (\<lambda>a. (fidx h a, a)) as) (int i))"
  using assms
proof (induction as arbitrary: p)
  case Nil
  then show ?case by (subst find_frame.simps) simp
next
  case (Cons a as)
  then obtain f where f: "h a = Some f" "frame_list h (fr_next f) as" and p: "p = Some a"
    by auto
  have fi: "fr_frame_index f = fidx h a"
    using f by (simp add: fidx_def)
  have "map_of (map (\<lambda>a. (fidx h a, a)) as) (int i) = None" if "int i < fidx h a"
    using Cons.prems(2) that by (auto simp: map_of_eq_None_iff)
  then show ?case
    using Cons f by (subst find_frame.simps) (auto simp: p fi)
qed

lemma insert_pos_chain:
  assumes "frame_list h (Some a) (a # as)" and "fidx h a < int i"
    and "sorted_wrt (<) (map (fidx h) (a # as))"
  shows "insert_pos h a i = Some (last (takeWhile (\<lambda>x. fidx h x < int i) (a # as)))"
  using assms
proof (induction as arbitrary: a)
  case Nil
  then show ?case by (subst insert_pos.simps) auto
next
  case (Cons b as)
  then obtain f g where fg: "h a = Some f" "fr_next f = Some b" "h b = Some g"
    and l: "frame_list h (Some b) (b # as)" by auto
  have "fr_frame_index g = fidx h b"
    using fg by (simp add: fidx_def)
  then show ?case
    using Cons fg l by (subst insert_pos.simps) auto
qed

subsection \<open>Insertion into the sorted chain\<close>

lemma set_frame_Some: "h p = Some f \<Longrightarrow> set_frame p u h = Some (h(p \<mapsto> u f))"
  by (simp add: set_frame_def)

lemma fidx_upd [simp]:
  "fidx (h(p \<mapsto> f)) a = (if a = p then fr_frame_index f else fidx h a)"
  by (simp add: fidx_def)

lemma payload_upd [simp]:
  "payload (h(p \<mapsto> f)) a
   = (if a = p then take (nat (fr_size f)) (fr_data f) else payload h a)"
  by (simp add: payload_def)

text \<open>
  Two heaps that agree on everything but the links, as relinking leaves them.
\<close>

definition same_frames :: "frame_heap \<Rightarrow> frame_heap \<Rightarrow> bool" where
  "same_frames h h' \<longleftrightarrow>
     (\<forall>a. map_option (\<lambda>f. f\<lparr> fr_next := None \<rparr>) (h' a) = map_option (\<lambda>f. f\<lparr> fr_next := None \<rparr>) (h a))"

lemma same_framesD:
  assumes "same_frames h h'"
  shows "fidx h' = fidx h" and "payload h' = payload h" and "dom h' = dom h" and "fbin h' = fbin h"
    and "fsize h' = fsize h"
proof -
  have *: "map_option (\<lambda>f. f\<lparr> fr_next := None \<rparr>) (h' a) = map_option (\<lambda>f. f\<lparr> fr_next := None \<rparr>) (h a)" for a
    using assms by (simp add: same_frames_def)
  have eq: "(h' a = None) = (h a = None)"
    "fr_frame_index (the (h' a)) = fr_frame_index (the (h a))"
    "fr_size (the (h' a)) = fr_size (the (h a))" "fr_data (the (h' a)) = fr_data (the (h a))"
    "fr_bin_index (the (h' a)) = fr_bin_index (the (h a))" for a
  proof -
    show "(h' a = None) = (h a = None)"
      using * [of a] by (cases "h a"; cases "h' a") auto
    show "fr_frame_index (the (h' a)) = fr_frame_index (the (h a))"
      "fr_size (the (h' a)) = fr_size (the (h a))" "fr_data (the (h' a)) = fr_data (the (h a))"
      "fr_bin_index (the (h' a)) = fr_bin_index (the (h a))"
      using * [of a] by (cases "h a"; cases "h' a"; auto intro: data_frame.equality
          dest: arg_cong [where f = fr_frame_index] arg_cong [where f = fr_size]
          arg_cong [where f = fr_data] arg_cong [where f = fr_bin_index])+
  qed
  show "fidx h' = fidx h" and "payload h' = payload h" and "dom h' = dom h" and "fbin h' = fbin h"
    and "fsize h' = fsize h"
    using eq by (auto simp: fidx_def payload_def fbin_def fsize_def fun_eq_iff dom_def)
qed

lemma same_frames_link:
  "same_frames h h1 \<Longrightarrow> h1 p = Some f \<Longrightarrow> same_frames h (h1(p \<mapsto> f\<lparr> fr_next := n \<rparr>))"
  unfolding same_frames_def
proof
  fix a
  assume *: "\<forall>a. map_option (\<lambda>f. f\<lparr> fr_next := None \<rparr>) (h1 a)
      = map_option (\<lambda>f. f\<lparr> fr_next := None \<rparr>) (h a)" and f: "h1 p = Some f"
  show "map_option (\<lambda>f. f\<lparr> fr_next := None \<rparr>) ((h1(p \<mapsto> f\<lparr> fr_next := n \<rparr>)) a)
      = map_option (\<lambda>f. f\<lparr> fr_next := None \<rparr>) (h a)"
    using * [rule_format, of a] f by (cases "a = p") auto
qed

lemma same_frames_refl: "same_frames h h"
  by (simp add: same_frames_def)

text \<open>What one call of \<^const>\<open>list_add_frame\<close> does to the chain.\<close>

lemma chain_insert:
  assumes l: "frame_list h hd0 (as @ bs)" and fr: "h frame = Some f" "frame \<notin> set (as @ bs)"
    and h1: "h1 = h(frame \<mapsto> f\<lparr> fr_next := (if bs = [] then None else Some (hd bs)) \<rparr>)"
  shows "as = [] \<Longrightarrow> frame_list h1 (Some frame) (frame # bs)"
    and "as \<noteq> [] \<Longrightarrow> frame_list (h1(last as \<mapsto> (the (h (last as)))\<lparr> fr_next := Some frame \<rparr>))
           hd0 (as @ frame # bs)"
proof -
  obtain r where r: "frame_seg h hd0 as r" "frame_list h r bs"
    using l by (auto simp: frame_seg_append)
  have rb: "r = (if bs = [] then None else Some (hd bs))"
    using r(2) by (cases bs) auto
  have tail: "frame_list h1 (Some frame) (frame # bs)"
    using r(2) fr by (auto simp: h1 rb frame_seg_upd_other)
  then show "as = [] \<Longrightarrow> frame_list h1 (Some frame) (frame # bs)"
    by simp
  assume "as \<noteq> []"
  then obtain cs b where as: "as = cs @ [b]"
    by (cases as rule: rev_cases) auto
  have d: "distinct (as @ bs)"
    using l by (rule frame_list_distinct)
  have "frame_seg h1 hd0 (cs @ [b]) r"
    using r(1) fr by (simp add: h1 as frame_seg_upd_other)
  then have "frame_seg (h1(b \<mapsto> (the (h1 b))\<lparr> fr_next := Some frame \<rparr>)) hd0 (cs @ [b]) (Some frame)"
    using d by (intro frame_seg_redirect) (simp_all add: as)
  moreover have "the (h1 b) = the (h b)"
    using fr by (auto simp: h1 as)
  moreover have "frame_list (h1(b \<mapsto> v)) (Some frame) (frame # bs)" for v
    using tail d fr by (subst frame_seg_upd_other) (auto simp: as)
  ultimately show "frame_list (h1(last as \<mapsto> (the (h (last as)))\<lparr> fr_next := Some frame \<rparr>))
      hd0 (as @ frame # bs)"
    by (simp add: as frame_seg_append)
qed

lemma list_add_frame_chain:
  assumes l: "frame_list h (st_head st) as" and srt: "sorted_wrt (<) (map (fidx h) as)"
    and tail: "st_tail st = (if as = [] then None else Some (last as))"
    and fr: "h frame = Some f" "frame \<notin> set as" and new: "int i \<notin> fidx h ` set as"
  shows "\<exists>h' st' ls gs. list_add_frame i frame h st = Some (h', st') \<and> as = ls @ gs \<and>
    (\<forall>a\<in>set ls. fidx h a < int i) \<and> (\<forall>a\<in>set gs. int i < fidx h a) \<and>
    frame_list h' (st_head st') (ls @ frame # gs) \<and> st_tail st' = Some (last (frame # gs)) \<and>
    same_frames h h' \<and> (\<forall>a. a \<notin> set as \<and> a \<noteq> frame \<longrightarrow> h' a = h a) \<and>
    st_size st' = st_size st \<and> st_bitset st' = st_bitset st"
proof -
  define ls gs where lg: "ls = takeWhile (\<lambda>x. fidx h x < int i) as"
    "gs = dropWhile (\<lambda>x. fidx h x < int i) as"
  have as: "as = ls @ gs" by (simp add: lg)
  have ls: "\<forall>a\<in>set ls. fidx h a < int i"
    unfolding lg by (meson set_takeWhileD)
  have gs: "\<forall>a\<in>set gs. int i < fidx h a"
  proof (cases gs)
    case (Cons b bs)
    then have "\<not> fidx h b < int i" unfolding lg by (simp add: dropWhile_eq_Cons_conv)
    moreover have "fidx h b \<noteq> int i" using new as Cons by auto
    moreover have "\<forall>a\<in>set bs. fidx h b < fidx h a"
      using srt as Cons by (auto simp: sorted_wrt_append)
    ultimately show ?thesis using Cons by auto
  qed simp
  let ?res = "\<lambda>h' st'. frame_list h' (st_head st') (ls @ frame # gs) \<and>
    st_tail st' = Some (last (frame # gs)) \<and> same_frames h h' \<and>
    (\<forall>a. a \<notin> set as \<and> a \<noteq> frame \<longrightarrow> h' a = h a) \<and>
    st_size st' = st_size st \<and> st_bitset st' = st_bitset st"
  define h1 where h1: "h1 = h(frame \<mapsto> f\<lparr> fr_next := (if gs = [] then None else Some (hd gs)) \<rparr>)"
  define h2 where h2: "h2 = h1(last ls \<mapsto> (the (h (last ls)))\<lparr> fr_next := Some frame \<rparr>)"
  have sf1: "same_frames h h1"
    unfolding h1 using fr(1) by (intro same_frames_link same_frames_refl)
  note ci = chain_insert [OF l [unfolded as] fr(1) fr(2) [unfolded as] h1, folded h2]
  have "\<exists>h' st'. list_add_frame i frame h st = Some (h', st') \<and> ?res h' st'"
  proof (cases "ls = []")
    case True
    then have g: "gs = as" using as by simp
    have hd: "st_head st = (if as = [] then None else Some (hd as))"
      using l by (cases as) auto
    have pre: "(case st_head st of None \<Rightarrow> Some True
        | Some p \<Rightarrow> map_option (\<lambda>f. int i < fr_frame_index f) (h p)) = Some True"
      using gs l g by (cases as) (auto simp: fidx_def)
    have app: "(case st_tail st of None \<Rightarrow> Some False
        | Some t \<Rightarrow> map_option (\<lambda>f. int i > fr_frame_index f) (h t)) = Some False"
    proof (cases "as = []")
      case False
      then have "h (last as) \<noteq> None" "int i < fidx h (last as)"
        using frame_list_alive [OF l] gs g by auto
      then show ?thesis using tail False by (auto simp: fidx_def)
    qed (simp add: tail)
    have "list_add_frame i frame h st
        = Some (h1, (let st = st\<lparr> st_head := Some frame \<rparr> in if as = [] then st\<lparr> st_tail := Some frame \<rparr> else st))"
      unfolding list_add_frame_def Let_def app pre using fr(1) by (simp add: set_frame_def hd h1 g)
    then show ?thesis
      using ci(1) [OF True] sf1 True tail g by (auto simp: h1)
  next
    case False
    then have lls: "last ls \<in> set ls" "last ls \<in> set as" "last ls \<noteq> frame"
      using as fr(2) by auto
    then obtain g where g: "h (last ls) = Some g"
      using frame_list_alive [OF l] by blast
    have res: "frame_list h2 (st_head st) (ls @ frame # gs)" "same_frames h h2"
      "\<forall>a. a \<notin> set as \<and> a \<noteq> frame \<longrightarrow> h2 a = h a"
      using ci(2) [OF False] same_frames_link [OF sf1, of "last ls" g] g lls(2,3)
      by (auto simp: h2 h1)
    show ?thesis
    proof (cases "gs = []")
      case True
      then have "last as = last ls" "as \<noteq> []" using as False by auto
      then have "list_add_frame i frame h st = Some (h2, st\<lparr> st_tail := Some frame \<rparr>)"
        using tail g ls lls True fr(1)
        by (auto simp: list_add_frame_def set_frame_def h2 h1 fidx_def fun_upd_twist)
      then show ?thesis using res True by auto
    next
      case gne: False
      obtain a as' where as': "as = a # as'" and a: "a \<in> set ls"
        using False as by (cases ls) auto
      have hd: "st_head st = Some a" "h a \<noteq> None" "fidx h a < int i"
        using l as' ls a by auto
      then obtain fa where fa: "h a = Some fa" "fr_frame_index fa \<noteq> int i" by (auto simp: fidx_def)
      have "h (last as) \<noteq> None" "int i < fidx h (last as)"
        using frame_list_alive [OF l] gs gne as by auto
      then have app: "(case st_tail st of None \<Rightarrow> Some False
        | Some t \<Rightarrow> map_option (\<lambda>f. int i > fr_frame_index f) (h t)) = Some False"
        using tail as' by (auto simp: fidx_def)
      have pre: "(case st_head st of None \<Rightarrow> Some True
        | Some p \<Rightarrow> map_option (\<lambda>f. int i < fr_frame_index f) (h p)) = Some False"
        using hd by (auto simp: fidx_def)
      have pos: "insert_pos h a i = Some (last ls)"
        using insert_pos_chain [of h a as' i] l srt hd by (simp add: as' lg(1))
      have "fr_next g = Some (hd gs)"
        using l gne g False
        by (cases ls rule: rev_cases; cases gs) (auto simp: as frame_seg_append)
      then have "list_add_frame i frame h st = Some (h2, st)"
        unfolding list_add_frame_def Let_def app pre using pos g hd(1) fa fr(1) lls(3) gne
        by (simp add: set_frame_def h2 h1)
      then show ?thesis using res gne tail as by auto
    qed
  qed
  then show ?thesis using as ls gs by blast
qed

subsection \<open>What a storage holds\<close>

text \<open>
  \<open>storage_ok h st m\<close>: the storage \<open>st\<close> is well formed in the heap \<open>h\<close> and holds the frame
  \<open>m i\<close> at index \<open>i\<close>. A list is a chain sorted by index whose last cell is the tail and whose
  indices are the bits of the bitset; an array has its frames in their slots.
\<close>

definition list_ok :: "frame_heap \<Rightarrow> data_frame_storage \<Rightarrow> (nat \<rightharpoonup> nat) \<Rightarrow> bool" where
  "list_ok h st m \<longleftrightarrow>
     (\<exists>as. frame_list h (st_head st) as \<and> sorted_wrt (<) (map (fidx h) as) \<and>
        st_tail st = (if as = [] then None else Some (last as)) \<and> set as = ran m) \<and>
     (\<forall>i < frame_limit. bit (st_bitset st) i \<longleftrightarrow> m i \<noteq> None)"

definition vec_ok :: "data_frame_storage \<Rightarrow> (nat \<rightharpoonup> nat) \<Rightarrow> bool" where
  "vec_ok st m \<longleftrightarrow> length (st_vec st) = small_frame_limit \<and>
     (\<forall>i < small_frame_limit. st_vec st ! i = m i)"

definition storage_ok :: "frame_heap \<Rightarrow> data_frame_storage \<Rightarrow> (nat \<rightharpoonup> nat) \<Rightarrow> bool" where
  "storage_ok h st m \<longleftrightarrow> st_size st \<le> 2 ^ 15 \<and>
     (\<forall>i a. m i = Some a \<longrightarrow> i < st_size st \<and> h a \<noteq> None \<and> fidx h a = int i) \<and>
     (if st_size st > small_frame_limit then list_ok h st m else vec_ok st m)"

lemma storage_okD:
  assumes "storage_ok h st m" and "m i = Some a"
  shows "i < st_size st" and "h a \<noteq> None" and "fidx h a = int i"
  using assms by (auto simp: storage_ok_def)

lemma to_int16_small: "i < 2 ^ 15 \<Longrightarrow> to_int16 i = int i"
  by (simp add: to_int16_def sint_uint unat_of_nat uint_nat signed_take_bit_int_eq_self)

lemma storage_init_ok:
  assumes "0 < n" and "n \<le> 2 ^ 15"
  shows "storage_ok h (storage_init n st) Map.empty"
  using assms
  by (auto simp: storage_ok_def storage_init_def list_ok_def vec_ok_def frame_limit_def intro: exI [of _ "[]"])

lemma storage_has_frame_ok:
  assumes ok: "storage_ok h st m" and i: "i < st_size st"
  shows "storage_has_frame h st i = Some (m i \<noteq> None)"
proof (cases "st_size st > small_frame_limit \<and> \<not> i < frame_limit")
  case True
  then obtain as where as: "frame_list h (st_head st) as" "sorted_wrt (<) (map (fidx h) as)"
    "set as = ran m"
    using ok by (auto simp: storage_ok_def list_ok_def)
  have "map_of (map (\<lambda>a. (fidx h a, a)) as) (int i) \<noteq> None \<longleftrightarrow> m i \<noteq> None"
  proof -
    have "map_of (map (\<lambda>a. (fidx h a, a)) as) (int i) \<noteq> None \<longleftrightarrow> (\<exists>a \<in> ran m. fidx h a = int i)"
      unfolding map_of_eq_None_iff as(3) [symmetric] by force
    also have "\<dots> \<longleftrightarrow> m i \<noteq> None"
      using storage_okD(3) [OF ok] unfolding ran_def by fastforce
    finally show ?thesis .
  qed
  then show ?thesis
    using True find_frame_chain [OF as(1,2), of i] by (simp add: storage_has_frame_def)
next
  case False
  then show ?thesis
    using ok i
    by (cases "st_size st > small_frame_limit")
       (auto simp: storage_ok_def list_ok_def vec_ok_def storage_has_frame_def)
qed

lemma storage_add_frame_ok:
  assumes ok: "storage_ok h st m" and i: "i < st_size st" and new: "m i = None"
    and fr: "h frame \<noteq> None" "frame \<notin> ran m"
  shows "\<exists>h' st'. storage_add_frame i frame h st = Some (h', st') \<and>
    storage_ok h' st' (m(i \<mapsto> frame)) \<and> payload h' = payload h \<and> dom h' = dom h \<and>
    st_size st' = st_size st \<and> (\<forall>a. a \<notin> ran m \<and> a \<noteq> frame \<longrightarrow> h' a = h a) \<and>
    fbin h' = fbin h \<and> fsize h' = fsize h \<and> fidx h' = (fidx h)(frame := int i)"
proof -
  obtain f where f: "h frame = Some f" using fr by auto
  define f0 where "f0 = f\<lparr> fr_frame_index := int i \<rparr>"
  define h0 where h0: "h0 = h(frame \<mapsto> f0)"
  have "to_int16 i = int i"
    using ok i by (intro to_int16_small) (auto simp: storage_ok_def)
  then have sf: "set_frame frame (\<lambda>f. f\<lparr> fr_frame_index := to_int16 i \<rparr>) h = Some h0"
    by (simp add: set_frame_def f h0 f0_def)
  have pl: "payload h0 = payload h" "dom h0 = dom h" "fbin h0 = fbin h" "fsize h0 = fsize h"
    "fidx h0 = (fidx h)(frame := int i)" and fi: "fidx h0 frame = int i"
    "\<And>a. a \<in> ran m \<Longrightarrow> fidx h0 a = fidx h a"
    using f fr by (auto simp: h0 f0_def payload_def fidx_def fbin_def fsize_def fun_eq_iff)
  have fj: "fidx h0 a = int j" if "m j = Some a" for j a
    using fi(2) [of a] storage_okD(3) [of h st m j a] ok that by (simp add: ranI)
  have ran: "ran (m(i \<mapsto> frame)) = insert frame (ran m)"
    using new by (rule ran_map_upd)
  show ?thesis
  proof (cases "st_size st > small_frame_limit")
    case True
    then obtain as where as: "frame_list h (st_head st) as" "sorted_wrt (<) (map (fidx h) as)"
      "st_tail st = (if as = [] then None else Some (last as))" "set as = ran m"
      and bs: "\<forall>i < frame_limit. bit (st_bitset st) i \<longleftrightarrow> m i \<noteq> None"
      using ok by (auto simp: storage_ok_def list_ok_def)
    have l0: "frame_list h0 (st_head st) as" "map (fidx h0) as = map (fidx h) as"
      using as fr fi by (auto simp: h0 frame_seg_upd_other)
    have srt0: "sorted_wrt (<) (map (fidx h0) as)"
      using as(2) by (simp only: l0(2))
    have fr0: "h0 frame = Some f0" "frame \<notin> set as"
      using fr as(4) by (simp_all add: h0)
    have new0: "int i \<notin> fidx h0 ` set as"
      using storage_okD(3) [OF ok] new fi(2) as(4) by (force simp: ran_def)
    obtain h' st' ls gs where
      res: "list_add_frame i frame h0 st = Some (h', st')" "as = ls @ gs"
      "\<forall>a\<in>set ls. fidx h0 a < int i" "\<forall>a\<in>set gs. int i < fidx h0 a"
      "frame_list h' (st_head st') (ls @ frame # gs)" "st_tail st' = Some (last (frame # gs))"
      "same_frames h0 h'" "\<forall>a. a \<notin> set as \<and> a \<noteq> frame \<longrightarrow> h' a = h0 a"
      "st_size st' = st_size st" "st_bitset st' = st_bitset st"
      using list_add_frame_chain [OF l0(1) srt0 as(3) fr0 new0] by blast
    note sff = same_framesD [OF res(7)]
    have srt: "sorted_wrt (<) (map (fidx h') (ls @ frame # gs))"
      using srt0 res(2-4) fi(1) sff(1) by (force simp: sorted_wrt_append)
    define st'' where "st'' = (if i < frame_limit
      then st'\<lparr> st_bitset := Bit_Operations.set_bit i (st_bitset st') \<rparr> else st')"
    have add: "storage_add_frame i frame h st = Some (h', st'')"
      using True res(1) sf i by (simp add: storage_add_frame_def st''_def)
    have "list_ok h' st'' (m(i \<mapsto> frame))"
      unfolding list_ok_def
    proof (intro conjI exI)
      show "frame_list h' (st_head st'') (ls @ frame # gs)"
        using res(5) by (simp add: st''_def)
      show "\<forall>j<frame_limit. bit (st_bitset st'') j = ((m(i \<mapsto> frame)) j \<noteq> None)"
        using bs res(10) by (auto simp: st''_def bit_set_bit_iff frame_limit_def)
    qed (use srt res as(4) ran in \<open>auto simp: st''_def\<close>)
    moreover have "\<forall>j a. (m(i \<mapsto> frame)) j = Some a \<longrightarrow> j < st_size st'' \<and> h' a \<noteq> None \<and> fidx h' a = int j"
      using storage_okD(1,2) [OF ok] i res(9) sff(1,3) fi(1) fj f pl(2)
      by (auto simp: st''_def dom_def split: if_splits)
    ultimately have "storage_ok h' st'' (m(i \<mapsto> frame))"
      using ok True res(9) by (simp add: storage_ok_def st''_def)
    then show ?thesis
      using add res(8,9) sff pl as(4) by (auto simp: st''_def h0)
  next
    case False
    define st' where "st' = st\<lparr> st_vec := (st_vec st)[i := Some frame] \<rparr>"
    have len: "i < length (st_vec st)" "i < small_frame_limit" "st_vec st ! i = None"
      using ok False i new by (auto simp: storage_ok_def vec_ok_def)
    have "storage_add_frame i frame h st = Some (h0, st')"
      using False len i by (simp add: storage_add_frame_def sf st'_def)
    moreover have "storage_ok h0 st' (m(i \<mapsto> frame))"
      using ok False i len fi fr(2) storage_okD [OF ok]
      by (auto simp: storage_ok_def vec_ok_def st'_def nth_list_update h0 ran_def)
    ultimately show ?thesis
      using pl by (auto simp: st'_def h0)
  qed
qed

lemma ran_eq_image_dom: "ran m = (\<lambda>i. the (m i)) ` dom m"
proof (rule set_eqI)
  fix a
  show "a \<in> ran m \<longleftrightarrow> a \<in> (\<lambda>i. the (m i)) ` dom m"
    unfolding ran_def dom_def image_iff by fastforce
qed

text \<open>Copying a complete block out: the payloads in the order of the indices.\<close>

lemma sorted_chain_is_indexed:
  assumes ok: "storage_ok h st m" and full: "dom m = {..<n}"
    and as: "sorted_wrt (<) (map (fidx h) as)" "set as = ran m"
  shows "as = map (\<lambda>i. the (m i)) [0..<n]"
proof -
  let ?bs = "map (\<lambda>i. the (m i)) [0..<n]"
  have m: "m i = Some (the (m i))" if "i < n" for i
    using full that by (metis domD lessThan_iff option.sel)
  have fb: "map (fidx h) ?bs = map int [0..<n]"
    using m storage_okD(3) [OF ok] by auto
  have "set ?bs = ran m"
    by (simp add: ran_eq_image_dom full atLeast0LessThan)
  then have sets: "set (map (fidx h) as) = set (map (fidx h) ?bs)"
    using as(2) by (simp only: set_map)
  have sb: "sorted_wrt (<) (map (fidx h) ?bs)"
    unfolding fb by (simp add: sorted_wrt_map)
  have eq: "map (fidx h) as = map (fidx h) ?bs"
    by (rule strict_sorted_equal [OF sb as(1) sets])
  have "inj_on (fidx h) (ran m)"
    using storage_okD(3) [OF ok] by (auto simp: inj_on_def ran_def)
  then show ?thesis
    using eq as(2) \<open>set ?bs = ran m\<close> by (intro map_inj_on [OF eq]) simp
qed

lemma copy_vec_payload:
  assumes "\<forall>p \<in> set ps. \<exists>a. p = Some a \<and> h a \<noteq> None"
  shows "copy_vec h ps out = Some (out @ concat (map (\<lambda>p. payload h (the p)) ps))"
  using assms
proof (induction ps arbitrary: out)
  case (Cons p ps)
  then obtain a f where a: "p = Some a" "h a = Some f" by auto
  then have "payload h a = take (nat (fr_size f)) (fr_data f)"
    by (simp add: payload_def)
  then show ?case using Cons a by simp
qed simp

lemma storage_copy_frames_ok:
  assumes ok: "storage_ok h st m" and full: "dom m = {..<st_size st}"
  shows "storage_copy_frames h st
    = Some (concat (map (\<lambda>i. payload h (the (m i))) [0..<st_size st]))"
proof (cases "st_size st > small_frame_limit")
  case True
  then obtain as where as: "frame_list h (st_head st) as" "sorted_wrt (<) (map (fidx h) as)"
    "set as = ran m"
    using ok by (auto simp: storage_ok_def list_ok_def)
  have eq: "as = map (\<lambda>i. the (m i)) [0..<st_size st]"
    by (rule sorted_chain_is_indexed [OF ok full as(2,3)])
  have "fidx h (the (m i)) = int i" if "i < st_size st" for i
  proof -
    have "i \<in> dom m" using full that by simp
    then obtain a where "m i = Some a" by (rule domD [THEN exE])
    then show ?thesis using storage_okD(3) [OF ok, of i] by simp
  qed
  then have "map (fidx h) as = map int [0..<0 + length as]" by (simp add: eq)
  from copy_list_chain [OF as(1) this, of "[]"] show ?thesis
    using True by (simp add: storage_copy_frames_def eq comp_def)
next
  case False
  then have v: "length (st_vec st) = 6" "\<forall>i<6. st_vec st ! i = m i"
    using ok by (auto simp: storage_ok_def vec_ok_def)
  have tk: "take (st_size st) (st_vec st) = map m [0..<st_size st]"
    using v False by (intro nth_equalityI) auto
  have "\<forall>p \<in> set (map m [0..<st_size st]). \<exists>a. p = Some a \<and> h a \<noteq> None"
  proof
    fix p
    assume "p \<in> set (map m [0..<st_size st])"
    then obtain i where "p = m i" "i \<in> dom m" using full by auto
    then show "\<exists>a. p = Some a \<and> h a \<noteq> None"
      using storage_okD(2) [OF ok, of i] by (metis domD)
  qed
  from copy_vec_payload [OF this, of "[]"] show ?thesis
    using False by (simp add: storage_copy_frames_def tk comp_def)
qed

subsection \<open>The contract of a frame store\<close>

text \<open>
  What a received block relies on: a frame that is added at a free index is held there, nothing
  else changes, and a full store copies the payloads out in index order. The lemma proved from the
  contract is the one that matters on a network: the order of arrival does not.
\<close>

locale frame_store =
  fixes ok :: "'w \<Rightarrow> nat \<Rightarrow> (nat \<rightharpoonup> 'f) \<Rightarrow> bool"
    and alive :: "'w \<Rightarrow> 'f \<Rightarrow> bool"
    and bytes :: "'w \<Rightarrow> 'f \<Rightarrow> byte list"
    and add :: "nat \<Rightarrow> 'f \<Rightarrow> 'w \<Rightarrow> 'w option"
    and copy :: "'w \<Rightarrow> byte list option"
  assumes add_ok:
      "\<lbrakk>ok w n m; i < n; m i = None; alive w f; f \<notin> ran m\<rbrakk> \<Longrightarrow>
       \<exists>w'. add i f w = Some w' \<and> ok w' n (m(i \<mapsto> f)) \<and> bytes w' = bytes w \<and> alive w' = alive w"
    and copy_ok:
      "\<lbrakk>ok w n m; dom m = {..<n}\<rbrakk> \<Longrightarrow>
       copy w = Some (concat (map (\<lambda>i. bytes w (the (m i))) [0..<n]))"
begin

fun add_all :: "(nat \<times> 'f) list \<Rightarrow> 'w \<Rightarrow> 'w option" where
  "add_all [] w = Some w"
| "add_all ((i, f) # fs) w = (case add i f w of None \<Rightarrow> None | Some w' \<Rightarrow> add_all fs w')"

lemma add_all_ok:
  assumes "ok w n m" and "\<forall>(i, f) \<in> set fs. i < n \<and> m i = None \<and> alive w f \<and> f \<notin> ran m"
    and "distinct (map fst fs)" and "distinct (map snd fs)"
  shows "\<exists>w'. add_all fs w = Some w' \<and> ok w' n (m ++ map_of fs) \<and> bytes w' = bytes w"
  using assms
proof (induction fs arbitrary: w m)
  case Nil
  then show ?case by simp
next
  case (Cons x fs)
  obtain i f where x: "x = (i, f)" by (cases x)
  obtain w1 where w1: "add i f w = Some w1" "ok w1 n (m(i \<mapsto> f))" "bytes w1 = bytes w"
    "alive w1 = alive w"
    using add_ok [of w n m i f] Cons.prems x by auto
  have "\<forall>(j, g) \<in> set fs. j < n \<and> (m(i \<mapsto> f)) j = None \<and> alive w1 g \<and> g \<notin> ran (m(i \<mapsto> f))"
    using Cons.prems x w1(4) by (force simp: ran_map_upd)
  moreover have "distinct (map fst fs)" "distinct (map snd fs)"
    using Cons.prems(3,4) by simp_all
  ultimately obtain w' where "add_all fs w1 = Some w'"
    "ok w' n (m(i \<mapsto> f) ++ map_of fs)" "bytes w' = bytes w1"
    using Cons.IH [OF w1(2)] by blast
  moreover have "m(i \<mapsto> f) ++ map_of fs = m ++ map_of (x # fs)"
  proof -
    have "map_of fs i = None" using Cons.prems(3) x by (simp add: map_of_eq_None_iff)
    then show ?thesis by (intro ext) (auto simp: x map_add_def split: option.splits)
  qed
  ultimately have "ok w' n (m ++ map_of (x # fs))" "bytes w' = bytes w"
    "add_all (x # fs) w = Some w'"
    using w1 by (simp_all add: x)
  then show ?case by blast
qed

theorem any_order:
  assumes "ok w n Map.empty" and "mset (map fst fs) = mset [0..<n]" and "distinct (map snd fs)"
    and "\<forall>(i, f) \<in> set fs. alive w f"
  shows "\<exists>w'. add_all fs w = Some w' \<and>
    copy w' = Some (concat (map (\<lambda>i. bytes w (the (map_of fs i))) [0..<n]))"
proof -
  have s: "fst ` set fs = {..<n}" and d: "distinct (map fst fs)"
    using assms(2) mset_eq_setD [OF assms(2)] mset_eq_imp_distinct_iff [OF assms(2)]
    by (auto simp: atLeast0LessThan)
  have "\<forall>(i, f) \<in> set fs. i < n \<and> Map.empty i = None \<and> alive w f \<and> f \<notin> ran Map.empty"
    using assms(4) s by force
  then obtain w' where w': "add_all fs w = Some w'" "ok w' n (map_of fs)" "bytes w' = bytes w"
    using add_all_ok [OF assms(1) _ d assms(3)] by (auto simp: map_add_def)
  moreover have "dom (map_of fs) = {..<n}"
    by (simp add: dom_map_of_conv_image_fst s)
  ultimately show ?thesis
    using copy_ok [OF w'(2)] by auto
qed

end

definition add_frame_w :: "nat \<Rightarrow> nat \<Rightarrow> frame_heap \<times> data_frame_storage \<Rightarrow> (frame_heap \<times> data_frame_storage) option" where
  "add_frame_w i f w = storage_add_frame i f (fst w) (snd w)"

interpretation storage: frame_store
  "\<lambda>w n m. storage_ok (fst w) (snd w) m \<and> st_size (snd w) = n"
  "\<lambda>w a. a \<in> dom (fst w)" "\<lambda>w. payload (fst w)" add_frame_w
  "\<lambda>w. storage_copy_frames (fst w) (snd w)"
proof
  fix w :: "frame_heap \<times> data_frame_storage" and n m i f
  assume ok: "storage_ok (fst w) (snd w) m \<and> st_size (snd w) = n"
  {
    assume "i < n" "m i = None" "f \<in> dom (fst w)" "f \<notin> ran m"
    then obtain h' st' where "storage_add_frame i f (fst w) (snd w) = Some (h', st')"
      "storage_ok h' st' (m(i \<mapsto> f))" "payload h' = payload (fst w)" "dom h' = dom (fst w)"
      "st_size st' = st_size (snd w)"
      using storage_add_frame_ok [of "fst w" "snd w" m i f] ok by auto
    then show "\<exists>w'. add_frame_w i f w = Some w' \<and>
        (storage_ok (fst w') (snd w') (m(i \<mapsto> f)) \<and> st_size (snd w') = n) \<and>
        payload (fst w') = payload (fst w) \<and> (\<lambda>a. a \<in> dom (fst w')) = (\<lambda>a. a \<in> dom (fst w))"
      using ok by (auto simp: add_frame_w_def)
  next
    assume "dom m = {..<n}"
    then show "storage_copy_frames (fst w) (snd w)
        = Some (concat (map (\<lambda>i. payload (fst w) (the (m i))) [0..<n]))"
      using storage_copy_frames_ok [of "fst w" "snd w" m] ok by simp
  }
qed

subsection \<open>The bins\<close>

lemma bin_count_eq [simp]: "bin_count = 7"
  unfolding bin_count_def bin_const_defs by (simp add: calc_bin_count.simps)

lemma size_to_bin_fits:
  assumes "0 < sz" and "sz \<le> max_bin_size"
  shows "\<exists>b. size_to_bin sz = Some b \<and> b < bin_count \<and> sz + sizeof_header \<le> bin_to_alloc_size b \<and>
    (0 < b \<longrightarrow> bin_to_alloc_size (b - 1) < sz + sizeof_header)"
proof -
  have sz: "sz \<le> 4096" using assms by (simp add: bin_const_defs)
  have "word_of_nat sz - 1 = (word_of_nat (sz - 1) :: u32)"
    using assms by (simp add: of_nat_diff)
  moreover have "unat (word_of_nat (sz - 1) :: u32) = sz - 1"
    using sz by (simp add: unat_of_nat)
  ultimately have l: "32 - clz (word_of_nat sz - 1) = bit_len (sz - 1)"
    by (simp add: clz_bit_len)
  define b where "b = bit_len (sz - 1) - 6"
  have len: "bit_len (sz - 1) \<le> 12"
    using sz bit_len_le_iff [of "sz - 1" 12] by simp
  then have sb: "size_to_bin sz = Some b"
    using assms sz unfolding size_to_bin_def Let_def l b_def by (simp add: bin_const_defs) arith
  note len
  moreover have "sz - 1 < 2 ^ (b + 6)"
    unfolding bit_len_le_iff [symmetric] b_def by arith
  moreover have "\<not> sz - 1 < 2 ^ (b + 5)" if "0 < b"
    unfolding bit_len_le_iff [symmetric] using that b_def by arith
  ultimately show ?thesis
    using sb assms(1) by (auto simp: b_def bin_to_alloc_size_def min_bin_ilog2_size_def)
qed

subsection \<open>The invariant of the allocator\<close>

text \<open>
  \<open>alloc_struct al fl\<close>: the free list of bin \<open>b\<close> is the chain \<open>fl ! b\<close>, made of frames of that bin, and
  the counters agree with the frames that exist. A frame is in use when it exists and is on no
  free list.
  \<open>alloc_ok\<close> adds that a frame in use does not carry the mark of a freed one.
\<close>

definition alloc_struct :: "data_frame_allocator \<Rightarrow> nat list list \<Rightarrow> bool" where
  "alloc_struct al fl \<longleftrightarrow>
     length (bins al) = bin_count \<and> length (allocated_counts al) = bin_count \<and>
     length fl = bin_count \<and> finite (dom (heap al)) \<and>
     (\<forall>a \<in> dom (heap al). a < next_addr al \<and> fbin (heap al) a < bin_count \<and> 0 \<le> fidx (heap al) a) \<and>
     (\<forall>b < bin_count. frame_list (heap al) (bins al ! b) (fl ! b) \<and>
        (\<forall>a \<in> set (fl ! b). fbin (heap al) a = b) \<and>
        allocated_counts al ! b = card {a \<in> dom (heap al). fbin (heap al) a = b}) \<and>
     num_alloc_frames al = int (card (dom (heap al))) \<and>
     num_alloc_bytes al = (\<Sum>a \<in> dom (heap al). int (bin_to_alloc_size (fbin (heap al) a)))"

definition in_use :: "data_frame_allocator \<Rightarrow> nat list list \<Rightarrow> nat set" where
  "in_use al fl = dom (heap al) - \<Union> (set ` set fl)"

definition alloc_ok :: "data_frame_allocator \<Rightarrow> nat list list \<Rightarrow> bool" where
  "alloc_ok al fl \<longleftrightarrow> alloc_struct al fl \<and> (\<forall>a \<in> in_use al fl. fsize (heap al) a \<noteq> dead_size)"

lemma alloc_structD:
  assumes "alloc_struct al fl"
  shows "length (bins al) = 7" "length (allocated_counts al) = 7" "length fl = 7"
    "finite (dom (heap al))"
    "\<And>a. a \<in> dom (heap al) \<Longrightarrow> a < next_addr al \<and> fbin (heap al) a < 7"
    "\<And>b. b < 7 \<Longrightarrow> frame_list (heap al) (bins al ! b) (fl ! b)"
    "\<And>a b. b < 7 \<Longrightarrow> a \<in> set (fl ! b) \<Longrightarrow> fbin (heap al) a = b"
    "\<And>a. a \<in> dom (heap al) \<Longrightarrow> 0 \<le> fidx (heap al) a"
  using assms by (auto simp: alloc_struct_def)

lemma alloc_ok_struct: "alloc_ok al fl \<Longrightarrow> alloc_struct al fl"
  by (simp add: alloc_ok_def)

lemmas alloc_okD = alloc_structD [OF alloc_ok_struct]

text \<open>The mark is kept off the frames in use when their sizes do not change.\<close>

lemma alloc_ok_sizes:
  assumes "alloc_ok al fl" and "alloc_struct al' fl'" and "\<And>a. a \<in> in_use al' fl' \<Longrightarrow> a \<noteq> p \<Longrightarrow> a \<in> in_use al fl \<and> fsize (heap al') a = fsize (heap al) a"
    and "p \<in> in_use al' fl' \<Longrightarrow> fsize (heap al') p \<noteq> dead_size"
  shows "alloc_ok al' fl'"
  using assms unfolding alloc_ok_def by metis

lemma alloc_init_ok: "alloc_ok alloc_init (replicate bin_count [])"
  by (simp add: alloc_ok_def alloc_struct_def in_use_def alloc_init_def)

lemma fbin_upd [simp]:
  "fbin (h(p \<mapsto> f)) a = (if a = p then fr_bin_index f else fbin h a)"
  by (simp add: fbin_def)

text \<open>Changing a frame in any field but its bin and its link keeps the invariant.\<close>

lemma alloc_struct_heap_upd:
  assumes ok: "alloc_struct al fl" and f: "heap al p = Some f"
    and g: "fr_bin_index g = fr_bin_index f" "0 \<le> fr_frame_index g" "p \<in> \<Union> (set ` set fl) \<Longrightarrow> fr_next g = fr_next f"
  shows "alloc_struct (al\<lparr> heap := (heap al)(p \<mapsto> g) \<rparr>) fl"
proof -
  define h' where h': "h' = (heap al)(p \<mapsto> g)"
  have fb: "fbin h' = fbin (heap al)"
    using f g by (auto simp: h' fbin_def fun_eq_iff)
  have d: "dom h' = dom (heap al)"
    using f by (auto simp: h')
  have fi: "0 \<le> fidx h' a" if "a \<in> dom (heap al)" for a
    using alloc_structD(8) [OF ok that] g(2) by (simp add: h')
  have "frame_list h' (bins al ! b) (fl ! b)" if "b < bin_count" for b
  proof -
    have "map_option fr_next (h' a) = map_option fr_next (heap al a)" if "a \<in> set (fl ! b)" for a
    proof -
      have "fl ! b \<in> set fl" using \<open>b < bin_count\<close> alloc_structD(3) [OF ok] by simp
      then show ?thesis using f g(3) that by (auto simp: h')
    qed
    then show ?thesis
      using alloc_structD(6) [OF ok, of b] that frame_seg_cong [of "fl ! b" h' "heap al"] by simp
  qed
  then show ?thesis
    using ok fi unfolding alloc_struct_def by (simp add: fb d flip: h')
qed

lemma allocate_frame_ok:
  assumes ok: "alloc_struct al fl" and b: "b < bin_count"
    and al': "allocate_frame b al = (p, al')"
  shows "alloc_struct al' fl" and "p \<notin> dom (heap al)" and "dom (heap al') = insert p (dom (heap al))"
    and "fbin (heap al') p = b" and "\<forall>a. a \<noteq> p \<longrightarrow> heap al' a = heap al a" and "bins al' = bins al"
proof -
  have p: "p = next_addr al" and p': "p \<notin> dom (heap al)"
    using al' alloc_structD(5) [OF ok] by (auto simp: allocate_frame_def Let_def)
  let ?f = "\<lparr> fr_size = 0, fr_bin_index = b, fr_frame_index = 0, fr_next = None, fr_data = [] \<rparr>"
  have h: "heap al' = (heap al)(p \<mapsto> ?f)"
    using al' by (auto simp: allocate_frame_def Let_def)
  show "p \<notin> dom (heap al)" by fact
  show d: "dom (heap al') = insert p (dom (heap al))"
    by (auto simp: h)
  show "fbin (heap al') p = b" "\<forall>a. a \<noteq> p \<longrightarrow> heap al' a = heap al a" "bins al' = bins al"
    using al' by (auto simp: h allocate_frame_def Let_def)
  have fb: "fbin (heap al') a = fbin (heap al) a" if "a \<in> dom (heap al)" for a
    using p' that by (auto simp: h)
  have free: "a \<in> dom (heap al)" if "a \<in> set (fl ! c)" "c < 7" for a c
    using frame_list_alive [OF alloc_structD(6) [OF ok that(2)] that(1)] by auto
  have cnt: "{a \<in> dom (heap al'). fbin (heap al') a = c}
      = (if c = b then insert p else id) {a \<in> dom (heap al). fbin (heap al) a = c}" for c
    using fb p' by (auto simp: d h)
  have fin: "finite (dom (heap al))" by (rule alloc_structD(4) [OF ok])
  have sm: "(\<Sum>a \<in> dom (heap al'). int (bin_to_alloc_size (fbin (heap al') a)))
      = int (bin_to_alloc_size b) + (\<Sum>a \<in> dom (heap al). int (bin_to_alloc_size (fbin (heap al) a)))"
    using fb p' fin \<open>fbin (heap al') p = b\<close> by (simp add: d)
  have "frame_list (heap al') (bins al' ! c) (fl ! c)" if "c < 7" for c
  proof -
    have "p \<notin> set (fl ! c)" using free [of p c] that p' by blast
    then show ?thesis
      using alloc_structD(6) [OF ok that] \<open>bins al' = bins al\<close> by (simp add: h frame_seg_upd_other)
  qed
  moreover have "fbin (heap al') a = c" if "a \<in> set (fl ! c)" "c < 7" for a c
    using alloc_structD(7) [OF ok that(2,1)] fb [OF free [OF that]] by simp
  moreover have "allocated_counts al' ! c = card {a \<in> dom (heap al'). fbin (heap al') a = c}"
    if "c < 7" for c
  proof -
    have "allocated_counts al' = (allocated_counts al)[b := Suc (allocated_counts al ! b)]"
      using al' by (auto simp: allocate_frame_def Let_def)
    then show ?thesis
      using ok that b p' fin unfolding cnt
      by (auto simp: alloc_struct_def nth_list_update card_insert_if)
  qed
  moreover have "a < next_addr al' \<and> fbin (heap al') a < 7" if "a \<in> dom (heap al')" for a
    using alloc_structD(5) [OF ok, of a] that b fb [of a] al' p \<open>fbin (heap al') p = b\<close>
    by (cases "a = p") (auto simp: d allocate_frame_def Let_def)
  moreover have "0 \<le> fidx (heap al') a" if "a \<in> dom (heap al')" for a
    using alloc_structD(8) [OF ok, of a] that by (cases "a = p") (auto simp: d h)
  ultimately show "alloc_struct al' fl"
    using ok fin p' al' sm unfolding alloc_struct_def
    by (auto simp: d allocate_frame_def Let_def)
qed

text \<open>\<^verbatim>\<open>allocate\<close> and \<^verbatim>\<open>deallocate\<close> move one frame between the free lists and its user.\<close>

lemma free_lists_disjoint:
  assumes "alloc_struct al fl" and "b < 7" and "c < 7" and "a \<in> set (fl ! b)" and "a \<in> set (fl ! c)"
  shows "b = c"
  using alloc_structD(7) [OF assms(1,2,4)] alloc_structD(7) [OF assms(1,3,5)] by simp

lemma Union_take_drop:
  assumes "b < length fl"
  shows "\<Union> (set ` set (fl[b := xs]))
    = \<Union> (set ` set (take b fl)) \<union> set xs \<union> \<Union> (set ` set (drop (Suc b) fl))"
  unfolding upd_conv_take_nth_drop [OF assms] by auto

lemma Union_insert_free:
  assumes "b < length fl" and "set ys = insert a (set (fl ! b))"
  shows "\<Union> (set ` set (fl[b := ys])) = insert a (\<Union> (set ` set fl))"
  using Union_take_drop [OF assms(1), of ys] Union_take_drop [OF assms(1), of "fl ! b"] assms(2)
  by (simp add: Un_assoc)

lemma Union_remove_free:
  assumes "b < length fl" and "set (fl ! b) = insert a (set xs)" and "a \<notin> set xs"
    and "\<And>c. c < length fl \<Longrightarrow> a \<in> set (fl ! c) \<Longrightarrow> c = b"
  shows "\<Union> (set ` set fl) = insert a (\<Union> (set ` set (fl[b := xs])))"
    and "a \<notin> \<Union> (set ` set (fl[b := xs]))"
proof -
  show "\<Union> (set ` set fl) = insert a (\<Union> (set ` set (fl[b := xs])))"
    using Union_insert_free [of b "fl[b := xs]" "fl ! b" a] assms(1,2) by simp
  show "a \<notin> \<Union> (set ` set (fl[b := xs]))"
  proof
    assume "a \<in> \<Union> (set ` set (fl[b := xs]))"
    then obtain zs where "zs \<in> set (fl[b := xs])" "a \<in> set zs" by blast
    then obtain c where c: "c < length fl" "a \<in> set (fl[b := xs] ! c)"
      by (metis in_set_conv_nth length_list_update)
    show False
    proof (cases "c = b")
      case True
      then show ?thesis using c(2) assms(1,3) by simp
    next
      case False
      then show ?thesis using c(2) assms(4) [OF c(1)] by simp
    qed
  qed
qed

lemma free_list_alive: "alloc_struct al fl \<Longrightarrow> b < 7 \<Longrightarrow> a \<in> set (fl ! b) \<Longrightarrow> a \<in> dom (heap al)"
  using frame_list_alive [OF alloc_structD(6)] by blast

lemma alloc_allocate_ok:
  assumes ok: "alloc_ok al fl" and sz: "0 < sz" "sz \<le> max_bin_size"
  shows "\<exists>p al' fl'. alloc_allocate sz al = Some (p, al') \<and> alloc_ok al' fl' \<and>
    p \<notin> in_use al fl \<and> in_use al' fl' = insert p (in_use al fl) \<and>
    (\<forall>a \<in> in_use al fl. heap al' a = heap al a) \<and>
    fr_size (the (heap al' p)) = int sz \<and> size_to_bin sz = Some (fbin (heap al') p) \<and>
    sz + sizeof_header \<le> bin_to_alloc_size (fbin (heap al') p)"
proof -
  obtain b where b: "size_to_bin sz = Some b" "b < 7" "sz + sizeof_header \<le> bin_to_alloc_size b"
    using size_to_bin_fits [OF sz] by auto
  have "\<exists>p al1 fl'. (case bins al ! b of None \<Rightarrow> Some (allocate_frame b al)
      | Some p \<Rightarrow> do { f \<leftarrow> heap al p; Some (p, al\<lparr> bins := (bins al)[b := fr_next f] \<rparr>) })
      = Some (p, al1) \<and> alloc_struct al1 fl' \<and> p \<notin> in_use al fl \<and> in_use al1 fl' = insert p (in_use al fl) \<and>
      (\<forall>a \<in> in_use al fl. heap al1 a = heap al a) \<and> p \<in> dom (heap al1) \<and> fbin (heap al1) p = b"
  proof (cases "bins al ! b")
    case None
    obtain p al1 where al1: "allocate_frame b al = (p, al1)" by (cases "allocate_frame b al")
    note a = allocate_frame_ok [OF alloc_ok_struct [OF ok] _ al1]
    have "p \<notin> \<Union> (set ` set fl)"
      using a(2) b alloc_okD(3) [OF ok] free_list_alive [OF alloc_ok_struct [OF ok]] by (fastforce simp: set_conv_nth)
    then have "in_use al1 fl = insert p (in_use al fl)"
      using a(3) b by (auto simp: in_use_def)
    moreover have "p \<notin> in_use al fl" using a(2) b by (auto simp: in_use_def)
    ultimately show ?thesis
      using None a b al1 by (intro exI [of _ p] exI [of _ al1] exI [of _ fl]) (auto simp: in_use_def)
  next
    case (Some p)
    obtain rest f where fl: "fl ! b = p # rest" "heap al p = Some f"
      and rest: "frame_list (heap al) (fr_next f) rest"
      using alloc_okD(6) [OF ok b(2)] Some by (cases "fl ! b") auto
    have len: "length fl = 7" "length (bins al) = 7"
      using alloc_okD [OF ok] by simp_all
    have p: "p \<notin> set rest"
      using frame_list_distinct [OF alloc_okD(6) [OF ok b(2)]] fl by simp
    have "\<And>c. c < length fl \<Longrightarrow> p \<in> set (fl ! c) \<Longrightarrow> c = b"
      using free_lists_disjoint [OF alloc_ok_struct [OF ok] _ b(2), of _ p] fl len by simp
    note U = Union_remove_free [of b fl p rest, OF _ _ p this]
    have "alloc_struct (al\<lparr> bins := (bins al)[b := fr_next f] \<rparr>) (fl[b := rest])"
      using alloc_ok_struct [OF ok] rest fl(1) b(2) len by (auto simp: alloc_struct_def nth_list_update)
    moreover have "in_use (al\<lparr> bins := (bins al)[b := fr_next f] \<rparr>) (fl[b := rest]) = insert p (in_use al fl)"
      "p \<notin> in_use al fl"
      using U fl b len by (auto simp: in_use_def)
    moreover have "fbin (heap al) p = b"
      using alloc_okD(7) [OF ok b(2)] fl by simp
    ultimately show ?thesis
      using Some fl by (intro exI [of _ p] exI [of _ "al\<lparr> bins := (bins al)[b := fr_next f] \<rparr>"]
        exI [of _ "fl[b := rest]"]) auto
  qed
  then obtain p al1 fl' where r: "(case bins al ! b of None \<Rightarrow> Some (allocate_frame b al)
      | Some p \<Rightarrow> do { f \<leftarrow> heap al p; Some (p, al\<lparr> bins := (bins al)[b := fr_next f] \<rparr>) })
      = Some (p, al1)" "alloc_struct al1 fl'" "p \<notin> in_use al fl" "in_use al1 fl' = insert p (in_use al fl)"
      "\<forall>a \<in> in_use al fl. heap al1 a = heap al a" "p \<in> dom (heap al1)" "fbin (heap al1) p = b"
    by blast
  obtain f where f: "heap al1 p = Some f" using r(6) by auto
  let ?al' = "al1\<lparr> heap := (heap al1)(p \<mapsto> f\<lparr> fr_size := int sz \<rparr>) \<rparr>"
  have "alloc_allocate sz al = Some (p, ?al')"
    unfolding alloc_allocate_def b(1) using r(1) f by (simp add: set_frame_def)
  moreover have "alloc_struct ?al' fl'"
    using r(2) f alloc_structD(8) [OF r(2) r(6)] by (intro alloc_struct_heap_upd) (simp_all add: fidx_def)
  moreover have use: "in_use ?al' fl' = insert p (in_use al fl)"
    using r(4) f by (auto simp: in_use_def)
  moreover have "alloc_ok ?al' fl'"
  proof (rule alloc_ok_sizes [OF ok, of _ _ p])
    show "alloc_struct ?al' fl'" by fact
    show "a \<in> in_use al fl \<and> fsize (heap ?al') a = fsize (heap al) a" if "a \<in> in_use ?al' fl'" "a \<noteq> p" for a
      using that r(5) by (simp add: use fsize_def)
  qed (simp add: fsize_def dead_size_def)
  ultimately show ?thesis
    using r(3,5,7) b(1,3) f by (intro exI [of _ p] exI [of _ ?al'] exI [of _ fl']) (auto simp: fbin_def)
qed

lemma alloc_deallocate_ok:
  assumes ok: "alloc_ok al fl" and p: "p \<in> in_use al fl"
  shows "\<exists>al' fl'. alloc_deallocate (Some p) al = Some al' \<and> alloc_ok al' fl' \<and>
    in_use al' fl' = in_use al fl - {p} \<and> dom (heap al') = dom (heap al) \<and>
    (\<forall>a. a \<noteq> p \<longrightarrow> heap al' a = heap al a)"
proof -
  obtain f where f: "heap al p = Some f" and free: "p \<notin> \<Union> (set ` set fl)"
    using p by (auto simp: in_use_def)
  define b where "b = fr_bin_index f"
  have b: "b < 7" "fbin (heap al) p = b"
    using alloc_okD(5) [OF ok, of p] f by (auto simp: b_def fbin_def)
  define g where "g = f\<lparr> fr_size := dead_size, fr_next := bins al ! b \<rparr>"
  define al' where "al' = al\<lparr> heap := (heap al)(p \<mapsto> g), bins := (bins al)[b := Some p] \<rparr>"
  have idx: "0 \<le> fr_frame_index f" "fr_size f \<noteq> dead_size" "b < length (bins al)"
    using alloc_okD(8) [OF ok, of p] ok p f b alloc_okD(1) [OF ok] by (auto simp: alloc_ok_def fidx_def fsize_def)
  then have dl: "alloc_deallocate (Some p) al = Some al'"
    by (simp add: alloc_deallocate_def f set_frame_def al'_def g_def b_def Let_def)
  have ok1: "alloc_struct (al\<lparr> heap := (heap al)(p \<mapsto> g) \<rparr>) fl"
    using alloc_ok_struct [OF ok] f free idx(1) by (intro alloc_struct_heap_upd) (auto simp: g_def b_def)
  have len: "length fl = 7" "length (bins al) = 7" and gb: "fr_bin_index g = b"
    using alloc_okD [OF ok] by (simp_all add: g_def b_def)
  have "frame_list ((heap al)(p \<mapsto> g)) (Some p) (p # fl ! b)"
    using alloc_structD(6) [OF ok1 b(1)] by (auto simp: g_def)
  then have st: "alloc_struct al' (fl[b := p # fl ! b])"
    using ok1 b len gb by (auto simp: alloc_struct_def al'_def nth_list_update)
  have "\<Union> (set ` set (fl[b := p # fl ! b])) = insert p (\<Union> (set ` set fl))"
    using b len by (intro Union_insert_free) simp_all
  then have use: "in_use al' (fl[b := p # fl ! b]) = in_use al fl - {p}"
    using f by (auto simp: in_use_def al'_def)
  have "alloc_ok al' (fl[b := p # fl ! b])"
    by (rule alloc_ok_sizes [OF ok st, of p]; unfold use) (auto simp: al'_def fsize_def)
  then show ?thesis
    using dl use f by (intro exI [of _ al'] exI [of _ "fl[b := p # fl ! b]"]) (auto simp: al'_def)
qed

subsection \<open>Returning the frames of a block\<close>

lemma clear_vec_ok:
  assumes "alloc_ok al fl" and "{a. Some a \<in> set ps} \<subseteq> in_use al fl"
    and "distinct (filter (\<lambda>p. p \<noteq> None) ps)"
  shows "\<exists>al' fl'. clear_vec ps al = Some al' \<and> alloc_ok al' fl' \<and>
    in_use al' fl' = in_use al fl - {a. Some a \<in> set ps} \<and>
    (\<forall>a. Some a \<notin> set ps \<longrightarrow> heap al' a = heap al a)"
  using assms
proof (induction ps arbitrary: al fl)
  case Nil
  then show ?case by auto
next
  case (Cons p ps)
  show ?case
  proof (cases p)
    case None
    then show ?thesis
      using Cons.IH [of al fl] Cons.prems by (simp add: alloc_deallocate_def)
  next
    case (Some a)
    then obtain al1 fl1 where 1: "alloc_deallocate p al = Some al1" "alloc_ok al1 fl1"
      "in_use al1 fl1 = in_use al fl - {a}" "\<forall>x. x \<noteq> a \<longrightarrow> heap al1 x = heap al x"
    proof -
      have "a \<in> in_use al fl" using Cons.prems(2) Some by auto
      then show ?thesis using alloc_deallocate_ok [OF Cons.prems(1), of a] Some that by blast
    qed
    have a: "Some a \<notin> set ps" "distinct (filter (\<lambda>p. p \<noteq> None) ps)"
      using Cons.prems(3) Some by auto
    then obtain al' fl' where 2: "clear_vec ps al1 = Some al'" "alloc_ok al' fl'"
      "in_use al' fl' = in_use al1 fl1 - {a. Some a \<in> set ps}"
      "\<forall>a. Some a \<notin> set ps \<longrightarrow> heap al' a = heap al1 a"
      using Cons.IH [OF 1(2)] 1(3) Cons.prems(2) by auto
    then show ?thesis
      using 1 Some by (intro exI [of _ al'] exI [of _ fl']) auto
  qed
qed

lemma clear_list_ok:
  assumes "alloc_ok al fl" and "frame_list (heap al) p as" and "set as \<subseteq> in_use al fl"
  shows "\<exists>al' fl'. clear_list p al = Some al' \<and> alloc_ok al' fl' \<and>
    in_use al' fl' = in_use al fl - set as \<and> (\<forall>a. a \<notin> set as \<longrightarrow> heap al' a = heap al a)"
  using assms
proof (induction as arbitrary: p al fl)
  case Nil
  then show ?case by (subst clear_list.simps) auto
next
  case (Cons a as)
  then obtain f where f: "heap al a = Some f" "frame_list (heap al) (fr_next f) as" and p: "p = Some a"
    by auto
  have a: "a \<notin> set as"
    using frame_list_distinct [OF Cons.prems(2)] by simp
  obtain al1 fl1 where 1: "alloc_deallocate (Some a) al = Some al1" "alloc_ok al1 fl1"
    "in_use al1 fl1 = in_use al fl - {a}" "\<forall>x. x \<noteq> a \<longrightarrow> heap al1 x = heap al x"
    using alloc_deallocate_ok [OF Cons.prems(1), of a] Cons.prems(3) by auto
  have "frame_list (heap al1) (fr_next f) as"
    using f(2) a 1(4) frame_seg_cong [of as "heap al1" "heap al"] by metis
  moreover have "set as \<subseteq> in_use al1 fl1"
    using 1(3) Cons.prems(3) a by auto
  ultimately obtain al' fl' where 2: "clear_list (fr_next f) al1 = Some al'" "alloc_ok al' fl'"
    "in_use al' fl' = in_use al1 fl1 - set as" "\<forall>a. a \<notin> set as \<longrightarrow> heap al' a = heap al1 a"
    using Cons.IH [OF 1(2)] by blast
  then have "clear_list p al = Some al'"
    using p f 1(1) by (subst clear_list.simps) simp
  then show ?case
    using 1 2 by (intro exI [of _ al'] exI [of _ fl']) auto
qed

lemma storage_clear_ok:
  assumes al: "alloc_ok al fl" and st: "storage_ok (heap al) st m" and use: "ran m \<subseteq> in_use al fl"
  shows "\<exists>st' al' fl'. storage_clear st al = Some (st', al') \<and> st_size st' = 0 \<and> alloc_ok al' fl' \<and>
    in_use al' fl' = in_use al fl - ran m \<and> (\<forall>a. a \<notin> ran m \<longrightarrow> heap al' a = heap al a)"
proof (cases "st_size st > small_frame_limit")
  case True
  then obtain as where as: "frame_list (heap al) (st_head st) as" "set as = ran m"
    using st by (auto simp: storage_ok_def list_ok_def)
  then show ?thesis
    using True clear_list_ok [OF al as(1)] use by (auto simp: storage_clear_def)
next
  case False
  then have v: "length (st_vec st) = 6" "\<forall>i<6. st_vec st ! i = m i"
    using st by (auto simp: storage_ok_def vec_ok_def)
  have small: "m i = Some a \<Longrightarrow> i < 6" for i a
    using storage_okD(1) [OF st, of i a] False by simp
  have ran: "{a. Some a \<in> set (st_vec st)} = ran m"
  proof (intro set_eqI)
    fix a
    have "Some a \<in> set (st_vec st) \<longleftrightarrow> (\<exists>i<6. m i = Some a)"
      using v by (auto simp: in_set_conv_nth)
    then show "a \<in> {a. Some a \<in> set (st_vec st)} \<longleftrightarrow> a \<in> ran m"
      using small by (auto simp: ran_def)
  qed
  have inj: "i = j" if "m i = Some a" "m j = Some a" for i j a
    using storage_okD(3) [OF st, of _ a] that by (metis of_nat_eq_iff)
  have "distinct (filter (\<lambda>p. p \<noteq> None) (st_vec st))"
  proof -
    have "st_vec st = map m [0..<6]"
      using v by (intro nth_equalityI) auto
    moreover have "distinct (map m (filter (\<lambda>i. m i \<noteq> None) [0..<6]))"
      using inj by (auto simp: distinct_map inj_on_def)
    ultimately show ?thesis by (simp add: filter_map comp_def)
  qed
  then obtain al' fl' where "clear_vec (st_vec st) al = Some al'" "alloc_ok al' fl'"
    "in_use al' fl' = in_use al fl - ran m" "\<forall>a. a \<notin> ran m \<longrightarrow> heap al' a = heap al a"
    using clear_vec_ok [OF al, of "st_vec st"] use unfolding ran [symmetric] by blast
  then show ?thesis
    using False al st by (cases "st_size st = 0") (auto simp: storage_clear_def storage_ok_def ran_def)
qed

subsection \<open>Releasing the memory\<close>

text \<open>Returning a frame that is on no free list to the system.\<close>

lemma free_frame_ok:
  assumes ok: "alloc_struct al fl" and p: "p \<in> in_use al fl" and f: "heap al p = Some f"
    and al': "al' = al\<lparr> heap := (heap al)(p := None),
                allocated_counts :=
                  (allocated_counts al)[fr_bin_index f := allocated_counts al ! fr_bin_index f - 1],
                num_alloc_bytes := num_alloc_bytes al - int (bin_to_alloc_size (fr_bin_index f)),
                num_alloc_frames := num_alloc_frames al - 1 \<rparr>"
  shows "alloc_struct al' fl" and "in_use al' fl = in_use al fl - {p}"
proof -
  let ?b = "fr_bin_index f"
  have b: "?b = fbin (heap al) p" "?b < 7"
    using f alloc_structD(5) [OF ok, of p] by (auto simp: fbin_def)
  have d: "dom (heap al') = dom (heap al) - {p}" by (simp add: al')
  have fb: "fbin (heap al') a = fbin (heap al) a" if "a \<noteq> p" for a
    using that by (simp add: al' fbin_def)
  have fin: "finite (dom (heap al))" by (rule alloc_structD(4) [OF ok])
  have pd: "p \<in> dom (heap al)" using f by auto
  have free: "p \<notin> set (fl ! c)" if "c < 7" for c
    using p that alloc_structD(3) [OF ok] by (auto simp: in_use_def)
  have cnt: "{a \<in> dom (heap al'). fbin (heap al') a = c}
      = {a \<in> dom (heap al). fbin (heap al) a = c} - {p}" for c
    using fb d by auto
  have card: "card ({a \<in> dom (heap al). fbin (heap al) a = c} - {p})
      = (if c = ?b then card {a \<in> dom (heap al). fbin (heap al) a = c} - 1
         else card {a \<in> dom (heap al). fbin (heap al) a = c})" for c
    using pd b fin by (auto simp: card_Diff_singleton_if)
  have "num_alloc_frames al' = int (card (dom (heap al')))"
  proof -
    have "card (dom (heap al)) > 0" using pd fin by (auto simp: card_gt_0_iff)
    then show ?thesis
      using ok pd fin unfolding d by (simp add: alloc_struct_def al' card_Diff_singleton)
  qed
  moreover have "(\<Sum>a \<in> dom (heap al'). int (bin_to_alloc_size (fbin (heap al') a)))
      = (\<Sum>a \<in> dom (heap al) - {p}. int (bin_to_alloc_size (fbin (heap al) a)))"
    unfolding d using fb by (intro sum.cong) auto
  moreover have "frame_list (heap al') (bins al' ! c) (fl ! c)" if "c < 7" for c
    using alloc_structD(6) [OF ok that] free [OF that] by (simp add: al' frame_seg_upd_other)
  moreover have "fbin (heap al') a = c" if "c < 7" "a \<in> set (fl ! c)" for a c
    using alloc_structD(7) [OF ok that] fb [of a] free [OF that(1)] that(2) by auto
  moreover have "allocated_counts al' ! c = card {a \<in> dom (heap al'). fbin (heap al') a = c}"
    if "c < 7" for c
  proof -
    have "allocated_counts al ! c = card {a \<in> dom (heap al). fbin (heap al) a = c}"
      using ok that by (simp add: alloc_struct_def)
    moreover have "allocated_counts al' ! c
        = (if c = ?b then allocated_counts al ! c - 1 else allocated_counts al ! c)"
      using b(2) alloc_structD(2) [OF ok] by (simp add: al' nth_list_update)
    ultimately show ?thesis unfolding cnt card by (simp only:)
  qed
  moreover have "a < next_addr al' \<and> fbin (heap al') a < 7" if "a \<in> dom (heap al')" for a
  proof -
    have "a \<in> dom (heap al)" "a \<noteq> p" using that d by auto
    then show ?thesis using alloc_structD(5) [OF ok, of a] fb [of a] by (simp add: al')
  qed
  moreover have "0 \<le> fidx (heap al') a" if "a \<in> dom (heap al')" for a
  proof -
    have "a \<in> dom (heap al)" "a \<noteq> p" using that d by auto
    then show ?thesis using alloc_structD(8) [OF ok, of a] by (simp add: al' fidx_def)
  qed
  moreover have "num_alloc_bytes al' = (\<Sum>a \<in> dom (heap al) - {p}. int (bin_to_alloc_size (fbin (heap al) a)))"
    using ok pd fin b(1) by (simp add: alloc_struct_def al' sum_diff1)
  ultimately show "alloc_struct al' fl"
    using alloc_structD(1-4) [OF ok] unfolding alloc_struct_def by (simp add: d) (simp add: al')
  show "in_use al' fl = in_use al fl - {p}"
    by (auto simp: in_use_def d)
qed

lemma release_list_ok:
  assumes "alloc_struct al fl" and "frame_list (heap al) p as" and "set as \<subseteq> in_use al fl"
  shows "\<exists>al'. release_list p al = Some al' \<and> alloc_struct al' fl \<and> in_use al' fl = in_use al fl - set as \<and>
    bins al' = bins al"
  using assms
proof (induction as arbitrary: p al)
  case Nil
  then show ?case by (subst release_list.simps) auto
next
  case (Cons a as)
  then obtain f where f: "heap al a = Some f" "frame_list (heap al) (fr_next f) as" and p: "p = Some a"
    by auto
  have a: "a \<notin> set as" "a \<in> in_use al fl"
    using frame_list_distinct [OF Cons.prems(2)] Cons.prems(3) by simp_all
  define al1 where "al1 = al\<lparr> heap := (heap al)(a := None),
    allocated_counts := (allocated_counts al)[fr_bin_index f := allocated_counts al ! fr_bin_index f - 1],
    num_alloc_bytes := num_alloc_bytes al - int (bin_to_alloc_size (fr_bin_index f)),
    num_alloc_frames := num_alloc_frames al - 1 \<rparr>"
  note 1 = free_frame_ok [OF Cons.prems(1) a(2) f(1) al1_def]
  have "frame_list (heap al1) (fr_next f) as" "set as \<subseteq> in_use al1 fl"
    using f(2) a Cons.prems(3) 1(2) by (auto simp: al1_def frame_seg_upd_other)
  then obtain al' where "release_list (fr_next f) al1 = Some al'" "alloc_struct al' fl"
    "in_use al' fl = in_use al1 fl - set as" "bins al' = bins al1"
    using Cons.IH [OF 1(1)] by blast
  moreover have "fr_bin_index f < length (allocated_counts al) \<and> 0 \<le> fr_frame_index f"
    using alloc_structD(2,5,8) [OF Cons.prems(1)] f(1) by (force simp: fbin_def fidx_def)
  ultimately show ?case
    using p f 1(2) by (subst release_list.simps) (auto simp: al1_def)
qed

lemma release_bin_ok:
  assumes ok: "alloc_struct al fl" and b: "b < 7"
  shows "\<exists>al'. release_list (bins al ! b) (al\<lparr> bins := (bins al)[b := None] \<rparr>) = Some al' \<and>
    alloc_struct al' (fl[b := []]) \<and> in_use al' (fl[b := []]) = in_use al fl"
proof -
  let ?al = "al\<lparr> bins := (bins al)[b := None] \<rparr>"
  have len: "length fl = 7" "length (bins al) = 7"
    using alloc_structD [OF ok] by simp_all
  have 1: "alloc_struct ?al (fl[b := []])"
    using ok b len by (auto simp: alloc_struct_def nth_list_update)
  have other: "a \<notin> \<Union> (set ` set (fl[b := []]))" if "a \<in> set (fl ! b)" for a
  proof
    assume "a \<in> \<Union> (set ` set (fl[b := []]))"
    then obtain zs where "zs \<in> set (fl[b := []])" "a \<in> set zs" by blast
    then obtain c where "c < 7" "a \<in> set (fl[b := []] ! c)"
      by (metis in_set_conv_nth length_list_update len(1))
    then show False
      using free_lists_disjoint [OF ok b, of c a] that len b by (cases "c = b") auto
  qed
  have U: "\<Union> (set ` set fl) = set (fl ! b) \<union> \<Union> (set ` set (fl[b := []]))"
    using Union_take_drop [of b fl "fl ! b"] Union_take_drop [of b fl "[]"] b len by auto
  have use: "in_use ?al (fl[b := []]) = in_use al fl \<union> set (fl ! b)"
  proof -
    have "set (fl ! b) \<subseteq> dom (heap al)" using free_list_alive [OF ok b] by blast
    moreover have "set (fl ! b) \<inter> \<Union> (set ` set (fl[b := []])) = {}" using other by blast
    ultimately show ?thesis unfolding in_use_def U by auto
  qed
  obtain al' where al': "release_list (bins al ! b) ?al = Some al'" "alloc_struct al' (fl[b := []])"
    "in_use al' (fl[b := []]) = in_use ?al (fl[b := []]) - set (fl ! b)"
    using release_list_ok [OF 1, of "bins al ! b" "fl ! b"] alloc_structD(6) [OF ok b] use by auto
  moreover have "in_use al fl \<inter> set (fl ! b) = {}"
    using b len by (auto simp: in_use_def)
  ultimately show ?thesis
    using use by blast
qed

lemma release_bins_ok:
  assumes "alloc_struct al fl" and "\<forall>i \<in> set is. i < 7"
  shows "\<exists>al' fl'. release_bins is al = Some al' \<and> alloc_struct al' fl' \<and> in_use al' fl' = in_use al fl \<and>
    (\<forall>i < 7. fl' ! i = (if i \<in> set is then [] else fl ! i))"
  using assms
proof (induction "is" arbitrary: al fl)
  case Nil
  then show ?case by auto
next
  case (Cons b "is")
  have b: "b < 7" using Cons.prems(2) by simp
  from release_bin_ok [OF Cons.prems(1) b] obtain al1 where
    1: "release_list (bins al ! b) (al\<lparr> bins := (bins al)[b := None] \<rparr>) = Some al1"
    "alloc_struct al1 (fl[b := []])" "in_use al1 (fl[b := []]) = in_use al fl" by blast
  obtain al' fl' where 2: "release_bins is al1 = Some al'" "alloc_struct al' fl'"
    "in_use al' fl' = in_use al1 (fl[b := []])"
    "\<forall>i < 7. fl' ! i = (if i \<in> set is then [] else fl[b := []] ! i)"
    using Cons.IH [OF 1(2)] Cons.prems(2) by auto
  have "length fl = 7" using alloc_structD(3) [OF Cons.prems(1)] .
  then show ?case
    using 1 2 by (intro exI [of _ al'] exI [of _ fl']) (auto simp: nth_list_update)
qed

lemma alloc_release_memory_ok:
  assumes "alloc_struct al fl"
  shows "\<exists>al1. release_bins [0..<bin_count] al = Some al1 \<and> dom (heap al1) = in_use al fl \<and>
    num_alloc_frames al1 = int (card (in_use al fl)) \<and>
    num_alloc_bytes al1 = (\<Sum>a \<in> in_use al fl. int (bin_to_alloc_size (fbin (heap al1) a))) \<and>
    (in_use al fl = {} \<longrightarrow> alloc_release_memory al = Some (al1\<lparr> num_alloc_bytes := 0, num_alloc_frames := 0 \<rparr>))"
proof -
  obtain al1 fl1 where 1: "release_bins [0..<bin_count] al = Some al1" "alloc_struct al1 fl1"
    "in_use al1 fl1 = in_use al fl" "\<forall>i<7. fl1 ! i = []"
    using release_bins_ok [OF assms, of "[0..<7]"] by auto
  have "\<Union> (set ` set fl1) = {}"
    using 1(4) alloc_structD(3) [OF 1(2)] by (auto simp: in_set_conv_nth [of _ fl1])
  then have d: "dom (heap al1) = in_use al fl"
    using 1(3) by (simp only: in_use_def Diff_empty)
  then show ?thesis
    using 1(1,2) by (auto simp: alloc_release_memory_def alloc_struct_def)
qed

subsection \<open>Properties\<close>

fun add_frames ::
    "(nat \<times> nat) list \<Rightarrow> frame_heap \<Rightarrow> data_frame_storage \<Rightarrow> (frame_heap \<times> data_frame_storage) option" where
  "add_frames [] h st = Some (h, st)"
| "add_frames ((i, p) # fs) h st = do {
     (h, st) \<leftarrow> storage_add_frame i p h st;
     add_frames fs h st }"

lemma add_frame_w_pair: "add_frame_w i p (h, st) = storage_add_frame i p h st"
  by (simp add: add_frame_w_def)

lemma add_frames_add_all: "storage.add_all fs (h, st) = add_frames fs h st"
  by (induction fs h st rule: add_frames.induct)
     (auto simp: add_frame_w_pair split: option.splits bind_split)

text \<open>
  C22. The frames of a block may arrive in any order: storing them one by one always succeeds, in the
  array as well as in the linked list, and copying them out gives their payloads in index order.
\<close>

theorem storage_any_order:
  assumes "0 < n" and "n \<le> 2 ^ 15" and "mset (map fst fs) = mset [0..<n]"
    and "distinct (map snd fs)" and "snd ` set fs \<subseteq> dom h"
  shows "\<exists>h' st'. add_frames fs h (storage_init n st) = Some (h', st') \<and>
    storage_copy_frames h' st' = Some (concat (map (\<lambda>i. payload h (the (map_of fs i))) [0..<n]))"
proof -
  have "storage_ok h (storage_init n st) Map.empty" "st_size (storage_init n st) = n"
    using storage_init_ok [OF assms(1,2)] by (auto simp: storage_init_def)
  then show ?thesis
    using storage.any_order [of "(h, storage_init n st)" n fs] assms(3-5)
    by (fastforce simp: add_frames_add_all)
qed

abbreviation sample_frame :: "byte \<Rightarrow> data_frame" where
  "sample_frame x \<equiv> \<lparr> fr_size = 1, fr_bin_index = 0, fr_frame_index = 0, fr_next = None, fr_data = [x] \<rparr>"

theorem storage_any_order_witness:
  "\<exists>h' st'. add_frames [(1, 4), (0, 7)] [4 \<mapsto> sample_frame 11, 7 \<mapsto> sample_frame 22]
     (storage_init 2 storage_empty) = Some (h', st') \<and>
   storage_copy_frames h' st' = Some [22, 11]"
proof -
  have "mset (map fst [(1::nat, 4::nat), (0, 7)]) = mset [0..<2]"
    by (simp add: upt_rec)
  then show ?thesis
    using storage_any_order [of 2 "[(1, 4), (0, 7)]" "[4 \<mapsto> sample_frame 11, 7 \<mapsto> sample_frame 22]"
        storage_empty]
    by (simp add: payload_def upt_rec)
qed

text \<open>
  \<^verbatim>\<open>has_frame\<close> answers exactly whether a frame was stored at the index, and storing a frame at a
  free index changes nothing else: the storage stays well formed, in whichever representation it is.
\<close>

theorem storage_add_then_has:
  assumes "storage_ok h st m" and "i < st_size st" and "j < st_size st" and "m i = None"
    and "h p \<noteq> None" and "p \<notin> ran m"
  shows "\<exists>h' st'. storage_add_frame i p h st = Some (h', st') \<and> storage_ok h' st' (m(i \<mapsto> p)) \<and>
    storage_has_frame h' st' j
      = (if j = i then Some True else storage_has_frame h st j)"
proof -
  obtain h' st' where 1: "storage_add_frame i p h st = Some (h', st')"
    "storage_ok h' st' (m(i \<mapsto> p))" "st_size st' = st_size st"
    using storage_add_frame_ok [OF assms(1,2,4-6)] by blast
  then show ?thesis
    using storage_has_frame_ok [OF 1(2), of j] storage_has_frame_ok [OF assms(1,3)] assms(3) by auto
qed

theorem storage_add_then_has_witness:
  "\<exists>h' st'. storage_add_frame 300 5 [5 \<mapsto> sample_frame 1] (storage_init 400 storage_empty)
     = Some (h', st') \<and> storage_has_frame h' st' 300 = Some True"
  using storage_add_then_has [of "[5 \<mapsto> sample_frame 1]" "storage_init 400 storage_empty" Map.empty 300 300 5]
    storage_init_ok [of 400 "[5 \<mapsto> sample_frame 1]" storage_empty]
  by (auto simp: storage_init_def)

text \<open>
  With at most six frames the storage is an array of six slots. An index outside it is read without a
  check, and written with an assertion as the only one.
\<close>

theorem storage_index_unchecked:
  assumes "n \<le> small_frame_limit" and "small_frame_limit \<le> i"
  shows "storage_add_frame i p h (storage_init n st) = None \<and>
    storage_has_frame h (storage_init n st) i = None"
  using assms
  by (auto simp: storage_add_frame_def storage_has_frame_def storage_init_def set_frame_def
      split: option.splits)

theorem storage_index_unchecked_witness:
  "storage_add_frame 6 5 [5 \<mapsto> sample_frame 1] (storage_init 1 storage_empty) = None"
  using storage_index_unchecked [of 1 6] by simp

text \<open>
  C30. The allocator never hands out a frame that is in use: the frame it returns was free or did not
  exist, it is large enough for the request, and the frames in use keep their contents. The bin it
  takes is the smallest that fits.
\<close>

theorem allocate_exclusive:
  assumes "alloc_ok al fl" and "0 < sz" and "sz \<le> max_bin_size"
  shows "\<exists>p al' fl'. alloc_allocate sz al = Some (p, al') \<and> alloc_ok al' fl' \<and>
    p \<notin> in_use al fl \<and> in_use al' fl' = insert p (in_use al fl) \<and>
    (\<forall>a \<in> in_use al fl. heap al' a = heap al a) \<and>
    sz + sizeof_header \<le> bin_to_alloc_size (fbin (heap al') p) \<and>
    (\<forall>b < fbin (heap al') p. bin_to_alloc_size b < sz + sizeof_header)"
proof -
  obtain p al' fl' where r: "alloc_allocate sz al = Some (p, al')" "alloc_ok al' fl'" "p \<notin> in_use al fl"
    "in_use al' fl' = insert p (in_use al fl)" "\<forall>a \<in> in_use al fl. heap al' a = heap al a"
    "size_to_bin sz = Some (fbin (heap al') p)" "sz + sizeof_header \<le> bin_to_alloc_size (fbin (heap al') p)"
    using alloc_allocate_ok [OF assms] by blast
  have "bin_to_alloc_size b < sz + sizeof_header" if "b < fbin (heap al') p" for b
  proof -
    have "bin_to_alloc_size b \<le> bin_to_alloc_size (fbin (heap al') p - 1)" using that by (simp add: bin_to_alloc_size_def)
    also have "\<dots> < sz + sizeof_header" using size_to_bin_fits [OF assms(2,3)] r(6) that by auto
    finally show ?thesis .
  qed
  then show ?thesis using r by blast
qed

theorem allocate_exclusive_witness:
  "\<exists>p al' fl'. alloc_allocate 1000 alloc_init = Some (p, al') \<and> in_use al' fl' = {p} \<and>
     1016 \<le> bin_to_alloc_size (fbin (heap al') p)"
proof -
  have "in_use alloc_init (replicate bin_count []) = {}"
    by (simp add: in_use_def alloc_init_def)
  then show ?thesis
    using allocate_exclusive [OF alloc_init_ok, of 1000] by (auto simp: bin_const_defs)
qed

text \<open>
  Clearing a storage returns each of its frames to the allocator once, and no other frame.
\<close>

theorem storage_clear_returns_frames:
  assumes "alloc_ok al fl" and "storage_ok (heap al) st m" and "ran m \<subseteq> in_use al fl"
  shows "\<exists>st' al' fl'. storage_clear st al = Some (st', al') \<and> st_size st' = 0 \<and> alloc_ok al' fl' \<and>
    in_use al' fl' = in_use al fl - ran m \<and> (\<forall>a. a \<notin> ran m \<longrightarrow> heap al' a = heap al a)"
  using storage_clear_ok [OF assms] by blast

theorem storage_clear_returns_frames_witness:
  "\<exists>st' al' fl'. storage_clear (storage_init 3 storage_empty) alloc_init = Some (st', al') \<and>
     st_size st' = 0 \<and> alloc_ok al' fl'"
  using storage_clear_returns_frames [OF alloc_init_ok, of "storage_init 3 storage_empty" Map.empty]
    storage_init_ok [of 3 "heap alloc_init" storage_empty] by (auto simp: alloc_init_def)

text \<open>
  When no frame is in use, releasing the memory terminates, frees every frame, and the leak
  counters are zero before they are reset.
\<close>

theorem release_memory_no_leak:
  assumes "alloc_ok al fl" and "in_use al fl = {}"
  shows "\<exists>al1. release_bins [0..<bin_count] al = Some al1 \<and> heap al1 = Map.empty \<and>
    num_alloc_frames al1 = 0 \<and> num_alloc_bytes al1 = 0 \<and> alloc_release_memory al \<noteq> None"
proof -
  obtain al1 where "release_bins [0..<bin_count] al = Some al1" "dom (heap al1) = {}"
    "num_alloc_frames al1 = 0" "num_alloc_bytes al1 = 0" "alloc_release_memory al \<noteq> None"
    using alloc_release_memory_ok [OF alloc_ok_struct [OF assms(1)]] assms(2) by auto
  then show ?thesis by (auto simp: dom_def fun_eq_iff)
qed

theorem release_memory_no_leak_witness:
  "\<exists>al fl al1. alloc_ok al fl \<and> heap al \<noteq> Map.empty \<and>
     release_bins [0..<bin_count] al = Some al1 \<and> heap al1 = Map.empty"
proof -
  obtain p al fl where 1: "alloc_ok al fl" "in_use al fl = {p}"
    using alloc_allocate_ok [OF alloc_init_ok, of 100]
    by (auto simp: bin_const_defs in_use_def alloc_init_def)
  then obtain al' fl' where 2: "alloc_ok al' fl'" "in_use al' fl' = {}" "dom (heap al') = dom (heap al)"
    using alloc_deallocate_ok [OF 1(1), of p] by auto
  have "p \<in> dom (heap al')" using 1 2 by (auto simp: in_use_def)
  then show ?thesis
    using 2 release_memory_no_leak [OF 2(1,2)] by fastforce
qed

end
