(* ===== verification/Ring.thy ===== *)
theory Ring
  imports Prelude
begin

text \<open>
  Ring buffers and bounded queues. \<open>ring_seg\<close> is the list of the \<open>n\<close> elements of a circular array
  from a start position, the abstraction that the jitter buffer, the history buffer and the
  single-producer queue share. The locale \<open>bounded_fifo\<close> is the contract of a bounded queue; its
  lemmas say that any legal sequence of insertions and removals delivers the elements in the order
  in which they were inserted, without loss or duplication.
\<close>

subsection \<open>Definitions\<close>

text \<open>The wrap-around of a position: increment, and back to the start at the capacity.\<close>

definition ring_next :: "nat \<Rightarrow> nat \<Rightarrow> nat" where
  "ring_next cap i = (if Suc i = cap then 0 else Suc i)"

definition ring_seg :: "'a list \<Rightarrow> nat \<Rightarrow> nat \<Rightarrow> 'a list" where
  "ring_seg data start n = map (\<lambda>k. data ! ((start + k) mod length data)) [0..<n]"

datatype 'a fifo_op = Enq 'a | Deq

subsection \<open>Positions\<close>

lemma ring_next_mod: "i < cap \<Longrightarrow> ring_next cap i = Suc i mod cap"
  by (auto simp: ring_next_def)

lemma ring_next_less: "i < cap \<Longrightarrow> ring_next cap i < cap"
  by (simp add: ring_next_mod)

lemma ring_next_add: "s < cap \<Longrightarrow> ring_next cap ((s + n) mod cap) = (s + Suc n) mod cap"
proof -
  assume "s < cap"
  then have "(s + n) mod cap < cap" by simp
  then have "ring_next cap ((s + n) mod cap) = Suc ((s + n) mod cap) mod cap"
    by (rule ring_next_mod)
  then show ?thesis by (simp add: mod_Suc_eq)
qed

lemma ring_pos_inj:
  assumes "(s + i) mod cap = (s + j) mod cap" and "i < cap" and "j < cap"
  shows "i = (j::nat)"
proof -
  have "i mod cap = j mod cap"
    using assms(1) by (simp add: nat_mod_eq_iff)
  then show ?thesis
    using assms(2,3) by simp
qed

subsection \<open>Contents\<close>

lemma ring_seg_length [simp, ring_simps]: "length (ring_seg d s n) = n"
  by (simp add: ring_seg_def)

lemma ring_seg_0 [simp, ring_simps]: "ring_seg d s 0 = []"
  by (simp add: ring_seg_def)

lemma ring_seg_nth [simp, ring_simps]:
  "k < n \<Longrightarrow> ring_seg d s n ! k = d ! ((s + k) mod length d)"
  by (simp add: ring_seg_def)

lemma ring_seg_snoc:
  "ring_seg d s (Suc n) = ring_seg d s n @ [d ! ((s + n) mod length d)]"
  by (simp add: ring_seg_def)

lemma ring_seg_Cons:
  assumes "s < length d"
  shows "ring_seg d s (Suc n) = d ! s # ring_seg d (ring_next (length d) s) n"
proof (rule nth_equalityI)
  fix i
  assume "i < length (ring_seg d s (Suc n))"
  then show "ring_seg d s (Suc n) ! i = (d ! s # ring_seg d (ring_next (length d) s) n) ! i"
    using assms by (cases i) (simp_all add: ring_next_mod mod_add_left_eq)
qed simp

lemma ring_seg_update_outside:
  assumes "n \<le> k" and "k < length d"
  shows "ring_seg (d[(s + k) mod length d := x]) s n = ring_seg d s n"
proof (rule nth_equalityI)
  fix i
  assume "i < length (ring_seg (d[(s + k) mod length d := x]) s n)"
  then have i: "i < n" by simp
  then have "(s + i) mod length d \<noteq> (s + k) mod length d"
    using assms ring_pos_inj [of s i "length d" k] by auto
  then show "ring_seg (d[(s + k) mod length d := x]) s n ! i = ring_seg d s n ! i"
    using i by simp
qed simp

lemma ring_seg_update_inside:
  assumes "k < n" and "n \<le> length d"
  shows "ring_seg (d[(s + k) mod length d := x]) s n = (ring_seg d s n)[k := x]"
proof (rule nth_equalityI)
  fix i
  assume "i < length (ring_seg (d[(s + k) mod length d := x]) s n)"
  then have i: "i < n" by simp
  have "(s + i) mod length d = (s + k) mod length d \<longleftrightarrow> i = k"
    using assms i ring_pos_inj [of s i "length d" k] by auto
  moreover have "(s + i) mod length d < length d"
    using assms by (cases d) auto
  ultimately show "ring_seg (d[(s + k) mod length d := x]) s n ! i = (ring_seg d s n)[k := x] ! i"
    using i assms by (auto simp: nth_list_update)
qed simp

text \<open>The same contents as one or two slices of the array.\<close>

lemma ring_seg_slices:
  assumes "s < length d" and "n \<le> length d"
  shows "ring_seg d s n = take n (drop s d) @ take (s + n - length d) d"
proof (rule nth_equalityI)
  show "length (ring_seg d s n) = length (take n (drop s d) @ take (s + n - length d) d)"
    using assms by auto
next
  fix i
  assume "i < length (ring_seg d s n)"
  then have i: "i < n" by simp
  show "ring_seg d s n ! i = (take n (drop s d) @ take (s + n - length d) d) ! i"
  proof (cases "s + i < length d")
    case True
    then have "i < length d - s" by arith
    with True show ?thesis using i assms by (simp add: nth_append)
  next
    case False
    then have "(s + i) mod length d = s + i - length d"
      using i assms by (simp add: le_mod_geq)
    moreover have "\<not> i < length d - s"
      using False by arith
    ultimately show ?thesis
      using i assms by (simp add: nth_append add.commute)
  qed
qed

subsection \<open>The contract of a bounded queue\<close>

locale bounded_fifo =
  fixes inv :: "'s \<Rightarrow> bool"
    and contents :: "'s \<Rightarrow> 'a list"
    and capacity :: "'s \<Rightarrow> nat"
    and enq :: "'a \<Rightarrow> 's \<Rightarrow> 's"
    and first :: "'s \<Rightarrow> 'a"
    and deq :: "'s \<Rightarrow> 's"
  assumes enq_inv: "inv q \<Longrightarrow> length (contents q) < capacity q \<Longrightarrow> inv (enq x q)"
    and enq_contents:
      "inv q \<Longrightarrow> length (contents q) < capacity q \<Longrightarrow> contents (enq x q) = contents q @ [x]"
    and enq_capacity: "capacity (enq x q) = capacity q"
    and deq_inv: "inv q \<Longrightarrow> contents q \<noteq> [] \<Longrightarrow> inv (deq q)"
    and first_contents: "inv q \<Longrightarrow> contents q \<noteq> [] \<Longrightarrow> first q = hd (contents q)"
    and deq_contents: "inv q \<Longrightarrow> contents q \<noteq> [] \<Longrightarrow> contents (deq q) = tl (contents q)"
    and deq_capacity: "inv q \<Longrightarrow> contents q \<noteq> [] \<Longrightarrow> capacity (deq q) = capacity q"
begin

text \<open>One operation, with the elements it delivers; operations against a full or an empty queue
  are not allowed, as the callers check first.\<close>

fun step :: "'a fifo_op \<Rightarrow> 's \<Rightarrow> ('a list \<times> 's) option" where
  "step (Enq x) q = (if length (contents q) < capacity q then Some ([], enq x q) else None)"
| "step Deq q = (if contents q = [] then None else Some ([first q], deq q))"

fun run :: "'a fifo_op list \<Rightarrow> 's \<Rightarrow> ('a list \<times> 's) option" where
  "run [] q = Some ([], q)"
| "run (p # ps) q =
     (case step p q of None \<Rightarrow> None
      | Some (out, q') \<Rightarrow> map_option (\<lambda>(out', q''). (out @ out', q'')) (run ps q'))"

fun inputs :: "'a fifo_op list \<Rightarrow> 'a list" where
  "inputs [] = []"
| "inputs (Enq x # ps) = x # inputs ps"
| "inputs (Deq # ps) = inputs ps"

lemma step_fifo:
  assumes "inv q" and "step p q = Some (out, q')"
  shows "inv q' \<and> out @ contents q' = contents q @ inputs [p] \<and> capacity q' = capacity q"
  using assms
  by (cases p)
     (auto simp: enq_inv enq_contents enq_capacity deq_inv deq_contents first_contents
       deq_capacity split: if_splits)

theorem run_fifo:
  assumes "inv q" and "run ps q = Some (out, q')"
  shows "inv q' \<and> out @ contents q' = contents q @ inputs ps"
  using assms
proof (induction ps arbitrary: q out)
  case Nil
  then show ?case by simp
next
  case (Cons p ps)
  then obtain o1 q1 o2 where s: "step p q = Some (o1, q1)"
    and r: "run ps q1 = Some (o2, q')" and out: "out = o1 @ o2"
    by (auto split: option.splits)
  have 1: "inv q1" "o1 @ contents q1 = contents q @ inputs [p]"
    using step_fifo [OF Cons.prems(1) s] by auto
  have 2: "inv q' \<and> o2 @ contents q' = contents q1 @ inputs ps"
    using Cons.IH [OF 1(1) r] .
  have "inputs (p # ps) = inputs [p] @ inputs ps"
    by (cases p) simp_all
  with 1(2) 2 show ?case
    by (metis append_assoc out)
qed

corollary run_from_empty_prefix:
  assumes "inv q" and "contents q = []" and "run ps q = Some (out, q')"
  shows "\<exists>rest. inputs ps = out @ rest \<and> rest = contents q'"
  using run_fifo [OF assms(1,3)] assms(2) by simp

end

end
