(* ===== verification/Packet_Buffer.thy ===== *)
theory Packet_Buffer
  imports Data_Frame Ring Complex_Main
begin

text \<open>
  \<^verbatim>\<open>aoo/src/packet_buffer.cpp\<close>: the blocks a source has sent (\<open>sent_block\<close>, kept in a
  \<open>history_buffer\<close> for retransmission) and the blocks a sink is receiving (\<open>received_block\<close>, kept in
  a \<open>jitter_buffer\<close> until they are played).

  A pointer into one of the two ring buffers is the index of the slot. Times are real numbers, so
  rounding is not modelled; sample rates are bit patterns. Frame counts and indices are natural
  numbers; where the code narrows them to \<^verbatim>\<open>int16_t\<close> the model does too. The sizes of a block and of
  its messages are signed, as in the code. A failed assertion is \<^const>\<open>None\<close>; the assertions of
  \<^verbatim>\<open>push\<close> and \<^verbatim>\<open>init\<close>, which return no option here, are the predicates \<open>push_asserts\<close> and
  \<open>init_asserts\<close> that the caller evaluates first. \<^verbatim>\<open>front\<close> and \<^verbatim>\<open>back\<close> are only called on a
  buffer that has just been found not to be empty.
\<close>

subsection \<open>Packets\<close>

record data_packet =
  dp_sequence :: int
  dp_channel :: int
  dp_tt :: u64
  dp_samplerate :: double
  dp_total_size :: int
  dp_msg_size :: int
  dp_num_frames :: nat
  dp_frame_index :: nat
  dp_data :: "byte list"
  dp_frame :: "nat option"
  dp_size :: nat
  dp_flags :: u32
  dp_protocol_version :: u16
  dp_transport_profile :: byte
  dp_pcm_format :: byte
  dp_absolute_sample_position :: u64
  dp_source_timestamp :: u64
  dp_block_frames :: u16
  dp_channel_count :: u16

definition int16 :: "int \<Rightarrow> int" where
  "int16 i = sint (word_of_int i :: 16 word)"

subsection \<open>Sent blocks\<close>

record sent_block =
  sb_sequence :: int
  sb_message_size :: int
  sb_samplerate :: double
  sb_flags :: u32
  sb_num_frames :: int
  sb_frame_size :: int
  sb_protocol_version :: u16
  sb_transport_profile :: byte
  sb_pcm_format :: byte
  sb_absolute_sample_position :: u64
  sb_source_timestamp :: u64
  sb_block_frames :: u16
  sb_channel_count :: u16
  sb_buffer :: "byte list"

definition sent_block_init :: sent_block where
  "sent_block_init = \<lparr> sb_sequence = -1, sb_message_size = 0, sb_samplerate = 0, sb_flags = 0,
     sb_num_frames = 0, sb_frame_size = 0, sb_protocol_version = 0, sb_transport_profile = 0,
     sb_pcm_format = 0, sb_absolute_sample_position = 0, sb_source_timestamp = 0,
     sb_block_frames = 0, sb_channel_count = 0, sb_buffer = [] \<rparr>"

definition sent_block_set :: "data_packet \<Rightarrow> int \<Rightarrow> sent_block \<Rightarrow> sent_block" where
  "sent_block_set d frame_size b = b\<lparr>
     sb_sequence := dp_sequence d,
     sb_message_size := dp_msg_size d,
     sb_samplerate := dp_samplerate d,
     sb_flags := dp_flags d,
     sb_num_frames := int16 (int (dp_num_frames d)),
     sb_frame_size := int16 frame_size,
     sb_protocol_version := dp_protocol_version d,
     sb_transport_profile := dp_transport_profile d,
     sb_pcm_format := dp_pcm_format d,
     sb_absolute_sample_position := dp_absolute_sample_position d,
     sb_source_timestamp := dp_source_timestamp d,
     sb_block_frames := dp_block_frames d,
     sb_channel_count := dp_channel_count d,
     sb_buffer := (if dp_total_size d > 0 then take (nat (dp_total_size d)) (dp_data d) else []) \<rparr>"

text \<open>The bytes copied to the caller's buffer of \<open>cnt\<close> bytes; nothing when it is too small. The
  caller passes \<open>0 \<le> index < num_frames\<close>, as the assertions of the code require.\<close>

definition sent_block_get_frame :: "int \<Rightarrow> nat \<Rightarrow> sent_block \<Rightarrow> byte list" where
  "sent_block_get_frame index cnt b =
     (let onset = nat (index * sb_frame_size b);
          sz = (if index = sb_num_frames b - 1 then length (sb_buffer b) - onset
                else nat (sb_frame_size b))
      in if cnt \<ge> sz then take sz (drop onset (sb_buffer b)) else [])"

subsection \<open>Binary search\<close>

text \<open>
  \<^verbatim>\<open>std::lower_bound\<close> on the slots \<open>first .. first + len - 1\<close>; \<open>rd\<close> reads the sequence number of a
  slot and fails outside the elements of the vector.
\<close>

function lower_bound :: "(nat \<Rightarrow> int option) \<Rightarrow> int \<Rightarrow> nat \<Rightarrow> nat \<Rightarrow> nat option" where
  "lower_bound rd seq first len =
     (if len = 0 then Some first
      else let half = len div 2; mid = first + half
           in do { x \<leftarrow> rd mid;
                   if x < seq then lower_bound rd seq (Suc mid) (len - half - 1)
                   else lower_bound rd seq first half })"
  by pat_completeness auto
termination
  by (relation "measure (\<lambda>(rd, seq, first, len). len)") auto

declare lower_bound.simps [simp del]

text \<open>The lambda \<^verbatim>\<open>dofind\<close> of both buffers: search the slots \<open>b .. e - 1\<close>.\<close>

definition dofind :: "(nat \<Rightarrow> int option) \<Rightarrow> int \<Rightarrow> nat \<Rightarrow> nat \<Rightarrow> nat option option" where
  "dofind rd seq b e = do {
     result \<leftarrow> lower_bound rd seq b (e - b);
     if result \<noteq> e then do { x \<leftarrow> rd result; Some (if x = seq then Some result else None) }
     else Some None }"

definition read_seq :: "('a \<Rightarrow> int) \<Rightarrow> 'a list \<Rightarrow> nat \<Rightarrow> int option" where
  "read_seq sq xs i = (if i < length xs then Some (sq (xs ! i)) else None)"

subsection \<open>The history of sent blocks\<close>

record history_buffer =
  hb_buffer :: "sent_block list"
  hb_head :: nat
  hb_size :: nat

definition history_clear :: "history_buffer \<Rightarrow> history_buffer" where
  "history_clear hb = hb\<lparr> hb_head := 0, hb_size := 0 \<rparr>"

definition history_resize :: "nat \<Rightarrow> history_buffer \<Rightarrow> history_buffer" where
  "history_resize n hb = history_clear (hb\<lparr> hb_buffer :=
     take n (hb_buffer hb) @ replicate (n - length (hb_buffer hb)) sent_block_init \<rparr>)"

abbreviation history_capacity :: "history_buffer \<Rightarrow> nat" where
  "history_capacity hb \<equiv> length (hb_buffer hb)"

text \<open>The inner option is the pointer returned, the outer one fails on an access out of bounds.\<close>

definition history_find :: "int \<Rightarrow> history_buffer \<Rightarrow> nat option option" where
  "history_find seq hb =
     (if hb_size hb > 0 then
        let head = hb_head hb;
            tail = (if hb_size hb = history_capacity hb then head else 0);
            rd = read_seq sb_sequence (hb_buffer hb)
        in do {
          t \<leftarrow> rd tail;
          if seq < t then Some None
          else if head \<noteq> tail then dofind rd seq tail head
          else do {
            result \<leftarrow> dofind rd seq 0 head;
            (case result of
               Some r \<Rightarrow> Some (Some r)
             | None \<Rightarrow> dofind rd seq head (history_capacity hb)) } }
      else Some None)"

definition history_push :: "history_buffer \<Rightarrow> nat \<times> history_buffer" where
  "history_push hb =
     (let old = hb_head hb; head = Suc old
      in (old, hb\<lparr> hb_head := (if head \<ge> history_capacity hb then 0 else head),
                  hb_size := (if hb_size hb < history_capacity hb then Suc (hb_size hb) else hb_size hb) \<rparr>))"

text \<open>How the source uses it: \<^verbatim>\<open>history_.push()->set(d, maxpacketsize)\<close>.\<close>

definition history_push_set :: "data_packet \<Rightarrow> int \<Rightarrow> history_buffer \<Rightarrow> history_buffer" where
  "history_push_set d frame_size hb =
     (let (i, hb) = history_push hb
      in hb\<lparr> hb_buffer := (hb_buffer hb)[i := sent_block_set d frame_size (hb_buffer hb ! i)] \<rparr>)"

subsection \<open>Received blocks\<close>

record received_block =
  rb_sequence :: int
  rb_total_size :: int
  rb_message_size :: int
  rb_flags :: u32
  rb_tt :: u64
  rb_absolute_sample_position :: u64
  rb_source_timestamp :: u64
  rb_block_frames :: u16
  rb_samplerate :: double
  rb_channel :: int
  rb_received_frames :: int
  rb_num_tries :: u16
  rb_resent :: bool
  rb_timestamp :: real
  rb_frames :: data_frame_storage

definition received_block_empty :: received_block where
  "received_block_empty = \<lparr> rb_sequence = -1, rb_total_size = 0, rb_message_size = 0, rb_flags = 0,
     rb_tt = 0, rb_absolute_sample_position = 0, rb_source_timestamp = 0, rb_block_frames = 0,
     rb_samplerate = 0, rb_channel = 0, rb_received_frames = 0, rb_num_tries = 0,
     rb_resent = False, rb_timestamp = 0, rb_frames = storage_empty \<rparr>"

text \<open>\<^verbatim>\<open>init(int32_t)\<close> makes a placeholder for a block that is expected.\<close>

definition block_init_placeholder :: "int \<Rightarrow> received_block \<Rightarrow> received_block" where
  "block_init_placeholder seq b = b\<lparr>
     rb_sequence := seq, rb_total_size := 0, rb_message_size := 0, rb_samplerate := 0,
     rb_absolute_sample_position := 0, rb_source_timestamp := 0, rb_block_frames := 0,
     rb_channel := 0, rb_received_frames := -1, rb_num_tries := 0, rb_resent := False,
     rb_timestamp := 0 \<rparr>"

definition block_init :: "data_packet \<Rightarrow> received_block \<Rightarrow> received_block" where
  "block_init d b =
     (let prev_sequence = dp_sequence d;
          b = b\<lparr> rb_sequence := dp_sequence d, rb_total_size := dp_total_size d,
            rb_message_size := dp_msg_size d, rb_flags := dp_flags d, rb_tt := dp_tt d,
            rb_samplerate := dp_samplerate d,
            rb_absolute_sample_position := dp_absolute_sample_position d,
            rb_source_timestamp := dp_source_timestamp d, rb_block_frames := dp_block_frames d,
            rb_channel := int16 (dp_channel d), rb_received_frames := 0 \<rparr>;
          b = (if rb_sequence b \<noteq> prev_sequence then b\<lparr> rb_timestamp := 0, rb_num_tries := 0 \<rparr> else b)
      in b\<lparr> rb_resent := False, rb_frames := storage_init (dp_num_frames d) (rb_frames b) \<rparr>)"

text \<open>The assertions of the two functions: no frame is held, and a block has frames just when it has bytes.\<close>

definition placeholder_asserts :: "received_block \<Rightarrow> bool" where
  "placeholder_asserts b \<longleftrightarrow> st_size (rb_frames b) = 0"

definition init_asserts :: "data_packet \<Rightarrow> received_block \<Rightarrow> bool" where
  "init_asserts d b \<longleftrightarrow> st_size (rb_frames b) = 0 \<and> (dp_total_size d > 0 \<longleftrightarrow> dp_num_frames d > 0)"

definition block_clear ::
    "received_block \<Rightarrow> data_frame_allocator \<Rightarrow> (received_block \<times> data_frame_allocator) option" where
  "block_clear b al = do {
     (st, al) \<leftarrow> storage_clear (rb_frames b) al;
     Some (b\<lparr> rb_frames := st, rb_received_frames := 0 \<rparr>, al) }"

definition block_num_frames :: "received_block \<Rightarrow> nat" where
  "block_num_frames b = st_size (rb_frames b)"

definition block_complete :: "received_block \<Rightarrow> bool" where
  "block_complete b \<longleftrightarrow> rb_received_frames b = int (st_size (rb_frames b))"

definition block_placeholder :: "received_block \<Rightarrow> bool" where
  "block_placeholder b \<longleftrightarrow> rb_received_frames b < 0"

definition block_is_empty :: "received_block \<Rightarrow> bool" where
  "block_is_empty b \<longleftrightarrow> st_size (rb_frames b) = 0"

definition block_has_frame :: "frame_heap \<Rightarrow> received_block \<Rightarrow> nat \<Rightarrow> bool option" where
  "block_has_frame h b index = storage_has_frame h (rb_frames b) index"

definition block_add_frame ::
    "nat \<Rightarrow> nat \<Rightarrow> frame_heap \<Rightarrow> received_block \<Rightarrow> (frame_heap \<times> received_block) option" where
  "block_add_frame index frame h b =
     (if block_placeholder b \<or> block_complete b then None
      else do {
        (h, st) \<leftarrow> storage_add_frame index frame h (rb_frames b);
        Some (h, b\<lparr> rb_frames := st, rb_received_frames := int16 (rb_received_frames b + 1) \<rparr>) })"

text \<open>That the frames fill the buffer exactly is checked where the buffer is, in \<open>front_data\<close>.\<close>

definition block_copy_frames :: "frame_heap \<Rightarrow> received_block \<Rightarrow> byte list option" where
  "block_copy_frames h b = (if block_complete b then storage_copy_frames h (rb_frames b) else None)"

text \<open>\<open>update\<close> decides whether a missing block is requested (again).\<close>

definition block_update :: "real \<Rightarrow> real \<Rightarrow> received_block \<Rightarrow> bool \<times> received_block" where
  "block_update time interval b =
     (if rb_timestamp b > 0 \<and> time - rb_timestamp b < interval then (False, b)
      else (True, b\<lparr> rb_timestamp := time, rb_num_tries := rb_num_tries b + 1 \<rparr>))"

definition block_set_resent :: "received_block \<Rightarrow> bool \<times> received_block" where
  "block_set_resent b = (\<not> rb_resent b, b\<lparr> rb_resent := True \<rparr>)"

subsection \<open>The jitter buffer\<close>

text \<open>
  The vector of blocks has a size (the length of the list) and a capacity, which
  \<^verbatim>\<open>std::vector::resize\<close> never lowers; the search uses both.
\<close>

record jitter_buffer =
  jb_data :: "received_block list"
  jb_vector_capacity :: nat
  jb_size :: nat
  jb_head :: nat
  jb_tail :: nat
  jb_last_pushed :: int
  jb_last_popped :: int

definition sentinel :: int where "sentinel = - (2 ^ 31)"
definition search_threshold :: nat where "search_threshold = 10"
definition INT32_MAX :: int where "INT32_MAX = 2 ^ 31 - 1"

definition jitter_new :: jitter_buffer where
  "jitter_new = \<lparr> jb_data = [], jb_vector_capacity = 0, jb_size = 0, jb_head = 0, jb_tail = 0,
     jb_last_pushed = -1, jb_last_popped = -1 \<rparr>"

definition jitter_empty :: "jitter_buffer \<Rightarrow> bool" where
  "jitter_empty jb \<longleftrightarrow> jb_size jb = 0"

definition jitter_capacity :: "jitter_buffer \<Rightarrow> nat" where
  "jitter_capacity jb = length (jb_data jb)"

definition jitter_full :: "jitter_buffer \<Rightarrow> bool" where
  "jitter_full jb \<longleftrightarrow> jb_size jb = jitter_capacity jb"

fun clear_blocks ::
    "received_block list \<Rightarrow> data_frame_allocator \<Rightarrow> (received_block list \<times> data_frame_allocator) option" where
  "clear_blocks [] al = Some ([], al)"
| "clear_blocks (b # bs) al = do {
     (b, al) \<leftarrow> block_clear b al;
     (bs, al) \<leftarrow> clear_blocks bs al;
     Some (b # bs, al) }"

definition jitter_reset ::
    "jitter_buffer \<Rightarrow> data_frame_allocator \<Rightarrow> (jitter_buffer \<times> data_frame_allocator) option" where
  "jitter_reset jb al = do {
     (bs, al) \<leftarrow> clear_blocks (jb_data jb) al;
     Some (jb\<lparr> jb_data := bs, jb_head := 0, jb_tail := 0, jb_size := 0,
             jb_last_popped := sentinel, jb_last_pushed := sentinel \<rparr>, al) }"

text \<open>\<open>grow\<close> is the growth policy of the vector: the new capacity for a size above the old one.\<close>

definition jitter_resize ::
    "(nat \<Rightarrow> nat \<Rightarrow> nat) \<Rightarrow> nat \<Rightarrow> jitter_buffer \<Rightarrow> data_frame_allocator \<Rightarrow>
     (jitter_buffer \<times> data_frame_allocator) option" where
  "jitter_resize grow n jb al = do {
     (jb, al) \<leftarrow> jitter_reset jb al;
     Some (jb\<lparr> jb_data := take n (jb_data jb) @ replicate (n - length (jb_data jb)) received_block_empty,
             jb_vector_capacity := (if n \<le> jb_vector_capacity jb then jb_vector_capacity jb
                                    else grow (jb_vector_capacity jb) n) \<rparr>, al) }"

definition jitter_front :: "jitter_buffer \<Rightarrow> nat" where
  "jitter_front jb = jb_tail jb"

definition jitter_back :: "jitter_buffer \<Rightarrow> nat" where
  "jitter_back jb = (if jb_head jb = 0 then jitter_capacity jb - 1 else jb_head jb - 1)"

text \<open>A linear search through the slots \<open>i .. e - 1\<close>.\<close>

fun linear_find :: "(nat \<Rightarrow> int option) \<Rightarrow> int \<Rightarrow> nat list \<Rightarrow> nat option option" where
  "linear_find rd seq [] = Some None"
| "linear_find rd seq (i # is) = do {
     x \<leftarrow> rd i;
     if x = seq then Some (Some i) else linear_find rd seq is }"

definition jitter_find :: "int \<Rightarrow> jitter_buffer \<Rightarrow> nat option option" where
  "jitter_find seq jb =
     (let rd = read_seq rb_sequence (jb_data jb); head = jb_head jb; tail = jb_tail jb
      in if jitter_empty jb then Some None
         else do {
           x \<leftarrow> rd (jitter_back jb);
           if x = seq then Some (Some (jitter_back jb))
           else if jb_size jb < search_threshold then
             (if head > tail then linear_find rd seq [tail..<head]
              else linear_find rd seq ([0..<head] @ [tail..<jitter_capacity jb]))
           else if head > tail then dofind rd seq tail head
           else do {
             result \<leftarrow> dofind rd seq 0 head;
             (case result of
                Some r \<Rightarrow> Some (Some r)
              | None \<Rightarrow> dofind rd seq tail (jb_vector_capacity jb)) } })"

text \<open>The assertions of \<^verbatim>\<open>push\<close>: there is room, and sequence numbers are pushed without a gap.\<close>

definition push_asserts :: "int \<Rightarrow> jitter_buffer \<Rightarrow> bool" where
  "push_asserts seq jb \<longleftrightarrow>
     \<not> jitter_full jb \<and> (jb_last_pushed jb = sentinel \<or> seq - jb_last_pushed jb = 1)"

definition jitter_push :: "int \<Rightarrow> jitter_buffer \<Rightarrow> nat \<times> jitter_buffer" where
  "jitter_push seq jb =
     (jb_head jb, jb\<lparr> jb_head := ring_next (jitter_capacity jb) (jb_head jb),
                     jb_size := Suc (jb_size jb), jb_last_pushed := seq \<rparr>)"

definition jitter_pop ::
    "jitter_buffer \<Rightarrow> data_frame_allocator \<Rightarrow> (jitter_buffer \<times> data_frame_allocator) option" where
  "jitter_pop jb al =
     (if jitter_empty jb then None
      else do {
        (b, al) \<leftarrow> block_clear (jb_data jb ! jb_tail jb) al;
        Some (jb\<lparr> jb_data := (jb_data jb)[jb_tail jb := b], jb_last_popped := rb_sequence b,
                jb_tail := ring_next (jitter_capacity jb) (jb_tail jb), jb_size := jb_size jb - 1 \<rparr>, al) })"

definition jitter_reset_head :: "int \<Rightarrow> jitter_buffer \<Rightarrow> jitter_buffer" where
  "jitter_reset_head seq jb = jb\<lparr> jb_last_pushed := seq \<rparr>"

definition jitter_advance_missing :: "jitter_buffer \<Rightarrow> jitter_buffer" where
  "jitter_advance_missing jb =
     (if jb_last_popped jb \<noteq> sentinel then
        let next = (if jb_last_popped jb = INT32_MAX - 1 then 0 else jb_last_popped jb + 1)
        in jb\<lparr> jb_last_popped := next, jb_last_pushed := next \<rparr>
      else jb)"

text \<open>The iterator: the next slot, or the sentinel when it would reach the head.\<close>

definition jitter_begin :: "jitter_buffer \<Rightarrow> nat option" where
  "jitter_begin jb = (if jitter_empty jb then None else Some (jb_tail jb))"

definition jitter_iter_next :: "jitter_buffer \<Rightarrow> nat \<Rightarrow> nat option" where
  "jitter_iter_next jb i =
     (let next = ring_next (jitter_capacity jb) i
      in if next = jb_head jb then None else Some next)"

partial_function (option) jitter_walk :: "jitter_buffer \<Rightarrow> nat option \<Rightarrow> nat list option" where
  "jitter_walk jb it =
     (case it of
        None \<Rightarrow> Some []
      | Some i \<Rightarrow> do { is \<leftarrow> jitter_walk jb (jitter_iter_next jb i); Some (i # is) })"

text \<open>How the sink fills a gap: \<^verbatim>\<open>jitter_buffer_.push(i)->init(i)\<close>.\<close>

definition jitter_push_placeholder :: "int \<Rightarrow> jitter_buffer \<Rightarrow> jitter_buffer" where
  "jitter_push_placeholder seq jb =
     (let (i, jb) = jitter_push seq jb
      in jb\<lparr> jb_data := (jb_data jb)[i := block_init_placeholder seq (jb_data jb ! i)] \<rparr>)"

definition jitter_push_block :: "data_packet \<Rightarrow> jitter_buffer \<Rightarrow> nat \<times> jitter_buffer" where
  "jitter_push_block d jb =
     (let (i, jb) = jitter_push (dp_sequence d) jb
      in (i, jb\<lparr> jb_data := (jb_data jb)[i := block_init d (jb_data jb ! i)] \<rparr>))"

subsection \<open>The searches\<close>

text \<open>
  \<open>reads rd v is\<close>: the slots \<open>is\<close> can be read and hold the sequence numbers \<open>v\<close>. A search through
  slots with different numbers returns the one slot that has the number, or nothing.
\<close>

definition reads :: "(nat \<Rightarrow> int option) \<Rightarrow> (nat \<Rightarrow> int) \<Rightarrow> nat set \<Rightarrow> bool" where
  "reads rd v S \<longleftrightarrow> (\<forall>i \<in> S. rd i = Some (v i))"

definition increasing :: "(nat \<Rightarrow> int) \<Rightarrow> nat set \<Rightarrow> bool" where
  "increasing v S \<longleftrightarrow> (\<forall>i \<in> S. \<forall>j \<in> S. i < j \<longrightarrow> v i < v j)"

definition locates :: "(nat \<Rightarrow> int) \<Rightarrow> int \<Rightarrow> nat set \<Rightarrow> nat option \<Rightarrow> bool" where
  "locates v seq S res \<longleftrightarrow> (\<forall>i. res = Some i \<longleftrightarrow> i \<in> S \<and> v i = seq)"

lemma locates_Some: "locates v seq S (Some i) \<Longrightarrow> i \<in> S \<and> v i = seq"
  by (auto simp: locates_def)

lemma locates_union:
  assumes "inj_on v (A \<union> B)" and "locates v seq A r"
  shows "r = Some i \<Longrightarrow> locates v seq (A \<union> B) r"
    and "r = None \<Longrightarrow> locates v seq B s \<Longrightarrow> locates v seq (A \<union> B) s"
proof -
  assume r: "r = Some i"
  then have i: "i \<in> A" "v i = seq" using assms(2) by (auto simp: locates_def)
  then have "j = i" if "j \<in> A \<union> B" "v j = seq" for j
    using assms(1) that by (metis UnI1 inj_onD)
  then show "locates v seq (A \<union> B) r"
    using i r by (auto simp: locates_def)
next
  assume "r = None" and "locates v seq B s"
  then show "locates v seq (A \<union> B) s"
    using assms(2) by (auto simp: locates_def)
qed

lemma lower_bound_partition:
  assumes "reads rd v {first..<first + len}" and "increasing v {first..<first + len}"
  shows "\<exists>r. lower_bound rd seq first len = Some r \<and> first \<le> r \<and> r \<le> first + len \<and>
    (\<forall>i. first \<le> i \<and> i < r \<longrightarrow> v i < seq) \<and> (\<forall>i. r \<le> i \<and> i < first + len \<longrightarrow> seq \<le> v i)"
  using assms
proof (induction len arbitrary: first rule: less_induct)
  case (less len)
  show ?case
  proof (cases "len = 0")
    case True
    then show ?thesis by (simp add: lower_bound.simps)
  next
    case False
    define half mid where hm: "half = len div 2" "mid = first + half"
    have half: "half < len" using False by (simp add: hm)
    then have rd: "rd mid = Some (v mid)"
      using less.prems(1) by (simp add: reads_def hm(2))
    have inc: "v i < v j" if "first \<le> i" "i < j" "j < first + len" for i j
      using less.prems(2) that by (simp add: increasing_def)
    show ?thesis
    proof (cases "v mid < seq")
      case True
      have eq: "lower_bound rd seq first len = lower_bound rd seq (Suc mid) (len - half - 1)"
        using False rd True by (subst lower_bound.simps) (simp add: Let_def flip: hm)
      have end': "Suc mid + (len - half - 1) = first + len" using half by (simp add: hm(2))
      have "\<exists>r. lower_bound rd seq (Suc mid) (len - half - 1) = Some r \<and> Suc mid \<le> r \<and>
          r \<le> Suc mid + (len - half - 1) \<and> (\<forall>i. Suc mid \<le> i \<and> i < r \<longrightarrow> v i < seq) \<and>
          (\<forall>i. r \<le> i \<and> i < Suc mid + (len - half - 1) \<longrightarrow> seq \<le> v i)"
        using less.prems half unfolding end'
        by (intro less.IH [of "len - half - 1" "Suc mid", unfolded end'])
           (auto simp: reads_def increasing_def hm(2))
      then obtain r where r: "lower_bound rd seq (Suc mid) (len - half - 1) = Some r" "Suc mid \<le> r"
        "r \<le> first + len" "\<forall>i. Suc mid \<le> i \<and> i < r \<longrightarrow> v i < seq"
        "\<forall>i. r \<le> i \<and> i < first + len \<longrightarrow> seq \<le> v i"
        unfolding end' by blast
      have "v i < seq" if "first \<le> i" "i < r" for i
      proof (cases "i \<le> mid")
        case le: True
        then have "v i \<le> v mid" using inc [of i mid] that half by (cases "i = mid") (auto simp: hm(2))
        with True show ?thesis by simp
      qed (use r(4) that in auto)
      then show ?thesis using eq r hm(2) by auto
    next
      case ge: False
      have eq: "lower_bound rd seq first len = lower_bound rd seq first half"
        using False rd ge by (subst lower_bound.simps) (simp add: Let_def flip: hm)
      obtain r where r: "lower_bound rd seq first half = Some r" "first \<le> r" "r \<le> first + half"
        "\<forall>i. first \<le> i \<and> i < r \<longrightarrow> v i < seq" "\<forall>i. r \<le> i \<and> i < first + half \<longrightarrow> seq \<le> v i"
        using less.IH [OF half, of first] less.prems half by (auto simp: reads_def increasing_def)
      have "seq \<le> v i" if "r \<le> i" "i < first + len" for i
      proof (cases "i < mid")
        case False
        then have "v mid \<le> v i" using inc [of mid i] that by (cases "i = mid") (auto simp: hm(2))
        with ge show ?thesis by simp
      qed (use r(5) that hm(2) in auto)
      then show ?thesis using eq r half by auto
    qed
  qed
qed

lemma dofind_locates:
  assumes "reads rd v {b..<e}" and "increasing v {b..<e}" and "b \<le> e"
  shows "\<exists>res. dofind rd seq b e = Some res \<and> locates v seq {b..<e} res"
proof -
  have be: "b + (e - b) = e" using assms(3) by simp
  obtain r where r: "lower_bound rd seq b (e - b) = Some r" "b \<le> r" "r \<le> e"
    "\<forall>i. b \<le> i \<and> i < r \<longrightarrow> v i < seq" "\<forall>i. r \<le> i \<and> i < e \<longrightarrow> seq \<le> v i"
    using lower_bound_partition [of rd v b "e - b" seq] assms(1,2) unfolding be by blast
  have uniq: "i = r" if "b \<le> i" "i < e" "v i = seq" for i
  proof (rule ccontr)
    assume "i \<noteq> r"
    then consider "i < r" | "r < i" by linarith
    then show False
    proof cases
      case 1
      then show ?thesis using r(4) that by auto
    next
      case 2
      then have "v r < v i" using assms(2) that r(2) by (auto simp: increasing_def)
      then show ?thesis using r(5) that 2 by force
    qed
  qed
  show ?thesis
  proof (cases "r = e")
    case True
    then have "\<not> (i \<in> {b..<e} \<and> v i = seq)" for i
      using uniq [of i] by (metis atLeastLessThan_iff less_irrefl)
    then have "locates v seq {b..<e} None"
      unfolding locates_def by blast
    then show ?thesis using r(1) True by (simp add: dofind_def)
  next
    case False
    then have "rd r = Some (v r)" using assms(1) r by (simp add: reads_def)
    moreover have "locates v seq {b..<e} (if v r = seq then Some r else None)"
    proof -
      have "i \<in> {b..<e} \<and> v i = seq \<longleftrightarrow> i = r \<and> v r = seq" for i
        using uniq [of i] False r(2,3) by (metis atLeastLessThan_iff le_neq_implies_less)
      then show ?thesis unfolding locates_def by (auto split: if_split)
    qed
    ultimately show ?thesis using r(1) False by (simp add: dofind_def)
  qed
qed

lemma linear_find_locates:
  assumes "reads rd v (set is)" and "inj_on v (set is)"
  shows "\<exists>res. linear_find rd seq is = Some res \<and> locates v seq (set is) res"
  using assms
proof (induction "is")
  case Nil
  then show ?case by (simp add: locates_def)
next
  case (Cons i "is")
  have rd: "rd i = Some (v i)" using Cons.prems(1) by (simp add: reads_def)
  show ?case
  proof (cases "v i = seq")
    case True
    then have "locates v seq (set (i # is)) (Some i)"
      using Cons.prems(2) by (auto simp: locates_def inj_on_def)
    then show ?thesis using rd True by simp
  next
    case False
    obtain res where "linear_find rd seq is = Some res" "locates v seq (set is) res"
      using Cons by (auto simp: reads_def)
    then show ?thesis using rd False by (auto simp: locates_def)
  qed
qed

text \<open>A ring buffer that wraps around is sorted in its two halves.\<close>

lemma sorted_slice:
  assumes "sorted_wrt (<) (map f (take n (drop t xs)))" and "t + n \<le> length xs"
  shows "increasing (\<lambda>i. f (xs ! i)) {t..<t + n}"
  unfolding increasing_def
proof (intro ballI impI)
  fix i j
  assume "i \<in> {t..<t + n}" "j \<in> {t..<t + n}" "i < j"
  moreover have "i - t < j - t" "j - t < length (take n (drop t xs))"
    using calculation assms(2) by auto
  ultimately show "f (xs ! i) < f (xs ! j)"
    using sorted_wrt_nth_less [OF assms(1), of "i - t" "j - t"] assms(2) by simp
qed

lemma increasing_inj: "increasing v S \<Longrightarrow> inj_on v S"
  by (auto simp: increasing_def inj_on_def) (metis less_irrefl linorder_neqE_nat)

lemma sorted_halves:
  assumes "sorted_wrt (<) (map f (drop t xs @ take h xs))" and "h \<le> t" and "t \<le> length xs"
  defines "v \<equiv> \<lambda>i. f (xs ! i)"
  shows "increasing v {0..<h}" and "increasing v {t..<length xs}"
    and "inj_on v ({0..<h} \<union> {t..<length xs})"
    and "set (drop t xs @ take h xs) = (!) xs ` ({0..<h} \<union> {t..<length xs})"
proof -
  have s: "sorted_wrt (<) (map f (drop t xs))" "sorted_wrt (<) (map f (take h xs))"
    and c: "\<And>x y. x \<in> set (drop t xs) \<Longrightarrow> y \<in> set (take h xs) \<Longrightarrow> f x < f y"
    using assms(1) by (auto simp: sorted_wrt_append)
  show 1: "increasing v {0..<h}"
    using sorted_slice [of f h 0 xs] s(2) assms(2,3) by (simp add: v_def)
  show 2: "increasing v {t..<length xs}"
    using sorted_slice [of f "length xs - t" t xs] s(1) assms(3) by (simp add: v_def)
  have d: "set (drop t xs) = (!) xs ` {t..<length xs}" and k: "set (take h xs) = (!) xs ` {0..<h}"
  proof -
    have "drop t xs = map ((!) xs) [t..<length xs]"
      using assms(3) by (intro nth_equalityI) auto
    then show "set (drop t xs) = (!) xs ` {t..<length xs}" by simp
    show "set (take h xs) = (!) xs ` {0..<h}"
      using assms(2,3) by (simp add: nth_image)
  qed
  show "inj_on v ({0..<h} \<union> {t..<length xs})"
    unfolding inj_on_Un
  proof (intro conjI)
    show "inj_on v {0..<h}" "inj_on v {t..<length xs}"
      by (rule increasing_inj [OF 1], rule increasing_inj [OF 2])
    show "v ` ({0..<h} - {t..<length xs}) \<inter> v ` ({t..<length xs} - {0..<h}) = {}"
      using c unfolding d k v_def by fastforce
  qed
  show "set (drop t xs @ take h xs) = (!) xs ` ({0..<h} \<union> {t..<length xs})"
    using d k by auto
qed

subsection \<open>The history holds the most recent blocks\<close>

definition hist_ok :: "history_buffer \<Rightarrow> bool" where
  "hist_ok hb \<longleftrightarrow> 0 < history_capacity hb \<and> hb_size hb \<le> history_capacity hb \<and>
     hb_head hb < history_capacity hb \<and> (hb_size hb < history_capacity hb \<longrightarrow> hb_head hb = hb_size hb)"

definition hist_contents :: "history_buffer \<Rightarrow> sent_block list" where
  "hist_contents hb =
     ring_seg (hb_buffer hb) (if hb_size hb = history_capacity hb then hb_head hb else 0) (hb_size hb)"

definition lastn :: "nat \<Rightarrow> 'a list \<Rightarrow> 'a list" where
  "lastn n xs = drop (length xs - n) xs"

lemma lastn_append: "lastn n (lastn n xs @ ys) = lastn n (xs @ ys)"
proof (cases "length xs \<le> n")
  case True
  then show ?thesis by (simp add: lastn_def)
next
  case False
  have "drop k (drop (length xs - n) xs @ ys) = drop (length xs - n + k) (xs @ ys)" for k
    using False by (simp add: drop_drop add.commute)
  moreover have "length xs - n + (length ys) = length (xs @ ys) - n"
    using False by simp
  ultimately show ?thesis
    using False by (simp add: lastn_def)
qed

lemma lastn_short: "length xs \<le> n \<Longrightarrow> lastn n xs = xs"
  by (simp add: lastn_def)

lemma hist_contents_full:
  assumes "hist_ok hb" and "hb_size hb = history_capacity hb"
  shows "hist_contents hb = drop (hb_head hb) (hb_buffer hb) @ take (hb_head hb) (hb_buffer hb)"
  using assms by (simp add: hist_contents_def hist_ok_def ring_seg_slices)

lemma hist_contents_part:
  assumes "hist_ok hb" and "hb_size hb < history_capacity hb"
  shows "hist_contents hb = take (hb_head hb) (hb_buffer hb)"
  using assms by (simp add: hist_contents_def hist_ok_def ring_seg_slices)

lemma history_resize_ok:
  "0 < n \<Longrightarrow> hist_ok (history_resize n hb) \<and> hist_contents (history_resize n hb) = [] \<and>
    history_capacity (history_resize n hb) = n"
  by (simp add: history_resize_def history_clear_def hist_ok_def hist_contents_def)

lemma sent_block_set_overwrites: "sent_block_set d fs b = sent_block_set d fs sent_block_init"
  by (simp add: sent_block_set_def sent_block_init_def)

lemma history_push_set_ok:
  assumes ok: "hist_ok hb"
  shows "hist_ok (history_push_set d fs hb)"
    and "history_capacity (history_push_set d fs hb) = history_capacity hb"
    and "hist_contents (history_push_set d fs hb)
      = lastn (history_capacity hb) (hist_contents hb @ [sent_block_set d fs sent_block_init])"
proof -
  let ?n = "history_capacity hb" and ?h = "hb_head hb"
  let ?b = "sent_block_set d fs sent_block_init"
  let ?hb = "history_push_set d fs hb"
  have eq: "hb_buffer ?hb = (hb_buffer hb)[?h := ?b]"
    "hb_head ?hb = ring_next ?n ?h" "hb_size ?hb = min ?n (Suc (hb_size hb))"
    using ok by (auto simp: history_push_set_def history_push_def Let_def hist_ok_def ring_next_def
        sent_block_set_overwrites [of d fs "hb_buffer hb ! ?h"])
  have h: "?h < ?n" using ok by (simp add: hist_ok_def)
  show ok': "hist_ok ?hb"
    using ok h unfolding hist_ok_def eq by (auto simp: ring_next_def)
  show "history_capacity ?hb = ?n"
    by (simp add: eq)
  show "hist_contents ?hb = lastn ?n (hist_contents hb @ [?b])"
  proof (cases "hb_size hb = ?n")
    case True
    then have "hist_contents hb = ring_seg (hb_buffer hb) ?h ?n"
      by (simp add: hist_contents_def)
    moreover have "hist_contents ?hb = ring_seg ((hb_buffer hb)[?h := ?b]) (ring_next ?n ?h) ?n"
      using True by (simp add: hist_contents_def eq)
    moreover obtain k where k: "?n = Suc k" using h by (cases ?n) auto
    have "ring_seg ((hb_buffer hb)[?h := ?b]) (ring_next ?n ?h) ?n
        = ring_seg (hb_buffer hb) (ring_next ?n ?h) k @ [?b]"
    proof -
      have pos: "?h = (ring_next ?n ?h + k) mod ?n"
        using h k mod_add_self2 [of ?h ?n] by (auto simp: ring_next_def)
      have "ring_seg ((hb_buffer hb)[?h := ?b]) (ring_next ?n ?h) k
          = ring_seg (hb_buffer hb) (ring_next ?n ?h) k"
        using ring_seg_update_outside [of k k "hb_buffer hb" "ring_next ?n ?h" ?b] k pos by simp
      then show ?thesis
        using pos h by (simp add: k ring_seg_snoc flip: pos)
    qed
    moreover have "ring_seg (hb_buffer hb) ?h ?n = hb_buffer hb ! ?h # ring_seg (hb_buffer hb) (ring_next ?n ?h) k"
      unfolding k using h by (subst ring_seg_Cons) (simp_all add: k)
    ultimately show ?thesis
      by (simp add: lastn_def k)
  next
    case False
    then have lt: "hb_size hb < ?n" and hs: "?h = hb_size hb"
      using ok by (auto simp: hist_ok_def)
    have "hist_contents hb = take ?h (hb_buffer hb)"
      by (rule hist_contents_part [OF ok lt])
    moreover have "hist_contents ?hb = take ?h (hb_buffer hb) @ [?b]"
    proof -
      have sz: "hb_size ?hb = Suc ?h" using lt hs by (simp add: eq)
      have "(if hb_size ?hb = history_capacity ?hb then hb_head ?hb else 0) = 0"
        using sz h by (simp add: eq ring_next_def)
      then have "hist_contents ?hb = ring_seg ((hb_buffer hb)[?h := ?b]) 0 (Suc ?h)"
        by (simp only: hist_contents_def sz eq(1))
      also have "\<dots> = take (Suc ?h) ((hb_buffer hb)[?h := ?b])"
        using h by (subst ring_seg_slices) auto
      also have "\<dots> = take ?h (hb_buffer hb) @ [?b]"
        using h by (simp add: take_Suc_conv_app_nth)
      finally show ?thesis .
    qed
    ultimately show ?thesis using h by (simp add: lastn_def)
  qed
qed

text \<open>Pushing any number of blocks keeps exactly the last ones that fit.\<close>

lemma history_fold_contents:
  assumes "hist_ok hb"
  shows "hist_ok (fold (\<lambda>(d, fs). history_push_set d fs) ds hb) \<and>
    hist_contents (fold (\<lambda>(d, fs). history_push_set d fs) ds hb)
      = lastn (history_capacity hb)
          (hist_contents hb @ map (\<lambda>(d, fs). sent_block_set d fs sent_block_init) ds)"
  using assms
proof (induction ds arbitrary: hb)
  case Nil
  then show ?case by (simp add: hist_contents_def hist_ok_def lastn_def)
next
  case (Cons d ds)
  obtain p fs where d: "d = (p, fs)" by (cases d)
  note 1 = history_push_set_ok [OF Cons.prems, of p fs]
  then show ?case
    using Cons.IH [OF 1(1)] by (simp add: d 1(2,3) lastn_append)
qed

lemma history_find_ok:
  assumes ok: "hist_ok hb" and srt: "sorted_wrt (<) (map sb_sequence (hist_contents hb))"
  shows "\<exists>res. history_find seq hb = Some res \<and>
    (case res of None \<Rightarrow> seq \<notin> sb_sequence ` set (hist_contents hb)
     | Some i \<Rightarrow> i < history_capacity hb \<and> hb_buffer hb ! i \<in> set (hist_contents hb) \<and>
         sb_sequence (hb_buffer hb ! i) = seq)"
proof -
  let ?buf = "hb_buffer hb" and ?n = "history_capacity hb" and ?h = "hb_head hb"
  define v where "v = (\<lambda>i. sb_sequence (?buf ! i))"
  define rd where "rd = read_seq sb_sequence ?buf"
  have rd: "reads rd v S" if "S \<subseteq> {0..<?n}" for S
    using that by (auto simp: reads_def rd_def read_seq_def v_def)
  have n: "0 < ?n" "?h < ?n" using ok by (auto simp: hist_ok_def)
  let ?good = "\<lambda>res. case res of None \<Rightarrow> seq \<notin> sb_sequence ` set (hist_contents hb)
     | Some i \<Rightarrow> i < ?n \<and> ?buf ! i \<in> set (hist_contents hb) \<and> sb_sequence (?buf ! i) = seq"
  have good: "?good res" if "locates v seq S res" "S \<subseteq> {0..<?n}" "set (hist_contents hb) = (!) ?buf ` S" for S res
    using that by (cases res) (force simp: locates_def v_def)+
  show ?thesis
  proof (cases "hb_size hb = 0")
    case True
    then show ?thesis by (auto simp: history_find_def hist_contents_def)
  next
    case False
    then obtain c where c: "hist_contents hb = c # tl (hist_contents hb)"
      by (metis hist_contents_def ring_seg_length list.collapse list.size(3))
    have low: "seq \<notin> sb_sequence ` set (hist_contents hb)" if "seq < sb_sequence c"
    proof -
      have "\<forall>x \<in> set (hist_contents hb). sb_sequence c \<le> sb_sequence x"
        using srt by (subst (asm) c, subst c) auto
      then show ?thesis using that by force
    qed
    show ?thesis
    proof (cases "hb_size hb = ?n")
      case full: True
      note cf = hist_contents_full [OF ok full]
      note half = sorted_halves [OF srt [unfolded cf] order_refl less_imp_le [OF n(2)], folded v_def cf]
      have c0: "c = ?buf ! ?h"
        using c n unfolding cf by (metis Cons_nth_drop_Suc append_Cons list.inject)
      obtain r1 where r1: "dofind rd seq 0 ?h = Some r1" "locates v seq {0..<?h} r1"
        using dofind_locates [OF rd half(1)] n by auto
      obtain r2 where r2: "dofind rd seq ?h ?n = Some r2" "locates v seq {?h..<?n} r2"
        using dofind_locates [OF rd half(2)] n by auto
      have "locates v seq ({0..<?h} \<union> {?h..<?n}) (if r1 = None then r2 else r1)"
        using locates_union [OF half(3) r1(2)] r2(2) by (cases r1) auto
      then have "?good (if r1 = None then r2 else r1)"
        using n by (intro good [OF _ _ half(4)]) auto
      then show ?thesis
        using False full r1 r2 n low c0
        by (cases r1) (auto simp: history_find_def Let_def rd_def read_seq_def)
    next
      case part: False
      then have lt: "hb_size hb < ?n" and hs: "?h = hb_size hb"
        using ok by (auto simp: hist_ok_def)
      note cp = hist_contents_part [OF ok lt]
      have c0: "c = ?buf ! 0"
        using c False hs n unfolding cp by (metis hd_conv_nth hd_take list.sel(1) neq0_conv list.size(3) less_nat_zero_code)
      have inc: "increasing v {0..<?h}"
        using sorted_slice [of sb_sequence ?h 0 ?buf] srt n unfolding cp by (simp add: v_def)
      obtain res where "dofind rd seq 0 ?h = Some res" "locates v seq {0..<?h} res"
        using dofind_locates [OF rd inc] n by auto
      moreover have "set (hist_contents hb) = (!) ?buf ` {0..<?h}"
        unfolding cp using n by (simp add: nth_image)
      ultimately show ?thesis
        using False part hs lt n low good [of "{0..<?h}" res] c0
        by (auto simp: history_find_def Let_def rd_def read_seq_def)
    qed
  qed
qed

subsection \<open>The jitter buffer as a queue\<close>

definition jb_ok :: "jitter_buffer \<Rightarrow> bool" where
  "jb_ok jb \<longleftrightarrow> 0 < jitter_capacity jb \<and> jb_size jb \<le> jitter_capacity jb \<and>
     jb_tail jb < jitter_capacity jb \<and> jb_head jb = (jb_tail jb + jb_size jb) mod jitter_capacity jb"

definition jb_contents :: "jitter_buffer \<Rightarrow> received_block list" where
  "jb_contents jb = ring_seg (jb_data jb) (jb_tail jb) (jb_size jb)"

definition jb_slots :: "jitter_buffer \<Rightarrow> nat set" where
  "jb_slots jb = (\<lambda>k. (jb_tail jb + k) mod jitter_capacity jb) ` {0..<jb_size jb}"

lemma jb_head_less: "jb_ok jb \<Longrightarrow> jb_head jb < jitter_capacity jb"
  by (auto simp: jb_ok_def)

lemma jb_wrap:
  assumes ok: "jb_ok jb" and ne: "0 < jb_size jb"
  shows "jb_tail jb < jb_head jb \<Longrightarrow>
      jb_head jb = jb_tail jb + jb_size jb \<and>
      jb_contents jb = take (jb_size jb) (drop (jb_tail jb) (jb_data jb))"
    and "\<not> jb_tail jb < jb_head jb \<Longrightarrow>
      jb_tail jb + jb_size jb = jb_head jb + jitter_capacity jb \<and>
      jb_contents jb = drop (jb_tail jb) (jb_data jb) @ take (jb_head jb) (jb_data jb)"
proof -
  let ?c = "jitter_capacity jb" and ?t = "jb_tail jb" and ?s = "jb_size jb"
  have b: "?t < ?c" "?s \<le> ?c" "jb_head jb = (?t + ?s) mod ?c"
    using ok by (auto simp: jb_ok_def)
  have c: "jb_contents jb = take ?s (drop ?t (jb_data jb)) @ take (?t + ?s - ?c) (jb_data jb)"
    using b by (simp add: jb_contents_def ring_seg_slices jitter_capacity_def)
  have h: "jb_head jb = (if ?t + ?s < ?c then ?t + ?s else ?t + ?s - ?c)"
    using b by (simp add: le_mod_geq)
  show "jb_tail jb < jb_head jb \<Longrightarrow> jb_head jb = ?t + ?s \<and>
      jb_contents jb = take ?s (drop ?t (jb_data jb))"
    using h b(2) c by (auto split: if_splits)
  assume nw: "\<not> ?t < jb_head jb"
  then have wrap: "\<not> ?t + ?s < ?c"
    using h ne by auto
  then have "jb_head jb = ?t + ?s - ?c" and "length (jb_data jb) - ?t \<le> ?s"
    using h by (auto simp: jitter_capacity_def)
  then show "?t + ?s = jb_head jb + ?c \<and> jb_contents jb = drop ?t (jb_data jb) @ take (jb_head jb) (jb_data jb)"
    using c wrap by simp
qed

lemma jb_slots_eq:
  assumes ok: "jb_ok jb" and ne: "0 < jb_size jb"
  shows "jb_slots jb = (if jb_tail jb < jb_head jb then {jb_tail jb..<jb_head jb}
    else {0..<jb_head jb} \<union> {jb_tail jb..<jitter_capacity jb})"
proof -
  let ?c = "jitter_capacity jb" and ?t = "jb_tail jb" and ?s = "jb_size jb"
  have b: "?t < ?c" "?s \<le> ?c" using ok by (auto simp: jb_ok_def)
  show ?thesis
  proof (cases "?t < jb_head jb")
    case True
    then have h: "jb_head jb = ?t + ?s" using jb_wrap(1) [OF ok ne] by simp
    then have "\<And>k. k < ?s \<Longrightarrow> (?t + k) mod ?c = ?t + k"
      using jb_head_less [OF ok] by simp
    then have "jb_slots jb = (\<lambda>k. ?t + k) ` {0..<?s}"
      by (auto simp: jb_slots_def)
    then show ?thesis using True h by (simp add: image_add_atLeastLessThan add.commute)
  next
    case False
    then have h: "?t + ?s = jb_head jb + ?c" using jb_wrap(2) [OF ok ne] by simp
    have "jb_slots jb = {0..<jb_head jb} \<union> {?t..<?c}"
    proof (intro set_eqI iffI)
      fix i
      assume "i \<in> jb_slots jb"
      then obtain k where "k < ?s" "i = (?t + k) mod ?c" by (auto simp: jb_slots_def)
      then show "i \<in> {0..<jb_head jb} \<union> {?t..<?c}"
        using h b by (cases "?t + k < ?c") (auto simp: le_mod_geq)
    next
      fix i
      assume i: "i \<in> {0..<jb_head jb} \<union> {?t..<?c}"
      have hl: "jb_head jb < ?c" by (rule jb_head_less [OF ok])
      show "i \<in> jb_slots jb"
      proof (cases "?t \<le> i")
        case True
        then have "i = (?t + (i - ?t)) mod ?c" "i - ?t < ?s" using i h hl False by auto
        then show ?thesis unfolding jb_slots_def by (metis atLeastLessThan_iff image_eqI zero_le)
      next
        case lt: False
        then have "i = (?t + (i + ?c - ?t)) mod ?c" "i + ?c - ?t < ?s" using i h hl b by auto
        then show ?thesis unfolding jb_slots_def by (metis atLeastLessThan_iff image_eqI zero_le)
      qed
    qed
    then show ?thesis using False by simp
  qed
qed

lemma jb_contents_slots: "set (jb_contents jb) = (!) (jb_data jb) ` jb_slots jb"
  by (auto simp: jb_contents_def jb_slots_def ring_seg_def jitter_capacity_def)

lemma jb_slots_less: "jb_ok jb \<Longrightarrow> i \<in> jb_slots jb \<Longrightarrow> i < jitter_capacity jb"
  by (auto simp: jb_slots_def jb_ok_def)

lemma jb_back_slot:
  assumes "jb_ok jb" and "0 < jb_size jb"
  shows "jitter_back jb \<in> jb_slots jb"
proof -
  have b: "jb_head jb < jitter_capacity jb" "jb_tail jb < jitter_capacity jb"
    using assms(1) by (auto simp: jb_ok_def)
  then show ?thesis
    unfolding jb_slots_eq [OF assms] jitter_back_def by auto
qed

text \<open>
  The search finds a block exactly when the buffer holds it. The binary search over the part behind
  the tail runs to the capacity of the vector, so the capacity must be the size there.
\<close>

lemma jitter_find_locates:
  assumes ok: "jb_ok jb" and srt: "sorted_wrt (<) (map rb_sequence (jb_contents jb))"
    and cap: "search_threshold \<le> jb_size jb \<Longrightarrow> jb_head jb \<le> jb_tail jb \<Longrightarrow>
      jb_vector_capacity jb = jitter_capacity jb"
  shows "\<exists>res. jitter_find seq jb = Some res \<and>
    locates (\<lambda>i. rb_sequence (jb_data jb ! i)) seq (jb_slots jb) res"
proof (cases "jb_size jb = 0")
  case True
  then show ?thesis by (simp add: jitter_find_def jitter_empty_def jb_slots_def locates_def)
next
  case False
  let ?c = "jitter_capacity jb" and ?t = "jb_tail jb" and ?s = "jb_size jb" and ?h = "jb_head jb"
  define v where "v = (\<lambda>i. rb_sequence (jb_data jb ! i))"
  define rd where "rd = read_seq rb_sequence (jb_data jb)"
  have ne: "0 < ?s" using False by simp
  have rd: "reads rd v S" if "S \<subseteq> {0..<?c}" for S
    using that by (auto simp: reads_def rd_def read_seq_def v_def jitter_capacity_def)
  have hl: "?h < ?c" "?t < ?c" using jb_head_less [OF ok] ok by (auto simp: jb_ok_def)
  note slots = jb_slots_eq [OF ok ne]
  have inj: "inj_on v (jb_slots jb)"
  proof (cases "?t < ?h")
    case True
    then have "increasing v {?t..<?h}"
      using sorted_slice [of rb_sequence ?s ?t "jb_data jb"] srt jb_wrap(1) [OF ok ne True] hl
      by (simp add: v_def jitter_capacity_def)
    then show ?thesis using True slots increasing_inj by simp
  next
    case wr: False
    then show ?thesis
      using sorted_halves(3) [of rb_sequence ?t "jb_data jb" ?h] srt jb_wrap(2) [OF ok ne wr] hl slots
      by (simp add: v_def jitter_capacity_def)
  qed
  have bk: "jitter_back jb \<in> jb_slots jb" by (rule jb_back_slot [OF ok ne])
  then have rb: "rd (jitter_back jb) = Some (v (jitter_back jb))"
    using rd [of "{jitter_back jb}"] jb_slots_less [OF ok bk] by (simp add: reads_def)
  show ?thesis
  proof (cases "v (jitter_back jb) = seq")
    case True
    then have "jitter_find seq jb = Some (Some (jitter_back jb))"
      using rb False by (simp add: jitter_find_def Let_def jitter_empty_def flip: rd_def)
    moreover have "locates v seq (jb_slots jb) (Some (jitter_back jb))"
      using True bk inj unfolding locates_def inj_on_def by blast
    ultimately show ?thesis by (simp add: v_def)
  next
    case nb: False
    have "\<exists>res. jitter_find seq jb = Some res \<and> locates v seq (jb_slots jb) res"
    proof (cases "?t < ?h")
      case True
      then have inc: "increasing v {?t..<?h}"
        using sorted_slice [of rb_sequence ?s ?t "jb_data jb"] srt jb_wrap(1) [OF ok ne True] hl
        by (simp add: v_def jitter_capacity_def)
      have S: "jb_slots jb = {?t..<?h}" using True slots by simp
      obtain r1 where r1: "dofind rd seq ?t ?h = Some r1" "locates v seq {?t..<?h} r1"
        using dofind_locates [OF rd inc] True hl by auto
      obtain r2 where r2: "linear_find rd seq [?t..<?h] = Some r2" "locates v seq {?t..<?h} r2"
        using linear_find_locates [OF rd, of "[?t..<?h]"] inj S hl by auto
      show ?thesis
        using r1 r2 True rb nb False unfolding S
        by (auto simp: jitter_find_def Let_def jitter_empty_def simp flip: rd_def)
    next
      case wr: False
      have S: "jb_slots jb = {0..<?h} \<union> {?t..<?c}" using wr slots by simp
      note half = sorted_halves(1,2) [of rb_sequence ?t "jb_data jb" ?h, folded v_def jitter_capacity_def]
      have inc: "increasing v {0..<?h}" "increasing v {?t..<?c}"
        using half srt jb_wrap(2) [OF ok ne wr] wr hl by (simp_all add: jitter_capacity_def)
      have sub: "{0..<?h} \<union> {?t..<?c} \<subseteq> {0..<?c}" using hl by auto
      obtain r1 where r1: "dofind rd seq 0 ?h = Some r1" "locates v seq {0..<?h} r1"
        using dofind_locates [OF rd inc(1)] hl by auto
      obtain r2 where r2: "dofind rd seq ?t ?c = Some r2" "locates v seq {?t..<?c} r2"
        using dofind_locates [OF rd inc(2)] hl by auto
      have l: "locates v seq (jb_slots jb) (if r1 = None then r2 else r1)"
        using locates_union [OF _ r1(2)] inj r2(2) unfolding S by (cases r1) auto
      obtain r3 where r3: "linear_find rd seq ([0..<?h] @ [?t..<?c]) = Some r3"
        "locates v seq ({0..<?h} \<union> {?t..<?c}) r3"
        using linear_find_locates [OF rd, of "[0..<?h] @ [?t..<?c]"] inj S sub by auto
      show ?thesis
      proof (cases "?s < search_threshold")
        case True
        then show ?thesis
          using r3 wr rb nb False unfolding S
          by (auto simp: jitter_find_def Let_def jitter_empty_def simp flip: rd_def)
      next
        case large: False
        then have "jb_vector_capacity jb = ?c" using cap wr by simp
        then have "jitter_find seq jb = Some (if r1 = None then r2 else r1)"
          using r1(1) r2(1) wr large rb nb False
          by (auto simp: jitter_find_def Let_def jitter_empty_def split: option.splits simp flip: rd_def)
        then show ?thesis using l by blast
      qed
    qed
    then show ?thesis by (simp add: v_def)
  qed
qed

text \<open>Iterating from \<^verbatim>\<open>begin()\<close> terminates and visits every block once, oldest first.\<close>

lemma jitter_iter_next_slot:
  assumes ok: "jb_ok jb" and lt: "Suc k < jb_size jb"
  shows "jitter_iter_next jb ((jb_tail jb + k) mod jitter_capacity jb)
    = Some ((jb_tail jb + Suc k) mod jitter_capacity jb)"
proof -
  let ?c = "jitter_capacity jb" and ?t = "jb_tail jb"
  have next': "ring_next ?c ((?t + k) mod ?c) = (?t + Suc k) mod ?c"
    using ok by (intro ring_next_add) (simp add: jb_ok_def)
  have "(?t + Suc k) mod ?c \<noteq> (?t + jb_size jb) mod ?c"
  proof
    assume eq: "(?t + Suc k) mod ?c = (?t + jb_size jb) mod ?c"
    show False
    proof (cases "jb_size jb < ?c")
      case True
      then show ?thesis using ring_pos_inj [OF eq] lt by simp
    next
      case False
      then have "jb_size jb = ?c" using ok by (simp add: jb_ok_def)
      then have "(?t + Suc k) mod ?c = (?t + 0) mod ?c" using eq by simp
      then show ?thesis using ring_pos_inj [of ?t "Suc k" ?c 0] lt \<open>jb_size jb = ?c\<close> by simp
    qed
  qed
  then show "jitter_iter_next jb ((?t + k) mod ?c) = Some ((?t + Suc k) mod ?c)"
    using next' ok by (simp add: jitter_iter_next_def jb_ok_def Let_def)
qed

lemma jitter_walk_from:
  assumes ok: "jb_ok jb" and k: "k < jb_size jb"
  shows "jitter_walk jb (Some ((jb_tail jb + k) mod jitter_capacity jb))
    = Some (map (\<lambda>j. (jb_tail jb + j) mod jitter_capacity jb) [k..<jb_size jb])"
  using k
proof (induction "jb_size jb - k" arbitrary: k)
  case 0
  then show ?case by simp
next
  case (Suc n)
  let ?c = "jitter_capacity jb" and ?t = "jb_tail jb"
  have next': "ring_next ?c ((?t + k) mod ?c) = (?t + Suc k) mod ?c"
    using ok by (intro ring_next_add) (simp add: jb_ok_def)
  show ?case
  proof (cases "Suc k = jb_size jb")
    case True
    then have "jitter_iter_next jb ((?t + k) mod ?c) = None"
      using next' ok by (simp add: jitter_iter_next_def jb_ok_def Let_def)
    then show ?thesis
      using True [symmetric] by (subst jitter_walk.simps) (simp add: jitter_walk.simps [of jb None])
  next
    case False
    then have lt: "Suc k < jb_size jb" using Suc.prems by simp
    have "jitter_iter_next jb ((?t + k) mod ?c) = Some ((?t + Suc k) mod ?c)"
      by (rule jitter_iter_next_slot [OF ok lt])
    then show ?thesis
      using Suc.hyps(1) [of "Suc k"] Suc.hyps(2) lt
      by (subst jitter_walk.simps) (simp add: upt_conv_Cons)
  qed
qed

subsection \<open>Blocks and the frames they own\<close>

definition block_ok :: "frame_heap \<Rightarrow> received_block \<Rightarrow> (nat \<rightharpoonup> nat) \<Rightarrow> bool" where
  "block_ok h b m \<longleftrightarrow>
     (if st_size (rb_frames b) = 0 then m = Map.empty
      else storage_ok h (rb_frames b) m \<and> rb_received_frames b = int (card (dom m)))"

lemma storage_ok_cong:
  assumes ok: "storage_ok h st m" and eq: "\<And>a. a \<in> ran m \<Longrightarrow> h' a = h a"
  shows "storage_ok h' st m"
proof -
  have f: "fidx h' a = fidx h a" if "a \<in> ran m" for a
    using eq [OF that] by (simp add: fidx_def)
  have 1: "\<forall>i a. m i = Some a \<longrightarrow> i < st_size st \<and> h' a \<noteq> None \<and> fidx h' a = int i"
    using storage_okD [OF ok] eq f ranI by metis
  have "list_ok h' st m" if l: "list_ok h st m"
  proof -
    obtain as where as: "frame_list h (st_head st) as" "sorted_wrt (<) (map (fidx h) as)"
      "st_tail st = (if as = [] then None else Some (last as))" "set as = ran m"
      using l by (auto simp: list_ok_def)
    have m: "map (fidx h') as = map (fidx h) as" using f as(4) by simp
    have "frame_list h' (st_head st) as"
      using as(1,4) eq frame_seg_cong [of as h' h] by metis
    then show ?thesis using as l m by (auto simp: list_ok_def simp del: map_eq_conv)
  qed
  then show ?thesis using ok 1 by (auto simp: storage_ok_def)
qed

lemma block_ok_cong:
  "block_ok h b m \<Longrightarrow> (\<And>a. a \<in> ran m \<Longrightarrow> h' a = h a) \<Longrightarrow> block_ok h' b m"
  using storage_ok_cong by (auto simp: block_ok_def)

lemma block_clear_ok:
  assumes al: "alloc_ok al fl" and b: "block_ok (heap al) b m" and use: "ran m \<subseteq> in_use al fl"
  shows "\<exists>b' al' fl'. block_clear b al = Some (b', al') \<and> st_size (rb_frames b') = 0 \<and>
    rb_sequence b' = rb_sequence b \<and> alloc_ok al' fl' \<and> in_use al' fl' = in_use al fl - ran m \<and>
    (\<forall>a. a \<notin> ran m \<longrightarrow> heap al' a = heap al a)"
proof (cases "st_size (rb_frames b) = 0")
  case True
  then show ?thesis
    using al b by (auto simp: block_clear_def storage_clear_def block_ok_def)
next
  case False
  then obtain st' al' fl' where "storage_clear (rb_frames b) al = Some (st', al')" "st_size st' = 0"
    "alloc_ok al' fl'" "in_use al' fl' = in_use al fl - ran m" "\<forall>a. a \<notin> ran m \<longrightarrow> heap al' a = heap al a"
    using storage_clear_ok [OF al, of "rb_frames b" m] b use by (auto simp: block_ok_def)
  then show ?thesis by (auto simp: block_clear_def)
qed

lemma int16_small: "- (2 ^ 15) \<le> i \<Longrightarrow> i < 2 ^ 15 \<Longrightarrow> int16 i = i"
  by (simp add: int16_def sint_sbintrunc' signed_take_bit_int_eq_self)

lemma block_add_frame_ok:
  assumes b: "block_ok h b m" and i: "i < st_size (rb_frames b)" and new: "m i = None"
    and fr: "h frame \<noteq> None" "frame \<notin> ran m" and small: "st_size (rb_frames b) < 2 ^ 15"
  shows "\<exists>h' b'. block_add_frame i frame h b = Some (h', b') \<and> block_ok h' b' (m(i \<mapsto> frame)) \<and>
    payload h' = payload h \<and> dom h' = dom h \<and> rb_sequence b' = rb_sequence b \<and>
    st_size (rb_frames b') = st_size (rb_frames b) \<and>
    (\<forall>a. a \<notin> ran m \<and> a \<noteq> frame \<longrightarrow> h' a = h a) \<and> fbin h' = fbin h \<and> fsize h' = fsize h \<and>
    fidx h' = (fidx h)(frame := int i)"
proof -
  have ok: "storage_ok h (rb_frames b) m" and cnt: "rb_received_frames b = int (card (dom m))"
    using b i by (auto simp: block_ok_def)
  obtain h' st' where st': "storage_add_frame i frame h (rb_frames b) = Some (h', st')"
    "storage_ok h' st' (m(i \<mapsto> frame))" "payload h' = payload h" "dom h' = dom h"
    "st_size st' = st_size (rb_frames b)" "\<forall>a. a \<notin> ran m \<and> a \<noteq> frame \<longrightarrow> h' a = h a" "fbin h' = fbin h"
    "fsize h' = fsize h" "fidx h' = (fidx h)(frame := int i)"
    using storage_add_frame_ok [OF ok i new fr] by blast
  have sub: "dom m \<subseteq> {..<st_size (rb_frames b)}"
    using storage_okD(1) [OF ok] by auto
  then have fin: "finite (dom m)" by (rule finite_subset) simp
  have "card (dom m) \<le> st_size (rb_frames b)"
    using card_mono [OF _ sub] by simp
  moreover have "card (dom m) \<noteq> st_size (rb_frames b)"
    using card_subset_eq [OF _ sub] i new by auto
  ultimately have lt: "card (dom m) < st_size (rb_frames b)" by simp
  then have "int16 (rb_received_frames b + 1) = int (card (dom (m(i \<mapsto> frame))))"
    using fin new cnt small by (subst int16_small) (auto simp: domIff)
  moreover have "\<not> block_placeholder b" "\<not> block_complete b"
    using lt cnt by (simp_all add: block_placeholder_def block_complete_def)
  ultimately show ?thesis
    using st' i by (auto simp: block_add_frame_def block_ok_def)
qed

subsection \<open>The invariant of the jitter buffer and its allocator\<close>

text \<open>
  \<open>owns al fl bs ms\<close>: the blocks \<open>bs\<close> hold the frames \<open>ms\<close>, all of them in use and no frame in two
  blocks. \<open>jb_inv\<close> adds that the slots outside the queue hold none.
\<close>

definition owns ::
    "data_frame_allocator \<Rightarrow> nat list list \<Rightarrow> received_block list \<Rightarrow> (nat \<rightharpoonup> nat) list \<Rightarrow> bool" where
  "owns al fl bs ms \<longleftrightarrow> alloc_ok al fl \<and> length ms = length bs \<and>
     (\<forall>i < length bs. block_ok (heap al) (bs ! i) (ms ! i) \<and> ran (ms ! i) \<subseteq> in_use al fl) \<and>
     (\<forall>i < length bs. \<forall>j < length bs. i \<noteq> j \<longrightarrow> ran (ms ! i) \<inter> ran (ms ! j) = {})"

definition jb_inv :: "jitter_buffer \<times> data_frame_allocator \<Rightarrow> bool" where
  "jb_inv w \<longleftrightarrow> jb_ok (fst w) \<and> (\<exists>fl ms. owns (snd w) fl (jb_data (fst w)) ms) \<and>
     (\<forall>i < jitter_capacity (fst w). i \<notin> jb_slots (fst w) \<longrightarrow> st_size (rb_frames (jb_data (fst w) ! i)) = 0)"

lemma owns_ran:
  assumes "owns al fl bs ms" and "i < length bs" and "st_size (rb_frames (bs ! i)) = 0"
  shows "ms ! i = Map.empty"
  using assms by (auto simp: owns_def block_ok_def)

text \<open>Replacing a block without frames by another.\<close>

lemma owns_replace_empty:
  assumes o: "owns al fl bs ms" and i: "i < length bs" and e: "st_size (rb_frames (bs ! i)) = 0"
    and b: "block_ok (heap al) b Map.empty"
  shows "owns al fl (bs[i := b]) ms"
  using o b i owns_ran [OF o i e] by (auto simp: owns_def nth_list_update)

lemma owns_clear:
  assumes o: "owns al fl bs ms" and i: "i < length bs"
  shows "\<exists>b' al' fl'. block_clear (bs ! i) al = Some (b', al') \<and> st_size (rb_frames b') = 0 \<and>
    rb_sequence b' = rb_sequence (bs ! i) \<and> owns al' fl' (bs[i := b']) (ms[i := Map.empty]) \<and>
    in_use al' fl' = in_use al fl - ran (ms ! i) \<and> (\<forall>a. a \<notin> ran (ms ! i) \<longrightarrow> heap al' a = heap al a)"
proof -
  have al: "alloc_ok al fl" and bi: "block_ok (heap al) (bs ! i) (ms ! i)" "ran (ms ! i) \<subseteq> in_use al fl"
    and len: "length ms = length bs"
    using o i by (auto simp: owns_def)
  obtain b' al' fl' where c: "block_clear (bs ! i) al = Some (b', al')" "st_size (rb_frames b') = 0"
    "rb_sequence b' = rb_sequence (bs ! i)" "alloc_ok al' fl'" "in_use al' fl' = in_use al fl - ran (ms ! i)"
    "\<forall>a. a \<notin> ran (ms ! i) \<longrightarrow> heap al' a = heap al a"
    using block_clear_ok [OF al bi] by blast
  have "block_ok (heap al') (bs ! j) (ms ! j) \<and> ran (ms ! j) \<subseteq> in_use al' fl'"
    if "j < length bs" "j \<noteq> i" for j
  proof -
    have d: "ran (ms ! j) \<inter> ran (ms ! i) = {}" and ok: "block_ok (heap al) (bs ! j) (ms ! j)"
      "ran (ms ! j) \<subseteq> in_use al fl"
      using o i that by (auto simp: owns_def)
    then show ?thesis
      using c(5,6) block_ok_cong [OF ok(1), of "heap al'"] by blast
  qed
  then have "owns al' fl' (bs[i := b']) (ms[i := Map.empty])"
    using o i c len by (auto simp: owns_def nth_list_update block_ok_def)
  then show ?thesis using c by blast
qed

lemma jb_slots_push:
  assumes ok: "jb_ok jb" and sp: "jb_size jb < jitter_capacity jb"
    and jb': "jitter_push seq jb = (i, jb')"
  shows "i = jb_head jb" and "i < jitter_capacity jb" and "i \<notin> jb_slots jb" and "jb_ok jb'"
    and "jb_slots jb' = insert i (jb_slots jb)" and "jb_data jb' = jb_data jb"
    and "jb_contents (jb'\<lparr> jb_data := (jb_data jb)[i := b] \<rparr>) = jb_contents jb @ [b]"
proof -
  let ?c = "jitter_capacity jb" and ?t = "jb_tail jb" and ?s = "jb_size jb"
  have eq: "i = jb_head jb" "jb_data jb' = jb_data jb" "jb_tail jb' = ?t" "jb_size jb' = Suc ?s"
    "jb_head jb' = ring_next ?c (jb_head jb)"
    using jb' by (auto simp: jitter_push_def)
  have b: "?t < ?c" "jb_head jb = (?t + ?s) mod ?c" using ok by (auto simp: jb_ok_def)
  have c': "jitter_capacity jb' = ?c" by (simp add: jitter_capacity_def eq)
  show "i = jb_head jb" "jb_data jb' = jb_data jb" by (fact eq)+
  show "i < ?c" using jb_head_less [OF ok] eq by simp
  show "i \<notin> jb_slots jb"
  proof
    assume "i \<in> jb_slots jb"
    then obtain k where "k < ?s" "(?t + k) mod ?c = (?t + ?s) mod ?c"
      using b eq by (auto simp: jb_slots_def)
    then show False using ring_pos_inj [of ?t k ?c ?s] sp by simp
  qed
  show "jb_ok jb'"
    using ok sp ring_next_add [OF b(1), of ?s] by (simp add: jb_ok_def c' eq b(2))
  show "jb_slots jb' = insert i (jb_slots jb)"
    using eq b by (simp add: jb_slots_def c' atLeast0_lessThan_Suc)
  show "jb_contents (jb'\<lparr> jb_data := (jb_data jb)[i := b] \<rparr>) = jb_contents jb @ [b]"
    using ring_seg_update_outside [of ?s ?s "jb_data jb" ?t b] sp b eq jb_head_less [OF ok]
    by (simp add: jb_contents_def ring_seg_snoc jitter_capacity_def)
qed

lemma jb_pop_struct:
  assumes ok: "jb_ok jb" and ne: "0 < jb_size jb"
    and jb': "jb' = jb\<lparr> jb_data := (jb_data jb)[jb_tail jb := b], jb_last_popped := s,
      jb_tail := ring_next (jitter_capacity jb) (jb_tail jb), jb_size := jb_size jb - 1 \<rparr>"
  shows "jb_ok jb'" and "jb_slots jb' = jb_slots jb - {jb_tail jb}"
    and "jb_contents jb' = tl (jb_contents jb)" and "hd (jb_contents jb) = jb_data jb ! jb_tail jb"
proof -
  let ?c = "jitter_capacity jb" and ?t = "jb_tail jb"
  obtain n where n: "jb_size jb = Suc n" using ne by (cases "jb_size jb") auto
  have b: "?t < ?c" "jb_head jb = (?t + Suc n) mod ?c" "Suc n \<le> ?c"
    using ok n by (auto simp: jb_ok_def)
  have c': "jitter_capacity jb' = ?c" by (simp add: jitter_capacity_def jb')
  have nx: "ring_next ?c ?t = Suc ?t mod ?c" using b by (simp add: ring_next_mod)
  have sh: "(ring_next ?c ?t + k) mod ?c = (?t + Suc k) mod ?c" for k
    by (simp add: nx mod_add_left_eq)
  show "jb_ok jb'"
    using ok b n sh [of n] ring_next_less [OF b(1)] by (simp add: jb_ok_def c') (simp add: jb')
  have "jb_slots jb' = (\<lambda>k. (?t + Suc k) mod ?c) ` {0..<n}"
    by (simp add: jb_slots_def c') (simp add: jb' n sh)
  also have "\<dots> = (\<lambda>k. (?t + k) mod ?c) ` {Suc 0..<Suc n}"
    by (simp add: image_comp comp_def flip: image_Suc_atLeastLessThan)
  finally have s': "jb_slots jb' = (\<lambda>k. (?t + k) mod ?c) ` {Suc 0..<Suc n}" .
  have "{0..<Suc n} = insert 0 {Suc 0..<Suc n}" by auto
  then have "jb_slots jb = insert ?t (jb_slots jb')"
    unfolding s' using b by (simp add: jb_slots_def n)
  moreover have "?t \<notin> jb_slots jb'"
  proof
    assume "?t \<in> jb_slots jb'"
    from this [unfolded s'] obtain k where k: "?t = (?t + k) mod ?c" "k \<in> {Suc 0..<Suc n}"
      by (rule imageE)
    have "?t = (?t + 0) mod ?c" using b by simp
    then have "(?t + k) mod ?c = (?t + 0) mod ?c" by (rule trans [OF k(1) [symmetric]])
    then have "k = 0" by (rule ring_pos_inj) (use b k(2) in auto)
    then show False using k(2) by simp
  qed
  ultimately show "jb_slots jb' = jb_slots jb - {?t}" by simp
  have d: "jb_contents jb = jb_data jb ! ?t # ring_seg (jb_data jb) (ring_next ?c ?t) n"
    using b ring_seg_Cons [of ?t "jb_data jb" n] by (simp add: jb_contents_def n jitter_capacity_def)
  then show "hd (jb_contents jb) = jb_data jb ! ?t" by simp
  have "ring_seg ((jb_data jb)[?t := b]) (ring_next ?c ?t) n = ring_seg (jb_data jb) (ring_next ?c ?t) n"
  proof -
    have "(ring_next ?c ?t + (?c - 1)) mod ?c = (?t + ?c) mod ?c"
      using sh [of "?c - 1"] b by simp
    then have "?t = (ring_next ?c ?t + (?c - 1)) mod ?c"
      using b by simp
    then show ?thesis
      using ring_seg_update_outside [of n "?c - 1" "jb_data jb" "ring_next ?c ?t" b] b
      by (simp add: jitter_capacity_def)
  qed
  then show "jb_contents jb' = tl (jb_contents jb)"
    using d n by (simp add: jb_contents_def jb')
qed

lemma jitter_push_placeholder_inv:
  assumes inv: "jb_inv (jb, al)" and sp: "jb_size jb < jitter_capacity jb"
  shows "jb_inv (jitter_push_placeholder seq jb, al)"
    and "\<exists>b. rb_sequence b = seq \<and> block_placeholder b \<and>
      jb_contents (jitter_push_placeholder seq jb) = jb_contents jb @ [b]"
proof -
  obtain i jb1 where p: "jitter_push seq jb = (i, jb1)" by (cases "jitter_push seq jb")
  have ok: "jb_ok jb" using inv by (simp add: jb_inv_def)
  note q = jb_slots_push [OF ok sp p]
  define b where "b = block_init_placeholder seq (jb_data jb ! i)"
  have e: "jitter_push_placeholder seq jb = jb1\<lparr> jb_data := (jb_data jb)[i := b] \<rparr>"
    by (simp add: jitter_push_placeholder_def p b_def q(6))
  have empty: "st_size (rb_frames (jb_data jb ! i)) = 0"
    using inv q(2,3) by (simp add: jb_inv_def)
  then have "block_ok (heap al) b Map.empty"
    by (simp add: b_def block_init_placeholder_def block_ok_def)
  then have "\<exists>fl ms. owns al fl ((jb_data jb)[i := b]) ms"
    using inv owns_replace_empty [of al _ "jb_data jb" _ i b] empty q(2)
    unfolding jb_inv_def jitter_capacity_def by fastforce
  moreover have c: "jitter_capacity (jb1\<lparr> jb_data := (jb_data jb)[i := b] \<rparr>) = jitter_capacity jb"
    by (simp add: jitter_capacity_def)
  moreover have "jb_ok (jb1\<lparr> jb_data := (jb_data jb)[i := b] \<rparr>)"
    using q(4,6) by (simp add: jb_ok_def jitter_capacity_def)
  moreover have "jb_slots (jb1\<lparr> jb_data := (jb_data jb)[i := b] \<rparr>) = insert i (jb_slots jb)"
    using q(5,6) by (simp add: jb_slots_def jitter_capacity_def)
  ultimately show "jb_inv (jitter_push_placeholder seq jb, al)"
    using inv empty by (auto simp: jb_inv_def e nth_list_update jitter_capacity_def)
  show "\<exists>b. rb_sequence b = seq \<and> block_placeholder b \<and>
      jb_contents (jitter_push_placeholder seq jb) = jb_contents jb @ [b]"
    using q(7) [of b] by (intro exI [of _ b])
      (simp add: e b_def block_init_placeholder_def block_placeholder_def)
qed

lemma jitter_pop_inv:
  assumes inv: "jb_inv (jb, al)" and ne: "0 < jb_size jb"
  shows "\<exists>jb' al'. jitter_pop jb al = Some (jb', al') \<and> jb_inv (jb', al') \<and>
    jb_contents jb' = tl (jb_contents jb) \<and> jitter_capacity jb' = jitter_capacity jb \<and>
    jb_last_popped jb' = rb_sequence (hd (jb_contents jb)) \<and> jb_last_pushed jb' = jb_last_pushed jb"
proof -
  have ok: "jb_ok jb" using inv by (simp add: jb_inv_def)
  have t: "jb_tail jb < length (jb_data jb)" using ok by (simp add: jb_ok_def jitter_capacity_def)
  obtain fl ms where o: "owns al fl (jb_data jb) ms" using inv by (auto simp: jb_inv_def)
  obtain b' al' fl' where c: "block_clear (jb_data jb ! jb_tail jb) al = Some (b', al')"
    "st_size (rb_frames b') = 0" "rb_sequence b' = rb_sequence (jb_data jb ! jb_tail jb)"
    "owns al' fl' ((jb_data jb)[jb_tail jb := b']) (ms[jb_tail jb := Map.empty])"
    using owns_clear [OF o t] by blast
  define jb' where "jb' = jb\<lparr> jb_data := (jb_data jb)[jb_tail jb := b'], jb_last_popped := rb_sequence b',
      jb_tail := ring_next (jitter_capacity jb) (jb_tail jb), jb_size := jb_size jb - 1 \<rparr>"
  note q = jb_pop_struct [OF ok ne jb'_def]
  have "jitter_pop jb al = Some (jb', al')"
    using ne by (simp add: jitter_pop_def jitter_empty_def c(1) jb'_def)
  moreover have "jb_inv (jb', al')"
    using inv c(2,4) q(1,2) t by (auto simp: jb_inv_def jb'_def jitter_capacity_def nth_list_update)
  ultimately show ?thesis
    using q c(3) by (auto simp: jb'_def jitter_capacity_def)
qed

interpretation jitter: bounded_fifo
  jb_inv "\<lambda>w. map rb_sequence (jb_contents (fst w))" "\<lambda>w. jitter_capacity (fst w)"
  "\<lambda>seq w. (jitter_push_placeholder seq (fst w), snd w)"
  "\<lambda>w. rb_sequence (jb_data (fst w) ! jitter_front (fst w))"
  "\<lambda>w. the (jitter_pop (fst w) (snd w))"
proof
  have len: "length (map rb_sequence (jb_contents (fst w))) = jb_size (fst w)" for w :: "jitter_buffer \<times> data_frame_allocator"
    by (simp add: jb_contents_def)
  fix w :: "jitter_buffer \<times> data_frame_allocator" and seq
  assume inv: "jb_inv w"
  {
    assume "length (map rb_sequence (jb_contents (fst w))) < jitter_capacity (fst w)"
    then have sp: "jb_size (fst w) < jitter_capacity (fst w)" by (simp only: len)
    show "jb_inv (jitter_push_placeholder seq (fst w), snd w)"
      using jitter_push_placeholder_inv(1) [of "fst w" "snd w"] inv sp by simp
    show "map rb_sequence (jb_contents (fst (jitter_push_placeholder seq (fst w), snd w)))
        = map rb_sequence (jb_contents (fst w)) @ [seq]"
      using jitter_push_placeholder_inv(2) [of "fst w" "snd w" seq] inv sp by auto
  next
    assume "map rb_sequence (jb_contents (fst w)) \<noteq> []"
    then have ne: "0 < jb_size (fst w)" using len [of w] by (cases "jb_size (fst w)") auto
    obtain jb' al' where pop: "jitter_pop (fst w) (snd w) = Some (jb', al')" "jb_inv (jb', al')"
      "jb_contents jb' = tl (jb_contents (fst w))" "jitter_capacity jb' = jitter_capacity (fst w)"
      using jitter_pop_inv [of "fst w" "snd w"] inv ne by auto
    show "jb_inv (the (jitter_pop (fst w) (snd w)))" using pop by simp
    show "jitter_capacity (fst (the (jitter_pop (fst w) (snd w)))) = jitter_capacity (fst w)"
      using pop by simp
    show "map rb_sequence (jb_contents (fst (the (jitter_pop (fst w) (snd w)))))
        = tl (map rb_sequence (jb_contents (fst w)))"
      using pop by (simp add: map_tl)
    have "hd (jb_contents (fst w)) = jb_data (fst w) ! jb_tail (fst w)" "jb_contents (fst w) \<noteq> []"
      using jb_pop_struct(4) [OF _ ne refl] inv \<open>map rb_sequence (jb_contents (fst w)) \<noteq> []\<close>
      by (auto simp: jb_inv_def)
    then show "rb_sequence (jb_data (fst w) ! jitter_front (fst w)) = hd (map rb_sequence (jb_contents (fst w)))"
      by (simp add: jitter_front_def hd_map)
  }
next
  fix w :: "jitter_buffer \<times> data_frame_allocator" and seq
  show "jitter_capacity (fst (jitter_push_placeholder seq (fst w), snd w)) = jitter_capacity (fst w)"
    by (simp add: jitter_push_placeholder_def jitter_push_def jitter_capacity_def Let_def)
qed

lemma owns_ConsD:
  assumes "owns al fl (b # bs) (m # ms)"
  shows "alloc_ok al fl" "block_ok (heap al) b m" "ran m \<subseteq> in_use al fl"
    "\<And>m'. m' \<in> set ms \<Longrightarrow> ran m' \<inter> ran m = {}"
    "\<And>i. i < length bs \<Longrightarrow> block_ok (heap al) (bs ! i) (ms ! i) \<and> ran (ms ! i) \<subseteq> in_use al fl"
    "length ms = length bs"
    "\<And>i j. i < length bs \<Longrightarrow> j < length bs \<Longrightarrow> i \<noteq> j \<Longrightarrow> ran (ms ! i) \<inter> ran (ms ! j) = {}"
proof -
  have o: "\<And>i. i < Suc (length bs) \<Longrightarrow>
      block_ok (heap al) ((b # bs) ! i) ((m # ms) ! i) \<and> ran ((m # ms) ! i) \<subseteq> in_use al fl"
    "\<And>i j. i < Suc (length bs) \<Longrightarrow> j < Suc (length bs) \<Longrightarrow> i \<noteq> j \<Longrightarrow>
      ran ((m # ms) ! i) \<inter> ran ((m # ms) ! j) = {}"
    using assms by (auto simp: owns_def)
  show l: "length ms = length bs" and "alloc_ok al fl"
    using assms by (auto simp: owns_def)
  show "block_ok (heap al) b m" "ran m \<subseteq> in_use al fl"
    using o(1) [of 0] by simp_all
  show "ran m' \<inter> ran m = {}" if "m' \<in> set ms" for m'
  proof -
    obtain j where j: "j < length bs" "m' = ms ! j" using \<open>m' \<in> set ms\<close> l by (auto simp: in_set_conv_nth)
    then show ?thesis using o(2) [of "Suc j" 0] by simp
  qed
  show "block_ok (heap al) (bs ! i) (ms ! i) \<and> ran (ms ! i) \<subseteq> in_use al fl" if "i < length bs" for i
    using o(1) [of "Suc i"] that by simp
  show "ran (ms ! i) \<inter> ran (ms ! j) = {}" if "i < length bs" "j < length bs" "i \<noteq> j" for i j
    using o(2) [of "Suc i" "Suc j"] that by simp
qed

lemma clear_blocks_ok:
  assumes "owns al fl bs ms"
  shows "\<exists>bs' al' fl'. clear_blocks bs al = Some (bs', al') \<and> alloc_ok al' fl' \<and> length bs' = length bs \<and>
    (\<forall>b \<in> set bs'. st_size (rb_frames b) = 0) \<and> in_use al' fl' = in_use al fl - \<Union> (ran ` set ms) \<and>
    (\<forall>a. a \<notin> \<Union> (ran ` set ms) \<longrightarrow> heap al' a = heap al a)"
  using assms
proof (induction bs arbitrary: al fl ms)
  case Nil
  then show ?case by (auto simp: owns_def)
next
  case (Cons b bs)
  then obtain m ms' where ms: "ms = m # ms'" by (cases ms) (auto simp: owns_def)
  note o = owns_ConsD [OF Cons.prems [unfolded ms]]
  obtain b' al1 fl1 where 1: "block_clear b al = Some (b', al1)" "st_size (rb_frames b') = 0"
    "alloc_ok al1 fl1" "in_use al1 fl1 = in_use al fl - ran m" "\<forall>a. a \<notin> ran m \<longrightarrow> heap al1 a = heap al a"
    using block_clear_ok [OF o(1-3)] by blast
  have "owns al1 fl1 bs ms'"
  proof -
    have "block_ok (heap al1) (bs ! i) (ms' ! i) \<and> ran (ms' ! i) \<subseteq> in_use al1 fl1" if "i < length bs" for i
    proof -
      have "ran (ms' ! i) \<inter> ran m = {}" using o(4,6) that by simp
      then show ?thesis
        using o(5) [OF that] 1(4,5) block_ok_cong [of "heap al" "bs ! i" "ms' ! i" "heap al1"] by blast
    qed
    then show ?thesis using o(6,7) 1(3) by (auto simp: owns_def)
  qed
  then obtain bs' al' fl' where "clear_blocks bs al1 = Some (bs', al')" "alloc_ok al' fl'"
    "length bs' = length bs" "\<forall>b \<in> set bs'. st_size (rb_frames b) = 0"
    "in_use al' fl' = in_use al1 fl1 - \<Union> (ran ` set ms')"
    "\<forall>a. a \<notin> \<Union> (ran ` set ms') \<longrightarrow> heap al' a = heap al1 a"
    using Cons.IH [of al1 fl1 ms'] by (elim meta_impE exE conjE) (assumption, rule that)
  then show ?case using 1 by (auto simp: ms)
qed

lemma owns_all_empty:
  assumes "alloc_ok al fl" and "\<forall>b \<in> set bs. st_size (rb_frames b) = 0"
  shows "owns al fl bs (replicate (length bs) Map.empty)"
  using assms by (auto simp: owns_def block_ok_def)

lemma jitter_resize_ok:
  assumes o: "owns al fl (jb_data jb) ms" and n: "0 < n"
  shows "\<exists>jb' al' fl'. jitter_resize grow n jb al = Some (jb', al') \<and> jb_inv (jb', al') \<and>
    alloc_ok al' fl' \<and> in_use al' fl' = in_use al fl - \<Union> (ran ` set ms) \<and> jb_contents jb' = [] \<and>
    jitter_capacity jb' = n \<and> jb_last_pushed jb' = sentinel"
proof -
  obtain bs al' fl' where c: "clear_blocks (jb_data jb) al = Some (bs, al')" "alloc_ok al' fl'"
    "length bs = length (jb_data jb)" "\<forall>b \<in> set bs. st_size (rb_frames b) = 0"
    "in_use al' fl' = in_use al fl - \<Union> (ran ` set ms)"
    using clear_blocks_ok [OF o] by (elim exE conjE) (rule that)
  define bs' where "bs' = take n bs @ replicate (n - length bs) received_block_empty"
  have len: "length bs' = n" by (simp add: bs'_def)
  have e: "\<forall>b \<in> set bs'. st_size (rb_frames b) = 0"
    using c(4) by (auto simp: bs'_def received_block_empty_def storage_empty_def dest: in_set_takeD)
  have own: "owns al' fl' bs' (replicate n Map.empty)"
    using owns_all_empty [OF c(2) e] len by simp
  have z: "st_size (rb_frames (bs' ! i)) = 0" if "i < n" for i
    using e len that by simp
  define jb' where "jb' = jb\<lparr> jb_data := bs', jb_head := 0, jb_tail := 0, jb_size := 0,
    jb_last_popped := sentinel, jb_last_pushed := sentinel,
    jb_vector_capacity := (if n \<le> jb_vector_capacity jb then jb_vector_capacity jb
      else grow (jb_vector_capacity jb) n) \<rparr>"
  have "jitter_resize grow n jb al = Some (jb', al')"
    by (simp add: jitter_resize_def jitter_reset_def c(1) jb'_def bs'_def)
  moreover have "jb_inv (jb', al')"
    using own len n z by (auto simp: jb_inv_def jb_ok_def jitter_capacity_def jb'_def)
  ultimately show ?thesis
    using c(2,5) len by (auto simp: jb'_def jb_contents_def jitter_capacity_def)
qed

subsection \<open>Cutting a block into frames\<close>

text \<open>A block as the source stores it: the data are cut into frames of equal size, the last of which
  may be shorter.\<close>

definition sent_block_ok :: "sent_block \<Rightarrow> bool" where
  "sent_block_ok b \<longleftrightarrow> 0 < sb_frame_size b \<and> 0 < sb_num_frames b \<and>
     (sb_num_frames b - 1) * sb_frame_size b < int (length (sb_buffer b)) \<and>
     int (length (sb_buffer b)) \<le> sb_num_frames b * sb_frame_size b"

lemma get_frame_chunk:
  assumes ok: "sent_block_ok b" and i: "int i < sb_num_frames b" and cnt: "nat (sb_frame_size b) \<le> cnt"
  shows "sent_block_get_frame (int i) cnt b
    = take (nat (sb_frame_size b)) (drop (i * nat (sb_frame_size b)) (sb_buffer b))"
proof -
  define fs n where "fs = nat (sb_frame_size b)" and "n = nat (sb_num_frames b)"
  have fs: "sb_frame_size b = int fs" "sb_num_frames b = int n" "0 < n"
    using ok by (auto simp: sent_block_ok_def fs_def n_def)
  have on: "nat (int i * sb_frame_size b) = i * fs"
    by (simp add: fs flip: of_nat_mult)
  show ?thesis
  proof (cases "int i = sb_num_frames b - 1")
    case True
    then have i': "n = Suc i" using fs by auto
    have "int (length (sb_buffer b)) \<le> int (n * fs)" using ok by (simp add: sent_block_ok_def fs)
    then have "length (sb_buffer b) - i * fs \<le> fs" by (simp only: i' of_nat_le_iff) simp
    then show ?thesis
      using True cnt unfolding sent_block_get_frame_def on Let_def by (simp flip: fs_def)
  next
    case False
    then show ?thesis
      using cnt unfolding sent_block_get_frame_def on Let_def by (simp flip: fs_def)
  qed
qed

lemma get_frame_concat:
  assumes ok: "sent_block_ok b" and cnt: "nat (sb_frame_size b) \<le> cnt"
  shows "concat (map (\<lambda>i. sent_block_get_frame (int i) cnt b) [0..<nat (sb_num_frames b)]) = sb_buffer b"
proof -
  let ?fs = "nat (sb_frame_size b)" and ?n = "nat (sb_num_frames b)"
  have "map (\<lambda>i. sent_block_get_frame (int i) cnt b) [0..<?n] = map (\<lambda>i. take ?fs (drop (i * ?fs) (sb_buffer b))) [0..<?n]"
    using get_frame_chunk [OF ok _ cnt] by simp
  moreover have "length (sb_buffer b) \<le> ?n * ?fs"
    using ok by (auto simp: sent_block_ok_def nat_mult_distrib [symmetric] le_nat_iff)
  ultimately show ?thesis by (simp only: concat_chunks take_all)
qed

text \<open>The blocks the source makes satisfy the assumption: \<open>num_frames\<close> is the quotient, rounded up.\<close>

lemma sent_block_set_ok:
  assumes "0 < fs" and "fs < 2 ^ 15" and "0 < length bytes" and "dp_data d = bytes"
    and "dp_total_size d = int (length bytes)"
    and "dp_num_frames d = length bytes div fs + (if length bytes mod fs \<noteq> 0 then 1 else 0)"
    and "dp_num_frames d < 2 ^ 15"
  shows "sent_block_ok (sent_block_set d (int fs) b)"
    and "sb_buffer (sent_block_set d (int fs) b) = bytes"
    and "sb_frame_size (sent_block_set d (int fs) b) = int fs"
    and "sb_num_frames (sent_block_set d (int fs) b) = int (dp_num_frames d)"
proof -
  let ?n = "dp_num_frames d" and ?len = "length bytes"
  show e: "sb_buffer (sent_block_set d (int fs) b) = bytes"
    "sb_frame_size (sent_block_set d (int fs) b) = int fs"
    "sb_num_frames (sent_block_set d (int fs) b) = int ?n"
    using assms by (simp_all add: sent_block_set_def int16_small)
  have dm: "?len = fs * (?len div fs) + ?len mod fs" by simp
  have "?len \<le> ?n * fs"
  proof (cases "?len mod fs = 0")
    case False
    have "?len mod fs < fs" using assms(1) by simp
    then have "?len < fs * (?len div fs) + fs" using dm by linarith
    then show ?thesis using False assms(6) by (simp add: algebra_simps)
  qed (use dm assms(6) in \<open>simp add: mult.commute\<close>)
  moreover have "0 < ?n" "(?n - 1) * fs < ?len"
  proof -
    show n0: "0 < ?n"
    proof (cases "?len mod fs = 0")
      case True
      then have "?len div fs \<noteq> 0" using dm assms(3) by (metis add_0 mult_0_right less_irrefl)
      then show ?thesis using True assms(6) by simp
    qed (use assms(6) in simp)
    show "(?n - 1) * fs < ?len"
    proof (cases "?len mod fs = 0")
      case True
      then have "?n * fs = ?len" using dm assms(6) by (simp add: mult.commute)
      then show ?thesis using n0 assms(1,3) by (simp add: diff_mult_distrib)
    next
      case False
      then have "fs * (?len div fs) < ?len" using dm by linarith
      then show ?thesis using False assms(6) by (simp add: mult.commute)
    qed
  qed
  moreover have "(int ?n - 1) * int fs = int ((?n - 1) * fs)"
    using \<open>0 < ?n\<close> by (simp add: of_nat_diff)
  ultimately show "sent_block_ok (sent_block_set d (int fs) b)"
    using assms(1) by (simp add: sent_block_ok_def e flip: of_nat_mult)
qed

subsection \<open>Properties\<close>

text \<open>Frames are added to a block one after the other.\<close>

fun block_add_frames ::
    "(nat \<times> nat) list \<Rightarrow> frame_heap \<Rightarrow> received_block \<Rightarrow> (frame_heap \<times> received_block) option" where
  "block_add_frames [] h b = Some (h, b)"
| "block_add_frames ((i, p) # fs) h b = do {
     (h, b) \<leftarrow> block_add_frame i p h b;
     block_add_frames fs h b }"

lemma block_add_frames_ok:
  assumes "block_ok h b m" and "st_size (rb_frames b) < 2 ^ 15" and "distinct (map fst fs)"
    and "distinct (map snd fs)"
    and "\<forall>(i, p) \<in> set fs. i < st_size (rb_frames b) \<and> m i = None \<and> p \<in> dom h \<and> p \<notin> ran m"
  shows "\<exists>h' b'. block_add_frames fs h b = Some (h', b') \<and> block_ok h' b' (m ++ map_of fs) \<and>
    payload h' = payload h \<and> st_size (rb_frames b') = st_size (rb_frames b)"
  using assms
proof (induction fs arbitrary: h b m)
  case Nil
  then show ?case by simp
next
  case (Cons x fs)
  obtain i p where x: "x = (i, p)" by (cases x)
  have pre: "i < st_size (rb_frames b)" "m i = None" "h p \<noteq> None" "p \<notin> ran m"
    using Cons.prems(5) x by auto
  obtain h1 b1 where 1: "block_add_frame i p h b = Some (h1, b1)" "block_ok h1 b1 (m(i \<mapsto> p))"
    "payload h1 = payload h" "dom h1 = dom h" "st_size (rb_frames b1) = st_size (rb_frames b)"
    using block_add_frame_ok [OF Cons.prems(1) pre Cons.prems(2)] by blast
  have "\<forall>(j, q) \<in> set fs. j < st_size (rb_frames b1) \<and> (m(i \<mapsto> p)) j = None \<and> q \<in> dom h1 \<and> q \<notin> ran (m(i \<mapsto> p))"
  proof clarify
    fix j q assume jq: "(j, q) \<in> set fs"
    have "i \<notin> fst ` set fs" "p \<notin> snd ` set fs" using Cons.prems(3,4) x by simp_all
    then have "j \<noteq> i" "q \<noteq> p" using jq by force+
    moreover have "j < st_size (rb_frames b) \<and> m j = None \<and> q \<in> dom h \<and> q \<notin> ran m"
      using Cons.prems(5) jq by auto
    ultimately show "j < st_size (rb_frames b1) \<and> (m(i \<mapsto> p)) j = None \<and> q \<in> dom h1 \<and> q \<notin> ran (m(i \<mapsto> p))"
      using 1(4,5) ran_map_upd [of m i p] pre(2) by (simp only: ran_map_upd) simp
  qed
  moreover have "distinct (map fst fs)" "distinct (map snd fs)" "st_size (rb_frames b1) < 2 ^ 15"
    using Cons.prems(2-4) 1(5) by simp_all
  ultimately obtain h' b' where 2: "block_add_frames fs h1 b1 = Some (h', b')"
    "block_ok h' b' (m(i \<mapsto> p) ++ map_of fs)" "payload h' = payload h1"
    "st_size (rb_frames b') = st_size (rb_frames b1)"
    using Cons.IH [OF 1(2)] by blast
  have "map_of fs i = None" using Cons.prems(3) x by (simp add: map_of_eq_None_iff)
  then have "m(i \<mapsto> p) ++ map_of fs = m ++ map_of (x # fs)"
    by (intro ext) (auto simp: x map_add_def split: option.splits)
  then have "block_ok h' b' (m ++ map_of (x # fs))" "block_add_frames (x # fs) h b = Some (h', b')"
    using 1 2 by (simp_all add: x)
  moreover have "payload h' = payload h" "st_size (rb_frames b') = st_size (rb_frames b)"
    using 1 2 by simp_all
  ultimately show ?case by blast
qed

text \<open>A block that holds all the frames of a sent block is complete and holds its data.\<close>

lemma full_block_copies:
  assumes ok: "block_ok h b m" and sb: "sent_block_ok sb"
    and n: "sb_num_frames sb = int (st_size (rb_frames b))" and dom: "dom m = {..<st_size (rb_frames b)}"
    and data: "\<And>i p. m i = Some p \<Longrightarrow> payload h p = sent_block_get_frame (int i) (nat (sb_frame_size sb)) sb"
  shows "block_complete b \<and> block_copy_frames h b = Some (sb_buffer sb)"
proof -
  let ?n = "st_size (rb_frames b)" and ?get = "\<lambda>i. sent_block_get_frame (int i) (nat (sb_frame_size sb)) sb"
  have npos: "0 < ?n" using sb n by (simp add: sent_block_ok_def)
  then have st: "storage_ok h (rb_frames b) m" "rb_received_frames b = int ?n"
    using ok dom by (auto simp: block_ok_def)
  have "block_copy_frames h b = Some (concat (map (\<lambda>i. payload h (the (m i))) [0..<?n]))"
    using storage_copy_frames_ok [OF st(1) dom] st(2) by (simp add: block_copy_frames_def block_complete_def)
  also have "map (\<lambda>i. payload h (the (m i))) [0..<?n] = map ?get [0..<?n]"
  proof (rule map_cong [OF refl])
    fix i assume "i \<in> set [0..<?n]"
    then obtain p where "m i = Some p" using dom by (metis atLeastLessThan_iff domD lessThan_iff set_upt)
    then show "payload h (the (m i)) = ?get i" using data by simp
  qed
  also have "concat \<dots> = sb_buffer sb"
    using get_frame_concat [OF sb, of "nat (sb_frame_size sb)"] n by simp
  finally show ?thesis using st(2) by (simp add: block_complete_def)
qed

text \<open>
  C1. A block survives the network: cut into frames by the source, its frames delivered once each in
  any order, stored by the sink in a fresh block, the block is complete and holds the original bytes.
\<close>

theorem block_transfer:
  assumes fs: "0 < fs" "fs < 2 ^ 15" and bytes: "bytes \<noteq> []" "dp_data d = bytes" "dp_total_size d = int (length bytes)"
    and n: "dp_num_frames d = length bytes div fs + (if length bytes mod fs \<noteq> 0 then 1 else 0)"
    "dp_num_frames d < 2 ^ 15"
    and arrive: "mset (map fst arr) = mset [0..<dp_num_frames d]" "distinct (map snd arr)"
    and frames: "\<forall>(i, p) \<in> set arr. p \<in> dom h \<and>
      payload h p = sent_block_get_frame (int i) fs (sent_block_set d (int fs) sb)"
  shows "\<exists>h' b'. block_add_frames arr h (block_init d b) = Some (h', b') \<and> block_complete b' \<and>
    block_copy_frames h' b' = Some bytes"
proof -
  let ?sb = "sent_block_set d (int fs) sb" and ?n = "dp_num_frames d"
  have "0 < length bytes" using bytes by simp
  note s = sent_block_set_ok [OF fs this bytes(2,3) n, of sb]
  have npos: "0 < ?n" using s(1) by (simp add: sent_block_ok_def s(4))
  have keys: "fst ` set arr = {..<?n}" "distinct (map fst arr)"
    using mset_eq_setD [OF arrive(1)] mset_eq_imp_distinct_iff [OF arrive(1)]
    by (auto simp: atLeast0LessThan)
  have b0: "block_ok h (block_init d b) Map.empty" "st_size (rb_frames (block_init d b)) = ?n"
    using storage_init_ok [of ?n h "rb_frames b"] npos n(2)
    by (auto simp: block_ok_def block_init_def Let_def storage_init_def)
  have "\<forall>(i, p) \<in> set arr. i < st_size (rb_frames (block_init d b)) \<and> Map.empty i = None \<and> p \<in> dom h \<and> p \<notin> ran Map.empty"
    using frames keys(1) b0(2) by force
  then obtain h' b' where r: "block_add_frames arr h (block_init d b) = Some (h', b')"
    "block_ok h' b' (map_of arr)" "payload h' = payload h" "st_size (rb_frames b') = ?n"
    using block_add_frames_ok [OF b0(1) _ keys(2) arrive(2)] n(2) b0(2) by (auto simp: map_add_def)
  have "dom (map_of arr) = {..<?n}" by (simp add: dom_map_of_conv_image_fst keys)
  moreover have "payload h' p = sent_block_get_frame (int i) (nat (sb_frame_size ?sb)) ?sb"
    if "map_of arr i = Some p" for i p
    using frames r(3) s(3) map_of_SomeD [OF that] by auto
  ultimately have "block_complete b' \<and> block_copy_frames h' b' = Some (sb_buffer ?sb)"
    using full_block_copies [OF r(2) s(1)] r(4) s(4) by simp
  then show ?thesis using r(1) s(2) by auto
qed

definition sample_packet :: "int \<Rightarrow> byte list \<Rightarrow> nat \<Rightarrow> data_packet" where
  "sample_packet seq bytes n = \<lparr> dp_sequence = seq, dp_channel = 0, dp_tt = 0, dp_samplerate = 0,
     dp_total_size = int (length bytes), dp_msg_size = 0, dp_num_frames = n, dp_frame_index = 0,
     dp_data = bytes, dp_frame = None, dp_size = 0, dp_flags = 0, dp_protocol_version = 0,
     dp_transport_profile = 0, dp_pcm_format = 0, dp_absolute_sample_position = 0,
     dp_source_timestamp = 0, dp_block_frames = 0, dp_channel_count = 0 \<rparr>"

theorem block_transfer_witness:
  "\<exists>h' b'. block_add_frames [(1, 4), (0, 7)]
      [4 \<mapsto> (sample_frame 0)\<lparr> fr_data := [3] \<rparr>, 7 \<mapsto> (sample_frame 0)\<lparr> fr_size := 2, fr_data := [1, 2] \<rparr>]
      (block_init (sample_packet 5 [1, 2, 3] 2) received_block_empty) = Some (h', b') \<and>
    block_complete b' \<and> block_copy_frames h' b' = Some [1, 2, 3]"
  by (rule block_transfer [where fs = 2 and sb = sent_block_init])
     (simp_all add: sample_packet_def upt_rec payload_def sent_block_get_frame_def sent_block_set_def
       sent_block_init_def int16_small Let_def)

text \<open>
  C23. The history can resend exactly the most recent blocks: after any number of blocks with
  increasing sequence numbers, a block is found if and only if it is among the last ones that fit, and
  what is found is the block that was stored under this sequence number.
\<close>

theorem history_finds_recent:
  fixes hb0 :: history_buffer
  assumes "0 < n" and "sorted_wrt (<) (map (\<lambda>(d, fs). dp_sequence d) ds)"
  defines "hb \<equiv> fold (\<lambda>(d, fs). history_push_set d fs) ds (history_resize n hb0)"
  shows "\<exists>res. history_find seq hb = Some res \<and>
    (case res of
       None \<Rightarrow> \<forall>(d, fs) \<in> set (lastn n ds). dp_sequence d \<noteq> seq
     | Some i \<Rightarrow> \<exists>(d, fs) \<in> set (lastn n ds). dp_sequence d = seq \<and>
         hb_buffer hb ! i = sent_block_set d fs sent_block_init)"
proof -
  let ?mk = "\<lambda>(d, fs). sent_block_set d fs sent_block_init"
  have r: "hist_ok (history_resize n hb0)" "hist_contents (history_resize n hb0) = []"
    "history_capacity (history_resize n hb0) = n"
    using history_resize_ok [OF assms(1)] by simp_all
  have ok: "hist_ok hb" and c: "hist_contents hb = map ?mk (lastn n ds)"
    using history_fold_contents [OF r(1), of ds] by (simp_all add: hb_def r lastn_def drop_map)
  have sq: "sb_sequence (?mk x) = (case x of (d, fs) \<Rightarrow> dp_sequence d)" for x
    by (cases x) (simp add: sent_block_set_def)
  have "sorted_wrt (<) (drop k (map (\<lambda>(d, fs). dp_sequence d) ds))" for k
    using assms(2) by (rule sorted_wrt_drop)
  then have "sorted_wrt (<) (map sb_sequence (hist_contents hb))"
    by (simp add: c comp_def sq lastn_def drop_map)
  from history_find_ok [OF ok this, of seq] obtain res where res: "history_find seq hb = Some res"
    "case res of None \<Rightarrow> seq \<notin> sb_sequence ` set (hist_contents hb)
     | Some i \<Rightarrow> i < history_capacity hb \<and> hb_buffer hb ! i \<in> set (hist_contents hb) \<and>
         sb_sequence (hb_buffer hb ! i) = seq" by blast
  show ?thesis
  proof (cases res)
    case None
    then show ?thesis using res unfolding c by (force simp: image_iff sq)
  next
    case (Some i)
    then obtain d fs where "(d, fs) \<in> set (lastn n ds)" "hb_buffer hb ! i = sent_block_set d fs sent_block_init"
      "sb_sequence (hb_buffer hb ! i) = seq"
      using res(2) unfolding c by auto
    then show ?thesis using res(1) Some by (force simp: sent_block_set_def)
  qed
qed

theorem history_finds_recent_witness:
  "\<exists>i. history_find 8 (fold (\<lambda>(d, fs). history_push_set d fs)
       [(sample_packet 7 [] 0, 0), (sample_packet 8 [] 0, 0), (sample_packet 9 [] 0, 0)]
       (history_resize 2 \<lparr> hb_buffer = [], hb_head = 0, hb_size = 0 \<rparr>)) = Some (Some i)"
  using history_finds_recent [of 2
      "[(sample_packet 7 [] 0, 0), (sample_packet 8 [] 0, 0), (sample_packet 9 [] 0, 0)]"
      8 "\<lparr> hb_buffer = [], hb_head = 0, hb_size = 0 \<rparr>"]
  by (auto simp: sample_packet_def lastn_def numeral_2_eq_2 split: option.splits)

text \<open>
  C20. \<^verbatim>\<open>jitter_buffer::find\<close>, by linear search in a short queue and by binary search in a long one, finds a block
  exactly when the queue holds it, provided that the capacity of the vector is its size (as after the first
  \<^verbatim>\<open>resize\<close>) or the queue is short or does not wrap around. A long queue that wraps around in a vector with spare capacity is
  excluded: there the search reads past the end (\<^verbatim>\<open>jitter_find_past_end\<close>).
\<close>

theorem jitter_find_correct:
  assumes "jb_ok jb" and "sorted_wrt (<) (map rb_sequence (jb_contents jb))"
    and "jb_vector_capacity jb = jitter_capacity jb \<or> jb_size jb < search_threshold \<or> jb_tail jb < jb_head jb"
  shows "\<exists>res. jitter_find seq jb = Some res \<and>
    (case res of None \<Rightarrow> seq \<notin> rb_sequence ` set (jb_contents jb)
     | Some i \<Rightarrow> i < jitter_capacity jb \<and> jb_data jb ! i \<in> set (jb_contents jb) \<and>
         rb_sequence (jb_data jb ! i) = seq)"
proof -
  obtain res where res: "jitter_find seq jb = Some res"
    "locates (\<lambda>i. rb_sequence (jb_data jb ! i)) seq (jb_slots jb) res"
    using jitter_find_locates [OF assms(1,2)] assms(3) by fastforce
  then show ?thesis
    using jb_slots_less [OF assms(1)] by (cases res) (force simp: locates_def jb_contents_slots)+
qed

definition sample_jitter :: "nat \<Rightarrow> jitter_buffer" where
  "sample_jitter vcap = \<lparr>
     jb_data = map (\<lambda>s. received_block_empty\<lparr> rb_sequence := s \<rparr>)
       [108, 109, 98, 99, 100, 101, 102, 103, 104, 105, 106, 107],
     jb_vector_capacity = vcap, jb_size = 10, jb_head = 2, jb_tail = 4,
     jb_last_pushed = 109, jb_last_popped = 99 \<rparr>"

lemma sample_jitter_ok:
  "jb_ok (sample_jitter v)" "jitter_capacity (sample_jitter v) = 12"
  "map rb_sequence (jb_contents (sample_jitter v)) = [100, 101, 102, 103, 104, 105, 106, 107, 108, 109]"
proof -
  show "jb_ok (sample_jitter v)" "jitter_capacity (sample_jitter v) = 12"
    by (simp_all add: sample_jitter_def jb_ok_def jitter_capacity_def)
  have "jb_contents (sample_jitter v) = take 10 (drop 4 (jb_data (sample_jitter v))) @ take 2 (jb_data (sample_jitter v))"
    unfolding jb_contents_def by (subst ring_seg_slices) (simp_all add: sample_jitter_def)
  then show "map rb_sequence (jb_contents (sample_jitter v)) = [100, 101, 102, 103, 104, 105, 106, 107, 108, 109]"
    by (simp add: sample_jitter_def)
qed

theorem jitter_find_correct_witness:
  "\<exists>i. jitter_find 107 (sample_jitter 12) = Some (Some i)"
proof -
  have "107 \<in> rb_sequence ` set (jb_contents (sample_jitter 12))"
    using sample_jitter_ok(3) [of 12] by (simp flip: set_map)
  then show ?thesis
    using jitter_find_correct [of "sample_jitter 12" 107] sample_jitter_ok [of 12]
    by (auto simp: sample_jitter_def split: option.splits)
qed

text \<open>
  After the buffer has been made smaller the vector keeps its capacity, and the binary search runs
  past the last element: here the search for a block that is in the queue reads slot 13 of 12.
\<close>

theorem jitter_find_past_end:
  "jb_ok (sample_jitter 16) \<and> 107 \<in> rb_sequence ` set (jb_contents (sample_jitter 16)) \<and>
   jitter_find 107 (sample_jitter 16) = None"
proof (intro conjI)
  show "jb_ok (sample_jitter 16)" by (rule sample_jitter_ok)
  show "107 \<in> rb_sequence ` set (jb_contents (sample_jitter 16))"
    using sample_jitter_ok(3) [of 16] by (simp flip: set_map)
  show "jitter_find 107 (sample_jitter 16) = None"
    by (simp add: jitter_find_def sample_jitter_def jitter_empty_def jitter_back_def dofind_def
        read_seq_def search_threshold_def lower_bound.simps Let_def received_block_empty_def)
qed

fun jitter_run ::
    "int fifo_op list \<Rightarrow> jitter_buffer \<times> data_frame_allocator \<Rightarrow>
     (int list \<times> jitter_buffer \<times> data_frame_allocator) option" where
  "jitter_run [] w = Some ([], w)"
| "jitter_run (Enq seq # ps) (jb, al) =
     (if push_asserts seq jb then jitter_run ps (jitter_push_placeholder seq jb, al) else None)"
| "jitter_run (Deq # ps) (jb, al) =
     (if jitter_empty jb then None
      else do {
        w \<leftarrow> jitter_pop jb al;
        (out, w) \<leftarrow> jitter_run ps w;
        Some (rb_sequence (jb_data jb ! jitter_front jb) # out, w) })"

lemma jitter_run_fifo:
  assumes "jb_inv w" and "jitter_run ps w = Some (out, w')"
  shows "jitter.run ps w = Some (out, w')"
  using assms
proof (induction ps w arbitrary: out rule: jitter_run.induct)
  case (1 w)
  then show ?case by simp
next
  case (2 seq ps jb al)
  then have sp: "jb_size jb < jitter_capacity jb"
    by (auto simp: push_asserts_def jitter_full_def jb_inv_def jb_ok_def split: if_splits)
  then have "jitter.run ps (jitter_push_placeholder seq jb, al) = Some (out, w')"
    using 2 jitter_push_placeholder_inv(1) [of jb al seq] by (auto split: if_splits)
  moreover have "length (jb_contents jb) = jb_size jb" by (simp add: jb_contents_def)
  ultimately show ?case using sp by simp
next
  case (3 ps jb al)
  then have ne: "0 < jb_size jb"
    by (auto simp: jitter_empty_def split: if_splits)
  from jitter_pop_inv [OF 3(2) ne] obtain jb' al' where
    p: "jitter_pop jb al = Some (jb', al')" "jb_inv (jb', al')" by blast
  then obtain out' where r: "jitter_run ps (jb', al') = Some (out', w')"
    and o: "out = rb_sequence (jb_data jb ! jitter_front jb) # out'"
    using 3(3) ne by (auto simp: jitter_empty_def split: bind_splits)
  have "jitter.run ps (jb', al') = Some (out', w')"
    using 3(1) [of "(jb', al')"] p r ne by (simp add: jitter_empty_def)
  moreover have "jb_contents jb \<noteq> []" using ne by (auto simp: jb_contents_def simp flip: length_0_conv)
  ultimately show ?case using p(1) o by simp
qed

text \<open>
  The jitter buffer delivers placeholders in the order in which they were pushed, none lost and none
  twice, for every sequence of pushes and pops that respects its capacity and pushes without a gap. Blocks with frames are the subject
  of the invariant of the sink.
\<close>

theorem jitter_delivers_in_order:
  assumes "jb_inv w" and "jb_contents (fst w) = []" and "jitter_run ps w = Some (out, w')"
  shows "jb_inv w' \<and> jitter.inputs ps = out @ map rb_sequence (jb_contents (fst w'))"
  using jitter.run_fifo [OF assms(1) jitter_run_fifo [OF assms(1,3)]] assms(2) by simp

definition sample_jitter_world :: "nat \<Rightarrow> jitter_buffer \<times> data_frame_allocator" where
  "sample_jitter_world n = the (jitter_resize (\<lambda>_ n. n) n jitter_new alloc_init)"

lemma sample_jitter_world_ok:
  "0 < n \<Longrightarrow> jb_inv (sample_jitter_world n) \<and> jb_contents (fst (sample_jitter_world n)) = [] \<and>
     jitter_capacity (fst (sample_jitter_world n)) = n \<and> jb_last_pushed (fst (sample_jitter_world n)) = sentinel"
  using jitter_resize_ok [of alloc_init "replicate bin_count []" jitter_new "[]" n "\<lambda>_ n. n"] alloc_init_ok
  by (auto simp: sample_jitter_world_def owns_def jitter_new_def)

theorem jitter_delivers_in_order_witness:
  "\<exists>w'. jitter_run [Enq 5, Enq 6, Deq] (sample_jitter_world 2) = Some ([5], w') \<and>
     map rb_sequence (jb_contents (fst w')) = [6]"
proof -
  obtain jb al where w: "sample_jitter_world 2 = (jb, al)" by (cases "sample_jitter_world 2")
  have j: "jb_inv (jb, al)" "jb_size jb = 0" "jitter_capacity jb = 2" "jb_last_pushed jb = sentinel"
    using sample_jitter_world_ok [of 2] by (auto simp: w jb_contents_def simp flip: length_0_conv)
  have p: "jb_size (jitter_push_placeholder s q) = Suc (jb_size q)"
    "jitter_capacity (jitter_push_placeholder s q) = jitter_capacity q"
    "jb_last_pushed (jitter_push_placeholder s q) = s" for s q
    by (simp_all add: jitter_push_placeholder_def jitter_push_def jitter_capacity_def Let_def)
  let ?jb = "jitter_push_placeholder 6 (jitter_push_placeholder 5 jb)"
  have "jb_inv (?jb, al)"
    using j by (intro jitter_push_placeholder_inv) (simp_all add: p)
  then obtain w' where "jitter_pop ?jb al = Some w'"
    using jitter_pop_inv [of ?jb al] p by auto
  then obtain out where r: "jitter_run [Enq 5, Enq 6, Deq] (sample_jitter_world 2) = Some (out, w')"
    "length out = 1"
    using j by (simp add: w push_asserts_def jitter_full_def jitter_empty_def p)
  have "jitter.inputs [Enq 5, Enq 6, Deq] = out @ map rb_sequence (jb_contents (fst w'))"
    using jitter_delivers_in_order [OF _ _ r(1)] sample_jitter_world_ok [of 2] by simp
  then have e: "[5, 6] = out @ map rb_sequence (jb_contents (fst w'))" by simp
  obtain x where x: "out = [x]" using r(2) by (cases out) auto
  show ?thesis using e r(1) unfolding x by auto
qed

text \<open>
  Iterating over the jitter buffer terminates and visits the blocks in the order in which they
  will be delivered.
\<close>

theorem jitter_iteration:
  assumes "jb_ok jb"
  shows "map_option (map ((!) (jb_data jb))) (jitter_walk jb (jitter_begin jb)) = Some (jb_contents jb)"
proof (cases "jb_size jb = 0")
  case True
  then show ?thesis
    by (simp add: jitter_begin_def jitter_empty_def jb_contents_def jitter_walk.simps [of jb None])
next
  case False
  then have "jitter_walk jb (jitter_begin jb)
      = Some (map (\<lambda>j. (jb_tail jb + j) mod jitter_capacity jb) [0..<jb_size jb])"
    using jitter_walk_from [OF assms, of 0] assms by (simp add: jitter_begin_def jitter_empty_def jb_ok_def)
  then show ?thesis
    by (simp add: jb_contents_def ring_seg_def jitter_capacity_def)
qed

theorem jitter_iteration_witness:
  "map_option (map ((!) (jb_data (sample_jitter 12)))) (jitter_walk (sample_jitter 12) (jitter_begin (sample_jitter 12)))
   = Some (jb_contents (sample_jitter 12))"
  by (rule jitter_iteration [OF sample_jitter_ok(1)])

text \<open>
  Resizing (and so resetting) a jitter buffer first returns every frame of its blocks to the
  allocator, and leaves an empty queue of the new capacity.
\<close>

theorem jitter_resize_returns_frames:
  assumes "owns al fl (jb_data jb) ms" and "0 < n"
  shows "\<exists>jb' al' fl'. jitter_resize grow n jb al = Some (jb', al') \<and> jb_inv (jb', al') \<and>
    in_use al' fl' = in_use al fl - \<Union> (ran ` set ms) \<and> jb_contents jb' = [] \<and> jitter_capacity jb' = n"
  using jitter_resize_ok [OF assms] by blast

theorem jitter_resize_returns_frames_witness:
  "\<exists>jb' al'. jitter_resize (\<lambda>_ n. n) 3 jitter_new alloc_init = Some (jb', al') \<and> jb_inv (jb', al')"
  using jitter_resize_returns_frames [of alloc_init "replicate bin_count []" jitter_new "[]" 3 "\<lambda>_ n. n"]
    alloc_init_ok by (auto simp: owns_def jitter_new_def)

text \<open>
  A block slot that is reused for another sequence number keeps the number of resend attempts and
  the time of the last one: the comparison that should reset them compares the new sequence number
  with itself.
\<close>

theorem block_init_keeps_tries:
  "rb_num_tries (block_init d b) = rb_num_tries b \<and> rb_timestamp (block_init d b) = rb_timestamp b"
  by (simp add: block_init_def Let_def)

end
