(* ===== verification/Data_Message.thy ===== *)
theory Data_Message
  imports Low_Latency Bin_Msg Packet_Buffer
begin

text \<open>
  The binary data message, the packet that carries the audio: written by the source
  (\<^verbatim>\<open>write_bin_data\<close>, \<^verbatim>\<open>send_packet_bin\<close> and \<^verbatim>\<open>send_packet\<close> of \<^verbatim>\<open>aoo/src/source.cpp\<close>) and read by
  the sink (\<^verbatim>\<open>Sink::handle_data_message\<close> of \<^verbatim>\<open>aoo/src/sink.cpp\<close>).

  The theorems show that the sink reads back the packet the source wrote, that the optimised
  multi-sink \<^verbatim>\<open>send_packet\<close>, which writes the message once and patches it for each sink, sends
  to every sink the message that \<^verbatim>\<open>send_packet_bin\<close> would have built for it, and that no message
  exceeds the packet size.
\<close>

subsection \<open>Writing\<close>

definition kAooBinMsgDataSampleRate :: u32 where "kAooBinMsgDataSampleRate = 0x01"
definition kAooBinMsgDataFrames :: u32 where "kAooBinMsgDataFrames = 0x02"
definition kAooBinMsgDataStreamMessage :: u32 where "kAooBinMsgDataStreamMessage = 0x04"
definition kAooBinMsgDataXRun :: u32 where "kAooBinMsgDataXRun = 0x08"
definition kAooBinMsgDataTimeStamp :: u32 where "kAooBinMsgDataTimeStamp = 0x10"
definition kAooBinMsgDataLowLatency :: u32 where "kAooBinMsgDataLowLatency = 0x20"

definition kAooBinMsgCmdData :: int where "kAooBinMsgCmdData = 0"
definition kAooBinMsgHeaderSize :: nat where "kAooBinMsgHeaderSize = 4"
definition kAooBinMsgLargeHeaderSize :: nat where "kAooBinMsgLargeHeaderSize = 12"
definition kBinDataHeaderSize :: nat where
  "kBinDataHeaderSize = kAooBinMsgLargeHeaderSize + 40 + AOO_LOW_LATENCY_PACKET_HEADER_SIZE"

abbreviation has_flag :: "data_packet \<Rightarrow> u32 \<Rightarrow> bool" where
  "has_flag d f \<equiv> dp_flags d AND f \<noteq> 0"

text \<open>The low-latency header of a packet.\<close>

definition ll_header :: "int \<Rightarrow> data_packet \<Rightarrow> AooLowLatencyPacketHeader" where
  "ll_header stream_id d = \<lparr>
     ph_protocolVersion = dp_protocol_version d,
     ph_headerSize = word_of_nat AOO_LOW_LATENCY_PACKET_HEADER_SIZE,
     ph_profile = dp_transport_profile d,
     ph_pcmFormat = dp_pcm_format d,
     ph_flags = 0,
     ph_streamId = ucast (word_of_int stream_id :: u32),
     ph_sequence = word_of_int (dp_sequence d),
     ph_absoluteSamplePosition = dp_absolute_sample_position d,
     ph_sourceTimestamp = dp_source_timestamp d,
     ph_blockFrames = dp_block_frames d,
     ph_fragmentIndex = word_of_nat (dp_frame_index d),
     ph_fragmentCount = word_of_nat (dp_num_frames d),
     ph_channelCount = dp_channel_count d,
     ph_payloadBytes = word_of_nat (dp_size d) \<rparr>"

text \<open>A field that is only present under a flag.\<close>

definition write_bytes_if :: "bool \<Rightarrow> 'a::len word \<Rightarrow> writer \<Rightarrow> writer" where
  "write_bytes_if c v it = (if c then write_bytes v it else it)"

text \<open>The number of bytes written and the new content of the buffer.\<close>

definition write_bin_data :: "byte list \<Rightarrow> int \<Rightarrow> data_packet \<Rightarrow> nat \<times> byte list" where
  "write_bin_data buffer stream_id d =
     (let it = ([], buffer);
          it = write_bytes (word_of_int stream_id :: u32) it;
          it = write_bytes (word_of_int (dp_sequence d) :: u32) it;
          it = write_bytes (word_of_int (dp_channel d) :: byte) it;
          it = write_bytes (ucast (dp_flags d) :: byte) it;
          it = write_bytes (word_of_nat (dp_size d) :: u16) it;
          it = write_bytes_if (has_flag d kAooBinMsgDataFrames) (word_of_int (dp_total_size d) :: u32) it;
          it = write_bytes_if (has_flag d kAooBinMsgDataFrames) (word_of_nat (dp_num_frames d) :: u16) it;
          it = write_bytes_if (has_flag d kAooBinMsgDataFrames) (word_of_nat (dp_frame_index d) :: u16) it;
          it = write_bytes_if (has_flag d kAooBinMsgDataStreamMessage) (word_of_int (dp_msg_size d) :: u32) it;
          it = write_bytes_if (has_flag d kAooBinMsgDataSampleRate) (dp_samplerate d) it;
          it = write_bytes_if (has_flag d kAooBinMsgDataTimeStamp) (dp_tt d) it;
          hdr = (if has_flag d kAooBinMsgDataLowLatency then
                   (case aoo_lowLatencyPacketHeaderEncode (Some (ll_header stream_id d)) (Some (snd it)) of
                      Inl err \<Rightarrow> None
                    | Inr dest \<Rightarrow> Some (fst it @ take AOO_LOW_LATENCY_PACKET_HEADER_SIZE dest,
                                       drop AOO_LOW_LATENCY_PACKET_HEADER_SIZE dest))
                 else Some it)
      in case hdr of
           None \<Rightarrow> (0, fst it @ snd it)
         | Some it \<Rightarrow>
             let it = (if dp_size d > 0
                       then (fst it @ take (dp_size d) (dp_data d), drop (dp_size d) (snd it)) else it)
             in (length (fst it), fst it @ snd it))"

text \<open>The offset of the low-latency header behind the start of the arguments.\<close>

definition find_low_latency_header :: "data_packet \<Rightarrow> nat option" where
  "find_low_latency_header d =
     (if \<not> has_flag d kAooBinMsgDataLowLatency then None
      else let header = 12;
               header = (if has_flag d kAooBinMsgDataFrames then header + 8 else header);
               header = (if has_flag d kAooBinMsgDataStreamMessage then header + 4 else header);
               header = (if has_flag d kAooBinMsgDataSampleRate then header + 8 else header);
               header = (if has_flag d kAooBinMsgDataTimeStamp then header + 8 else header)
           in Some header)"

text \<open>One message for one sink; \<open>buf\<close> is the uninitialised stack buffer.\<close>

definition send_packet_bin :: "byte list \<Rightarrow> int \<Rightarrow> int \<Rightarrow> int \<Rightarrow> data_packet \<Rightarrow> byte list" where
  "send_packet_bin buf ep_id src_id stream_id d =
     (let (onset, buf) = binmsg_write_header buf kAooMsgTypeSink kAooBinMsgCmdData ep_id src_id;
          (argsize, args) = write_bin_data (drop onset buf) stream_id d
      in take (onset + argsize) (take onset buf @ args))"

record cached_sink =
  cs_id :: int
  cs_stream_id :: int
  cs_channel :: int

text \<open>
  The loop over the sinks: the message is written once behind the space for the largest header,
  and the header, the stream ID and the channel are replaced for every sink.
\<close>

fun send_to_sinks ::
    "cached_sink list \<Rightarrow> int \<Rightarrow> data_packet \<Rightarrow> nat \<Rightarrow> byte list \<Rightarrow> byte list list" where
  "send_to_sinks [] src_id d fin buf = []"
| "send_to_sinks (s # ss) src_id d fin buf =
     (let args = kAooBinMsgLargeHeaderSize;
          large = cs_id s > 255 \<or> src_id > 255;
          start = (if large then 0 else args - kAooBinMsgHeaderSize);
          (n, hdr) = binmsg_write_header (take (args - start) (drop start buf)) kAooMsgTypeSink
                       kAooBinMsgCmdData (cs_id s) src_id;
          buf = put_bytes start hdr buf;
          buf = put_bytes args (to_bytes (word_of_int (cs_stream_id s) :: u32)) buf;
          buf = put_bytes (args + 8) [word_of_int (cs_channel s)] buf;
          buf = (case find_low_latency_header d of
                   None \<Rightarrow> buf
                 | Some header \<Rightarrow>
                     put_bytes (args + header + 12)
                       (to_bytes (ucast (word_of_int (cs_stream_id s) :: u32) :: u64)) buf)
      in take (fin - start) (drop start buf) # send_to_sinks ss src_id d fin buf)"

definition send_packet_binary ::
    "byte list \<Rightarrow> cached_sink list \<Rightarrow> int \<Rightarrow> data_packet \<Rightarrow> byte list list" where
  "send_packet_binary buf sinks src_id d =
     (let (argsize, args) = write_bin_data (drop kAooBinMsgLargeHeaderSize buf) kAooIdInvalid d
      in send_to_sinks sinks src_id d (kAooBinMsgLargeHeaderSize + argsize)
           (take kAooBinMsgLargeHeaderSize buf @ args))"

subsection \<open>Reading\<close>

record net_packet =
  np_stream_id :: int
  np_packet :: data_packet

text \<open>
  The arguments of a binary data message; what is decoded is passed on to \<^verbatim>\<open>handle_data_packet\<close>.
  \<^const>\<open>None\<close> is the jump to the label \<^verbatim>\<open>wrong_size\<close>. The data pointer is the list of the bytes from
  there to the end of the message.
\<close>

definition read_bytes_if :: "bool \<Rightarrow> byte list \<Rightarrow> ('a::len word \<times> byte list) option" where
  "read_bytes_if c it =
     (if c then if length it < size_of TYPE('a word) then None else Some (read_bytes it)
      else Some (0, it))"

definition read_frame_fields :: "bool \<Rightarrow> nat \<Rightarrow> byte list \<Rightarrow> (int \<times> nat \<times> nat \<times> byte list) option" where
  "read_frame_fields frames payload_size it =
     (if frames then
        if length it < 8 then None
        else let (total, it) = read_bytes it;
                 (num, it) = read_bytes it;
                 (index, it) = read_bytes it
             in Some (sint (total :: u32), unat (num :: u16), unat (index :: u16), it)
      else Some (int payload_size, if payload_size > 0 then 1 else 0, 0, it))"

definition read_low_latency :: "int \<Rightarrow> data_packet \<Rightarrow> byte list \<Rightarrow> (data_packet \<times> byte list) option" where
  "read_low_latency stream_id d it =
     (if has_flag d kAooBinMsgDataLowLatency then
        if length it < AOO_LOW_LATENCY_PACKET_HEADER_SIZE then None
        else case aoo_lowLatencyPacketHeaderDecode (Some it) of
            Inl err \<Rightarrow> None
          | Inr h \<Rightarrow>
              if ph_streamId h \<noteq> ucast (word_of_int stream_id :: u32)
                 \<or> ph_sequence h \<noteq> word_of_int (dp_sequence d)
                 \<or> unat (ph_fragmentIndex h) \<noteq> dp_frame_index d
                 \<or> unat (ph_fragmentCount h) \<noteq> dp_num_frames d
                 \<or> ph_payloadBytes h \<noteq> word_of_nat (dp_size d)
              then None
              else Some (d\<lparr> dp_protocol_version := ph_protocolVersion h,
                          dp_transport_profile := ph_profile h,
                          dp_pcm_format := ph_pcmFormat h,
                          dp_absolute_sample_position := ph_absoluteSamplePosition h,
                          dp_source_timestamp := ph_sourceTimestamp h,
                          dp_block_frames := ph_blockFrames h,
                          dp_channel_count := ph_channelCount h \<rparr>,
                        drop AOO_LOW_LATENCY_PACKET_HEADER_SIZE it)
      else Some (d, it))"

definition read_bin_data :: "byte list \<Rightarrow> net_packet option" where
  "read_bin_data msg =
     (if length msg < 12 then None
      else do {
        let (sid, it) = read_bytes msg;
        let (seq, it) = read_bytes it;
        let (chn, it) = read_bytes it;
        let (flg, it) = read_bytes it;
        let (sz, it) = read_bytes it;
        let stream_id = sint (sid :: u32);
        let flags = (ucast (flg :: byte) :: u32);
        let size = unat (sz :: u16);
        (total, num, index, it) \<leftarrow> read_frame_fields (flags AND kAooBinMsgDataFrames \<noteq> 0) size it;
        (msgsize, it) \<leftarrow> read_bytes_if (flags AND kAooBinMsgDataStreamMessage \<noteq> 0) it;
        (sr, it) \<leftarrow> read_bytes_if (flags AND kAooBinMsgDataSampleRate \<noteq> 0) it;
        (tt, it) \<leftarrow> read_bytes_if (flags AND kAooBinMsgDataTimeStamp \<noteq> 0) it;
        (d, it) \<leftarrow> read_low_latency stream_id
          \<lparr> dp_sequence = sint (seq :: u32), dp_channel = uint (chn :: byte), dp_tt = tt,
            dp_samplerate = sr, dp_total_size = total, dp_msg_size = sint (msgsize :: u32),
            dp_num_frames = num, dp_frame_index = index, dp_data = [], dp_frame = None,
            dp_size = size, dp_flags = flags, dp_protocol_version = 0, dp_transport_profile = 0,
            dp_pcm_format = 0, dp_absolute_sample_position = 0, dp_source_timestamp = 0,
            dp_block_frames = 0, dp_channel_count = 0 \<rparr> it;
        if length it < dp_size d then None
        else Some \<lparr> np_stream_id = stream_id, np_packet = d\<lparr> dp_data := it \<rparr> \<rparr> })"

definition handle_data_message_bin :: "byte list \<Rightarrow> AooError + net_packet" where
  "handle_data_message_bin msg =
     (case read_bin_data msg of None \<Rightarrow> Inl kAooErrorBadFormat | Some d \<Rightarrow> Inr d)"

subsection \<open>The wire image of the arguments\<close>

definition args_image :: "int \<Rightarrow> data_packet \<Rightarrow> byte list" where
  "args_image stream_id d =
     to_bytes (word_of_int stream_id :: u32) @ to_bytes (word_of_int (dp_sequence d) :: u32)
     @ to_bytes (word_of_int (dp_channel d) :: byte) @ to_bytes (ucast (dp_flags d) :: byte)
     @ to_bytes (word_of_nat (dp_size d) :: u16)
     @ (if has_flag d kAooBinMsgDataFrames then to_bytes (word_of_int (dp_total_size d) :: u32) else [])
     @ (if has_flag d kAooBinMsgDataFrames then to_bytes (word_of_nat (dp_num_frames d) :: u16) else [])
     @ (if has_flag d kAooBinMsgDataFrames then to_bytes (word_of_nat (dp_frame_index d) :: u16) else [])
     @ (if has_flag d kAooBinMsgDataStreamMessage then to_bytes (word_of_int (dp_msg_size d) :: u32) else [])
     @ (if has_flag d kAooBinMsgDataSampleRate then to_bytes (dp_samplerate d) else [])
     @ (if has_flag d kAooBinMsgDataTimeStamp then to_bytes (dp_tt d) else [])
     @ (if has_flag d kAooBinMsgDataLowLatency then header_image (ll_header stream_id d) else [])
     @ take (dp_size d) (dp_data d)"

text \<open>What the source must ensure: the payload is there, the message fits in the buffer, and the
  low-latency header, if there is one, is valid.\<close>

definition writable :: "nat \<Rightarrow> data_packet \<Rightarrow> bool" where
  "writable n d \<longleftrightarrow> dp_size d \<le> length (dp_data d) \<and>
     40 + AOO_LOW_LATENCY_PACKET_HEADER_SIZE + dp_size d \<le> n \<and>
     (has_flag d kAooBinMsgDataLowLatency \<longrightarrow> validHeaderFields (ll_header 0 d))"

lemmas data_flag_defs =
  kAooBinMsgDataSampleRate_def kAooBinMsgDataFrames_def kAooBinMsgDataStreamMessage_def
  kAooBinMsgDataXRun_def kAooBinMsgDataTimeStamp_def kAooBinMsgDataLowLatency_def

lemma ll_header_valid: "validHeaderFields (ll_header s d) = validHeaderFields (ll_header s' d)"
  by (simp add: validHeaderFields_def ll_header_def)

lemma args_image_length:
  assumes "dp_size d \<le> length (dp_data d)"
  shows "length (args_image sid d) = 12 + (if has_flag d kAooBinMsgDataFrames then 8 else 0)
    + (if has_flag d kAooBinMsgDataStreamMessage then 4 else 0)
    + (if has_flag d kAooBinMsgDataSampleRate then 8 else 0)
    + (if has_flag d kAooBinMsgDataTimeStamp then 8 else 0)
    + (if has_flag d kAooBinMsgDataLowLatency then AOO_LOW_LATENCY_PACKET_HEADER_SIZE else 0)
    + dp_size d"
  using assms by (simp add: args_image_def)

lemma args_image_bound:
  "dp_size d \<le> length (dp_data d) \<Longrightarrow>
   length (args_image sid d) \<le> 40 + AOO_LOW_LATENCY_PACKET_HEADER_SIZE + dp_size d"
  by (simp add: args_image_length)

text \<open>A writing cursor that has written \<open>pre\<close> over the start of a buffer.\<close>

definition cursor :: "byte list \<Rightarrow> byte list \<Rightarrow> writer" where
  "cursor buf pre = (pre, drop (length pre) buf)"

lemma cursor_start: "([], buf) = cursor buf []"
  by (simp add: cursor_def)

lemma write_cursor: "write_bytes (v :: 'a::len word) (cursor buf pre) = cursor buf (pre @ to_bytes v)"
  by (simp add: cursor_def prod_eq_iff add.commute)

lemma write_if_cursor:
  "write_bytes_if c (v :: 'a::len word) (cursor buf pre) = cursor buf (pre @ (if c then to_bytes v else []))"
  by (simp add: write_bytes_if_def write_cursor)

lemma cursor_parts: "fst (cursor buf pre) = pre" "snd (cursor buf pre) = drop (length pre) buf"
  by (simp_all add: cursor_def)

lemma write_bin_data_image:
  assumes "writable (length buffer) d"
  shows "write_bin_data buffer sid d
    = (length (args_image sid d), args_image sid d @ drop (length (args_image sid d)) buffer)"
proof -
  define pre where "pre = to_bytes (word_of_int sid :: u32) @ to_bytes (word_of_int (dp_sequence d) :: u32)
     @ to_bytes (word_of_int (dp_channel d) :: byte) @ to_bytes (ucast (dp_flags d) :: byte)
     @ to_bytes (word_of_nat (dp_size d) :: u16)
     @ (if has_flag d kAooBinMsgDataFrames then to_bytes (word_of_int (dp_total_size d) :: u32) else [])
     @ (if has_flag d kAooBinMsgDataFrames then to_bytes (word_of_nat (dp_num_frames d) :: u16) else [])
     @ (if has_flag d kAooBinMsgDataFrames then to_bytes (word_of_nat (dp_frame_index d) :: u16) else [])
     @ (if has_flag d kAooBinMsgDataStreamMessage then to_bytes (word_of_int (dp_msg_size d) :: u32) else [])
     @ (if has_flag d kAooBinMsgDataSampleRate then to_bytes (dp_samplerate d) else [])
     @ (if has_flag d kAooBinMsgDataTimeStamp then to_bytes (dp_tt d) else [])"
  let ?h = "if has_flag d kAooBinMsgDataLowLatency then header_image (ll_header sid d) else []"
  have img: "args_image sid d = pre @ ?h @ take (dp_size d) (dp_data d)"
    by (simp add: args_image_def pre_def)
  have v: "has_flag d kAooBinMsgDataLowLatency \<Longrightarrow> validHeaderFields (ll_header sid d)"
    using assms ll_header_valid [of sid d 0] by (simp add: writable_def)
  have len: "length pre \<le> 40"
    by (simp add: pre_def)
  then have sz: "AOO_LOW_LATENCY_PACKET_HEADER_SIZE \<le> length (drop (length pre) buffer)"
    "dp_size d \<le> length (dp_data d)"
    using assms by (auto simp: writable_def)
  have enc: "(if has_flag d kAooBinMsgDataLowLatency then
        (case aoo_lowLatencyPacketHeaderEncode (Some (ll_header sid d)) (Some (drop (length pre) buffer)) of
           Inl err \<Rightarrow> None
         | Inr dest \<Rightarrow> Some (pre @ take AOO_LOW_LATENCY_PACKET_HEADER_SIZE dest,
                            drop AOO_LOW_LATENCY_PACKET_HEADER_SIZE dest))
      else Some (cursor buffer pre)) = Some (cursor buffer (pre @ ?h))"
    using v encode_header_image [OF sz(1)] by (simp add: cursor_def add.commute)
  have "write_bin_data buffer sid d
      = (let it = (if dp_size d > 0
           then (pre @ ?h @ take (dp_size d) (dp_data d), drop (dp_size d) (drop (length (pre @ ?h)) buffer))
           else cursor buffer (pre @ ?h)) in (length (fst it), fst it @ snd it))"
    unfolding write_bin_data_def Let_def cursor_start write_cursor write_if_cursor append_assoc append_Nil cursor_parts
      pre_def [symmetric] enc option.case
    by (simp add: cursor_parts)
  also have "\<dots> = (length (args_image sid d), args_image sid d @ drop (length (args_image sid d)) buffer)"
    using sz(2) by (simp add: img cursor_def Let_def add.commute add.left_commute)
  finally show ?thesis .
qed

subsection \<open>Reading back\<close>

text \<open>A packet that the wire format can carry: every number in the range of its field, and a field
  that is not sent has the value the reader assumes.\<close>

definition packet_wf :: "data_packet \<Rightarrow> bool" where
  "packet_wf d \<longleftrightarrow>
     - (2 ^ 31) \<le> dp_sequence d \<and> dp_sequence d < 2 ^ 31 \<and> 0 \<le> dp_channel d \<and> dp_channel d < 256 \<and>
     dp_flags d < 256 \<and> dp_size d < 2 ^ 16 \<and> - (2 ^ 31) \<le> dp_total_size d \<and> dp_total_size d < 2 ^ 31 \<and> dp_num_frames d < 2 ^ 16 \<and>
     dp_frame_index d < 2 ^ 16 \<and> - (2 ^ 31) \<le> dp_msg_size d \<and> dp_msg_size d < 2 ^ 31 \<and> dp_size d \<le> length (dp_data d) \<and>
     dp_frame d = None \<and>
     (has_flag d kAooBinMsgDataFrames \<or>
        dp_total_size d = int (dp_size d) \<and> dp_num_frames d = (if dp_size d > 0 then 1 else 0) \<and> dp_frame_index d = 0) \<and>
     (has_flag d kAooBinMsgDataStreamMessage \<or> dp_msg_size d = 0) \<and>
     (has_flag d kAooBinMsgDataSampleRate \<or> dp_samplerate d = 0) \<and>
     (has_flag d kAooBinMsgDataTimeStamp \<or> dp_tt d = 0) \<and>
     (if has_flag d kAooBinMsgDataLowLatency then validHeaderFields (ll_header 0 d)
      else dp_protocol_version d = 0 \<and> dp_transport_profile d = 0 \<and> dp_pcm_format d = 0 \<and>
        dp_absolute_sample_position d = 0 \<and> dp_source_timestamp d = 0 \<and> dp_block_frames d = 0 \<and>
        dp_channel_count d = 0)"

lemma flags_byte: "(f :: u32) < 256 \<Longrightarrow> ucast (ucast f :: byte) = f"
  by (simp add: word_unat_eq_iff unsigned_ucast_eq unsigned_take_bit_eq take_bit_nat_eq_self word_less_nat_alt)

lemma read_bytes_if_image:
  assumes "8 dvd LENGTH('a::len)" and "c \<or> v = (0 :: 'a word)"
  shows "read_bytes_if c ((if c then to_bytes v else []) @ rest) = Some (v, rest)"
  using assms by (auto simp: read_bytes_if_def read_bytes_append)

lemma sint_u32_id: "- (2 ^ 31) \<le> i \<Longrightarrow> i < 2 ^ 31 \<Longrightarrow> sint (word_of_int i :: u32) = i"
  by (simp add: sint_sbintrunc' signed_take_bit_int_eq_self)

lemma read_frame_fields_image:
  assumes "- (2 ^ 31) \<le> t" "t < 2 ^ 31" "n < 2 ^ 16" "i < 2 ^ 16"
    and "c \<or> t = int sz \<and> n = (if sz > 0 then 1 else 0) \<and> i = 0"
  shows "read_frame_fields c sz
      ((if c then to_bytes (word_of_int t :: u32) else []) @
       (if c then to_bytes (word_of_nat n :: u16) else []) @
       (if c then to_bytes (word_of_nat i :: u16) else []) @ rest) = Some (t, n, i, rest)"
  using assms by (cases c) (auto simp: read_frame_fields_def read_bytes_append unat_of_nat sint_u32_id)

lemma read_low_latency_image:
  assumes "if has_flag d kAooBinMsgDataLowLatency then validHeaderFields (ll_header sid d) else True"
    and "dp_frame_index d < 2 ^ 16" "dp_num_frames d < 2 ^ 16" "dp_size d < 2 ^ 16" "dp_size d \<le> length rest"
    and "d0 = (if has_flag d kAooBinMsgDataLowLatency then
        d\<lparr> dp_protocol_version := 0, dp_transport_profile := 0, dp_pcm_format := 0,
          dp_absolute_sample_position := 0, dp_source_timestamp := 0,
          dp_block_frames := 0, dp_channel_count := 0 \<rparr> else d)"
  shows "read_low_latency sid d0
      ((if has_flag d kAooBinMsgDataLowLatency then header_image (ll_header sid d) else []) @ rest)
    = Some (d, rest)"
proof (cases "has_flag d kAooBinMsgDataLowLatency")
  case True
  have "unat (ph_payloadBytes (ll_header sid d)) \<le> length rest"
    using assms(4,5) by (simp add: ll_header_def unat_of_nat)
  then have dec: "aoo_lowLatencyPacketHeaderDecode (Some (header_image (ll_header sid d) @ rest)) = Inr (ll_header sid d)"
    using True assms(1) by (auto simp: decode_header_eq)
  then show ?thesis
    using True assms(2-4,6) by (simp add: read_low_latency_def dec) (simp add: ll_header_def unat_of_nat)
next
  case False
  then show ?thesis using assms(6) by (simp add: read_low_latency_def)
qed

lemma read_args_image:
  assumes wf: "packet_wf d" and sid: "- (2 ^ 31) \<le> sid" "sid < 2 ^ 31"
  shows "read_bin_data (args_image sid d)
    = Some \<lparr> np_stream_id = sid, np_packet = d\<lparr> dp_data := take (dp_size d) (dp_data d) \<rparr> \<rparr>"
proof -
  let ?pay = "take (dp_size d) (dp_data d)"
  let ?ll = "(if has_flag d kAooBinMsgDataLowLatency then header_image (ll_header sid d) else []) @ ?pay"
  define d1 where "d1 = d\<lparr> dp_data := [] \<rparr>"
  let ?d0 = "\<lparr> dp_sequence = dp_sequence d, dp_channel = dp_channel d, dp_tt = dp_tt d,
            dp_samplerate = dp_samplerate d, dp_total_size = dp_total_size d, dp_msg_size = dp_msg_size d,
            dp_num_frames = dp_num_frames d, dp_frame_index = dp_frame_index d, dp_data = [], dp_frame = None,
            dp_size = dp_size d, dp_flags = dp_flags d, dp_protocol_version = 0, dp_transport_profile = 0,
            dp_pcm_format = 0, dp_absolute_sample_position = 0, dp_source_timestamp = 0,
            dp_block_frames = 0, dp_channel_count = 0 \<rparr>"
  have low: "read_low_latency sid ?d0 ?ll = Some (d1, ?pay)"
  proof -
    have h: "ll_header sid d1 = ll_header sid d" "has_flag d1 f = has_flag d f" for f
      by (simp_all add: d1_def ll_header_def)
    show ?thesis
      using wf ll_header_valid [of 0 d sid]
      unfolding h [symmetric] packet_wf_def
      by (intro read_low_latency_image) (auto simp: d1_def ll_header_def split: if_splits)
  qed
  have len: "\<not> length (args_image sid d) < 12"
    using wf by (simp add: args_image_length packet_wf_def)
  have conv: "ucast (ucast (dp_flags d) :: byte) = dp_flags d"
    "sint (word_of_int sid :: u32) = sid" "sint (word_of_int (dp_sequence d) :: u32) = dp_sequence d"
    "uint (word_of_int (dp_channel d) :: byte) = dp_channel d"
    "unat (word_of_nat (dp_size d) :: u16) = dp_size d"
    "sint (word_of_int (dp_msg_size d) :: u32) = dp_msg_size d"
    using wf sid by (auto simp: packet_wf_def flags_byte sint_u32_id uint_word_of_int unat_of_nat)
  have opt: "has_flag d kAooBinMsgDataStreamMessage \<or> (word_of_int (dp_msg_size d) :: u32) = 0"
    "has_flag d kAooBinMsgDataSampleRate \<or> dp_samplerate d = 0"
    "has_flag d kAooBinMsgDataTimeStamp \<or> dp_tt d = 0"
    using wf by (auto simp: packet_wf_def)
  have fr: "- (2 ^ 31) \<le> dp_total_size d" "dp_total_size d < 2 ^ 31" "dp_num_frames d < 2 ^ 16" "dp_frame_index d < 2 ^ 16"
    "has_flag d kAooBinMsgDataFrames \<or> dp_total_size d = int (dp_size d) \<and>
       dp_num_frames d = (if dp_size d > 0 then 1 else 0) \<and> dp_frame_index d = 0"
    using wf by (auto simp: packet_wf_def)
  note stages = read_frame_fields_image [OF fr] read_bytes_if_image [OF _ opt(1)]
    read_bytes_if_image [OF _ opt(2)] read_bytes_if_image [OF _ opt(3)]
  show ?thesis
    using len wf unfolding read_bin_data_def
    by (simp add: args_image_def read_bytes_append conv stages low)
       (simp add: d1_def packet_wf_def)
qed

subsection \<open>Whole messages\<close>

abbreviation data_header :: "int \<Rightarrow> int \<Rightarrow> byte list" where
  "data_header ep_id src_id \<equiv> binmsg_header_image kAooMsgTypeSink kAooBinMsgCmdData ep_id src_id"

lemma send_packet_bin_image:
  assumes "kAooBinMsgLargeHeaderSize \<le> length buf" and "writable (length buf - kAooBinMsgLargeHeaderSize) d"
  shows "send_packet_bin buf ep_id src_id sid d = data_header ep_id src_id @ args_image sid d"
proof -
  let ?h = "data_header ep_id src_id"
  have l: "length ?h \<le> 12" by (simp add: binmsg_header_image_length)
  then have "writable (length (drop (length ?h) buf)) d"
    using assms by (auto simp: writable_def kAooBinMsgLargeHeaderSize_def)
  note w = write_bin_data_image [OF this, of sid]
  have "binmsg_write_header buf kAooMsgTypeSink kAooBinMsgCmdData ep_id src_id
      = (length ?h, ?h @ drop (length ?h) buf)"
    using l assms(1) by (intro binmsg_write_header_image) (simp add: kAooBinMsgLargeHeaderSize_def)
  then show ?thesis
    by (simp add: send_packet_bin_def w)
qed

lemma put_bytes_mid:
  "length pre = pos \<Longrightarrow> length old = length new \<Longrightarrow> put_bytes pos new (pre @ old @ rest) = pre @ new @ rest"
  by (simp add: put_bytes_def)

text \<open>Patching the image for another stream and channel.\<close>

definition args_tail :: "data_packet \<Rightarrow> byte list" where
  "args_tail d = to_bytes (ucast (dp_flags d) :: byte) @ to_bytes (word_of_nat (dp_size d) :: u16)
     @ (if has_flag d kAooBinMsgDataFrames then to_bytes (word_of_int (dp_total_size d) :: u32) else [])
     @ (if has_flag d kAooBinMsgDataFrames then to_bytes (word_of_nat (dp_num_frames d) :: u16) else [])
     @ (if has_flag d kAooBinMsgDataFrames then to_bytes (word_of_nat (dp_frame_index d) :: u16) else [])
     @ (if has_flag d kAooBinMsgDataStreamMessage then to_bytes (word_of_int (dp_msg_size d) :: u32) else [])
     @ (if has_flag d kAooBinMsgDataSampleRate then to_bytes (dp_samplerate d) else [])
     @ (if has_flag d kAooBinMsgDataTimeStamp then to_bytes (dp_tt d) else [])"

definition header_front :: "data_packet \<Rightarrow> byte list" where
  "header_front d = kMagic @ to_bytes (dp_protocol_version d)
     @ to_bytes (word_of_nat AOO_LOW_LATENCY_PACKET_HEADER_SIZE :: u16)
     @ to_bytes (dp_transport_profile d) @ to_bytes (dp_pcm_format d) @ to_bytes (0 :: u16)"

definition header_back :: "data_packet \<Rightarrow> byte list" where
  "header_back d = to_bytes (word_of_int (dp_sequence d) :: u32)
     @ to_bytes (dp_absolute_sample_position d) @ to_bytes (dp_source_timestamp d)
     @ to_bytes (dp_block_frames d) @ to_bytes (word_of_nat (dp_frame_index d) :: u16)
     @ to_bytes (word_of_nat (dp_num_frames d) :: u16) @ to_bytes (dp_channel_count d)
     @ to_bytes (word_of_nat (dp_size d) :: u32)"

lemma args_image_split:
  "args_image sid (d\<lparr> dp_channel := c \<rparr>) =
     to_bytes (word_of_int sid :: u32) @ to_bytes (word_of_int (dp_sequence d) :: u32)
     @ to_bytes (word_of_int c :: byte) @ args_tail d
     @ (if has_flag d kAooBinMsgDataLowLatency
        then header_front d @ to_bytes (ucast (word_of_int sid :: u32) :: u64) @ header_back d else [])
     @ take (dp_size d) (dp_data d)"
  by (simp add: args_image_def args_tail_def header_image_def ll_header_def header_front_def header_back_def)

lemma to_bytes_byte: "to_bytes (b :: byte) = [b]"
proof -
  have "to_bytes b = rev (le_bytes 1 (unat b))" by (simp add: to_bytes_on_be)
  then show ?thesis by (simp add: le_bytes_Suc le_bytes_def numeral_eq_Suc)
qed

lemma find_low_latency_header_pos:
  "has_flag d kAooBinMsgDataLowLatency \<Longrightarrow> find_low_latency_header d = Some (9 + length (args_tail d))"
  "\<not> has_flag d kAooBinMsgDataLowLatency \<Longrightarrow> find_low_latency_header d = None"
  by (simp_all add: find_low_latency_header_def args_tail_def Let_def)

lemma header_front_length: "length (header_front d) = 12"
  by (simp add: header_front_def)

lemma patch_args:
  fixes pre :: "byte list"
  assumes pre: "length pre = 12"
  shows "(case find_low_latency_header d of
       None \<Rightarrow> put_bytes (12 + 8) [word_of_int c']
         (put_bytes 12 (to_bytes (word_of_int s' :: u32)) (pre @ args_image s (d\<lparr> dp_channel := c \<rparr>) @ rest))
     | Some header \<Rightarrow> put_bytes (12 + header + 12) (to_bytes (ucast (word_of_int s' :: u32) :: u64))
         (put_bytes (12 + 8) [word_of_int c']
           (put_bytes 12 (to_bytes (word_of_int s' :: u32)) (pre @ args_image s (d\<lparr> dp_channel := c \<rparr>) @ rest))))
    = pre @ args_image s' (d\<lparr> dp_channel := c' \<rparr>) @ rest"
proof -
  let ?ll = "\<lambda>s. if has_flag d kAooBinMsgDataLowLatency
        then header_front d @ to_bytes (ucast (word_of_int s :: u32) :: u64) @ header_back d else []"
  let ?sq = "to_bytes (word_of_int (dp_sequence d) :: u32)" and ?pay = "take (dp_size d) (dp_data d)"
  let ?x = "\<lambda>s. to_bytes (word_of_int s :: u32)"
  have 1: "put_bytes 12 (?x s') (pre @ args_image s (d\<lparr> dp_channel := c \<rparr>) @ rest)
      = pre @ ?x s' @ ?sq @ [word_of_int c] @ args_tail d @ ?ll s @ ?pay @ rest"
    unfolding args_image_split append_assoc to_bytes_byte by (rule put_bytes_mid) (simp_all add: pre)
  have 2: "put_bytes (12 + 8) [word_of_int c'] (pre @ ?x s' @ ?sq @ [word_of_int c] @ args_tail d @ ?ll s @ ?pay @ rest)
      = pre @ ?x s' @ ?sq @ [word_of_int c'] @ args_tail d @ ?ll s @ ?pay @ rest"
    using put_bytes_mid [of "pre @ ?x s' @ ?sq" "12 + 8" "[word_of_int c]" "[word_of_int c']"
        "args_tail d @ ?ll s @ ?pay @ rest"] pre by simp
  show ?thesis
  proof (cases "has_flag d kAooBinMsgDataLowLatency")
    case True
    have "put_bytes (12 + (9 + length (args_tail d)) + 12) (to_bytes (ucast (word_of_int s' :: u32) :: u64))
        ((pre @ ?x s' @ ?sq @ [word_of_int c'] @ args_tail d @ header_front d)
          @ to_bytes (ucast (word_of_int s :: u32) :: u64) @ header_back d @ ?pay @ rest)
        = (pre @ ?x s' @ ?sq @ [word_of_int c'] @ args_tail d @ header_front d)
          @ to_bytes (ucast (word_of_int s' :: u32) :: u64) @ header_back d @ ?pay @ rest"
      by (rule put_bytes_mid) (simp_all add: pre header_front_length)
    then show ?thesis
      unfolding find_low_latency_header_pos(1) [OF True] option.case 1 2
      using True by (simp add: args_image_split to_bytes_byte)
  next
    case False
    then show ?thesis
      unfolding find_low_latency_header_pos(2) [OF False] option.case 1 2
      using False by (simp add: args_image_split to_bytes_byte)
  qed
qed

lemma writable_channel: "writable n (d\<lparr> dp_channel := c \<rparr>) = writable n d"
  by (simp add: writable_def ll_header_def)

lemma args_image_length_eq:
  "dp_size d \<le> length (dp_data d) \<Longrightarrow>
   length (args_image s (d\<lparr> dp_channel := c \<rparr>)) = length (args_image s' (d\<lparr> dp_channel := c' \<rparr>))"
  by (simp add: args_image_length)

lemma send_to_sinks_image:
  assumes "length pre = 12" and "dp_size d \<le> length (dp_data d)"
    and "fin = 12 + length (args_image s (d\<lparr> dp_channel := c \<rparr>))"
  shows "send_to_sinks sinks src_id d fin (pre @ args_image s (d\<lparr> dp_channel := c \<rparr>) @ rest)
    = map (\<lambda>x. data_header (cs_id x) src_id @ args_image (cs_stream_id x) (d\<lparr> dp_channel := cs_channel x \<rparr>)) sinks"
  using assms
proof (induction sinks arbitrary: pre s c)
  case Nil
  then show ?case by simp
next
  case (Cons x sinks)
  let ?h = "data_header (cs_id x) src_id"
  define start where "start = (if cs_id x > 255 \<or> src_id > 255 then 0 else 8 :: nat)"
  define buf where "buf = pre @ args_image s (d\<lparr> dp_channel := c \<rparr>) @ rest"
  define pre' where "pre' = take start pre @ ?h"
  have hl: "length ?h = 12 - start" "start \<le> 12"
    by (auto simp: binmsg_header_image_length start_def)
  have pre': "length pre' = 12"
    using Cons.prems(1) hl by (simp add: pre'_def)
  have "length (take (12 - start) (drop start buf)) = length ?h"
    using Cons.prems(1) hl by (simp add: buf_def)
  then have w: "binmsg_write_header (take (12 - start) (drop start buf)) kAooMsgTypeSink kAooBinMsgCmdData (cs_id x) src_id
      = (length ?h, ?h)"
    by (subst binmsg_write_header_image) simp_all
  have p1: "put_bytes start ?h buf = pre' @ args_image s (d\<lparr> dp_channel := c \<rparr>) @ rest"
    using Cons.prems(1) hl by (simp add: put_bytes_def buf_def pre'_def)
  let ?img = "args_image (cs_stream_id x) (d\<lparr> dp_channel := cs_channel x \<rparr>)"
  have len: "fin = 12 + length ?img"
    using Cons.prems(3) args_image_length_eq [OF Cons.prems(2)] by metis
  have out: "take (fin - start) (drop start (pre' @ ?img @ rest)) = ?h @ ?img"
  proof -
    have "length (take start pre) = start" using Cons.prems(1) hl(2) by simp
    then have "drop start (pre' @ ?img @ rest) = ?h @ ?img @ rest"
      by (simp add: pre'_def)
    moreover have "fin - start = length (?h @ ?img)"
      using len hl by simp
    ultimately show ?thesis by simp
  qed
  have "send_to_sinks (x # sinks) src_id d fin buf
      = (?h @ ?img) # send_to_sinks sinks src_id d fin (pre' @ ?img @ rest)"
  proof -
    have st: "(if cs_id x > 255 \<or> src_id > 255 then 0 else kAooBinMsgLargeHeaderSize - kAooBinMsgHeaderSize) = start"
      by (simp add: start_def kAooBinMsgLargeHeaderSize_def kAooBinMsgHeaderSize_def)
    have patch: "(case find_low_latency_header d of
        None \<Rightarrow> put_bytes (kAooBinMsgLargeHeaderSize + 8) [word_of_int (cs_channel x)]
          (put_bytes kAooBinMsgLargeHeaderSize (to_bytes (word_of_int (cs_stream_id x) :: u32)) (put_bytes start ?h buf))
      | Some header \<Rightarrow> put_bytes (kAooBinMsgLargeHeaderSize + header + 12)
          (to_bytes (ucast (word_of_int (cs_stream_id x) :: u32) :: u64))
          (put_bytes (kAooBinMsgLargeHeaderSize + 8) [word_of_int (cs_channel x)]
            (put_bytes kAooBinMsgLargeHeaderSize (to_bytes (word_of_int (cs_stream_id x) :: u32)) (put_bytes start ?h buf))))
      = pre' @ ?img @ rest"
      unfolding p1 kAooBinMsgLargeHeaderSize_def by (rule patch_args [OF pre'])
    have w': "binmsg_write_header (take (kAooBinMsgLargeHeaderSize - start) (drop start buf)) kAooMsgTypeSink
        kAooBinMsgCmdData (cs_id x) src_id = (length ?h, ?h)"
      using w by (simp add: kAooBinMsgLargeHeaderSize_def)
    show ?thesis
      unfolding send_to_sinks.simps Let_def st w' prod.case patch out by (rule refl)
  qed
  then show ?case
    using Cons.IH [OF pre' Cons.prems(2) len] by (simp add: buf_def)
qed

subsection \<open>Properties\<close>

text \<open>
  C2. What the source sends is what the sink receives: the message addresses the sink, names the source,
  and its arguments decode to the same packet with the same payload, for every combination of the
  optional fields.
\<close>

theorem data_message_roundtrip:
  assumes wf: "packet_wf d" and sid: "- (2 ^ 31) \<le> sid" "sid < 2 ^ 31"
    and ids: "0 \<le> ep_id" "ep_id < 2 ^ 31" "0 \<le> src_id" "src_id < 2 ^ 31"
    and fits: "kBinDataHeaderSize + dp_size d \<le> length buf"
  defines "msg \<equiv> send_packet_bin buf ep_id src_id sid d"
  shows "binmsg_check msg \<and> binmsg_type msg = kAooMsgTypeSink \<and> binmsg_to msg = ep_id \<and>
    binmsg_from msg = Some src_id \<and>
    handle_data_message_bin (drop (binmsg_headersize msg) msg)
      = Inr \<lparr> np_stream_id = sid, np_packet = d\<lparr> dp_data := take (dp_size d) (dp_data d) \<rparr> \<rparr>"
proof -
  let ?h = "data_header ep_id src_id"
  have w: "writable (length buf - kAooBinMsgLargeHeaderSize) d" "kAooBinMsgLargeHeaderSize \<le> length buf"
    using wf fits by (auto simp: writable_def packet_wf_def kBinDataHeaderSize_def split: if_splits)
  have msg: "msg = ?h @ args_image sid d"
    unfolding msg_def by (rule send_packet_bin_image [OF w(2,1)])
  have "binmsg_write_header (?h @ args_image sid d) kAooMsgTypeSink kAooBinMsgCmdData ep_id src_id = (length ?h, msg)"
    using binmsg_write_header_image [of kAooMsgTypeSink kAooBinMsgCmdData ep_id src_id "?h @ args_image sid d"]
    by (simp add: msg)
  then have "binmsg_check msg \<and> binmsg_type msg = kAooMsgTypeSink \<and> binmsg_to msg = ep_id \<and>
      binmsg_from msg = Some src_id \<and> binmsg_headersize msg = length ?h"
    using ids by (auto dest!: binmsg_header_fields [rotated 7]
        simp: binmsg_header_image_length kAooMsgTypeSink_def kAooBinMsgCmdData_def)
  then show ?thesis
    using read_args_image [OF wf sid] by (simp add: msg handle_data_message_bin_def)
qed

definition example_packet :: data_packet where
  "example_packet = (sample_packet 5 [1, 2, 3] 1)\<lparr> dp_size := 3, dp_tt := 7, dp_flags := 0x10 \<rparr>"

lemma example_packet_wf: "packet_wf example_packet"
  by (simp add: packet_wf_def example_packet_def sample_packet_def data_flag_defs)

theorem data_message_roundtrip_witness:
  "handle_data_message_bin
     (drop (binmsg_headersize (send_packet_bin (replicate 4096 0) 300 2 9 example_packet))
        (send_packet_bin (replicate 4096 0) 300 2 9 example_packet))
   = Inr \<lparr> np_stream_id = 9, np_packet = example_packet \<rparr>"
  using data_message_roundtrip [of example_packet 9 300 2 "replicate 4096 0"] example_packet_wf
  by (simp add: kBinDataHeaderSize_def kAooBinMsgLargeHeaderSize_def ll_const_defs example_packet_def
      sample_packet_def)

text \<open>
  C21. \<^verbatim>\<open>send_packet\<close> serialises a packet once and then overwrites the header, the stream ID, the channel
  and the stream ID in the low-latency header for each sink. Every sink gets the message that
  \<^verbatim>\<open>send_packet_bin\<close> would have built for it alone, whatever was in the buffers before.
\<close>

theorem send_packet_equals_reference:
  assumes "dp_size d \<le> length (dp_data d)" and "kBinDataHeaderSize + dp_size d \<le> length buf"
    and "length buf' = length buf"
    and "has_flag d kAooBinMsgDataLowLatency \<longrightarrow> validHeaderFields (ll_header 0 d)"
  shows "send_packet_binary buf sinks src_id d
    = map (\<lambda>s. send_packet_bin buf' (cs_id s) src_id (cs_stream_id s) (d\<lparr> dp_channel := cs_channel s \<rparr>)) sinks"
proof -
  have w: "writable (length buf - kAooBinMsgLargeHeaderSize) d" "kAooBinMsgLargeHeaderSize \<le> length buf"
    using assms by (auto simp: writable_def kBinDataHeaderSize_def)
  have img: "args_image kAooIdInvalid d = args_image kAooIdInvalid (d\<lparr> dp_channel := dp_channel d \<rparr>)"
    by simp
  have "send_packet_binary buf sinks src_id d
      = map (\<lambda>x. data_header (cs_id x) src_id @ args_image (cs_stream_id x) (d\<lparr> dp_channel := cs_channel x \<rparr>)) sinks"
  proof -
    have "writable (length (drop kAooBinMsgLargeHeaderSize buf)) d" using w by simp
    note wb = write_bin_data_image [OF this, of kAooIdInvalid]
    show ?thesis
      unfolding send_packet_binary_def wb Let_def prod.case img
      using w(2) assms(1) by (intro send_to_sinks_image) (simp_all add: kAooBinMsgLargeHeaderSize_def)
  qed
  also have "\<dots> = map (\<lambda>s. send_packet_bin buf' (cs_id s) src_id (cs_stream_id s) (d\<lparr> dp_channel := cs_channel s \<rparr>)) sinks"
    using w assms(3) by (simp add: send_packet_bin_image writable_channel)
  finally show ?thesis .
qed

theorem send_packet_equals_reference_witness:
  "send_packet_binary (replicate 4096 0) [\<lparr> cs_id = 1, cs_stream_id = 7, cs_channel = 2 \<rparr>,
       \<lparr> cs_id = 500, cs_stream_id = 8, cs_channel = 0 \<rparr>] 3 example_packet
   = [send_packet_bin (replicate 4096 1) 1 3 7 (example_packet\<lparr> dp_channel := 2 \<rparr>),
      send_packet_bin (replicate 4096 1) 500 3 8 (example_packet\<lparr> dp_channel := 0 \<rparr>)]"
  by (subst send_packet_equals_reference [where buf' = "replicate 4096 1"])
     (simp_all add: example_packet_def sample_packet_def kBinDataHeaderSize_def
       kAooBinMsgLargeHeaderSize_def ll_const_defs data_flag_defs)

text \<open>
  A data message never exceeds the packet size: with at most \<open>packet_size - kBinDataHeaderSize\<close> bytes of
  payload, the message with the large header and every optional field fits.
\<close>

theorem data_message_fits:
  assumes "dp_size d \<le> length (dp_data d)" and "dp_size d + kBinDataHeaderSize \<le> packet_size"
    and "packet_size \<le> AOO_MAX_PACKET_SIZE" and "length buf = AOO_MAX_PACKET_SIZE"
    and "has_flag d kAooBinMsgDataLowLatency \<longrightarrow> validHeaderFields (ll_header 0 d)"
  shows "length (send_packet_bin buf ep_id src_id sid d) \<le> packet_size"
proof -
  have "writable (length buf - kAooBinMsgLargeHeaderSize) d" "kAooBinMsgLargeHeaderSize \<le> length buf"
    using assms by (auto simp: writable_def kBinDataHeaderSize_def)
  then have "send_packet_bin buf ep_id src_id sid d = data_header ep_id src_id @ args_image sid d"
    by (rule send_packet_bin_image [rotated])
  then show ?thesis
    using args_image_bound [OF assms(1), of sid] assms(2)
    by (simp add: binmsg_header_image_length kBinDataHeaderSize_def kAooBinMsgLargeHeaderSize_def)
qed

theorem data_message_fits_witness:
  "length (send_packet_bin (replicate 4096 0) 1 2 3 example_packet) \<le> 512"
  using data_message_fits [of example_packet 512 "replicate 4096 0" 1 2 3]
  by (simp add: example_packet_def sample_packet_def kBinDataHeaderSize_def
       kAooBinMsgLargeHeaderSize_def ll_const_defs data_flag_defs AOO_MAX_PACKET_SIZE_def)

end
