(* ===== verification/Resampler.thy ===== *)
theory Resampler
  imports Prelude Complex_Main "HOL-Library.Monad_Syntax"
begin

text \<open>
  \<^verbatim>\<open>aoo/src/resampler.cpp\<close>: the resampler between the decoder (or the audio callback of a source)
  and its reader. It is a ring buffer of interleaved frames, written in blocks of one size and read
  in blocks of another, at a fractional position when the sample rates differ.

  Samples, sample rates and positions are real numbers, so rounding is not modelled. The memory of
  the buffer is a list; the member \<^verbatim>\<open>buffer_\<close> points \<open>rs_base\<close> samples into it, and every access goes
  through a bounds check that fails with \<open>None\<close>.

  The theorems relate the ring buffer to the stream of all the frames ever written: a write extends the
  stream, a read of \<open>n\<close> frames returns the interpolation of the stream at the next \<open>n\<close> positions,
  however the blocks were cut and wherever the buffer wraps around.
\<close>

subsection \<open>Definitions\<close>

datatype AooResampleMethod =
  kAooResampleHold | kAooResampleLinear | kAooResampleCubic | kAooResampleMethodEnd

datatype resample_method = method_none | method_skip | method_hold | method_linear | method_cubic

record dynamic_resampler =
  rs_buffer :: "real list option"
  rs_base :: int
  rs_size :: int
  rs_nchannels :: int
  rs_latency :: int
  rs_method :: resample_method
  rs_bypass :: bool
  rs_fixed_sr :: bool
  rs_wrpos :: int
  rs_rdpos :: real
  rs_balance :: real
  rs_advance :: real
  rs_ideal_ratio :: real

definition latency_linear :: int where "latency_linear = 1"
definition latency_cubic :: int where "latency_cubic = 2"
definition buffer_shift :: int where "buffer_shift = 1"
definition extra_space :: int where "extra_space = 3"

lemmas resampler_consts = latency_linear_def latency_cubic_def buffer_shift_def extra_space_def

definition resampler_new :: dynamic_resampler where
  "resampler_new = \<lparr> rs_buffer = None, rs_base = 0, rs_size = 0, rs_nchannels = 0, rs_latency = 0,
     rs_method = method_none, rs_bypass = False, rs_fixed_sr = False, rs_wrpos = 0, rs_rdpos = 0,
     rs_balance = 0, rs_advance = 1, rs_ideal_ratio = 1 \<rparr>"

text \<open>The conversion from floating point to integer truncates.\<close>

definition trunc :: "real \<Rightarrow> int" where
  "trunc x = (if x < 0 then \<lceil>x\<rceil> else \<lfloor>x\<rfloor>)"

text \<open>Copying samples to \<open>buffer_ + off\<close>, reading \<open>buffer_[k]\<close>, copying samples from \<open>buffer_ + off\<close>.\<close>

definition splice :: "nat \<Rightarrow> 'a list \<Rightarrow> 'a list \<Rightarrow> 'a list" where
  "splice a xs m = take a m @ xs @ drop (a + length xs) m"

definition buf_put :: "int \<Rightarrow> real list \<Rightarrow> dynamic_resampler \<Rightarrow> dynamic_resampler option" where
  "buf_put off xs rs = do {
     m \<leftarrow> rs_buffer rs;
     let a = rs_base rs + off;
     if 0 \<le> a \<and> a + int (length xs) \<le> int (length m)
     then Some (rs\<lparr> rs_buffer := Some (splice (nat a) xs m) \<rparr>) else None }"

definition buf_at :: "dynamic_resampler \<Rightarrow> int \<Rightarrow> real option" where
  "buf_at rs k = do {
     m \<leftarrow> rs_buffer rs;
     let a = rs_base rs + k;
     if 0 \<le> a \<and> a < int (length m) then Some (m ! nat a) else None }"

definition buf_get :: "int \<Rightarrow> int \<Rightarrow> dynamic_resampler \<Rightarrow> real list option" where
  "buf_get off n rs = do {
     m \<leftarrow> rs_buffer rs;
     let a = rs_base rs + off;
     if 0 \<le> a \<and> a + n \<le> int (length m) then Some (take (nat n) (drop (nat a) m)) else None }"

definition buf_fill :: "int \<Rightarrow> int \<Rightarrow> dynamic_resampler \<Rightarrow> dynamic_resampler option" where
  "buf_fill off n rs = buf_put off (replicate (nat n) 0) rs"

text \<open>Freeing the buffer undoes the shift; it fails when that is not the address that was allocated.\<close>

definition free_buffer :: "dynamic_resampler \<Rightarrow> dynamic_resampler option" where
  "free_buffer rs =
     (case rs_buffer rs of
        None \<Rightarrow> Some rs
      | Some m \<Rightarrow>
          if rs_base rs - buffer_shift * rs_nchannels rs = 0
          then Some (rs\<lparr> rs_buffer := None, rs_size := 0 \<rparr>) else None)"

definition resampler_reset :: "dynamic_resampler \<Rightarrow> dynamic_resampler option" where
  "resampler_reset rs =
     (let n = rs_nchannels rs; e = rs_size rs * n
      in case rs_method rs of
        method_cubic \<Rightarrow> do {
          rs \<leftarrow> buf_fill 0 (latency_cubic * n) rs;
          rs \<leftarrow> buf_fill (e - n) n rs;
          rs \<leftarrow> buf_fill (- buffer_shift * n) n rs;
          Some (rs\<lparr> rs_wrpos := latency_cubic, rs_rdpos := 0, rs_balance := of_int latency_cubic \<rparr>) }
      | method_linear \<Rightarrow> do {
          rs \<leftarrow> buf_fill 0 (latency_linear * n) rs;
          Some (rs\<lparr> rs_wrpos := latency_linear, rs_rdpos := 0, rs_balance := of_int latency_linear \<rparr>) }
      | _ \<Rightarrow> Some (rs\<lparr> rs_wrpos := 0, rs_rdpos := 0, rs_balance := 0 \<rparr>))"

definition resampler_update :: "real \<Rightarrow> real \<Rightarrow> dynamic_resampler \<Rightarrow> dynamic_resampler" where
  "resampler_update srfrom srto rs = rs\<lparr> rs_advance := srfrom / srto \<rparr>"

text \<open>The interpolation method and its latency.\<close>

definition choose_method :: "int \<Rightarrow> int \<Rightarrow> bool \<Rightarrow> AooResampleMethod \<Rightarrow> resample_method \<times> int" where
  "choose_method srfrom srto fixed_sr mode =
     (if fixed_sr \<and> srfrom = srto then (method_none, 0)
      else if fixed_sr \<and> srto < srfrom \<and> srfrom mod srto = 0 then (method_skip, 0)
      else case mode of
        kAooResampleHold \<Rightarrow> (method_hold, 0)
      | kAooResampleLinear \<Rightarrow> (method_linear, latency_linear)
      | kAooResampleCubic \<Rightarrow> (method_cubic, latency_cubic)
      | kAooResampleMethodEnd \<Rightarrow> (method_linear, 0))"

definition resampler_space :: "int \<Rightarrow> int \<Rightarrow> real \<Rightarrow> int" where
  "resampler_space nfrom nto ratio =
     (let sz = (if ratio < 1 then max nfrom (trunc (of_int nto / ratio + 1 / 2)) else max nfrom nto)
      in trunc (of_int sz * (5 / 2)))"

definition resampler_setup ::
    "int \<Rightarrow> int \<Rightarrow> bool \<Rightarrow> int \<Rightarrow> int \<Rightarrow> bool \<Rightarrow> int \<Rightarrow> AooResampleMethod \<Rightarrow>
     dynamic_resampler \<Rightarrow> dynamic_resampler option" where
  "resampler_setup nfrom nto fixed_n srfrom srto fixed_sr nchannels mode rs =
     (let ratio = of_int srto / of_int srfrom;
          (method, latency) = choose_method srfrom srto fixed_sr mode;
          reblock = (\<not> fixed_n \<or> nfrom \<noteq> nto);
          bypass = (method = method_none \<and> \<not> reblock);
          rs = rs\<lparr> rs_ideal_ratio := ratio, rs_fixed_sr := fixed_sr, rs_latency := latency,
                  rs_method := method, rs_bypass := bypass \<rparr>
      in do {
        rs \<leftarrow> (if bypass then free_buffer rs
              else do {
                let sz = resampler_space nfrom nto ratio;
                let old_nsamples = (if rs_buffer rs \<noteq> None
                      then (rs_size rs + extra_space) * rs_nchannels rs else 0);
                let nsamples = (sz + extra_space) * nchannels;
                rs \<leftarrow> (if old_nsamples \<noteq> nsamples then do {
                          rs \<leftarrow> free_buffer rs;
                          Some (rs\<lparr> rs_buffer := Some (replicate (nat nsamples) 0),
                                    rs_base := buffer_shift * nchannels \<rparr>) }
                       else Some rs);
                Some (rs\<lparr> rs_size := sz \<rparr>) });
        let rs = rs\<lparr> rs_nchannels := nchannels \<rparr>;
        let rs = (if method \<noteq> method_none then resampler_update (of_int srfrom) (of_int srto) rs else rs);
        resampler_reset rs })"

text \<open>
  Mirroring the first two frames behind the end and the last frame in front of the start.
\<close>

definition mirror_front :: "int \<Rightarrow> dynamic_resampler \<Rightarrow> dynamic_resampler option" where
  "mirror_front n rs = do { xs \<leftarrow> buf_get 0 (2 * n) rs; buf_put (rs_size rs * n) xs rs }"

definition mirror_rear :: "int \<Rightarrow> dynamic_resampler \<Rightarrow> dynamic_resampler option" where
  "mirror_rear n rs = do { xs \<leftarrow> buf_get (rs_size rs * n - n) n rs; buf_put (- buffer_shift * n) xs rs }"

definition resampler_write :: "real list \<Rightarrow> int \<Rightarrow> dynamic_resampler \<Rightarrow> (bool \<times> dynamic_resampler) option" where
  "resampler_write data nframes rs =
     (let space = trunc (of_int (rs_size rs) - rs_balance rs)
      in if space - 1 < nframes then Some (False, rs)
         else let n = rs_nchannels rs; sz = rs_size rs; pos = rs_wrpos rs; e = pos + nframes
              in do {
                rs \<leftarrow> (if e > sz then do {
                    let split = sz - pos;
                    rs \<leftarrow> buf_put (pos * n) (take (nat (split * n)) data) rs;
                    rs \<leftarrow> buf_put 0 (take (nat (nframes * n - split * n)) (drop (nat (split * n)) data)) rs;
                    Some (rs\<lparr> rs_wrpos := e - sz \<rparr>) }
                  else do {
                    rs \<leftarrow> buf_put (pos * n) (take (nat (nframes * n)) data) rs;
                    Some (rs\<lparr> rs_wrpos := (if e = sz then 0 else e) \<rparr>) });
                rs \<leftarrow> (if rs_method rs \<noteq> method_none then do {
                    rs \<leftarrow> (if pos < 2 \<or> e > sz then mirror_front n rs else Some rs);
                    if e \<ge> sz then mirror_rear n rs else Some rs }
                  else Some rs);
                Some (True, rs\<lparr> rs_balance := rs_balance rs + of_int nframes \<rparr>) })"

text \<open>One frame of output at a position, for each method.\<close>

definition linear_sample :: "real \<Rightarrow> real \<Rightarrow> real \<Rightarrow> real" where
  "linear_sample fract a b = a + (b - a) * fract"

definition cubic_sample :: "real \<Rightarrow> real \<Rightarrow> real \<Rightarrow> real \<Rightarrow> real \<Rightarrow> real" where
  "cubic_sample fract a b c d =
     (let cminusb = c - b
      in b + fract * (cminusb - 1 / 6 * (1 - fract) *
           ((d - a - 3 * cminusb) * fract + (d + a * 2 - b * 3))))"

definition cubic_frame :: "dynamic_resampler \<Rightarrow> real \<Rightarrow> real list option" where
  "cubic_frame rs pos =
     (let ipos = trunc pos; fract = pos - of_int ipos; n = rs_nchannels rs;
          ia = (ipos - 1) * n; ib = ipos * n; ic = (ipos + 1) * n; id = (ipos + 2) * n
      in those (map (\<lambda>j. do {
           a \<leftarrow> buf_at rs (ia + int j);
           b \<leftarrow> buf_at rs (ib + int j);
           c \<leftarrow> buf_at rs (ic + int j);
           d \<leftarrow> buf_at rs (id + int j);
           Some (cubic_sample fract a b c d) }) [0..<nat n]))"

definition linear_frame :: "dynamic_resampler \<Rightarrow> real \<Rightarrow> real list option" where
  "linear_frame rs pos =
     (let ipos = trunc pos; fract = pos - of_int ipos; n = rs_nchannels rs;
          index0 = ipos * n; index1 = (ipos + 1) * n
      in those (map (\<lambda>j. do {
           a \<leftarrow> buf_at rs (index0 + int j);
           b \<leftarrow> buf_at rs (index1 + int j);
           Some (linear_sample fract a b) }) [0..<nat n]))"

definition hold_frame :: "dynamic_resampler \<Rightarrow> real \<Rightarrow> real list option" where
  "hold_frame rs pos =
     (let ipos = trunc pos; n = rs_nchannels rs
      in those (map (\<lambda>j. buf_at rs (ipos * n + int j)) [0..<nat n]))"

text \<open>The loop over the frames, the position wrapping around at the end of the buffer.\<close>

definition wrap_pos :: "real \<Rightarrow> real \<Rightarrow> real" where
  "wrap_pos limit pos = (if pos \<ge> limit then pos - limit else pos)"

fun read_loop :: "(real \<Rightarrow> real list option) \<Rightarrow> real \<Rightarrow> real \<Rightarrow> nat \<Rightarrow> real \<Rightarrow> real list option" where
  "read_loop f fadvance limit 0 pos = Some []"
| "read_loop f fadvance limit (Suc i) pos = do {
     xs \<leftarrow> f pos;
     ys \<leftarrow> read_loop f fadvance limit i (wrap_pos limit (pos + fadvance));
     Some (xs @ ys) }"

text \<open>The three interpolating branches of \<open>read\<close>, which share everything but the frame.\<close>

definition read_interpolate ::
    "(real \<Rightarrow> real list option) \<Rightarrow> int \<Rightarrow> int \<Rightarrow> dynamic_resampler \<Rightarrow>
     (bool \<times> real list \<times> dynamic_resampler) option" where
  "read_interpolate f latency nframes rs =
     (let readframes = of_int nframes * rs_advance rs
      in if rs_balance rs - of_int latency < readframes then Some (False, [], rs)
         else do {
           out \<leftarrow> read_loop f (rs_advance rs) (of_int (rs_size rs)) (nat nframes) (rs_rdpos rs);
           Some (True, out, rs\<lparr> rs_rdpos := wrap_pos (of_int (rs_size rs)) (rs_rdpos rs + readframes),
                               rs_balance := rs_balance rs - readframes \<rparr>) })"

fun skip_loop :: "dynamic_resampler \<Rightarrow> int \<Rightarrow> nat \<Rightarrow> int \<Rightarrow> (real list \<times> int) option" where
  "skip_loop rs iadvance 0 ipos = Some ([], ipos)"
| "skip_loop rs iadvance (Suc i) ipos = do {
     xs \<leftarrow> those (map (\<lambda>j. buf_at rs (ipos * rs_nchannels rs + int j)) [0..<nat (rs_nchannels rs)]);
     let ipos = ipos + iadvance;
     (ys, ipos) \<leftarrow> skip_loop rs iadvance i (if ipos \<ge> rs_size rs then ipos - rs_size rs else ipos);
     Some (xs @ ys, ipos) }"

definition read_skip :: "int \<Rightarrow> dynamic_resampler \<Rightarrow> (bool \<times> real list \<times> dynamic_resampler) option" where
  "read_skip nframes rs =
     (let iadvance = trunc (rs_advance rs); ibalance = trunc (rs_balance rs);
          ireadframes = nframes * iadvance
      in if ibalance < ireadframes then Some (False, [], rs)
         else do {
           (out, ipos) \<leftarrow> skip_loop rs iadvance (nat nframes) (trunc (rs_rdpos rs));
           Some (True, out, rs\<lparr> rs_rdpos := of_int ipos, rs_balance := of_int (ibalance - ireadframes) \<rparr>) })"

definition read_reblock :: "int \<Rightarrow> dynamic_resampler \<Rightarrow> (bool \<times> real list \<times> dynamic_resampler) option" where
  "read_reblock nframes rs =
     (let ibalance = trunc (rs_balance rs)
      in if ibalance < nframes then Some (False, [], rs)
         else let sz = rs_size rs; n = rs_nchannels rs; pos = trunc (rs_rdpos rs); e = pos + nframes
              in if e > sz then do {
                   let n2 = e - sz;
                   xs \<leftarrow> buf_get (pos * n) (sz * n - pos * n) rs;
                   ys \<leftarrow> buf_get 0 (n2 * n) rs;
                   Some (True, xs @ ys, rs\<lparr> rs_rdpos := of_int n2,
                                           rs_balance := of_int (ibalance - nframes) \<rparr>) }
                 else do {
                   xs \<leftarrow> buf_get (pos * n) (e * n - pos * n) rs;
                   Some (True, xs, rs\<lparr> rs_rdpos := of_int (if e = sz then 0 else e),
                                      rs_balance := of_int (ibalance - nframes) \<rparr>) })"

definition resampler_read :: "int \<Rightarrow> dynamic_resampler \<Rightarrow> (bool \<times> real list \<times> dynamic_resampler) option" where
  "resampler_read nframes rs =
     (case rs_method rs of
        method_cubic \<Rightarrow> read_interpolate (cubic_frame rs) latency_cubic nframes rs
      | method_linear \<Rightarrow> read_interpolate (linear_frame rs) latency_linear nframes rs
      | method_hold \<Rightarrow> read_interpolate (hold_frame rs) 0 nframes rs
      | method_skip \<Rightarrow> read_skip nframes rs
      | method_none \<Rightarrow> read_reblock nframes rs)"

text \<open>The number of frames that can be read.\<close>

definition readable_frames :: "dynamic_resampler \<Rightarrow> int" where
  "readable_frames rs =
     (if rs_bypass rs then 0
      else trunc (max 0 (rs_balance rs - of_int (rs_latency rs)) / rs_advance rs))"


subsection \<open>Samples in memory\<close>

text \<open>Sample \<open>j\<close> of the frame in slot \<open>i\<close>; the slots run from -1 to \<open>size + 1\<close>.\<close>

definition smp :: "dynamic_resampler \<Rightarrow> int \<Rightarrow> int \<Rightarrow> real" where
  "smp rs i j = the (rs_buffer rs) ! nat (rs_base rs + i * rs_nchannels rs + j)"

definition rs_wf :: "dynamic_resampler \<Rightarrow> bool" where
  "rs_wf rs \<longleftrightarrow> (\<exists>m. rs_buffer rs = Some m \<and> int (length m) = (rs_size rs + extra_space) * rs_nchannels rs) \<and>
     rs_base rs = buffer_shift * rs_nchannels rs \<and> 0 < rs_nchannels rs \<and> 3 \<le> rs_size rs"

lemma trunc_of_int [simp]: "trunc (of_int i) = i"
  by (simp add: trunc_def)

lemma trunc_nonneg: "0 \<le> x \<Longrightarrow> trunc x = \<lfloor>x\<rfloor>"
  by (simp add: trunc_def)

lemma nth_splice:
  assumes "a + length xs \<le> length m" and "i < length m"
  shows "splice a xs m ! i = (if a \<le> i \<and> i < a + length xs then xs ! (i - a) else m ! i)"
  using assms by (auto simp: splice_def nth_append min_def)

lemma length_splice [simp]: "a + length xs \<le> length m \<Longrightarrow> length (splice a xs m) = length m"
  by (simp add: splice_def)

lemma frame_less_iff:
  fixes i q n j :: int
  assumes "0 \<le> j" and "j < n"
  shows "i * n + j < q * n \<longleftrightarrow> i < q"
proof
  assume "i * n + j < q * n"
  then have "i * n < q * n" using assms by linarith
  then show "i < q" using assms by (simp add: mult_less_cancel_right)
next
  assume "i < q"
  then have "(i + 1) * n \<le> q * n" using assms by (intro mult_right_mono) auto
  then show "i * n + j < q * n" using assms by (simp add: algebra_simps)
qed

lemma frame_index_bounds:
  assumes wf: "rs_wf rs" and i: "-1 \<le> i" "i < rs_size rs + 2" and j: "0 \<le> j" "j < rs_nchannels rs"
  shows "0 \<le> rs_base rs + i * rs_nchannels rs + j"
    and "rs_base rs + i * rs_nchannels rs + j < (rs_size rs + extra_space) * rs_nchannels rs"
proof -
  let ?n = "rs_nchannels rs"
  have b: "rs_base rs = ?n" using wf by (simp add: rs_wf_def buffer_shift_def)
  have "(- 1) * ?n \<le> i * ?n" using i wf by (intro mult_right_mono) (auto simp: rs_wf_def)
  then show "0 \<le> rs_base rs + i * ?n + j" using b j by simp
  have "(i + 1) * ?n + j < (rs_size rs + 3) * ?n" using i j by (simp add: frame_less_iff)
  then show "rs_base rs + i * ?n + j < (rs_size rs + extra_space) * ?n"
    using b by (simp add: extra_space_def algebra_simps)
qed

lemma buf_at_smp:
  assumes "rs_wf rs" and "-1 \<le> i" "i < rs_size rs + 2" and "0 \<le> j" "j < rs_nchannels rs"
  shows "buf_at rs (i * rs_nchannels rs + j) = Some (smp rs i j)"
  using assms frame_index_bounds [OF assms]
  by (auto simp: buf_at_def smp_def rs_wf_def Let_def add.assoc)

text \<open>Storing \<open>c\<close> frames at slot \<open>p\<close>.\<close>

lemma buf_put_frames:
  assumes wf: "rs_wf rs" and p: "-1 \<le> p" "p + c \<le> rs_size rs + 2" "0 \<le> c"
    and len: "int (length xs) = c * rs_nchannels rs"
  obtains rs' where "buf_put (p * rs_nchannels rs) xs rs = Some rs'" and "rs_wf rs'"
    and "\<exists>m. rs' = rs\<lparr> rs_buffer := Some m \<rparr>"
    and "\<And>i j. \<lbrakk>-1 \<le> i; i < rs_size rs + 2; 0 \<le> j; j < rs_nchannels rs\<rbrakk> \<Longrightarrow>
      smp rs' i j = (if p \<le> i \<and> i < p + c then xs ! nat ((i - p) * rs_nchannels rs + j) else smp rs i j)"
proof -
  let ?n = "rs_nchannels rs"
  obtain m where m: "rs_buffer rs = Some m" "int (length m) = (rs_size rs + 3) * ?n"
    and b: "rs_base rs = ?n" "0 < ?n"
    using wf by (auto simp: rs_wf_def resampler_consts)
  have lo: "0 \<le> ?n + p * ?n"
    using mult_right_mono [of "-1" p ?n] p b by simp
  have "(p + c) * ?n \<le> (rs_size rs + 2) * ?n" using p b by (intro mult_right_mono) auto
  then have hi: "?n + p * ?n + int (length xs) \<le> int (length m)"
    using len m by (simp add: algebra_simps)
  define a where "a = nat (?n + p * ?n)"
  have a: "int a = ?n + p * ?n" "a + length xs \<le> length m" using lo hi by (auto simp: a_def)
  let ?rs' = "rs\<lparr> rs_buffer := Some (splice a xs m) \<rparr>"
  show thesis
  proof (rule that [of ?rs'])
    show "buf_put (p * ?n) xs rs = Some ?rs'"
      using lo hi m b by (simp add: buf_put_def a_def)
    show "rs_wf ?rs'" using wf m a by (auto simp: rs_wf_def)
    show "\<exists>m. ?rs' = rs\<lparr> rs_buffer := Some m \<rparr>" by blast
    fix i j :: int
    assume ij: "-1 \<le> i" "i < rs_size rs + 2" "0 \<le> j" "j < ?n"
    define k where "k = nat (?n + i * ?n + j)"
    have k: "int k = ?n + i * ?n + j" "k < length m"
      using frame_index_bounds [OF wf ij] b m by (auto simp: k_def extra_space_def)
    have "a \<le> k \<longleftrightarrow> \<not> (i * ?n + j < p * ?n)" using a k by linarith
    then have ge: "a \<le> k \<longleftrightarrow> p \<le> i" using ij by (simp add: frame_less_iff not_less)
    have "k < a + length xs \<longleftrightarrow> i * ?n + j < (p + c) * ?n"
      using a k len by (simp add: algebra_simps) linarith
    then have lt: "k < a + length xs \<longleftrightarrow> i < p + c" using ij by (simp add: frame_less_iff)
    have "k - a = nat ((i - p) * ?n + j)" using a k by (simp add: algebra_simps)
    then show "smp ?rs' i j = (if p \<le> i \<and> i < p + c then xs ! nat ((i - p) * ?n + j) else smp rs i j)"
      using nth_splice [OF a(2) k(2)] ge lt m b by (simp add: smp_def k_def)
  qed
qed

lemma buf_get_frames:
  assumes wf: "rs_wf rs" and p: "-1 \<le> p" "p + c \<le> rs_size rs + 2" "0 \<le> c"
  obtains xs where "buf_get (p * rs_nchannels rs) (c * rs_nchannels rs) rs = Some xs"
    and "int (length xs) = c * rs_nchannels rs"
    and "\<And>i j. \<lbrakk>0 \<le> i; i < c; 0 \<le> j; j < rs_nchannels rs\<rbrakk> \<Longrightarrow>
      xs ! nat (i * rs_nchannels rs + j) = smp rs (p + i) j"
proof -
  let ?n = "rs_nchannels rs"
  obtain m where m: "rs_buffer rs = Some m" "int (length m) = (rs_size rs + 3) * ?n"
    and b: "rs_base rs = ?n" "0 < ?n"
    using wf by (auto simp: rs_wf_def resampler_consts)
  have lo: "0 \<le> ?n + p * ?n"
    using mult_right_mono [of "-1" p ?n] p b by simp
  have "(p + c) * ?n \<le> (rs_size rs + 2) * ?n" using p b by (intro mult_right_mono) auto
  then have hi: "?n + p * ?n + c * ?n \<le> int (length m)"
    using m by (simp add: algebra_simps)
  define a where "a = nat (?n + p * ?n)"
  define l where "l = nat (c * ?n)"
  have al: "int a = ?n + p * ?n" "int l = c * ?n"
    using lo p b by (auto simp: a_def l_def)
  then have al': "a + l \<le> length m"
    using hi by linarith
  show thesis
  proof (rule that [of "take l (drop a m)"])
    show "buf_get (p * ?n) (c * ?n) rs = Some (take l (drop a m))"
      using lo hi m b by (simp add: buf_get_def a_def l_def)
    show "int (length (take l (drop a m))) = c * ?n" using al al' by auto
    fix i j :: int
    assume ij: "0 \<le> i" "i < c" "0 \<le> j" "j < ?n"
    define k where "k = nat (i * ?n + j)"
    have k: "int k = i * ?n + j" using ij b by (simp add: k_def)
    have "i * ?n + j < c * ?n" using ij by (simp add: frame_less_iff)
    then have "k < l" using al k by linarith
    then have "take l (drop a m) ! k = m ! (a + k)" using al' by simp
    moreover have "a + k = nat (?n + (p + i) * ?n + j)"
      using al k by (simp add: algebra_simps)
    ultimately show "take l (drop a m) ! nat (i * ?n + j) = smp rs (p + i) j"
      using m b by (simp add: smp_def k_def)
  qed
qed


subsection \<open>The stream behind the buffer\<close>

text \<open>
  \<open>s k j\<close> is sample \<open>j\<close> of the \<open>k\<close>-th frame ever written, counted from the last reset (which itself
  writes one or two frames of silence); \<open>W\<close> frames have been written, and the reader is at position \<open>R\<close>.
  The slots of the buffer hold the last \<open>size\<close> frames of the stream from \<open>lo\<close> on. When the method
  interpolates, the slots behind the end mirror the first two and slot -1 mirrors the last.
\<close>

definition slots_hold ::
    "(int \<Rightarrow> int \<Rightarrow> real) \<Rightarrow> int \<Rightarrow> int \<Rightarrow> bool \<Rightarrow> (int \<Rightarrow> int \<Rightarrow> real) \<Rightarrow> int \<Rightarrow> int \<Rightarrow> bool" where
  "slots_hold f sz n mirror s lo W \<longleftrightarrow>
     (\<forall>k j. lo \<le> k \<longrightarrow> W - sz \<le> k \<longrightarrow> k < W \<longrightarrow> 0 \<le> j \<longrightarrow> j < n \<longrightarrow>
        f (k mod sz) j = s k j \<and>
        (mirror \<longrightarrow> (sz \<le> k \<and> k mod sz < 2 \<longrightarrow> f (sz + k mod sz) j = s k j) \<and>
                  (k mod sz = sz - 1 \<longrightarrow> f (-1) j = s k j)))"

definition method_latency :: "resample_method \<Rightarrow> int" where
  "method_latency m = (case m of method_cubic \<Rightarrow> latency_cubic | method_linear \<Rightarrow> latency_linear | _ \<Rightarrow> 0)"

text \<open>The first frame of the stream: cubic interpolation starts with one frame before position 0.\<close>

definition first_frame :: "resample_method \<Rightarrow> int" where
  "first_frame m = (if m = method_cubic then -1 else 0)"

definition residue :: "int \<Rightarrow> real \<Rightarrow> real" where
  "residue sz x = x - of_int sz * of_int \<lfloor>x / of_int sz\<rfloor>"

definition streams :: "dynamic_resampler \<Rightarrow> (int \<Rightarrow> int \<Rightarrow> real) \<Rightarrow> int \<Rightarrow> real \<Rightarrow> bool" where
  "streams rs s W R \<longleftrightarrow> rs_wf rs \<and> 0 \<le> R \<and> R \<le> of_int W \<and> of_int W - R \<le> of_int (rs_size rs) - 1 \<and>
     (rs_method rs \<in> {method_none, method_skip} \<longrightarrow> R \<in> \<int>) \<and>
     rs_balance rs = of_int W - R \<and> rs_wrpos rs = W mod rs_size rs \<and> rs_rdpos rs = residue (rs_size rs) R \<and>
     slots_hold (smp rs) (rs_size rs) (rs_nchannels rs) (rs_method rs \<noteq> method_none) s
       (first_frame (rs_method rs)) W"

definition extend_stream :: "(int \<Rightarrow> int \<Rightarrow> real) \<Rightarrow> int \<Rightarrow> int \<Rightarrow> int \<Rightarrow> real list \<Rightarrow> int \<Rightarrow> int \<Rightarrow> real" where
  "extend_stream s W nframes n data k j =
     (if W \<le> k \<and> k < W + nframes then data ! nat ((k - W) * n + j) else s k j)"

lemma mod_diff_cases:
  fixes i p sz :: int
  assumes "0 \<le> i" "i < sz" "0 \<le> p" "p < sz"
  shows "(i - p) mod sz = (if p \<le> i then i - p else i - p + sz)"
proof (cases "p \<le> i")
  case True
  then show ?thesis using assms by simp
next
  case False
  then have "(i - p) mod sz = (i - p + sz) mod sz" by simp
  also have "\<dots> = i - p + sz" using assms False by (intro mod_pos_pos_trivial) auto
  finally show ?thesis using False by simp
qed

lemma mod_wrap_once:
  fixes x sz :: int
  assumes "sz \<le> x" and "x < 2 * sz"
  shows "x mod sz = x - sz"
proof -
  have "x mod sz = (x - sz + sz) mod sz" by simp
  also have "\<dots> = (x - sz) mod sz" by (rule mod_add_self2)
  also have "\<dots> = x - sz" using assms by (intro mod_pos_pos_trivial) auto
  finally show ?thesis .
qed

lemma mod_add_wrap:
  fixes p q sz :: int
  assumes "0 \<le> p" "p < sz" "0 \<le> q" "q < sz"
  shows "(p + q) mod sz = (if p + q < sz then p + q else p + q - sz)"
  using assms mod_wrap_once [of sz "p + q"] by simp

lemma mod_slot_distance:
  fixes k W sz :: int
  shows "(k mod sz - W mod sz) mod sz = (k - W) mod sz"
  by (simp add: mod_diff_eq)

text \<open>What a write does to the slots, before and after mirroring.\<close>

definition written :: "(int \<Rightarrow> int \<Rightarrow> real) \<Rightarrow> (int \<Rightarrow> int \<Rightarrow> real) \<Rightarrow> int \<Rightarrow> int \<Rightarrow> int \<Rightarrow> int \<Rightarrow> real list \<Rightarrow> bool" where
  "written f' f sz n pos nframes data \<longleftrightarrow>
     (\<forall>i j. 0 \<le> i \<longrightarrow> i < sz \<longrightarrow> 0 \<le> j \<longrightarrow> j < n \<longrightarrow>
        f' i j = (if (i - pos) mod sz < nframes then data ! nat ((i - pos) mod sz * n + j) else f i j)) \<and>
     (\<forall>i j. -1 \<le> i \<longrightarrow> i < sz + 2 \<longrightarrow> \<not> (0 \<le> i \<and> i < sz) \<longrightarrow> 0 \<le> j \<longrightarrow> j < n \<longrightarrow> f' i j = f i j)"

definition mirrored :: "(int \<Rightarrow> int \<Rightarrow> real) \<Rightarrow> (int \<Rightarrow> int \<Rightarrow> real) \<Rightarrow> int \<Rightarrow> int \<Rightarrow> bool \<Rightarrow> bool \<Rightarrow> bool" where
  "mirrored f' f sz n front rear \<longleftrightarrow>
     (\<forall>i j. 0 \<le> i \<longrightarrow> i < sz \<longrightarrow> 0 \<le> j \<longrightarrow> j < n \<longrightarrow> f' i j = f i j) \<and>
     (\<forall>i j. 0 \<le> i \<longrightarrow> i < 2 \<longrightarrow> 0 \<le> j \<longrightarrow> j < n \<longrightarrow> f' (sz + i) j = (if front then f i j else f (sz + i) j)) \<and>
     (\<forall>j. 0 \<le> j \<longrightarrow> j < n \<longrightarrow> f' (-1) j = (if rear then f (sz - 1) j else f (-1) j))"

lemma slots_hold_write:
  assumes old: "slots_hold f sz n mirror s lo W"
    and w: "written g f sz n (W mod sz) nf data"
    and m: "if mirror then mirrored h g sz n (W mod sz < 2 \<or> W mod sz + nf > sz) (W mod sz + nf \<ge> sz) else h = g"
    and nf: "0 \<le> nf" "nf < sz"
  shows "slots_hold h sz n mirror (extend_stream s W nf n data) lo (W + nf)"
  unfolding slots_hold_def
proof (intro allI impI)
  fix k j
  assume k: "lo \<le> k" "W + nf - sz \<le> k" "k < W + nf" and j: "0 \<le> j" "j < n"
  let ?p = "W mod sz" and ?s' = "extend_stream s W nf n data"
  have sz: "0 < sz" using nf by simp
  have slot: "0 \<le> k mod sz" "k mod sz < sz" "0 \<le> ?p" "?p < sz" using sz by simp_all
  have d: "(k mod sz - ?p) mod sz = (if W \<le> k then k - W else k - W + sz)"
  proof (cases "W \<le> k")
    case True
    then show ?thesis using k nf by (simp add: mod_slot_distance)
  next
    case False
    then have "(k - W) mod sz = (k - W + sz) mod sz" by simp
    also have "\<dots> = k - W + sz" using False k nf by (intro mod_pos_pos_trivial) auto
    finally show ?thesis using False by (simp add: mod_slot_distance)
  qed
  have oldk: "\<not> W \<le> k \<Longrightarrow> f (k mod sz) j = s k j \<and>
        (mirror \<longrightarrow> (sz \<le> k \<and> k mod sz < 2 \<longrightarrow> f (sz + k mod sz) j = s k j) \<and>
                  (k mod sz = sz - 1 \<longrightarrow> f (-1) j = s k j))"
    using old k j nf unfolding slots_hold_def by simp
  have g: "g (k mod sz) j = ?s' k j"
    using w slot j d oldk k nf unfolding written_def extend_stream_def by auto
  have h: "h (k mod sz) j = ?s' k j"
    using m g slot j unfolding mirrored_def by (auto split: if_splits)
  have new_slot: "W \<le> k \<Longrightarrow> k mod sz = ?p + (k - W) \<or> k mod sz = ?p + (k - W) - sz"
    using d mod_diff_cases [OF slot] by (auto split: if_splits)
  have front: "h (sz + k mod sz) j = ?s' k j" if "mirror" "sz \<le> k" "k mod sz < 2"
  proof (cases "?p < 2 \<or> ?p + nf > sz")
    case True
    then show ?thesis using m g that slot j unfolding mirrored_def by simp
  next
    case False
    then have "\<not> W \<le> k" using new_slot that k slot by auto
    then have "f (sz + k mod sz) j = s k j" using oldk that by simp
    moreover have "h (sz + k mod sz) j = g (sz + k mod sz) j"
      using m False that slot j unfolding mirrored_def by simp
    moreover have "g (sz + k mod sz) j = f (sz + k mod sz) j"
      using conjunct2 [OF w [unfolded written_def], rule_format, of "sz + k mod sz" j] that slot j sz by simp
    ultimately show ?thesis using \<open>\<not> W \<le> k\<close> by (simp add: extend_stream_def)
  qed
  have rear: "h (-1) j = ?s' k j" if "mirror" "k mod sz = sz - 1"
  proof (cases "?p + nf \<ge> sz")
    case True
    then show ?thesis using m g that slot j unfolding mirrored_def by simp
  next
    case False
    then have "\<not> W \<le> k" using new_slot that k slot by auto
    then have "f (-1) j = s k j" using oldk that by simp
    moreover have "h (-1) j = g (-1) j"
      using m False that slot j unfolding mirrored_def by simp
    moreover have "g (-1) j = f (-1) j"
      using conjunct2 [OF w [unfolded written_def], rule_format, of "-1" j] j sz by simp
    ultimately show ?thesis using \<open>\<not> W \<le> k\<close> by (simp add: extend_stream_def)
  qed
  show "h (k mod sz) j = ?s' k j \<and> (mirror \<longrightarrow> (sz \<le> k \<and> k mod sz < 2 \<longrightarrow> h (sz + k mod sz) j = ?s' k j) \<and>
      (k mod sz = sz - 1 \<longrightarrow> h (-1) j = ?s' k j))"
    using h front rear by blast
qed


text \<open>The two branches of a write store the block in the slots from \<open>pos\<close> on, modulo the size.\<close>

lemma frame_nonneg: "0 \<le> i \<Longrightarrow> 0 \<le> j \<Longrightarrow> 0 < n \<Longrightarrow> 0 \<le> i * n + (j::int)"
  by simp

lemma put_straight:
  assumes wf: "rs_wf rs" and p: "0 \<le> p" "p < rs_size rs" and nf: "0 \<le> nf" "p + nf \<le> rs_size rs"
    and len: "nf * rs_nchannels rs \<le> int (length data)"
  obtains rs' m where "buf_put (p * rs_nchannels rs) (take (nat (nf * rs_nchannels rs)) data) rs = Some rs'"
    and "rs' = rs\<lparr> rs_buffer := Some m \<rparr>" and "rs_wf rs'"
    and "written (smp rs') (smp rs) (rs_size rs) (rs_nchannels rs) p nf data"
proof -
  let ?n = "rs_nchannels rs" and ?sz = "rs_size rs"
  have n: "0 < ?n" using wf by (simp add: rs_wf_def)
  have "int (length (take (nat (nf * ?n)) data)) = nf * ?n" using len nf n by auto
  from buf_put_frames [OF wf _ _ nf(1) this, of p] p nf
  obtain rs' m where rs': "buf_put (p * ?n) (take (nat (nf * ?n)) data) rs = Some rs'" "rs_wf rs'"
    "rs' = rs\<lparr> rs_buffer := Some m \<rparr>"
    and smp: "\<And>i j. \<lbrakk>-1 \<le> i; i < ?sz + 2; 0 \<le> j; j < ?n\<rbrakk> \<Longrightarrow> smp rs' i j =
      (if p \<le> i \<and> i < p + nf then take (nat (nf * ?n)) data ! nat ((i - p) * ?n + j) else smp rs i j)"
    by (smt (verit, best))
  have "written (smp rs') (smp rs) ?sz ?n p nf data"
    unfolding written_def
  proof (intro conjI allI impI)
    fix i j :: int
    assume i: "0 \<le> i" "i < ?sz" and j: "0 \<le> j" "j < ?n"
    have "(i - p) mod ?sz < nf \<longleftrightarrow> p \<le> i \<and> i < p + nf"
      using mod_diff_cases [OF i p] i p nf by auto
    moreover have "take (nat (nf * ?n)) data ! nat ((i - p) * ?n + j) = data ! nat ((i - p) mod ?sz * ?n + j)"
      if "p \<le> i" "i < p + nf"
    proof -
      have "(i - p) * ?n + j < nf * ?n" using that j by (simp add: frame_less_iff)
      then have "nat ((i - p) * ?n + j) < nat (nf * ?n)"
        using frame_nonneg [of "i - p" j ?n] that j n by linarith
      then show ?thesis using mod_diff_cases [OF i p] that by simp
    qed
    ultimately show "smp rs' i j =
        (if (i - p) mod ?sz < nf then data ! nat ((i - p) mod ?sz * ?n + j) else smp rs i j)"
      using smp [of i j] i j by auto
  next
    fix i j :: int
    assume "-1 \<le> i" "i < ?sz + 2" "\<not> (0 \<le> i \<and> i < ?sz)" "0 \<le> j" "j < ?n"
    then show "smp rs' i j = smp rs i j" using smp [of i j] p nf by auto
  qed
  then show thesis using that rs' by blast
qed

lemma put_split:
  assumes wf: "rs_wf rs" and p: "0 \<le> p" "p < rs_size rs" and nf: "nf < rs_size rs" "rs_size rs < p + nf"
    and len: "nf * rs_nchannels rs \<le> int (length data)"
  defines "k \<equiv> nat ((rs_size rs - p) * rs_nchannels rs)"
  obtains rs1 m1 rs' m where "buf_put (p * rs_nchannels rs) (take k data) rs = Some rs1"
    and "rs1 = rs\<lparr> rs_buffer := Some m1 \<rparr>"
    and "buf_put 0 (take (nat (nf * rs_nchannels rs - (rs_size rs - p) * rs_nchannels rs)) (drop k data)) rs1 = Some rs'"
    and "rs' = rs\<lparr> rs_buffer := Some m \<rparr>" and "rs_wf rs'"
    and "written (smp rs') (smp rs) (rs_size rs) (rs_nchannels rs) p nf data"
proof -
  let ?n = "rs_nchannels rs" and ?sz = "rs_size rs"
  let ?c = "p + nf - ?sz"
  have n: "0 < ?n" using wf by (simp add: rs_wf_def)
  have k: "int k = (?sz - p) * ?n" using p n by (simp add: k_def)
  have le: "(?sz - p) * ?n \<le> nf * ?n" using nf n by (intro mult_right_mono) auto
  have "(?sz - p) * ?n \<le> int (length data)" using le len by linarith
  from put_straight [OF wf p _ _ this] p nf k
  obtain rs1 m1 where rs1: "buf_put (p * ?n) (take k data) rs = Some rs1"
    "rs1 = rs\<lparr> rs_buffer := Some m1 \<rparr>" "rs_wf rs1"
    and w1: "written (smp rs1) (smp rs) ?sz ?n p (?sz - p) data"
    by (auto simp: k_def)
  have eq: "rs_size rs1 = ?sz" "rs_nchannels rs1 = ?n" using rs1 by auto
  have c: "nf * ?n - (?sz - p) * ?n = ?c * ?n" by (simp add: algebra_simps)
  have len2: "?c * ?n \<le> int (length (drop k data))"
    using len k c by (simp add: of_nat_diff)
  from put_straight [OF rs1(3), of 0 ?c "drop k data"] eq p nf len2
  obtain rs' m where rs': "buf_put 0 (take (nat (?c * ?n)) (drop k data)) rs1 = Some rs'"
    "rs' = rs1\<lparr> rs_buffer := Some m \<rparr>" "rs_wf rs'"
    and w2: "written (smp rs') (smp rs1) ?sz ?n 0 ?c (drop k data)"
    by auto
  have "written (smp rs') (smp rs) ?sz ?n p nf data"
    unfolding written_def
  proof (intro conjI allI impI)
    fix i j :: int
    assume i: "0 \<le> i" "i < ?sz" and j: "0 \<le> j" "j < ?n"
    have s2: "smp rs' i j = (if i < ?c then drop k data ! nat (i * ?n + j) else smp rs1 i j)"
      using w2 i j unfolding written_def by simp
    have s1: "smp rs1 i j = (if p \<le> i then data ! nat ((i - p) * ?n + j) else smp rs i j)"
      using w1 i j mod_diff_cases [OF i p] unfolding written_def by (auto split: if_splits)
    have "drop k data ! nat (i * ?n + j) = data ! nat ((i - p + ?sz) * ?n + j)" if "i < ?c"
    proof -
      have "i * ?n + j < ?c * ?n" using that j by (simp add: frame_less_iff)
      then have "k \<le> length data" using len2 len k le by linarith
      moreover have "int k + (i * ?n + j) = (i - p + ?sz) * ?n + j"
        using k by (simp add: algebra_simps)
      then have "k + nat (i * ?n + j) = nat ((i - p + ?sz) * ?n + j)"
        using frame_nonneg [of i j ?n] i j n by linarith
      ultimately show ?thesis by simp
    qed
    then show "smp rs' i j =
        (if (i - p) mod ?sz < nf then data ! nat ((i - p) mod ?sz * ?n + j) else smp rs i j)"
      using s1 s2 mod_diff_cases [OF i p] i p nf by auto
  next
    fix i j :: int
    assume "-1 \<le> i" "i < ?sz + 2" "\<not> (0 \<le> i \<and> i < ?sz)" "0 \<le> j" "j < ?n"
    then show "smp rs' i j = smp rs i j"
      using conjunct2 [OF w1 [unfolded written_def], rule_format, of i j]
        conjunct2 [OF w2 [unfolded written_def], rule_format, of i j] by simp
  qed
  then show thesis using that rs1 rs' c by simp
qed


text \<open>Mirroring.\<close>

lemma mirror_front_ok:
  assumes wf: "rs_wf rs"
  obtains rs' m where "mirror_front (rs_nchannels rs) rs = Some rs'" and "rs' = rs\<lparr> rs_buffer := Some m \<rparr>"
    and "rs_wf rs'" and "mirrored (smp rs') (smp rs) (rs_size rs) (rs_nchannels rs) True False"
proof -
  let ?n = "rs_nchannels rs" and ?sz = "rs_size rs"
  have n: "0 < ?n" "3 \<le> ?sz" using wf by (simp_all add: rs_wf_def)
  from buf_get_frames [OF wf, of 0 2] n
  obtain xs where xs: "buf_get 0 (2 * ?n) rs = Some xs" "int (length xs) = 2 * ?n"
    and nth: "\<And>i j. \<lbrakk>0 \<le> i; i < 2; 0 \<le> j; j < ?n\<rbrakk> \<Longrightarrow> xs ! nat (i * ?n + j) = smp rs (0 + i) j"
    by auto
  from buf_put_frames [OF wf _ _ _ xs(2), of ?sz] n
  obtain rs' m where rs': "buf_put (?sz * ?n) xs rs = Some rs'" "rs_wf rs'" "rs' = rs\<lparr> rs_buffer := Some m \<rparr>"
    and smp: "\<And>i j. \<lbrakk>-1 \<le> i; i < ?sz + 2; 0 \<le> j; j < ?n\<rbrakk> \<Longrightarrow> smp rs' i j =
      (if ?sz \<le> i \<and> i < ?sz + 2 then xs ! nat ((i - ?sz) * ?n + j) else smp rs i j)"
    by (smt (verit, best))
  have "mirrored (smp rs') (smp rs) ?sz ?n True False"
    unfolding mirrored_def using smp nth n by auto
  then show thesis using that rs' xs by (simp add: mirror_front_def)
qed

lemma mirror_rear_ok:
  assumes wf: "rs_wf rs"
  obtains rs' m where "mirror_rear (rs_nchannels rs) rs = Some rs'" and "rs' = rs\<lparr> rs_buffer := Some m \<rparr>"
    and "rs_wf rs'" and "mirrored (smp rs') (smp rs) (rs_size rs) (rs_nchannels rs) False True"
proof -
  let ?n = "rs_nchannels rs" and ?sz = "rs_size rs"
  have n: "0 < ?n" "3 \<le> ?sz" using wf by (simp_all add: rs_wf_def)
  from buf_get_frames [OF wf, of "?sz - 1" 1] n
  obtain xs where xs: "buf_get (?sz * ?n - ?n) ?n rs = Some xs" "int (length xs) = 1 * ?n"
    and nth: "\<And>i j. \<lbrakk>0 \<le> i; i < 1; 0 \<le> j; j < ?n\<rbrakk> \<Longrightarrow> xs ! nat (i * ?n + j) = smp rs (?sz - 1 + i) j"
    by (auto simp: left_diff_distrib)
  from buf_put_frames [OF wf _ _ _ xs(2), of "-1"] n
  obtain rs' m where rs': "buf_put (-1 * ?n) xs rs = Some rs'" "rs_wf rs'" "rs' = rs\<lparr> rs_buffer := Some m \<rparr>"
    and smp: "\<And>i j. \<lbrakk>-1 \<le> i; i < ?sz + 2; 0 \<le> j; j < ?n\<rbrakk> \<Longrightarrow> smp rs' i j =
      (if -1 \<le> i \<and> i < -1 + 1 then xs ! nat ((i - -1) * ?n + j) else smp rs i j)"
    by (smt (verit, best))
  have "mirrored (smp rs') (smp rs) ?sz ?n False True"
    unfolding mirrored_def using smp nth [of 0] n by auto
  then show thesis using that rs' xs by (simp add: mirror_rear_def buffer_shift_def)
qed

lemma mirrored_refl: "mirrored f f sz n False False"
  by (simp add: mirrored_def)

lemma mirrored_trans:
  "mirrored g f sz n c False \<Longrightarrow> mirrored h g sz n False d \<Longrightarrow> 3 \<le> sz \<Longrightarrow> mirrored h f sz n c d"
  unfolding mirrored_def by auto

lemma mirror_ok:
  assumes wf: "rs_wf rs"
  obtains rs' m where "do {
      rs' \<leftarrow> (if c then mirror_front (rs_nchannels rs) rs else Some rs);
      if d then mirror_rear (rs_nchannels rs) rs' else Some rs' } = Some rs'"
    and "rs' = rs\<lparr> rs_buffer := Some m \<rparr>" and "rs_wf rs'"
    and "mirrored (smp rs') (smp rs) (rs_size rs) (rs_nchannels rs) c d"
proof -
  obtain m0 where m0: "rs_buffer rs = Some m0" using wf by (auto simp: rs_wf_def)
  have "\<exists>rs1 m1. (if c then mirror_front (rs_nchannels rs) rs else Some rs) = Some rs1 \<and>
      rs1 = rs\<lparr> rs_buffer := Some m1 \<rparr> \<and> rs_wf rs1 \<and>
      mirrored (smp rs1) (smp rs) (rs_size rs) (rs_nchannels rs) c False"
  proof (cases c)
    case True
    then show ?thesis using mirror_front_ok [OF wf] by (metis (full_types))
  next
    case False
    have "rs = rs\<lparr> rs_buffer := Some m0 \<rparr>" using m0 by simp
    then show ?thesis using False wf mirrored_refl by auto
  qed
  then obtain rs1 m1 where rs1: "(if c then mirror_front (rs_nchannels rs) rs else Some rs) = Some rs1"
    "rs1 = rs\<lparr> rs_buffer := Some m1 \<rparr>" "rs_wf rs1"
    "mirrored (smp rs1) (smp rs) (rs_size rs) (rs_nchannels rs) c False" by blast
  have "\<exists>rs2 m2. (if d then mirror_rear (rs_nchannels rs1) rs1 else Some rs1) = Some rs2 \<and>
      rs2 = rs1\<lparr> rs_buffer := Some m2 \<rparr> \<and> rs_wf rs2 \<and>
      mirrored (smp rs2) (smp rs1) (rs_size rs1) (rs_nchannels rs1) False d"
  proof (cases d)
    case True
    then show ?thesis using mirror_rear_ok [OF rs1(3)] by (metis (full_types))
  next
    case False
    then show ?thesis using rs1(2,3) mirrored_refl by auto
  qed
  then obtain rs2 m2 where rs2: "(if d then mirror_rear (rs_nchannels rs1) rs1 else Some rs1) = Some rs2"
    "rs2 = rs1\<lparr> rs_buffer := Some m2 \<rparr>" "rs_wf rs2"
    "mirrored (smp rs2) (smp rs1) (rs_size rs1) (rs_nchannels rs1) False d" by blast
  have "mirrored (smp rs2) (smp rs) (rs_size rs) (rs_nchannels rs) c d"
    using mirrored_trans [OF rs1(4)] rs2(4) rs1(2) wf by (simp add: rs_wf_def)
  moreover have eq: "rs_nchannels rs1 = rs_nchannels rs" using rs1(2) by simp
  ultimately show thesis
  proof (intro that [of rs2 m2])
    show "do { rs' \<leftarrow> (if c then mirror_front (rs_nchannels rs) rs else Some rs);
        if d then mirror_rear (rs_nchannels rs) rs' else Some rs' } = Some rs2"
      using rs1(1) rs2(1) eq by (auto split: if_splits)
  qed (use rs1(2) rs2 in simp_all)
qed


text \<open>The block is stored and mirrored; the write position moves on, modulo the size.\<close>

definition stored :: "real list \<Rightarrow> int \<Rightarrow> dynamic_resampler \<Rightarrow> dynamic_resampler option" where
  "stored data nframes rs =
     (let n = rs_nchannels rs; sz = rs_size rs; pos = rs_wrpos rs; e = pos + nframes
      in if e > sz then do {
           let split = sz - pos;
           rs \<leftarrow> buf_put (pos * n) (take (nat (split * n)) data) rs;
           rs \<leftarrow> buf_put 0 (take (nat (nframes * n - split * n)) (drop (nat (split * n)) data)) rs;
           Some (rs\<lparr> rs_wrpos := e - sz \<rparr>) }
         else do {
           rs \<leftarrow> buf_put (pos * n) (take (nat (nframes * n)) data) rs;
           Some (rs\<lparr> rs_wrpos := (if e = sz then 0 else e) \<rparr>) })"

lemma smp_wrpos [simp]: "smp (rs\<lparr> rs_wrpos := w \<rparr>) = smp rs" "rs_wf (rs\<lparr> rs_wrpos := w \<rparr>) = rs_wf rs"
  by (auto simp: smp_def rs_wf_def fun_eq_iff)

lemma stored_ok:
  assumes wf: "rs_wf rs" and p: "rs_wrpos rs = W mod rs_size rs" and nf: "0 \<le> nf" "nf < rs_size rs"
    and len: "nf * rs_nchannels rs \<le> int (length data)"
  obtains rs' m where "stored data nf rs = Some rs'"
    and "rs' = rs\<lparr> rs_buffer := Some m, rs_wrpos := (W + nf) mod rs_size rs \<rparr>" and "rs_wf rs'"
    and "written (smp rs') (smp rs) (rs_size rs) (rs_nchannels rs) (W mod rs_size rs) nf data"
proof -
  let ?n = "rs_nchannels rs" and ?sz = "rs_size rs" and ?p = "W mod rs_size rs"
  have sz: "0 < ?sz" using wf by (simp add: rs_wf_def)
  then have pos: "0 \<le> ?p" "?p < ?sz" by simp_all
  have mod: "(W + nf) mod ?sz = (if ?p + nf < ?sz then ?p + nf else ?p + nf - ?sz)"
  proof -
    have "(W + nf) mod ?sz = (?p + nf) mod ?sz" by (simp add: mod_simps)
    then show ?thesis using mod_add_wrap [OF pos nf] by simp
  qed
  show thesis
  proof (cases "?sz < ?p + nf")
    case True
    from put_split [OF wf pos nf(2) True len]
    obtain rs1 m1 rs' m where
      "buf_put (?p * ?n) (take (nat ((?sz - ?p) * ?n)) data) rs = Some rs1"
      "buf_put 0 (take (nat (nf * ?n - (?sz - ?p) * ?n)) (drop (nat ((?sz - ?p) * ?n)) data)) rs1 = Some rs'"
      "rs' = rs\<lparr> rs_buffer := Some m \<rparr>" "rs_wf rs'" "written (smp rs') (smp rs) ?sz ?n ?p nf data"
      by metis
    then show thesis
      using True p mod by (intro that [of "rs'\<lparr> rs_wrpos := (W + nf) mod ?sz \<rparr>" m]) (auto simp: stored_def Let_def)
  next
    case False
    then have "?p + nf \<le> ?sz" by simp
    from put_straight [OF wf pos nf(1) this len]
    obtain rs' m where "buf_put (?p * ?n) (take (nat (nf * ?n)) data) rs = Some rs'"
      "rs' = rs\<lparr> rs_buffer := Some m \<rparr>" "rs_wf rs'" "written (smp rs') (smp rs) ?sz ?n ?p nf data"
      by metis
    then show thesis
      using False p mod by (intro that [of "rs'\<lparr> rs_wrpos := (W + nf) mod ?sz \<rparr>" m]) (auto simp: stored_def Let_def)
  qed
qed

lemma resampler_write_stored:
  "resampler_write data nf rs =
     (if trunc (of_int (rs_size rs) - rs_balance rs) - 1 < nf then Some (False, rs)
      else do {
        rs' \<leftarrow> stored data nf rs;
        rs' \<leftarrow> (if rs_method rs' \<noteq> method_none then do {
            rs' \<leftarrow> (if rs_wrpos rs < 2 \<or> rs_wrpos rs + nf > rs_size rs then mirror_front (rs_nchannels rs) rs' else Some rs');
            if rs_wrpos rs + nf \<ge> rs_size rs then mirror_rear (rs_nchannels rs) rs' else Some rs' }
          else Some rs');
        Some (True, rs'\<lparr> rs_balance := rs_balance rs' + of_int nf \<rparr>) })"
  by (simp add: resampler_write_def stored_def Let_def)


lemma smp_balance [simp]:
  "smp (rs\<lparr> rs_balance := b \<rparr>) = smp rs" "rs_wf (rs\<lparr> rs_balance := b \<rparr>) = rs_wf rs"
  "smp (rs\<lparr> rs_rdpos := r \<rparr>) = smp rs" "rs_wf (rs\<lparr> rs_rdpos := r \<rparr>) = rs_wf rs"
  by (auto simp: smp_def rs_wf_def fun_eq_iff)

lemma resampler_write_ok:
  assumes st: "streams rs s W R" and nf: "0 \<le> nf" and len: "nf * rs_nchannels rs \<le> int (length data)"
  shows "if rs_balance rs + of_int nf \<le> of_int (rs_size rs) - 1
    then \<exists>rs'. resampler_write data nf rs = Some (True, rs') \<and>
      streams rs' (extend_stream s W nf (rs_nchannels rs) data) (W + nf) R \<and>
      (\<exists>m w b. rs' = rs\<lparr> rs_buffer := m, rs_wrpos := w, rs_balance := b \<rparr>)
    else resampler_write data nf rs = Some (False, rs)"
proof (cases "rs_balance rs + of_int nf \<le> of_int (rs_size rs) - 1")
  case False
  have "0 \<le> of_int (rs_size rs) - rs_balance rs" using st by (simp add: streams_def)
  moreover have "\<lfloor>of_int (rs_size rs) - rs_balance rs\<rfloor> < nf + 1"
    using False by (subst floor_less_iff) simp
  ultimately have "trunc (of_int (rs_size rs) - rs_balance rs) - 1 < nf"
    by (simp add: trunc_nonneg)
  then show ?thesis using False by (simp add: resampler_write_def)
next
  case True
  let ?n = "rs_nchannels rs" and ?sz = "rs_size rs"
  let ?front = "W mod ?sz < 2 \<or> W mod ?sz + nf > ?sz" and ?rear = "W mod ?sz + nf \<ge> ?sz"
  have wf: "rs_wf rs" and pos: "rs_wrpos rs = W mod ?sz" and hold: "slots_hold (smp rs) ?sz ?n
      (rs_method rs \<noteq> method_none) s (first_frame (rs_method rs)) W"
    and bal: "rs_balance rs = of_int W - R" "R \<le> of_int W"
    using st by (auto simp: streams_def)
  have "nf < ?sz" using True bal by linarith
  from stored_ok [OF wf pos nf this len]
  obtain rs1 m1 where rs1: "stored data nf rs = Some rs1" "rs_wf rs1"
    "rs1 = rs\<lparr> rs_buffer := Some m1, rs_wrpos := (W + nf) mod ?sz \<rparr>"
    and w: "written (smp rs1) (smp rs) ?sz ?n (W mod ?sz) nf data" by metis
  have rs1_eq: "rs_nchannels rs1 = ?n" "rs_size rs1 = ?sz" "rs_method rs1 = rs_method rs" using rs1(3) by auto
  obtain rs2 m2 where rs2: "(if rs_method rs1 \<noteq> method_none then do {
        rs' \<leftarrow> (if ?front then mirror_front ?n rs1 else Some rs1);
        if ?rear then mirror_rear ?n rs' else Some rs' } else Some rs1) = Some rs2"
    "rs2 = rs1\<lparr> rs_buffer := Some m2 \<rparr>" "rs_wf rs2"
    "if rs_method rs \<noteq> method_none then mirrored (smp rs2) (smp rs1) ?sz ?n ?front ?rear else smp rs2 = smp rs1"
  proof (cases "rs_method rs = method_none")
    case True
    then show ?thesis using rs1 rs1_eq by (intro that [of rs1 m1]) auto
  next
    case False
    obtain rs2 m2 where "do {
        rs' \<leftarrow> (if ?front then mirror_front ?n rs1 else Some rs1);
        if ?rear then mirror_rear ?n rs' else Some rs' } = Some rs2"
      "rs2 = rs1\<lparr> rs_buffer := Some m2 \<rparr>" "rs_wf rs2"
      "mirrored (smp rs2) (smp rs1) ?sz ?n ?front ?rear"
      by (rule mirror_ok [OF rs1(2), of ?front ?rear, unfolded rs1_eq])
    then show ?thesis using False rs1_eq by (intro that [of rs2 m2]) simp_all
  qed
  have "\<not> trunc (of_int ?sz - rs_balance rs) - 1 < nf"
  proof -
    have le: "of_int (nf + 1) \<le> of_int ?sz - rs_balance rs" using True by simp
    then have "0 \<le> of_int ?sz - rs_balance rs" using nf by simp
    then show ?thesis
      using le_floor_iff [of "nf + 1" "of_int ?sz - rs_balance rs"] le by (simp add: trunc_nonneg)
  qed
  then have res: "resampler_write data nf rs = Some (True, rs2\<lparr> rs_balance := rs_balance rs2 + of_int nf \<rparr>)"
    using rs1(1) rs2(1) unfolding resampler_write_stored pos by simp
  have "slots_hold (smp rs2) ?sz ?n (rs_method rs \<noteq> method_none)
      (extend_stream s W nf ?n data) (first_frame (rs_method rs)) (W + nf)"
    by (rule slots_hold_write [OF hold w]) (use rs2(4) nf \<open>nf < ?sz\<close> in auto)
  moreover have "\<exists>m w b. rs2\<lparr> rs_balance := rs_balance rs2 + of_int nf \<rparr>
      = rs\<lparr> rs_buffer := m, rs_wrpos := w, rs_balance := b \<rparr>"
    using rs1(3) rs2(2) by (intro exI [of _ "Some m2"] exI [of _ "(W + nf) mod ?sz"]
        exI [of _ "rs_balance rs + of_int nf"]) simp
  moreover have "streams (rs2\<lparr> rs_balance := rs_balance rs2 + of_int nf \<rparr>)
      (extend_stream s W nf ?n data) (W + nf) R"
    using st calculation(1) True rs1(3) rs2(2,3) nf bal by (simp add: streams_def)
  ultimately show ?thesis using True res by simp
qed

subsection \<open>Reading\<close>

lemma residue_bounds: "0 < sz \<Longrightarrow> 0 \<le> residue sz x \<and> residue sz x < of_int sz"
  using floor_divide_lower [of "of_int sz" x] floor_divide_upper [of "of_int sz" x]
  by (simp add: residue_def algebra_simps)

lemma residue_floor: "0 < sz \<Longrightarrow> \<lfloor>residue sz x\<rfloor> = \<lfloor>x\<rfloor> mod sz"
proof -
  assume "0 < sz"
  then have "\<lfloor>residue sz x\<rfloor> = \<lfloor>x\<rfloor> - sz * (\<lfloor>x\<rfloor> div sz)"
    unfolding residue_def by (subst of_int_mult [symmetric], subst floor_diff_of_int)
      (simp add: floor_divide_real_eq_div)
  then show ?thesis by (simp add: minus_mult_div_eq_mod)
qed

lemma residue_frac:
  assumes "0 < sz"
  shows "residue sz x - of_int \<lfloor>residue sz x\<rfloor> = frac x"
  using assms unfolding residue_def frac_def
  by (subst of_int_mult [symmetric], subst floor_diff_of_int) simp

lemma residue_wrap:
  assumes sz: "0 < sz" and a: "0 \<le> a" "a \<le> of_int sz"
  shows "wrap_pos (of_int sz) (residue sz x + a) = residue sz (x + a)"
proof -
  let ?q = "\<lfloor>x / of_int sz\<rfloor>" and ?r = "residue sz x"
  have r: "0 \<le> ?r" "?r < of_int sz" using residue_bounds [OF sz] by auto
  have x: "x + a = of_int sz * of_int ?q + (?r + a)" by (simp add: residue_def)
  have q: "\<lfloor>(x + a) / of_int sz\<rfloor> = (if ?r + a \<ge> of_int sz then ?q + 1 else ?q)"
  proof (rule floor_unique)
    show "of_int (if ?r + a \<ge> of_int sz then ?q + 1 else ?q) \<le> (x + a) / of_int sz"
      using sz r a unfolding x by (simp add: field_simps)
    show "(x + a) / of_int sz < of_int (if ?r + a \<ge> of_int sz then ?q + 1 else ?q) + 1"
      using sz r a unfolding x by (simp add: field_simps)
  qed
  show ?thesis unfolding residue_def [of sz "x + a"] q wrap_pos_def using x by (auto simp: algebra_simps)
qed

lemma residue_of_int: "0 < sz \<Longrightarrow> residue sz (of_int k) = of_int (k mod sz)"
proof -
  assume "0 < sz"
  then have "residue sz (of_int k) = of_int (k - sz * (k div sz))"
    by (simp add: residue_def floor_divide_real_eq_div)
  then show ?thesis by (simp add: minus_mult_div_eq_mod)
qed


text \<open>What a reader should get: the value of the stream at a position, by the method.\<close>

definition interpolate :: "resample_method \<Rightarrow> (int \<Rightarrow> int \<Rightarrow> real) \<Rightarrow> real \<Rightarrow> int \<Rightarrow> real" where
  "interpolate m s x j =
     (let k = \<lfloor>x\<rfloor>
      in case m of
        method_cubic \<Rightarrow> cubic_sample (frac x) (s (k - 1) j) (s k j) (s (k + 1) j) (s (k + 2) j)
      | method_linear \<Rightarrow> linear_sample (frac x) (s k j) (s (k + 1) j)
      | _ \<Rightarrow> s k j)"

definition resampled ::
    "resample_method \<Rightarrow> (int \<Rightarrow> int \<Rightarrow> real) \<Rightarrow> real \<Rightarrow> real \<Rightarrow> nat \<Rightarrow> nat \<Rightarrow> real list" where
  "resampled m s R a nf n =
     concat (map (\<lambda>i. map (\<lambda>j. interpolate m s (R + of_nat i * a) (int j)) [0..<n]) [0..<nf])"

text \<open>The distance between two output frames.\<close>

definition step_size :: "dynamic_resampler \<Rightarrow> real" where
  "step_size rs =
     (case rs_method rs of method_none \<Rightarrow> 1 | method_skip \<Rightarrow> of_int (trunc (rs_advance rs)) | _ \<Rightarrow> rs_advance rs)"

lemma those_map_Some: "(\<And>x. x \<in> set xs \<Longrightarrow> f x = Some (g x)) \<Longrightarrow> those (map f xs) = Some (map g xs)"
  by (induction xs) auto

text \<open>The frame \<open>k\<close> of the stream, read through the slot of \<open>k\<close> or through a mirror.\<close>

lemma slot_read:
  assumes hold: "slots_hold (smp rs) (rs_size rs) (rs_nchannels rs) mirror s lo W" and wf: "rs_wf rs"
    and k: "lo \<le> k" "W - rs_size rs \<le> k" "k < W" and j: "0 \<le> j" "j < rs_nchannels rs"
  shows "buf_at rs (k mod rs_size rs * rs_nchannels rs + j) = Some (s k j)"
    and "mirror \<Longrightarrow> rs_size rs \<le> k \<Longrightarrow> k mod rs_size rs < 2 \<Longrightarrow>
      buf_at rs ((rs_size rs + k mod rs_size rs) * rs_nchannels rs + j) = Some (s k j)"
    and "mirror \<Longrightarrow> k mod rs_size rs = rs_size rs - 1 \<Longrightarrow> buf_at rs ((-1) * rs_nchannels rs + j) = Some (s k j)"
proof -
  let ?sz = "rs_size rs"
  have sz: "3 \<le> ?sz" using wf by (simp add: rs_wf_def)
  then have m: "0 \<le> k mod ?sz" "k mod ?sz < ?sz" by simp_all
  have h: "smp rs (k mod ?sz) j = s k j"
    "mirror \<Longrightarrow> ?sz \<le> k \<Longrightarrow> k mod ?sz < 2 \<Longrightarrow> smp rs (?sz + k mod ?sz) j = s k j"
    "mirror \<Longrightarrow> k mod ?sz = ?sz - 1 \<Longrightarrow> smp rs (-1) j = s k j"
    using hold k j unfolding slots_hold_def by blast+
  show "buf_at rs (k mod ?sz * rs_nchannels rs + j) = Some (s k j)"
    using buf_at_smp [OF wf _ _ j, of "k mod ?sz"] m h(1) by simp
  show "mirror \<Longrightarrow> ?sz \<le> k \<Longrightarrow> k mod ?sz < 2 \<Longrightarrow>
      buf_at rs ((?sz + k mod ?sz) * rs_nchannels rs + j) = Some (s k j)"
    using buf_at_smp [OF wf _ _ j, of "?sz + k mod ?sz"] m h(2) sz by simp
  show "mirror \<Longrightarrow> k mod ?sz = ?sz - 1 \<Longrightarrow> buf_at rs ((-1) * rs_nchannels rs + j) = Some (s k j)"
    using buf_at_smp [OF wf _ _ j, of "-1"] h(3) sz by simp
qed

text \<open>Reading \<open>d\<close> slots after or one slot before the slot of frame \<open>k\<close>.\<close>

lemma slot_read_offset:
  assumes hold: "slots_hold (smp rs) (rs_size rs) (rs_nchannels rs) True s lo W" and wf: "rs_wf rs"
    and k: "0 \<le> k" "lo \<le> k + d" "W - rs_size rs \<le> k + d" "k + d < W" and d: "-1 \<le> d" "d \<le> 2"
    and j: "0 \<le> j" "j < rs_nchannels rs"
  shows "buf_at rs ((k mod rs_size rs + d) * rs_nchannels rs + j) = Some (s (k + d) j)"
proof -
  let ?sz = "rs_size rs" and ?i = "k mod rs_size rs"
  have sz: "3 \<le> ?sz" using wf by (simp add: rs_wf_def)
  then have i: "0 \<le> ?i" "?i < ?sz" "?i \<le> k" using k(1) by (simp_all add: zmod_le_nonneg_dividend)
  note rd = slot_read [OF hold wf k(2-4) j]
  have m: "(k + d) mod ?sz = (?i + d) mod ?sz" by (simp add: mod_simps)
  consider "0 \<le> ?i + d" "?i + d < ?sz" | "?sz \<le> ?i + d" | "?i + d = -1" using i d by linarith
  then show ?thesis
  proof cases
    case 1
    then show ?thesis using rd(1) m by simp
  next
    case 2
    then have "(k + d) mod ?sz = ?i + d - ?sz"
      using m mod_wrap_once [of ?sz "?i + d"] i d sz by simp
    then show ?thesis using rd(2) 2 i d sz by simp
  next
    case 3
    then have "(k + d) mod ?sz = ?sz - 1" using m sz by (simp add: zmod_minus1)
    then show ?thesis using rd(3) 3 by simp
  qed
qed


text \<open>One frame, by each method, at a position inside the stream.\<close>

lemma frame_at:
  assumes st: "streams rs s W R" and x: "R \<le> x" "x + of_int (method_latency (rs_method rs)) < of_int W"
  shows "rs_method rs = method_cubic \<Longrightarrow> cubic_frame rs (residue (rs_size rs) x)
      = Some (map (\<lambda>j. interpolate (rs_method rs) s x (int j)) [0..<nat (rs_nchannels rs)])"
    and "rs_method rs = method_linear \<Longrightarrow> linear_frame rs (residue (rs_size rs) x)
      = Some (map (\<lambda>j. interpolate (rs_method rs) s x (int j)) [0..<nat (rs_nchannels rs)])"
    and "rs_method rs \<notin> {method_cubic, method_linear} \<Longrightarrow> hold_frame rs (residue (rs_size rs) x)
      = Some (map (\<lambda>j. interpolate (rs_method rs) s x (int j)) [0..<nat (rs_nchannels rs)])"
proof -
  let ?sz = "rs_size rs" and ?k = "\<lfloor>x\<rfloor>" and ?n = "rs_nchannels rs"
  have wf: "rs_wf rs" and hold: "slots_hold (smp rs) ?sz ?n (rs_method rs \<noteq> method_none) s
      (first_frame (rs_method rs)) W" and R: "0 \<le> R" "of_int W - R \<le> of_int ?sz - 1"
    using st by (auto simp: streams_def)
  have sz: "0 < ?sz" using wf by (simp add: rs_wf_def)
  have "of_int (W - ?sz + 1) \<le> x" using R x by simp
  then have lo: "W - ?sz \<le> ?k - 1" using le_floor_iff [of "W - ?sz + 1" x] by simp
  have k0: "0 \<le> ?k" using R x by simp
  have "?k + method_latency (rs_method rs) < W" using x(2) by linarith
  then have hi: "?k + d < W" if "d \<le> method_latency (rs_method rs)" for d using that by linarith
  have pos: "trunc (residue ?sz x) = ?k mod ?sz" "residue ?sz x - of_int (?k mod ?sz) = frac x"
    using residue_bounds [OF sz, of x] residue_floor [OF sz, of x] residue_frac [OF sz, of x]
    by (simp_all add: trunc_nonneg)
  show "cubic_frame rs (residue ?sz x)
      = Some (map (\<lambda>j. interpolate (rs_method rs) s x (int j)) [0..<nat ?n])" if m: "rs_method rs = method_cubic"
  proof -
    have rd: "buf_at rs ((?k mod ?sz + d) * ?n + int j) = Some (s (?k + d) (int j))"
      if "-1 \<le> d" "d \<le> 2" "j < nat ?n" for d j
      using slot_read_offset [of rs s "-1" W ?k d "int j"] hold wf k0 lo hi [of d] that m
      by (simp add: first_frame_def method_latency_def latency_cubic_def zless_nat_eq_int_zless)
    show ?thesis
      unfolding cubic_frame_def Let_def pos
      by (rule those_map_Some)
        (use rd [of "-1"] rd [of 0] rd [of 1] rd [of 2] m in \<open>simp add: interpolate_def Let_def\<close>)
  qed
  show "linear_frame rs (residue ?sz x)
      = Some (map (\<lambda>j. interpolate (rs_method rs) s x (int j)) [0..<nat ?n])" if m: "rs_method rs = method_linear"
  proof -
    have rd: "buf_at rs ((?k mod ?sz + d) * ?n + int j) = Some (s (?k + d) (int j))"
      if "0 \<le> d" "d \<le> 1" "j < nat ?n" for d j
      using slot_read_offset [of rs s 0 W ?k d "int j"] hold wf k0 lo hi [of d] that m
      by (simp add: first_frame_def method_latency_def latency_linear_def zless_nat_eq_int_zless)
    show ?thesis
      unfolding linear_frame_def Let_def pos
      by (rule those_map_Some)
        (use rd [of 0] rd [of 1] m in \<open>simp add: interpolate_def Let_def\<close>)
  qed
  show "hold_frame rs (residue ?sz x)
      = Some (map (\<lambda>j. interpolate (rs_method rs) s x (int j)) [0..<nat ?n])"
    if m: "rs_method rs \<notin> {method_cubic, method_linear}"
  proof -
    have rd: "buf_at rs (?k mod ?sz * ?n + int j) = Some (s ?k (int j))" if "j < nat ?n" for j
      using slot_read(1) [OF hold wf, of ?k "int j"] k0 lo hi [of 0] that m
      by (auto simp: first_frame_def method_latency_def zless_nat_eq_int_zless split: resample_method.splits)
    show ?thesis
      unfolding hold_frame_def Let_def pos
      by (rule those_map_Some)
        (use rd m in \<open>auto simp: interpolate_def Let_def split: resample_method.splits\<close>)
  qed
qed

lemma read_loop_ok:
  assumes "0 < sz" and "0 \<le> a" and "a \<le> of_int sz"
    and "\<And>i. i < nf \<Longrightarrow> f (residue sz (x + of_nat i * a)) = Some (g (x + of_nat i * a))"
  shows "read_loop f a (of_int sz) nf (residue sz x) = Some (concat (map (\<lambda>i. g (x + of_nat i * a)) [0..<nf]))"
  using assms(4)
proof (induction nf arbitrary: x)
  case 0
  then show ?case by simp
next
  case (Suc nf)
  have "read_loop f a (of_int sz) nf (residue sz (x + a))
      = Some (concat (map (\<lambda>i. g (x + a + of_nat i * a)) [0..<nf]))"
    using Suc.prems [of "Suc _"] by (intro Suc.IH) (simp add: algebra_simps)
  moreover have "f (residue sz x) = Some (g x)" using Suc.prems [of 0] by simp
  moreover have "map (\<lambda>i. g (x + of_nat i * a)) [0..<Suc nf]
      = g x # map (\<lambda>i. g (x + a + of_nat i * a)) [0..<nf]"
    by (subst upt_conv_Cons, simp, subst map_Suc_upt [symmetric]) (simp add: algebra_simps)
  ultimately show ?case using residue_wrap [OF assms(1-3), of x] by (simp del: upt_Suc)
qed


lemma streams_advance:
  assumes st: "streams rs s W R" and q: "0 \<le> q" "R + q \<le> of_int W"
    and z: "rs_method rs \<in> {method_none, method_skip} \<Longrightarrow> q \<in> \<int>"
  shows "streams (rs\<lparr> rs_rdpos := residue (rs_size rs) (R + q), rs_balance := of_int W - (R + q) \<rparr>) s W (R + q)"
  using assms by (auto simp: streams_def intro: Ints_add)

lemma read_interpolate_ok:
  assumes st: "streams rs s W R" and nf: "0 \<le> nf" and a: "0 < rs_advance rs"
    and m: "rs_method rs \<in> {method_cubic, method_linear, method_hold}"
    and f: "\<And>x. R \<le> x \<Longrightarrow> x + of_int (method_latency (rs_method rs)) < of_int W \<Longrightarrow>
      f (residue (rs_size rs) x) = Some (map (\<lambda>j. interpolate (rs_method rs) s x (int j)) [0..<nat (rs_nchannels rs)])"
    and ok: "of_int nf * rs_advance rs \<le> rs_balance rs - of_int (method_latency (rs_method rs))"
  shows "\<exists>rs'. read_interpolate f (method_latency (rs_method rs)) nf rs
      = Some (True, resampled (rs_method rs) s R (rs_advance rs) (nat nf) (nat (rs_nchannels rs)), rs') \<and>
    streams rs' s W (R + of_int nf * rs_advance rs) \<and> (\<exists>r b. rs' = rs\<lparr> rs_rdpos := r, rs_balance := b \<rparr>)"
proof -
  let ?sz = "rs_size rs" and ?a = "rs_advance rs" and ?lat = "method_latency (rs_method rs)"
  let ?q = "of_int nf * ?a"
  have wf: "rs_wf rs" and bal: "rs_balance rs = of_int W - R" "of_int W - R \<le> of_int ?sz - 1"
    and rd: "rs_rdpos rs = residue ?sz R" using st by (auto simp: streams_def)
  have sz: "0 < ?sz" using wf by (simp add: rs_wf_def)
  have lat: "0 \<le> ?lat" by (simp add: method_latency_def resampler_consts split: resample_method.split)
  have q: "0 \<le> ?q" using nf a by simp
  have "read_loop f ?a (of_int ?sz) (nat nf) (residue ?sz R)
      = Some (resampled (rs_method rs) s R ?a (nat nf) (nat (rs_nchannels rs)))"
  proof (cases "nf = 0")
    case True
    then show ?thesis by (simp add: resampled_def)
  next
    case False
    then have "1 * ?a \<le> ?q" using nf a by (intro mult_right_mono) auto
    then have le: "?a \<le> of_int ?sz" using ok bal lat by linarith
    show ?thesis
      unfolding resampled_def
    proof (rule read_loop_ok [OF sz less_imp_le [OF a] le])
      fix i assume "i < nat nf"
      then have "int i + 1 \<le> nf" using nf by linarith
      then have "of_int (int i + 1) * ?a \<le> ?q" using a by (intro mult_right_mono) (auto simp only: of_int_le_iff)
      then have "R + of_nat i * ?a + ?a \<le> of_int W - of_int ?lat" using ok bal by (simp add: algebra_simps)
      then show "f (residue ?sz (R + of_nat i * ?a))
          = Some (map (\<lambda>j. interpolate (rs_method rs) s (R + of_nat i * ?a) (int j)) [0..<nat (rs_nchannels rs)])"
        using a by (intro f) auto
    qed
  qed
  moreover have "wrap_pos (of_int ?sz) (residue ?sz R + ?q) = residue ?sz (R + ?q)"
    using ok bal lat q by (intro residue_wrap [OF sz]) auto
  moreover have "streams (rs\<lparr> rs_rdpos := residue ?sz (R + ?q), rs_balance := of_int W - (R + ?q) \<rparr>) s W (R + ?q)"
    using streams_advance [OF st q] m ok bal lat by auto
  moreover have "rs_balance rs - ?q = of_int W - (R + ?q)" using bal by simp
  moreover have "\<not> rs_balance rs - of_int ?lat < ?q" using ok by simp
  ultimately have "read_interpolate f ?lat nf rs
      = Some (True, resampled (rs_method rs) s R ?a (nat nf) (nat (rs_nchannels rs)),
          rs\<lparr> rs_rdpos := residue ?sz (R + ?q), rs_balance := of_int W - (R + ?q) \<rparr>)"
    and "streams (rs\<lparr> rs_rdpos := residue ?sz (R + ?q), rs_balance := of_int W - (R + ?q) \<rparr>) s W (R + ?q)"
    unfolding read_interpolate_def Let_def rd by simp_all
  then show ?thesis by blast
qed

lemma frames_concat:
  assumes "length xs = c * n" and "\<And>i j. i < c \<Longrightarrow> j < n \<Longrightarrow> xs ! (i * n + j) = g i j"
  shows "xs = concat (map (\<lambda>i. map (g i) [0..<n]) [0..<c])"
  using assms
proof (induction c arbitrary: xs)
  case 0
  then show ?case by simp
next
  case (Suc c)
  have "take (c * n) xs = concat (map (\<lambda>i. map (g i) [0..<n]) [0..<c])"
  proof (rule Suc.IH)
    fix i j assume ij: "i < c" "j < n"
    then have "i * n + j < Suc i * n" by simp
    also have "\<dots> \<le> c * n" using ij by (intro mult_le_mono1) simp
    finally show "take (c * n) xs ! (i * n + j) = g i j" using Suc.prems(2) [of i j] ij by simp
  qed (use Suc.prems(1) in simp)
  moreover have "drop (c * n) xs = map (g c) [0..<n]"
    using Suc.prems by (intro nth_equalityI) simp_all
  ultimately show ?case using append_take_drop_id [of "c * n" xs] by simp
qed

lemma interpolate_int: "m \<in> {method_none, method_skip} \<Longrightarrow> interpolate m s (of_int k) j = s k j"
  by (auto simp: interpolate_def)

lemma skip_loop_ok:
  assumes wf: "rs_wf rs" and a: "0 \<le> a" "a \<le> rs_size rs"
    and f: "\<And>i j. i < nf \<Longrightarrow> j < nat (rs_nchannels rs) \<Longrightarrow>
      buf_at rs ((k + int i * a) mod rs_size rs * rs_nchannels rs + int j) = Some (s (k + int i * a) (int j))"
  shows "skip_loop rs a nf (k mod rs_size rs) = Some
    (concat (map (\<lambda>i. map (\<lambda>j. s (k + int i * a) (int j)) [0..<nat (rs_nchannels rs)]) [0..<nf]),
     (k + int nf * a) mod rs_size rs)"
  using f
proof (induction nf arbitrary: k)
  case 0
  then show ?case by simp
next
  case (Suc nf)
  let ?sz = "rs_size rs" and ?g = "\<lambda>k. map (\<lambda>j. s k (int j)) [0..<nat (rs_nchannels rs)]"
  have sz: "0 < ?sz" using wf by (simp add: rs_wf_def)
  have "0 \<le> k mod ?sz" "k mod ?sz < ?sz" using sz by simp_all
  then have "(if k mod ?sz + a \<ge> ?sz then k mod ?sz + a - ?sz else k mod ?sz + a) = (k mod ?sz + a) mod ?sz"
    using a mod_wrap_once [of ?sz "k mod ?sz + a"] by simp
  then have w: "(if k mod ?sz + a \<ge> ?sz then k mod ?sz + a - ?sz else k mod ?sz + a) = (k + a) mod ?sz"
    by (simp add: mod_simps)
  have "skip_loop rs a nf ((k + a) mod ?sz)
      = Some (concat (map (\<lambda>i. ?g (k + a + int i * a)) [0..<nf]), (k + a + int nf * a) mod ?sz)"
    using Suc.prems [of "Suc _"] by (intro Suc.IH) (simp add: algebra_simps)
  moreover have "those (map (\<lambda>j. buf_at rs (k mod ?sz * rs_nchannels rs + int j)) [0..<nat (rs_nchannels rs)])
      = Some (?g k)"
    using Suc.prems [of 0] by (intro those_map_Some) auto
  moreover have "map (\<lambda>i. ?g (k + int i * a)) [0..<Suc nf] = ?g k # map (\<lambda>i. ?g (k + a + int i * a)) [0..<nf]"
    by (subst upt_conv_Cons, simp, subst map_Suc_upt [symmetric]) (simp add: algebra_simps)
  moreover have "k + int (Suc nf) * a = k + a + int nf * a" by (simp add: algebra_simps)
  ultimately show ?case using w by (simp add: Let_def add.assoc del: upt_Suc of_nat_Suc)
qed


lemma read_skip_ok:
  assumes st: "streams rs s W R" and nf: "0 \<le> nf" and a: "0 < trunc (rs_advance rs)"
    and m: "rs_method rs = method_skip"
    and ok: "of_int nf * of_int (trunc (rs_advance rs)) \<le> rs_balance rs"
  shows "\<exists>rs'. read_skip nf rs = Some (True, resampled (rs_method rs) s R (of_int (trunc (rs_advance rs)))
        (nat nf) (nat (rs_nchannels rs)), rs') \<and>
    streams rs' s W (R + of_int nf * of_int (trunc (rs_advance rs))) \<and>
    (\<exists>r b. rs' = rs\<lparr> rs_rdpos := r, rs_balance := b \<rparr>)"
proof -
  let ?sz = "rs_size rs" and ?a = "trunc (rs_advance rs)" and ?n = "rs_nchannels rs"
  have wf: "rs_wf rs" and bal: "rs_balance rs = of_int W - R" "of_int W - R \<le> of_int ?sz - 1" "0 \<le> R"
    and rd: "rs_rdpos rs = residue ?sz R" and z: "R \<in> \<int>" using st m by (auto simp: streams_def)
  from z obtain k where k: "R = of_int k" by (auto elim: Ints_cases)
  have sz: "0 < ?sz" using wf by (simp add: rs_wf_def)
  have le: "k + nf * ?a \<le> W" "W - k \<le> ?sz - 1" "0 \<le> k"
    using ok bal k by (simp_all only: flip: of_int_mult of_int_add of_int_diff)
  have at: "buf_at rs (i mod ?sz * ?n + int j) = Some (s i (int j))" if "k \<le> i" "i < W" "j < nat ?n" for i j
    using slot_read(1) [of rs _ s 0 W i "int j"] st that le m wf
    by (auto simp: streams_def first_frame_def zless_nat_eq_int_zless)
  have "skip_loop rs ?a (nat nf) (k mod ?sz) = Some
      (concat (map (\<lambda>i. map (\<lambda>j. s (k + int i * ?a) (int j)) [0..<nat ?n]) [0..<nat nf]),
       (k + int (nat nf) * ?a) mod ?sz)"
  proof (cases "nf = 0")
    case True
    then show ?thesis by simp
  next
    case False
    have "1 * ?a \<le> nf * ?a" using False nf a by (intro mult_right_mono) auto
    then have "?a \<le> ?sz" using le by linarith
    then show ?thesis
    proof (intro skip_loop_ok [OF wf])
      fix i j assume i: "i < nat nf" and j: "j < nat ?n"
      have "(int i + 1) * ?a \<le> nf * ?a" using i a by (intro mult_right_mono) auto
      then have "k + int i * ?a < W" using le a by (simp add: algebra_simps)
      then show "buf_at rs ((k + int i * ?a) mod ?sz * ?n + int j) = Some (s (k + int i * ?a) (int j))"
        using at j a by simp
    qed (use a in simp)
  qed
  moreover have "concat (map (\<lambda>i. map (\<lambda>j. s (k + int i * ?a) (int j)) [0..<nat ?n]) [0..<nat nf])
      = resampled (rs_method rs) s R (of_int ?a) (nat nf) (nat ?n)"
  proof -
    have "interpolate method_skip s (of_int k + of_nat i * of_int ?a) j = s (k + int i * ?a) j" for i j
      using interpolate_int [of method_skip s "k + int i * ?a" j] by simp
    then show ?thesis unfolding resampled_def k m by simp
  qed
  moreover have "trunc (rs_rdpos rs) = k mod ?sz" "trunc (rs_balance rs) = W - k"
    using rd bal k residue_of_int [OF sz] by (simp_all flip: of_int_diff)
  ultimately have "read_skip nf rs = Some (True, resampled (rs_method rs) s R (of_int ?a) (nat nf) (nat ?n),
      rs\<lparr> rs_rdpos := of_int ((k + nf * ?a) mod ?sz), rs_balance := of_int (W - k - nf * ?a) \<rparr>)"
    using le nf by (simp add: read_skip_def Let_def)
  moreover have "streams (rs\<lparr> rs_rdpos := of_int ((k + nf * ?a) mod ?sz),
      rs_balance := of_int (W - k - nf * ?a) \<rparr>) s W (R + of_int nf * of_int ?a)"
  proof -
    have "0 \<le> of_int nf * (of_int ?a :: real)" using nf a by simp
    moreover have "residue ?sz (R + of_int nf * of_int ?a) = of_int ((k + nf * ?a) mod ?sz)"
      using residue_of_int [OF sz, of "k + nf * ?a"] k by simp
    ultimately show ?thesis
      using streams_advance [OF st, of "of_int nf * of_int ?a"] bal ok k by (simp add: diff_diff_eq)
  qed
  ultimately show ?thesis by blast
qed


text \<open>Without resampling the samples are copied in one or two pieces.\<close>

lemma buf_get_stream:
  assumes wf: "rs_wf rs" and p: "0 \<le> p" "0 \<le> c" "p + c \<le> rs_size rs"
    and s: "\<And>i j. 0 \<le> i \<Longrightarrow> i < c \<Longrightarrow> 0 \<le> j \<Longrightarrow> j < rs_nchannels rs \<Longrightarrow> smp rs (p + i) j = s (k + i) j"
  shows "buf_get (p * rs_nchannels rs) (c * rs_nchannels rs) rs
    = Some (concat (map (\<lambda>i. map (\<lambda>j. s (k + int i) (int j)) [0..<nat (rs_nchannels rs)]) [0..<nat c]))"
proof -
  let ?n = "rs_nchannels rs"
  have n: "0 < ?n" using wf by (simp add: rs_wf_def)
  from buf_get_frames [OF wf, of p c] p
  obtain xs where xs: "buf_get (p * ?n) (c * ?n) rs = Some xs" "int (length xs) = c * ?n"
    and nth: "\<And>i j. \<lbrakk>0 \<le> i; i < c; 0 \<le> j; j < ?n\<rbrakk> \<Longrightarrow> xs ! nat (i * ?n + j) = smp rs (p + i) j"
    by auto
  have "xs = concat (map (\<lambda>i. map (\<lambda>j. s (k + int i) (int j)) [0..<nat ?n]) [0..<nat c])"
  proof (rule frames_concat)
    show "length xs = nat c * nat ?n" using xs(2) p n by (simp flip: nat_mult_distrib)
    fix i j assume ij: "i < nat c" "j < nat ?n"
    have "i * nat ?n + j = nat (int i * ?n + int j)" using n by (simp add: nat_add_distrib nat_mult_distrib)
    then show "xs ! (i * nat ?n + j) = s (k + int i) (int j)"
      using nth [of "int i" "int j"] s [of "int i" "int j"] ij by simp
  qed
  then show ?thesis using xs by simp
qed

lemma read_reblock_ok:
  assumes st: "streams rs s W R" and nf: "0 \<le> nf" and m: "rs_method rs = method_none"
    and ok: "of_int nf \<le> rs_balance rs"
  shows "\<exists>rs'. read_reblock nf rs
      = Some (True, resampled (rs_method rs) s R 1 (nat nf) (nat (rs_nchannels rs)), rs') \<and>
    streams rs' s W (R + of_int nf) \<and> (\<exists>r b. rs' = rs\<lparr> rs_rdpos := r, rs_balance := b \<rparr>)"
proof -
  let ?sz = "rs_size rs" and ?n = "rs_nchannels rs"
  let ?out = "\<lambda>k c. concat (map (\<lambda>i. map (\<lambda>j. s (k + int i) (int j)) [0..<nat ?n]) [0..<nat c])"
  have wf: "rs_wf rs" and bal: "rs_balance rs = of_int W - R" "of_int W - R \<le> of_int ?sz - 1" "0 \<le> R"
    and rd: "rs_rdpos rs = residue ?sz R" and z: "R \<in> \<int>"
    and hold: "slots_hold (smp rs) ?sz ?n False s 0 W" using st m by (auto simp: streams_def first_frame_def)
  from z obtain k where k: "R = of_int k" by (auto elim: Ints_cases)
  have sz: "0 < ?sz" using wf by (simp add: rs_wf_def)
  have le: "k + nf \<le> W" "W - k \<le> ?sz - 1" "0 \<le> k"
    using ok bal k by (simp_all only: flip: of_int_mult of_int_add of_int_diff)
  let ?p = "k mod ?sz"
  have p: "0 \<le> ?p" "?p < ?sz" using sz by simp_all
  have smp: "smp rs (i mod ?sz) j = s i j" if "k \<le> i" "i < W" "0 \<le> j" "j < ?n" for i j
    using hold that le unfolding slots_hold_def by simp
  have wrap: "(k + nf) mod ?sz = (if ?p + nf < ?sz then ?p + nf else ?p + nf - ?sz)"
    using mod_add_wrap [OF p, of nf] nf le by (simp add: mod_simps)
  have get1: "buf_get (?p * ?n) (c * ?n) rs = Some (?out k c)" if "0 \<le> c" "c \<le> nf" "?p + c \<le> ?sz" for c
  proof (rule buf_get_stream [OF wf p(1) that(1,3)])
    fix i j assume ij: "0 \<le> i" "i < c" "0 \<le> j" "j < ?n"
    have "(k + i) mod ?sz = (?p + i) mod ?sz" by (simp add: mod_simps)
    then have "(k + i) mod ?sz = ?p + i" using ij that p by simp
    then show "smp rs (?p + i) j = s (k + i) j" using smp [of "k + i" j] ij that le by simp
  qed
  have get2: "buf_get 0 (c * ?n) rs = Some (?out (k + (?sz - ?p)) c)"
    if "0 \<le> c" "?sz - ?p + c \<le> nf" for c
  proof -
    have "buf_get (0 * ?n) (c * ?n) rs = Some (?out (k + (?sz - ?p)) c)"
    proof (rule buf_get_stream [OF wf order_refl that(1)])
      fix i j assume ij: "0 \<le> i" "i < c" "0 \<le> j" "j < ?n"
      have "(k + (?sz - ?p) + i) mod ?sz = (k - ?p + i) mod ?sz" by (simp add: mod_simps algebra_simps)
      also have "\<dots> = i mod ?sz" by (simp add: minus_mod_eq_mult_div)
      finally have "(k + (?sz - ?p) + i) mod ?sz = i" using ij that le p nf by simp
      then show "smp rs (0 + i) j = s (k + (?sz - ?p) + i) j"
        using smp [of "k + (?sz - ?p) + i" j] ij that le p by simp
    qed (use that le nf p in simp)
    then show ?thesis by simp
  qed
  have out: "?out k c @ ?out (k + c) d = ?out k (c + d)" if "0 \<le> c" "0 \<le> d" for c d
  proof -
    have "[0..<nat (c + d)] = [0..<nat c] @ map (\<lambda>i. i + nat c) [0..<nat d]"
      using that upt_add_eq_append [of 0 "nat c" "nat d"]
      by (simp add: nat_add_distrib map_add_upt add.commute)
    then show ?thesis using that by (simp add: comp_def algebra_simps)
  qed
  have "?out k nf = resampled (rs_method rs) s R 1 (nat nf) (nat ?n)"
  proof -
    have "interpolate method_none s (of_int k + of_nat i) j = s (k + int i) j" for i j
      using interpolate_int [of method_none s "k + int i" j] by simp
    then show ?thesis unfolding resampled_def k m by simp
  qed
  moreover have tr: "trunc (rs_rdpos rs) = ?p" "trunc (rs_balance rs) = W - k"
    using rd bal k residue_of_int [OF sz] by (simp_all flip: of_int_diff)
  moreover have "read_reblock nf rs = Some (True, ?out k nf,
      rs\<lparr> rs_rdpos := of_int ((k + nf) mod ?sz), rs_balance := of_int (W - k - nf) \<rparr>)"
  proof (cases "?p + nf > ?sz")
    case True
    have "buf_get (?p * ?n) (?sz * ?n - ?p * ?n) rs = Some (?out k (?sz - ?p))"
      using get1 [of "?sz - ?p"] p True by (simp add: left_diff_distrib)
    moreover have "buf_get 0 ((?p + nf - ?sz) * ?n) rs = Some (?out (k + (?sz - ?p)) (?p + nf - ?sz))"
      using get2 [of "?p + nf - ?sz"] True by simp
    moreover have "?out k (?sz - ?p) @ ?out (k + (?sz - ?p)) (?p + nf - ?sz) = ?out k nf"
      using out [of "?sz - ?p" "?p + nf - ?sz"] True p by simp
    ultimately show ?thesis using True tr le wrap by (simp add: read_reblock_def Let_def)
  next
    case False
    then have "buf_get (?p * ?n) ((?p + nf) * ?n - ?p * ?n) rs = Some (?out k nf)"
      using get1 [of nf] nf by (simp add: algebra_simps)
    then show ?thesis using False tr le wrap by (simp add: read_reblock_def Let_def)
  qed
  moreover have "streams (rs\<lparr> rs_rdpos := of_int ((k + nf) mod ?sz),
      rs_balance := of_int (W - k - nf) \<rparr>) s W (R + of_int nf)"
    using streams_advance [OF st, of "of_int nf"] bal ok nf k residue_of_int [OF sz, of "k + nf"]
    by (simp add: diff_diff_eq)
  ultimately show ?thesis by metis
qed


lemma resampler_read_ok:
  assumes st: "streams rs s W R" and nf: "0 \<le> nf" and a: "0 < step_size rs"
  shows "if of_int nf * step_size rs \<le> rs_balance rs - of_int (method_latency (rs_method rs))
    then \<exists>rs'. resampler_read nf rs
        = Some (True, resampled (rs_method rs) s R (step_size rs) (nat nf) (nat (rs_nchannels rs)), rs') \<and>
      streams rs' s W (R + of_int nf * step_size rs) \<and> (\<exists>r b. rs' = rs\<lparr> rs_rdpos := r, rs_balance := b \<rparr>)
    else resampler_read nf rs = Some (False, [], rs)"
proof (cases "of_int nf * step_size rs \<le> rs_balance rs - of_int (method_latency (rs_method rs))")
  case ok: True
  show ?thesis
  proof (cases "rs_method rs")
    case method_none
    then show ?thesis using read_reblock_ok [OF st nf] ok
      by (simp add: resampler_read_def step_size_def method_latency_def)
  next
    case method_skip
    then show ?thesis using read_skip_ok [OF st nf] ok a
      by (simp add: resampler_read_def step_size_def method_latency_def)
  next
    case method_hold
    have "hold_frame rs (residue (rs_size rs) x)
        = Some (map (\<lambda>j. interpolate (rs_method rs) s x (int j)) [0..<nat (rs_nchannels rs)])"
      if "R \<le> x" "x + of_int (method_latency (rs_method rs)) < of_int W" for x
      using frame_at(3) [OF st that] method_hold by simp
    from read_interpolate_ok [OF st nf _ _ this] show ?thesis using ok a method_hold
      by (simp add: resampler_read_def step_size_def method_latency_def)
  next
    case method_linear
    have "linear_frame rs (residue (rs_size rs) x)
        = Some (map (\<lambda>j. interpolate (rs_method rs) s x (int j)) [0..<nat (rs_nchannels rs)])"
      if "R \<le> x" "x + of_int (method_latency (rs_method rs)) < of_int W" for x
      using frame_at(2) [OF st that] method_linear by simp
    from read_interpolate_ok [OF st nf _ _ this] show ?thesis using ok a method_linear
      by (simp add: resampler_read_def step_size_def method_latency_def)
  next
    case method_cubic
    have "cubic_frame rs (residue (rs_size rs) x)
        = Some (map (\<lambda>j. interpolate (rs_method rs) s x (int j)) [0..<nat (rs_nchannels rs)])"
      if "R \<le> x" "x + of_int (method_latency (rs_method rs)) < of_int W" for x
      using frame_at(1) [OF st that] method_cubic by simp
    from read_interpolate_ok [OF st nf _ _ this] show ?thesis using ok a method_cubic
      by (simp add: resampler_read_def step_size_def method_latency_def)
  qed
next
  case False
  have int_bal: "rs_balance rs = of_int (trunc (rs_balance rs))" if "rs_method rs \<in> {method_none, method_skip}"
    using st that by (auto simp: streams_def elim!: Ints_cases simp flip: of_int_diff)
  have "trunc (rs_balance rs) < nf" if "rs_method rs = method_none"
    using False int_bal that by (simp add: step_size_def method_latency_def)
  moreover have "trunc (rs_balance rs) < nf * trunc (rs_advance rs)" if "rs_method rs = method_skip"
  proof -
    have "of_int (trunc (rs_balance rs)) < (of_int (nf * trunc (rs_advance rs)) :: real)"
      using False int_bal that by (simp add: step_size_def method_latency_def)
    then show ?thesis by (simp only: of_int_less_iff)
  qed
  ultimately show ?thesis using False
    by (cases "rs_method rs") (simp_all add: resampler_read_def read_interpolate_def read_skip_def
        read_reblock_def step_size_def method_latency_def Let_def)
qed

subsection \<open>Setting up\<close>

lemma buf_fill_frames:
  assumes wf: "rs_wf rs" and p: "-1 \<le> p" "p + c \<le> rs_size rs + 2" "0 \<le> c"
  shows "\<exists>rs' m. buf_fill (p * rs_nchannels rs) (c * rs_nchannels rs) rs = Some rs' \<and> rs_wf rs' \<and>
    rs' = rs\<lparr> rs_buffer := Some m \<rparr> \<and>
    (\<forall>i j. -1 \<le> i \<longrightarrow> i < rs_size rs + 2 \<longrightarrow> 0 \<le> j \<longrightarrow> j < rs_nchannels rs \<longrightarrow>
      smp rs' i j = (if p \<le> i \<and> i < p + c then 0 else smp rs i j))"
proof -
  let ?n = "rs_nchannels rs" and ?xs = "replicate (nat (c * rs_nchannels rs)) (0::real)"
  have n: "0 < ?n" using wf by (simp add: rs_wf_def)
  have len: "int (length ?xs) = c * ?n" using p n by simp
  show ?thesis
  proof (rule buf_put_frames [OF wf p len])
    fix rs'
    assume rs': "buf_put (p * ?n) ?xs rs = Some rs'" "rs_wf rs'" "\<exists>m. rs' = rs\<lparr> rs_buffer := Some m \<rparr>"
      and smp: "\<And>i j. \<lbrakk>-1 \<le> i; i < rs_size rs + 2; 0 \<le> j; j < ?n\<rbrakk> \<Longrightarrow>
        smp rs' i j = (if p \<le> i \<and> i < p + c then ?xs ! nat ((i - p) * ?n + j) else smp rs i j)"
    have "?xs ! nat ((i - p) * ?n + j) = 0" if "p \<le> i" "i < p + c" "0 \<le> j" "j < ?n" for i j
    proof -
      have "(i - p) * ?n + j < c * ?n" using that by (simp add: frame_less_iff)
      then show ?thesis using frame_nonneg [of "i - p" j ?n] that n by (intro nth_replicate) linarith
    qed
    then show ?thesis using rs' smp by (auto simp: buf_fill_def)
  qed
qed

lemma resampler_reset_ok:
  assumes wf: "rs_wf rs"
  shows "\<exists>rs'. resampler_reset rs = Some rs' \<and> streams rs' (\<lambda>k j. 0) (method_latency (rs_method rs)) 0 \<and>
    (\<exists>m w r b. rs' = rs\<lparr> rs_buffer := m, rs_wrpos := w, rs_rdpos := r, rs_balance := b \<rparr>)"
proof -
  let ?n = "rs_nchannels rs" and ?sz = "rs_size rs"
  have n: "0 < ?n" "3 \<le> ?sz" using wf by (simp_all add: rs_wf_def)
  have res: "residue ?sz 0 = 0" by (simp add: residue_def)
  obtain m0 where m0: "rs_buffer rs = Some m0" using wf by (auto simp: rs_wf_def)
  consider "rs_method rs = method_cubic" | "rs_method rs = method_linear"
    | "rs_method rs \<notin> {method_cubic, method_linear}" by auto
  then show ?thesis
  proof cases
    case 1
    from buf_fill_frames [OF wf, of 0 2] n
    obtain rs1 m1 where rs1: "buf_fill 0 (2 * ?n) rs = Some rs1" "rs_wf rs1" "rs1 = rs\<lparr> rs_buffer := Some m1 \<rparr>"
      and s1: "\<forall>i j. -1 \<le> i \<longrightarrow> i < ?sz + 2 \<longrightarrow> 0 \<le> j \<longrightarrow> j < ?n \<longrightarrow>
        smp rs1 i j = (if 0 \<le> i \<and> i < 0 + 2 then 0 else smp rs i j)" by auto
    from buf_fill_frames [OF rs1(2), of "?sz - 1" 1] n rs1(3)
    obtain rs2 m2 where rs2: "buf_fill (?sz * ?n - ?n) ?n rs1 = Some rs2" "rs_wf rs2" "rs2 = rs\<lparr> rs_buffer := Some m2 \<rparr>"
      and s2: "\<forall>i j. -1 \<le> i \<longrightarrow> i < ?sz + 2 \<longrightarrow> 0 \<le> j \<longrightarrow> j < ?n \<longrightarrow>
        smp rs2 i j = (if ?sz - 1 \<le> i \<and> i < ?sz - 1 + 1 then 0 else smp rs1 i j)"
      by (auto simp: left_diff_distrib)
    from buf_fill_frames [OF rs2(2), of "-1" 1] n rs2(3)
    obtain rs3 m3 where rs3: "buf_fill (- ?n) ?n rs2 = Some rs3" "rs_wf rs3" "rs3 = rs\<lparr> rs_buffer := Some m3 \<rparr>"
      and s3: "\<forall>i j. -1 \<le> i \<longrightarrow> i < ?sz + 2 \<longrightarrow> 0 \<le> j \<longrightarrow> j < ?n \<longrightarrow>
        smp rs3 i j = (if -1 \<le> i \<and> i < -1 + 1 then 0 else smp rs2 i j)" by auto
    have "slots_hold (smp rs3) ?sz ?n True (\<lambda>k j. 0) (-1) 2"
      unfolding slots_hold_def
    proof (intro allI impI)
      fix k j :: int
      assume kj: "-1 \<le> k" "2 - ?sz \<le> k" "k < 2" "0 \<le> j" "j < ?n"
      then consider "k = -1" | "k = 0" | "k = 1" by linarith
      then show "smp rs3 (k mod ?sz) j = 0 \<and> (True \<longrightarrow> (?sz \<le> k \<and> k mod ?sz < 2 \<longrightarrow> smp rs3 (?sz + k mod ?sz) j = 0) \<and>
          (k mod ?sz = ?sz - 1 \<longrightarrow> smp rs3 (-1) j = 0))"
        by cases (use kj n s1 s2 s3 in \<open>auto simp: zmod_minus1\<close>)
    qed
    then have "streams (rs3\<lparr> rs_wrpos := 2, rs_rdpos := 0, rs_balance := 2 \<rparr>) (\<lambda>k j. 0) 2 0"
      using rs3 n 1 res by (simp add: streams_def first_frame_def)
    moreover have "resampler_reset rs = Some (rs3\<lparr> rs_wrpos := 2, rs_rdpos := 0, rs_balance := 2 \<rparr>)"
      using 1 rs1(1) rs2(1) rs3(1) by (simp add: resampler_reset_def Let_def resampler_consts)
    ultimately show ?thesis using 1 rs3(3) by (auto simp: method_latency_def latency_cubic_def)
  next
    case 2
    from buf_fill_frames [OF wf, of 0 1] n
    obtain rs1 m1 where rs1: "buf_fill 0 ?n rs = Some rs1" "rs_wf rs1" "rs1 = rs\<lparr> rs_buffer := Some m1 \<rparr>"
      and s1: "\<forall>i j. -1 \<le> i \<longrightarrow> i < ?sz + 2 \<longrightarrow> 0 \<le> j \<longrightarrow> j < ?n \<longrightarrow>
        smp rs1 i j = (if 0 \<le> i \<and> i < 0 + 1 then 0 else smp rs i j)" by auto
    have "slots_hold (smp rs1) ?sz ?n True (\<lambda>k j. 0) 0 1"
      unfolding slots_hold_def using s1 n by auto
    then have "streams (rs1\<lparr> rs_wrpos := 1, rs_rdpos := 0, rs_balance := 1 \<rparr>) (\<lambda>k j. 0) 1 0"
      using rs1 n 2 res by (simp add: streams_def first_frame_def)
    moreover have "resampler_reset rs = Some (rs1\<lparr> rs_wrpos := 1, rs_rdpos := 0, rs_balance := 1 \<rparr>)"
      using 2 rs1(1) by (simp add: resampler_reset_def Let_def resampler_consts)
    ultimately show ?thesis using 2 rs1(3) by (auto simp: method_latency_def latency_linear_def)
  next
    case 3
    then have l: "method_latency (rs_method rs) = 0" "first_frame (rs_method rs) = 0"
      by (auto simp: method_latency_def first_frame_def split: resample_method.split)
    have "slots_hold (smp rs) ?sz ?n mir (\<lambda>k j. 0) 0 0" for mir
      unfolding slots_hold_def by auto
    then have "streams (rs\<lparr> rs_wrpos := 0, rs_rdpos := 0, rs_balance := 0 \<rparr>) (\<lambda>k j. 0) 0 0"
      using wf n l res by (simp add: streams_def)
    moreover have "resampler_reset rs = Some (rs\<lparr> rs_wrpos := 0, rs_rdpos := 0, rs_balance := 0 \<rparr>)"
      using 3 by (auto simp: resampler_reset_def Let_def split: resample_method.split)
    moreover have "rs\<lparr> rs_wrpos := 0, rs_rdpos := 0, rs_balance := 0 \<rparr>
        = rs\<lparr> rs_buffer := rs_buffer rs, rs_wrpos := 0, rs_rdpos := 0, rs_balance := 0 \<rparr>" by simp
    ultimately show ?thesis using l by metis
  qed
qed


text \<open>
  A resampler whose buffer, if there is one, was allocated for its channel count. Setting it up again
  must not meet a buffer of the same total length with another number of channels.
\<close>

definition consistent :: "dynamic_resampler \<Rightarrow> bool" where
  "consistent rs \<longleftrightarrow> (case rs_buffer rs of None \<Rightarrow> True
     | Some m \<Rightarrow> rs_base rs = buffer_shift * rs_nchannels rs \<and>
         int (length m) = (rs_size rs + extra_space) * rs_nchannels rs)"

definition reuses_buffer :: "int \<Rightarrow> int \<Rightarrow> dynamic_resampler \<Rightarrow> bool" where
  "reuses_buffer sz nchannels rs \<longleftrightarrow> rs_buffer rs \<noteq> None \<and>
     (rs_size rs + extra_space) * rs_nchannels rs = (sz + extra_space) * nchannels"

lemma resampler_space_large:
  assumes "2 \<le> nfrom"
  shows "3 \<le> resampler_space nfrom nto ratio"
proof -
  have *: "3 \<le> trunc (of_int sz * (5 / 2))" if "2 \<le> sz" for sz :: int
  proof -
    have "(of_int 3 :: real) \<le> of_int sz * (5 / 2)" using that by simp
    then have "3 \<le> \<lfloor>of_int sz * (5 / 2) :: real\<rfloor>" by (simp add: le_floor_iff)
    then show ?thesis using that by (simp add: trunc_nonneg)
  qed
  show ?thesis using assms unfolding resampler_space_def Let_def by (intro *) auto
qed

lemma free_buffer_ok: "consistent rs \<Longrightarrow> \<exists>rs'. free_buffer rs = Some rs' \<and>
    rs' = rs\<lparr> rs_buffer := None, rs_size := rs_size rs' \<rparr>"
  by (cases "rs_buffer rs") (auto simp: consistent_def free_buffer_def)

lemma resampler_setup_ok:
  assumes c: "consistent rs" and n: "0 < nch" "2 \<le> nfrom"
    and reuse: "reuses_buffer (resampler_space nfrom nto (of_int srto / of_int srfrom)) nch rs \<Longrightarrow> rs_nchannels rs = nch"
    and m: "choose_method srfrom srto fixed_sr mode = (m, lat)"
    and nb: "\<not> (m = method_none \<and> fixed_n \<and> nfrom = nto)"
  shows "\<exists>rs'. resampler_setup nfrom nto fixed_n srfrom srto fixed_sr nch mode rs = Some rs' \<and>
    streams rs' (\<lambda>k j. 0) (method_latency m) 0 \<and> rs_method rs' = m \<and> rs_nchannels rs' = nch \<and>
    rs_size rs' = resampler_space nfrom nto (of_int srto / of_int srfrom) \<and>
    (m \<noteq> method_none \<longrightarrow> rs_advance rs' = of_int srfrom / of_int srto)"
proof -
  let ?ratio = "of_int srto / of_int srfrom :: real"
  let ?sz = "resampler_space nfrom nto ?ratio"
  define rs0 where "rs0 = rs\<lparr> rs_ideal_ratio := ?ratio, rs_fixed_sr := fixed_sr, rs_latency := lat,
    rs_method := m, rs_bypass := False \<rparr>"
  have rs0: "consistent rs0" "rs_buffer rs0 = rs_buffer rs" "rs_size rs0 = rs_size rs"
    "rs_nchannels rs0 = rs_nchannels rs" "rs_base rs0 = rs_base rs" "rs_method rs0 = m"
    using c by (auto simp: rs0_def consistent_def split: option.splits)
  have sz: "3 \<le> ?sz" using resampler_space_large n by simp
  have pos: "(?sz + extra_space) * nch \<noteq> 0" using n sz by (simp add: extra_space_def)
  let ?old = "if rs_buffer rs0 \<noteq> None then (rs_size rs0 + extra_space) * rs_nchannels rs0 else 0"
  let ?alloc = "if ?old \<noteq> (?sz + extra_space) * nch then do {
      rs \<leftarrow> free_buffer rs0;
      Some (rs\<lparr> rs_buffer := Some (replicate (nat ((?sz + extra_space) * nch)) 0), rs_base := buffer_shift * nch \<rparr>) }
    else Some rs0"
  obtain rs1 where rs1: "?alloc = Some rs1" "rs_method rs1 = m" "rs_base rs1 = buffer_shift * nch"
    "\<exists>b. rs_buffer rs1 = Some b \<and> int (length b) = (?sz + extra_space) * nch"
  proof (cases "?old = (?sz + extra_space) * nch")
    case True
    then have "reuses_buffer ?sz nch rs" using pos rs0 by (simp add: reuses_buffer_def split: if_splits)
    then show ?thesis using True reuse rs0 c
      by (intro that [of rs0]) (auto simp: reuses_buffer_def consistent_def split: option.splits)
  next
    case False
    then show ?thesis using free_buffer_ok [OF rs0(1)] rs0(6) n sz
      by (auto simp: extra_space_def intro!: that) (metis dynamic_resampler.select_convs(6)
          dynamic_resampler.surjective dynamic_resampler.update_convs(1,3))
  qed
  define rs2 where "rs2 = (if m \<noteq> method_none
    then resampler_update (of_int srfrom) (of_int srto) (rs1\<lparr> rs_size := ?sz, rs_nchannels := nch \<rparr>)
    else rs1\<lparr> rs_size := ?sz, rs_nchannels := nch \<rparr>)"
  have rs2: "rs_wf rs2" "rs_method rs2 = m" "rs_nchannels rs2 = nch" "rs_size rs2 = ?sz"
    "m \<noteq> method_none \<longrightarrow> rs_advance rs2 = of_int srfrom / of_int srto"
    using rs1(2-4) n sz by (simp_all add: rs2_def rs_wf_def resampler_update_def)
  have bypass: "(m = method_none \<and> \<not> (\<not> fixed_n \<or> nfrom \<noteq> nto)) = False" using nb by blast
  have "resampler_setup nfrom nto fixed_n srfrom srto fixed_sr nch mode rs = resampler_reset rs2"
    unfolding resampler_setup_def Let_def m prod.case bypass if_False rs0_def [symmetric] rs1(1) Option.bind.simps rs2_def ..
  then show ?thesis using resampler_reset_ok [OF rs2(1)] rs2 by auto
qed


subsection \<open>The resampler implements the stream\<close>

text \<open>
  The specification has no buffer: its state is the stream, the number of frames written, the reading
  position and the current advance. A write is accepted while it leaves one frame of the capacity
  free, a read once all the frames it interpolates have been written.
\<close>

datatype rs_op = RsWrite "real list" int | RsRead int | RsUpdate real real

type_synonym stream_spec = "(int \<Rightarrow> int \<Rightarrow> real) \<times> int \<times> real \<times> real"

definition step_of :: "resample_method \<Rightarrow> real \<Rightarrow> real" where
  "step_of m a = (case m of method_none \<Rightarrow> 1 | method_skip \<Rightarrow> of_int (trunc a) | _ \<Rightarrow> a)"

fun spec_op :: "resample_method \<Rightarrow> int \<Rightarrow> int \<Rightarrow> rs_op \<Rightarrow> stream_spec \<Rightarrow> real list option \<times> stream_spec" where
  "spec_op m sz n (RsWrite data nf) (s, W, R, a) =
     (if of_int W - R + of_int nf \<le> of_int sz - 1
      then (Some [], extend_stream s W nf n data, W + nf, R, a) else (None, s, W, R, a))"
| "spec_op m sz n (RsRead nf) (s, W, R, a) =
     (if of_int nf * step_of m a \<le> of_int W - R - of_int (method_latency m)
      then (Some (resampled m s R (step_of m a) (nat nf) (nat n)), s, W, R + of_int nf * step_of m a, a)
      else (None, s, W, R, a))"
| "spec_op m sz n (RsUpdate srfrom srto) (s, W, R, a) = (Some [], s, W, R, srfrom / srto)"

fun spec_run :: "resample_method \<Rightarrow> int \<Rightarrow> int \<Rightarrow> rs_op list \<Rightarrow> stream_spec \<Rightarrow> real list option list" where
  "spec_run m sz n [] st = []"
| "spec_run m sz n (p # ps) st = (let (out, st) = spec_op m sz n p st in out # spec_run m sz n ps st)"

fun resampler_op :: "rs_op \<Rightarrow> dynamic_resampler \<Rightarrow> (real list option \<times> dynamic_resampler) option" where
  "resampler_op (RsWrite data nf) rs = do {
     (ok, rs) \<leftarrow> resampler_write data nf rs; Some (if ok then Some [] else None, rs) }"
| "resampler_op (RsRead nf) rs = do {
     (ok, out, rs) \<leftarrow> resampler_read nf rs; Some (if ok then Some out else None, rs) }"
| "resampler_op (RsUpdate srfrom srto) rs = Some (Some [], resampler_update srfrom srto rs)"

fun resampler_run :: "rs_op list \<Rightarrow> dynamic_resampler \<Rightarrow> real list option list option" where
  "resampler_run [] rs = Some []"
| "resampler_run (p # ps) rs = do {
     (out, rs) \<leftarrow> resampler_op p rs; outs \<leftarrow> resampler_run ps rs; Some (out # outs) }"

text \<open>What callers respect: the block is large enough, and the rates are positive.\<close>

fun valid_op :: "resample_method \<Rightarrow> int \<Rightarrow> rs_op \<Rightarrow> bool" where
  "valid_op m n (RsWrite data nf) \<longleftrightarrow> 0 \<le> nf \<and> nf * n \<le> int (length data)"
| "valid_op m n (RsRead nf) \<longleftrightarrow> 0 \<le> nf"
| "valid_op m n (RsUpdate srfrom srto) \<longleftrightarrow> 0 < srfrom \<and> 0 < srto \<and> m \<noteq> method_skip"

definition simulates :: "dynamic_resampler \<Rightarrow> stream_spec \<Rightarrow> bool" where
  "simulates rs st \<longleftrightarrow> (case st of (s, W, R, a) \<Rightarrow>
     streams rs s W R \<and> rs_advance rs = a \<and> 0 < step_of (rs_method rs) a)"

lemma step_size_step_of: "step_size rs = step_of (rs_method rs) (rs_advance rs)"
  by (simp add: step_size_def step_of_def)

lemma streams_update: "streams (rs\<lparr> rs_advance := a \<rparr>) s W R = streams rs s W R"
proof -
  have "smp (rs\<lparr> rs_advance := a \<rparr>) = smp rs" by (simp add: smp_def fun_eq_iff)
  then show ?thesis by (simp add: streams_def rs_wf_def)
qed

lemma resampler_op_simulates:
  assumes sim: "simulates rs st" and p: "valid_op (rs_method rs) (rs_nchannels rs) p"
    and q: "spec_op (rs_method rs) (rs_size rs) (rs_nchannels rs) p st = (out, st')"
  shows "\<exists>rs'. resampler_op p rs = Some (out, rs') \<and> simulates rs' st' \<and> rs_method rs' = rs_method rs \<and>
    rs_size rs' = rs_size rs \<and> rs_nchannels rs' = rs_nchannels rs"
proof -
  obtain s W R a where st: "st = (s, W, R, a)" by (cases st)
  then have str: "streams rs s W R" and a: "rs_advance rs = a" "0 < step_of (rs_method rs) a"
    and bal: "rs_balance rs = of_int W - R"
    using sim by (auto simp: simulates_def streams_def)
  show ?thesis
  proof (cases p)
    case (RsWrite data nf)
    then have v: "0 \<le> nf" "nf * rs_nchannels rs \<le> int (length data)" using p by auto
    show ?thesis
      using resampler_write_ok [OF str v] q st RsWrite bal a sim
      by (auto simp: simulates_def split: if_splits)
  next
    case (RsRead nf)
    then have v: "0 \<le> nf" using p by auto
    show ?thesis
      using resampler_read_ok [OF str v] q st RsRead bal a sim
      by (auto simp: simulates_def step_size_step_of split: if_splits)
  next
    case (RsUpdate f t)
    then have "0 < step_of (rs_method rs) (f / t)" using p by (auto simp: step_of_def split: resample_method.split)
    then show ?thesis using q st RsUpdate str
      by (auto simp: simulates_def resampler_update_def streams_update)
  qed
qed

lemma resampler_run_simulates:
  assumes "simulates rs st" and "\<forall>p \<in> set ps. valid_op (rs_method rs) (rs_nchannels rs) p"
  shows "resampler_run ps rs = Some (spec_run (rs_method rs) (rs_size rs) (rs_nchannels rs) ps st)"
  using assms
proof (induction ps arbitrary: rs st)
  case Nil
  then show ?case by simp
next
  case (Cons p ps)
  obtain out st' where q: "spec_op (rs_method rs) (rs_size rs) (rs_nchannels rs) p st = (out, st')"
    by (cases "spec_op (rs_method rs) (rs_size rs) (rs_nchannels rs) p st")
  with Cons.prems obtain rs' where rs': "resampler_op p rs = Some (out, rs')" "simulates rs' st'"
    "rs_method rs' = rs_method rs" "rs_size rs' = rs_size rs" "rs_nchannels rs' = rs_nchannels rs"
    using resampler_op_simulates [of rs st p out st'] by auto
  then show ?case using Cons.IH [OF rs'(2)] Cons.prems(2) q by simp
qed

text \<open>
  C32. The resampler implements the stream. After a setup, whatever blocks are written and read and
  however the rates drift, the code never accesses memory outside its buffer, refuses exactly the
  writes that do not fit and the reads that come too early, and every read returns the
  interpolation of the frames written so far at the next positions: the ring buffer, its wrap-around
  and the mirrored frames at its ends are invisible.
\<close>

theorem resampler_refines_stream:
  assumes "consistent rs" and "0 < nch" and "2 \<le> nfrom" and "0 < srfrom" and "0 < srto"
    and "reuses_buffer (resampler_space nfrom nto (of_int srto / of_int srfrom)) nch rs \<Longrightarrow> rs_nchannels rs = nch"
    and "choose_method srfrom srto fixed_sr mode = (m, lat)"
    and "\<not> (m = method_none \<and> fixed_n \<and> nfrom = nto)"
    and "\<forall>p \<in> set ps. valid_op m nch p"
  shows "\<exists>rs' a. resampler_setup nfrom nto fixed_n srfrom srto fixed_sr nch mode rs = Some rs' \<and>
    (m \<noteq> method_none \<longrightarrow> a = of_int srfrom / of_int srto) \<and>
    resampler_run ps rs' = Some (spec_run m (resampler_space nfrom nto (of_int srto / of_int srfrom)) nch ps
      ((\<lambda>k j. 0), method_latency m, 0, a))"
proof -
  from resampler_setup_ok [OF assms(1-3,6-8)] obtain rs' where
    rs': "resampler_setup nfrom nto fixed_n srfrom srto fixed_sr nch mode rs = Some rs'"
    "streams rs' (\<lambda>k j. 0) (method_latency m) 0" "rs_method rs' = m" "rs_nchannels rs' = nch"
    "rs_size rs' = resampler_space nfrom nto (of_int srto / of_int srfrom)"
    "m \<noteq> method_none \<longrightarrow> rs_advance rs' = of_int srfrom / of_int srto" by blast
  have "0 < trunc (of_int srfrom / of_int srto)" if "m = method_skip"
  proof -
    have "srto < srfrom" using assms(7) that by (auto simp: choose_method_def split: if_splits AooResampleMethod.splits)
    then have "(of_int 1 :: real) \<le> of_int srfrom / of_int srto" using assms(5) by (simp add: field_simps)
    then have "1 \<le> \<lfloor>of_int srfrom / of_int srto :: real\<rfloor>" by (simp only: le_floor_iff)
    then show ?thesis using assms(4,5) by (simp add: trunc_nonneg)
  qed
  then have "0 < step_of m (rs_advance rs')"
    using rs'(6) assms(4,5) by (cases m) (simp_all add: step_of_def)
  then have "simulates rs' ((\<lambda>k j. 0), method_latency m, 0, rs_advance rs')"
    using rs' by (simp add: simulates_def)
  from resampler_run_simulates [OF this, of ps] show ?thesis using rs' assms(9) by auto
qed

theorem resampler_refines_stream_witness:
  "\<exists>rs' a. resampler_setup 2 2 False 4 4 False 1 kAooResampleLinear resampler_new = Some rs' \<and>
    resampler_run [RsWrite [3, 5] 2, RsUpdate 1 2, RsRead 4, RsRead 4] rs'
      = Some [Some [], Some [], Some [0, 3 / 2, 3, 4], None]"
proof -
  let ?m = "method_linear" and ?ps = "[RsWrite [3, 5] 2, RsUpdate 1 2, RsRead 4, RsRead 4]"
  let ?sz = "resampler_space 2 2 (of_int 4 / of_int 4)"
  have sz: "?sz = 5" by (simp add: resampler_space_def trunc_def)
  have "\<exists>rs' a. resampler_setup 2 2 False 4 4 False 1 kAooResampleLinear resampler_new = Some rs' \<and>
    (?m \<noteq> method_none \<longrightarrow> a = of_int 4 / of_int 4) \<and>
    resampler_run ?ps rs' = Some (spec_run ?m ?sz 1 ?ps ((\<lambda>k j. 0), method_latency ?m, 0, a))"
    by (rule resampler_refines_stream [where lat = latency_linear])
      (simp_all add: consistent_def resampler_new_def reuses_buffer_def choose_method_def)
  moreover have "spec_run ?m ?sz 1 ?ps ((\<lambda>k j. 0), method_latency ?m, 0, a)
      = [Some [], Some [], Some [0, 3 / 2, 3, 4], None]" for a
    unfolding sz by (simp add: method_latency_def latency_linear_def step_of_def resampled_def
        interpolate_def linear_sample_def extend_stream_def frac_def numeral_eq_Suc Let_def)
  ultimately show ?thesis by metis
qed


text \<open>
  Setting up a resampler again keeps the old buffer when the total number of samples is the same,
  even if the number of channels differs. The pointer is then shifted by the old number of channels:
  from 2 channels of 157 frames to 4 channels of 77 frames, the reset that ends the setup writes
  in front of the allocated memory, where a new resampler is set up without fault.
\<close>

theorem resampler_setup_reuse_fault:
  "resampler_setup 31 31 False 48000 48000 False 4 kAooResampleCubic resampler_new \<noteq> None \<and>
   do { rs \<leftarrow> resampler_setup 63 63 False 48000 48000 False 2 kAooResampleCubic resampler_new;
        resampler_setup 31 31 False 48000 48000 False 4 kAooResampleCubic rs } = None"
proof
  have sp: "resampler_space 63 63 (of_int 48000 / of_int 48000) = 157"
    "resampler_space 31 31 (of_int 48000 / of_int 48000) = 77"
    by (simp_all add: resampler_space_def trunc_def)
  have m: "choose_method 48000 48000 False kAooResampleCubic = (method_cubic, latency_cubic)"
    by (simp add: choose_method_def)
  have new: "consistent resampler_new" "\<not> reuses_buffer sz n resampler_new" for sz n
    by (simp_all add: consistent_def reuses_buffer_def resampler_new_def)
  show "resampler_setup 31 31 False 48000 48000 False 4 kAooResampleCubic resampler_new \<noteq> None"
    using resampler_setup_ok [OF new(1) _ _ _ m, of 4 31 31 False] new(2) by auto
  from resampler_setup_ok [OF new(1) _ _ _ m, of 2 63 63 False] new(2)
  obtain rs where rs: "resampler_setup 63 63 False 48000 48000 False 2 kAooResampleCubic resampler_new = Some rs"
    "rs_wf rs" "rs_size rs = 157" "rs_nchannels rs = 2"
    using sp by (auto simp: streams_def)
  then obtain b where b: "rs_buffer rs = Some b" "length b = 320" "rs_base rs = 2"
    by (auto simp: rs_wf_def resampler_consts)
  have "resampler_setup 31 31 False 48000 48000 False 4 kAooResampleCubic rs = None"
    unfolding resampler_setup_def m sp Let_def
    using rs b by (simp add: resampler_reset_def resampler_update_def buf_fill_def buf_put_def resampler_consts Let_def)
  then show "do { rs \<leftarrow> resampler_setup 63 63 False 48000 48000 False 2 kAooResampleCubic resampler_new;
        resampler_setup 31 31 False 48000 48000 False 4 kAooResampleCubic rs } = None"
    using rs by simp
qed

end
