(* ===== verification/Priority_Queue.thy ===== *)
theory Priority_Queue
  imports Prelude "HOL-Library.Multiset"
begin

text \<open>
  \<^verbatim>\<open>common/priority_queue.hpp\<close>: a priority queue that keeps elements of equal priority in the order in
  which they were pushed. It is a binary heap (\<^verbatim>\<open>std::push_heap\<close>, \<^verbatim>\<open>std::pop_heap\<close>) of pairs of
  an element and a running number.

  The contract of the heap functions is that the front is an element that no other element exceeds;
  the model keeps the pairs in a list and takes that element. The locale \<open>stable_queue\<close> states what a
  client relies on; it has two instances, this queue and the sorted list of stream
  messages of a sink (theory \<open>Stream_Message\<close>).
\<close>

subsection \<open>The queue\<close>

record 'a priority_queue =
  pq_queue :: "('a \<times> nat) list"
  pq_counter :: nat

definition pq_new :: "'a priority_queue" where
  "pq_new = \<lparr> pq_queue = [], pq_counter = 0 \<rparr>"

definition pq_clear :: "'a priority_queue \<Rightarrow> 'a priority_queue" where
  "pq_clear q = q\<lparr> pq_queue := [], pq_counter := 0 \<rparr>"

definition pq_empty :: "'a priority_queue \<Rightarrow> bool" where
  "pq_empty q \<longleftrightarrow> pq_queue q = []"

definition proxy_comp :: "('a \<Rightarrow> 'a \<Rightarrow> bool) \<Rightarrow> 'a \<times> nat \<Rightarrow> 'a \<times> nat \<Rightarrow> bool" where
  "proxy_comp cmp l r =
     (if cmp (fst l) (fst r) then True
      else if cmp (fst r) (fst l) then False
      else snd l > snd r)"

text \<open>The front of the heap: an element that no other one exceeds.\<close>

fun heap_front :: "('a \<Rightarrow> 'a \<Rightarrow> bool) \<Rightarrow> ('a \<times> nat) list \<Rightarrow> 'a \<times> nat \<Rightarrow> 'a \<times> nat" where
  "heap_front cmp [] m = m"
| "heap_front cmp (p # ps) m = heap_front cmp ps (if proxy_comp cmp m p then p else m)"

definition pq_front :: "('a \<Rightarrow> 'a \<Rightarrow> bool) \<Rightarrow> 'a priority_queue \<Rightarrow> 'a \<times> nat" where
  "pq_front cmp q = heap_front cmp (tl (pq_queue q)) (hd (pq_queue q))"

definition pq_top :: "('a \<Rightarrow> 'a \<Rightarrow> bool) \<Rightarrow> 'a priority_queue \<Rightarrow> 'a" where
  "pq_top cmp q = fst (pq_front cmp q)"

definition pq_push :: "'a \<Rightarrow> 'a priority_queue \<Rightarrow> 'a priority_queue" where
  "pq_push x q = q\<lparr> pq_queue := pq_queue q @ [(x, pq_counter q)], pq_counter := Suc (pq_counter q) \<rparr>"

definition pq_pop :: "('a \<Rightarrow> 'a \<Rightarrow> bool) \<Rightarrow> 'a priority_queue \<Rightarrow> 'a priority_queue" where
  "pq_pop cmp q =
     (let q = q\<lparr> pq_queue := filter (\<lambda>p. snd p \<noteq> snd (pq_front cmp q)) (pq_queue q) \<rparr>
      in if pq_empty q then q\<lparr> pq_counter := 0 \<rparr> else q)"

subsection \<open>Stable insertion\<close>

text \<open>Insertion behind all the elements with the same or a smaller key.\<close>

fun insert_after :: "('a \<Rightarrow> 'k::linorder) \<Rightarrow> 'a \<Rightarrow> 'a list \<Rightarrow> 'a list" where
  "insert_after key x [] = [x]"
| "insert_after key x (y # ys) = (if key y \<le> key x then y # insert_after key x ys else x # y # ys)"

lemma set_insert_after [simp]: "set (insert_after key x ys) = insert x (set ys)"
  by (induction ys) auto

lemma mset_insert_after [simp]: "mset (insert_after key x ys) = add_mset x (mset ys)"
  by (induction ys) auto

lemma insert_after_neq_Nil [simp]: "insert_after key x ys \<noteq> []"
  by (cases ys) auto

lemma sorted_insert_after:
  "sorted (map key ys) \<Longrightarrow> sorted (map key (insert_after key x ys))"
  by (induction ys) auto

lemma insort_insert_after:
  "sorted (map key ys) \<Longrightarrow> insort_key key y (insert_after key x ys) = insert_after key x (insort_key key y ys)"
  by (induction ys) (auto simp: insort_is_Cons)

lemma sort_key_snoc: "sort_key key (xs @ [x]) = insert_after key x (sort_key key xs)"
  by (induction xs) (simp_all add: insort_insert_after sorted_sort_key)

lemma insert_after_first:
  "(\<And>y. y \<in> set ys \<Longrightarrow> key x < key y) \<Longrightarrow> insert_after key x ys = x # ys"
  by (cases ys) force+

subsection \<open>The interface of a stable queue\<close>

locale stable_queue =
  fixes key :: "'a \<Rightarrow> 'k::linorder"
    and inv :: "'q \<Rightarrow> bool"
    and items :: "'q \<Rightarrow> 'a list"
    and push :: "'a \<Rightarrow> 'q \<Rightarrow> 'q"
    and top :: "'q \<Rightarrow> 'a"
    and pop :: "'q \<Rightarrow> 'q"
  assumes push_inv: "inv q \<Longrightarrow> inv (push x q)"
    and push_items: "inv q \<Longrightarrow> items (push x q) = insert_after key x (items q)"
    and pop_inv: "inv q \<Longrightarrow> items q \<noteq> [] \<Longrightarrow> inv (pop q)"
    and top_items: "inv q \<Longrightarrow> items q \<noteq> [] \<Longrightarrow> top q = hd (items q)"
    and pop_items: "inv q \<Longrightarrow> items q \<noteq> [] \<Longrightarrow> items (pop q) = tl (items q)"
begin

fun drain :: "nat \<Rightarrow> 'q \<Rightarrow> 'a list" where
  "drain 0 q = []"
| "drain (Suc n) q = top q # drain n (pop q)"

lemma push_all_inv: "inv q \<Longrightarrow> inv (fold push xs q)"
  by (induction xs arbitrary: q) (auto simp: push_inv)

lemma push_all_items:
  assumes "inv q" and "items q = []"
  shows "items (fold push xs q) = sort_key key xs"
proof (induction xs rule: rev_induct)
  case Nil
  then show ?case using assms by simp
next
  case (snoc x xs)
  then show ?case using push_items [OF push_all_inv [OF assms(1)]] by (simp add: sort_key_snoc)
qed

lemma sorted_push: "inv q \<Longrightarrow> sorted (map key (items q)) \<Longrightarrow> sorted (map key (items (push x q)))"
  by (simp add: push_items sorted_insert_after)

lemma drain_items: "inv q \<Longrightarrow> n \<le> length (items q) \<Longrightarrow> drain n q = take n (items q)"
proof (induction n arbitrary: q)
  case 0
  then show ?case by simp
next
  case (Suc n)
  then have ne: "items q \<noteq> []" by auto
  then have "drain n (pop q) = take n (tl (items q))"
    using Suc.prems by (subst Suc.IH) (auto simp: pop_inv pop_items)
  then show ?case using ne top_items [OF Suc.prems(1) ne] by (cases "items q") auto
qed

text \<open>Elements come out sorted by key, and in the order of their insertion where keys are equal.\<close>

lemma stable_sort:
  assumes "inv q" and "items q = []"
  shows "drain (length xs) (fold push xs q) = sort_key key xs"
  using drain_items [OF push_all_inv [OF assms(1)], of "length xs" xs] push_all_items [OF assms, of xs]
  by simp

end

subsection \<open>The heap is a stable queue\<close>

text \<open>The comparison of the source: a message has lower priority if its time is larger.\<close>

definition later :: "('a \<Rightarrow> 'k::linorder) \<Rightarrow> 'a \<Rightarrow> 'a \<Rightarrow> bool" where
  "later key a b \<longleftrightarrow> key a > key b"

definition pq_inv :: "'a priority_queue \<Rightarrow> bool" where
  "pq_inv q \<longleftrightarrow> sorted_wrt (<) (map snd (pq_queue q)) \<and> (\<forall>p \<in> set (pq_queue q). snd p < pq_counter q)"

definition pq_items :: "('a \<Rightarrow> 'k::linorder) \<Rightarrow> 'a priority_queue \<Rightarrow> 'a list" where
  "pq_items key q = sort_key key (map fst (pq_queue q))"

lemma heap_front_snoc:
  "heap_front cmp (ps @ [p]) m
    = (if proxy_comp cmp (heap_front cmp ps m) p then p else heap_front cmp ps m)"
  by (induction ps arbitrary: m) auto

lemma heap_front_in: "heap_front cmp ps m \<in> insert m (set ps)"
  by (induction ps arbitrary: m) (auto split: if_splits)

lemma sort_key_eq_Nil [simp]: "sort_key key xs = [] \<longleftrightarrow> xs = []"
  by (metis length_0_conv length_sort)

text \<open>The front of the heap is the first of the elements with the smallest key.\<close>

lemma heap_front_sorted:
  assumes "sorted_wrt (<) (map snd (m # ps))"
  shows "sort_key key (map fst (m # ps)) =
    fst (heap_front (later key) ps m)
      # sort_key key (map fst (filter (\<lambda>p. snd p \<noteq> snd (heap_front (later key) ps m)) (m # ps)))"
  using assms
proof (induction ps rule: rev_induct)
  case Nil
  then show ?case by simp
next
  case (snoc p ps)
  let ?f = "heap_front (later key) ps m"
  have srt: "sorted_wrt (<) (map snd (m # ps))" and last: "\<forall>q \<in> set (m # ps). snd q < snd p"
    using snoc.prems by (auto simp: sorted_wrt_append)
  have f: "?f \<in> set (m # ps)" using heap_front_in [of "later key" ps m] by simp
  have IH: "sort_key key (map fst (m # ps))
      = fst ?f # sort_key key (map fst (filter (\<lambda>q. snd q \<noteq> snd ?f) (m # ps)))"
    using snoc.IH srt by simp
  have cmp: "proxy_comp (later key) ?f p \<longleftrightarrow> key (fst p) < key (fst ?f)"
    using f last by (auto simp: proxy_comp_def later_def)
  have all: "sort_key key (map fst (m # ps @ [p])) = insert_after key (fst p) (sort_key key (map fst (m # ps)))"
    using sort_key_snoc [of key "map fst (m # ps)" "fst p"] by simp
  show ?case
  proof (cases "key (fst p) < key (fst ?f)")
    case True
    have "key (fst p) < key y" if "y \<in> set (sort_key key (map fst (m # ps)))" for y
    proof -
      have "sorted (map key (fst ?f # sort_key key (map fst (filter (\<lambda>q. snd q \<noteq> snd ?f) (m # ps)))))"
        unfolding IH [symmetric] by (rule sorted_sort_key)
      then have "key (fst ?f) \<le> key y" using that unfolding IH by auto
      then show ?thesis using True by simp
    qed
    then have "sort_key key (map fst (m # ps @ [p])) = fst p # sort_key key (map fst (m # ps))"
      unfolding all by (intro insert_after_first) auto
    moreover have "filter (\<lambda>q. snd q \<noteq> snd p) (m # ps @ [p]) = m # ps"
      using last by (auto simp: filter_id_conv)
    ultimately show ?thesis using True cmp by (simp add: heap_front_snoc)
  next
    case False
    then have "key (fst ?f) \<le> key (fst p)" by simp
    then have "sort_key key (map fst (m # ps @ [p]))
        = fst ?f # insert_after key (fst p) (sort_key key (map fst (filter (\<lambda>q. snd q \<noteq> snd ?f) (m # ps))))"
      unfolding all IH by (simp only: insert_after.simps if_True)
    moreover have "filter (\<lambda>q. snd q \<noteq> snd ?f) (m # ps @ [p]) = filter (\<lambda>q. snd q \<noteq> snd ?f) (m # ps) @ [p]"
      using f last by auto
    ultimately show ?thesis using False cmp
      using sort_key_snoc [of key "map fst (filter (\<lambda>q. snd q \<noteq> snd ?f) (m # ps))" "fst p"]
      by (simp add: heap_front_snoc)
  qed
qed

lemma pq_front_items:
  assumes "pq_inv q" and "pq_queue q \<noteq> []"
  shows "pq_items key q = pq_top (later key) q
    # sort_key key (map fst (filter (\<lambda>p. snd p \<noteq> snd (pq_front (later key) q)) (pq_queue q)))"
  using heap_front_sorted [of "hd (pq_queue q)" "tl (pq_queue q)" key] assms
  by (cases "pq_queue q") (auto simp: pq_inv_def pq_items_def pq_top_def pq_front_def)

interpretation pq: stable_queue key pq_inv "pq_items key" pq_push "pq_top (later key)" "pq_pop (later key)"
  for key :: "'a \<Rightarrow> 'k::linorder"
proof
  fix q :: "'a priority_queue" and x :: 'a
  assume inv: "pq_inv q"
  then show "pq_inv (pq_push x q)"
    by (auto simp: pq_inv_def pq_push_def sorted_wrt_append less_SucI)
  show "pq_items key (pq_push x q) = insert_after key x (pq_items key q)"
    by (simp add: pq_items_def pq_push_def sort_key_snoc)
  assume ne: "pq_items key q \<noteq> []"
  then have q: "pq_queue q \<noteq> []" by (simp add: pq_items_def)
  show "pq_inv (pq_pop (later key) q)"
    using inv by (auto simp: pq_inv_def pq_pop_def pq_empty_def Let_def sorted_wrt_map sorted_wrt_filter)
  show "pq_top (later key) q = hd (pq_items key q)"
    using pq_front_items [OF inv q, of key] by simp
  show "pq_items key (pq_pop (later key) q) = tl (pq_items key q)"
    using pq_front_items [OF inv q, of key] by (simp add: pq_items_def pq_pop_def Let_def)
qed

text \<open>Popping all the elements.\<close>

fun pq_drain :: "('a \<Rightarrow> 'a \<Rightarrow> bool) \<Rightarrow> nat \<Rightarrow> 'a priority_queue \<Rightarrow> 'a list" where
  "pq_drain cmp 0 q = []"
| "pq_drain cmp (Suc n) q = pq_top cmp q # pq_drain cmp n (pq_pop cmp q)"

lemma pq_drain_eq: "pq_drain (later key) n q = pq.drain TYPE('k) key n q"
  for key :: "'a \<Rightarrow> 'k::linorder"
  by (induction n arbitrary: q) auto

text \<open>
  C37. The priority queue is a stable sort: elements pushed in any order are popped by increasing
  time, and elements with the same time in the order in which they were pushed.
\<close>

theorem priority_queue_stable:
  "pq_drain (later key) (length xs) (fold pq_push xs pq_new) = sort_key key xs"
  unfolding pq_drain_eq by (rule pq.stable_sort) (simp_all add: pq_inv_def pq_new_def pq_items_def)

end
