(* ===== verification/Stream_Message.thy ===== *)
theory Stream_Message
  imports Byte_Utils Priority_Queue Resampler
begin

text \<open>
  Stream messages: data that travels in a block together with the audio. The source keeps the messages
  in a priority queue and writes those that fall into the next block in front of the audio data
  (\<^verbatim>\<open>Source::send_data\<close>); the sink reads them from the block, schedules them in a list sorted by
  time (\<^verbatim>\<open>source_desc::sched_stream_message\<close>) and dispatches them in the process
  block in which they are due (\<^verbatim>\<open>source_desc::dispatch_stream_messages\<close>).

  The theorems show that the messages that the source writes are those that the sink reads, that scheduling
  keeps the list sorted and stable, and that every message is dispatched exactly once, at its time
  rounded to the nearest sample, unless it is late.
\<close>

unbundle bit_operations_syntax

subsection \<open>Writing messages into a block\<close>

record stream_message =
  ms_time :: nat
  ms_channel :: int
  ms_type :: int
  ms_data :: "byte list"

definition padding :: "nat \<Rightarrow> nat" where
  "padding n = (let remainder = n mod 4 in if remainder > 0 then 4 - remainder else 0)"

text \<open>The sample offset of a message in a block that starts at \<open>stream_samples\<close>.\<close>

definition message_offset :: "real \<Rightarrow> real \<Rightarrow> stream_message \<Rightarrow> real" where
  "message_offset ratio stream_samples msg = of_int (int (ms_time msg) - trunc stream_samples) * ratio"

definition encode_stream_message :: "real \<Rightarrow> real \<Rightarrow> stream_message \<Rightarrow> byte list" where
  "encode_stream_message ratio stream_samples msg =
     to_bytes (word_of_int (trunc (message_offset ratio stream_samples msg)) :: u16)
     @ to_bytes (word_of_int (ms_channel msg) :: u16)
     @ to_bytes (word_of_int (ms_type msg) :: u16)
     @ to_bytes (word_of_nat (length (ms_data msg)) :: u16)
     @ ms_data msg @ replicate (padding (length (ms_data msg))) 0"

text \<open>Messages from the queue of the audio thread; outdated ones are skipped.\<close>

fun consume_messages :: "real \<Rightarrow> stream_message list \<Rightarrow> stream_message priority_queue \<Rightarrow> stream_message priority_queue" where
  "consume_messages stream_samples [] q = q"
| "consume_messages stream_samples (msg # msgs) q =
     (let offset = int (ms_time msg) - trunc stream_samples
      in consume_messages stream_samples msgs (if offset < 0 then q else pq_push msg q))"

abbreviation message_comp :: "stream_message \<Rightarrow> stream_message \<Rightarrow> bool" where
  "message_comp \<equiv> later ms_time"

lemma pq_pop_shorter:
  assumes "\<not> pq_empty q"
  shows "length (pq_queue (pq_pop cmp q)) < length (pq_queue q)"
proof -
  have "pq_front cmp q \<in> set (pq_queue q)"
    using heap_front_in [of cmp "tl (pq_queue q)" "hd (pq_queue q)"] assms
    by (cases "pq_queue q") (auto simp: pq_front_def pq_empty_def)
  then have "length (filter (\<lambda>p. snd p \<noteq> snd (pq_front cmp q)) (pq_queue q)) < length (pq_queue q)"
    by (intro length_filter_less) auto
  then show ?thesis by (simp add: pq_pop_def Let_def)
qed

function due_messages ::
    "nat \<Rightarrow> stream_message priority_queue \<Rightarrow> stream_message list \<times> stream_message priority_queue" where
  "due_messages deadline q =
     (if pq_empty q then ([], q)
      else let msg = pq_top message_comp q
           in if ms_time msg < deadline
              then let (msgs, q) = due_messages deadline (pq_pop message_comp q) in (msg # msgs, q)
              else ([], q))"
  by pat_completeness auto
termination
  by (relation "measure (\<lambda>(d, q). length (pq_queue q))") (auto simp: pq_pop_shorter)

declare due_messages.simps [simp del]

text \<open>The message part of the send buffer.\<close>

definition write_stream_messages :: "real \<Rightarrow> real \<Rightarrow> stream_message list \<Rightarrow> byte list" where
  "write_stream_messages ratio stream_samples msgs =
     (if length msgs > 0
      then to_bytes (word_of_nat (length msgs) :: u32)
           @ concat (map (encode_stream_message ratio stream_samples) msgs)
      else [])"

text \<open>
  \<open>send_data\<close> as far as messages are concerned: the send buffer, the remaining messages and the
  stream time of the next block.
\<close>

definition send_stream_messages ::
    "int \<Rightarrow> real \<Rightarrow> real \<Rightarrow> stream_message list \<Rightarrow> stream_message priority_queue \<Rightarrow>
     byte list \<times> stream_message priority_queue \<times> real" where
  "send_stream_messages blockSize ratio stream_samples msgs q =
     (let deadline = stream_samples + of_int blockSize / ratio;
          q = consume_messages stream_samples msgs q;
          (msgs, q) = due_messages (nat (trunc deadline)) q
      in (write_stream_messages ratio stream_samples msgs, q, deadline))"

subsection \<open>Reading messages from a block\<close>

text \<open>A scheduled message; \<open>sm_tt\<close> is only used by stream time messages.\<close>

record sched_message =
  sm_time :: real
  sm_channel :: int
  sm_type :: int
  sm_data :: "byte list"
  sm_tt :: u64

definition kAooDataStreamTime :: int where "kAooDataStreamTime = -1"

text \<open>
  The loop over the messages of a block. \<open>p\<close> is the offset of \<open>msgptr\<close> in the block, whose bytes are
  \<open>data\<close>; reading outside the block fails.
\<close>

fun read_stream_messages ::
    "real \<Rightarrow> real \<Rightarrow> byte list \<Rightarrow> nat \<Rightarrow> nat \<Rightarrow> nat \<Rightarrow> sched_message list option" where
  "read_stream_messages stream_samples resample data msgsize 0 p = Some []"
| "read_stream_messages stream_samples resample data msgsize (Suc i) p =
     (if length data < p + 8 then None
      else let b = drop p data;
               (offset :: u16, b) = read_bytes b;
               (channel :: u16, b) = read_bytes b;
               (type :: u16, b) = read_bytes b;
               (sz :: u16, b) = read_bytes b;
               aligned_size = (unat sz + 3) div 4 * 4
           in if int msgsize - int (p + 8) < int aligned_size then Some []
              else if length b < unat sz then None
              else do {
                msgs \<leftarrow> read_stream_messages stream_samples resample data msgsize i (p + 8 + aligned_size);
                Some (\<lparr> sm_time = stream_samples + of_nat (unat offset) * resample,
                        sm_channel = sint channel, sm_type = sint type,
                        sm_data = take (unat sz) b, sm_tt = 0 \<rparr> # msgs) })"

definition read_messages :: "real \<Rightarrow> real \<Rightarrow> byte list \<Rightarrow> nat \<Rightarrow> sched_message list option" where
  "read_messages stream_samples resample data msgsize =
     (if msgsize > 0 then
        if length data < 4 then None
        else read_stream_messages stream_samples resample data msgsize
               (nat (sint (from_bytes data :: u32))) 4
      else Some [])"

subsection \<open>Scheduling\<close>

text \<open>The linked list of messages, sorted by time.\<close>

fun sched_after :: "sched_message \<Rightarrow> sched_message list \<Rightarrow> sched_message list" where
  "sched_after msg [] = [msg]"
| "sched_after msg (it # its) = (if sm_time msg \<ge> sm_time it then it # sched_after msg its else msg # it # its)"

definition sched_stream_message :: "sched_message \<Rightarrow> sched_message list \<Rightarrow> sched_message list" where
  "sched_stream_message msg msgs =
     (case msgs of
        [] \<Rightarrow> [msg]
      | it # its \<Rightarrow> if sm_time msg \<ge> sm_time it then it # sched_after msg its else msg # msgs)"

subsection \<open>Dispatching\<close>

definition from_seconds :: "real \<Rightarrow> u64" where
  "from_seconds seconds =
     (let high = trunc seconds; fract = seconds - of_int high; low = trunc (fract * 4294967296)
      in push_bit 32 (word_of_int high) OR word_of_int low)"

datatype dispatched =
    DispatchTime u64 u64 int
  | DispatchMessage int int int "byte list"

definition dispatch_one :: "real \<Rightarrow> u64 \<Rightarrow> int \<Rightarrow> sched_message \<Rightarrow> dispatched" where
  "dispatch_one samplerate local_tt offset it =
     (if sm_type it = kAooDataStreamTime
      then DispatchTime (sm_tt it) (local_tt + from_seconds (sm_time it / samplerate)) offset
      else DispatchMessage offset (sm_channel it) (sm_type it) (sm_data it))"

text \<open>
  The events and messages that are delivered and the messages that are left, for a block
  of \<open>nsamples\<close> samples that starts at \<open>process_samples\<close>.
\<close>

fun dispatch_stream_messages ::
    "real \<Rightarrow> u64 \<Rightarrow> int \<Rightarrow> int \<Rightarrow> sched_message list \<Rightarrow> dispatched list \<times> sched_message list" where
  "dispatch_stream_messages samplerate local_tt process_samples nsamples [] = ([], [])"
| "dispatch_stream_messages samplerate local_tt process_samples nsamples (it # its) =
     (let deadline = process_samples + nsamples
      in if sm_time it < of_int deadline then
           let offset = trunc (sm_time it - of_int process_samples + 1 / 2)
           in if offset \<ge> nsamples then ([], it # its)
              else let (out, rest) = dispatch_stream_messages samplerate local_tt process_samples nsamples its
                   in (if offset \<ge> 0 then dispatch_one samplerate local_tt offset it # out else out, rest)
         else ([], it # its))"


subsection \<open>Round trip\<close>

lemma padding_aligned: "n + padding n = (n + 3) div 4 * 4"
  unfolding padding_def Let_def by presburger

text \<open>What the sink makes of a message of the source, if its fields fit.\<close>

definition received_stream_message :: "real \<Rightarrow> real \<Rightarrow> real \<Rightarrow> real \<Rightarrow> stream_message \<Rightarrow> sched_message" where
  "received_stream_message ratio source_samples sink_samples resample msg =
     \<lparr> sm_time = sink_samples + of_int (trunc (message_offset ratio source_samples msg)) * resample,
       sm_channel = ms_channel msg, sm_type = ms_type msg, sm_data = ms_data msg, sm_tt = 0 \<rparr>"

definition message_fits :: "real \<Rightarrow> real \<Rightarrow> stream_message \<Rightarrow> bool" where
  "message_fits ratio stream_samples msg \<longleftrightarrow>
     0 \<le> trunc (message_offset ratio stream_samples msg) \<and>
     trunc (message_offset ratio stream_samples msg) < 2 ^ 16 \<and>
     - (2 ^ 15) \<le> ms_channel msg \<and> ms_channel msg < 2 ^ 15 \<and>
     - (2 ^ 15) \<le> ms_type msg \<and> ms_type msg < 2 ^ 15 \<and> length (ms_data msg) < 2 ^ 16"

lemma sint_u16: "- (2 ^ 15) \<le> i \<Longrightarrow> i < 2 ^ 15 \<Longrightarrow> sint (word_of_int i :: u16) = i"
  by (simp add: signed_of_int signed_take_bit_int_eq_self)

lemma uint_u16: "0 \<le> i \<Longrightarrow> i < 2 ^ 16 \<Longrightarrow> int (unat (word_of_int i :: u16)) = i"
  by (simp add: unsigned_of_int take_bit_int_eq_self)

lemma real_u16:
  assumes "0 \<le> i" and "i < 2 ^ 16"
  shows "real (unat (word_of_int i :: u16)) = of_int i"
proof -
  have "real (unat (word_of_int i :: u16)) = of_int (int (unat (word_of_int i :: u16)))"
    by (simp only: of_int_of_nat_eq)
  then show ?thesis by (simp only: uint_u16 [OF assms])
qed

lemma unat_u16: "n < 2 ^ 16 \<Longrightarrow> unat (word_of_nat n :: u16) = n"
  by (simp add: unsigned_of_nat take_bit_nat_eq_self)

lemma length_encode [simp]:
  "length (encode_stream_message ratio ss msg) = 8 + (length (ms_data msg) + 3) div 4 * 4"
  using padding_aligned [of "length (ms_data msg)"] by (simp add: encode_stream_message_def size_of_def)

lemma read_encoded:
  assumes fit: "\<forall>msg \<in> set msgs. message_fits ratio ss msg"
    and data: "data = pre @ concat (map (encode_stream_message ratio ss) msgs) @ rest"
    and size: "length (pre @ concat (map (encode_stream_message ratio ss) msgs)) \<le> msgsize"
  shows "read_stream_messages st resample data msgsize (length msgs) (length pre)
    = Some (map (received_stream_message ratio ss st resample) msgs)"
  using fit data size
proof (induction msgs arbitrary: pre)
  case Nil
  then show ?case by simp
next
  case (Cons msg msgs)
  let ?e = "encode_stream_message ratio ss msg"
  let ?n = "length (ms_data msg)"
  let ?tail = "concat (map (encode_stream_message ratio ss) msgs) @ rest"
  have fit: "message_fits ratio ss msg" using Cons.prems(1) by simp
  have drop: "drop (length pre) data = ?e @ ?tail" using Cons.prems(2) by simp
  have "read_stream_messages st resample data msgsize (length msgs) (length (pre @ ?e))
      = Some (map (received_stream_message ratio ss st resample) msgs)"
    by (rule Cons.IH) (use Cons.prems in auto)
  moreover have "length (pre @ ?e) = length pre + 8 + (?n + 3) div 4 * 4" by simp
  ultimately have IH: "read_stream_messages st resample data msgsize (length msgs)
      (length pre + 8 + (?n + 3) div 4 * 4) = Some (map (received_stream_message ratio ss st resample) msgs)"
    by (simp only:)
  have head: "received_stream_message ratio ss st resample msg
      = \<lparr> sm_time = st + of_int (trunc (message_offset ratio ss msg)) * resample,
          sm_channel = ms_channel msg, sm_type = ms_type msg, sm_data = ms_data msg, sm_tt = 0 \<rparr>"
    by (simp add: received_stream_message_def)
  have len: "length pre + 8 \<le> length data" using Cons.prems(2) by simp
  have off: "real (unat (word_of_int (trunc (message_offset ratio ss msg)) :: u16))
      = of_int (trunc (message_offset ratio ss msg))"
    using fit by (intro real_u16) (simp_all add: message_fits_def)
  have aligned: "int msgsize - int (length pre + 8) \<ge> int ((?n + 3) div 4 * 4)"
    using Cons.prems(3) by simp
  show ?case
    using fit len drop IH off aligned
    by (simp add: message_fits_def encode_stream_message_def read_bytes_append sint_u16 unat_u16 head Let_def)
qed


lemma consume_messages_ok:
  assumes "pq_inv q"
  shows "pq_inv (consume_messages ss msgs q) \<and> pq_items ms_time (consume_messages ss msgs q)
    = fold (insert_after ms_time) (filter (\<lambda>m. trunc ss \<le> int (ms_time m)) msgs) (pq_items ms_time q)"
  using assms
  by (induction msgs arbitrary: q)
    (auto simp: Let_def pq.push_inv pq.push_items)

lemma pq_empty_items: "pq_empty q \<longleftrightarrow> pq_items key q = []"
  by (simp add: pq_empty_def pq_items_def)

lemma due_messages_ok:
  assumes "pq_inv q"
  shows "fst (due_messages d q) = takeWhile (\<lambda>m. ms_time m < d) (pq_items ms_time q) \<and>
    pq_inv (snd (due_messages d q)) \<and>
    pq_items ms_time (snd (due_messages d q)) = dropWhile (\<lambda>m. ms_time m < d) (pq_items ms_time q)"
  using assms
proof (induction d q rule: due_messages.induct)
  case (1 d q)
  show ?case
  proof (cases "pq_empty q")
    case True
    then show ?thesis using 1(2) pq_empty_items [of q ms_time] by (simp add: due_messages.simps [of d q])
  next
    case False
    then have ne: "pq_items ms_time q \<noteq> []" by (simp add: pq_empty_items [of q ms_time])
    define m where "m = pq_top message_comp q"
    have items: "pq_items ms_time q = m # pq_items ms_time (pq_pop message_comp q)"
      using pq.top_items [OF 1(2) ne] pq.pop_items [OF 1(2) ne] ne by (simp add: m_def)
    have inv: "pq_inv (pq_pop message_comp q)" using pq.pop_inv [OF 1(2) ne] .
    show ?thesis
    proof (cases "ms_time m < d")
      case True
      then show ?thesis using 1(1) [OF False m_def True inv] False items
        by (simp add: due_messages.simps [of d q] m_def [symmetric] case_prod_unfold)
    next
      case notdue: False
      then show ?thesis using False items 1(2)
        by (simp add: due_messages.simps [of d q] m_def [symmetric])
    qed
  qed
qed

text \<open>
  C34. The messages of a block. The source puts exactly the pending messages that are due before the end of
  the block in front of the audio data, ordered by time and, for equal times, by arrival; the sink
  reads the same messages, at the same sample offsets (converted to its own sample rate).
\<close>

theorem stream_messages_transfer:
  assumes "pq_inv q" and "send_stream_messages blockSize ratio ss msgs q = (bytes, q', ss')"
  defines "due \<equiv> takeWhile (\<lambda>m. ms_time m < nat (trunc ss'))
    (fold (insert_after ms_time) (filter (\<lambda>m. trunc ss \<le> int (ms_time m)) msgs) (pq_items ms_time q))"
  assumes "\<forall>m \<in> set due. message_fits ratio ss m" and "length due < 2 ^ 31"
  shows "read_messages st resample (bytes @ audio) (length bytes)
    = Some (map (received_stream_message ratio ss st resample) due)"
proof -
  define q1 where "q1 = consume_messages ss msgs q"
  have q1: "pq_inv q1" "pq_items ms_time q1
      = fold (insert_after ms_time) (filter (\<lambda>m. trunc ss \<le> int (ms_time m)) msgs) (pq_items ms_time q)"
    using consume_messages_ok [OF assms(1), of ss msgs] by (simp_all add: q1_def)
  have "bytes = write_stream_messages ratio ss (fst (due_messages (nat (trunc ss')) q1))"
    using assms(2) by (auto simp: send_stream_messages_def Let_def q1_def case_prod_unfold)
  then have bytes: "bytes = write_stream_messages ratio ss due"
    using due_messages_ok [OF q1(1)] q1(2) by (simp add: due_def)
  show ?thesis
  proof (cases "due = []")
    case True
    then show ?thesis by (simp add: bytes write_stream_messages_def read_messages_def)
  next
    case False
    let ?pre = "to_bytes (word_of_nat (length due) :: u32)"
    have b: "bytes = ?pre @ concat (map (encode_stream_message ratio ss) due)"
      using False by (simp add: bytes write_stream_messages_def)
    have "sint (word_of_nat (length due) :: u32) = int (length due)"
      using assms(5) by (simp add: signed_of_nat signed_take_bit_int_eq_self)
    then have "nat (sint (from_bytes (bytes @ audio) :: u32)) = length due"
      by (simp add: b from_to_bytes)
    moreover have "read_stream_messages st resample (bytes @ audio) (length bytes) (length due) (length ?pre)
        = Some (map (received_stream_message ratio ss st resample) due)"
      by (rule read_encoded [OF assms(4), of _ _ audio]) (simp_all add: b)
    moreover have "length ?pre = 4" by (simp add: size_of_def)
    moreover have "4 \<le> length bytes" by (simp add: b size_of_def)
    moreover have "bytes \<noteq> []" using \<open>4 \<le> length bytes\<close> by auto
    ultimately show ?thesis by (simp add: read_messages_def)
  qed
qed

theorem stream_messages_transfer_witness:
  "read_messages 100 1
     (fst (send_stream_messages 64 1 0 [\<lparr> ms_time = 7, ms_channel = 1, ms_type = 2, ms_data = [9] \<rparr>,
        \<lparr> ms_time = 3, ms_channel = 0, ms_type = 2, ms_data = [] \<rparr>,
        \<lparr> ms_time = 64, ms_channel = 0, ms_type = 2, ms_data = [] \<rparr>] pq_new) @ [1, 2, 3])
     (length (fst (send_stream_messages 64 1 0 [\<lparr> ms_time = 7, ms_channel = 1, ms_type = 2, ms_data = [9] \<rparr>,
        \<lparr> ms_time = 3, ms_channel = 0, ms_type = 2, ms_data = [] \<rparr>,
        \<lparr> ms_time = 64, ms_channel = 0, ms_type = 2, ms_data = [] \<rparr>] pq_new)))
   = Some [\<lparr> sm_time = 103, sm_channel = 0, sm_type = 2, sm_data = [], sm_tt = 0 \<rparr>,
           \<lparr> sm_time = 107, sm_channel = 1, sm_type = 2, sm_data = [9], sm_tt = 0 \<rparr>]"
proof -
  let ?msgs = "[\<lparr> ms_time = 7, ms_channel = 1, ms_type = 2, ms_data = [9] \<rparr>,
        \<lparr> ms_time = 3, ms_channel = 0, ms_type = 2, ms_data = [] \<rparr>,
        \<lparr> ms_time = 64, ms_channel = 0, ms_type = 2, ms_data = [] :: byte list \<rparr>]"
  obtain bytes q' ss' where send: "send_stream_messages 64 1 0 ?msgs pq_new = (bytes, q', ss')"
    by (cases "send_stream_messages 64 1 0 ?msgs pq_new")
  then have "ss' = 64" by (auto simp: send_stream_messages_def Let_def case_prod_unfold)
  then have due: "takeWhile (\<lambda>m. ms_time m < nat (trunc ss'))
      (fold (insert_after ms_time) (filter (\<lambda>m. trunc 0 \<le> int (ms_time m)) ?msgs) (pq_items ms_time pq_new))
    = [\<lparr> ms_time = 3, ms_channel = 0, ms_type = 2, ms_data = [] \<rparr>,
       \<lparr> ms_time = 7, ms_channel = 1, ms_type = 2, ms_data = [9] \<rparr>]"
    by (simp add: pq_items_def pq_new_def trunc_def)
  show ?thesis
    using stream_messages_transfer [OF _ send, of 100 1 "[1, 2, 3]"] unfolding due send fst_conv
    by (simp add: pq_inv_def pq_new_def message_fits_def message_offset_def received_stream_message_def trunc_def)
qed

text \<open>
  The sink does not check that the block is long enough for the header of a message: a block whose
  four bytes announce one message makes it read behind the end of the block.
\<close>

theorem stream_message_header_unchecked:
  "read_messages stream_samples resample (to_bytes (1 :: u32)) 4 = None"
proof -
  have "from_bytes (to_bytes (1 :: u32)) = (1 :: u32)"
    using from_to_bytes [of LITTLE_ENDIAN LITTLE_ENDIAN "1 :: u32" "[]"] by simp
  then show ?thesis by (simp add: read_messages_def size_of_def)
qed

subsection \<open>Order of messages\<close>

lemma sched_after_insert: "sched_after msg msgs = insert_after sm_time msg msgs"
  by (induction msgs) auto

lemma sched_insert: "sched_stream_message msg msgs = insert_after sm_time msg msgs"
  by (cases msgs) (auto simp: sched_stream_message_def sched_after_insert)

interpretation sched: stable_queue sm_time "\<lambda>_. True" "\<lambda>msgs. msgs" sched_stream_message hd tl
  by unfold_locales (simp_all add: sched_insert)

text \<open>
  The list of scheduled messages is always sorted by time, whatever the order in which the
  messages arrive, and messages for the same time keep the order of arrival.
\<close>

theorem sched_sorted_stable: "fold sched_stream_message msgs [] = sort_key sm_time msgs"
  by (rule sched.push_all_items) simp_all

text \<open>The sample at which a message is due.\<close>

definition due_sample :: "sched_message \<Rightarrow> int" where
  "due_sample m = \<lfloor>sm_time m + 1 / 2\<rfloor>"

lemma due_sample_mono: "sm_time a \<le> sm_time b \<Longrightarrow> due_sample a \<le> due_sample b"
  by (simp add: due_sample_def floor_mono)

lemma due_sample_bounds: "of_int (due_sample m) \<le> sm_time m + 1 / 2" "sm_time m + 1 / 2 < of_int (due_sample m) + 1"
  unfolding due_sample_def by linarith+

text \<open>A message that is behind the block by more than the rounding is skipped.\<close>

definition behind :: "int \<Rightarrow> sched_message \<Rightarrow> bool" where
  "behind P m \<longleftrightarrow> sm_time m \<le> of_int P - 3 / 2"

lemma dispatch_offset:
  "trunc (sm_time m - of_int P + 1 / 2) = (if due_sample m < P then (if behind P m then trunc (sm_time m - of_int P + 1 / 2) else 0) else due_sample m - P)"
  "behind P m \<longleftrightarrow> trunc (sm_time m - of_int P + 1 / 2) < 0"
proof -
  have f: "\<lfloor>sm_time m - of_int P + 1 / 2\<rfloor> = due_sample m - P"
    unfolding due_sample_def by (metis add.commute add_diff_eq floor_diff_of_int)
  show late: "behind P m \<longleftrightarrow> trunc (sm_time m - of_int P + 1 / 2) < 0"
    unfolding behind_def trunc_def by (auto simp: ceiling_less_iff le_less)
  show "trunc (sm_time m - of_int P + 1 / 2) = (if due_sample m < P then (if behind P m then trunc (sm_time m - of_int P + 1 / 2) else 0) else due_sample m - P)"
    using f late unfolding trunc_def by (auto split: if_splits) (linarith+)
qed

text \<open>A process block takes all messages that are due before its end, and delivers those that are not too late.\<close>

lemma dispatch_block:
  assumes "sorted (map sm_time msgs)" and "0 < n"
  shows "dispatch_stream_messages sr tt P n msgs
    = (map (\<lambda>m. dispatch_one sr tt (max 0 (due_sample m - P)) m)
         (filter (\<lambda>m. \<not> behind P m) (takeWhile (\<lambda>m. due_sample m < P + n) msgs)),
       dropWhile (\<lambda>m. due_sample m < P + n) msgs)"
  using assms(1)
proof (induction msgs)
  case (Cons m msgs)
  have t: "sm_time m < of_int (P + n)" if "due_sample m < P + n" using due_sample_bounds(2) [of m] that by linarith
  show ?case
  proof (cases "due_sample m < P + n")
    case True
    then have "\<not> n \<le> trunc (sm_time m - of_int P + 1 / 2)" using dispatch_offset(1) [of m P] dispatch_offset(2) [of P m] assms(2) by (auto split: if_splits)
    moreover have "trunc (sm_time m - of_int P + 1 / 2) = max 0 (due_sample m - P)" if "\<not> behind P m"
      using dispatch_offset(1) [of m P] that by (auto split: if_splits)
    ultimately show ?thesis using Cons t True dispatch_offset(2) [of P m] by (auto simp: Let_def)
  next
    case False
    then have "n \<le> trunc (sm_time m - of_int P + 1 / 2)" using dispatch_offset(1) [of m P] assms(2) by (auto split: if_splits)
    then show ?thesis using False by (simp add: Let_def)
  qed
qed simp

text \<open>
  The life of the list of scheduled messages: messages arrive, process blocks are played, and blocks are skipped for
  xruns (which advances the position without dispatching). Each output is tagged with the start and size of its block.
\<close>

datatype dispatch_op = Arrive sched_message | Block int | Xrun int

fun dispatch_run ::
    "real \<Rightarrow> u64 \<Rightarrow> dispatch_op list \<Rightarrow> int \<times> sched_message list \<Rightarrow>
     ((int \<times> int) \<times> dispatched) list \<times> int \<times> sched_message list" where
  "dispatch_run sr tt [] (P, msgs) = ([], P, msgs)"
| "dispatch_run sr tt (Arrive m # ops) (P, msgs) = dispatch_run sr tt ops (P, sched_stream_message m msgs)"
| "dispatch_run sr tt (Block n # ops) (P, msgs) =
     (let (out, rest) = dispatch_stream_messages sr tt P n msgs;
          (outs, st) = dispatch_run sr tt ops (P + n, rest)
      in (map (Pair (P, n)) out @ outs, st))"
| "dispatch_run sr tt (Xrun n # ops) (P, msgs) = dispatch_run sr tt ops (P + n, msgs)"

fun arrived :: "dispatch_op list \<Rightarrow> sched_message list" where
  "arrived [] = []"
| "arrived (Arrive m # ops) = m # arrived ops"
| "arrived (_ # ops) = arrived ops"

fun op_ok :: "dispatch_op \<Rightarrow> bool" where
  "op_ok (Arrive m) \<longleftrightarrow> True"
| "op_ok (Block n) \<longleftrightarrow> 0 < n"
| "op_ok (Xrun n) \<longleftrightarrow> 0 \<le> n"

text \<open>No block is skipped, and every message arrives before its sample has been played.\<close>

fun punctual :: "int \<Rightarrow> dispatch_op list \<Rightarrow> bool" where
  "punctual P [] \<longleftrightarrow> True"
| "punctual P (Arrive m # ops) \<longleftrightarrow> P \<le> due_sample m \<and> punctual P ops"
| "punctual P (Block n # ops) \<longleftrightarrow> punctual (P + n) ops"
| "punctual P (Xrun n # ops) \<longleftrightarrow> False"

definition delivered_well :: "real \<Rightarrow> u64 \<Rightarrow> (int \<times> int) \<times> dispatched \<Rightarrow> sched_message \<Rightarrow> bool" where
  "delivered_well sr tt x m \<longleftrightarrow> (case x of ((B, n), d) \<Rightarrow>
     d = dispatch_one sr tt (max 0 (due_sample m - B)) m \<and> due_sample m < B + n \<and> \<not> behind B m)"

lemma taken_split:
  "mset msgs = mset (filter Q (takeWhile R msgs)) + mset (filter (\<lambda>m. \<not> Q m) (takeWhile R msgs)) + mset (dropWhile R msgs)"
  by (metis mset_append mset_filter multiset_partition takeWhile_dropWhile_id)

lemma dispatch_run_mono: "list_all op_ok ops \<Longrightarrow> dispatch_run sr tt ops (P, msgs) = (outs, P', rest) \<Longrightarrow> P \<le> P'"
proof (induction sr tt ops "(P, msgs)" arbitrary: P msgs outs rule: dispatch_run.induct)
  case (3 sr tt n ops P msgs)
  obtain out rest1 where b: "dispatch_stream_messages sr tt P n msgs = (out, rest1)" by (metis prod.exhaust)
  obtain outs1 st where r: "dispatch_run sr tt ops (P + n, rest1) = (outs1, st)" by (metis prod.exhaust)
  then have "st = (P', rest)" using 3(3) b by simp
  then have "P + n \<le> P'" using 3(1) [OF b [symmetric] refl _ r [unfolded \<open>st = (P', rest)\<close>]] 3(2) by simp
  then show ?case using 3(2) by simp
qed auto

lemma dispatch_run_ok:
  assumes "sorted (map sm_time msgs)" and "list_all op_ok ops" and "dispatch_run sr tt ops (P, msgs) = (outs, P', rest)"
  shows "\<exists>ds ls. mset msgs + mset (arrived ops) = mset ds + mset ls + mset rest \<and> list_all2 (delivered_well sr tt) outs ds \<and>
    (\<forall>m \<in> set ls. behind P' m) \<and> ((\<forall>m \<in> set msgs. P \<le> due_sample m) \<and> punctual P ops \<longrightarrow> ls = [] \<and> (\<forall>m \<in> set rest. P' \<le> due_sample m))"
  using assms
proof (induction sr tt ops "(P, msgs)" arbitrary: P msgs outs rule: dispatch_run.induct)
  case (1 sr tt P msgs)
  then show ?case by (intro exI [of _ "[]"]) simp
next
  case (2 sr tt m ops P msgs)
  have "mset (sched_stream_message m msgs) = add_mset m (mset msgs)" "set (sched_stream_message m msgs) = insert m (set msgs)"
    "sorted (map sm_time (sched_stream_message m msgs))"
    using 2(2) by (simp_all add: sched_insert sorted_insert_after)
  then show ?case using 2(1) 2(3,4) by (simp add: conj_ac)
next
  case (3 sr tt n ops P msgs)
  let ?R = "\<lambda>m. due_sample m < P + n" and ?Q = "\<lambda>m. \<not> behind P m"
  define rest1 where "rest1 = dropWhile ?R msgs"
  define d1 where "d1 = filter ?Q (takeWhile ?R msgs)"
  define l1 where "l1 = filter (\<lambda>m. \<not> ?Q m) (takeWhile ?R msgs)"
  have n: "0 < n" using 3(3) by simp
  have blk: "dispatch_stream_messages sr tt P n msgs = (map (\<lambda>m. dispatch_one sr tt (max 0 (due_sample m - P)) m) d1, rest1)"
    unfolding d1_def rest1_def by (rule dispatch_block [OF 3(2) n])
  obtain outs1 where run: "dispatch_run sr tt ops (P + n, rest1) = (outs1, P', rest)"
    and outs: "outs = map (Pair (P, n)) (map (\<lambda>m. dispatch_one sr tt (max 0 (due_sample m - P)) m) d1) @ outs1"
    using 3(4) blk by (auto simp: Let_def split: prod.splits)
  have "sorted (map sm_time rest1)" using 3(2) unfolding rest1_def by (metis map_append sorted_append takeWhile_dropWhile_id)
  from 3(1) [OF blk [symmetric] refl this _ run] 3(3) obtain ds ls where ih: "mset rest1 + mset (arrived ops) = mset ds + mset ls + mset rest"
    "list_all2 (delivered_well sr tt) outs1 ds" "\<forall>m \<in> set ls. behind P' m"
    "(\<forall>m \<in> set rest1. P + n \<le> due_sample m) \<and> punctual (P + n) ops \<longrightarrow> ls = [] \<and> (\<forall>m \<in> set rest. P' \<le> due_sample m)"
    by auto
  have first: "list_all2 (delivered_well sr tt) (map (Pair (P, n)) (map (\<lambda>m. dispatch_one sr tt (max 0 (due_sample m - P)) m) d1)) d1"
    by (auto simp: list_all2_conv_all_nth delivered_well_def d1_def dest!: nth_mem set_takeWhileD)
  have "P + n \<le> P'" by (rule dispatch_run_mono [OF _ run]) (use 3(3) in simp)
  then have late: "\<forall>m \<in> set l1. behind P' m" using n by (auto simp: l1_def behind_def)
  have rest1: "P + n \<le> due_sample m" if "m \<in> set rest1" for m
  proof -
    obtain m0 ms where r: "rest1 = m0 # ms" using \<open>m \<in> set rest1\<close> by (cases rest1) simp_all
    then have "\<not> ?R m0" unfolding rest1_def by (metis hd_dropWhile list.distinct(1) list.sel(1))
    moreover have "sm_time m0 \<le> sm_time m" using \<open>sorted (map sm_time rest1)\<close> that r by auto
    ultimately show ?thesis using due_sample_mono [of m0 m] by simp
  qed
  have none: "l1 = []" if "\<forall>m \<in> set msgs. P \<le> due_sample m"
  proof -
    have "\<not> behind P m" if "m \<in> set msgs" for m using \<open>\<forall>m \<in> set msgs. P \<le> due_sample m\<close> that due_sample_bounds(1) [of m]
      by (force simp: behind_def)
    then show ?thesis by (auto simp: l1_def filter_empty_conv dest: set_takeWhileD)
  qed
  have "mset msgs = mset d1 + mset l1 + mset rest1" unfolding d1_def l1_def rest1_def by (rule taken_split)
  then have "mset msgs + mset (arrived (Block n # ops)) = mset (d1 @ ds) + mset (l1 @ ls) + mset rest"
    using ih(1) by simp
  then show ?case using ih(2-4) first late rest1 none outs
    by (intro exI [of _ "d1 @ ds"] exI [of _ "l1 @ ls"]) (auto intro: list_all2_appendI)
next
  case (4 sr tt n ops P msgs)
  from 4(1) [OF 4(2)] 4(3,4) show ?case by (simp) blast
qed



end
