(* ===== verification/Resend.thy ===== *)
theory Resend
  imports Data_Message
begin

text \<open>
  Retransmission. The sink looks for incomplete blocks in its jitter buffer
  (\<^verbatim>\<open>source_desc::check_missing_blocks\<close>) and asks for the missing frames
  (\<^verbatim>\<open>source_desc::send_data_requests\<close>); the source reads the requests
  (\<^verbatim>\<open>Source::handle_data_request\<close>) and sends the frames again from its history
  (\<^verbatim>\<open>Source::resend_data\<close>).

  A request names a block and either all of its frames (offset -1) or those of 16 consecutive
  frames that are set in a bitset. The theorems show that the requests name exactly the missing
  frames, survive the wire, and are answered with exactly those frames, after which the block is
  complete.
\<close>

subsection \<open>Requests\<close>

record data_request =
  dr_sequence :: int
  dr_offset :: int
  dr_bitset :: u16

text \<open>The missing frames among the 16 frames from \<open>offset\<close> on.\<close>

fun fill_bitset :: "(int \<Rightarrow> bool option) \<Rightarrow> int \<Rightarrow> int \<Rightarrow> nat list \<Rightarrow> u16 \<Rightarrow> u16 option" where
  "fill_bitset has nframes offset [] bitset = Some bitset"
| "fill_bitset has nframes offset (i # is) bitset =
     (let frame = offset + int i
      in if frame \<ge> nframes then Some bitset
         else do {
           x \<leftarrow> has frame;
           fill_bitset has nframes offset is (if x then bitset else bitset OR push_bit i 1) })"

lemma int16_range: "- (2 ^ 15) \<le> int16 i \<and> int16 i < 2 ^ 15"
  using sint_range_size [of "word_of_int i :: 16 word"] by (simp add: int16_def word_size)

lemma int16_step:
  assumes "0 \<le> i" and "i < 2 ^ 15"
  shows "int16 (i + 16) = (if i + 16 < 2 ^ 15 then i + 16 else i + 16 - 2 ^ 16)"
proof (cases "i + 16 < 2 ^ 15")
  case True
  then show ?thesis using assms by (simp add: int16_small)
next
  case False
  have "(word_of_int (i + 16) :: 16 word) = word_of_int (i + 16 - 2 ^ 16)"
    by (simp only: of_int_diff) simp
  then have "int16 (i + 16) = int16 (i + 16 - 2 ^ 16)" by (simp only: int16_def)
  then show ?thesis using False assms int16_small [of "i + 16 - 2 ^ 16"] by simp
qed

text \<open>
  The loop over the offsets. The counter is an \<^verbatim>\<open>int16_t\<close>; when it wraps around it becomes negative,
  and looking up a negative frame fails.
\<close>

function frame_requests ::
    "(int \<Rightarrow> bool option) \<Rightarrow> int \<Rightarrow> int \<Rightarrow> int \<Rightarrow> data_request list option" where
  "frame_requests has seq nframes offset =
     (if offset < nframes then
        if offset < 0 then None
        else do {
          bitset \<leftarrow> fill_bitset has nframes offset [0..<16] 0;
          rs \<leftarrow> frame_requests has seq nframes (int16 (offset + 16));
          Some (if bitset \<noteq> 0 then \<lparr> dr_sequence = seq, dr_offset = offset, dr_bitset = bitset \<rparr> # rs else rs) }
      else Some [])"
  by pat_completeness auto

termination
proof (relation "measure (\<lambda>(has, seq, nframes, offset). if offset < 0 then 0
    else if offset < 2 ^ 15 then Suc (nat (2 ^ 15 - offset)) else Suc (Suc (2 ^ 15)))", simp)
  fix has seq nframes offset bitset
  assume "offset < nframes" "\<not> offset < (0::int)"
  then show "((has, seq, nframes, int16 (offset + 16)), has, seq, nframes, offset)
      \<in> measure (\<lambda>(has, seq, nframes, offset). if offset < 0 then 0
        else if offset < 2 ^ 15 then Suc (nat (2 ^ 15 - offset)) else Suc (Suc (2 ^ 15)))"
    using int16_range [of "offset + 16"] int16_step [of offset] by auto
qed

declare frame_requests.simps [simp del]

definition block_requests :: "frame_heap \<Rightarrow> received_block \<Rightarrow> data_request list option" where
  "block_requests h b =
     (if rb_received_frames b > 0
      then frame_requests (\<lambda>i. if i < 0 then None else block_has_frame h b (nat i))
             (rb_sequence b) (int (block_num_frames b)) 0
      else Some [\<lparr> dr_sequence = rb_sequence b, dr_offset = -1, dr_bitset = 0 \<rparr>])"

text \<open>With the adaptive profile a block is only requested if the answer can arrive in time.\<close>

definition too_late :: "AooLowLatencyStreamConfiguration \<Rightarrow> real \<Rightarrow> nat \<Rightarrow> bool" where
  "too_late conf roundTripP95 blockOffset =
     (let blockDuration = of_nat (unat (sc_blockFrames conf)) / of_nat (unat (sc_sampleRate conf));
          timeUntilDeadline = of_nat (blockOffset + 1) * blockDuration
      in roundTripP95 \<le> 0 \<or> timeUntilDeadline \<le> roundTripP95 + 2 * blockDuration)"

record resend_settings =
  re_low_latency_enabled :: bool
  re_configuration :: AooLowLatencyStreamConfiguration
  re_round_trip_p95 :: real
  re_resend_enabled :: bool
  re_limit :: int
  re_interval :: real
  re_elapsed :: real

definition skip_block :: "resend_settings \<Rightarrow> nat \<Rightarrow> bool" where
  "skip_block s blockOffset \<longleftrightarrow> re_low_latency_enabled s \<and>
     sc_profile (re_configuration s) = kAooLowLatencyProfileAdaptiveWireless \<and>
     too_late (re_configuration s) (re_round_trip_p95 s) blockOffset"

text \<open>
  The loop over the blocks; \<open>n\<close> blocks are left, \<open>it\<close> is the iterator. A dereference of the end
  iterator fails.
\<close>

fun check_blocks ::
    "resend_settings \<Rightarrow> frame_heap \<Rightarrow> nat \<Rightarrow> nat option \<Rightarrow> nat \<Rightarrow> int \<Rightarrow> jitter_buffer \<Rightarrow>
     (data_request list \<times> jitter_buffer) option" where
  "check_blocks s h 0 it blockOffset resent jb = Some ([], jb)"
| "check_blocks s h (Suc n) it blockOffset resent jb = do {
     i \<leftarrow> it;
     let next = jitter_iter_next jb i;
     let b = jb_data jb ! i;
     if skip_block s blockOffset then check_blocks s h n next (Suc blockOffset) resent jb
     else if \<not> block_complete b then
       let (upd, b) = block_update (re_elapsed s) (re_interval s) b;
           jb = jb\<lparr> jb_data := (jb_data jb)[i := b] \<rparr>
       in if upd then do {
            rs \<leftarrow> block_requests h b;
            if resent + 1 \<ge> re_limit s then Some (rs, jb)
            else do {
              (rs', jb) \<leftarrow> check_blocks s h n next (Suc blockOffset) (resent + 1) jb;
              Some (rs @ rs', jb) } }
          else check_blocks s h n next (Suc blockOffset) resent jb
     else check_blocks s h n next (Suc blockOffset) resent jb }"

definition check_missing_blocks ::
    "resend_settings \<Rightarrow> frame_heap \<Rightarrow> jitter_buffer \<Rightarrow> (data_request list \<times> jitter_buffer) option" where
  "check_missing_blocks s h jb =
     (if re_low_latency_enabled s \<and>
         sc_profile (re_configuration s) = kAooLowLatencyProfileDeterministicWired
      then Some ([], jb)
      else if jb_size jb \<le> 1 \<or> \<not> re_resend_enabled s then Some ([], jb)
      else check_blocks s h (jb_size jb - 1) (jitter_begin jb) 0 0 jb)"

subsection \<open>Requests on the wire\<close>

definition kSinkBinDataHeaderSize :: int where
  "kSinkBinDataHeaderSize = int kAooBinMsgLargeHeaderSize + 8 + int AOO_LOW_LATENCY_PACKET_HEADER_SIZE"

definition request_bytes :: "data_request \<Rightarrow> byte list" where
  "request_bytes r = to_bytes (word_of_int (dr_sequence r) :: u32)
     @ to_bytes (word_of_int (dr_offset r) :: u16) @ to_bytes (dr_bitset r)"

text \<open>A message from the requests that have been written behind the \<open>count\<close> field.\<close>

definition request_message :: "int \<Rightarrow> int \<Rightarrow> int \<Rightarrow> data_request list \<Rightarrow> byte list" where
  "request_message ep_id sink_id stream_id rs =
     (let (onset, buf) = binmsg_write_header (replicate AOO_MAX_PACKET_SIZE 0) kAooMsgTypeSource
            kAooBinMsgCmdData ep_id sink_id
      in take onset buf @ to_bytes (word_of_int stream_id :: u32)
         @ to_bytes (word_of_nat (length rs) :: u32) @ concat (map request_bytes rs))"

text \<open>Popping the queue; \<open>cur\<close> are the requests of the current message.\<close>

fun pack_requests :: "int \<Rightarrow> (data_request list \<Rightarrow> byte list) \<Rightarrow> data_request list \<Rightarrow> data_request list \<Rightarrow> byte list list" where
  "pack_requests maxrequests msg cur [] = (if length cur > 0 then [msg cur] else [])"
| "pack_requests maxrequests msg cur (r # rs) =
     (if int (length (cur @ [r])) \<ge> maxrequests
      then msg (cur @ [r]) # pack_requests maxrequests msg [] rs
      else pack_requests maxrequests msg (cur @ [r]) rs)"

definition send_data_requests_bin :: "int \<Rightarrow> int \<Rightarrow> int \<Rightarrow> int \<Rightarrow> data_request list \<Rightarrow> byte list list" where
  "send_data_requests_bin packet_size ep_id sink_id stream_id rs =
     (let maxdatasize = packet_size - kSinkBinDataHeaderSize; maxrequests = maxdatasize div 8
      in pack_requests maxrequests (request_message ep_id sink_id stream_id) [] rs)"

fun read_requests :: "nat \<Rightarrow> byte list \<Rightarrow> data_request list" where
  "read_requests 0 it = []"
| "read_requests (Suc n) it =
     (let (seq :: u32, it) = read_bytes it;
          (offset :: u16, it) = read_bytes it;
          (bitset :: u16, it) = read_bytes it
      in \<lparr> dr_sequence = sint seq, dr_offset = sint offset, dr_bitset = bitset \<rparr> # read_requests n it)"

text \<open>
  The source side; \<open>sink\<close> is the stream ID of the sink that was found for the sender, and
  whether it is active. The size check is done in unsigned 64-bit arithmetic.
\<close>

definition handle_data_request_bin ::
    "int \<Rightarrow> (int \<times> bool) option \<Rightarrow> byte list \<Rightarrow> data_request list" where
  "handle_data_request_bin resend_buffersize sink msg =
     (if length msg < 8 then []
      else if resend_buffersize \<le> 0 then []
      else let (stream_id :: u32, it) = read_bytes msg
           in case sink of
                None \<Rightarrow> []
              | Some (sid, active) \<Rightarrow>
                  if sid \<noteq> sint stream_id then []
                  else if active then
                    let (count :: u32, it) = read_bytes it
                    in if (word_of_nat (length it) :: u64) < word_of_int (sint count) * 8 then []
                       else read_requests (nat (sint count)) it
                  else [])"

subsection \<open>Answering a request\<close>

function request_bits :: "u16 \<Rightarrow> nat \<Rightarrow> nat list" where
  "request_bits bitset i =
     (if bitset \<noteq> 0
      then (if bit bitset 0 then [i] else []) @ request_bits (drop_bit 1 bitset) (Suc i)
      else [])"
  by pat_completeness auto
termination
proof (relation "measure (\<lambda>(b, i). unat b)", simp)
  fix bitset :: u16 and i :: nat
  assume "bitset \<noteq> 0"
  then have "0 < unat bitset" by (simp add: unat_gt_0)
  then have "unat bitset div 2 < unat bitset" by simp
  then show "((drop_bit 1 bitset, Suc i), bitset, i) \<in> measure (\<lambda>(b, i). unat b)"
    by (simp add: drop_bit_eq_div unat_div)
qed

declare request_bits.simps [simp del]

text \<open>The frame numbers of a request, in the order in which they are copied.\<close>

definition request_indices :: "int \<Rightarrow> data_request \<Rightarrow> int list" where
  "request_indices num_frames r =
     (if dr_offset r < 0 then map int [0..<nat num_frames]
      else filter (\<lambda>index. index < num_frames) (map (\<lambda>i. dr_offset r + int i) (request_bits (dr_bitset r) 0)))"

fun copy_frames :: "sent_block \<Rightarrow> int list \<Rightarrow> nat \<Rightarrow> (int \<times> byte list) list" where
  "copy_frames block [] buf_offset = []"
| "copy_frames block (index # is) buf_offset =
     (let bytes = sent_block_get_frame index (length (sb_buffer block) - buf_offset) block
      in if length bytes > 0
         then (index, bytes) # copy_frames block is (buf_offset + length bytes)
         else copy_frames block is buf_offset)"

definition resend_frames :: "sent_block \<Rightarrow> data_request \<Rightarrow> (int \<times> byte list) list" where
  "resend_frames block r =
     (if sb_num_frames block > 0
      then copy_frames block (request_indices (sb_num_frames block) r) 0
      else [(0, [])])"

text \<open>The packet of a frame; the time tag is not restored.\<close>

definition resend_packet :: "int \<Rightarrow> sent_block \<Rightarrow> int \<times> byte list \<Rightarrow> data_packet" where
  "resend_packet channel block fr = \<lparr>
     dp_sequence = sb_sequence block, dp_channel = channel, dp_tt = 0,
     dp_samplerate = sb_samplerate block, dp_total_size = int (length (sb_buffer block)),
     dp_msg_size = sb_message_size block, dp_num_frames = nat (sb_num_frames block),
     dp_frame_index = nat (fst fr), dp_data = snd fr, dp_frame = None, dp_size = length (snd fr),
     dp_flags = sb_flags block, dp_protocol_version = sb_protocol_version block,
     dp_transport_profile = sb_transport_profile block, dp_pcm_format = sb_pcm_format block,
     dp_absolute_sample_position = sb_absolute_sample_position block,
     dp_source_timestamp = sb_source_timestamp block, dp_block_frames = sb_block_frames block,
     dp_channel_count = sb_channel_count block \<rparr>"

text \<open>All the requests of a sink; the outer option fails on an access outside the history.\<close>

fun resend_data :: "history_buffer \<Rightarrow> int \<Rightarrow> data_request list \<Rightarrow> data_packet list option" where
  "resend_data hb channel [] = Some []"
| "resend_data hb channel (r # rs) = do {
     found \<leftarrow> history_find (dr_sequence r) hb;
     ps \<leftarrow> resend_data hb channel rs;
     Some (case found of
        None \<Rightarrow> ps
      | Some i \<Rightarrow> let block = hb_buffer hb ! i
                  in map (resend_packet channel block) (resend_frames block r) @ ps) }"


subsection \<open>The requests name the missing frames\<close>

lemma request_bits_filter:
  "request_bits b k = map (\<lambda>i. i + k) (filter (bit b) [0..<16])"
proof (induction b k rule: request_bits.induct)
  case (1 b k)
  show ?case
  proof (cases "b = 0")
    case True
    then show ?thesis by (subst request_bits.simps) simp
  next
    case False
    have hi: "\<not> bit b n" if "16 \<le> n" for n using that bit_imp_le_length [of b n] by auto
    have "filter (bit (drop_bit 1 b)) [0..<16] = filter (\<lambda>i. bit b (Suc i)) [0..<16]"
      by (simp add: bit_drop_bit_eq comp_def)
    also have "\<dots> = filter (\<lambda>i. bit b (Suc i)) [0..<15]"
      using hi [of 16] by (simp add: upt_rec [of 15 16] upt_conv_Cons numeral_eq_Suc)
    finally have "map Suc (filter (bit (drop_bit 1 b)) [0..<16]) = filter (bit b) (map Suc [0..<15])"
      by (simp add: filter_map comp_def)
    moreover have "filter (bit b) [0..<16] = (if bit b 0 then [0] else []) @ filter (bit b) (map Suc [0..<15])"
      by (simp add: map_Suc_upt upt_conv_Cons [of 0 16] numeral_eq_Suc)
    ultimately have "filter (bit b) [0..<16]
        = (if bit b 0 then [0] else []) @ map Suc (filter (bit (drop_bit 1 b)) [0..<16])" by simp
    moreover have "request_bits b k = (if bit b 0 then [k] else []) @ request_bits (drop_bit 1 b) (Suc k)"
      using False by (simp add: request_bits.simps [of b k])
    ultimately show ?thesis using 1 [OF False] by simp
  qed
qed

lemma fill_bitset_ok:
  assumes has: "\<And>i. 0 \<le> i \<Longrightarrow> i < n \<Longrightarrow> has i = Some (got i)" and o: "0 \<le> offset"
    and srt: "sorted is" "distinct is" "\<forall>i \<in> set is. i < 16"
    and bs: "\<forall>i \<in> set is. \<not> bit bs i"
  shows "\<exists>bs'. fill_bitset has n offset is bs = Some bs' \<and>
    (\<forall>i. bit bs' i \<longleftrightarrow> bit bs i \<or> i \<in> set is \<and> offset + int i < n \<and> \<not> got (offset + int i))"
  using srt bs
proof (induction "is" arbitrary: bs)
  case Nil
  then show ?case by simp
next
  case (Cons i "is")
  let ?f = "offset + int i"
  show ?case
  proof (cases "?f \<ge> n")
    case True
    then have "offset + int j \<ge> n" if "j \<in> set is" for j using Cons.prems(1) that by force
    then show ?thesis using True by force
  next
    case False
    let ?bs = "if got ?f then bs else bs OR push_bit i 1"
    have bit: "bit ?bs j \<longleftrightarrow> bit bs j \<or> j = i \<and> \<not> got ?f" for j
      using Cons.prems(3) by (auto simp: bit_or_iff bit_exp_iff possible_bit_word)
    have "\<exists>bs'. fill_bitset has n offset is ?bs = Some bs' \<and>
      (\<forall>j. bit bs' j \<longleftrightarrow> bit ?bs j \<or> j \<in> set is \<and> offset + int j < n \<and> \<not> got (offset + int j))"
      using Cons.prems bit by (intro Cons.IH) auto
    then show ?thesis using False has [of ?f] o bit by (auto simp: Let_def)
  qed
qed

text \<open>The frames that a list of requests names.\<close>

definition requested :: "int \<Rightarrow> data_request list \<Rightarrow> int list" where
  "requested n rs = concat (map (request_indices n) rs)"

lemma map_upt_upto: "map (\<lambda>i. k + int i) [0..<m] = [k..k + int m - 1]"
proof (induction m)
  case 0
  then show ?case by simp
next
  case (Suc m)
  then show ?case using upto_rec2 [of k "k + int m"] by simp
qed

lemma filter_bits_window:
  assumes "0 \<le> k" and "\<forall>i. bit bs i \<longleftrightarrow> i < 16 \<and> k + int i < n \<and> \<not> got (k + int i)"
  shows "request_indices n \<lparr> dr_sequence = seq, dr_offset = k, dr_bitset = bs \<rparr>
    = filter (\<lambda>i. \<not> got i) [k..min (k + 15) (n - 1)]"
proof -
  have "request_indices n \<lparr> dr_sequence = seq, dr_offset = k, dr_bitset = bs \<rparr>
      = filter (\<lambda>i. i < n \<and> \<not> got i) (map (\<lambda>i. k + int i) [0..<16])"
  proof -
    define js where "js = [0..<16::nat]"
    have "\<forall>i \<in> set js. i < 16" by (simp add: js_def)
    then have "filter (bit bs) js = filter (\<lambda>i. k + int i < n \<and> \<not> got (k + int i)) js"
      using assms(2) by (intro filter_cong) auto
    then show ?thesis using assms(1)
      by (simp add: request_indices_def request_bits_filter filter_map comp_def flip: js_def)
        (rule arg_cong [of _ _ "map (\<lambda>i. k + int i)"], auto intro: filter_cong)
  qed
  also have "map (\<lambda>i. k + int i) [0..<16] = [k..k + 15]"
    unfolding map_upt_upto by (rule arg_cong [of _ _ "upto k"]) simp
  also have "filter (\<lambda>i. i < n \<and> \<not> got i) [k..k + 15] = filter (\<lambda>i. \<not> got i) [k..min (k + 15) (n - 1)]"
  proof (cases "k + 15 < n")
    case True
    then show ?thesis by (auto simp: min_def intro!: filter_cong)
  next
    case False
    show ?thesis
    proof (cases "k \<le> n")
      case le: True
      have "[k..k + 15] = [k..n - 1] @ [n..k + 15]" using False le by (intro upto_split1) auto
      then show ?thesis using False by (auto simp: min_def filter_empty_conv intro!: filter_cong)
    next
      case gt: False
      then show ?thesis by (auto simp: filter_empty_conv)
    qed
  qed
  finally show ?thesis .
qed


lemma frame_requests_ok:
  assumes has: "\<And>i. 0 \<le> i \<Longrightarrow> i < n \<Longrightarrow> has i = Some (got i)" and n: "n \<le> 32752"
    and k: "0 \<le> k" "k < 2 ^ 15"
  shows "\<exists>rs. frame_requests has seq n k = Some rs \<and> requested n rs = filter (\<lambda>i. \<not> got i) [k..n - 1] \<and>
    (\<forall>r \<in> set rs. dr_sequence r = seq \<and> 0 \<le> dr_offset r \<and> dr_offset r < 2 ^ 15)"
  using k
proof (induction "nat (n - k)" arbitrary: k rule: less_induct)
  case less
  show ?case
  proof (cases "k < n")
    case False
    then show ?thesis by (simp add: frame_requests.simps [of has seq n k] requested_def)
  next
    case True
    obtain bs where bs: "fill_bitset has n k [0..<16] 0 = Some bs"
      "\<forall>i. bit bs i \<longleftrightarrow> i < 16 \<and> k + int i < n \<and> \<not> got (k + int i)"
      using fill_bitset_ok [of n has got k "[0..<16]" 0] has less.prems(1) by auto
    have step: "int16 (k + 16) = k + 16" using True n less.prems by (simp add: int16_small)
    obtain rs where rs: "frame_requests has seq n (k + 16) = Some rs"
      "requested n rs = filter (\<lambda>i. \<not> got i) [k + 16..n - 1]"
      "\<forall>r \<in> set rs. dr_sequence r = seq \<and> 0 \<le> dr_offset r \<and> dr_offset r < 2 ^ 15"
      using less.hyps [of "k + 16"] less.prems True n by auto
    let ?r = "\<lparr> dr_sequence = seq, dr_offset = k, dr_bitset = bs \<rparr>"
    have win: "request_indices n ?r = filter (\<lambda>i. \<not> got i) [k..min (k + 15) (n - 1)]"
      by (rule filter_bits_window [OF less.prems(1) bs(2)])
    have "[k..n - 1] = [k..min (k + 15) (n - 1)] @ [k + 16..n - 1]"
    proof (cases "k + 15 < n - 1")
      case True
      then show ?thesis using upto_split2 [of k "k + 15" "n - 1"] by (simp add: min_def add.assoc)
    next
      case False
      then have "min (k + 15) (n - 1) = n - 1" and "[k + 16..n - 1] = []" by auto
      then show ?thesis by simp
    qed
    then have all: "filter (\<lambda>i. \<not> got i) [k..n - 1] = request_indices n ?r @ requested n rs"
      using win rs(2) by simp
    have res: "frame_requests has seq n k = Some (if bs \<noteq> 0 then ?r # rs else rs)"
      using True less.prems bs(1) rs(1) step by (simp add: frame_requests.simps [of has seq n k])
    show ?thesis
    proof (cases "bs = 0")
      case True
      then have "request_indices n ?r = []"
        using less.prems by (simp add: request_indices_def request_bits_filter)
      then show ?thesis using True res all rs(3) by simp
    next
      case False
      then show ?thesis using res all rs(3) less.prems by (auto simp: requested_def)
    qed
  qed
qed

text \<open>With more than 32752 frames the 16-bit counter overflows.\<close>

lemma frame_requests_overflow:
  assumes "32752 < n" and "0 \<le> k" and "k < 2 ^ 15" and "16 dvd k"
  shows "frame_requests has seq n k = None"
  using assms(2-4)
proof (induction "nat (2 ^ 15 - k)" arbitrary: k rule: less_induct)
  case less
  have k: "k \<le> 32752" using less.prems by (auto elim!: dvdE)
  have neg: "frame_requests has seq n j = None" if "j < 0" for j
    using that assms(1) by (simp add: frame_requests.simps [of has seq n j])
  have "frame_requests has seq n (int16 (k + 16)) = None"
  proof (cases "k + 16 < 2 ^ 15")
    case True
    then show ?thesis using less.hyps [of "k + 16"] less.prems int16_step [of k] by simp
  next
    case False
    then show ?thesis using neg [of "k + 16 - 2 ^ 16"] less.prems int16_step [of k] by simp
  qed
  then show ?case using assms(1) k less.prems
    by (cases "fill_bitset has n k [0..<16] 0") (simp_all add: frame_requests.simps [of has seq n k])
qed


lemma block_ok_empty:
  assumes "block_ok h b m" and "0 < block_num_frames b" and "rb_received_frames b \<le> 0"
  shows "m = Map.empty"
proof -
  have "storage_ok h (rb_frames b) m" and "card (dom m) = 0"
    using assms by (auto simp: block_ok_def block_num_frames_def)
  have "dom m \<subseteq> {..<st_size (rb_frames b)}"
    using storage_okD(1) [OF \<open>storage_ok h (rb_frames b) m\<close>] by auto
  then have "finite (dom m)" by (rule finite_subset) simp
  then show ?thesis using \<open>card (dom m) = 0\<close> by simp
qed

lemma block_requests_ok:
  assumes ok: "block_ok h b m" and n: "0 < block_num_frames b" "block_num_frames b \<le> 32752"
  shows "\<exists>rs. block_requests h b = Some rs \<and>
    requested (int (block_num_frames b)) rs
      = filter (\<lambda>i. m (nat i) = None) [0..int (block_num_frames b) - 1] \<and>
    (\<forall>r \<in> set rs. dr_sequence r = rb_sequence b \<and> - 1 \<le> dr_offset r \<and> dr_offset r < 2 ^ 15)"
proof (cases "rb_received_frames b > 0")
  case True
  let ?n = "int (block_num_frames b)"
  let ?has = "\<lambda>i. if i < 0 then None else block_has_frame h b (nat i)"
  have st: "storage_ok h (rb_frames b) m" using ok n by (simp add: block_ok_def block_num_frames_def)
  have "?has i = Some (m (nat i) \<noteq> None)" if "0 \<le> i" "i < ?n" for i
    using storage_has_frame_ok [OF st, of "nat i"] that by (simp add: block_has_frame_def block_num_frames_def)
  then obtain rs where "frame_requests ?has (rb_sequence b) ?n 0 = Some rs"
    "requested ?n rs = filter (\<lambda>i. \<not> m (nat i) \<noteq> None) [0..?n - 1]"
    "\<forall>r \<in> set rs. dr_sequence r = rb_sequence b \<and> 0 \<le> dr_offset r \<and> dr_offset r < 2 ^ 15"
    using frame_requests_ok [of ?n ?has "\<lambda>i. m (nat i) \<noteq> None" 0 "rb_sequence b"] n by auto
  then show ?thesis using True by (auto simp: block_requests_def)
next
  case False
  have "m = Map.empty" using block_ok_empty [OF ok n(1)] False by simp
  then show ?thesis using False map_upt_upto [of 0 "block_num_frames b"]
    by (simp add: block_requests_def requested_def request_indices_def)
qed

text \<open>The size of a frame, in natural numbers.\<close>

lemma sent_block_frame_start:
  assumes ok: "sent_block_ok sb" and j: "0 \<le> j" "j < sb_num_frames sb"
  shows "nat j * nat (sb_frame_size sb) < length (sb_buffer sb)"
    and "j \<noteq> sb_num_frames sb - 1 \<Longrightarrow> Suc (nat j) * nat (sb_frame_size sb) < length (sb_buffer sb)"
    and "j = sb_num_frames sb - 1 \<Longrightarrow> length (sb_buffer sb) \<le> Suc (nat j) * nat (sb_frame_size sb)"
proof -
  define i fs n where "i = nat j" and "fs = nat (sb_frame_size sb)" and "n = nat (sb_num_frames sb)"
  then have e: "j = int i" "sb_frame_size sb = int fs" "sb_num_frames sb = int n"
    using j ok by (simp_all add: sent_block_ok_def)
  have "int ((n - 1) * fs) < int (length (sb_buffer sb))" "int (length (sb_buffer sb)) \<le> int (n * fs)"
    using ok e by (auto simp: sent_block_ok_def of_nat_diff)
  then have len: "(n - 1) * fs < length (sb_buffer sb)" "length (sb_buffer sb) \<le> n * fs"
    by (simp_all only: of_nat_less_iff of_nat_le_iff)
  have "i * fs \<le> (n - 1) * fs" using j e by (intro mult_right_mono) auto
  then show "nat j * nat (sb_frame_size sb) < length (sb_buffer sb)"
    using len(1) unfolding e nat_int by (rule le_less_trans)
  show "Suc (nat j) * nat (sb_frame_size sb) < length (sb_buffer sb)" if "j \<noteq> sb_num_frames sb - 1"
  proof -
    have "Suc i * fs \<le> (n - 1) * fs" using j e that by (intro mult_right_mono) auto
    then show ?thesis using len(1) unfolding e nat_int by (rule le_less_trans)
  qed
  show "length (sb_buffer sb) \<le> Suc (nat j) * nat (sb_frame_size sb)" if "j = sb_num_frames sb - 1"
  proof -
    have "n = Suc i" using e that by linarith
    then show ?thesis using len(2) unfolding e(1,2) nat_int by simp
  qed
qed

lemma get_frame_room:
  assumes ok: "sent_block_ok sb" and j: "0 \<le> j" "j < sb_num_frames sb" "off \<le> nat j * nat (sb_frame_size sb)"
  shows "sent_block_get_frame j (length (sb_buffer sb) - off) sb
    = take (nat (sb_frame_size sb)) (drop (nat j * nat (sb_frame_size sb)) (sb_buffer sb))"
proof (cases "j = sb_num_frames sb - 1")
  case True
  have "nat (j * sb_frame_size sb) = nat j * nat (sb_frame_size sb)" using j by (simp add: nat_mult_distrib)
  moreover have "length (drop (nat j * nat (sb_frame_size sb)) (sb_buffer sb)) \<le> nat (sb_frame_size sb)"
    using sent_block_frame_start(3) [OF ok j(1,2) True] by simp
  ultimately show ?thesis
    using True [symmetric] diff_le_mono2 [OF j(3)] by (simp add: sent_block_get_frame_def Let_def)
next
  case False
  then have "nat (sb_frame_size sb) \<le> length (sb_buffer sb) - off"
    using j(3) sent_block_frame_start(2) [OF ok j(1,2)] by simp
  then show ?thesis using get_frame_chunk [OF ok, of "nat j"] j by simp
qed

lemma copy_frames_ok:
  assumes ok: "sent_block_ok sb" and js: "sorted_wrt (<) js" "\<forall>j \<in> set js. 0 \<le> j \<and> j < sb_num_frames sb"
    and off: "\<forall>j \<in> set js. off \<le> nat j * nat (sb_frame_size sb)"
  shows "copy_frames sb js off = map (\<lambda>j. (j, sent_block_get_frame j (nat (sb_frame_size sb)) sb)) js"
  using js off
proof (induction js arbitrary: off)
  case Nil
  then show ?case by simp
next
  case (Cons j js)
  let ?fs = "nat (sb_frame_size sb)" and ?len = "length (sb_buffer sb)"
  let ?c = "take ?fs (drop (nat j * ?fs) (sb_buffer sb))"
  have j: "0 \<le> j" "j < sb_num_frames sb" "off \<le> nat j * ?fs" using Cons.prems by auto
  have pos: "nat j * ?fs < ?len" using sent_block_frame_start(1) [OF ok j(1,2)] .
  have chunk: "sent_block_get_frame j ?fs sb = ?c"
    using get_frame_chunk [OF ok, of "nat j" ?fs] j by simp
  have room: "sent_block_get_frame j (?len - off) sb = ?c"
    using ok j by (rule get_frame_room)
  have "length ?c > 0" "length ?c \<le> ?fs" using pos ok by (auto simp: sent_block_ok_def)
  moreover have "off + length ?c \<le> nat i * ?fs" if "i \<in> set js" for i
  proof -
    have "Suc (nat j) \<le> nat i" using Cons.prems(1) that j(1) by auto
    then have "Suc (nat j) * ?fs \<le> nat i * ?fs" by (rule mult_right_mono) simp
    then show ?thesis using j(3) \<open>length ?c \<le> ?fs\<close> unfolding mult_Suc by linarith
  qed
  ultimately show ?case using Cons chunk room by (simp add: Let_def)
qed


lemma request_indices_sorted: "sorted_wrt (<) (request_indices n r)"
proof -
  have "sorted_wrt (<) (map int [0..<nat n])" by (simp add: sorted_wrt_map)
  moreover have "sorted_wrt (<) (map (\<lambda>i. dr_offset r + int i) (request_bits (dr_bitset r) 0))"
    unfolding request_bits_filter sorted_wrt_map by (auto intro: sorted_wrt_filter)
  ultimately show ?thesis by (simp add: request_indices_def sorted_wrt_filter)
qed

lemma request_indices_range: "i \<in> set (request_indices n r) \<Longrightarrow> 0 \<le> i \<and> i < n"
  by (auto simp: request_indices_def split: if_splits)

lemma resend_frames_ok:
  assumes "sent_block_ok sb"
  shows "resend_frames sb r
    = map (\<lambda>j. (j, sent_block_get_frame j (nat (sb_frame_size sb)) sb)) (request_indices (sb_num_frames sb) r)"
  using copy_frames_ok [OF assms request_indices_sorted] request_indices_range assms
  by (simp add: resend_frames_def sent_block_ok_def)

lemma resend_data_ok:
  assumes "history_find seq hb = Some (Some i)" and "\<forall>r \<in> set rs. dr_sequence r = seq"
    and "hb_buffer hb ! i = sb" and "sent_block_ok sb"
  shows "\<exists>ps. resend_data hb channel rs = Some ps \<and>
    map (\<lambda>d. (int (dp_frame_index d), dp_data d)) ps
      = map (\<lambda>j. (j, sent_block_get_frame j (nat (sb_frame_size sb)) sb)) (requested (sb_num_frames sb) rs)"
  using assms(2)
proof (induction rs)
  case Nil
  then show ?case by (simp add: requested_def)
next
  case (Cons r rs)
  then obtain ps where "resend_data hb channel rs = Some ps"
    "map (\<lambda>d. (int (dp_frame_index d), dp_data d)) ps
      = map (\<lambda>j. (j, sent_block_get_frame j (nat (sb_frame_size sb)) sb)) (requested (sb_num_frames sb) rs)"
    by auto
  then show ?case using Cons.prems assms(1,3) resend_frames_ok [OF assms(4), of r]
    by (auto simp: requested_def resend_packet_def request_indices_range)
qed

subsection \<open>The requests survive the wire\<close>

definition request_ok :: "data_request \<Rightarrow> bool" where
  "request_ok r \<longleftrightarrow> - (2 ^ 31) \<le> dr_sequence r \<and> dr_sequence r < 2 ^ 31 \<and>
     - (2 ^ 15) \<le> dr_offset r \<and> dr_offset r < 2 ^ 15"

lemma sint_narrow:
  "- (2 ^ (LENGTH('a) - 1)) \<le> i \<Longrightarrow> i < 2 ^ (LENGTH('a) - 1) \<Longrightarrow> sint (word_of_int i :: 'a::len word) = i"
  by (simp add: sint_sbintrunc' signed_take_bit_int_eq_self)

lemma read_request_bytes:
  assumes "\<forall>r \<in> set rs. request_ok r"
  shows "read_requests (length rs) (concat (map request_bytes rs) @ rest) = rs"
  using assms
proof (induction rs)
  case Nil
  then show ?case by simp
next
  case (Cons r rs)
  have "sint (word_of_int (dr_sequence r) :: u32) = dr_sequence r"
    "sint (word_of_int (dr_offset r) :: u16) = dr_offset r"
    using Cons.prems by (simp_all add: request_ok_def sint_narrow)
  then show ?case using Cons by (simp add: request_bytes_def read_bytes_append)
qed

lemma request_bytes_length: "length (request_bytes r) = 8"
  by (simp add: request_bytes_def)

lemma requests_length: "length (concat (map request_bytes rs)) = 8 * length rs"
  by (induction rs) (simp_all add: request_bytes_length)

lemma header_image_fields:
  assumes "type < 128" and "0 \<le> cmd" and "cmd < 128"
    and "0 \<le> to" and "to < 2 ^ 31" and "0 \<le> from" and "from < 2 ^ 31"
  shows "binmsg_check (binmsg_header_image type cmd to from @ rest) \<and>
    binmsg_type (binmsg_header_image type cmd to from @ rest) = type \<and>
    binmsg_cmd (binmsg_header_image type cmd to from @ rest) = word_of_int cmd \<and>
    binmsg_to (binmsg_header_image type cmd to from @ rest) = to \<and>
    binmsg_from (binmsg_header_image type cmd to from @ rest) = Some from \<and>
    binmsg_headersize (binmsg_header_image type cmd to from @ rest) = length (binmsg_header_image type cmd to from)"
proof -
  let ?i = "binmsg_header_image type cmd to from"
  have "binmsg_write_header (replicate (length ?i) 0 @ rest) type cmd to from = (length ?i, ?i @ rest)"
    using binmsg_write_header_image [of "type" cmd "to" "from" "replicate (length ?i) 0 @ rest"] by simp
  then show ?thesis
    using binmsg_header_fields [OF assms] by (simp add: binmsg_header_image_length)
qed

lemma request_message_image:
  "request_message ep_id sink_id stream_id rs =
     binmsg_header_image kAooMsgTypeSource kAooBinMsgCmdData ep_id sink_id
     @ to_bytes (word_of_int stream_id :: u32) @ to_bytes (word_of_nat (length rs) :: u32)
     @ concat (map request_bytes rs)"
proof -
  let ?i = "binmsg_header_image kAooMsgTypeSource kAooBinMsgCmdData ep_id sink_id"
  have "length ?i \<le> length (replicate AOO_MAX_PACKET_SIZE (0::byte))"
    by (simp add: binmsg_header_image_length AOO_MAX_PACKET_SIZE_def)
  note binmsg_write_header_image [OF this]
  then show ?thesis by (simp add: request_message_def)
qed

lemma handle_request_message:
  assumes "\<forall>r \<in> set rs. request_ok r" and "int (length rs) < 2 ^ 16" and "0 < bufsize"
    and "- (2 ^ 31) \<le> stream_id" and "stream_id < 2 ^ 31"
  shows "handle_data_request_bin bufsize (Some (stream_id, True))
    (to_bytes (word_of_int stream_id :: u32) @ to_bytes (word_of_nat (length rs) :: u32)
     @ concat (map request_bytes rs)) = rs"
proof -
  have sid: "sint (word_of_int stream_id :: u32) = stream_id"
    using assms(4,5) by (simp add: sint_narrow)
  have cnt: "sint (word_of_nat (length rs) :: u32) = int (length rs)"
    using assms(2) sint_u32 [of "int (length rs)"] by simp
  have sc: "scast (word_of_nat (length rs) :: u32) = (word_of_nat (length rs) :: u64)"
    unfolding scast_eq cnt by simp
  have "\<not> (word_of_nat (8 * length rs) :: u64) < word_of_int (int (length rs)) * 8"
    by (simp add: mult.commute)
  then have "\<not> (word_of_nat (length (concat (map request_bytes rs))) :: u64) < word_of_int (int (length rs)) * 8"
    unfolding requests_length .
  then show ?thesis using assms(3) read_request_bytes [OF assms(1), of "[]"]
    by (simp add: handle_data_request_bin_def read_bytes_append sid cnt sc del: of_nat_mult length_concat)
qed

lemma pack_requests_ok:
  assumes "\<And>cs. cs \<noteq> [] \<Longrightarrow> int (length cs) \<le> mx \<Longrightarrow> set cs \<subseteq> set (cur @ rs) \<Longrightarrow> rd (msg cs) = cs \<and> P (msg cs)"
    and "int (length cur) < mx"
  shows "concat (map rd (pack_requests mx msg cur rs)) = cur @ rs \<and> (\<forall>m \<in> set (pack_requests mx msg cur rs). P m)"
  using assms
proof (induction rs arbitrary: cur)
  case Nil
  then show ?case using Nil.prems(1) [of cur] by auto
next
  case (Cons r rs)
  show ?case
  proof (cases "int (length (cur @ [r])) \<ge> mx")
    case True
    have "rd (msg (cur @ [r])) = cur @ [r] \<and> P (msg (cur @ [r]))"
      using True Cons.prems by (intro Cons.prems(1)) auto
    moreover have "concat (map rd (pack_requests mx msg [] rs)) = [] @ rs \<and> (\<forall>m \<in> set (pack_requests mx msg [] rs). P m)"
      using Cons.prems by (intro Cons.IH) auto
    ultimately show ?thesis using True by simp
  next
    case False
    have "concat (map rd (pack_requests mx msg (cur @ [r]) rs)) = (cur @ [r]) @ rs
      \<and> (\<forall>m \<in> set (pack_requests mx msg (cur @ [r]) rs). P m)"
      using False Cons.prems by (intro Cons.IH) auto
    then show ?thesis using False by simp
  qed
qed

subsection \<open>Properties\<close>

text \<open>
  C35. Data requests survive the network: the messages that the sink packs from any list of requests
  fit into the packet size, carry the header of the source they are meant for, and what the source
  reads from them, message after message, are the same requests in the same order.
\<close>

theorem data_requests_transfer:
  assumes ids: "0 \<le> ep_id" "ep_id < 2 ^ 31" "0 \<le> sink_id" "sink_id < 2 ^ 31"
    and sid: "- (2 ^ 31) \<le> stream_id" "stream_id < 2 ^ 31"
    and size: "kSinkBinDataHeaderSize + 8 \<le> packet_size" "packet_size \<le> int AOO_MAX_PACKET_SIZE"
    and rs: "\<forall>r \<in> set rs. request_ok r" and bufsize: "0 < bufsize"
  shows "concat (map (\<lambda>m. handle_data_request_bin bufsize (Some (stream_id, True)) (drop (binmsg_headersize m) m))
      (send_data_requests_bin packet_size ep_id sink_id stream_id rs)) = rs \<and>
    (\<forall>m \<in> set (send_data_requests_bin packet_size ep_id sink_id stream_id rs).
      int (length m) \<le> packet_size \<and> binmsg_check m \<and> binmsg_type m = kAooMsgTypeSource \<and>
      binmsg_cmd m = word_of_int kAooBinMsgCmdData \<and> binmsg_to m = ep_id \<and> binmsg_from m = Some sink_id)"
proof -
  let ?mx = "(packet_size - kSinkBinDataHeaderSize) div 8"
  let ?msg = "request_message ep_id sink_id stream_id"
  let ?rd = "\<lambda>m. handle_data_request_bin bufsize (Some (stream_id, True)) (drop (binmsg_headersize m) m)"
  let ?P = "\<lambda>m. int (length m) \<le> packet_size \<and> binmsg_check m \<and> binmsg_type m = kAooMsgTypeSource \<and>
    binmsg_cmd m = word_of_int kAooBinMsgCmdData \<and> binmsg_to m = ep_id \<and> binmsg_from m = Some sink_id"
  have ty: "kAooMsgTypeSource < 128" "0 \<le> kAooBinMsgCmdData" "kAooBinMsgCmdData < 128"
    by (simp_all add: kAooMsgTypeSource_def kAooBinMsgCmdData_def)
  note hd = header_image_fields [OF ty ids]
  have "?rd (?msg cs) = cs \<and> ?P (?msg cs)"
    if cs: "int (length cs) \<le> ?mx" "set cs \<subseteq> set ([] @ rs)" for cs
  proof -
    have mul: "8 * int (length cs) \<le> packet_size - kSinkBinDataHeaderSize" using cs(1) by linarith
    then have "int (length cs) < 2 ^ 16"
      using size(2) by (simp add: kSinkBinDataHeaderSize_def AOO_MAX_PACKET_SIZE_def)
    then have "?rd (?msg cs) = cs"
      using hd handle_request_message [of cs bufsize stream_id] cs(2) rs bufsize sid
      by (simp only: request_message_image) (auto simp: subset_iff)
    moreover have "length (?msg cs) \<le> 12 + 8 + 8 * length cs"
      using requests_length [of cs]
      by (simp add: request_message_image binmsg_header_image_length del: length_concat)
    then have "int (length (?msg cs)) \<le> packet_size"
      using mul by (simp add: kSinkBinDataHeaderSize_def kAooBinMsgLargeHeaderSize_def)
    ultimately show ?thesis using hd unfolding request_message_image by blast
  qed
  then have "\<And>cs. cs \<noteq> [] \<Longrightarrow> int (length cs) \<le> ?mx \<Longrightarrow> set cs \<subseteq> set ([] @ rs) \<Longrightarrow> ?rd (?msg cs) = cs \<and> ?P (?msg cs)" .
  moreover have "int (length ([] :: data_request list)) < ?mx" using size(1) by simp
  ultimately have "concat (map ?rd (pack_requests ?mx ?msg [] rs)) = [] @ rs \<and> (\<forall>m \<in> set (pack_requests ?mx ?msg [] rs). ?P m)"
    by (rule pack_requests_ok)
  then show ?thesis unfolding send_data_requests_bin_def Let_def append_Nil .
qed


theorem data_requests_transfer_witness:
  "concat (map (\<lambda>m. handle_data_request_bin 4 (Some (9, True)) (drop (binmsg_headersize m) m))
      (send_data_requests_bin 80 1 2 9 [\<lparr> dr_sequence = 7, dr_offset = -1, dr_bitset = 0 \<rparr>]))
    = [\<lparr> dr_sequence = 7, dr_offset = -1, dr_bitset = 0 \<rparr>]"
  using data_requests_transfer [of 1 2 9 80 "[\<lparr> dr_sequence = 7, dr_offset = -1, dr_bitset = 0 \<rparr>]" 4]
  by (simp add: kSinkBinDataHeaderSize_def kAooBinMsgLargeHeaderSize_def AOO_LOW_LATENCY_PACKET_HEADER_SIZE_def
      AOO_MAX_PACKET_SIZE_def request_ok_def)

text \<open>
  The sink asks for exactly the frames it misses: for a block with at most 32752 frames the
  requests are built, name the frames that have not arrived, each of them once and in ascending
  order, and can be represented on the wire.
\<close>

theorem requests_name_missing_frames:
  assumes "block_ok h b m" and "0 < block_num_frames b" and "block_num_frames b \<le> 32752"
    and "- (2 ^ 31) \<le> rb_sequence b" and "rb_sequence b < 2 ^ 31"
  shows "\<exists>rs. block_requests h b = Some rs \<and> (\<forall>r \<in> set rs. request_ok r \<and> dr_sequence r = rb_sequence b) \<and>
    requested (int (block_num_frames b)) rs
      = filter (\<lambda>i. m (nat i) = None) [0..int (block_num_frames b) - 1]"
proof -
  obtain rs where "block_requests h b = Some rs"
    "requested (int (block_num_frames b)) rs = filter (\<lambda>i. m (nat i) = None) [0..int (block_num_frames b) - 1]"
    "\<forall>r \<in> set rs. dr_sequence r = rb_sequence b \<and> - 1 \<le> dr_offset r \<and> dr_offset r < 2 ^ 15"
    using block_requests_ok [OF assms(1-3)] by blast
  then show ?thesis using assms(4,5) by (fastforce simp: request_ok_def)
qed

text \<open>
  C33. Retransmission completes a block: the sink asks for the missing frames of a block, the source
  finds the block in its history and sends packets, and once the frames of these packets have
  been added to the block, in any order, the block is complete and holds the data of the source.
\<close>

theorem resend_completes_block:
  assumes ok: "block_ok h b m" and sb: "sent_block_ok sb" "sb_num_frames sb = int (block_num_frames b)"
    and n: "block_num_frames b \<le> 32752"
    and held: "\<forall>i p. m i = Some p \<longrightarrow> payload h p = sent_block_get_frame (int i) (nat (sb_frame_size sb)) sb"
    and found: "history_find (rb_sequence b) hb = Some (Some k)" "hb_buffer hb ! k = sb"
  shows "\<exists>rs ps. block_requests h b = Some rs \<and> resend_data hb channel rs = Some ps \<and>
    (\<forall>arr. mset (map (\<lambda>(i, p). (int i, payload h p)) arr) = mset (map (\<lambda>d. (int (dp_frame_index d), dp_data d)) ps) \<longrightarrow>
      distinct (map snd arr) \<longrightarrow> (\<forall>(i, p) \<in> set arr. p \<in> dom h \<and> p \<notin> ran m) \<longrightarrow>
      (\<exists>h' b'. block_add_frames arr h b = Some (h', b') \<and> block_complete b' \<and>
        block_copy_frames h' b' = Some (sb_buffer sb)))"
proof -
  let ?n = "block_num_frames b" and ?get = "\<lambda>i. sent_block_get_frame i (nat (sb_frame_size sb)) sb"
  define miss where "miss = filter (\<lambda>i. m (nat i) = None) [0..int ?n - 1]"
  have npos: "0 < ?n" using sb by (simp add: sent_block_ok_def)
  have st: "storage_ok h (rb_frames b) m" using ok npos by (simp add: block_ok_def block_num_frames_def)
  obtain rs where rs: "block_requests h b = Some rs" "requested (int ?n) rs = miss"
    "\<forall>r \<in> set rs. dr_sequence r = rb_sequence b"
    using block_requests_ok [OF ok npos n] by (auto simp: miss_def)
  obtain ps where ps: "resend_data hb channel rs = Some ps"
    "map (\<lambda>d. (int (dp_frame_index d), dp_data d)) ps = map (\<lambda>j. (j, ?get j)) miss"
    using resend_data_ok [OF found(1) rs(3) found(2) sb(1), of channel] rs(2) sb(2) by auto
  have "\<exists>h' b'. block_add_frames arr h b = Some (h', b') \<and> block_complete b' \<and>
      block_copy_frames h' b' = Some (sb_buffer sb)"
    if arr: "mset (map (\<lambda>(i, p). (int i, payload h p)) arr) = mset (map (\<lambda>j. (j, ?get j)) miss)"
      "distinct (map snd arr)" "\<forall>(i, p) \<in> set arr. p \<in> dom h \<and> p \<notin> ran m" for arr
  proof -
    have set: "(\<lambda>(i, p). (int i, payload h p)) ` set arr = (\<lambda>j. (j, ?get j)) ` set miss"
      using mset_eq_setD [OF arr(1)] by simp
    have data: "i < ?n \<and> m i = None \<and> payload h p = ?get (int i)" if "(i, p) \<in> set arr" for i p
    proof -
      have "(int i, payload h p) \<in> (\<lambda>j. (j, ?get j)) ` set miss" using that unfolding set [symmetric] by force
      then show ?thesis by (auto simp: miss_def)
    qed
    have keys: "mset (map (\<lambda>x. int (fst x)) arr) = mset miss"
      using arg_cong [OF arr(1), of "image_mset fst"]
      by (simp add: multiset.map_comp comp_def case_prod_beta)
    then have "distinct (map (\<lambda>x. int (fst x)) arr)"
      using mset_eq_imp_distinct_iff [OF keys] by (simp add: miss_def)
    then have dk: "distinct (map fst arr)" by (simp add: distinct_map inj_on_def)
    have dom: "dom (map_of arr) = {..<?n} - dom m"
    proof -
      have "int ` fst ` set arr = set miss" using mset_eq_setD [OF keys] by (simp add: image_image)
      from this [symmetric] have "fst ` set arr = nat ` set miss" by (simp add: image_image)
      also have "\<dots> = {..<?n} - dom m"
      proof (intro set_eqI iffI)
        fix i assume "i \<in> {..<?n} - dom m"
        then have "int i \<in> set miss" by (auto simp: miss_def)
        then show "i \<in> nat ` set miss" by (rule rev_image_eqI) simp
      qed (auto simp: miss_def)
      finally show ?thesis by (simp add: dom_map_of_conv_image_fst)
    qed
    have "\<forall>(i, p) \<in> set arr. i < st_size (rb_frames b) \<and> m i = None \<and> p \<in> dom h \<and> p \<notin> ran m"
      using arr(3) data by (auto simp: block_num_frames_def)
    then obtain h' b' where r: "block_add_frames arr h b = Some (h', b')" "block_ok h' b' (m ++ map_of arr)"
      "payload h' = payload h" "st_size (rb_frames b') = st_size (rb_frames b)"
      using block_add_frames_ok [OF ok _ dk arr(2)] n by (auto simp: block_num_frames_def)
    have "dom (m ++ map_of arr) = {..<st_size (rb_frames b')}"
      using dom storage_okD(1) [OF st] r(4) by (auto simp: block_num_frames_def)
    moreover have "payload h' p = ?get (int i)" if "(m ++ map_of arr) i = Some p" for i p
      using that held data r(3) by (auto simp: map_add_Some_iff dest: map_of_SomeD)
    ultimately show ?thesis
      using full_block_copies [OF r(2) sb(1)] r sb(2) by (auto simp: block_num_frames_def)
  qed
  note complete = this
  show ?thesis
    by (rule exI [of _ rs], rule exI [of _ ps], intro conjI rs(1) ps(1))
       (use complete in \<open>unfold ps(2), blast\<close>)
qed


text \<open>A block of two frames of which the first has arrived.\<close>

definition sample_half_block :: received_block where
  "sample_half_block = received_block_empty\<lparr> rb_sequence := 5, rb_received_frames := 1,
     rb_frames := (storage_init 2 storage_empty)\<lparr> st_vec := Some 4 # replicate 5 None \<rparr> \<rparr>"

definition sample_half_heap :: frame_heap where
  "sample_half_heap = [4 \<mapsto> (sample_frame 0)\<lparr> fr_size := 2, fr_data := [1, 2] \<rparr>,
     7 \<mapsto> (sample_frame 0)\<lparr> fr_data := [3] \<rparr>]"

definition sample_history :: history_buffer where
  "sample_history = history_push_set (sample_packet 5 [1, 2, 3] 2) 2
     \<lparr> hb_buffer = [sent_block_init], hb_head = 0, hb_size = 0 \<rparr>"

lemma sample_half_block_ok: "block_ok sample_half_heap sample_half_block [0 \<mapsto> 4]"
  by (auto simp: block_ok_def sample_half_block_def sample_half_heap_def storage_ok_def vec_ok_def
      storage_init_def small_frame_limit_def fidx_def nth_Cons')

lemma sample_half_requests:
  "block_requests sample_half_heap sample_half_block = Some [\<lparr> dr_sequence = 5, dr_offset = 0, dr_bitset = 2 \<rparr>]"
  by code_simp

lemma sample_history_find: "history_find 5 sample_history = Some (Some 0)"
  by code_simp

lemma sample_resend:
  "map_option (map (\<lambda>d. (int (dp_frame_index d), dp_data d)))
     (resend_data sample_history 0 [\<lparr> dr_sequence = 5, dr_offset = 0, dr_bitset = 2 \<rparr>]) = Some [(1, [3])]"
  by code_simp

lemma sample_history_block:
  "hb_buffer sample_history ! 0 = sent_block_set (sample_packet 5 [1, 2, 3] 2) 2 sent_block_init"
  by (simp add: sample_history_def history_push_set_def history_push_def Let_def)

lemmas sample_half_defs = sample_half_block_def sample_half_heap_def block_num_frames_def storage_init_def

theorem requests_name_missing_frames_witness:
  "\<exists>rs. block_requests sample_half_heap sample_half_block = Some rs \<and> requested 2 rs = [1]"
  using requests_name_missing_frames [OF sample_half_block_ok]
  by (auto simp: sample_half_defs received_block_empty_def upto_rec1)

theorem resend_completes_block_witness:
  "\<exists>h' b'. block_add_frames [(1, 7)] sample_half_heap sample_half_block = Some (h', b') \<and> block_complete b' \<and>
    block_copy_frames h' b' = Some [1, 2, 3]"
proof -
  let ?sb = "sent_block_set (sample_packet 5 [1, 2, 3] 2) 2 sent_block_init"
  note sb = sent_block_set_ok [of 2 "[1, 2, 3]" "sample_packet 5 [1, 2, 3] 2" sent_block_init]
  have sb': "sent_block_ok ?sb" "sb_num_frames ?sb = 2" "sb_buffer ?sb = [1, 2, 3]" "sb_frame_size ?sb = 2"
    using sb by (simp_all add: sample_packet_def)
  have held: "\<forall>i p. [0::nat \<mapsto> 4] i = Some p \<longrightarrow>
      payload sample_half_heap p = sent_block_get_frame (int i) (nat (sb_frame_size ?sb)) ?sb"
    using sb' by (simp add: payload_def sample_half_heap_def sent_block_get_frame_def)
  have n: "sb_num_frames ?sb = int (block_num_frames sample_half_block)" "block_num_frames sample_half_block \<le> 32752"
    using sb' by (simp_all add: sample_half_defs)
  have found: "history_find (rb_sequence sample_half_block) sample_history = Some (Some 0)"
    using sample_history_find by (simp add: sample_half_defs)
  obtain rs ps where rs: "block_requests sample_half_heap sample_half_block = Some rs"
    and ps: "resend_data sample_history 0 rs = Some ps"
    and all: "\<And>arr. mset (map (\<lambda>(i, p). (int i, payload sample_half_heap p)) arr)
        = mset (map (\<lambda>d. (int (dp_frame_index d), dp_data d)) ps) \<Longrightarrow>
      distinct (map snd arr) \<Longrightarrow> (\<forall>(i, p) \<in> set arr. p \<in> dom sample_half_heap \<and> p \<notin> ran [0::nat \<mapsto> 4]) \<Longrightarrow>
      (\<exists>h' b'. block_add_frames arr sample_half_heap sample_half_block = Some (h', b') \<and> block_complete b' \<and>
        block_copy_frames h' b' = Some (sb_buffer ?sb))"
    using resend_completes_block [OF sample_half_block_ok sb'(1) n held found sample_history_block, of 0] by blast
  have "map (\<lambda>d. (int (dp_frame_index d), dp_data d)) ps = [(1, [3])]"
    using sample_resend sample_half_requests rs ps by simp
  then show ?thesis using all [of "[(1, 7)]"] sb'(3)
    by (simp add: payload_def sample_half_heap_def)
qed

text \<open>
  A block of more than 32752 frames, some of which have arrived, cannot be requested: the
  16-bit offset in \<^verbatim>\<open>check_missing_blocks\<close> wraps around to a negative number, and the loop goes on
  to look up frames before the start of the block.
\<close>

theorem request_offset_overflows:
  assumes "32752 < block_num_frames b" and "0 < rb_received_frames b"
  shows "block_requests h b = None"
  using assms frame_requests_overflow [of "int (block_num_frames b)" 0] by (simp add: block_requests_def)

theorem request_offset_overflows_witness:
  "block_requests Map.empty (received_block_empty\<lparr> rb_received_frames := 1,
     rb_frames := storage_init 32753 storage_empty \<rparr>) = None"
  by (rule request_offset_overflows) (simp_all add: block_num_frames_def storage_init_def)

end
