(* ===== verification/Floats.thy ===== *)
theory Floats
  imports Complex_Main Prelude "HOL-Library.Log_Nat"
begin

text \<open>
  The \<^verbatim>\<open>double\<close> values that the program computes with: the real value of a bit pattern, and the bit
  pattern of an integer. Infinities and NaNs have no value here.
\<close>

definition double_value :: "double \<Rightarrow> real" where
  "double_value x =
     (let m = unat (take_bit 52 x); e = unat (take_bit 11 (drop_bit 52 x));
          v = (if e = 0 then of_nat m / 2 ^ 1074
               else if e \<ge> 1075 then of_nat (2 ^ 52 + m) * 2 ^ (e - 1075)
               else of_nat (2 ^ 52 + m) / 2 ^ (1075 - e))
      in if bit x 63 then - v else v)"

definition double_of_int :: "int \<Rightarrow> double" where
  "double_of_int i =
     (if i = 0 then 0
      else let n = nat \<bar>i\<bar>; e = floorlog 2 n - 1
           in (if i < 0 then 0x8000000000000000 else 0)
              + push_bit 52 (word_of_nat (1023 + e)) + push_bit (52 - e) (word_of_nat (n - 2 ^ e)))"

text \<open>The sign, exponent and mantissa of a pattern that is written as a number.\<close>

lemma double_value_pattern:
  assumes x: "x = word_of_nat (E * 2 ^ 52 + m)" and E: "0 < E" "E < 2 ^ 11" and m: "m < 2 ^ 52"
  shows "double_value x = (if E \<ge> 1075 then of_nat (2 ^ 52 + m) * 2 ^ (E - 1075)
    else of_nat (2 ^ 52 + m) / 2 ^ (1075 - E))"
proof -
  have "E * 2 ^ 52 + m < 2 ^ 63"
  proof -
    have "(E + 1) * 2 ^ 52 \<le> 2 ^ 11 * 2 ^ (52::nat)" using E by (intro mult_right_mono) auto
    then show ?thesis using m by simp
  qed
  then have lt: "E * 2 ^ 52 + m < 2 ^ 63" .
  then have "E * 2 ^ 52 + m < 2 ^ LENGTH(64)" by simp
  then have u: "unat x = E * 2 ^ 52 + m" unfolding x by (simp only: unsigned_of_nat take_bit_nat_eq_self of_nat_id)
  have "unat (take_bit 52 x) = take_bit 52 (E * 2 ^ 52 + m)" by (simp add: unsigned_take_bit_eq u)
  then have "unat (take_bit 52 x) = m" using m by (simp add: take_bit_eq_mod)
  moreover have "unat (take_bit 11 (drop_bit 52 x)) = take_bit 11 (drop_bit 52 (E * 2 ^ 52 + m))"
    using lt by (simp only: unsigned_take_bit_eq unsigned_drop_bit_eq u)
      (simp add: take_bit_nat_eq_self less_trans [of _ "2 ^ 63"])
  then have "unat (take_bit 11 (drop_bit 52 x)) = E"
    using m E by (simp add: take_bit_eq_mod drop_bit_eq_div)
  moreover have "\<not> bit x 63"
  proof -
    have "bit (unat x) 63 = bit x 63" by (simp add: bit_unsigned_iff)
    moreover have "\<not> bit (unat x) 63" unfolding u using lt by (simp add: bit_iff_odd)
    ultimately show ?thesis by simp
  qed
  ultimately show ?thesis using E(1) by (simp add: double_value_def)
qed

lemma double_of_int_exact:
  assumes "0 < i" and "i < 2 ^ 53"
  shows "double_value (double_of_int i) = of_int i"
proof -
  define n where "n = nat i"
  define e where "e = floorlog 2 n - 1"
  have n: "0 < n" "n < 2 ^ 53" "of_int i = real n" using assms by (auto simp: n_def)
  have b: "2 ^ e \<le> n" "n < 2 ^ (e + 1)"
    using floorlog_bounds [of n 2] n(1) by (auto simp: e_def floorlog_def split: if_splits)
  have e: "e \<le> 52"
  proof (rule ccontr)
    assume "\<not> e \<le> 52"
    then have "(2::nat) ^ 53 \<le> 2 ^ e" by (intro power_increasing) auto
    then show False using b(1) n(2) by simp
  qed
  define m where "m = (n - 2 ^ e) * 2 ^ (52 - e)"
  have m: "m < 2 ^ 52"
  proof -
    have "m < 2 ^ e * 2 ^ (52 - e)" unfolding m_def using b by (intro mult_strict_right_mono) auto
    then show ?thesis using e by (simp flip: power_add)
  qed
  have "double_of_int i = word_of_nat ((1023 + e) * 2 ^ 52 + m)"
    using assms(1) unfolding double_of_int_def Let_def by (simp add: m_def push_bit_eq_mult e_def flip: n_def)
  note v = double_value_pattern [OF this _ _ m]
  have "real (2 ^ 52 + m) = real n * 2 ^ (52 - e)"
  proof -
    have "2 ^ 52 = 2 ^ e * (2::nat) ^ (52 - e)" using e by (simp flip: power_add)
    then have "2 ^ 52 + m = (2 ^ e + (n - 2 ^ e)) * 2 ^ (52 - e)" by (simp add: m_def algebra_simps)
    then have "2 ^ 52 + m = n * 2 ^ (52 - e)" using b(1) by simp
    then show ?thesis by simp
  qed
  then have "double_value (double_of_int i) = real n"
    using v e by (cases "e = 52") simp_all
  then show ?thesis using n(3) by simp
qed

end
