(* ===== verification/Float_Format.thy ===== *)
theory Float_Format
  imports Floats
begin

text \<open>
  Binary floating-point formats: rounding of a real number to the nearest value of a format, with ties to
  even, and the bit pattern of a value. A format has \<open>p + 1\<close> bits of precision and the smallest
  exponent \<open>emin\<close>. The code uses \<^verbatim>\<open>float\<close> for samples and \<^verbatim>\<open>double\<close> for intermediate results; overflow to infinity and
  the two signs of zero are not represented.
\<close>

subsection \<open>Definitions\<close>

text \<open>\<^verbatim>\<open>std::rint\<close> in the default rounding mode.\<close>

definition rint :: "real \<Rightarrow> int" where
  "rint x = (let r = \<lfloor>x\<rfloor>; d = x - of_int r
     in if d < 1 / 2 then r else if d > 1 / 2 then r + 1 else if even r then r else r + 1)"

text \<open>The exponent of the last bit of a number in the format.\<close>

definition last_exponent :: "nat \<Rightarrow> int \<Rightarrow> real \<Rightarrow> int" where
  "last_exponent p emin x = max (\<lfloor>log 2 \<bar>x\<bar>\<rfloor> - int p) emin"

definition fl :: "nat \<Rightarrow> int \<Rightarrow> real \<Rightarrow> real" where
  "fl p emin x =
     (if x = 0 then 0
      else let e = last_exponent p emin x in of_int (rint (x / 2 powi e)) * 2 powi e)"

abbreviation float32 :: "real \<Rightarrow> real" where "float32 \<equiv> fl 23 (- 149)"
abbreviation float64 :: "real \<Rightarrow> real" where "float64 \<equiv> fl 52 (- 1074)"

text \<open>The pattern of a positive value without its sign, and the value of such a pattern.\<close>

definition magnitude :: "nat \<Rightarrow> int \<Rightarrow> real \<Rightarrow> nat" where
  "magnitude p emin x =
     (if x = 0 then 0
      else let e = last_exponent p emin x in nat (e - emin) * 2 ^ p + nat \<lfloor>\<bar>x\<bar> / 2 powi e\<rfloor>)"

definition magnitude_value :: "nat \<Rightarrow> int \<Rightarrow> nat \<Rightarrow> real" where
  "magnitude_value p emin n =
     (if n < 2 ^ p then real n * 2 powi emin
      else real (2 ^ p + n mod 2 ^ p) * 2 powi (int (n div 2 ^ p) - 1 + emin))"

definition float_bits :: "real \<Rightarrow> u32" where
  "float_bits x = (if x < 0 then 0x80000000 else 0) + word_of_nat (magnitude 23 (- 149) x)"

definition float_value :: "u32 \<Rightarrow> real" where
  "float_value w = (if bit w 31 then -1 else 1) * magnitude_value 23 (- 149) (unat (take_bit 31 w))"

definition double_bits :: "real \<Rightarrow> double" where
  "double_bits x = (if x < 0 then 0x8000000000000000 else 0) + word_of_nat (magnitude 52 (- 1074) x)"

text \<open>The values of a format.\<close>

definition in_format :: "nat \<Rightarrow> int \<Rightarrow> real \<Rightarrow> bool" where
  "in_format p emin x \<longleftrightarrow> (\<exists>m k. x = of_int m * 2 powi k \<and> \<bar>m\<bar> < 2 ^ (p + 1) \<and> emin \<le> k)"

definition is_float :: "real \<Rightarrow> bool" where
  "is_float x \<longleftrightarrow> in_format 23 (- 149) x \<and> \<bar>x\<bar> < 2 ^ 128"

subsection \<open>Rounding to an integer\<close>

lemma rint_error: "\<bar>of_int (rint x) - x\<bar> \<le> 1 / 2"
proof -
  define r where "r = \<lfloor>x\<rfloor>"
  have "of_int r \<le> x" "x < of_int r + 1" by (simp_all add: r_def)
  then show ?thesis by (auto simp: rint_def Let_def abs_le_iff simp flip: r_def)
qed

lemma rint_near: "\<bar>x - of_int n\<bar> < 1 / 2 \<Longrightarrow> rint x = n"
  using rint_error [of x] by linarith

lemma rint_of_int [simp]: "rint (of_int n) = n"
  by (rule rint_near) simp

lemma rint_le: "x \<le> of_int n \<Longrightarrow> rint x \<le> n"
  using rint_error [of x] by linarith

lemma rint_ge: "of_int n \<le> x \<Longrightarrow> n \<le> rint x"
  using rint_error [of x] by linarith

subsection \<open>Exponents\<close>

lemma floor_log2:
  assumes "0 < x"
  shows "2 powi \<lfloor>log 2 x\<rfloor> \<le> x" "x < 2 powi (\<lfloor>log 2 x\<rfloor> + 1)"
proof -
  have "2 powr of_int \<lfloor>log 2 x\<rfloor> \<le> x" using assms by (simp add: powr_le_iff le_log_iff)
  then show "2 powi \<lfloor>log 2 x\<rfloor> \<le> x" by (simp add: powr_real_of_int')
  have "log 2 x < of_int (\<lfloor>log 2 x\<rfloor> + 1)" by simp
  then have "x < 2 powr of_int (\<lfloor>log 2 x\<rfloor> + 1)" using assms by (simp only: log_less_iff one_less_numeral_iff semiring_norm)
  then show "x < 2 powi (\<lfloor>log 2 x\<rfloor> + 1)" by (simp only: powr_real_of_int' zero_le_numeral zero_neq_numeral [symmetric] simp_thms not_False_eq_True)
qed

lemma powi_less_cancel: "2 powi a < (2::real) powi b \<Longrightarrow> a < b"
  using power_int_increasing [of b a "2::real"] by (cases "a < b") simp_all

lemma floor_log2_eqI: "2 powi n \<le> x \<Longrightarrow> x < 2 powi (n + 1) \<Longrightarrow> \<lfloor>log 2 x\<rfloor> = n"
proof -
  assume a: "2 powi n \<le> x" "x < 2 powi (n + 1)"
  have "0 < x" by (rule less_le_trans [OF _ a(1)]) simp
  from floor_log2 [OF this] a have "(2::real) powi n < 2 powi (\<lfloor>log 2 x\<rfloor> + 1)" "(2::real) powi \<lfloor>log 2 x\<rfloor> < 2 powi (n + 1)"
    by linarith+
  then show ?thesis by (auto dest!: powi_less_cancel)
qed

lemma last_exponent_minus [simp]: "last_exponent p emin (- x) = last_exponent p emin x"
  by (simp add: last_exponent_def)

lemma last_exponent_bounds:
  assumes "x \<noteq> 0" and "e = last_exponent p emin x"
  shows "\<bar>x\<bar> < 2 powi (e + int p + 1)" "emin \<le> e" "emin < e \<Longrightarrow> 2 powi (e + int p) \<le> \<bar>x\<bar>"
proof -
  note l = floor_log2 [of "\<bar>x\<bar>"]
  show "emin \<le> e" using assms(2) by (simp add: last_exponent_def)
  have "\<lfloor>log 2 \<bar>x\<bar>\<rfloor> + 1 \<le> e + int p + 1" using assms(2) by (simp add: last_exponent_def)
  then have "2 powi (\<lfloor>log 2 \<bar>x\<bar>\<rfloor> + 1) \<le> (2::real) powi (e + int p + 1)" by (intro power_int_increasing) simp_all
  then show "\<bar>x\<bar> < 2 powi (e + int p + 1)" using l(2) assms(1) by linarith
  assume "emin < e"
  then have "\<lfloor>log 2 \<bar>x\<bar>\<rfloor> = e + int p" using assms(2) by (simp add: last_exponent_def)
  then show "2 powi (e + int p) \<le> \<bar>x\<bar>" using l(1) assms(1) by simp
qed

text \<open>A value of the format is a multiple of its last bit.\<close>

lemma in_format_multiple:
  assumes "in_format p emin x" and "x \<noteq> 0" and "e = last_exponent p emin x"
  shows "\<exists>n. x = of_int n * 2 powi e"
proof -
  obtain m k where m: "x = of_int m * 2 powi k" "\<bar>m\<bar> < 2 ^ (p + 1)" "emin \<le> k" using assms(1) by (auto simp: in_format_def)
  have "e \<le> k"
  proof (cases "emin < e")
    case True
    have "\<bar>x\<bar> = of_int \<bar>m\<bar> * 2 powi k" by (simp add: m(1) abs_mult power_int_abs)
    also have "\<dots> < 2 ^ (p + 1) * 2 powi k"
    proof (rule mult_strict_right_mono)
      have "of_int \<bar>m\<bar> < (of_int (2 ^ (p + 1)) :: real)" using m(2) by (simp only: of_int_less_iff)
      then show "of_int \<bar>m\<bar> < (2 ^ (p + 1) :: real)" by simp
    qed simp
    also have "\<dots> = 2 powi (k + int p + 1)" by (simp add: power_int_add)
    finally have "(2::real) powi (e + int p) < 2 powi (k + int p + 1)"
      using last_exponent_bounds(3) [OF assms(2,3) True] by linarith
    then show ?thesis by (auto dest: powi_less_cancel)
  next
    case False
    then show ?thesis using last_exponent_bounds(2) [OF assms(2,3)] m(3) by simp
  qed
  then have "2 powi k = (2::real) ^ nat (k - e) * 2 powi e" by (simp flip: power_int_of_nat power_int_add)
  then have "x = of_int (m * 2 ^ nat (k - e)) * 2 powi e" by (simp add: m(1))
  then show ?thesis ..
qed

subsection \<open>Rounding to the format\<close>

lemma fl_0 [simp]: "fl p emin 0 = 0"
  by (simp add: fl_def)

lemma fl_exact:
  assumes "in_format p emin x"
  shows "fl p emin x = x"
proof (cases "x = 0")
  case False
  obtain n where n: "x = of_int n * 2 powi last_exponent p emin x" using in_format_multiple [OF assms False refl] by blast
  then have "x / 2 powi last_exponent p emin x = of_int n" by (simp add: field_simps)
  then show ?thesis using n by (simp add: fl_def False Let_def)
qed simp

lemma fl_in_format: "in_format p emin (fl p emin x)"
proof (cases "x = 0")
  case True
  have "0 = of_int 0 * (2::real) powi emin" by simp
  then have "in_format p emin 0" unfolding in_format_def by (intro exI [of _ 0] exI [of _ emin]) simp
  then show ?thesis using True by simp
next
  case False
  define e where "e = last_exponent p emin x"
  note e = last_exponent_bounds [OF False e_def]
  define n where "n = rint (x / 2 powi e)"
  have fl: "fl p emin x = of_int n * 2 powi e" by (simp add: fl_def False Let_def n_def flip: e_def)
  have "\<bar>x / 2 powi e\<bar> < 2 ^ (p + 1)" using e(1) by (simp add: divide_less_eq power_int_add algebra_simps power_int_abs)
  then have "x / 2 powi e \<le> of_int (2 ^ (p + 1))" "of_int (- (2 ^ (p + 1))) \<le> x / 2 powi e"
    unfolding abs_less_iff of_int_minus of_int_power of_int_numeral by linarith+
  then have n: "n \<le> 2 ^ (p + 1)" "- (2 ^ (p + 1)) \<le> n" unfolding n_def by (blast intro: rint_le rint_ge)+
  show ?thesis
  proof (cases "\<bar>n\<bar> < 2 ^ (p + 1)")
    case True
    then show ?thesis unfolding in_format_def fl using e(2) by blast
  next
    case False
    then have a: "\<bar>n\<bar> = 2 * 2 ^ p" using n unfolding power_add power_one_right by linarith
    then have "2 dvd n" by (metis dvd_abs_iff dvd_triv_left)
    then obtain m where m: "n = 2 * m" ..
    with a have "\<bar>m\<bar> = 2 ^ p" unfolding m abs_mult by linarith
    have "fl p emin x = of_int m * 2 powi (e + 1)" by (simp add: fl m power_int_add)
    moreover have "\<bar>m\<bar> < 2 ^ (p + 1)" "emin \<le> e + 1" using \<open>\<bar>m\<bar> = 2 ^ p\<close> e(2) by simp_all
    ultimately show ?thesis unfolding in_format_def by blast
  qed
qed

lemma fl_int:
  assumes "\<bar>n\<bar> < 2 ^ (p + 1)" and "emin \<le> 0"
  shows "fl p emin (of_int n) = of_int n"
proof (rule fl_exact)
  have "of_int n = of_int n * (2::real) powi 0" by simp
  then show "in_format p emin (of_int n)" unfolding in_format_def using assms by blast
qed

lemma fl_error:
  "\<bar>fl p emin x - x\<bar> \<le> max (\<bar>x\<bar> / 2 ^ (p + 1)) (2 powi (emin - 1))"
proof (cases "x = 0")
  case False
  define e where "e = last_exponent p emin x"
  have "fl p emin x - x = (of_int (rint (x / 2 powi e)) - x / 2 powi e) * 2 powi e"
    by (simp add: fl_def False Let_def algebra_simps flip: e_def)
  then have "\<bar>fl p emin x - x\<bar> = \<bar>of_int (rint (x / 2 powi e)) - x / 2 powi e\<bar> * 2 powi e"
    by (simp add: abs_mult power_int_abs)
  also have "\<dots> \<le> 1 / 2 * 2 powi e" by (intro mult_right_mono rint_error) simp
  also have "\<dots> \<le> max (\<bar>x\<bar> / 2 ^ (p + 1)) (2 powi (emin - 1))"
  proof (cases "emin < e")
    case True
    have "(1 / 2 :: real) * 2 powi e = 2 powi (e + int p) / 2 ^ (p + 1)" by (simp add: power_int_add)
    also have "\<dots> \<le> \<bar>x\<bar> / 2 ^ (p + 1)"
      using last_exponent_bounds(3) [OF False e_def True] by (intro divide_right_mono) simp_all
    finally show ?thesis by simp
  next
    case False2: False
    then have "e = emin" using last_exponent_bounds(2) [OF False e_def] by simp
    moreover have "(1 / 2 :: real) * 2 powi emin = 2 powi (emin - 1)" by (simp add: power_int_diff)
    ultimately show ?thesis by simp
  qed
  finally show ?thesis .
qed simp

subsection \<open>Patterns\<close>

lemma magnitude_minus [simp]: "magnitude p emin (- x) = magnitude p emin x"
  by (simp add: magnitude_def)

lemma magnitude_value_magnitude:
  assumes "in_format p emin x"
  shows "magnitude_value p emin (magnitude p emin x) = \<bar>x\<bar>"
proof (cases "x = 0")
  case False
  define e where "e = last_exponent p emin x"
  note e = last_exponent_bounds [OF False e_def]
  obtain n where n: "x = of_int n * 2 powi e" using in_format_multiple [OF assms False e_def] by blast
  define M where "M = nat \<bar>n\<bar>"
  have x: "\<bar>x\<bar> = real M * 2 powi e" by (simp add: n M_def abs_mult power_int_abs)
  then have m: "magnitude p emin x = nat (e - emin) * 2 ^ p + M"
    by (simp add: magnitude_def False Let_def flip: e_def)
  have lt: "M < 2 ^ (p + 1)"
  proof -
    have "real M * 2 powi e < 2 ^ (p + 1) * 2 powi e" using e(1) by (simp add: x power_int_add algebra_simps)
    then have "real M < 2 ^ (p + 1)" by simp
    then show ?thesis by (metis of_nat_less_iff of_nat_numeral of_nat_power)
  qed
  show ?thesis
  proof (cases "M < 2 ^ p")
    case True
    have "e = emin"
    proof (rule ccontr)
      assume "e \<noteq> emin"
      then have "2 powi (e + int p) \<le> \<bar>x\<bar>" using e(2,3) by simp
      then have "2 ^ p * 2 powi e \<le> real M * 2 powi e" by (simp add: x power_int_add mult.commute)
      then have "2 ^ p \<le> real M" by simp
      then show False using True by (metis not_le of_nat_le_iff of_nat_numeral of_nat_power)
    qed
    then show ?thesis using True by (simp add: m magnitude_value_def x)
  next
    case False
    then have d: "M div 2 ^ p = 1" "M mod 2 ^ p = M - 2 ^ p" using lt
      by (simp_all add: div_nat_eqI mod_nat_eqI le_mod_geq)
    then have "(nat (e - emin) * 2 ^ p + M) div 2 ^ p = nat (e - emin) + 1" "(nat (e - emin) * 2 ^ p + M) mod 2 ^ p = M - 2 ^ p"
      by simp_all
    then show ?thesis using False e(2) by (simp add: m magnitude_value_def x)
  qed
qed (simp add: magnitude_def magnitude_value_def)

lemma magnitude_less:
  assumes "\<bar>x\<bar> < 2 powi k" and "emin + int p < k"
  shows "magnitude p emin x < nat (k - emin - int p + 1) * 2 ^ p"
proof (cases "x = 0")
  case True
  then show ?thesis using assms(2) by (simp add: magnitude_def)
next
  case False
  define e where "e = last_exponent p emin x"
  note e = last_exponent_bounds [OF False e_def]
  have "e \<le> k - int p - 1"
  proof (cases "emin < e")
    case True
    then have "(2::real) powi (e + int p) < 2 powi k" using e(3) assms(1) by linarith
    then show ?thesis by (auto dest: powi_less_cancel)
  qed (use assms(2) in simp)
  then have "nat (e - emin) * 2 ^ p \<le> nat (k - emin - int p - 1) * 2 ^ p" by (intro mult_right_mono) simp_all
  moreover have "\<bar>x\<bar> / 2 powi e < 2 ^ (p + 1)" using e(1) by (simp add: divide_less_eq power_int_add algebra_simps)
  then have "nat \<lfloor>\<bar>x\<bar> / 2 powi e\<rfloor> < 2 ^ (p + 1)" by (simp add: nat_less_iff floor_less_iff)
  moreover have "nat (k - emin - int p + 1) = nat (k - emin - int p - 1) + 2" using assms(2) by simp
  then have "nat (k - emin - int p + 1) * 2 ^ p = nat (k - emin - int p - 1) * 2 ^ p + 2 ^ (p + 1)"
    by (simp only:) (simp add: algebra_simps)
  moreover have "magnitude p emin x = nat (e - emin) * 2 ^ p + nat \<lfloor>\<bar>x\<bar> / 2 powi e\<rfloor>"
    by (simp add: magnitude_def False Let_def flip: e_def)
  ultimately show ?thesis by linarith
qed

text \<open>A sign bit above a pattern.\<close>

lemma sign_pattern:
  fixes w :: "'a::len word"
  assumes "LENGTH('a) = Suc k" and "n < 2 ^ k" and "w = word_of_nat ((if s then 2 ^ k else 0) + n)"
  shows "bit w k = s" "unat (take_bit k w) = n"
proof -
  let ?N = "(if s then 2 ^ k else 0) + n"
  have "?N < 2 ^ LENGTH('a)" using assms(1,2) by simp
  then have u: "unat w = ?N" by (simp only: assms(3) unsigned_of_nat take_bit_nat_eq_self of_nat_id)
  have "bit (unat w) k = bit w k" using assms(1) by (simp add: bit_unsigned_iff)
  moreover have "bit ?N k = s" using assms(2) by (simp add: bit_iff_odd)
  ultimately show "bit w k = s" by (simp add: u)
  have "unat (take_bit k w) = take_bit k (unat w)" by (simp add: unsigned_take_bit_eq)
  then show "unat (take_bit k w) = n" using assms(2) by (simp add: u take_bit_eq_mod)
qed

lemma float_value_bits:
  assumes "is_float x"
  shows "float_value (float_bits x) = x"
proof -
  let ?n = "magnitude 23 (- 149) x"
  have "?n < 2 ^ 31" using magnitude_less [of x 128 "- 149" 23] assms by (simp add: is_float_def)
  moreover have "float_bits x = word_of_nat ((if x < 0 then 2 ^ 31 else 0) + ?n)" by (simp add: float_bits_def)
  ultimately have "bit (float_bits x) 31 = (x < 0)" "unat (take_bit 31 (float_bits x)) = ?n"
    by (intro sign_pattern; simp)+
  moreover have "magnitude_value 23 (- 149) ?n = \<bar>x\<bar>" using assms by (simp add: is_float_def magnitude_value_magnitude)
  ultimately show ?thesis by (simp add: float_value_def)
qed

text \<open>The value of a pattern of a \<^verbatim>\<open>double\<close> in terms of its magnitude.\<close>

lemma double_value_magnitude:
  "double_value x = (if bit x 63 then -1 else 1) * magnitude_value 52 (- 1074) (unat (take_bit 63 x))"
proof -
  define n where "n = unat (take_bit 63 x)"
  have m: "unat (take_bit 52 x) = n mod 2 ^ 52"
    by (simp only: n_def unsigned_take_bit_eq flip: take_bit_eq_mod) simp
  have e: "unat (take_bit 11 (drop_bit 52 x)) = n div 2 ^ 52"
    by (simp add: n_def unsigned_take_bit_eq unsigned_drop_bit_eq take_bit_drop_bit) (simp add: drop_bit_eq_div)
  have "n div 2 ^ 52 = 0 \<longleftrightarrow> n < 2 ^ 52" by (simp add: div_eq_0_iff)
  moreover have "2 powi (int (n div 2 ^ 52) - 1 + - 1074) =
      (if 1075 \<le> n div 2 ^ 52 then 2 ^ (n div 2 ^ 52 - 1075) else 1 / (2::real) ^ (1075 - n div 2 ^ 52))"
    by (simp add: power_int_def nat_diff_distrib inverse_eq_divide power_one_over)
  ultimately show ?thesis
    unfolding double_value_def magnitude_value_def Let_def m e n_def [symmetric]
    by (auto simp: power_int_minus inverse_eq_divide)
qed

lemma double_value_bits:
  assumes "in_format 52 (- 1074) x" and "\<bar>x\<bar> < 2 ^ 128"
  shows "double_value (double_bits x) = x"
proof -
  let ?n = "magnitude 52 (- 1074) x"
  have "?n < 2 ^ 63" using magnitude_less [of x 128 "- 1074" 52] assms(2) by simp
  moreover have "double_bits x = word_of_nat ((if x < 0 then 2 ^ 63 else 0) + ?n)" by (simp add: double_bits_def)
  ultimately have "bit (double_bits x) 63 = (x < 0)" "unat (take_bit 63 (double_bits x)) = ?n"
    by (intro sign_pattern; simp)+
  moreover have "magnitude_value 52 (- 1074) ?n = \<bar>x\<bar>" using assms(1) by (simp add: magnitude_value_magnitude)
  ultimately show ?thesis by (simp add: double_value_magnitude)
qed

lemma in_format_wider: "in_format p emin x \<Longrightarrow> p \<le> q \<Longrightarrow> fmin \<le> emin \<Longrightarrow> in_format q fmin x"
proof -
  assume a: "in_format p emin x" "p \<le> q" "fmin \<le> emin"
  then obtain m k where m: "x = of_int m * 2 powi k" "\<bar>m\<bar> < 2 ^ (p + 1)" "emin \<le> k" by (auto simp: in_format_def)
  have "(2::int) ^ (p + 1) \<le> 2 ^ (q + 1)" using a(2) by (intro power_increasing) simp_all
  with m a(3) have "\<bar>m\<bar> < 2 ^ (q + 1)" "fmin \<le> k" by linarith+
  with m(1) show ?thesis unfolding in_format_def by blast
qed

end
