(* ===== verification/Frame_Ownership.thy ===== *)
theory Frame_Ownership
  imports Packet_Buffer Floats
begin

text \<open>
  Who owns a frame. A frame that is in use is either outside (in a packet that waits in the queue of
  the sink) or in exactly one block of the jitter buffer. The theory says this as an invariant of the
  jitter buffer and the allocator, relative to the set of frames outside, and shows that every
  operation of the jitter buffer keeps it: no frame is leaked, freed twice or used after it
  has been freed.
\<close>

subsection \<open>Frames of a list of blocks\<close>

definition held :: "(nat \<rightharpoonup> nat) list \<Rightarrow> nat set" where
  "held ms = (\<Union>i < length ms. ran (ms ! i))"

definition holds :: "data_frame_allocator \<Rightarrow> received_block list \<Rightarrow> (nat \<rightharpoonup> nat) list \<Rightarrow> nat set \<Rightarrow> bool" where
  "holds al bs ms F \<longleftrightarrow> (\<exists>fl. owns al fl bs ms \<and> in_use al fl = F \<union> held ms \<and> F \<inter> held ms = {})"

lemma held_set: "held ms = \<Union> (ran ` set ms)"
  unfolding held_def set_conv_nth by auto

lemma held_update:
  "i < length ms \<Longrightarrow> held (ms[i := m]) = ran m \<union> held (ms[i := Map.empty])"
  by (auto simp: held_def nth_list_update split: if_splits)

lemma held_clear:
  assumes "owns al fl bs ms" and "i < length bs"
  shows "held (ms[i := Map.empty]) = held ms - ran (ms ! i)"
proof -
  have l: "length ms = length bs" and
    d: "\<And>j. j < length bs \<Longrightarrow> j \<noteq> i \<Longrightarrow> ran (ms ! j) \<inter> ran (ms ! i) = {}"
    using assms by (auto simp: owns_def)
  show ?thesis using d assms(2) l by (auto simp: held_def nth_list_update split: if_splits) blast
qed

lemma holdsD:
  assumes "holds al bs ms F"
  shows "length ms = length bs" and "i < length bs \<Longrightarrow> block_ok (heap al) (bs ! i) (ms ! i)"
    and "F \<inter> held ms = {}" and "p \<in> F \<Longrightarrow> heap al p \<noteq> None"
    and "i < length bs \<Longrightarrow> ran (ms ! i) \<subseteq> held ms"
  using assms by (auto simp: holds_def owns_def in_use_def held_def)

lemma holds_disjoint:
  assumes "holds al bs ms F" and "i < length bs" and "j < length bs" and "i \<noteq> j"
  shows "ran (ms ! i) \<inter> ran (ms ! j) = {}"
  using assms unfolding holds_def owns_def by blast

lemma holds_clear:
  assumes h: "holds al bs ms F" and i: "i < length bs"
  shows "\<exists>b' al'. block_clear (bs ! i) al = Some (b', al') \<and> st_size (rb_frames b') = 0 \<and>
    rb_sequence b' = rb_sequence (bs ! i) \<and> holds al' (bs[i := b']) (ms[i := Map.empty]) F \<and>
    (\<forall>a. a \<notin> ran (ms ! i) \<longrightarrow> heap al' a = heap al a)"
proof -
  obtain fl where o: "owns al fl bs ms" and u: "in_use al fl = F \<union> held ms" "F \<inter> held ms = {}"
    using h by (auto simp: holds_def)
  obtain b' al' fl' where c: "block_clear (bs ! i) al = Some (b', al')" "st_size (rb_frames b') = 0"
    "rb_sequence b' = rb_sequence (bs ! i)" "owns al' fl' (bs[i := b']) (ms[i := Map.empty])"
    "in_use al' fl' = in_use al fl - ran (ms ! i)" "\<forall>a. a \<notin> ran (ms ! i) \<longrightarrow> heap al' a = heap al a"
    using owns_clear [OF o i] by blast
  have "ran (ms ! i) \<subseteq> held ms" using holdsD(5) [OF h i] .
  then have "in_use al' fl' = F \<union> held (ms[i := Map.empty])" "F \<inter> held (ms[i := Map.empty]) = {}"
    using u c(5) by (auto simp: held_clear [OF o i])
  then show ?thesis using c by (auto simp: holds_def)
qed

lemma holds_clear_all:
  assumes h: "holds al bs ms F"
  shows "\<exists>bs' al'. clear_blocks bs al = Some (bs', al') \<and> length bs' = length bs \<and>
    (\<forall>b \<in> set bs'. st_size (rb_frames b) = 0) \<and> holds al' bs' (replicate (length bs) Map.empty) F \<and>
    (\<forall>a \<in> F. heap al' a = heap al a)"
proof -
  obtain fl where o: "owns al fl bs ms" and u: "in_use al fl = F \<union> held ms" "F \<inter> held ms = {}"
    using h by (auto simp: holds_def)
  obtain bs' al' fl' where c: "clear_blocks bs al = Some (bs', al')" "alloc_ok al' fl'"
    "length bs' = length bs" "\<forall>b \<in> set bs'. st_size (rb_frames b) = 0"
    "in_use al' fl' = in_use al fl - \<Union> (ran ` set ms)" "\<forall>a. a \<notin> \<Union> (ran ` set ms) \<longrightarrow> heap al' a = heap al a"
    using clear_blocks_ok [OF o] by (elim exE conjE) (rule that)
  have "owns al' fl' bs' (replicate (length bs) Map.empty)" using owns_all_empty [OF c(2,4)] c(3) by simp
  moreover have "held (replicate (length bs) Map.empty) = {}" by (auto simp: held_def)
  moreover have "in_use al' fl' = F" using u c(5) by (auto simp: held_set)
  moreover have "\<forall>a \<in> F. heap al' a = heap al a" using u(2) c(6) unfolding held_set by blast
  ultimately show ?thesis using c(1,3,4) unfolding holds_def by force
qed

lemma holds_replace_empty:
  assumes "holds al bs ms F" and "i < length bs" and "st_size (rb_frames (bs ! i)) = 0"
    and "block_ok (heap al) b Map.empty"
  shows "holds al (bs[i := b]) ms F" and "ms ! i = Map.empty"
  using assms owns_replace_empty [of al _ bs ms i b] owns_ran [of al _ bs ms i] by (auto simp: holds_def)

text \<open>Changing the heap in frames that are in use.\<close>

lemma alloc_ok_heap:
  assumes ok: "alloc_ok al fl" and d: "dom h' = dom (heap al)" "fbin h' = fbin (heap al)"
    and fi: "\<And>a. a \<in> dom (heap al) \<Longrightarrow> 0 \<le> fidx h' a" and sz: "fsize h' = fsize (heap al)"
    and eq: "\<And>a. a \<in> \<Union> (set ` set fl) \<Longrightarrow> h' a = heap al a"
  shows "alloc_ok (al\<lparr> heap := h' \<rparr>) fl" and "in_use (al\<lparr> heap := h' \<rparr>) fl = in_use al fl"
proof -
  have "frame_list h' (bins al ! b) (fl ! b)" if "b < bin_count" for b
  proof -
    have "fl ! b \<in> set fl" using alloc_okD(3) [OF ok] that by simp
    then have "\<And>a. a \<in> set (fl ! b) \<Longrightarrow> h' a = heap al a" using eq by blast
    moreover have "frame_list (heap al) (bins al ! b) (fl ! b)" using alloc_okD(6) [OF ok] that by simp
    ultimately show ?thesis using frame_seg_cong [of "fl ! b" h' "heap al"] by simp
  qed
  then have "alloc_struct (al\<lparr> heap := h' \<rparr>) fl" using alloc_ok_struct [OF ok] d fi by (simp add: alloc_struct_def)
  moreover show use: "in_use (al\<lparr> heap := h' \<rparr>) fl = in_use al fl" using d by (simp add: in_use_def)
  ultimately show "alloc_ok (al\<lparr> heap := h' \<rparr>) fl" using ok by (simp add: alloc_ok_def sz)
qed

lemma holds_add:
  assumes h: "holds al bs ms F" and i: "i < length bs" and k: "k < st_size (rb_frames (bs ! i))"
    and new: "(ms ! i) k = None" and p: "p \<in> F" and small: "st_size (rb_frames (bs ! i)) < 2 ^ 15"
  shows "\<exists>h' b'. block_add_frame k p (heap al) (bs ! i) = Some (h', b') \<and>
    holds (al\<lparr> heap := h' \<rparr>) (bs[i := b']) (ms[i := (ms ! i)(k \<mapsto> p)]) (F - {p}) \<and>
    rb_sequence b' = rb_sequence (bs ! i) \<and> st_size (rb_frames b') = st_size (rb_frames (bs ! i)) \<and>
    payload h' = payload (heap al)"
proof -
  obtain fl where o: "owns al fl bs ms" and u: "in_use al fl = F \<union> held ms" "F \<inter> held ms = {}"
    using h by (auto simp: holds_def)
  note hD = holdsD [OF h]
  have pm: "p \<notin> ran (ms ! j)" if "j < length bs" for j using hD(5) [OF that] u(2) p by auto
  obtain h' b' where a: "block_add_frame k p (heap al) (bs ! i) = Some (h', b')"
    "block_ok h' b' ((ms ! i)(k \<mapsto> p))" "payload h' = payload (heap al)" "dom h' = dom (heap al)"
    "rb_sequence b' = rb_sequence (bs ! i)" "st_size (rb_frames b') = st_size (rb_frames (bs ! i))"
    "\<forall>a. a \<notin> ran (ms ! i) \<and> a \<noteq> p \<longrightarrow> h' a = heap al a" "fbin h' = fbin (heap al)"
    "fsize h' = fsize (heap al)" "fidx h' = (fidx (heap al))(p := int k)"
    using block_add_frame_ok [OF hD(2) [OF i] k new hD(4) [OF p] pm [OF i] small] by blast
  have "ran (ms ! i) \<union> {p} \<subseteq> in_use al fl" using u(1) p hD(5) [OF i] by auto
  then have free: "h' a = heap al a" if "a \<in> \<Union> (set ` set fl)" for a
    using that a(7) by (auto simp: in_use_def)
  have al: "alloc_ok al fl" using o by (simp add: owns_def)
  have "0 \<le> fidx h' x" if "x \<in> dom (heap al)" for x using alloc_okD(8) [OF al that] by (simp add: a(10))
  then have al': "alloc_ok (al\<lparr> heap := h' \<rparr>) fl" "in_use (al\<lparr> heap := h' \<rparr>) fl = in_use al fl"
    using alloc_ok_heap [OF al a(4,8) _ a(9)] free by blast+
  have r: "ran ((ms ! i)(k \<mapsto> p)) = insert p (ran (ms ! i))" using new by (simp add: ran_map_upd)
  have "owns (al\<lparr> heap := h' \<rparr>) fl (bs[i := b']) (ms[i := (ms ! i)(k \<mapsto> p)])"
    unfolding owns_def
  proof (intro conjI allI impI)
    show "alloc_ok (al\<lparr> heap := h' \<rparr>) fl" by (rule al'(1))
    show "length (ms[i := (ms ! i)(k \<mapsto> p)]) = length (bs[i := b'])" using hD(1) by simp
  next
    fix j assume j: "j < length (bs[i := b'])"
    show "block_ok (heap (al\<lparr> heap := h' \<rparr>)) (bs[i := b'] ! j) (ms[i := (ms ! i)(k \<mapsto> p)] ! j)"
    proof (cases "j = i")
      case True
      then show ?thesis using a(2) j hD(1) by simp
    next
      case False
      have "ran (ms ! j) \<inter> ran (ms ! i) = {}" using o i j False by (simp add: owns_def)
      then have "h' x = heap al x" if "x \<in> ran (ms ! j)" for x using a(7) that pm j by auto
      then show ?thesis using block_ok_cong [OF hD(2) [of j]] j False by simp
    qed
    show "ran (ms[i := (ms ! i)(k \<mapsto> p)] ! j) \<subseteq> in_use (al\<lparr> heap := h' \<rparr>) fl"
      using j hD(1) hD(5) [of j] hD(5) [OF i] u(1) p r unfolding al'(2)
      by (cases "j = i") auto
  next
    fix j l assume "j < length (bs[i := b'])" "l < length (bs[i := b'])" "j \<noteq> l"
    then show "ran (ms[i := (ms ! i)(k \<mapsto> p)] ! j) \<inter> ran (ms[i := (ms ! i)(k \<mapsto> p)] ! l) = {}"
      using o i r hD(1) pm by (auto simp: owns_def nth_list_update) blast+
  qed
  moreover have "held (ms[i := (ms ! i)(k \<mapsto> p)]) = insert p (held ms)"
    using held_update [of i ms] held_clear [OF o i] hD(1) hD(5) [OF i] i r by auto
  then have "in_use (al\<lparr> heap := h' \<rparr>) fl = (F - {p}) \<union> held (ms[i := (ms ! i)(k \<mapsto> p)])"
    "(F - {p}) \<inter> held (ms[i := (ms ! i)(k \<mapsto> p)]) = {}"
    using u p by (auto simp: al'(2))
  ultimately show ?thesis using a by (auto simp: holds_def)
qed

lemma holds_deallocate:
  assumes h: "holds al bs ms F" and p: "p \<in> F"
  shows "\<exists>al'. alloc_deallocate (Some p) al = Some al' \<and> holds al' bs ms (F - {p}) \<and>
    (\<forall>a. a \<noteq> p \<longrightarrow> heap al' a = heap al a)"
proof -
  obtain fl where o: "owns al fl bs ms" and u: "in_use al fl = F \<union> held ms" "F \<inter> held ms = {}"
    using h by (auto simp: holds_def)
  note hD = holdsD [OF h]
  obtain al' fl' where d: "alloc_deallocate (Some p) al = Some al'" "alloc_ok al' fl'"
    "in_use al' fl' = in_use al fl - {p}" "\<forall>a. a \<noteq> p \<longrightarrow> heap al' a = heap al a"
    using alloc_deallocate_ok [of al fl p] o u p by (auto simp: owns_def)
  have "block_ok (heap al') (bs ! i) (ms ! i) \<and> ran (ms ! i) \<subseteq> in_use al' fl'" if "i < length bs" for i
  proof -
    have "p \<notin> ran (ms ! i)" using hD(5) [OF that] u(2) p by auto
    then show ?thesis using block_ok_cong [OF hD(2) [OF that], of "heap al'"] d(3,4) o that
      by (auto simp: owns_def)
  qed
  then have "owns al' fl' bs ms" using o d(2) by (simp add: owns_def)
  moreover have "in_use al' fl' = (F - {p}) \<union> held ms" "(F - {p}) \<inter> held ms = {}" using u p d(3) by auto
  ultimately show ?thesis using d by (auto simp: holds_def)
qed

text \<open>A new frame, filled with data.\<close>

lemma holds_allocate:
  assumes h: "holds al bs ms F" and sz: "0 < sz" "sz \<le> max_bin_size" "sz \<le> length data"
  shows "\<exists>p al' h'. alloc_allocate sz al = Some (p, al') \<and>
    set_frame p (\<lambda>f. f\<lparr> fr_data := take sz data \<rparr>) (heap al') = Some h' \<and>
    holds (al'\<lparr> heap := h' \<rparr>) bs ms (insert p F) \<and> p \<notin> F \<and> payload h' p = take sz data \<and>
    (\<forall>a \<in> F \<union> held ms. h' a = heap al a)"
proof -
  obtain fl where o: "owns al fl bs ms" and u: "in_use al fl = F \<union> held ms" "F \<inter> held ms = {}"
    using h by (auto simp: holds_def)
  note hD = holdsD [OF h]
  obtain p al' fl' where a: "alloc_allocate sz al = Some (p, al')" "alloc_ok al' fl'" "p \<notin> in_use al fl"
    "in_use al' fl' = insert p (in_use al fl)" "\<forall>x \<in> in_use al fl. heap al' x = heap al x"
    "fr_size (the (heap al' p)) = int sz"
    using alloc_allocate_ok [of al fl sz] o sz by (auto simp: owns_def)
  have pu: "p \<in> in_use al' fl'" using a(4) by simp
  then obtain f where f: "heap al' p = Some f" by (auto simp: in_use_def)
  define h' where "h' = (heap al')(p \<mapsto> f\<lparr> fr_data := take sz data \<rparr>)"
  have set: "set_frame p (\<lambda>f. f\<lparr> fr_data := take sz data \<rparr>) (heap al') = Some h'"
    by (simp add: set_frame_def f h'_def)
  have "dom h' = dom (heap al')" "fbin h' = fbin (heap al')" "fsize h' = fsize (heap al')" "fidx h' = fidx (heap al')"
    using f by (auto simp: h'_def fbin_def fsize_def fidx_def fun_eq_iff)
  moreover have "h' x = heap al' x" if "x \<in> \<Union> (set ` set fl')" for x
    using that pu by (auto simp: h'_def in_use_def)
  ultimately have al': "alloc_ok (al'\<lparr> heap := h' \<rparr>) fl'" "in_use (al'\<lparr> heap := h' \<rparr>) fl' = in_use al' fl'"
    using alloc_ok_heap [OF a(2), of h'] alloc_okD(8) [OF a(2)] by auto
  have old: "h' x = heap al x" if "x \<in> in_use al fl" for x
    using that a(3,5) by (auto simp: h'_def)
  have "block_ok h' (bs ! i) (ms ! i) \<and> ran (ms ! i) \<subseteq> in_use (al'\<lparr> heap := h' \<rparr>) fl'" if "i < length bs" for i
    using block_ok_cong [OF hD(2) [OF that], of h'] old hD(5) [OF that] u(1) al'(2) a(4) by blast
  then have "owns (al'\<lparr> heap := h' \<rparr>) fl' bs ms" using o al'(1) by (simp add: owns_def)
  moreover have "in_use (al'\<lparr> heap := h' \<rparr>) fl' = insert p F \<union> held ms" "insert p F \<inter> held ms = {}"
    using u al'(2) a(3,4) by auto
  moreover have "payload h' p = take sz data" using a(6) f sz(3) by (simp add: payload_def h'_def)
  moreover have "p \<notin> F" "\<forall>x \<in> F \<union> held ms. h' x = heap al x" using a(3) u(1) old by auto
  ultimately show ?thesis using a(1) set by (auto simp: holds_def)
qed

subsection \<open>The jitter buffer\<close>

text \<open>
  The sequence numbers in the buffer ascend, the newest is \<open>last_pushed\<close>, and all of them are above
  \<open>last_popped\<close>. \<open>S\<close> gives the blocks of the source: a block that is not a placeholder has the
  sizes of the block that the source sent under its sequence number, and the frames it holds
  are frames of this block.
\<close>

definition seqs :: "jitter_buffer \<Rightarrow> int list" where
  "seqs jb = map rb_sequence (jb_contents jb)"

definition seq_range :: "int \<Rightarrow> bool" where
  "seq_range x \<longleftrightarrow> x = sentinel \<or> - 1 \<le> x \<and> x < INT32_MAX"

definition order_ok :: "jitter_buffer \<Rightarrow> bool" where
  "order_ok jb \<longleftrightarrow> sorted_wrt (<) (seqs jb) \<and>
     (\<forall>x \<in> set (seqs jb). jb_last_popped jb < x \<and> 0 \<le> x \<and> x < INT32_MAX) \<and>
     (seqs jb \<noteq> [] \<longrightarrow> jb_last_pushed jb = last (seqs jb)) \<and>
     jb_last_popped jb \<le> jb_last_pushed jb \<and> seq_range (jb_last_popped jb) \<and> seq_range (jb_last_pushed jb)"

type_synonym block_source = "int \<Rightarrow> sent_block"

definition chunk :: "block_source \<Rightarrow> int \<Rightarrow> nat \<Rightarrow> byte list" where
  "chunk S seq k = sent_block_get_frame (int k) (nat (sb_frame_size (S seq))) (S seq)"

definition block_fits :: "block_source \<Rightarrow> received_block \<Rightarrow> bool" where
  "block_fits S b \<longleftrightarrow> block_placeholder b \<or>
     int (st_size (rb_frames b)) = sb_num_frames (S (rb_sequence b)) \<and>
     rb_total_size b = int (length (sb_buffer (S (rb_sequence b)))) \<and>
     rb_message_size b = sb_message_size (S (rb_sequence b)) \<and> 0 < double_value (rb_samplerate b) \<and>
     0 \<le> rb_channel b"

definition contents_ok :: "block_source \<Rightarrow> frame_heap \<Rightarrow> received_block list \<Rightarrow> (nat \<rightharpoonup> nat) list \<Rightarrow> bool" where
  "contents_ok S h bs ms \<longleftrightarrow> (\<forall>i < length bs. \<forall>k p. (ms ! i) k = Some p \<longrightarrow>
     payload h p = chunk S (rb_sequence (bs ! i)) k)"

definition jinv :: "block_source \<Rightarrow> nat set \<Rightarrow> jitter_buffer \<Rightarrow> data_frame_allocator \<Rightarrow> bool" where
  "jinv S F jb al \<longleftrightarrow> jb_ok jb \<and> jb_vector_capacity jb = jitter_capacity jb \<and>
     (\<exists>ms. holds al (jb_data jb) ms F \<and> contents_ok S (heap al) (jb_data jb) ms) \<and>
     (\<forall>i < jitter_capacity jb. i \<notin> jb_slots jb \<longrightarrow> st_size (rb_frames (jb_data jb ! i)) = 0) \<and>
     order_ok jb \<and> (\<forall>b \<in> set (jb_contents jb). block_fits S b)"

lemma length_jb_contents [simp]: "length (jb_contents jb) = jb_size jb"
  by (simp add: jb_contents_def)

lemma seqs_empty: "seqs jb = [] \<longleftrightarrow> jb_size jb = 0"
  by (simp add: seqs_def flip: length_0_conv)

lemma jinvD:
  assumes "jinv S F jb al"
  shows "jb_ok jb" "jb_vector_capacity jb = jitter_capacity jb" "\<exists>ms. holds al (jb_data jb) ms F \<and> contents_ok S (heap al) (jb_data jb) ms"
    "i < jitter_capacity jb \<Longrightarrow> i \<notin> jb_slots jb \<Longrightarrow> st_size (rb_frames (jb_data jb ! i)) = 0"
    "order_ok jb" "i \<in> jb_slots jb \<Longrightarrow> block_fits S (jb_data jb ! i)"
    "i \<in> jb_slots jb \<Longrightarrow> i < length (jb_data jb)" "0 < jitter_capacity jb"
  using assms jb_slots_less [of jb i]
  by (auto simp: jinv_def jb_contents_slots jb_ok_def jitter_capacity_def)

lemma contents_ok_cong:
  assumes "contents_ok S h bs ms" and "\<And>i p. i < length bs \<Longrightarrow> p \<in> ran (ms ! i) \<Longrightarrow> payload h' p = payload h p"
  shows "contents_ok S h' bs ms"
  unfolding contents_ok_def
proof (intro allI impI)
  fix i k p assume i: "i < length bs" and p: "(ms ! i) k = Some p"
  show "payload h' p = chunk S (rb_sequence (bs ! i)) k"
    using assms(1) assms(2) [OF i ranI [where m = "ms ! i", OF p]] i p by (simp add: contents_ok_def)
qed

lemma payload_cong: "h' p = h p \<Longrightarrow> payload h' p = payload h p"
  by (simp add: payload_def)

text \<open>Changing the frames outside.\<close>

lemma jinv_frames:
  assumes inv: "jinv S F jb al"
    and h: "\<And>ms. holds al (jb_data jb) ms F \<Longrightarrow> holds al' (jb_data jb) ms F' \<and> (\<forall>p \<in> held ms. heap al' p = heap al p)"
  shows "jinv S F' jb al'"
proof -
  obtain ms where ms: "holds al (jb_data jb) ms F" "contents_ok S (heap al) (jb_data jb) ms"
    using inv by (auto simp: jinv_def)
  note h' = h [OF ms(1)]
  have "payload (heap al') p = payload (heap al) p" if "i < length (jb_data jb)" "p \<in> ran (ms ! i)" for i p
    using h' holdsD(5) [OF ms(1) that(1)] that(2) by (intro payload_cong) blast
  then have "contents_ok S (heap al') (jb_data jb) ms" using ms(2) contents_ok_cong by blast
  then show ?thesis using h' inv by (auto simp: jinv_def)
qed

lemma jitter_reset_inv:
  assumes inv: "jinv S F jb al"
  shows "\<exists>jb' al'. jitter_reset jb al = Some (jb', al') \<and> jinv S' F jb' al' \<and> jb_size jb' = 0 \<and>
    jb_last_pushed jb' = sentinel \<and> jb_last_popped jb' = sentinel \<and> jitter_capacity jb' = jitter_capacity jb \<and>
    (\<forall>a \<in> F. heap al' a = heap al a)"
proof -
  obtain ms where ms: "holds al (jb_data jb) ms F" using jinvD(3) [OF inv] by blast
  obtain bs' al' where c: "clear_blocks (jb_data jb) al = Some (bs', al')" "length bs' = length (jb_data jb)"
    "\<forall>b \<in> set bs'. st_size (rb_frames b) = 0" "holds al' bs' (replicate (length (jb_data jb)) Map.empty) F"
    "\<forall>a \<in> F. heap al' a = heap al a"
    using holds_clear_all [OF ms] by blast
  define jb' where "jb' = jb\<lparr> jb_data := bs', jb_head := 0, jb_tail := 0, jb_size := 0,
             jb_last_popped := sentinel, jb_last_pushed := sentinel \<rparr>"
  have r: "jitter_reset jb al = Some (jb', al')" by (simp add: jitter_reset_def c(1) jb'_def)
  have cap: "jitter_capacity jb' = jitter_capacity jb" using c(2) by (simp add: jb'_def jitter_capacity_def)
  have "jb_ok jb'" "jb_vector_capacity jb' = jitter_capacity jb'"
    using jinvD(1,2,8) [OF inv] cap by (auto simp: jb_ok_def jb'_def)
  moreover have e: "jb_contents jb' = []" by (simp add: jb_contents_def jb'_def flip: length_0_conv)
  then have "order_ok jb'" by (simp add: order_ok_def seqs_def seq_range_def) (simp add: jb'_def)
  moreover have "\<forall>i < jitter_capacity jb'. st_size (rb_frames (jb_data jb' ! i)) = 0"
    using c(2,3) by (simp add: jb'_def jitter_capacity_def)
  moreover have "holds al' (jb_data jb') (replicate (length (jb_data jb)) Map.empty) F"
    "contents_ok S' (heap al') (jb_data jb') (replicate (length (jb_data jb)) Map.empty)"
    using c(2,4) by (simp_all add: jb'_def contents_ok_def)
  ultimately have "jinv S' F jb' al'" using e by (auto simp: jinv_def)
  then show ?thesis using r cap c(5) by (auto simp: jb'_def)
qed

text \<open>Pushing a block that owns no frame yet.\<close>

lemma push_block_inv:
  assumes inv: "jinv S F jb al" and sp: "jb_size jb < jitter_capacity jb"
    and seq: "jb_last_pushed jb < seq" "0 \<le> seq" "seq < INT32_MAX"
    and p: "jitter_push seq jb = (i, jb1)" and b: "rb_sequence b = seq" "block_fits S b"
    "block_ok (heap al) b Map.empty"
  defines "jb' \<equiv> jb1\<lparr> jb_data := (jb_data jb)[i := b] \<rparr>"
  shows "jinv S F jb' al" and "jb_contents jb' = jb_contents jb @ [b]" and "i \<in> jb_slots jb'"
    and "jb_data jb' ! i = b" and "jb_last_pushed jb' = seq" and "jb_last_popped jb' = jb_last_popped jb"
    and "jb_size jb' = Suc (jb_size jb)" and "jitter_capacity jb' = jitter_capacity jb"
    and "holds al (jb_data jb) ms F \<Longrightarrow> contents_ok S (heap al) (jb_data jb) ms \<Longrightarrow>
      holds al (jb_data jb') ms F \<and> contents_ok S (heap al) (jb_data jb') ms \<and> ms ! i = Map.empty"
proof -
  note q = jb_slots_push [OF jinvD(1) [OF inv] sp p]
  have st: "jb_last_pushed jb1 = seq" "jb_last_popped jb1 = jb_last_popped jb"
    "jb_size jb1 = Suc (jb_size jb)" "jb_vector_capacity jb1 = jb_vector_capacity jb"
    using p by (auto simp: jitter_push_def)
  have cap: "jitter_capacity jb' = jitter_capacity jb" by (simp add: jb'_def jitter_capacity_def)
  show cont: "jb_contents jb' = jb_contents jb @ [b]" using q(7) by (simp add: jb'_def)
  have len: "i < length (jb_data jb)" using q(2) by (simp add: jitter_capacity_def)
  have empty: "st_size (rb_frames (jb_data jb ! i)) = 0" using jinvD(4) [OF inv q(2,3)] .
  show h: "holds al (jb_data jb') ms F \<and> contents_ok S (heap al) (jb_data jb') ms \<and> ms ! i = Map.empty"
    if "holds al (jb_data jb) ms F" "contents_ok S (heap al) (jb_data jb) ms" for ms
  proof -
    note r = holds_replace_empty [OF that(1) len empty b(3)]
    have "contents_ok S (heap al) ((jb_data jb)[i := b]) ms"
      unfolding contents_ok_def
    proof (intro allI impI)
      fix j k p assume "j < length ((jb_data jb)[i := b])" and p: "(ms ! j) k = Some p"
      moreover have "j \<noteq> i" using p r(2) by auto
      ultimately show "payload (heap al) p = chunk S (rb_sequence ((jb_data jb)[i := b] ! j)) k"
        using that(2) by (simp add: contents_ok_def)
    qed
    then show ?thesis using r by (simp add: jb'_def)
  qed
  have slots: "jb_slots jb' = insert i (jb_slots jb)"
    using q(5,6) by (simp add: jb'_def jb_slots_def jitter_capacity_def)
  have "jb_ok jb'" using q(4,6) by (simp add: jb'_def jb_ok_def jitter_capacity_def)
  moreover have "jb_vector_capacity jb' = jitter_capacity jb'"
    using jinvD(2) [OF inv] cap st(4) by (simp add: jb'_def)
  moreover have "\<exists>ms. holds al (jb_data jb') ms F \<and> contents_ok S (heap al) (jb_data jb') ms"
    using jinvD(3) [OF inv] h by blast
  moreover have "st_size (rb_frames (jb_data jb' ! j)) = 0" if "j < jitter_capacity jb'" "j \<notin> jb_slots jb'" for j
    using that jinvD(4) [OF inv, of j] slots by (simp add: jb'_def jitter_capacity_def)
  moreover have "order_ok jb'"
  proof -
    have o: "order_ok jb" by (rule jinvD(5) [OF inv])
    have "x < seq" if "x \<in> set (seqs jb)" for x
    proof -
      have "seqs jb \<noteq> []" "sorted_wrt (<) (seqs jb)" "jb_last_pushed jb = last (seqs jb)"
        using that o by (auto simp: order_ok_def)
      then have "x \<le> jb_last_pushed jb"
        using that by (cases "seqs jb" rule: rev_cases) (auto simp: sorted_wrt_append)
      then show ?thesis using seq(1) by simp
    qed
    moreover have "seqs jb' = seqs jb @ [seq]" using cont b(1) by (simp add: seqs_def)
    moreover have "jb_last_pushed jb' = seq" "jb_last_popped jb' = jb_last_popped jb" using st by (simp_all add: jb'_def)
    ultimately show ?thesis using o seq by (auto simp: order_ok_def sorted_wrt_append seq_range_def)
  qed
  ultimately show "jinv S F jb' al" using cont b(2) inv by (auto simp: jinv_def)
  show "i \<in> jb_slots jb'" using slots by simp
  show "jb_data jb' ! i = b" using len by (simp add: jb'_def)
  show "jb_last_pushed jb' = seq" "jb_last_popped jb' = jb_last_popped jb" "jb_size jb' = Suc (jb_size jb)"
    using st by (simp_all add: jb'_def)
  show "jitter_capacity jb' = jitter_capacity jb" by (rule cap)
qed

text \<open>The slot that a push takes holds no frame, so the assertions of \<^verbatim>\<open>init\<close> hold.\<close>

lemma head_slot_free:
  assumes "jinv S F jb al" and "jb_size jb < jitter_capacity jb"
  shows "st_size (rb_frames (jb_data jb ! jb_head jb)) = 0"
proof -
  obtain i jb1 where p: "jitter_push 0 jb = (i, jb1)" by (cases "jitter_push 0 jb")
  show ?thesis using jb_slots_push(1-3) [OF jinvD(1) [OF assms(1)] assms(2) p] jinvD(4) [OF assms(1)] by simp
qed

lemma push_placeholder_jinv:
  assumes inv: "jinv S F jb al" and sp: "jb_size jb < jitter_capacity jb"
    and seq: "jb_last_pushed jb < seq" "0 \<le> seq" "seq < INT32_MAX"
  shows "jinv S F (jitter_push_placeholder seq jb) al \<and>
    seqs (jitter_push_placeholder seq jb) = seqs jb @ [seq] \<and>
    jb_last_pushed (jitter_push_placeholder seq jb) = seq \<and>
    jb_last_popped (jitter_push_placeholder seq jb) = jb_last_popped jb \<and>
    jb_size (jitter_push_placeholder seq jb) = Suc (jb_size jb) \<and>
    jitter_capacity (jitter_push_placeholder seq jb) = jitter_capacity jb"
proof -
  obtain i jb1 where p: "jitter_push seq jb = (i, jb1)" by (cases "jitter_push seq jb")
  have i: "i < jitter_capacity jb" "i \<notin> jb_slots jb" "jb_data jb1 = jb_data jb"
    using jb_slots_push [OF jinvD(1) [OF inv] sp p] by auto
  let ?b = "block_init_placeholder seq (jb_data jb ! i)"
  have b: "rb_sequence ?b = seq" "block_fits S ?b" "block_ok (heap al) ?b Map.empty"
    using jinvD(4) [OF inv i(1,2)]
    by (simp_all add: block_init_placeholder_def block_fits_def block_placeholder_def block_ok_def)
  have "jitter_push_placeholder seq jb = jb1\<lparr> jb_data := (jb_data jb)[i := ?b] \<rparr>"
    by (simp add: jitter_push_placeholder_def p i(3))
  then show ?thesis using push_block_inv [OF inv sp seq p b] b(1) by (simp add: seqs_def)
qed

lemma block_init_ok:
  assumes "st_size (rb_frames b) = 0" and "dp_num_frames d \<le> 2 ^ 15"
  shows "block_ok h (block_init d b) Map.empty" and "rb_sequence (block_init d b) = dp_sequence d"
    and "st_size (rb_frames (block_init d b)) = dp_num_frames d" and "\<not> block_placeholder (block_init d b)"
  using assms storage_init_ok [of "dp_num_frames d" h "rb_frames b"]
  by (auto simp: block_ok_def block_init_def Let_def storage_init_def block_placeholder_def)

text \<open>A packet that announces the sizes of the source's block.\<close>

definition announces :: "block_source \<Rightarrow> data_packet \<Rightarrow> bool" where
  "announces S p \<longleftrightarrow> int (dp_num_frames p) = sb_num_frames (S (dp_sequence p)) \<and>
     dp_total_size p = int (length (sb_buffer (S (dp_sequence p)))) \<and>
     dp_msg_size p = sb_message_size (S (dp_sequence p))"

text \<open>A positive sample rate and a channel number that survives the conversion to 16 bits.\<close>

definition plausible :: "data_packet \<Rightarrow> bool" where
  "plausible p \<longleftrightarrow> 0 < double_value (dp_samplerate p) \<and> 0 \<le> dp_channel p \<and> dp_channel p < 2 ^ 15"

lemma block_init_fits: "announces S p \<Longrightarrow> plausible p \<Longrightarrow> block_fits S (block_init p b)"
  by (simp add: announces_def plausible_def block_fits_def block_init_def Let_def storage_init_def int16_small)

lemma push_packet_jinv:
  assumes inv: "jinv S F jb al" and sp: "jb_size jb < jitter_capacity jb"
    and seq: "jb_last_pushed jb < dp_sequence d" "0 \<le> dp_sequence d" "dp_sequence d < INT32_MAX"
    and d: "announces S d" "dp_num_frames d \<le> 2 ^ 15" "plausible d"
    and p: "jitter_push_block d jb = (i, jb')"
  shows "jinv S F jb' al" and "seqs jb' = seqs jb @ [dp_sequence d]" and "i \<in> jb_slots jb'"
    and "\<exists>b. jb_data jb' ! i = block_init d b"
    and "holds al (jb_data jb) ms F \<Longrightarrow> contents_ok S (heap al) (jb_data jb) ms \<Longrightarrow>
      holds al (jb_data jb') ms F \<and> contents_ok S (heap al) (jb_data jb') ms \<and> ms ! i = Map.empty"
    and "jb_last_popped jb' = jb_last_popped jb" and "jb_last_pushed jb' = dp_sequence d"
    and "jitter_capacity jb' = jitter_capacity jb" and "jb_size jb' = Suc (jb_size jb)"
proof -
  obtain k jb1 where p1: "jitter_push (dp_sequence d) jb = (k, jb1)" by (cases "jitter_push (dp_sequence d) jb")
  have k: "k < jitter_capacity jb" "k \<notin> jb_slots jb" "jb_data jb1 = jb_data jb"
    using jb_slots_push [OF jinvD(1) [OF inv] sp p1] by auto
  let ?b = "block_init d (jb_data jb ! k)"
  note b = block_init_ok [OF jinvD(4) [OF inv k(1,2)] d(2)]
  have fits: "block_fits S ?b" by (rule block_init_fits [OF d(1,3)])
  have e: "i = k" "jb' = jb1\<lparr> jb_data := (jb_data jb)[k := ?b] \<rparr>"
    using p by (auto simp: jitter_push_block_def p1 k(3))
  note q = push_block_inv [OF inv sp seq p1 b(2) fits b(1)]
  show "jinv S F jb' al" "seqs jb' = seqs jb @ [dp_sequence d]" "i \<in> jb_slots jb'"
    "jb_last_popped jb' = jb_last_popped jb" "jb_last_pushed jb' = dp_sequence d"
    "jitter_capacity jb' = jitter_capacity jb" "jb_size jb' = Suc (jb_size jb)"
    using q(1-3,5-8) b(2) unfolding e by (simp_all add: seqs_def)
  show "\<exists>b. jb_data jb' ! i = block_init d b" using q(4) unfolding e by blast
  show "holds al (jb_data jb') ms F \<and> contents_ok S (heap al) (jb_data jb') ms \<and> ms ! i = Map.empty"
    if "holds al (jb_data jb) ms F" "contents_ok S (heap al) (jb_data jb) ms"
    using q(9) [OF that] unfolding e .
qed

lemma pop_jinv:
  assumes inv: "jinv S F jb al" and ne: "0 < jb_size jb"
  shows "\<exists>jb' al'. jitter_pop jb al = Some (jb', al') \<and> jinv S F jb' al' \<and> seqs jb' = tl (seqs jb) \<and>
    jb_size jb' = jb_size jb - 1 \<and> jitter_capacity jb' = jitter_capacity jb \<and>
    jb_last_popped jb' = hd (seqs jb) \<and> jb_last_pushed jb' = jb_last_pushed jb \<and>
    (\<forall>a \<in> F. heap al' a = heap al a)"
proof -
  obtain ms where ms: "holds al (jb_data jb) ms F" "contents_ok S (heap al) (jb_data jb) ms"
    using jinvD(3) [OF inv] by blast
  have t: "jb_tail jb < length (jb_data jb)" using jinvD(1) [OF inv] by (simp add: jb_ok_def jitter_capacity_def)
  obtain b' al' where c: "block_clear (jb_data jb ! jb_tail jb) al = Some (b', al')"
    "st_size (rb_frames b') = 0" "rb_sequence b' = rb_sequence (jb_data jb ! jb_tail jb)"
    "holds al' ((jb_data jb)[jb_tail jb := b']) (ms[jb_tail jb := Map.empty]) F"
    "\<forall>a. a \<notin> ran (ms ! jb_tail jb) \<longrightarrow> heap al' a = heap al a"
    using holds_clear [OF ms(1) t] by blast
  have "contents_ok S (heap al') ((jb_data jb)[jb_tail jb := b']) (ms[jb_tail jb := Map.empty])"
    unfolding contents_ok_def
  proof (intro allI impI)
    fix i k p assume i: "i < length ((jb_data jb)[jb_tail jb := b'])"
      and p: "(ms[jb_tail jb := Map.empty] ! i) k = Some p"
    have len: "length ms = length (jb_data jb)" by (rule holdsD(1) [OF ms(1)])
    have ne: "i \<noteq> jb_tail jb" using p i len by (auto simp: nth_list_update)
    then have "ran (ms ! i) \<inter> ran (ms ! jb_tail jb) = {}" using holds_disjoint [OF ms(1), of i "jb_tail jb"] i t by simp
    then have "p \<notin> ran (ms ! jb_tail jb)" using p ne by (auto intro: ranI)
    then show "payload (heap al') p = chunk S (rb_sequence ((jb_data jb)[jb_tail jb := b'] ! i)) k"
      using ms(2) p ne i c(5) by (simp add: contents_ok_def payload_def)
  qed
  note contents = this
  have F: "\<forall>a \<in> F. heap al' a = heap al a" using c(5) holdsD(3) [OF ms(1)] holdsD(5) [OF ms(1) t] by auto
  define jb' where "jb' = jb\<lparr> jb_data := (jb_data jb)[jb_tail jb := b'], jb_last_popped := rb_sequence b',
      jb_tail := ring_next (jitter_capacity jb) (jb_tail jb), jb_size := jb_size jb - 1 \<rparr>"
  note q = jb_pop_struct [OF jinvD(1) [OF inv] ne jb'_def]
  have r: "jitter_pop jb al = Some (jb', al')" using ne by (simp add: jitter_pop_def jitter_empty_def c(1) jb'_def)
  have cont: "jb_contents jb \<noteq> []" using ne by (simp flip: length_0_conv)
  then have hd: "hd (seqs jb) = rb_sequence b'" using q(4) c(3) by (simp add: seqs_def hd_map)
  have tl: "seqs jb' = tl (seqs jb)" using q(3) by (simp add: seqs_def map_tl)
  have cap: "jitter_capacity jb' = jitter_capacity jb" by (simp add: jb'_def jitter_capacity_def)
  have "order_ok jb'"
  proof -
    have o: "order_ok jb" by (rule jinvD(5) [OF inv])
    obtain y ys where y: "seqs jb = y # ys" using cont by (cases "seqs jb") (auto simp: seqs_def)
    have "jb_last_popped jb' = y" "jb_last_pushed jb' = jb_last_pushed jb" using hd y by (simp_all add: jb'_def)
    moreover have "y \<le> last (y # ys)" using o y last_in_set [of ys] by (fastforce simp: order_ok_def)
    ultimately show ?thesis using o tl y by (auto simp: order_ok_def seq_range_def)
  qed
  moreover have "st_size (rb_frames (jb_data jb' ! j)) = 0" if "j < jitter_capacity jb'" "j \<notin> jb_slots jb'" for j
    using that jinvD(4) [OF inv, of j] c(2) t by (auto simp: q(2) cap) (auto simp: jb'_def nth_list_update)
  moreover have "\<forall>b \<in> set (jb_contents jb'). block_fits S b"
    using inv q(3) by (auto simp: jinv_def dest: list.set_sel(2) [OF cont])
  moreover have "jb_vector_capacity jb' = jitter_capacity jb'" using jinvD(2) [OF inv] cap by (simp add: jb'_def)
  moreover have "\<exists>ms. holds al' (jb_data jb') ms F \<and> contents_ok S (heap al') (jb_data jb') ms"
    using c(4) contents by (auto simp: jb'_def)
  ultimately have "jinv S F jb' al'" using q(1) by (auto simp: jinv_def)
  then show ?thesis using r tl hd cap F by (auto simp: jb'_def)
qed

text \<open>Changing a block of the queue, and the frames outside with it.\<close>

lemma set_block_jinv:
  assumes inv: "jinv S F jb al" and i: "i \<in> jb_slots jb"
    and h: "holds al' ((jb_data jb)[i := b]) ms F'" "contents_ok S (heap al') ((jb_data jb)[i := b]) ms"
    and b: "rb_sequence b = rb_sequence (jb_data jb ! i)" "block_fits S b"
  defines "jb' \<equiv> jb\<lparr> jb_data := (jb_data jb)[i := b] \<rparr>"
  shows "jinv S F' jb' al'" and "seqs jb' = seqs jb" and "jb_slots jb' = jb_slots jb"
proof -
  have cap: "jitter_capacity jb' = jitter_capacity jb" by (simp add: jb'_def jitter_capacity_def)
  show slots: "jb_slots jb' = jb_slots jb" by (simp add: jb_slots_def cap) (simp add: jb'_def)
  have ok: "jb_ok jb'" using jinvD(1) [OF inv] by (simp add: jb_ok_def cap) (simp add: jb'_def)
  have seq: "rb_sequence ((jb_data jb)[i := b] ! j) = rb_sequence (jb_data jb ! j)" for j
    using b(1) jinvD(7) [OF inv i] by (simp add: nth_list_update)
  show s: "seqs jb' = seqs jb"
    by (simp add: seqs_def jb_contents_def ring_seg_def comp_def jb'_def seq)
  have "order_ok jb'" using jinvD(5) [OF inv] by (simp add: order_ok_def s) (simp add: jb'_def)
  moreover have "\<forall>b' \<in> set (jb_contents jb'). block_fits S b'"
    using jinvD(6,7) [OF inv] b(2) i unfolding jb_contents_slots slots
    by (auto simp: jb'_def nth_list_update)
  moreover have "st_size (rb_frames (jb_data jb' ! j)) = 0" if "j < jitter_capacity jb'" "j \<notin> jb_slots jb'" for j
  proof -
    have "j \<noteq> i" using that i slots by auto
    then show ?thesis using that jinvD(4) [OF inv, of j] by (simp add: slots cap) (simp add: jb'_def)
  qed
  moreover have "jb_vector_capacity jb' = jitter_capacity jb'" using jinvD(2) [OF inv] cap by (simp add: jb'_def)
  ultimately show "jinv S F' jb' al'" using ok h by (auto simp: jinv_def jb'_def)
qed

lemma advance_missing_jinv:
  assumes inv: "jinv S F jb al" and e: "jb_size jb = 0"
  shows "jinv S F (jitter_advance_missing jb) al"
proof -
  let ?jb = "jitter_advance_missing jb"
  have eq: "jb_data ?jb = jb_data jb" "jb_vector_capacity ?jb = jb_vector_capacity jb" "jb_size ?jb = jb_size jb"
    "jb_head ?jb = jb_head jb" "jb_tail ?jb = jb_tail jb"
    by (simp_all add: jitter_advance_missing_def Let_def)
  have c: "jitter_capacity ?jb = jitter_capacity jb" "jb_slots ?jb = jb_slots jb" "jb_contents ?jb = jb_contents jb"
    by (simp_all add: jitter_capacity_def jb_slots_def jb_contents_def eq)
  have "seqs jb = []" using e by (simp add: seqs_empty)
  then have "order_ok ?jb" using jinvD(5) [OF inv] c(3)
    by (auto simp: order_ok_def seqs_def jitter_advance_missing_def Let_def seq_range_def INT32_MAX_def sentinel_def)
  then show ?thesis using inv by (simp add: jinv_def jb_ok_def eq c)
qed

lemma find_jinv:
  assumes inv: "jinv S F jb al"
  shows "\<exists>res. jitter_find seq jb = Some res \<and>
    (case res of None \<Rightarrow> seq \<notin> set (seqs jb)
     | Some i \<Rightarrow> i \<in> jb_slots jb \<and> rb_sequence (jb_data jb ! i) = seq)"
proof -
  obtain res where res: "jitter_find seq jb = Some res"
    "locates (\<lambda>i. rb_sequence (jb_data jb ! i)) seq (jb_slots jb) res"
    using jitter_find_locates [OF jinvD(1) [OF inv], of seq] jinvD(2,5) [OF inv]
    by (auto simp: order_ok_def seqs_def)
  then show ?thesis by (cases res) (force simp: locates_def seqs_def jb_contents_slots)+
qed

end
