(* ===== verification/Pcm.thy ===== *)
theory Pcm
  imports Float_Format Byte_Utils Stream_Sink "HOL-Library.Signed_Division"
begin

text \<open>
  The PCM codec (\<^verbatim>\<open>aoo/src/codec/pcm.cpp\<close>). Samples are real numbers that are values of the \<^verbatim>\<open>float\<close> format; every operation
  of the code on them is followed by the rounding of its type. A division by zero, a read or write outside of
  a buffer, a failed assertion and a signed overflow is \<^const>\<open>None\<close>.
\<close>

subsection \<open>Samples\<close>

definition kAooPcmInt8 :: int where "kAooPcmInt8 = 0"
definition kAooPcmInt16 :: int where "kAooPcmInt16 = 1"
definition kAooPcmInt24 :: int where "kAooPcmInt24 = 2"
definition kAooPcmFloat32 :: int where "kAooPcmFloat32 = 3"
definition kAooPcmFloat64 :: int where "kAooPcmFloat64 = 4"
definition kAooPcmBitDepthSize :: int where "kAooPcmBitDepthSize = 5"

lemmas bit_depth_defs = kAooPcmInt8_def kAooPcmInt16_def kAooPcmInt24_def kAooPcmFloat32_def kAooPcmFloat64_def
  kAooPcmBitDepthSize_def

definition bytes_per_sample :: "int \<Rightarrow> int option" where
  "bytes_per_sample bitdepth =
     (if bitdepth = kAooPcmInt8 then Some 1
      else if bitdepth = kAooPcmInt16 then Some 2
      else if bitdepth = kAooPcmInt24 then Some 3
      else if bitdepth = kAooPcmFloat32 then Some 4
      else if bitdepth = kAooPcmFloat64 then Some 8
      else None)"

definition INT8_MAX :: int where "INT8_MAX = 127"
definition INT16_MAX :: int where "INT16_MAX = 32767"

text \<open>Rounding and clipping.\<close>

definition quantise :: "int \<Rightarrow> real \<Rightarrow> int" where
  "quantise maxval x =
     (let temp = rint x
      in if temp > maxval then maxval else if temp < - maxval - 1 then - maxval - 1 else temp)"

definition sample_to_int8 :: "real \<Rightarrow> byte list" where
  "sample_to_int8 x = [word_of_int (quantise INT8_MAX (float32 (x * of_int INT8_MAX)))]"

definition sample_to_int16 :: "byte_order \<Rightarrow> real \<Rightarrow> byte list" where
  "sample_to_int16 bo x =
     (let b = mem_bytes bo (word_of_int (quantise INT16_MAX (float32 (x * of_int INT16_MAX))) :: u16)
      in case bo of BIG_ENDIAN \<Rightarrow> take 2 b | LITTLE_ENDIAN \<Rightarrow> [b ! 1, b ! 0])"

definition sample_to_int24 :: "byte_order \<Rightarrow> real \<Rightarrow> byte list" where
  "sample_to_int24 bo x =
     (let b = mem_bytes bo (word_of_int (quantise INT32_MAX (float64 (x * of_int INT32_MAX))) :: u32)
      in case bo of BIG_ENDIAN \<Rightarrow> [b ! 0, b ! 1, b ! 2] | LITTLE_ENDIAN \<Rightarrow> [b ! 3, b ! 2, b ! 1])"

definition sample_to_float32 :: "byte_order \<Rightarrow> real \<Rightarrow> byte list" where
  "sample_to_float32 bo x = to_bytes_on bo (float_bits x)"

definition sample_to_float64 :: "byte_order \<Rightarrow> real \<Rightarrow> byte list" where
  "sample_to_float64 bo x = to_bytes_on bo (double_bits x)"

definition int8_to_sample :: "byte list \<Rightarrow> real" where
  "int8_to_sample b = float32 (float32 (of_int (sint (hd b))) / float32 (of_int INT8_MAX))"

definition int16_to_sample :: "byte_order \<Rightarrow> byte list \<Rightarrow> real" where
  "int16_to_sample bo b =
     (let c = mem_value bo (case bo of BIG_ENDIAN \<Rightarrow> take 2 b | LITTLE_ENDIAN \<Rightarrow> [b ! 1, b ! 0]) :: u16
      in float32 (float32 (of_int (sint c)) / float32 (of_int INT16_MAX)))"

definition int24_to_sample :: "byte_order \<Rightarrow> byte list \<Rightarrow> real" where
  "int24_to_sample bo b =
     (let c = mem_value bo (case bo of BIG_ENDIAN \<Rightarrow> [b ! 0, b ! 1, b ! 2, 0] | LITTLE_ENDIAN \<Rightarrow> [0, b ! 2, b ! 1, b ! 0]) :: u32
      in float32 (float32 (of_int (sint c)) / float32 (of_int INT32_MAX)))"

definition float32_to_sample :: "byte_order \<Rightarrow> byte list \<Rightarrow> real" where
  "float32_to_sample bo b = float_value (from_bytes_on bo b)"

definition float64_to_sample :: "byte_order \<Rightarrow> byte list \<Rightarrow> real" where
  "float64_to_sample bo b = float32 (double_value (from_bytes_on bo b))"

subsection \<open>Formats\<close>

record AooFormatPcm = AooFormat +
  structSize :: int
  bitDepth :: int

text \<open>The size of the structure: a header of 16 bytes and the name of the codec, and the bit depth.\<close>

definition kAooCodecNameMaxSize :: int where "kAooCodecNameMaxSize = 32"
definition AOO_PCM_STRUCT_SIZE :: int where "AOO_PCM_STRUCT_SIZE = 4 * 4 + kAooCodecNameMaxSize + 4"

definition validate_format :: "AooFormatPcm \<Rightarrow> AooFormatPcm option" where
  "validate_format f =
     (if structSize f < AOO_PCM_STRUCT_SIZE then None
      else if codecName f \<noteq> ''pcm'' then None
      else
        let f = (if blockSize f \<le> 0 then f\<lparr> blockSize := 64 \<rparr> else f);
            f = (if sampleRate f \<le> 0 then f\<lparr> sampleRate := 44100 \<rparr> else f);
            f = (if numChannels f \<le> 0 \<or> numChannels f > 255 then f\<lparr> numChannels := 1 \<rparr> else f);
            f = (if bitDepth f < 0 \<or> bitDepth f > kAooPcmBitDepthSize then f\<lparr> bitDepth := kAooPcmFloat32 \<rparr> else f)
        in Some f)"

subsection \<open>The codec\<close>

record PcmCodec =
  pcm_numChannels :: int
  pcm_sampleSize :: int

definition PcmCodec_new :: PcmCodec where
  "PcmCodec_new = \<lparr> pcm_numChannels = 0, pcm_sampleSize = -1 \<rparr>"

definition PcmCodec_setup :: "AooFormatPcm \<Rightarrow> PcmCodec \<Rightarrow> (AooError + (AooFormatPcm \<times> PcmCodec)) option" where
  "PcmCodec_setup fmt codec =
     (case validate_format fmt of
        None \<Rightarrow> Some (Inl kAooErrorBadArgument)
      | Some fmt \<Rightarrow> do {
          n \<leftarrow> bytes_per_sample (bitDepth fmt);
          Some (Inr (fmt, codec\<lparr> pcm_numChannels := numChannels fmt, pcm_sampleSize := n \<rparr>)) })"

definition kAooCodecCtlReset :: int where "kAooCodecCtlReset = - 1000"
definition kAooCodecCtlGetLatency :: int where "kAooCodecCtlGetLatency = - 999"

text \<open>The control function; the result of \<^verbatim>\<open>GetLatency\<close> is what it writes through the pointer.\<close>

definition PcmCodec_control :: "int \<Rightarrow> nat \<Rightarrow> (AooError + int option) option" where
  "PcmCodec_control ctl sz =
     (if ctl = kAooCodecCtlReset then Some (Inr None)
      else if ctl = kAooCodecCtlGetLatency then if sz = 4 then Some (Inr (Some 0)) else None
      else Some (Inl kAooErrorNotImplemented))"

definition int32_mult :: "int \<Rightarrow> int \<Rightarrow> int option" where
  "int32_mult a b = (if - (2 ^ 31) \<le> a * b \<and> a * b < 2 ^ 31 then Some (a * b) else None)"

definition samples_to_bytes :: "(real \<Rightarrow> byte list) \<Rightarrow> int \<Rightarrow> real list \<Rightarrow> byte list option" where
  "samples_to_bytes fn n inSamples =
     (if nat n \<le> length inSamples then Some (concat (map fn (take (nat n) inSamples))) else None)"

definition PcmCodec_encode :: "byte_order \<Rightarrow> PcmCodec \<Rightarrow> real list \<Rightarrow> int \<Rightarrow> int \<Rightarrow> (AooError + byte list) option" where
  "PcmCodec_encode bo enc inSamples frameSize outSize = do {
     nsamples \<leftarrow> int32_mult frameSize (pcm_numChannels enc);
     let samplesize = pcm_sampleSize enc;
     nbytes \<leftarrow> int32_mult nsamples samplesize;
     if outSize < nbytes then Some (Inl kAooErrorInsufficientBuffer)
     else if samplesize = 1 then map_option Inr (samples_to_bytes sample_to_int8 nsamples inSamples)
     else if samplesize = 2 then map_option Inr (samples_to_bytes (sample_to_int16 bo) nsamples inSamples)
     else if samplesize = 3 then map_option Inr (samples_to_bytes (sample_to_int24 bo) nsamples inSamples)
     else if samplesize = 4 then map_option Inr (samples_to_bytes (sample_to_float32 bo) nsamples inSamples)
     else if samplesize = 8 then map_option Inr (samples_to_bytes (sample_to_float64 bo) nsamples inSamples)
     else Some (Inl kAooErrorBadArgument) }"

fun blob_to_samples :: "(byte list \<Rightarrow> real) \<Rightarrow> nat \<Rightarrow> nat \<Rightarrow> byte list \<Rightarrow> real list option" where
  "blob_to_samples convfn samplesize 0 b = Some []"
| "blob_to_samples convfn samplesize (Suc n) b =
     (if length b < samplesize then None
      else do {
        xs \<leftarrow> blob_to_samples convfn samplesize n (drop samplesize b);
        Some (convfn b # xs) })"

text \<open>
  Decoding: the samples that are written to the front of the output, and the new frame size. The size is that
  of the input data, or 0 when there is none.
\<close>

definition PcmCodec_decode :: "byte_order \<Rightarrow> PcmCodec \<Rightarrow> byte list option \<Rightarrow> int \<Rightarrow> int \<Rightarrow>
    (AooError + (real list \<times> int)) option" where
  "PcmCodec_decode bo dec inData inSize frameSize = do {
     let nchannels = pcm_numChannels dec;
     noutsamples \<leftarrow> int32_mult frameSize nchannels;
     (case inData of
        None \<Rightarrow> Some (Inr (replicate (nat noutsamples) 0, frameSize))
      | Some b \<Rightarrow>
          let samplesize = pcm_sampleSize dec
          in if samplesize = 0 then None
             else
               let ninsamples = inSize sdiv samplesize;
                   finish = (\<lambda>convfn. if nchannels = 0 then None
                     else map_option (\<lambda>xs. Inr (xs, ninsamples sdiv nchannels))
                            (blob_to_samples convfn (nat samplesize) (nat ninsamples) b))
               in if ninsamples > noutsamples then Some (Inl kAooErrorInsufficientBuffer)
                  else if samplesize = 1 then finish int8_to_sample
                  else if samplesize = 2 then finish (int16_to_sample bo)
                  else if samplesize = 3 then finish (int24_to_sample bo)
                  else if samplesize = 4 then finish (float32_to_sample bo)
                  else if samplesize = 8 then finish (float64_to_sample bo)
                  else Some (Inl kAooErrorBadArgument)) }"

text \<open>
  The extension of a format in a message. A null pointer is \<^const>\<open>None\<close>; the result is the size, and the bytes or the bit
  depth when they are written.
\<close>

definition serialize :: "AooFormatPcm \<Rightarrow> nat option \<Rightarrow> int option \<Rightarrow> AooError + (int \<times> byte list option)" where
  "serialize f buf sz =
     (case sz of
        None \<Rightarrow> Inl kAooErrorBadArgument
      | Some n \<Rightarrow>
          (case buf of
             None \<Rightarrow> Inr (4, None)
           | Some _ \<Rightarrow>
               if (word_of_int n :: u64) < 4 then Inl kAooErrorInsufficientBuffer
               else if structSize f < AOO_PCM_STRUCT_SIZE then Inl kAooErrorBadArgument
               else Inr (4, Some (to_bytes (word_of_int (bitDepth f) :: u32)))))"

definition deserialize :: "byte list \<Rightarrow> int \<Rightarrow> AooFormatPcm option \<Rightarrow> int option \<Rightarrow> AooError + (int \<times> AooFormatPcm option)" where
  "deserialize buf sz f fmtsize =
     (case fmtsize of
        None \<Rightarrow> Inl kAooErrorBadArgument
      | Some n \<Rightarrow>
          (case f of
             None \<Rightarrow> Inr (AOO_PCM_STRUCT_SIZE, None)
           | Some fmt \<Rightarrow>
               if (word_of_int sz :: u64) < 4 then Inl kAooErrorBadArgument
               else if n < AOO_PCM_STRUCT_SIZE then Inl kAooErrorBadArgument
               else Inr (AOO_PCM_STRUCT_SIZE, Some (fmt\<lparr> bitDepth := sint (from_bytes buf :: u32) \<rparr>))))"

end
