(* ===== verification/Pcm_Quality.thy ===== *)
theory Pcm_Quality
  imports Pcm
begin

text \<open>
  How well the PCM codec keeps its samples: decoding and encoding again, and the error of encoding
  and decoding.
\<close>

subsection \<open>Rounding errors\<close>

lemma float32_error:
  assumes "\<bar>x\<bar> \<le> b" and "1 / 2 ^ 100 \<le> b"
  shows "\<bar>float32 x - x\<bar> \<le> b / 2 ^ 24"
proof -
  have "\<bar>float32 x - x\<bar> \<le> max (\<bar>x\<bar> / 2 ^ (23 + 1)) (2 powi (- 149 - 1))" by (rule fl_error)
  moreover have "2 powi (- 149 - 1) \<le> b / 2 ^ 24"
  proof -
    have "(2::real) powi (- 149 - 1) \<le> 1 / 2 ^ 100 / 2 ^ 24" by (simp add: power_int_minus inverse_eq_divide)
    also have "\<dots> \<le> b / 2 ^ 24" using assms(2) by (intro divide_right_mono) simp_all
    finally show ?thesis .
  qed
  moreover have "\<bar>x\<bar> / 2 ^ (23 + 1) \<le> b / 2 ^ 24" using assms(1) by (simp add: divide_right_mono)
  ultimately show ?thesis by linarith
qed

lemma float32_int: "\<bar>n\<bar> < 2 ^ 24 \<Longrightarrow> float32 (of_int n) = of_int n"
  by (rule fl_int) simp_all

text \<open>Rounding does not cross a multiple of the last bit.\<close>

lemma fl_between:
  assumes "\<bar>x\<bar> < 2 powi (k + int p + 1)" and "emin \<le> k"
  shows "of_int a * 2 powi k \<le> x \<Longrightarrow> of_int a * 2 powi k \<le> fl p emin x"
    and "x \<le> of_int a * 2 powi k \<Longrightarrow> fl p emin x \<le> of_int a * 2 powi k"
proof -
  define e where "e = last_exponent p emin x"
  have "of_int a * (2::real) powi k = of_int (a * 2 ^ nat (k - e)) * 2 powi e" if "x \<noteq> 0"
  proof -
    note b = last_exponent_bounds [OF that e_def]
    have "e \<le> k"
    proof (cases "emin < e")
      case True
      then have "(2::real) powi (e + int p) < 2 powi (k + int p + 1)" using b(3) assms(1) by linarith
      then show ?thesis by (auto dest: powi_less_cancel)
    qed (use assms(2) b(2) in simp)
    then have "2 powi k = (2::real) ^ nat (k - e) * 2 powi e" by (simp flip: power_int_of_nat power_int_add)
    then show ?thesis by simp
  qed
  moreover have fl: "x \<noteq> 0 \<Longrightarrow> fl p emin x = of_int (rint (x / 2 powi e)) * 2 powi e" by (simp add: fl_def e_def Let_def)
  ultimately have m: "x \<noteq> 0 \<Longrightarrow> of_int a * (2::real) powi k = of_int (a * 2 ^ nat (k - e)) * 2 powi e" by simp
  show "of_int a * 2 powi k \<le> fl p emin x" if "of_int a * 2 powi k \<le> x"
  proof (cases "x = 0")
    case False
    have "of_int (a * 2 ^ nat (k - e)) \<le> x / 2 powi e" using that unfolding m [OF False] by (simp add: le_divide_eq)
    then have "a * 2 ^ nat (k - e) \<le> rint (x / 2 powi e)" by (rule rint_ge)
    then show ?thesis unfolding m [OF False] fl [OF False] by (intro mult_right_mono) (simp_all only: of_int_le_iff, simp)
  qed (use that in simp)
  show "fl p emin x \<le> of_int a * 2 powi k" if "x \<le> of_int a * 2 powi k"
  proof (cases "x = 0")
    case False
    have "x / 2 powi e \<le> of_int (a * 2 ^ nat (k - e))" using that unfolding m [OF False] by (simp add: divide_le_eq)
    then have "rint (x / 2 powi e) \<le> a * 2 ^ nat (k - e)" by (rule rint_le)
    then show ?thesis unfolding m [OF False] fl [OF False] by (intro mult_right_mono) (simp_all only: of_int_le_iff, simp)
  qed (use that in simp)
qed

lemma fl_between_ints:
  assumes "\<bar>x\<bar> < 2 powi (int p + 1)" and "emin \<le> 0"
  shows "of_int a \<le> x \<Longrightarrow> of_int a \<le> fl p emin x" "x \<le> of_int a \<Longrightarrow> fl p emin x \<le> of_int a"
  using fl_between [of x 0 p emin a] assms by simp_all

lemma quantise_rint: "- maxval - 1 \<le> rint x \<Longrightarrow> rint x \<le> maxval \<Longrightarrow> quantise maxval x = rint x"
  by (simp add: quantise_def Let_def)

subsection \<open>Integer samples of 8 and 16 bits\<close>

lemma requantise:
  assumes M: "0 < M" "M < 2 ^ 15" and n: "- M - 1 \<le> n" "n \<le> M"
  shows "quantise M (float32 (float32 (of_int n / of_int M) * of_int M)) = n"
proof -
  define q where "q = of_int n / (of_int M :: real)"
  have M1: "1 \<le> (of_int M :: real)" "(of_int M :: real) \<le> 32768" using M by simp_all
  have n1: "\<bar>of_int n :: real\<bar> \<le> of_int M + 1" using n by (simp add: abs_if)
  have "\<bar>q\<bar> \<le> 2" using n1 M1 by (simp add: q_def divide_le_eq)
  then have d1: "\<bar>float32 q - q\<bar> \<le> 2 / 2 ^ 24" by (rule float32_error) simp
  have "float32 q * of_int M - of_int n = (float32 q - q) * of_int M" using M(1) by (simp add: q_def left_diff_distrib)
  then have "\<bar>float32 q * of_int M - of_int n\<bar> = \<bar>float32 q - q\<bar> * of_int M" using M(1) by (simp add: abs_mult)
  also have "\<dots> \<le> 2 / 2 ^ 24 * 32768" using d1 M1 by (intro mult_mono) simp_all
  finally have d2: "\<bar>float32 q * of_int M - of_int n\<bar> \<le> 1 / 256" by simp
  then have "\<bar>float32 q * of_int M\<bar> \<le> 65536" using n1 M1 by linarith
  then have "\<bar>float32 (float32 q * of_int M) - float32 q * of_int M\<bar> \<le> 65536 / 2 ^ 24" by (rule float32_error) simp
  then have "\<bar>float32 (float32 q * of_int M) - float32 q * of_int M\<bar> \<le> 1 / 256" by simp
  then have "\<bar>float32 (float32 q * of_int M) - of_int n\<bar> < 1 / 2" using d2 by linarith
  then have "rint (float32 (float32 q * of_int M)) = n" by (rule rint_near)
  then show ?thesis using n by (simp add: quantise_rint q_def)
qed

lemma int_sample:
  assumes M: "0 < M" "M < 2 ^ 15" and n: "- M - 1 \<le> n" "n \<le> M"
  shows "float32 (float32 (of_int n) / float32 (of_int M)) = float32 (of_int n / of_int M)"
  using assms by (simp add: float32_int)

lemma quantise_error:
  assumes M: "127 \<le> M" "M < 2 ^ 15" and x: "\<bar>x\<bar> \<le> 1"
  defines "t \<equiv> quantise M (float32 (x * of_int M))"
  shows "- M - 1 \<le> t" "t \<le> M" "\<bar>float32 (of_int t / of_int M) - x\<bar> \<le> (1 / 2 + of_int M / 2 ^ 24) / of_int M + 1 / 2 ^ 24"
proof -
  define M' where "M' = (of_int M :: real)"
  have M': "127 \<le> M'" "M' < 2 ^ 15" using M by (simp_all add: M'_def)
  have a: "\<bar>x * M'\<bar> \<le> M'" using x M' by (simp add: abs_mult mult_le_cancel_right1)
  then have f: "\<bar>float32 (x * M') - x * M'\<bar> \<le> M' / 2 ^ 24" by (rule float32_error) (use M' in simp)
  have b: "\<bar>x * M'\<bar> < 2 powi (int 23 + 1)" using a M' by simp
  have "float32 (x * M') \<le> of_int M" "of_int (- M) \<le> float32 (x * M')"
    using fl_between_ints(2) [OF b, of "- 149" M] fl_between_ints(1) [OF b, of "- 149" "- M"] a by (simp_all add: M'_def abs_le_iff)
  then have r: "rint (float32 (x * M')) \<le> M" "- M \<le> rint (float32 (x * M'))" by (blast intro: rint_le rint_ge)+
  then have t: "t = rint (float32 (x * M'))" unfolding t_def M'_def by (intro quantise_rint) simp_all
  then show "- M - 1 \<le> t" "t \<le> M" using r by simp_all
  have "\<bar>of_int t - x * M'\<bar> \<le> 1 / 2 + M' / 2 ^ 24" using f rint_error [of "float32 (x * M')"] unfolding t by linarith
  then have "\<bar>of_int t / M' - x\<bar> \<le> (1 / 2 + M' / 2 ^ 24) / M'"
  proof -
    assume h: "\<bar>of_int t - x * M'\<bar> \<le> 1 / 2 + M' / 2 ^ 24"
    have "\<bar>of_int t / M' - x\<bar> = \<bar>of_int t - x * M'\<bar> / M'" using M' by (simp add: abs_if field_simps)
    then show ?thesis using h M' by (simp only:) (rule divide_right_mono, simp_all)
  qed
  moreover have "\<bar>of_int t / M'\<bar> \<le> 1" using r M' unfolding t by (simp add: M'_def abs_le_iff divide_le_eq le_divide_eq minus_divide_left)
  then have "\<bar>float32 (of_int t / M') - of_int t / M'\<bar> \<le> 1 / 2 ^ 24" by (rule float32_error) simp
  ultimately show "\<bar>float32 (of_int t / of_int M) - x\<bar> \<le> (1 / 2 + of_int M / 2 ^ 24) / of_int M + 1 / 2 ^ 24"
    unfolding M'_def by linarith
qed

subsection \<open>Integer samples of 24 bits\<close>

text \<open>
  The largest 32-bit integer is not a \<^verbatim>\<open>float\<close>: decoding divides by \<open>2 ^ 31\<close>, while encoding multiplies by
  \<open>2 ^ 31 - 1\<close>.
\<close>

lemma float32_INT32_MAX: "float32 (of_int INT32_MAX) = 2 ^ 31"
proof -
  have "\<lfloor>log 2 (2147483647 :: real)\<rfloor> = 30" by (rule floor_log2_eqI) simp_all
  then have "last_exponent 23 (- 149) 2147483647 = 7" by (simp add: last_exponent_def)
  moreover have "rint (2147483647 / 128) = 16777216" by (rule rint_near) (simp add: abs_if)
  ultimately show ?thesis by (simp add: fl_def INT32_MAX_def Let_def)
qed

lemma last_bits: "(2::real) powi (- 22) = 1 / 4194304" "(2::real) powi (- 23) = 1 / 8388608"
  by (simp_all add: power_int_def power_divide)

lemma int24_value:
  assumes "\<bar>n\<bar> \<le> 2 ^ 23"
  shows "float32 (float32 (of_int (256 * n)) / float32 (of_int INT32_MAX)) = of_int n / 2 ^ 23"
proof -
  have "in_format 23 (- 149) (of_int (256 * n))" unfolding in_format_def
    by (rule exI [of _ n], rule exI [of _ 8]) (use assms in simp)
  then have "float32 (of_int (256 * n)) = of_int (256 * n)" by (rule fl_exact)
  moreover have "of_int (256 * n) / 2 ^ 31 = of_int n / (2::real) ^ 23" by simp
  moreover have "of_int n / 2 ^ 23 = of_int n * (2::real) powi (- 23)" by (simp add: last_bits)
  then have "in_format 23 (- 149) (of_int n / 2 ^ 23)" unfolding in_format_def
    by (intro exI [of _ n] exI [of _ "- 23"]) (use assms in simp)
  then have "float32 (of_int n / 2 ^ 23) = of_int n / 2 ^ 23" by (rule fl_exact)
  ultimately show ?thesis by (simp only: float32_INT32_MAX)
qed

lemma int24_product: "of_int n / 2 ^ 23 * of_int INT32_MAX = of_int (256 * n) - of_int n / (2::real) ^ 23"
  by (simp add: INT32_MAX_def field_simps)

text \<open>What encoding makes of the value of a decoded sample.\<close>

definition requantise24 :: "int \<Rightarrow> int" where
  "requantise24 n = quantise INT32_MAX (float64 (of_int n / 2 ^ 23 * of_int INT32_MAX))"

lemma requantise24_range:
  assumes "- (2 ^ 23) \<le> n" and "n < 2 ^ 23"
  shows "256 * n - (if n > 0 then 1 else 0) \<le> requantise24 n" "requantise24 n \<le> 256 * n + (if n < 0 then 1 else 0)"
proof -
  define x where "x = of_int (256 * n) - of_int n / (2::real) ^ 23"
  have n: "- 8388608 \<le> (of_int n :: real)" "(of_int n :: real) \<le> 8388607" using assms by simp_all
  have x: "\<bar>x\<bar> < 2 powi (int 52 + 1)" using n by (simp add: x_def abs_if)
  have lo: "of_int (256 * n - (if n > 0 then 1 else 0)) \<le> x" and hi: "x \<le> of_int (256 * n + (if n < 0 then 1 else 0))"
    using n by (auto simp: x_def)
  have r: "256 * n - (if n > 0 then 1 else 0) \<le> rint (float64 x)" "rint (float64 x) \<le> 256 * n + (if n < 0 then 1 else 0)"
    using fl_between_ints(1) [OF x _ lo, of "- 1074"] fl_between_ints(2) [OF x _ hi, of "- 1074"] by (auto intro!: rint_ge rint_le)
  moreover have "requantise24 n = rint (float64 x)"
    unfolding requantise24_def int24_product x_def [symmetric] using r assms
    by (intro quantise_rint) (auto simp: INT32_MAX_def split: if_splits)
  ultimately show "256 * n - (if n > 0 then 1 else 0) \<le> requantise24 n" "requantise24 n \<le> 256 * n + (if n < 0 then 1 else 0)"
    by simp_all
qed

lemma requantise24_exact:
  assumes "0 < n" and "n \<le> 2 ^ 22"
  shows "requantise24 n = 256 * n"
proof -
  define x where "x = of_int (256 * n) - of_int n / (2::real) ^ 23"
  have "x = of_int (n * 2147483647) * 2 powi (- 23)" by (simp add: x_def last_bits)
  moreover have "\<bar>n * 2147483647\<bar> < 2 ^ (52 + 1)" using assms by simp
  ultimately have "in_format 52 (- 1074) x" unfolding in_format_def by (intro exI [of _ "n * 2147483647"] exI [of _ "- 23"]) simp
  then have f: "float64 x = x" by (rule fl_exact)
  have "rint x = 256 * n"
  proof (cases "n = 2 ^ 22")
    case True
    then show ?thesis by (simp add: x_def rint_def Let_def)
  next
    case False
    then have "(of_int n :: real) < 4194304" "0 < (of_int n :: real)" using assms by simp_all
    then show ?thesis by (intro rint_near) (simp add: x_def)
  qed
  then show ?thesis
    unfolding requantise24_def int24_product x_def [symmetric] f using assms by (simp add: quantise_rint INT32_MAX_def)
qed

lemma requantise24_loud:
  assumes "2 ^ 22 + 2 \<le> n" and "n < 2 ^ 23"
  shows "requantise24 n = 256 * n - 1"
proof -
  define x where "x = of_int (256 * n) - of_int n / (2::real) ^ 23"
  have n: "4194306 \<le> (of_int n :: real)" "(of_int n :: real) \<le> 8388607" using assms by simp_all
  let ?a = "256 * n * 4194304 - 2097153"
  have "x \<le> of_int ?a * 2 powi (- 22)" using n by (simp add: x_def last_bits)
  moreover have "\<bar>x\<bar> < 2 powi (- 22 + int 52 + 1)" using n by (simp add: x_def)
  ultimately have "float64 x \<le> of_int ?a * 2 powi (- 22)" by (intro fl_between(2)) simp_all
  then have "float64 x < of_int (256 * n) - 1 / 2" by (simp add: last_bits)
  then have "rint (float64 x) < 256 * n" using rint_error [of "float64 x"] by linarith
  moreover have "requantise24 n = rint (float64 x) \<or> requantise24 n \<le> 256 * n - 1"
    unfolding requantise24_def int24_product x_def [symmetric] quantise_def Let_def using assms calculation by (auto simp: INT32_MAX_def)
  ultimately show ?thesis using requantise24_range(1) [of n] assms by auto
qed

text \<open>The one sample above half of the full level at which the rounding of the product makes up for the difference.\<close>

lemma requantise24_tie: "requantise24 (2 ^ 22 + 1) = 256 * (2 ^ 22 + 1)"
proof -
  define x :: real where "x = of_int (256 * (2 ^ 22 + 1)) - of_int (2 ^ 22 + 1) / 2 ^ 23"
  have x: "x = 1073742079 + 4194303 / 8388608" by (simp add: x_def)
  have "\<lfloor>log 2 x\<rfloor> = 30" by (rule floor_log_eq_powr_iff [THEN iffD2]) (simp_all add: x)
  then have e: "last_exponent 52 (- 1074) x = - 22" by (simp add: last_exponent_def x)
  have "rint (x / 2 powi (- 22)) = 4503600699015168" by (simp add: x rint_def Let_def power_int_minus)
  then have f: "float64 x = 1073742079 + 1 / 2" by (simp add: fl_def e) (simp add: x power_int_minus)
  have "rint (float64 x) = 1073742080" by (simp add: f rint_def Let_def)
  then show ?thesis unfolding requantise24_def int24_product x_def [symmetric] by (simp add: quantise_rint INT32_MAX_def)
qed

subsection \<open>Bytes\<close>

lemma sint_word_of_int:
  assumes "LENGTH('a::len) = Suc k" and "- (2 ^ k) \<le> t" and "t < 2 ^ k"
  shows "sint (word_of_int t :: 'a word) = t"
  using assms by (simp add: signed_of_int signed_take_bit_int_eq_self)

lemma sample_to_int16_bytes:
  "sample_to_int16 bo x = to_bytes_on bo (word_of_int (quantise INT16_MAX (float32 (x * of_int INT16_MAX))) :: u16)"
  by (cases bo) (simp_all add: sample_to_int16_def to_bytes_on_def mem_bytes_def Let_def size_of_def upt_rec)

lemma int16_to_sample_bytes:
  "int16_to_sample bo b = float32 (float32 (of_int (sint (from_bytes_on bo b :: u16))) / float32 (of_int INT16_MAX))"
  by (cases bo) (simp_all add: int16_to_sample_def from_bytes_on_def Let_def size_of_def upt_rec)

lemma length3: "length b = 3 \<longleftrightarrow> (\<exists>x y z. b = [x, y, z])"
  by (auto simp: numeral_3_eq_3 length_Suc_conv)

lemma length4: "length b = 4 \<longleftrightarrow> (\<exists>x y z w. b = [x, y, z, w])"
  by (auto simp: eval_nat_numeral length_Suc_conv)

text \<open>The three highest bytes of a 32-bit integer.\<close>

definition int24_bytes :: "int \<Rightarrow> byte list" where
  "int24_bytes n = rev (le_bytes 3 (nat (n mod 2 ^ 24)))"

lemma sample_to_int24_bytes:
  "sample_to_int24 bo x = int24_bytes (quantise INT32_MAX (float64 (x * of_int INT32_MAX)) div 256)"
proof -
  define t where "t = quantise INT32_MAX (float64 (x * of_int INT32_MAX))"
  define w where "w = (word_of_int t :: u32)"
  have "sample_to_int24 bo x = take 3 (to_bytes_on bo w)"
  proof -
    have "length (mem_bytes bo w) = 4" by (cases bo) (simp_all add: mem_bytes_def Let_def size_of_def)
    then obtain b0 b1 b2 b3 where "mem_bytes bo w = [b0, b1, b2, b3]" by (auto simp: length4)
    then show ?thesis
      by (cases bo) (simp_all add: sample_to_int24_def to_bytes_on_def Let_def size_of_def upt_rec flip: t_def w_def)
  qed
  also have "\<dots> = rev (drop 1 (le_bytes 4 (unat w)))" by (simp add: to_bytes_on_be size_of_def rev_drop)
  also have "\<dots> = rev (le_bytes 3 (unat w div 256))" using le_bytes_Suc [of 3 "unat w"] by simp
  also have "unat w div 256 = nat (t div 256 mod 2 ^ 24)"
  proof -
    have "int (unat w) = t mod 2 ^ 32" by (simp add: w_def uint_word_of_int)
    then have "int (unat w div 256) = t mod 2 ^ 32 div 256" by (simp add: zdiv_int)
    also have "\<dots> = t div 256 mod 2 ^ 24" using zmod_zmult2_eq [of "2 ^ 24" t 256] by simp
    finally show ?thesis by simp
  qed
  finally show ?thesis by (simp add: int24_bytes_def t_def)
qed

lemma int24_to_sample_bytes:
  assumes "- (2 ^ 23) \<le> n" and "n < 2 ^ 23"
  shows "int24_to_sample bo (int24_bytes n) = of_int n / 2 ^ 23"
proof -
  let ?b = "int24_bytes n"
  have l: "length ?b = 3" by (simp add: int24_bytes_def)
  have "int24_to_sample bo ?b = float32 (float32 (of_int (sint (word_of_nat (le_value (0 # rev ?b)) :: u32))) / float32 (of_int INT32_MAX))"
  proof -
    obtain x y z where "?b = [x, y, z]" using l by (auto simp: length3)
    then show ?thesis by (cases bo) (simp_all add: int24_to_sample_def mem_value_def Let_def)
  qed
  also have "le_value (0 # rev ?b) = nat (256 * n mod 2 ^ 32)"
  proof -
    have "nat (n mod 2 ^ 24) mod 256 ^ 3 = nat (n mod 2 ^ 24)" by (simp add: nat_less_iff)
    then have "le_value (0 # rev ?b) = 256 * nat (n mod 2 ^ 24)" by (simp add: int24_bytes_def le_value_bytes)
    also have "\<dots> = nat (256 * (n mod 2 ^ 24))" by (simp add: nat_mult_distrib)
    also have "256 * (n mod 2 ^ 24) = 256 * n mod 2 ^ 32" using mult_mod_right [of 256 n "2 ^ 24"] by simp
    finally show ?thesis .
  qed
  also have "word_of_nat (nat (256 * n mod 2 ^ 32)) = (word_of_int (256 * n mod 2 ^ 32) :: u32)" by (simp add: of_nat_nat)
  also have "\<dots> = word_of_int (256 * n)" by (rule word_of_int_eq_iff [THEN iffD2]) (simp add: take_bit_eq_mod)
  also have "sint (word_of_int (256 * n) :: u32) = 256 * n" by (rule sint_word_of_int [where k = 31]) (use assms in simp_all)
  also have "float32 (float32 (of_int (256 * n)) / float32 (of_int INT32_MAX)) = of_int n / 2 ^ 23"
    by (rule int24_value) (use assms in simp)
  finally show ?thesis .
qed

lemma int24_bytes_cover:
  assumes "length b = 3"
  shows "\<exists>n. - (2 ^ 23) \<le> n \<and> n < 2 ^ 23 \<and> b = int24_bytes n"
proof -
  define v where "v = le_value (rev b)"
  have v: "v < 2 ^ 24" using le_value_less [of "rev b"] assms by (simp add: v_def)
  define n where "n = (if v < 2 ^ 23 then int v else int v - 2 ^ 24)"
  have "n mod 2 ^ 24 = int v" using v by (auto simp: n_def)
  then have "int24_bytes n = rev (le_bytes (length (rev b)) v)" using assms by (simp add: int24_bytes_def)
  then have "b = int24_bytes n" by (simp only: v_def le_bytes_value rev_rev_ident)
  moreover have "- (2 ^ 23) \<le> n" "n < 2 ^ 23" using v by (auto simp: n_def)
  ultimately show ?thesis by blast
qed

end
