(* ===== verification/Pcm_Codec.thy ===== *)
theory Pcm_Codec
  imports Pcm_Quality
begin

text \<open>
  The PCM codec as a whole: what a set-up establishes, and that a block of samples which is encoded on
  one machine is decoded on another one, of either byte order, with the error of its sample format.
\<close>

subsection \<open>Readers and writers of samples\<close>

definition sample_size_ok :: "int \<Rightarrow> bool" where
  "sample_size_ok n \<longleftrightarrow> n \<in> {1, 2, 3, 4, 8}"

definition sample_writer :: "byte_order \<Rightarrow> int \<Rightarrow> real \<Rightarrow> byte list" where
  "sample_writer bo n =
     (if n = 1 then sample_to_int8 else if n = 2 then sample_to_int16 bo else if n = 3 then sample_to_int24 bo
      else if n = 4 then sample_to_float32 bo else sample_to_float64 bo)"

definition sample_reader :: "byte_order \<Rightarrow> int \<Rightarrow> byte list \<Rightarrow> real" where
  "sample_reader bo n =
     (if n = 1 then int8_to_sample else if n = 2 then int16_to_sample bo else if n = 3 then int24_to_sample bo
      else if n = 4 then float32_to_sample bo else float64_to_sample bo)"

text \<open>The error of a format for samples between -1 and 1.\<close>

definition pcm_error :: "int \<Rightarrow> real" where
  "pcm_error n = (if n = 1 then 1 / 250 else if n = 2 then 1 / 65000 else if n = 3 then 1 / 2 ^ 22 else 0)"

lemma bytes_any_host:
  "8 dvd LENGTH('a::len) \<Longrightarrow> from_bytes_on bo' (to_bytes_on bo (w :: 'a word)) = w"
  using from_to_bytes [where rest = "[]"] by simp

lemma sample_writer_length: "sample_size_ok n \<Longrightarrow> length (sample_writer bo n x) = nat n"
  by (auto simp: sample_size_ok_def sample_writer_def sample_to_int8_def sample_to_int16_bytes sample_to_int24_bytes
    int24_bytes_def sample_to_float32_def sample_to_float64_def size_of_def)

lemma from_bytes_on_append:
  "size_of TYPE('a word) \<le> length b \<Longrightarrow> from_bytes_on bo (b @ rest) = (from_bytes_on bo b :: 'a::len word)"
  by (simp add: from_bytes_on_be)

lemma sample_reader_append:
  assumes "sample_size_ok n" and "length b = nat n"
  shows "sample_reader bo n (b @ rest) = sample_reader bo n b"
  using assms unfolding sample_size_ok_def sample_reader_def
  by (auto simp: int8_to_sample_def hd_append int16_to_sample_bytes float32_to_sample_def float64_to_sample_def
    from_bytes_on_append size_of_def int24_to_sample_def length3 split: byte_order.split)

subsection \<open>One sample\<close>

lemma int8_transfer: "\<bar>x\<bar> \<le> 1 \<Longrightarrow> \<bar>int8_to_sample (sample_to_int8 x) - x\<bar> \<le> 1 / 250"
proof -
  assume x: "\<bar>x\<bar> \<le> 1"
  define t where "t = quantise 127 (float32 (x * of_int 127))"
  have t: "- 127 - 1 \<le> t" "t \<le> 127" "\<bar>float32 (of_int t / of_int 127) - x\<bar> \<le> (1 / 2 + of_int 127 / 2 ^ 24) / of_int 127 + 1 / 2 ^ 24"
    unfolding t_def by (rule quantise_error; use x in simp)+
  have "sint (word_of_int t :: byte) = t" by (rule sint_word_of_int [where k = 7]) (use t in simp_all)
  then have "int8_to_sample (sample_to_int8 x) = float32 (of_int t / of_int 127)"
    using int_sample [of 127 t] t by (simp add: int8_to_sample_def sample_to_int8_def INT8_MAX_def t_def)
  then show ?thesis using t(3) by simp
qed

lemma int16_transfer: "\<bar>x\<bar> \<le> 1 \<Longrightarrow> \<bar>int16_to_sample bo' (sample_to_int16 bo x) - x\<bar> \<le> 1 / 65000"
proof -
  assume x: "\<bar>x\<bar> \<le> 1"
  define t where "t = quantise 32767 (float32 (x * of_int 32767))"
  have t: "- 32767 - 1 \<le> t" "t \<le> 32767"
    "\<bar>float32 (of_int t / of_int 32767) - x\<bar> \<le> (1 / 2 + of_int 32767 / 2 ^ 24) / of_int 32767 + 1 / 2 ^ 24"
    unfolding t_def by (rule quantise_error; use x in simp)+
  have "sint (word_of_int t :: u16) = t" by (rule sint_word_of_int [where k = 15]) (use t in simp_all)
  then have "int16_to_sample bo' (sample_to_int16 bo x) = float32 (of_int t / of_int 32767)"
    using int_sample [of 32767 t] t by (simp add: int16_to_sample_bytes sample_to_int16_bytes bytes_any_host INT16_MAX_def t_def)
  then show ?thesis using t(3) by simp
qed

lemma int24_transfer: "\<bar>x\<bar> \<le> 1 \<Longrightarrow> \<bar>int24_to_sample bo' (sample_to_int24 bo x) - x\<bar> \<le> 1 / 2 ^ 22"
proof -
  assume x: "\<bar>x\<bar> \<le> 1"
  define y where "y = x * of_int INT32_MAX"
  define t where "t = quantise INT32_MAX (float64 y)"
  have y: "\<bar>y\<bar> \<le> 2147483647" using x by (simp add: y_def INT32_MAX_def abs_mult)
  then have "float64 y \<le> of_int 2147483647" "of_int (- 2147483647) \<le> float64 y" "\<bar>float64 y - y\<bar> \<le> 1 / 4"
  proof -
    have b: "\<bar>y\<bar> < 2 powi (int 52 + 1)" using y by simp
    show "float64 y \<le> of_int 2147483647" by (rule fl_between_ints(2) [OF b]) (use y in simp_all)
    show "of_int (- 2147483647) \<le> float64 y" by (rule fl_between_ints(1) [OF b]) (use y in simp_all)
    have "\<bar>float64 y - y\<bar> \<le> max (\<bar>y\<bar> / 2 ^ (52 + 1)) (2 powi (- 1074 - 1))" by (rule fl_error)
    also have "\<dots> \<le> 1 / 4"
    proof (rule max.boundedI)
      have "(2::real) powi (- 1074 - 1) \<le> 2 powi (- 2)" by (rule power_int_increasing) simp_all
      then show "(2::real) powi (- 1074 - 1) \<le> 1 / 4" by (simp add: power_int_def power_divide)
    qed (use y in simp)
    finally show "\<bar>float64 y - y\<bar> \<le> 1 / 4" .
  qed
  then have r: "rint (float64 y) \<le> 2147483647" "- 2147483647 \<le> rint (float64 y)" "\<bar>of_int (rint (float64 y)) - y\<bar> \<le> 3 / 4"
    using rint_error [of "float64 y"] by (blast intro: rint_le rint_ge, blast intro: rint_le rint_ge, linarith)
  then have t: "t = rint (float64 y)" unfolding t_def by (intro quantise_rint) (simp_all add: INT32_MAX_def)
  define n where "n = t div 256"
  have n12: "256 * n \<le> t" "t \<le> 256 * n + 255" unfolding n_def by presburger+
  then have n: "256 * n \<le> t" "t \<le> 256 * n + 255" "- (2 ^ 23) \<le> n" "n < 2 ^ 23" using r(1,2) unfolding t by simp_all
  have v: "int24_to_sample bo' (sample_to_int24 bo x) = of_int n / 2 ^ 23"
    using int24_to_sample_bytes [OF n(3,4)] by (simp add: sample_to_int24_bytes n_def t_def y_def)
  have "256 * of_int n \<le> (of_int t :: real)" "(of_int t :: real) \<le> 256 * of_int n + 255"
    using n(1,2) by linarith+
  moreover have "\<bar>of_int t - x * 2147483647\<bar> \<le> 3 / 4" using r(3) by (simp add: t y_def INT32_MAX_def)
  ultimately have "\<bar>256 * of_int n - 2147483648 * x\<bar> \<le> 257" using x by linarith
  moreover have "(2::real) ^ 23 = 8388608" "(2::real) ^ 22 = 4194304" by simp_all
  ultimately show ?thesis by (simp only: v abs_le_iff) linarith
qed

lemma sample_transfer:
  assumes "sample_size_ok n" and "is_float x" and "\<bar>x\<bar> \<le> 1"
  shows "\<bar>sample_reader bo' n (sample_writer bo n x) - x\<bar> \<le> pcm_error n"
proof -
  have f: "float32_to_sample bo' (sample_to_float32 bo x) = x"
    by (simp add: float32_to_sample_def sample_to_float32_def bytes_any_host
      float_value_bits assms(2))
  have "in_format 52 (- 1074) x" using assms(2) in_format_wider [of 23 "- 149" x 52 "- 1074"] by (simp add: is_float_def)
  then have "double_value (double_bits x) = x" by (rule double_value_bits) (use assms(2) in \<open>simp add: is_float_def\<close>)
  then have d: "float64_to_sample bo' (sample_to_float64 bo x) = x"
    using fl_exact [of 23 "- 149" x] assms(2)
    by (simp add: float64_to_sample_def sample_to_float64_def bytes_any_host is_float_def)
  show ?thesis
    using assms(1) int8_transfer [OF assms(3)] int16_transfer [OF assms(3)] int24_transfer [OF assms(3)] f d
    by (auto simp: sample_size_ok_def sample_reader_def sample_writer_def pcm_error_def)
qed

text \<open>Decoding and encoding again.\<close>

lemma int8_again: "length b = 1 \<Longrightarrow> sample_to_int8 (int8_to_sample b) = b"
proof -
  assume "length b = 1"
  then obtain c where b: "b = [c]" by (auto simp: length_Suc_conv)
  have "- 128 \<le> sint c" "sint c < 128" using sint_greater_eq [of c] sint_less [of c] by simp_all
  then show ?thesis using int_sample [of 127 "sint c"] requantise [of 127 "sint c"]
    by (simp add: b int8_to_sample_def sample_to_int8_def INT8_MAX_def)
qed

lemma int16_again: "length b = 2 \<Longrightarrow> sample_to_int16 bo (int16_to_sample bo b) = b"
proof -
  assume b: "length b = 2"
  let ?c = "from_bytes_on bo b :: u16"
  have "- 32768 \<le> sint ?c" "sint ?c < 32768" using sint_greater_eq [of ?c] sint_less [of ?c] by simp_all
  then show ?thesis using int_sample [of 32767 "sint ?c"] requantise [of 32767 "sint ?c"] to_from_bytes [of b bo bo, where 'a = 16] b
    by (simp add: int16_to_sample_bytes sample_to_int16_bytes INT16_MAX_def)
qed

lemma sample_again:
  assumes "n = 1 \<or> n = 2" and "length b = nat n"
  shows "sample_writer bo n (sample_reader bo n b) = b"
  using assms int8_again [of b] int16_again [of b bo] by (auto simp: sample_writer_def sample_reader_def)

subsection \<open>Blocks\<close>

definition codec_ok :: "PcmCodec \<Rightarrow> bool" where
  "codec_ok c \<longleftrightarrow> 0 < pcm_numChannels c \<and> pcm_numChannels c \<le> 255 \<and> sample_size_ok (pcm_sampleSize c)"

definition block_bytes :: "PcmCodec \<Rightarrow> int \<Rightarrow> int" where
  "block_bytes c frameSize = frameSize * pcm_numChannels c * pcm_sampleSize c"

lemma block_products:
  assumes "codec_ok c" and "0 \<le> fs" and "block_bytes c fs < 2 ^ 31"
  shows "int32_mult fs (pcm_numChannels c) = Some (fs * pcm_numChannels c)"
    "int32_mult (fs * pcm_numChannels c) (pcm_sampleSize c) = Some (block_bytes c fs)"
    "0 \<le> fs * pcm_numChannels c" "0 \<le> block_bytes c fs"
proof -
  have p: "1 \<le> pcm_sampleSize c" using assms(1) by (auto simp: codec_ok_def sample_size_ok_def)
  show a: "0 \<le> fs * pcm_numChannels c" using assms(1,2) by (simp add: codec_ok_def)
  then show b: "0 \<le> block_bytes c fs" using p by (simp add: block_bytes_def)
  have "fs * pcm_numChannels c * 1 \<le> block_bytes c fs" unfolding block_bytes_def using a p by (intro mult_left_mono)
  then show "int32_mult fs (pcm_numChannels c) = Some (fs * pcm_numChannels c)"
    "int32_mult (fs * pcm_numChannels c) (pcm_sampleSize c) = Some (block_bytes c fs)"
    using a b assms(3) by (simp_all add: int32_mult_def) (simp add: block_bytes_def)
qed

lemma sdiv_nonneg: "0 \<le> a \<Longrightarrow> 0 < b \<Longrightarrow> a sdiv b = a div b" for a b :: int
  by (cases "a = 0") (simp_all add: signed_divide_int_def)

lemma encode_block:
  assumes "codec_ok c" and "0 \<le> fs" and "block_bytes c fs < 2 ^ 31" and "block_bytes c fs \<le> outSize"
    and "int (length xs) = fs * pcm_numChannels c"
  shows "PcmCodec_encode bo c xs fs outSize = Some (Inr (concat (map (sample_writer bo (pcm_sampleSize c)) xs)))"
proof -
  have "nat (fs * pcm_numChannels c) = length xs" using assms(5) by simp
  moreover have "pcm_sampleSize c \<in> {1, 2, 3, 4, 8}" using assms(1) by (simp add: codec_ok_def sample_size_ok_def)
  ultimately show ?thesis
    using block_products(1,2) [OF assms(1-3)] assms(4)
    by (auto simp: PcmCodec_encode_def samples_to_bytes_def sample_writer_def)
qed

lemma blob_to_samples_concat:
  assumes "\<And>x rest. x \<in> set bs \<Longrightarrow> length x = n \<and> f (x @ rest) = g x"
  shows "blob_to_samples f n (length bs) (concat bs) = Some (map g bs)"
  using assms by (induction bs) auto

lemma decode_block:
  assumes "codec_ok c" and "0 \<le> fs" and "block_bytes c fs < 2 ^ 31" and "int (length bs) = fs * pcm_numChannels c"
    and "\<forall>x \<in> set bs. length x = nat (pcm_sampleSize c)"
  shows "PcmCodec_decode bo c (Some (concat bs)) (int (length (concat bs))) fs =
    Some (Inr (map (sample_reader bo (pcm_sampleSize c)) bs, fs))"
proof -
  define n where "n = pcm_sampleSize c"
  have n: "n \<in> {1, 2, 3, 4, 8}" using assms(1) by (simp add: n_def codec_ok_def sample_size_ok_def)
  have "length (concat bs) = length bs * nat n" using assms(5)
    by (simp add: length_concat n_def sum_list_triv cong: map_cong)
  then have q: "int (length (concat bs)) sdiv n = fs * pcm_numChannels c" using assms(4) n by (auto simp: sdiv_nonneg)
  have ch: "0 < pcm_numChannels c" using assms(1) by (simp add: codec_ok_def)
  have f: "(fs * pcm_numChannels c) sdiv pcm_numChannels c = fs"
    using ch assms(2) by (simp add: sdiv_nonneg)
  have r: "blob_to_samples (sample_reader bo n) (nat n) (nat (fs * pcm_numChannels c)) (concat bs) = Some (map (sample_reader bo n) bs)"
  proof -
    have "nat (fs * pcm_numChannels c) = length bs" using assms(4) by simp
    moreover have "length x = nat n \<and> sample_reader bo n (x @ rest) = sample_reader bo n x" if "x \<in> set bs" for x rest
      using assms(5) that n sample_reader_append [of n x bo rest] by (auto simp: sample_size_ok_def n_def)
    ultimately show ?thesis by (simp add: blob_to_samples_concat)
  qed
  show ?thesis
    using n r q f ch block_products(1) [OF assms(1-3)]
    by (auto simp: PcmCodec_decode_def Let_def sample_reader_def simp flip: n_def)
qed

subsection \<open>Properties\<close>

text \<open>
  C17. The samples of a block, between -1 and 1, that are encoded on one machine are decoded on another
  machine: the encoder fits them into the announced number of bytes, and the decoder returns as many samples, each with at
  most the error of the sample format (none for the floating-point formats).
\<close>

theorem pcm_transfer:
  assumes "codec_ok c" and "0 \<le> fs" and "block_bytes c fs < 2 ^ 31" and "block_bytes c fs \<le> outSize"
    and "int (length xs) = fs * pcm_numChannels c" and "\<forall>x \<in> set xs. is_float x \<and> \<bar>x\<bar> \<le> 1"
  shows "\<exists>b ys. PcmCodec_encode bo c xs fs outSize = Some (Inr b) \<and> int (length b) = block_bytes c fs \<and>
    PcmCodec_decode bo' c (Some b) (int (length b)) fs = Some (Inr (ys, fs)) \<and> length ys = length xs \<and>
    (\<forall>i < length xs. \<bar>ys ! i - xs ! i\<bar> \<le> pcm_error (pcm_sampleSize c))"
proof -
  let ?n = "pcm_sampleSize c"
  let ?bs = "map (sample_writer bo ?n) xs"
  have n: "sample_size_ok ?n" "0 < ?n" using assms(1) by (auto simp: codec_ok_def sample_size_ok_def)
  have l: "\<forall>b \<in> set ?bs. length b = nat ?n" using n(1) by (auto simp: sample_writer_length)
  have "length (concat ?bs) = length xs * nat ?n" using l by (simp add: length_concat sum_list_triv cong: map_cong)
  then have "int (length (concat ?bs)) = block_bytes c fs" using n(2) by (simp add: block_bytes_def assms(5))
  moreover have "PcmCodec_decode bo' c (Some (concat ?bs)) (int (length (concat ?bs))) fs = Some (Inr (map (sample_reader bo' ?n) ?bs, fs))"
    by (rule decode_block [OF assms(1-3)]) (use assms(5) l in simp_all)
  moreover have "\<forall>i < length xs. \<bar>map (sample_reader bo' ?n) ?bs ! i - xs ! i\<bar> \<le> pcm_error ?n"
    using assms(6) sample_transfer [OF n(1)] by simp
  ultimately show ?thesis using encode_block [OF assms(1-5)] by auto
qed

lemma is_float_simps: "is_float 0" "is_float 1" "is_float (1 / 2)"
proof -
  have "in_format 23 (- 149) 0" "in_format 23 (- 149) 1" "in_format 23 (- 149) (1 / 2)" unfolding in_format_def
    by (rule exI [of _ 0], rule exI [of _ 0], simp, rule exI [of _ 1], rule exI [of _ 0], simp,
      rule exI [of _ 1], rule exI [of _ "- 1"], simp add: power_int_minus)
  then show "is_float 0" "is_float 1" "is_float (1 / 2)" by (simp_all add: is_float_def)
qed

theorem pcm_transfer_witness:
  "\<exists>b ys. PcmCodec_encode LITTLE_ENDIAN \<lparr> pcm_numChannels = 1, pcm_sampleSize = 2 \<rparr> [1 / 2, 1] 2 100 = Some (Inr b) \<and>
    int (length b) = 4 \<and>
    PcmCodec_decode BIG_ENDIAN \<lparr> pcm_numChannels = 1, pcm_sampleSize = 2 \<rparr> (Some b) (int (length b)) 2 = Some (Inr (ys, 2)) \<and>
    length ys = 2 \<and> (\<forall>i < 2. \<bar>ys ! i - [1 / 2, 1] ! i\<bar> \<le> 1 / 65000)"
  using pcm_transfer [of "\<lparr> pcm_numChannels = 1, pcm_sampleSize = 2 \<rparr>" 2 100 "[1 / 2, 1]" LITTLE_ENDIAN BIG_ENDIAN]
  by (simp add: codec_ok_def sample_size_ok_def block_bytes_def is_float_simps pcm_error_def eval_nat_numeral)

text \<open>
  C26. Decoding a block of 8-bit or 16-bit samples and encoding the result again gives the same bytes: the rounding
  of the conversions to floating-point numbers and back never changes a sample.
\<close>

theorem pcm_generations:
  assumes "codec_ok c" and "pcm_sampleSize c = 1 \<or> pcm_sampleSize c = 2" and "0 \<le> fs" and "block_bytes c fs < 2 ^ 31"
    and "int (length b) = block_bytes c fs" and "block_bytes c fs \<le> outSize"
  shows "\<exists>ys. PcmCodec_decode bo c (Some b) (int (length b)) fs = Some (Inr (ys, fs)) \<and>
    PcmCodec_encode bo c ys fs outSize = Some (Inr b)"
proof -
  let ?n = "pcm_sampleSize c"
  have n: "0 < nat ?n" using assms(2) by auto
  define k where "k = nat (fs * pcm_numChannels c)"
  have k: "int k = fs * pcm_numChannels c" using block_products(3) [OF assms(1,3,4)] by (simp add: k_def)
  have "int (length b) = int (nat ?n * k)" using assms(2,5) k by (auto simp: block_bytes_def)
  then have b: "length b = k * nat ?n" by (simp only: of_nat_eq_iff mult.commute)
  obtain bs where bs: "b = concat bs" "length bs = k" "\<forall>x \<in> set bs. length x = nat ?n"
    using b
  proof (induction k arbitrary: b thesis)
    case (Suc k)
    obtain bs where "drop (nat ?n) b = concat bs" "length bs = k" "\<forall>x \<in> set bs. length x = nat ?n"
      by (rule Suc.IH [of "drop (nat ?n) b"]) (use Suc.prems(2) in auto)
    then show ?case using Suc.prems(2) by (intro Suc.prems(1) [of "take (nat ?n) b # bs"]) (auto, metis append_take_drop_id)
  qed auto
  let ?ys = "map (sample_reader bo ?n) bs"
  have "PcmCodec_decode bo c (Some b) (int (length b)) fs = Some (Inr (?ys, fs))"
    unfolding bs(1) by (rule decode_block [OF assms(1,3,4)]) (use bs k in simp_all)
  moreover have "map (sample_writer bo ?n) ?ys = bs" using bs(3) sample_again [OF assms(2)] by (simp add: map_idI)
  then have "PcmCodec_encode bo c ?ys fs outSize = Some (Inr b)"
    using encode_block [OF assms(1,3,4,6), of ?ys bo] k bs by simp
  ultimately show ?thesis by blast
qed

theorem pcm_generations_witness:
  "\<exists>ys. PcmCodec_decode LITTLE_ENDIAN \<lparr> pcm_numChannels = 1, pcm_sampleSize = 2 \<rparr> (Some [0x80, 0, 0x12, 0x34]) 4 2 = Some (Inr (ys, 2)) \<and>
    PcmCodec_encode LITTLE_ENDIAN \<lparr> pcm_numChannels = 1, pcm_sampleSize = 2 \<rparr> ys 2 4 = Some (Inr [0x80, 0, 0x12, 0x34])"
  using pcm_generations [of "\<lparr> pcm_numChannels = 1, pcm_sampleSize = 2 \<rparr>" 2 "[0x80, 0, 0x12, 0x34]" 4 LITTLE_ENDIAN]
  by (simp add: codec_ok_def sample_size_ok_def block_bytes_def)

text \<open>
  With 24-bit samples this only holds up to half of the full level: every positive sample of more than \<open>2 ^ 22 + 1\<close> steps
  loses one step, since decoding divides by a larger number than the one that encoding multiplies with. All other
  samples come back unchanged; at \<open>2 ^ 22 + 1\<close> itself the rounding of the product makes up for the difference.
\<close>

theorem int24_generation_loss:
  assumes "- (2 ^ 23) \<le> n" and "n < 2 ^ 23"
  shows "sample_to_int24 bo (int24_to_sample bo (int24_bytes n)) = int24_bytes (if n \<le> 2 ^ 22 + 1 then n else n - 1)"
proof -
  have s: "sample_to_int24 bo (int24_to_sample bo (int24_bytes n)) = int24_bytes (requantise24 n div 256)"
    by (simp only: int24_to_sample_bytes [OF assms] sample_to_int24_bytes requantise24_def)
  consider "n \<le> 0" | "0 < n" "n \<le> 2 ^ 22" | "n = 2 ^ 22 + 1" | "2 ^ 22 + 2 \<le> n" by linarith
  then show ?thesis
  proof cases
    case 1
    then have "requantise24 n div 256 = n" using requantise24_range [OF assms] by (auto split: if_splits)
    then show ?thesis using s 1 by simp
  next
    case 2
    then show ?thesis using s requantise24_exact [of n] by simp
  next
    case 3
    then show ?thesis using s requantise24_tie by simp
  next
    case 4
    have "(256 * n - 1) div 256 = n - 1" by (rule int_div_pos_eq [of _ _ _ 255]) simp_all
    then show ?thesis using s 4 requantise24_loud [OF 4 assms(2)] by simp
  qed
qed

theorem int24_generation_loss_witness:
  "sample_to_int24 LITTLE_ENDIAN (int24_to_sample LITTLE_ENDIAN (int24_bytes 6000000)) = int24_bytes 5999999"
  using int24_generation_loss [of 6000000 LITTLE_ENDIAN] by simp

text \<open>
  C27. Setting up a codec with any format of the right size and name makes it usable, with the corrected number of
  channels and the size of a sample; only the bit depth that the validation should have rejected is
  a failed assertion.
\<close>

theorem pcm_setup:
  assumes "AOO_PCM_STRUCT_SIZE \<le> structSize fmt" and "codecName fmt = ''pcm''"
  shows "(case PcmCodec_setup fmt codec of
      None \<Rightarrow> bitDepth fmt = kAooPcmBitDepthSize
    | Some (Inl e) \<Rightarrow> False
    | Some (Inr (fmt', codec')) \<Rightarrow> codec_ok codec' \<and> pcm_numChannels codec' = numChannels fmt' \<and> 0 < blockSize fmt' \<and>
        0 < sampleRate fmt' \<and> bytes_per_sample (bitDepth fmt') = Some (pcm_sampleSize codec'))"
proof -
  obtain f where f: "validate_format fmt = Some f" "0 < blockSize f" "0 < sampleRate f" "0 < numChannels f" "numChannels f \<le> 255"
    "bitDepth f = (if bitDepth fmt < 0 \<or> bitDepth fmt > kAooPcmBitDepthSize then kAooPcmFloat32 else bitDepth fmt)"
    using assms by (simp add: validate_format_def Let_def)
  show ?thesis
  proof (cases "bytes_per_sample (bitDepth f)")
    case None
    then have "bitDepth f = kAooPcmBitDepthSize" using f(6)
      by (auto simp: bytes_per_sample_def bit_depth_defs split: if_splits)
    then show ?thesis using f None by (auto simp: PcmCodec_setup_def bit_depth_defs split: if_splits)
  next
    case (Some n)
    then have "sample_size_ok n" by (auto simp: bytes_per_sample_def sample_size_ok_def split: if_splits)
    then show ?thesis using f Some by (simp add: PcmCodec_setup_def codec_ok_def)
  qed
qed

definition ex_pcm_format :: AooFormatPcm where
  "ex_pcm_format = \<lparr> numChannels = 0, sampleRate = 48000, blockSize = 64, codecName = ''pcm'', structSize = 52, bitDepth = 1 \<rparr>"

theorem pcm_setup_witness:
  "(case PcmCodec_setup ex_pcm_format PcmCodec_new of
      None \<Rightarrow> bitDepth ex_pcm_format = kAooPcmBitDepthSize
    | Some (Inl e) \<Rightarrow> False
    | Some (Inr (fmt', codec')) \<Rightarrow> codec_ok codec' \<and> pcm_numChannels codec' = numChannels fmt' \<and> 0 < blockSize fmt' \<and>
        0 < sampleRate fmt' \<and> bytes_per_sample (bitDepth fmt') = Some (pcm_sampleSize codec'))"
  by (rule pcm_setup) (simp_all add: ex_pcm_format_def AOO_PCM_STRUCT_SIZE_def kAooCodecNameMaxSize_def)

text \<open>The extension of a format is read as it was written.\<close>

lemma pcm_format_transfer:
  assumes "AOO_PCM_STRUCT_SIZE \<le> structSize f" and "- (2 ^ 31) \<le> bitDepth f" and "bitDepth f < 2 ^ 31"
    and "AOO_PCM_STRUCT_SIZE \<le> fmtsize"
  shows "\<exists>b. serialize f (Some n) (Some 4) = Inr (4, Some b) \<and>
    deserialize b 4 (Some g) (Some fmtsize) = Inr (AOO_PCM_STRUCT_SIZE, Some (g\<lparr> bitDepth := bitDepth f \<rparr>))"
  using assms sint_word_of_int [of 31 "bitDepth f", where 'a = 32] bytes_any_host [of LITTLE_ENDIAN LITTLE_ENDIAN, where 'a = 32]
  by (simp add: serialize_def deserialize_def)

end
