(* ===== verification/Sink_Invariant.thy ===== *)
theory Sink_Invariant
  imports Stream_Sink
begin

text \<open>
  The invariant of a source description in the sink, and its preservation by the operations of the
  network thread and of the audio thread.
\<close>

subsection \<open>Frames in the packet queue\<close>

definition packet_frames :: "net_packet \<Rightarrow> nat list" where
  "packet_frames d = (case dp_frame (np_packet d) of None \<Rightarrow> [] | Some p \<Rightarrow> [p])"

definition queue_frames :: "net_packet list \<Rightarrow> nat list" where
  "queue_frames q = concat (map packet_frames q)"

text \<open>
  A packet of the source \<open>S\<close>: it announces the sizes of the source's block, which has frames just when it
  has bytes, and its frame number is one of the frames. (The payload is compared where it is: in the packet,
  or in the frame.)
\<close>

definition packet_shape :: "block_source \<Rightarrow> data_packet \<Rightarrow> bool" where
  "packet_shape S p \<longleftrightarrow> 0 \<le> dp_sequence p \<and> dp_sequence p < INT32_MAX \<and>
     announces S p \<and> dp_num_frames p < 2 ^ 15 \<and> (0 < dp_total_size p \<longleftrightarrow> 0 < dp_num_frames p) \<and>
     (0 < dp_num_frames p \<longrightarrow> dp_frame_index p < dp_num_frames p) \<and>
     (0 < dp_size p \<longrightarrow> 0 < dp_num_frames p) \<and> 0 \<le> dp_channel p \<and> dp_channel p < 2 ^ 15"

definition packet_fits :: "block_source \<Rightarrow> data_packet \<Rightarrow> bool" where
  "packet_fits S p \<longleftrightarrow> packet_shape S p \<and> 0 < double_value (dp_samplerate p)"

lemmas packet_fits_defs = packet_fits_def packet_shape_def

definition frame_of :: "block_source \<Rightarrow> data_packet \<Rightarrow> byte list" where
  "frame_of S p = chunk S (dp_sequence p) (dp_frame_index p)"

definition queued_ok :: "block_source \<Rightarrow> int \<Rightarrow> frame_heap \<Rightarrow> net_packet \<Rightarrow> bool" where
  "queued_ok S sid h d \<longleftrightarrow> (dp_frame (np_packet d) \<noteq> None \<longleftrightarrow> 0 < dp_size (np_packet d)) \<and>
     (np_stream_id d = sid \<longrightarrow> packet_fits S (np_packet d) \<and>
        (\<forall>f \<in> set (packet_frames d). payload h f = frame_of S (np_packet d)))"

definition resampler_ready :: "dynamic_resampler \<Rightarrow> bool" where
  "resampler_ready rs \<longleftrightarrow>
     (if rs_bypass rs then rs_method rs = method_none
      else (\<exists>s W R. streams rs s W R) \<and> 0 < step_size rs \<and> (rs_method rs = method_skip \<longrightarrow> rs_fixed_sr rs))"

definition frames_inv :: "block_source \<Rightarrow> nat set \<Rightarrow> 'd source_desc \<Rightarrow> bool" where
  "frames_inv S F sd \<longleftrightarrow> jinv S F (sd_jitter_buffer sd) (sd_frame_allocator sd) \<and> resampler_ready (sd_resampler sd)"

definition format_ok :: "AooFormat \<Rightarrow> bool" where
  "format_ok fmt \<longleftrightarrow> 0 < numChannels fmt \<and> 0 < sampleRate fmt \<and> sampleRate fmt < 2 ^ 31 \<and> 0 < blockSize fmt"

definition rs_shape :: "dynamic_resampler \<Rightarrow> bool \<times> bool \<times> int" where
  "rs_shape rs = (rs_bypass rs, rs_fixed_sr rs, rs_nchannels rs)"

definition setup_of :: "dynamic_resampler \<Rightarrow> int \<Rightarrow> int \<Rightarrow> (bool \<times> bool \<times> int) \<times> int \<times> int" where
  "setup_of rs n c = (rs_shape rs, n, c)"

text \<open>
  A format is set, the resampler has been set up for it, the buffering depth is positive, and the first
  output channel is not negative.
\<close>

definition format_set :: "AooFormat option \<Rightarrow> (bool \<times> bool \<times> int) \<times> int \<times> int \<Rightarrow> bool" where
  "format_set f su \<longleftrightarrow> (\<exists>fmt. f = Some fmt \<and> format_ok fmt \<and>
     (case su of ((bypass, fixed_sr, n), blocks, chn) \<Rightarrow> (bypass \<or> n = numChannels fmt) \<and> 1 \<le> blocks \<and> 0 \<le> chn))"

definition sink_inv :: "block_source \<Rightarrow> 'd source_desc \<Rightarrow> bool" where
  "sink_inv S sd \<longleftrightarrow> frames_inv S (set (queue_frames (sd_packet_queue sd))) sd \<and>
     distinct (queue_frames (sd_packet_queue sd)) \<and>
     (\<forall>d \<in> set (sd_packet_queue sd). queued_ok S (sd_stream_id sd) (heap (sd_frame_allocator sd)) d) \<and>
     (sd_decoder sd \<noteq> None \<longrightarrow> format_set (sd_format sd) (setup_of (sd_resampler sd) (sd_latency_blocks sd) (sd_channel sd)))"

text \<open>What the operations on the jitter buffer leave alone.\<close>

definition kept :: "nat set \<Rightarrow> 'd source_desc \<Rightarrow> 'd source_desc \<Rightarrow> bool" where
  "kept F sd sd' \<longleftrightarrow> (\<forall>a \<in> F. payload (heap (sd_frame_allocator sd')) a = payload (heap (sd_frame_allocator sd)) a) \<and>
     sd_packet_queue sd' = sd_packet_queue sd \<and> sd_stream_id sd' = sd_stream_id sd \<and>
     sd_decoder sd' = sd_decoder sd \<and> sd_format sd' = sd_format sd \<and>
     setup_of (sd_resampler sd') (sd_latency_blocks sd') (sd_channel sd') = setup_of (sd_resampler sd) (sd_latency_blocks sd) (sd_channel sd) \<and>
     jitter_capacity (sd_jitter_buffer sd') = jitter_capacity (sd_jitter_buffer sd)"

lemma kept_refl [simp]: "kept F sd sd"
  by (simp add: kept_def)

lemma kept_trans: "kept F sd sd' \<Longrightarrow> kept F sd' sd'' \<Longrightarrow> kept F sd sd''"
  by (simp add: kept_def)

lemma kept_mono: "kept F sd sd' \<Longrightarrow> F' \<subseteq> F \<Longrightarrow> kept F' sd sd'"
  by (auto simp: kept_def)

lemmas effect_defs = queue_event_def send_event_def flush_events_def push_request_def observe_def
  enter_state_def reset_stream_def

lemma effects_frames [simp]:
  "frames_inv S F (queue_event e sd) = frames_inv S F sd"
  "frames_inv S F (send_event e sd) = frames_inv S F sd"
  "frames_inv S F (flush_events sd) = frames_inv S F sd"
  "frames_inv S F (push_request r sd) = frames_inv S F sd"
  "frames_inv S F (observe ob sd) = frames_inv S F sd"
  "frames_inv S F (enter_state st sd) = frames_inv S F sd"
  "frames_inv S F (reset_stream sd) = frames_inv S F sd"
  by (simp_all add: effect_defs frames_inv_def)

lemma effects_kept [simp]:
  "kept F sd0 (queue_event e sd) = kept F sd0 sd"
  "kept F sd0 (send_event e sd) = kept F sd0 sd"
  "kept F sd0 (flush_events sd) = kept F sd0 sd"
  "kept F sd0 (push_request r sd) = kept F sd0 sd"
  "kept F sd0 (observe ob sd) = kept F sd0 sd"
  "kept F sd0 (enter_state st sd) = kept F sd0 sd"
  "kept F sd0 (reset_stream sd) = kept F sd0 sd"
  by (simp_all add: effect_defs kept_def)

lemma effects_jitter [simp]:
  "sd_jitter_buffer (queue_event e sd) = sd_jitter_buffer sd"
  "sd_jitter_buffer (send_event e sd) = sd_jitter_buffer sd"
  "sd_jitter_buffer (flush_events sd) = sd_jitter_buffer sd"
  "sd_jitter_buffer (push_request r sd) = sd_jitter_buffer sd"
  "sd_jitter_buffer (observe ob sd) = sd_jitter_buffer sd"
  "sd_jitter_buffer (enter_state st sd) = sd_jitter_buffer sd"
  "sd_jitter_buffer (reset_stream sd) = sd_jitter_buffer sd"
  by (simp_all add: effect_defs)

lemma effects_allocator [simp]:
  "sd_frame_allocator (queue_event e sd) = sd_frame_allocator sd"
  "sd_frame_allocator (observe ob sd) = sd_frame_allocator sd"
  "sd_frame_allocator (enter_state st sd) = sd_frame_allocator sd"
  "sd_frame_allocator (reset_stream sd) = sd_frame_allocator sd"
  by (simp_all add: effect_defs)

subsection \<open>Resetting\<close>

lemma jitter_buffer_reset_ok:
  assumes "frames_inv S F sd"
  shows "\<exists>sd'. jitter_buffer_reset sd = Some sd' \<and> frames_inv S' F sd' \<and> kept F sd sd' \<and>
    jb_size (sd_jitter_buffer sd') = 0 \<and> jb_last_pushed (sd_jitter_buffer sd') = sentinel \<and>
    jb_last_popped (sd_jitter_buffer sd') = sentinel \<and> sd_resampler sd' = sd_resampler sd"
proof -
  obtain jb' al' where "jitter_reset (sd_jitter_buffer sd) (sd_frame_allocator sd) = Some (jb', al')"
    "jinv S' F jb' al'" "jb_size jb' = 0" "jb_last_pushed jb' = sentinel" "jb_last_popped jb' = sentinel"
    "jitter_capacity jb' = jitter_capacity (sd_jitter_buffer sd)" "\<forall>a \<in> F. heap al' a = heap (sd_frame_allocator sd) a"
    using jitter_reset_inv assms unfolding frames_inv_def by blast
  moreover from this have "\<forall>a \<in> F. payload (heap al') a = payload (heap (sd_frame_allocator sd)) a"
    by (simp add: payload_def)
  ultimately show ?thesis using assms by (simp add: jitter_buffer_reset_def frames_inv_def kept_def)
qed

lemma resampler_reset_ready:
  assumes "resampler_ready rs"
  shows "\<exists>rs'. resampler_reset rs = Some rs' \<and> resampler_ready rs' \<and> rs_shape rs' = rs_shape rs"
proof (cases "rs_bypass rs")
  case True
  then show ?thesis using assms by (simp add: rs_shape_def resampler_ready_def resampler_reset_def)
next
  case False
  then have "rs_wf rs" using assms by (auto simp: resampler_ready_def streams_def)
  from resampler_reset_ok [OF this] obtain rs' m w r b where
    r: "resampler_reset rs = Some rs'" "streams rs' (\<lambda>k j. 0) (method_latency (rs_method rs)) 0"
    "rs' = rs\<lparr> rs_buffer := m, rs_wrpos := w, rs_rdpos := r, rs_balance := b \<rparr>" by blast
  have "rs_bypass rs' = rs_bypass rs" "rs_method rs' = rs_method rs" "rs_advance rs' = rs_advance rs"
    "rs_fixed_sr rs' = rs_fixed_sr rs" "rs_nchannels rs' = rs_nchannels rs"
    using r(3) by simp_all
  moreover from this have "step_size rs' = step_size rs" by (simp only: step_size_def)
  ultimately show ?thesis using r(1,2) assms False by (auto simp: resampler_ready_def rs_shape_def)
qed

lemma reset_resampler_ok:
  assumes "frames_inv S F sd"
  shows "\<exists>sd'. reset_resampler sd = Some sd' \<and> frames_inv S F sd' \<and> kept F sd sd' \<and>
    sd_jitter_buffer sd' = sd_jitter_buffer sd \<and> sd_frame_allocator sd' = sd_frame_allocator sd"
  using resampler_reset_ready [of "sd_resampler sd"] assms
  by (auto simp: reset_resampler_def frames_inv_def kept_def setup_of_def)

lemma handle_overrun_ok:
  assumes inv: "frames_inv S F sd"
  shows "\<exists>sd'. handle_overrun sd = Some sd' \<and> frames_inv S F sd' \<and> kept F sd sd' \<and>
    jb_size (sd_jitter_buffer sd') = 0 \<and> jb_last_pushed (sd_jitter_buffer sd') = sentinel"
proof -
  obtain sd1 where 1: "jitter_buffer_reset sd = Some sd1" "frames_inv S F sd1" "kept F sd sd1"
    "jb_size (sd_jitter_buffer sd1) = 0" "jb_last_pushed (sd_jitter_buffer sd1) = sentinel"
    using jitter_buffer_reset_ok [OF inv] by blast
  obtain sd2 where 2: "reset_resampler sd1 = Some sd2" "frames_inv S F sd2" "kept F sd1 sd2"
    "sd_jitter_buffer sd2 = sd_jitter_buffer sd1"
    using reset_resampler_ok [OF 1(2)] by blast
  show ?thesis using 1 2 kept_trans [OF 1(3) 2(3)] by (simp add: handle_overrun_def)
qed

lemma handle_underrun_ok:
  assumes inv: "frames_inv S F sd"
  shows "\<exists>sd'. handle_underrun sd = Some sd' \<and> frames_inv S F sd' \<and> kept F sd sd' \<and>
    jb_size (sd_jitter_buffer sd') = 0"
proof -
  obtain sd1 where 1: "jitter_buffer_reset sd = Some sd1" "frames_inv S F sd1" "kept F sd sd1"
    "jb_size (sd_jitter_buffer sd1) = 0"
    using jitter_buffer_reset_ok [OF inv] by blast
  obtain sd2 where 2: "reset_resampler sd1 = Some sd2" "frames_inv S F sd2" "kept F sd1 sd2"
    "sd_jitter_buffer sd2 = sd_jitter_buffer sd1"
    using reset_resampler_ok [OF 1(2)] by blast
  define sd3 where "sd3 = enter_state stream_buffering (queue_event BufferUnderrunEvent (reset_stream sd2))"
  have "handle_underrun sd = Some (sd3\<lparr> sd_underrun := False \<rparr>)"
    using 1(1) 2(1) by (simp add: handle_underrun_def sd3_def)
  moreover have "frames_inv S F sd3" "kept F sd sd3" "sd_jitter_buffer sd3 = sd_jitter_buffer sd2"
    using 2 kept_trans [OF 1(3) 2(3)] by (simp_all add: sd3_def)
  then have "frames_inv S F (sd3\<lparr> sd_underrun := False \<rparr>)" "kept F sd (sd3\<lparr> sd_underrun := False \<rparr>)"
    "jb_size (sd_jitter_buffer (sd3\<lparr> sd_underrun := False \<rparr>)) = 0"
    using 1(4) 2(4) by (simp_all add: frames_inv_def kept_def)
  ultimately show ?thesis by blast
qed

subsection \<open>Finding the block of a packet\<close>

lemma sub32_ok: "- (2 ^ 31) \<le> a - b \<Longrightarrow> a - b < 2 ^ 31 \<Longrightarrow> sub32 a b = Some (a - b)"
  by (simp add: sub32_def)

lemma push_placeholders_ok:
  assumes "jinv S F jb al" and "jb_last_pushed jb \<noteq> sentinel" and "jb_last_pushed jb < e" and "e \<le> INT32_MAX"
    and "e - jb_last_pushed jb \<le> int (jitter_capacity jb) - int (jb_size jb)"
  shows "\<exists>jb'. push_placeholders [jb_last_pushed jb + 1..e - 1] jb = Some jb' \<and> jinv S F jb' al \<and>
    jb_last_pushed jb' = e - 1 \<and> jb_size jb' < jitter_capacity jb' \<and>
    jitter_capacity jb' = jitter_capacity jb \<and> jb_last_popped jb' = jb_last_popped jb"
  using assms
proof (induction "nat (e - jb_last_pushed jb)" arbitrary: jb rule: less_induct)
  case less
  let ?n = "jb_last_pushed jb"
  show ?case
  proof (cases "?n + 1 \<le> e - 1")
    case False
    then have "?n = e - 1" using less.prems(3) by simp
    then show ?thesis using less.prems by auto
  next
    case True
    have "seq_range ?n" using jinvD(5) [OF less.prems(1)] by (simp add: order_ok_def)
    then have n: "0 \<le> ?n + 1" "?n + 1 < INT32_MAX" using less.prems(2,4) True by (auto simp: seq_range_def)
    have sp: "jb_size jb < jitter_capacity jb" using less.prems(5) True by simp
    let ?jb = "jitter_push_placeholder (?n + 1) jb"
    have q: "jinv S F ?jb al" "jb_last_pushed ?jb = ?n + 1" "jb_last_popped ?jb = jb_last_popped jb"
      "jb_size ?jb = Suc (jb_size jb)" "jitter_capacity ?jb = jitter_capacity jb"
      using push_placeholder_jinv [OF less.prems(1) sp _ n] by simp_all
    have "[?n + 1..e - 1] = (?n + 1) # [?n + 1 + 1..e - 1]" using True by (simp only: upto_rec1)
    moreover have "push_asserts (?n + 1) jb" using sp by (simp add: push_asserts_def jitter_full_def)
    moreover have "placeholder_asserts (jb_data jb ! jb_head jb)"
      using head_slot_free [OF less.prems(1) sp] by (simp add: placeholder_asserts_def)
    moreover have "jb_last_pushed ?jb \<noteq> sentinel" using n q(2) by (simp add: sentinel_def)
    ultimately show ?thesis
      using less.hyps [of ?jb] less.prems True q by simp
  qed
qed

text \<open>The block that takes a packet: it has the frames of the packet's sequence number, and not this one.\<close>

definition takes :: "data_packet \<Rightarrow> nat \<Rightarrow> 'd source_desc \<Rightarrow> bool" where
  "takes p i sd \<longleftrightarrow> i \<in> jb_slots (sd_jitter_buffer sd) \<and>
     (let b = jb_data (sd_jitter_buffer sd) ! i
      in rb_sequence b = dp_sequence p \<and> \<not> block_placeholder b \<and>
         (0 < dp_num_frames p \<longrightarrow>
            block_has_frame (heap (sd_frame_allocator sd)) b (dp_frame_index p) = Some False))"

lemma has_frame_map:
  assumes "block_ok h b m" and "k < st_size (rb_frames b)"
  shows "block_has_frame h b k = Some (m k \<noteq> None)"
  using assms storage_has_frame_ok [of h "rb_frames b" m k] by (auto simp: block_ok_def block_has_frame_def)

lemma fresh_takes:
  assumes "packet_fits S p" and "i \<in> jb_slots (sd_jitter_buffer sd)"
    and "jb_data (sd_jitter_buffer sd) ! i = block_init p b"
    and "block_ok (heap (sd_frame_allocator sd)) (block_init p b) Map.empty"
  shows "takes p i sd"
proof -
  have b: "rb_sequence (block_init p b) = dp_sequence p" "st_size (rb_frames (block_init p b)) = dp_num_frames p"
    "\<not> block_placeholder (block_init p b)"
    by (simp_all add: block_init_def Let_def storage_init_def block_placeholder_def)
  have "block_has_frame (heap (sd_frame_allocator sd)) (block_init p b) (dp_frame_index p) = Some False"
    if "0 < dp_num_frames p"
    using has_frame_map [OF assms(4), of "dp_frame_index p"] that assms(1) b(2) by (simp add: packet_fits_defs)
  then show ?thesis using assms(2,3) b by (simp add: takes_def Let_def)
qed

lemma add_new_block_ok:
  assumes inv: "frames_inv S F sd" and p: "packet_fits S p"
    and new: "jb_last_pushed (sd_jitter_buffer sd) < dp_sequence p"
    and lst: "jb_last_pushed (sd_jitter_buffer sd) = sentinel \<longrightarrow> jb_size (sd_jitter_buffer sd) = 0"
  shows "\<exists>i sd'. add_new_block p sd = Some (i, sd') \<and> frames_inv S F sd' \<and> kept F sd sd' \<and> takes p i sd'"
proof -
  let ?n = "jb_last_pushed (sd_jitter_buffer sd)"
  have seq: "0 \<le> dp_sequence p" "dp_sequence p < INT32_MAX" "announces S p" "dp_num_frames p \<le> 2 ^ 15"
    "plausible p"
    using p by (simp_all add: packet_fits_defs plausible_def)
  have range: "seq_range ?n" using inv jinvD(5) by (fastforce simp: frames_inv_def order_ok_def)
  have "\<exists>sd1. (if ?n \<noteq> sentinel then do {
            numblocks \<leftarrow> sub32 (dp_sequence p) ?n;
            let space = int (jitter_capacity (sd_jitter_buffer sd)) - int (jb_size (sd_jitter_buffer sd));
            if numblocks > space then handle_overrun sd
            else do {
              jb \<leftarrow> push_placeholders [?n + 1..dp_sequence p - 1] (sd_jitter_buffer sd);
              Some (sd\<lparr> sd_jitter_buffer := jb \<rparr>) } }
          else Some sd) = Some sd1 \<and> frames_inv S F sd1 \<and> kept F sd sd1 \<and>
      jb_size (sd_jitter_buffer sd1) < jitter_capacity (sd_jitter_buffer sd1) \<and>
      jb_last_pushed (sd_jitter_buffer sd1) < dp_sequence p \<and>
      (jb_last_pushed (sd_jitter_buffer sd1) = sentinel \<or> dp_sequence p - jb_last_pushed (sd_jitter_buffer sd1) = 1)"
  proof (cases "?n = sentinel")
    case True
    then show ?thesis using inv lst new jinvD(8) by (fastforce simp: frames_inv_def)
  next
    case False
    then have sub: "sub32 (dp_sequence p) ?n = Some (dp_sequence p - ?n)"
      using range seq new by (intro sub32_ok) (auto simp: seq_range_def INT32_MAX_def)
    show ?thesis
    proof (cases "dp_sequence p - ?n > int (jitter_capacity (sd_jitter_buffer sd)) - int (jb_size (sd_jitter_buffer sd))")
      case True
      obtain sd1 where 1: "handle_overrun sd = Some sd1" "frames_inv S F sd1" "kept F sd sd1"
        "jb_size (sd_jitter_buffer sd1) = 0" "jb_last_pushed (sd_jitter_buffer sd1) = sentinel"
        using handle_overrun_ok [OF inv] by blast
      then have "0 < jitter_capacity (sd_jitter_buffer sd1)" using jinvD(8) by (auto simp: frames_inv_def)
      then show ?thesis using True False sub 1 seq by (auto simp: sentinel_def)
    next
      case fits: False
      have j: "jinv S F (sd_jitter_buffer sd) (sd_frame_allocator sd)" using inv by (simp add: frames_inv_def)
      obtain jb where jb: "push_placeholders [?n + 1..dp_sequence p - 1] (sd_jitter_buffer sd) = Some jb"
        "jinv S F jb (sd_frame_allocator sd)" "jb_last_pushed jb = dp_sequence p - 1"
        "jb_size jb < jitter_capacity jb" "jitter_capacity jb = jitter_capacity (sd_jitter_buffer sd)"
        using push_placeholders_ok [OF j False new] seq(2) fits by auto
      then show ?thesis using False sub fits inv by (auto simp: frames_inv_def kept_def)
    qed
  qed
  then obtain sd1 where 1: "frames_inv S F sd1" "kept F sd sd1"
    "jb_size (sd_jitter_buffer sd1) < jitter_capacity (sd_jitter_buffer sd1)"
    "jb_last_pushed (sd_jitter_buffer sd1) < dp_sequence p"
    "add_new_block p sd = (if push_asserts (dp_sequence p) (sd_jitter_buffer sd1) \<and>
           init_asserts p (jb_data (sd_jitter_buffer sd1) ! jb_head (sd_jitter_buffer sd1))
        then let (i, jb) = jitter_push_block p (sd_jitter_buffer sd1)
             in Some (i, sd1\<lparr> sd_jitter_buffer := jb \<rparr>)
        else None)"
    "jb_last_pushed (sd_jitter_buffer sd1) = sentinel \<or> dp_sequence p - jb_last_pushed (sd_jitter_buffer sd1) = 1"
    unfolding add_new_block_def Let_def by auto
  have j1: "jinv S F (sd_jitter_buffer sd1) (sd_frame_allocator sd1)" using 1(1) by (simp add: frames_inv_def)
  obtain i jb where pu: "jitter_push_block p (sd_jitter_buffer sd1) = (i, jb)"
    by (cases "jitter_push_block p (sd_jitter_buffer sd1)")
  note q = push_packet_jinv [OF j1 1(3,4) seq pu]
  let ?sd = "sd1\<lparr> sd_jitter_buffer := jb \<rparr>"
  obtain b where b: "jb_data jb ! i = block_init p b" using q(4) by blast
  obtain ms where "holds (sd_frame_allocator sd1) (jb_data jb) ms F" "ms ! i = Map.empty"
    using q(5) jinvD(3) [OF j1] by (elim exE conjE) blast
  then have "block_ok (heap (sd_frame_allocator sd1)) (block_init p b) Map.empty"
    using holdsD(2) jinvD(7) [OF q(1,3)] b by metis
  then have "takes p i ?sd" using fresh_takes [OF p, of i ?sd b] q(3) b by simp
  moreover have "frames_inv S F ?sd" using 1(1) q(1) by (simp add: frames_inv_def)
  moreover have "kept F sd ?sd" using 1(2) q(8) by (simp add: kept_def)
  moreover have "add_new_block p sd = Some (i, ?sd)"
    using 1(3,5,6) pu head_slot_free [OF j1 1(3)] p
    by (simp add: push_asserts_def init_asserts_def jitter_full_def packet_fits_defs)
  ultimately show ?thesis by blast
qed

lemma check_sequence_ok:
  assumes inv: "frames_inv S F sd" and seq: "0 \<le> seq" "seq < INT32_MAX"
  shows "\<exists>ok sd'. check_sequence seq sd = Some (ok, sd') \<and> frames_inv S F sd' \<and> kept F sd sd' \<and>
    (ok \<longrightarrow> jb_last_popped (sd_jitter_buffer sd') < seq)"
proof (cases "seq \<le> jb_last_popped (sd_jitter_buffer sd)")
  case True
  let ?l = "jb_last_popped (sd_jitter_buffer sd)"
  have "seq_range ?l" using inv jinvD(5) by (fastforce simp: frames_inv_def order_ok_def)
  then have sub: "sub32 ?l seq = Some (?l - seq)"
    using True seq by (intro sub32_ok) (auto simp: seq_range_def INT32_MAX_def sentinel_def)
  show ?thesis
  proof (cases "?l - seq \<ge> INT32_MAX div 2")
    case wrapped: True
    obtain sd' where "jitter_buffer_reset sd = Some sd'" "frames_inv S F sd'" "kept F sd sd'"
      "jb_last_popped (sd_jitter_buffer sd') = sentinel"
      using jitter_buffer_reset_ok [OF inv] by blast
    then show ?thesis using True sub wrapped seq by (auto simp: check_sequence_def sentinel_def)
  next
    case False
    then show ?thesis using True sub inv by (auto simp: check_sequence_def)
  qed
next
  case False
  then show ?thesis using inv by (auto simp: check_sequence_def)
qed

lemma block_fits_size:
  "block_fits S b \<Longrightarrow> \<not> block_placeholder b \<Longrightarrow> rb_sequence b = dp_sequence p \<Longrightarrow> packet_fits S p \<Longrightarrow>
    st_size (rb_frames b) = dp_num_frames p"
  by (simp add: block_fits_def packet_fits_defs announces_def)

lemma placeholder_size:
  assumes "block_ok h b m" and "block_placeholder b"
  shows "st_size (rb_frames b) = 0"
  using assms by (auto simp: block_ok_def block_placeholder_def split: if_splits)

lemma count_resent_block:
  "count_resent p newest b stats = (b', stats') \<Longrightarrow>
    rb_sequence b' = rb_sequence b \<and> rb_frames b' = rb_frames b \<and> rb_received_frames b' = rb_received_frames b"
  by (auto simp: count_resent_def block_set_resent_def split: if_splits)

lemma count_resent_sizes:
  "count_resent p newest b stats = (b', stats') \<Longrightarrow> rb_samplerate b' = rb_samplerate b \<and> rb_channel b' = rb_channel b \<and>
    rb_total_size b' = rb_total_size b \<and> rb_message_size b' = rb_message_size b"
  by (auto simp: count_resent_def block_set_resent_def split: if_splits)

lemma block_ok_frames:
  assumes "block_ok h b m" and "rb_frames b' = rb_frames b" and "rb_received_frames b' = rb_received_frames b"
  shows "block_ok h b' m"
  using assms by (simp add: block_ok_def)

lemma holds_same_frames:
  assumes h: "holds al bs ms F" and i: "i < length bs"
    and b: "rb_frames b = rb_frames (bs ! i)" "rb_received_frames b = rb_received_frames (bs ! i)"
  shows "holds al (bs[i := b]) ms F"
proof -
  have "owns al fl (bs[i := b]) ms" if "owns al fl bs ms" for fl
    using that i b by (auto simp: owns_def nth_list_update intro: block_ok_frames)
  then show ?thesis using h by (auto simp: holds_def)
qed

text \<open>A packet for a block that is already in the buffer.\<close>

lemma known_block_ok:
  assumes inv: "frames_inv S F sd" and p: "packet_fits S p"
    and i: "i \<in> jb_slots (sd_jitter_buffer sd)" "rb_sequence (jb_data (sd_jitter_buffer sd) ! i) = dp_sequence p"
  shows "\<exists>res. check_block p (heap (sd_frame_allocator sd)) (jb_data (sd_jitter_buffer sd) ! i) = Some res \<and>
    (\<forall>b b' stats stats'. res = Some b \<longrightarrow> count_resent p newest b stats = (b', stats') \<longrightarrow>
      frames_inv S F (set_block i b' sd) \<and> kept F sd (set_block i b' sd) \<and> takes p i (set_block i b' sd))"
proof -
  let ?jb = "sd_jitter_buffer sd" and ?al = "sd_frame_allocator sd"
  let ?b = "jb_data ?jb ! i"
  have j: "jinv S F ?jb ?al" and rs: "resampler_ready (sd_resampler sd)" using inv by (simp_all add: frames_inv_def)
  obtain ms where ms: "holds ?al (jb_data ?jb) ms F" and cont: "contents_ok S (heap ?al) (jb_data ?jb) ms"
    using jinvD(3) [OF j] by blast
  have len: "i < length (jb_data ?jb)" by (rule jinvD(7) [OF j i(1)])
  have bok: "block_ok (heap ?al) ?b (ms ! i)" by (rule holdsD(2) [OF ms len])
  have cont': "contents_ok S (heap ?al) ((jb_data ?jb)[i := b']) ms" if "rb_sequence b' = rb_sequence ?b" for b'
    using cont that len by (simp add: contents_ok_def nth_list_update)
  have set: "frames_inv S F (set_block i b' sd) \<and> kept F sd (set_block i b' sd) \<and>
      (\<forall>b0. b0 = jb_data (sd_jitter_buffer (set_block i b' sd)) ! i \<longrightarrow> b0 = b') \<and> i \<in> jb_slots (sd_jitter_buffer (set_block i b' sd))"
    if "holds ?al ((jb_data ?jb)[i := b']) ms F" "rb_sequence b' = rb_sequence ?b" "block_fits S b'" for b'
    using set_block_jinv [OF j i(1) that(1) cont' [OF that(2)] that(2,3)] rs len i(1)
    by (simp add: set_block_def frames_inv_def kept_def jitter_capacity_def)
  show ?thesis
  proof (cases "block_placeholder ?b")
    case True
    have empty: "st_size (rb_frames ?b) = 0" by (rule placeholder_size [OF bok True])
    have pn: "dp_num_frames p \<le> 2 ^ 15" using p by (simp add: packet_fits_defs)
    note bi = block_init_ok [OF empty pn]
    have "frames_inv S F (set_block i b' sd) \<and> kept F sd (set_block i b' sd) \<and> takes p i (set_block i b' sd)"
      if c: "count_resent p newest (block_init p ?b) stats = (b', stats')" for b' stats stats'
    proof -
      note cr = count_resent_block [OF c]
      have b'ok: "block_ok (heap ?al) b' Map.empty" using block_ok_frames [OF bi(1)] cr by blast
      have h: "holds ?al ((jb_data ?jb)[i := b']) ms F" by (rule holds_replace_empty(1) [OF ms len empty b'ok])
      have seq: "rb_sequence b' = dp_sequence p" "st_size (rb_frames b') = dp_num_frames p" "\<not> block_placeholder b'"
        using cr bi(2-4) by (simp_all add: block_placeholder_def)
      have "block_fits S b'"
        using block_init_fits [of S p ?b] p bi(2-4) cr by (simp add: block_fits_def packet_fits_defs plausible_def count_resent_sizes [OF c])
      note s = set [OF h _ this]
      have "block_has_frame (heap ?al) b' (dp_frame_index p) = Some False" if "0 < dp_num_frames p"
        using has_frame_map [OF b'ok, of "dp_frame_index p"] that p seq(2) by (simp add: packet_fits_defs)
      then show ?thesis using s seq i(2) by (simp add: takes_def Let_def set_block_def)
    qed
    moreover have "init_asserts p ?b" using empty p by (simp add: init_asserts_def packet_fits_defs)
    ultimately show ?thesis using True by (auto simp: check_block_def)
  next
    case False
    have size: "st_size (rb_frames ?b) = dp_num_frames p"
      by (rule block_fits_size [OF jinvD(6) [OF j i(1)] False i(2) p])
    show ?thesis
    proof (cases "block_is_empty ?b")
      case True
      then show ?thesis using False by (simp add: check_block_def)
    next
      case ne: False
      then have idx: "dp_frame_index p < st_size (rb_frames ?b)"
        using size p by (simp add: block_is_empty_def packet_fits_defs)
      note hf = has_frame_map [OF bok idx]
      have "frames_inv S F (set_block i b' sd) \<and> kept F sd (set_block i b' sd) \<and> takes p i (set_block i b' sd)"
        if m: "(ms ! i) (dp_frame_index p) = None" and c: "count_resent p newest ?b stats = (b', stats')"
        for b' stats stats'
      proof -
        note cr = count_resent_block [OF c]
        have h: "holds ?al ((jb_data ?jb)[i := b']) ms F" using holds_same_frames [OF ms len] cr by simp
        have np: "\<not> block_placeholder b'" using cr False by (simp add: block_placeholder_def)
        have fits: "block_fits S b'"
          using jinvD(6) [OF j i(1)] False cr count_resent_sizes [OF c] by (simp add: block_fits_def)
        have "block_has_frame (heap ?al) b' (dp_frame_index p) = Some False"
          using hf m cr by (simp add: block_has_frame_def)
        then show ?thesis using set [OF h _ fits] cr i(2) np by (simp add: takes_def Let_def set_block_def)
      qed
      then show ?thesis using False ne hf by (auto simp: check_block_def)
    qed
  qed
qed

lemma frames_inv_order: "frames_inv S F sd \<Longrightarrow> order_ok (sd_jitter_buffer sd)"
  using jinvD(5) by (auto simp: frames_inv_def)

lemma find_block_ok:
  assumes inv: "frames_inv S F sd" and d: "np_stream_id d = sd_stream_id sd \<longrightarrow> packet_fits S (np_packet d)"
  shows "\<exists>slot stats' sd'. find_block d stats sd = Some (slot, stats', sd') \<and> frames_inv S F sd' \<and> kept F sd sd' \<and>
    (\<forall>i. slot = Some i \<longrightarrow> packet_fits S (np_packet d) \<and> takes (np_packet d) i sd' \<and> np_stream_id d = sd_stream_id sd)"
proof -
  let ?p = "np_packet d"
  consider (other) "np_stream_id d \<noteq> sd_stream_id sd"
    | (old) "np_stream_id d = sd_stream_id sd" "sd_low_latency_enabled sd" "expired ?p sd"
    | (ok) "np_stream_id d = sd_stream_id sd" "\<not> (sd_low_latency_enabled sd \<and> expired ?p sd)" by blast
  then show ?thesis
  proof cases
    case other
    then show ?thesis using inv by (simp add: find_block_def)
  next
    case old
    then show ?thesis using inv by (simp add: find_block_def)
  next
    case ok
    then have p: "packet_fits S ?p" using d by simp
    then have seq: "0 \<le> dp_sequence ?p" "dp_sequence ?p < INT32_MAX" by (simp_all add: packet_fits_defs)
    obtain acc sd1 where 1: "check_sequence (dp_sequence ?p) sd = Some (acc, sd1)" "frames_inv S F sd1" "kept F sd sd1"
      using check_sequence_ok [OF inv seq] by blast
    let ?jb = "sd_jitter_buffer sd1"
    have j: "jinv S F ?jb (sd_frame_allocator sd1)" using 1(2) by (simp add: frames_inv_def)
    obtain res where res: "jitter_find (dp_sequence ?p) ?jb = Some res"
      "case res of None \<Rightarrow> dp_sequence ?p \<notin> set (seqs ?jb)
       | Some i \<Rightarrow> i \<in> jb_slots ?jb \<and> rb_sequence (jb_data ?jb ! i) = dp_sequence ?p"
      using find_jinv [OF j] by blast
    show ?thesis
    proof (cases "acc \<and> \<not> (res = None \<and> dp_sequence ?p \<le> jb_last_pushed ?jb)")
      case False
      then show ?thesis using ok 1 res(1) by (auto simp: find_block_def Let_def)
    next
      case acc: True
      show ?thesis
      proof (cases res)
        case None
        then have new: "jb_last_pushed ?jb < dp_sequence ?p" using acc by auto
        have "jb_last_pushed ?jb = sentinel \<longrightarrow> jb_size ?jb = 0"
        proof
          assume s: "jb_last_pushed ?jb = sentinel"
          have "order_ok ?jb" using 1(2) by (rule frames_inv_order)
          then have "seqs ?jb = []"
            using s last_in_set [of "seqs ?jb"] by (fastforce simp: order_ok_def sentinel_def)
          then show "jb_size ?jb = 0" by (simp add: seqs_empty)
        qed
        from add_new_block_ok [OF 1(2) p new this] obtain i sd2 where
          2: "add_new_block ?p sd1 = Some (i, sd2)" "frames_inv S F sd2" "kept F sd1 sd2" "takes ?p i sd2" by blast
        then show ?thesis
          using ok 1(1) acc None res(1) new kept_trans [OF 1(3) 2(3)] p inv by (simp add: find_block_def Let_def)
      next
        case (Some i)
        then have i: "i \<in> jb_slots ?jb" "rb_sequence (jb_data ?jb ! i) = dp_sequence ?p" using res(2) by simp_all
        obtain r where r: "check_block ?p (heap (sd_frame_allocator sd1)) (jb_data ?jb ! i) = Some r"
          "\<forall>b b' stats stats'. r = Some b \<longrightarrow> count_resent ?p (jb_last_pushed ?jb) b stats = (b', stats') \<longrightarrow>
            frames_inv S F (set_block i b' sd1) \<and> kept F sd1 (set_block i b' sd1) \<and> takes ?p i (set_block i b' sd1)"
          using known_block_ok [OF 1(2) p i, of "jb_last_pushed ?jb"] by blast
        show ?thesis
        proof (cases r)
          case None
          then show ?thesis using ok 1 acc Some res(1) r(1) inv by (simp add: find_block_def Let_def)
        next
          case (Some b)
          obtain b' stats' where c: "count_resent ?p (jb_last_pushed ?jb) b stats = (b', stats')"
            by (cases "count_resent ?p (jb_last_pushed ?jb) b stats")
          show ?thesis
            using ok 1(1) acc \<open>res = Some i\<close> res(1) r(1) Some c r(2) [rule_format, OF Some c] kept_trans [OF 1(3)] p inv
            by (simp add: find_block_def Let_def)
        qed
      qed
    qed
  qed
qed

subsection \<open>Storing the frame\<close>

definition frame_stored :: "data_packet \<Rightarrow> 'd source_desc \<Rightarrow> bool" where
  "frame_stored p sd \<longleftrightarrow> (\<exists>i \<in> jb_slots (sd_jitter_buffer sd).
     rb_sequence (jb_data (sd_jitter_buffer sd) ! i) = dp_sequence p \<and>
     block_has_frame (heap (sd_frame_allocator sd)) (jb_data (sd_jitter_buffer sd) ! i) (dp_frame_index p) = Some True)"

lemma store_frame_ok:
  assumes inv: "frames_inv S F sd" and p: "packet_fits S (np_packet d)" and t: "takes (np_packet d) i sd"
    and fr: "dp_frame (np_packet d) \<noteq> None \<longleftrightarrow> 0 < dp_size (np_packet d)" "set (packet_frames d) \<subseteq> F"
    and data: "\<forall>f \<in> set (packet_frames d). payload (heap (sd_frame_allocator sd)) f = frame_of S (np_packet d)"
  shows "\<exists>sd'. store_frame d i sd = Some sd' \<and> frames_inv S (F - set (packet_frames d)) sd' \<and> kept F sd sd' \<and>
    (0 < dp_size (np_packet d) \<longrightarrow> frame_stored (np_packet d) sd')"
proof (cases "0 < dp_size (np_packet d)")
  case False
  then have "set (packet_frames d) = {}" using fr(1) by (auto simp: packet_frames_def)
  then show ?thesis using False inv by (simp add: store_frame_def)
next
  case True
  let ?p = "np_packet d" and ?jb = "sd_jitter_buffer sd" and ?al = "sd_frame_allocator sd"
  let ?b = "jb_data ?jb ! i" and ?k = "dp_frame_index (np_packet d)"
  obtain f where f: "dp_frame ?p = Some f" "f \<in> F" "set (packet_frames d) = {f}"
    using True fr by (auto simp: packet_frames_def)
  have j: "jinv S F ?jb ?al" using inv by (simp add: frames_inv_def)
  have i: "i \<in> jb_slots ?jb" "rb_sequence ?b = dp_sequence ?p" "\<not> block_placeholder ?b"
    and miss: "0 < dp_num_frames ?p \<Longrightarrow> block_has_frame (heap ?al) ?b ?k = Some False"
    using t by (simp_all add: takes_def Let_def)
  have len: "i < length (jb_data ?jb)" by (rule jinvD(7) [OF j i(1)])
  obtain ms where ms: "holds ?al (jb_data ?jb) ms F" and cont: "contents_ok S (heap ?al) (jb_data ?jb) ms"
    using jinvD(3) [OF j] by blast
  have size: "st_size (rb_frames ?b) = dp_num_frames ?p"
    by (rule block_fits_size [OF jinvD(6) [OF j i(1)] i(3) i(2) p])
  have k: "?k < st_size (rb_frames ?b)" "st_size (rb_frames ?b) < 2 ^ 15" "0 < dp_num_frames ?p"
    using p True size by (auto simp: packet_fits_defs)
  have new: "(ms ! i) ?k = None"
    using has_frame_map [OF holdsD(2) [OF ms len] k(1)] miss [OF k(3)] by simp
  obtain h' b' where a: "block_add_frame ?k f (heap ?al) ?b = Some (h', b')"
    "holds (?al\<lparr> heap := h' \<rparr>) ((jb_data ?jb)[i := b']) (ms[i := (ms ! i)(?k \<mapsto> f)]) (F - {f})"
    "rb_sequence b' = rb_sequence ?b" "st_size (rb_frames b') = st_size (rb_frames ?b)" "payload h' = payload (heap ?al)"
    using holds_add [OF ms len k(1) new f(2) k(2)] by (elim exE conjE) (rule that)
  have other: "rb_samplerate b' = rb_samplerate ?b" "rb_channel b' = rb_channel ?b" "rb_total_size b' = rb_total_size ?b" "rb_message_size b' = rb_message_size ?b"
    using a(1) by (auto simp: block_add_frame_def split: bind_splits if_splits)
  have cont': "contents_ok S (heap (?al\<lparr> heap := h' \<rparr>)) ((jb_data ?jb)[i := b']) (ms[i := (ms ! i)(?k \<mapsto> f)])"
    using cont len a(3,5) holdsD(1) [OF ms] data f(3) i(2)
    by (auto simp: contents_ok_def nth_list_update frame_of_def)
  define sd1 where "sd1 = set_block i b' (sd\<lparr> sd_frame_allocator := ?al\<lparr> heap := h' \<rparr> \<rparr>)"
  have fits: "block_fits S b'" using jinvD(6) [OF j i(1)] i(3) a(3,4) other by (simp add: block_fits_def)
  note sb = set_block_jinv [OF j i(1) a(2) cont' a(3) fits]
  have bok: "block_ok h' b' ((ms ! i)(?k \<mapsto> f))"
    using holdsD(2) [OF a(2), of i] len holdsD(1) [OF ms] by simp
  have "frames_inv S (F - {f}) sd1" "kept F sd sd1" "i \<in> jb_slots (sd_jitter_buffer sd1)"
    "jb_data (sd_jitter_buffer sd1) ! i = b'" "heap (sd_frame_allocator sd1) = h'"
    using sb inv i(1) len a(5) by (simp_all add: sd1_def set_block_def frames_inv_def kept_def jitter_capacity_def)
  moreover have "block_has_frame h' b' ?k = Some True" using has_frame_map [OF bok] k(1) a(4) by simp
  moreover have "store_frame d i sd = Some (if block_complete b' then observe (ObserveCompletion d) sd1 else sd1)"
    using True f(1) a(1) calculation(4) by (simp add: store_frame_def sd1_def)
  moreover have "frame_stored ?p sd1" using calculation i(2) a(3) by (auto simp: frame_stored_def)
  then have "frame_stored ?p (observe (ObserveCompletion d) sd1)" by (simp add: frame_stored_def)
  ultimately show ?thesis using f(3) \<open>frame_stored ?p sd1\<close> by simp
qed

lemma deallocate_frame_ok:
  assumes inv: "frames_inv S F sd" and fr: "set (packet_frames d) \<subseteq> F"
  shows "\<exists>sd'. deallocate_frame (dp_frame (np_packet d)) sd = Some sd' \<and>
    frames_inv S (F - set (packet_frames d)) sd' \<and> kept (F - set (packet_frames d)) sd sd'"
proof (cases "dp_frame (np_packet d)")
  case None
  then show ?thesis using inv by (simp add: deallocate_frame_def alloc_deallocate_def packet_frames_def)
next
  case (Some f)
  have j: "jinv S F (sd_jitter_buffer sd) (sd_frame_allocator sd)" using inv by (simp add: frames_inv_def)
  obtain ms where ms: "holds (sd_frame_allocator sd) (jb_data (sd_jitter_buffer sd)) ms F"
    using jinvD(3) [OF j] by blast
  have f: "f \<in> F" "set (packet_frames d) = {f}" using Some fr by (simp_all add: packet_frames_def)
  obtain al' where al': "alloc_deallocate (Some f) (sd_frame_allocator sd) = Some al'"
    using holds_deallocate [OF ms f(1)] by blast
  have heap: "\<forall>a. a \<noteq> f \<longrightarrow> heap al' a = heap (sd_frame_allocator sd) a"
    using holds_deallocate [OF ms f(1)] al' by auto
  have "jinv S (F - {f}) (sd_jitter_buffer sd) al'"
    using j
  proof (rule jinv_frames)
    fix ms assume h: "holds (sd_frame_allocator sd) (jb_data (sd_jitter_buffer sd)) ms F"
    then have "f \<notin> held ms" using holdsD(3) [OF h] f(1) by auto
    then have "\<forall>p \<in> held ms. heap al' p = heap (sd_frame_allocator sd) p" using heap by auto
    then show "holds al' (jb_data (sd_jitter_buffer sd)) ms (F - {f}) \<and> (\<forall>p \<in> held ms. heap al' p = heap (sd_frame_allocator sd) p)"
      using holds_deallocate [OF h f(1)] al' by auto
  qed
  moreover have "\<forall>a \<in> F - {f}. payload (heap al') a = payload (heap (sd_frame_allocator sd)) a"
    using heap by (simp add: payload_def)
  ultimately show ?thesis using Some al' f(2) inv by (simp add: deallocate_frame_def frames_inv_def kept_def)
qed

lemma add_packet_ok:
  assumes inv: "frames_inv S F sd" and d: "queued_ok S (sd_stream_id sd) (heap (sd_frame_allocator sd)) d"
    and fr: "set (packet_frames d) \<subseteq> F"
  shows "\<exists>ok stats' sd'. add_packet d stats sd = Some (ok, stats', sd') \<and>
    frames_inv S (F - set (packet_frames d)) sd' \<and> kept (F - set (packet_frames d)) sd sd' \<and>
    (ok \<and> 0 < dp_size (np_packet d) \<longrightarrow> frame_stored (np_packet d) sd')"
proof -
  obtain slot stats1 sd1 where 1: "find_block d stats sd = Some (slot, stats1, sd1)" "frames_inv S F sd1" "kept F sd sd1"
    "\<And>i. slot = Some i \<Longrightarrow> packet_fits S (np_packet d) \<and> takes (np_packet d) i sd1 \<and> np_stream_id d = sd_stream_id sd"
    using find_block_ok [OF inv, of d stats] d by (auto simp: queued_ok_def)
  let ?F = "F - set (packet_frames d)"
  have k1: "kept ?F sd sd1" using 1(3) by (rule kept_mono) simp
  show ?thesis
  proof (cases slot)
    case None
    obtain sd2 where "deallocate_frame (dp_frame (np_packet d)) sd1 = Some sd2" "frames_inv S ?F sd2" "kept ?F sd1 sd2"
      using deallocate_frame_ok [OF 1(2) fr] by blast
    then show ?thesis using None 1(1) kept_trans [OF k1] by (auto simp: add_packet_def)
  next
    case (Some i)
    have "\<forall>f \<in> set (packet_frames d). payload (heap (sd_frame_allocator sd1)) f = frame_of S (np_packet d)"
      using 1(3) 1(4) [OF Some] d fr by (auto simp: kept_def queued_ok_def)
    moreover have dd: "packet_fits S (np_packet d)" "takes (np_packet d) i sd1"
      "dp_frame (np_packet d) \<noteq> None \<longleftrightarrow> 0 < dp_size (np_packet d)"
      using 1(4) [OF Some] d by (simp_all add: queued_ok_def)
    ultimately obtain sd2 where 2: "store_frame d i sd1 = Some sd2" "frames_inv S ?F sd2" "kept F sd1 sd2"
      "0 < dp_size (np_packet d) \<longrightarrow> frame_stored (np_packet d) sd2"
      using store_frame_ok [OF 1(2) dd fr] by (elim meta_impE exE conjE) (assumption, rule that)
    have "add_packet d stats sd = Some (True, stats1, sd2)" using Some 1(1) 2(1) by (simp add: add_packet_def)
    moreover have "kept ?F sd sd2" using kept_trans [OF 1(3) 2(3)] by (rule kept_mono) simp
    moreover have "True \<and> 0 < dp_size (np_packet d) \<longrightarrow> frame_stored (np_packet d) sd2" using 2(4) by iprover
    ultimately show ?thesis using 2(2) by iprover
  qed
qed

subsection \<open>The operations\<close>

lemma queue_frames_Cons: "queue_frames (d # q) = packet_frames d @ queue_frames q"
  by (simp add: queue_frames_def)

lemma frames_inv_queue [simp]: "frames_inv S F (sd\<lparr> sd_packet_queue := q \<rparr>) = frames_inv S F sd"
  by (simp add: frames_inv_def)

lemma queue_frames_member: "d \<in> set q \<Longrightarrow> set (packet_frames d) \<subseteq> set (queue_frames q)"
  by (auto simp: queue_frames_def)

lemma queue_ok_kept:
  assumes "\<forall>d \<in> set q. queued_ok S (sd_stream_id sd) (heap (sd_frame_allocator sd)) d"
    and "kept F sd sd'" and "set (queue_frames q) \<subseteq> F"
  shows "\<forall>d \<in> set q. queued_ok S (sd_stream_id sd') (heap (sd_frame_allocator sd')) d"
proof
  fix d assume d: "d \<in> set q"
  have "set (packet_frames d) \<subseteq> F" using queue_frames_member [OF d] assms(3) by simp
  then show "queued_ok S (sd_stream_id sd') (heap (sd_frame_allocator sd')) d"
    using assms(1,2) d by (auto simp: queued_ok_def kept_def)
qed

lemma add_packets_ok:
  assumes "frames_inv S (set (queue_frames q)) sd" and "distinct (queue_frames q)"
    and "\<forall>d \<in> set q. queued_ok S (sd_stream_id sd) (heap (sd_frame_allocator sd)) d" and "sd_packet_queue sd = q"
  shows "\<exists>stats' sd'. add_packets q stats sd = Some (stats', sd') \<and> frames_inv S {} sd' \<and>
    sd_packet_queue sd' = [] \<and> sd_stream_id sd' = sd_stream_id sd \<and> sd_decoder sd' = sd_decoder sd \<and>
    sd_format sd' = sd_format sd \<and> setup_of (sd_resampler sd') (sd_latency_blocks sd') (sd_channel sd') = setup_of (sd_resampler sd) (sd_latency_blocks sd) (sd_channel sd)"
  using assms
proof (induction q arbitrary: sd stats)
  case Nil
  then show ?case by (simp add: queue_frames_def)
next
  case (Cons d q)
  let ?sd = "sd\<lparr> sd_packet_queue := q \<rparr>"
  have "frames_inv S (set (queue_frames (d # q))) ?sd" using Cons.prems(1) by simp
  moreover have "queued_ok S (sd_stream_id ?sd) (heap (sd_frame_allocator ?sd)) d" "set (packet_frames d) \<subseteq> set (queue_frames (d # q))"
    using Cons.prems(3) by (simp_all add: queue_frames_Cons)
  ultimately obtain ok stats1 sd1 where 1: "add_packet d stats ?sd = Some (ok, stats1, sd1)"
    "frames_inv S (set (queue_frames (d # q)) - set (packet_frames d)) sd1"
    "kept (set (queue_frames (d # q)) - set (packet_frames d)) ?sd sd1"
    using add_packet_ok [of S "set (queue_frames (d # q))" ?sd d stats] by (elim meta_impE exE conjE) auto
  have F: "set (queue_frames (d # q)) - set (packet_frames d) = set (queue_frames q)"
    using Cons.prems(2) by (auto simp: queue_frames_Cons)
  then have "frames_inv S (set (queue_frames q)) sd1" using 1(2) by simp
  moreover have "distinct (queue_frames q)" using Cons.prems(2) by (simp add: queue_frames_Cons)
  moreover have k: "sd_packet_queue sd1 = q" "sd_stream_id sd1 = sd_stream_id sd" "sd_decoder sd1 = sd_decoder sd"
    "sd_format sd1 = sd_format sd" "setup_of (sd_resampler sd1) (sd_latency_blocks sd1) (sd_channel sd1) = setup_of (sd_resampler sd) (sd_latency_blocks sd) (sd_channel sd)"
    using 1(3) by (simp_all add: kept_def)
  moreover have "\<forall>d \<in> set q. queued_ok S (sd_stream_id sd1) (heap (sd_frame_allocator sd1)) d"
    using queue_ok_kept [of q S ?sd _ sd1] 1(3) Cons.prems(3) unfolding F by simp
  ultimately obtain stats' sd' where "add_packets q stats1 sd1 = Some (stats', sd')" "frames_inv S {} sd'"
    "sd_packet_queue sd' = []" "sd_stream_id sd' = sd_stream_id sd1" "sd_decoder sd' = sd_decoder sd1"
    "sd_format sd' = sd_format sd1" "setup_of (sd_resampler sd') (sd_latency_blocks sd') (sd_channel sd') = setup_of (sd_resampler sd1) (sd_latency_blocks sd1) (sd_channel sd1)"
    using Cons.IH [of sd1 stats1] by (elim meta_impE exE conjE) auto
  then show ?case using 1(1) k by simp
qed

lemma sink_invD:
  assumes "sink_inv S sd"
  shows "frames_inv S (set (queue_frames (sd_packet_queue sd))) sd" "distinct (queue_frames (sd_packet_queue sd))"
    "\<forall>d \<in> set (sd_packet_queue sd). queued_ok S (sd_stream_id sd) (heap (sd_frame_allocator sd)) d" "sd_decoder sd \<noteq> None \<longrightarrow> format_set (sd_format sd) (setup_of (sd_resampler sd) (sd_latency_blocks sd) (sd_channel sd))"
  using assms by (simp_all add: sink_inv_def)

lemma sink_inv_kept:
  assumes "sink_inv S sd" and "kept (set (queue_frames (sd_packet_queue sd))) sd sd'"
    and "frames_inv S (set (queue_frames (sd_packet_queue sd))) sd'"
  shows "sink_inv S sd'"
  using assms queue_ok_kept [OF sink_invD(3) [OF assms(1)] assms(2)]
  by (simp add: sink_inv_def kept_def)

lemma sink_inv_empty:
  "sd_packet_queue sd = [] \<Longrightarrow> sink_inv S sd \<longleftrightarrow> frames_inv S {} sd \<and> (sd_decoder sd \<noteq> None \<longrightarrow> format_set (sd_format sd) (setup_of (sd_resampler sd) (sd_latency_blocks sd) (sd_channel sd)))"
  by (simp add: sink_inv_def queue_frames_def)

lemma consume_packets_ok:
  assumes inv: "sink_inv S sd"
  shows "\<exists>stats' sd'. consume_packets stats sd = Some (stats', sd') \<and> sink_inv S sd' \<and> sd_packet_queue sd' = [] \<and>
    sd_stream_id sd' = sd_stream_id sd \<and> sd_decoder sd' = sd_decoder sd \<and> sd_format sd' = sd_format sd \<and>
    setup_of (sd_resampler sd') (sd_latency_blocks sd') (sd_channel sd') = setup_of (sd_resampler sd) (sd_latency_blocks sd) (sd_channel sd)"
proof (cases "sd_packet_queue sd = []")
  case True
  then show ?thesis using inv by (simp add: consume_packets_def)
next
  case False
  note I = sink_invD [OF inv]
  obtain sd1 where 1: "(if sd_underrun sd then handle_underrun sd else Some sd) = Some sd1"
    "frames_inv S (set (queue_frames (sd_packet_queue sd))) sd1" "kept (set (queue_frames (sd_packet_queue sd))) sd sd1"
    using handle_underrun_ok [OF I(1)] I(1) by (cases "sd_underrun sd") auto
  then have k: "sd_packet_queue sd1 = sd_packet_queue sd" "sd_stream_id sd1 = sd_stream_id sd"
    "sd_decoder sd1 = sd_decoder sd" "sd_format sd1 = sd_format sd"
    "setup_of (sd_resampler sd1) (sd_latency_blocks sd1) (sd_channel sd1) = setup_of (sd_resampler sd) (sd_latency_blocks sd) (sd_channel sd)" by (simp_all add: kept_def)
  obtain stats' sd' where "add_packets (sd_packet_queue sd1) stats sd1 = Some (stats', sd')" "frames_inv S {} sd'"
    "sd_packet_queue sd' = []" "sd_stream_id sd' = sd_stream_id sd1" "sd_decoder sd' = sd_decoder sd1"
    "sd_format sd' = sd_format sd1" "setup_of (sd_resampler sd') (sd_latency_blocks sd') (sd_channel sd') = setup_of (sd_resampler sd1) (sd_latency_blocks sd1) (sd_channel sd1)"
    using add_packets_ok [OF 1(2) I(2) queue_ok_kept [OF I(3) 1(3) subset_refl] k(1), of stats] k by auto
  then show ?thesis using False 1(1) k I(4) by (simp add: consume_packets_def sink_inv_empty)
qed

text \<open>The packets that arrive: their payload is there, and not larger than a packet can be.\<close>

definition arrives :: "block_source \<Rightarrow> int \<Rightarrow> net_packet \<Rightarrow> bool" where
  "arrives S sid d \<longleftrightarrow> dp_size (np_packet d) \<le> length (dp_data (np_packet d)) \<and>
     dp_size (np_packet d) \<le> max_bin_size \<and>
     (np_stream_id d = sid \<longrightarrow> packet_shape S (np_packet d) \<and>
        (double_is_zero (dp_samplerate (np_packet d)) \<or> 0 < double_value (dp_samplerate (np_packet d))) \<and>
        (0 < dp_size (np_packet d) \<longrightarrow> take (dp_size (np_packet d)) (dp_data (np_packet d)) = frame_of S (np_packet d)))"

lemma packet_fits_update [simp]:
  "packet_shape S (p\<lparr> dp_samplerate := sr \<rparr>) = packet_shape S p"
  "packet_fits S (p\<lparr> dp_frame := f \<rparr>) = packet_fits S p"
  "frame_of S (p\<lparr> dp_samplerate := sr \<rparr>) = frame_of S p"
  "frame_of S (p\<lparr> dp_frame := f \<rparr>) = frame_of S p"
  by (simp_all add: packet_fits_defs announces_def frame_of_def)

lemma sink_inv_snoc:
  assumes "sink_inv S sd" and "queued_ok S (sd_stream_id sd) (heap al) d"
    and heap: "\<forall>a \<in> set (queue_frames (sd_packet_queue sd)). heap al a = heap (sd_frame_allocator sd) a"
    and "jinv S (set (queue_frames (sd_packet_queue sd)) \<union> set (packet_frames d)) (sd_jitter_buffer sd) al"
    and "set (packet_frames d) \<inter> set (queue_frames (sd_packet_queue sd)) = {}"
  shows "sink_inv S (sd\<lparr> sd_frame_allocator := al, sd_packet_queue := sd_packet_queue sd @ [d] \<rparr>)"
proof -
  have "distinct (packet_frames d)" by (simp add: packet_frames_def split: option.splits)
  moreover have "queued_ok S (sd_stream_id sd) (heap al) d'" if "d' \<in> set (sd_packet_queue sd)" for d'
  proof -
    have "payload (heap al) f = payload (heap (sd_frame_allocator sd)) f" if "f \<in> set (packet_frames d')" for f
      using heap queue_frames_member [OF \<open>d' \<in> set (sd_packet_queue sd)\<close>] that by (intro payload_cong) auto
    then show ?thesis using sink_invD(3) [OF assms(1)] that by (auto simp: queued_ok_def)
  qed
  ultimately show ?thesis using assms by (auto simp: sink_inv_def frames_inv_def queue_frames_def)
qed

lemma enqueue_packet_ok:
  assumes inv: "sink_inv S sd" and d: "arrives S (sd_stream_id sd) d" and fmt: "format_ok fmt"
  shows "\<exists>sd' d'. enqueue_packet fmt d sd = Some sd' \<and> sink_inv S sd' \<and>
    sd_packet_queue sd' = sd_packet_queue sd @ [d'] \<and> np_stream_id d' = np_stream_id d"
proof -
  let ?q = "sd_packet_queue sd"
  define p where "p = (let p = np_packet d in if double_is_zero (dp_samplerate p)
      then p\<lparr> dp_samplerate := double_of_int (sampleRate fmt) \<rparr> else p)"
  have p: "dp_size p = dp_size (np_packet d)" "dp_data p = dp_data (np_packet d)"
    "np_stream_id d = sd_stream_id sd \<Longrightarrow> packet_fits S p" "frame_of S p = frame_of S (np_packet d)"
    using d fmt double_of_int_exact [of "sampleRate fmt"]
    by (auto simp: p_def Let_def packet_fits_def arrives_def format_ok_def)
  have e: "enqueue_packet fmt d sd = (if dp_size p > 0 then do {
           (frame, al) \<leftarrow> alloc_allocate (dp_size p) (sd_frame_allocator sd);
           h \<leftarrow> set_frame frame (\<lambda>f. f\<lparr> fr_data := take (dp_size p) (dp_data p) \<rparr>) (heap al);
           Some (sd\<lparr> sd_frame_allocator := al\<lparr> heap := h \<rparr>,
             sd_packet_queue := ?q @ [d\<lparr> np_packet := p\<lparr> dp_frame := Some frame \<rparr> \<rparr>] \<rparr>) }
         else Some (sd\<lparr> sd_packet_queue := ?q @ [d\<lparr> np_packet := p\<lparr> dp_frame := None \<rparr> \<rparr>] \<rparr>))"
    unfolding enqueue_packet_def p_def Let_def ..
  have j: "jinv S (set (queue_frames ?q)) (sd_jitter_buffer sd) (sd_frame_allocator sd)"
    using inv by (simp add: sink_inv_def frames_inv_def)
  show ?thesis
  proof (cases "dp_size p > 0")
    case False
    define d' where "d' = d\<lparr> np_packet := p\<lparr> dp_frame := None \<rparr> \<rparr>"
    have "sink_inv S (sd\<lparr> sd_frame_allocator := sd_frame_allocator sd, sd_packet_queue := ?q @ [d'] \<rparr>)"
      using inv j d False p by (intro sink_inv_snoc) (simp_all add: d'_def queued_ok_def arrives_def packet_frames_def)
    then show ?thesis using False by (simp add: e d'_def)
  next
    case True
    obtain ms where ms: "holds (sd_frame_allocator sd) (jb_data (sd_jitter_buffer sd)) ms (set (queue_frames ?q))"
      and cont: "contents_ok S (heap (sd_frame_allocator sd)) (jb_data (sd_jitter_buffer sd)) ms"
      using jinvD(3) [OF j] by blast
    have sz: "dp_size p \<le> max_bin_size" "dp_size p \<le> length (dp_data p)" using d p by (simp_all add: arrives_def)
    obtain f al' h' where a: "alloc_allocate (dp_size p) (sd_frame_allocator sd) = Some (f, al')"
      "set_frame f (\<lambda>f. f\<lparr> fr_data := take (dp_size p) (dp_data p) \<rparr>) (heap al') = Some h'"
      "holds (al'\<lparr> heap := h' \<rparr>) (jb_data (sd_jitter_buffer sd)) ms (insert f (set (queue_frames ?q)))"
      "f \<notin> set (queue_frames ?q)" "payload h' f = take (dp_size p) (dp_data p)"
      "\<forall>a \<in> set (queue_frames ?q) \<union> held ms. h' a = heap (sd_frame_allocator sd) a"
      using holds_allocate [OF ms True sz] by (elim exE conjE) (rule that)
    define d' where "d' = d\<lparr> np_packet := p\<lparr> dp_frame := Some f \<rparr> \<rparr>"
    have "jinv S (insert f (set (queue_frames ?q))) (sd_jitter_buffer sd) (al'\<lparr> heap := h' \<rparr>)"
    proof -
      have "payload h' p = payload (heap (sd_frame_allocator sd)) p"
        if "i < length (jb_data (sd_jitter_buffer sd))" "p \<in> ran (ms ! i)" for i p
        using a(6) holdsD(5) [OF ms that(1)] that(2) by (intro payload_cong) blast
      then have "contents_ok S h' (jb_data (sd_jitter_buffer sd)) ms" using cont contents_ok_cong by blast
      then have "holds (al'\<lparr> heap := h' \<rparr>) (jb_data (sd_jitter_buffer sd)) ms (insert f (set (queue_frames ?q))) \<and>
        contents_ok S (heap (al'\<lparr> heap := h' \<rparr>)) (jb_data (sd_jitter_buffer sd)) ms" using a(3) by simp
      then show ?thesis using j unfolding jinv_def by blast
    qed
    then have "sink_inv S (sd\<lparr> sd_frame_allocator := al'\<lparr> heap := h' \<rparr>, sd_packet_queue := ?q @ [d'] \<rparr>)"
      using inv d True p a(4-6)
      by (intro sink_inv_snoc) (simp_all add: d'_def queued_ok_def arrives_def packet_frames_def)
    then show ?thesis using True a(1,2) by (simp add: e d'_def)
  qed
qed

lemma sink_inv_effects [simp]:
  "sink_inv S (send_event e sd) = sink_inv S sd"
  "sink_inv S (push_request r sd) = sink_inv S sd"
  "sink_inv S (observe ob sd) = sink_inv S sd"
  "sink_inv S (sd\<lparr> sd_last_packet_time := t \<rparr>) = sink_inv S sd"
  "sink_inv S (sd\<lparr> sd_state := st \<rparr>) = sink_inv S sd"
  by (simp_all add: sink_inv_def frames_inv_def effect_defs)

lemma data_state_check_inv:
  assumes "data_state_check s d sd = Some sd'"
  shows "sink_inv S sd' = sink_inv S sd"
  using assms by (auto simp: data_state_check_def Let_def split: source_state.splits if_splits)

lemma handle_data_ok:
  assumes inv: "sink_inv S sd" and d: "arrives S (sd_stream_id sd) d"
  shows "\<exists>err sd'. handle_data s d sd = Some (err, sd') \<and> sink_inv S sd'"
proof -
  let ?sd = "sd\<lparr> sd_last_packet_time := sk_elapsed_time s \<rparr>"
  have i: "sink_inv S ?sd" using inv by simp
  show ?thesis
  proof (cases "data_state_check s d ?sd")
    case (Some sd')
    then show ?thesis using data_state_check_inv [OF Some] i by (simp add: handle_data_def)
  next
    case None
    show ?thesis
    proof (cases "sd_decoder sd = None")
      case True
      then show ?thesis using None i by (simp add: handle_data_def Let_def)
    next
      case False
      then obtain fmt where fmt: "sd_format sd = Some fmt" "format_ok fmt"
        using sink_invD(4) [OF inv] by (auto simp: format_set_def)
      obtain sd2 where "enqueue_packet fmt d ?sd = Some sd2" "sink_inv S sd2"
        using enqueue_packet_ok [OF i _ fmt(2), of d] d by auto
      then show ?thesis using None i False fmt by (simp add: handle_data_def Let_def)
    qed
  qed
qed

lemma flush_packets_ok:
  assumes "frames_inv S (set (queue_frames q)) sd" and "distinct (queue_frames q)"
  shows "\<exists>sd'. flush_packets q sd = Some sd' \<and> frames_inv S {} sd' \<and> (q \<noteq> [] \<longrightarrow> sd_packet_queue sd' = []) \<and>
    sd_stream_id sd' = sd_stream_id sd \<and> sd_decoder sd' = sd_decoder sd \<and> sd_format sd' = sd_format sd \<and>
    setup_of (sd_resampler sd') (sd_latency_blocks sd') (sd_channel sd') = setup_of (sd_resampler sd) (sd_latency_blocks sd) (sd_channel sd)"
  using assms
proof (induction q arbitrary: sd)
  case Nil
  then show ?case by (simp add: queue_frames_def)
next
  case (Cons d q)
  let ?sd = "sd\<lparr> sd_packet_queue := q \<rparr>"
  have "frames_inv S (set (queue_frames (d # q))) ?sd" using Cons.prems(1) by simp
  then obtain sd1 where 1: "deallocate_frame (dp_frame (np_packet d)) ?sd = Some sd1"
    "frames_inv S (set (queue_frames (d # q)) - set (packet_frames d)) sd1" "kept (set (queue_frames (d # q)) - set (packet_frames d)) ?sd sd1"
    using deallocate_frame_ok [of S _ ?sd d] by (force simp: queue_frames_Cons)
  have "set (queue_frames (d # q)) - set (packet_frames d) = set (queue_frames q)"
    using Cons.prems(2) by (auto simp: queue_frames_Cons)
  then obtain sd' where "flush_packets q sd1 = Some sd'" "frames_inv S {} sd'"
    "q \<noteq> [] \<longrightarrow> sd_packet_queue sd' = []" "sd_stream_id sd' = sd_stream_id sd1"
    "sd_decoder sd' = sd_decoder sd1" "sd_format sd' = sd_format sd1"
    "setup_of (sd_resampler sd') (sd_latency_blocks sd') (sd_channel sd') = setup_of (sd_resampler sd1) (sd_latency_blocks sd1) (sd_channel sd1)"
    using Cons.IH [of sd1] 1(2) Cons.prems(2) by (auto simp: queue_frames_Cons)
  moreover have "sd_packet_queue sd' = []" if "q = []" using that calculation(1) 1(3) by (simp add: kept_def)
  ultimately show ?case using 1(1,3) by (auto simp: kept_def)
qed

lemma flush_packet_queue_ok:
  assumes inv: "sink_inv S sd"
  shows "\<exists>sd'. flush_packet_queue sd = Some sd' \<and> sink_inv S sd' \<and> sd_packet_queue sd' = [] \<and>
    frames_inv S {} sd' \<and> sd_stream_id sd' = sd_stream_id sd"
proof -
  obtain sd' where "flush_packets (sd_packet_queue sd) sd = Some sd'" "frames_inv S {} sd'"
    "sd_packet_queue sd \<noteq> [] \<longrightarrow> sd_packet_queue sd' = []" "sd_stream_id sd' = sd_stream_id sd"
    "sd_decoder sd' = sd_decoder sd" "sd_format sd' = sd_format sd"
    "setup_of (sd_resampler sd') (sd_latency_blocks sd') (sd_channel sd') = setup_of (sd_resampler sd) (sd_latency_blocks sd) (sd_channel sd)"
    using flush_packets_ok [OF sink_invD(1,2) [OF inv]] by blast
  moreover have "sd_packet_queue sd' = []" using calculation by (cases "sd_packet_queue sd") auto
  ultimately show ?thesis using sink_invD(4) [OF inv] by (simp add: flush_packet_queue_def sink_inv_empty)
qed

end
