(* ===== verification/Sink_Process.thy ===== *)
theory Sink_Process
  imports Sink_Invariant
begin

text \<open>
  The audio thread of a sink, for one source: buffering, decoding and concealment
  (\<^verbatim>\<open>source_desc::try_decode_block\<close>), the transitions of the source and stream states, and the loop that
  produces a block of samples (\<^verbatim>\<open>source_desc::process\<close>). The decoder is a parameter: it is chosen
  at run time through the codec interface. Time and samples are real numbers, without rounding.
\<close>

subsection \<open>Numbers\<close>

definition llround :: "real \<Rightarrow> int" where
  "llround x = (if x \<ge> 0 then \<lfloor>x + 1 / 2\<rfloor> else - \<lfloor>- x + 1 / 2\<rfloor>)"

definition int32 :: "int \<Rightarrow> int" where
  "int32 i = sint (word_of_int i :: u32)"

definition low_latency_resident_blocks :: "u32 \<Rightarrow> int \<Rightarrow> int" where
  "low_latency_resident_blocks targetFrames blockFrames =
     (if targetFrames = 0 \<or> blockFrames \<le> 0 then 1
      else \<lceil>of_nat (unat targetFrames) / of_int blockFrames :: real\<rceil> + 1)"

subsection \<open>The decoder interface\<close>

text \<open>
  \<open>decode dec data size frames\<close> decodes \<open>size\<close> bytes (\<^const>\<open>None\<close>: no data, conceal the loss) into
  \<open>frames\<close> frames; it returns \<^const>\<open>None\<close> when decoding fails.
\<close>

record 'd decoder_interface =
  decode :: "'d \<Rightarrow> byte list option \<Rightarrow> int \<Rightarrow> int \<Rightarrow> real list option \<times> 'd"

definition decode_samples ::
    "'d decoder_interface \<Rightarrow> byte list option \<Rightarrow> int \<Rightarrow> 'd source_desc \<Rightarrow> (real list \<times> 'd source_desc) option" where
  "decode_samples cls data sz sd = do {
     fmt \<leftarrow> sd_format sd;
     dec \<leftarrow> sd_decoder sd;
     let (out, dec) = decode cls dec data sz (blockSize fmt);
     let xs = (case out of Some xs \<Rightarrow> xs | None \<Rightarrow> replicate (nat (blockSize fmt * numChannels fmt)) 0);
     if length xs = nat (blockSize fmt * numChannels fmt) then Some (xs, sd\<lparr> sd_decoder := Some dec \<rparr>)
     else None }"

subsection \<open>Helpers of the decoding step\<close>

definition wired :: "'d source_desc \<Rightarrow> bool" where
  "wired sd \<longleftrightarrow> sd_low_latency_enabled sd \<and>
     sc_profile (sd_low_latency_configuration sd) = kAooLowLatencyProfileDeterministicWired"

text \<open>The number of complete blocks from an iterator on, up to the first incomplete one.\<close>

definition count_complete :: "jitter_buffer \<Rightarrow> nat option \<Rightarrow> int option" where
  "count_complete jb it = do {
     is \<leftarrow> jitter_walk jb it;
     Some (int (length (takeWhile (\<lambda>i. block_complete (jb_data jb ! i)) is))) }"

definition update_target :: "sink_settings \<Rightarrow> 'd source_desc \<Rightarrow> 'd source_desc option" where
  "update_target s sd =
     (let requestedTarget = sk_low_latency_target s
      in if sd_low_latency_enabled sd \<and> requestedTarget > 0 \<and>
            requestedTarget \<noteq> sc_targetLatencyFrames (sd_low_latency_configuration sd)
         then do {
           fmt \<leftarrow> sd_format sd;
           let previousLatencyBlocks = sd_latency_blocks sd;
           let sd = sd\<lparr> sd_low_latency_configuration :=
                 (sd_low_latency_configuration sd)\<lparr> sc_targetLatencyFrames := requestedTarget \<rparr>,
               sd_latency_blocks := low_latency_resident_blocks requestedTarget (blockSize fmt),
               sd_latency_samples := max 1 (int32 (llround
                 (of_nat (unat requestedTarget) / of_int (sampleRate fmt) * of_int (sk_samplerate s)))) \<rparr>;
           Some (if sd_latency_blocks sd > previousLatencyBlocks \<and> sd_stream_state sd = stream_active
                 then queue_event (StreamStateEvent stream_buffering 0) (sd\<lparr> sd_stream_state := stream_buffering \<rparr>)
                 else sd) }
         else Some sd)"

definition publish_state :: "sink_settings \<Rightarrow> 'd source_desc \<Rightarrow> 'd source_desc option" where
  "publish_state s sd =
     (if sd_low_latency_enabled sd then do {
        fmt \<leftarrow> sd_format sd;
        contiguousCompleteBlocks \<leftarrow> count_complete (sd_jitter_buffer sd) (jitter_begin (sd_jitter_buffer sd));
        let resamplerBufferedFrames = max 0 (readable_frames (sd_resampler sd));
        let contiguousOutputFrames = llround (of_int contiguousCompleteBlocks * of_int (blockSize fmt)
              * of_int (sk_samplerate s) / of_int (sampleRate fmt));
        let playableFrames = min (resamplerBufferedFrames + contiguousOutputFrames) (2 ^ 32 - 1);
        Some (observe (PublishPlayoutState (int (jb_size (sd_jitter_buffer sd))) contiguousCompleteBlocks
          (max 0 (sd_consecutive_missing_blocks sd)) resamplerBufferedFrames playableFrames) sd) }
      else Some sd)"

text \<open>The number of frames of a block, and its end on the absolute time line.\<close>

definition stale_frames :: "AooFormat \<Rightarrow> received_block \<Rightarrow> u64" where
  "stale_frames fmt b = max (ucast (rb_block_frames b)) (word_of_int (blockSize fmt))"

definition advance_position :: "u64 \<Rightarrow> 'd source_desc \<Rightarrow> 'd source_desc" where
  "advance_position blockEnd sd =
     (if sd_last_absolute_sample_position sd < blockEnd
      then sd\<lparr> sd_last_absolute_sample_position := blockEnd \<rparr> else sd)"

definition pop_block :: "'d source_desc \<Rightarrow> 'd source_desc option" where
  "pop_block sd = do {
     (jb, al) \<leftarrow> jitter_pop (sd_jitter_buffer sd) (sd_frame_allocator sd);
     Some (sd\<lparr> sd_jitter_buffer := jb, sd_frame_allocator := al \<rparr>) }"

definition front_block :: "'d source_desc \<Rightarrow> received_block" where
  "front_block sd = jb_data (sd_jitter_buffer sd) ! jitter_front (sd_jitter_buffer sd)"

text \<open>Popping a block that is not played, moving the time line over it.\<close>

definition discard_front :: "'d source_desc \<Rightarrow> 'd source_desc option" where
  "discard_front sd = do {
     fmt \<leftarrow> sd_format sd;
     let stale = front_block sd;
     pop_block (advance_position (rb_absolute_sample_position stale + stale_frames fmt stale) sd) }"

text \<open>
  Incomplete blocks at the front that are followed by enough complete ones. Every round pops a block, so
  that the size of the buffer bounds the number of rounds.
\<close>

fun drop_incomplete :: "nat \<Rightarrow> 'd source_desc \<Rightarrow> 'd source_desc option" where
  "drop_incomplete 0 sd = Some sd"
| "drop_incomplete (Suc n) sd =
     (let jb = sd_jitter_buffer sd
      in if \<not> jitter_empty jb \<and> \<not> block_complete (front_block sd) then do {
           i \<leftarrow> jitter_begin jb;
           completeAfterFront \<leftarrow> count_complete jb (jitter_iter_next jb i);
           if completeAfterFront < sd_latency_blocks sd then Some sd
           else do {
             sd \<leftarrow> discard_front sd;
             drop_incomplete n (observe ObserveIncompleteBlock sd) } }
         else Some sd)"

text \<open>Trimming a backlog of complete blocks; while playing, the stream time moves on (\<open>resample\<close>).\<close>

fun trim_blocks :: "real \<Rightarrow> nat \<Rightarrow> 'd source_desc \<Rightarrow> 'd source_desc option" where
  "trim_blocks resample 0 sd = Some sd"
| "trim_blocks resample (Suc n) sd = do {
     fmt \<leftarrow> sd_format sd;
     let frames = stale_frames fmt (front_block sd);
     sd \<leftarrow> discard_front sd;
     trim_blocks resample n (sd\<lparr> sd_stream_samples := sd_stream_samples sd + of_nat (unat frames) * resample \<rparr>) }"

definition check_latency :: "sink_settings \<Rightarrow> 'd source_desc \<Rightarrow> 'd source_desc" where
  "check_latency s sd =
     (let buffer_latency = (if sd_low_latency_enabled sd then of_int (sd_latency_samples sd) else sd_stream_samples sd)
      in if buffer_latency \<noteq> of_int (sd_buffer_latency sd) then
           let to_seconds = 1 / of_int (sk_samplerate s);
               source_latency_sec = of_int (sd_source_latency sd + sd_source_codec_delay sd) * to_seconds;
               sink_latency_sec = of_int (sd_sink_latency sd + sd_sink_codec_delay sd) * to_seconds
           in queue_event (StreamLatencyEvent source_latency_sec sink_latency_sec (buffer_latency * to_seconds))
                (sd\<lparr> sd_buffer_latency := trunc buffer_latency \<rparr>)
         else sd)"

subsection \<open>Decoding a block\<close>

text \<open>
  The steps of \<^verbatim>\<open>try_decode_block\<close>. A step returns the new state and, when the function returns there,
  the result and the samples that were written to the caller's buffer.
\<close>

type_synonym returned = "(bool \<times> real list) option"

text \<open>A block of concealment while the stream is buffering.\<close>

definition conceal ::
    "'d decoder_interface \<Rightarrow> sink_settings \<Rightarrow> 'd source_desc \<Rightarrow> (returned \<times> 'd source_desc) option" where
  "conceal cls s sd = do {
     fmt \<leftarrow> sd_format sd;
     let sd = (if \<not> rs_fixed_sr (sd_resampler sd)
               then sd\<lparr> sd_resampler := resampler_update (of_int (sampleRate fmt)) (of_int (sk_samplerate s)) (sd_resampler sd) \<rparr>
               else sd);
     let resample = of_int (sk_samplerate s) / of_int (sampleRate fmt);
     (buffer, sd) \<leftarrow> decode_samples cls None 0 sd;
     let sd = sd\<lparr> sd_stream_samples := sd_stream_samples sd + of_int (blockSize fmt) * resample \<rparr>;
     if rs_bypass (sd_resampler sd) then Some (Some (True, buffer), sd)
     else do {
       (ok, rs) \<leftarrow> resampler_write buffer (blockSize fmt) (sd_resampler sd);
       Some (Some (ok, []), sd\<lparr> sd_resampler := rs \<rparr>) } }"

text \<open>
  The bookkeeping before the decision whether to go on buffering; it returns the number of complete blocks
  at the front (only counted for low-latency streams).
\<close>

definition tidy :: "'d source_desc \<Rightarrow> (int \<times> 'd source_desc) option" where
  "tidy sd = do {
     sd \<leftarrow> (if wired sd then drop_incomplete (jb_size (sd_jitter_buffer sd)) sd else Some sd);
     complete_blocks \<leftarrow> (if sd_low_latency_enabled sd
         then count_complete (sd_jitter_buffer sd) (jitter_begin (sd_jitter_buffer sd)) else Some 0);
     (if wired sd \<and> complete_blocks > sd_latency_blocks sd then do {
         let trimCount = complete_blocks - sd_latency_blocks sd;
         sd \<leftarrow> trim_blocks 0 (nat trimCount) sd;
         Some (complete_blocks - trimCount, observe (ObserveTrimmedBacklog trimCount) sd) }
       else Some (complete_blocks, sd)) }"

definition buffering_step ::
    "'d decoder_interface \<Rightarrow> sink_settings \<Rightarrow> 'd source_desc \<Rightarrow> (returned \<times> 'd source_desc) option" where
  "buffering_step cls s sd =
     (if sd_stream_state sd \<noteq> stream_buffering then Some (None, sd)
      else if sd_stopped sd then Some (Some (False, []), sd)
      else do {
        let elapsed = min (int32 (sd_process_samples sd)) (trunc (sd_stream_samples sd + 1 / 2));
        (complete_blocks, sd) \<leftarrow> tidy sd;
        if elapsed < sd_latency_samples sd \<or> int (jb_size (sd_jitter_buffer sd)) < sd_latency_blocks sd \<or>
           (sd_low_latency_enabled sd \<and> complete_blocks < sd_latency_blocks sd) then
          if \<not> sd_low_latency_enabled sd \<and> elapsed > sd_latency_samples sd * 4 then Some (Some (False, []), sd)
          else conceal cls s sd
        else
          Some (None, check_latency s (sd\<lparr> sd_stream_state := stream_active,
            sd_stream_start := trunc (sd_stream_samples sd + of_int (sd_source_codec_delay sd)
              + of_int (sd_sink_codec_delay sd) + of_int (sd_sample_offset sd)) \<rparr>)) })"

text \<open>Keeping the backlog of a wired stream at its target while it plays.\<close>

definition trim_step :: "sink_settings \<Rightarrow> 'd source_desc \<Rightarrow> 'd source_desc option" where
  "trim_step s sd =
     (if wired sd \<and> sd_stream_state sd = stream_active then do {
        fmt \<leftarrow> sd_format sd;
        completeBlocks \<leftarrow> count_complete (sd_jitter_buffer sd) (jitter_begin (sd_jitter_buffer sd));
        let trimCount = max 0 (completeBlocks - sd_latency_blocks sd);
        if trimCount > 0 then do {
          sd \<leftarrow> trim_blocks (of_int (sk_samplerate s) / of_int (sampleRate fmt)) (nat trimCount) sd;
          publish_state s (observe (ObserveTrimmedBacklog trimCount) sd) }
        else Some sd }
      else Some sd)"

text \<open>After four missing blocks in a row a low-latency stream starts over.\<close>

definition reacquire :: "sink_settings \<Rightarrow> 'd source_desc \<Rightarrow> 'd source_desc option" where
  "reacquire s sd = do {
     sd \<leftarrow> publish_state s sd;
     let sd = (observe ObserveReacquisition sd)\<lparr> sd_consecutive_missing_blocks := 0 \<rparr>;
     sd \<leftarrow> jitter_buffer_reset sd;
     sd \<leftarrow> reset_resampler sd;
     let sd = sd\<lparr> sd_stream_state := stream_buffering \<rparr>;
     Some (queue_event (StreamStateEvent stream_buffering 0) (queue_event BufferUnderrunEvent sd)) }"

text \<open>A missing block is counted; the first component tells whether the stream starts over.\<close>

definition count_missing :: "sink_settings \<Rightarrow> 'd source_desc \<Rightarrow> (bool \<times> 'd source_desc) option" where
  "count_missing s sd =
     (let sd = sd\<lparr> sd_consecutive_missing_blocks := sd_consecutive_missing_blocks sd + 1 \<rparr>
      in if sd_consecutive_missing_blocks sd \<ge> 4 then do {
           sd \<leftarrow> reacquire s sd;
           Some (True, sd) }
         else Some (False, sd))"

definition write_silence :: "AooFormat \<Rightarrow> 'd source_desc \<Rightarrow> (bool \<times> real list \<times> 'd source_desc) option" where
  "write_silence fmt sd =
     (let silence = replicate (nat (blockSize fmt * numChannels fmt)) 0
      in if rs_bypass (sd_resampler sd) then Some (True, silence, sd)
         else do {
           (ok, rs) \<leftarrow> resampler_write silence (blockSize fmt) (sd_resampler sd);
           Some (ok, [], sd\<lparr> sd_resampler := rs \<rparr>) })"

text \<open>An empty jitter buffer: silence for a low-latency stream, otherwise an underrun.\<close>

definition empty_step ::
    "sink_settings \<Rightarrow> stream_stats \<Rightarrow> 'd source_desc \<Rightarrow> ((bool \<times> real list) \<times> stream_stats \<times> 'd source_desc) option" where
  "empty_step s stats sd =
     (if sd_low_latency_enabled sd \<and> sd_stream_state sd = stream_active then do {
        fmt \<leftarrow> sd_format sd;
        let resample = of_int (sk_samplerate s) / of_int (sampleRate fmt);
        (ok, buffer, sd) \<leftarrow> write_silence fmt sd;
        if \<not> ok then Some ((False, []), stats, sd)
        else do {
          let sd = sd\<lparr> sd_stream_samples := sd_stream_samples sd + of_int (blockSize fmt) * resample,
                sd_jitter_buffer := jitter_advance_missing (sd_jitter_buffer sd),
                sd_last_absolute_sample_position := sd_last_absolute_sample_position sd + word_of_int (blockSize fmt) \<rparr>;
          let stats = stats\<lparr> dropped := dropped stats + 1 \<rparr>;
          (_, sd) \<leftarrow> count_missing s (observe ObserveEmptyBlock sd);
          sd \<leftarrow> publish_state s sd;
          Some ((True, buffer), stats, sd) } }
      else Some ((False, []), stats, sd))"

text \<open>
  The data of the block at the front: bytes, size, size of the messages, sample rate. The frames are copied
  into a buffer of \<open>total_size\<close> bytes: copying more writes outside, copying less leaves bytes undefined.
\<close>

definition front_data ::
    "stream_stats \<Rightarrow> 'd source_desc \<Rightarrow> ((byte list option \<times> int \<times> int \<times> real) \<times> stream_stats \<times> 'd source_desc) option" where
  "front_data stats sd =
     (let b = front_block sd
      in if block_complete b then
           let stats = (if rb_flags b AND kAooBinMsgDataXRun \<noteq> 0 then stats\<lparr> xrun := xrun stats + 1 \<rparr> else stats);
               sd' = sd\<lparr> sd_channel := rb_channel b \<rparr>;
               sr = double_value (rb_samplerate b)
           in if rb_total_size b > 0 then do {
                bytes \<leftarrow> block_copy_frames (heap (sd_frame_allocator sd)) b;
                if int (length bytes) \<noteq> rb_total_size b then None
                else Some ((Some bytes, rb_total_size b, rb_message_size b, sr), stats, sd') }
              else Some ((None, 0, 0, sr), stats, sd')
         else do {
           fmt \<leftarrow> sd_format sd;
           let stats = stats\<lparr> dropped := dropped stats + 1 \<rparr>;
           Some ((None, 0, 0, of_int (sampleRate fmt)), stats,
             if sd_low_latency_enabled sd then observe ObserveIncompleteBlock sd else sd) })"

text \<open>The messages of a block and its time stamp.\<close>

definition sched_block_messages ::
    "real \<Rightarrow> byte list option \<Rightarrow> int \<Rightarrow> received_block \<Rightarrow> 'd source_desc \<Rightarrow> 'd source_desc option" where
  "sched_block_messages resample data msgsize b sd = do {
     let sd = (if rb_tt b > 0 then sd\<lparr> sd_stream_messages := sched_stream_message
           \<lparr> sm_time = sd_stream_samples sd + of_int (sd_source_codec_delay sd) + of_int (sd_sink_codec_delay sd),
             sm_channel = 0, sm_type = kAooDataStreamTime, sm_data = [], sm_tt = rb_tt b \<rparr>
           (sd_stream_messages sd) \<rparr>
         else sd);
     msgs \<leftarrow> (case data of Some bytes \<Rightarrow> read_messages (sd_stream_samples sd) resample bytes (nat msgsize) | None \<Rightarrow> Some []);
     Some (sd\<lparr> sd_stream_messages := fold sched_stream_message msgs (sd_stream_messages sd) \<rparr>) }"

text \<open>Writing the decoded samples; the block is lost when the resampler is full.\<close>

definition write_decoded ::
    "sink_settings \<Rightarrow> real \<Rightarrow> AooFormat \<Rightarrow> real list \<Rightarrow> 'd source_desc \<Rightarrow> (bool \<times> 'd source_desc) option" where
  "write_decoded s sr fmt buffer sd =
     (if \<not> rs_bypass (sd_resampler sd) then do {
        (ok, rs) \<leftarrow> resampler_write buffer (blockSize fmt) (sd_resampler sd);
        Some (ok, sd\<lparr> sd_resampler :=
          (if ok \<and> \<not> rs_fixed_sr rs then resampler_update sr (sk_real_samplerate s) rs else rs) \<rparr>) }
      else Some (True, sd))"

text \<open>The end of a block: the time line of a low-latency stream, and removing the block.\<close>

definition finish_block ::
    "sink_settings \<Rightarrow> AooFormat \<Rightarrow> received_block \<Rightarrow> 'd source_desc \<Rightarrow> 'd source_desc option" where
  "finish_block s fmt b sd = do {
     (stop, sd) \<leftarrow> (if sd_low_latency_enabled sd then
         if block_complete b then
           Some (False, advance_position (rb_absolute_sample_position b + stale_frames fmt b)
             (sd\<lparr> sd_consecutive_missing_blocks := 0 \<rparr>))
         else count_missing s (sd\<lparr> sd_last_absolute_sample_position :=
                sd_last_absolute_sample_position sd + word_of_int (blockSize fmt) \<rparr>)
       else Some (False, sd));
     sd \<leftarrow> (if stop then Some sd else pop_block sd);
     publish_state s sd }"

text \<open>\<^verbatim>\<open>data + msgsize\<close>: a negative size of the messages points before the buffer.\<close>

definition audio_data :: "byte list option \<Rightarrow> int \<Rightarrow> byte list option option" where
  "audio_data data msgsize =
     (if msgsize < 0 then None else Some (map_option (drop (nat msgsize)) data))"

definition decode_front ::
    "'d decoder_interface \<Rightarrow> sink_settings \<Rightarrow> stream_stats \<Rightarrow> 'd source_desc \<Rightarrow>
     ((bool \<times> real list) \<times> stream_stats \<times> 'd source_desc) option" where
  "decode_front cls s stats sd = do {
     fmt \<leftarrow> sd_format sd;
     let b = front_block sd;
     ((data, sz, msgsize, sr), stats, sd) \<leftarrow> front_data stats sd;
     audio \<leftarrow> audio_data data msgsize;
     (buffer, sd) \<leftarrow> decode_samples cls audio (sz - msgsize) sd;
     (ok, sd) \<leftarrow> write_decoded s sr fmt buffer sd;
     if \<not> ok then do {
       sd \<leftarrow> pop_block sd;
       Some ((False, []), stats, sd) }
     else do {
       let resample = of_int (sk_samplerate s) / sr;
       sd \<leftarrow> sched_block_messages resample data msgsize b sd;
       let sd = sd\<lparr> sd_stream_samples := sd_stream_samples sd + of_int (blockSize fmt) * resample \<rparr>;
       let out = (if rs_bypass (sd_resampler sd) then buffer else []);
       sd \<leftarrow> finish_block s fmt b sd;
       Some ((True, out), stats, sd) } }"

definition try_decode_block ::
    "'d decoder_interface \<Rightarrow> sink_settings \<Rightarrow> stream_stats \<Rightarrow> 'd source_desc \<Rightarrow>
     ((bool \<times> real list) \<times> stream_stats \<times> 'd source_desc) option" where
  "try_decode_block cls s stats sd = do {
     sd \<leftarrow> update_target s sd;
     sd \<leftarrow> publish_state s sd;
     (ret, sd) \<leftarrow> buffering_step cls s sd;
     (case ret of
        Some r \<Rightarrow> Some (r, stats, sd)
      | None \<Rightarrow> do {
          sd \<leftarrow> trim_step s sd;
          if jitter_empty (sd_jitter_buffer sd) then empty_step s stats sd
          else decode_front cls s stats sd }) }"

end
