(* ===== verification/Sink_Playout.thy ===== *)
theory Sink_Playout
  imports Sink_Process
begin

text \<open>
  Decoding never leaves its memory: every step of \<^verbatim>\<open>try_decode_block\<close> returns on a source
  description that satisfies the invariant, keeps it, and feeds the decoder only with blocks of the source.
\<close>

subsection \<open>What the steps keep\<close>

text \<open>
  The blocks of the source: a block is empty, or it is split into frames, and its messages
  can be read.
\<close>

definition source_ok :: "block_source \<Rightarrow> bool" where
  "source_ok S \<longleftrightarrow> (\<forall>seq. if sb_num_frames (S seq) = 0 then sb_buffer (S seq) = []
     else sent_block_ok (S seq) \<and> sb_num_frames (S seq) \<le> 32752 \<and>
       0 \<le> sb_message_size (S seq) \<and>
       (\<forall>t r. read_messages t r (sb_buffer (S seq)) (nat (sb_message_size (S seq))) \<noteq> None))"

text \<open>The input of the decoder: nothing, or the audio data of a block of the source.\<close>

definition fed :: "block_source \<Rightarrow> byte list option \<Rightarrow> int \<Rightarrow> bool" where
  "fed S data sz \<longleftrightarrow> data = None \<and> sz = 0 \<or>
     (\<exists>seq. data = Some (drop (nat (sb_message_size (S seq))) (sb_buffer (S seq))) \<and>
       sz = int (length (sb_buffer (S seq))) - sb_message_size (S seq))"

text \<open>
  What is expected of a decoder, relative to an invariant \<open>P\<close> of its state: it produces a whole
  block of samples, or it fails.
\<close>

definition decoder_ok :: "block_source \<Rightarrow> ('d \<Rightarrow> bool) \<Rightarrow> 'd decoder_interface \<Rightarrow> AooFormat \<Rightarrow> bool" where
  "decoder_ok S P cls fmt \<longleftrightarrow> (\<forall>dec data sz. P dec \<and> fed S data sz \<longrightarrow>
     (case decode cls dec data sz (blockSize fmt) of (out, dec') \<Rightarrow> P dec' \<and>
        (\<forall>xs. out = Some xs \<longrightarrow> int (length xs) = blockSize fmt * numChannels fmt)))"

definition settings_ok :: "sink_settings \<Rightarrow> bool" where
  "settings_ok s \<longleftrightarrow> 0 < sk_samplerate s \<and> 0 < sk_real_samplerate s"

definition playable :: "block_source \<Rightarrow> ('d \<Rightarrow> bool) \<Rightarrow> nat set \<Rightarrow> 'd source_desc \<Rightarrow> bool" where
  "playable S P F sd \<longleftrightarrow> frames_inv S F sd \<and>
     format_set (sd_format sd) (setup_of (sd_resampler sd) (sd_latency_blocks sd) (sd_channel sd)) \<and>
     (\<exists>dec. sd_decoder sd = Some dec \<and> P dec)"

definition same :: "nat set \<Rightarrow> 'd source_desc \<Rightarrow> 'd source_desc \<Rightarrow> bool" where
  "same F sd sd' \<longleftrightarrow> (\<forall>a \<in> F. payload (heap (sd_frame_allocator sd')) a = payload (heap (sd_frame_allocator sd)) a) \<and>
     sd_packet_queue sd' = sd_packet_queue sd \<and> sd_stream_id sd' = sd_stream_id sd \<and>
     sd_format sd' = sd_format sd \<and> rs_shape (sd_resampler sd') = rs_shape (sd_resampler sd) \<and>
     sd_low_latency_enabled sd' = sd_low_latency_enabled sd \<and> sd_xrunblocks sd' = sd_xrunblocks sd \<and>
     jitter_capacity (sd_jitter_buffer sd') = jitter_capacity (sd_jitter_buffer sd)"

definition plays :: "block_source \<Rightarrow> ('d \<Rightarrow> bool) \<Rightarrow> nat set \<Rightarrow> 'd source_desc \<Rightarrow> 'd source_desc \<Rightarrow> bool" where
  "plays S P F sd sd' \<longleftrightarrow> playable S P F sd' \<and> same F sd sd'"

lemmas play_defs = plays_def playable_def same_def frames_inv_def

text \<open>What popping blocks leaves alone.\<close>

definition control :: "'d source_desc \<Rightarrow> stream_state \<times> bool \<times> AooLowLatencyStreamConfiguration \<times> int \<times> int \<times> dynamic_resampler" where
  "control sd = (sd_stream_state sd, sd_low_latency_enabled sd, sd_low_latency_configuration sd,
     sd_latency_blocks sd, sd_latency_samples sd, sd_resampler sd)"

lemma plays_refl: "playable S P F sd \<Longrightarrow> plays S P F sd sd"
  by (simp add: plays_def same_def)

lemma plays_trans: "plays S P F sd sd' \<Longrightarrow> plays S P F sd' sd'' \<Longrightarrow> plays S P F sd sd''"
  by (simp add: plays_def same_def)

lemma playsD: "plays S P F sd sd' \<Longrightarrow> playable S P F sd'"
  by (simp add: plays_def)

lemma playable_format:
  assumes "playable S P F sd"
  shows "\<exists>fmt dec. sd_format sd = Some fmt \<and> format_ok fmt \<and> sd_decoder sd = Some dec \<and> P dec \<and>
    (rs_bypass (sd_resampler sd) \<or> rs_nchannels (sd_resampler sd) = numChannels fmt) \<and> 1 \<le> sd_latency_blocks sd \<and>
    0 \<le> sd_channel sd"
  using assms by (auto simp: playable_def format_set_def setup_of_def rs_shape_def)

lemma plays_observe [simp]: "plays S P F sd0 (observe ob sd) = plays S P F sd0 sd"
  by (simp add: play_defs observe_def)

lemma plays_queue_event [simp]: "plays S P F sd0 (queue_event e sd) = plays S P F sd0 sd"
  by (simp add: play_defs queue_event_def)

lemma control_effects [simp]: "control (observe ob sd) = control sd" "control (queue_event e sd) = control sd"
  by (simp_all add: control_def effect_defs)

lemma effects_other [simp]:
  "sd_resampler (queue_event e sd) = sd_resampler sd" "sd_resampler (observe ob sd) = sd_resampler sd"
  "sd_stream_state (queue_event e sd) = sd_stream_state sd" "sd_stream_state (observe ob sd) = sd_stream_state sd"
  "sd_format (queue_event e sd) = sd_format sd" "sd_format (observe ob sd) = sd_format sd"
  "sd_low_latency_enabled (queue_event e sd) = sd_low_latency_enabled sd"
  "sd_low_latency_enabled (observe ob sd) = sd_low_latency_enabled sd"
  by (simp_all add: effect_defs)

lemma playable_updates [simp]:
  "playable S P F (sd\<lparr> sd_stream_samples := x \<rparr>) = playable S P F sd"
  "playable S P F (sd\<lparr> sd_stream_messages := m \<rparr>) = playable S P F sd"
  "playable S P F (sd\<lparr> sd_stream_state := st \<rparr>) = playable S P F sd"
  "playable S P F (sd\<lparr> sd_consecutive_missing_blocks := k \<rparr>) = playable S P F sd"
  "playable S P F (sd\<lparr> sd_last_absolute_sample_position := a \<rparr>) = playable S P F sd"
  "playable S P F (sd\<lparr> sd_stream_start := t \<rparr>) = playable S P F sd"
  "playable S P F (sd\<lparr> sd_buffer_latency := l \<rparr>) = playable S P F sd"
  by (simp_all add: play_defs)

lemma same_updates [simp]:
  "same F sd0 (sd\<lparr> sd_stream_samples := x \<rparr>) = same F sd0 sd"
  "same F sd0 (sd\<lparr> sd_stream_messages := m \<rparr>) = same F sd0 sd"
  "same F sd0 (sd\<lparr> sd_channel := c \<rparr>) = same F sd0 sd"
  "same F sd0 (sd\<lparr> sd_stream_state := st \<rparr>) = same F sd0 sd"
  "same F sd0 (sd\<lparr> sd_consecutive_missing_blocks := k \<rparr>) = same F sd0 sd"
  "same F sd0 (sd\<lparr> sd_last_absolute_sample_position := a \<rparr>) = same F sd0 sd"
  "same F sd0 (sd\<lparr> sd_stream_start := t \<rparr>) = same F sd0 sd"
  "same F sd0 (sd\<lparr> sd_buffer_latency := l \<rparr>) = same F sd0 sd"
  by (simp_all add: same_def)

lemma plays_updates [simp]:
  "plays S P F sd0 (sd\<lparr> sd_stream_samples := x \<rparr>) = plays S P F sd0 sd"
  "plays S P F sd0 (sd\<lparr> sd_stream_messages := m \<rparr>) = plays S P F sd0 sd"
  "plays S P F sd0 (sd\<lparr> sd_stream_state := st \<rparr>) = plays S P F sd0 sd"
  "plays S P F sd0 (sd\<lparr> sd_consecutive_missing_blocks := k \<rparr>) = plays S P F sd0 sd"
  "plays S P F sd0 (sd\<lparr> sd_last_absolute_sample_position := a \<rparr>) = plays S P F sd0 sd"
  "plays S P F sd0 (sd\<lparr> sd_stream_start := t \<rparr>) = plays S P F sd0 sd"
  "plays S P F sd0 (sd\<lparr> sd_buffer_latency := l \<rparr>) = plays S P F sd0 sd"
  by (simp_all add: plays_def)

lemma control_updates [simp]:
  "control (sd\<lparr> sd_stream_samples := x \<rparr>) = control sd"
  "control (sd\<lparr> sd_stream_messages := m \<rparr>) = control sd"
  "control (sd\<lparr> sd_channel := c \<rparr>) = control sd"
  "control (sd\<lparr> sd_consecutive_missing_blocks := k \<rparr>) = control sd"
  "control (sd\<lparr> sd_last_absolute_sample_position := a \<rparr>) = control sd"
  "control (sd\<lparr> sd_decoder := d \<rparr>) = control sd"
  by (simp_all add: control_def)

subsection \<open>Counting and dropping blocks\<close>

lemma walk_begin:
  assumes "jb_ok jb" and "0 < jb_size jb"
  shows "jitter_walk jb (Some (jb_tail jb)) = Some (map (\<lambda>j. (jb_tail jb + j) mod jitter_capacity jb) [0..<jb_size jb])"
  using jitter_walk_from [OF assms] assms(1) by (simp add: jb_ok_def)

lemma count_complete_ok:
  assumes ok: "jb_ok jb"
  shows "\<exists>n. count_complete jb (jitter_begin jb) = Some n \<and> 0 \<le> n \<and> n \<le> int (jb_size jb)"
proof (cases "jb_size jb = 0")
  case True
  then show ?thesis by (simp add: count_complete_def jitter_begin_def jitter_empty_def jitter_walk.simps)
next
  case False
  define ws where "ws = map (\<lambda>j. (jb_tail jb + j) mod jitter_capacity jb) [0..<jb_size jb]"
  have "length (takeWhile (\<lambda>i. block_complete (jb_data jb ! i)) ws) \<le> jb_size jb"
    using length_takeWhile_le [of _ ws] by (simp add: ws_def)
  then show ?thesis
    using walk_begin [OF ok] False by (simp add: count_complete_def jitter_begin_def jitter_empty_def flip: ws_def)
qed

lemma count_complete_next:
  assumes ok: "jb_ok jb" and ne: "0 < jb_size jb"
  shows "\<exists>n. count_complete jb (jitter_iter_next jb (jb_tail jb)) = Some n"
  using walk_begin [OF assms] by (auto simp: jitter_walk.simps [of jb "Some _"] count_complete_def split: bind_splits)

lemma playable_jb:
  "playable S P F sd \<Longrightarrow> jb_ok (sd_jitter_buffer sd)"
  "playable S P F sd \<Longrightarrow> jinv S F (sd_jitter_buffer sd) (sd_frame_allocator sd)"
  "playable S P F sd \<Longrightarrow> resampler_ready (sd_resampler sd)"
  using jinvD(1) by (auto simp: play_defs)

lemma pop_block_ok:
  assumes p: "playable S P F sd" and ne: "0 < jb_size (sd_jitter_buffer sd)"
  shows "\<exists>sd'. pop_block sd = Some sd' \<and> plays S P F sd sd' \<and> control sd' = control sd \<and>
    jb_size (sd_jitter_buffer sd') = jb_size (sd_jitter_buffer sd) - 1"
proof -
  obtain jb al where j: "jitter_pop (sd_jitter_buffer sd) (sd_frame_allocator sd) = Some (jb, al)"
    "jinv S F jb al" "jb_size jb = jb_size (sd_jitter_buffer sd) - 1"
    "jitter_capacity jb = jitter_capacity (sd_jitter_buffer sd)" "\<forall>a \<in> F. heap al a = heap (sd_frame_allocator sd) a"
    using pop_jinv [OF playable_jb(2) [OF p] ne] by (elim exE conjE) (rule that)
  then have "\<forall>a \<in> F. payload (heap al) a = payload (heap (sd_frame_allocator sd)) a" by (simp add: payload_def)
  then show ?thesis using j p by (simp add: pop_block_def control_def play_defs)
qed

lemma plays_position [simp]: "plays S P F sd0 (advance_position e sd) = plays S P F sd0 sd"
  "playable S P F (advance_position e sd) = playable S P F sd"
  "control (advance_position e sd) = control sd" "sd_jitter_buffer (advance_position e sd) = sd_jitter_buffer sd"
  "sd_resampler (advance_position e sd) = sd_resampler sd"
  by (simp_all add: advance_position_def play_defs control_def)

lemma discard_front_ok:
  assumes p: "playable S P F sd" and ne: "0 < jb_size (sd_jitter_buffer sd)"
  shows "\<exists>sd'. discard_front sd = Some sd' \<and> plays S P F sd sd' \<and> control sd' = control sd \<and>
    jb_size (sd_jitter_buffer sd') = jb_size (sd_jitter_buffer sd) - 1"
proof -
  obtain fmt where fmt: "sd_format sd = Some fmt" using playable_format [OF p] by blast
  define sd1 where "sd1 = advance_position (rb_absolute_sample_position (front_block sd) + stale_frames fmt (front_block sd)) sd"
  have 1: "plays S P F sd sd1" "control sd1 = control sd" "sd_jitter_buffer sd1 = sd_jitter_buffer sd"
    using plays_refl [OF p] by (simp_all add: sd1_def)
  obtain sd' where 2: "pop_block sd1 = Some sd'" "plays S P F sd1 sd'" "control sd' = control sd1"
    "jb_size (sd_jitter_buffer sd') = jb_size (sd_jitter_buffer sd1) - 1"
    using pop_block_ok [OF playsD [OF 1(1)]] ne 1(3) by auto
  have "discard_front sd = Some sd'" using fmt 2(1) by (simp add: discard_front_def sd1_def)
  then show ?thesis using 1 2 plays_trans [OF 1(1) 2(2)] by simp
qed

lemma drop_incomplete_ok:
  assumes "playable S P F sd"
  shows "\<exists>sd'. drop_incomplete n sd = Some sd' \<and> plays S P F sd sd' \<and> control sd' = control sd \<and>
    jb_size (sd_jitter_buffer sd') \<le> jb_size (sd_jitter_buffer sd)"
  using assms
proof (induction n arbitrary: sd)
  case 0
  then show ?case by (simp add: plays_refl)
next
  case (Suc n)
  let ?jb = "sd_jitter_buffer sd"
  show ?case
  proof (cases "\<not> jitter_empty ?jb \<and> \<not> block_complete (front_block sd)")
    case False
    then show ?thesis using plays_refl [OF Suc.prems] by auto
  next
    case True
    then have ne: "0 < jb_size ?jb" by (simp add: jitter_empty_def)
    obtain m where m: "count_complete ?jb (jitter_iter_next ?jb (jb_tail ?jb)) = Some m"
      using count_complete_next [OF playable_jb(1) [OF Suc.prems] ne] by blast
    obtain sd1 where 1: "discard_front sd = Some sd1" "plays S P F sd sd1" "control sd1 = control sd"
      "jb_size (sd_jitter_buffer sd1) = jb_size ?jb - 1"
      using discard_front_ok [OF Suc.prems ne] by blast
    let ?sd = "observe ObserveIncompleteBlock sd1"
    have "plays S P F sd ?sd" using 1(2) by simp
    obtain sd2 where 2: "drop_incomplete n ?sd = Some sd2" "plays S P F ?sd sd2" "control sd2 = control ?sd"
      "jb_size (sd_jitter_buffer sd2) \<le> jb_size (sd_jitter_buffer ?sd)"
      using Suc.IH [OF playsD [OF \<open>plays S P F sd ?sd\<close>]] by blast
    have "plays S P F sd sd2" by (rule plays_trans [OF \<open>plays S P F sd ?sd\<close> 2(2)])
    then show ?thesis using True m 1 2 plays_refl [OF Suc.prems] by (auto simp: Let_def jitter_begin_def)
  qed
qed

lemma trim_blocks_ok:
  assumes "playable S P F sd" and "n \<le> jb_size (sd_jitter_buffer sd)"
  shows "\<exists>sd'. trim_blocks r n sd = Some sd' \<and> plays S P F sd sd' \<and> control sd' = control sd \<and>
    jb_size (sd_jitter_buffer sd') = jb_size (sd_jitter_buffer sd) - n"
  using assms
proof (induction n arbitrary: sd)
  case 0
  then show ?case by (simp add: plays_refl)
next
  case (Suc n)
  obtain fmt where fmt: "sd_format sd = Some fmt" using playable_format [OF Suc.prems(1)] by blast
  obtain sd1 where 1: "discard_front sd = Some sd1" "plays S P F sd sd1" "control sd1 = control sd"
    "jb_size (sd_jitter_buffer sd1) = jb_size (sd_jitter_buffer sd) - 1"
    using discard_front_ok [OF Suc.prems(1)] Suc.prems(2) by auto
  define sd2 where "sd2 = sd1\<lparr> sd_stream_samples := sd_stream_samples sd1 + of_nat (unat (stale_frames fmt (front_block sd))) * r \<rparr>"
  have 2: "plays S P F sd sd2" "control sd2 = control sd" "sd_jitter_buffer sd2 = sd_jitter_buffer sd1"
    using 1(2,3) by (simp_all add: sd2_def)
  have le: "n \<le> jb_size (sd_jitter_buffer sd2)" using 1(4) 2(3) Suc.prems(2) by simp
  obtain sd3 where 3: "trim_blocks r n sd2 = Some sd3" "plays S P F sd2 sd3" "control sd3 = control sd2"
    "jb_size (sd_jitter_buffer sd3) = jb_size (sd_jitter_buffer sd2) - n"
    using Suc.IH [OF playsD [OF 2(1)] le] by (elim exE conjE) (rule that)
  moreover have "trim_blocks r (Suc n) sd = trim_blocks r n sd2" using fmt 1(1) by (simp add: sd2_def)
  ultimately show ?case using 1 2 plays_trans [OF 2(1) 3(2)] by auto
qed

subsection \<open>Configuration and statistics\<close>

lemma resident_blocks_pos: "1 \<le> low_latency_resident_blocks t b"
proof (cases "t = 0 \<or> b \<le> 0")
  case False
  then have "0 \<le> (of_nat (unat t) / of_int b :: real)" by (intro divide_nonneg_nonneg of_nat_0_le_iff) simp
  then have "0 \<le> \<lceil>of_nat (unat t) / of_int b :: real\<rceil>" by linarith
  then show ?thesis using False by (simp add: low_latency_resident_blocks_def)
qed (simp add: low_latency_resident_blocks_def)

lemma update_target_ok:
  assumes p: "playable S P F sd"
  shows "\<exists>sd'. update_target s sd = Some sd' \<and> plays S P F sd sd' \<and>
    sd_jitter_buffer sd' = sd_jitter_buffer sd \<and> sd_resampler sd' = sd_resampler sd \<and>
    (sd_stream_state sd = stream_buffering \<longrightarrow> sd_stream_state sd' = stream_buffering)"
proof -
  obtain fmt where fmt: "sd_format sd = Some fmt" using playable_format [OF p] by blast
  have "playable S P F (sd\<lparr> sd_low_latency_configuration := c, sd_latency_blocks := low_latency_resident_blocks t b,
      sd_latency_samples := l \<rparr>)" for c t b l
    using p resident_blocks_pos [of t b] by (auto simp: playable_def frames_inv_def format_set_def setup_of_def)
  then have "plays S P F sd (sd\<lparr> sd_low_latency_configuration := c, sd_latency_blocks := low_latency_resident_blocks t b,
      sd_latency_samples := l \<rparr>)" for c t b l
    by (simp add: plays_def same_def)
  then show ?thesis using fmt plays_refl [OF p] by (simp add: update_target_def Let_def)
qed

lemma publish_state_ok:
  assumes p: "playable S P F sd"
  shows "\<exists>obs. publish_state s sd = Some (sd\<lparr> observations := obs \<rparr>)"
proof -
  obtain fmt where fmt: "sd_format sd = Some fmt" using playable_format [OF p] by blast
  obtain n where "count_complete (sd_jitter_buffer sd) (jitter_begin (sd_jitter_buffer sd)) = Some n"
    using count_complete_ok [OF playable_jb(1) [OF p]] by blast
  then have "\<exists>obs. publish_state s sd = Some (if sd_low_latency_enabled sd then observe obs sd else sd)"
    using fmt by (auto simp: publish_state_def Let_def)
  moreover have "\<exists>obs. sd = sd\<lparr> observations := obs \<rparr>" by (rule exI [of _ "observations sd"]) simp
  ultimately show ?thesis by (auto simp: observe_def split: if_splits)
qed

lemma plays_observations [simp]:
  "plays S P F sd0 (sd\<lparr> observations := obs \<rparr>) = plays S P F sd0 sd"
  "playable S P F (sd\<lparr> observations := obs \<rparr>) = playable S P F sd"
  "control (sd\<lparr> observations := obs \<rparr>) = control sd"
  by (simp_all add: play_defs control_def)

lemma plays_check_latency [simp]:
  "plays S P F sd0 (check_latency s sd) = plays S P F sd0 sd"
  by (simp add: check_latency_def Let_def)

lemma check_latency_keeps [simp]: "sd_resampler (check_latency s sd) = sd_resampler sd"
  "control (check_latency s sd) = control sd" "sd_jitter_buffer (check_latency s sd) = sd_jitter_buffer sd"
  by (simp_all add: check_latency_def Let_def control_def queue_event_def)

subsection \<open>The decoder and the resampler\<close>

definition room :: "dynamic_resampler \<Rightarrow> nat" where
  "room rs = nat \<lfloor>of_int (rs_size rs) - rs_balance rs\<rfloor>"

lemma decode_samples_ok:
  assumes p: "playable S P F sd" and cls: "\<forall>fmt. sd_format sd = Some fmt \<longrightarrow> decoder_ok S P cls fmt" and f: "fed S data sz"
  shows "\<exists>xs dec fmt. decode_samples cls data sz sd = Some (xs, sd\<lparr> sd_decoder := Some dec \<rparr>) \<and> P dec \<and>
    sd_format sd = Some fmt \<and> int (length xs) = blockSize fmt * numChannels fmt"
proof -
  obtain fmt dec where fmt: "sd_format sd = Some fmt" "format_ok fmt" "sd_decoder sd = Some dec" "P dec"
    using playable_format [OF p] by blast
  obtain out dec' where d: "decode cls dec data sz (blockSize fmt) = (out, dec')"
    by (cases "decode cls dec data sz (blockSize fmt)")
  have "P dec'" "\<forall>xs. out = Some xs \<longrightarrow> int (length xs) = blockSize fmt * numChannels fmt"
    using cls fmt(1,4) f d by (force simp: decoder_ok_def)+
  moreover have "int (nat (blockSize fmt * numChannels fmt)) = blockSize fmt * numChannels fmt"
    using fmt(2) by (simp add: format_ok_def)
  moreover have "length xs = nat (blockSize fmt * numChannels fmt)" if "out = Some xs" for xs
    using calculation(2) that by (simp flip: nat_int)
  ultimately show ?thesis using fmt d by (auto simp: decode_samples_def split: option.splits)
qed

lemma write_ready:
  assumes r: "resampler_ready rs" and b: "\<not> rs_bypass rs" and n: "0 < n" "n * rs_nchannels rs \<le> int (length xs)"
  shows "\<exists>ok rs'. resampler_write xs n rs = Some (ok, rs') \<and> resampler_ready rs' \<and> rs_shape rs' = rs_shape rs \<and>
    (ok \<longrightarrow> room rs' < room rs)"
proof -
  obtain s W R where st: "streams rs s W R" using r b by (auto simp: resampler_ready_def)
  note w = resampler_write_ok [OF st _ n(2)]
  show ?thesis
  proof (cases "rs_balance rs + of_int n \<le> of_int (rs_size rs) - 1")
    case False
    then show ?thesis using w n r by auto
  next
    case True
    then obtain rs' m w b where rs': "resampler_write xs n rs = Some (True, rs')"
      "streams rs' (extend_stream s W n (rs_nchannels rs) xs) (W + n) R"
      "rs' = rs\<lparr> rs_buffer := m, rs_wrpos := w, rs_balance := b \<rparr>"
      using w n by auto
    have eq: "rs_bypass rs' = rs_bypass rs" "rs_method rs' = rs_method rs" "rs_advance rs' = rs_advance rs"
      "rs_fixed_sr rs' = rs_fixed_sr rs" "rs_nchannels rs' = rs_nchannels rs" "rs_size rs' = rs_size rs"
      using rs'(3) by simp_all
    have "step_size rs' = step_size rs" by (simp only: step_size_def eq)
    then have ready: "resampler_ready rs'" using r b rs'(2) eq by (auto simp: resampler_ready_def)
    have "rs_balance rs' = of_int (W + n) - R" "rs_balance rs = of_int W - R"
      using st rs'(2) by (simp_all add: streams_def)
    then have bal: "rs_balance rs' = rs_balance rs + of_int n" by simp
    then have "\<lfloor>of_int (rs_size rs') - rs_balance rs'\<rfloor> = \<lfloor>of_int (rs_size rs) - rs_balance rs\<rfloor> - n"
      unfolding eq(6) by linarith
    moreover have "1 \<le> \<lfloor>of_int (rs_size rs') - rs_balance rs'\<rfloor>" using True bal eq(6) by (subst le_floor_iff) simp
    ultimately have "room rs' < room rs" using n(1) unfolding room_def by linarith
    then show ?thesis using rs'(1) ready eq by (auto simp: rs_shape_def)
  qed
qed

lemma update_ready:
  assumes r: "resampler_ready rs" and f: "\<not> rs_fixed_sr rs" and x: "0 < a" "0 < b"
  shows "resampler_ready (resampler_update a b rs)" "rs_shape (resampler_update a b rs) = rs_shape rs"
    "room (resampler_update a b rs) = room rs"
proof -
  let ?rs = "rs\<lparr> rs_advance := a / b \<rparr>"
  have "rs_method rs = method_skip \<Longrightarrow> \<not> rs_bypass rs \<Longrightarrow> False" using r f by (simp add: resampler_ready_def)
  then have "0 < step_size ?rs" if "\<not> rs_bypass rs"
    using that x by (cases "rs_method rs") (auto simp: step_size_def)
  then show "resampler_ready (resampler_update a b rs)"
    using r f by (auto simp: resampler_update_def resampler_ready_def streams_update)
  show "rs_shape (resampler_update a b rs) = rs_shape rs" "room (resampler_update a b rs) = room rs"
    by (simp_all add: resampler_update_def rs_shape_def room_def)
qed

lemma plays_resampler:
  assumes "plays S P F sd0 sd" and "resampler_ready rs" and "rs_shape rs = rs_shape (sd_resampler sd)"
  shows "plays S P F sd0 (sd\<lparr> sd_resampler := rs \<rparr>)"
proof -
  have "playable S P F (sd\<lparr> sd_resampler := rs \<rparr>)"
    using playsD [OF assms(1)] assms(2,3) by (simp add: playable_def frames_inv_def setup_of_def)
  moreover have "same F sd0 (sd\<lparr> sd_resampler := rs \<rparr>)" using assms(1,3) by (simp add: plays_def same_def)
  ultimately show ?thesis by (simp add: plays_def)
qed

lemma plays_decoder:
  assumes "plays S P F sd0 sd" and "P dec"
  shows "plays S P F sd0 (sd\<lparr> sd_decoder := Some dec \<rparr>)"
proof -
  have "playable S P F (sd\<lparr> sd_decoder := Some dec \<rparr>)"
    using playsD [OF assms(1)] assms(2) by (simp add: playable_def frames_inv_def)
  moreover have "same F sd0 (sd\<lparr> sd_decoder := Some dec \<rparr>)" using assms(1) by (simp add: plays_def same_def)
  ultimately show ?thesis by (simp add: plays_def)
qed

text \<open>
  A low-latency stream that buffers with an empty jitter buffer only produces concealment.
\<close>

definition idle :: "'d source_desc \<Rightarrow> bool" where
  "idle sd \<longleftrightarrow> sd_low_latency_enabled sd \<and> sd_stream_state sd = stream_buffering \<and> jb_size (sd_jitter_buffer sd) = 0"

definition progress :: "'d source_desc \<Rightarrow> 'd source_desc \<Rightarrow> bool" where
  "progress sd sd' \<longleftrightarrow> (room (sd_resampler sd') < room (sd_resampler sd) \<and> (idle sd \<longrightarrow> idle sd')) \<or> \<not> idle sd \<and> idle sd'"

definition whole_block :: "'d source_desc \<Rightarrow> real list \<Rightarrow> bool" where
  "whole_block sd out \<longleftrightarrow> (\<exists>fmt. sd_format sd = Some fmt \<and> int (length out) = blockSize fmt * numChannels fmt)"

text \<open>Samples on the way into the resampler, or directly to the caller.\<close>

lemma write_block:
  assumes p: "playable S P F sd" and x: "whole_block sd xs" and b: "\<not> rs_bypass (sd_resampler sd)"
    and fmt: "sd_format sd = Some fmt"
  shows "\<exists>ok rs. resampler_write xs (blockSize fmt) (sd_resampler sd) = Some (ok, rs) \<and> resampler_ready rs \<and>
    rs_shape rs = rs_shape (sd_resampler sd) \<and> (ok \<longrightarrow> room rs < room (sd_resampler sd))"
proof -
  have "format_ok fmt" "rs_nchannels (sd_resampler sd) = numChannels fmt"
    using playable_format [OF p] fmt b by auto
  then show ?thesis
    using write_ready [OF playable_jb(3) [OF p] b, of "blockSize fmt" xs] x fmt
    by (auto simp: whole_block_def format_ok_def)
qed

lemma plays_shape: "plays S P F sd sd' \<Longrightarrow> rs_bypass (sd_resampler sd') = rs_bypass (sd_resampler sd)"
  "plays S P F sd sd' \<Longrightarrow> rs_fixed_sr (sd_resampler sd') = rs_fixed_sr (sd_resampler sd)"
  "plays S P F sd sd' \<Longrightarrow> sd_format sd' = sd_format sd"
  "plays S P F sd sd' \<Longrightarrow> sd_low_latency_enabled sd' = sd_low_latency_enabled sd"
  by (simp_all add: plays_def same_def rs_shape_def)

lemma conceal_ok:
  assumes p: "playable S P F sd" and s: "settings_ok s"
    and cls: "\<forall>fmt. sd_format sd = Some fmt \<longrightarrow> decoder_ok S P cls fmt"
  shows "\<exists>ok out sd'. conceal cls s sd = Some (Some (ok, out), sd') \<and> plays S P F sd sd' \<and>
    sd_jitter_buffer sd' = sd_jitter_buffer sd \<and> sd_stream_state sd' = sd_stream_state sd \<and>
    sd_latency_blocks sd' = sd_latency_blocks sd \<and> sd_low_latency_configuration sd' = sd_low_latency_configuration sd \<and>
    (rs_bypass (sd_resampler sd) \<longrightarrow> ok \<and> whole_block sd out) \<and>
    (\<not> rs_bypass (sd_resampler sd) \<and> ok \<longrightarrow> room (sd_resampler sd') < room (sd_resampler sd))"
proof -
  obtain fmt where fmt: "sd_format sd = Some fmt" "format_ok fmt" using playable_format [OF p] by blast
  have pos: "(0 :: real) < of_int (sampleRate fmt)" "(0 :: real) < of_int (sk_samplerate s)"
    using fmt(2) s by (simp_all add: format_ok_def settings_ok_def)
  define rs1 where "rs1 = (if \<not> rs_fixed_sr (sd_resampler sd)
    then resampler_update (of_int (sampleRate fmt)) (of_int (sk_samplerate s)) (sd_resampler sd) else sd_resampler sd)"
  have rs1: "resampler_ready rs1" "rs_shape rs1 = rs_shape (sd_resampler sd)" "room rs1 = room (sd_resampler sd)"
    using update_ready [OF playable_jb(3) [OF p] _ pos] playable_jb(3) [OF p] by (simp_all add: rs1_def)
  define sd1 where "sd1 = sd\<lparr> sd_resampler := rs1 \<rparr>"
  have 1: "plays S P F sd sd1" using plays_resampler [OF plays_refl [OF p] rs1(1,2)] by (simp add: sd1_def)
  have sd1: "(if \<not> rs_fixed_sr (sd_resampler sd)
      then sd\<lparr> sd_resampler := resampler_update (of_int (sampleRate fmt)) (of_int (sk_samplerate s)) (sd_resampler sd) \<rparr>
      else sd) = sd1" by (simp add: sd1_def rs1_def)
  obtain xs dec where d: "decode_samples cls None 0 sd1 = Some (xs, sd1\<lparr> sd_decoder := Some dec \<rparr>)" "P dec" "whole_block sd1 xs"
    using decode_samples_ok [OF playsD [OF 1], of cls None 0] cls by (auto simp: sd1_def fed_def whole_block_def)
  define sd2 where "sd2 = sd1\<lparr> sd_decoder := Some dec, sd_stream_samples := sd_stream_samples sd1 +
    of_int (blockSize fmt) * (of_int (sk_samplerate s) / of_int (sampleRate fmt)) \<rparr>"
  have 2: "plays S P F sd sd2" using plays_decoder [where P = P, OF 1 d(2)] by (simp add: sd2_def)
  have e: "conceal cls s sd = (if rs_bypass (sd_resampler sd2) then Some (Some (True, xs), sd2)
     else do {
       (ok, rs) \<leftarrow> resampler_write xs (blockSize fmt) (sd_resampler sd2);
       Some (Some (ok, []), sd2\<lparr> sd_resampler := rs \<rparr>) })"
    unfolding conceal_def Let_def using fmt(1) d(1) by (simp add: sd1 sd2_def)
  have eq: "sd_jitter_buffer sd2 = sd_jitter_buffer sd" "sd_stream_state sd2 = sd_stream_state sd"
    "sd_resampler sd2 = rs1" "sd_format sd2 = sd_format sd" "sd_latency_blocks sd2 = sd_latency_blocks sd"
    "sd_low_latency_configuration sd2 = sd_low_latency_configuration sd" by (simp_all add: sd2_def sd1_def)
  have w: "whole_block sd2 xs" "whole_block sd xs" using d(3) by (simp_all add: whole_block_def sd1_def sd2_def)
  show ?thesis
  proof (cases "rs_bypass (sd_resampler sd2)")
    case True
    then show ?thesis using e 2 eq w plays_shape(1) [OF 2] by auto
  next
    case False
    obtain ok rs where r: "resampler_write xs (blockSize fmt) (sd_resampler sd2) = Some (ok, rs)" "resampler_ready rs"
      "rs_shape rs = rs_shape (sd_resampler sd2)" "ok \<longrightarrow> room rs < room (sd_resampler sd2)"
      using write_block [OF playsD [OF 2] w(1) False] fmt(1) eq(4) by auto
    then show ?thesis using False e eq rs1(3) plays_resampler [OF 2 r(2,3)] plays_shape(1) [OF 2] by simp
  qed
qed

subsection \<open>Buffering\<close>

lemma tidy_ok:
  assumes p: "playable S P F sd"
  shows "\<exists>n sd'. tidy sd = Some (n, sd') \<and> plays S P F sd sd' \<and> control sd' = control sd \<and>
    jb_size (sd_jitter_buffer sd') \<le> jb_size (sd_jitter_buffer sd) \<and> n \<le> int (jb_size (sd_jitter_buffer sd))"
proof -
  obtain sd1 where 1: "(if wired sd then drop_incomplete (jb_size (sd_jitter_buffer sd)) sd else Some sd) = Some sd1"
    "plays S P F sd sd1" "control sd1 = control sd" "jb_size (sd_jitter_buffer sd1) \<le> jb_size (sd_jitter_buffer sd)"
    using drop_incomplete_ok [OF p, of "jb_size (sd_jitter_buffer sd)"] plays_refl [OF p] by (cases "wired sd") auto
  obtain n where n: "(if sd_low_latency_enabled sd1
      then count_complete (sd_jitter_buffer sd1) (jitter_begin (sd_jitter_buffer sd1)) else Some 0) = Some n"
    "0 \<le> n" "n \<le> int (jb_size (sd_jitter_buffer sd1))"
    using count_complete_ok [OF playable_jb(1) [OF playsD [OF 1(2)]]] by (cases "sd_low_latency_enabled sd1") auto
  show ?thesis
  proof (cases "wired sd1 \<and> n > sd_latency_blocks sd1")
    case False
    then have "tidy sd = Some (n, sd1)" using 1(1) n(1) by (auto simp: tidy_def)
    then show ?thesis using 1 n by (intro exI conjI) auto
  next
    case True
    let ?k = "n - sd_latency_blocks sd1"
    have pos: "1 \<le> sd_latency_blocks sd1" using playable_format [OF playsD [OF 1(2)]] by blast
    have le: "nat ?k \<le> jb_size (sd_jitter_buffer sd1)" using n(3) pos by simp
    obtain sd2 where 2: "trim_blocks 0 (nat ?k) sd1 = Some sd2" "plays S P F sd1 sd2" "control sd2 = control sd1"
      "jb_size (sd_jitter_buffer sd2) = jb_size (sd_jitter_buffer sd1) - nat ?k"
      using trim_blocks_ok [OF playsD [OF 1(2)] le, of 0] by (elim exE conjE) (rule that)
    have "tidy sd = Some (sd_latency_blocks sd1, observe (ObserveTrimmedBacklog ?k) sd2)"
      using True 1(1) n(1) 2(1) by (simp add: tidy_def)
    moreover have "plays S P F sd sd2" by (rule plays_trans [OF 1(2) 2(2)])
    ultimately show ?thesis using 1(3,4) 2(3,4) n(3) True by auto
  qed
qed

lemma controlD:
  assumes "control sd' = control sd"
  shows "sd_stream_state sd' = sd_stream_state sd" "sd_low_latency_enabled sd' = sd_low_latency_enabled sd"
    "sd_latency_blocks sd' = sd_latency_blocks sd" "sd_resampler sd' = sd_resampler sd"
  using assms by (simp_all add: control_def)

definition returns_ok :: "'d source_desc \<Rightarrow> bool \<Rightarrow> real list \<Rightarrow> 'd source_desc \<Rightarrow> bool" where
  "returns_ok sd ok out sd' \<longleftrightarrow> (ok \<longrightarrow> (if rs_bypass (sd_resampler sd) then whole_block sd out else progress sd sd'))"

lemma buffering_step_ok:
  assumes p: "playable S P F sd" and s: "settings_ok s"
    and cls: "\<forall>fmt. sd_format sd = Some fmt \<longrightarrow> decoder_ok S P cls fmt"
  shows "\<exists>ret sd'. buffering_step cls s sd = Some (ret, sd') \<and> plays S P F sd sd' \<and>
    (case ret of None \<Rightarrow> sd_resampler sd' = sd_resampler sd \<and> \<not> idle sd | Some (ok, out) \<Rightarrow> returns_ok sd ok out sd')"
proof (cases "sd_stream_state sd = stream_buffering \<and> \<not> sd_stopped sd")
  case False
  then show ?thesis using plays_refl [OF p] by (auto simp: buffering_step_def returns_ok_def idle_def)
next
  case True
  obtain n sd1 where 1: "tidy sd = Some (n, sd1)" "plays S P F sd sd1" "control sd1 = control sd"
    "jb_size (sd_jitter_buffer sd1) \<le> jb_size (sd_jitter_buffer sd)" "n \<le> int (jb_size (sd_jitter_buffer sd))"
    using tidy_ok [OF p] by (elim exE conjE) (rule that)
  note c = controlD [OF 1(3)]
  have pos: "1 \<le> sd_latency_blocks sd1" using playable_format [OF playsD [OF 1(2)]] by blast
  let ?el = "min (int32 (sd_process_samples sd)) (trunc (sd_stream_samples sd + 1 / 2))"
  let ?wait = "?el < sd_latency_samples sd1 \<or> int (jb_size (sd_jitter_buffer sd1)) < sd_latency_blocks sd1 \<or>
    (sd_low_latency_enabled sd1 \<and> n < sd_latency_blocks sd1)"
  show ?thesis
  proof (cases ?wait)
    case False
    then have "\<not> idle sd" using 1(5) c pos by (auto simp: idle_def)
    moreover define sd2 where "sd2 = check_latency s (sd1\<lparr> sd_stream_state := stream_active,
      sd_stream_start := trunc (sd_stream_samples sd1 + of_int (sd_source_codec_delay sd1)
        + of_int (sd_sink_codec_delay sd1) + of_int (sd_sample_offset sd1)) \<rparr>)"
    moreover have "buffering_step cls s sd = Some (None, sd2)"
      using True False 1(1) by (auto simp: buffering_step_def Let_def sd2_def)
    ultimately show ?thesis using 1(2) c(4) by simp
  next
    case wait: True
    have cls': "\<forall>fmt. sd_format sd1 = Some fmt \<longrightarrow> decoder_ok S P cls fmt"
      using cls plays_shape(3) [OF 1(2)] by simp
    obtain ok out sd2 where 2: "conceal cls s sd1 = Some (Some (ok, out), sd2)" "plays S P F sd1 sd2"
      "sd_jitter_buffer sd2 = sd_jitter_buffer sd1" "sd_stream_state sd2 = sd_stream_state sd1"
      "sd_latency_blocks sd2 = sd_latency_blocks sd1" "sd_low_latency_configuration sd2 = sd_low_latency_configuration sd1"
      "rs_bypass (sd_resampler sd1) \<longrightarrow> ok \<and> whole_block sd1 out"
      "\<not> rs_bypass (sd_resampler sd1) \<and> ok \<longrightarrow> room (sd_resampler sd2) < room (sd_resampler sd1)"
      using conceal_ok [OF playsD [OF 1(2)] s cls'] by (elim exE conjE) (rule that)
    have "whole_block sd1 out = whole_block sd out" by (simp add: whole_block_def plays_shape(3) [OF 1(2)])
    moreover have "idle sd \<longrightarrow> idle sd2"
      using 1(4) 2(3,4) c plays_shape(4) [OF 1(2)] plays_shape(4) [OF 2(2)] by (auto simp: idle_def)
    ultimately have "returns_ok sd ok out sd2" using 2(7,8) c(4) by (auto simp: returns_ok_def progress_def)
    moreover have "buffering_step cls s sd =
        (if \<not> sd_low_latency_enabled sd1 \<and> ?el > sd_latency_samples sd1 * 4 then Some (Some (False, []), sd1)
         else conceal cls s sd1)"
      using True wait 1(1) by (simp add: buffering_step_def Let_def)
    moreover have "plays S P F sd sd2" by (rule plays_trans [OF 1(2) 2(2)])
    moreover have "returns_ok sd False [] sd1" by (simp add: returns_ok_def)
    ultimately show ?thesis using 1(2) 2(1) by (simp split: if_splits)
  qed
qed

subsection \<open>Playing\<close>

lemma plays_kept:
  assumes "playable S P F sd" and "frames_inv S F sd'" and "kept F sd sd'"
    and "sd_low_latency_enabled sd' = sd_low_latency_enabled sd \<and> sd_xrunblocks sd' = sd_xrunblocks sd"
  shows "plays S P F sd sd'"
  using assms by (simp add: plays_def playable_def same_def kept_def setup_of_def)

lemma reset_other:
  "jitter_buffer_reset sd = Some sd' \<Longrightarrow>
    sd_low_latency_enabled sd' = sd_low_latency_enabled sd \<and> sd_xrunblocks sd' = sd_xrunblocks sd"
  "reset_resampler sd = Some sd' \<Longrightarrow>
    sd_low_latency_enabled sd' = sd_low_latency_enabled sd \<and> sd_xrunblocks sd' = sd_xrunblocks sd"
  by (auto simp: jitter_buffer_reset_def reset_resampler_def split: bind_splits)

lemma reacquire_ok:
  assumes p: "playable S P F sd"
  shows "\<exists>sd'. reacquire s sd = Some sd' \<and> plays S P F sd sd' \<and> (sd_low_latency_enabled sd \<longrightarrow> idle sd')"
proof -
  obtain obs where 0: "publish_state s sd = Some (sd\<lparr> observations := obs \<rparr>)" using publish_state_ok [OF p] by blast
  define sd1 where "sd1 = (observe ObserveReacquisition (sd\<lparr> observations := obs \<rparr>))\<lparr> sd_consecutive_missing_blocks := 0 \<rparr>"
  have 1: "plays S P F sd sd1" using plays_refl [OF p] by (simp add: sd1_def)
  have f1: "frames_inv S F sd1" using playsD [OF 1] by (simp add: playable_def)
  obtain sd2 where 2: "jitter_buffer_reset sd1 = Some sd2" "frames_inv S F sd2" "kept F sd1 sd2"
    "jb_size (sd_jitter_buffer sd2) = 0"
    using jitter_buffer_reset_ok [OF f1] by blast
  have p2: "plays S P F sd1 sd2" by (rule plays_kept [OF playsD [OF 1] 2(2,3) reset_other(1) [OF 2(1)]])
  obtain sd3 where 3: "reset_resampler sd2 = Some sd3" "frames_inv S F sd3" "kept F sd2 sd3"
    "sd_jitter_buffer sd3 = sd_jitter_buffer sd2"
    using reset_resampler_ok [OF 2(2)] by blast
  have p3: "plays S P F sd2 sd3" by (rule plays_kept [OF playsD [OF p2] 3(2,3) reset_other(2) [OF 3(1)]])
  define sd4 where "sd4 = queue_event (StreamStateEvent stream_buffering 0)
    (queue_event BufferUnderrunEvent (sd3\<lparr> sd_stream_state := stream_buffering \<rparr>))"
  have "plays S P F sd sd3" by (rule plays_trans [OF plays_trans [OF 1 p2] p3])
  then have p4: "plays S P F sd sd4" by (simp add: sd4_def)
  have "reacquire s sd = Some sd4" using 0 2(1) 3(1) by (simp add: reacquire_def sd1_def sd4_def)
  moreover have "idle sd4" if "sd_low_latency_enabled sd"
    using that plays_shape(4) [OF p4] 2(4) 3(4) by (simp add: idle_def sd4_def)
  ultimately show ?thesis using p4 by blast
qed

lemma trim_step_ok:
  assumes p: "playable S P F sd"
  shows "\<exists>sd'. trim_step s sd = Some sd' \<and> plays S P F sd sd' \<and> control sd' = control sd"
proof (cases "wired sd \<and> sd_stream_state sd = stream_active")
  case False
  then show ?thesis using plays_refl [OF p] by (auto simp: trim_step_def)
next
  case True
  obtain fmt where fmt: "sd_format sd = Some fmt" and pos: "1 \<le> sd_latency_blocks sd"
    using playable_format [OF p] by blast
  obtain n where n: "count_complete (sd_jitter_buffer sd) (jitter_begin (sd_jitter_buffer sd)) = Some n"
    "n \<le> int (jb_size (sd_jitter_buffer sd))"
    using count_complete_ok [OF playable_jb(1) [OF p]] by blast
  let ?k = "max 0 (n - sd_latency_blocks sd)" and ?r = "of_int (sk_samplerate s) / of_int (sampleRate fmt)"
  show ?thesis
  proof (cases "?k > 0")
    case False
    then show ?thesis using True fmt n(1) plays_refl [OF p] by (simp add: trim_step_def Let_def)
  next
    case pos': True
    have le: "nat ?k \<le> jb_size (sd_jitter_buffer sd)" using n(2) pos by simp
    obtain sd1 where 1: "trim_blocks ?r (nat ?k) sd = Some sd1" "plays S P F sd sd1" "control sd1 = control sd"
      using trim_blocks_ok [OF p le] by blast
    let ?sd = "observe (ObserveTrimmedBacklog ?k) sd1"
    have "plays S P F sd ?sd" using 1(2) by simp
    moreover obtain obs where "publish_state s ?sd = Some (?sd\<lparr> observations := obs \<rparr>)"
      using publish_state_ok [OF playsD [OF calculation]] by blast
    moreover have "trim_step s sd = publish_state s ?sd"
      using True pos' fmt n(1) 1(1) by (auto simp: trim_step_def Let_def)
    ultimately show ?thesis using 1(3) by simp
  qed
qed

definition outcome :: "'d source_desc \<Rightarrow> bool \<Rightarrow> real list \<Rightarrow> 'd source_desc \<Rightarrow> bool" where
  "outcome sd ok out sd' \<longleftrightarrow> (ok \<longrightarrow>
     (if rs_bypass (sd_resampler sd) then whole_block sd out
      else room (sd_resampler sd') < room (sd_resampler sd) \<or> idle sd'))"

lemma plays_missing:
  assumes "plays S P F sd0 sd" and "jb_size (sd_jitter_buffer sd) = 0"
  shows "plays S P F sd0 (sd\<lparr> sd_jitter_buffer := jitter_advance_missing (sd_jitter_buffer sd) \<rparr>)"
proof -
  have "jinv S F (jitter_advance_missing (sd_jitter_buffer sd)) (sd_frame_allocator sd)"
    using advance_missing_jinv [OF playable_jb(2) [OF playsD [OF assms(1)]] assms(2)] .
  then have "playable S P F (sd\<lparr> sd_jitter_buffer := jitter_advance_missing (sd_jitter_buffer sd) \<rparr>)"
    using playsD [OF assms(1)] by (simp add: playable_def frames_inv_def)
  moreover have "jitter_capacity (jitter_advance_missing (sd_jitter_buffer sd)) = jitter_capacity (sd_jitter_buffer sd)"
    by (simp add: jitter_advance_missing_def jitter_capacity_def Let_def)
  ultimately show ?thesis using assms(1) by (simp add: plays_def same_def)
qed

lemma count_missing_ok:
  assumes p: "playable S P F sd" and ll: "sd_low_latency_enabled sd"
  shows "\<exists>stop sd'. count_missing s sd = Some (stop, sd') \<and> plays S P F sd sd' \<and> (stop \<longrightarrow> idle sd') \<and>
    (\<not> stop \<longrightarrow> sd_resampler sd' = sd_resampler sd \<and> sd_jitter_buffer sd' = sd_jitter_buffer sd)"
proof -
  define sd1 where "sd1 = sd\<lparr> sd_consecutive_missing_blocks := sd_consecutive_missing_blocks sd + 1 \<rparr>"
  have 1: "plays S P F sd sd1" using plays_refl [OF p] by (simp add: sd1_def)
  have "count_missing s sd = (if sd_consecutive_missing_blocks sd1 \<ge> 4
      then do { sd \<leftarrow> reacquire s sd1; Some (True, sd) } else Some (False, sd1))"
    unfolding count_missing_def Let_def sd1_def ..
  moreover obtain sd2 where "reacquire s sd1 = Some sd2" "plays S P F sd1 sd2" "idle sd2"
    using reacquire_ok [OF playsD [OF 1], of s] ll plays_shape(4) [OF 1] by auto
  moreover have "plays S P F sd sd2" by (rule plays_trans [OF 1 calculation(3)])
  moreover have "sd_resampler sd1 = sd_resampler sd" "sd_jitter_buffer sd1 = sd_jitter_buffer sd" by (simp_all add: sd1_def)
  ultimately show ?thesis using 1 by auto
qed

lemma write_silence_ok:
  assumes p: "playable S P F sd" and fmt: "sd_format sd = Some fmt"
  shows "\<exists>ok out sd'. write_silence fmt sd = Some (ok, out, sd') \<and> plays S P F sd sd' \<and>
    sd_jitter_buffer sd' = sd_jitter_buffer sd \<and> (rs_bypass (sd_resampler sd) \<longrightarrow> whole_block sd out) \<and>
    (\<not> rs_bypass (sd_resampler sd) \<and> ok \<longrightarrow> room (sd_resampler sd') < room (sd_resampler sd))"
proof -
  have "format_ok fmt" using playable_format [OF p] fmt by auto
  then have w: "whole_block sd (replicate (nat (blockSize fmt * numChannels fmt)) 0)"
    using fmt by (simp add: whole_block_def format_ok_def)
  show ?thesis
  proof (cases "rs_bypass (sd_resampler sd)")
    case True
    then show ?thesis using w plays_refl [OF p] by (auto simp: write_silence_def)
  next
    case False
    from write_block [OF p w False fmt] show ?thesis
      using False plays_resampler [OF plays_refl [OF p]] by (auto simp: write_silence_def)
  qed
qed

lemma plays_publish:
  assumes "plays S P F sd0 sd"
  shows "\<exists>obs. publish_state s sd = Some (sd\<lparr> observations := obs \<rparr>) \<and> plays S P F sd0 (sd\<lparr> observations := obs \<rparr>)"
  using publish_state_ok [OF playsD [OF assms]] assms by auto

lemma idle_observations [simp]: "idle (sd\<lparr> observations := obs \<rparr>) = idle sd"
  by (simp add: idle_def)

lemma empty_step_ok:
  assumes p: "playable S P F sd" and e: "jb_size (sd_jitter_buffer sd) = 0"
  shows "\<exists>ok out stats' sd'. empty_step s stats sd = Some ((ok, out), stats', sd') \<and> plays S P F sd sd' \<and>
    outcome sd ok out sd'"
proof (cases "sd_low_latency_enabled sd \<and> sd_stream_state sd = stream_active")
  case False
  then show ?thesis using plays_refl [OF p] by (auto simp: empty_step_def outcome_def)
next
  case True
  obtain fmt where fmt: "sd_format sd = Some fmt" using playable_format [OF p] by blast
  obtain ok out sd1 where 1: "write_silence fmt sd = Some (ok, out, sd1)" "plays S P F sd sd1"
    "sd_jitter_buffer sd1 = sd_jitter_buffer sd" "rs_bypass (sd_resampler sd) \<longrightarrow> whole_block sd out"
    "\<not> rs_bypass (sd_resampler sd) \<and> ok \<longrightarrow> room (sd_resampler sd1) < room (sd_resampler sd)"
    using write_silence_ok [OF p fmt] by (elim exE conjE) (rule that)
  show ?thesis
  proof (cases ok)
    case False
    then show ?thesis using True fmt 1(1,2) by (auto simp: empty_step_def outcome_def Let_def)
  next
    case okT: True
    define sd2 where "sd2 = sd1\<lparr> sd_stream_samples := sd_stream_samples sd1 +
        of_int (blockSize fmt) * (of_int (sk_samplerate s) / of_int (sampleRate fmt)),
      sd_jitter_buffer := jitter_advance_missing (sd_jitter_buffer sd1),
      sd_last_absolute_sample_position := sd_last_absolute_sample_position sd1 + word_of_int (blockSize fmt) \<rparr>"
    let ?sd = "observe ObserveEmptyBlock sd2"
    have p2: "plays S P F sd ?sd" "sd_resampler sd2 = sd_resampler sd1"
      using plays_missing [of S P F sd "sd1\<lparr> sd_stream_samples := x \<rparr>" for x] 1(2,3) e by (simp_all add: sd2_def)
    obtain stop sd4 where 4: "count_missing s ?sd = Some (stop, sd4)" "plays S P F ?sd sd4" "stop \<longrightarrow> idle sd4"
      "\<not> stop \<longrightarrow> sd_resampler sd4 = sd_resampler ?sd \<and> sd_jitter_buffer sd4 = sd_jitter_buffer ?sd"
      using count_missing_ok [OF playsD [OF p2(1)], of s] True plays_shape(4) [OF p2(1)] by auto
    obtain obs where 5: "publish_state s sd4 = Some (sd4\<lparr> observations := obs \<rparr>)"
      "plays S P F sd (sd4\<lparr> observations := obs \<rparr>)"
      using plays_publish [OF plays_trans [OF p2(1) 4(2)]] by blast
    have "empty_step s stats sd = Some ((True, out), stats\<lparr> dropped := dropped stats + 1 \<rparr>, sd4\<lparr> observations := obs \<rparr>)"
      using True fmt 1(1) okT 4(1) 5(1) by (simp add: empty_step_def Let_def sd2_def)
    moreover have "outcome sd True out (sd4\<lparr> observations := obs \<rparr>)"
      using 1(4,5) okT 4(3,4) p2(2) by (auto simp: outcome_def)
    ultimately show ?thesis using 5(2) by blast
  qed
qed

text \<open>The data of a complete block are the data that the source sent under its number.\<close>

lemma front_slot:
  assumes "jb_ok jb" and "0 < jb_size jb"
  shows "jitter_front jb \<in> jb_slots jb"
  using assms by (auto simp: jitter_front_def jb_slots_def jb_ok_def intro!: image_eqI [of _ _ 0])

lemma complete_block_data:
  assumes j: "jinv S F jb al" and i: "i \<in> jb_slots jb" and c: "block_complete (jb_data jb ! i)" and src: "source_ok S"
  defines "sb \<equiv> S (rb_sequence (jb_data jb ! i))"
  shows "rb_total_size (jb_data jb ! i) = int (length (sb_buffer sb))" "rb_message_size (jb_data jb ! i) = sb_message_size sb"
    "0 < double_value (rb_samplerate (jb_data jb ! i))" "0 \<le> rb_channel (jb_data jb ! i)"
    "sb_buffer sb \<noteq> [] \<Longrightarrow> block_copy_frames (heap al) (jb_data jb ! i) = Some (sb_buffer sb) \<and>
      (\<forall>t r. read_messages t r (sb_buffer sb) (nat (sb_message_size sb)) \<noteq> None) \<and> 0 \<le> sb_message_size sb"
proof -
  let ?b = "jb_data jb ! i"
  have "\<not> block_placeholder ?b" using c by (simp add: block_complete_def block_placeholder_def)
  then have fits: "int (st_size (rb_frames ?b)) = sb_num_frames sb" "rb_total_size ?b = int (length (sb_buffer sb))"
    "rb_message_size ?b = sb_message_size sb" "0 < double_value (rb_samplerate ?b)" "0 \<le> rb_channel ?b"
    using jinvD(6) [OF j i] by (simp_all add: block_fits_def sb_def)
  then show "rb_total_size ?b = int (length (sb_buffer sb))" "rb_message_size ?b = sb_message_size sb"
    "0 < double_value (rb_samplerate ?b)" "0 \<le> rb_channel ?b" by simp_all
  assume ne: "sb_buffer sb \<noteq> []"
  then have sb: "sent_block_ok sb" "\<forall>t r. read_messages t r (sb_buffer sb) (nat (sb_message_size sb)) \<noteq> None"
    "0 \<le> sb_message_size sb"
    using src unfolding source_ok_def sb_def by metis+
  obtain ms where ms: "holds al (jb_data jb) ms F" "contents_ok S (heap al) (jb_data jb) ms"
    using jinvD(3) [OF j] by blast
  have len: "i < length (jb_data jb)" by (rule jinvD(7) [OF j i])
  have bok: "block_ok (heap al) ?b (ms ! i)" by (rule holdsD(2) [OF ms(1) len])
  have "0 < st_size (rb_frames ?b)" using sb(1) fits(1) by (simp add: sent_block_ok_def)
  then have st: "storage_ok (heap al) (rb_frames ?b) (ms ! i)" "rb_received_frames ?b = int (card (dom (ms ! i)))"
    using bok by (simp_all add: block_ok_def)
  have "dom (ms ! i) \<subseteq> {..<st_size (rb_frames ?b)}" using storage_okD(1) [OF st(1)] by auto
  moreover have "card (dom (ms ! i)) = st_size (rb_frames ?b)" using c st(2) by (simp add: block_complete_def)
  ultimately have "dom (ms ! i) = {..<st_size (rb_frames ?b)}" by (simp add: card_subset_eq)
  then show "block_copy_frames (heap al) ?b = Some (sb_buffer sb) \<and>
      (\<forall>t r. read_messages t r (sb_buffer sb) (nat (sb_message_size sb)) \<noteq> None) \<and> 0 \<le> sb_message_size sb"
    using full_block_copies [OF bok sb(1)] fits(1) ms(2) len sb(2,3) by (auto simp: contents_ok_def chunk_def sb_def)
qed

definition readable :: "byte list option \<Rightarrow> int \<Rightarrow> bool" where
  "readable data msgsize \<longleftrightarrow> 0 \<le> msgsize \<and>
     (\<forall>bytes. data = Some bytes \<longrightarrow> (\<forall>t r. read_messages t r bytes (nat msgsize) \<noteq> None))"

lemma front_data_ok:
  assumes p: "playable S P F sd" and ne: "0 < jb_size (sd_jitter_buffer sd)" and src: "source_ok S"
  shows "\<exists>data sz ms sr stats' sd'. front_data stats sd = Some ((data, sz, ms, sr), stats', sd') \<and> plays S P F sd sd' \<and>
    control sd' = control sd \<and> sd_jitter_buffer sd' = sd_jitter_buffer sd \<and> 0 < sr \<and>
    fed S (map_option (drop (nat ms)) data) (sz - ms) \<and> readable data ms"
proof (cases "block_complete (front_block sd)")
  case False
  obtain fmt where "sd_format sd = Some fmt" "format_ok fmt" using playable_format [OF p] by blast
  then show ?thesis using False plays_refl [OF p] by (auto simp: front_data_def Let_def fed_def readable_def format_ok_def)
next
  case True
  let ?i = "jitter_front (sd_jitter_buffer sd)" and ?b = "front_block sd"
  let ?sb = "S (rb_sequence ?b)" and ?sd = "sd\<lparr> sd_channel := rb_channel (front_block sd) \<rparr>"
  have i: "?i \<in> jb_slots (sd_jitter_buffer sd)" by (rule front_slot [OF playable_jb(1) [OF p] ne])
  note cb = complete_block_data [OF playable_jb(2) [OF p] i _ src, folded front_block_def]
  have pl: "plays S P F sd ?sd"
    using p cb(4) [OF True] by (auto simp: play_defs format_set_def setup_of_def)
  show ?thesis
  proof (cases "sb_buffer ?sb = []")
    case empty: True
    then show ?thesis using True cb(1,3) pl by (auto simp: front_data_def Let_def fed_def readable_def)
  next
    case False
    have b: "block_copy_frames (heap (sd_frame_allocator sd)) ?b = Some (sb_buffer ?sb)"
      "\<forall>t r. read_messages t r (sb_buffer ?sb) (nat (sb_message_size ?sb)) \<noteq> None" "0 \<le> sb_message_size ?sb"
      using cb(5) [OF True False] by blast+
    have "fed S (map_option (drop (nat (sb_message_size ?sb))) (Some (sb_buffer ?sb)))
        (int (length (sb_buffer ?sb)) - sb_message_size ?sb)"
      unfolding fed_def by (intro disjI2 exI [of _ "rb_sequence ?b"]) simp
    moreover have "readable (Some (sb_buffer ?sb)) (sb_message_size ?sb)" using b(2,3) by (simp add: readable_def)
    moreover have "\<exists>stats'. front_data stats sd = Some ((Some (sb_buffer ?sb), int (length (sb_buffer ?sb)), sb_message_size ?sb,
        double_value (rb_samplerate ?b)), stats', ?sd)"
      using True False cb(1,2) b(1) by (simp add: front_data_def Let_def)
    ultimately show ?thesis using pl cb(3) [OF True] by (elim exE) (intro exI conjI, assumption, simp_all)
  qed
qed

lemma sched_block_messages_ok:
  assumes "readable data ms"
  shows "\<exists>msgs. sched_block_messages r data ms b sd = Some (sd\<lparr> sd_stream_messages := msgs \<rparr>)"
proof -
  define sd1 where "sd1 = (if rb_tt b > 0 then sd\<lparr> sd_stream_messages := sched_stream_message
           \<lparr> sm_time = sd_stream_samples sd + of_int (sd_source_codec_delay sd) + of_int (sd_sink_codec_delay sd),
             sm_channel = 0, sm_type = kAooDataStreamTime, sm_data = [], sm_tt = rb_tt b \<rparr>
           (sd_stream_messages sd) \<rparr>
         else sd)"
  obtain msgs where m: "(case data of Some bytes \<Rightarrow> read_messages (sd_stream_samples sd1) r bytes (nat ms) | None \<Rightarrow> Some []) = Some msgs"
    using assms by (cases data) (auto simp: readable_def)
  have "sched_block_messages r data ms b sd
      = Some (sd1\<lparr> sd_stream_messages := fold sched_stream_message msgs (sd_stream_messages sd1) \<rparr>)"
    unfolding sched_block_messages_def Let_def sd1_def [symmetric] by (simp only: m bind.bind_lunit)
  moreover have "\<exists>x. sd1\<lparr> sd_stream_messages := y \<rparr> = sd\<lparr> sd_stream_messages := x \<rparr>" for y by (auto simp: sd1_def)
  ultimately show ?thesis by simp
qed

lemma write_decoded_ok:
  assumes p: "playable S P F sd" and x: "whole_block sd xs" and fmt: "sd_format sd = Some fmt"
    and pos: "0 < sr" "settings_ok s"
  shows "\<exists>ok sd'. write_decoded s sr fmt xs sd = Some (ok, sd') \<and> plays S P F sd sd' \<and>
    sd_jitter_buffer sd' = sd_jitter_buffer sd \<and>
    (\<not> rs_bypass (sd_resampler sd) \<and> ok \<longrightarrow> room (sd_resampler sd') < room (sd_resampler sd))"
proof (cases "rs_bypass (sd_resampler sd)")
  case True
  then show ?thesis using plays_refl [OF p] by (auto simp: write_decoded_def)
next
  case False
  obtain ok rs where r: "resampler_write xs (blockSize fmt) (sd_resampler sd) = Some (ok, rs)" "resampler_ready rs"
    "rs_shape rs = rs_shape (sd_resampler sd)" "ok \<longrightarrow> room rs < room (sd_resampler sd)"
    using write_block [OF p x False fmt] by blast
  define rs' where "rs' = (if ok \<and> \<not> rs_fixed_sr rs then resampler_update sr (sk_real_samplerate s) rs else rs)"
  have "resampler_ready rs'" "rs_shape rs' = rs_shape (sd_resampler sd)" "room rs' = room rs"
    using update_ready [OF r(2) _ pos(1), of "sk_real_samplerate s"] r(2,3) pos(2) by (auto simp: rs'_def settings_ok_def)
  then show ?thesis
    using False r(1,4) plays_resampler [OF plays_refl [OF p]] by (simp add: write_decoded_def rs'_def [symmetric])
qed

lemma finish_block_ok:
  assumes p: "playable S P F sd" and ne: "0 < jb_size (sd_jitter_buffer sd)"
  shows "\<exists>sd'. finish_block s fmt b sd = Some sd' \<and> plays S P F sd sd' \<and>
    (sd_resampler sd' = sd_resampler sd \<or> idle sd')"
proof -
  define step where "step = (if sd_low_latency_enabled sd then
         if block_complete b then
           Some (False, advance_position (rb_absolute_sample_position b + stale_frames fmt b)
             (sd\<lparr> sd_consecutive_missing_blocks := 0 \<rparr>))
         else count_missing s (sd\<lparr> sd_last_absolute_sample_position :=
                sd_last_absolute_sample_position sd + word_of_int (blockSize fmt) \<rparr>)
       else Some (False, sd))"
  obtain stop sd1 where 1: "step = Some (stop, sd1)" "plays S P F sd sd1" "stop \<longrightarrow> idle sd1"
    "\<not> stop \<longrightarrow> sd_resampler sd1 = sd_resampler sd \<and> sd_jitter_buffer sd1 = sd_jitter_buffer sd"
  proof -
    let ?sd = "sd\<lparr> sd_last_absolute_sample_position := sd_last_absolute_sample_position sd + word_of_int (blockSize fmt) \<rparr>"
    have q: "plays S P F sd ?sd" using plays_refl [OF p] by simp
    show ?thesis
    proof (cases "sd_low_latency_enabled sd \<and> \<not> block_complete b")
      case True
      then obtain stop sd1 where "count_missing s ?sd = Some (stop, sd1)" "plays S P F ?sd sd1" "stop \<longrightarrow> idle sd1"
        "\<not> stop \<longrightarrow> sd_resampler sd1 = sd_resampler ?sd \<and> sd_jitter_buffer sd1 = sd_jitter_buffer ?sd"
        using count_missing_ok [OF playsD [OF q], of s] by auto
      then show ?thesis using that [of stop sd1] True plays_trans [OF q] by (simp add: step_def)
    next
      case False
      let ?sd = "if sd_low_latency_enabled sd
        then advance_position (rb_absolute_sample_position b + stale_frames fmt b)
          (sd\<lparr> sd_consecutive_missing_blocks := 0 \<rparr>) else sd"
      have "step = Some (False, ?sd)" using False by (simp add: step_def)
      moreover have "plays S P F sd ?sd" using plays_refl [OF p] by simp
      moreover have "sd_resampler ?sd = sd_resampler sd \<and> sd_jitter_buffer ?sd = sd_jitter_buffer sd" by simp
      ultimately show ?thesis using that by blast
    qed
  qed
  obtain sd2 where 2: "(if stop then Some sd1 else pop_block sd1) = Some sd2" "plays S P F sd1 sd2"
    "stop \<longrightarrow> sd2 = sd1" "\<not> stop \<longrightarrow> sd_resampler sd2 = sd_resampler sd1"
    using pop_block_ok [OF playsD [OF 1(2)]] plays_refl [OF playsD [OF 1(2)]] ne 1(4) controlD(4)
    by (cases stop) fastforce+
  obtain obs where 3: "publish_state s sd2 = Some (sd2\<lparr> observations := obs \<rparr>)" "plays S P F sd (sd2\<lparr> observations := obs \<rparr>)"
    using plays_publish [OF plays_trans [OF 1(2) 2(2)]] by blast
  have "finish_block s fmt b sd = Some (sd2\<lparr> observations := obs \<rparr>)"
    unfolding finish_block_def step_def [symmetric] by (simp only: 1(1) 2(1) 3(1) bind.bind_lunit prod.case)
  then show ?thesis using 3(2) 1(3,4) 2(3,4) by auto
qed

lemma decode_front_ok:
  assumes p: "playable S P F sd" and ne: "0 < jb_size (sd_jitter_buffer sd)" and src: "source_ok S"
    and s: "settings_ok s" and cls: "\<forall>fmt. sd_format sd = Some fmt \<longrightarrow> decoder_ok S P cls fmt"
  shows "\<exists>ok out stats' sd'. decode_front cls s stats sd = Some ((ok, out), stats', sd') \<and> plays S P F sd sd' \<and>
    outcome sd ok out sd'"
proof -
  obtain fmt where fmt: "sd_format sd = Some fmt" using playable_format [OF p] by blast
  obtain data sz ms sr stats1 sd1 where 1: "front_data stats sd = Some ((data, sz, ms, sr), stats1, sd1)"
    "plays S P F sd sd1" "control sd1 = control sd" "sd_jitter_buffer sd1 = sd_jitter_buffer sd" "0 < sr"
    "fed S (map_option (drop (nat ms)) data) (sz - ms)" "readable data ms"
    using front_data_ok [OF p ne src, of stats] by (elim exE conjE) (rule that)
  have f1: "sd_format sd1 = Some fmt" using fmt plays_shape(3) [OF 1(2)] by simp
  have cls1: "\<forall>fmt. sd_format sd1 = Some fmt \<longrightarrow> decoder_ok S P cls fmt" using cls plays_shape(3) [OF 1(2)] by simp
  have au: "audio_data data ms = Some (map_option (drop (nat ms)) data)" using 1(7) by (simp add: audio_data_def readable_def)
  obtain xs dec where 2: "decode_samples cls (map_option (drop (nat ms)) data) (sz - ms) sd1
      = Some (xs, sd1\<lparr> sd_decoder := Some dec \<rparr>)" "P dec" "whole_block sd1 xs"
    using decode_samples_ok [OF playsD [OF 1(2)] cls1 1(6)] by (auto simp: whole_block_def)
  define sd2 where "sd2 = sd1\<lparr> sd_decoder := Some dec \<rparr>"
  have p2: "plays S P F sd sd2" unfolding sd2_def by (rule plays_decoder [where P = P, OF 1(2) 2(2)])
  have eq2: "sd_resampler sd2 = sd_resampler sd" "sd_jitter_buffer sd2 = sd_jitter_buffer sd" "sd_format sd2 = Some fmt"
    "whole_block sd2 xs" "whole_block sd xs"
    using controlD(4) [OF 1(3)] 1(4) f1 fmt 2(3) by (simp_all add: sd2_def whole_block_def)
  obtain ok sd3 where 3: "write_decoded s sr fmt xs sd2 = Some (ok, sd3)" "plays S P F sd2 sd3"
    "sd_jitter_buffer sd3 = sd_jitter_buffer sd2"
    "\<not> rs_bypass (sd_resampler sd2) \<and> ok \<longrightarrow> room (sd_resampler sd3) < room (sd_resampler sd2)"
    using write_decoded_ok [OF playsD [OF p2] eq2(4,3) 1(5) s] by (elim exE conjE) (rule that)
  have p3: "plays S P F sd sd3" by (rule plays_trans [OF p2 3(2)])
  have n3: "0 < jb_size (sd_jitter_buffer sd3)" using ne 3(3) eq2(2) by simp
  note start = fmt 1(1) au 2(1) [folded sd2_def] 3(1)
  show ?thesis
  proof (cases ok)
    case False
    obtain sd4 where 4: "pop_block sd3 = Some sd4" "plays S P F sd3 sd4" using pop_block_ok [OF playsD [OF p3] n3] by blast
    have "decode_front cls s stats sd = Some ((False, []), stats1, sd4)"
      using False start 4(1) by (simp add: decode_front_def Let_def)
    then show ?thesis using plays_trans [OF p3 4(2)] by (auto simp: outcome_def)
  next
    case True
    let ?r = "of_int (sk_samplerate s) / sr"
    obtain msgs where m: "sched_block_messages ?r data ms (front_block sd) sd3 = Some (sd3\<lparr> sd_stream_messages := msgs \<rparr>)"
      using sched_block_messages_ok [OF 1(7)] by blast
    define sd4 where "sd4 = sd3\<lparr> sd_stream_messages := msgs, sd_stream_samples := sd_stream_samples sd3 + of_int (blockSize fmt) * ?r \<rparr>"
    have p4: "plays S P F sd sd4" using p3 by (simp add: sd4_def)
    have eq4: "sd_resampler sd4 = sd_resampler sd3" "sd_jitter_buffer sd4 = sd_jitter_buffer sd3" by (simp_all add: sd4_def)
    obtain sd5 where 5: "finish_block s fmt (front_block sd) sd4 = Some sd5" "plays S P F sd4 sd5"
      "sd_resampler sd5 = sd_resampler sd4 \<or> idle sd5"
      using finish_block_ok [OF playsD [OF p4], of s fmt "front_block sd"] n3 eq4(2) by auto
    let ?out = "if rs_bypass (sd_resampler sd4) then xs else []"
    have "decode_front cls s stats sd = Some ((True, ?out), stats1, sd5)"
      using True start m 5(1) by (simp add: decode_front_def Let_def sd4_def)
    moreover have "outcome sd True ?out sd5"
      using 5(3) 3(4) True eq2 eq4 plays_shape(1) [OF p4] by (auto simp: outcome_def)
    ultimately show ?thesis using plays_trans [OF p4 5(2)] by blast
  qed
qed

lemma outcome_returns:
  assumes "outcome sd1 ok out sd'" and "plays S P F sd sd1" and "sd_resampler sd1 = sd_resampler sd" and "\<not> idle sd"
  shows "returns_ok sd ok out sd'"
  using assms plays_shape(3) [OF assms(2)] by (auto simp: outcome_def returns_ok_def progress_def whole_block_def)

lemma try_decode_block_ok:
  assumes p: "playable S P F sd" and src: "source_ok S" and s: "settings_ok s"
    and cls: "\<forall>fmt. sd_format sd = Some fmt \<longrightarrow> decoder_ok S P cls fmt"
  shows "\<exists>ok out stats' sd'. try_decode_block cls s stats sd = Some ((ok, out), stats', sd') \<and> plays S P F sd sd' \<and>
    returns_ok sd ok out sd'"
proof -
  obtain sd1 where 1: "update_target s sd = Some sd1" "plays S P F sd sd1" "sd_jitter_buffer sd1 = sd_jitter_buffer sd"
    "sd_resampler sd1 = sd_resampler sd" "sd_stream_state sd = stream_buffering \<longrightarrow> sd_stream_state sd1 = stream_buffering"
    using update_target_ok [OF p, of s] by (elim exE conjE) (rule that)
  obtain obs where 2: "publish_state s sd1 = Some (sd1\<lparr> observations := obs \<rparr>)" "plays S P F sd (sd1\<lparr> observations := obs \<rparr>)"
    using plays_publish [OF 1(2)] by blast
  let ?sd = "sd1\<lparr> observations := obs \<rparr>"
  have eq: "sd_resampler ?sd = sd_resampler sd" "idle sd \<longrightarrow> idle ?sd" "sd_format ?sd = sd_format sd"
    using 1(3-5) plays_shape(3,4) [OF 1(2)] by (auto simp: idle_def)
  obtain ret sd2 where 3: "buffering_step cls s ?sd = Some (ret, sd2)" "plays S P F ?sd sd2"
    "case ret of None \<Rightarrow> sd_resampler sd2 = sd_resampler ?sd \<and> \<not> idle ?sd | Some (ok, out) \<Rightarrow> returns_ok ?sd ok out sd2"
    using buffering_step_ok [OF playsD [OF 2(2)] s, of cls] cls eq(3) by auto
  have p2: "plays S P F sd sd2" by (rule plays_trans [OF 2(2) 3(2)])
  show ?thesis
  proof (cases ret)
    case (Some r)
    obtain ok out where r: "r = (ok, out)" by (cases r)
    have "returns_ok sd ok out sd2"
      using 3(3) Some r eq by (auto simp: returns_ok_def progress_def whole_block_def)
    then show ?thesis using 1(1) 2(1) 3(1) Some r p2 by (auto simp: try_decode_block_def)
  next
    case None
    then have n: "\<not> idle sd" "sd_resampler sd2 = sd_resampler sd" using 3(3) eq by auto
    obtain sd3 where 4: "trim_step s sd2 = Some sd3" "plays S P F sd2 sd3" "control sd3 = control sd2"
      using trim_step_ok [OF playsD [OF p2]] by blast
    have p3: "plays S P F sd sd3" by (rule plays_trans [OF p2 4(2)])
    have n3: "sd_resampler sd3 = sd_resampler sd" using controlD(4) [OF 4(3)] n(2) by simp
    have cls3: "\<forall>fmt. sd_format sd3 = Some fmt \<longrightarrow> decoder_ok S P cls fmt" using cls plays_shape(3) [OF p3] by simp
    define step where "step = (if jitter_empty (sd_jitter_buffer sd3) then empty_step s stats sd3 else decode_front cls s stats sd3)"
    obtain ok out stats' sd4 where 5: "step = Some ((ok, out), stats', sd4)" "plays S P F sd3 sd4" "outcome sd3 ok out sd4"
      using empty_step_ok [OF playsD [OF p3], of s stats] decode_front_ok [OF playsD [OF p3] _ src s cls3, of stats]
      unfolding step_def jitter_empty_def by (cases "jb_size (sd_jitter_buffer sd3) = 0") (simp, blast, simp, blast)
    have "try_decode_block cls s stats sd = step"
      using 1(1) 2(1) 3(1) None 4(1) by (simp add: try_decode_block_def step_def)
    then show ?thesis using 5 outcome_returns [OF 5(3) p3 n3 n(1)] plays_trans [OF p3 5(2)] by simp
  qed
qed

end
