(* ===== verification/Sink_Audio.thy ===== *)
theory Sink_Audio
  imports Sink_Playout
begin

text \<open>
  The audio callback for one source (\<^verbatim>\<open>source_desc::process\<close>): the transitions of the source state, the
  packets that have arrived, the requests for missing blocks, the loop that decodes until there
  are enough samples, and mixing them into the output of the sink.
\<close>

subsection \<open>Operations\<close>

definition XRUN_THRESHOLD :: real where "XRUN_THRESHOLD = 1 / 10"

definition add_xrun :: "real \<Rightarrow> 'd source_desc \<Rightarrow> 'd source_desc" where
  "add_xrun nblocks sd = sd\<lparr> sd_xrunblocks := sd_xrunblocks sd + nblocks \<rparr>"

text \<open>What \<^verbatim>\<open>process\<close> does when another thread holds the lock.\<close>

definition process_would_block :: "'d source_desc \<Rightarrow> 'd source_desc" where
  "process_would_block sd = (if sd_stream_state sd \<noteq> stream_inactive then add_xrun 1 sd else sd)"

definition update_buffer_fill_ratio :: "'d source_desc \<Rightarrow> 'd source_desc option" where
  "update_buffer_fill_ratio sd =
     (if sd_decoder sd \<noteq> None then do {
        fmt \<leftarrow> sd_format sd;
        let resampler_available = rs_balance (sd_resampler sd) / of_int (blockSize fmt);
        let available = of_nat (jb_size (sd_jitter_buffer sd)) + resampler_available;
        let ratio = available / of_nat (jitter_capacity (sd_jitter_buffer sd));
        Some (sd\<lparr> sd_buffer_fill_ratio := max 0 (min 1 ratio) \<rparr>) }
      else Some (sd\<lparr> sd_buffer_fill_ratio := 0 \<rparr>))"

text \<open>The transitions of the source state; the first component tells whether to go on.\<close>

definition run_state :: "'d source_desc \<Rightarrow> bool \<times> 'd source_desc" where
  "run_state sd =
     (case sd_state sd of
        source_run \<Rightarrow> (True, sd)
      | source_start \<Rightarrow>
          let sd = sd\<lparr> sd_state := source_run \<rparr>;
              sd = (if sd_stream_state sd \<noteq> stream_inactive then queue_event StreamStopEvent sd else sd);
              sd = (queue_event (StreamStartEvent (sd_stream_tt sd) (sd_metadata sd)) sd)\<lparr> sd_metadata := None \<rparr>
          in (True, enter_state stream_buffering sd)
      | source_stop \<Rightarrow> (True, sd\<lparr> sd_state := source_run, sd_stopped := True \<rparr>)
      | source_uninvite \<Rightarrow> (True, sd)
      | _ \<Rightarrow> (False,
          if sd_stream_state sd \<noteq> stream_inactive
          then send_event (StreamStateEvent stream_inactive 0) (sd\<lparr> sd_stream_state := stream_inactive \<rparr>)
          else sd))"

definition check_update :: "'d source_desc \<Rightarrow> 'd source_desc" where
  "check_update sd =
     (if sd_did_update sd
      then enter_state stream_buffering (sd\<lparr> sd_did_update := False, sd_xrunblocks := 0 \<rparr>)
      else sd)"

definition request_missing :: "sink_settings \<Rightarrow> 'd source_desc \<Rightarrow> 'd source_desc option" where
  "request_missing s sd = do {
     (rs, jb) \<leftarrow> check_missing_blocks
       \<lparr> re_low_latency_enabled = sd_low_latency_enabled sd, re_configuration = sd_low_latency_configuration sd,
         re_round_trip_p95 = sd_round_trip_p95 sd, re_resend_enabled = sk_resend_enabled s,
         re_limit = sk_resend_limit s, re_interval = sk_resend_interval s, re_elapsed = sk_elapsed_time s \<rparr>
       (heap (sd_frame_allocator sd)) (sd_jitter_buffer sd);
     Some (sd\<lparr> sd_jitter_buffer := jb, sd_data_requests := sd_data_requests sd @ rs \<rparr>) }"

text \<open>An xrun is made up for by skipping a block of samples.\<close>

definition skip_xrun :: "int \<Rightarrow> 'd source_desc \<Rightarrow> 'd source_desc" where
  "skip_xrun nsamples sd = sd\<lparr> sd_xrunblocks := sd_xrunblocks sd - 1,
     sd_process_samples := sd_process_samples sd + nsamples \<rparr>"

text \<open>
  The loops that produce a block of samples; \<^const>\<open>None\<close> as the result of a loop that returns is a buffer
  underrun.
\<close>

partial_function (option) decode_loop ::
    "'d decoder_interface \<Rightarrow> sink_settings \<Rightarrow> int \<Rightarrow> stream_stats \<Rightarrow> 'd source_desc \<Rightarrow>
     (real list option \<times> stream_stats \<times> 'd source_desc) option" where
  "decode_loop cls s nsamples stats sd = do {
     ((ok, out), stats, sd) \<leftarrow> try_decode_block cls s stats sd;
     if \<not> ok then Some (None, stats, sd)
     else if sd_xrunblocks sd > XRUN_THRESHOLD then decode_loop cls s nsamples stats (skip_xrun nsamples sd)
     else Some (Some out, stats, sd) }"

partial_function (option) resample_loop ::
    "'d decoder_interface \<Rightarrow> sink_settings \<Rightarrow> int \<Rightarrow> stream_stats \<Rightarrow> 'd source_desc \<Rightarrow>
     (real list option \<times> stream_stats \<times> 'd source_desc) option" where
  "resample_loop cls s nsamples stats sd = do {
     (ok, out, rs) \<leftarrow> resampler_read nsamples (sd_resampler sd);
     let sd = sd\<lparr> sd_resampler := rs \<rparr>;
     if ok then
       if sd_xrunblocks sd > XRUN_THRESHOLD then resample_loop cls s nsamples stats (skip_xrun nsamples sd)
       else Some (Some out, stats, sd)
     else do {
       ((ok, _), stats, sd) \<leftarrow> try_decode_block cls s stats sd;
       if ok then resample_loop cls s nsamples stats sd else Some (None, stats, sd) } }"

definition produce ::
    "'d decoder_interface \<Rightarrow> sink_settings \<Rightarrow> int \<Rightarrow> stream_stats \<Rightarrow> 'd source_desc \<Rightarrow>
     (real list option \<times> stream_stats \<times> 'd source_desc) option" where
  "produce cls s nsamples stats sd =
     (if rs_bypass (sd_resampler sd) then decode_loop cls s nsamples stats sd
      else resample_loop cls s nsamples stats sd)"

text \<open>The event for the start of the stream, in the block in which it happens.\<close>

definition announce_start :: "int \<Rightarrow> 'd source_desc \<Rightarrow> 'd source_desc" where
  "announce_start nsamples sd =
     (if sd_stream_start sd \<ge> 0 then
        let offset = sd_stream_start sd - sd_process_samples sd
        in if offset < nsamples
           then (queue_event (StreamStateEvent stream_active (max 0 offset)) sd)\<lparr> sd_stream_start := -1 \<rparr>
           else sd
      else sd)"

text \<open>Time stamps become events, the other messages are passed to the handler.\<close>

fun deliver :: "dispatched list \<Rightarrow> 'd source_desc \<Rightarrow> dispatched list \<times> 'd source_desc" where
  "deliver [] sd = ([], sd)"
| "deliver (DispatchTime source_tt local_tt offset # ds) sd =
     deliver ds (queue_event (StreamTimeEvent source_tt local_tt offset) sd)"
| "deliver (DispatchMessage offset channel type data # ds) sd =
     (let (msgs, sd) = deliver ds sd in (DispatchMessage offset channel type data # msgs, sd))"

definition dispatch :: "sink_settings \<Rightarrow> int \<Rightarrow> 'd source_desc \<Rightarrow> dispatched list \<times> 'd source_desc" where
  "dispatch s nsamples sd =
     (let (ds, rest) = dispatch_stream_messages (of_int (sk_samplerate s)) (sd_local_tt sd)
            (sd_process_samples sd) nsamples (sd_stream_messages sd);
          (msgs, sd) = deliver ds (sd\<lparr> sd_stream_messages := rest \<rparr>)
      in (msgs, sd\<lparr> sd_process_samples := sd_process_samples sd + nsamples \<rparr>))"

text \<open>
  Adding one channel of the interleaved samples to a channel of the output; an access outside of an array
  fails.
\<close>

fun add_samples :: "real list \<Rightarrow> int \<Rightarrow> int \<Rightarrow> nat list \<Rightarrow> real list \<Rightarrow> real list option" where
  "add_samples buf nchannels i [] out = Some out"
| "add_samples buf nchannels i (j # js) out =
     (let k = int j * nchannels + i
      in if j < length out \<and> 0 \<le> k \<and> k < int (length buf)
         then add_samples buf nchannels i js (out[j := out ! j + buf ! nat k])
         else None)"

fun mix :: "sink_settings \<Rightarrow> int \<Rightarrow> real list \<Rightarrow> int \<Rightarrow> int \<Rightarrow> int list \<Rightarrow> real list list \<Rightarrow> real list list option" where
  "mix s nsamples buf nchannels channel [] buffer = Some buffer"
| "mix s nsamples buf nchannels channel (i # is) buffer =
     (let chn = i + channel
      in if chn < sk_nchannels s then
           if 0 \<le> chn \<and> chn < int (length buffer) then do {
             out \<leftarrow> add_samples buf nchannels i [0..<nat nsamples] (buffer ! nat chn);
             mix s nsamples buf nchannels channel is (buffer[nat chn := out]) }
           else None
         else mix s nsamples buf nchannels channel is buffer)"

definition mix_output ::
    "sink_settings \<Rightarrow> int \<Rightarrow> real list \<Rightarrow> int \<Rightarrow> int \<Rightarrow> real list list option \<Rightarrow> real list list option option" where
  "mix_output s nsamples buf nchannels channel buffer =
     (case buffer of
        None \<Rightarrow> Some None
      | Some b \<Rightarrow> map_option Some (mix s nsamples buf nchannels channel [0..nchannels - 1] b))"

definition send_stats :: "stream_stats \<Rightarrow> 'd source_desc \<Rightarrow> 'd source_desc" where
  "send_stats stats sd =
     (let sd = (if dropped stats > 0
            then send_event (BlockDropEvent (dropped stats))
              (sd\<lparr> sd_dropped_blocks := sd_dropped_blocks sd + dropped stats \<rparr>) else sd);
          sd = (if resent stats > 0 then send_event (BlockResendEvent (resent stats)) sd else sd)
      in if xrun stats > 0 then send_event (BlockXRunEvent (xrun stats)) sd else sd)"

type_synonym 'd processed = "bool \<times> real list list option \<times> dispatched list \<times> 'd source_desc"

text \<open>The rest of the callback, once a block of samples is there.\<close>

definition output_block ::
    "sink_settings \<Rightarrow> int \<Rightarrow> u64 \<Rightarrow> real list list option \<Rightarrow> real list \<Rightarrow> stream_stats \<Rightarrow> 'd source_desc \<Rightarrow>
     'd processed option" where
  "output_block s nsamples tt buffer buf stats sd = do {
     fmt \<leftarrow> sd_format sd;
     if int (length buf) \<noteq> nsamples * numChannels fmt then None
     else do {
       let sd = (if sd_process_samples sd = 0 then sd\<lparr> sd_local_tt := tt \<rparr> else sd);
       let (msgs, sd) = dispatch s nsamples (announce_start nsamples sd);
       buffer \<leftarrow> mix_output s nsamples buf (numChannels fmt) (sd_channel sd) buffer;
       sd \<leftarrow> update_buffer_fill_ratio sd;
       Some (True, buffer, msgs, send_stats stats (flush_events sd)) } }"

definition process ::
    "'d decoder_interface \<Rightarrow> sink_settings \<Rightarrow> int \<Rightarrow> u64 \<Rightarrow> real list list option \<Rightarrow> 'd source_desc \<Rightarrow>
     'd processed option" where
  "process cls s nsamples tt buffer sd =
     (if sd_decoder sd = None then do {
        sd \<leftarrow> update_buffer_fill_ratio sd;
        Some (False, buffer, [], sd) }
      else let (go, sd) = run_state sd
      in if \<not> go then do {
           sd \<leftarrow> update_buffer_fill_ratio sd;
           Some (False, buffer, [], sd) }
         else do {
           (stats, sd) \<leftarrow> consume_packets \<lparr> dropped = 0, resent = 0, xrun = 0 \<rparr> (check_update sd);
           sd \<leftarrow> request_missing s sd;
           (res, stats, sd) \<leftarrow> produce cls s nsamples stats sd;
           (case res of
              None \<Rightarrow> do {
                sd \<leftarrow> update_buffer_fill_ratio (on_underrun s sd);
                Some (False, buffer, [], flush_events sd) }
            | Some buf \<Rightarrow> output_block s nsamples tt buffer buf stats sd) })"

subsection \<open>The loop ends\<close>

definition xrank :: "'d source_desc \<Rightarrow> nat" where
  "xrank sd = nat \<lceil>sd_xrunblocks sd\<rceil>"

definition has_run :: "block_source \<Rightarrow> ('d \<Rightarrow> bool) \<Rightarrow> nat set \<Rightarrow> 'd source_desc \<Rightarrow> 'd source_desc \<Rightarrow> bool" where
  "has_run S P F sd sd' \<longleftrightarrow> plays S P F sd (sd'\<lparr> sd_xrunblocks := sd_xrunblocks sd \<rparr>)"

lemma playable_xrun [simp]:
  "playable S P F (sd\<lparr> sd_xrunblocks := x \<rparr>) = playable S P F sd"
  "playable S P F (skip_xrun n sd) = playable S P F sd"
  by (simp_all add: playable_def frames_inv_def skip_xrun_def)

lemma same_skip [simp]: "same F sd ((skip_xrun n sd')\<lparr> sd_xrunblocks := x \<rparr>) = same F sd (sd'\<lparr> sd_xrunblocks := x \<rparr>)"
  by (simp add: same_def skip_xrun_def)

lemma has_runD: "has_run S P F sd sd' \<Longrightarrow> playable S P F sd'"
  by (simp add: has_run_def plays_def)

lemma has_run_plays: "plays S P F sd sd' \<Longrightarrow> has_run S P F sd sd'"
  by (auto simp: has_run_def plays_def same_def)

lemma has_run_trans: "has_run S P F sd sd' \<Longrightarrow> has_run S P F sd' sd'' \<Longrightarrow> has_run S P F sd sd''"
  by (simp add: has_run_def plays_def same_def)

lemma has_run_skip: "has_run S P F sd sd' \<Longrightarrow> has_run S P F sd (skip_xrun n sd')"
  by (simp add: has_run_def plays_def)

lemma xrank_skip: "sd_xrunblocks sd > XRUN_THRESHOLD \<Longrightarrow> xrank (skip_xrun n sd) < xrank sd"
  unfolding xrank_def skip_xrun_def XRUN_THRESHOLD_def by simp

lemma has_run_shape:
  "has_run S P F sd sd' \<Longrightarrow> rs_bypass (sd_resampler sd') = rs_bypass (sd_resampler sd)"
  "has_run S P F sd sd' \<Longrightarrow> sd_format sd' = sd_format sd"
  by (simp_all add: has_run_def plays_def same_def rs_shape_def)

lemma xrank_plays: "plays S P F sd sd' \<Longrightarrow> xrank sd' = xrank sd"
  by (simp add: plays_def same_def xrank_def)

definition block_of :: "int \<Rightarrow> 'd source_desc \<Rightarrow> real list \<Rightarrow> bool" where
  "block_of n sd buf \<longleftrightarrow> (\<exists>fmt. sd_format sd = Some fmt \<and> int (length buf) = n * numChannels fmt)"

text \<open>A loop that is bypassed only repeats to make up for xruns.\<close>

lemma decode_loop_ok:
  assumes "playable S P F sd" and "rs_bypass (sd_resampler sd)" and src: "source_ok S" and s: "settings_ok s"
    and "\<forall>fmt. sd_format sd = Some fmt \<longrightarrow> decoder_ok S P cls fmt \<and> blockSize fmt = n"
  shows "\<exists>res stats' sd'. decode_loop cls s n stats sd = Some (res, stats', sd') \<and> has_run S P F sd sd' \<and>
    (\<forall>buf. res = Some buf \<longrightarrow> block_of n sd buf)"
  using assms(1,2,5)
proof (induction "xrank sd" arbitrary: sd stats rule: less_induct)
  case less
  have cls: "\<forall>fmt. sd_format sd = Some fmt \<longrightarrow> decoder_ok S P cls fmt" using less.prems(3) by simp
  obtain ok out stats1 sd1 where 1: "try_decode_block cls s stats sd = Some ((ok, out), stats1, sd1)"
    "plays S P F sd sd1" "returns_ok sd ok out sd1"
    using try_decode_block_ok [OF less.prems(1) src s cls, of stats] by blast
  note r = has_run_plays [OF 1(2)]
  have e: "decode_loop cls s n stats sd = (if \<not> ok then Some (None, stats1, sd1)
     else if sd_xrunblocks sd1 > XRUN_THRESHOLD then decode_loop cls s n stats1 (skip_xrun n sd1)
     else Some (Some out, stats1, sd1))"
    using 1(1) by (subst decode_loop.simps) simp
  consider (no) "\<not> ok" | (skip) "ok" "sd_xrunblocks sd1 > XRUN_THRESHOLD" | (got) "ok" "\<not> sd_xrunblocks sd1 > XRUN_THRESHOLD"
    by blast
  then show ?case
  proof cases
    case no
    then show ?thesis using e r by simp
  next
    case got
    then have "block_of n sd out"
      using 1(3) less.prems(2,3) by (auto simp: returns_ok_def whole_block_def block_of_def)
    then show ?thesis using got e r by simp
  next
    case skip
    let ?sd = "skip_xrun n sd1"
    have r2: "has_run S P F sd ?sd" by (rule has_run_skip [OF r])
    have "xrank ?sd < xrank sd" using xrank_skip [OF skip(2)] xrank_plays [OF 1(2)] by simp
    moreover have "rs_bypass (sd_resampler ?sd)" using has_run_shape(1) [OF r2] less.prems(2) by simp
    moreover have "\<forall>fmt. sd_format ?sd = Some fmt \<longrightarrow> decoder_ok S P cls fmt \<and> blockSize fmt = n"
      using has_run_shape(2) [OF r2] less.prems(3) by simp
    ultimately obtain res stats' sd' where "decode_loop cls s n stats1 ?sd = Some (res, stats', sd')"
      "has_run S P F ?sd sd'" "\<forall>buf. res = Some buf \<longrightarrow> block_of n ?sd buf"
      using less.hyps [OF _ has_runD [OF r2], of stats1] by blast
    then show ?thesis using skip e has_run_trans [OF r2] has_run_shape(2) [OF r2] by (simp add: block_of_def)
  qed
qed

lemma length_resampled: "length (resampled m s R a n c) = n * c"
  by (simp add: resampled_def length_concat comp_def sum_list_triv)

lemma read_ready:
  assumes r: "resampler_ready rs" and b: "\<not> rs_bypass rs" and n: "0 \<le> n"
  shows "\<exists>ok out rs'. resampler_read n rs = Some (ok, out, rs') \<and> resampler_ready rs' \<and> rs_shape rs' = rs_shape rs \<and>
    (ok \<longrightarrow> int (length out) = n * rs_nchannels rs) \<and> (\<not> ok \<longrightarrow> rs' = rs)"
proof -
  obtain s W R where st: "streams rs s W R" and a: "0 < step_size rs" using r b by (auto simp: resampler_ready_def)
  have c: "0 < rs_nchannels rs" using st by (simp add: streams_def rs_wf_def)
  note rd = resampler_read_ok [OF st n a]
  show ?thesis
  proof (cases "of_int n * step_size rs \<le> rs_balance rs - of_int (method_latency (rs_method rs))")
    case False
    then show ?thesis using rd r by auto
  next
    case True
    then obtain rs' x y where rs': "resampler_read n rs
        = Some (True, resampled (rs_method rs) s R (step_size rs) (nat n) (nat (rs_nchannels rs)), rs')"
      "streams rs' s W (R + of_int n * step_size rs)" "rs' = rs\<lparr> rs_rdpos := x, rs_balance := y \<rparr>"
      using rd by auto
    have eq: "rs_bypass rs' = rs_bypass rs" "rs_method rs' = rs_method rs" "rs_advance rs' = rs_advance rs"
      "rs_fixed_sr rs' = rs_fixed_sr rs" "rs_nchannels rs' = rs_nchannels rs"
      using rs'(3) by simp_all
    have "step_size rs' = step_size rs" by (simp only: step_size_def eq)
    then have "resampler_ready rs'" using r b rs'(2) eq by (auto simp: resampler_ready_def)
    moreover have "int (nat n * nat (rs_nchannels rs)) = n * rs_nchannels rs" using n c by simp
    ultimately show ?thesis using rs'(1) eq by (auto simp: length_resampled rs_shape_def)
  qed
qed

definition loop_rank :: "('d source_desc \<times> 'd source_desc) set" where
  "loop_rank = measures [xrank, \<lambda>sd. if idle sd then 0 else 1, \<lambda>sd. room (sd_resampler sd)]"

lemma wf_loop_rank: "wf loop_rank"
  by (simp add: loop_rank_def)

text \<open>
  The other loop decodes until the resampler can be read. It ends: every block takes room in the resampler,
  which is emptied at most once, because afterwards a low-latency stream has nothing to play.
\<close>

lemma resample_loop_ok:
  assumes "playable S P F sd" and "\<not> rs_bypass (sd_resampler sd)" and src: "source_ok S" and s: "settings_ok s"
    and "\<forall>fmt. sd_format sd = Some fmt \<longrightarrow> decoder_ok S P cls fmt" and n: "0 \<le> n"
  shows "\<exists>res stats' sd'. resample_loop cls s n stats sd = Some (res, stats', sd') \<and> has_run S P F sd sd' \<and>
    (\<forall>buf. res = Some buf \<longrightarrow> block_of n sd buf)"
  using wf_loop_rank assms(1,2,5)
proof (induction sd arbitrary: stats rule: wf_induct_rule)
  case (less sd)
  note prems = less.prems
  have goon: ?case if r2: "has_run S P F sd sd2" and lt: "(sd2, sd) \<in> loop_rank"
    and e: "resample_loop cls s n stats sd = resample_loop cls s n stats2 sd2" for stats2 sd2
  proof -
    have "\<not> rs_bypass (sd_resampler sd2)" "\<forall>fmt. sd_format sd2 = Some fmt \<longrightarrow> decoder_ok S P cls fmt"
      using has_run_shape [OF r2] prems(2,3) by simp_all
    then obtain res stats' sd' where "resample_loop cls s n stats2 sd2 = Some (res, stats', sd')"
      "has_run S P F sd2 sd'" "\<forall>buf. res = Some buf \<longrightarrow> block_of n sd2 buf"
      using less.IH [OF lt has_runD [OF r2], of stats2] by blast
    then show ?thesis using e has_run_trans [OF r2] has_run_shape(2) [OF r2] by (simp add: block_of_def)
  qed
  obtain ok out rs where rd: "resampler_read n (sd_resampler sd) = Some (ok, out, rs)" "resampler_ready rs"
    "rs_shape rs = rs_shape (sd_resampler sd)" "ok \<longrightarrow> int (length out) = n * rs_nchannels (sd_resampler sd)"
    "\<not> ok \<longrightarrow> rs = sd_resampler sd"
    using read_ready [OF playable_jb(3) [OF prems(1)] prems(2) n] by (elim exE conjE) (rule that)
  define sd1 where "sd1 = sd\<lparr> sd_resampler := rs \<rparr>"
  have p1: "plays S P F sd sd1" unfolding sd1_def by (rule plays_resampler [OF plays_refl [OF prems(1)] rd(2,3)])
  have e: "resample_loop cls s n stats sd = (if ok then
       if sd_xrunblocks sd1 > XRUN_THRESHOLD then resample_loop cls s n stats (skip_xrun n sd1)
       else Some (Some out, stats, sd1)
     else do {
       ((ok, _), stats, sd) \<leftarrow> try_decode_block cls s stats sd1;
       if ok then resample_loop cls s n stats sd else Some (None, stats, sd) })"
    using rd(1) by (subst resample_loop.simps) (simp add: sd1_def)
  show ?case
  proof (cases ok)
    case True
    show ?thesis
    proof (cases "sd_xrunblocks sd1 > XRUN_THRESHOLD")
      case skip: True
      have "(skip_xrun n sd1, sd) \<in> loop_rank"
        using xrank_skip [OF skip, of n] xrank_plays [OF p1] by (simp add: loop_rank_def)
      then show ?thesis using goon [OF has_run_skip [OF has_run_plays [OF p1]]] e True skip by simp
    next
      case False
      have "block_of n sd out"
        using rd(4) True playable_format [OF prems(1)] prems(2) by (auto simp: block_of_def)
      then show ?thesis using e True False has_run_plays [OF p1] by simp
    qed
  next
    case False
    then have sd1: "sd1 = sd" using rd(5) by (simp add: sd1_def)
    obtain ok' out' stats2 sd2 where d: "try_decode_block cls s stats sd = Some ((ok', out'), stats2, sd2)"
      "plays S P F sd sd2" "returns_ok sd ok' out' sd2"
      using try_decode_block_ok [OF prems(1) src s prems(3), of stats] by blast
    show ?thesis
    proof (cases ok')
      case True
      then have "progress sd sd2" using d(3) prems(2) by (simp add: returns_ok_def)
      then have "(sd2, sd) \<in> loop_rank" using xrank_plays [OF d(2)] by (auto simp: loop_rank_def progress_def)
      then show ?thesis using goon [OF has_run_plays [OF d(2)]] e False True sd1 d(1) by simp
    next
      case no: False
      then show ?thesis using e False sd1 d(1) has_run_plays [OF d(2)] by simp
    qed
  qed
qed

lemma produce_ok:
  assumes p: "playable S P F sd" and src: "source_ok S" and s: "settings_ok s" and n: "0 \<le> n"
    and fmt: "\<forall>fmt. sd_format sd = Some fmt \<longrightarrow> decoder_ok S P cls fmt \<and> (rs_bypass (sd_resampler sd) \<longrightarrow> blockSize fmt = n)"
  shows "\<exists>res stats' sd'. produce cls s n stats sd = Some (res, stats', sd') \<and> has_run S P F sd sd' \<and>
    (\<forall>buf. res = Some buf \<longrightarrow> block_of n sd buf)"
proof (cases "rs_bypass (sd_resampler sd)")
  case True
  then show ?thesis using decode_loop_ok [OF p True src s, of cls n stats] fmt by (simp add: produce_def)
next
  case False
  then show ?thesis using resample_loop_ok [OF p False src s _ n, of cls stats] fmt by (simp add: produce_def)
qed

subsection \<open>Missing blocks\<close>

lemma block_update_keeps:
  assumes "block_update t iv b = (upd, b')"
  shows "rb_sequence b' = rb_sequence b" "rb_frames b' = rb_frames b" "rb_received_frames b' = rb_received_frames b"
    "rb_total_size b' = rb_total_size b" "rb_message_size b' = rb_message_size b" "rb_samplerate b' = rb_samplerate b"
    "rb_channel b' = rb_channel b"
  using assms by (auto simp: block_update_def split: if_splits)

lemma update_block_jinv:
  assumes j: "jinv S F jb al" and i: "i \<in> jb_slots jb" and u: "block_update t iv (jb_data jb ! i) = (upd, b')"
  shows "jinv S F (jb\<lparr> jb_data := (jb_data jb)[i := b'] \<rparr>) al" "jb_slots (jb\<lparr> jb_data := (jb_data jb)[i := b'] \<rparr>) = jb_slots jb"
proof -
  note k = block_update_keeps [OF u]
  obtain ms where ms: "holds al (jb_data jb) ms F" "contents_ok S (heap al) (jb_data jb) ms" using jinvD(3) [OF j] by blast
  have len: "i < length (jb_data jb)" by (rule jinvD(7) [OF j i])
  have h: "holds al ((jb_data jb)[i := b']) ms F" using holds_same_frames [OF ms(1) len] k by simp
  have c: "contents_ok S (heap al) ((jb_data jb)[i := b']) ms"
    using ms(2) k(1) len by (simp add: contents_ok_def nth_list_update)
  have f: "block_fits S b'" using jinvD(6) [OF j i] k by (simp add: block_fits_def block_placeholder_def)
  show "jinv S F (jb\<lparr> jb_data := (jb_data jb)[i := b'] \<rparr>) al" "jb_slots (jb\<lparr> jb_data := (jb_data jb)[i := b'] \<rparr>) = jb_slots jb"
    using set_block_jinv [OF j i h c k(1) f] by simp_all
qed

lemma requests_total:
  assumes j: "jinv S F jb al" and i: "i \<in> jb_slots jb" and src: "source_ok S"
  shows "\<exists>rs. block_requests (heap al) (jb_data jb ! i) = Some rs"
proof (cases "rb_received_frames (jb_data jb ! i) > 0 \<and> 0 < block_num_frames (jb_data jb ! i)")
  case False
  then show ?thesis by (auto simp: block_requests_def frame_requests.simps)
next
  case True
  let ?b = "jb_data jb ! i"
  have len: "i < length (jb_data jb)" by (rule jinvD(7) [OF j i])
  obtain ms where "holds al (jb_data jb) ms F" using jinvD(3) [OF j] by blast
  then have bok: "block_ok (heap al) ?b (ms ! i)" using holdsD(2) len by blast
  have n: "int (block_num_frames ?b) = sb_num_frames (S (rb_sequence ?b))"
    using jinvD(6) [OF j i] True by (auto simp: block_fits_def block_placeholder_def block_num_frames_def)
  then have "block_num_frames ?b \<le> 32752" using src True unfolding source_ok_def
    by (auto dest!: spec [of _ "rb_sequence ?b"] split: if_splits)
  then show ?thesis using block_requests_ok [OF bok conjunct2 [OF True]] by auto
qed

lemma check_blocks_ok:
  assumes "jinv S F jb al" and "k + n < jb_size jb" and "it = Some ((jb_tail jb + k) mod jitter_capacity jb)"
    and src: "source_ok S"
  shows "\<exists>rs jb'. check_blocks s (heap al) n it bo re jb = Some (rs, jb') \<and> jinv S F jb' al \<and>
    jitter_capacity jb' = jitter_capacity jb"
  using assms(1-3)
proof (induction n arbitrary: k it bo re jb)
  case 0
  then show ?case by simp
next
  case (Suc n)
  let ?i = "(jb_tail jb + k) mod jitter_capacity jb"
  have i: "?i \<in> jb_slots jb" using Suc.prems(2) by (auto simp: jb_slots_def)
  have it: "jitter_iter_next jb ?i = Some ((jb_tail jb + Suc k) mod jitter_capacity jb)"
    using jitter_iter_next_slot [OF jinvD(1) [OF Suc.prems(1)]] Suc.prems(2) by simp
  have IH: "\<exists>rs jb''. check_blocks s (heap al) n (Some ((jb_tail jb + Suc k) mod jitter_capacity jb)) bo re jb' = Some (rs, jb'') \<and>
      jinv S F jb'' al \<and> jitter_capacity jb'' = jitter_capacity jb"
    if "jinv S F jb' al" "jb_size jb' = jb_size jb" "jb_tail jb' = jb_tail jb" "jitter_capacity jb' = jitter_capacity jb" for jb' bo re
    using Suc.IH [OF that(1), of "Suc k"] that Suc.prems(2) by simp
  obtain upd b' where u: "block_update (re_elapsed s) (re_interval s) (jb_data jb ! ?i) = (upd, b')"
    by (cases "block_update (re_elapsed s) (re_interval s) (jb_data jb ! ?i)")
  define jb1 where "jb1 = jb\<lparr> jb_data := (jb_data jb)[?i := b'] \<rparr>"
  have j1: "jinv S F jb1 al" "jb_slots jb1 = jb_slots jb"
    using update_block_jinv [OF Suc.prems(1) i u] by (simp_all add: jb1_def)
  have eq1: "jb_size jb1 = jb_size jb" "jb_tail jb1 = jb_tail jb" "jitter_capacity jb1 = jitter_capacity jb"
    by (simp_all add: jb1_def jitter_capacity_def)
  have b1: "jb_data jb1 ! ?i = b'" using jinvD(7) [OF Suc.prems(1) i] by (simp add: jb1_def)
  obtain rs where rs: "block_requests (heap al) b' = Some rs"
    using requests_total [OF j1(1), of ?i] i src unfolding j1(2) b1 by blast
  let ?it = "Some ((jb_tail jb + Suc k) mod jitter_capacity jb)"
  have e: "check_blocks s (heap al) (Suc n) it bo re jb =
     (if skip_block s bo \<or> block_complete (jb_data jb ! ?i) then check_blocks s (heap al) n ?it (Suc bo) re jb
      else if \<not> upd then check_blocks s (heap al) n ?it (Suc bo) re jb1
      else if re + 1 \<ge> re_limit s then Some (rs, jb1)
      else do {
        (rs', jb) \<leftarrow> check_blocks s (heap al) n ?it (Suc bo) (re + 1) jb1;
        Some (rs @ rs', jb) })"
    using Suc.prems(3) it u rs by (simp add: jb1_def Let_def)
  obtain rs2 jb2 where 2: "check_blocks s (heap al) n ?it (Suc bo) (re + 1) jb1 = Some (rs2, jb2)" "jinv S F jb2 al"
    "jitter_capacity jb2 = jitter_capacity jb"
    using IH [OF j1(1) eq1] by blast
  show ?case
    unfolding e using IH [OF Suc.prems(1) refl refl refl, of "Suc bo" re] IH [OF j1(1) eq1, of "Suc bo" re] 2 j1(1) eq1(3)
    by (simp split: if_splits)
qed

lemma request_missing_ok:
  assumes p: "playable S P F sd" and src: "source_ok S"
  shows "\<exists>sd'. request_missing s sd = Some sd' \<and> plays S P F sd sd'"
proof -
  let ?jb = "sd_jitter_buffer sd"
  have j: "jinv S F ?jb (sd_frame_allocator sd)" by (rule playable_jb(2) [OF p])
  have "\<exists>rs jb'. check_missing_blocks r (heap (sd_frame_allocator sd)) ?jb = Some (rs, jb') \<and>
      jinv S F jb' (sd_frame_allocator sd) \<and> jitter_capacity jb' = jitter_capacity ?jb" for r
  proof (cases "1 < jb_size ?jb")
    case False
    then show ?thesis using j by (simp add: check_missing_blocks_def)
  next
    case True
    have "jitter_begin ?jb = Some ((jb_tail ?jb + 0) mod jitter_capacity ?jb)"
      using True jinvD(1) [OF j] by (simp add: jitter_begin_def jitter_empty_def jb_ok_def)
    from check_blocks_ok [OF j _ this src, of "jb_size ?jb - 1" r 0 0] True j show ?thesis
      by (simp add: check_missing_blocks_def)
  qed
  note total = this
  define r where "r = \<lparr> re_low_latency_enabled = sd_low_latency_enabled sd, re_configuration = sd_low_latency_configuration sd,
         re_round_trip_p95 = sd_round_trip_p95 sd, re_resend_enabled = sk_resend_enabled s,
         re_limit = sk_resend_limit s, re_interval = sk_resend_interval s, re_elapsed = sk_elapsed_time s \<rparr>"
  obtain rs jb' where jb': "check_missing_blocks r (heap (sd_frame_allocator sd)) ?jb = Some (rs, jb')"
    "jinv S F jb' (sd_frame_allocator sd)" "jitter_capacity jb' = jitter_capacity ?jb"
    using total by blast
  have "request_missing s sd = Some (sd\<lparr> sd_jitter_buffer := jb', sd_data_requests := sd_data_requests sd @ rs \<rparr>)"
    using jb'(1) by (simp add: request_missing_def r_def)
  then show ?thesis using p jb'(2,3) by (simp add: play_defs)
qed

subsection \<open>Mixing\<close>

lemma add_samples_ok:
  assumes "n \<le> length out" and "0 \<le> i" "i < nch" and "int n * nch \<le> int (length buf)"
  shows "\<exists>out'. add_samples buf nch i [k..<n] out = Some out' \<and> length out' = length out \<and>
    (\<forall>j < length out. out' ! j = out ! j + (if k \<le> j \<and> j < n then buf ! nat (int j * nch + i) else 0))"
  using assms
proof (induction "n - k" arbitrary: k out)
  case 0
  then show ?case by simp
next
  case (Suc m)
  have k: "k < n" "[k..<n] = k # [Suc k..<n]" using Suc.hyps(2) by (auto simp: upt_conv_Cons)
  have "int k * nch + i < int n * nch"
  proof -
    have "int k * nch + i < (int k + 1) * nch" using Suc.prems(3) by (simp add: algebra_simps)
    also have "\<dots> \<le> int n * nch" using k(1) Suc.prems(2,3) by (intro mult_right_mono) auto
    finally show ?thesis .
  qed
  then have in_buf: "k < length out \<and> 0 \<le> int k * nch + i \<and> int k * nch + i < int (length buf)"
    using Suc.prems k(1) by simp
  let ?out = "out[k := out ! k + buf ! nat (int k * nch + i)]"
  have m: "m = n - Suc k" and le: "n \<le> length ?out" using Suc.hyps(2) Suc.prems(1) by simp_all
  obtain out' where "add_samples buf nch i [Suc k..<n] ?out = Some out'" "length out' = length ?out"
    "\<forall>j < length ?out. out' ! j = ?out ! j + (if Suc k \<le> j \<and> j < n then buf ! nat (int j * nch + i) else 0)"
    using Suc.hyps(1) [OF m le Suc.prems(2-4)] by (elim exE conjE) (rule that)
  then show ?case using k in_buf by (auto simp: Let_def nth_list_update)
qed

lemma mix_ok:
  assumes "\<forall>c < length buffer. nat n \<le> length (buffer ! c)" and "sk_nchannels s \<le> int (length buffer)"
    and "0 \<le> chn" and "0 \<le> a" and "0 \<le> n" and "n * nch \<le> int (length buf)"
  shows "\<exists>b'. mix s n buf nch chn [a..nch - 1] buffer = Some b' \<and> length b' = length buffer \<and>
    (\<forall>c < length buffer. length (b' ! c) = length (buffer ! c) \<and> (\<forall>j < length (buffer ! c).
       b' ! c ! j = buffer ! c ! j + (if a \<le> int c - chn \<and> int c - chn < nch \<and> int c < sk_nchannels s \<and> int j < n
         then buf ! nat (int j * nch + (int c - chn)) else 0)))"
  using assms
proof (induction "nat (nch - a)" arbitrary: a buffer)
  case 0
  then show ?case by simp
next
  case (Suc m)
  have a: "a < nch" "[a..nch - 1] = a # [a + 1..nch - 1]" using Suc.hyps(2) by (auto simp: upto_rec1)
  have hyp: "m = nat (nch - (a + 1))" using Suc.hyps(2) by simp
  show ?case
  proof (cases "a + chn < sk_nchannels s")
    case False
    obtain b' where "mix s n buf nch chn [a + 1..nch - 1] buffer = Some b'" "length b' = length buffer"
      "\<forall>c < length buffer. length (b' ! c) = length (buffer ! c) \<and> (\<forall>j < length (buffer ! c).
       b' ! c ! j = buffer ! c ! j + (if a + 1 \<le> int c - chn \<and> int c - chn < nch \<and> int c < sk_nchannels s \<and> int j < n
         then buf ! nat (int j * nch + (int c - chn)) else 0))"
      using Suc.hyps(1) [OF hyp Suc.prems(1-3) _ Suc.prems(5,6)] Suc.prems(4) by auto
    moreover have "a + 1 \<le> int c - chn \<and> int c < sk_nchannels s \<longleftrightarrow> a \<le> int c - chn \<and> int c < sk_nchannels s" for c
      using False by auto
    ultimately show ?thesis using a False by (auto simp: Let_def)
  next
    case True
    let ?c = "nat (a + chn)"
    have c: "?c < length buffer" "int ?c = a + chn" "0 \<le> a + chn" "a + chn < int (length buffer)"
      using True Suc.prems by auto
    obtain out where out: "add_samples buf nch a [0..<nat n] (buffer ! ?c) = Some out" "length out = length (buffer ! ?c)"
      "\<forall>j < length (buffer ! ?c). out ! j = buffer ! ?c ! j + (if j < nat n then buf ! nat (int j * nch + a) else 0)"
      using add_samples_ok [of "nat n" "buffer ! ?c" a nch buf 0] Suc.prems c(1) a(1) by auto
    let ?buf = "buffer[?c := out]"
    have len: "\<forall>x < length ?buf. nat n \<le> length (?buf ! x)" using Suc.prems(1) out(2) c(1) by (simp add: nth_list_update)
    obtain b' where b': "mix s n buf nch chn [a + 1..nch - 1] ?buf = Some b'" "length b' = length ?buf"
      "\<forall>x < length ?buf. length (b' ! x) = length (?buf ! x) \<and> (\<forall>j < length (?buf ! x).
       b' ! x ! j = ?buf ! x ! j + (if a + 1 \<le> int x - chn \<and> int x - chn < nch \<and> int x < sk_nchannels s \<and> int j < n
         then buf ! nat (int j * nch + (int x - chn)) else 0))"
      using Suc.hyps(1) [OF hyp len _ Suc.prems(3) _ Suc.prems(5,6)] Suc.prems(2,4) by auto
    have "mix s n buf nch chn [a..nch - 1] buffer = Some b'" using a True c out(1) b'(1) by (simp add: Let_def)
    moreover have "length (b' ! x) = length (buffer ! x) \<and> (\<forall>j < length (buffer ! x).
       b' ! x ! j = buffer ! x ! j + (if a \<le> int x - chn \<and> int x - chn < nch \<and> int x < sk_nchannels s \<and> int j < n
         then buf ! nat (int j * nch + (int x - chn)) else 0))" if x: "x < length buffer" for x
    proof (cases "x = ?c")
      case True
      then show ?thesis using b'(3) out(2,3) x c a(1) \<open>a + chn < sk_nchannels s\<close> by (auto simp: nat_less_iff)
    next
      case False
      then have "a \<noteq> int x - chn" using c by auto
      then have "a + 1 \<le> int x - chn \<longleftrightarrow> a \<le> int x - chn" by auto
      then show ?thesis using b'(3) x False by (simp add: nth_list_update)
    qed
    ultimately show ?thesis using b'(2) by auto
  qed
qed

subsection \<open>The callback\<close>

text \<open>Everything that the invariant speaks about.\<close>

definition core :: "'d source_desc \<Rightarrow> (jitter_buffer \<times> data_frame_allocator \<times> dynamic_resampler \<times> AooFormat option) \<times>
    (int \<times> int \<times> 'd option \<times> net_packet list \<times> int)" where
  "core sd = ((sd_jitter_buffer sd, sd_frame_allocator sd, sd_resampler sd, sd_format sd),
     (sd_latency_blocks sd, sd_channel sd, sd_decoder sd, sd_packet_queue sd, sd_stream_id sd))"

lemma core_effects [simp]:
  "core (queue_event e sd) = core sd" "core (send_event e sd) = core sd" "core (flush_events sd) = core sd"
  "core (push_request r sd) = core sd" "core (enter_state st sd) = core sd" "core (process_would_block sd) = core sd"
  "core (check_update sd) = core sd" "core (on_underrun s sd) = core sd" "core (announce_start n sd) = core sd"
  "core (send_stats stats sd) = core sd"
  by (simp_all add: core_def effect_defs process_would_block_def add_xrun_def check_update_def on_underrun_def
    announce_start_def send_stats_def Let_def)

lemma core_deliver: "core (snd (deliver ds sd)) = core sd"
  by (induction ds sd rule: deliver.induct) (auto simp: case_prod_unfold Let_def)

lemma core_dispatch:
  assumes "dispatch s n sd = (msgs, sd')"
  shows "core sd' = core sd"
proof -
  obtain ds rest where d: "dispatch_stream_messages (of_int (sk_samplerate s)) (sd_local_tt sd)
      (sd_process_samples sd) n (sd_stream_messages sd) = (ds, rest)"
    by (rule prod.exhaust)
  let ?sd = "snd (deliver ds (sd\<lparr> sd_stream_messages := rest \<rparr>))"
  have "sd' = ?sd\<lparr> sd_process_samples := sd_process_samples ?sd + n \<rparr>"
    using assms d by (simp add: dispatch_def Let_def case_prod_unfold)
  then have "core sd' = core ?sd" by (simp add: core_def)
  then show ?thesis using core_deliver [of ds "sd\<lparr> sd_stream_messages := rest \<rparr>"] by (simp add: core_def)
qed

lemma core_run_state: "run_state sd = (go, sd') \<Longrightarrow> core sd' = core sd"
  by (auto simp: run_state_def Let_def core_def effect_defs split: source_state.splits if_splits)

lemma playable_core: "core sd' = core sd \<Longrightarrow> playable S P F sd' = playable S P F sd"
  by (simp add: core_def playable_def frames_inv_def)

lemma sink_inv_core: "core sd' = core sd \<Longrightarrow> sink_inv S sd' = sink_inv S sd"
  by (simp add: core_def sink_inv_def frames_inv_def)

lemma fill_ratio_ok:
  assumes "playable S P F sd"
  shows "\<exists>sd'. update_buffer_fill_ratio sd = Some sd' \<and> core sd' = core sd"
  using playable_format [OF assms] by (auto simp: update_buffer_fill_ratio_def Let_def core_def)

text \<open>
  A source description of a stream of \<open>S\<close> whose decoder satisfies \<open>P\<close>, and the arguments of the callback:
  the output has a channel of \<open>n\<close> samples for every channel of the sink, and \<open>n\<close> is the block size when
  the resampler is bypassed.
\<close>

definition sink_ok :: "block_source \<Rightarrow> ('d \<Rightarrow> bool) \<Rightarrow> 'd decoder_interface \<Rightarrow> 'd source_desc \<Rightarrow> bool" where
  "sink_ok S P cls sd \<longleftrightarrow> sink_inv S sd \<and> (\<forall>dec. sd_decoder sd = Some dec \<longrightarrow> P dec) \<and>
     (\<forall>fmt. sd_format sd = Some fmt \<longrightarrow> decoder_ok S P cls fmt)"

definition callback_ok :: "sink_settings \<Rightarrow> int \<Rightarrow> real list list option \<Rightarrow> 'd source_desc \<Rightarrow> bool" where
  "callback_ok s n buffer sd \<longleftrightarrow> settings_ok s \<and> 0 \<le> n \<and>
     (\<forall>b. buffer = Some b \<longrightarrow> sk_nchannels s \<le> int (length b) \<and> (\<forall>out \<in> set b. nat n \<le> length out)) \<and>
     (rs_bypass (sd_resampler sd) \<longrightarrow> (\<forall>fmt. sd_format sd = Some fmt \<longrightarrow> blockSize fmt = n))"

text \<open>What the callback writes: the samples of the source, from its first channel on.\<close>

definition mixed :: "sink_settings \<Rightarrow> int \<Rightarrow> real list \<Rightarrow> int \<Rightarrow> int \<Rightarrow> real list list \<Rightarrow> real list list \<Rightarrow> bool" where
  "mixed s n buf nch chn b b' \<longleftrightarrow> length b' = length b \<and> (\<forall>c < length b. length (b' ! c) = length (b ! c) \<and>
     (\<forall>j < length (b ! c). b' ! c ! j = b ! c ! j +
       (if 0 \<le> int c - chn \<and> int c - chn < nch \<and> int c < sk_nchannels s \<and> int j < n
        then buf ! nat (int j * nch + (int c - chn)) else 0)))"

lemma output_block_ok:
  assumes p: "playable S P F sd" and b: "block_of n sd buf" and c: "callback_ok s n buffer sd0"
  shows "\<exists>buffer' msgs sd'. output_block s n tt buffer buf stats sd = Some (True, buffer', msgs, sd') \<and> core sd' = core sd"
proof -
  obtain fmt where fmt: "sd_format sd = Some fmt" "format_ok fmt" and chn: "0 \<le> sd_channel sd"
    using playable_format [OF p] by blast
  have len: "int (length buf) = n * numChannels fmt" using b fmt(1) by (simp add: block_of_def)
  define sd1 where "sd1 = (if sd_process_samples sd = 0 then sd\<lparr> sd_local_tt := tt \<rparr> else sd)"
  obtain msgs sd2 where d: "dispatch s n (announce_start n sd1) = (msgs, sd2)" by (cases "dispatch s n (announce_start n sd1)")
  have "core sd1 = core sd" by (simp add: sd1_def core_def)
  then have c2: "core sd2 = core sd" using core_dispatch [OF d] by simp
  then obtain sd3 where f: "update_buffer_fill_ratio sd2 = Some sd3" "core sd3 = core sd"
    using fill_ratio_ok [of S P F sd2] playable_core [OF c2] p by auto
  have "sd_channel sd2 = sd_channel sd" using c2 by (simp add: core_def)
  moreover have "\<exists>buffer'. mix_output s n buf (numChannels fmt) (sd_channel sd) buffer = Some buffer'"
  proof (cases buffer)
    case None
    then show ?thesis by (simp add: mix_output_def)
  next
    case (Some b)
    then have "\<forall>c < length b. nat n \<le> length (b ! c)" "sk_nchannels s \<le> int (length b)" "0 \<le> n"
      using c by (auto simp: callback_ok_def)
    from mix_ok [OF this(1,2) chn order_refl this(3), of "numChannels fmt" buf] len Some show ?thesis
      by (auto simp: mix_output_def)
  qed
  ultimately show ?thesis
    using fmt(1) len d f by (auto simp: output_block_def Let_def sd1_def [symmetric])
qed

lemma output_mix:
  assumes "output_block s n tt buffer buf stats sd = Some (played, buffer', msgs, sd')" and "sd_format sd = Some fmt"
  shows "mix_output s n buf (numChannels fmt) (sd_channel sd) buffer = Some buffer'"
proof -
  define sd1 where "sd1 = (if sd_process_samples sd = 0 then sd\<lparr> sd_local_tt := tt \<rparr> else sd)"
  obtain ms sd2 where d: "dispatch s n (announce_start n sd1) = (ms, sd2)" by (cases "dispatch s n (announce_start n sd1)")
  have "core sd1 = core sd" by (simp add: sd1_def core_def)
  then have "core sd2 = core sd" using core_dispatch [OF d] by simp
  then have "sd_channel sd2 = sd_channel sd" by (simp add: core_def)
  then show ?thesis
    using assms d by (auto simp: output_block_def Let_def sd1_def [symmetric] split: if_splits bind_splits)
qed

lemma playable_empty_queue:
  assumes "playable S P {} sd" and "sd_packet_queue sd = []"
  shows "sink_inv S sd"
  using assms by (simp add: sink_inv_empty playable_def)

lemma process_ok:
  assumes ok: "sink_ok S P cls sd" and src: "source_ok S" and c: "callback_ok s n buffer sd"
  shows "\<exists>played buffer' msgs sd'. process cls s n tt buffer sd = Some (played, buffer', msgs, sd') \<and> sink_ok S P cls sd' \<and>
    sd_stream_id sd' = sd_stream_id sd"
proof (cases "sd_decoder sd")
  case None
  let ?sd = "sd\<lparr> sd_buffer_fill_ratio := 0 \<rparr>"
  have "core ?sd = core sd" by (simp add: core_def)
  then have "sink_inv S ?sd = sink_inv S sd" by (rule sink_inv_core)
  then have "sink_ok S P cls ?sd" using ok by (simp add: sink_ok_def)
  then show ?thesis using None by (auto simp: process_def update_buffer_fill_ratio_def)
next
  case (Some dec)
  have inv: "sink_inv S sd" and P: "P dec" and cls: "\<forall>fmt. sd_format sd = Some fmt \<longrightarrow> decoder_ok S P cls fmt"
    using ok Some by (auto simp: sink_ok_def)
  have p: "playable S P (set (queue_frames (sd_packet_queue sd))) sd"
    using sink_invD(1,4) [OF inv] Some P by (simp add: playable_def)
  obtain go sd1 where run: "run_state sd = (go, sd1)" by (cases "run_state sd")
  note c1 = core_run_state [OF run]
  have fin: "sink_ok S P cls sd' \<and> sd_stream_id sd' = sd_stream_id sd" if "core sd' = core sd" for sd'
    using ok sink_inv_core [OF that] that by (simp add: sink_ok_def core_def)
  show ?thesis
  proof (cases go)
    case False
    obtain sd2 where "update_buffer_fill_ratio sd1 = Some sd2" "core sd2 = core sd"
      using fill_ratio_ok [OF iffD2 [OF playable_core [OF c1] p]] c1 by auto
    then show ?thesis using Some run False fin [of sd2] by (auto simp: process_def)
  next
    case True
    let ?sd = "check_update sd1"
    have cu: "core ?sd = core sd" using c1 by simp
    obtain stats sd2 where 2: "consume_packets \<lparr> dropped = 0, resent = 0, xrun = 0 \<rparr> ?sd = Some (stats, sd2)"
      "sink_inv S sd2" "sd_packet_queue sd2 = []" "sd_stream_id sd2 = sd_stream_id ?sd" "sd_decoder sd2 = sd_decoder ?sd"
      "sd_format sd2 = sd_format ?sd" "setup_of (sd_resampler sd2) (sd_latency_blocks sd2) (sd_channel sd2)
        = setup_of (sd_resampler ?sd) (sd_latency_blocks ?sd) (sd_channel ?sd)"
      using consume_packets_ok [of S ?sd "\<lparr> dropped = 0, resent = 0, xrun = 0 \<rparr>"] inv sink_inv_core [OF cu]
      by (elim meta_impE exE conjE) (simp, rule that)
    have same: "sd_format sd2 = sd_format sd" "sd_decoder sd2 = Some dec" "sd_stream_id sd2 = sd_stream_id sd"
      "rs_bypass (sd_resampler sd2) = rs_bypass (sd_resampler sd)"
      using 2(4-7) cu Some by (auto simp: core_def setup_of_def rs_shape_def)
    have p2: "playable S P {} sd2"
      using sink_invD(1,4) [OF 2(2)] 2(3) same(2) P by (simp add: playable_def queue_frames_def)
    obtain sd3 where 3: "request_missing s sd2 = Some sd3" "plays S P {} sd2 sd3"
      using request_missing_ok [OF p2 src] by blast
    have "settings_ok s" "0 \<le> n" using c by (simp_all add: callback_ok_def)
    moreover have "\<forall>fmt. sd_format sd3 = Some fmt \<longrightarrow> decoder_ok S P cls fmt \<and> (rs_bypass (sd_resampler sd3) \<longrightarrow> blockSize fmt = n)"
      using cls c plays_shape(1,3) [OF 3(2)] same by (auto simp: callback_ok_def)
    ultimately obtain res stats4 sd4 where 4: "produce cls s n stats sd3 = Some (res, stats4, sd4)" "has_run S P {} sd3 sd4"
      "\<forall>buf. res = Some buf \<longrightarrow> block_of n sd3 buf"
      using produce_ok [OF playsD [OF 3(2)] src, of s n cls stats] by blast
    note p4 = has_runD [OF 4(2)]
    have s4: "sd_packet_queue sd4 = []" "sd_format sd4 = sd_format sd" "sd_stream_id sd4 = sd_stream_id sd"
      using 4(2) 3(2) 2(3) same by (simp_all add: has_run_def plays_def same_def)
    have done4: "sink_ok S P cls sd' \<and> sd_stream_id sd' = sd_stream_id sd" if eq: "core sd' = core sd4" for sd'
    proof -
      have "sd_packet_queue sd' = []" "sd_format sd' = sd_format sd" "sd_stream_id sd' = sd_stream_id sd"
        "playable S P {} sd'"
        using eq s4 playable_core [OF eq] p4 by (simp_all add: core_def)
      then show ?thesis using cls playable_empty_queue [of S P sd'] by (auto simp: sink_ok_def playable_def)
    qed
    show ?thesis
    proof (cases res)
      case None
      obtain sd5 where "update_buffer_fill_ratio (on_underrun s sd4) = Some sd5" "core sd5 = core sd4"
        using fill_ratio_ok [of S P "{}" "on_underrun s sd4"] playable_core [of "on_underrun s sd4" sd4] p4 by auto
      then show ?thesis using Some run True 2(1) 3(1) 4(1) None done4 [of "flush_events sd5"] by (auto simp: process_def)
    next
      case (Some buf)
      have "block_of n sd4 buf" using 4(3) Some has_run_shape(2) [OF 4(2)] by (simp add: block_of_def)
      then obtain buffer' msgs sd5 where "output_block s n tt buffer buf stats4 sd4 = Some (True, buffer', msgs, sd5)"
        "core sd5 = core sd4"
        using output_block_ok [OF p4 _ c] by blast
      then show ?thesis using \<open>sd_decoder sd = Some dec\<close> run True 2(1) 3(1) 4(1) Some done4 [of sd5] by (auto simp: process_def)
    qed
  qed
qed

end
