(* ===== verification/Sink_System.thy ===== *)
theory Sink_System
  imports Sink_Audio
begin

text \<open>
  The source description of a sink as a transition system: the network thread delivers packets, the audio
  thread runs its callback, in any order. The theorems say that no reachable state can make one of
  them fail, that the callback always returns, and that the decoder only ever sees blocks of the source.
\<close>

subsection \<open>Steps\<close>

inductive sink_step :: "block_source \<Rightarrow> 'd decoder_interface \<Rightarrow> 'd source_desc \<Rightarrow> 'd source_desc \<Rightarrow> bool"
  for S :: block_source and cls :: "'d decoder_interface" where
  receive: "arrives S (sd_stream_id sd) d \<Longrightarrow> handle_data s d sd = Some (err, sd') \<Longrightarrow> sink_step S cls sd sd'"
| play: "callback_ok s n buffer sd \<Longrightarrow> process cls s n tt buffer sd = Some (played, buffer', msgs, sd') \<Longrightarrow> sink_step S cls sd sd'"
| miss: "sink_step S cls sd (process_would_block sd)"
| flush: "flush_packet_queue sd = Some sd' \<Longrightarrow> sink_step S cls sd sd'"

inductive_cases sink_step_cases [elim]: "sink_step S cls sd sd'"

lemma core_enqueue:
  "enqueue_packet fmt d sd = Some sd' \<Longrightarrow> sd_decoder sd' = sd_decoder sd \<and> sd_format sd' = sd_format sd"
  by (auto simp: enqueue_packet_def Let_def split: if_splits bind_splits)

lemma core_data_state:
  "data_state_check s d sd = Some sd' \<Longrightarrow> sd_decoder sd' = sd_decoder sd \<and> sd_format sd' = sd_format sd"
  by (auto simp: data_state_check_def effect_defs Let_def split: if_splits source_state.splits)

lemma core_handle_data:
  assumes "handle_data s d sd = Some (err, sd')"
  shows "sd_decoder sd' = sd_decoder sd" "sd_format sd' = sd_format sd"
  using assms
  by (auto simp: handle_data_def effect_defs Let_def dest!: core_enqueue core_data_state
      split: if_splits option.splits bind_splits)

lemma core_deallocate:
  "deallocate_frame f sd = Some sd' \<Longrightarrow> sd_decoder sd' = sd_decoder sd \<and> sd_format sd' = sd_format sd"
  by (auto simp: deallocate_frame_def split: bind_splits)

lemma core_flush: "flush_packets q sd = Some sd' \<Longrightarrow> sd_decoder sd' = sd_decoder sd \<and> sd_format sd' = sd_format sd"
  by (induction q arbitrary: sd) (auto split: bind_splits dest!: core_deallocate)

lemma sink_step_ok:
  assumes "sink_step S cls sd sd'" and ok: "sink_ok S P cls sd" and src: "source_ok S"
  shows "sink_ok S P cls sd'"
  using assms(1)
proof cases
  case (receive d s err)
  have "sink_inv S sd" using ok by (simp add: sink_ok_def)
  then have "sink_inv S sd'" using handle_data_ok [OF _ receive(1), of s] receive(2) by auto
  then show ?thesis using ok core_handle_data [OF receive(2)] by (simp add: sink_ok_def)
next
  case (play s n buffer tt played buffer' msgs)
  then show ?thesis using process_ok [OF ok src play(1), of tt] by auto
next
  case miss
  have "core (process_would_block sd) = core sd" by simp
  from sink_inv_core [OF this, of S] this miss ok show ?thesis by (simp add: sink_ok_def core_def)
next
  case flush
  have "sink_inv S sd" using ok by (simp add: sink_ok_def)
  then have "sink_inv S sd'" using flush_packet_queue_ok flush by fastforce
  then show ?thesis using ok core_flush [of "sd_packet_queue sd" sd sd'] flush
    by (simp add: sink_ok_def flush_packet_queue_def)
qed

lemma sink_steps_ok:
  assumes "(sink_step S cls)\<^sup>*\<^sup>* sd sd'" and "sink_ok S P cls sd" and "source_ok S"
  shows "sink_ok S P cls sd'"
  using assms by (induction rule: rtranclp_induct) (auto intro: sink_step_ok)

subsection \<open>An example\<close>

text \<open>
  A source whose blocks all contain two bytes, a decoder that records its inputs, and a description that
  has just been set up.
\<close>

definition ex_source :: block_source where
  "ex_source seq = sent_block_init\<lparr> sb_sequence := seq, sb_num_frames := 1, sb_frame_size := 2, sb_buffer := [1, 2] \<rparr>"

definition ex_decoder :: "byte list option list decoder_interface" where
  "ex_decoder = \<lparr> decode = \<lambda>inputs data sz n. (Some (replicate (nat n) 0), data # inputs) \<rparr>"

definition ex_seen :: "byte list option list \<Rightarrow> bool" where
  "ex_seen inputs \<longleftrightarrow> set inputs \<subseteq> {None, Some [1, 2]}"

definition ex_format :: AooFormat where
  "ex_format = \<lparr> numChannels = 1, sampleRate = 48000, blockSize = 2, codecName = ''pcm'' \<rparr>"

definition ex_jitter_buffer :: jitter_buffer where
  "ex_jitter_buffer = \<lparr> jb_data = replicate 4 received_block_empty, jb_vector_capacity = 4, jb_size = 0, jb_head = 0,
     jb_tail = 0, jb_last_pushed = sentinel, jb_last_popped = sentinel \<rparr>"

definition ex_desc :: "byte list option list source_desc" where
  "ex_desc = \<lparr> sd_stream_id = 7, sd_channel = 0, sd_stream_state = stream_buffering, sd_did_update = False,
     sd_underrun = False, sd_stopped = False, sd_xrunblocks = 0, sd_stream_tt = 0, sd_local_tt = 0,
     sd_sample_offset = 0, sd_stream_start = -1, sd_source_latency = 0, sd_sink_latency = 0,
     sd_source_codec_delay = 0, sd_sink_codec_delay = 0, sd_buffer_latency = 0,
     sd_low_latency_configuration = example_configuration, sd_low_latency_enabled = False,
     sd_last_absolute_sample_position = 0, sd_consecutive_missing_blocks = 0, sd_state = source_run,
     sd_metadata = None, sd_invite_token = -1, sd_invite_start_time = 0, sd_last_packet_time = 0, sd_last_ping_time = 0,
     sd_last_stop_time = 0, sd_dropped_blocks = 0, sd_round_trip_p95 = 0, sd_buffer_fill_ratio = 0,
     sd_format = Some ex_format, sd_decoder = Some [], sd_resampler = resampler_new\<lparr> rs_bypass := True \<rparr>,
     sd_frame_allocator = alloc_init, sd_packet_queue = [], sd_jitter_buffer = ex_jitter_buffer,
     sd_latency_blocks = 1, sd_latency_samples = 0, sd_stream_messages = [], sd_stream_samples = 0,
     sd_process_samples = 0, sd_request_queue = [], sd_data_requests = [], sd_event_buffer = [],
     sent_events = [], observations = [] \<rparr>"

lemma ex_desc_fields [simp]:
  "sd_state ex_desc = source_run" "sd_stream_id ex_desc = 7" "sd_decoder ex_desc = Some []"
  "sd_low_latency_enabled ex_desc = False" "sd_format ex_desc = Some ex_format" "sd_frame_allocator ex_desc = alloc_init"
  "sd_packet_queue ex_desc = []" "sd_jitter_buffer ex_desc = ex_jitter_buffer" "sd_underrun ex_desc = False"
  "sd_resampler ex_desc = resampler_new\<lparr> rs_bypass := True \<rparr>" "sd_latency_blocks ex_desc = 1" "sd_channel ex_desc = 0"
  "observations ex_desc = []" "sd_stream_state ex_desc = stream_buffering" "sd_stopped ex_desc = False"
  "sd_low_latency_configuration ex_desc = example_configuration"
  unfolding ex_desc_def by (simp_all only: source_desc.select_convs)

definition ex_settings :: sink_settings where
  "ex_settings = \<lparr> sk_nchannels = 1, sk_samplerate = 48000, sk_blocksize = 2, sk_real_samplerate = 48000,
     sk_elapsed_time = 0, sk_invite_timeout = 1, sk_low_latency_target = 0, sk_resend_enabled = True,
     sk_resend_limit = 16, sk_resend_interval = 1 / 100 \<rparr>"

definition ex_net_packet :: net_packet where
  "ex_net_packet = \<lparr> np_stream_id = 7, np_packet = (sample_packet 0 [1, 2] 1)\<lparr> dp_size := 2 \<rparr> \<rparr>"

lemma ex_source_ok: "source_ok ex_source"
  by (simp add: source_ok_def ex_source_def sent_block_ok_def read_messages_def sent_block_init_def)

lemma ex_decoder_ok: "decoder_ok ex_source ex_seen ex_decoder ex_format"
  by (auto simp: decoder_ok_def ex_decoder_def ex_seen_def ex_format_def fed_def ex_source_def sent_block_init_def)

lemma ex_jinv: "jinv S {} ex_jitter_buffer alloc_init"
proof -
  have "holds alloc_init (jb_data ex_jitter_buffer) (replicate 4 Map.empty) {}"
  proof -
    have "owns alloc_init (replicate bin_count []) (replicate 4 received_block_empty) (replicate 4 Map.empty)"
      using owns_all_empty [OF alloc_init_ok, of "replicate 4 received_block_empty"]
      by (simp add: received_block_empty_def storage_empty_def)
    moreover have "in_use alloc_init (replicate bin_count []) = {}" by (simp add: in_use_def alloc_init_def)
    moreover have "held (replicate 4 Map.empty) = {}" by (auto simp: held_def)
    ultimately show ?thesis by (auto simp: holds_def ex_jitter_buffer_def)
  qed
  moreover have "contents_ok S (heap alloc_init) (jb_data ex_jitter_buffer) (replicate 4 Map.empty)"
    by (simp add: contents_ok_def ex_jitter_buffer_def)
  moreover have "jb_contents ex_jitter_buffer = []" by (simp add: jb_contents_def ex_jitter_buffer_def)
  ultimately show ?thesis
    by (auto simp: jinv_def jb_ok_def jitter_capacity_def order_ok_def seqs_def seq_range_def)
      (simp_all add: ex_jitter_buffer_def received_block_empty_def storage_empty_def)
qed

lemma ex_desc_ok: "sink_ok ex_source ex_seen ex_decoder ex_desc"
  using ex_jinv ex_decoder_ok
  by (auto simp: sink_ok_def sink_inv_def frames_inv_def queue_frames_def resampler_ready_def
      resampler_new_def format_set_def setup_of_def rs_shape_def ex_format_def format_ok_def ex_seen_def)

lemma ex_arrives: "arrives ex_source (sd_stream_id ex_desc) ex_net_packet"
  by (simp add: arrives_def ex_net_packet_def sample_packet_def packet_shape_def announces_def
      ex_source_def sent_block_init_def frame_of_def chunk_def sent_block_get_frame_def double_is_zero_def
      max_bin_size_def AOO_MAX_PACKET_SIZE_def INT32_MAX_def)

lemma ex_callback_ok: "callback_ok ex_settings 2 (Some [[0, 0]]) ex_desc"
  by (simp add: callback_ok_def settings_ok_def ex_settings_def ex_format_def)

text \<open>The packet in the queue of the description, and in its jitter buffer.\<close>

definition ex_frame :: data_frame where
  "ex_frame = \<lparr> fr_size = 2, fr_bin_index = 0, fr_frame_index = 0, fr_next = None, fr_data = [1, 2] \<rparr>"

definition ex_allocator :: data_frame_allocator where
  "ex_allocator = alloc_init\<lparr> allocated_counts := (replicate bin_count 0)[0 := 1], num_alloc_bytes := int (bin_to_alloc_size 0),
     num_alloc_frames := 1, heap := [0 \<mapsto> ex_frame], next_addr := 1 \<rparr>"

definition ex_queued :: net_packet where
  "ex_queued = ex_net_packet\<lparr> np_packet := (np_packet ex_net_packet)
     \<lparr> dp_samplerate := double_of_int 48000, dp_frame := Some 0 \<rparr> \<rparr>"

lemma ex_bin: "size_to_bin 2 = Some 0"
proof -
  have "bit_len (Suc 0) = 1" by (simp add: bit_len.simps)
  then show ?thesis by (simp add: size_to_bin_def bin_const_defs clz_def)
qed

definition ex_received :: "byte list option list source_desc" where
  "ex_received = ex_desc\<lparr> sd_last_packet_time := 0, sd_frame_allocator := ex_allocator, sd_packet_queue := [ex_queued] \<rparr>"

lemma ex_handle_data:
  "handle_data ex_settings ex_net_packet ex_desc = Some (kAooOk, ex_received)"
proof -
  have a: "alloc_allocate 2 alloc_init = Some (0, ex_allocator\<lparr> heap := [0 \<mapsto> ex_frame\<lparr> fr_data := [] \<rparr>] \<rparr>)"
    by (simp add: alloc_allocate_def ex_bin alloc_init_def allocate_frame_def set_frame_def Let_def ex_allocator_def ex_frame_def bin_count_eq)
  let ?sd = "ex_desc\<lparr> sd_last_packet_time := 0 \<rparr>"
  have "data_state_check ex_settings ex_net_packet ?sd = None"
    by (simp add: data_state_check_def)
  moreover have "enqueue_packet ex_format ex_net_packet ?sd = Some ex_received"
    using a by (simp add: enqueue_packet_def ex_net_packet_def sample_packet_def double_is_zero_def Let_def set_frame_def
       ex_queued_def ex_format_def ex_allocator_def ex_frame_def ex_received_def)
  ultimately show ?thesis
    by (simp add: handle_data_def Let_def ex_settings_def)
     (simp add: ex_net_packet_def sample_packet_def)
qed
definition ex_block :: received_block where
  "ex_block = (block_init (np_packet ex_queued) received_block_empty)\<lparr> rb_received_frames := 1,
     rb_frames := (storage_init 1 storage_empty)\<lparr> st_vec := (replicate small_frame_limit None)[0 := Some 0] \<rparr> \<rparr>"

definition ex_playing :: "byte list option list source_desc" where
  "ex_playing = ex_desc\<lparr> sd_last_packet_time := 0, sd_frame_allocator := ex_allocator, sd_packet_queue := [], sd_jitter_buffer := ex_jitter_buffer
     \<lparr> jb_data := (replicate 4 received_block_empty)[0 := ex_block], jb_size := 1, jb_head := 1, jb_last_pushed := 0 \<rparr>,
     observations := [ObserveCompletion ex_queued] \<rparr>"

lemma ex_consume:
  "consume_packets stats ex_received = Some (stats, ex_playing)"
proof -
  let ?sd = "ex_desc\<lparr> sd_last_packet_time := 0, sd_frame_allocator := ex_allocator, sd_packet_queue := [] \<rparr>"
  let ?b = "block_init (np_packet ex_queued) received_block_empty"
  let ?jb = "ex_jitter_buffer\<lparr> jb_data := (replicate 4 received_block_empty)[0 := ?b], jb_size := 1, jb_head := 1, jb_last_pushed := 0 \<rparr>"
  have q: "np_stream_id ex_queued = 7" "dp_sequence (np_packet ex_queued) = 0" "dp_size (np_packet ex_queued) = 2"
    "dp_frame (np_packet ex_queued) = Some 0" "dp_frame_index (np_packet ex_queued) = 0" "dp_num_frames (np_packet ex_queued) = 1" "dp_total_size (np_packet ex_queued) = 2"
    by (simp_all add: ex_queued_def ex_net_packet_def sample_packet_def)
  have "jitter_find 0 ex_jitter_buffer = Some None"
    by (simp add: jitter_find_def ex_jitter_buffer_def jitter_empty_def)
  moreover have "jitter_push_block (np_packet ex_queued) ex_jitter_buffer = (0, ?jb)"
    by (simp add: jitter_push_block_def jitter_push_def ex_jitter_buffer_def jitter_capacity_def ring_next_def q Let_def)
  moreover have "jb_last_popped ex_jitter_buffer = sentinel" "jb_last_pushed ex_jitter_buffer = sentinel"
    "push_asserts 0 ex_jitter_buffer"
    "init_asserts (np_packet ex_queued) (jb_data ex_jitter_buffer ! jb_head ex_jitter_buffer)"
    by (simp_all add: ex_jitter_buffer_def push_asserts_def jitter_full_def jitter_capacity_def init_asserts_def
      received_block_empty_def storage_empty_def q)
  ultimately have f: "find_block ex_queued stats ?sd = Some (Some 0, stats, ?sd\<lparr> sd_jitter_buffer := ?jb \<rparr>)"
    by (simp add: find_block_def check_sequence_def add_new_block_def q Let_def sentinel_def)
  have "block_add_frame 0 0 (heap ex_allocator) ?b = Some (heap ex_allocator, ex_block)"
    by (simp add: block_add_frame_def block_placeholder_def block_complete_def storage_add_frame_def set_frame_def ex_allocator_def ex_frame_def ex_block_def
      block_init_def storage_init_def q Let_def small_frame_limit_def received_block_empty_def to_int16_small int16_def)
  moreover have "block_complete ex_block"
    by (simp add: block_complete_def ex_block_def block_init_def storage_init_def q int16_def)
  ultimately have g: "store_frame ex_queued 0 (?sd\<lparr> sd_jitter_buffer := ?jb \<rparr>) = Some ex_playing"
    by (simp add: store_frame_def q set_block_def ex_jitter_buffer_def ex_playing_def observe_def ex_allocator_def)
  show ?thesis
    using f g by (simp add: consume_packets_def ex_received_def add_packet_def)
qed

subsection \<open>Properties\<close>

lemma ex_steps: "(sink_step ex_source ex_decoder)\<^sup>*\<^sup>* ex_desc ex_received"
  using sink_step.receive [OF ex_arrives ex_handle_data] by (rule r_into_rtranclp)

text \<open>
  C3. Whatever packets of the stream arrive, in whatever order and however often, and whenever the audio thread runs
  its callback or misses it: the invariant of the description holds, and with it every predicate on the decoder
  that is kept by decoding the blocks of the source and by concealment. So the decoder never sees anything
  but the blocks that were sent, and missing data.
\<close>

theorem sink_run_invariant:
  assumes "sink_ok S P cls sd" and "source_ok S" and "(sink_step S cls)\<^sup>*\<^sup>* sd sd'"
  shows "sink_ok S P cls sd'"
  by (rule sink_steps_ok [OF assms(3,1,2)])

theorem sink_run_invariant_witness: "sink_ok ex_source ex_seen ex_decoder ex_received"
  by (rule sink_run_invariant [OF ex_desc_ok ex_source_ok ex_steps])

text \<open>
  C4. The callback of the audio thread returns in every state that can be reached: the decoding loops end, no
  memory access is out of bounds, and the state it leaves satisfies the invariant.
\<close>

theorem callback_returns:
  assumes "sink_ok S P cls sd" and "source_ok S" and "(sink_step S cls)\<^sup>*\<^sup>* sd sd'" and "callback_ok s n buffer sd'"
  shows "\<exists>played buffer' msgs sd''. process cls s n tt buffer sd' = Some (played, buffer', msgs, sd'') \<and>
    sink_ok S P cls sd'' \<and> sd_stream_id sd'' = sd_stream_id sd'"
  by (rule process_ok [OF sink_steps_ok [OF assms(3,1,2)] assms(2,4)])

lemma ex_callback_received: "callback_ok ex_settings 2 (Some [[0, 0]]) ex_received"
  using ex_callback_ok by (simp add: callback_ok_def ex_received_def)

theorem callback_returns_witness:
  "\<exists>played buffer' msgs sd''. process ex_decoder ex_settings 2 0 (Some [[0, 0]]) ex_received =
     Some (played, buffer', msgs, sd'') \<and> sink_ok ex_source ex_seen ex_decoder sd'' \<and> sd_stream_id sd'' = sd_stream_id ex_received"
  by (rule callback_returns [OF ex_desc_ok ex_source_ok ex_steps ex_callback_received])

text \<open>
  C5. The network thread handles every packet of the stream without a memory error in every state that can be
  reached, also while packets are waiting in the queue and blocks are half complete.
\<close>

theorem receive_never_faults:
  assumes "sink_ok S P cls sd" and "source_ok S" and "(sink_step S cls)\<^sup>*\<^sup>* sd sd'" and "arrives S (sd_stream_id sd') d"
  shows "\<exists>err sd''. handle_data s d sd' = Some (err, sd'') \<and> sink_ok S P cls sd''"
proof -
  have ok: "sink_ok S P cls sd'" by (rule sink_steps_ok [OF assms(3,1,2)])
  then obtain err sd'' where h: "handle_data s d sd' = Some (err, sd'')"
    using handle_data_ok [OF _ assms(4), of s] by (auto simp: sink_ok_def)
  from sink_step_ok [OF sink_step.receive [OF assms(4) h] ok assms(2)] h show ?thesis by blast
qed

theorem receive_never_faults_witness:
  "\<exists>err sd''. handle_data ex_settings ex_net_packet ex_received = Some (err, sd'') \<and> sink_ok ex_source ex_seen ex_decoder sd''"
proof -
  have "arrives ex_source (sd_stream_id ex_received) ex_net_packet" using ex_arrives by (simp add: ex_received_def)
  from receive_never_faults [OF ex_desc_ok ex_source_ok ex_steps this] show ?thesis .
qed

lemma front_data_complete:
  assumes "sink_ok S P cls sd" and "source_ok S" and "0 < jb_size (sd_jitter_buffer sd)"
    and "block_complete (front_block sd)" and "sb_buffer (S (rb_sequence (front_block sd))) \<noteq> []"
  shows "\<exists>sr stats'. 0 < sr \<and> front_data stats sd =
    Some ((Some (sb_buffer (S (rb_sequence (front_block sd)))), int (length (sb_buffer (S (rb_sequence (front_block sd))))),
      sb_message_size (S (rb_sequence (front_block sd))), sr), stats', sd\<lparr> sd_channel := rb_channel (front_block sd) \<rparr>)"
proof -
  have j: "jinv S (set (queue_frames (sd_packet_queue sd))) (sd_jitter_buffer sd) (sd_frame_allocator sd)"
    using assms(1) sink_invD(1) by (auto simp: sink_ok_def frames_inv_def)
  have i: "jitter_front (sd_jitter_buffer sd) \<in> jb_slots (sd_jitter_buffer sd)"
    by (rule front_slot [OF jinvD(1) [OF j] assms(3)])
  note cb = complete_block_data [OF j i assms(4) [unfolded front_block_def] assms(2), folded front_block_def]
  show ?thesis using assms(4,5) cb(1-3) cb(5) [OF assms(5)] by (auto simp: front_data_def Let_def)
qed

text \<open>
  C6. A complete block at the front of the jitter buffer is decoded from exactly the bytes that the source
  had sent for it, with the same boundary between messages and audio: splitting the block into frames,
  transferring them in any order, storing and joining them loses nothing.
\<close>

theorem decoded_data_exact:
  assumes "sink_ok S P cls sd" and "source_ok S" and "0 < jb_size (sd_jitter_buffer sd)"
    and "block_complete (front_block sd)" and "sb_buffer (S (rb_sequence (front_block sd))) \<noteq> []"
  shows "\<exists>sr stats' sd'. 0 < sr \<and> front_data stats sd =
    Some ((Some (sb_buffer (S (rb_sequence (front_block sd)))), int (length (sb_buffer (S (rb_sequence (front_block sd))))),
      sb_message_size (S (rb_sequence (front_block sd))), sr), stats', sd')"
  using front_data_complete [OF assms] by blast

lemma ex_playing_ok: "sink_ok ex_source ex_seen ex_decoder ex_playing"
proof -
  have "sink_ok ex_source ex_seen ex_decoder ex_received" by (rule sink_steps_ok [OF ex_steps ex_desc_ok ex_source_ok])
  then have "sink_inv ex_source ex_received" by (simp add: sink_ok_def)
  then have "sink_inv ex_source ex_playing"
    using consume_packets_ok [of ex_source ex_received undefined] ex_consume [of undefined] by auto
  then show ?thesis using ex_desc_ok by (simp add: sink_ok_def ex_playing_def)
qed

lemma ex_front: "front_block ex_playing = ex_block" "jb_size (sd_jitter_buffer ex_playing) = 1"
  by (simp_all add: front_block_def ex_playing_def jitter_front_def ex_jitter_buffer_def)

lemma ex_block_fields: "rb_sequence ex_block = 0" "block_complete ex_block"
  by (simp_all add: ex_block_def ex_queued_def ex_net_packet_def sample_packet_def block_init_def block_complete_def
      storage_init_def int16_def)

theorem decoded_data_exact_witness:
  "\<exists>sr stats' sd'. 0 < sr \<and> front_data \<lparr> dropped = 0, resent = 0, xrun = 0 \<rparr> ex_playing =
     Some ((Some [1, 2], 2, 0, sr), stats', sd')"
  using decoded_data_exact [OF ex_playing_ok ex_source_ok, of "\<lparr> dropped = 0, resent = 0, xrun = 0 \<rparr>"]
  by (simp add: ex_front ex_block_fields ex_source_def sent_block_init_def numeral_2_eq_2)

text \<open>
  C7. The samples of a source are added to the output of the sink from the channel of the source on: every
  sample of every channel that the sink has is changed by exactly the sample of the source, source
  channels that do not fit are ignored, and all other samples are left as they are.
\<close>

theorem mix_adds_source:
  assumes "sink_ok S P cls sd" and "sd_format sd = Some fmt" and "callback_ok s n (Some b) sd"
    and "int (length buf) = n * numChannels fmt" and "sd_decoder sd \<noteq> None"
  shows "\<exists>b' msgs sd'. output_block s n tt (Some b) buf stats sd = Some (True, Some b', msgs, sd') \<and>
    mixed s n buf (numChannels fmt) (sd_channel sd) b b'"
proof -
  obtain dec where dec: "sd_decoder sd = Some dec" using assms(5) by blast
  have "sink_inv S sd" "P dec" using assms(1) dec by (auto simp: sink_ok_def)
  then have p: "playable S P (set (queue_frames (sd_packet_queue sd))) sd"
    using sink_invD(1,4) [of S sd] dec by (simp add: playable_def)
  obtain b' where b': "mix_output s n buf (numChannels fmt) (sd_channel sd) (Some b) = Some (Some b')"
    "mixed s n buf (numChannels fmt) (sd_channel sd) b b'"
  proof -
    have "\<forall>c < length b. nat n \<le> length (b ! c)" "sk_nchannels s \<le> int (length b)" "0 \<le> n" "0 \<le> sd_channel sd"
      using assms(3) playable_format [OF p] by (auto simp: callback_ok_def)
    from mix_ok [OF this(1,2,4) order_refl this(3), of "numChannels fmt" buf] assms(4) that show ?thesis
      by (auto simp: mix_output_def mixed_def)
  qed
  obtain buffer' msgs sd' where "output_block s n tt (Some b) buf stats sd = Some (True, buffer', msgs, sd')"
    using output_block_ok [OF p _ assms(3), of buf tt stats] assms(2,4) by (auto simp: block_of_def)
  then show ?thesis using b' output_mix [OF _ assms(2)] by fastforce
qed

theorem mix_adds_source_witness:
  "\<exists>b' msgs sd'. output_block ex_settings 2 0 (Some [[1 / 2, 0]]) [1 / 4, 1] \<lparr> dropped = 0, resent = 0, xrun = 0 \<rparr> ex_playing =
     Some (True, Some b', msgs, sd') \<and> b' = [[3 / 4, 1]]"
proof -
  have cb: "callback_ok ex_settings 2 (Some [[1 / 2, 0]]) ex_playing"
    by (simp add: callback_ok_def settings_ok_def ex_settings_def ex_playing_def ex_format_def)
  have f: "sd_format ex_playing = Some ex_format" "sd_decoder ex_playing = Some []" "sd_channel ex_playing = 0"
    by (simp_all add: ex_playing_def)
  have "mixed ex_settings 2 [1 / 4, 1] 1 0 [[1 / 2, 0]] b' \<Longrightarrow> b' = [[3 / 4, 1]]" for b'
    by (auto simp: mixed_def ex_settings_def less_Suc_eq numeral_2_eq_2 length_Suc_conv all_conj_distrib)
  moreover have "int (length [1 / 4 :: real, 1]) = 2 * numChannels ex_format" "numChannels ex_format = 1"
    by (simp_all add: ex_format_def)
  ultimately show ?thesis
    using mix_adds_source [OF ex_playing_ok f(1) cb, of "[1 / 4, 1]" 0 "\<lparr> dropped = 0, resent = 0, xrun = 0 \<rparr>"] f(2,3) by auto
qed

text \<open>
  The channel of a block comes from the network and is not checked: with a negative channel, the
  callback accesses the array of output channels in front of its first element.
\<close>

theorem negative_channel_faults:
  assumes "sd_format sd = Some fmt" and "sd_channel sd < 0" and "0 < numChannels fmt" and "0 \<le> sk_nchannels s"
  shows "output_block s n tt (Some b) buf stats sd = None"
proof (rule ccontr)
  assume "output_block s n tt (Some b) buf stats sd \<noteq> None"
  then obtain played buffer' msgs sd' where o: "output_block s n tt (Some b) buf stats sd = Some (played, buffer', msgs, sd')" by auto
  have "[0..numChannels fmt - 1] = 0 # [1..numChannels fmt - 1]" using assms(3) by (simp add: upto_rec1)
  then have "mix s n buf (numChannels fmt) (sd_channel sd) [0..numChannels fmt - 1] b = None"
    using assms(2,4) by (simp add: Let_def)
  then show False using output_mix [OF o assms(1)] by (simp add: mix_output_def)
qed

theorem negative_channel_faults_witness:
  "output_block ex_settings 2 0 (Some [[0, 0]]) [0, 0] \<lparr> dropped = 0, resent = 0, xrun = 0 \<rparr> (ex_playing\<lparr> sd_channel := - 1 \<rparr>) = None"
  by (rule negative_channel_faults [of _ ex_format])
    (simp_all add: ex_playing_def ex_format_def ex_settings_def)

text \<open>
  The sink asks for a target that the jitter buffer cannot hold: the number of blocks exceeds its
  capacity. Either the stream has to be told yet, and has fewer blocks to wait for, or it is already
  waiting for that many blocks.
\<close>

definition out_of_reach :: "sink_settings \<Rightarrow> 'd source_desc \<Rightarrow> bool" where
  "out_of_reach s sd \<longleftrightarrow> sd_low_latency_enabled sd \<and> 0 < sk_low_latency_target s \<and>
     (\<exists>fmt. sd_format sd = Some fmt \<and>
       (let blocks = low_latency_resident_blocks (sk_low_latency_target s) (blockSize fmt)
        in int (jitter_capacity (sd_jitter_buffer sd)) < blocks \<and>
           (if sc_targetLatencyFrames (sd_low_latency_configuration sd) = sk_low_latency_target s
            then sd_latency_blocks sd = blocks \<and> sd_stream_state sd = stream_buffering
            else sd_latency_blocks sd < blocks \<and> sd_stream_state sd \<noteq> stream_inactive)))"

lemma target_out_of_reach:
  assumes "out_of_reach s sd" and "update_target s sd = Some sd'"
  shows "out_of_reach s sd'" "sd_stream_state sd' = stream_buffering"
    "int (jitter_capacity (sd_jitter_buffer sd')) < sd_latency_blocks sd'"
    "sc_targetLatencyFrames (sd_low_latency_configuration sd') = sk_low_latency_target s"
proof -
  have "out_of_reach s sd' \<and> sd_stream_state sd' = stream_buffering \<and>
      int (jitter_capacity (sd_jitter_buffer sd')) < sd_latency_blocks sd' \<and>
      sc_targetLatencyFrames (sd_low_latency_configuration sd') = sk_low_latency_target s"
    using assms
    by (cases "sd_stream_state sd")
      (auto simp: out_of_reach_def update_target_def Let_def queue_event_def split: if_splits)
  then show "out_of_reach s sd'" "sd_stream_state sd' = stream_buffering"
    "int (jitter_capacity (sd_jitter_buffer sd')) < sd_latency_blocks sd'"
    "sc_targetLatencyFrames (sd_low_latency_configuration sd') = sk_low_latency_target s" by blast+
qed

text \<open>
  C38. Raising the target of a low-latency stream while it runs does not resize the jitter buffer. When the new
  target needs more blocks than the buffer can hold, the stream goes back to buffering and never
  leaves it, however many blocks arrive: every further call finds the same situation.
\<close>

theorem raised_target_never_plays:
  assumes "sink_ok S P cls sd" and "source_ok S" and "settings_ok s" and "sd_decoder sd \<noteq> None" and "out_of_reach s sd"
  shows "\<exists>ok out stats' sd'. try_decode_block cls s stats sd = Some ((ok, out), stats', sd') \<and>
    sd_stream_state sd' = stream_buffering \<and> out_of_reach s sd'"
proof -
  let ?F = "set (queue_frames (sd_packet_queue sd))"
  obtain dec where dec: "sd_decoder sd = Some dec" using assms(4) by blast
  have cls: "\<forall>fmt. sd_format sd = Some fmt \<longrightarrow> decoder_ok S P cls fmt" using assms(1) by (simp add: sink_ok_def)
  have "sink_inv S sd" "P dec" using assms(1) dec by (auto simp: sink_ok_def)
  then have p: "playable S P ?F sd" using sink_invD(1,4) [of S sd] dec by (simp add: playable_def)
  obtain sd1 where 1: "update_target s sd = Some sd1" "plays S P ?F sd sd1" using update_target_ok [OF p] by blast
  note r = target_out_of_reach [OF assms(5) 1(1)]
  obtain obs where obs: "publish_state s sd1 = Some (sd1\<lparr> observations := obs \<rparr>)"
    using publish_state_ok [OF playsD [OF 1(2)]] by blast
  let ?sd = "sd1\<lparr> observations := obs \<rparr>"
  have p1: "playable S P ?F ?sd" using playsD [OF 1(2)] by simp
  show ?thesis
  proof (cases "sd_stopped sd1")
    case True
    then have "try_decode_block cls s stats sd = Some ((False, []), stats, ?sd)"
      using 1(1) obs r(2) by (simp add: try_decode_block_def buffering_step_def)
    then show ?thesis using r(1,2) by (auto simp: out_of_reach_def Let_def)
  next
    case False
    obtain n sd2 where 2: "tidy ?sd = Some (n, sd2)" "plays S P ?F ?sd sd2" "control sd2 = control ?sd"
      using tidy_ok [OF p1] by blast
    have c2: "sd_stream_state sd2 = stream_buffering" "sd_latency_blocks sd2 = sd_latency_blocks sd1"
      "sd_low_latency_enabled sd2" "sd_low_latency_configuration sd2 = sd_low_latency_configuration sd1"
      "jitter_capacity (sd_jitter_buffer sd2) = jitter_capacity (sd_jitter_buffer sd1)" "sd_format sd2 = sd_format sd1"
      using 2(2,3) r(1,2) by (simp_all add: control_def plays_def same_def out_of_reach_def)
    have "jb_size (sd_jitter_buffer sd2) \<le> jitter_capacity (sd_jitter_buffer sd2)"
      using playable_jb(1) [OF playsD [OF 2(2)]] by (simp add: jb_ok_def)
    then have few: "int (jb_size (sd_jitter_buffer sd2)) < sd_latency_blocks sd2" using r(3) c2(2,5) by simp
    have "\<forall>fmt. sd_format sd2 = Some fmt \<longrightarrow> decoder_ok S P cls fmt"
      using cls c2(6) plays_shape(3) [OF 1(2)] by simp
    then obtain ok out sd3 where 3: "conceal cls s sd2 = Some (Some (ok, out), sd3)" "plays S P ?F sd2 sd3"
      "sd_jitter_buffer sd3 = sd_jitter_buffer sd2" "sd_stream_state sd3 = sd_stream_state sd2"
      "sd_latency_blocks sd3 = sd_latency_blocks sd2" "sd_low_latency_configuration sd3 = sd_low_latency_configuration sd2"
      using conceal_ok [OF playsD [OF 2(2)] assms(3)] by blast
    have "buffering_step cls s ?sd = Some (Some (ok, out), sd3)"
      using False r(2) 2(1) 3(1) few c2(3) by (simp add: buffering_step_def Let_def)
    then have "try_decode_block cls s stats sd = Some ((ok, out), stats, sd3)"
      using 1(1) obs by (simp add: try_decode_block_def)
    moreover have "sd_low_latency_enabled sd3" "sd_format sd3 = sd_format sd1"
      using 3(2) c2 by (simp_all add: plays_def same_def)
    then have "out_of_reach s sd3" using r(1,2) c2 3(3-6) by (auto simp: out_of_reach_def Let_def)
    ultimately show ?thesis using 3(4) c2(1) by auto
  qed
qed

lemma ex_out_of_reach:
  "out_of_reach (ex_settings\<lparr> sk_low_latency_target := 512 \<rparr>)
     (ex_playing\<lparr> sd_low_latency_enabled := True, sd_stream_state := stream_active \<rparr>)"
  by (simp add: out_of_reach_def ex_settings_def ex_playing_def ex_format_def Let_def low_latency_resident_blocks_def
      jitter_capacity_def ex_jitter_buffer_def example_configuration_def)

theorem raised_target_never_plays_witness:
  "\<exists>ok out stats' sd'. try_decode_block ex_decoder (ex_settings\<lparr> sk_low_latency_target := 512 \<rparr>)
     \<lparr> dropped = 0, resent = 0, xrun = 0 \<rparr> (ex_playing\<lparr> sd_low_latency_enabled := True, sd_stream_state := stream_active \<rparr>) =
       Some ((ok, out), stats', sd') \<and> sd_stream_state sd' = stream_buffering \<and>
     out_of_reach (ex_settings\<lparr> sk_low_latency_target := 512 \<rparr>) sd'"
proof (rule raised_target_never_plays [OF _ ex_source_ok _ _ ex_out_of_reach])
  let ?sd = "ex_playing\<lparr> sd_low_latency_enabled := True, sd_stream_state := stream_active \<rparr>"
  have "core ?sd = core ex_playing" by (simp add: core_def)
  from sink_inv_core [OF this, of ex_source] show "sink_ok ex_source ex_seen ex_decoder ?sd"
    using ex_playing_ok by (simp add: sink_ok_def)
  show "settings_ok (ex_settings\<lparr> sk_low_latency_target := 512 \<rparr>)" by (simp add: settings_ok_def ex_settings_def)
  show "sd_decoder ?sd \<noteq> None" by (simp add: ex_playing_def)
qed

end
