(* ===== verification/Pcm_Stream.thy ===== *)
theory Pcm_Stream
  imports Pcm_Codec Sink_System
begin

text \<open>
  The PCM codec in a stream: a sink whose decoder is the PCM codec and a source that encodes its blocks with it. The PCM
  decoder meets the contract of the sink, and what the sink decodes are the samples of the source.
\<close>

text \<open>The decoder as the sink calls it (\<^verbatim>\<open>AooDecoder_decode\<close> in \<^verbatim>\<open>include/aoo_codec.h\<close>). A fault of the codec counts as a
  failed decoding here; for the blocks of a PCM source \<open>pcm_source_block\<close> shows that there is neither.\<close>

definition pcm_decoder :: "byte_order \<Rightarrow> PcmCodec decoder_interface" where
  "pcm_decoder bo = \<lparr> decode = \<lambda>dec data sz n.
     (case PcmCodec_decode bo dec data sz n of Some (Inr (xs, _)) \<Rightarrow> Some xs | _ \<Rightarrow> None, dec) \<rparr>"

text \<open>A source that encodes the samples \<open>A seq\<close> as block \<open>seq\<close>.\<close>

definition pcm_source :: "byte_order \<Rightarrow> PcmCodec \<Rightarrow> int \<Rightarrow> (int \<Rightarrow> real list) \<Rightarrow> block_source \<Rightarrow> bool" where
  "pcm_source bo c fs A S \<longleftrightarrow> 0 < fs \<and> block_bytes c fs < 2 ^ 31 \<and>
     (\<forall>seq. int (length (A seq)) = fs * pcm_numChannels c \<and> (\<forall>x \<in> set (A seq). is_float x \<and> \<bar>x\<bar> \<le> 1) \<and>
       0 \<le> sb_message_size (S seq) \<and>
       PcmCodec_encode bo c (A seq) fs (block_bytes c fs) = Some (Inr (drop (nat (sb_message_size (S seq))) (sb_buffer (S seq)))))"

definition pcm_format :: "PcmCodec \<Rightarrow> int \<Rightarrow> AooFormat \<Rightarrow> bool" where
  "pcm_format c fs fmt \<longleftrightarrow> blockSize fmt = fs \<and> numChannels fmt = pcm_numChannels c"

lemma pcm_source_block:
  assumes "codec_ok c" and "pcm_source bo c fs A S"
  shows "\<exists>ys. PcmCodec_decode bo' c (Some (drop (nat (sb_message_size (S seq))) (sb_buffer (S seq))))
      (int (length (sb_buffer (S seq))) - sb_message_size (S seq)) fs = Some (Inr (ys, fs)) \<and>
    length ys = length (A seq) \<and> (\<forall>i < length ys. \<bar>ys ! i - A seq ! i\<bar> \<le> pcm_error (pcm_sampleSize c))"
    "drop (nat (sb_message_size (S seq))) (sb_buffer (S seq)) \<noteq> []"
proof -
  let ?b = "drop (nat (sb_message_size (S seq))) (sb_buffer (S seq))"
  have s: "0 < fs" "block_bytes c fs < 2 ^ 31" "int (length (A seq)) = fs * pcm_numChannels c"
    "\<forall>x \<in> set (A seq). is_float x \<and> \<bar>x\<bar> \<le> 1" "PcmCodec_encode bo c (A seq) fs (block_bytes c fs) = Some (Inr ?b)"
    "0 \<le> sb_message_size (S seq)"
    using assms(2) by (auto simp: pcm_source_def)
  let ?bs = "map (sample_writer bo (pcm_sampleSize c)) (A seq)"
  have n: "sample_size_ok (pcm_sampleSize c)" using assms(1) by (simp add: codec_ok_def)
  have b: "?b = concat ?bs" using encode_block [OF assms(1) _ s(2) order_refl s(3), of bo] s(1,5) by simp
  have "0 < int (length (A seq))" unfolding s(3) using s(1) assms(1) by (simp add: codec_ok_def)
  then have "0 < length (A seq)" by simp
  moreover have "sample_writer bo (pcm_sampleSize c) x \<noteq> []" for x
    using n sample_writer_length [OF n, of bo x] by (auto simp: sample_size_ok_def)
  ultimately show ne: "?b \<noteq> []" unfolding b by (cases "A seq") auto
  have d: "PcmCodec_decode bo' c (Some ?b) (int (length ?b)) fs = Some (Inr (map (sample_reader bo' (pcm_sampleSize c)) ?bs, fs))"
    unfolding b by (rule decode_block [OF assms(1) _ s(2)]) (use s(1,3) sample_writer_length [OF n] in auto)
  then have "PcmCodec_decode bo' c (Some ?b) (int (length (sb_buffer (S seq))) - sb_message_size (S seq)) fs
      = Some (Inr (map (sample_reader bo' (pcm_sampleSize c)) ?bs, fs))"
    using ne s(6) by simp
  moreover have "\<forall>i < length (A seq). \<bar>map (sample_reader bo' (pcm_sampleSize c)) ?bs ! i - A seq ! i\<bar> \<le> pcm_error (pcm_sampleSize c)"
    using s(4) sample_transfer [OF n] by simp
  ultimately show "\<exists>ys. PcmCodec_decode bo' c (Some ?b) (int (length (sb_buffer (S seq))) - sb_message_size (S seq)) fs = Some (Inr (ys, fs)) \<and>
    length ys = length (A seq) \<and> (\<forall>i < length ys. \<bar>ys ! i - A seq ! i\<bar> \<le> pcm_error (pcm_sampleSize c))"
    by (intro exI [of _ "map (sample_reader bo' (pcm_sampleSize c)) ?bs"]) simp
qed

text \<open>The contract of the sink.\<close>

lemma pcm_decoder_ok:
  assumes "codec_ok c" and "pcm_source bo c fs A S" and "pcm_format c fs fmt"
  shows "decoder_ok S ((=) c) (pcm_decoder bo') fmt"
proof -
  have s: "0 < fs" "block_bytes c fs < 2 ^ 31" "\<And>seq. int (length (A seq)) = fs * pcm_numChannels c"
    using assms(2) by (auto simp: pcm_source_def)
  have z: "PcmCodec_decode bo' c None sz fs = Some (Inr (replicate (nat (fs * pcm_numChannels c)) 0, fs))" for sz
    using block_products(1) [OF assms(1) _ s(2)] s(1) by (simp add: PcmCodec_decode_def)
  have l: "case decode (pcm_decoder bo') c data sz fs of (out, dec') \<Rightarrow> c = dec' \<and>
      (\<forall>xs. out = Some xs \<longrightarrow> int (length xs) = fs * pcm_numChannels c)" if "fed S data sz" for data sz
    using that unfolding fed_def
  proof (elim disjE conjE exE)
    fix seq
    assume "data = Some (drop (nat (sb_message_size (S seq))) (sb_buffer (S seq)))"
      "sz = int (length (sb_buffer (S seq))) - sb_message_size (S seq)"
    then show ?thesis using pcm_source_block(1) [OF assms(1,2), of bo' seq] s(3) [of seq] by (auto simp: pcm_decoder_def)
  qed (use z block_products(3) [OF assms(1) _ s(2)] s(1) in \<open>simp add: pcm_decoder_def\<close>)
  show ?thesis using l assms(3) by (auto simp: decoder_ok_def pcm_format_def)
qed

text \<open>
  C16. End to end: in every state that a sink with the PCM decoder can reach while it receives a PCM stream, a complete
  block at the front of the jitter buffer is decoded to the samples that the source had encoded, up to the error of
  the sample format, whatever the byte orders of the two machines are.
\<close>

theorem pcm_stream_plays:
  assumes "codec_ok c" and "pcm_source bo c fs A S" and "source_ok S"
    and "sink_inv S sd" and "sd_decoder sd = Some c" and "\<forall>fmt. sd_format sd = Some fmt \<longrightarrow> pcm_format c fs fmt"
    and "(sink_step S (pcm_decoder bo'))\<^sup>*\<^sup>* sd sd'" and "sd_decoder sd' = Some c" and "sd_format sd' = Some fmt" and "pcm_format c fs fmt"
    and "0 < jb_size (sd_jitter_buffer sd')" and "block_complete (front_block sd')" and "seq = rb_sequence (front_block sd')"
  shows "\<exists>data msgsize sr stats' sd1 audio ys. front_data stats sd' = Some ((Some data, int (length data), msgsize, sr), stats', sd1) \<and>
    audio_data (Some data) msgsize = Some audio \<and>
    decode_samples (pcm_decoder bo') audio (int (length data) - msgsize) sd1 = Some (ys, sd1) \<and>
    length ys = length (A seq) \<and> (\<forall>i < length ys. \<bar>ys ! i - A seq ! i\<bar> \<le> pcm_error (pcm_sampleSize c))"
proof -
  have "sink_ok S ((=) c) (pcm_decoder bo') sd" using assms(4-6) pcm_decoder_ok [OF assms(1,2)] by (simp add: sink_ok_def)
  then have ok: "sink_ok S ((=) c) (pcm_decoder bo') sd'" by (rule sink_steps_ok [OF assms(7) _ assms(3)])
  let ?b = "sb_buffer (S seq)" and ?m = "sb_message_size (S seq)" and ?sd1 = "sd'\<lparr> sd_channel := rb_channel (front_block sd') \<rparr>"
  have "?b \<noteq> []" using pcm_source_block(2) [OF assms(1,2), of seq] by auto
  then obtain sr stats' where 1: "front_data stats sd' = Some ((Some ?b, int (length ?b), ?m, sr), stats', ?sd1)"
    using front_data_complete [OF ok assms(3,11,12)] unfolding assms(13) by blast
  obtain ys where ys: "PcmCodec_decode bo' c (Some (drop (nat ?m) ?b)) (int (length ?b) - ?m) fs = Some (Inr (ys, fs))"
    "length ys = length (A seq)" "\<forall>i < length ys. \<bar>ys ! i - A seq ! i\<bar> \<le> pcm_error (pcm_sampleSize c)"
    using pcm_source_block(1) [OF assms(1,2)] by blast
  have "decode_samples (pcm_decoder bo') (Some (drop (nat ?m) ?b)) (int (length ?b) - ?m) ?sd1 = Some (ys, ?sd1)"
  proof -
    have "int (length ys) = fs * pcm_numChannels c" using ys(2) assms(2) by (simp add: pcm_source_def)
    then have "length ys = nat (fs * pcm_numChannels c)" by simp
    then show ?thesis using ys(1) assms(8-10) by (simp add: decode_samples_def pcm_decoder_def pcm_format_def)
  qed
  moreover have "audio_data (Some ?b) ?m = Some (Some (drop (nat ?m) ?b))"
    using assms(2) by (simp add: audio_data_def pcm_source_def not_less)
  ultimately show ?thesis using 1 ys by blast
qed

subsection \<open>An example\<close>

text \<open>The description of the example of \<^verbatim>\<open>Sink_System\<close> with another decoder.\<close>

definition with_decoder :: "'e \<Rightarrow> 'd source_desc \<Rightarrow> 'e source_desc" where
  "with_decoder dec sd = \<lparr>
     sd_stream_id = sd_stream_id sd, sd_channel = sd_channel sd, sd_stream_state = sd_stream_state sd,
     sd_did_update = sd_did_update sd, sd_underrun = sd_underrun sd, sd_stopped = sd_stopped sd,
     sd_xrunblocks = sd_xrunblocks sd, sd_stream_tt = sd_stream_tt sd, sd_local_tt = sd_local_tt sd,
     sd_sample_offset = sd_sample_offset sd, sd_stream_start = sd_stream_start sd,
     sd_source_latency = sd_source_latency sd, sd_sink_latency = sd_sink_latency sd,
     sd_source_codec_delay = sd_source_codec_delay sd, sd_sink_codec_delay = sd_sink_codec_delay sd,
     sd_buffer_latency = sd_buffer_latency sd, sd_low_latency_configuration = sd_low_latency_configuration sd,
     sd_low_latency_enabled = sd_low_latency_enabled sd,
     sd_last_absolute_sample_position = sd_last_absolute_sample_position sd,
     sd_consecutive_missing_blocks = sd_consecutive_missing_blocks sd, sd_state = sd_state sd,
     sd_metadata = sd_metadata sd, sd_invite_token = sd_invite_token sd,
     sd_invite_start_time = sd_invite_start_time sd, sd_last_packet_time = sd_last_packet_time sd,
     sd_last_ping_time = sd_last_ping_time sd, sd_last_stop_time = sd_last_stop_time sd,
     sd_dropped_blocks = sd_dropped_blocks sd, sd_round_trip_p95 = sd_round_trip_p95 sd,
     sd_buffer_fill_ratio = sd_buffer_fill_ratio sd, sd_format = sd_format sd, sd_decoder = Some dec,
     sd_resampler = sd_resampler sd, sd_frame_allocator = sd_frame_allocator sd,
     sd_packet_queue = sd_packet_queue sd, sd_jitter_buffer = sd_jitter_buffer sd,
     sd_latency_blocks = sd_latency_blocks sd, sd_latency_samples = sd_latency_samples sd,
     sd_stream_messages = sd_stream_messages sd, sd_stream_samples = sd_stream_samples sd,
     sd_process_samples = sd_process_samples sd, sd_request_queue = sd_request_queue sd,
     sd_data_requests = sd_data_requests sd, sd_event_buffer = sd_event_buffer sd,
     sent_events = sent_events sd, observations = observations sd \<rparr>"

lemma with_decoder_fields [simp]:
  "sd_decoder (with_decoder dec sd) = Some dec"
  "sd_frame_allocator (with_decoder dec sd) = sd_frame_allocator sd"
  "sd_packet_queue (with_decoder dec sd) = sd_packet_queue sd"
  "sd_stream_id (with_decoder dec sd) = sd_stream_id sd"
  "sd_format (with_decoder dec sd) = sd_format sd"
  "sd_resampler (with_decoder dec sd) = sd_resampler sd"
  "sd_latency_blocks (with_decoder dec sd) = sd_latency_blocks sd"
  "sd_channel (with_decoder dec sd) = sd_channel sd"
  "sd_jitter_buffer (with_decoder dec sd) = sd_jitter_buffer sd"
  unfolding with_decoder_def by (simp_all only: source_desc.select_convs)

lemma with_decoder_inv: "sink_inv S sd \<Longrightarrow> sd_decoder sd \<noteq> None \<Longrightarrow> sink_inv S (with_decoder dec sd)"
  by (simp add: sink_inv_def frames_inv_def)

definition ex_codec :: PcmCodec where
  "ex_codec = \<lparr> pcm_numChannels = 1, pcm_sampleSize = 1 \<rparr>"

definition ex_samples :: "int \<Rightarrow> real list" where
  "ex_samples seq = [int8_to_sample [1], int8_to_sample [2]]"

lemma ex_sample: "n = 1 \<or> n = 2 \<Longrightarrow> is_float (int8_to_sample [word_of_int n]) \<and> \<bar>int8_to_sample [word_of_int n]\<bar> \<le> 1"
proof -
  assume n: "n = 1 \<or> n = 2"
  have s: "sint (word_of_int n :: byte) = n" by (rule sint_word_of_int [where k = 7]) (use n in auto)
  have e: "int8_to_sample [word_of_int n] = float32 (of_int n / of_int 127)"
    using int_sample [of 127 n] n s by (auto simp: int8_to_sample_def INT8_MAX_def)
  have "\<bar>of_int n / of_int 127 :: real\<bar> \<le> 1 / 2" using n by auto
  then have "\<bar>float32 (of_int n / of_int 127) - of_int n / of_int 127\<bar> \<le> 1 / 2 / 2 ^ 24" by (rule float32_error) simp
  also have "(1 :: real) / 2 / 2 ^ 24 \<le> 1 / 2" by simp
  finally have "\<bar>float32 (of_int n / of_int 127) - of_int n / of_int 127\<bar> \<le> 1 / 2" .
  then have "\<bar>float32 (of_int n / of_int 127)\<bar> \<le> 1" using \<open>\<bar>of_int n / of_int 127 :: real\<bar> \<le> 1 / 2\<close> by linarith
  then show ?thesis unfolding e by (simp add: is_float_def fl_in_format)
qed

lemma ex_pcm_source: "pcm_source LITTLE_ENDIAN ex_codec 2 ex_samples ex_source"
proof -
  have c: "codec_ok ex_codec" "block_bytes ex_codec 2 = 2" "pcm_numChannels ex_codec = 1" "pcm_sampleSize ex_codec = 1"
    by (simp_all add: codec_ok_def ex_codec_def sample_size_ok_def block_bytes_def)
  have w: "sample_writer LITTLE_ENDIAN 1 (int8_to_sample [b]) = [b]" for b
    using sample_again [of 1 "[b]" LITTLE_ENDIAN] by (simp add: sample_reader_def)
  have "PcmCodec_encode LITTLE_ENDIAN ex_codec (ex_samples seq) 2 2 = Some (Inr [1, 2])" for seq
    using encode_block [OF c(1), of 2 2 "ex_samples seq" LITTLE_ENDIAN] c by (simp add: ex_samples_def w)
  then show ?thesis
    using c ex_sample [of 1] ex_sample [of 2] by (simp add: pcm_source_def ex_samples_def ex_source_def sent_block_init_def)
qed

theorem pcm_stream_plays_witness:
  "\<exists>data msgsize sr stats' sd1 audio ys. front_data \<lparr> dropped = 0, resent = 0, xrun = 0 \<rparr> (with_decoder ex_codec ex_playing) =
      Some ((Some data, int (length data), msgsize, sr), stats', sd1) \<and>
    audio_data (Some data) msgsize = Some audio \<and>
    decode_samples (pcm_decoder BIG_ENDIAN) audio (int (length data) - msgsize) sd1 = Some (ys, sd1) \<and>
    length ys = length (ex_samples 0) \<and> (\<forall>i < length ys. \<bar>ys ! i - ex_samples 0 ! i\<bar> \<le> pcm_error (pcm_sampleSize ex_codec))"
proof (rule pcm_stream_plays)
  show "codec_ok ex_codec" by (simp add: codec_ok_def ex_codec_def sample_size_ok_def)
  show "pcm_source LITTLE_ENDIAN ex_codec 2 ex_samples ex_source" by (rule ex_pcm_source)
  show "source_ok ex_source" by (rule ex_source_ok)
  have d: "sd_format ex_playing = Some ex_format" "sd_decoder ex_playing = Some []" by (simp_all add: ex_playing_def)
  show "sink_inv ex_source (with_decoder ex_codec ex_playing)"
    using ex_playing_ok d by (intro with_decoder_inv) (simp_all add: sink_ok_def)
  show "\<forall>fmt. sd_format (with_decoder ex_codec ex_playing) = Some fmt \<longrightarrow> pcm_format ex_codec 2 fmt"
    "sd_format (with_decoder ex_codec ex_playing) = Some ex_format" "pcm_format ex_codec 2 ex_format"
    by (simp_all add: d ex_format_def pcm_format_def ex_codec_def)
  have f: "front_block (with_decoder ex_codec ex_playing) = front_block ex_playing" by (simp add: front_block_def)
  show "0 < jb_size (sd_jitter_buffer (with_decoder ex_codec ex_playing))" "block_complete (front_block (with_decoder ex_codec ex_playing))"
    "0 = rb_sequence (front_block (with_decoder ex_codec ex_playing))"
    by (simp_all add: f ex_front ex_block_fields)
qed simp_all

end
