(* ===== verification/Memory_Pool.thy ===== *)
theory Memory_Pool
  imports Byte_Utils "HOL-Library.Monad_Syntax"
begin

text \<open>
  The real-time memory pool (\<^verbatim>\<open>aoo/src/rt_memory_pool.hpp\<close>): free lists for 128 sizes of blocks inside of an arena, and a bump
  allocator for the rest of it. The operations are those of a single thread: a compare-and-swap succeeds at
  once. A pointer into the arena is its offset; the word at the start of a free block is the offset of the next one. A
  failed assertion and an access outside of an array is \<^const>\<open>None\<close>.
\<close>

unbundle bit_operations_syntax

subsection \<open>Tagged integers and bit sets\<close>

definition tagged_new :: "'a::len word \<Rightarrow> 'a word \<Rightarrow> 'a word" where
  "tagged_new tag val =
     push_bit (LENGTH('a) - 16) (tag AND mask 16) OR (val AND mask (LENGTH('a) - 16))"

definition set_value :: "'a::len word \<Rightarrow> 'a word \<Rightarrow> 'a word" where
  "set_value val x = (x AND NOT (mask (LENGTH('a) - 16))) OR (val AND mask (LENGTH('a) - 16))"

definition get_value :: "'a::len word \<Rightarrow> 'a word" where
  "get_value x = x AND mask (LENGTH('a) - 16)"

definition set_tag :: "'a::len word \<Rightarrow> 'a word \<Rightarrow> 'a word" where
  "set_tag tag x = push_bit (LENGTH('a) - 16) (tag AND mask 16) OR (x AND mask (LENGTH('a) - 16))"

definition get_tag :: "'a::len word \<Rightarrow> 'a word" where
  "get_tag x = drop_bit (LENGTH('a) - 16) x"

record tagged_bitset =
  bs_bits :: u32
  bs_tag :: u16

definition bitset_width :: nat where "bitset_width = 32"

definition bs_set :: "nat \<Rightarrow> bool \<Rightarrow> tagged_bitset \<Rightarrow> tagged_bitset" where
  "bs_set i state bs =
     (if state then bs\<lparr> bs_bits := bs_bits bs OR push_bit i 1 \<rparr>
      else bs\<lparr> bs_bits := bs_bits bs AND NOT (push_bit i 1) \<rparr>)"

definition bs_get :: "nat \<Rightarrow> tagged_bitset \<Rightarrow> bool" where
  "bs_get i bs \<longleftrightarrow> drop_bit i (bs_bits bs) AND 1 \<noteq> 0"

definition bs_empty :: "tagged_bitset \<Rightarrow> bool" where
  "bs_empty bs \<longleftrightarrow> bs_bits bs = 0"

definition highest_bit :: "tagged_bitset \<Rightarrow> int option" where
  "highest_bit bs = (if bs_bits bs \<noteq> 0 then Some (31 - int (clz (bs_bits bs))) else None)"

subsection \<open>Free lists\<close>

type_synonym tagged_index = u64
type_synonym arena = "nat \<Rightarrow> u64"

definition pool_sentinel :: tagged_index where "pool_sentinel = mask 48"

definition fl_push :: "nat \<Rightarrow> arena \<Rightarrow> tagged_index \<Rightarrow> arena \<times> tagged_index" where
  "fl_push index mem head =
     (mem(index := get_value head), tagged_new (get_tag head + 1) (word_of_nat index))"

definition fl_pop :: "arena \<Rightarrow> tagged_index \<Rightarrow> (nat \<times> tagged_index) option" where
  "fl_pop mem head =
     (let index = get_value head
      in if index = pool_sentinel then None
         else Some (unat index, tagged_new (get_tag head + 1) (mem (unat index))))"

definition fl_empty :: "tagged_index \<Rightarrow> bool" where
  "fl_empty head \<longleftrightarrow> get_value head \<noteq> pool_sentinel"

definition fl_reset :: tagged_index where
  "fl_reset = tagged_new 0 pool_sentinel"

subsection \<open>The pool\<close>

definition block_alignment :: nat where "block_alignment = 64"
definition bucket_count :: nat where "bucket_count = 128"
definition large_bucket_offset :: nat where "large_bucket_offset = 64"
definition small_alloc_limit :: nat where "small_alloc_limit = 4096"
definition small_alloc_limit_bits :: nat where "small_alloc_limit_bits = 12"
definition large_alloc_limit :: nat where "large_alloc_limit = 65535"

lemmas pool_consts = block_alignment_def bucket_count_def large_bucket_offset_def small_alloc_limit_def
  small_alloc_limit_bits_def large_alloc_limit_def bitset_width_def

definition bucket_size :: "nat \<Rightarrow> nat" where
  "bucket_size i =
     (if i \<ge> large_bucket_offset then
        let pow2 = push_bit ((i - large_bucket_offset) div 16 + small_alloc_limit_bits) 1;
            rm = ((i - large_bucket_offset) mod 16) * pow2 div 16;
            step = drop_bit 4 pow2
        in nat (int pow2 + ((int rm + int step) AND NOT (int step - 1)))
      else (i + 1) * block_alignment)"

record rt_memory_pool =
  rp_buckets :: "tagged_index list"
  rp_bitset :: "tagged_bitset list"
  rp_mem :: arena
  rp_index :: nat
  rp_size :: nat
  rp_num_blocks :: int
  rp_num_bytes :: int
  rp_warned :: bool

definition pool_new :: rt_memory_pool where
  "pool_new = \<lparr> rp_buckets = replicate bucket_count fl_reset,
     rp_bitset = replicate (bucket_count div bitset_width) \<lparr> bs_bits = 0, bs_tag = 0 \<rparr>, rp_mem = (\<lambda>_. 0),
     rp_index = 0, rp_size = 0, rp_num_blocks = 0, rp_num_bytes = 0, rp_warned = False \<rparr>"

text \<open>The leak detection of debug builds, and resetting and resizing of the pool.\<close>

definition pool_check :: "rt_memory_pool \<Rightarrow> rt_memory_pool option" where
  "pool_check p =
     (if rp_num_blocks p \<noteq> 0 \<or> rp_num_bytes p \<noteq> 0 then None
      else Some (p\<lparr> rp_num_blocks := 0, rp_num_bytes := 0 \<rparr>))"

definition pool_reset :: "rt_memory_pool \<Rightarrow> rt_memory_pool option" where
  "pool_reset p = do {
     p \<leftarrow> pool_check p;
     Some (p\<lparr> rp_index := 0, rp_buckets := map (\<lambda>_. fl_reset) (rp_buckets p) \<rparr>) }"

definition max_pool_size :: nat where "max_pool_size = min ((2 ^ 48 - 1) * block_alignment) (2 ^ 64 - 1)"

definition pool_resize :: "nat \<Rightarrow> rt_memory_pool \<Rightarrow> rt_memory_pool option" where
  "pool_resize sz p = pool_reset (p\<lparr> rp_size := min sz max_pool_size, rp_index := 0 \<rparr>)"

text \<open>The bucket of a size.\<close>

definition size_to_index :: "u32 \<Rightarrow> nat option" where
  "size_to_index sz =
     (if unat sz > small_alloc_limit then
        let ilog2 = 31 - int (clz sz);
            k = int large_bucket_offset - int small_alloc_limit_bits * 16;
            index = ilog2 * 16 + int (unat (drop_bit (nat (ilog2 - 4)) sz AND 15)) + k
        in if index \<ge> 64 \<and> index < 128 then Some (nat index) else None
      else Some (unat (sz - 1) div block_alignment))"

definition get_alloc_size :: "nat \<Rightarrow> nat option" where
  "get_alloc_size sz =
     (if sz > small_alloc_limit then do {
        index \<leftarrow> size_to_index (word_of_nat sz);
        if index < bucket_count then Some (bucket_size index) else None }
      else Some (nat ((int sz + int block_alignment - 1) AND NOT (int block_alignment - 1))))"

definition update_bitset :: "nat \<Rightarrow> rt_memory_pool \<Rightarrow> rt_memory_pool option" where
  "update_bitset index p =
     (let k = index div bitset_width; i = index mod bitset_width
      in if k < length (rp_bitset p) \<and> index < length (rp_buckets p) then
           let bs = rp_bitset p ! k;
               bs = bs_set i (\<not> fl_empty (rp_buckets p ! index)) (bs\<lparr> bs_tag := bs_tag bs + 1 \<rparr>)
           in Some (p\<lparr> rp_bitset := (rp_bitset p)[k := bs] \<rparr>)
         else None)"

definition push_block :: "nat \<Rightarrow> nat \<Rightarrow> rt_memory_pool \<Rightarrow> rt_memory_pool option" where
  "push_block ptr index p =
     (if index < length (rp_buckets p) then
        let (mem, head) = fl_push ptr (rp_mem p) (rp_buckets p ! index)
        in update_bitset index (p\<lparr> rp_mem := mem, rp_buckets := (rp_buckets p)[index := head] \<rparr>)
      else None)"

definition pop_free :: "nat \<Rightarrow> rt_memory_pool \<Rightarrow> (nat option \<times> rt_memory_pool) option" where
  "pop_free index p =
     (if index < length (rp_buckets p) then
        (case fl_pop (rp_mem p) (rp_buckets p ! index) of
           None \<Rightarrow> Some (None, p)
         | Some (ptr, head) \<Rightarrow> do {
             p \<leftarrow> update_bitset index (p\<lparr> rp_buckets := (rp_buckets p)[index := head] \<rparr>);
             Some (Some ptr, p) })
      else None)"

text \<open>
  Above the limit, the sizes of the buckets are sixteen equal steps between two powers of two.
\<close>

lemma bucket_size_large:
  assumes "64 \<le> i"
  shows "bucket_size i = 2 ^ ((i - 64) div 16 + 8) * (17 + (i - 64) mod 16)"
proof -
  define q r where "q = (i - 64) div 16" and "r = (i - 64) mod 16"
  have "push_bit (q + 12) (1::nat) = 2 ^ (q + 12)" by (simp add: push_bit_eq_mult)
  moreover have "r * 2 ^ (q + 12) div 16 = r * 2 ^ (q + 8)" by (simp add: power_add)
  moreover have "drop_bit 4 ((2::nat) ^ (q + 12)) = 2 ^ (q + 8)" by (simp add: drop_bit_eq_div power_add)
  moreover have "(int (r * 2 ^ (q + 8)) + int (2 ^ (q + 8))) AND NOT (int (2 ^ (q + 8)) - 1) = int ((r + 1) * 2 ^ (q + 8))"
  proof -
    have "int (r * 2 ^ (q + 8)) + int (2 ^ (q + 8)) = push_bit (q + 8) (int (r + 1))"
      by (simp add: push_bit_eq_mult algebra_simps)
    moreover have "int (2 ^ (q + 8)) - 1 = mask (q + 8)" by (simp add: mask_eq_exp_minus_1)
    moreover have "push_bit (q + 8) (int (r + 1)) AND NOT (mask (q + 8)) = push_bit (q + 8) (int (r + 1))"
      by (rule bit_eqI) (auto simp: bit_simps)
    ultimately show ?thesis by (simp only:) (simp add: push_bit_eq_mult algebra_simps)
  qed
  ultimately have "bucket_size i = nat (int (2 ^ (q + 12)) + int ((r + 1) * 2 ^ (q + 8)))"
    unfolding bucket_size_def Let_def pool_consts q_def [symmetric] r_def [symmetric] using assms by (simp only:) simp
  also have "\<dots> = 2 ^ (q + 8) * (17 + r)" by (simp only: nat_int_add nat_int flip: of_nat_add) (simp add: power_add algebra_simps)
  finally show ?thesis by (simp only: q_def r_def)
qed

lemma bucket_size_small: "i < 64 \<Longrightarrow> bucket_size i = (i + 1) * 64"
  by (simp add: bucket_size_def pool_consts)

lemma bucket_size_pos: "0 < bucket_size i"
  by (cases "i < 64") (simp_all add: bucket_size_small bucket_size_large)

text \<open>
  Cutting the rest of a block into free blocks: the loop, with the pushes in order.
\<close>

function split_loop :: "nat \<Rightarrow> nat \<Rightarrow> rt_memory_pool \<Rightarrow> rt_memory_pool option" where
  "split_loop mem_ptr mem_size p =
     (if mem_size = 0 then Some p
      else
        (case size_to_index (word_of_nat mem_size) of
           None \<Rightarrow> None
         | Some index \<Rightarrow>
             if index \<ge> large_bucket_offset then
               (case push_block mem_ptr (index - 1) p of
                  None \<Rightarrow> None
                | Some p' \<Rightarrow>
                    if mem_size \<ge> bucket_size (index - 1)
                    then split_loop (mem_ptr + bucket_size (index - 1)) (mem_size - bucket_size (index - 1)) p'
                    else None)
             else if index < bucket_count \<and> bucket_size index = mem_size then push_block mem_ptr index p
             else None))"
  by pat_completeness auto
termination
  by (relation "measure (\<lambda>(_, mem_size, _). mem_size)") (auto simp: bucket_size_pos)

declare split_loop.simps [simp del]

definition split_block :: "nat \<Rightarrow> nat \<Rightarrow> nat \<Rightarrow> rt_memory_pool \<Rightarrow> rt_memory_pool option" where
  "split_block ptr block_index start_index p =
     (let alloc_size = bucket_size start_index
      in split_loop (ptr + alloc_size) (bucket_size block_index - alloc_size) p)"

text \<open>The search for a block of a larger bucket, from the largest one down.\<close>

datatype search = Found nat | Stopped | NotFound

fun search_bits :: "nat \<Rightarrow> tagged_bitset \<Rightarrow> nat list \<Rightarrow> nat \<Rightarrow> rt_memory_pool \<Rightarrow> (search \<times> rt_memory_pool) option" where
  "search_bits k bs [] start_index p = Some (NotFound, p)"
| "search_bits k bs (i # is) start_index p =
     (if bs_get i bs then
        let block_index = k * bitset_width + i
        in if block_index > start_index then do {
             (ptr, p) \<leftarrow> pop_free block_index p;
             (case ptr of
                Some ptr \<Rightarrow> do {
                  p \<leftarrow> (if block_index \<ge> large_bucket_offset then split_block ptr block_index start_index p else Some p);
                  Some (Found ptr, p) }
              | None \<Rightarrow> search_bits k bs is start_index p) }
           else Some (Stopped, p)
      else search_bits k bs is start_index p)"

fun search_bitsets :: "nat list \<Rightarrow> nat \<Rightarrow> rt_memory_pool \<Rightarrow> (nat option \<times> rt_memory_pool) option" where
  "search_bitsets [] start_index p = Some (None, p)"
| "search_bitsets (k # ks) start_index p =
     (let bs = rp_bitset p ! k
      in if bs_empty bs then search_bitsets ks start_index p
         else do {
           top_bit \<leftarrow> highest_bit bs;
           (res, p) \<leftarrow> search_bits k bs (rev [0..<nat (top_bit + 1)]) start_index p;
           (case res of
              Found ptr \<Rightarrow> Some (Some ptr, p)
            | Stopped \<Rightarrow> Some (None, p)
            | NotFound \<Rightarrow> search_bitsets ks start_index p) })"

definition find_matching_block :: "nat \<Rightarrow> rt_memory_pool \<Rightarrow> (nat option \<times> rt_memory_pool) option" where
  "find_matching_block start_index p =
     search_bitsets (rev [start_index div bitset_width..<length (rp_bitset p)]) start_index p"

definition find_free_block :: "nat \<Rightarrow> rt_memory_pool \<Rightarrow> (nat option \<times> rt_memory_pool) option" where
  "find_free_block sz p = do {
     index \<leftarrow> size_to_index (word_of_nat sz);
     if index < length (rp_buckets p) then do {
       (ptr, p) \<leftarrow> pop_free index p;
       (case ptr of Some _ \<Rightarrow> Some (ptr, p) | None \<Rightarrow> find_matching_block index p) }
     else None }"

definition linear_allocate :: "nat \<Rightarrow> rt_memory_pool \<Rightarrow> nat option \<times> rt_memory_pool" where
  "linear_allocate sz p =
     (if rp_size p - rp_index p \<ge> sz then (Some (rp_index p), p\<lparr> rp_index := rp_index p + sz \<rparr>) else (None, p))"

text \<open>A block of memory is in the pool or comes from the default allocator, which is asked when it has to be.\<close>

datatype pool_ptr = InPool nat | OnHeap

definition pool_allocate :: "nat \<Rightarrow> rt_memory_pool \<Rightarrow> (pool_ptr option \<times> rt_memory_pool) option" where
  "pool_allocate sz p =
     (let p = p\<lparr> rp_num_blocks := rp_num_blocks p + 1, rp_num_bytes := rp_num_bytes p + int sz \<rparr>
      in if sz > large_alloc_limit then Some (Some OnHeap, p)
         else if sz > 0 then do {
           (ptr, p) \<leftarrow> find_free_block sz p;
           (ptr, p) \<leftarrow> (case ptr of
              Some o1 \<Rightarrow> Some (ptr, p)
            | None \<Rightarrow> do {
                alloc_size \<leftarrow> get_alloc_size sz;
                Some (linear_allocate alloc_size p) });
           Some (case ptr of
              Some o1 \<Rightarrow> (Some (InPool o1), p)
            | None \<Rightarrow> (Some OnHeap, p\<lparr> rp_warned := True \<rparr>)) }
         else Some (None, p))"

definition return_block :: "nat \<Rightarrow> nat \<Rightarrow> rt_memory_pool \<Rightarrow> rt_memory_pool option" where
  "return_block ptr sz p = do {
     index \<leftarrow> size_to_index (word_of_nat sz);
     if index < length (rp_buckets p) \<and> index < rp_size p then push_block ptr index p else None }"

definition pool_deallocate :: "pool_ptr option \<Rightarrow> nat \<Rightarrow> rt_memory_pool \<Rightarrow> rt_memory_pool option" where
  "pool_deallocate ptr sz p =
     (let p = p\<lparr> rp_num_blocks := rp_num_blocks p - 1, rp_num_bytes := rp_num_bytes p - int sz \<rparr>
      in if sz > large_alloc_limit then Some p
         else if sz > 0 then
           (case ptr of
              None \<Rightarrow> None
            | Some OnHeap \<Rightarrow> Some p
            | Some (InPool o1) \<Rightarrow> return_block o1 sz p)
         else Some p)"

end
