(* ===== verification/Pool_Safety.thy ===== *)
theory Pool_Safety
  imports Memory_Pool
begin

text \<open>
  The memory pool hands out disjoint blocks that are large enough: its free lists and the blocks in use
  always partition the arena.
\<close>

subsection \<open>Tagged integers and bits\<close>

lemma get_value_new: "16 \<le> LENGTH('a) \<Longrightarrow> get_value (tagged_new t v) = take_bit (LENGTH('a) - 16) (v :: 'a::len word)"
  by (rule bit_eqI) (auto simp: get_value_def tagged_new_def bit_simps)

lemma get_tag_new: "16 \<le> LENGTH('a) \<Longrightarrow> get_tag (tagged_new t v) = take_bit 16 (t :: 'a::len word)"
  by (rule bit_eqI) (auto simp: get_tag_def tagged_new_def bit_simps)

lemma get_value_fits: "unat v < 2 ^ 48 \<Longrightarrow> get_value (tagged_new t v) = (v :: u64)"
  by (simp add: get_value_new word_unat_eq_iff unsigned_take_bit_eq take_bit_nat_eq_self)

lemma bs_get_bit: "bs_get i bs = bit (bs_bits bs) i"
  by (simp add: bs_get_def bit_iff_odd_drop_bit even_iff_mod_2_eq_zero and_one_eq)

lemma bs_get_set: "i < 32 \<Longrightarrow> j < 32 \<Longrightarrow> bs_get j (bs_set i s bs) = (if i = j then s else bs_get j bs)"
  by (auto simp: bs_get_bit bs_set_def bit_simps)

lemma bs_get_tag [simp]: "bs_get i (bs\<lparr> bs_tag := t \<rparr>) = bs_get i bs"
  by (simp add: bs_get_def)

subsection \<open>Buckets\<close>

lemma size_to_index_small:
  assumes "0 < sz" and "sz \<le> 4096"
  shows "size_to_index (word_of_nat sz) = Some ((sz - 1) div 64)"
proof -
  have u: "unat (word_of_nat sz :: u32) = sz" using assms by (simp add: unsigned_of_nat take_bit_nat_eq_self)
  have "(word_of_nat sz :: u32) \<noteq> 0" using u assms(1) by auto
  then have "unat (word_of_nat sz - 1 :: u32) = sz - 1" using u by (simp add: unat_minus_one)
  then show ?thesis using assms u by (simp add: size_to_index_def pool_consts)
qed

lemma size_to_index_large:
  assumes "4096 < sz" and "sz \<le> 65535"
  shows "\<exists>q r. q < 4 \<and> r < 16 \<and> 2 ^ (q + 8) * (16 + r) \<le> sz \<and> sz < 2 ^ (q + 8) * (17 + r) \<and>
    size_to_index (word_of_nat sz) = Some (64 + 16 * q + r)"
proof -
  let ?w = "word_of_nat sz :: u32"
  have u: "unat ?w = sz" using assms by (simp add: unsigned_of_nat take_bit_nat_eq_self)
  define l where "l = bit_len sz - 1"
  have b: "2 ^ l \<le> sz" "sz < 2 ^ (l + 1)" using bit_len_bounds [of sz] assms by (auto simp: l_def)
  have l: "12 \<le> l" "l \<le> 15"
  proof -
    show "12 \<le> l"
    proof (rule ccontr)
      assume "\<not> 12 \<le> l"
      then have "(2::nat) ^ (l + 1) \<le> 2 ^ 12" by (intro power_increasing) auto
      then show False using b(2) assms(1) by simp
    qed
    show "l \<le> 15"
    proof (rule ccontr)
      assume "\<not> l \<le> 15"
      then have "(2::nat) ^ 16 \<le> 2 ^ l" by (intro power_increasing) auto
      then show False using b(1) assms(2) by simp
    qed
  qed
  have "clz ?w = 31 - l" using clz_bit_len [of ?w] bit_len_u32 [of ?w] l unfolding u l_def by (simp add: clz_def u)
  then have i: "31 - int (clz ?w) = int l" using l by simp
  define q where "q = l - 12"
  have q: "l = q + 12" "q < 4" using l by (simp_all add: q_def)
  define d where "d = sz div 2 ^ (q + 8)"
  have d: "16 \<le> d" "d < 32"
  proof -
    have "(2::nat) ^ (q + 8) * 16 \<le> sz" "sz < 2 ^ (q + 8) * 32" using b by (simp_all add: q(1) power_add)
    then show "16 \<le> d" "d < 32" by (simp_all add: d_def div_less_iff_less_mult less_eq_div_iff_mult_less_eq mult.commute)
  qed
  have e: "unat (drop_bit (q + 8) ?w AND 15) = d - 16"
  proof -
    have "drop_bit (q + 8) ?w AND 15 = take_bit 4 (drop_bit (q + 8) ?w)" by (simp add: take_bit_eq_mask mask_numeral)
    then have "unat (drop_bit (q + 8) ?w AND 15) = d mod 16"
      using assms(2) by (simp only: unsigned_take_bit_eq unsigned_drop_bit_eq u) (simp add: drop_bit_eq_div take_bit_eq_mod d_def)
    also have "\<dots> = d - 16" using d by (simp add: mod_if)
    finally show ?thesis .
  qed
  have "uint (drop_bit (q + 8) ?w AND 15) = int (d - 16)" by (simp flip: e)
  moreover have "nat (int l - 4) = q + 8" by (simp add: q(1))
  ultimately have "size_to_index ?w = Some (64 + 16 * q + (d - 16))"
    using u assms(1) d q(2) by (simp add: size_to_index_def pool_consts i Let_def q(1))
  moreover have "2 ^ (q + 8) * d \<le> sz" "sz < 2 ^ (q + 8) * (d + 1)"
    by (simp_all add: d_def mult.commute div_times_less_eq_dividend) (metis dividend_less_times_div add.commute mult.commute mult_Suc zero_less_numeral zero_less_power)
  ultimately show ?thesis using q(2) d by (intro exI [of _ q] exI [of _ "d - 16"]) (simp add: algebra_simps)
qed

lemma bucket_size_gt: "i < 128 \<Longrightarrow> i < bucket_size i"
proof (cases "i < 64")
  case False
  assume i: "i < 128"
  have "2 ^ 8 * 17 \<le> (2::nat) ^ ((i - 64) div 16 + 8) * (17 + (i - 64) mod 16)" by (intro mult_mono power_increasing) simp_all
  then show ?thesis using i False by (simp add: bucket_size_large)
qed (simp add: bucket_size_small)

definition bucket_of :: "nat \<Rightarrow> nat" where
  "bucket_of sz = the (size_to_index (word_of_nat sz))"

lemma bucket_of:
  assumes "0 < sz" and "sz \<le> 65535"
  shows "size_to_index (word_of_nat sz) = Some (bucket_of sz)" "bucket_of sz < 128" "sz \<le> bucket_size (bucket_of sz)"
    "0 < bucket_of sz \<Longrightarrow> bucket_size (bucket_of sz - 1) \<le> sz" "get_alloc_size sz = Some (bucket_size (bucket_of sz))"
proof -
  have "size_to_index (word_of_nat sz) = Some (bucket_of sz) \<and> bucket_of sz < 128 \<and> sz \<le> bucket_size (bucket_of sz) \<and>
    (0 < bucket_of sz \<longrightarrow> bucket_size (bucket_of sz - 1) \<le> sz) \<and> get_alloc_size sz = Some (bucket_size (bucket_of sz))"
  proof (cases "sz \<le> 4096")
    case True
    define n where "n = (sz - 1) div 64"
    obtain m where "sz = n * 64 + m + 1" "m < 64" using that [of "(sz - 1) mod 64"] assms(1) by (simp add: n_def)
    then have n: "sz \<le> (n + 1) * 64" "n * 64 < sz" "n < 64" using True by simp_all
    have i: "size_to_index (word_of_nat sz) = Some n" "bucket_of sz = n"
      using size_to_index_small [OF assms(1) True] by (simp_all add: bucket_of_def n_def)
    have "(int sz + int 64 - 1) AND NOT (int 64 - 1) = push_bit 6 (drop_bit 6 (int sz + 63))"
    proof -
      have "int 64 - 1 = (mask 6 :: int)" by (simp add: mask_numeral)
      moreover have "x AND NOT (mask 6) = push_bit 6 (drop_bit 6 x)" for x :: int by (rule bit_eqI) (auto simp: bit_simps)
      ultimately show ?thesis by (simp add: add.commute)
    qed
    also have "\<dots> = int ((n + 1) * 64)"
    proof -
      have "(int sz + 63) div 64 = int n + 1" by (rule int_div_pos_eq [of _ _ _ "int sz - 1 - 64 * int n"]) (use n in simp_all)
      then show ?thesis by (simp add: push_bit_eq_mult drop_bit_eq_div)
    qed
    finally have "get_alloc_size sz = Some ((n + 1) * 64)" using True by (simp add: get_alloc_size_def pool_consts)
    then show ?thesis using i n by (auto simp: bucket_size_small)
  next
    case False
    then obtain q r where q: "q < 4" "r < 16" "2 ^ (q + 8) * (16 + r) \<le> sz" "sz < 2 ^ (q + 8) * (17 + r)"
      "size_to_index (word_of_nat sz) = Some (64 + 16 * q + r)" using size_to_index_large [of sz] assms(2) by auto
    have b: "bucket_of sz = 64 + 16 * q + r" by (simp add: bucket_of_def q(5))
    have s: "bucket_size (bucket_of sz) = 2 ^ (q + 8) * (17 + r)" using q(2) by (simp add: b bucket_size_large)
    have "bucket_size (bucket_of sz - 1) \<le> 2 ^ (q + 8) * (16 + r)"
    proof (cases "r = 0")
      case True
      show ?thesis
      proof (cases q)
        case 0
        then show ?thesis using True by (simp add: b bucket_size_small)
      next
        case (Suc q')
        then have "bucket_of sz - 1 = 64 + (16 * q' + 15)" using True by (simp add: b)
        then show ?thesis using True Suc by (simp add: bucket_size_large power_add)
      qed
    next
      case False
      then obtain r' where r': "r = Suc r'" using not0_implies_Suc by blast
      then have "bucket_of sz - 1 = 64 + (16 * q + r')" by (simp add: b)
      then show ?thesis using q(2) r' by (simp add: bucket_size_large)
    qed
    moreover have "get_alloc_size sz = Some (bucket_size (bucket_of sz))"
      using False q(1,2,5) by (simp add: get_alloc_size_def pool_consts b)
    ultimately show ?thesis using q s b by simp
  qed
  then show "size_to_index (word_of_nat sz) = Some (bucket_of sz)" "bucket_of sz < 128" "sz \<le> bucket_size (bucket_of sz)"
    "0 < bucket_of sz \<Longrightarrow> bucket_size (bucket_of sz - 1) \<le> sz" "get_alloc_size sz = Some (bucket_size (bucket_of sz))"
    by blast+
qed

subsection \<open>The representation\<close>

text \<open>The blocks of a free list, from the value of its head on.\<close>

fun chain :: "arena \<Rightarrow> u64 \<Rightarrow> nat list \<Rightarrow> bool" where
  "chain mem v [] \<longleftrightarrow> v = pool_sentinel"
| "chain mem v (a # as) \<longleftrightarrow> v = word_of_nat a \<and> a < 2 ^ 48 - 1 \<and> chain mem (mem a) as"

lemma unat_sentinel: "unat pool_sentinel = 2 ^ 48 - 1"
  by (simp add: pool_sentinel_def mask_numeral)

lemma offset_word:
  assumes "a < 2 ^ 48 - 1"
  shows "unat (word_of_nat a :: u64) = a" "(word_of_nat a :: u64) \<noteq> pool_sentinel"
proof -
  show u: "unat (word_of_nat a :: u64) = a" using assms by (simp add: unsigned_of_nat take_bit_nat_eq_self)
  show "(word_of_nat a :: u64) \<noteq> pool_sentinel"
  proof
    assume "word_of_nat a = pool_sentinel"
    then have "unat (word_of_nat a :: u64) = 2 ^ 48 - 1" by (simp only: unat_sentinel)
    then show False using assms by (simp only: u)
  qed
qed

lemma chain_value: "chain mem v as \<Longrightarrow> unat v < 2 ^ 48"
  by (cases as) (simp_all add: unat_sentinel offset_word)

lemma chain_sentinel: "chain mem v as \<Longrightarrow> (v = pool_sentinel) = (as = [])"
  by (cases as) (simp_all add: offset_word)

lemma chain_cong: "(\<And>a. a \<in> set as \<Longrightarrow> mem' a = mem a) \<Longrightarrow> chain mem' v as = chain mem v as"
  by (induction as arbitrary: v) auto

text \<open>
  The arena is cut into blocks, \<open>ext\<close> gives the size of the block at an offset. \<open>L ! i\<close> are the free blocks of bucket
  \<open>i\<close>, \<open>live\<close> the blocks in use with the sizes that were asked for.
\<close>

type_synonym blocks = "nat \<rightharpoonup> nat"

definition ext_ok :: "nat \<Rightarrow> blocks \<Rightarrow> bool" where
  "ext_ok top_index ext \<longleftrightarrow> (\<forall>a n. ext a = Some n \<longrightarrow> 0 < n \<and> a + n \<le> top_index) \<and>
     (\<forall>a n b m. ext a = Some n \<and> ext b = Some m \<and> a < b \<longrightarrow> a + n \<le> b)"

definition free_ok :: "blocks \<Rightarrow> nat list list \<Rightarrow> (nat \<times> nat) set \<Rightarrow> bool" where
  "free_ok ext L live \<longleftrightarrow> length L = 128 \<and>
     (\<forall>i < 128. distinct (L ! i) \<and> (\<forall>a \<in> set (L ! i). ext a = Some (bucket_size i) \<and> (\<forall>s. (a, s) \<notin> live))) \<and>
     (\<forall>i < 128. \<forall>j < 128. i \<noteq> j \<longrightarrow> set (L ! i) \<inter> set (L ! j) = {}) \<and>
     (\<forall>a s. (a, s) \<in> live \<longrightarrow> 0 < s \<and> s \<le> 65535 \<and> ext a = Some (bucket_size (bucket_of s))) \<and>
     (\<forall>a s s'. (a, s) \<in> live \<and> (a, s') \<in> live \<longrightarrow> s = s')"

definition heads_ok :: "nat list list \<Rightarrow> rt_memory_pool \<Rightarrow> bool" where
  "heads_ok L p \<longleftrightarrow> length (rp_buckets p) = 128 \<and> length (rp_bitset p) = 4 \<and>
     (\<forall>i < 128. chain (rp_mem p) (get_value (rp_buckets p ! i)) (L ! i)) \<and>
     (\<forall>i < 128. bs_get (i mod 32) (rp_bitset p ! (i div 32)) \<longrightarrow> L ! i = [])"

definition pool_rep :: "blocks \<Rightarrow> nat list list \<Rightarrow> (nat \<times> nat) set \<Rightarrow> rt_memory_pool \<Rightarrow> bool" where
  "pool_rep ext L live p \<longleftrightarrow> ext_ok (rp_index p) ext \<and> free_ok ext L live \<and> heads_ok L p \<and>
     rp_index p \<le> rp_size p \<and> rp_size p < 2 ^ 48"

lemma ext_okD: "ext_ok t ext \<Longrightarrow> ext a = Some n \<Longrightarrow> 0 < n \<and> a + n \<le> t"
  by (simp add: ext_ok_def)

lemma ext_ok_disjoint: "ext_ok t ext \<Longrightarrow> ext a = Some n \<Longrightarrow> ext b = Some m \<Longrightarrow> a \<noteq> b \<Longrightarrow> a + n \<le> b \<or> b + m \<le> a"
  unfolding ext_ok_def by (metis nat_neq_iff)

subsection \<open>Lists\<close>

text \<open>The bit of a bucket says that it is empty, since the code asks the wrong way round.\<close>

lemma update_bitset_ok:
  assumes "length (rp_buckets p) = 128" and "length (rp_bitset p) = 4" and "i < 128"
    and "\<forall>j < 128. chain (rp_mem p) (get_value (rp_buckets p ! j)) (L ! j)"
    and "\<forall>j < 128. j \<noteq> i \<and> bs_get (j mod 32) (rp_bitset p ! (j div 32)) \<longrightarrow> L ! j = []"
  shows "\<exists>bs. update_bitset i p = Some (p\<lparr> rp_bitset := bs \<rparr>) \<and> heads_ok L (p\<lparr> rp_bitset := bs \<rparr>)"
proof -
  let ?k = "i div 32"
  let ?b = "bs_set (i mod 32) (\<not> fl_empty (rp_buckets p ! i)) ((rp_bitset p ! ?k)\<lparr> bs_tag := bs_tag (rp_bitset p ! ?k) + 1 \<rparr>)"
  have k: "?k < 4" using assms(3) by simp
  have u: "update_bitset i p = Some (p\<lparr> rp_bitset := (rp_bitset p)[?k := ?b] \<rparr>)"
    using assms(1-3) k by (simp add: update_bitset_def pool_consts Let_def)
  have "L ! j = []" if j: "j < 128" and g: "bs_get (j mod 32) ((rp_bitset p)[?k := ?b] ! (j div 32))" for j
  proof (cases "j = i")
    case True
    then have "\<not> fl_empty (rp_buckets p ! i)" using g k assms(2) by (simp add: bs_get_set)
    then show ?thesis using assms(4) chain_sentinel j True by (auto simp: fl_empty_def)
  next
    case False
    then have "bs_get (j mod 32) (rp_bitset p ! (j div 32))"
    proof (cases "j div 32 = ?k")
      case True
      then have "j mod 32 \<noteq> i mod 32" using False by (metis div_mult_mod_eq)
      then show ?thesis using g k assms(2) True by (simp add: bs_get_set)
    qed (use g in simp)
    then show ?thesis using assms(5) j False by blast
  qed
  then show ?thesis using u assms(1,2,4) by (intro exI [of _ "(rp_bitset p)[?k := ?b]"]) (simp add: heads_ok_def)
qed

lemma heads_okD:
  assumes "heads_ok L p"
  shows "length (rp_buckets p) = 128" "length (rp_bitset p) = 4" "i < 128 \<Longrightarrow> chain (rp_mem p) (get_value (rp_buckets p ! i)) (L ! i)"
    "i < 128 \<Longrightarrow> bs_get (i mod 32) (rp_bitset p ! (i div 32)) \<Longrightarrow> L ! i = []"
  using assms by (auto simp: heads_ok_def)

lemma pop_free_empty:
  assumes "heads_ok L p" and "i < 128" and "L ! i = []"
  shows "pop_free i p = Some (None, p)"
  using heads_okD(1,3) [OF assms(1)] assms(2,3) by (force simp: pop_free_def fl_pop_def)

lemma pop_free_ok:
  assumes h: "heads_ok L p" and i: "i < 128" and L: "length L = 128" "L ! i = a # as"
  shows "\<exists>p'. pop_free i p = Some (Some a, p') \<and> heads_ok (L[i := as]) p' \<and> rp_index p' = rp_index p \<and> rp_size p' = rp_size p"
proof -
  note d = heads_okD [OF h]
  let ?v = "get_value (rp_buckets p ! i)"
  have c: "?v = word_of_nat a" "a < 2 ^ 48 - 1" "chain (rp_mem p) (rp_mem p a) as" using d(3) [OF i] L(2) by simp_all
  let ?head = "tagged_new (get_tag (rp_buckets p ! i) + 1) (rp_mem p a)"
  let ?p = "p\<lparr> rp_buckets := (rp_buckets p)[i := ?head] \<rparr>"
  have f: "fl_pop (rp_mem p) (rp_buckets p ! i) = Some (a, ?head)" using c(1,2) by (simp add: fl_pop_def Let_def offset_word)
  have v: "get_value ?head = rp_mem p a" by (rule get_value_fits [OF chain_value [OF c(3)]])
  have "\<exists>bs. update_bitset i ?p = Some (?p\<lparr> rp_bitset := bs \<rparr>) \<and> heads_ok (L[i := as]) (?p\<lparr> rp_bitset := bs \<rparr>)"
  proof (rule update_bitset_ok)
    show "\<forall>j < 128. chain (rp_mem ?p) (get_value (rp_buckets ?p ! j)) (L[i := as] ! j)"
      using d(1,3) c(3) v L(1) i by (auto simp: nth_list_update)
    show "\<forall>j < 128. j \<noteq> i \<and> bs_get (j mod 32) (rp_bitset ?p ! (j div 32)) \<longrightarrow> L[i := as] ! j = []"
      using d(4) by simp
  qed (use d(1,2) i in simp_all)
  then show ?thesis using d(1) i f by (auto simp: pop_free_def)
qed

lemma push_block_ok:
  assumes h: "heads_ok L p" and i: "i < 128" and L: "length L = 128" and a: "a < 2 ^ 48 - 1" "\<forall>j < 128. a \<notin> set (L ! j)"
  shows "\<exists>p'. push_block a i p = Some p' \<and> heads_ok (L[i := a # L ! i]) p' \<and> rp_index p' = rp_index p \<and> rp_size p' = rp_size p"
proof -
  note d = heads_okD [OF h]
  let ?v = "get_value (rp_buckets p ! i)"
  let ?head = "tagged_new (get_tag (rp_buckets p ! i) + 1) (word_of_nat a) :: u64"
  let ?mem = "(rp_mem p)(a := ?v)"
  let ?p = "p\<lparr> rp_mem := ?mem, rp_buckets := (rp_buckets p)[i := ?head] \<rparr>"
  have v: "get_value ?head = word_of_nat a" by (rule get_value_fits) (use a(1) offset_word in simp)
  have c: "chain ?mem w (L ! j) = chain (rp_mem p) w (L ! j)" if "j < 128" for w j
    using a(2) that by (intro chain_cong) auto
  have "\<exists>bs. update_bitset i ?p = Some (?p\<lparr> rp_bitset := bs \<rparr>) \<and> heads_ok (L[i := a # L ! i]) (?p\<lparr> rp_bitset := bs \<rparr>)"
  proof (rule update_bitset_ok)
    show "\<forall>j < 128. chain (rp_mem ?p) (get_value (rp_buckets ?p ! j)) (L[i := a # L ! i] ! j)"
      using d(1,3) c i v a(1) L by (auto simp: nth_list_update)
    show "\<forall>j < 128. j \<noteq> i \<and> bs_get (j mod 32) (rp_bitset ?p ! (j div 32)) \<longrightarrow> L[i := a # L ! i] ! j = []"
      using d(4) by simp
  qed (use d(1,2) i in simp_all)
  then show ?thesis using d(1) i by (auto simp: push_block_def fl_push_def)
qed

text \<open>No bucket whose bit is set has a block.\<close>

lemma search_bits_fails:
  assumes "heads_ok L p" and "k < 4" and "set is \<subseteq> {..<32}"
  shows "search_bits k (rp_bitset p ! k) is start_index p \<in> {Some (NotFound, p), Some (Stopped, p)}"
  using assms(3)
proof (induction "is")
  case (Cons i "is")
  have i: "i < 32" "k * 32 + i < 128" using Cons.prems assms(2) by auto
  have "pop_free (k * 32 + i) p = Some (None, p)" if "bs_get i (rp_bitset p ! k)"
    by (rule pop_free_empty [OF assms(1) i(2)]) (use heads_okD(4) [OF assms(1) i(2)] that i(1) in simp)
  then show ?case using Cons by (auto simp: pool_consts Let_def)
qed simp

lemma search_bitsets_fails:
  assumes "heads_ok L p" and "set ks \<subseteq> {..<4}"
  shows "search_bitsets ks start_index p = Some (None, p)"
  using assms(2)
proof (induction ks)
  case (Cons k ks)
  show ?case
  proof (cases "bs_empty (rp_bitset p ! k)")
    case False
    then obtain t where t: "highest_bit (rp_bitset p ! k) = Some t" "t \<le> 31" by (auto simp: bs_empty_def highest_bit_def)
    have "set (rev [0..<nat (t + 1)]) \<subseteq> {..<32}" using t(2) by auto
    then have "search_bits k (rp_bitset p ! k) (rev [0..<nat (t + 1)]) start_index p \<in> {Some (NotFound, p), Some (Stopped, p)}"
      using Cons.prems by (intro search_bits_fails [OF assms(1)]) simp_all
    then show ?thesis using False t(1) Cons by (auto simp: Let_def)
  qed (use Cons in simp)
qed simp

lemma find_matching_fails: "heads_ok L p \<Longrightarrow> find_matching_block i p = Some (None, p)"
  unfolding find_matching_block_def by (rule search_bitsets_fails) (auto simp: heads_okD(2))

subsection \<open>Allocating and freeing\<close>

lemma pool_repD:
  assumes "pool_rep ext L live p"
  shows "ext_ok (rp_index p) ext" "free_ok ext L live" "heads_ok L p" "rp_index p \<le> rp_size p" "rp_size p < 2 ^ 48" "length L = 128"
  using assms by (auto simp: pool_rep_def free_ok_def)

text \<open>Counters and warnings do not matter.\<close>

lemma pool_rep_fields:
  "pool_rep ext L live (p\<lparr> rp_num_blocks := a, rp_num_bytes := b \<rparr>) = pool_rep ext L live p"
  "pool_rep ext L live (p\<lparr> rp_warned := w \<rparr>) = pool_rep ext L live p"
  by (simp_all add: pool_rep_def heads_ok_def)

lemma find_free_block_ok:
  assumes r: "pool_rep ext L live p" and s: "0 < sz" "sz \<le> 65535"
  shows "\<exists>ptr p'. find_free_block sz p = Some (ptr, p') \<and> (\<forall>a as. L ! bucket_of sz = a # as \<longrightarrow> ptr = Some a) \<and>
    (case ptr of None \<Rightarrow> p' = p | Some a \<Rightarrow> \<exists>L'. pool_rep ext L' (insert (a, sz) live) p' \<and> (\<forall>s. (a, s) \<notin> live))"
proof -
  note d = pool_repD [OF r] and b = bucket_of [OF s]
  have l: "length (rp_buckets p) = 128" by (rule heads_okD(1) [OF d(3)])
  show ?thesis
  proof (cases "L ! bucket_of sz")
    case Nil
    then have "pop_free (bucket_of sz) p = Some (None, p)" by (rule pop_free_empty [OF d(3) b(2)])
    then show ?thesis using Nil b(1,2) l find_matching_fails [OF d(3)] by (simp add: find_free_block_def)
  next
    case (Cons a as)
    obtain p' where p: "pop_free (bucket_of sz) p = Some (Some a, p')" "heads_ok (L[bucket_of sz := as]) p'"
      "rp_index p' = rp_index p" "rp_size p' = rp_size p"
      using pop_free_ok [OF d(3) b(2) d(6) Cons] by blast
    have f12: "distinct (L ! bucket_of sz)" "\<forall>x \<in> set (L ! bucket_of sz). ext x = Some (bucket_size (bucket_of sz)) \<and> (\<forall>s. (x, s) \<notin> live)"
      using d(2) b(2) unfolding free_ok_def by blast+
    have f3: "a \<notin> set (L ! j)" if "j < 128" "j \<noteq> bucket_of sz" for j
    proof -
      have "set (L ! bucket_of sz) \<inter> set (L ! j) = {}" using d(2) b(2) that unfolding free_ok_def by blast
      then show ?thesis using Cons by auto
    qed
    have f: "distinct (a # as)" "\<forall>x \<in> set (a # as). ext x = Some (bucket_size (bucket_of sz)) \<and> (\<forall>s. (x, s) \<notin> live)"
      "\<forall>j < 128. j \<noteq> bucket_of sz \<longrightarrow> a \<notin> set (L ! j)"
      using f12 f3 unfolding Cons by blast+
    have sub: "set (L[bucket_of sz := as] ! j) \<subseteq> set (L ! j)" "a \<notin> set (L[bucket_of sz := as] ! j)" "distinct (L[bucket_of sz := as] ! j)"
      if "j < 128" for j
    proof -
      have "L[bucket_of sz := as] ! j = (if j = bucket_of sz then as else L ! j)" using that d(6) by (simp add: nth_list_update)
      moreover have "distinct (L ! j)" using d(2) that unfolding free_ok_def by blast
      ultimately show "set (L[bucket_of sz := as] ! j) \<subseteq> set (L ! j)" "a \<notin> set (L[bucket_of sz := as] ! j)"
        "distinct (L[bucket_of sz := as] ! j)" using f3 [OF that] f(1) Cons by auto
    qed
    have "free_ok ext (L[bucket_of sz := as]) (insert (a, sz) live)"
      unfolding free_ok_def
    proof (intro conjI allI impI)
      fix i assume i: "i < (128::nat)"
      show "distinct (L[bucket_of sz := as] ! i)" by (rule sub(3) [OF i])
      show "\<forall>x \<in> set (L[bucket_of sz := as] ! i). ext x = Some (bucket_size i) \<and> (\<forall>s. (x, s) \<notin> insert (a, sz) live)"
        using sub(1,2) [OF i] d(2) i by (auto simp: free_ok_def subset_iff)
      fix j assume "j < (128::nat)" "i \<noteq> j"
      then show "set (L[bucket_of sz := as] ! i) \<inter> set (L[bucket_of sz := as] ! j) = {}"
        using sub(1) [OF i] sub(1) [of j] d(2) i unfolding free_ok_def by blast
    next
      show "length (L[bucket_of sz := as]) = 128" using d(6) by simp
      show "0 < s" "s \<le> 65535" "ext b = Some (bucket_size (bucket_of s))" if "(b, s) \<in> insert (a, sz) live" for b s
        using that d(2) f(2) s by (auto simp: free_ok_def)
      show "s = s'" if "(b, s) \<in> insert (a, sz) live \<and> (b, s') \<in> insert (a, sz) live" for b s s'
        using that d(2) f(2) by (auto simp: free_ok_def)
    qed
    then have "pool_rep ext (L[bucket_of sz := as]) (insert (a, sz) live) p'"
      using p(2-4) d(1,4,5) by (simp add: pool_rep_def)
    then show ?thesis using Cons p(1) b(1,2) l f(2) by (auto simp: find_free_block_def)
  qed
qed

lemma linear_allocate_ok:
  assumes r: "pool_rep ext L live p" and s: "0 < sz" "sz \<le> 65535" and "linear_allocate (bucket_size (bucket_of sz)) p = (Some a, p')"
  shows "\<exists>ext'. pool_rep ext' L (insert (a, sz) live) p' \<and> (\<forall>s. (a, s) \<notin> live)"
proof -
  note d = pool_repD [OF r]
  let ?n = "bucket_size (bucket_of sz)"
  have p: "a = rp_index p" "p' = p\<lparr> rp_index := rp_index p + ?n \<rparr>" "?n \<le> rp_size p - rp_index p"
    using assms(4) by (auto simp: linear_allocate_def split: if_splits)
  have fresh: "ext a = None" using ext_okD [OF d(1), of a] by (cases "ext a") (auto simp: p(1))
  let ?ext = "ext(a \<mapsto> ?n)"
  have "ext_ok (rp_index p + ?n) ?ext"
    using d(1) unfolding ext_ok_def p(1) by (auto simp: bucket_size_pos trans_le_add1 split: if_splits) (metis add_leD1 leD less_imp_le)+
  moreover have nl: "(\<forall>s. (a, s) \<notin> live)" using d(2) fresh by (auto simp: free_ok_def)
  have "x \<noteq> a" if "i < 128" "x \<in> set (L ! i)" for i x using d(2) that fresh by (auto simp: free_ok_def)
  then have "free_ok ?ext L (insert (a, sz) live)"
    using d(2) nl s unfolding free_ok_def by auto
  moreover have "heads_ok L p'" using d(3) by (simp add: p(2) heads_ok_def)
  ultimately show ?thesis using p d(4,5) nl by (auto simp: pool_rep_def)
qed

lemma pool_allocate_ok:
  assumes "pool_rep ext L live p"
  shows "\<exists>ptr p' ext' L'. pool_allocate sz p = Some (ptr, p') \<and>
    (case ptr of Some (InPool a) \<Rightarrow> pool_rep ext' L' (insert (a, sz) live) p' \<and> (\<forall>s. (a, s) \<notin> live) | _ \<Rightarrow> pool_rep ext' L' live p')"
proof -
  let ?p = "p\<lparr> rp_num_blocks := rp_num_blocks p + 1, rp_num_bytes := rp_num_bytes p + int sz \<rparr>"
  have r: "pool_rep ext L live ?p" using assms by (simp only: pool_rep_fields)
  consider "65535 < sz" | "sz = 0" | "0 < sz" "sz \<le> 65535" by linarith
  then show ?thesis
  proof cases
    case 3
    obtain ptr p1 where f: "find_free_block sz ?p = Some (ptr, p1)"
      "case ptr of None \<Rightarrow> p1 = ?p | Some a \<Rightarrow> \<exists>L'. pool_rep ext L' (insert (a, sz) live) p1 \<and> (\<forall>s. (a, s) \<notin> live)"
      using find_free_block_ok [OF r 3] by blast
    show ?thesis
    proof (cases ptr)
      case None
      then have p1: "p1 = ?p" using f(2) by simp
      obtain ptr2 p2 where l: "linear_allocate (bucket_size (bucket_of sz)) ?p = (ptr2, p2)" by fastforce
      have run: "pool_allocate sz p = Some (case ptr2 of Some a \<Rightarrow> (Some (InPool a), p2) | None \<Rightarrow> (Some OnHeap, p2\<lparr> rp_warned := True \<rparr>))"
        using 3 f(1) None p1 bucket_of(5) [OF 3] l by (auto simp: pool_allocate_def Let_def pool_consts split: option.splits)
      show ?thesis
      proof (cases ptr2)
        case None
        then have "p2 = ?p" using l by (auto simp: linear_allocate_def split: if_splits)
        then show ?thesis using run None r by (auto simp: pool_rep_fields)
      next
        case (Some a)
        then show ?thesis using run linear_allocate_ok [OF r 3, of a p2] l by auto
      qed
    next
      case (Some a)
      then show ?thesis using 3 f by (auto simp: pool_allocate_def Let_def pool_consts)
    qed
  qed (use r in \<open>auto simp: pool_allocate_def Let_def pool_consts\<close>)
qed

lemma pool_free_ok:
  assumes r: "pool_rep ext L live p" and a: "(a, sz) \<in> live"
  shows "\<exists>p'. pool_deallocate (Some (InPool a)) sz p = Some p' \<and>
    pool_rep ext (L[bucket_of sz := a # L ! bucket_of sz]) (live - {(a, sz)}) p'"
proof -
  let ?p = "p\<lparr> rp_num_blocks := rp_num_blocks p - 1, rp_num_bytes := rp_num_bytes p - int sz \<rparr>"
  have r': "pool_rep ext L live ?p" using r by (simp only: pool_rep_fields)
  note d = pool_repD [OF r']
  have s: "0 < sz" "sz \<le> 65535" "ext a = Some (bucket_size (bucket_of sz))" using d(2) a by (auto simp: free_ok_def)
  note b = bucket_of [OF s(1,2)] and e = ext_okD [OF d(1) s(3)]
  have nl: "\<forall>j < 128. a \<notin> set (L ! j)" using d(2) a unfolding free_ok_def by blast
  have "a < 2 ^ 48 - 1" using e d(4,5) by simp
  then obtain p' where p: "push_block a (bucket_of sz) ?p = Some p'" "heads_ok (L[bucket_of sz := a # L ! bucket_of sz]) p'"
    "rp_index p' = rp_index p" "rp_size p' = rp_size p"
    using push_block_ok [OF d(3) b(2) d(6) _ nl] by auto
  let ?L = "L[bucket_of sz := a # L ! bucket_of sz]"
  have L: "?L ! j = (if j = bucket_of sz then a # L ! j else L ! j)" if "j < 128" for j
    using that d(6) b(2) by (simp add: nth_list_update)
  have u: "(\<forall>s. (a, s) \<notin> live - {(a, sz)})" using d(2) a by (auto simp: free_ok_def)
  have "free_ok ext ?L (live - {(a, sz)})"
    unfolding free_ok_def
  proof (intro conjI allI impI)
    fix i assume i: "i < (128::nat)"
    show "distinct (?L ! i)" using L [OF i] nl d(2) i by (auto simp: free_ok_def)
    show "\<forall>x \<in> set (?L ! i). ext x = Some (bucket_size i) \<and> (\<forall>s. (x, s) \<notin> live - {(a, sz)})"
      using L [OF i] d(2) i s(3) u by (auto simp: free_ok_def)
    fix j assume j: "j < (128::nat)" "i \<noteq> j"
    have "set (L ! i) \<inter> set (L ! j) = {}" using d(2) i j unfolding free_ok_def by blast
    then show "set (?L ! i) \<inter> set (?L ! j) = {}" using L [OF i] L [OF j(1)] nl i j by auto
  next
    show "length ?L = 128" using d(6) by simp
    show "0 < s" "s \<le> 65535" "ext b = Some (bucket_size (bucket_of s))" if "(b, s) \<in> live - {(a, sz)}" for b s
      using that d(2) by (auto simp: free_ok_def)
    show "s = s'" if "(b, s) \<in> live - {(a, sz)} \<and> (b, s') \<in> live - {(a, sz)}" for b s s'
      using that d(2) unfolding free_ok_def by blast
  qed
  then have "pool_rep ext ?L (live - {(a, sz)}) p'"
    using p(2-4) d(1,4,5) by (simp add: pool_rep_def)
  moreover have "bucket_of sz < rp_size p"
  proof -
    have "bucket_of sz < bucket_size (bucket_of sz)" by (rule bucket_size_gt [OF b(2)])
    then show ?thesis using e d(4) by simp
  qed
  ultimately show ?thesis using s(1,2) b(1,2) p(1) heads_okD(1) [OF d(3)]
    by (auto simp: pool_deallocate_def Let_def pool_consts return_block_def)
qed

end
