(* ===== verification/Pool_System.thy ===== *)
theory Pool_System
  imports Pool_Safety
begin

text \<open>
  The memory pool and its users as a transition system: blocks are allocated, written to and given back with the size
  they were allocated with.
\<close>

type_synonym pool_state = "rt_memory_pool \<times> (nat \<times> nat) set"

inductive pool_step :: "pool_state \<Rightarrow> pool_state \<Rightarrow> bool" where
  allocate: "pool_allocate sz p = Some (Some (InPool a), p') \<Longrightarrow> pool_step (p, live) (p', insert (a, sz) live)"
| allocate_other: "pool_allocate sz p = Some (r, p') \<Longrightarrow> \<forall>a. r \<noteq> Some (InPool a) \<Longrightarrow> pool_step (p, live) (p', live)"
| free: "(a, sz) \<in> live \<Longrightarrow> pool_deallocate (Some (InPool a)) sz p = Some p' \<Longrightarrow> pool_step (p, live) (p', live - {(a, sz)})"
| free_heap: "pool_deallocate (Some OnHeap) sz p = Some p' \<Longrightarrow> pool_step (p, live) (p', live)"
| modify: "\<forall>b. mem b \<noteq> rp_mem p b \<longrightarrow> (\<exists>(a, s) \<in> live. a \<le> b \<and> b < a + s) \<Longrightarrow> pool_step (p, live) (p\<lparr> rp_mem := mem \<rparr>, live)"

inductive_cases pool_step_cases: "pool_step x y"

definition pool_init :: "nat \<Rightarrow> rt_memory_pool \<Rightarrow> bool" where
  "pool_init n p \<longleftrightarrow> n < 2 ^ 48 \<and> pool_resize n pool_new = Some p"

definition pool_inv :: "pool_state \<Rightarrow> bool" where
  "pool_inv x \<longleftrightarrow> (\<exists>ext L. pool_rep ext L (snd x) (fst x))"

lemma fl_reset_value: "get_value fl_reset = pool_sentinel"
  unfolding fl_reset_def by (rule get_value_fits) (simp add: unat_sentinel)

lemma pool_init_inv:
  assumes "pool_init n p"
  shows "pool_inv (p, {})"
proof -
  have p: "rp_buckets p = replicate 128 fl_reset" "rp_bitset p = replicate 4 \<lparr> bs_bits = 0, bs_tag = 0 \<rparr>" "rp_index p = 0" "rp_size p < 2 ^ 48"
    using assms by (auto simp: pool_init_def pool_resize_def pool_reset_def pool_check_def pool_new_def pool_consts max_pool_size_def)
  have "heads_ok (replicate 128 []) p"
    by (auto simp: heads_ok_def p(1,2) bs_get_def fl_reset_value)
  then have "pool_rep Map.empty (replicate 128 []) {} p"
    using p(3,4) by (simp add: pool_rep_def ext_ok_def free_ok_def)
  then show ?thesis by (auto simp: pool_inv_def)
qed

lemma pool_write_inv:
  assumes r: "pool_rep ext L live p" and w: "\<forall>b. mem b \<noteq> rp_mem p b \<longrightarrow> (\<exists>(a, s) \<in> live. a \<le> b \<and> b < a + s)"
  shows "pool_rep ext L live (p\<lparr> rp_mem := mem \<rparr>)"
proof -
  note d = pool_repD [OF r]
  have "mem b = rp_mem p b" if i: "i < 128" and b: "b \<in> set (L ! i)" for i b
  proof (rule ccontr)
    assume "mem b \<noteq> rp_mem p b"
    then obtain a s where a: "(a, s) \<in> live" "a \<le> b" "b < a + s" using w by blast
    have f: "ext b = Some (bucket_size i)" "(b, s) \<notin> live" using d(2) i b unfolding free_ok_def by blast+
    have l: "0 < s" "s \<le> 65535" "ext a = Some (bucket_size (bucket_of s))" using d(2) a(1) unfolding free_ok_def by blast+
    have "a \<noteq> b" using f(2) a(1) by auto
    moreover have "s \<le> bucket_size (bucket_of s)" by (rule bucket_of(3) [OF l(1,2)])
    ultimately show False using ext_ok_disjoint [OF d(1) l(3) f(1)] ext_okD [OF d(1) f(1)] a(2,3) by linarith
  qed
  then have "heads_ok L (p\<lparr> rp_mem := mem \<rparr>)"
    using d(3) chain_cong [where mem' = mem and mem = "rp_mem p"] by (simp add: heads_ok_def)
  then show ?thesis using d by (simp add: pool_rep_def)
qed

lemma pool_step_inv:
  assumes "pool_step x y" and "pool_inv x"
  shows "pool_inv y"
  using assms
proof (induction rule: pool_step.induct)
  case (allocate sz p a p' live)
  then obtain ext L where "pool_rep ext L live p" by (auto simp: pool_inv_def)
  from pool_allocate_ok [OF this, of sz] allocate.hyps show ?case by (auto simp: pool_inv_def)
next
  case (allocate_other sz p r p' live)
  then obtain ext L where "pool_rep ext L live p" by (auto simp: pool_inv_def)
  from pool_allocate_ok [OF this, of sz] allocate_other.hyps obtain ext' L' where
    "case r of Some (InPool a) \<Rightarrow> pool_rep ext' L' (insert (a, sz) live) p' \<and> (\<forall>s. (a, s) \<notin> live) | _ \<Rightarrow> pool_rep ext' L' live p'" by auto
  then have "pool_rep ext' L' live p'" using allocate_other.hyps(2) by (cases r rule: option.exhaust; cases "the r") auto
  then show ?case by (auto simp: pool_inv_def)
next
  case (free a sz live p p')
  then obtain ext L where "pool_rep ext L live p" by (auto simp: pool_inv_def)
  from pool_free_ok [OF this free.hyps(1)] free.hyps(2) show ?case by (auto simp: pool_inv_def)
next
  case (free_heap sz p p' live)
  then have "p' = p\<lparr> rp_num_blocks := rp_num_blocks p - 1, rp_num_bytes := rp_num_bytes p - int sz \<rparr>"
    by (cases p) (auto simp: pool_deallocate_def Let_def split: if_splits)
  then show ?case using free_heap.prems by (simp add: pool_inv_def pool_rep_fields)
next
  case (modify mem p live)
  then obtain ext L where "pool_rep ext L live p" by (auto simp: pool_inv_def)
  from pool_write_inv [OF this modify.hyps] show ?case by (auto simp: pool_inv_def)
qed

lemma pool_run_inv:
  assumes "pool_step\<^sup>*\<^sup>* (p0, {}) (p, live)" and "pool_init n p0"
  shows "\<exists>ext L. pool_rep ext L live p"
proof -
  have "pool_inv y" if "pool_step\<^sup>*\<^sup>* (p0, {}) y" for y
    using that by (induction rule: rtranclp_induct) (auto intro: pool_step_inv pool_init_inv [OF assms(2)])
  from this [OF assms(1)] show ?thesis by (simp add: pool_inv_def)
qed

subsection \<open>An example\<close>

definition ex_pool :: rt_memory_pool where
  "ex_pool = the (pool_resize 1000 pool_new)"

lemma ex_pool_init: "pool_init 1000 ex_pool"
  by (simp add: pool_init_def ex_pool_def pool_resize_def pool_reset_def pool_check_def pool_new_def)

lemma ex_pool_fields: "rp_index ex_pool = 0" "rp_size ex_pool = 1000" "rp_buckets ex_pool = replicate 128 fl_reset"
  by (simp_all add: ex_pool_def pool_resize_def pool_reset_def pool_check_def pool_new_def pool_consts max_pool_size_def)

definition ex_pool2 :: rt_memory_pool where
  "ex_pool2 = ex_pool\<lparr> rp_num_blocks := rp_num_blocks ex_pool + 1, rp_num_bytes := rp_num_bytes ex_pool + 100, rp_index := 128 \<rparr>"

lemma first_use:
  assumes r: "pool_rep ext L live p" and s: "0 < sz" "sz \<le> 65535" and e: "get_value (rp_buckets p ! bucket_of sz) = pool_sentinel"
    and i: "bucket_size (bucket_of sz) \<le> rp_size p - rp_index p"
  shows "pool_allocate sz p = Some (Some (InPool (rp_index p)),
    p\<lparr> rp_num_blocks := rp_num_blocks p + 1, rp_num_bytes := rp_num_bytes p + int sz, rp_index := rp_index p + bucket_size (bucket_of sz) \<rparr>)"
proof -
  let ?p = "p\<lparr> rp_num_blocks := rp_num_blocks p + 1, rp_num_bytes := rp_num_bytes p + int sz \<rparr>"
  have r': "pool_rep ext L live ?p" using r by (simp only: pool_rep_fields)
  note h = pool_repD(3) [OF r'] and b = bucket_of [OF s]
  have "pop_free (bucket_of sz) ?p = Some (None, ?p)" using heads_okD(1) [OF h] b(2) e by (simp add: pop_free_def fl_pop_def)
  then have "find_free_block sz ?p = Some (None, ?p)"
    using find_matching_fails [OF h] b(1,2) heads_okD(1) [OF h] by (simp add: find_free_block_def)
  then show ?thesis using s b(5) i by (simp add: pool_allocate_def Let_def pool_consts linear_allocate_def)
qed

lemma ex_buckets: "bucket_of 100 = 1" "bucket_of 50 = 0"
  using size_to_index_small [of 100] size_to_index_small [of 50] by (simp_all add: bucket_of_def)

lemma ex_pool_allocate: "pool_allocate 100 ex_pool = Some (Some (InPool 0), ex_pool2)"
proof -
  obtain ext L where r: "pool_rep ext L {} ex_pool" using pool_init_inv [OF ex_pool_init] by (auto simp: pool_inv_def)
  from first_use [OF r, of 100] show ?thesis
    by (simp add: ex_buckets ex_pool_fields fl_reset_value bucket_size_small ex_pool2_def)
qed

lemma ex_pool_run: "pool_step\<^sup>*\<^sup>* (ex_pool, {}) (ex_pool2, {(0, 100)})"
  using pool_step.allocate [OF ex_pool_allocate, of "{}"] by blast

subsection \<open>Properties\<close>

text \<open>
  C28. Every size up to the limit has a bucket; its blocks are large enough, those of the bucket before it are not larger
  than the request, and a block that is freshly cut has exactly the size of the bucket it is given back to.
\<close>

theorem pool_size_classes:
  assumes "0 < sz" and "sz \<le> large_alloc_limit"
  shows "\<exists>i. size_to_index (word_of_nat sz) = Some i \<and> i < bucket_count \<and> sz \<le> bucket_size i \<and>
    (0 < i \<longrightarrow> bucket_size (i - 1) \<le> sz) \<and> get_alloc_size sz = Some (bucket_size i)"
  using bucket_of [of sz] assms by (auto simp: pool_consts)

theorem pool_size_classes_witness:
  "\<exists>i. size_to_index (word_of_nat 5000) = Some i \<and> i < bucket_count \<and> 5000 \<le> bucket_size i \<and>
    bucket_size (i - 1) \<le> 5000 \<and> get_alloc_size 5000 = Some (bucket_size i)"
proof -
  obtain i where i: "size_to_index (word_of_nat 5000) = Some i" "i < bucket_count" "5000 \<le> bucket_size i"
    "0 < i \<longrightarrow> bucket_size (i - 1) \<le> 5000" "get_alloc_size 5000 = Some (bucket_size i)"
    using pool_size_classes [of 5000] by (auto simp: large_alloc_limit_def)
  have "0 < i" using i(3) bucket_size_small [of 0] by (cases i) auto
  then show ?thesis using i by blast
qed

text \<open>
  Where only 32-bit integers are lock-free, an offset keeps 16 bits: a block beyond the first 64 KB of the arena is
  read back as a block at its start.
\<close>

lemma offset_truncated: "get_value (tagged_new t (0x10000 :: u32)) = 0"
  by (simp add: get_value_new take_bit_eq_mod)

text \<open>
  C18. Two blocks of the memory pool that are in use never overlap, each has at least the size that was asked
  for, and all of them are inside of the arena, however blocks are allocated, written to and given back.
\<close>

theorem pool_blocks_disjoint:
  assumes "pool_init n p0" and "pool_step\<^sup>*\<^sup>* (p0, {}) (p, live)" and "(a, s) \<in> live" and "(b, t) \<in> live" and "(a, s) \<noteq> (b, t)"
  shows "(a + s \<le> b \<or> b + t \<le> a) \<and> a + s \<le> rp_size p"
proof -
  obtain ext L where r: "pool_rep ext L live p" using pool_run_inv [OF assms(2,1)] by blast
  note d = pool_repD [OF r]
  have l: "0 < s" "s \<le> 65535" "ext a = Some (bucket_size (bucket_of s))" "0 < t" "t \<le> 65535" "ext b = Some (bucket_size (bucket_of t))"
    using d(2) assms(3,4) unfolding free_ok_def by blast+
  have "a \<noteq> b" using d(2) assms(3-5) unfolding free_ok_def by blast
  then show ?thesis
    using ext_ok_disjoint [OF d(1) l(3,6)] ext_okD [OF d(1) l(3)] bucket_of(3) [OF l(1,2)] bucket_of(3) [OF l(4,5)] d(4) by auto
qed

definition ex_pool3 :: rt_memory_pool where
  "ex_pool3 = ex_pool2\<lparr> rp_num_blocks := rp_num_blocks ex_pool2 + 1, rp_num_bytes := rp_num_bytes ex_pool2 + 50, rp_index := 192 \<rparr>"

lemma ex_pool_allocate2: "pool_allocate 50 ex_pool2 = Some (Some (InPool 128), ex_pool3)"
proof -
  obtain ext L where r: "pool_rep ext L {(0, 100)} ex_pool2" using pool_run_inv [OF ex_pool_run ex_pool_init] by blast
  from first_use [OF r, of 50] show ?thesis
    by (simp add: ex_buckets ex_pool_fields fl_reset_value bucket_size_small ex_pool2_def ex_pool3_def)
qed

theorem pool_blocks_disjoint_witness: "(0 + 100 \<le> (128::nat) \<or> 128 + 50 \<le> (0::nat)) \<and> 0 + 100 \<le> rp_size ex_pool3"
proof (rule pool_blocks_disjoint [OF ex_pool_init])
  show "pool_step\<^sup>*\<^sup>* (ex_pool, {}) (ex_pool3, {(128, 50), (0, 100)})"
    using ex_pool_run pool_step.allocate [OF ex_pool_allocate2, of "{(0, 100)}"] by (rule rtranclp.rtrancl_into_rtrancl)
qed simp_all

text \<open>
  C19. No operation of the memory pool fails an assertion or leaves its arrays: allocating any size, and giving
  back any block that is in use.
\<close>

theorem pool_never_faults:
  assumes "pool_init n p0" and "pool_step\<^sup>*\<^sup>* (p0, {}) (p, live)"
  shows "pool_allocate sz p \<noteq> None \<and> (\<forall>(a, s) \<in> live. pool_deallocate (Some (InPool a)) s p \<noteq> None)"
proof -
  obtain ext L where r: "pool_rep ext L live p" using pool_run_inv [OF assms(2,1)] by blast
  show ?thesis using pool_allocate_ok [OF r, of sz] pool_free_ok [OF r] by fastforce
qed

theorem pool_never_faults_witness:
  "pool_allocate 4097 ex_pool2 \<noteq> None \<and> pool_deallocate (Some (InPool 0)) 100 ex_pool2 \<noteq> None"
  using pool_never_faults [OF ex_pool_init ex_pool_run] by simp

text \<open>
  C29. Memory that was given back is used again: the next request for a size of the same bucket gets the same block.
\<close>

theorem pool_reuses_block:
  assumes "pool_init n p0" and "pool_step\<^sup>*\<^sup>* (p0, {}) (p, live)" and "(a, s) \<in> live" and "0 < t" and "t \<le> 65535"
    and "size_to_index (word_of_nat t) = size_to_index (word_of_nat s)" and "pool_deallocate (Some (InPool a)) s p = Some p'"
  shows "\<exists>p''. pool_allocate t p' = Some (Some (InPool a), p'')"
proof -
  obtain ext L where r: "pool_rep ext L live p" using pool_run_inv [OF assms(2,1)] by blast
  note d = pool_repD [OF r]
  have s: "0 < s" "s \<le> 65535" using d(2) assms(3) unfolding free_ok_def by blast+
  have b: "bucket_of t = bucket_of s" using assms(6) by (simp add: bucket_of_def)
  let ?L = "L[bucket_of s := a # L ! bucket_of s]"
  let ?p = "p'\<lparr> rp_num_blocks := rp_num_blocks p' + 1, rp_num_bytes := rp_num_bytes p' + int t \<rparr>"
  have "pool_rep ext ?L (live - {(a, s)}) p'" using pool_free_ok [OF r assms(3)] assms(7) by auto
  then have "pool_rep ext ?L (live - {(a, s)}) ?p" by (simp only: pool_rep_fields)
  from find_free_block_ok [OF this assms(4,5)] obtain ptr p1 where f: "find_free_block t ?p = Some (ptr, p1)"
    "\<forall>c cs. ?L ! bucket_of t = c # cs \<longrightarrow> ptr = Some c" by blast
  have "?L ! bucket_of t = a # L ! bucket_of s" using d(6) bucket_of(2) [OF s] by (simp add: b)
  then have "ptr = Some a" using f(2) by blast
  then show ?thesis using f(1) assms(4,5) by (auto simp: pool_allocate_def Let_def pool_consts)
qed

theorem pool_reuses_block_witness:
  "\<exists>p' p''. pool_deallocate (Some (InPool 0)) 100 ex_pool2 = Some p' \<and> pool_allocate 65 p' = Some (Some (InPool 0), p'')"
proof -
  obtain ext L where r: "pool_rep ext L {(0, 100)} ex_pool2" using pool_run_inv [OF ex_pool_run ex_pool_init] by blast
  obtain p' where p': "pool_deallocate (Some (InPool 0)) 100 ex_pool2 = Some p'" using pool_free_ok [OF r, of 0 100] by auto
  have "size_to_index (word_of_nat 65) = size_to_index (word_of_nat 100)" using size_to_index_small [of 65] size_to_index_small [of 100] by simp
  from pool_reuses_block [OF ex_pool_init ex_pool_run _ _ _ this p'] p' show ?thesis by auto
qed

text \<open>
  C39. The search for a larger block never finds one: the bit of a bucket is set when the bucket is empty, so
  that blocks are never split and memory of one size is not available for others.
\<close>

theorem pool_never_splits:
  assumes "pool_init n p0" and "pool_step\<^sup>*\<^sup>* (p0, {}) (p, live)"
  shows "find_matching_block i p = Some (None, p)"
proof -
  obtain ext L where r: "pool_rep ext L live p" using pool_run_inv [OF assms(2,1)] by blast
  show ?thesis by (rule find_matching_fails [OF pool_repD(3) [OF r]])
qed

theorem pool_never_splits_witness: "find_matching_block 0 ex_pool2 = Some (None, ex_pool2)"
  by (rule pool_never_splits [OF ex_pool_init ex_pool_run])

end
