(* ===== verification/Message_Buffer.thy ===== *)
theory Message_Buffer
  imports Stream_Message
begin

text \<open>
  The buffers of the reliable messages between peers (\<^verbatim>\<open>aoo/src/net/message_buffer.cpp\<close>): messages that
  wait for their acknowledgement, and messages that are put together from their frames. The memory of a
  received message is not initialised, so that its bytes are optional. A failed assertion and an access
  outside of an array or bit set is \<^const>\<open>None\<close>.
\<close>

subsection \<open>Bit sets and memory\<close>

text \<open>\<^verbatim>\<open>std::bitset<256>\<close>: the access operator does not check its index.\<close>

definition frames_size :: nat where "frames_size = 256"

definition bitset_get :: "int \<Rightarrow> bool list \<Rightarrow> bool option" where
  "bitset_get i bs = (if 0 \<le> i \<and> i < int (length bs) then Some (bs ! nat i) else None)"

definition bitset_set :: "int \<Rightarrow> bool \<Rightarrow> bool list \<Rightarrow> bool list option" where
  "bitset_set i v bs = (if 0 \<le> i \<and> i < int (length bs) then Some (bs[nat i := v]) else None)"

definition bitset_none :: "bool list \<Rightarrow> bool" where
  "bitset_none bs \<longleftrightarrow> True \<notin> set bs"

text \<open>The loop that marks the frames of a message.\<close>

definition mark_frames :: "int \<Rightarrow> bool list \<Rightarrow> bool list" where
  "mark_frames n bs = fold (\<lambda>i bs. bs[i := True]) [0..<nat n] bs"

text \<open>Reading \<open>n\<close> bytes, and copying bytes into a block of memory.\<close>

definition slice :: "int \<Rightarrow> int \<Rightarrow> 'a list \<Rightarrow> 'a list option" where
  "slice onset n xs =
     (if 0 \<le> onset \<and> 0 \<le> n \<and> onset + n \<le> int (length xs) then Some (take (nat n) (drop (nat onset) xs)) else None)"

definition mem_copy :: "int \<Rightarrow> byte list \<Rightarrow> byte option list \<Rightarrow> byte option list option" where
  "mem_copy onset bytes mem =
     (if 0 \<le> onset \<and> onset + int (length bytes) \<le> int (length mem)
      then Some (take (nat onset) mem @ map Some bytes @ drop (nat onset + length bytes) mem) else None)"

subsection \<open>Sent messages\<close>

record sent_message =
  tx_type :: int
  tx_data :: "byte list"
  tx_tt :: u64
  tx_sequence :: int
  tx_num_frames :: int
  tx_frame_size :: int
  tx_next_time :: u64
  tx_resend_interval :: real
  tx_frames :: "bool list"

definition AOO_MAX_RESEND_INTERVAL :: real where "AOO_MAX_RESEND_INTERVAL = 1"
definition AOO_RESEND_INTERVAL_BACKOFF :: real where "AOO_RESEND_INTERVAL_BACKOFF = 2"

definition sent_message_new ::
    "int \<Rightarrow> byte list \<Rightarrow> u64 \<Rightarrow> int \<Rightarrow> int \<Rightarrow> int \<Rightarrow> real \<Rightarrow> sent_message option" where
  "sent_message_new type data tt sequence num_frames frame_size resend_interval =
     (if num_frames \<le> int frames_size then
        Some \<lparr> tx_type = type, tx_data = data, tx_tt = tt, tx_sequence = sequence, tx_num_frames = num_frames,
          tx_frame_size = frame_size, tx_next_time = 0, tx_resend_interval = resend_interval,
          tx_frames = mark_frames num_frames (replicate frames_size False) \<rparr>
      else None)"

definition need_resend :: "u64 \<Rightarrow> sent_message \<Rightarrow> bool \<times> sent_message" where
  "need_resend now m =
     (if tx_next_time m = 0 then (False, m\<lparr> tx_next_time := now + from_seconds (tx_resend_interval m) \<rparr>)
      else if now \<ge> tx_next_time m then
        let interval = tx_resend_interval m * AOO_RESEND_INTERVAL_BACKOFF;
            interval = (if interval > AOO_MAX_RESEND_INTERVAL then AOO_MAX_RESEND_INTERVAL else interval)
        in (True, m\<lparr> tx_resend_interval := interval, tx_next_time := tx_next_time m + from_seconds interval \<rparr>)
      else (False, m))"

definition sent_has_frame :: "int \<Rightarrow> sent_message \<Rightarrow> bool option" where
  "sent_has_frame index m = map_option Not (bitset_get index (tx_frames m))"

definition sent_get_frame :: "int \<Rightarrow> sent_message \<Rightarrow> byte list option" where
  "sent_get_frame index m =
     (if tx_num_frames m = 1 then Some (tx_data m)
      else if index = tx_num_frames m - 1 then
        let onset = (index - 1) * tx_frame_size m
        in slice onset (int (length (tx_data m)) - onset) (tx_data m)
      else slice (index * tx_frame_size m) (tx_frame_size m) (tx_data m))"

definition ack_frame :: "int \<Rightarrow> sent_message \<Rightarrow> sent_message option" where
  "ack_frame index m = do {
     fs \<leftarrow> bitset_set index False (tx_frames m);
     Some (m\<lparr> tx_frames := fs \<rparr>) }"

definition ack_all :: "sent_message \<Rightarrow> sent_message" where
  "ack_all m = m\<lparr> tx_frames := replicate frames_size False \<rparr>"

definition sent_complete :: "sent_message \<Rightarrow> bool" where
  "sent_complete m \<longleftrightarrow> bitset_none (tx_frames m)"

text \<open>The list of sent messages; a message is found by its position.\<close>

type_synonym message_send_buffer = "sent_message list"

definition send_push :: "sent_message \<Rightarrow> message_send_buffer \<Rightarrow> message_send_buffer" where
  "send_push m buf = buf @ [m]"

definition send_pop :: "message_send_buffer \<Rightarrow> message_send_buffer" where
  "send_pop buf = tl buf"

fun find_seq :: "('a \<Rightarrow> int) \<Rightarrow> int \<Rightarrow> 'a list \<Rightarrow> nat option" where
  "find_seq f seq [] = None"
| "find_seq f seq (x # xs) = (if f x = seq then Some 0 else map_option Suc (find_seq f seq xs))"

definition send_find :: "int \<Rightarrow> message_send_buffer \<Rightarrow> nat option" where
  "send_find seq buf = find_seq tx_sequence seq buf"

subsection \<open>Received messages\<close>

record received_message =
  rx_sequence :: int
  rx_size :: int
  rx_tt :: u64
  rx_data :: "byte option list option"
  rx_type :: int
  rx_num_frames :: int
  rx_frames :: "bool list"

definition received_message_new :: "int \<Rightarrow> received_message" where
  "received_message_new seq = \<lparr> rx_sequence = seq, rx_size = 0, rx_tt = 0, rx_data = None, rx_type = 0,
     rx_num_frames = 0, rx_frames = replicate frames_size False \<rparr>"

definition rx_init :: "int \<Rightarrow> u64 \<Rightarrow> int \<Rightarrow> int \<Rightarrow> received_message \<Rightarrow> received_message option" where
  "rx_init type tt num_frames sz m =
     (if rx_data m = None \<and> 0 \<le> sz \<and> num_frames \<le> int frames_size then
        Some (m\<lparr> rx_tt := tt, rx_size := sz, rx_data := Some (replicate (nat sz) None), rx_type := type,
          rx_num_frames := num_frames, rx_frames := mark_frames num_frames (rx_frames m) \<rparr>)
      else None)"

definition rx_placeholder :: "received_message \<Rightarrow> bool" where
  "rx_placeholder m \<longleftrightarrow> rx_data m = None"

definition rx_has_frame :: "int \<Rightarrow> received_message \<Rightarrow> bool option" where
  "rx_has_frame index m = (if rx_placeholder m then None else map_option Not (bitset_get index (rx_frames m)))"

definition rx_complete :: "received_message \<Rightarrow> bool" where
  "rx_complete m \<longleftrightarrow> rx_data m \<noteq> None \<and> bitset_none (rx_frames m)"

definition rx_add_frame :: "int \<Rightarrow> byte list \<Rightarrow> received_message \<Rightarrow> received_message option" where
  "rx_add_frame index data m = do {
     mem \<leftarrow> rx_data m;
     if rx_complete m \<or> index \<ge> rx_num_frames m then None
     else do {
       let n = int (length data);
       mem \<leftarrow> mem_copy (if index = rx_num_frames m - 1 then rx_size m - n else index * n) data mem;
       fs \<leftarrow> bitset_set index False (rx_frames m);
       Some (m\<lparr> rx_data := Some mem, rx_frames := fs \<rparr>) } }"

record message_receive_buffer =
  mb_data :: "received_message list"
  mb_last_pushed :: int
  mb_last_popped :: int

definition receive_buffer_init :: message_receive_buffer where
  "receive_buffer_init = \<lparr> mb_data = [], mb_last_pushed = -1, mb_last_popped = -1 \<rparr>"

definition receive_push :: "received_message \<Rightarrow> message_receive_buffer \<Rightarrow> message_receive_buffer" where
  "receive_push m buf = buf\<lparr> mb_data := mb_data buf @ [m], mb_last_pushed := rx_sequence m \<rparr>"

definition receive_pop :: "message_receive_buffer \<Rightarrow> message_receive_buffer" where
  "receive_pop buf = buf\<lparr> mb_last_popped := rx_sequence (hd (mb_data buf)), mb_data := tl (mb_data buf) \<rparr>"

definition receive_find :: "int \<Rightarrow> message_receive_buffer \<Rightarrow> nat option" where
  "receive_find seq buf = find_seq rx_sequence seq (mb_data buf)"

subsection \<open>Lemmas\<close>

lemma fold_mark: "length (fold (\<lambda>i bs. bs[i := True]) is bs) = length bs"
  by (induction "is" arbitrary: bs) auto

lemma mark_frames_length [simp]: "length (mark_frames n bs) = length bs"
  by (simp add: mark_frames_def fold_mark)

lemma fold_mark_nth:
  "j < length bs \<Longrightarrow> fold (\<lambda>i bs. bs[i := True]) is bs ! j = (j \<in> set is \<or> bs ! j)"
proof (induction "is" arbitrary: bs)
  case (Cons a "is")
  then show ?case by (cases "a = j") auto
qed simp

lemma mark_frames_nth: "j < length bs \<Longrightarrow> mark_frames n bs ! j = (int j < n \<or> bs ! j)"
  by (auto simp: mark_frames_def fold_mark_nth)

lemma bitset_none_iff: "bitset_none bs \<longleftrightarrow> (\<forall>i < length bs. \<not> bs ! i)"
  by (auto simp: bitset_none_def in_set_conv_nth)

lemma find_seq_None: "find_seq f seq xs = None \<longleftrightarrow> (\<forall>x \<in> set xs. f x \<noteq> seq)"
  by (induction xs) auto

lemma find_seq_Some: "find_seq f seq xs = Some i \<Longrightarrow> i < length xs \<and> f (xs ! i) = seq"
  by (induction xs arbitrary: i) (auto split: if_splits)

text \<open>A list with consecutive sequence numbers.\<close>

lemma find_seq_run:
  assumes "\<forall>i < length xs. f (xs ! i) = a + int i" and "a \<le> seq" and "seq < a + int (length xs)"
  shows "find_seq f seq xs = Some (nat (seq - a))"
  using assms
proof (induction xs arbitrary: a)
  case (Cons x xs)
  have x: "f x = a" using Cons.prems(1) by force
  have "\<forall>i < length xs. f (xs ! i) = a + 1 + int i" using Cons.prems(1) by force
  from Cons.IH [OF this] x Cons.prems(2,3) show ?case
    by (cases "seq = a") (auto simp: Suc_nat_eq_nat_zadd1)
qed simp

lemma mem_copy_nth:
  assumes "mem_copy onset bytes mem = Some mem'"
  shows "length mem' = length mem \<and> (\<forall>j < length mem. mem' ! j =
    (if onset \<le> int j \<and> int j < onset + int (length bytes) then Some (bytes ! (j - nat onset)) else mem ! j))"
  using assms by (auto simp: mem_copy_def nth_append nat_le_iff nat_less_iff split: if_splits)

text \<open>
  The memory of a message whose received frames have been written: byte \<open>j\<close> belongs to frame
  \<open>j div fs\<close>.
\<close>

definition filled :: "int \<Rightarrow> byte list \<Rightarrow> bool list \<Rightarrow> byte option list \<Rightarrow> bool" where
  "filled fs data missing mem \<longleftrightarrow> length mem = length data \<and>
     (\<forall>j < length data. \<not> missing ! (j div nat fs) \<longrightarrow> mem ! j = Some (data ! j))"

lemma filled_all:
  assumes "filled fs data missing mem" and "bitset_none missing" and "\<forall>j < length data. j div nat fs < length missing"
  shows "mem = map Some data"
proof (rule nth_equalityI)
  show "length mem = length (map Some data)" using assms(1) by (simp add: filled_def)
next
  fix j assume "j < length mem"
  then show "mem ! j = map Some data ! j"
    using assms by (auto simp: filled_def bitset_none_iff)
qed

end
