(* ===== verification/Peer.thy ===== *)
theory Peer
  imports Message_Buffer Bin_Msg "HOL-Library.Signed_Division"
begin

text \<open>
  A peer of a client (\<^verbatim>\<open>aoo/src/net/peer.cpp\<close>): the handshake with its fallback to a relay, pings, and the
  messages between peers with their acknowledgements. An OSC message is the list of its arguments (the
  encoding is that of the oscpack library); binary messages are bytes. The current time is an argument where
  the code asks the clock. What an operation sends and the events it raises are part of its result.
\<close>

subsection \<open>The ping timer\<close>

datatype ping_state = ping_regular | ping_probe | ping_inactive

record AooPingSettings =
  ps_interval :: real
  ps_probeTime :: real
  ps_probeInterval :: real
  ps_probeCount :: int

record ping_timer =
  pt_next_ping :: u64
  pt_deadline :: u64
  pt_probe_count :: int
  pt_state :: ping_state
  pt_reset :: bool
  pt_pong :: bool

definition to_seconds :: "u64 \<Rightarrow> real" where
  "to_seconds v = of_nat (unat (drop_bit 32 v)) + of_nat (unat (v AND 0xFFFFFFFF)) / 4294967296"

definition duration :: "u64 \<Rightarrow> u64 \<Rightarrow> real" where
  "duration t1 t2 = (if t2 \<ge> t1 then to_seconds (t2 - t1) else to_seconds (t1 - t2) * - 1)"

text \<open>The state of the timer; \<^const>\<open>None\<close> when it is inactive and not asked to go on pinging.\<close>

definition timer_phase :: "u64 \<Rightarrow> AooPingSettings \<Rightarrow> bool \<Rightarrow> ping_timer \<Rightarrow> ping_timer option" where
  "timer_phase now settings ping_when_inactive t =
     (if pt_reset t then
        Some (t\<lparr> pt_reset := False, pt_next_ping := now, pt_deadline := now + from_seconds (ps_probeTime settings),
          pt_probe_count := 0, pt_state := ping_regular \<rparr>)
      else if pt_pong t then
        Some (t\<lparr> pt_pong := False, pt_deadline := now + from_seconds (ps_probeTime settings), pt_state := ping_regular \<rparr>)
      else if pt_state t = ping_regular \<and> now \<ge> pt_deadline t then
        Some (t\<lparr> pt_state := ping_probe, pt_next_ping := now \<rparr>)
      else if \<not> ping_when_inactive \<and> pt_state t = ping_inactive then None
      else Some t)"

text \<open>
  \<^verbatim>\<open>ping_timer::update\<close>: the state, whether to send a ping, how long to wait, and the timer.
\<close>

definition timer_update ::
    "u64 \<Rightarrow> AooPingSettings \<Rightarrow> bool \<Rightarrow> ping_timer \<Rightarrow> (ping_state \<times> bool \<times> real) \<times> ping_timer" where
  "timer_update now settings ping_when_inactive t =
     (case timer_phase now settings ping_when_inactive t of
        None \<Rightarrow> ((ping_inactive, False, -1), t)
      | Some t \<Rightarrow>
          let finish = (\<lambda>ping t. ((pt_state t, ping, max 0 (duration now (pt_next_ping t))), t));
              go_on = (\<lambda>interval t. finish True (t\<lparr> pt_next_ping := pt_next_ping t + from_seconds interval \<rparr>))
          in if now \<ge> pt_next_ping t then
               if pt_state t = ping_probe then
                 let t = t\<lparr> pt_probe_count := pt_probe_count t + 1 \<rparr>
                 in if pt_probe_count t > ps_probeCount settings then
                      let t = t\<lparr> pt_state := ping_inactive \<rparr>
                      in if ping_when_inactive then go_on (ps_interval settings) t
                         else ((ping_inactive, False, -1), t)
                    else go_on (ps_probeInterval settings) t
               else go_on (ps_interval settings) t
             else finish False t)"

subsection \<open>Data\<close>

definition kAooPeerNeedRelay :: u32 where "kAooPeerNeedRelay = 1"
definition kAooMessageReliable :: u32 where "kAooMessageReliable = 1"
definition kAooBinMsgMessageReliable :: u32 where "kAooBinMsgMessageReliable = 1"
definition kAooBinMsgMessageFrames :: u32 where "kAooBinMsgMessageFrames = 2"
definition kAooBinMsgMessageTimestamp :: u32 where "kAooBinMsgMessageTimestamp = 4"
definition kAooBinMsgCmdMessage :: int where "kAooBinMsgCmdMessage = 0"
definition kAooBinMsgCmdAck :: int where "kAooBinMsgCmdAck = 1"
definition kMessageHeaderSize :: int where "kMessageHeaderSize = 4 + 5 + 16 + 5 + 56"
definition kBinMessageHeaderSize :: int where "kBinMessageHeaderSize = 12 + 28"
definition AOO_CLIENT_MIN_RESEND_TIME :: real where "AOO_CLIENT_MIN_RESEND_TIME = 2 / 100"

lemmas peer_const_defs = kAooPeerNeedRelay_def kAooMessageReliable_def kAooBinMsgMessageReliable_def
  kAooBinMsgMessageFrames_def kAooBinMsgMessageTimestamp_def kAooBinMsgCmdMessage_def kAooBinMsgCmdAck_def
  kMessageHeaderSize_def kBinMessageHeaderSize_def

record message =
  pm_group :: int
  pm_user :: int
  pm_tt :: u64
  pm_type :: int
  pm_data :: "byte list"
  pm_reliable :: bool

record message_packet =
  mp_type :: int
  mp_data :: "byte list"
  mp_tt :: u64
  mp_sequence :: int
  mp_total_size :: int
  mp_num_frames :: int
  mp_frame_index :: int
  mp_reliable :: bool

record message_ack =
  ma_sequence :: int
  ma_frame_index :: int

text \<open>The arguments of the OSC messages between peers; \<^const>\<open>None\<close> is a nil argument.\<close>

datatype peer_osc =
    OscPing int int "u64 option"
  | OscPong int int "(u64 \<times> u64 \<times> u64) option"
  | OscAck int int "(int \<times> int) list"
  | OscMessage int int u32 int int "(int \<times> int) option" "u64 option" int "byte list"

datatype datagram =
    Binary "byte list"
  | Osc peer_osc
  | RelayMessage bool ip_address datagram

datatype peer_event =
    PeerTimeout
  | PeerJoin
  | PeerState bool
  | PeerPing u64 u64 u64 u64
  | PeerMessage u64 int "byte option list"

text \<open>
  The version string, the metadata and the relays of the user are only handed on to the application and left out.
\<close>

record peer =
  pe_group_name :: string
  pe_user_name :: string
  pe_group_id :: int
  pe_user_id :: int
  pe_local_id :: int
  pe_flags :: u32
  pe_address_family :: ip_type
  pe_binary :: bool
  pe_use_ipv4_mapped :: bool
  pe_timeout :: bool
  pe_active :: bool
  pe_addrlist :: "ip_address list"
  pe_relay_list :: "ip_address list"
  pe_real_address :: ip_address
  pe_relay_address :: ip_address
  pe_ping_timer :: ping_timer
  pe_next_handshake :: u64
  pe_handshake_deadline :: u64
  pe_ping_tt1 :: u64
  pe_ping_tt2 :: u64
  pe_average_rtt :: real
  pe_connected :: bool
  pe_got_ping :: bool
  pe_binary_ack :: bool
  pe_next_sequence_reliable :: int
  pe_next_sequence_unreliable :: int
  pe_send_buffer :: message_send_buffer
  pe_receive_buffer :: message_receive_buffer
  pe_current_msg :: received_message
  pe_send_acks :: "message_ack list"
  pe_received_acks :: "message_ack list"
  pe_events :: "peer_event list"

type_synonym sends = "(datagram \<times> ip_address) list"

definition peer_event :: "peer_event \<Rightarrow> peer \<Rightarrow> peer" where
  "peer_event e p = p\<lparr> pe_events := pe_events p @ [e] \<rparr>"

text \<open>The constructors.\<close>

definition ping_timer_new :: ping_timer where
  "ping_timer_new = \<lparr> pt_next_ping = 0, pt_deadline = 0, pt_probe_count = 0, pt_state = ping_regular,
     pt_reset = True, pt_pong = False \<rparr>"

record peer_args =
  pa_group_name :: string
  pa_user_name :: string
  pa_group_id :: int
  pa_user_id :: int
  pa_local_id :: int
  pa_flags :: u32
  pa_address_family :: ip_type
  pa_use_ipv4_mapped :: bool
  pa_binary :: bool
  pa_address_list :: "ip_address list"
  pa_relay_list :: "ip_address list"

definition peer_new :: "peer_args \<Rightarrow> peer" where
  "peer_new args = \<lparr> pe_group_name = pa_group_name args, pe_user_name = pa_user_name args,
     pe_group_id = pa_group_id args, pe_user_id = pa_user_id args, pe_local_id = pa_local_id args,
     pe_flags = pa_flags args, pe_address_family = pa_address_family args, pe_binary = pa_binary args,
     pe_use_ipv4_mapped = pa_use_ipv4_mapped args, pe_timeout = False, pe_active = True,
     pe_addrlist = pa_address_list args, pe_relay_list = pa_relay_list args, pe_real_address = ip_clear,
     pe_relay_address = ip_clear, pe_ping_timer = ping_timer_new, pe_next_handshake = 0, pe_handshake_deadline = 0,
     pe_ping_tt1 = 0, pe_ping_tt2 = 0, pe_average_rtt = 0, pe_connected = False, pe_got_ping = False,
     pe_binary_ack = False, pe_next_sequence_reliable = 0, pe_next_sequence_unreliable = 0, pe_send_buffer = [],
     pe_receive_buffer = receive_buffer_init, pe_current_msg = received_message_new kAooIdInvalid,
     pe_send_acks = [], pe_received_acks = [], pe_events = [] \<rparr>"

subsection \<open>Matching and sending\<close>

definition match_address :: "ip_address \<Rightarrow> peer \<Rightarrow> bool" where
  "match_address addr p \<longleftrightarrow> pe_connected p \<and> ip_equal (pe_real_address p) addr"

definition match_group_name :: "string \<Rightarrow> peer \<Rightarrow> bool" where
  "match_group_name grp p \<longleftrightarrow> pe_group_name p = grp"

definition match_names :: "string \<Rightarrow> string \<Rightarrow> peer \<Rightarrow> bool" where
  "match_names grp user p \<longleftrightarrow> pe_group_name p = grp \<and> pe_user_name p = user"

definition match_group :: "int \<Rightarrow> peer \<Rightarrow> bool" where
  "match_group grp p \<longleftrightarrow> pe_group_id p = grp"

definition match_ids :: "int \<Rightarrow> int \<Rightarrow> peer \<Rightarrow> bool" where
  "match_ids grp user p \<longleftrightarrow> pe_group_id p = grp \<and> pe_user_id p = user"

definition peer_address :: "peer \<Rightarrow> ip_address" where
  "peer_address p = (if pe_connected p then pe_real_address p else ip_clear)"

definition match_wildcard :: "int \<Rightarrow> int \<Rightarrow> peer \<Rightarrow> bool" where
  "match_wildcard grp user p \<longleftrightarrow> (pe_group_id p = grp \<or> grp = kAooIdInvalid) \<and>
     (pe_user_id p = user \<or> user = kAooIdInvalid)"

definition need_relay :: "peer \<Rightarrow> bool" where
  "need_relay p \<longleftrightarrow> pe_flags p AND kAooPeerNeedRelay \<noteq> 0"

text \<open>A datagram for the relay is marked with its receiver. One that does not fit into a packet together with the
  relay header is replaced by an empty one; here this is one of the losses of the network.\<close>

definition peer_send_to :: "datagram \<Rightarrow> ip_address \<Rightarrow> peer \<Rightarrow> datagram \<times> ip_address" where
  "peer_send_to d addr p =
     (if need_relay p then (RelayMessage (pe_binary p) addr d, pe_relay_address p) else (d, addr))"

definition peer_send_out :: "datagram \<Rightarrow> peer \<Rightarrow> datagram \<times> ip_address" where
  "peer_send_out d p = peer_send_to d (pe_real_address p) p"

subsection \<open>Packets\<close>

definition send_packet_osc :: "message_packet \<Rightarrow> peer \<Rightarrow> datagram" where
  "send_packet_osc m p = Osc (OscMessage (pe_group_id p) (pe_local_id p)
     (if mp_reliable m then kAooMessageReliable else 0) (mp_sequence m) (mp_total_size m)
     (if mp_num_frames m > 1 then Some (mp_num_frames m, mp_frame_index m) else None)
     (if mp_tt m \<noteq> 0 then Some (mp_tt m) else None) (mp_type m) (mp_data m))"

definition packet_flags :: "message_packet \<Rightarrow> u32" where
  "packet_flags m =
     (let flags = 0;
          flags = (if mp_reliable m then flags OR kAooBinMsgMessageReliable else flags);
          flags = (if mp_num_frames m > 1 then flags OR kAooBinMsgMessageFrames else flags)
      in if mp_tt m \<noteq> 0 then flags OR kAooBinMsgMessageTimestamp else flags)"

definition peer_send_packet_bin :: "message_packet \<Rightarrow> peer \<Rightarrow> byte list option" where
  "peer_send_packet_bin m p =
     (let flags = packet_flags m;
          (offset, buf) = binmsg_write_header (replicate AOO_MAX_PACKET_SIZE 0) kAooMsgTypePeer
            kAooBinMsgCmdMessage (pe_group_id p) (pe_local_id p);
          it = (take offset buf, drop offset buf);
          it = write_bytes (word_of_int (mp_sequence m) :: u32) it;
          it = write_bytes (ucast flags :: u16) it;
          it = write_bytes (word_of_nat (length (mp_data m)) :: u16) it;
          it = (if flags AND kAooBinMsgMessageFrames \<noteq> 0 then
                  write_bytes (word_of_int (mp_frame_index m) :: u32)
                    (write_bytes (word_of_int (mp_num_frames m) :: u32)
                      (write_bytes (word_of_int (mp_total_size m) :: u32) it)) else it);
          it = (if flags AND kAooBinMsgMessageTimestamp \<noteq> 0 then write_bytes (mp_tt m) it else it);
          it = write_bytes (word_of_int (mp_type m) :: u32) it
      in if length (snd it) \<ge> length (mp_data m) then Some (fst it @ mp_data m) else None)"

definition peer_send_packet :: "bool \<Rightarrow> message_packet \<Rightarrow> peer \<Rightarrow> (datagram \<times> ip_address) option" where
  "peer_send_packet binary m p = do {
     d \<leftarrow> (if binary then map_option Binary (peer_send_packet_bin m p) else Some (send_packet_osc m p));
     Some (peer_send_out d p) }"

fun peer_send_packets :: "bool \<Rightarrow> message_packet list \<Rightarrow> peer \<Rightarrow> sends option" where
  "peer_send_packets binary [] p = Some []"
| "peer_send_packets binary (m # ms) p = do {
     x \<leftarrow> peer_send_packet binary m p;
     xs \<leftarrow> peer_send_packets binary ms p;
     Some (x # xs) }"

subsection \<open>Sending messages\<close>

definition packet_of :: "message \<Rightarrow> int \<Rightarrow> int \<Rightarrow> message_packet" where
  "packet_of m num_frames seq =
     \<lparr> mp_type = pm_type m, mp_data = [], mp_tt = pm_tt m, mp_sequence = seq,
       mp_total_size = int (length (pm_data m)), mp_num_frames = num_frames, mp_frame_index = 0,
       mp_reliable = pm_reliable m \<rparr>"

text \<open>The packets of a message: frames of \<open>maxsize\<close> bytes, the last one with the remainder.\<close>

definition message_frame :: "message \<Rightarrow> int \<Rightarrow> int \<Rightarrow> int \<Rightarrow> int \<Rightarrow> byte list option" where
  "message_frame m maxsize rm num_frames i =
     (if i = num_frames - 1 then slice (int (length (pm_data m)) - rm) rm (pm_data m)
      else slice (i * maxsize) maxsize (pm_data m))"

fun message_frames :: "message \<Rightarrow> int \<Rightarrow> int \<Rightarrow> message_packet \<Rightarrow> int list \<Rightarrow> message_packet list option" where
  "message_frames m maxsize rm pk [] = Some []"
| "message_frames m maxsize rm pk (i # is) = do {
     bytes \<leftarrow> message_frame m maxsize rm (mp_num_frames pk) i;
     rest \<leftarrow> message_frames m maxsize rm pk is;
     Some (pk\<lparr> mp_frame_index := i, mp_data := bytes \<rparr> # rest) }"

definition to_int32 :: "int \<Rightarrow> int" where
  "to_int32 i = sint (word_of_int i :: u32)"

definition send_message :: "message \<Rightarrow> int \<Rightarrow> bool \<Rightarrow> peer \<Rightarrow> (sends \<times> peer) option" where
  "send_message m packet_size binary p =
     (let maxsize = packet_size - (if binary then kBinMessageHeaderSize else kMessageHeaderSize);
          n = int (length (pm_data m))
      in if maxsize = 0 \<or> \<not> pe_connected p then None
         else do {
           let quot = n sdiv maxsize;
           let rm = n smod maxsize;
           let num_frames = quot + (if rm \<noteq> 0 then 1 else 0);
           (seq, p) \<leftarrow> (if pm_reliable m then do {
               let seq = pe_next_sequence_reliable p;
               let framesize = (if quot \<noteq> 0 then maxsize else rm);
               let interval = max (pe_average_rtt p * 2) AOO_CLIENT_MIN_RESEND_TIME;
               sm \<leftarrow> sent_message_new (pm_type m) (pm_data m) (pm_tt m) seq num_frames framesize interval;
               Some (seq, p\<lparr> pe_next_sequence_reliable := to_int32 (seq + 1),
                             pe_send_buffer := send_push sm (pe_send_buffer p) \<rparr>) }
             else
               let seq = pe_next_sequence_unreliable p
               in Some (seq, p\<lparr> pe_next_sequence_unreliable := to_int32 (seq + 1) \<rparr>));
           let pk = packet_of m num_frames seq;
           pks \<leftarrow> (if num_frames > 1 then message_frames m maxsize rm pk [0..num_frames - 1]
                    else Some [pk\<lparr> mp_data := pm_data m \<rparr>]);
           out \<leftarrow> peer_send_packets binary pks p;
           Some (out, p) })"

subsection \<open>The send thread\<close>

definition send_pings :: "u64 \<Rightarrow> AooPingSettings \<Rightarrow> peer \<Rightarrow> sends \<times> peer" where
  "send_pings now settings p =
     (let ((state, ping, _), timer) = timer_update now settings True (pe_ping_timer p);
          p = p\<lparr> pe_ping_timer := timer \<rparr>;
          out = (if ping then [peer_send_out (Osc (OscPing (pe_group_id p) (pe_local_id p) (Some now))) p] else []);
          p = (if pe_active p \<and> state = ping_inactive
               then peer_event (PeerState True) (p\<lparr> pe_active := False \<rparr>)
               else if \<not> pe_active p \<and> state \<noteq> ping_inactive
               then peer_event (PeerState False) (p\<lparr> pe_active := True \<rparr>)
               else p)
      in (out, p))"

definition reply_ping :: "u64 \<Rightarrow> peer \<Rightarrow> sends \<times> peer" where
  "reply_ping now p =
     (if pe_got_ping p then
        let p = p\<lparr> pe_got_ping := False \<rparr>;
            args = (if pe_ping_tt1 p \<noteq> 0 then Some (pe_ping_tt1 p, pe_ping_tt2 p, now) else None)
        in ([peer_send_out (Osc (OscPong (pe_group_id p) (pe_local_id p) args)) p], p)
      else ([], p))"

definition send_ack :: "message_ack \<Rightarrow> peer \<Rightarrow> datagram \<times> ip_address" where
  "send_ack ack p =
     (if pe_binary_ack p then
        let (onset, buf) = binmsg_write_header (replicate 64 0) kAooMsgTypePeer kAooBinMsgCmdAck
              (pe_group_id p) (pe_local_id p);
            it = (take onset buf, drop onset buf);
            it = write_bytes (1 :: u32) it;
            it = write_bytes (word_of_int (ma_sequence ack) :: u32) it;
            it = write_bytes (word_of_int (ma_frame_index ack) :: u32) it
        in peer_send_out (Binary (fst it)) p
      else peer_send_out (Osc (OscAck (pe_group_id p) (pe_local_id p) [(ma_sequence ack, ma_frame_index ack)])) p)"

definition flush_acks :: "peer \<Rightarrow> sends \<times> peer" where
  "flush_acks p = (map (\<lambda>ack. send_ack ack p) (pe_send_acks p), p\<lparr> pe_send_acks := [] \<rparr>)"

definition apply_ack :: "message_ack \<Rightarrow> message_send_buffer \<Rightarrow> message_send_buffer option" where
  "apply_ack ack buf =
     (case send_find (ma_sequence ack) buf of
        None \<Rightarrow> Some buf
      | Some i \<Rightarrow>
          if ma_frame_index ack \<ge> 0 then do {
            m \<leftarrow> ack_frame (ma_frame_index ack) (buf ! i);
            Some (buf[i := m]) }
          else Some (buf[i := ack_all (buf ! i)]))"

fun apply_acks :: "message_ack list \<Rightarrow> message_send_buffer \<Rightarrow> message_send_buffer option" where
  "apply_acks [] buf = Some buf"
| "apply_acks (a # as) buf = do { buf \<leftarrow> apply_ack a buf; apply_acks as buf }"

fun pop_acknowledged :: "message_send_buffer \<Rightarrow> message_send_buffer" where
  "pop_acknowledged [] = []"
| "pop_acknowledged (m # ms) = (if sent_complete m then pop_acknowledged ms else m # ms)"

definition peer_resend_packet :: "sent_message \<Rightarrow> int \<Rightarrow> byte list \<Rightarrow> message_packet" where
  "peer_resend_packet m i data =
     \<lparr> mp_type = tx_type m, mp_data = data, mp_tt = tx_tt m, mp_sequence = tx_sequence m,
       mp_total_size = int (length (tx_data m)), mp_num_frames = tx_num_frames m, mp_frame_index = i,
       mp_reliable = True \<rparr>"

fun peer_resend_frames :: "bool \<Rightarrow> sent_message \<Rightarrow> int list \<Rightarrow> peer \<Rightarrow> sends option" where
  "peer_resend_frames binary m [] p = Some []"
| "peer_resend_frames binary m (i # is) p = do {
     acked \<leftarrow> sent_has_frame i m;
     if acked then peer_resend_frames binary m is p
     else do {
       data \<leftarrow> sent_get_frame i m;
       x \<leftarrow> peer_send_packet binary (peer_resend_packet m i data) p;
       xs \<leftarrow> peer_resend_frames binary m is p;
       Some (x # xs) } }"

fun resend_messages :: "bool \<Rightarrow> u64 \<Rightarrow> message_send_buffer \<Rightarrow> peer \<Rightarrow> (sends \<times> message_send_buffer) option" where
  "resend_messages binary now [] p = Some ([], [])"
| "resend_messages binary now (m # ms) p = do {
     let (resend, m) = need_resend now m;
     out \<leftarrow> (if resend then peer_resend_frames binary m [0..tx_num_frames m - 1] p else Some []);
     (rest, ms) \<leftarrow> resend_messages binary now ms p;
     Some (out @ rest, m # ms) }"

definition do_send :: "bool \<Rightarrow> u64 \<Rightarrow> AooPingSettings \<Rightarrow> peer \<Rightarrow> (sends \<times> peer) option" where
  "do_send binary now settings p = do {
     let (out1, p) = send_pings now settings p;
     let (out2, p) = reply_ping now p;
     let (out3, p) = flush_acks p;
     buf \<leftarrow> apply_acks (pe_received_acks p) (pe_send_buffer p);
     let p = p\<lparr> pe_received_acks := [] \<rparr>;
     (out4, buf) \<leftarrow> resend_messages binary now (pop_acknowledged buf) p;
     Some (out1 @ out2 @ out3 @ out4, p\<lparr> pe_send_buffer := buf \<rparr>) }"

text \<open>The addresses for a handshake ping.\<close>

definition handshake_address :: "peer \<Rightarrow> ip_address \<Rightarrow> ip_address list" where
  "handshake_address p addr =
     (if need_relay p then [addr]
      else if pe_address_family p = IPv6 \<and> ip_type_of addr = IPv4 then
        if pe_use_ipv4_mapped p then [ipv4_mapped addr] else []
      else if pe_address_family p = IPv4 \<and> ip_type_of addr = IPv6 then []
      else [addr])"

definition send_handshake :: "peer \<Rightarrow> sends" where
  "send_handshake p =
     map (\<lambda>addr. peer_send_to (Osc (OscPing (pe_group_id p) (pe_local_id p) None)) addr p)
       (concat (map (handshake_address p) (pe_addrlist p)))"

definition handshake :: "u64 \<Rightarrow> AooPingSettings \<Rightarrow> peer \<Rightarrow> sends \<times> peer" where
  "handshake now settings p =
     (let p = (if pe_handshake_deadline p = 0 then
            p\<lparr> pe_handshake_deadline := now + from_seconds (ps_probeInterval settings * of_int (ps_probeCount settings)),
               pe_next_handshake := now \<rparr> else p)
      in if now \<ge> pe_handshake_deadline p then
           if pe_relay_list p \<noteq> [] \<and> \<not> need_relay p then
             ([], p\<lparr> pe_relay_address := hd (pe_relay_list p), pe_flags := pe_flags p OR kAooPeerNeedRelay,
                     pe_handshake_deadline := 0 \<rparr>)
           else ([], (peer_event PeerTimeout p)\<lparr> pe_timeout := True \<rparr>)
         else if now \<ge> pe_next_handshake p then
           let p = p\<lparr> pe_next_handshake := pe_next_handshake p + from_seconds (ps_probeInterval settings) \<rparr>
           in (send_handshake p, p)
         else ([], p))"

definition peer_send :: "bool \<Rightarrow> u64 \<Rightarrow> AooPingSettings \<Rightarrow> peer \<Rightarrow> (sends \<times> peer) option" where
  "peer_send binary now settings p =
     (if pe_connected p then do_send binary now settings p
      else if \<not> pe_timeout p then Some (handshake now settings p)
      else Some ([], p))"

subsection \<open>Receiving\<close>

definition handle_first_ping :: "ip_address \<Rightarrow> peer \<Rightarrow> peer" where
  "handle_first_ping addr p = peer_event PeerJoin (p\<lparr> pe_real_address := addr, pe_connected := True \<rparr>)"

definition handle_ping :: "u64 \<Rightarrow> u64 option \<Rightarrow> ip_address \<Rightarrow> peer \<Rightarrow> peer" where
  "handle_ping now tt addr p =
     (let p = (if \<not> pe_connected p then handle_first_ping addr p else p)
      in p\<lparr> pe_ping_timer := (pe_ping_timer p)\<lparr> pt_pong := True \<rparr>,
            pe_ping_tt1 := (case tt of Some t \<Rightarrow> t | None \<Rightarrow> 0), pe_ping_tt2 := now, pe_got_ping := True \<rparr>)"

definition handle_pong :: "u64 \<Rightarrow> (u64 \<times> u64 \<times> u64) option \<Rightarrow> ip_address \<Rightarrow> peer \<Rightarrow> peer" where
  "handle_pong now args addr p =
     (let p = (if \<not> pe_connected p then handle_first_ping addr p else p);
          p = p\<lparr> pe_ping_timer := (pe_ping_timer p)\<lparr> pt_pong := True \<rparr> \<rparr>
      in case args of
           None \<Rightarrow> p
         | Some (tt1, tt2, tt3) \<Rightarrow>
             let rtt = duration tt1 now - duration tt2 tt3;
                 avg = pe_average_rtt p;
                 p = p\<lparr> pe_average_rtt := (if avg > 0 then avg * (1 / 2) + rtt * (1 - 1 / 2) else rtt) \<rparr>
             in peer_event (PeerPing tt1 tt2 tt3 now) p)"

text \<open>Placeholders for the messages that were skipped.\<close>

definition push_skipped :: "int \<Rightarrow> message_receive_buffer \<Rightarrow> message_receive_buffer" where
  "push_skipped seq buf =
     (let last_pushed = mb_last_pushed buf;
          skipped = (if last_pushed \<ge> 0 then seq - last_pushed - 1 else seq);
          onset = (if last_pushed \<ge> 0 then last_pushed + 1 else 0)
      in fold (\<lambda>i buf. receive_push (received_message_new (onset + i)) buf) [0..skipped - 1] buf)"

text \<open>Storing a packet of a reliable message.\<close>

definition add_new_message :: "message_packet \<Rightarrow> message_receive_buffer \<Rightarrow> message_receive_buffer option" where
  "add_new_message m buf = do {
     let buf = push_skipped (mp_sequence m) buf;
     msg \<leftarrow> rx_init (mp_type m) (mp_tt m) (mp_num_frames m) (mp_total_size m) (received_message_new (mp_sequence m));
     msg \<leftarrow> rx_add_frame (mp_frame_index m) (mp_data m) msg;
     Some (receive_push msg buf) }"

definition add_to_message :: "message_packet \<Rightarrow> received_message \<Rightarrow> received_message option" where
  "add_to_message m msg = do {
     msg \<leftarrow> (if rx_placeholder msg
              then rx_init (mp_type m) (mp_tt m) (mp_num_frames m) (mp_total_size m) msg else Some msg);
     has \<leftarrow> rx_has_frame (mp_frame_index m) msg;
     if \<not> has then rx_add_frame (mp_frame_index m) (mp_data m) msg else Some msg }"

definition store_packet :: "message_packet \<Rightarrow> message_receive_buffer \<Rightarrow> message_receive_buffer option" where
  "store_packet m buf =
     (if mp_sequence m > mb_last_pushed buf then add_new_message m buf
      else case receive_find (mp_sequence m) buf of
             Some i \<Rightarrow> do {
               msg \<leftarrow> add_to_message m (mb_data buf ! i);
               Some (buf\<lparr> mb_data := (mb_data buf)[i := msg] \<rparr>) }
           | None \<Rightarrow> Some buf)"

text \<open>Delivering the complete messages at the front.\<close>

fun deliver_complete :: "nat \<Rightarrow> peer \<Rightarrow> peer" where
  "deliver_complete 0 p = p"
| "deliver_complete (Suc n) p =
     (case mb_data (pe_receive_buffer p) of
        [] \<Rightarrow> p
      | msg # _ \<Rightarrow>
          (case rx_data msg of
             None \<Rightarrow> p
           | Some mem \<Rightarrow>
               if rx_complete msg
               then deliver_complete n ((peer_event (PeerMessage (rx_tt msg) (rx_type msg) mem) p)
                      \<lparr> pe_receive_buffer := receive_pop (pe_receive_buffer p) \<rparr>)
               else p))"

definition push_ack :: "message_packet \<Rightarrow> peer \<Rightarrow> peer" where
  "push_ack m p = p\<lparr> pe_send_acks := pe_send_acks p @
     [\<lparr> ma_sequence = mp_sequence m, ma_frame_index = mp_frame_index m \<rparr>] \<rparr>"

definition handle_reliable :: "message_packet \<Rightarrow> peer \<Rightarrow> peer option" where
  "handle_reliable m p =
     (if mp_sequence m \<le> mb_last_popped (pe_receive_buffer p) then Some (push_ack m p)
      else do {
        buf \<leftarrow> store_packet m (pe_receive_buffer p);
        Some (push_ack m (deliver_complete (length (mb_data buf)) (p\<lparr> pe_receive_buffer := buf \<rparr>))) })"

definition handle_unreliable :: "message_packet \<Rightarrow> peer \<Rightarrow> peer option" where
  "handle_unreliable m p =
     (if mp_num_frames m > 1 then do {
        msg \<leftarrow> (if rx_sequence (pe_current_msg p) \<noteq> mp_sequence m
                 then rx_init (mp_type m) (mp_tt m) (mp_num_frames m) (mp_total_size m)
                        (received_message_new (mp_sequence m))
                 else Some (pe_current_msg p));
        msg \<leftarrow> rx_add_frame (mp_frame_index m) (mp_data m) msg;
        let p = p\<lparr> pe_current_msg := msg \<rparr>;
        Some (case rx_data msg of
                Some mem \<Rightarrow> if rx_complete msg then peer_event (PeerMessage (mp_tt m) (rx_type msg) mem) p else p
              | None \<Rightarrow> p) }
      else Some (peer_event (PeerMessage (mp_tt m) (mp_type m) (map Some (mp_data m))) p))"

definition do_handle_client_message :: "message_packet \<Rightarrow> u32 \<Rightarrow> peer \<Rightarrow> peer option" where
  "do_handle_client_message m flags p =
     (if flags AND kAooMessageReliable \<noteq> 0 then handle_reliable m p else handle_unreliable m p)"

text \<open>Parsing a binary message: the packet and its flags, \<open>Inl\<close> for a message that is rejected.\<close>

definition parse_client_message :: "byte list \<Rightarrow> (unit + (message_packet \<times> u32)) option" where
  "parse_client_message data =
     (if length data < 8 then Some (Inl ())
      else
        let (sequence :: u32, ptr) = read_bytes data;
            (flags :: u16, ptr) = read_bytes ptr;
            (n :: u16, ptr) = read_bytes ptr
        in if (ucast flags :: u32) AND kAooBinMsgMessageFrames \<noteq> 0 \<and> length ptr < 12 then Some (Inl ())
           else
             let ((total_size, num_frames, frame_index), ptr) =
                   (if (ucast flags :: u32) AND kAooBinMsgMessageFrames \<noteq> 0 then
                      let (total_size :: u32, ptr) = read_bytes ptr;
                          (num_frames :: u32, ptr) = read_bytes ptr;
                          (frame_index :: u32, ptr) = read_bytes ptr
                      in ((sint total_size, sint num_frames, sint frame_index), ptr)
                    else ((int (unat n), 1, 0), ptr))
             in if (ucast flags :: u32) AND kAooBinMsgMessageTimestamp \<noteq> 0 \<and> length ptr < 8 then Some (Inl ())
                else
                  let (tt :: u64, ptr) =
                        (if (ucast flags :: u32) AND kAooBinMsgMessageTimestamp \<noteq> 0 then read_bytes ptr else (0, ptr))
                  in if length ptr < 4 then None
                     else
                       let (type :: u32, ptr) = read_bytes ptr
                       in if length ptr < unat n then Some (Inl ())
                          else Some (Inr (\<lparr> mp_type = sint type, mp_data = take (unat n) ptr, mp_tt = tt,
                                 mp_sequence = sint sequence, mp_total_size = total_size, mp_num_frames = num_frames,
                                 mp_frame_index = frame_index,
                                 mp_reliable = (ucast flags :: u32) AND kAooMessageReliable \<noteq> 0 \<rparr>, ucast flags)))"

definition handle_client_message_bin :: "byte list \<Rightarrow> peer \<Rightarrow> peer option" where
  "handle_client_message_bin data p = do {
     res \<leftarrow> parse_client_message data;
     (case res of
        Inl _ \<Rightarrow> Some p
      | Inr (m, flags) \<Rightarrow> do_handle_client_message m flags (p\<lparr> pe_binary_ack := True \<rparr>)) }"

definition handle_client_message_osc ::
    "u32 \<Rightarrow> int \<Rightarrow> int \<Rightarrow> (int \<times> int) option \<Rightarrow> u64 option \<Rightarrow> int \<Rightarrow> byte list \<Rightarrow> peer \<Rightarrow> peer option" where
  "handle_client_message_osc flags sequence total_size frames tt type data p =
     (let (num_frames, frame_index) = (case frames of Some x \<Rightarrow> x | None \<Rightarrow> (1, 0))
      in do_handle_client_message
           \<lparr> mp_type = type, mp_data = data, mp_tt = (case tt of Some t \<Rightarrow> t | None \<Rightarrow> 0), mp_sequence = sequence,
             mp_total_size = total_size, mp_num_frames = num_frames, mp_frame_index = frame_index,
             mp_reliable = flags AND kAooMessageReliable \<noteq> 0 \<rparr>
           flags (p\<lparr> pe_binary_ack := False \<rparr>))"

text \<open>
  The acknowledgements of a binary message. The product of the count and the size of an entry is computed
  in 32 bits; reading past the end of the message is \<^const>\<open>None\<close>.
\<close>

fun read_acks :: "nat \<Rightarrow> byte list \<Rightarrow> message_ack list option" where
  "read_acks 0 ptr = Some []"
| "read_acks (Suc n) ptr =
     (if length ptr < 8 then None
      else
        let (seq :: u32, ptr) = read_bytes ptr;
            (frame :: u32, ptr) = read_bytes ptr
        in map_option (Cons \<lparr> ma_sequence = sint seq, ma_frame_index = sint frame \<rparr>) (read_acks n ptr))"

definition handle_ack_bin :: "byte list \<Rightarrow> peer \<Rightarrow> peer option" where
  "handle_ack_bin data p =
     (if length data \<ge> 4 then
        let (count :: u32, ptr) = read_bytes data
        in if (word_of_nat (length data - 4) :: u64) \<ge> scast (count * 8) then do {
             acks \<leftarrow> read_acks (unat count) ptr;
             Some (p\<lparr> pe_received_acks := pe_received_acks p @ acks \<rparr>) }
           else Some p
      else Some p)"

definition handle_ack_osc :: "(int \<times> int) list \<Rightarrow> peer \<Rightarrow> peer" where
  "handle_ack_osc args p = p\<lparr> pe_received_acks := pe_received_acks p @
     map (\<lambda>(seq, frame). \<lparr> ma_sequence = seq, ma_frame_index = frame \<rparr>) args \<rparr>"

definition handle_bin_message :: "byte list \<Rightarrow> nat \<Rightarrow> peer \<Rightarrow> peer option" where
  "handle_bin_message data onset p =
     (if binmsg_cmd data = word_of_int kAooBinMsgCmdMessage then handle_client_message_bin (drop onset data) p
      else if binmsg_cmd data = word_of_int kAooBinMsgCmdAck then handle_ack_bin (drop onset data) p
      else Some p)"

definition handle_osc_message :: "u64 \<Rightarrow> peer_osc \<Rightarrow> ip_address \<Rightarrow> peer \<Rightarrow> peer option" where
  "handle_osc_message now msg addr p =
     (case msg of
        OscPing _ _ tt \<Rightarrow> Some (handle_ping now tt addr p)
      | OscPong _ _ args \<Rightarrow> Some (handle_pong now args addr p)
      | OscMessage _ _ flags seq total_size frames tt type data \<Rightarrow>
          handle_client_message_osc flags seq total_size frames tt type data p
      | OscAck _ _ args \<Rightarrow> Some (handle_ack_osc args p))"

end
