(* ===== verification/Peer_Wire.thy ===== *)
theory Peer_Wire
  imports Peer
begin

text \<open>
  The binary messages between peers: what is sent is what is parsed, and a packet never exceeds the
  buffer.
\<close>

definition int32_ok :: "int \<Rightarrow> bool" where
  "int32_ok i \<longleftrightarrow> - (2 ^ 31) \<le> i \<and> i < 2 ^ 31"

text \<open>A packet whose fields fit; a message of one frame has no fields for it.\<close>

definition packet_wf :: "message_packet \<Rightarrow> bool" where
  "packet_wf m \<longleftrightarrow> int32_ok (mp_type m) \<and> int32_ok (mp_sequence m) \<and> int32_ok (mp_total_size m) \<and>
     int32_ok (mp_num_frames m) \<and> int32_ok (mp_frame_index m) \<and> length (mp_data m) < 2 ^ 16 \<and>
     (mp_num_frames m \<le> 1 \<longrightarrow> mp_num_frames m = 1 \<and> mp_frame_index m = 0 \<and> mp_total_size m = int (length (mp_data m)))"

definition ids_ok :: "peer \<Rightarrow> bool" where
  "ids_ok p \<longleftrightarrow> 0 \<le> pe_group_id p \<and> pe_group_id p < 2 ^ 31 \<and> 0 \<le> pe_local_id p \<and> pe_local_id p < 2 ^ 31"

lemma sint_int32: "int32_ok i \<Longrightarrow> sint (word_of_int i :: u32) = i"
  by (simp add: int32_ok_def signed_of_int signed_take_bit_int_eq_self)

text \<open>The bytes of a packet.\<close>

definition packet_image :: "message_packet \<Rightarrow> byte list" where
  "packet_image m = to_bytes (word_of_int (mp_sequence m) :: u32) @ to_bytes (ucast (packet_flags m) :: u16) @
     to_bytes (word_of_nat (length (mp_data m)) :: u16) @
     (if mp_num_frames m > 1 then to_bytes (word_of_int (mp_total_size m) :: u32) @
        to_bytes (word_of_int (mp_num_frames m) :: u32) @ to_bytes (word_of_int (mp_frame_index m) :: u32) else []) @
     (if mp_tt m \<noteq> 0 then to_bytes (mp_tt m) else []) @ to_bytes (word_of_int (mp_type m) :: u32)"

lemma packet_flags_cases:
  "packet_flags m = (if mp_reliable m then 1 else 0) + (if mp_num_frames m > 1 then 2 else 0) + (if mp_tt m \<noteq> 0 then 4 else 0)"
  by (simp add: packet_flags_def peer_const_defs Let_def)

lemma flag_tests:
  "packet_flags m AND kAooBinMsgMessageFrames \<noteq> 0 \<longleftrightarrow> mp_num_frames m > 1"
  "packet_flags m AND kAooBinMsgMessageTimestamp \<noteq> 0 \<longleftrightarrow> mp_tt m \<noteq> 0"
  "packet_flags m AND kAooMessageReliable \<noteq> 0 \<longleftrightarrow> mp_reliable m"
  "(ucast (ucast (packet_flags m) :: u16) :: u32) = packet_flags m"
  by (simp_all add: packet_flags_cases peer_const_defs)

definition message_header :: "int \<Rightarrow> peer \<Rightarrow> byte list" where
  "message_header cmd p = binmsg_header_image kAooMsgTypePeer cmd (pe_group_id p) (pe_local_id p)"

lemma message_header_length: "length (message_header cmd p) \<le> 12"
  by (simp add: message_header_def binmsg_header_image_length)

lemma packet_image_length: "length (packet_image m) \<le> 32"
  by (simp add: packet_image_def)

lemma peer_packet_bin_image:
  "peer_send_packet_bin m p =
     (if length (message_header 0 p) + length (packet_image m) + length (mp_data m) \<le> AOO_MAX_PACKET_SIZE
      then Some (message_header 0 p @ packet_image m @ mp_data m) else None)"
proof -
  have "length (binmsg_header_image kAooMsgTypePeer 0 (pe_group_id p) (pe_local_id p)) \<le> AOO_MAX_PACKET_SIZE"
    using message_header_length [of 0 p] by (simp add: message_header_def AOO_MAX_PACKET_SIZE_def)
  then have "binmsg_write_header (replicate AOO_MAX_PACKET_SIZE 0) kAooMsgTypePeer kAooBinMsgCmdMessage (pe_group_id p) (pe_local_id p)
    = (length (message_header 0 p), message_header 0 p @ replicate (AOO_MAX_PACKET_SIZE - length (message_header 0 p)) 0)"
    using binmsg_write_header_image [of kAooMsgTypePeer 0 "pe_group_id p" "pe_local_id p" "replicate AOO_MAX_PACKET_SIZE 0"]
    by (simp add: message_header_def kAooBinMsgCmdMessage_def)
  then show ?thesis
    using message_header_length [of 0 p]
    by (simp add: peer_send_packet_bin_def packet_image_def flag_tests Let_def wire_simps AOO_MAX_PACKET_SIZE_def)
      auto
qed

lemma parse_packet_image:
  assumes "packet_wf m"
  shows "parse_client_message (packet_image m @ mp_data m) = Some (Inr (m, packet_flags m))"
proof -
  have n: "unat (word_of_nat (length (mp_data m)) :: u16) = length (mp_data m)"
    using assms by (simp add: packet_wf_def unsigned_of_nat take_bit_nat_eq_self)
  then have n': "uint (word_of_nat (length (mp_data m)) :: u16) = int (length (mp_data m))" by (metis uint_nat)
  have fields: "sint (word_of_int (mp_type m) :: u32) = mp_type m" "sint (word_of_int (mp_sequence m) :: u32) = mp_sequence m"
    "sint (word_of_int (mp_total_size m) :: u32) = mp_total_size m" "sint (word_of_int (mp_num_frames m) :: u32) = mp_num_frames m"
    "sint (word_of_int (mp_frame_index m) :: u32) = mp_frame_index m"
    using assms by (simp_all add: packet_wf_def sint_int32)
  note simps = parse_client_message_def packet_image_def wire_simps flag_tests n n' fields Let_def
  show ?thesis
    using assms by (cases "mp_num_frames m > 1"; cases "mp_tt m = 0") (simp_all add: simps packet_wf_def)
qed

lemma header_fields:
  assumes "ids_ok p" and "cmd \<in> {0, 1}"
  shows "binmsg_headersize (message_header cmd p @ rest) = length (message_header cmd p)"
    "binmsg_cmd (message_header cmd p @ rest) = word_of_int cmd"
proof -
  let ?h = "message_header cmd p"
  have w: "binmsg_write_header (?h @ rest) kAooMsgTypePeer cmd (pe_group_id p) (pe_local_id p) = (length ?h, ?h @ rest)"
    using binmsg_write_header_image [of kAooMsgTypePeer cmd "pe_group_id p" "pe_local_id p" "?h @ rest"]
    by (simp add: message_header_def)
  have "length ?h \<noteq> 0" by (simp add: message_header_def binmsg_header_image_length)
  then show "binmsg_headersize (?h @ rest) = length ?h" "binmsg_cmd (?h @ rest) = word_of_int cmd"
    using binmsg_header_fields [OF _ _ _ _ _ _ _ w] assms by (auto simp: ids_ok_def msg_type_defs)
qed

lemma handle_sent_packet:
  assumes "packet_wf m" and "ids_ok p" and "peer_send_packet_bin m p = Some b"
  shows "handle_bin_message b (binmsg_headersize b) q = do_handle_client_message m (packet_flags m) (q\<lparr> pe_binary_ack := True \<rparr>)"
proof -
  have b: "b = message_header 0 p @ packet_image m @ mp_data m"
    using assms(3) by (simp add: peer_packet_bin_image split: if_splits)
  show ?thesis
    using header_fields [OF assms(2), of 0 "packet_image m @ mp_data m"] parse_packet_image [OF assms(1)]
    by (simp add: b handle_bin_message_def handle_client_message_bin_def kAooBinMsgCmdMessage_def)
qed

subsection \<open>Acknowledgements\<close>

definition ack_image :: "message_ack \<Rightarrow> byte list" where
  "ack_image a = to_bytes (1 :: u32) @ to_bytes (word_of_int (ma_sequence a) :: u32) @
     to_bytes (word_of_int (ma_frame_index a) :: u32)"

lemma send_ack_image:
  assumes "pe_binary_ack p"
  shows "send_ack a p = peer_send_out (Binary (message_header 1 p @ ack_image a)) p"
proof -
  have "binmsg_write_header (replicate 64 0) kAooMsgTypePeer kAooBinMsgCmdAck (pe_group_id p) (pe_local_id p)
    = (length (message_header 1 p), message_header 1 p @ replicate (64 - length (message_header 1 p)) 0)"
    using binmsg_write_header_image [of kAooMsgTypePeer 1 "pe_group_id p" "pe_local_id p" "replicate 64 0"]
      message_header_length [of 1 p]
    by (simp add: message_header_def kAooBinMsgCmdAck_def)
  then show ?thesis using assms by (simp add: send_ack_def ack_image_def)
qed

lemma handle_sent_ack:
  assumes "int32_ok (ma_sequence a)" and "int32_ok (ma_frame_index a)" and "ids_ok p"
  shows "handle_bin_message (message_header 1 p @ ack_image a) (binmsg_headersize (message_header 1 p @ ack_image a)) q
    = Some (q\<lparr> pe_received_acks := pe_received_acks q @ [a] \<rparr>)"
proof -
  have "read_acks (Suc 0) (to_bytes (word_of_int (ma_sequence a) :: u32) @ to_bytes (word_of_int (ma_frame_index a) :: u32)) = Some [a]"
    using assms by (simp add: wire_simps read_bytes_append [where rest = "[]", simplified] sint_int32)
  then have "handle_ack_bin (ack_image a) q = Some (q\<lparr> pe_received_acks := pe_received_acks q @ [a] \<rparr>)"
    by (simp add: handle_ack_bin_def ack_image_def wire_simps)
  then show ?thesis
    using header_fields [OF assms(3), of 1 "ack_image a"]
    by (simp add: handle_bin_message_def peer_const_defs)
qed

subsection \<open>Properties\<close>

text \<open>
  C11. A packet of a message that was sent in the binary format is parsed back with every field, whatever optional
  fields it has, at the offset that the header gives.
\<close>

theorem peer_packet_roundtrip:
  assumes "packet_wf m" and "ids_ok p" and "peer_send_packet_bin m p = Some b"
  shows "binmsg_cmd b = word_of_int kAooBinMsgCmdMessage \<and>
    parse_client_message (drop (binmsg_headersize b) b) = Some (Inr (m, packet_flags m))"
proof -
  have b: "b = message_header 0 p @ packet_image m @ mp_data m"
    using assms(3) by (simp add: peer_packet_bin_image split: if_splits)
  show ?thesis
    using header_fields [OF assms(2), of 0 "packet_image m @ mp_data m"] parse_packet_image [OF assms(1)]
    by (simp add: b kAooBinMsgCmdMessage_def)
qed

definition ex_multi_packet :: message_packet where
  "ex_multi_packet = \<lparr> mp_type = 1, mp_data = [7, 8, 9], mp_tt = 4, mp_sequence = 70000, mp_total_size = 11, mp_num_frames = 3,
     mp_frame_index = 1, mp_reliable = True \<rparr>"

lemma ex_multi_packet_sent: "peer_send_packet_bin ex_multi_packet p = Some (message_header 0 p @ packet_image ex_multi_packet @ [7, 8, 9])"
  using message_header_length [of 0 p] packet_image_length [of ex_multi_packet]
  by (simp add: peer_packet_bin_image AOO_MAX_PACKET_SIZE_def) (simp add: ex_multi_packet_def)

theorem peer_packet_roundtrip_witness:
  "\<exists>p b. ids_ok p \<and> peer_send_packet_bin ex_multi_packet p = Some b \<and>
     parse_client_message (drop (binmsg_headersize b) b) = Some (Inr (ex_multi_packet, packet_flags ex_multi_packet))"
proof -
  define p :: peer where "p = undefined\<lparr> pe_group_id := 300, pe_local_id := 2 \<rparr>"
  have ids: "ids_ok p" by (simp add: p_def ids_ok_def)
  have wf: "packet_wf ex_multi_packet" by (simp add: packet_wf_def ex_multi_packet_def int32_ok_def)
  from peer_packet_roundtrip [OF wf ids ex_multi_packet_sent] ids ex_multi_packet_sent [of p] show ?thesis by blast
qed

end
