(* ===== verification/Peer_Receive.thy ===== *)
theory Peer_Receive
  imports Peer_Wire
begin

text \<open>
  The receiving side of the reliable messages: whatever packets of the messages arrive, the buffer
  holds a contiguous run of messages, the frames it has are those that were sent, and the messages
  that were delivered are a prefix of those that were sent.
\<close>

subsection \<open>Messages and their packets\<close>

text \<open>A message with the size of its frames.\<close>

type_synonym framed = "message \<times> nat"

definition frames_of :: "framed \<Rightarrow> nat" where
  "frames_of x = (length (pm_data (fst x)) + snd x - 1) div snd x"

text \<open>
  A message that the code transfers: it is not empty, it has at most 256 frames, the last of several
  frames is not as long as the others, and a packet with the last two frames fits into the buffer.
\<close>

definition message_ok :: "framed \<Rightarrow> bool" where
  "message_ok x \<longleftrightarrow> (case x of (m, fs) \<Rightarrow>
     pm_reliable m \<and> int32_ok (pm_type m) \<and> 0 < fs \<and> pm_data m \<noteq> [] \<and> frames_of x \<le> 256 \<and>
     (if frames_of x > 1 then length (pm_data m) mod fs \<noteq> 0 \<and> fs + length (pm_data m) mod fs + 44 \<le> AOO_MAX_PACKET_SIZE
      else length (pm_data m) + 44 \<le> AOO_MAX_PACKET_SIZE))"

text \<open>Bytes that may be sent for a frame: resending the last frame may send more than is needed.\<close>

definition covers :: "framed \<Rightarrow> nat \<Rightarrow> byte list \<Rightarrow> bool" where
  "covers x i bytes \<longleftrightarrow>
     (if i = frames_of x - 1 then \<exists>ofs. (i - 1) * snd x \<le> ofs \<and> ofs \<le> i * snd x \<and> bytes = drop ofs (pm_data (fst x))
      else bytes = take (snd x) (drop (i * snd x) (pm_data (fst x))))"

definition frame_packet :: "framed \<Rightarrow> nat \<Rightarrow> nat \<Rightarrow> byte list \<Rightarrow> message_packet" where
  "frame_packet x k i bytes =
     \<lparr> mp_type = pm_type (fst x), mp_data = bytes, mp_tt = pm_tt (fst x), mp_sequence = int k,
       mp_total_size = int (length (pm_data (fst x))), mp_num_frames = int (frames_of x), mp_frame_index = int i,
       mp_reliable = True \<rparr>"

definition packet_for :: "framed list \<Rightarrow> nat \<Rightarrow> nat \<Rightarrow> message_packet \<Rightarrow> bool" where
  "packet_for sent k i pk \<longleftrightarrow> k < length sent \<and> i < frames_of (sent ! k) \<and>
     (\<exists>bytes. covers (sent ! k) i bytes \<and> pk = frame_packet (sent ! k) k i bytes)"

lemma frames_of_bounds:
  assumes "message_ok x"
  shows "0 < frames_of x" "(frames_of x - 1) * snd x < length (pm_data (fst x))"
    "length (pm_data (fst x)) \<le> frames_of x * snd x"
proof -
  let ?n = "length (pm_data (fst x))" and ?s = "snd x"
  have pos: "0 < ?s" "0 < ?n" using assms by (auto simp: message_ok_def split: prod.splits)
  have f: "frames_of x = (?n - 1) div ?s + 1"
  proof -
    have "?n + ?s - 1 = (?n - 1) + ?s" using pos by linarith
    then show ?thesis using pos(1) unfolding frames_of_def by (simp only: div_add_self2 less_numeral_extra)
  qed
  show "0 < frames_of x" by (simp add: f)
  have "(?n - 1) div ?s * ?s \<le> ?n - 1" by (rule div_times_less_eq_dividend)
  then have "(?n - 1) div ?s * ?s < ?n" using pos(2) by linarith
  then show "(frames_of x - 1) * ?s < ?n" by (simp add: f)
  have "?n - 1 < ((?n - 1) div ?s + 1) * ?s" using pos(1) dividend_less_div_times [of ?s "?n - 1"] by simp
  then have "?n \<le> ((?n - 1) div ?s + 1) * ?s" by linarith
  then show "?n \<le> frames_of x * ?s" by (simp add: f)
qed

lemma frame_index_less:
  assumes "message_ok x" and "j < length (pm_data (fst x))"
  shows "j div snd x < frames_of x"
  using frames_of_bounds(3) [OF assms(1)] assms(2) by (simp add: less_mult_imp_div_less)

subsection \<open>One message\<close>

text \<open>A received message that is being put together.\<close>

definition tracks :: "framed \<Rightarrow> received_message \<Rightarrow> bool" where
  "tracks x msg \<longleftrightarrow> rx_tt msg = pm_tt (fst x) \<and> rx_type msg = pm_type (fst x) \<and>
     rx_size msg = int (length (pm_data (fst x))) \<and> rx_num_frames msg = int (frames_of x) \<and>
     length (rx_frames msg) = frames_size \<and> (\<forall>j < frames_size. frames_of x \<le> j \<longrightarrow> \<not> rx_frames msg ! j) \<and>
     (\<exists>mem. rx_data msg = Some mem \<and> filled (int (snd x)) (pm_data (fst x)) (rx_frames msg) mem)"

lemma init_tracks:
  assumes "message_ok x"
  shows "\<exists>msg. rx_init (pm_type (fst x)) (pm_tt (fst x)) (int (frames_of x)) (int (length (pm_data (fst x)))) (received_message_new seq) = Some msg \<and>
    tracks x msg \<and> rx_sequence msg = seq \<and> (\<forall>i < frames_of x. rx_frames msg ! i)"
proof -
  have "frames_of x \<le> frames_size" using assms by (auto simp: message_ok_def frames_size_def split: prod.splits)
  moreover have "filled (int (snd x)) (pm_data (fst x)) (mark_frames (int (frames_of x)) (replicate frames_size False))
      (replicate (length (pm_data (fst x))) None)"
    using frame_index_less [OF assms] \<open>frames_of x \<le> frames_size\<close> by (force simp: filled_def mark_frames_nth)
  ultimately show ?thesis
    by (simp add: rx_init_def received_message_new_def tracks_def mark_frames_nth)
qed

text \<open>The range of bytes that a frame is copied to.\<close>

lemma covers_range:
  assumes "message_ok x" and "covers x i bytes" and "i < frames_of x"
  shows "\<exists>ofs. (if i = frames_of x - 1 then length (pm_data (fst x)) - length bytes else i * length bytes) = ofs \<and>
    length bytes \<le> length (pm_data (fst x)) \<and> ofs + length bytes \<le> length (pm_data (fst x)) \<and>
    bytes = take (length bytes) (drop ofs (pm_data (fst x))) \<and>
    (\<forall>j < length (pm_data (fst x)). j div snd x = i \<longrightarrow> ofs \<le> j \<and> j < ofs + length bytes)"
proof -
  let ?d = "pm_data (fst x)" and ?s = "snd x"
  note b = frames_of_bounds [OF assms(1)]
  have pos: "0 < ?s" using assms(1) by (auto simp: message_ok_def split: prod.splits)
  show ?thesis
  proof (cases "i = frames_of x - 1")
    case True
    then obtain o' where o': "o' \<le> i * ?s" "bytes = drop o' ?d" using assms(2) by (auto simp: covers_def)
    have lt: "o' < length ?d" using o'(1) b(2) True by simp
    have "o' \<le> j" if "j div ?s = i" for j
    proof -
      have "i * ?s \<le> j" using that by auto
      then show ?thesis using o'(1) by simp
    qed
    then show ?thesis using True o'(2) lt by (intro exI [of _ o']) simp
  next
    case False
    then have bytes: "bytes = take ?s (drop (i * ?s) ?d)" using assms(2) by (simp add: covers_def)
    have "Suc i \<le> frames_of x - 1" using False assms(3) by simp
    then have "Suc i * ?s \<le> (frames_of x - 1) * ?s" by (rule mult_right_mono) simp
    then have le: "i * ?s + ?s \<le> length ?d" using b(2) by simp
    then have len: "length bytes = ?s" using bytes by simp
    have "i * ?s \<le> j \<and> j < i * ?s + ?s" if "j div ?s = i" for j
    proof -
      have "j = j div ?s * ?s + j mod ?s" by simp
      then show ?thesis using that pos mod_less_divisor [OF pos, of j] by simp
    qed
    then show ?thesis using False le len bytes by simp
  qed
qed

lemma add_frame_tracks:
  assumes x: "message_ok x" and t: "tracks x msg" and c: "covers x i bytes" and i: "i < frames_of x" and missing: "rx_frames msg ! i"
  shows "\<exists>msg'. rx_add_frame (int i) bytes msg = Some msg' \<and> tracks x msg' \<and> rx_sequence msg' = rx_sequence msg \<and>
    rx_frames msg' = (rx_frames msg)[i := False]"
proof -
  let ?d = "pm_data (fst x)" and ?s = "snd x" and ?n = "int (length bytes)"
  obtain mem where mem: "rx_data msg = Some mem" "filled (int ?s) ?d (rx_frames msg) mem" using t by (auto simp: tracks_def)
  have lim: "i < frames_size" using i x by (auto simp: message_ok_def frames_size_def split: prod.splits)
  obtain o' where o': "(if i = frames_of x - 1 then length ?d - length bytes else i * length bytes) = o'"
    "length bytes \<le> length ?d" "o' + length bytes \<le> length ?d" "bytes = take (length bytes) (drop o' ?d)"
    "\<forall>j < length ?d. j div ?s = i \<longrightarrow> o' \<le> j \<and> j < o' + length bytes"
    using covers_range [OF x c i] by blast
  have onset: "(if int i = rx_num_frames msg - 1 then rx_size msg - ?n else int i * ?n) = int o'"
    using o'(1,2) t i by (auto simp: tracks_def of_nat_diff split: if_splits)
  have len: "length mem = length ?d" using mem(2) by (simp add: filled_def)
  then obtain mem' where m': "mem_copy (int o') bytes mem = Some mem'"
    using o'(3) by (simp add: mem_copy_def)
  have at: "bytes ! (j - o') = ?d ! j" if "o' \<le> j" "j < o' + length bytes" for j
  proof -
    have "bytes ! (j - o') = take (length bytes) (drop o' ?d) ! (j - o')" using o'(4) by simp
    then show ?thesis using that o'(3) by simp
  qed
  have "\<not> rx_complete msg" using missing lim t by (auto simp: rx_complete_def bitset_none_iff tracks_def)
  moreover have "int i < rx_num_frames msg" using i t by (simp add: tracks_def)
  moreover have fl: "length (rx_frames msg) = frames_size" using t by (simp add: tracks_def)
  ultimately have e: "rx_add_frame (int i) bytes msg = Some (msg\<lparr> rx_data := Some mem', rx_frames := (rx_frames msg)[i := False] \<rparr>)"
    using mem(1) m' onset lim by (simp add: rx_add_frame_def bitset_set_def)
  have "filled (int ?s) ?d ((rx_frames msg)[i := False]) mem'"
    using mem_copy_nth [OF m'] mem(2) len at o'(5) lim fl frame_index_less [OF x]
    by (auto simp: filled_def nth_list_update split: if_splits)
  then show ?thesis using e t lim by (auto simp: tracks_def nth_list_update)
qed

lemma tracks_complete:
  assumes "message_ok x" and "tracks x msg" and "rx_complete msg"
  shows "rx_data msg = Some (map Some (pm_data (fst x)))"
proof -
  obtain mem where mem: "rx_data msg = Some mem" "filled (int (snd x)) (pm_data (fst x)) (rx_frames msg) mem"
    using assms(2) by (auto simp: tracks_def)
  have "frames_of x \<le> frames_size" using assms(1) by (auto simp: message_ok_def frames_size_def split: prod.splits)
  then have "\<forall>j < length (pm_data (fst x)). j div nat (int (snd x)) < length (rx_frames msg)"
    using frame_index_less [OF assms(1)] assms(2) by (force simp: tracks_def)
  then show ?thesis using filled_all [OF mem(2)] assms(3) mem(1) by (simp add: rx_complete_def)
qed

subsection \<open>The buffer\<close>

definition item_ok :: "framed list \<Rightarrow> received_message \<Rightarrow> bool" where
  "item_ok sent msg \<longleftrightarrow> msg = received_message_new (rx_sequence msg) \<or> tracks (sent ! nat (rx_sequence msg)) msg"

definition buffer_ok :: "framed list \<Rightarrow> message_receive_buffer \<Rightarrow> bool" where
  "buffer_ok sent buf \<longleftrightarrow> - 1 \<le> mb_last_popped buf \<and>
     mb_last_pushed buf = mb_last_popped buf + int (length (mb_data buf)) \<and> mb_last_pushed buf < int (length sent) \<and>
     (\<forall>i < length (mb_data buf). rx_sequence (mb_data buf ! i) = mb_last_popped buf + 1 + int i \<and> item_ok sent (mb_data buf ! i))"

text \<open>The receiver has a frame of a message: the message is delivered, or the frame is in the buffer.\<close>

definition has_frame :: "message_receive_buffer \<Rightarrow> nat \<Rightarrow> nat \<Rightarrow> bool" where
  "has_frame buf k i \<longleftrightarrow> int k \<le> mb_last_popped buf \<or>
     (\<exists>msg \<in> set (mb_data buf). rx_sequence msg = int k \<and> rx_data msg \<noteq> None \<and> \<not> rx_frames msg ! i)"

definition keeps_frames :: "message_receive_buffer \<Rightarrow> message_receive_buffer \<Rightarrow> bool" where
  "keeps_frames buf buf' \<longleftrightarrow> (\<forall>k i. has_frame buf k i \<longrightarrow> has_frame buf' k i)"

lemma keeps_refl: "keeps_frames buf buf"
  by (simp add: keeps_frames_def)

lemma keeps_trans: "keeps_frames a b \<Longrightarrow> keeps_frames b c \<Longrightarrow> keeps_frames a c"
  by (simp add: keeps_frames_def)

lemma item_ok_append: "item_ok sent msg \<Longrightarrow> rx_sequence msg < int (length sent) \<Longrightarrow> 0 \<le> rx_sequence msg \<Longrightarrow> item_ok (sent @ ms) msg"
  by (auto simp: item_ok_def nth_append nat_less_iff)

lemma push_ok:
  assumes "buffer_ok sent buf" and "rx_sequence msg = mb_last_pushed buf + 1" and "item_ok sent msg"
    and "rx_sequence msg < int (length sent)"
  shows "buffer_ok sent (receive_push msg buf)" "keeps_frames buf (receive_push msg buf)"
  using assms by (auto simp: buffer_ok_def receive_push_def nth_append less_Suc_eq keeps_frames_def has_frame_def)

lemma push_run_ok:
  assumes "buffer_ok sent buf" and "seq \<le> int (length sent)" and "mb_last_pushed buf < seq"
  shows "buffer_ok sent (fold (\<lambda>q. receive_push (received_message_new q)) [mb_last_pushed buf + 1..seq - 1] buf) \<and>
    mb_last_pushed (fold (\<lambda>q. receive_push (received_message_new q)) [mb_last_pushed buf + 1..seq - 1] buf) = seq - 1 \<and>
    mb_last_popped (fold (\<lambda>q. receive_push (received_message_new q)) [mb_last_pushed buf + 1..seq - 1] buf) = mb_last_popped buf \<and>
    keeps_frames buf (fold (\<lambda>q. receive_push (received_message_new q)) [mb_last_pushed buf + 1..seq - 1] buf)"
  using assms
proof (induction "nat (seq - mb_last_pushed buf - 1)" arbitrary: buf)
  case 0
  then show ?case by (simp add: keeps_refl)
next
  case (Suc n)
  let ?q = "mb_last_pushed buf + 1"
  define buf1 where "buf1 = receive_push (received_message_new ?q) buf"
  have q: "?q \<le> seq - 1" using Suc.hyps(2) by simp
  have eq: "mb_last_pushed buf1 = ?q" "mb_last_popped buf1 = mb_last_popped buf"
    by (simp_all add: buf1_def receive_push_def received_message_new_def)
  have new: "rx_sequence (received_message_new ?q) = ?q" "item_ok sent (received_message_new ?q)"
    by (simp_all add: item_ok_def received_message_new_def)
  have 1: "buffer_ok sent buf1" "keeps_frames buf buf1"
    unfolding buf1_def using push_ok [OF Suc.prems(1) new] q Suc.prems(2) new(1) by simp_all
  have "n = nat (seq - mb_last_pushed buf1 - 1)" using Suc.hyps(2) eq(1) by simp
  note ih = Suc.hyps(1) [OF this 1(1) Suc.prems(2)]
  have "[?q..seq - 1] = ?q # [mb_last_pushed buf1 + 1..seq - 1]" using q eq(1) by (simp add: upto_rec1)
  then show ?case using ih q eq keeps_trans [OF 1(2)] by (simp add: buf1_def [symmetric])
qed

lemma fold_shift_upto: "fold (\<lambda>i. f (c + i)) [a..b] x = fold f [c + a..c + b] (x :: 'a)" for a b c :: int
proof (induction "nat (b - a + 1)" arbitrary: a x)
  case 0
  then show ?case by simp
next
  case (Suc n)
  then have "[a..b] = a # [a + 1..b]" "[c + a..c + b] = (c + a) # [c + (a + 1)..c + b]" by (simp_all add: upto_rec1 add.assoc)
  then show ?case using Suc.hyps(1) [of "a + 1"] Suc.hyps(2) by simp
qed

lemma push_skipped_ok:
  assumes "buffer_ok sent buf" and "seq \<le> int (length sent)" and "mb_last_pushed buf < seq"
  shows "buffer_ok sent (push_skipped seq buf) \<and> mb_last_pushed (push_skipped seq buf) = seq - 1 \<and>
    mb_last_popped (push_skipped seq buf) = mb_last_popped buf \<and> keeps_frames buf (push_skipped seq buf)"
proof -
  let ?p = "mb_last_pushed buf"
  have "?p = - 1 \<or> 0 \<le> ?p" using assms(1) by (auto simp: buffer_ok_def)
  then have "push_skipped seq buf = fold (\<lambda>i. receive_push (received_message_new (?p + 1 + i))) [0..seq - ?p - 1 - 1] buf"
    by (auto simp: push_skipped_def Let_def)
  also have "\<dots> = fold (\<lambda>q. receive_push (received_message_new q)) [?p + 1 + 0..?p + 1 + (seq - ?p - 1 - 1)] buf"
    by (rule fold_shift_upto)
  also have "\<dots> = fold (\<lambda>q. receive_push (received_message_new q)) [?p + 1..seq - 1] buf" by simp
  finally show ?thesis using push_run_ok [OF assms] by simp
qed

text \<open>Adding a frame to a message of the buffer, or to a placeholder.\<close>

lemma packet_fields:
  assumes "packet_for sent k i pk"
  shows "mp_type pk = pm_type (fst (sent ! k))" "mp_tt pk = pm_tt (fst (sent ! k))"
    "mp_num_frames pk = int (frames_of (sent ! k))" "mp_total_size pk = int (length (pm_data (fst (sent ! k))))"
    "mp_sequence pk = int k" "mp_frame_index pk = int i" "covers (sent ! k) i (mp_data pk)" "k < length sent"
    "i < frames_of (sent ! k)" "mp_reliable pk"
  using assms by (auto simp: packet_for_def frame_packet_def)

lemma limit_less: "message_ok x \<Longrightarrow> i < frames_of x \<Longrightarrow> i < frames_size"
  by (auto simp: message_ok_def frames_size_def split: prod.splits)

lemma add_to_message_ok:
  assumes all: "\<forall>x \<in> set sent. message_ok x" and pk: "packet_for sent k i pk"
    and msg: "item_ok sent msg" "rx_sequence msg = int k"
  shows "\<exists>msg'. add_to_message pk msg = Some msg' \<and> tracks (sent ! k) msg' \<and> rx_sequence msg' = int k \<and> \<not> rx_frames msg' ! i \<and>
    (\<forall>j. rx_data msg \<noteq> None \<and> \<not> rx_frames msg ! j \<longrightarrow> \<not> rx_frames msg' ! j)"
proof -
  note f = packet_fields [OF pk]
  have x: "message_ok (sent ! k)" using all f(8) by simp
  have i: "i < frames_size" by (rule limit_less [OF x f(9)])
  have "\<exists>msg1. (if rx_placeholder msg then rx_init (mp_type pk) (mp_tt pk) (mp_num_frames pk) (mp_total_size pk) msg else Some msg) = Some msg1 \<and>
    tracks (sent ! k) msg1 \<and> rx_sequence msg1 = int k \<and> (rx_data msg \<noteq> None \<longrightarrow> msg1 = msg)"
  proof (cases "tracks (sent ! k) msg")
    case True
    then show ?thesis using msg(2) by (auto simp: rx_placeholder_def tracks_def)
  next
    case False
    then have "msg = received_message_new (int k)" using msg by (simp add: item_ok_def)
    moreover obtain msg1 where "rx_init (mp_type pk) (mp_tt pk) (mp_num_frames pk) (mp_total_size pk) (received_message_new (int k)) = Some msg1"
      "tracks (sent ! k) msg1" "rx_sequence msg1 = int k"
      using init_tracks [OF x, of "int k"] f(1-4) by auto
    ultimately show ?thesis by (auto simp: rx_placeholder_def received_message_new_def)
  qed
  then obtain msg1 where 1: "(if rx_placeholder msg then rx_init (mp_type pk) (mp_tt pk) (mp_num_frames pk) (mp_total_size pk) msg else Some msg) = Some msg1"
    "tracks (sent ! k) msg1" "rx_sequence msg1 = int k" "rx_data msg \<noteq> None \<longrightarrow> msg1 = msg" by blast
  have has: "rx_has_frame (int i) msg1 = Some (\<not> rx_frames msg1 ! i)"
    using 1(2) i by (auto simp: rx_has_frame_def rx_placeholder_def tracks_def bitset_get_def)
  show ?thesis
  proof (cases "rx_frames msg1 ! i")
    case False
    then show ?thesis using 1 has f(6) by (auto simp: add_to_message_def)
  next
    case True
    obtain msg2 where 2: "rx_add_frame (int i) (mp_data pk) msg1 = Some msg2" "tracks (sent ! k) msg2" "rx_sequence msg2 = int k"
      "rx_frames msg2 = (rx_frames msg1)[i := False]"
      using add_frame_tracks [OF x 1(2) f(7,9) True] 1(3) by auto
    have "length (rx_frames msg1) = frames_size" using 1(2) by (simp add: tracks_def)
    then have "\<not> rx_frames msg2 ! i" using i 2(4) by simp
    moreover have "\<not> rx_frames msg2 ! j" if "\<not> rx_frames msg1 ! j" for j
      using that True 2(4) by (cases "j = i") auto
    moreover have "add_to_message pk msg = Some msg2"
      unfolding add_to_message_def using 1(1) has True f(6) 2(1) by simp
    ultimately show ?thesis using 2(2,3) 1(4) by auto
  qed
qed

lemma add_new_message_ok:
  assumes all: "\<forall>x \<in> set sent. message_ok x" and pk: "packet_for sent k i pk" and b: "buffer_ok sent buf"
    and new: "mb_last_pushed buf < int k"
  shows "\<exists>buf'. add_new_message pk buf = Some buf' \<and> buffer_ok sent buf' \<and> keeps_frames buf buf' \<and> has_frame buf' k i \<and>
    mb_last_popped buf' = mb_last_popped buf"
proof -
  note f = packet_fields [OF pk]
  have x: "message_ok (sent ! k)" using all f(8) by simp
  let ?buf = "push_skipped (int k) buf"
  have 1: "buffer_ok sent ?buf" "mb_last_pushed ?buf = int k - 1" "mb_last_popped ?buf = mb_last_popped buf" "keeps_frames buf ?buf"
    using push_skipped_ok [OF b _ new] f(8) by auto
  obtain msg1 where 2: "rx_init (mp_type pk) (mp_tt pk) (mp_num_frames pk) (mp_total_size pk) (received_message_new (int k)) = Some msg1"
    "tracks (sent ! k) msg1" "rx_sequence msg1 = int k" "rx_frames msg1 ! i"
    using init_tracks [OF x, of "int k"] f(1-4,9) by auto
  obtain msg2 where 3: "rx_add_frame (int i) (mp_data pk) msg1 = Some msg2" "tracks (sent ! k) msg2" "rx_sequence msg2 = int k"
    "rx_frames msg2 = (rx_frames msg1)[i := False]"
    using add_frame_tracks [OF x 2(2) f(7,9) 2(4)] 2(3) by auto
  have "item_ok sent msg2" using 3(2,3) by (simp add: item_ok_def)
  then have 4: "buffer_ok sent (receive_push msg2 ?buf)" "keeps_frames ?buf (receive_push msg2 ?buf)"
    using push_ok [OF 1(1)] 1(2) 3(3) f(8) by simp_all
  have "\<not> rx_frames msg2 ! i" "rx_data msg2 \<noteq> None"
    using 3(2,4) 2(2) limit_less [OF x f(9)] by (auto simp: tracks_def)
  then have "has_frame (receive_push msg2 ?buf) k i" using 3(3) by (auto simp: has_frame_def receive_push_def)
  moreover have "add_new_message pk buf = Some (receive_push msg2 ?buf)"
    using 2(1) 3(1) f(5,6) by (simp add: add_new_message_def)
  ultimately show ?thesis using 4 keeps_trans [OF 1(4) 4(2)] 1(3) by (auto simp: receive_push_def)
qed

lemma store_packet_ok:
  assumes all: "\<forall>x \<in> set sent. message_ok x" and pk: "packet_for sent k i pk" and b: "buffer_ok sent buf"
    and pending: "mb_last_popped buf < int k"
  shows "\<exists>buf'. store_packet pk buf = Some buf' \<and> buffer_ok sent buf' \<and> keeps_frames buf buf' \<and> has_frame buf' k i \<and>
    mb_last_popped buf' = mb_last_popped buf"
proof (cases "mb_last_pushed buf < int k")
  case True
  then show ?thesis using add_new_message_ok [OF all pk b True] packet_fields(5) [OF pk] by (simp add: store_packet_def)
next
  case False
  let ?j = "nat (int k - (mb_last_popped buf + 1))"
  have j: "?j < length (mb_data buf)" using b False pending by (auto simp: buffer_ok_def)
  have run: "\<forall>i < length (mb_data buf). rx_sequence (mb_data buf ! i) = mb_last_popped buf + 1 + int i"
    using b by (simp add: buffer_ok_def)
  have find: "receive_find (int k) buf = Some ?j"
    unfolding receive_find_def using find_seq_run [OF run, of "int k"] pending False b by (simp add: buffer_ok_def)
  have item: "item_ok sent (mb_data buf ! ?j)" "rx_sequence (mb_data buf ! ?j) = int k"
    using b j pending by (auto simp: buffer_ok_def)
  obtain msg where msg: "add_to_message pk (mb_data buf ! ?j) = Some msg" "tracks (sent ! k) msg" "rx_sequence msg = int k"
    "\<not> rx_frames msg ! i" "\<forall>l. rx_data (mb_data buf ! ?j) \<noteq> None \<and> \<not> rx_frames (mb_data buf ! ?j) ! l \<longrightarrow> \<not> rx_frames msg ! l"
    using add_to_message_ok [OF all pk item] by blast
  let ?buf = "buf\<lparr> mb_data := (mb_data buf)[?j := msg] \<rparr>"
  have "item_ok sent msg" using msg(2,3) by (simp add: item_ok_def)
  then have "buffer_ok sent ?buf" using b msg(3) item(2) j by (auto simp: buffer_ok_def nth_list_update)
  moreover have data: "rx_data msg \<noteq> None" using msg(2) by (auto simp: tracks_def)
  have "keeps_frames buf ?buf"
    unfolding keeps_frames_def
  proof (intro allI impI)
    fix k' l assume h: "has_frame buf k' l"
    show "has_frame ?buf k' l"
    proof (cases "int k' \<le> mb_last_popped buf")
      case True
      then show ?thesis by (simp add: has_frame_def)
    next
      case False
      then obtain n where n: "n < length (mb_data buf)" "rx_sequence (mb_data buf ! n) = int k'" "rx_data (mb_data buf ! n) \<noteq> None"
        "\<not> rx_frames (mb_data buf ! n) ! l" using h by (auto simp: has_frame_def in_set_conv_nth)
      define m where "m = (if n = ?j then msg else mb_data buf ! n)"
      have "(mb_data buf)[?j := msg] ! n = m" using n(1) by (simp add: m_def nth_list_update)
      then have "m \<in> set (mb_data ?buf)" using n(1) by (auto simp: in_set_conv_nth)
      moreover have "rx_sequence m = int k'" using n(2) msg(3) item(2) by (auto simp: m_def)
      moreover have "rx_data m \<noteq> None" using n(3) data by (simp add: m_def)
      moreover have "\<not> rx_frames m ! l" using n(3,4) msg(5) by (auto simp: m_def)
      ultimately show ?thesis unfolding has_frame_def by blast
    qed
  qed
  moreover have "has_frame ?buf k i" using msg(3,4) data j by (auto simp: has_frame_def intro!: bexI [of _ msg] set_update_memI)
  ultimately show ?thesis using False find msg(1) packet_fields(5) [OF pk] by (simp add: store_packet_def)
qed

subsection \<open>Delivery\<close>

definition event_of :: "framed \<Rightarrow> peer_event" where
  "event_of x = PeerMessage (pm_tt (fst x)) (pm_type (fst x)) (map Some (pm_data (fst x)))"

text \<open>Nothing is left to deliver.\<close>

definition settled :: "message_receive_buffer \<Rightarrow> bool" where
  "settled buf \<longleftrightarrow> (case mb_data buf of [] \<Rightarrow> True | msg # _ \<Rightarrow> \<not> rx_complete msg)"

lemma pop_ok:
  assumes all: "\<forall>x \<in> set sent. message_ok x" and b: "buffer_ok sent buf" and d: "mb_data buf = msg # rest" and c: "rx_complete msg"
  shows "buffer_ok sent (receive_pop buf)" "keeps_frames buf (receive_pop buf)" "mb_last_popped (receive_pop buf) = mb_last_popped buf + 1"
    "nat (mb_last_popped buf + 1) < length sent"
    "PeerMessage (rx_tt msg) (rx_type msg) (the (rx_data msg)) = event_of (sent ! nat (mb_last_popped buf + 1))"
proof -
  have msg: "rx_sequence msg = mb_last_popped buf + 1" "item_ok sent msg" using b d by (force simp: buffer_ok_def)+
  show lt: "nat (mb_last_popped buf + 1) < length sent" using b d by (auto simp: buffer_ok_def)
  show "mb_last_popped (receive_pop buf) = mb_last_popped buf + 1" using d msg(1) by (simp add: receive_pop_def)
  have "rx_sequence (rest ! i) = mb_last_popped buf + 1 + 1 + int i \<and> item_ok sent (rest ! i)" if "i < length rest" for i
    using b d that by (auto simp: buffer_ok_def dest: spec [of _ "Suc i"])
  then show "buffer_ok sent (receive_pop buf)" using b d msg(1) by (simp add: buffer_ok_def receive_pop_def)
  show "keeps_frames buf (receive_pop buf)"
    using d msg(1) by (auto simp: keeps_frames_def has_frame_def receive_pop_def)
  have "rx_data (received_message_new (rx_sequence msg)) = None" by (simp add: received_message_new_def)
  then have "msg \<noteq> received_message_new (rx_sequence msg)" using c unfolding rx_complete_def by metis
  then have t: "tracks (sent ! nat (mb_last_popped buf + 1)) msg" using msg by (simp add: item_ok_def)
  have "message_ok (sent ! nat (mb_last_popped buf + 1))" using all lt by simp
  from tracks_complete [OF this t c] t show "PeerMessage (rx_tt msg) (rx_type msg) (the (rx_data msg)) = event_of (sent ! nat (mb_last_popped buf + 1))"
    by (simp add: event_of_def tracks_def)
qed

lemma deliver_complete_ok:
  assumes all: "\<forall>x \<in> set sent. message_ok x" and "buffer_ok sent (pe_receive_buffer p)" and "length (mb_data (pe_receive_buffer p)) \<le> n"
  shows "\<exists>c buf. deliver_complete n p = p\<lparr> pe_events := pe_events p @
      map event_of (take c (drop (nat (mb_last_popped (pe_receive_buffer p) + 1)) sent)), pe_receive_buffer := buf \<rparr> \<and>
    buffer_ok sent buf \<and> mb_last_popped buf = mb_last_popped (pe_receive_buffer p) + int c \<and>
    keeps_frames (pe_receive_buffer p) buf \<and> settled buf"
  using assms(2,3)
proof (induction n arbitrary: p)
  case 0
  then show ?case by (intro exI [of _ 0] exI [of _ "pe_receive_buffer p"]) (simp add: keeps_refl settled_def)
next
  case (Suc n)
  let ?b = "pe_receive_buffer p"
  show ?case
  proof (cases "\<exists>msg rest. mb_data ?b = msg # rest \<and> rx_complete msg")
    case False
    then have "deliver_complete (Suc n) p = p" "settled ?b"
      by (auto simp: settled_def rx_complete_def split: list.splits option.splits)
    then show ?thesis using Suc.prems(1) by (intro exI [of _ 0] exI [of _ ?b]) (simp add: keeps_refl)
  next
    case True
    then obtain msg rest where d: "mb_data ?b = msg # rest" and c: "rx_complete msg" by blast
    note pop = pop_ok [OF all Suc.prems(1) d c]
    let ?k = "nat (mb_last_popped ?b + 1)"
    define p1 where "p1 = (peer_event (event_of (sent ! ?k)) p)\<lparr> pe_receive_buffer := receive_pop ?b \<rparr>"
    have e: "deliver_complete (Suc n) p = deliver_complete n p1"
      using d c pop(5) by (auto simp: p1_def rx_complete_def)
    have p1: "pe_receive_buffer p1 = receive_pop ?b" "pe_events p1 = pe_events p @ [event_of (sent ! ?k)]"
      by (simp_all add: p1_def peer_event_def)
    obtain c' buf where ih: "deliver_complete n p1 = p1\<lparr> pe_events := pe_events p1 @
        map event_of (take c' (drop (nat (mb_last_popped (pe_receive_buffer p1) + 1)) sent)), pe_receive_buffer := buf \<rparr>"
      "buffer_ok sent buf" "mb_last_popped buf = mb_last_popped (pe_receive_buffer p1) + int c'" "keeps_frames (pe_receive_buffer p1) buf" "settled buf"
      using Suc.IH [of p1] Suc.prems(2) d pop(1) p1(1) by (auto simp: receive_pop_def)
    have "nat (mb_last_popped (pe_receive_buffer p1) + 1) = Suc ?k"
      using Suc.prems(1) p1(1) pop(3) by (simp add: buffer_ok_def Suc_nat_eq_nat_zadd1)
    moreover have "take (Suc c') (drop ?k sent) = sent ! ?k # take c' (drop (Suc ?k) sent)"
      using pop(4) by (simp add: Cons_nth_drop_Suc [symmetric])
    ultimately have "deliver_complete (Suc n) p = p\<lparr> pe_events := pe_events p @
        map event_of (take (Suc c') (drop ?k sent)), pe_receive_buffer := buf \<rparr>"
      using e ih(1) p1(2) by (simp add: p1_def peer_event_def)
    moreover have "mb_last_popped buf = mb_last_popped ?b + int (Suc c')" using ih(3) p1(1) pop(3) by simp
    moreover have "keeps_frames ?b buf" using keeps_trans [OF pop(2)] ih(4) p1(1) by simp
    ultimately show ?thesis using ih(2,5) by blast
  qed
qed

definition messages :: "peer \<Rightarrow> peer_event list" where
  "messages p = filter (\<lambda>e. case e of PeerMessage _ _ _ \<Rightarrow> True | _ \<Rightarrow> False) (pe_events p)"

definition receiver_ok :: "framed list \<Rightarrow> peer \<Rightarrow> bool" where
  "receiver_ok sent p \<longleftrightarrow> buffer_ok sent (pe_receive_buffer p) \<and> settled (pe_receive_buffer p) \<and>
     messages p = map event_of (take (nat (mb_last_popped (pe_receive_buffer p) + 1)) sent)"

lemma take_take_drop_bytes: "a \<le> length xs \<Longrightarrow> take a xs @ take c (drop a xs) = take (a + c) xs"
  by (simp add: take_add)

lemma handle_reliable_ok:
  assumes all: "\<forall>x \<in> set sent. message_ok x" and pk: "packet_for sent k i pk" and r: "receiver_ok sent p"
  shows "\<exists>buf ev. handle_reliable pk p = Some (p\<lparr> pe_receive_buffer := buf, pe_events := ev,
      pe_send_acks := pe_send_acks p @ [\<lparr> ma_sequence = int k, ma_frame_index = int i \<rparr>] \<rparr>) \<and>
    receiver_ok sent (p\<lparr> pe_receive_buffer := buf, pe_events := ev \<rparr>) \<and> keeps_frames (pe_receive_buffer p) buf \<and> has_frame buf k i"
proof -
  let ?b = "pe_receive_buffer p"
  note f = packet_fields [OF pk]
  show ?thesis
  proof (cases "int k \<le> mb_last_popped ?b")
    case True
    then show ?thesis using r f(5,6) keeps_refl
      by (intro exI [of _ ?b] exI [of _ "pe_events p"]) (simp add: handle_reliable_def push_ack_def has_frame_def)
  next
    case False
    have b: "buffer_ok sent ?b" using r by (simp add: receiver_ok_def)
    obtain buf1 where 1: "store_packet pk ?b = Some buf1" "buffer_ok sent buf1" "keeps_frames ?b buf1" "has_frame buf1 k i"
      "mb_last_popped buf1 = mb_last_popped ?b"
      using store_packet_ok [OF all pk b] False by auto
    let ?p1 = "p\<lparr> pe_receive_buffer := buf1 \<rparr>" and ?a = "nat (mb_last_popped ?b + 1)"
    have "buffer_ok sent (pe_receive_buffer ?p1)" "length (mb_data (pe_receive_buffer ?p1)) \<le> length (mb_data buf1)" using 1(2) by simp_all
    from deliver_complete_ok [OF all this] obtain c buf where 2:
      "deliver_complete (length (mb_data buf1)) ?p1 = ?p1\<lparr> pe_events := pe_events p @ map event_of (take c (drop ?a sent)), pe_receive_buffer := buf \<rparr>"
      "buffer_ok sent buf" "mb_last_popped buf = mb_last_popped ?b + int c" "keeps_frames buf1 buf" "settled buf"
      using 1(5) by auto
    have le: "?a \<le> length sent" "- 1 \<le> mb_last_popped ?b" using b by (auto simp: buffer_ok_def)
    have "filter (\<lambda>e. case e of PeerMessage _ _ _ \<Rightarrow> True | _ \<Rightarrow> False) (map event_of xs) = map event_of xs" for xs
      by (simp add: filter_id_conv event_of_def)
    then have "messages (p\<lparr> pe_receive_buffer := buf, pe_events := pe_events p @ map event_of (take c (drop ?a sent)) \<rparr>)
      = map event_of (take ?a sent @ take c (drop ?a sent))"
      using r by (simp add: messages_def receiver_ok_def)
    also have "\<dots> = map event_of (take (nat (mb_last_popped buf + 1)) sent)"
    proof -
      have "nat (mb_last_popped buf + 1) = ?a + c" using 2(3) le(2) by simp
      then show ?thesis using take_take_drop_bytes [OF le(1), of c] by simp
    qed
    finally have "receiver_ok sent (p\<lparr> pe_receive_buffer := buf, pe_events := pe_events p @ map event_of (take c (drop ?a sent)) \<rparr>)"
      using 2(2,5) by (simp add: receiver_ok_def)
    moreover have "has_frame buf k i" using 1(4) 2(4) by (simp add: keeps_frames_def)
    ultimately show ?thesis
      using False 1(1) 2(1) keeps_trans [OF 1(3) 2(4)] f(5,6)
      by (intro exI [of _ buf] exI [of _ "pe_events p @ map event_of (take c (drop ?a sent))"]) (simp add: handle_reliable_def push_ack_def)
  qed
qed

text \<open>When the receiver has every frame, it has delivered every message.\<close>

lemma all_frames_delivered:
  assumes all: "\<forall>x \<in> set sent. message_ok x" and r: "receiver_ok sent p"
    and h: "\<forall>k < length sent. \<forall>i < frames_of (sent ! k). has_frame (pe_receive_buffer p) k i"
  shows "messages p = map event_of sent"
proof -
  let ?b = "pe_receive_buffer p"
  have b: "buffer_ok sent ?b" using r by (simp add: receiver_ok_def)
  have has0: "has_frame ?b k 0" if "k < length sent" for k
    using h that frames_of_bounds(1) all by simp
  have empty: "mb_data ?b = []"
  proof (rule ccontr)
    assume "mb_data ?b \<noteq> []"
    then obtain msg rest where d: "mb_data ?b = msg # rest" by (cases "mb_data ?b") auto
    let ?k = "nat (mb_last_popped ?b + 1)"
    have seq: "rx_sequence msg = int ?k" "item_ok sent msg" "?k < length sent" using b d by (force simp: buffer_ok_def)+
    have only: "m = msg" if "m \<in> set (mb_data ?b)" "rx_sequence m = int ?k" for m
      using that b d by (auto simp: buffer_ok_def in_set_conv_nth)
    have "rx_data msg \<noteq> None \<and> \<not> rx_frames msg ! i" if "i < frames_of (sent ! ?k)" for i
      using h seq(3) that only b by (force simp: has_frame_def buffer_ok_def)
    moreover have "0 < frames_of (sent ! ?k)" using frames_of_bounds(1) all seq(3) by simp
    ultimately have m: "rx_data msg \<noteq> None" "\<forall>i < frames_of (sent ! ?k). \<not> rx_frames msg ! i" by blast+
    have "rx_data (received_message_new (rx_sequence msg)) = None" by (simp add: received_message_new_def)
    then have "msg \<noteq> received_message_new (rx_sequence msg)" using m(1) by metis
    moreover have "nat (rx_sequence msg) = ?k" by (simp only: seq(1) nat_int)
    ultimately have "tracks (sent ! ?k) msg" using seq(2) unfolding item_ok_def by metis
    then have "rx_complete msg" using m by (auto simp: rx_complete_def bitset_none_iff tracks_def not_less)
    then show False using r d by (simp add: receiver_ok_def settled_def)
  qed
  have "length sent \<le> nat (mb_last_popped ?b + 1)"
  proof (rule ccontr)
    assume "\<not> ?thesis"
    then have "has_frame ?b (nat (mb_last_popped ?b + 1)) 0" by (intro has0) simp
    then show False using empty b by (simp add: has_frame_def buffer_ok_def)
  qed
  then show ?thesis using r by (simp add: receiver_ok_def)
qed

end
