(* ===== verification/Peer_Send.thy ===== *)
theory Peer_Send
  imports Peer_Receive
begin

text \<open>
  The sending side of the reliable messages: the packets that are sent and resent carry frames of the
  messages, and a frame is only marked as acknowledged when the receiver has it.
\<close>

subsection \<open>Packets in the network\<close>

fun payload :: "datagram \<Rightarrow> byte list set" where
  "payload (Binary b) = {b}"
| "payload (Osc _) = {}"
| "payload (RelayMessage _ _ d) = payload d"

definition binaries :: "sends \<Rightarrow> byte list set" where
  "binaries out = (\<Union>x \<in> set out. payload (fst x))"

lemma payload_send_out [simp]: "payload (fst (peer_send_out d p)) = payload d"
  by (simp add: peer_send_out_def peer_send_to_def)

lemma binaries_simps [simp]:
  "binaries [] = {}" "binaries (x # xs) = payload (fst x) \<union> binaries xs" "binaries (xs @ ys) = binaries xs \<union> binaries ys"
  by (auto simp: binaries_def)

definition packet_bytes :: "byte list \<Rightarrow> framed list \<Rightarrow> byte list \<Rightarrow> bool" where
  "packet_bytes hdr sent b \<longleftrightarrow> (\<exists>k i pk. packet_for sent k i pk \<and> b = hdr @ packet_image pk @ mp_data pk)"

lemma covers_fits:
  assumes x: "message_ok x" and c: "covers x i bytes" and i: "i < frames_of x"
  shows "length bytes + 44 \<le> AOO_MAX_PACKET_SIZE"
proof (cases "frames_of x > 1")
  case False
  then have "i = 0" "frames_of x = 1" using i by auto
  then show ?thesis using x c False by (auto simp: message_ok_def covers_def split: prod.splits)
next
  case True
  let ?n = "length (pm_data (fst x))" and ?s = "snd x"
  have ok: "?n mod ?s \<noteq> 0" "?s + ?n mod ?s + 44 \<le> AOO_MAX_PACKET_SIZE"
    using x True by (auto simp: message_ok_def split: prod.splits)
  note b = frames_of_bounds [OF x]
  show ?thesis
  proof (cases "i = frames_of x - 1")
    case last: True
    then obtain ofs where ofs: "(i - 1) * ?s \<le> ofs" "bytes = drop ofs (pm_data (fst x))" using c by (auto simp: covers_def)
    have "?n < frames_of x * ?s"
    proof (rule ccontr)
      assume "\<not> ?thesis"
      then have "?n = frames_of x * ?s" using b(3) by simp
      then show False using ok(1) by simp
    qed
    then have "?n < (i + 1) * ?s" "i * ?s \<le> ?n" using b(1,2) last by simp_all
    then have "?n mod ?s = ?n - i * ?s"
      by (metis Suc_eq_plus1 div_nat_eqI minus_div_mult_eq_mod mult.commute)
    moreover have "0 < i" using True last by simp
    then have "i * ?s = (i - 1) * ?s + ?s" by (cases i) auto
    ultimately show ?thesis using ok(2) ofs by simp
  next
    case False
    then show ?thesis using c ok(2) by (auto simp: covers_def)
  qed
qed

lemma packet_for_wf:
  assumes all: "\<forall>x \<in> set sent. message_ok x" and pk: "packet_for sent k i pk" and "length sent < 2 ^ 31"
  shows "packet_wf pk" "length (mp_data pk) + 44 \<le> AOO_MAX_PACKET_SIZE"
proof -
  note f = packet_fields [OF pk]
  have x: "message_ok (sent ! k)" using all f(8) by simp
  show fit: "length (mp_data pk) + 44 \<le> AOO_MAX_PACKET_SIZE" by (rule covers_fits [OF x f(7,9)])
  have F: "frames_of (sent ! k) \<le> 256" "int32_ok (pm_type (fst (sent ! k)))" using x by (auto simp: message_ok_def split: prod.splits)
  have s: "snd (sent ! k) \<le> AOO_MAX_PACKET_SIZE \<or> frames_of (sent ! k) = 1"
    using x frames_of_bounds(1) [OF x] by (auto simp: message_ok_def split: prod.splits if_splits)
  have "length (pm_data (fst (sent ! k))) \<le> 256 * AOO_MAX_PACKET_SIZE"
    using s
  proof
    assume "snd (sent ! k) \<le> AOO_MAX_PACKET_SIZE"
    then have "frames_of (sent ! k) * snd (sent ! k) \<le> 256 * AOO_MAX_PACKET_SIZE" using F(1) by (intro mult_le_mono)
    then show ?thesis using frames_of_bounds(3) [OF x] by linarith
  next
    assume "frames_of (sent ! k) = 1"
    then show ?thesis using x by (auto simp: message_ok_def AOO_MAX_PACKET_SIZE_def split: prod.splits)
  qed
  then have total_size: "int32_ok (mp_total_size pk)" using f(4) by (simp add: int32_ok_def AOO_MAX_PACKET_SIZE_def)
  have "mp_frame_index pk = 0 \<and> mp_total_size pk = int (length (mp_data pk))" if "frames_of (sent ! k) = 1"
    using that f(4,6,7,9) by (auto simp: covers_def)
  moreover have "frames_of (sent ! k) > 0" by (rule frames_of_bounds(1) [OF x])
  ultimately show "packet_wf pk"
    using F f(1,3,5,6,8,9) total_size fit assms(3) by (auto simp: packet_wf_def int32_ok_def AOO_MAX_PACKET_SIZE_def)
qed

lemma send_packet_ok:
  assumes all: "\<forall>x \<in> set sent. message_ok x" and pk: "packet_for sent k i pk" and "length sent < 2 ^ 31"
  shows "\<exists>b. peer_send_packet True pk p = Some (peer_send_out (Binary b) p) \<and> packet_bytes (message_header 0 p) sent b"
proof -
  have "length (message_header 0 p) + length (packet_image pk) + length (mp_data pk) \<le> AOO_MAX_PACKET_SIZE"
    using message_header_length [of 0 p] packet_image_length [of pk] packet_for_wf(2) [OF assms] by linarith
  then show ?thesis using pk by (auto simp: peer_send_packet_def peer_packet_bin_image packet_bytes_def)
qed

subsection \<open>The sender\<close>

definition tx_ok :: "framed list \<Rightarrow> sent_message \<Rightarrow> bool" where
  "tx_ok sent tx \<longleftrightarrow> (\<exists>k < length sent. tx_sequence tx = int k \<and> tx_type tx = pm_type (fst (sent ! k)) \<and>
     tx_data tx = pm_data (fst (sent ! k)) \<and> tx_tt tx = pm_tt (fst (sent ! k)) \<and>
     tx_num_frames tx = int (frames_of (sent ! k)) \<and>
     (frames_of (sent ! k) > 1 \<longrightarrow> tx_frame_size tx = int (snd (sent ! k))) \<and>
     length (tx_frames tx) = frames_size \<and> (\<forall>j < frames_size. frames_of (sent ! k) \<le> j \<longrightarrow> \<not> tx_frames tx ! j))"

text \<open>The frames that are marked as acknowledged have been received.\<close>

definition acked_ok :: "framed list \<Rightarrow> message_receive_buffer \<Rightarrow> sent_message \<Rightarrow> bool" where
  "acked_ok sent buf tx \<longleftrightarrow> tx_ok sent tx \<and>
     (\<forall>i < frames_of (sent ! nat (tx_sequence tx)). \<not> tx_frames tx ! i \<longrightarrow> has_frame buf (nat (tx_sequence tx)) i)"

definition sender_ok :: "framed list \<Rightarrow> message_receive_buffer \<Rightarrow> message_send_buffer \<Rightarrow> bool" where
  "sender_ok sent buf txs \<longleftrightarrow> (\<forall>tx \<in> set txs. acked_ok sent buf tx) \<and>
     (\<forall>k < length sent. (\<exists>tx \<in> set txs. tx_sequence tx = int k) \<or> (\<forall>i < frames_of (sent ! k). has_frame buf k i))"

definition ack_ok :: "framed list \<Rightarrow> message_receive_buffer \<Rightarrow> message_ack \<Rightarrow> bool" where
  "ack_ok sent buf a \<longleftrightarrow> (\<exists>k i. a = \<lparr> ma_sequence = int k, ma_frame_index = int i \<rparr> \<and> k < length sent \<and>
     i < frames_of (sent ! k) \<and> has_frame buf k i)"

lemma keeps_sender: "keeps_frames buf buf' \<Longrightarrow> sender_ok sent buf txs \<Longrightarrow> sender_ok sent buf' txs"
  by (auto simp: sender_ok_def acked_ok_def keeps_frames_def)

lemma keeps_ack: "keeps_frames buf buf' \<Longrightarrow> ack_ok sent buf a \<Longrightarrow> ack_ok sent buf' a"
  by (auto simp: ack_ok_def keeps_frames_def)

lemma apply_ack_ok:
  assumes all: "\<forall>x \<in> set sent. message_ok x" and s: "sender_ok sent buf txs" and a: "ack_ok sent buf a"
  shows "\<exists>txs'. apply_ack a txs = Some txs' \<and> sender_ok sent buf txs'"
proof -
  obtain k i where ki: "a = \<lparr> ma_sequence = int k, ma_frame_index = int i \<rparr>" "k < length sent" "i < frames_of (sent ! k)" "has_frame buf k i"
    using a by (auto simp: ack_ok_def)
  have i: "i < frames_size" using limit_less [of "sent ! k" i] ki(2,3) all by simp
  show ?thesis
  proof (cases "send_find (int k) txs")
    case None
    then show ?thesis using s ki(1) by (simp add: apply_ack_def)
  next
    case (Some j)
    then have j: "j < length txs" "tx_sequence (txs ! j) = int k" using find_seq_Some by (auto simp: send_find_def)
    let ?tx = "(txs ! j)\<lparr> tx_frames := (tx_frames (txs ! j))[i := False] \<rparr>"
    have old: "acked_ok sent buf (txs ! j)" using s j(1) by (simp add: sender_ok_def)
    have len: "length (tx_frames (txs ! j)) = frames_size" using old by (auto simp: acked_ok_def tx_ok_def)
    have "tx_ok sent ?tx" using old i by (auto simp: acked_ok_def tx_ok_def nth_list_update)
    moreover have "has_frame buf k l" if "l < frames_of (sent ! k)" "\<not> tx_frames ?tx ! l" for l
      using that old j(2) ki(4) by (cases "l = i") (auto simp: acked_ok_def)
    ultimately have new: "acked_ok sent buf ?tx" using j(2) by (simp add: acked_ok_def)
    have mem: "\<exists>tx' \<in> set (txs[j := ?tx]). tx_sequence tx' = q" if h: "\<exists>tx' \<in> set txs. tx_sequence tx' = q" for q
    proof -
      obtain n where n: "n < length txs" "tx_sequence (txs ! n) = q" using h by (auto simp: in_set_conv_nth)
      then have "tx_sequence (txs[j := ?tx] ! n) = q" "n < length (txs[j := ?tx])" by (cases "n = j"; simp)+
      then show ?thesis using nth_mem by blast
    qed
    have "sender_ok sent buf (txs[j := ?tx])"
      using s new mem set_update_subset_insert [of txs j ?tx] by (fastforce simp: sender_ok_def)
    moreover have "apply_ack a txs = Some (txs[j := ?tx])"
      using Some ki(1) i len by (simp add: apply_ack_def ack_frame_def bitset_set_def)
    ultimately show ?thesis by blast
  qed
qed

lemma apply_acks_ok:
  assumes "\<forall>x \<in> set sent. message_ok x" and "sender_ok sent buf txs" and "\<forall>a \<in> set acks. ack_ok sent buf a"
  shows "\<exists>txs'. apply_acks acks txs = Some txs' \<and> sender_ok sent buf txs'"
  using assms(2,3)
proof (induction acks arbitrary: txs)
  case (Cons a acks)
  then show ?case using apply_ack_ok [OF assms(1) Cons.prems(1), of a] by fastforce
qed simp

lemma pop_acknowledged_ok:
  assumes all: "\<forall>x \<in> set sent. message_ok x" and "sender_ok sent buf txs"
  shows "sender_ok sent buf (pop_acknowledged txs)"
  using assms(2)
proof (induction txs)
  case (Cons tx txs)
  show ?case
  proof (cases "sent_complete tx")
    case True
    have tx: "acked_ok sent buf tx" using Cons.prems by (simp add: sender_ok_def)
    then obtain k where k: "k < length sent" "tx_sequence tx = int k" "length (tx_frames tx) = frames_size" by (auto simp: acked_ok_def tx_ok_def)
    have "has_frame buf k i" if "i < frames_of (sent ! k)" for i
      using that True tx k limit_less [of "sent ! k" i] all by (auto simp: sent_complete_def bitset_none_iff acked_ok_def)
    then have "sender_ok sent buf txs" using Cons.prems k(2) by (auto simp: sender_ok_def)
    then show ?thesis using True Cons.IH by simp
  next
    case False
    then show ?thesis using Cons.prems by simp
  qed
qed simp

text \<open>Resending.\<close>

lemma resend_frame_ok:
  assumes all: "\<forall>x \<in> set sent. message_ok x" and tx: "tx_ok sent tx" and i: "0 \<le> i" "i < tx_num_frames tx"
  shows "\<exists>k data. sent_get_frame i tx = Some data \<and> packet_for sent k (nat i) (peer_resend_packet tx i data)"
proof -
  obtain k where k: "k < length sent" "tx_sequence tx = int k" "tx_type tx = pm_type (fst (sent ! k))"
    "tx_data tx = pm_data (fst (sent ! k))" "tx_tt tx = pm_tt (fst (sent ! k))" "tx_num_frames tx = int (frames_of (sent ! k))"
    "frames_of (sent ! k) > 1 \<longrightarrow> tx_frame_size tx = int (snd (sent ! k))"
    using tx by (auto simp: tx_ok_def)
  let ?x = "sent ! k"
  have x: "message_ok ?x" using all k(1) by simp
  note b = frames_of_bounds [OF x]
  define n where "n = nat i"
  have n: "i = int n" "n < frames_of ?x" using i k(6) by (simp_all add: n_def)
  have "\<exists>data. sent_get_frame i tx = Some data \<and> covers ?x n data"
  proof (cases "frames_of ?x = 1")
    case True
    then show ?thesis using k(4,6) n by (auto simp: sent_get_frame_def covers_def)
  next
    case False
    then have fs: "tx_frame_size tx = int (snd ?x)" "1 < frames_of ?x" using k(7) b(1) by auto
    show ?thesis
    proof (cases "n = frames_of ?x - 1")
      case True
      then have "0 < n" using fs(2) by simp
      then obtain l where l: "n = Suc l" by (cases n) auto
      have "l * snd ?x \<le> (frames_of ?x - 1) * snd ?x" using True l by simp
      then have "l * snd ?x < length (pm_data (fst ?x))" using b(2) by linarith
      moreover have "(i - 1) * tx_frame_size tx = int (l * snd ?x)" using l n(1) fs(1) by simp
      moreover have "tx_num_frames tx \<noteq> 1" "i = tx_num_frames tx - 1" using True fs(2) k(6) n(1) by simp_all
      ultimately have "sent_get_frame i tx = Some (drop (l * snd ?x) (pm_data (fst ?x)))"
        unfolding sent_get_frame_def slice_def Let_def k(4) by (simp del: of_nat_mult add: nat_diff_distrib')
      moreover have "covers ?x (Suc l) (drop (l * snd ?x) (pm_data (fst ?x)))"
      proof -
        have "frames_of ?x = Suc (Suc l)" using True l fs(2) by simp
        then show ?thesis by (auto simp: covers_def intro!: exI [of _ "l * snd ?x"])
      qed
      ultimately show ?thesis using l by blast
    next
      case False
      have "Suc n \<le> frames_of ?x - 1" using False n(2) by simp
      then have "Suc n * snd ?x \<le> (frames_of ?x - 1) * snd ?x" by (rule mult_right_mono) simp
      then have le: "n * snd ?x + snd ?x \<le> length (pm_data (fst ?x))" using b(2) by simp
      have "int n \<noteq> int (frames_of ?x) - 1" using False n(2) by simp
      moreover have "int n * int (snd ?x) = int (n * snd ?x)" by simp
      ultimately have "sent_get_frame i tx = slice (int (n * snd ?x)) (int (snd ?x)) (pm_data (fst ?x))"
        using \<open>frames_of ?x \<noteq> 1\<close> k(4,6) fs(1) n(1) by (simp add: sent_get_frame_def)
      also have "\<dots> = Some (take (snd ?x) (drop (n * snd ?x) (pm_data (fst ?x))))"
      proof -
        have "int (n * snd ?x) + int (snd ?x) \<le> int (length (pm_data (fst ?x)))" using le by linarith
        then show ?thesis by (simp add: slice_def del: of_nat_mult)
      qed
      finally show ?thesis using False by (auto simp: covers_def)
    qed
  qed
  then obtain data where d: "sent_get_frame i tx = Some data" "covers ?x n data" by blast
  have "peer_resend_packet tx i data = frame_packet ?x k n data" using k n(1) by (simp add: peer_resend_packet_def frame_packet_def)
  then have "packet_for sent k (nat i) (peer_resend_packet tx i data)" using d(2) k(1) n by (auto simp: packet_for_def)
  then show ?thesis using d(1) by blast
qed

lemma peer_resend_frames_ok:
  assumes all: "\<forall>x \<in> set sent. message_ok x" and tx: "tx_ok sent tx" and len: "length sent < 2 ^ 31"
    and "\<forall>i \<in> set is. 0 \<le> i \<and> i < tx_num_frames tx"
  shows "\<exists>out. peer_resend_frames True tx is p = Some out \<and> (\<forall>b \<in> binaries out. packet_bytes (message_header 0 p) sent b)"
  using assms(4)
proof (induction "is")
  case (Cons i "is")
  obtain out where ih: "peer_resend_frames True tx is p = Some out" "\<forall>b \<in> binaries out. packet_bytes (message_header 0 p) sent b"
    using Cons by auto
  have i: "0 \<le> i" "i < tx_num_frames tx" using Cons.prems by auto
  obtain k' where "k' < length sent" "tx_num_frames tx = int (frames_of (sent ! k'))" using tx by (auto simp: tx_ok_def)
  then have "i < int frames_size" using i all limit_less [of "sent ! k'" "nat i"] by (simp add: nat_less_iff)
  then have has: "sent_has_frame i tx = Some (\<not> tx_frames tx ! nat i)"
    using tx i by (auto simp: sent_has_frame_def bitset_get_def tx_ok_def)
  obtain k data where d: "sent_get_frame i tx = Some data" "packet_for sent k (nat i) (peer_resend_packet tx i data)"
    using resend_frame_ok [OF all tx i] by blast
  obtain b where "peer_send_packet True (peer_resend_packet tx i data) p = Some (peer_send_out (Binary b) p)"
    "packet_bytes (message_header 0 p) sent b"
    using send_packet_ok [OF all d(2) len] by blast
  then show ?case using ih has d(1) by auto
qed simp

lemma need_resend_keeps:
  "acked_ok sent buf (snd (need_resend now tx)) = acked_ok sent buf tx"
  "tx_sequence (snd (need_resend now tx)) = tx_sequence tx"
  by (simp_all add: need_resend_def Let_def acked_ok_def tx_ok_def)

lemma resend_messages_ok:
  assumes all: "\<forall>x \<in> set sent. message_ok x" and len: "length sent < 2 ^ 31" and "\<forall>tx \<in> set txs. acked_ok sent buf tx"
  shows "\<exists>out txs'. resend_messages True now txs p = Some (out, txs') \<and> (\<forall>b \<in> binaries out. packet_bytes (message_header 0 p) sent b) \<and>
    (\<forall>tx \<in> set txs'. acked_ok sent buf tx) \<and> map tx_sequence txs' = map tx_sequence txs"
  using assms(3)
proof (induction txs)
  case (Cons tx txs)
  obtain out txs' where ih: "resend_messages True now txs p = Some (out, txs')" "\<forall>b \<in> binaries out. packet_bytes (message_header 0 p) sent b"
    "\<forall>tx \<in> set txs'. acked_ok sent buf tx" "map tx_sequence txs' = map tx_sequence txs"
    using Cons by auto
  obtain r tx1 where r: "need_resend now tx = (r, tx1)" by (cases "need_resend now tx")
  have tx1: "acked_ok sent buf tx1" "tx_sequence tx1 = tx_sequence tx"
    using need_resend_keeps(1) [of sent buf now tx] need_resend_keeps(2) [of now tx] r Cons.prems by auto
  obtain out1 where "(if r then peer_resend_frames True tx1 [0..tx_num_frames tx1 - 1] p else Some []) = Some out1"
    "\<forall>b \<in> binaries out1. packet_bytes (message_header 0 p) sent b"
    using peer_resend_frames_ok [OF all _ len, of tx1 "[0..tx_num_frames tx1 - 1]" p] tx1(1)
    by (cases r) (auto simp: acked_ok_def)
  then show ?case using ih r tx1 by auto
qed simp

subsection \<open>Sending a message\<close>

lemma framing:
  assumes x: "message_ok (m, fs)"
  shows "int (length (pm_data m)) sdiv int fs = int (length (pm_data m) div fs)"
    "int (length (pm_data m)) smod int fs = int (length (pm_data m) mod fs)"
    "int (length (pm_data m) div fs) + (if int (length (pm_data m) mod fs) \<noteq> 0 then 1 else 0) = int (frames_of (m, fs))"
    "frames_of (m, fs) > 1 \<Longrightarrow> length (pm_data m) mod fs \<noteq> 0 \<and> length (pm_data m) - length (pm_data m) mod fs = (frames_of (m, fs) - 1) * fs"
proof -
  let ?n = "length (pm_data m)"
  have pos: "0 < fs" "0 < ?n" using x by (auto simp: message_ok_def)
  show "int ?n sdiv int fs = int (?n div fs)" "int ?n smod int fs = int (?n mod fs)"
    using pos by (simp_all add: signed_divide_int_def signed_modulo_int_def zdiv_int zmod_int)
  have F: "frames_of (m, fs) = ?n div fs + (if ?n mod fs \<noteq> 0 then 1 else 0)"
  proof (cases "?n mod fs = 0")
    case True
    then obtain q where "?n = q * fs" by (metis mod_eq_0_iff_dvd dvd_def mult.commute)
    moreover have "(q * fs + (fs - 1)) div fs = q + (fs - 1) div fs" using pos(1) by (intro div_mult_self3) simp
    moreover have "q * fs + fs - 1 = q * fs + (fs - 1)" using pos(1) by linarith
    ultimately show ?thesis using pos(1) True unfolding frames_of_def by simp
  next
    case False
    let ?r = "?n mod fs"
    have eq: "?n + fs - 1 = (?r - 1) + (?n div fs + 1) * fs"
    proof -
      have "?n = ?n div fs * fs + ?r" "(?n div fs + 1) * fs = ?n div fs * fs + fs" "0 < ?r" using False by simp_all
      then show ?thesis by linarith
    qed
    have "?r - 1 < fs" using mod_less_divisor [OF pos(1), of ?n] by linarith
    then have "((?r - 1) + (?n div fs + 1) * fs) div fs = ?n div fs + 1" using pos(1) by (subst div_mult_self1) simp_all
    then show ?thesis using False by (simp only: frames_of_def fst_conv snd_conv eq) simp
  qed
  then show "int (?n div fs) + (if int (?n mod fs) \<noteq> 0 then 1 else 0) = int (frames_of (m, fs))" by simp
  assume "frames_of (m, fs) > 1"
  then have r: "?n mod fs \<noteq> 0" using x by (simp add: message_ok_def)
  then show "?n mod fs \<noteq> 0 \<and> ?n - ?n mod fs = (frames_of (m, fs) - 1) * fs"
    using F minus_mod_eq_div_mult [of ?n fs] by simp
qed

lemma message_frame_covers:
  assumes x: "message_ok (m, fs)" and F: "frames_of (m, fs) > 1" and i: "i < frames_of (m, fs)"
  shows "\<exists>bytes. message_frame m (int fs) (int (length (pm_data m) mod fs)) (int (frames_of (m, fs))) (int i) = Some bytes \<and>
    covers (m, fs) i bytes"
proof -
  let ?n = "length (pm_data m)"
  note b = frames_of_bounds [OF x, simplified]
  note r = framing(4) [OF x F]
  show ?thesis
  proof (cases "i = frames_of (m, fs) - 1")
    case True
    then have "int i = int (frames_of (m, fs)) - 1" using F by simp
    moreover have "int ?n - int (?n mod fs) = int (i * fs)"
      using r True mod_less_eq_dividend [of ?n fs] by (metis of_nat_diff)
    moreover have "i * fs + ?n mod fs = ?n" using r True mod_less_eq_dividend [of ?n fs] by (metis le_add_diff_inverse2)
    then have "int (i * fs) + int (?n mod fs) \<le> int ?n" by linarith
    moreover have "?n mod fs = length (drop (i * fs) (pm_data m))" using \<open>i * fs + ?n mod fs = ?n\<close> by simp
    then have "take (?n mod fs) (drop (i * fs) (pm_data m)) = drop (i * fs) (pm_data m)" by (metis order_refl take_all)
    ultimately have "message_frame m (int fs) (int (?n mod fs)) (int (frames_of (m, fs))) (int i) = Some (drop (i * fs) (pm_data m))"
      by (simp add: message_frame_def slice_def del: of_nat_mult)
    moreover have "covers (m, fs) i (drop (i * fs) (pm_data m))"
      using True unfolding covers_def by (auto intro!: exI [of _ "i * fs"])
    ultimately show ?thesis by blast
  next
    case False
    have "Suc i \<le> frames_of (m, fs) - 1" using False i by simp
    then have "Suc i * fs \<le> (frames_of (m, fs) - 1) * fs" by (rule mult_right_mono) simp
    then have "i * fs + fs \<le> ?n" using b(2) by simp
    then have "int (i * fs) + int fs \<le> int ?n" by linarith
    moreover have "int i * int fs = int (i * fs)" by simp
    moreover have "int i \<noteq> int (frames_of (m, fs)) - 1" using False i by simp
    ultimately have "message_frame m (int fs) (int (?n mod fs)) (int (frames_of (m, fs))) (int i) = Some (take fs (drop (i * fs) (pm_data m)))"
      by (simp add: message_frame_def slice_def del: of_nat_mult)
    then show ?thesis using False by (auto simp: covers_def)
  qed
qed

lemma message_frames_ok:
  assumes x: "message_ok x" "x = (m, fs)" "sent ! k = x" "k < length sent" and F: "frames_of x > 1"
    and "\<forall>i \<in> set is. 0 \<le> i \<and> i < int (frames_of x)"
  shows "\<exists>pks. message_frames m (int fs) (int (length (pm_data m) mod fs)) (packet_of m (int (frames_of x)) (int k)) is = Some pks \<and>
    (\<forall>pk \<in> set pks. \<exists>i. packet_for sent k i pk)"
  using assms(6)
proof (induction "is")
  case (Cons i "is")
  obtain pks where ih: "message_frames m (int fs) (int (length (pm_data m) mod fs)) (packet_of m (int (frames_of x)) (int k)) is = Some pks"
    "\<forall>pk \<in> set pks. \<exists>i. packet_for sent k i pk" using Cons by auto
  obtain n where n: "i = int n" "n < frames_of x" using Cons.prems by (auto dest: nonneg_int_cases)
  obtain bytes where b: "message_frame m (int fs) (int (length (pm_data m) mod fs)) (int (frames_of x)) (int n) = Some bytes" "covers x n bytes"
    using message_frame_covers [of m fs n] x(1,2) F n(2) by auto
  have "(packet_of m (int (frames_of x)) (int k))\<lparr> mp_frame_index := i, mp_data := bytes \<rparr> = frame_packet x k n bytes"
    using x(1,2) n(1) by (simp add: packet_of_def frame_packet_def message_ok_def)
  then have "packet_for sent k n ((packet_of m (int (frames_of x)) (int k))\<lparr> mp_frame_index := i, mp_data := bytes \<rparr>)"
    using b(2) n(2) x(3,4) by (auto simp: packet_for_def)
  then show ?case using ih b(1) n(1) by (auto simp: packet_of_def)
qed simp

lemma send_packets_ok:
  assumes "\<forall>x \<in> set sent. message_ok x" and "length sent < 2 ^ 31" and "\<forall>pk \<in> set pks. \<exists>k i. packet_for sent k i pk"
  shows "\<exists>out. peer_send_packets True pks p = Some out \<and> (\<forall>b \<in> binaries out. packet_bytes (message_header 0 p) sent b)"
  using assms(3)
proof (induction pks)
  case (Cons pk pks)
  then obtain k i where pk: "packet_for sent k i pk" by auto
  obtain b where "peer_send_packet True pk p = Some (peer_send_out (Binary b) p)" "packet_bytes (message_header 0 p) sent b"
    using send_packet_ok [OF assms(1) pk assms(2)] by blast
  then show ?case using Cons by auto
qed simp

lemma send_message_ok:
  assumes x: "message_ok (m, fs)" and all: "\<forall>x \<in> set sent. message_ok x" and len: "length sent + 1 < 2 ^ 31"
    and p: "pe_next_sequence_reliable p = int (length sent)" "pe_connected p"
  shows "\<exists>out tx. send_message m (int fs + kBinMessageHeaderSize) True p = Some (out,
      p\<lparr> pe_next_sequence_reliable := int (length sent + 1), pe_send_buffer := pe_send_buffer p @ [tx] \<rparr>) \<and>
    (\<forall>b \<in> binaries out. packet_bytes (message_header 0 p) (sent @ [(m, fs)]) b) \<and>
    tx_ok (sent @ [(m, fs)]) tx \<and> tx_sequence tx = int (length sent) \<and> (\<forall>i < frames_of (m, fs). tx_frames tx ! i)"
proof -
  let ?sent = "sent @ [(m, fs)]" and ?k = "length sent" and ?F = "frames_of (m, fs)" and ?n = "length (pm_data m)"
  have k: "?sent ! ?k = (m, fs)" "?k < length ?sent" by simp_all
  have lim: "int ?F \<le> int frames_size" "0 < fs" "pm_reliable m" using x by (auto simp: message_ok_def frames_size_def)
  note fr = framing [OF x]
  define q where "q = (if int (?n div fs) \<noteq> 0 then int fs else int (?n mod fs))"
  obtain tx where tx: "sent_message_new (pm_type m) (pm_data m) (pm_tt m) (int ?k) (int ?F) q
      (max (pe_average_rtt p * 2) AOO_CLIENT_MIN_RESEND_TIME) = Some tx"
    using lim(1) by (simp add: sent_message_new_def)
  have q: "q = int fs" if "?F > 1" using that fr(3) by (auto simp: q_def split: if_splits)
  have t: "tx_ok ?sent tx" "tx_sequence tx = int ?k" "\<forall>i < ?F. tx_frames tx ! i"
    using tx lim(1) q by (auto simp: sent_message_new_def tx_ok_def mark_frames_nth intro!: exI [of _ ?k] split: if_splits)
  let ?p = "p\<lparr> pe_next_sequence_reliable := int (?k + 1), pe_send_buffer := pe_send_buffer p @ [tx] \<rparr>"
  let ?pk = "packet_of m (int ?F) (int ?k)"
  have "\<exists>pks. (if int ?F > 1 then message_frames m (int fs) (int (?n mod fs)) ?pk [0..int ?F - 1]
        else Some [?pk\<lparr> mp_data := pm_data m \<rparr>]) = Some pks \<and> (\<forall>pk \<in> set pks. \<exists>k i. packet_for ?sent k i pk)"
  proof (cases "?F > 1")
    case True
    then show ?thesis using message_frames_ok [OF x refl k True, of "[0..int ?F - 1]"] by fastforce
  next
    case False
    then have "?F = 1" using frames_of_bounds(1) [OF x] by simp
    then have "packet_for ?sent ?k 0 (?pk\<lparr> mp_data := pm_data m \<rparr>)"
      using lim(3) by (auto simp: packet_for_def frame_packet_def packet_of_def covers_def)
    then show ?thesis using False by auto
  qed
  then obtain pks where pks: "(if int ?F > 1 then message_frames m (int fs) (int (?n mod fs)) ?pk [0..int ?F - 1]
        else Some [?pk\<lparr> mp_data := pm_data m \<rparr>]) = Some pks" "\<forall>pk \<in> set pks. \<exists>k i. packet_for ?sent k i pk" by blast
  have "\<forall>x \<in> set ?sent. message_ok x" "length ?sent < 2 ^ 31" using all x len by auto
  from send_packets_ok [OF this pks(2)] obtain out where
    out: "peer_send_packets True pks ?p = Some out" "\<forall>b \<in> binaries out. packet_bytes (message_header 0 p) ?sent b"
    by (fastforce simp: message_header_def)
  have "int32_ok (int ?k + 1)" using len by (simp add: int32_ok_def)
  then have "to_int32 (int ?k + 1) = int (?k + 1)" unfolding to_int32_def by (subst sint_int32) simp_all
  then have "send_message m (int fs + kBinMessageHeaderSize) True p = Some (out, ?p)"
    using p lim(2,3) fr(1-3) tx out(1) pks(1)
    by (cases "?F > 1") (simp_all add: send_message_def Let_def q_def send_push_def)
  then show ?thesis using out(2) t by blast
qed

end
