(* ===== verification/Peer_Link.thy ===== *)
theory Peer_Link
  imports Peer_Send
begin

text \<open>
  Two peers and a network that loses, duplicates and reorders packets: the reliable messages of one
  peer are delivered by the other in order, each exactly once and with all of its bytes, and a message is
  only forgotten by its sender when the receiver has all of it.
\<close>

subsection \<open>The system\<close>

record link =
  lk_sent :: "framed list"
  lk_sender :: peer
  lk_receiver :: peer
  lk_net :: "byte list set"
  lk_acks :: "byte list set"

text \<open>
  The network contains every packet that was ever sent; a packet is lost when it is never received, and
  duplicated when it is received more than once.
\<close>

inductive link_step :: "link \<Rightarrow> link \<Rightarrow> bool" where
  send: "send_message m (int fs + kBinMessageHeaderSize) True (lk_sender L) = Some (out, a) \<Longrightarrow>
    link_step L (L\<lparr> lk_sent := lk_sent L @ [(m, fs)], lk_sender := a, lk_net := lk_net L \<union> binaries out \<rparr>)"
| transmit: "peer_send True now settings (lk_sender L) = Some (out, a) \<Longrightarrow>
    link_step L (L\<lparr> lk_sender := a, lk_net := lk_net L \<union> binaries out \<rparr>)"
| receive: "b \<in> lk_net L \<Longrightarrow> handle_bin_message b (binmsg_headersize b) (lk_receiver L) = Some r \<Longrightarrow>
    link_step L (L\<lparr> lk_receiver := r \<rparr>)"
| acknowledge: "peer_send True now settings (lk_receiver L) = Some (out, r) \<Longrightarrow>
    link_step L (L\<lparr> lk_receiver := r, lk_acks := lk_acks L \<union> binaries out \<rparr>)"
| acknowledged: "b \<in> lk_acks L \<Longrightarrow> handle_bin_message b (binmsg_headersize b) (lk_sender L) = Some a \<Longrightarrow>
    link_step L (L\<lparr> lk_sender := a \<rparr>)"
| ping_sender: "msg = OscPing g u tt \<or> msg = OscPong g u args \<Longrightarrow> handle_osc_message now msg addr (lk_sender L) = Some a \<Longrightarrow>
    link_step L (L\<lparr> lk_sender := a \<rparr>)"
| ping_receiver: "msg = OscPing g u tt \<or> msg = OscPong g u args \<Longrightarrow> handle_osc_message now msg addr (lk_receiver L) = Some r \<Longrightarrow>
    link_step L (L\<lparr> lk_receiver := r \<rparr>)"

inductive_cases link_step_cases: "link_step L L'"

definition fresh :: "peer \<Rightarrow> bool" where
  "fresh p \<longleftrightarrow> ids_ok p \<and> pe_next_sequence_reliable p = 0 \<and> pe_send_buffer p = [] \<and>
     pe_receive_buffer p = receive_buffer_init \<and> pe_send_acks p = [] \<and> pe_received_acks p = [] \<and> messages p = []"

definition link_init :: "link \<Rightarrow> bool" where
  "link_init L \<longleftrightarrow> lk_sent L = [] \<and> lk_net L = {} \<and> lk_acks L = {} \<and> fresh (lk_sender L) \<and> fresh (lk_receiver L)"

text \<open>
  The messages that the code transfers (\<^const>\<open>message_ok\<close>), and fewer of them than there are sequence numbers. The steps
  themselves send any message; the conditions are hypotheses of the theorems.
\<close>

definition sendable :: "framed list \<Rightarrow> bool" where
  "sendable sent \<longleftrightarrow> (\<forall>x \<in> set sent. message_ok x) \<and> length sent < 2 ^ 31"

subsection \<open>The invariant\<close>

definition ack_bytes :: "byte list \<Rightarrow> framed list \<Rightarrow> message_receive_buffer \<Rightarrow> byte list \<Rightarrow> bool" where
  "ack_bytes hdr sent buf b \<longleftrightarrow> (\<exists>a. ack_ok sent buf a \<and> b = hdr @ ack_image a)"

definition sending :: "framed list \<Rightarrow> message_receive_buffer \<Rightarrow> peer \<Rightarrow> bool" where
  "sending sent buf p \<longleftrightarrow> ids_ok p \<and> pe_next_sequence_reliable p = int (length sent) \<and>
     sender_ok sent buf (pe_send_buffer p) \<and> (\<forall>a \<in> set (pe_received_acks p). ack_ok sent buf a) \<and> pe_send_acks p = []"

definition receiving :: "framed list \<Rightarrow> peer \<Rightarrow> bool" where
  "receiving sent p \<longleftrightarrow> ids_ok p \<and> receiver_ok sent p \<and> (\<forall>a \<in> set (pe_send_acks p). ack_ok sent (pe_receive_buffer p) a) \<and>
     pe_send_buffer p = [] \<and> pe_received_acks p = []"

definition link_inv :: "link \<Rightarrow> bool" where
  "link_inv L \<longleftrightarrow> (\<forall>x \<in> set (lk_sent L). message_ok x) \<and> length (lk_sent L) < 2 ^ 31 \<and>
     sending (lk_sent L) (pe_receive_buffer (lk_receiver L)) (lk_sender L) \<and> receiving (lk_sent L) (lk_receiver L) \<and>
     (\<forall>b \<in> lk_net L. packet_bytes (message_header 0 (lk_sender L)) (lk_sent L) b) \<and>
     (\<forall>b \<in> lk_acks L. ack_bytes (message_header 1 (lk_receiver L)) (lk_sent L) (pe_receive_buffer (lk_receiver L)) b)"

text \<open>The part of a peer that the invariant speaks about.\<close>

definition view :: "peer \<Rightarrow> (int \<times> int \<times> int \<times> message_send_buffer) \<times> message_receive_buffer \<times> message_ack list \<times> message_ack list \<times> peer_event list" where
  "view p = ((pe_group_id p, pe_local_id p, pe_next_sequence_reliable p, pe_send_buffer p), pe_receive_buffer p,
     pe_send_acks p, pe_received_acks p, messages p)"

lemma view_eqs:
  assumes "view q = view p"
  shows "sending sent buf q = sending sent buf p" "receiving sent q = receiving sent p" "message_header cmd q = message_header cmd p"
    "pe_receive_buffer q = pe_receive_buffer p"
  using assms by (simp_all add: view_def sending_def receiving_def ids_ok_def message_header_def receiver_ok_def)

lemma messages_event [simp]:
  "messages (peer_event (PeerState b) p) = messages p" "messages (peer_event PeerJoin p) = messages p"
  "messages (peer_event PeerTimeout p) = messages p" "messages (peer_event (PeerPing a c d e) p) = messages p"
  by (simp_all add: messages_def peer_event_def)

lemma messages_cong: "pe_events q = pe_events p \<Longrightarrow> messages q = messages p"
  by (simp add: messages_def)

lemma view_event:
  "view (peer_event (PeerState b) p) = view p" "view (peer_event PeerJoin p) = view p"
  "view (peer_event PeerTimeout p) = view p" "view (peer_event (PeerPing a c d e) p) = view p"
  by (simp_all add: view_def) (simp_all add: peer_event_def)

lemma view_updates:
  "view (p\<lparr> pe_ping_timer := t \<rparr>) = view p" "view (p\<lparr> pe_active := b \<rparr>) = view p" "view (p\<lparr> pe_got_ping := b \<rparr>) = view p"
  "view (p\<lparr> pe_ping_tt1 := x \<rparr>) = view p" "view (p\<lparr> pe_ping_tt2 := x \<rparr>) = view p" "view (p\<lparr> pe_average_rtt := r \<rparr>) = view p"
  "view (p\<lparr> pe_connected := b \<rparr>) = view p" "view (p\<lparr> pe_real_address := addr \<rparr>) = view p" "view (p\<lparr> pe_flags := f \<rparr>) = view p"
  "view (p\<lparr> pe_relay_address := addr \<rparr>) = view p" "view (p\<lparr> pe_handshake_deadline := x \<rparr>) = view p"
  "view (p\<lparr> pe_next_handshake := x \<rparr>) = view p" "view (p\<lparr> pe_timeout := b \<rparr>) = view p" "view (p\<lparr> pe_binary_ack := b \<rparr>) = view p"
  by (simp_all add: view_def messages_def)

lemmas view_simps = view_event view_updates

lemma view_handle_ping: "view (handle_ping now tt addr p) = view p"
  by (simp add: handle_ping_def handle_first_ping_def Let_def view_simps)

lemma view_handle_pong: "view (handle_pong now args addr p) = view p"
  by (simp add: handle_pong_def handle_first_ping_def Let_def view_simps split: option.splits prod.splits)

lemma send_pings_view: "send_pings now settings p = (out, q) \<Longrightarrow> binaries out = {} \<and> view q = view p"
  by (auto simp: send_pings_def Let_def view_simps split: prod.splits if_splits)

lemma reply_ping_view: "reply_ping now p = (out, q) \<Longrightarrow> binaries out = {} \<and> view q = view p"
  by (auto simp: reply_ping_def Let_def view_simps split: if_splits)

lemma pings_keep:
  "send_pings now settings p = (out, q) \<Longrightarrow> pe_binary_ack q = pe_binary_ack p"
  "reply_ping now p = (out, q) \<Longrightarrow> pe_binary_ack q = pe_binary_ack p"
  by (auto simp: send_pings_def reply_ping_def peer_event_def Let_def split: prod.splits if_splits)

lemma handshake_view: "handshake now settings p = (out, q) \<Longrightarrow> binaries out = {} \<and> view q = view p"
  by (auto simp: handshake_def Let_def view_simps send_handshake_def binaries_def peer_send_to_def split: if_splits)

text \<open>Growing the list of messages.\<close>

lemma grow_packet: "packet_bytes hdr sent b \<Longrightarrow> packet_bytes hdr (sent @ ms) b"
proof -
  have "packet_for sent k i pk \<Longrightarrow> packet_for (sent @ ms) k i pk" for k i pk by (simp add: packet_for_def nth_append)
  then show "packet_bytes hdr sent b \<Longrightarrow> packet_bytes hdr (sent @ ms) b" unfolding packet_bytes_def by blast
qed

lemma grow_ack: "ack_ok sent buf a \<Longrightarrow> ack_ok (sent @ ms) buf a"
  by (auto simp: ack_ok_def nth_append)

lemma grow_tx: "tx_ok sent tx \<Longrightarrow> tx_ok (sent @ ms) tx"
  by (auto simp: tx_ok_def nth_append)

lemma grow_acked: "acked_ok sent buf tx \<Longrightarrow> acked_ok (sent @ ms) buf tx"
  using grow_tx by (auto simp: acked_ok_def tx_ok_def nth_append)

lemma grow_receiver:
  assumes "receiver_ok sent p"
  shows "receiver_ok (sent @ ms) p"
proof -
  let ?b = "pe_receive_buffer p"
  have b: "buffer_ok sent ?b" using assms by (simp add: receiver_ok_def)
  have "item_ok (sent @ ms) (mb_data ?b ! i)" if "i < length (mb_data ?b)" for i
  proof (rule item_ok_append)
    show "item_ok sent (mb_data ?b ! i)" using b that by (simp add: buffer_ok_def)
    have "rx_sequence (mb_data ?b ! i) = mb_last_popped ?b + 1 + int i" using b that by (simp add: buffer_ok_def)
    then show "rx_sequence (mb_data ?b ! i) < int (length sent)" "0 \<le> rx_sequence (mb_data ?b ! i)"
      using b that by (auto simp: buffer_ok_def)
  qed
  then have "buffer_ok (sent @ ms) ?b" using b by (simp add: buffer_ok_def)
  moreover have "nat (mb_last_popped ?b + 1) \<le> length sent" using b by (auto simp: buffer_ok_def)
  ultimately show ?thesis using assms by (simp add: receiver_ok_def)
qed

subsection \<open>Every step keeps the invariant and does not fault\<close>

lemma do_send_sending:
  assumes all: "\<forall>x \<in> set sent. message_ok x" and len: "length sent < 2 ^ 31" and p: "sending sent buf p"
  shows "\<exists>out q. do_send True now settings p = Some (out, q) \<and> sending sent buf q \<and> message_header 0 q = message_header 0 p \<and>
    (\<forall>b \<in> binaries out. packet_bytes (message_header 0 p) sent b)"
proof -
  obtain out1 p1 where 1: "send_pings now settings p = (out1, p1)" by (cases "send_pings now settings p")
  obtain out2 p2 where 2: "reply_ping now p1 = (out2, p2)" by (cases "reply_ping now p1")
  have v: "view p2 = view p" "binaries out1 = {}" "binaries out2 = {}" using send_pings_view [OF 1] reply_ping_view [OF 2] by auto
  have f: "pe_send_acks p2 = []" "pe_received_acks p2 = pe_received_acks p" "pe_send_buffer p2 = pe_send_buffer p"
    using v(1) p by (auto simp: view_def sending_def)
  define p3 where "p3 = p2\<lparr> pe_send_acks := [], pe_received_acks := [] \<rparr>"
  obtain txs where txs: "apply_acks (pe_received_acks p) (pe_send_buffer p) = Some txs" "sender_ok sent buf txs"
    using apply_acks_ok [OF all, of buf "pe_send_buffer p" "pe_received_acks p"] p by (auto simp: sending_def)
  have s: "sender_ok sent buf (pop_acknowledged txs)" by (rule pop_acknowledged_ok [OF all txs(2)])
  obtain out4 txs' where r: "resend_messages True now (pop_acknowledged txs) p3 = Some (out4, txs')"
    "\<forall>b \<in> binaries out4. packet_bytes (message_header 0 p3) sent b" "\<forall>tx \<in> set txs'. acked_ok sent buf tx"
    "map tx_sequence txs' = map tx_sequence (pop_acknowledged txs)"
    using resend_messages_ok [OF all len, of "pop_acknowledged txs" buf now p3] s by (auto simp: sender_ok_def)
  have "tx_sequence ` set txs' = tx_sequence ` set (pop_acknowledged txs)" using r(4) by (metis list.set_map)
  then have "sender_ok sent buf txs'" using s r(3) by (auto simp: sender_ok_def image_iff) (metis image_iff)
  moreover have h: "message_header 0 p3 = message_header 0 p" using view_eqs(3) [OF v(1)] by (simp add: p3_def message_header_def)
  moreover have "ids_ok p2" "pe_next_sequence_reliable p2 = int (length sent)" using v(1) p by (auto simp: view_def sending_def ids_ok_def)
  moreover have "do_send True now settings p = Some (out1 @ out2 @ [] @ out4, p3\<lparr> pe_send_buffer := txs' \<rparr>)"
    using 1 2 f txs(1) r(1) by (simp add: do_send_def flush_acks_def p3_def)
  ultimately show ?thesis using r(2) v(2,3)
    by (intro exI [of _ "out1 @ out2 @ [] @ out4"] exI [of _ "p3\<lparr> pe_send_buffer := txs' \<rparr>"])
      (simp add: sending_def p3_def ids_ok_def message_header_def)
qed

lemma send_acks_bytes:
  assumes "\<forall>a \<in> set acks. ack_ok sent buf a"
  shows "\<forall>b \<in> binaries (map (\<lambda>a. send_ack a p) acks). ack_bytes (message_header 1 p) sent buf b"
proof -
  have "payload (fst (send_ack a p)) \<subseteq> {message_header 1 p @ ack_image a}" for a
    by (cases "pe_binary_ack p") (simp_all add: send_ack_image, simp add: send_ack_def)
  then show ?thesis using assms by (fastforce simp: binaries_def ack_bytes_def)
qed

lemma do_send_receiving:
  assumes p: "receiving sent p"
  shows "\<exists>out q. do_send True now settings p = Some (out, q) \<and> receiving sent q \<and> message_header 1 q = message_header 1 p \<and>
    pe_receive_buffer q = pe_receive_buffer p \<and> (\<forall>b \<in> binaries out. ack_bytes (message_header 1 p) sent (pe_receive_buffer p) b) \<and>
    (pe_binary_ack p \<longrightarrow> (\<forall>a \<in> set (pe_send_acks p). message_header 1 p @ ack_image a \<in> binaries out)) \<and> messages q = messages p"
proof -
  obtain out1 p1 where 1: "send_pings now settings p = (out1, p1)" by (cases "send_pings now settings p")
  obtain out2 p2 where 2: "reply_ping now p1 = (out2, p2)" by (cases "reply_ping now p1")
  have v: "view p2 = view p" "binaries out1 = {}" "binaries out2 = {}" using send_pings_view [OF 1] reply_ping_view [OF 2] by auto
  have f: "pe_send_acks p2 = pe_send_acks p" "pe_received_acks p2 = []" "pe_send_buffer p2 = []" "pe_receive_buffer p2 = pe_receive_buffer p"
    using v(1) p by (auto simp: view_def receiving_def)
  let ?out = "map (\<lambda>a. send_ack a p2) (pe_send_acks p)" and ?q = "p2\<lparr> pe_send_acks := [], pe_received_acks := [], pe_send_buffer := [] \<rparr>"
  have "do_send True now settings p = Some (out1 @ out2 @ ?out @ [], ?q)"
    using 1 2 f by (simp add: do_send_def flush_acks_def)
  moreover have "receiving sent p2" using view_eqs(2) [OF v(1)] p by simp
  then have "receiving sent ?q" by (simp add: receiving_def ids_ok_def receiver_ok_def messages_def)
  moreover have "\<forall>b \<in> binaries ?out. ack_bytes (message_header 1 p) sent (pe_receive_buffer p) b"
    using send_acks_bytes [of "pe_send_acks p" sent "pe_receive_buffer p" p2] p view_eqs(3) [OF v(1)] by (simp add: receiving_def)
  moreover have h: "message_header 1 ?q = message_header 1 p" "message_header 1 p2 = message_header 1 p"
    using view_eqs(3) [OF v(1)] by (simp_all add: message_header_def)
  moreover have "message_header 1 p @ ack_image a \<in> binaries ?out" if "pe_binary_ack p" "a \<in> set (pe_send_acks p)" for a
  proof -
    have "pe_binary_ack p2" using that(1) pings_keep(1) [OF 1] pings_keep(2) [OF 2] by simp
    from send_ack_image [OF this] h(2) that(2) show ?thesis by (force simp: binaries_def)
  qed
  moreover have "messages ?q = messages p" using v(1) by (simp add: view_def messages_def)
  ultimately show ?thesis using v(2,3) f(4)
    by (intro exI [of _ "out1 @ out2 @ ?out @ []"] exI [of _ ?q]) simp
qed

lemma peer_send_sending:
  assumes "\<forall>x \<in> set sent. message_ok x" and "length sent < 2 ^ 31" and "sending sent buf p"
  shows "\<exists>out q. peer_send True now settings p = Some (out, q) \<and> sending sent buf q \<and> message_header 0 q = message_header 0 p \<and>
    (\<forall>b \<in> binaries out. packet_bytes (message_header 0 p) sent b)"
proof -
  obtain out q where h: "handshake now settings p = (out, q)" by (cases "handshake now settings p")
  show ?thesis
    using do_send_sending [OF assms] handshake_view [OF h] h view_eqs(1,3) [of q p] assms(3)
    by (auto simp: peer_send_def)
qed

lemma peer_send_receiving:
  assumes "receiving sent p"
  shows "\<exists>out q. peer_send True now settings p = Some (out, q) \<and> receiving sent q \<and> message_header 1 q = message_header 1 p \<and>
    pe_receive_buffer q = pe_receive_buffer p \<and> (\<forall>b \<in> binaries out. ack_bytes (message_header 1 p) sent (pe_receive_buffer p) b)"
proof -
  obtain out q where h: "handshake now settings p = (out, q)" by (cases "handshake now settings p")
  show ?thesis
    using do_send_receiving [OF assms, of now settings] handshake_view [OF h] h view_eqs(2-4) [of q p] assms
    by (cases "pe_connected p") (auto simp: peer_send_def)
qed

lemma receive_packet_ok:
  assumes all: "\<forall>x \<in> set sent. message_ok x" and len: "length sent < 2 ^ 31" and p: "receiving sent p"
    and a: "ids_ok a" "packet_bytes (message_header 0 a) sent b"
  shows "\<exists>q. handle_bin_message b (binmsg_headersize b) p = Some q \<and> receiving sent q \<and> message_header 1 q = message_header 1 p \<and>
    keeps_frames (pe_receive_buffer p) (pe_receive_buffer q)"
proof -
  obtain k i pk where pk: "packet_for sent k i pk" "b = message_header 0 a @ packet_image pk @ mp_data pk"
    using a(2) by (auto simp: packet_bytes_def)
  have "length (message_header 0 a) + length (packet_image pk) + length (mp_data pk) \<le> AOO_MAX_PACKET_SIZE"
    using message_header_length [of 0 a] packet_image_length [of pk] packet_for_wf(2) [OF all pk(1) len] by linarith
  then have "peer_send_packet_bin pk a = Some b" using pk(2) by (simp add: peer_packet_bin_image)
  from handle_sent_packet [OF packet_for_wf(1) [OF all pk(1) len] a(1) this]
  have h: "handle_bin_message b (binmsg_headersize b) p = handle_reliable pk (p\<lparr> pe_binary_ack := True \<rparr>)"
    using packet_fields(10) [OF pk(1)] flag_tests(3) [of pk] by (simp add: do_handle_client_message_def)
  let ?p = "p\<lparr> pe_binary_ack := True \<rparr>"
  have "receiver_ok sent ?p" using p by (simp add: receiving_def receiver_ok_def messages_def)
  from handle_reliable_ok [OF all pk(1) this] obtain buf ev where r:
    "handle_reliable pk ?p = Some (?p\<lparr> pe_receive_buffer := buf, pe_events := ev,
      pe_send_acks := pe_send_acks ?p @ [\<lparr> ma_sequence = int k, ma_frame_index = int i \<rparr>] \<rparr>)"
    "receiver_ok sent (?p\<lparr> pe_receive_buffer := buf, pe_events := ev \<rparr>)" "keeps_frames (pe_receive_buffer p) buf" "has_frame buf k i"
    by (elim exE conjE) (rule that, simp_all)
  have "ack_ok sent buf \<lparr> ma_sequence = int k, ma_frame_index = int i \<rparr>"
    using packet_fields(8,9) [OF pk(1)] r(4) by (auto simp: ack_ok_def)
  moreover have "\<forall>a \<in> set (pe_send_acks p). ack_ok sent buf a" using p keeps_ack [OF r(3)] by (auto simp: receiving_def)
  ultimately show ?thesis
    using h r(1-3) p by (auto simp: receiving_def receiver_ok_def messages_def ids_ok_def message_header_def)
qed

lemma receive_ack_ok:
  assumes all: "\<forall>x \<in> set sent. message_ok x" and len: "length sent < 2 ^ 31" and p: "sending sent buf p" and r: "ids_ok r" "ack_bytes (message_header 1 r) sent buf b"
  shows "\<exists>q. handle_bin_message b (binmsg_headersize b) p = Some q \<and> sending sent buf q \<and> message_header 0 q = message_header 0 p"
proof -
  obtain a where a: "ack_ok sent buf a" "b = message_header 1 r @ ack_image a" using r(2) by (auto simp: ack_bytes_def)
  then obtain k i where ki: "a = \<lparr> ma_sequence = int k, ma_frame_index = int i \<rparr>" "k < length sent" "i < frames_of (sent ! k)"
    by (auto simp: ack_ok_def)
  have "i < frames_size" using limit_less [OF _ ki(3)] all ki(2) by simp
  then have "int32_ok (ma_sequence a)" "int32_ok (ma_frame_index a)" using ki(1,2) len by (simp_all add: int32_ok_def frames_size_def)
  from handle_sent_ack [OF this r(1), of p] a p show ?thesis
    by (auto simp: sending_def ids_ok_def message_header_def)
qed

lemma send_step_ok:
  assumes inv: "link_inv L" and x: "message_ok (m, fs)" and len: "length (lk_sent L) + 1 < 2 ^ 31" and c: "pe_connected (lk_sender L)"
  shows "\<exists>out a. send_message m (int fs + kBinMessageHeaderSize) True (lk_sender L) = Some (out, a) \<and>
    link_inv (L\<lparr> lk_sent := lk_sent L @ [(m, fs)], lk_sender := a, lk_net := lk_net L \<union> binaries out \<rparr>)"
proof -
  let ?sent = "lk_sent L @ [(m, fs)]" and ?p = "lk_sender L" and ?buf = "pe_receive_buffer (lk_receiver L)"
  have all: "\<forall>x \<in> set (lk_sent L). message_ok x" and p: "sending (lk_sent L) ?buf ?p" using inv by (auto simp: link_inv_def)
  obtain out tx where o: "send_message m (int fs + kBinMessageHeaderSize) True ?p = Some (out,
      ?p\<lparr> pe_next_sequence_reliable := int (length (lk_sent L) + 1), pe_send_buffer := pe_send_buffer ?p @ [tx] \<rparr>)"
    "\<forall>b \<in> binaries out. packet_bytes (message_header 0 ?p) ?sent b" "tx_ok ?sent tx" "tx_sequence tx = int (length (lk_sent L))"
    "\<forall>i < frames_of (m, fs). tx_frames tx ! i"
    using send_message_ok [OF x all len _ c] p by (auto simp: sending_def)
  let ?a = "?p\<lparr> pe_next_sequence_reliable := int (length (lk_sent L) + 1), pe_send_buffer := pe_send_buffer ?p @ [tx] \<rparr>"
  have "acked_ok ?sent ?buf tx" using o(3-5) by (simp add: acked_ok_def)
  then have "sender_ok ?sent ?buf (pe_send_buffer ?p @ [tx])"
    using p o(4) grow_acked by (auto simp: sending_def sender_ok_def nth_append less_Suc_eq)
  then have "sending ?sent ?buf ?a" using p grow_ack by (auto simp: sending_def ids_ok_def)
  moreover have "receiving ?sent (lk_receiver L)" using inv grow_receiver grow_ack by (auto simp: link_inv_def receiving_def)
  moreover have "\<forall>b \<in> lk_net L \<union> binaries out. packet_bytes (message_header 0 ?a) ?sent b"
    using inv o(2) grow_packet by (auto simp: link_inv_def message_header_def)
  moreover have "\<forall>b \<in> lk_acks L. ack_bytes (message_header 1 (lk_receiver L)) ?sent ?buf b"
    using inv grow_ack by (fastforce simp: link_inv_def ack_bytes_def)
  ultimately have "link_inv (L\<lparr> lk_sent := ?sent, lk_sender := ?a, lk_net := lk_net L \<union> binaries out \<rparr>)"
    using all x len by (simp add: link_inv_def)
  then show ?thesis using o(1) by blast
qed

lemma inv_receiver:
  assumes "link_inv L" and "receiving (lk_sent L) r" and "message_header 1 r = message_header 1 (lk_receiver L)"
    and "keeps_frames (pe_receive_buffer (lk_receiver L)) (pe_receive_buffer r)"
    and "\<forall>b \<in> bs. ack_bytes (message_header 1 r) (lk_sent L) (pe_receive_buffer r) b"
  shows "link_inv (L\<lparr> lk_receiver := r, lk_acks := lk_acks L \<union> bs \<rparr>)"
proof -
  have "sending (lk_sent L) (pe_receive_buffer r) (lk_sender L)"
    using assms(1) keeps_sender [OF assms(4)] keeps_ack [OF assms(4)] by (auto simp: link_inv_def sending_def)
  moreover have "\<forall>b \<in> lk_acks L. ack_bytes (message_header 1 r) (lk_sent L) (pe_receive_buffer r) b"
    using assms(1,3) keeps_ack [OF assms(4)] by (fastforce simp: link_inv_def ack_bytes_def)
  ultimately show ?thesis using assms(1,2,5) by (auto simp: link_inv_def)
qed

lemma inv_sender:
  assumes "link_inv L" and "sending (lk_sent L) (pe_receive_buffer (lk_receiver L)) a" and "message_header 0 a = message_header 0 (lk_sender L)"
    and "\<forall>b \<in> bs. packet_bytes (message_header 0 a) (lk_sent L) b"
  shows "link_inv (L\<lparr> lk_sender := a, lk_net := lk_net L \<union> bs \<rparr>)"
  using assms by (auto simp: link_inv_def)

lemma link_invD:
  assumes "link_inv L"
  shows "\<forall>x \<in> set (lk_sent L). message_ok x" "length (lk_sent L) < 2 ^ 31"
    "sending (lk_sent L) (pe_receive_buffer (lk_receiver L)) (lk_sender L)" "receiving (lk_sent L) (lk_receiver L)"
    "ids_ok (lk_sender L)" "ids_ok (lk_receiver L)"
    "\<And>b. b \<in> lk_net L \<Longrightarrow> packet_bytes (message_header 0 (lk_sender L)) (lk_sent L) b"
    "\<And>b. b \<in> lk_acks L \<Longrightarrow> ack_bytes (message_header 1 (lk_receiver L)) (lk_sent L) (pe_receive_buffer (lk_receiver L)) b"
  using assms by (auto simp: link_inv_def sending_def receiving_def)

lemma osc_view:
  assumes "handle_osc_message now msg addr p = Some q" and "msg = OscPing g u tt \<or> msg = OscPong g u args"
  shows "view q = view p"
  using assms view_handle_ping view_handle_pong by (auto simp: handle_osc_message_def)

lemma send_connected: "send_message m n binary p = Some r \<Longrightarrow> pe_connected p"
  by (auto simp: send_message_def Let_def split: if_splits)

lemma link_step_ok:
  assumes "link_step L L'" and inv: "link_inv L" and ok: "sendable (lk_sent L')"
  shows "link_inv L'"
  using assms(1)
proof cases
  case (send m fs out a)
  have "message_ok (m, fs)" "length (lk_sent L) + 1 < 2 ^ 31" using ok send(1) by (simp_all add: sendable_def)
  from send_step_ok [OF inv this send_connected [OF send(2)]] show ?thesis using send by auto
next
  case (transmit now settings out a)
  then show ?thesis using peer_send_sending [OF link_invD(1-3) [OF inv], of now settings] inv_sender [OF inv, of a "binaries out"] by auto
next
  case (receive b r)
  have "receiving (lk_sent L) r" "message_header 1 r = message_header 1 (lk_receiver L)"
    "keeps_frames (pe_receive_buffer (lk_receiver L)) (pe_receive_buffer r)"
    using receive_packet_ok [OF link_invD(1,2,4,5) [OF inv] link_invD(7) [OF inv receive(2)]] receive(3) by auto
  from inv_receiver [OF inv this, of "{}"] receive(1) show ?thesis by simp
next
  case (acknowledge now settings out r)
  then show ?thesis
    using peer_send_receiving [OF link_invD(4) [OF inv], of now settings] inv_receiver [OF inv, of r "binaries out"] keeps_refl by auto
next
  case (acknowledged b a)
  have "sending (lk_sent L) (pe_receive_buffer (lk_receiver L)) a" "message_header 0 a = message_header 0 (lk_sender L)"
    using receive_ack_ok [OF link_invD(1-3,6) [OF inv] link_invD(8) [OF inv acknowledged(2)]] acknowledged(3) by auto
  from inv_sender [OF inv this, of "{}"] acknowledged(1) show ?thesis by simp
next
  case (ping_sender msg g u tt args now addr a)
  note v = osc_view [OF ping_sender(3,2)]
  from inv_sender [OF inv _ view_eqs(3) [OF v], of "{}"] view_eqs(1) [OF v] link_invD(3) [OF inv] ping_sender(1)
  show ?thesis by simp
next
  case (ping_receiver msg g u tt args now addr r)
  note v = osc_view [OF ping_receiver(3,2)]
  from inv_receiver [OF inv _ view_eqs(3) [OF v], of "{}"] view_eqs(2,4) [OF v] link_invD(4) [OF inv] ping_receiver(1) keeps_refl
  show ?thesis by simp
qed

lemma link_init_ok:
  assumes "link_init L"
  shows "link_inv L"
  using assms
  by (auto simp: link_init_def fresh_def link_inv_def sending_def receiving_def sender_ok_def receiver_ok_def
      receive_buffer_init_def buffer_ok_def settled_def)

lemma sent_grows:
  assumes "link_step L L'" and "sendable (lk_sent L')"
  shows "sendable (lk_sent L)"
proof -
  have "\<exists>ms. lk_sent L' = lk_sent L @ ms" using assms(1) by cases auto
  then show ?thesis using assms(2) by (auto simp: sendable_def)
qed

lemma link_steps_ok:
  assumes "link_init L" and "link_step\<^sup>*\<^sup>* L L'" and "sendable (lk_sent L')"
  shows "link_inv L'"
  using assms(2,3)
proof (induction rule: rtranclp_induct)
  case (step L1 L2)
  then show ?case using link_step_ok sent_grows by blast
qed (rule link_init_ok [OF assms(1)])

subsection \<open>An example\<close>

definition ex_timer :: ping_timer where
  "ex_timer = \<lparr> pt_next_ping = 0, pt_deadline = 0, pt_probe_count = 0, pt_state = ping_regular, pt_reset = True, pt_pong = False \<rparr>"

definition ex_peer :: peer where
  "ex_peer = \<lparr> pe_group_name = ''group'', pe_user_name = ''user'', pe_group_id = 1, pe_user_id = 3, pe_local_id = 2, pe_flags = 0,
     pe_address_family = IPv4, pe_binary = True, pe_use_ipv4_mapped = False, pe_timeout = False, pe_active = True,
     pe_addrlist = [], pe_relay_list = [], pe_real_address = ip_clear, pe_relay_address = ip_clear, pe_ping_timer = ex_timer,
     pe_next_handshake = 0, pe_handshake_deadline = 0, pe_ping_tt1 = 0, pe_ping_tt2 = 0, pe_average_rtt = 0, pe_connected = True,
     pe_got_ping = False, pe_binary_ack = True, pe_next_sequence_reliable = 0, pe_next_sequence_unreliable = 0,
     pe_send_buffer = [], pe_receive_buffer = receive_buffer_init, pe_current_msg = received_message_new (- 1),
     pe_send_acks = [], pe_received_acks = [], pe_events = [] \<rparr>"

lemma ex_peer_fields [simp]:
  "pe_group_id ex_peer = 1" "pe_local_id ex_peer = 2" "pe_flags ex_peer = 0" "pe_connected ex_peer" "pe_average_rtt ex_peer = 0"
  "pe_next_sequence_reliable ex_peer = 0" "pe_send_buffer ex_peer = []" "pe_receive_buffer ex_peer = receive_buffer_init"
  "pe_send_acks ex_peer = []" "pe_received_acks ex_peer = []" "pe_events ex_peer = []" "pe_real_address ex_peer = ip_clear" "pe_binary_ack ex_peer"
  unfolding ex_peer_def by (simp_all only: peer.select_convs)

definition ex_message :: message where
  "ex_message = \<lparr> pm_group = 1, pm_user = 3, pm_tt = 5, pm_type = 0, pm_data = [1, 2], pm_reliable = True \<rparr>"

lemma ex_message_fields [simp]:
  "pm_data ex_message = [1, 2]" "pm_tt ex_message = 5" "pm_type ex_message = 0" "pm_reliable ex_message"
  by (simp_all add: ex_message_def)

definition ex_link :: link where
  "ex_link = \<lparr> lk_sent = [], lk_sender = ex_peer, lk_receiver = ex_peer, lk_net = {}, lk_acks = {} \<rparr>"

lemma ex_link_init: "link_init ex_link"
  by (simp add: link_init_def ex_link_def fresh_def ids_ok_def messages_def)

lemma ex_message_ok: "message_ok (ex_message, 100)" "frames_of (ex_message, 100) = 1"
  by (simp_all add: message_ok_def frames_of_def ex_message_def int32_ok_def AOO_MAX_PACKET_SIZE_def)

definition ex_packet :: message_packet where
  "ex_packet = frame_packet (ex_message, 100) 0 0 [1, 2]"

definition ex_tx :: sent_message where
  "ex_tx = \<lparr> tx_type = 0, tx_data = [1, 2], tx_tt = 5, tx_sequence = 0, tx_num_frames = 1, tx_frame_size = 2, tx_next_time = 0,
     tx_resend_interval = 2 / 100, tx_frames = (replicate frames_size False)[0 := True] \<rparr>"

lemma ex_packet_bytes:
  "peer_send_packet_bin ex_packet p = Some (message_header 0 p @ packet_image ex_packet @ [1, 2])"
  using message_header_length [of 0 p] packet_image_length [of ex_packet]
  by (simp add: peer_packet_bin_image ex_packet_def frame_packet_def AOO_MAX_PACKET_SIZE_def)

definition ex_sent :: peer where
  "ex_sent = ex_peer\<lparr> pe_next_sequence_reliable := 1, pe_send_buffer := [ex_tx] \<rparr>"

lemma ex_send:
  "send_message ex_message (int 100 + kBinMessageHeaderSize) True ex_peer =
     Some ([peer_send_out (Binary (message_header 0 ex_sent @ packet_image ex_packet @ [1, 2])) ex_sent], ex_sent)"
proof -
  have tx: "sent_message_new 0 [1, 2] 5 0 1 2 (2 / 100) = Some ex_tx"
    by (simp add: sent_message_new_def ex_tx_def frames_size_def mark_frames_def)
  have pk: "(packet_of ex_message 1 0)\<lparr> mp_data := [1, 2] \<rparr> = ex_packet"
    using ex_message_ok(2) by (simp add: packet_of_def ex_packet_def frame_packet_def)
  have div: "(2 :: int) sdiv 100 = 0" "(2 :: int) smod 100 = 2" by (simp_all add: signed_divide_int_def signed_modulo_int_def)
  have out: "peer_send_packets True [ex_packet] ex_sent =
      Some [peer_send_out (Binary (message_header 0 ex_sent @ packet_image ex_packet @ [1, 2])) ex_sent]"
    using ex_packet_bytes [of ex_sent] by (simp add: peer_send_packet_def)
  have "to_int32 1 = 1" by (simp add: to_int32_def)
  then have "ex_peer\<lparr> pe_next_sequence_reliable := to_int32 (0 + 1), pe_send_buffer := send_push ex_tx (pe_send_buffer ex_peer) \<rparr> = ex_sent"
    by (simp add: ex_sent_def send_push_def)
  then show ?thesis
    using tx pk out by (simp add: send_message_def div AOO_CLIENT_MIN_RESEND_TIME_def Let_def del: peer_send_packets.simps)
qed

text \<open>The message is sent, received, acknowledged, and forgotten by its sender.\<close>

lemma ex_acknowledged:
  "\<exists>out q. do_send True now settings (ex_sent\<lparr> pe_received_acks := [\<lparr> ma_sequence = 0, ma_frame_index = 0 \<rparr>] \<rparr>) = Some (out, q) \<and>
     pe_send_buffer q = []"
proof -
  let ?p = "ex_sent\<lparr> pe_received_acks := [\<lparr> ma_sequence = 0, ma_frame_index = 0 \<rparr>] \<rparr>"
  obtain out1 p1 where 1: "send_pings now settings ?p = (out1, p1)" by (cases "send_pings now settings ?p")
  obtain out2 p2 where 2: "reply_ping now p1 = (out2, p2)" by (cases "reply_ping now p1")
  have v: "view p2 = view ?p" using send_pings_view [OF 1] reply_ping_view [OF 2] by auto
  have f: "pe_send_acks p2 = []" "pe_received_acks p2 = [\<lparr> ma_sequence = 0, ma_frame_index = 0 \<rparr>]" "pe_send_buffer p2 = [ex_tx]"
    using v by (simp_all add: view_def ex_sent_def)
  let ?tx = "ex_tx\<lparr> tx_frames := (tx_frames ex_tx)[0 := False] \<rparr>"
  have "apply_acks [\<lparr> ma_sequence = 0, ma_frame_index = 0 \<rparr>] [ex_tx] = Some [?tx]"
    by (simp add: apply_ack_def send_find_def ack_frame_def bitset_set_def) (simp add: ex_tx_def frames_size_def)
  moreover have "sent_complete ?tx" by (auto simp: sent_complete_def bitset_none_iff ex_tx_def nth_list_update)
  ultimately show ?thesis using 1 2 f by (simp add: do_send_def flush_acks_def)
qed

lemma ex_run:
  "\<exists>L. link_step\<^sup>*\<^sup>* ex_link L \<and> lk_sent L = [(ex_message, 100)] \<and> pe_send_buffer (lk_sender L) = [] \<and>
     messages (lk_receiver L) = [event_of (ex_message, 100)]"
proof -
  let ?x = "(ex_message, 100 :: nat)" and ?a = "\<lparr> ma_sequence = 0, ma_frame_index = 0 \<rparr>" and ?now = "1 :: u64"
  define settings where "settings = \<lparr> ps_interval = 1, ps_probeTime = 1, ps_probeInterval = 1, ps_probeCount = 1 \<rparr>"
  define b where "b = message_header 0 ex_sent @ packet_image ex_packet @ [1, 2]"
  define L1 where "L1 = ex_link\<lparr> lk_sent := [?x], lk_sender := ex_sent, lk_net := {b} \<rparr>"
  have s1: "link_step ex_link L1"
    using link_step.send [of ex_message 100 ex_link] ex_send
    by (simp add: L1_def ex_link_def b_def)
  have ok: "sendable [?x]" using ex_message_ok(1) by (simp add: sendable_def)
  have i1: "link_inv L1" by (rule link_step_ok [OF s1 link_init_ok [OF ex_link_init]]) (simp add: L1_def ok)
  have pk: "packet_for [?x] 0 0 ex_packet" using ex_message_ok(2) by (auto simp: packet_for_def ex_packet_def covers_def)
  have all: "\<forall>x \<in> set [?x]. message_ok x" using ex_message_ok(1) by simp
  have ids: "ids_ok ex_sent" "ids_ok ex_peer" by (simp_all add: ids_ok_def ex_sent_def)
  have "receiver_ok [?x] (ex_peer\<lparr> pe_binary_ack := True \<rparr>)"
    using i1 by (simp add: link_inv_def L1_def ex_link_def receiving_def receiver_ok_def messages_def)
  from handle_reliable_ok [OF all pk this] obtain buf ev where r:
    "handle_reliable ex_packet (ex_peer\<lparr> pe_binary_ack := True \<rparr>) = Some (ex_peer\<lparr> pe_binary_ack := True, pe_receive_buffer := buf, pe_events := ev,
      pe_send_acks := [?a] \<rparr>)"
    "receiver_ok [?x] (ex_peer\<lparr> pe_binary_ack := True, pe_receive_buffer := buf, pe_events := ev \<rparr>)" "has_frame buf 0 0"
    by (elim exE conjE) (rule that, simp_all)
  define R where "R = ex_peer\<lparr> pe_binary_ack := True, pe_receive_buffer := buf, pe_events := ev, pe_send_acks := [?a] \<rparr>"
  have "packet_wf ex_packet" by (rule packet_for_wf(1) [OF all pk]) simp
  from handle_sent_packet [OF this ids(1) ex_packet_bytes, of ex_peer]
  have "handle_bin_message b (binmsg_headersize b) ex_peer = Some R"
    using r(1) packet_fields(10) [OF pk] flag_tests(3) [of ex_packet] by (simp add: b_def do_handle_client_message_def R_def)
  then have s2: "link_step L1 (L1\<lparr> lk_receiver := R \<rparr>)"
    using link_step.receive [of b L1 R] by (simp add: L1_def ex_link_def)
  have i2: "link_inv (L1\<lparr> lk_receiver := R \<rparr>)" by (rule link_step_ok [OF s2 i1]) (simp add: L1_def ok)
  have rec: "receiving [?x] R" using link_invD(4) [OF i2] by (simp add: L1_def)
  have msg: "messages R = [event_of ?x]"
    using all_frames_delivered [OF all, of R] rec r(3) ex_message_ok(2) by (simp add: receiving_def R_def)
  obtain out R' where ack: "do_send True ?now settings R = Some (out, R')" "message_header 1 R @ ack_image ?a \<in> binaries out" "messages R' = messages R"
    using do_send_receiving [OF rec, of ?now settings] by (auto simp: R_def)
  define L3 where "L3 = L1\<lparr> lk_receiver := R', lk_acks := binaries out \<rparr>"
  have "peer_send True ?now settings R = Some (out, R')" using ack(1) by (simp add: peer_send_def R_def)
  then have s3: "link_step (L1\<lparr> lk_receiver := R \<rparr>) L3"
    using link_step.acknowledge [of ?now settings "L1\<lparr> lk_receiver := R \<rparr>" out R'] by (simp add: L3_def L1_def ex_link_def)
  let ?A = "ex_sent\<lparr> pe_received_acks := [?a] \<rparr>"
  have "ids_ok R" using rec by (simp add: receiving_def)
  then have "handle_bin_message (message_header 1 R @ ack_image ?a) (binmsg_headersize (message_header 1 R @ ack_image ?a)) ex_sent = Some ?A"
    using handle_sent_ack [of ?a R ex_sent] by (simp add: int32_ok_def) (simp add: ex_sent_def)
  then have s4: "link_step L3 (L3\<lparr> lk_sender := ?A \<rparr>)"
    using link_step.acknowledged [OF _, of "message_header 1 R @ ack_image ?a" L3 ?A] ack(2) by (simp add: L3_def L1_def)
  obtain out' A' where t: "do_send True ?now settings ?A = Some (out', A')" "pe_send_buffer A' = []" using ex_acknowledged by blast
  then have "peer_send True ?now settings ?A = Some (out', A')" by (simp add: peer_send_def ex_sent_def)
  then have s5: "link_step (L3\<lparr> lk_sender := ?A \<rparr>) (L3\<lparr> lk_sender := A', lk_net := lk_net L3 \<union> binaries out' \<rparr>)"
    using link_step.transmit [of ?now settings "L3\<lparr> lk_sender := ?A \<rparr>" out' A'] by simp
  have "link_step\<^sup>*\<^sup>* ex_link (L3\<lparr> lk_sender := A', lk_net := lk_net L3 \<union> binaries out' \<rparr>)"
    by (rule s1 s2 s3 s4 r_into_rtranclp [where r = link_step, OF s5] converse_rtranclp_into_rtranclp [where r = link_step])+
  then show ?thesis
    using t(2) msg ack(3)
    by (intro exI [of _ "L3\<lparr> lk_sender := A', lk_net := lk_net L3 \<union> binaries out' \<rparr>"]) (simp add: L3_def L1_def)
qed

subsection \<open>Properties\<close>

text \<open>
  C8. Take messages that are not empty, have at most 256 frames, are no whole number of frames if they have several, and
  whose last two frames fit into one packet buffer (\<^const>\<open>message_ok\<close>), and fewer than \<open>2 ^ 31\<close> of them. However the network
  loses, duplicates and reorders packets, and whenever the peers resend and acknowledge: the receiver has delivered a
  prefix of the reliable messages that were sent, in the order in which they were sent, each once, and each with its time
  stamp, type and all of its bytes.
\<close>

theorem reliable_in_order:
  assumes "link_init L" and "link_step\<^sup>*\<^sup>* L L'" and "\<forall>x \<in> set (lk_sent L'). message_ok x" and "length (lk_sent L') < 2 ^ 31"
  shows "\<exists>k \<le> length (lk_sent L'). messages (lk_receiver L') = map event_of (take k (lk_sent L'))"
proof -
  have "link_inv L'" using link_steps_ok [OF assms(1,2)] assms(3,4) by (simp add: sendable_def)
  then have "receiver_ok (lk_sent L') (lk_receiver L')" by (simp add: link_inv_def receiving_def)
  then show ?thesis by (intro exI [of _ "nat (mb_last_popped (pe_receive_buffer (lk_receiver L')) + 1)"])
    (auto simp: receiver_ok_def buffer_ok_def)
qed

theorem reliable_in_order_witness:
  "\<exists>L. link_step\<^sup>*\<^sup>* ex_link L \<and> lk_sent L = [(ex_message, 100)] \<and>
     (\<exists>k \<le> length (lk_sent L). messages (lk_receiver L) = map event_of (take k (lk_sent L)))"
proof -
  obtain L where L: "link_step\<^sup>*\<^sup>* ex_link L" "lk_sent L = [(ex_message, 100)]" using ex_run by blast
  then show ?thesis using reliable_in_order [OF ex_link_init L(1)] ex_message_ok(1) by (intro exI [of _ L]) simp
qed

text \<open>
  C9. With messages that satisfy the same conditions (\<^const>\<open>message_ok\<close>: in particular, none is empty), a message leaves the send
  buffer only when the receiver has all of it: when the buffer of the sender is empty, every message that was sent has
  been delivered, in order and with all of its bytes.
\<close>

theorem reliable_no_loss:
  assumes "link_init L" and "link_step\<^sup>*\<^sup>* L L'" and "\<forall>x \<in> set (lk_sent L'). message_ok x" and "length (lk_sent L') < 2 ^ 31"
    and "pe_send_buffer (lk_sender L') = []"
  shows "messages (lk_receiver L') = map event_of (lk_sent L')"
proof (rule all_frames_delivered)
  have inv: "link_inv L'" using link_steps_ok [OF assms(1,2)] assms(3,4) by (simp add: sendable_def)
  show "\<forall>x \<in> set (lk_sent L'). message_ok x" by (rule assms(3))
  show "receiver_ok (lk_sent L') (lk_receiver L')" using link_invD(4) [OF inv] by (simp add: receiving_def)
  show "\<forall>k < length (lk_sent L'). \<forall>i < frames_of (lk_sent L' ! k). has_frame (pe_receive_buffer (lk_receiver L')) k i"
    using link_invD(3) [OF inv] assms(5) by (simp add: sending_def sender_ok_def)
qed

theorem reliable_no_loss_witness:
  "\<exists>L. link_step\<^sup>*\<^sup>* ex_link L \<and> lk_sent L = [(ex_message, 100)] \<and> messages (lk_receiver L) = map event_of (lk_sent L)"
proof -
  obtain L where L: "link_step\<^sup>*\<^sup>* ex_link L" "lk_sent L = [(ex_message, 100)]" "pe_send_buffer (lk_sender L) = []" using ex_run by blast
  then show ?thesis using reliable_no_loss [OF ex_link_init L(1) _ _ L(3)] ex_message_ok(1) by (intro exI [of _ L]) simp
qed

text \<open>
  C10. With messages that satisfy the same conditions, no step of the peers fails: any packet and any acknowledgement that
  was ever sent is parsed and stored without a failed assertion or an access outside of a buffer, the send
  threads of both peers stay within their packet buffers when they resend and acknowledge, and so does sending the
  next message.
\<close>

theorem peers_never_fault:
  assumes "link_init L" and "link_step\<^sup>*\<^sup>* L L'" and "\<forall>x \<in> set (lk_sent L'). message_ok x" and "length (lk_sent L') + 1 < 2 ^ 31"
  shows "(\<forall>b \<in> lk_net L'. handle_bin_message b (binmsg_headersize b) (lk_receiver L') \<noteq> None) \<and>
    (\<forall>b \<in> lk_acks L'. handle_bin_message b (binmsg_headersize b) (lk_sender L') \<noteq> None) \<and>
    peer_send True now settings (lk_sender L') \<noteq> None \<and> peer_send True now settings (lk_receiver L') \<noteq> None \<and>
    (\<forall>m fs. message_ok (m, fs) \<longrightarrow> pe_connected (lk_sender L') \<longrightarrow>
       send_message m (int fs + kBinMessageHeaderSize) True (lk_sender L') \<noteq> None)"
proof -
  have inv: "link_inv L'" using link_steps_ok [OF assms(1,2)] assms(3,4) by (simp add: sendable_def)
  have "handle_bin_message b (binmsg_headersize b) (lk_receiver L') \<noteq> None" if "b \<in> lk_net L'" for b
    using receive_packet_ok [OF link_invD(1,2,4,5) [OF inv] link_invD(7) [OF inv that]] by auto
  moreover have "handle_bin_message b (binmsg_headersize b) (lk_sender L') \<noteq> None" if "b \<in> lk_acks L'" for b
    using receive_ack_ok [OF link_invD(1-3,6) [OF inv] link_invD(8) [OF inv that]] by auto
  moreover have "peer_send True now settings (lk_sender L') \<noteq> None" "peer_send True now settings (lk_receiver L') \<noteq> None"
    using peer_send_sending [OF link_invD(1-3) [OF inv], of now settings] peer_send_receiving [OF link_invD(4) [OF inv], of now settings] by auto
  moreover have "send_message m (int fs + kBinMessageHeaderSize) True (lk_sender L') \<noteq> None"
    if "message_ok (m, fs)" "pe_connected (lk_sender L')" for m fs
    using send_step_ok [OF inv that(1) assms(4) that(2)] by auto
  ultimately show ?thesis by blast
qed

theorem peers_never_fault_witness:
  "\<exists>L. link_step\<^sup>*\<^sup>* ex_link L \<and> lk_sent L = [(ex_message, 100)] \<and>
     (\<forall>b \<in> lk_net L. handle_bin_message b (binmsg_headersize b) (lk_receiver L) \<noteq> None)"
proof -
  obtain L where L: "link_step\<^sup>*\<^sup>* ex_link L" "lk_sent L = [(ex_message, 100)]" using ex_run by blast
  then show ?thesis using peers_never_fault [OF ex_link_init L(1)] ex_message_ok(1) by (intro exI [of _ L]) simp
qed

end
