(* ===== verification/Peer_Limits.thy ===== *)
theory Peer_Limits
  imports Peer_Link
begin

text \<open>
  Where the messages between peers go wrong: the conditions of the theorems on reliable delivery are
  necessary.
\<close>

subsection \<open>Messages of a whole number of frames\<close>

text \<open>The two packets of a message whose size is twice the size of a frame.\<close>

definition first_half :: "message \<Rightarrow> nat \<Rightarrow> message_packet" where
  "first_half m fs = (packet_of m 2 0)\<lparr> mp_data := take fs (pm_data m) \<rparr>"

definition second_half :: "message \<Rightarrow> message_packet" where
  "second_half m = (packet_of m 2 0)\<lparr> mp_frame_index := 1, mp_data := [] \<rparr>"

lemma whole_frames:
  assumes "0 < fs" and "length (pm_data m) = 2 * fs"
  shows "message_frames m (int fs) 0 (packet_of m 2 0) [0, 1] = Some [first_half m fs, second_half m]"
  using assms by (simp add: message_frame_def slice_def packet_of_def first_half_def second_half_def)

definition half_received :: "message \<Rightarrow> nat \<Rightarrow> received_message" where
  "half_received m fs = \<lparr> rx_sequence = 0, rx_size = int (2 * fs), rx_tt = pm_tt m,
     rx_data = Some (map Some (take fs (pm_data m)) @ replicate fs None), rx_type = pm_type m, rx_num_frames = 2,
     rx_frames = (replicate frames_size False)[0 := False, 1 := True] \<rparr>"

lemma replicate_update: "(replicate n x)[i := x] = replicate n x"
  by (cases "i < n") (simp_all add: list_update_same_conv list_update_beyond)

lemma mark_two: "mark_frames 2 bs = bs[0 := True, 1 := True]"
  by (simp add: mark_frames_def upt_rec numeral_2_eq_2)

lemma add_first_half:
  assumes "0 < fs" and "length (pm_data m) = 2 * fs"
  shows "add_new_message (first_half m fs) receive_buffer_init =
    Some \<lparr> mb_data = [half_received m fs], mb_last_pushed = 0, mb_last_popped = - 1 \<rparr>"
proof -
  let ?m = "\<lparr> rx_sequence = 0, rx_size = int (2 * fs), rx_tt = pm_tt m, rx_data = Some (replicate (2 * fs) None), rx_type = pm_type m,
    rx_num_frames = 2, rx_frames = (replicate frames_size False)[0 := True, 1 := True] \<rparr>"
  have i: "rx_init (pm_type m) (pm_tt m) 2 (int (2 * fs)) (received_message_new 0) = Some ?m"
    by (simp add: rx_init_def received_message_new_def frames_size_def mark_two nat_mult_distrib)
  have "mem_copy 0 (take fs (pm_data m)) (replicate (2 * fs) None) = Some (map Some (take fs (pm_data m)) @ replicate fs None)"
    using assms by (simp add: mem_copy_def)
  moreover have "\<not> rx_complete ?m" by (auto simp: rx_complete_def bitset_none_iff frames_size_def intro!: exI [of _ 0])
  ultimately have a: "rx_add_frame 0 (take fs (pm_data m)) ?m = Some (half_received m fs)"
    by (simp add: rx_add_frame_def bitset_set_def half_received_def frames_size_def list_update_swap)
  show ?thesis
    using i a assms
    by (simp add: add_new_message_def first_half_def packet_of_def push_skipped_def receive_buffer_init_def receive_push_def)
      (simp add: half_received_def)
qed

definition whole_received :: "message \<Rightarrow> nat \<Rightarrow> received_message" where
  "whole_received m fs = (half_received m fs)\<lparr> rx_frames := replicate frames_size False \<rparr>"

lemma add_second_half:
  assumes "0 < fs" and "length (pm_data m) = 2 * fs"
  shows "add_to_message (second_half m) (half_received m fs) = Some (whole_received m fs)" "\<not> rx_complete (half_received m fs)"
    "rx_complete (whole_received m fs)"
proof -
  show n: "\<not> rx_complete (half_received m fs)"
    by (auto simp: rx_complete_def bitset_none_iff half_received_def frames_size_def intro!: exI [of _ 1])
  show "rx_complete (whole_received m fs)" by (simp add: rx_complete_def whole_received_def half_received_def bitset_none_def)
  have f: "(replicate frames_size False)[0 := False, Suc 0 := True, Suc 0 := False] = replicate frames_size False"
    by (simp add: replicate_update)
  have "rx_has_frame 1 (half_received m fs) = Some False"
    by (simp add: rx_has_frame_def rx_placeholder_def half_received_def bitset_get_def frames_size_def)
  moreover have "mem_copy (int (2 * fs)) [] (map Some (take fs (pm_data m)) @ replicate fs None)
      = Some (map Some (take fs (pm_data m)) @ replicate fs None)"
    using assms by (simp add: mem_copy_def nat_mult_distrib)
  ultimately show "add_to_message (second_half m) (half_received m fs) = Some (whole_received m fs)"
    using n f by (simp add: add_to_message_def second_half_def packet_of_def rx_add_frame_def bitset_set_def rx_placeholder_def
      whole_received_def) (simp add: half_received_def frames_size_def bitset_set_def)
qed

text \<open>
  A message of exactly two whole frames: the last frame is cut with the remainder of the division, which is zero, so that it
  is empty. The receiver takes the message for complete and delivers it with bytes that were never written.
\<close>

theorem whole_frames_lose_data:
  assumes "0 < fs" and "length (pm_data m) = 2 * fs" and "pe_receive_buffer p = receive_buffer_init"
  shows "\<exists>pk1 pk2 q1 q2. message_frames m (int fs) 0 (packet_of m 2 0) [0, 1] = Some [pk1, pk2] \<and>
    handle_reliable pk1 p = Some q1 \<and> handle_reliable pk2 q1 = Some q2 \<and>
    pe_events q2 = pe_events p @ [PeerMessage (pm_tt m) (pm_type m) (map Some (take fs (pm_data m)) @ replicate fs None)]"
proof -
  let ?b1 = "\<lparr> mb_data = [half_received m fs], mb_last_pushed = 0, mb_last_popped = - 1 \<rparr>"
  let ?q1 = "push_ack (first_half m fs) (p\<lparr> pe_receive_buffer := ?b1 \<rparr>)"
  have "store_packet (first_half m fs) (pe_receive_buffer p) = Some ?b1"
    using add_first_half [OF assms(1,2)] assms(3)
    by (simp add: store_packet_def receive_buffer_init_def) (simp add: first_half_def packet_of_def)
  then have 1: "handle_reliable (first_half m fs) p = Some ?q1"
    using add_second_half(2) [OF assms(1,2)] assms(3)
    by (simp add: handle_reliable_def receive_buffer_init_def split: option.splits) (simp add: first_half_def packet_of_def)
  have q1: "pe_receive_buffer ?q1 = ?b1" "pe_events ?q1 = pe_events p" by (simp_all add: push_ack_def)
  let ?b2 = "\<lparr> mb_data = [whole_received m fs], mb_last_pushed = 0, mb_last_popped = - 1 \<rparr>"
  have "rx_sequence (half_received m fs) = 0" "mp_sequence (second_half m) = 0"
    by (simp_all add: half_received_def second_half_def packet_of_def)
  then have "store_packet (second_half m) ?b1 = Some ?b2"
    using add_second_half(1) [OF assms(1,2)] by (simp add: store_packet_def receive_find_def)
  moreover have "rx_data (whole_received m fs) = Some (map Some (take fs (pm_data m)) @ replicate fs None)"
    "rx_tt (whole_received m fs) = pm_tt m" "rx_type (whole_received m fs) = pm_type m"
    by (simp_all add: whole_received_def half_received_def)
  ultimately have "\<exists>q2. handle_reliable (second_half m) ?q1 = Some q2 \<and>
      pe_events q2 = pe_events p @ [PeerMessage (pm_tt m) (pm_type m) (map Some (take fs (pm_data m)) @ replicate fs None)]"
    using add_second_half(3) [OF assms(1,2)] \<open>mp_sequence (second_half m) = 0\<close>
    by (simp add: handle_reliable_def q1) (simp add: push_ack_def peer_event_def)
  then show ?thesis using whole_frames [OF assms(1,2)] 1 by blast
qed

theorem whole_frames_lose_data_witness:
  "\<exists>pk1 pk2 q1 q2. message_frames (ex_message\<lparr> pm_data := [1, 2] \<rparr>) (int 1) 0 (packet_of (ex_message\<lparr> pm_data := [1, 2] \<rparr>) 2 0) [0, 1] =
     Some [pk1, pk2] \<and> handle_reliable pk1 ex_peer = Some q1 \<and> handle_reliable pk2 q1 = Some q2 \<and>
     pe_events q2 = [PeerMessage 5 0 [Some 1, None]]"
  using whole_frames_lose_data [of 1 "ex_message\<lparr> pm_data := [1, 2] \<rparr>" ex_peer] by simp

subsection \<open>Empty messages\<close>

text \<open>
  An empty reliable message has no frames: it counts as acknowledged when it is sent, and the send thread
  forgets it without waiting for the receiver.
\<close>

theorem empty_message_forgotten:
  assumes "pm_data m = []" and "pm_reliable m" and "pe_connected p" and "pe_send_buffer p = []" and "kBinMessageHeaderSize < packet_size"
  shows "\<exists>out q. send_message m packet_size True p = Some (out, q) \<and> pop_acknowledged (pe_send_buffer q) = []"
proof -
  let ?size = "packet_size - kBinMessageHeaderSize"
  have "mp_data (packet_of m 0 k) = []" "(packet_of m 0 k)\<lparr> mp_data := [] \<rparr> = packet_of m 0 k" for k by (simp_all add: packet_of_def)
  then have "peer_send_packet True (packet_of m 0 k) q = Some (peer_send_out (Binary (message_header 0 q @ packet_image (packet_of m 0 k))) q)" for k q
    using message_header_length [of 0 q] packet_image_length [of "packet_of m 0 k"]
    by (simp add: peer_send_packet_def peer_packet_bin_image AOO_MAX_PACKET_SIZE_def)
  moreover have "bitset_none (mark_frames 0 (replicate frames_size False))" by (simp add: mark_frames_def bitset_none_def)
  ultimately show ?thesis
    using assms \<open>\<And>k. (packet_of m 0 k)\<lparr> mp_data := [] \<rparr> = packet_of m 0 k\<close>
    by (simp add: send_message_def Let_def signed_divide_int_def signed_modulo_int_def sent_message_new_def send_push_def sent_complete_def)
qed

theorem empty_message_forgotten_witness:
  "\<exists>out q. send_message (ex_message\<lparr> pm_data := [] \<rparr>) 512 True ex_peer = Some (out, q) \<and> pop_acknowledged (pe_send_buffer q) = []"
  by (rule empty_message_forgotten) (simp_all add: kBinMessageHeaderSize_def)

subsection \<open>Buffers\<close>

text \<open>
  The size that is reserved for the header of a binary message is four bytes too small: with the largest
  packet size, large identifiers and a time stamp, every frame of a longer message is written past the end of the
  buffer.
\<close>

theorem header_size_too_small:
  assumes "256 \<le> pe_group_id p" and "pm_tt m \<noteq> 0" and "4056 < length (pm_data m)"
  shows "send_message m (int AOO_MAX_PACKET_SIZE) True p = None"
proof -
  let ?n = "int (length (pm_data m))"
  have size: "int AOO_MAX_PACKET_SIZE - kBinMessageHeaderSize = 4056" by (simp add: AOO_MAX_PACKET_SIZE_def kBinMessageHeaderSize_def)
  define F where "F = ?n sdiv 4056 + (if ?n smod 4056 \<noteq> 0 then 1 else 0)"
  have F: "1 < F"
  proof -
    have "?n = 4056 * (?n div 4056) + ?n mod 4056" by simp
    moreover have "0 \<le> ?n mod 4056" "?n mod 4056 < 4056" by simp_all
    ultimately have "1 < ?n div 4056 + (if ?n mod 4056 \<noteq> 0 then 1 else 0)" using assms(3) by (auto split: if_splits)
    moreover have "?n sdiv 4056 = ?n div 4056" "?n smod 4056 = ?n mod 4056"
      by (simp_all add: signed_divide_int_def signed_modulo_int_def sgn_if)
    ultimately show ?thesis by (simp only: F_def)
  qed
  have none: "message_frames m 4056 rm (packet_of m F k) [0..F - 1] \<bind> (\<lambda>pks. peer_send_packets True pks q \<bind> h) = None"
    if "pe_group_id q = pe_group_id p" for rm k q and h :: "sends \<Rightarrow> (sends \<times> peer) option"
  proof -
    have "[0..F - 1] = 0 # [1..F - 1]" using F by (simp add: upto_rec1)
    moreover have "message_frame m 4056 rm F 0 = Some (take 4056 (pm_data m))"
      using F assms(3) by (simp add: message_frame_def slice_def)
    moreover let ?pk = "(packet_of m F k)\<lparr> mp_frame_index := 0, mp_data := take 4056 (pm_data m) \<rparr>"
    have "length (packet_image ?pk) = 32" using F assms(2) by (simp add: packet_image_def packet_of_def)
    moreover have "length (message_header 0 q) = 12" using that assms(1) by (simp add: message_header_def binmsg_header_image_length)
    moreover have "length (mp_data ?pk) = 4056" using assms(3) by simp
    ultimately have "peer_send_packet True ?pk q = None"
      by (simp add: peer_send_packet_def peer_packet_bin_image AOO_MAX_PACKET_SIZE_def)
    moreover have "mp_num_frames (packet_of m F k) = F" by (simp add: packet_of_def)
    ultimately show ?thesis
      using \<open>[0..F - 1] = 0 # [1..F - 1]\<close> \<open>message_frame m 4056 rm F 0 = Some (take 4056 (pm_data m))\<close>
      by (cases "message_frames m 4056 rm (packet_of m F k) [1..F - 1]") simp_all
  qed
  show ?thesis
  proof (cases "pm_reliable m")
    case True
    then show ?thesis
      using none F
      by (cases "sent_message_new (pm_type m) (pm_data m) (pm_tt m) (pe_next_sequence_reliable p) F
            (if ?n sdiv 4056 \<noteq> 0 then 4056 else ?n smod 4056) (max (pe_average_rtt p * 2) AOO_CLIENT_MIN_RESEND_TIME)")
        (simp_all add: send_message_def size Let_def F_def [symmetric])
  qed (use none F in \<open>simp add: send_message_def size Let_def F_def [symmetric]\<close>)
qed

theorem header_size_too_small_witness:
  "send_message (ex_message\<lparr> pm_data := replicate 4057 0 \<rparr>) (int AOO_MAX_PACKET_SIZE) True (ex_peer\<lparr> pe_group_id := 256 \<rparr>) = None"
  by (rule header_size_too_small) simp_all

text \<open>
  The last frame of a message is resent from the start of the frame before it: with frames of more than half of the
  largest packet size, resending it writes past the end of the buffer although every frame fits.
\<close>

theorem resend_exceeds_buffer:
  assumes "tx_num_frames tx = 2" and "0 < tx_frame_size tx" and "AOO_MAX_PACKET_SIZE < length (tx_data tx)"
    and "sent_has_frame 1 tx = Some False"
  shows "peer_resend_frames True tx [1] p = None"
proof -
  have "sent_get_frame 1 tx = Some (tx_data tx)" using assms(1) by (simp add: sent_get_frame_def slice_def)
  moreover have "peer_send_packet True (peer_resend_packet tx 1 (tx_data tx)) p = None"
    using assms(3) by (simp add: peer_send_packet_def peer_packet_bin_image peer_resend_packet_def)
  ultimately show ?thesis using assms(4) by simp
qed

theorem resend_exceeds_buffer_witness:
  "peer_resend_frames True (ex_tx\<lparr> tx_num_frames := 2, tx_frame_size := 4000, tx_data := replicate 4100 0,
     tx_frames := (replicate frames_size False)[1 := True] \<rparr>) [1] ex_peer = None"
  by (rule resend_exceeds_buffer) (simp_all add: AOO_MAX_PACKET_SIZE_def sent_has_frame_def bitset_get_def frames_size_def)

text \<open>
  The size of a list of acknowledgements is computed in 32 bits: a message of four bytes that announces
  \<open>2 ^ 29\<close> of them passes the check and is read past its end.
\<close>

theorem ack_count_overflows: "handle_ack_bin (to_bytes (0x20000000 :: u32)) p = None"
proof -
  have "read_acks n ptr = None" if "0 < n" "length ptr < 8" for n ptr using that by (cases n) auto
  moreover have "read_bytes (to_bytes (0x20000000 :: u32)) = (0x20000000 :: u32, [])"
    using read_bytes_append [where rest = "[]" and v = "0x20000000 :: u32"] by simp
  ultimately show ?thesis by (simp add: handle_ack_bin_def)
qed

subsection \<open>Pings\<close>

text \<open>
  A pong brings the ping timer back to its regular state, but the number of probes that were sent is only
  reset together with the timer: once all probes were used, the peer is declared inactive at the next
  deadline without a single further probe, although it has answered in between.
\<close>

theorem probes_not_renewed:
  assumes "\<not> pt_reset t" and "pt_pong t" and "ps_probeCount settings \<le> pt_probe_count t"
    and "timer_update now settings ping_when_inactive t = (res, t1)" and "pt_deadline t1 \<le> next_time"
  shows "fst res = ping_regular \<and> (\<exists>ping wait t2. timer_update next_time settings ping_when_inactive t1 = ((ping_inactive, ping, wait), t2))"
proof -
  have "fst res = ping_regular" "pt_state t1 = ping_regular" "\<not> pt_reset t1" "\<not> pt_pong t1" "pt_probe_count t1 = pt_probe_count t"
    using assms(1,2,4) by (auto simp: timer_update_def timer_phase_def Let_def split: if_splits)
  then show ?thesis using assms(3,5)
    by (cases ping_when_inactive) (auto simp: timer_update_def timer_phase_def Let_def)
qed

theorem probes_not_renewed_witness:
  "\<exists>res t1 ping wait t2. timer_update 100 (\<lparr> ps_interval = 1, ps_probeTime = 0, ps_probeInterval = 1, ps_probeCount = 3 \<rparr>) False
      (ex_timer\<lparr> pt_reset := False, pt_pong := True, pt_probe_count := 3 \<rparr>) = (res, t1) \<and> fst res = ping_regular \<and>
    timer_update (pt_deadline t1) (\<lparr> ps_interval = 1, ps_probeTime = 0, ps_probeInterval = 1, ps_probeCount = 3 \<rparr>) False t1 =
      ((ping_inactive, ping, wait), t2)"
proof -
  let ?s = "\<lparr> ps_interval = 1, ps_probeTime = 0, ps_probeInterval = 1, ps_probeCount = 3 \<rparr>"
  obtain res t1 where r: "timer_update 100 ?s False (ex_timer\<lparr> pt_reset := False, pt_pong := True, pt_probe_count := 3 \<rparr>) = (res, t1)"
    by fastforce
  from probes_not_renewed [OF _ _ _ r, of "pt_deadline t1"] show ?thesis using r by fastforce
qed

end
