(* ===== verification/Stream_Receiver.thy ===== *)
theory Stream_Receiver
  imports Byte_Utils
begin

text \<open>
  Messages over a TCP connection (\<^verbatim>\<open>aoo/src/net/osc_stream_receiver.hpp\<close>): each message is preceded by its size, and the receiver
  puts the messages together from the pieces in which the stream arrives. The handler is a function on the state of
  its owner that may throw an error; \<^const>\<open>None\<close> is a failed assertion or an access outside of the data.
\<close>

unbundle bit_operations_syntax

subsection \<open>Definitions\<close>

record osc_stream_receiver =
  or_buffer :: "byte list"
  or_message_size :: int

definition receiver_reset :: osc_stream_receiver where
  "receiver_reset = \<lparr> or_buffer = [], or_message_size = 0 \<rparr>"

type_synonym 's packet_handler = "byte list \<Rightarrow> 's \<Rightarrow> AooError option \<times> 's"

definition receive_size :: "osc_stream_receiver \<Rightarrow> byte list \<Rightarrow> AooError option \<times> osc_stream_receiver \<times> byte list" where
  "receive_size r data =
     (let count = min (4 - length (or_buffer r)) (length data);
          buffer = or_buffer r @ take count data;
          data = drop count data
      in if length buffer = 4 then
           let msgsize = sint (from_bytes buffer :: u32)
           in if msgsize \<le> 0 \<or> msgsize AND 3 \<noteq> 0 then (Some kAooErrorBadFormat, receiver_reset, data)
              else (None, \<lparr> or_buffer = buffer, or_message_size = msgsize \<rparr>, data)
         else (None, r\<lparr> or_buffer := buffer \<rparr>, data))"

lemma receive_size_shorter:
  "length (or_buffer r) < 4 \<Longrightarrow> data \<noteq> [] \<Longrightarrow> receive_size r data = (e, r', data') \<Longrightarrow> length data' < length data"
  by (cases data) (auto simp: receive_size_def Let_def split: if_splits)

lemma drop_min_shorter: "0 < n \<Longrightarrow> data \<noteq> [] \<Longrightarrow> length (drop (min n (length data)) data) < length data"
  by (cases data) auto

function handle_stream ::
    "'s packet_handler \<Rightarrow> byte list \<Rightarrow> osc_stream_receiver \<Rightarrow> 's \<Rightarrow> (AooError option \<times> osc_stream_receiver \<times> 's) option" where
  "handle_stream handler data r s =
     (if data = [] then Some (None, r, s)
      else if length (or_buffer r) < 4 then
        case receive_size r data of
          (Some e, r', _) \<Rightarrow> Some (Some e, r', s)
        | (None, r', data') \<Rightarrow> handle_stream handler data' r' s
      else
        let bytes_received = int (length (or_buffer r)) - 4;
            bytes_missing = or_message_size r - bytes_received
        in if bytes_received = 0 \<and> hd data \<noteq> 0x2F then Some (Some kAooErrorBadFormat, receiver_reset, s)
           else if bytes_missing \<le> 0 then None
           else
             let count = min (nat bytes_missing) (length data);
                 r' = r\<lparr> or_buffer := or_buffer r @ take count data \<rparr>
             in if bytes_missing = int count then
                  if int (length (or_buffer r')) = or_message_size r + 4 then
                    case handler (drop 4 (or_buffer r')) s of
                      (Some e, s') \<Rightarrow> Some (Some e, r', s')
                    | (None, s') \<Rightarrow> handle_stream handler (drop count data) receiver_reset s'
                  else None
                else handle_stream handler (drop count data) r' s)"
  by pat_completeness auto

termination
proof (relation "measure (\<lambda>(handler, data, r, s). length data)", goal_cases)
  case 1
  show ?case by (rule wf_measure)
next
  case (2 handler data r s x y r' data')
  then show ?case using receive_size_shorter [of r data None r' data'] by simp
next
  case (3 handler data r s received missing count)
  have "0 < nat missing" using 3(6) by simp
  from drop_min_shorter [OF this 3(1)] have "length (drop count data) < length data" unfolding 3(7) .
  then show ?case by simp
next
  case (4 handler data r s received missing count)
  have "0 < nat missing" using 4(6) by simp
  from drop_min_shorter [OF this 4(1)] have "length (drop count data) < length data" unfolding 4(7) .
  then show ?case by simp
qed

declare handle_stream.simps [simp del]

text \<open>The pieces of a stream one after the other, until an error is thrown.\<close>

fun handle_pieces ::
    "'s packet_handler \<Rightarrow> byte list list \<Rightarrow> osc_stream_receiver \<Rightarrow> 's \<Rightarrow> (AooError option \<times> osc_stream_receiver \<times> 's) option" where
  "handle_pieces handler [] r s = Some (None, r, s)"
| "handle_pieces handler (d # ds) r s =
     (case handle_stream handler d r s of
        Some (None, r, s) \<Rightarrow> handle_pieces handler ds r s
      | result \<Rightarrow> result)"

text \<open>A message with its size in front (\<^verbatim>\<open>client_endpoint::send_message\<close>).\<close>

definition stream_packet :: "byte list \<Rightarrow> byte list" where
  "stream_packet m = to_bytes (word_of_nat (length m) :: u32) @ m"

subsection \<open>Lemmas\<close>

definition receiver_wf :: "osc_stream_receiver \<Rightarrow> bool" where
  "receiver_wf r \<longleftrightarrow> (4 \<le> length (or_buffer r) \<longrightarrow> int (length (or_buffer r)) < or_message_size r + 4)"

lemma receiver_reset_wf [simp]: "receiver_wf receiver_reset"
  by (simp add: receiver_wf_def receiver_reset_def)

lemma receive_size_wf: "receive_size r data = (None, r', data') \<Longrightarrow> length (or_buffer r) < 4 \<Longrightarrow> receiver_wf r'"
  by (auto simp: receive_size_def Let_def receiver_wf_def split: if_splits)

lemma receive_size_append:
  assumes "length (or_buffer r) < 4" and "xs \<noteq> []"
  shows "receive_size r (xs @ ys) =
    (case receive_size r xs of
       (None, r', []) \<Rightarrow> if length (or_buffer r') < 4 \<and> ys \<noteq> [] then receive_size r' ys else (None, r', ys)
     | (e, r', zs) \<Rightarrow> (e, r', zs @ ys))"
proof (cases "length (or_buffer r) + length xs < 4")
  case True
  then have xs: "receive_size r xs = (None, r\<lparr> or_buffer := or_buffer r @ xs \<rparr>, [])"
    by (simp add: receive_size_def Let_def)
  have m: "min (4 - length (or_buffer r)) (length xs + length ys) =
      length xs + min (4 - (length (or_buffer r) + length xs)) (length ys)" using True by auto
  show ?thesis using True unfolding xs by (simp add: receive_size_def [of r] receive_size_def [of "r\<lparr>or_buffer := _\<rparr>"] Let_def m)
next
  case False
  then have "min (4 - length (or_buffer r)) (length xs) = 4 - length (or_buffer r)"
    "min (4 - length (or_buffer r)) (length xs + length ys) = 4 - length (or_buffer r)"
    "4 - length (or_buffer r) - length xs = 0" by auto
  then show ?thesis using assms(1) by (simp add: receive_size_def Let_def split: list.split)
qed

lemma handle_stream_wf:
  assumes "receiver_wf r"
  shows "\<exists>e r' s'. handle_stream h data r s = Some (e, r', s') \<and> (e = None \<longrightarrow> receiver_wf r')"
  using assms
proof (induction h data r s rule: handle_stream.induct)
  case (1 h data r s)
  note [simp] = handle_stream.simps [of h data r s]
  show ?case
  proof (cases "data = [] \<or> length (or_buffer r) < 4")
    case True
    then show ?thesis using 1(1) 1(4) receive_size_wf by (auto split: prod.splits option.splits simp: Let_def)
  next
    case False
    let ?m = "or_message_size r - (int (length (or_buffer r)) - 4)"
    let ?c = "min (nat ?m) (length data)"
    let ?r = "r\<lparr> or_buffer := or_buffer r @ take ?c data \<rparr>"
    have m: "0 < ?m" using False 1(4) by (simp add: receiver_wf_def)
    show ?thesis
    proof (cases "?m = int ?c")
      case c: True
      then have "int (length (or_buffer ?r)) = or_message_size r + 4" by auto
      then show ?thesis using False m c 1(2) [OF _ _ refl refl _ _ refl refl] by (auto simp: Let_def split: prod.splits option.splits)
    next
      case c: False
      then have "receiver_wf ?r" using m by (auto simp: receiver_wf_def)
      then show ?thesis using False m c 1(3) [OF _ _ refl refl _ _ refl refl] by (auto simp: Let_def)
    qed
  qed
qed

lemma handle_stream_Nil [simp]: "handle_stream h [] r s = Some (None, r, s)"
  by (subst handle_stream.simps) simp

lemma handle_stream_size:
  "data \<noteq> [] \<Longrightarrow> length (or_buffer r) < 4 \<Longrightarrow>
   handle_stream h data r s =
     (case receive_size r data of (Some e, r', _) \<Rightarrow> Some (Some e, r', s) | (None, r', data') \<Rightarrow> handle_stream h data' r' s)"
  by (subst handle_stream.simps) simp

definition bytes_missing :: "osc_stream_receiver \<Rightarrow> nat" where
  "bytes_missing r = nat (or_message_size r + 4 - int (length (or_buffer r)))"

lemma handle_stream_data:
  assumes "data \<noteq> []" and "\<not> length (or_buffer r) < 4" and "length (or_buffer r) = 4 \<longrightarrow> hd data = 0x2F" and "receiver_wf r"
  shows "handle_stream h data r s =
    (if bytes_missing r \<le> length data then
       case h (drop 4 (or_buffer r @ take (bytes_missing r) data)) s of
         (Some e, s') \<Rightarrow> Some (Some e, r\<lparr> or_buffer := or_buffer r @ take (bytes_missing r) data \<rparr>, s')
       | (None, s') \<Rightarrow> handle_stream h (drop (bytes_missing r) data) receiver_reset s'
     else Some (None, r\<lparr> or_buffer := or_buffer r @ data \<rparr>, s))"
proof -
  let ?m = "or_message_size r - (int (length (or_buffer r)) - 4)"
  have m: "0 < ?m" "\<not> ?m \<le> 0" "nat ?m = bytes_missing r" "?m = int n \<longleftrightarrow> bytes_missing r = n" for n
    using assms(2,4) by (auto simp: receiver_wf_def bytes_missing_def)
  have h: "(int (length (or_buffer r)) - 4 = 0 \<and> hd data \<noteq> 47) = False" using assms(3) by auto
  have l: "int (length (or_buffer r)) + int (bytes_missing r) = or_message_size r + 4" using m(1) by (auto simp: bytes_missing_def)
  show ?thesis
  proof (cases "bytes_missing r \<le> length data")
    case True
    then show ?thesis using assms(1,2) m(2) l
      unfolding handle_stream.simps [of h data r s] Let_def m(3,4) h min_absorb1 [OF True] by simp
  next
    case False
    then have c: "min (bytes_missing r) (length data) = length data" by simp
    show ?thesis using assms(1,2) m(2) False unfolding handle_stream.simps [of h data r s] Let_def m(3,4) h c by simp
  qed
qed

lemma handle_stream_part:
  assumes "4 \<le> length (or_buffer r)" and "xs \<noteq> []" and "length xs < bytes_missing r" and "receiver_wf r"
    and "length (or_buffer r) = 4 \<longrightarrow> hd xs = 0x2F"
  shows "handle_stream h (xs @ ys) r s = handle_stream h ys (r\<lparr> or_buffer := or_buffer r @ xs \<rparr>) s"
proof -
  let ?r = "r\<lparr> or_buffer := or_buffer r @ xs \<rparr>"
  have m: "bytes_missing r = length xs + bytes_missing ?r" "receiver_wf ?r" using assms(3) by (auto simp: bytes_missing_def receiver_wf_def)
  show ?thesis
  proof (cases "ys = []")
    case True
    then show ?thesis using assms by (subst handle_stream_data) auto
  next
    case False
    have "length (or_buffer ?r) \<noteq> 4" using assms(1,2) by (cases xs) simp_all
    then show ?thesis using assms(1,2,5) False
      by (subst (1 2) handle_stream_data) (simp_all add: m assms(4) split: prod.split option.split)
  qed
qed

lemma handle_stream_append:
  assumes "receiver_wf r"
  shows "handle_stream h (xs @ ys) r s =
    (case handle_stream h xs r s of Some (None, r', s') \<Rightarrow> handle_stream h ys r' s' | res \<Rightarrow> res)"
  using assms
proof (induction "length xs" arbitrary: xs r s rule: less_induct)
  case less
  consider "xs = []" | "xs \<noteq> []" "length (or_buffer r) < 4" | "xs \<noteq> []" "\<not> length (or_buffer r) < 4"
    "int (length (or_buffer r)) - 4 = 0 \<and> hd xs \<noteq> 47" | "xs \<noteq> []" "\<not> length (or_buffer r) < 4"
    "\<not> (int (length (or_buffer r)) - 4 = 0 \<and> hd xs \<noteq> 47)" by blast
  then show ?case
  proof cases
    case 2
    note st = handle_stream_size [OF _ 2(2)]
    obtain e r' zs where rs: "receive_size r xs = (e, r', zs)" by (cases "receive_size r xs")
    have "xs @ ys \<noteq> []" using 2 by simp
    show ?thesis
    proof (cases e)
      case None
      then have "receiver_wf r'" using receive_size_wf [OF _ 2(2)] rs by blast
      with less(1) [of zs r' s] receive_size_shorter [OF 2(2,1) rs] have ih: "handle_stream h (zs @ ys) r' s =
        (case handle_stream h zs r' s of Some (None, r', s') \<Rightarrow> handle_stream h ys r' s' | res \<Rightarrow> res)" by blast
      show ?thesis
      proof (cases "zs = [] \<and> length (or_buffer r') < 4 \<and> ys \<noteq> []")
        case True
        then show ?thesis using rs None \<open>xs @ ys \<noteq> []\<close> 2(1) by (simp add: st receive_size_append [OF 2(2,1)] handle_stream_size [of ys r'])
      next
        case False
        then show ?thesis using rs None \<open>xs @ ys \<noteq> []\<close> 2(1) ih by (auto simp: st receive_size_append [OF 2(2,1)] split: list.split)
      qed
    next
      case (Some a)
      then show ?thesis using rs 2(1) by (simp add: st receive_size_append [OF 2(2,1)])
    qed
  next
    case 3
    then show ?thesis unfolding handle_stream.simps [of h "xs @ ys" r s] handle_stream.simps [of h xs r s] by simp
  next
    case 4
    have h: "hd (xs @ ys) = hd xs" "xs @ ys \<noteq> []" "length (or_buffer r) = 4 \<longrightarrow> hd xs = 47" using 4 by simp_all
    show ?thesis
    proof (cases "length xs < bytes_missing r")
      case True
      then have "handle_stream h (xs @ zs) r s = handle_stream h zs (r\<lparr> or_buffer := or_buffer r @ xs \<rparr>) s" for zs
        using 4 h less(2) by (intro handle_stream_part) auto
      from this [of ys] this [of "[]"] show ?thesis by simp
    next
      case False
      have b: "0 < bytes_missing r" using less(2) 4(2) by (auto simp: receiver_wf_def bytes_missing_def)
      let ?h = "h (drop 4 (or_buffer r @ take (bytes_missing r) xs)) s"
      have ih: "fst ?h = None \<Longrightarrow> handle_stream h (drop (bytes_missing r) xs @ ys) receiver_reset (snd ?h) =
        (case handle_stream h (drop (bytes_missing r) xs) receiver_reset (snd ?h) of
           Some (None, r', s') \<Rightarrow> handle_stream h ys r' s' | res \<Rightarrow> res)"
        using less(1) [of "drop (bytes_missing r) xs" receiver_reset] b 4(1) by simp
      show ?thesis using False ih 4(1,2) h less(2)
        by (subst (1 2) handle_stream_data) (auto split: option.split prod.split)
    qed
  qed simp
qed

lemma handle_pieces_concat: "receiver_wf r \<Longrightarrow> handle_pieces h ds r s = handle_stream h (concat ds) r s"
proof (induction ds arbitrary: r s)
  case (Cons d ds)
  obtain e r' s' where d: "handle_stream h d r s = Some (e, r', s')" "e = None \<longrightarrow> receiver_wf r'"
    using handle_stream_wf [OF Cons.prems, of h d s] by (elim exE conjE)
  have "handle_stream h (d @ concat ds) r s = (case e of None \<Rightarrow> handle_stream h (concat ds) r' s' | Some a \<Rightarrow> Some (Some a, r', s'))"
    by (simp add: handle_stream_append [OF Cons.prems] d(1) split: option.split)
  moreover have "handle_pieces h (d # ds) r s = (case e of None \<Rightarrow> handle_pieces h ds r' s' | Some a \<Rightarrow> Some (Some a, r', s'))"
    by (simp add: d(1) split: option.split)
  ultimately show ?case using Cons.IH d(2) by (cases e) simp_all
qed simp

definition stream_packet_ok :: "byte list \<Rightarrow> bool" where
  "stream_packet_ok m \<longleftrightarrow> m \<noteq> [] \<and> length m < 2 ^ 31 \<and> 4 dvd length m \<and> hd m = 0x2F"

fun handle_all :: "'s packet_handler \<Rightarrow> byte list list \<Rightarrow> 's \<Rightarrow> AooError option \<times> 's" where
  "handle_all h [] s = (None, s)"
| "handle_all h (m # ms) s = (case h m s of (Some e, s') \<Rightarrow> (Some e, s') | (None, s') \<Rightarrow> handle_all h ms s')"

lemma and_3_dvd: "4 dvd n \<Longrightarrow> int n AND 3 = 0"
proof -
  have "int n AND 3 = int n AND mask 2" by (simp add: mask_eq_exp_minus_1)
  also have "\<dots> = int n mod 4" by (simp add: take_bit_eq_mask [symmetric] take_bit_eq_mod)
  finally show "4 dvd n \<Longrightarrow> int n AND 3 = 0" by presburger
qed

lemma receive_size_message:
  assumes "stream_packet_ok m"
  shows "receive_size receiver_reset (stream_packet m @ rest) =
    (None, \<lparr> or_buffer = to_bytes (word_of_nat (length m) :: u32), or_message_size = int (length m) \<rparr>, m @ rest)"
proof -
  have "sint (word_of_nat (length m) :: u32) = int (length m)"
    using assms by (simp add: stream_packet_ok_def signed_of_nat signed_take_bit_int_eq_self)
  then show ?thesis
    using assms from_to_bytes [of LITTLE_ENDIAN LITTLE_ENDIAN "word_of_nat (length m) :: u32" "[]"]
    by (auto simp: receive_size_def receiver_reset_def stream_packet_def stream_packet_ok_def and_3_dvd size_of_def)
qed

lemma handle_stream_message:
  assumes "stream_packet_ok m"
  shows "\<exists>r. handle_stream h (stream_packet m @ rest) receiver_reset s =
    (case h m s of (Some e, s') \<Rightarrow> Some (Some e, r, s') | (None, s') \<Rightarrow> handle_stream h rest receiver_reset s')"
proof -
  let ?r = "\<lparr> or_buffer = to_bytes (word_of_nat (length m) :: u32), or_message_size = int (length m) \<rparr>"
  have l: "length (or_buffer ?r) = 4" by (simp add: size_of_def)
  have m: "bytes_missing ?r = length m" "receiver_wf ?r" "m \<noteq> []" "hd (m @ rest) = 0x2F"
    using assms by (auto simp: bytes_missing_def receiver_wf_def stream_packet_ok_def size_of_def)
  have "handle_stream h (stream_packet m @ rest) receiver_reset s = handle_stream h (m @ rest) ?r s"
    using assms by (subst handle_stream_size) (simp_all add: receive_size_message receiver_reset_def [symmetric], simp_all add: stream_packet_def stream_packet_ok_def receiver_reset_def)
  also have "\<dots> = (case h m s of (Some e, s') \<Rightarrow> Some (Some e, ?r\<lparr> or_buffer := or_buffer ?r @ m \<rparr>, s') | (None, s') \<Rightarrow> handle_stream h rest receiver_reset s')"
    using m l by (subst handle_stream_data) (simp_all del: osc_stream_receiver.select_convs split: prod.split option.split)
  finally show ?thesis by blast
qed

lemma handle_stream_messages:
  assumes "\<forall>m \<in> set ms. stream_packet_ok m"
  shows "\<exists>r. handle_stream h (concat (map stream_packet ms)) receiver_reset s = Some (fst (handle_all h ms s), r, snd (handle_all h ms s))"
  using assms
proof (induction ms arbitrary: s)
  case (Cons m ms)
  obtain r where r: "handle_stream h (stream_packet m @ concat (map stream_packet ms)) receiver_reset s =
    (case h m s of (Some e, s') \<Rightarrow> Some (Some e, r, s') | (None, s') \<Rightarrow> handle_stream h (concat (map stream_packet ms)) receiver_reset s')"
    using handle_stream_message [of m] Cons.prems by fastforce
  have "\<forall>s. \<exists>r. handle_stream h (concat (map stream_packet ms)) receiver_reset s = Some (fst (handle_all h ms s), r, snd (handle_all h ms s))"
    using Cons by simp
  then show ?case using r by (auto split: option.split prod.split)
qed simp

subsection \<open>Properties\<close>

text \<open>
  C15. However the bytes of a TCP stream are cut into pieces, the handler gets exactly the messages that were
  sent, each once and in order, until it throws an error itself; the receiver never reads outside of its data.
\<close>

theorem stream_pieces:
  assumes "\<forall>m \<in> set ms. stream_packet_ok m" and "concat ds = concat (map stream_packet ms)"
  shows "\<exists>r. handle_pieces h ds receiver_reset s = Some (fst (handle_all h ms s), r, snd (handle_all h ms s))"
  using handle_stream_messages [OF assms(1)] by (simp add: handle_pieces_concat assms(2))

definition ex_collect :: "byte list list packet_handler" where
  "ex_collect m s = (None, s @ [m])"

theorem stream_pieces_witness:
  "\<exists>r. handle_pieces ex_collect [[0, 0], [0, 4, 0x2F], [1, 2, 3, 0, 0, 0, 4], [0x2F, 5, 6, 7]] receiver_reset [] =
    Some (None, r, [[0x2F, 1, 2, 3], [0x2F, 5, 6, 7]])"
proof -
  have c: "concat [[0, 0], [0, 4, 0x2F], [1, 2, 3, 0, 0, 0, 4], [0x2F, 5, 6, 7]] =
    concat (map stream_packet [[0x2F, 1, 2, 3], [0x2F, 5, 6, 7]])"
    by (simp add: stream_packet_def to_bytes_on_be size_of_def le_bytes_def upt_rec)
  have "\<forall>m \<in> set [[0x2F, 1, 2, 3], [0x2F, 5, 6, 7]]. stream_packet_ok m" by (simp add: stream_packet_ok_def) presburger
  from stream_pieces [OF this c, of ex_collect "[]"] show ?thesis by (simp add: ex_collect_def)
qed

end
