(* ===== verification/Server_Groups.thy ===== *)
theory Server_Groups
  imports Peer Stream_Receiver "HOL-Library.AList"
begin

text \<open>
  The users, groups and clients of a server (\<^verbatim>\<open>aoo/src/net/client_endpoint.hpp\<close>, \<^verbatim>\<open>client_endpoint.cpp\<close>), the requests of clients
  (\<^verbatim>\<open>include/aoo_requests.h\<close>), and the messages that the server sends. An OSC message is the list of its arguments. Users are
  kept in the order of their vector.
\<close>

subsection \<open>Metadata and hosts\<close>

record AooData =
  ad_type :: int
  ad_data :: "byte list"

definition kAooDataUnspecified :: int where "kAooDataUnspecified = -1"

definition metadata_of :: "AooData option \<Rightarrow> AooData" where
  "metadata_of md = (case md of Some d \<Rightarrow> d | None \<Rightarrow> \<lparr> ad_type = kAooDataUnspecified, ad_data = [] \<rparr>)"

text \<open>Metadata as arguments of a message; \<^const>\<open>None\<close> stands for nil arguments.\<close>

definition osc_metadata :: "AooData \<Rightarrow> AooData option" where
  "osc_metadata md = (if ad_type md \<noteq> kAooDataUnspecified then Some md else None)"

record AooIpEndpoint =
  ep_hostName :: "string option"
  ep_port :: int

record ip_host =
  ih_name :: string
  ih_port :: int

definition ip_host_none :: ip_host where
  "ip_host_none = \<lparr> ih_name = '''', ih_port = 0 \<rparr>"

definition ip_host_of :: "AooIpEndpoint \<Rightarrow> ip_host" where
  "ip_host_of ep = \<lparr> ih_name = (case ep_hostName ep of Some n \<Rightarrow> n | None \<Rightarrow> ''''), ih_port = ep_port ep \<rparr>"

definition ip_host_valid :: "ip_host \<Rightarrow> bool" where
  "ip_host_valid h \<longleftrightarrow> ih_port h > 0"

definition osc_host :: "ip_host \<Rightarrow> ip_host option" where
  "osc_host h = (if ip_host_valid h then Some h else None)"

subsection \<open>Users\<close>

definition kAooUserPersistent :: u32 where "kAooUserPersistent = 1"
definition kAooUserGroupCreator :: u32 where "kAooUserGroupCreator = 2"
definition kAooPeerPersistent :: u32 where "kAooPeerPersistent = 2"
definition kAooPeerGroupCreator :: u32 where "kAooPeerGroupCreator = 4"
definition kAooGroupPersistent :: u32 where "kAooGroupPersistent = 1"

lemmas server_flag_defs = kAooUserPersistent_def kAooUserGroupCreator_def kAooPeerPersistent_def kAooPeerGroupCreator_def
  kAooGroupPersistent_def

record user =
  us_name :: string
  us_pwd :: string
  us_id :: int
  us_group :: int
  us_client :: int
  us_flags :: u32
  us_md :: AooData
  us_relay :: ip_host

definition user_new :: "string \<Rightarrow> string \<Rightarrow> int \<Rightarrow> int \<Rightarrow> int \<Rightarrow> AooData option \<Rightarrow> AooIpEndpoint option \<Rightarrow> u32 \<Rightarrow> user" where
  "user_new name pwd i grp client md relay flags =
     \<lparr> us_name = name, us_pwd = pwd, us_id = i, us_group = grp, us_client = client, us_flags = flags, us_md = metadata_of md,
       us_relay = (case relay of Some r \<Rightarrow> ip_host_of r | None \<Rightarrow> ip_host_none) \<rparr>"

definition check_pwd :: "string \<Rightarrow> string option \<Rightarrow> bool" where
  "check_pwd own pwd \<longleftrightarrow> own = '''' \<or> pwd = Some own"

text \<open>The accessor \<^verbatim>\<open>user::flags\<close> has the type \<^verbatim>\<open>bool\<close>.\<close>

definition user_flags :: "user \<Rightarrow> u32" where
  "user_flags u = (if us_flags u \<noteq> 0 then 1 else 0)"

definition group_creator :: "user \<Rightarrow> bool" where
  "group_creator u \<longleftrightarrow> us_flags u AND kAooUserGroupCreator \<noteq> 0"

definition user_persistent :: "user \<Rightarrow> bool" where
  "user_persistent u \<longleftrightarrow> us_flags u AND kAooUserPersistent \<noteq> 0"

definition user_active :: "user \<Rightarrow> bool" where
  "user_active u \<longleftrightarrow> us_client u \<noteq> kAooIdInvalid"

definition user_unset :: "user \<Rightarrow> user" where
  "user_unset u = u\<lparr> us_client := kAooIdInvalid \<rparr>"

subsection \<open>Groups\<close>

record server_group =
  gr_name :: string
  gr_pwd :: string
  gr_id :: int
  gr_flags :: u32
  gr_md :: AooData
  gr_relay :: ip_host
  gr_user_auto_create :: bool
  gr_users :: "user list"
  gr_next_user_id :: int

definition AOO_USER_AUTO_CREATE :: bool where "AOO_USER_AUTO_CREATE = True"

definition group_new :: "string \<Rightarrow> string \<Rightarrow> int \<Rightarrow> AooData option \<Rightarrow> AooIpEndpoint option \<Rightarrow> u32 \<Rightarrow> server_group" where
  "group_new name pwd i md relay flags =
     \<lparr> gr_name = name, gr_pwd = pwd, gr_id = i, gr_flags = flags, gr_md = metadata_of md,
       gr_relay = (case relay of Some r \<Rightarrow> ip_host_of r | None \<Rightarrow> ip_host_none),
       gr_user_auto_create = AOO_USER_AUTO_CREATE, gr_users = [], gr_next_user_id = 0 \<rparr>"

definition group_persistent :: "server_group \<Rightarrow> bool" where
  "group_persistent g \<longleftrightarrow> gr_flags g AND kAooGroupPersistent \<noteq> 0"

definition find_user_by_name :: "string \<Rightarrow> server_group \<Rightarrow> user option" where
  "find_user_by_name name g = find (\<lambda>u. us_name u = name) (gr_users g)"

definition find_user :: "int \<Rightarrow> server_group \<Rightarrow> user option" where
  "find_user i g = find (\<lambda>u. us_id u = i) (gr_users g)"

definition find_user_by_client :: "int \<Rightarrow> server_group \<Rightarrow> user option" where
  "find_user_by_client client g = find (\<lambda>u. us_client u = client) (gr_users g)"

definition add_user :: "user \<Rightarrow> server_group \<Rightarrow> bool \<times> server_group" where
  "add_user u g =
     (if find_user_by_name (us_name u) g = None then (True, g\<lparr> gr_users := gr_users g @ [u] \<rparr>) else (False, g))"

fun erase_user :: "int \<Rightarrow> user list \<Rightarrow> user list" where
  "erase_user i [] = []"
| "erase_user i (u # us) = (if us_id u = i then us else u # erase_user i us)"

definition remove_user :: "int \<Rightarrow> server_group \<Rightarrow> server_group" where
  "remove_user i g = g\<lparr> gr_users := erase_user i (gr_users g) \<rparr>"

text \<open>A user that is changed through a pointer to it.\<close>

fun change_user :: "int \<Rightarrow> (user \<Rightarrow> user) \<Rightarrow> user list \<Rightarrow> user list" where
  "change_user i f [] = []"
| "change_user i f (u # us) = (if us_id u = i then f u # us else u # change_user i f us)"

definition get_next_user_id :: "server_group \<Rightarrow> int \<times> server_group" where
  "get_next_user_id g =
     (case find (\<lambda>i. find_user i g = None) [0..gr_next_user_id g - 1] of
        Some i \<Rightarrow> (i, g)
      | None \<Rightarrow> (gr_next_user_id g, g\<lparr> gr_next_user_id := gr_next_user_id g + 1 \<rparr>))"

subsection \<open>Requests and responses\<close>

datatype AooRequestType =
    kAooRequestError
  | kAooRequestConnect
  | kAooRequestLogin
  | kAooRequestDisconnect
  | kAooRequestGroupJoin
  | kAooRequestGroupLeave
  | kAooRequestGroupUpdate
  | kAooRequestUserUpdate
  | kAooRequestCustom

record AooRequestGroupJoin =
  rj_groupName :: string
  rj_groupPwd :: "string option"
  rj_groupId :: int
  rj_groupMetadata :: "AooData option"
  rj_userName :: string
  rj_userPwd :: "string option"
  rj_userId :: int
  rj_userMetadata :: "AooData option"
  rj_relayAddress :: "AooIpEndpoint option"

datatype AooRequest =
    RequestLogin string "string option" "AooData option"
  | RequestGroupJoin AooRequestGroupJoin
  | RequestGroupLeave int
  | RequestGroupUpdate int AooData
  | RequestUserUpdate int int AooData
  | RequestCustom AooData u32
  | RequestOther AooRequestType

fun request_type :: "AooRequest \<Rightarrow> AooRequestType" where
  "request_type (RequestLogin _ _ _) = kAooRequestLogin"
| "request_type (RequestGroupJoin _) = kAooRequestGroupJoin"
| "request_type (RequestGroupLeave _) = kAooRequestGroupLeave"
| "request_type (RequestGroupUpdate _ _) = kAooRequestGroupUpdate"
| "request_type (RequestUserUpdate _ _ _) = kAooRequestUserUpdate"
| "request_type (RequestCustom _ _) = kAooRequestCustom"
| "request_type (RequestOther t) = t"

record AooResponseGroupJoin =
  rp_groupId :: int
  rp_groupFlags :: u32
  rp_groupMetadata :: "AooData option"
  rp_userId :: int
  rp_userFlags :: u32
  rp_userMetadata :: "AooData option"
  rp_privateMetadata :: "AooData option"
  rp_relayAddress :: "AooIpEndpoint option"

text \<open>The default constructor; it leaves the user flags uninitialised, which are only written.\<close>

definition response_join_new :: AooResponseGroupJoin where
  "response_join_new = \<lparr> rp_groupId = kAooIdInvalid, rp_groupFlags = word_of_int kAooIdInvalid, rp_groupMetadata = None,
     rp_userId = kAooIdInvalid, rp_userFlags = 0, rp_userMetadata = None, rp_privateMetadata = None, rp_relayAddress = None \<rparr>"

datatype AooResponse =
    ResponseLogin "AooData option"
  | ResponseGroupJoin AooResponseGroupJoin
  | ResponseGroupLeave
  | ResponseGroupUpdate AooData
  | ResponseUserUpdate AooData
  | ResponseCustom AooData u32
  | ResponseError int string

fun response_type :: "AooResponse \<Rightarrow> AooRequestType" where
  "response_type (ResponseLogin _) = kAooRequestLogin"
| "response_type (ResponseGroupJoin _) = kAooRequestGroupJoin"
| "response_type ResponseGroupLeave = kAooRequestGroupLeave"
| "response_type (ResponseGroupUpdate _) = kAooRequestGroupUpdate"
| "response_type (ResponseUserUpdate _) = kAooRequestUserUpdate"
| "response_type (ResponseCustom _ _) = kAooRequestCustom"
| "response_type (ResponseError _ _) = kAooRequestError"

subsection \<open>Clients\<close>

record client_endpoint =
  ce_id :: int
  ce_version :: string
  ce_receiver :: osc_stream_receiver
  ce_public_addresses :: "ip_address list"
  ce_group_users :: "(int \<times> int) list"
  ce_ping_timer :: ping_timer
  ce_active :: bool

definition client_new :: "int \<Rightarrow> client_endpoint" where
  "client_new i = \<lparr> ce_id = i, ce_version = '''', ce_receiver = receiver_reset, ce_public_addresses = [], ce_group_users = [],
     ce_ping_timer = ping_timer_new, ce_active = True \<rparr>"

definition client_active :: "client_endpoint \<Rightarrow> bool" where
  "client_active c \<longleftrightarrow> ce_version c \<noteq> ''''"

definition client_match :: "ip_address \<Rightarrow> client_endpoint \<Rightarrow> bool" where
  "client_match addr c \<longleftrightarrow> (\<exists>a \<in> set (ce_public_addresses c). ip_equal a addr)"

text \<open>The messages of the server to a client, with their arguments.\<close>

datatype client_message =
    ReplyLogin int string int "AooData option"
  | ReplyGroupJoin int int u32 "AooData option" int u32 "AooData option" "AooData option" "ip_host option"
  | ReplyGroupLeave int
  | ReplyGroupUpdate int "AooData option"
  | ReplyUserUpdate int "AooData option"
  | ReplyRequest int u32 "AooData option"
  | ReplyError AooRequestType int AooError int string
  | ClientPing
  | ClientPong
  | ClientMessage "byte list"
  | ClientPeerJoin string int string int string u32 "AooData option" "ip_host option" "ip_address list"
  | ClientPeerLeave int int
  | ClientGroupChanged int int "AooData option"
  | ClientUserChanged int int "AooData option"
  | ClientPeerChanged int int "AooData option"
  | ClientGroupEject int

text \<open>An error is only reported for the types of requests that the \<^verbatim>\<open>switch\<close> of \<^verbatim>\<open>send_error\<close> knows.\<close>

definition error_message :: "int \<Rightarrow> AooRequestType \<Rightarrow> AooError \<Rightarrow> (int \<times> string) option \<Rightarrow> client_message option" where
  "error_message token type result response =
     (if type \<in> {kAooRequestLogin, kAooRequestGroupJoin, kAooRequestGroupLeave, kAooRequestCustom} then
        case response of
          Some (code, msg) \<Rightarrow> Some (ReplyError type token result code msg)
        | None \<Rightarrow> Some (ReplyError type token result 0 '''')
      else None)"

definition peer_join_message :: "server_group \<Rightarrow> user \<Rightarrow> client_endpoint \<Rightarrow> client_message" where
  "peer_join_message grp usr client =
     (let flags = (if group_creator usr then kAooPeerGroupCreator else 0);
          flags = (if user_persistent usr then flags OR kAooPeerPersistent else flags)
      in ClientPeerJoin (gr_name grp) (gr_id grp) (us_name usr) (us_id usr) (ce_version client) flags
           (osc_metadata (us_md usr)) (osc_host (us_relay usr)) (ce_public_addresses client))"

definition peer_leave_message :: "server_group \<Rightarrow> user \<Rightarrow> client_message" where
  "peer_leave_message grp usr = ClientPeerLeave (gr_id grp) (us_id usr)"

definition group_update_message :: "server_group \<Rightarrow> int \<Rightarrow> client_message" where
  "group_update_message grp usr = ClientGroupChanged (gr_id grp) usr (osc_metadata (gr_md grp))"

definition user_update_message :: "user \<Rightarrow> client_message" where
  "user_update_message usr = ClientUserChanged (us_group usr) (us_id usr) (osc_metadata (us_md usr))"

definition peer_update_message :: "user \<Rightarrow> client_message" where
  "peer_update_message peer = ClientPeerChanged (us_group peer) (us_id peer) (osc_metadata (us_md peer))"

definition add_group_user :: "server_group \<Rightarrow> user \<Rightarrow> client_endpoint \<Rightarrow> client_endpoint" where
  "add_group_user grp usr c =
     (if (gr_id grp, us_id usr) \<in> set (ce_group_users c) then c
      else c\<lparr> ce_group_users := ce_group_users c @ [(gr_id grp, us_id usr)] \<rparr>)"

definition remove_group_user :: "server_group \<Rightarrow> user \<Rightarrow> client_endpoint \<Rightarrow> client_endpoint" where
  "remove_group_user grp usr c = c\<lparr> ce_group_users := remove1 (gr_id grp, us_id usr) (ce_group_users c) \<rparr>"

end
