(* ===== verification/Server.thy ===== *)
theory Server
  imports Server_Groups
begin

text \<open>
  The server (\<^verbatim>\<open>aoo/src/net/server.cpp\<close>): clients log in, join groups and leave them, and the server tells the members of a group
  about each other. The tables of clients and groups are association lists (the order of an unordered map is not specified;
  none of the properties depends on it). What is sent to the clients and the events that are dispatched are kept as lists
  in the state, and so are the requests that the request handler of the application has taken over and will answer
  itself. The buffer in which messages are built is taken to be large enough.
\<close>

subsection \<open>State\<close>

datatype server_event =
    ClientLoginEvent int AooError string AooData
  | ClientLogoutEvent int AooError string
  | GroupAddEvent int u32 string AooData
  | GroupRemoveEvent int string
  | GroupJoinEvent int int string string AooData int u32
  | GroupLeaveEvent int int string string
  | GroupUpdateEvent int int AooData
  | UserUpdateEvent int int AooData

datatype AooEventMode = kAooEventModeNone | kAooEventModeCallback | kAooEventModePoll

record server_note =
  sn_group :: int
  sn_user :: int
  sn_type :: int
  sn_data :: "byte list"

record Server =
  sv_port :: int
  sv_address_family :: ip_type
  sv_use_ipv4_mapped :: bool
  sv_clients :: "(int \<times> client_endpoint) list"
  sv_next_client_id :: int
  sv_groups :: "(int \<times> server_group) list"
  sv_next_group_id :: int
  sv_message_queue :: "server_note list"
  sv_request_handler :: "(int \<Rightarrow> int \<Rightarrow> AooRequest \<Rightarrow> bool) option"
  sv_event_queue :: "server_event list"
  sv_event_mode :: AooEventMode
  sv_global_relay_addr :: ip_host
  sv_password :: string
  sv_internal_relay :: bool
  sv_group_auto_create :: bool
  sv_ping_settings :: AooPingSettings
  sv_sent :: "(int \<times> client_message) list"
  sv_dispatched :: "server_event list"
  sv_closed :: "int list"
  sv_deferred :: "(int \<times> int \<times> AooRequest) list"

definition Server_new :: Server where
  "Server_new = \<lparr> sv_port = 0, sv_address_family = Unspec, sv_use_ipv4_mapped = False, sv_clients = [], sv_next_client_id = 0,
     sv_groups = [], sv_next_group_id = 0, sv_message_queue = [], sv_request_handler = None, sv_event_queue = [],
     sv_event_mode = kAooEventModeNone, sv_global_relay_addr = ip_host_none, sv_password = '''', sv_internal_relay = False,
     sv_group_auto_create = True,
     sv_ping_settings = \<lparr> ps_interval = 5, ps_probeTime = 10, ps_probeInterval = 1, ps_probeCount = 5 \<rparr>,
     sv_sent = [], sv_dispatched = [], sv_closed = [], sv_deferred = [] \<rparr>"

subsection \<open>Clients and groups\<close>

definition find_client :: "int \<Rightarrow> Server \<Rightarrow> client_endpoint option" where
  "find_client i s = map_of (sv_clients s) i"

definition find_client_by_address :: "ip_address \<Rightarrow> Server \<Rightarrow> client_endpoint option" where
  "find_client_by_address addr s = map_option snd (find (\<lambda>(_, c). client_match addr c) (sv_clients s))"

definition find_group :: "int \<Rightarrow> Server \<Rightarrow> server_group option" where
  "find_group i s = map_of (sv_groups s) i"

definition find_group_by_name :: "string \<Rightarrow> Server \<Rightarrow> server_group option" where
  "find_group_by_name name s = map_option snd (find (\<lambda>(_, g). gr_name g = name) (sv_groups s))"

text \<open>Changes through a pointer to a client or a group.\<close>

definition set_client :: "client_endpoint \<Rightarrow> Server \<Rightarrow> Server" where
  "set_client c s = s\<lparr> sv_clients := AList.update (ce_id c) c (sv_clients s) \<rparr>"

definition set_group :: "server_group \<Rightarrow> Server \<Rightarrow> Server" where
  "set_group g s = s\<lparr> sv_groups := AList.update (gr_id g) g (sv_groups s) \<rparr>"

definition get_next_client_id :: "Server \<Rightarrow> int \<times> Server" where
  "get_next_client_id s = (sv_next_client_id s, s\<lparr> sv_next_client_id := sv_next_client_id s + 1 \<rparr>)"

definition get_next_group_id :: "Server \<Rightarrow> int \<times> Server" where
  "get_next_group_id s = (sv_next_group_id s, s\<lparr> sv_next_group_id := sv_next_group_id s + 1 \<rparr>)"

definition add_group :: "server_group \<Rightarrow> Server \<Rightarrow> bool \<times> Server" where
  "add_group g s =
     (if find_group_by_name (gr_name g) s = None \<and> find_group (gr_id g) s = None
      then (True, s\<lparr> sv_groups := sv_groups s @ [(gr_id g, g)] \<rparr>) else (False, s))"

definition send_message_to :: "client_endpoint \<Rightarrow> client_message \<Rightarrow> Server \<Rightarrow> Server" where
  "send_message_to c msg s = s\<lparr> sv_sent := sv_sent s @ [(ce_id c, msg)] \<rparr>"

definition send_error :: "client_endpoint \<Rightarrow> int \<Rightarrow> AooRequestType \<Rightarrow> AooError \<Rightarrow> (int \<times> string) option \<Rightarrow> Server \<Rightarrow> Server" where
  "send_error c token type result response s =
     (case error_message token type result response of Some msg \<Rightarrow> send_message_to c msg s | None \<Rightarrow> s)"

definition server_send_event :: "server_event \<Rightarrow> Server \<Rightarrow> Server" where
  "server_send_event e s =
     (case sv_event_mode s of
        kAooEventModePoll \<Rightarrow> s\<lparr> sv_event_queue := sv_event_queue s @ [e] \<rparr>
      | kAooEventModeCallback \<Rightarrow> s\<lparr> sv_dispatched := sv_dispatched s @ [e] \<rparr>
      | kAooEventModeNone \<Rightarrow> s)"

definition on_group_join :: "server_group \<Rightarrow> user \<Rightarrow> client_endpoint \<Rightarrow> Server \<Rightarrow> Server" where
  "on_group_join grp usr c s = set_client (add_group_user grp usr c) s"

definition on_group_leave :: "server_group \<Rightarrow> user \<Rightarrow> bool \<Rightarrow> client_endpoint \<Rightarrow> Server \<Rightarrow> Server" where
  "on_group_leave grp usr eject c s =
     (let s = (if eject then send_message_to c (ClientGroupEject (gr_id grp)) s else s)
      in set_client (remove_group_user grp usr c) s)"

fun eject_users :: "server_group \<Rightarrow> user list \<Rightarrow> Server \<Rightarrow> Server" where
  "eject_users grp [] s = s"
| "eject_users grp (usr # us) s =
     eject_users grp us
       (case find_client (us_client usr) s of Some c \<Rightarrow> on_group_leave grp usr True c s | None \<Rightarrow> s)"

definition remove_group :: "int \<Rightarrow> Server \<Rightarrow> bool \<times> Server" where
  "remove_group i s =
     (case find_group i s of
        None \<Rightarrow> (False, s)
      | Some grp \<Rightarrow>
          let s = eject_users grp (gr_users grp) s
          in (True, s\<lparr> sv_groups := AList.delete i (sv_groups s) \<rparr>))"

text \<open>The loops that send a message to the clients of a list of users; \<open>f\<close> is the message for each of them.\<close>

fun send_to_users :: "(user \<Rightarrow> client_message option) \<Rightarrow> user list \<Rightarrow> Server \<Rightarrow> Server" where
  "send_to_users f [] s = s"
| "send_to_users f (u # us) s =
     send_to_users f us
       (case (f u, find_client (us_client u) s) of (Some msg, Some c) \<Rightarrow> send_message_to c msg s | _ \<Rightarrow> s)"

definition update_group :: "server_group \<Rightarrow> AooData \<Rightarrow> Server \<Rightarrow> Server" where
  "update_group grp md s =
     (let grp = grp\<lparr> gr_md := md \<rparr>; s = set_group grp s
      in send_to_users (\<lambda>u. Some (group_update_message grp kAooIdInvalid)) (gr_users grp) s)"

definition update_user :: "server_group \<Rightarrow> user \<Rightarrow> AooData \<Rightarrow> Server \<Rightarrow> Server" where
  "update_user grp usr md s =
     (let grp = grp\<lparr> gr_users := change_user (us_id usr) (\<lambda>u. u\<lparr> us_md := md \<rparr>) (gr_users grp) \<rparr>; s = set_group grp s
      in send_to_users (\<lambda>member. Some (if us_id member = us_id usr then user_update_message member else peer_update_message member))
           (gr_users grp) s)"

fun introduce_peers :: "server_group \<Rightarrow> user \<Rightarrow> client_endpoint \<Rightarrow> user list \<Rightarrow> Server \<Rightarrow> Server" where
  "introduce_peers grp usr client [] s = s"
| "introduce_peers grp usr client (peer # peers) s =
     introduce_peers grp usr client peers
       (if us_id peer \<noteq> us_id usr \<and> user_active peer then
          case find_client (us_client peer) s of
            Some other \<Rightarrow>
              send_message_to other (peer_join_message grp usr client)
                (send_message_to client (peer_join_message grp peer other) s)
          | None \<Rightarrow> s
        else s)"

definition on_user_joined_group :: "server_group \<Rightarrow> user \<Rightarrow> client_endpoint \<Rightarrow> Server \<Rightarrow> Server" where
  "on_user_joined_group grp usr client s =
     (let s = introduce_peers grp usr client (gr_users grp) s
      in server_send_event (GroupJoinEvent (gr_id grp) (us_id usr) (gr_name grp) (us_name usr) (us_md usr) (us_client usr) (user_flags usr)) s)"

definition on_user_left_group :: "server_group \<Rightarrow> user \<Rightarrow> Server \<Rightarrow> Server" where
  "on_user_left_group grp usr s =
     (let s = send_to_users (\<lambda>peer. if us_id peer \<noteq> us_id usr then Some (peer_leave_message grp usr) else None) (gr_users grp) s
      in server_send_event (GroupLeaveEvent (gr_id grp) (us_id usr) (gr_name grp) (us_name usr)) s)"

definition do_remove_user_from_group :: "server_group \<Rightarrow> user \<Rightarrow> Server \<Rightarrow> Server" where
  "do_remove_user_from_group grp usr s =
     (if user_persistent usr then
        set_group (grp\<lparr> gr_users := change_user (us_id usr) user_unset (gr_users grp) \<rparr>) s
      else
        let grp = remove_user (us_id usr) grp; s = set_group grp s
        in if \<not> group_persistent grp \<and> gr_users grp = [] then
             let s = server_send_event (GroupRemoveEvent (gr_id grp) (gr_name grp)) s
             in snd (remove_group (gr_id grp) s)
           else s)"

definition accept_client :: "Server \<Rightarrow> int \<times> Server" where
  "accept_client s =
     (let (i, s) = get_next_client_id s
      in (i, if find_client i s = None then s\<lparr> sv_clients := sv_clients s @ [(i, client_new i)] \<rparr> else s))"

fun leave_groups :: "(int \<times> int) list \<Rightarrow> Server \<Rightarrow> Server" where
  "leave_groups [] s = s"
| "leave_groups ((g, u) # gus) s =
     leave_groups gus
       (case find_group g s of
          Some grp \<Rightarrow>
            (case find_user u grp of
               Some usr \<Rightarrow> do_remove_user_from_group grp usr (on_user_left_group grp usr s)
             | None \<Rightarrow> s)
        | None \<Rightarrow> s)"

definition on_close :: "client_endpoint \<Rightarrow> Server \<Rightarrow> client_endpoint \<times> Server" where
  "on_close c s = (c\<lparr> ce_group_users := [], ce_id := kAooIdInvalid \<rparr>, leave_groups (ce_group_users c) s)"

definition remove_client :: "int \<Rightarrow> AooError \<Rightarrow> string \<Rightarrow> Server \<Rightarrow> bool \<times> Server" where
  "remove_client i err msg s =
     (case find_client i s of
        None \<Rightarrow> (False, s)
      | Some c \<Rightarrow>
          let (c, s) = on_close c s;
              s = (if client_active c then server_send_event (ClientLogoutEvent i err msg) s else s)
          in (True, s\<lparr> sv_clients := AList.delete i (sv_clients s) \<rparr>))"

end
