(* ===== verification/Server_Requests.thy ===== *)
theory Server_Requests
  imports Server
begin

text \<open>
  The messages of the clients, the requests, and the interface of the server for the application
  (\<^verbatim>\<open>aoo/src/net/server.cpp\<close>). The bytes of a message are read by oscpack, a parameter; \<^const>\<open>Inl\<close> in the place of the arguments is the
  error that reading them throws. The hash of passwords (MD5) is a parameter as well.
\<close>

subsection \<open>Log-in\<close>

definition kAooVersionMajor :: int where "kAooVersionMajor = 2"

text \<open>\<^verbatim>\<open>sscanf\<close> with the format \<^verbatim>\<open>%d\<close>: the number and the rest of the string.\<close>

definition scan_int :: "byte list \<Rightarrow> (int \<times> byte list) option" where
  "scan_int r =
     (let r = dropWhile isspace r;
          neg = (r \<noteq> [] \<and> hd r = 0x2D); sign = (r \<noteq> [] \<and> (hd r = 0x2D \<or> hd r = 0x2B));
          r = (if sign then tl r else r);
          ds = takeWhile isdigit r;
          v = digits_value ds
      in if ds = [] then None else Some (if neg then - v else v, dropWhile isdigit r))"

definition check_version :: "string \<Rightarrow> AooError" where
  "check_version version =
     (case scan_int (ascii version) of
        Some (major, c # r) \<Rightarrow>
          if c = 0x2E \<and> scan_int r \<noteq> None then
            (if major = kAooVersionMajor then kAooOk else kAooErrorVersionNotSupported)
          else kAooErrorBadFormat
      | _ \<Rightarrow> kAooErrorBadFormat)"

definition handle_request :: "client_endpoint \<Rightarrow> int \<Rightarrow> AooRequest \<Rightarrow> Server \<Rightarrow> bool \<times> Server" where
  "handle_request c token request s =
     (case sv_request_handler s of
        Some f \<Rightarrow>
          (if f (ce_id c) token request then (True, s\<lparr> sv_deferred := sv_deferred s @ [(ce_id c, token, request)] \<rparr>) else (False, s))
      | None \<Rightarrow> (False, s))"

definition aoo_version :: string where "aoo_version = ''2.0-test4''"

definition do_login :: "client_endpoint \<Rightarrow> int \<Rightarrow> string \<Rightarrow> AooData option \<Rightarrow> AooData option \<Rightarrow> Server \<Rightarrow> AooError \<times> Server" where
  "do_login c token version md response_md s =
     (let c = c\<lparr> ce_version := version \<rparr>;
          s = set_client c s;
          s = send_message_to c (ReplyLogin token aoo_version (ce_id c) (osc_metadata (metadata_of response_md))) s;
          s = server_send_event (ClientLoginEvent (ce_id c) kAooOk (ce_version c) (metadata_of md)) s
      in (kAooOk, s))"

definition handle_login ::
    "client_endpoint \<Rightarrow> int \<times> string \<times> string \<times> AooData option \<times> ip_address list \<Rightarrow> Server \<Rightarrow> Server" where
  "handle_login c args s =
     (let (token, version, pwd, md, addresses) = args;
          c = c\<lparr> ce_public_addresses := ce_public_addresses c @ addresses \<rparr>;
          s = set_client c s;
          request = RequestLogin version (if pwd \<noteq> '''' then Some pwd else None) md;
          refuse = (\<lambda>err. server_send_event (ClientLoginEvent (ce_id c) err (ce_version c) (metadata_of None))
                      (send_error c token kAooRequestLogin err None s))
      in if check_version version \<noteq> kAooOk then refuse (check_version version)
         else if sv_password s \<noteq> '''' \<and> pwd \<noteq> sv_password s then refuse kAooErrorWrongPassword
         else
           let (handled, s) = handle_request c token request s
           in if handled then s else snd (do_login c token version md None s))"

subsection \<open>Groups\<close>

record join_args =
  ja_token :: int
  ja_group_name :: string
  ja_group_pwd :: string
  ja_group_md :: "AooData option"
  ja_user_name :: string
  ja_user_pwd :: string
  ja_user_md :: "AooData option"
  ja_relay :: "AooIpEndpoint option"

definition join_relay :: "server_group \<Rightarrow> Server \<Rightarrow> ip_host" where
  "join_relay grp s =
     (if ip_host_valid (gr_relay grp) then gr_relay grp
      else if ip_host_valid (sv_global_relay_addr s) then sv_global_relay_addr s
      else if sv_internal_relay s then \<lparr> ih_name = '''', ih_port = sv_port s \<rparr>
      else ip_host_none)"

text \<open>The group of a request, which is created if there is none; the flag says so. \<^const>\<open>None\<close> when it cannot be created.\<close>

definition join_group :: "AooRequestGroupJoin \<Rightarrow> AooResponseGroupJoin \<Rightarrow> Server \<Rightarrow> (server_group \<times> bool) option \<times> Server" where
  "join_group request response s =
     (case find_group (rj_groupId request) s of
        Some grp \<Rightarrow> (Some (grp, False), s)
      | None \<Rightarrow>
          let group_pwd = (case rj_groupPwd request of Some p \<Rightarrow> p | None \<Rightarrow> '''');
              group_md = (if rp_groupMetadata response \<noteq> None then rp_groupMetadata response else rj_groupMetadata request);
              (i, s) = get_next_group_id s;
              grp = group_new (rj_groupName request) group_pwd i group_md (rp_relayAddress response) 0;
              (added, s) = add_group grp s
          in if added then (Some (grp, True), server_send_event (GroupAddEvent (gr_id grp) (gr_flags grp) (gr_name grp) (gr_md grp)) s)
             else (None, s))"

text \<open>The user of a request in its group, created if there is none.\<close>

definition join_user ::
    "int \<Rightarrow> AooRequestGroupJoin \<Rightarrow> AooResponseGroupJoin \<Rightarrow> bool \<Rightarrow> server_group \<Rightarrow> user option \<times> server_group" where
  "join_user client request response created grp =
     (case find_user (rj_userId request) grp of
        Some usr \<Rightarrow> (Some usr, grp)
      | None \<Rightarrow>
          let user_pwd = (case rj_userPwd request of Some p \<Rightarrow> p | None \<Rightarrow> '''');
              user_md = (if rp_userMetadata response \<noteq> None then rp_userMetadata response else rj_userMetadata request);
              (i, grp) = get_next_user_id grp;
              flags = (if created then kAooUserGroupCreator else 0);
              usr = user_new (rj_userName request) user_pwd i (gr_id grp) client user_md (rj_relayAddress request) flags;
              (added, grp) = add_user usr grp
          in (if added then Some usr else None, grp))"

definition do_group_join ::
    "client_endpoint \<Rightarrow> int \<Rightarrow> AooRequestGroupJoin \<Rightarrow> AooResponseGroupJoin \<Rightarrow> Server \<Rightarrow> AooError \<times> AooResponseGroupJoin \<times> Server" where
  "do_group_join c token request response s =
     (case join_group request response s of
        (None, s) \<Rightarrow>
          (kAooErrorCannotCreateGroup, response, send_error c token kAooRequestGroupJoin kAooErrorCannotCreateGroup None s)
      | (Some (grp, created), s) \<Rightarrow>
          (case join_user (ce_id c) request response created grp of
             (None, grp) \<Rightarrow>
               (kAooErrorCannotCreateUser, response,
                send_error c token kAooRequestGroupJoin kAooErrorCannotCreateUser None (set_group grp s))
           | (Some usr, grp) \<Rightarrow>
               let s = set_group grp s;
                   response = response\<lparr> rp_groupId := gr_id grp, rp_groupFlags := gr_flags grp, rp_userId := us_id usr,
                     rp_userFlags := user_flags usr \<rparr>;
                   s = on_group_join grp usr c s;
                   s = send_message_to c
                     (ReplyGroupJoin token (gr_id grp) (gr_flags grp) (osc_metadata (gr_md grp)) (us_id usr) (user_flags usr)
                        (osc_metadata (us_md usr)) (osc_metadata (metadata_of (rp_privateMetadata response)))
                        (osc_host (join_relay grp s))) s;
                   s = on_user_joined_group grp usr (add_group_user grp usr c) s
               in (kAooOk, response, s)))"

definition non_empty :: "string \<Rightarrow> string option" where
  "non_empty str = (if str \<noteq> '''' then Some str else None)"

text \<open>The checks of a request to join: an error, or the identifiers of the group and the user, where they exist.\<close>

definition check_join :: "join_args \<Rightarrow> Server \<Rightarrow> AooError + int \<times> int" where
  "check_join args s =
     (case find_group_by_name (ja_group_name args) s of
        Some grp \<Rightarrow>
          if \<not> check_pwd (gr_pwd grp) (non_empty (ja_group_pwd args)) then Inl kAooErrorWrongPassword
          else (case find_user_by_name (ja_user_name args) grp of
             Some usr \<Rightarrow>
               if user_active usr then Inl kAooErrorUserAlreadyExists
               else if \<not> check_pwd (us_pwd usr) (non_empty (ja_user_pwd args)) then Inl kAooErrorWrongPassword
               else Inr (gr_id grp, us_id usr)
           | None \<Rightarrow> if \<not> gr_user_auto_create grp then Inl kAooErrorCannotCreateUser else Inr (gr_id grp, kAooIdInvalid))
      | None \<Rightarrow> if \<not> sv_group_auto_create s then Inl kAooErrorCannotCreateGroup else Inr (kAooIdInvalid, kAooIdInvalid))"

definition handle_group_join :: "client_endpoint \<Rightarrow> join_args \<Rightarrow> Server \<Rightarrow> Server" where
  "handle_group_join c args s =
     (case check_join args s of
        Inl err \<Rightarrow> send_error c (ja_token args) kAooRequestGroupJoin err None s
      | Inr (g, u) \<Rightarrow>
          let request = \<lparr> rj_groupName = ja_group_name args, rj_groupPwd = non_empty (ja_group_pwd args), rj_groupId = g,
                rj_groupMetadata = ja_group_md args, rj_userName = ja_user_name args, rj_userPwd = non_empty (ja_user_pwd args),
                rj_userId = u, rj_userMetadata = ja_user_md args, rj_relayAddress = ja_relay args \<rparr>;
              (handled, s) = handle_request c (ja_token args) (RequestGroupJoin request) s
          in if handled then s else snd (snd (do_group_join c (ja_token args) request response_join_new s)))"

definition do_group_leave :: "client_endpoint \<Rightarrow> int \<Rightarrow> int \<Rightarrow> Server \<Rightarrow> AooError \<times> Server" where
  "do_group_leave c token g s =
     (case find_group g s of
        Some grp \<Rightarrow>
          (case find_user_by_client (ce_id c) grp of
             Some usr \<Rightarrow>
               let s = on_user_left_group grp usr s;
                   s = on_group_leave grp usr False c s;
                   s = do_remove_user_from_group grp usr s
               in (kAooOk, send_message_to c (ReplyGroupLeave token) s)
           | None \<Rightarrow> (kAooErrorNotGroupMember, send_error c token kAooRequestGroupLeave kAooErrorNotGroupMember None s))
      | None \<Rightarrow> (kAooErrorGroupDoesNotExist, send_error c token kAooRequestGroupLeave kAooErrorGroupDoesNotExist None s))"

definition handle_group_leave :: "client_endpoint \<Rightarrow> int \<times> int \<Rightarrow> Server \<Rightarrow> Server" where
  "handle_group_leave c args s =
     (let (token, g) = args; (handled, s) = handle_request c token (RequestGroupLeave g) s
      in if handled then s else snd (do_group_leave c token g s))"

subsection \<open>Metadata and other requests\<close>

definition do_group_update :: "client_endpoint \<Rightarrow> int \<Rightarrow> int \<Rightarrow> AooData \<Rightarrow> Server \<Rightarrow> AooError \<times> Server" where
  "do_group_update c token g md s =
     (case find_group g s of
        None \<Rightarrow> (kAooErrorNotFound, s)
      | Some grp \<Rightarrow>
          (case find_user_by_client (ce_id c) grp of
             None \<Rightarrow> (kAooErrorNotFound, s)
           | Some usr \<Rightarrow>
               let grp = grp\<lparr> gr_md := md \<rparr>;
                   s = set_group grp s;
                   s = send_to_users (\<lambda>p. if us_client p \<noteq> ce_id c then Some (group_update_message grp (us_id usr)) else None)
                         (gr_users grp) s;
                   s = send_message_to c (ReplyGroupUpdate token (osc_metadata (gr_md grp))) s
               in (kAooOk, server_send_event (GroupUpdateEvent (gr_id grp) (us_id usr) (gr_md grp)) s)))"

definition handle_group_update :: "client_endpoint \<Rightarrow> int \<times> int \<times> AooData \<Rightarrow> Server \<Rightarrow> Server" where
  "handle_group_update c args s =
     (let (token, g, md) = args
      in case find_group g s of
        None \<Rightarrow> send_error c token kAooRequestGroupUpdate kAooErrorGroupDoesNotExist None s
      | Some grp \<Rightarrow>
          (if find_user_by_client (ce_id c) grp = None
           then send_error c token kAooRequestGroupUpdate kAooErrorNotPermitted None s
           else
             let (handled, s) = handle_request c token (RequestGroupUpdate g md) s
             in if handled then s else snd (do_group_update c token g md s)))"

definition do_user_update :: "client_endpoint \<Rightarrow> int \<Rightarrow> int \<Rightarrow> int \<Rightarrow> AooData \<Rightarrow> Server \<Rightarrow> AooError \<times> Server" where
  "do_user_update c token g u md s =
     (case find_group g s of
        None \<Rightarrow> (kAooErrorNotFound, s)
      | Some grp \<Rightarrow>
          (case find_user u grp of
             None \<Rightarrow> (kAooErrorNotFound, s)
           | Some usr \<Rightarrow>
               let usr = usr\<lparr> us_md := md \<rparr>;
                   grp = grp\<lparr> gr_users := change_user u (\<lambda>u. u\<lparr> us_md := md \<rparr>) (gr_users grp) \<rparr>;
                   s = set_group grp s;
                   s = send_to_users (\<lambda>member. if us_id member \<noteq> us_id usr then Some (peer_update_message usr) else None)
                         (gr_users grp) s;
                   s = send_message_to c (ReplyUserUpdate token (osc_metadata (us_md usr))) s
               in (kAooOk, server_send_event (UserUpdateEvent (us_group usr) (us_id usr) (us_md usr)) s)))"

definition handle_user_update :: "client_endpoint \<Rightarrow> int \<times> int \<times> AooData \<Rightarrow> Server \<Rightarrow> Server" where
  "handle_user_update c args s =
     (let (token, g, md) = args
      in case find_group g s of
        None \<Rightarrow> send_error c token kAooRequestUserUpdate kAooErrorGroupDoesNotExist None s
      | Some grp \<Rightarrow>
          (case find_user_by_client (ce_id c) grp of
             None \<Rightarrow> send_error c token kAooRequestUserUpdate kAooErrorNotPermitted None s
           | Some usr \<Rightarrow>
               let (handled, s) = handle_request c token (RequestUserUpdate g (us_id usr) md) s
               in if handled then s else snd (do_user_update c token g (us_id usr) md s)))"

definition do_custom_request :: "client_endpoint \<Rightarrow> int \<Rightarrow> AooData \<Rightarrow> u32 \<Rightarrow> Server \<Rightarrow> AooError \<times> Server" where
  "do_custom_request c token data flags s = (kAooOk, send_message_to c (ReplyRequest token flags (osc_metadata data)) s)"

definition handle_custom_request :: "client_endpoint \<Rightarrow> int \<times> u32 \<times> AooData \<Rightarrow> Server \<Rightarrow> Server" where
  "handle_custom_request c args s =
     (let (token, flags, data) = args; (handled, s) = handle_request c token (RequestCustom data flags) s
      in if handled then s else send_error c token kAooRequestCustom kAooErrorUnhandledRequest None s)"

text \<open>The answer of the application to a request that it has taken over.\<close>

definition handleRequest ::
    "int \<Rightarrow> int \<Rightarrow> AooRequest option \<Rightarrow> AooError \<Rightarrow> AooResponse option \<Rightarrow> Server \<Rightarrow> AooError \<times> AooResponse option \<times> Server" where
  "handleRequest client token request result response s =
     (case request of
        None \<Rightarrow> (kAooErrorBadArgument, response, s)
      | Some req \<Rightarrow>
          (case find_client client s of
             None \<Rightarrow> (kAooErrorNotFound, response, s)
           | Some c \<Rightarrow>
               if result = kAooOk then
                 (case (req, response) of
                    (RequestLogin version _ md, Some (ResponseLogin md')) \<Rightarrow>
                      (let (e, s) = do_login c token version md md' s in (e, response, s))
                  | (RequestGroupJoin join, Some (ResponseGroupJoin r)) \<Rightarrow>
                      (let (e, r, s) = do_group_join c token join r s in (e, Some (ResponseGroupJoin r), s))
                  | (RequestGroupLeave g, Some ResponseGroupLeave) \<Rightarrow> (let (e, s) = do_group_leave c token g s in (e, response, s))
                  | (RequestGroupUpdate g _, Some (ResponseGroupUpdate md)) \<Rightarrow>
                      (let (e, s) = do_group_update c token g md s in (e, response, s))
                  | (RequestUserUpdate g u _, Some (ResponseUserUpdate md)) \<Rightarrow>
                      (let (e, s) = do_user_update c token g u md s in (e, response, s))
                  | (RequestCustom _ _, Some (ResponseCustom data flags)) \<Rightarrow>
                      (let (e, s) = do_custom_request c token data flags s in (e, response, s))
                  | (RequestOther type, Some r) \<Rightarrow>
                      (if response_type r \<noteq> type then kAooErrorBadArgument else kAooErrorNotImplemented, response, s)
                  | _ \<Rightarrow> (kAooErrorBadArgument, response, s))
               else
                 (case response of
                    Some (ResponseError code msg) \<Rightarrow>
                      (let s = send_error c token (request_type req) result (Some (code, msg)) s
                       in (kAooOk, response,
                           if request_type req = kAooRequestLogin
                           then server_send_event (ClientLoginEvent (ce_id c) result (ce_version c) (metadata_of None)) s else s))
                  | None \<Rightarrow>
                      (let s = send_error c token (request_type req) result None s
                       in (kAooOk, response,
                           if request_type req = kAooRequestLogin
                           then server_send_event (ClientLoginEvent (ce_id c) result (ce_version c) (metadata_of None)) s else s))
                  | Some _ \<Rightarrow> (kAooErrorBadArgument, response, s))))"

subsection \<open>Messages\<close>

datatype server_message =
    ServerLogin "AooError + int \<times> string \<times> string \<times> AooData option \<times> ip_address list"
  | ServerPing
  | ServerPong
  | ServerGroupJoin "AooError + join_args"
  | ServerGroupLeave "AooError + int \<times> int"
  | ServerGroupUpdate "AooError + int \<times> int \<times> AooData"
  | ServerUserUpdate "AooError + int \<times> int \<times> AooData"
  | ServerRequest "AooError + int \<times> u32 \<times> AooData"
  | ServerUnknown
  | NotForServer
  | NotAoo

definition with_args :: "('a \<Rightarrow> Server \<Rightarrow> Server) \<Rightarrow> AooError + 'a \<Rightarrow> Server \<Rightarrow> AooError option \<times> Server" where
  "with_args f args s = (case args of Inl err \<Rightarrow> (Some err, s) | Inr a \<Rightarrow> (None, f a s))"

definition handle_client_pong :: "client_endpoint \<Rightarrow> Server \<Rightarrow> Server" where
  "handle_client_pong c s = set_client (c\<lparr> ce_ping_timer := (ce_ping_timer c)\<lparr> pt_pong := True \<rparr> \<rparr>) s"

definition handle_message :: "client_endpoint \<Rightarrow> server_message \<Rightarrow> Server \<Rightarrow> AooError option \<times> Server" where
  "handle_message c msg s =
     (case msg of
        NotAoo \<Rightarrow> (Some kAooErrorBadFormat, s)
      | NotForServer \<Rightarrow> (Some kAooErrorBadFormat, s)
      | ServerLogin args \<Rightarrow> with_args (handle_login c) args s
      | _ \<Rightarrow>
          if \<not> client_active c then (Some kAooErrorNotPermitted, s)
          else (case msg of
              ServerPing \<Rightarrow> (None, send_message_to c ClientPong s)
            | ServerPong \<Rightarrow> (None, handle_client_pong c s)
            | ServerGroupJoin args \<Rightarrow> with_args (handle_group_join c) args s
            | ServerGroupLeave args \<Rightarrow> with_args (handle_group_leave c) args s
            | ServerGroupUpdate args \<Rightarrow> with_args (handle_group_update c) args s
            | ServerUserUpdate args \<Rightarrow> with_args (handle_user_update c) args s
            | ServerRequest args \<Rightarrow> with_args (handle_custom_request c) args s
            | _ \<Rightarrow> (Some kAooErrorNotImplemented, s)))"

text \<open>A packet of a client; \<open>parse\<close> is oscpack, \<^const>\<open>None\<close> a malformed packet.\<close>

definition handle_packet :: "(byte list \<Rightarrow> server_message option) \<Rightarrow> int \<Rightarrow> byte list \<Rightarrow> Server \<Rightarrow> AooError option \<times> Server" where
  "handle_packet parse i packet s =
     (case parse packet of
        None \<Rightarrow> (Some kAooErrorBadFormat, s)
      | Some msg \<Rightarrow> (case find_client i s of Some c \<Rightarrow> handle_message c msg s | None \<Rightarrow> (None, s)))"

definition handle_data_of ::
    "(byte list \<Rightarrow> server_message option) \<Rightarrow> client_endpoint \<Rightarrow> byte list \<Rightarrow> Server \<Rightarrow> (AooError option \<times> Server) option" where
  "handle_data_of parse c data s =
     (case handle_stream (handle_packet parse (ce_id c)) data (ce_receiver c) s of
        None \<Rightarrow> None
      | Some (err, r, s) \<Rightarrow>
          Some (err, case find_client (ce_id c) s of Some c \<Rightarrow> set_client (c\<lparr> ce_receiver := r \<rparr>) s | None \<Rightarrow> s))"

definition tcp_close :: "int \<Rightarrow> Server \<Rightarrow> Server" where
  "tcp_close i s = s\<lparr> sv_closed := sv_closed s @ [i] \<rparr>"

definition handle_client_data ::
    "(byte list \<Rightarrow> server_message option) \<Rightarrow> int \<Rightarrow> int \<Rightarrow> byte list \<Rightarrow> Server \<Rightarrow> Server option" where
  "handle_client_data parse i err data s =
     (case find_client i s of
        None \<Rightarrow> Some s
      | Some c \<Rightarrow>
          if data \<noteq> [] then
            (case handle_data_of parse c data s of
               None \<Rightarrow> None
             | Some (None, s) \<Rightarrow> Some s
             | Some (Some code, s) \<Rightarrow> Some (tcp_close i (snd (remove_client i code '''' s))))
          else if err = 0 then Some (snd (remove_client i kAooOk '''' s))
          else Some (snd (remove_client i kAooErrorSocket '''' s)))"

end
