(* ===== verification/Server_Api.thy ===== *)
theory Server_Api
  imports Server_Requests
begin

text \<open>
  The interface of the server for the application, its main loop, and its UDP socket (\<^verbatim>\<open>aoo/src/net/server.cpp\<close>).
\<close>

subsection \<open>Groups and users\<close>

definition encrypt :: "(string \<Rightarrow> string) \<Rightarrow> string \<Rightarrow> string" where
  "encrypt md5 input = (if input = '''' then '''' else md5 input)"

definition findGroup :: "string \<Rightarrow> Server \<Rightarrow> AooError + int" where
  "findGroup name s = (case find_group_by_name name s of Some grp \<Rightarrow> Inr (gr_id grp) | None \<Rightarrow> Inl kAooErrorNotFound)"

definition addGroup ::
    "(string \<Rightarrow> string) \<Rightarrow> string \<Rightarrow> string option \<Rightarrow> AooData option \<Rightarrow> AooIpEndpoint option \<Rightarrow> Server \<Rightarrow> (AooError + int) \<times> Server" where
  "addGroup md5 name pwd md relay s =
     (let (i, s) = get_next_group_id s;
          hashed = (case pwd of Some p \<Rightarrow> encrypt md5 p | None \<Rightarrow> '''');
          (added, s) = add_group (group_new name hashed i md relay kAooGroupPersistent) s
      in (if added then Inr i else Inl kAooErrorAlreadyExists, s))"

definition removeGroup :: "int \<Rightarrow> Server \<Rightarrow> AooError \<times> Server" where
  "removeGroup g s = (let (removed, s) = remove_group g s in (if removed then kAooOk else kAooErrorNotFound, s))"

definition findUserInGroup :: "int \<Rightarrow> string \<Rightarrow> Server \<Rightarrow> AooError + int" where
  "findUserInGroup g name s =
     (case find_group g s of
        Some grp \<Rightarrow> (case find_user_by_name name grp of Some usr \<Rightarrow> Inr (us_id usr) | None \<Rightarrow> Inl kAooErrorNotFound)
      | None \<Rightarrow> Inl kAooErrorNotFound)"

definition addUserToGroup ::
    "(string \<Rightarrow> string) \<Rightarrow> int \<Rightarrow> string \<Rightarrow> string option \<Rightarrow> AooData option \<Rightarrow> Server \<Rightarrow> (AooError + int) \<times> Server" where
  "addUserToGroup md5 g name pwd md s =
     (case find_group g s of
        Some grp \<Rightarrow>
          let (i, grp) = get_next_user_id grp;
              hashed = (case pwd of Some p \<Rightarrow> encrypt md5 p | None \<Rightarrow> '''');
              (added, grp) = add_user (user_new name hashed i (gr_id grp) kAooIdInvalid md None kAooUserPersistent) grp
          in (if added then Inr i else Inl kAooErrorAlreadyExists, set_group grp s)
      | None \<Rightarrow> (Inl kAooErrorNotFound, s))"

definition removeUserFromGroup :: "int \<Rightarrow> int \<Rightarrow> Server \<Rightarrow> AooError \<times> Server" where
  "removeUserFromGroup g u s =
     (case find_group g s of
        Some grp \<Rightarrow>
          (case find_user u grp of
             Some usr \<Rightarrow>
               let s = (if user_active usr then
                          let s = (case find_client (us_client usr) s of Some c \<Rightarrow> on_group_leave grp usr True c s | None \<Rightarrow> s)
                          in on_user_left_group grp usr s
                        else s)
               in (kAooOk, do_remove_user_from_group grp usr s)
           | None \<Rightarrow> (kAooErrorNotFound, s))
      | None \<Rightarrow> (kAooErrorNotFound, s))"

text \<open>The controls, with the value that the argument points to.\<close>

datatype group_control =
    CtlUpdateGroup "AooData option"
  | CtlUpdateUser int "AooData option"
  | CtlOtherGroup

definition groupControl :: "int \<Rightarrow> group_control \<Rightarrow> Server \<Rightarrow> AooError \<times> Server" where
  "groupControl g ctl s =
     (case find_group g s of
        None \<Rightarrow> (kAooErrorNotFound, s)
      | Some grp \<Rightarrow>
          (case ctl of
             CtlUpdateGroup (Some md) \<Rightarrow> (kAooOk, update_group grp md s)
           | CtlUpdateGroup None \<Rightarrow> (kAooErrorBadArgument, s)
           | CtlUpdateUser u md \<Rightarrow>
               (case find_user u grp of
                  None \<Rightarrow> (kAooErrorNotFound, s)
                | Some usr \<Rightarrow>
                    (case md of Some d \<Rightarrow> (kAooOk, update_user grp usr d s) | None \<Rightarrow> (kAooErrorBadArgument, s)))
           | CtlOtherGroup \<Rightarrow> (kAooErrorNotImplemented, s)))"

datatype server_ctl =
    CtlSetPassword "string option"
  | CtlSetRelayHost "AooIpEndpoint option"
  | CtlSetUseInternalRelay bool
  | CtlGetUseInternalRelay
  | CtlSetGroupAutoCreate bool
  | CtlGetGroupAutoCreate
  | CtlSetPingSettings AooPingSettings
  | CtlGetPingSettings
  | CtlOther

datatype control_value = NoValue | BoolValue bool | PingValue AooPingSettings

definition server_control :: "(string \<Rightarrow> string) \<Rightarrow> server_ctl \<Rightarrow> Server \<Rightarrow> (AooError + control_value) \<times> Server" where
  "server_control md5 ctl s =
     (case ctl of
        CtlSetPassword pwd \<Rightarrow> (Inr NoValue, s\<lparr> sv_password := (case pwd of Some p \<Rightarrow> encrypt md5 p | None \<Rightarrow> '''') \<rparr>)
      | CtlSetRelayHost ep \<Rightarrow> (Inr NoValue, s\<lparr> sv_global_relay_addr := (case ep of Some e \<Rightarrow> ip_host_of e | None \<Rightarrow> ip_host_none) \<rparr>)
      | CtlSetUseInternalRelay b \<Rightarrow> (Inr NoValue, s\<lparr> sv_internal_relay := b \<rparr>)
      | CtlGetUseInternalRelay \<Rightarrow> (Inr (BoolValue (sv_internal_relay s)), s)
      | CtlSetGroupAutoCreate b \<Rightarrow> (Inr NoValue, s\<lparr> sv_group_auto_create := b \<rparr>)
      | CtlGetGroupAutoCreate \<Rightarrow> (Inr (BoolValue (sv_group_auto_create s)), s)
      | CtlSetPingSettings p \<Rightarrow> (Inr NoValue, s\<lparr> sv_ping_settings := p \<rparr>)
      | CtlGetPingSettings \<Rightarrow> (Inr (PingValue (sv_ping_settings s)), s)
      | CtlOther \<Rightarrow> (Inl kAooErrorNotImplemented, s))"

definition setEventHandler :: "AooEventMode \<Rightarrow> Server \<Rightarrow> Server" where
  "setEventHandler mode s = s\<lparr> sv_event_mode := mode \<rparr>"

definition eventsAvailable :: "Server \<Rightarrow> bool" where
  "eventsAvailable s \<longleftrightarrow> sv_event_queue s \<noteq> []"

definition pollEvents :: "Server \<Rightarrow> Server" where
  "pollEvents s = s\<lparr> sv_event_queue := [], sv_dispatched := sv_dispatched s @ sv_event_queue s \<rparr>"

definition setRequestHandler :: "(int \<Rightarrow> int \<Rightarrow> AooRequest \<Rightarrow> bool) option \<Rightarrow> Server \<Rightarrow> Server" where
  "setRequestHandler f s = s\<lparr> sv_request_handler := f \<rparr>"

subsection \<open>Notifications\<close>

definition push_message :: "int \<Rightarrow> int \<Rightarrow> AooData \<Rightarrow> Server \<Rightarrow> Server" where
  "push_message g u data s =
     s\<lparr> sv_message_queue := sv_message_queue s @ [\<lparr> sn_group = g, sn_user = u, sn_type = ad_type data, sn_data = ad_data data \<rparr>] \<rparr>"

definition notifyClient :: "int \<Rightarrow> AooData \<Rightarrow> Server \<Rightarrow> AooError \<times> Server" where
  "notifyClient client data s =
     (if client = kAooIdInvalid \<or> find_client client s \<noteq> None then (kAooOk, push_message kAooIdInvalid client data s)
      else (kAooErrorNotFound, s))"

definition notifyGroup :: "int \<Rightarrow> int \<Rightarrow> AooData \<Rightarrow> Server \<Rightarrow> AooError \<times> Server" where
  "notifyGroup g u data s =
     (case find_group g s of
        Some grp \<Rightarrow>
          (if u \<noteq> kAooIdInvalid \<and> find_user u grp = None then (kAooErrorNotFound, s) else (kAooOk, push_message g u data s))
      | None \<Rightarrow> (kAooErrorNotFound, s))"

fun notify_clients :: "client_message \<Rightarrow> (int \<times> client_endpoint) list \<Rightarrow> Server \<Rightarrow> Server" where
  "notify_clients msg [] s = s"
| "notify_clients msg ((_, c) # cs) s = notify_clients msg cs (send_message_to c msg s)"

definition dispatch_message :: "server_note \<Rightarrow> Server \<Rightarrow> Server" where
  "dispatch_message note s =
     (let msg = ClientMessage (sn_data note)
      in if sn_group note = kAooIdInvalid then
           if sn_user note = kAooIdInvalid then notify_clients msg (sv_clients s) s
           else (case find_client (sn_user note) s of Some c \<Rightarrow> send_message_to c msg s | None \<Rightarrow> s)
         else
           (case find_group (sn_group note) s of
              Some grp \<Rightarrow>
                if sn_user note = kAooIdInvalid then send_to_users (\<lambda>u. Some msg) (gr_users grp) s
                else (case find_user (sn_user note) grp of Some u \<Rightarrow> send_to_users (\<lambda>u. Some msg) [u] s | None \<Rightarrow> s)
            | None \<Rightarrow> s))"

fun dispatch_messages :: "server_note list \<Rightarrow> Server \<Rightarrow> Server" where
  "dispatch_messages [] s = s"
| "dispatch_messages (m # ms) s = dispatch_messages ms (dispatch_message m s)"

subsection \<open>The main loop\<close>

definition client_update :: "u64 \<Rightarrow> AooPingSettings \<Rightarrow> client_endpoint \<Rightarrow> Server \<Rightarrow> (bool \<times> real) \<times> Server" where
  "client_update now settings c s =
     (let ((state, ping, wait), timer) = timer_update now settings False (ce_ping_timer c);
          s = (if ping then send_message_to c ClientPing s else s);
          c = c\<lparr> ce_ping_timer := timer \<rparr>
      in if state = ping_inactive \<and> ce_active c then ((True, wait), set_client (c\<lparr> ce_active := False \<rparr>) s)
         else ((False, wait), set_client c s))"

text \<open>The timers of all clients: the clients that do not respond, and the time until the next deadline.\<close>

fun update_clients :: "u64 \<Rightarrow> AooPingSettings \<Rightarrow> int list \<Rightarrow> real \<Rightarrow> Server \<Rightarrow> int list \<times> real \<times> Server" where
  "update_clients now settings [] sleep s = ([], sleep, s)"
| "update_clients now settings (i # is) sleep s =
     (case find_client i s of
        None \<Rightarrow> update_clients now settings is sleep s
      | Some c \<Rightarrow>
          let ((timeout, wait), s) = client_update now settings c s;
              (timeouts, sleep, s) = update_clients now settings is (if \<not> timeout \<and> wait < sleep then wait else sleep) s
          in (if timeout then i # timeouts else timeouts, sleep, s))"

fun remove_timeouts :: "int list \<Rightarrow> Server \<Rightarrow> Server" where
  "remove_timeouts [] s = s"
| "remove_timeouts (i # is) s =
     remove_timeouts is (tcp_close i (snd (remove_client i kAooErrorNotResponding ''client is not responding'' s)))"

text \<open>One round of \<^verbatim>\<open>run\<close> up to the wait for the network: the time to wait and the state.\<close>

definition run_round :: "u64 \<Rightarrow> Server \<Rightarrow> real \<times> Server" where
  "run_round now s =
     (let (timeouts, sleep, s) = update_clients now (sv_ping_settings s) (map fst (sv_clients s)) 1000000000000 s;
          s = remove_timeouts timeouts s;
          queue = sv_message_queue s
      in (sleep, dispatch_messages queue (s\<lparr> sv_message_queue := [] \<rparr>)))"

definition server_close :: "Server \<Rightarrow> Server" where
  "server_close s = s\<lparr> sv_clients := [], sv_groups := [], sv_message_queue := [] \<rparr>"

subsection \<open>UDP\<close>

datatype udp_message = UdpPing | UdpQuery | UdpUnknown

text \<open>What the server sends: the replies, a relayed binary message, and the arguments of a relayed OSC message.\<close>

datatype udp_reply =
    UdpPong
  | UdpQueryReply ip_address
  | UdpBinary "byte list"
  | UdpOscRelay ip_address "byte list"

definition server_check_addr :: "Server \<Rightarrow> ip_address \<Rightarrow> ip_address option" where
  "server_check_addr s addr =
     (if is_ipv4_mapped addr then None
      else if sv_address_family s = IPv6 \<and> ip_type_of addr = IPv4 then
        (if sv_use_ipv4_mapped s then Some (ipv4_mapped addr) else None)
      else if sv_address_family s = IPv4 \<and> ip_type_of addr = IPv6 then None
      else Some addr)"

definition handle_relay ::
    "(byte list \<Rightarrow> (ip_address \<times> byte list) option) \<Rightarrow> byte list \<Rightarrow> ip_address \<Rightarrow> Server \<Rightarrow> (udp_reply \<times> ip_address) list" where
  "handle_relay parse data addr s =
     (if \<not> sv_internal_relay s then []
      else
        let src_addr = unmapped addr
        in if binmsg_check data then
             let (onset, dst) = binmsg_read_relay data
             in case server_check_addr s dst of
               None \<Rightarrow> []
             | Some dst_addr \<Rightarrow>
                 if onset > 0 then
                   if ip_type_of src_addr = ip_type_of dst_addr
                   then [(UdpBinary (snd (binmsg_write_relay data src_addr)), dst_addr)]
                   else
                     let (result, buffer) =
                           write_relay_message_binary (replicate AOO_MAX_PACKET_SIZE 0) (drop onset data) src_addr
                     in if result > 0 then [(UdpBinary (take result buffer), dst_addr)] else []
                 else []
           else (case parse data of
               None \<Rightarrow> []
             | Some (dst, msg) \<Rightarrow>
                 (case server_check_addr s dst of None \<Rightarrow> [] | Some dst_addr \<Rightarrow> [(UdpOscRelay src_addr msg, dst_addr)])))"

definition handle_udp_packet ::
    "(byte list \<Rightarrow> nat \<Rightarrow> udp_message option) \<Rightarrow> (byte list \<Rightarrow> (ip_address \<times> byte list) option) \<Rightarrow>
     byte list \<Rightarrow> ip_address \<Rightarrow> Server \<Rightarrow> (udp_reply \<times> ip_address) list" where
  "handle_udp_packet parse_message parse_relay data addr s =
     (case parse_pattern data of
        Inl _ \<Rightarrow> []
      | Inr (type, onset) \<Rightarrow>
          if type = kAooMsgTypeServer then
            (if binmsg_check data then []
             else (case parse_message data onset of
                 Some UdpPing \<Rightarrow> [(UdpPong, addr)]
               | Some UdpQuery \<Rightarrow> [(UdpQueryReply (unmapped addr), addr)]
               | _ \<Rightarrow> []))
          else if type = kAooMsgTypeRelay then handle_relay parse_relay data addr s
          else [])"

end
