(* ===== verification/Server_Invariant.thy ===== *)
theory Server_Invariant
  imports Server_Api
begin

text \<open>
  The invariant of the server: names and identifiers are unique, every active user of a group belongs to a
  client that knows of it, and every entry of a client is a user of the group. All operations keep it.
\<close>

subsection \<open>Association lists and users\<close>

lemma map_of_update: "map_of (AList.update k v al) = (map_of al)(k \<mapsto> v)"
  by (rule AList.update_conv')

lemma map_of_delete_key: "map_of (AList.delete k al) = (map_of al)(k := None)"
  by (rule AList.delete_conv')

lemma find_Some_iff_distinct:
  "distinct (map f xs) \<Longrightarrow> find (\<lambda>x. f x = k) xs = Some x \<longleftrightarrow> x \<in> set xs \<and> f x = k"
  by (induction xs) (auto simp: image_iff)

lemma find_None_key: "find (\<lambda>x. f x = k) xs = None \<longleftrightarrow> k \<notin> f ` set xs"
  by (induction xs) auto

lemma erase_user_set: "distinct (map us_id us) \<Longrightarrow> set (erase_user i us) = {u \<in> set us. us_id u \<noteq> i}"
  by (induction us) (auto simp: image_iff)

lemma erase_user_distinct: "distinct (map f us) \<Longrightarrow> distinct (map f (erase_user i us))"
proof (induction us)
  case (Cons u us)
  have "set (erase_user i us) \<subseteq> set us" by (induction us) auto
  then show ?case using Cons by (auto simp: image_iff)
qed simp

lemma change_user_map: "(\<And>u. f (h u) = f u) \<Longrightarrow> map f (change_user i h us) = map f us"
  by (induction us) auto

lemma change_user_set: "distinct (map us_id us) \<Longrightarrow> set (change_user i h us) = (\<lambda>u. if us_id u = i then h u else u) ` set us"
  by (induction us) (auto simp: image_iff)

subsection \<open>The part of the state that the invariant is about\<close>

definition tables :: "Server \<Rightarrow> (int \<times> client_endpoint) list \<times> int \<times> (int \<times> server_group) list \<times> int \<times> (int \<times> int \<times> AooRequest) list" where
  "tables s = (sv_clients s, sv_next_client_id s, sv_groups s, sv_next_group_id s, sv_deferred s)"

lemma tablesD:
  assumes "tables s' = tables s"
  shows "find_client i s' = find_client i s" and "find_group g s' = find_group g s" and "sv_clients s' = sv_clients s"
    and "sv_groups s' = sv_groups s" and "sv_deferred s' = sv_deferred s" and "sv_next_client_id s' = sv_next_client_id s"
    and "sv_next_group_id s' = sv_next_group_id s"
  using assms by (simp_all add: tables_def find_client_def find_group_def)

lemma tables_send [simp]:
  "tables (send_message_to c msg s) = tables s" "tables (server_send_event e s) = tables s" "tables (send_error c token type result response s) = tables s"
  by (auto simp: tables_def send_message_to_def server_send_event_def send_error_def split: AooEventMode.split option.split)

lemma tables_tcp_close [simp]: "tables (tcp_close i s) = tables s"
  by (simp add: tables_def tcp_close_def)

lemma tables_send_to_users [simp]: "tables (send_to_users f us s) = tables s"
  by (induction us arbitrary: s) (simp_all split: option.split)

lemma tables_introduce [simp]: "tables (introduce_peers grp usr c us s) = tables s"
  by (induction us arbitrary: s) (simp_all split: option.split)

lemma tables_notices [simp]:
  "tables (on_user_left_group grp usr s) = tables s" "tables (on_user_joined_group grp usr c s) = tables s"
  by (simp_all add: on_user_left_group_def on_user_joined_group_def Let_def)

lemma tables_notify_clients [simp]: "tables (notify_clients msg cs s) = tables s"
  by (induction msg cs s rule: notify_clients.induct) simp_all

lemma tables_dispatch [simp]: "tables (dispatch_message n s) = tables s"
  by (simp add: dispatch_message_def Let_def split: option.split)

lemma tables_dispatch_messages [simp]: "tables (dispatch_messages ns s) = tables s"
  by (induction ns arbitrary: s) simp_all

lemma tables_set_client: "tables s' = tables s \<Longrightarrow> tables (set_client c s') = tables (set_client c s)"
  by (simp add: tables_def set_client_def)

lemma tables_set_group: "tables s' = tables s \<Longrightarrow> tables (set_group g s') = tables (set_group g s)"
  by (simp add: tables_def set_group_def)

lemma find_client_set [simp]:
  "find_client i (set_client c s) = (if i = ce_id c then Some c else find_client i s)" "find_client i (set_group g s) = find_client i s"
  by (simp_all add: find_client_def set_client_def set_group_def map_of_update)

lemma find_group_set [simp]:
  "find_group i (set_group g s) = (if i = gr_id g then Some g else find_group i s)" "find_group i (set_client c s) = find_group i s"
  by (simp_all add: find_group_def set_client_def set_group_def map_of_update)

lemma set_other [simp]:
  "sv_deferred (set_client c s) = sv_deferred s" "sv_deferred (set_group g s) = sv_deferred s"
  "sv_next_client_id (set_client c s) = sv_next_client_id s" "sv_next_client_id (set_group g s) = sv_next_client_id s"
  "sv_next_group_id (set_client c s) = sv_next_group_id s" "sv_next_group_id (set_group g s) = sv_next_group_id s"
  "sv_clients (set_group g s) = sv_clients s" "sv_groups (set_client c s) = sv_groups s"
  by (simp_all add: set_client_def set_group_def)

subsection \<open>The invariant\<close>

definition group_wf :: "int \<Rightarrow> server_group \<Rightarrow> bool" where
  "group_wf g grp \<longleftrightarrow> gr_id grp = g \<and> distinct (map us_id (gr_users grp)) \<and> distinct (map us_name (gr_users grp)) \<and>
     (\<forall>u \<in> set (gr_users grp). 0 \<le> us_id u \<and> us_id u < gr_next_user_id grp \<and> us_group u = g \<and> (user_active u \<longleftrightarrow> \<not> user_persistent u)) \<and>
     (group_persistent grp \<or> gr_users grp \<noteq> []) \<and> 0 \<le> gr_next_user_id grp"

definition groups_ok :: "Server \<Rightarrow> bool" where
  "groups_ok s \<longleftrightarrow> distinct (map fst (sv_groups s)) \<and>
     (\<forall>g grp. find_group g s = Some grp \<longrightarrow> 0 \<le> g \<and> g < sv_next_group_id s \<and> group_wf g grp) \<and>
     (\<forall>g h grp grp'. find_group g s = Some grp \<longrightarrow> find_group h s = Some grp' \<longrightarrow> gr_name grp = gr_name grp' \<longrightarrow> g = h)"

definition client_wf :: "int \<Rightarrow> Server \<Rightarrow> client_endpoint \<Rightarrow> bool" where
  "client_wf i s c \<longleftrightarrow> ce_id c = i \<and> 0 \<le> i \<and> i < sv_next_client_id s \<and> distinct (ce_group_users c) \<and>
     (client_active c \<or> ce_group_users c = []) \<and> (\<forall>(g, u) \<in> set (ce_group_users c). g < sv_next_group_id s)"

text \<open>The entries of a client are users of their groups, if the groups still exist.\<close>

definition entries_ok :: "int \<Rightarrow> Server \<Rightarrow> client_endpoint \<Rightarrow> bool" where
  "entries_ok i s c \<longleftrightarrow> (\<forall>g u grp. (g, u) \<in> set (ce_group_users c) \<longrightarrow> find_group g s = Some grp \<longrightarrow>
     (\<exists>usr. find_user u grp = Some usr \<and> (us_client usr = i \<or> user_persistent usr)))"

text \<open>The active users of a group are entries of their clients.\<close>

definition members_ok :: "Server \<Rightarrow> bool" where
  "members_ok s \<longleftrightarrow> (\<forall>g grp u. find_group g s = Some grp \<longrightarrow> u \<in> set (gr_users grp) \<longrightarrow> user_active u \<longrightarrow>
     (\<exists>c. find_client (us_client u) s = Some c \<and> (g, us_id u) \<in> set (ce_group_users c)))"

definition deferred_ok :: "Server \<Rightarrow> int \<times> int \<times> AooRequest \<Rightarrow> bool" where
  "deferred_ok s d \<longleftrightarrow> (case d of (i, _, req) \<Rightarrow> i < sv_next_client_id s \<and>
     (case req of
        RequestLogin version _ _ \<Rightarrow> version \<noteq> ''''
      | RequestGroupJoin j \<Rightarrow>
          rj_groupId j < sv_next_group_id s \<and> (\<forall>c. find_client i s = Some c \<longrightarrow> client_active c) \<and>
          (rj_userId j = kAooIdInvalid \<or> (\<forall>grp. find_group (rj_groupId j) s = Some grp \<longrightarrow>
             (\<exists>usr. find_user (rj_userId j) grp = Some usr \<and> user_persistent usr)))
      | _ \<Rightarrow> True))"

definition server_inv_but :: "int set \<Rightarrow> Server \<Rightarrow> bool" where
  "server_inv_but X s \<longleftrightarrow> groups_ok s \<and> members_ok s \<and> 0 \<le> sv_next_client_id s \<and> 0 \<le> sv_next_group_id s \<and>
     (\<forall>i c. find_client i s = Some c \<longrightarrow> client_wf i s c \<and> (i \<notin> X \<longrightarrow> entries_ok i s c \<and> receiver_wf (ce_receiver c))) \<and>
     (\<forall>d \<in> set (sv_deferred s). deferred_ok s d)"

abbreviation server_inv :: "Server \<Rightarrow> bool" where
  "server_inv \<equiv> server_inv_but {}"

lemma server_inv_tables:
  assumes "tables s' = tables s"
  shows "server_inv_but X s' \<longleftrightarrow> server_inv_but X s"
  unfolding server_inv_but_def groups_ok_def members_ok_def client_wf_def entries_ok_def deferred_ok_def tablesD [OF assms] ..

lemma server_inv_send [simp]:
  "server_inv_but X (send_message_to c msg s) \<longleftrightarrow> server_inv_but X s" "server_inv_but X (server_send_event e s) \<longleftrightarrow> server_inv_but X s"
  "server_inv_but X (send_error c token type result response s) \<longleftrightarrow> server_inv_but X s"
  "server_inv_but X (send_to_users f us s) \<longleftrightarrow> server_inv_but X s" "server_inv_but X (on_user_left_group grp usr s) \<longleftrightarrow> server_inv_but X s"
  "server_inv_but X (on_user_joined_group grp usr c s) \<longleftrightarrow> server_inv_but X s" "server_inv_but X (tcp_close i s) \<longleftrightarrow> server_inv_but X s"
  "server_inv_but X (dispatch_messages ns s) \<longleftrightarrow> server_inv_but X s"
  by (rule server_inv_tables, simp)+

lemma invD:
  assumes "server_inv_but X s"
  shows "groups_ok s" and "members_ok s" and "find_client i s = Some c \<Longrightarrow> client_wf i s c"
    and "find_client i s = Some c \<Longrightarrow> i \<notin> X \<Longrightarrow> entries_ok i s c" and "d \<in> set (sv_deferred s) \<Longrightarrow> deferred_ok s d"
    and "find_client i s = Some c \<Longrightarrow> i \<notin> X \<Longrightarrow> receiver_wf (ce_receiver c)"
  using assms unfolding server_inv_but_def by blast+

lemma groups_okD:
  assumes "groups_ok s"
  shows "distinct (map fst (sv_groups s))" and "find_group g s = Some grp \<Longrightarrow> 0 \<le> g" and "find_group g s = Some grp \<Longrightarrow> g < sv_next_group_id s"
    and "find_group g s = Some grp \<Longrightarrow> group_wf g grp" and "find_group g s = Some grp \<Longrightarrow> gr_id grp = g"
    and "find_group g s = Some grp \<Longrightarrow> find_group h s = Some grp' \<Longrightarrow> gr_name grp = gr_name grp' \<Longrightarrow> g = h"
  using assms unfolding groups_ok_def group_wf_def by blast+

lemma group_wfD:
  assumes "group_wf g grp"
  shows "gr_id grp = g" and "distinct (map us_id (gr_users grp))" and "distinct (map us_name (gr_users grp))"
    and "u \<in> set (gr_users grp) \<Longrightarrow> 0 \<le> us_id u" and "u \<in> set (gr_users grp) \<Longrightarrow> us_id u < gr_next_user_id grp"
    and "u \<in> set (gr_users grp) \<Longrightarrow> us_group u = g" and "u \<in> set (gr_users grp) \<Longrightarrow> user_active u \<longleftrightarrow> \<not> user_persistent u"
    and "group_persistent grp \<or> gr_users grp \<noteq> []" and "0 \<le> gr_next_user_id grp"
  using assms unfolding group_wf_def by blast+

lemma client_wfD:
  assumes "client_wf i s c"
  shows "ce_id c = i" and "0 \<le> i" and "i < sv_next_client_id s" and "distinct (ce_group_users c)"
    and "client_active c \<or> ce_group_users c = []" and "(g, u) \<in> set (ce_group_users c) \<Longrightarrow> g < sv_next_group_id s"
  using assms unfolding client_wf_def by blast+

lemma find_user_iff: "group_wf g grp \<Longrightarrow> find_user u grp = Some usr \<longleftrightarrow> usr \<in> set (gr_users grp) \<and> us_id usr = u"
  by (simp add: find_user_def find_Some_iff_distinct group_wfD)

lemma find_user_None: "find_user u grp = None \<longleftrightarrow> u \<notin> us_id ` set (gr_users grp)"
  by (simp add: find_user_def find_None_key)

lemma find_group_by_nameD: "groups_ok s \<Longrightarrow> find_group_by_name n s = Some grp \<Longrightarrow> find_group (gr_id grp) s = Some grp \<and> gr_name grp = n"
proof -
  assume ok: "groups_ok s" and f: "find_group_by_name n s = Some grp"
  then obtain i where "(i, grp) \<in> set (sv_groups s)" "gr_name grp = n"
    unfolding find_group_by_name_def find_Some_iff by (auto simp: find_Some_iff) (metis nth_mem)
  then have "find_group i s = Some grp" using groups_okD(1) [OF ok] by (simp add: find_group_def)
  then show "find_group (gr_id grp) s = Some grp \<and> gr_name grp = n" using groups_okD(5) [OF ok] \<open>gr_name grp = n\<close> by simp
qed

lemma find_group_by_name_None: "find_group_by_name n s = None \<Longrightarrow> find_group g s = Some grp \<Longrightarrow> gr_name grp \<noteq> n"
  by (auto simp: find_group_by_name_def find_None_iff find_group_def dest: map_of_SomeD)

end
