(* ===== verification/Server_Preserve.thy ===== *)
theory Server_Preserve
  imports Server_Invariant
begin

text \<open>
  The operations of the server keep its invariant.
\<close>

subsection \<open>Changes of one client or group\<close>

lemma server_inv_mono: "server_inv_but X s \<Longrightarrow> X \<subseteq> Y \<Longrightarrow> server_inv_but Y s"
  unfolding server_inv_but_def by blast

lemma server_inv_restore:
  "server_inv_but (insert i X) s \<Longrightarrow> (\<And>c. find_client i s = Some c \<Longrightarrow> entries_ok i s c \<and> receiver_wf (ce_receiver c)) \<Longrightarrow> server_inv_but X s"
  unfolding server_inv_but_def by blast

lemma inv_set_client:
  assumes "server_inv_but (insert i X) s" and "find_client i s = Some c" and "client_wf i s c'" and "i \<notin> X \<longrightarrow> entries_ok i s c' \<and> receiver_wf (ce_receiver c')"
    and "client_active c \<longrightarrow> client_active c'"
    and "\<And>g grp u. find_group g s = Some grp \<Longrightarrow> u \<in> set (gr_users grp) \<Longrightarrow> us_client u = i \<Longrightarrow> user_active u \<Longrightarrow> (g, us_id u) \<in> set (ce_group_users c')"
  shows "server_inv_but X (set_client c' s)"
proof -
  note d = invD [OF assms(1)]
  have i: "ce_id c' = i" using assms(3) by (rule client_wfD)
  have "groups_ok (set_client c' s)" using d(1) by (simp add: groups_ok_def)
  moreover have "members_ok (set_client c' s)" using d(2) assms(6) unfolding members_ok_def by (auto simp: i)
  moreover have "client_wf j (set_client c' s) e \<and> (j \<notin> X \<longrightarrow> entries_ok j (set_client c' s) e \<and> receiver_wf (ce_receiver e))" if "find_client j (set_client c' s) = Some e" for j e
  proof (cases "j = i")
    case True
    then show ?thesis using that assms(3,4) by (simp add: i client_wf_def entries_ok_def)
  next
    case False
    then show ?thesis using that d(3,4,6) [of j e] by (simp add: i client_wf_def entries_ok_def)
  qed
  moreover have "deferred_ok (set_client c' s) x" if "x \<in> set (sv_deferred s)" for x
    using d(5) [OF that] assms(2,5) by (auto simp: deferred_ok_def i split: prod.splits AooRequest.splits)
  ultimately show ?thesis using assms(1) unfolding server_inv_but_def by simp
qed

definition join_request_ok :: "int \<Rightarrow> AooRequest \<Rightarrow> server_group \<Rightarrow> bool" where
  "join_request_ok g req grp \<longleftrightarrow> (case req of
     RequestGroupJoin j \<Rightarrow> rj_groupId j = g \<longrightarrow> rj_userId j \<noteq> kAooIdInvalid \<longrightarrow>
       (\<exists>usr. find_user (rj_userId j) grp = Some usr \<and> user_persistent usr)
   | _ \<Rightarrow> True)"

lemma inv_put_group:
  assumes "server_inv_but X s" and "0 \<le> g" and "g < sv_next_group_id s" and "group_wf g grp'"
    and "\<And>h grp. find_group h s = Some grp \<Longrightarrow> h \<noteq> g \<Longrightarrow> gr_name grp \<noteq> gr_name grp'"
    and "\<And>u. u \<in> set (gr_users grp') \<Longrightarrow> user_active u \<Longrightarrow> \<exists>c. find_client (us_client u) s = Some c \<and> (g, us_id u) \<in> set (ce_group_users c)"
    and "\<And>i c u. find_client i s = Some c \<Longrightarrow> i \<notin> X \<Longrightarrow> (g, u) \<in> set (ce_group_users c) \<Longrightarrow>
      \<exists>usr. find_user u grp' = Some usr \<and> (us_client usr = i \<or> user_persistent usr)"
    and "\<And>i t req. (i, t, req) \<in> set (sv_deferred s) \<Longrightarrow> join_request_ok g req grp'"
  shows "server_inv_but X (set_group grp' s)"
proof -
  note d = invD [OF assms(1)]
  have i: "gr_id grp' = g" using assms(4) by (rule group_wfD)
  have "groups_ok (set_group grp' s)"
    unfolding groups_ok_def
  proof (intro conjI allI impI)
    show "distinct (map fst (sv_groups (set_group grp' s)))"
      using groups_okD(1) [OF d(1)] by (simp add: set_group_def distinct_update)
  qed (use d(1) assms(2-5) in \<open>auto simp: i groups_ok_def split: if_splits\<close>)
  moreover have "members_ok (set_group grp' s)" using d(2) assms(6) unfolding members_ok_def by (auto simp: i)
  moreover have "client_wf j (set_group grp' s) e \<and> (j \<notin> X \<longrightarrow> entries_ok j (set_group grp' s) e \<and> receiver_wf (ce_receiver e))" if "find_client j (set_group grp' s) = Some e" for j e
    using that d(3,4,6) [of j e] assms(7) by (auto simp: i client_wf_def entries_ok_def)
  moreover have "deferred_ok (set_group grp' s) x" if "x \<in> set (sv_deferred s)" for x
    using d(5) [OF that] assms(8) that by (fastforce simp: deferred_ok_def i join_request_ok_def split: prod.splits AooRequest.splits)
  ultimately show ?thesis using assms(1) unfolding server_inv_but_def by simp
qed

lemma deferred_request_ok: "deferred_ok s (i, t, req) \<Longrightarrow> find_group g s = Some grp \<Longrightarrow> join_request_ok g req grp"
  by (auto simp: deferred_ok_def join_request_ok_def split: AooRequest.splits)

text \<open>A group that changes while its users stay, or lose those that no client refers to.\<close>

lemma inv_change_group:
  assumes "server_inv_but X s" and "find_group g s = Some grp" and "group_wf g grp'" and "gr_name grp' = gr_name grp"
    and "\<And>u. u \<in> set (gr_users grp') \<Longrightarrow> user_active u \<Longrightarrow> \<exists>v \<in> set (gr_users grp). us_client v = us_client u \<and> us_id v = us_id u"
    and "\<And>usr. usr \<in> set (gr_users grp) \<Longrightarrow> user_persistent usr \<or> (\<exists>i c. find_client i s = Some c \<and> i \<notin> X \<and> (g, us_id usr) \<in> set (ce_group_users c)) \<Longrightarrow>
      \<exists>v \<in> set (gr_users grp'). us_id v = us_id usr \<and> us_client v = us_client usr \<and> user_persistent v = user_persistent usr"
  shows "server_inv_but X (set_group grp' s)"
proof (rule inv_put_group [OF assms(1)])
  note d = invD [OF assms(1)] and w = groups_okD(4) [OF invD(1) [OF assms(1)] assms(2)]
  show "0 \<le> g" "g < sv_next_group_id s" using groups_okD(2,3) [OF d(1) assms(2)] by simp_all
  show "group_wf g grp'" by fact
  show "gr_name grp'' \<noteq> gr_name grp'" if "find_group h s = Some grp''" "h \<noteq> g" for h grp''
    using groups_okD(6) [OF d(1) that(1) assms(2)] that(2) assms(4) by auto
  show "\<exists>c. find_client (us_client u) s = Some c \<and> (g, us_id u) \<in> set (ce_group_users c)" if u: "u \<in> set (gr_users grp')" "user_active u" for u
  proof -
    obtain v where "v \<in> set (gr_users grp)" "us_client v = us_client u" "us_id v = us_id u" using assms(5) [OF u] by blast
    then show ?thesis using d(2) assms(2) u(2) unfolding members_ok_def by (metis user_active_def)
  qed
  show "\<exists>usr. find_user u grp' = Some usr \<and> (us_client usr = i \<or> user_persistent usr)"
    if c: "find_client i s = Some c" "i \<notin> X" "(g, u) \<in> set (ce_group_users c)" for i c u
  proof -
    obtain usr where usr: "find_user u grp = Some usr" "us_client usr = i \<or> user_persistent usr"
      using d(4) [OF c(1,2)] c(3) assms(2) unfolding entries_ok_def by blast
    then have m: "usr \<in> set (gr_users grp)" "us_id usr = u" using find_user_iff [OF w] by simp_all
    then obtain v where "v \<in> set (gr_users grp')" "us_id v = u" "us_client v = us_client usr" "user_persistent v = user_persistent usr"
      using assms(6) [OF m(1)] c by blast
    then show ?thesis using usr(2) find_user_iff [OF assms(3)] by auto
  qed
  show "join_request_ok g req grp'" if "(i, t, req) \<in> set (sv_deferred s)" for i t req
  proof -
    have "join_request_ok g req grp" using deferred_request_ok [OF d(5) [OF that] assms(2)] .
    then show ?thesis using assms(6) unfolding join_request_ok_def find_user_iff [OF w] find_user_iff [OF assms(3)]
      by (auto split: AooRequest.splits) metis
  qed
qed

lemma inv_delete_group:
  assumes "server_inv_but X s"
  shows "server_inv_but X (s\<lparr> sv_groups := AList.delete g (sv_groups s) \<rparr>)" (is "server_inv_but X ?s")
proof -
  note d = invD [OF assms]
  have g: "find_group h ?s = (if h = g then None else find_group h s)" "find_client i ?s = find_client i s" for h i
    by (simp_all add: find_group_def find_client_def map_of_delete_key)
  have "groups_ok ?s" using d(1) unfolding groups_ok_def g by (auto simp: distinct_delete)
  moreover have "members_ok ?s" using d(2) unfolding members_ok_def g by simp
  moreover have "client_wf j ?s e \<and> (j \<notin> X \<longrightarrow> entries_ok j ?s e \<and> receiver_wf (ce_receiver e))" if "find_client j s = Some e" for j e
    using that d(3,4,6) [of j e] by (auto simp: g client_wf_def entries_ok_def)
  moreover have "deferred_ok ?s x" if "x \<in> set (sv_deferred s)" for x
    using d(5) [OF that] by (auto simp: deferred_ok_def g split: prod.splits AooRequest.splits)
  ultimately show ?thesis using assms unfolding server_inv_but_def g by simp
qed

subsection \<open>Users that leave\<close>

lemma find_erase_user: "v \<noteq> u \<Longrightarrow> find (\<lambda>x. us_id x = v) (erase_user u us) = find (\<lambda>x. us_id x = v) us"
  by (induction us) auto

lemma remove_user_fields [simp]:
  "gr_id (remove_user u grp) = gr_id grp" "gr_name (remove_user u grp) = gr_name grp" "gr_users (remove_user u grp) = erase_user u (gr_users grp)"
  "group_persistent (remove_user u grp) = group_persistent grp" "gr_next_user_id (remove_user u grp) = gr_next_user_id grp"
  by (simp_all add: remove_user_def group_persistent_def)

lemma remove_group_empty:
  "find_group g s = Some grp \<Longrightarrow> gr_users grp = [] \<Longrightarrow> remove_group g s = (True, s\<lparr> sv_groups := AList.delete g (sv_groups s) \<rparr>)"
  by (simp add: remove_group_def)

lemma find_group_tables: "tables s' = tables s \<Longrightarrow> find_group g s' = find_group g s"
  by (rule tablesD)

lemma change_user_same: "distinct (map us_id us) \<Longrightarrow> v \<in> set us \<Longrightarrow> us_id v = i \<Longrightarrow> h v = v \<Longrightarrow> change_user i h us = us"
  by (induction us) (auto simp: image_iff)

lemma set_group_same: "find_group g s = Some grp \<Longrightarrow> gr_id grp = g \<Longrightarrow> set_group grp s = s"
  by (simp add: set_group_def find_group_def AList.update_triv)

lemmas send_event_fields = tablesD [OF tables_send(2)]

lemma do_remove_tables:
  "tables (do_remove_user_from_group grp usr s) =
    (if user_persistent usr then tables (set_group (grp\<lparr> gr_users := change_user (us_id usr) user_unset (gr_users grp) \<rparr>) s)
     else if group_persistent grp \<or> erase_user (us_id usr) (gr_users grp) \<noteq> [] then tables (set_group (remove_user (us_id usr) grp) s)
     else tables (s\<lparr> sv_groups := AList.delete (gr_id grp) (sv_groups s) \<rparr>))"
proof (cases "user_persistent usr \<or> group_persistent grp \<or> erase_user (us_id usr) (gr_users grp) \<noteq> []")
  case True
  then show ?thesis by (auto simp: do_remove_user_from_group_def Let_def)
next
  case False
  let ?s = "set_group (remove_user (us_id usr) grp) s"
  have c: "tables (server_send_event e ?s) = tables ?s" for e by simp
  have "find_group (gr_id grp) (server_send_event e ?s) = Some (remove_user (us_id usr) grp)" for e
    unfolding find_group_tables [OF c] by simp
  then show ?thesis using False c
    by (simp add: do_remove_user_from_group_def Let_def remove_group_empty) (simp add: tables_def set_group_def AList.delete_update_same send_event_fields)
qed

lemma do_remove_inv:
  assumes "server_inv_but X s" and "find_group g s = Some grp" and "find_user u grp = Some usr"
    and "\<And>i c. \<not> user_persistent usr \<Longrightarrow> find_client i s = Some c \<Longrightarrow> i \<notin> X \<Longrightarrow> (g, u) \<notin> set (ce_group_users c)"
  shows "server_inv_but X (do_remove_user_from_group grp usr s)"
proof -
  have w: "group_wf g grp" using groups_okD(4) [OF invD(1) [OF assms(1)] assms(2)] .
  note wd = group_wfD [OF w]
  have usr: "usr \<in> set (gr_users grp)" "us_id usr = u" using assms(3) find_user_iff [OF w] by simp_all
  consider "user_persistent usr" | "\<not> user_persistent usr" "group_persistent grp \<or> erase_user u (gr_users grp) \<noteq> []" |
    "\<not> user_persistent usr" "\<not> group_persistent grp" "erase_user u (gr_users grp) = []" by blast
  then show ?thesis
  proof cases
    case 1
    then have n: "user_unset usr = usr" using wd(7) [OF usr(1)] by (simp add: user_unset_def user_active_def)
    have "change_user u user_unset (gr_users grp) = gr_users grp" using change_user_same [where h = user_unset, OF wd(2) usr] n by blast
    then have "tables (do_remove_user_from_group grp usr s) = tables s"
      using 1 usr(2) assms(2) wd(1) by (simp add: do_remove_tables set_group_same)
    then show ?thesis using assms(1) server_inv_tables by blast
  next
    case 2
    have "server_inv_but X (set_group (remove_user u grp) s)"
    proof (rule inv_change_group [OF assms(1,2)])
      show "group_wf g (remove_user u grp)" using w 2(2) by (auto simp: group_wf_def erase_user_distinct erase_user_set)
      show "\<exists>v \<in> set (gr_users (remove_user u grp)). us_id v = us_id w \<and> us_client v = us_client w \<and> user_persistent v = user_persistent w"
        if "w \<in> set (gr_users grp)" "user_persistent w \<or> (\<exists>i c. find_client i s = Some c \<and> i \<notin> X \<and> (g, us_id w) \<in> set (ce_group_users c))" for w
      proof -
        have "us_id w \<noteq> u" using that assms(4) 2(1) usr wd(2) by (metis eq_key_imp_eq_value distinct_map inj_on_def)
        then show ?thesis using that(1) by (auto simp: erase_user_set [OF wd(2)])
      qed
    qed (auto simp: erase_user_set [OF wd(2)])
    moreover have "tables (do_remove_user_from_group grp usr s) = tables (set_group (remove_user u grp) s)"
      unfolding do_remove_tables using 2 usr(2) by simp
    ultimately show ?thesis using server_inv_tables by blast
  next
    case 3
    then have "tables (do_remove_user_from_group grp usr s) = tables (s\<lparr> sv_groups := AList.delete g (sv_groups s) \<rparr>)"
      unfolding do_remove_tables using usr(2) wd(1) by simp
    then show ?thesis using inv_delete_group [OF assms(1)] server_inv_tables by blast
  qed
qed

lemma inv_drop_entry:
  assumes "server_inv_but X s" and "find_client i s = Some c" and "find_group g s = None"
  shows "server_inv_but X (set_client (c\<lparr> ce_group_users := remove1 (g, u) (ce_group_users c) \<rparr>) s)"
proof (rule inv_set_client [where c = c])
  show "server_inv_but (insert i X) s" using assms(1) by (rule server_inv_mono) blast
  note w = invD(3) [OF assms(1,2)]
  show "client_wf i s (c\<lparr> ce_group_users := remove1 (g, u) (ce_group_users c) \<rparr>)"
    using w set_remove1_subset [of "(g, u)" "ce_group_users c"] unfolding client_wf_def client_active_def by auto
  show "i \<notin> X \<longrightarrow> entries_ok i s (c\<lparr> ce_group_users := remove1 (g, u) (ce_group_users c) \<rparr>) \<and>
      receiver_wf (ce_receiver (c\<lparr> ce_group_users := remove1 (g, u) (ce_group_users c) \<rparr>))"
    using invD(4,6) [OF assms(1,2)] unfolding entries_ok_def by (auto dest: notin_set_remove1)
  show "(h, us_id v) \<in> set (ce_group_users (c\<lparr> ce_group_users := remove1 (g, u) (ce_group_users c) \<rparr>))"
    if "find_group h s = Some grp" "v \<in> set (gr_users grp)" "us_client v = i" "user_active v" for h grp v
  proof -
    have "(h, us_id v) \<in> set (ce_group_users c)" using invD(2) [OF assms(1)] that assms(2) unfolding members_ok_def by fastforce
    then show ?thesis using that(1) assms(3) by (cases "h = g") (auto intro: in_set_remove1 [THEN iffD2])
  qed
qed (use assms(2) in \<open>simp_all add: client_active_def\<close>)

lemma eject_users_groups: "eject_users grp us (s\<lparr> sv_groups := G \<rparr>) = (eject_users grp us s)\<lparr> sv_groups := G \<rparr>"
proof (induction us arbitrary: s)
  case (Cons usr us)
  have f: "find_client i (s\<lparr> sv_groups := G \<rparr>) = find_client i s" for i by (simp add: find_client_def)
  have "on_group_leave grp usr True c (s\<lparr> sv_groups := G \<rparr>) = (on_group_leave grp usr True c s)\<lparr> sv_groups := G \<rparr>" for c
    by (simp add: on_group_leave_def set_client_def send_message_to_def)
  then show ?case using Cons by (simp add: f split: option.split)
qed simp

lemma eject_users_keep: "sv_groups (eject_users grp us s) = sv_groups s"
proof (induction us arbitrary: s)
  case (Cons usr us)
  have "sv_groups (on_group_leave grp usr True c s) = sv_groups s" for c by (simp add: on_group_leave_def send_message_to_def)
  then show ?case using Cons by (simp split: option.split)
qed simp

lemma eject_users_inv:
  "server_inv_but X s \<Longrightarrow> find_group (gr_id grp) s = None \<Longrightarrow> server_inv_but X (eject_users grp us s)"
proof (induction us arbitrary: s)
  case (Cons usr us)
  let ?t = "case find_client (us_client usr) s of Some c \<Rightarrow> on_group_leave grp usr True c s | None \<Rightarrow> s"
  have "server_inv_but X ?t \<and> find_group (gr_id grp) ?t = None"
  proof (cases "find_client (us_client usr) s")
    case (Some c)
    let ?s = "send_message_to c (ClientGroupEject (gr_id grp)) s"
    have c: "tables ?s = tables s" by simp
    have "server_inv_but X (set_client (remove_group_user grp usr c) ?s)"
      unfolding remove_group_user_def using Cons.prems Some by (intro inv_drop_entry) (simp_all add: tablesD [OF c])
    then show ?thesis using Some Cons.prems(2) by (simp add: on_group_leave_def tablesD [OF c])
  qed (use Cons.prems in simp)
  then show ?case using Cons.IH by simp
qed simp

lemma remove_group_inv:
  assumes "server_inv_but X s"
  shows "server_inv_but X (snd (remove_group g s))"
proof (cases "find_group g s")
  case (Some grp)
  let ?s = "s\<lparr> sv_groups := AList.delete g (sv_groups s) \<rparr>"
  have "gr_id grp = g" using groups_okD(5) [OF invD(1) [OF assms] Some] .
  then have "find_group (gr_id grp) ?s = None" by (simp add: find_group_def map_of_delete_key)
  from eject_users_inv [OF inv_delete_group [OF assms] this]
  show ?thesis using Some by (simp add: remove_group_def Let_def eject_users_groups eject_users_keep)
qed (simp add: remove_group_def assms)

subsection \<open>Clients that leave\<close>

lemma find_user_removed: "group_wf g grp \<Longrightarrow> find_user v (remove_user u grp) = (if v = u then None else find_user v grp)"
  by (auto simp: find_user_def find_erase_user find_None_key erase_user_set group_wfD)

lemma find_client_do_remove: "find_client i (do_remove_user_from_group grp usr s) = find_client i s"
proof -
  have "sv_clients (do_remove_user_from_group grp usr s) = sv_clients s"
    using do_remove_tables [of grp usr s] by (auto simp: tables_def split: if_splits)
  then show ?thesis by (simp add: find_client_def)
qed

lemma find_group_do_remove:
  assumes "group_wf g grp" and "find_group g s = Some grp" and "find_user u grp = Some usr"
  shows "find_group h (do_remove_user_from_group grp usr s) =
    (if h \<noteq> g \<or> user_persistent usr then find_group h s
     else if group_persistent grp \<or> erase_user u (gr_users grp) \<noteq> [] then Some (remove_user u grp) else None)"
proof -
  note wd = group_wfD [OF assms(1)]
  have usr: "usr \<in> set (gr_users grp)" "us_id usr = u" using assms(3) find_user_iff [OF assms(1)] by simp_all
  have n: "user_persistent usr \<Longrightarrow> user_unset usr = usr" using wd(7) [OF usr(1)] by (simp add: user_unset_def user_active_def)
  have "user_persistent usr \<Longrightarrow> change_user u user_unset (gr_users grp) = gr_users grp"
    using change_user_same [where h = user_unset, OF wd(2) usr] n by blast
  then show ?thesis
    using tablesD(2) [OF do_remove_tables [of grp usr s, folded if_distrib [of tables]]] usr(2) wd(1) assms(2)
    by (simp add: find_group_def map_of_delete_key split: if_splits) (simp_all add: set_group_def map_of_update)
qed

text \<open>Leaving a group of one's own: the user is removed, and the entry of the client.\<close>

lemma leave_inv:
  assumes "server_inv_but X s" and "find_group g s = Some grp" and "find_user u grp = Some usr" and "us_client usr = i"
    and "find_client i s = Some c" and "user_active usr"
  shows "server_inv_but X (set_client (remove_group_user grp usr c) (do_remove_user_from_group grp usr s))"
proof (rule inv_set_client [where c = c])
  let ?s = "do_remove_user_from_group grp usr s" and ?c = "remove_group_user grp usr c"
  have w: "group_wf g grp" using groups_okD(4) [OF invD(1) [OF assms(1)] assms(2)] .
  note wd = group_wfD [OF w]
  have usr: "usr \<in> set (gr_users grp)" "us_id usr = u" using assms(3) find_user_iff [OF w] by simp_all
  have np: "\<not> user_persistent usr" using wd(7) [OF usr(1)] assms(6) by simp
  have "server_inv_but (insert i X) s" using assms(1) by (rule server_inv_mono) blast
  then show inv: "server_inv_but (insert i X) ?s"
  proof (rule do_remove_inv [OF _ assms(2,3)])
    fix j e assume "find_client j s = Some e" "j \<notin> insert i X"
    then show "(g, u) \<notin> set (ce_group_users e)"
      using invD(4) [OF assms(1)] assms(2,3,4) np unfolding entries_ok_def by fastforce
  qed
  show "find_client i ?s = Some c" by (simp add: find_client_do_remove assms(5))
  then have cw: "client_wf i ?s c" using invD(3) [OF inv] by simp
  have d: "distinct (ce_group_users c)" using client_wfD(4) [OF cw] .
  have e: "set (ce_group_users ?c) = set (ce_group_users c) - {(g, u)}" using d wd(1) usr(2) by (simp add: remove_group_user_def)
  show "client_wf i ?s ?c" using cw e unfolding client_wf_def by (auto simp: remove_group_user_def client_active_def)
  have fg: "find_group h ?s = (if h = g then (if group_persistent grp \<or> erase_user u (gr_users grp) \<noteq> [] then Some (remove_user u grp) else None)
      else find_group h s)" for h
    using find_group_do_remove [OF w assms(2,3)] np by simp
  note wr = find_user_removed [OF w]
  have en: "entries_ok i ?s ?c" if "i \<notin> X"
  proof -
    have o: "entries_ok i s c" using invD(4) [OF assms(1,5) that] .
    show "entries_ok i ?s ?c" unfolding entries_ok_def
    proof (intro allI impI)
      fix h v grp' assume m: "(h, v) \<in> set (ce_group_users ?c)" and f: "find_group h ?s = Some grp'"
      show "\<exists>usr. find_user v grp' = Some usr \<and> (us_client usr = i \<or> user_persistent usr)"
        using o m f assms(2) unfolding entries_ok_def e fg by (auto simp: wr split: if_splits)
    qed
  qed
  show "i \<notin> X \<longrightarrow> entries_ok i ?s ?c \<and> receiver_wf (ce_receiver ?c)"
    using en invD(6) [OF assms(1,5)] by (simp add: remove_group_user_def)
  show "client_active c \<longrightarrow> client_active ?c" by (simp add: remove_group_user_def client_active_def)
  show "(h, us_id v) \<in> set (ce_group_users ?c)" if "find_group h ?s = Some grp'" "v \<in> set (gr_users grp')" "us_client v = i" "user_active v" for h grp' v
  proof -
    have "(h, us_id v) \<in> set (ce_group_users c)"
      using invD(2) [OF inv] that \<open>find_client i ?s = Some c\<close> unfolding members_ok_def by fastforce
    moreover have "us_id v \<noteq> u" if "h = g"
      using that \<open>find_group h ?s = Some grp'\<close> \<open>v \<in> set (gr_users grp')\<close> wd(2) by (auto simp: fg erase_user_set split: if_splits)
    ultimately show ?thesis unfolding e by auto
  qed
qed

definition entries_left :: "int \<Rightarrow> (int \<times> int) list \<Rightarrow> Server \<Rightarrow> bool" where
  "entries_left i gus s \<longleftrightarrow> distinct gus \<and>
     (\<forall>g u grp. (g, u) \<in> set gus \<longrightarrow> find_group g s = Some grp \<longrightarrow> (\<exists>usr. find_user u grp = Some usr \<and> (us_client usr = i \<or> user_persistent usr))) \<and>
     (\<forall>g grp v. find_group g s = Some grp \<longrightarrow> v \<in> set (gr_users grp) \<longrightarrow> us_client v = i \<longrightarrow> user_active v \<longrightarrow> (g, us_id v) \<in> set gus)"

lemma leave_groups_step:
  assumes "server_inv_but {i} s" and "entries_left i ((g, u) # gus) s" and "find_group g s = Some grp" and "find_user u grp = Some usr"
  shows "server_inv_but {i} (do_remove_user_from_group grp usr s) \<and> entries_left i gus (do_remove_user_from_group grp usr s)"
proof
  have w: "group_wf g grp" using groups_okD(4) [OF invD(1) [OF assms(1)] assms(3)] .
  have usr: "usr \<in> set (gr_users grp)" "us_id usr = u" using assms(4) find_user_iff [OF w] by simp_all
  have o: "us_client usr = i \<or> user_persistent usr" using assms(2-4) unfolding entries_left_def by (metis list.set_intros(1) option.inject)
  show "server_inv_but {i} (do_remove_user_from_group grp usr s)"
  proof (rule do_remove_inv [OF assms(1,3,4)])
    fix j e assume "\<not> user_persistent usr" "find_client j s = Some e" "j \<notin> {i}"
    then show "(g, u) \<notin> set (ce_group_users e)" using invD(4) [OF assms(1)] assms(3,4) o unfolding entries_ok_def by fastforce
  qed
  note fg = find_group_do_remove [OF w assms(3,4)]
  show "entries_left i gus (do_remove_user_from_group grp usr s)"
    unfolding entries_left_def
  proof (intro conjI allI impI)
    show "distinct gus" using assms(2) by (simp add: entries_left_def)
    show "\<exists>usr. find_user v grp' = Some usr \<and> (us_client usr = i \<or> user_persistent usr)"
      if "(h, v) \<in> set gus" "find_group h (do_remove_user_from_group grp usr s) = Some grp'" for h v grp'
      using that assms(2,3) unfolding entries_left_def by (auto simp: fg find_user_removed [OF w] split: if_splits)
    show "(h, us_id v) \<in> set gus" if "find_group h (do_remove_user_from_group grp usr s) = Some grp'" "v \<in> set (gr_users grp')"
      "us_client v = i" "user_active v" for h grp' v
    proof (cases "h = g \<and> us_id v = u")
      case True
      then have "user_persistent usr" "grp' = grp" using that(1,2) assms(3) group_wfD(2) [OF w] by (auto simp: fg erase_user_set split: if_splits)
      then have "v = usr" using True that(2) usr find_user_iff [OF w, of u v] assms(4) by simp
      then show ?thesis using group_wfD(7) [OF w usr(1)] \<open>user_persistent usr\<close> that(4) by simp
    next
      case False
      then show ?thesis using that assms(2,3) group_wfD(2) [OF w] unfolding entries_left_def
        by (fastforce simp: fg erase_user_set split: if_splits)
    qed
  qed
qed

lemma leave_groups_inv:
  "server_inv_but {i} s \<Longrightarrow> entries_left i gus s \<Longrightarrow>
   server_inv_but {i} (leave_groups gus s) \<and> entries_left i [] (leave_groups gus s)"
proof (induction gus s rule: leave_groups.induct)
  case (2 g u gus s)
  show ?case
  proof (cases "find_group g s")
    case None
    then have "entries_left i gus s" using 2(3) unfolding entries_left_def by (auto dest: spec) (metis option.distinct(1))
    then show ?thesis using None 2 by simp
  next
    case (Some grp)
    then obtain usr where usr: "find_user u grp = Some usr" using 2(3) unfolding entries_left_def by (metis list.set_intros(1))
    let ?s = "on_user_left_group grp usr s"
    have c: "tables ?s = tables s" by simp
    have "entries_left i ((g, u) # gus) ?s" "find_group g ?s = Some grp" using 2(3) Some by (simp_all add: entries_left_def tablesD [OF c])
    from leave_groups_step [OF _ this usr] show ?thesis using 2 Some usr by simp
  qed
qed simp

lemma inv_delete_client:
  assumes "server_inv_but {i} s" and "entries_left i [] s"
  shows "server_inv (s\<lparr> sv_clients := AList.delete i (sv_clients s) \<rparr>)" (is "server_inv ?s")
proof -
  note d = invD [OF assms(1)]
  have g: "find_client j ?s = (if j = i then None else find_client j s)" "find_group h ?s = find_group h s" for h j
    by (simp_all add: find_group_def find_client_def map_of_delete_key)
  have "groups_ok ?s" using d(1) unfolding groups_ok_def g by simp
  moreover have "members_ok ?s" using d(2) assms(2) unfolding members_ok_def entries_left_def g by fastforce
  moreover have "client_wf j ?s e \<and> entries_ok j ?s e \<and> receiver_wf (ce_receiver e)" if "find_client j ?s = Some e" for j e
    using that d(3,4,6) [of j e] by (auto simp: g client_wf_def entries_ok_def split: if_splits)
  moreover have "deferred_ok ?s x" if "x \<in> set (sv_deferred s)" for x
    using d(5) [OF that] by (auto simp: deferred_ok_def g split: prod.splits AooRequest.splits)
  ultimately show ?thesis using assms(1) unfolding server_inv_but_def by simp
qed

lemma remove_client_inv_but:
  assumes inv: "server_inv_but {i} s" and "\<And>c. find_client i s = Some c \<Longrightarrow> entries_ok i s c" and "find_client i s \<noteq> None"
  shows "server_inv (snd (remove_client i err msg s))"
proof -
  obtain c where Some: "find_client i s = Some c" using assms(3) by blast
  note d = invD [OF inv]
  have "entries_left i (ce_group_users c) s"
    using d(2) assms(2) [OF Some] client_wfD(4) [OF d(3) [OF Some]] Some unfolding entries_left_def members_ok_def entries_ok_def by fastforce
  then have l: "server_inv_but {i} (leave_groups (ce_group_users c) s)" "entries_left i [] (leave_groups (ce_group_users c) s)"
    using leave_groups_inv [OF inv] by blast+
  let ?s = "if client_active c then server_send_event (ClientLogoutEvent i err msg) (leave_groups (ce_group_users c) s) else leave_groups (ce_group_users c) s"
  have c: "tables ?s = tables (leave_groups (ce_group_users c) s)" by simp
  have "server_inv_but {i} ?s" "entries_left i [] ?s" using l server_inv_tables [OF c] by (simp_all add: entries_left_def tablesD [OF c])
  from inv_delete_client [OF this] show ?thesis
    using Some by (cases "client_active c") (simp_all add: remove_client_def on_close_def Let_def, simp_all add: client_active_def)
qed

lemma remove_client_inv:
  assumes "server_inv s"
  shows "server_inv (snd (remove_client i err msg s))"
proof (cases "find_client i s")
  case (Some c)
  have "server_inv_but {i} s" using assms by (rule server_inv_mono) simp
  then show ?thesis by (rule remove_client_inv_but) (use invD(4) [OF assms] Some in auto)
qed (simp add: remove_client_def assms)

end
