(* ===== verification/Server_Join.thy ===== *)
theory Server_Join
  imports Server_Preserve
begin

text \<open>
  The requests of the clients keep the invariant of the server.
\<close>

subsection \<open>Clients\<close>

lemma inv_touch_client:
  assumes "server_inv_but X s" and "find_client i s = Some c" and "ce_id c' = i" and "ce_group_users c' = ce_group_users c"
    and "i \<notin> X \<longrightarrow> receiver_wf (ce_receiver c')" and "client_active c \<longrightarrow> client_active c'"
  shows "server_inv_but X (set_client c' s)"
proof (rule inv_set_client [where c = c])
  show "server_inv_but (insert i X) s" using assms(1) by (rule server_inv_mono) blast
  note w = invD(3) [OF assms(1,2)]
  show "client_wf i s c'" using w assms(3-6) unfolding client_wf_def by auto
  show "i \<notin> X \<longrightarrow> entries_ok i s c' \<and> receiver_wf (ce_receiver c')" using invD(4) [OF assms(1,2)] assms(4,5) by (simp add: entries_ok_def)
  show "(g, us_id u) \<in> set (ce_group_users c')" if "find_group g s = Some grp" "u \<in> set (gr_users grp)" "us_client u = i" "user_active u" for g grp u
    using invD(2) [OF assms(1)] that assms(2,4) unfolding members_ok_def by fastforce
qed (use assms in simp_all)

lemma inv_defer:
  assumes "server_inv_but X s" and "deferred_ok s d"
  shows "server_inv_but X (s\<lparr> sv_deferred := sv_deferred s @ [d] \<rparr>)" (is "server_inv_but X ?s")
proof -
  have f: "find_client i ?s = find_client i s" "find_group g ?s = find_group g s" for i g by (simp_all add: find_client_def find_group_def)
  have k: "deferred_ok ?s x = deferred_ok s x" for x by (simp add: deferred_ok_def f cong: AooRequest.case_cong)
  show ?thesis using assms
    unfolding server_inv_but_def groups_ok_def members_ok_def client_wf_def entries_ok_def f k by (auto simp: f)
qed

lemma handle_request_inv:
  assumes "server_inv s" and "deferred_ok s (ce_id c, token, req)"
  shows "server_inv (snd (handle_request c token req s))"
  using assms inv_defer [of "{}"] by (simp add: handle_request_def split: option.split)

lemma handle_request_not: "fst (handle_request c token req s) = False \<Longrightarrow> snd (handle_request c token req s) = s"
  by (auto simp: handle_request_def split: option.splits if_splits)

lemma handle_request_then:
  assumes "server_inv s" and "deferred_ok s (ce_id c, token, req)" and "server_inv (F s)"
  shows "server_inv (case handle_request c token req s of (handled, s') \<Rightarrow> if handled then s' else F s')"
  using handle_request_inv [OF assms(1,2)] handle_request_not [of c token req s] assms(3)
  by (cases "handle_request c token req s") auto

lemma do_login_inv:
  assumes "server_inv s" and "find_client i s = Some c" and "version \<noteq> ''''"
  shows "server_inv (snd (do_login c token version md rmd s))"
proof -
  note w = client_wfD [OF invD(3) [OF assms(1,2)]] invD(6) [OF assms(1,2)]
  have "server_inv (set_client (c\<lparr> ce_version := version \<rparr>) s)"
    using assms w by (intro inv_touch_client [OF assms(1,2)]) (simp_all add: client_active_def)
  then show ?thesis by (simp add: do_login_def Let_def)
qed

lemma check_version_nonempty: "check_version v = kAooOk \<Longrightarrow> v \<noteq> ''''"
  by (auto simp: check_version_def scan_int_def ascii_def)

lemma handle_login_inv:
  assumes "server_inv s" and "find_client i s = Some c"
  shows "server_inv (handle_login c args s)"
proof -
  obtain token version pwd md addresses where args: "args = (token, version, pwd, md, addresses)" by (cases args)
  let ?c = "c\<lparr> ce_public_addresses := ce_public_addresses c @ addresses \<rparr>"
  let ?s = "set_client ?c s" and ?req = "RequestLogin version (if pwd \<noteq> '''' then Some pwd else None) md"
  note w = client_wfD [OF invD(3) [OF assms]] invD(6) [OF assms]
  have s: "server_inv ?s" using w by (intro inv_touch_client [OF assms]) (simp_all add: client_active_def)
  have c: "find_client i ?s = Some ?c" using w by simp
  show ?thesis
  proof (cases "check_version version = kAooOk \<and> \<not> (sv_password ?s \<noteq> '''' \<and> pwd \<noteq> sv_password ?s)")
    case True
    then have v: "version \<noteq> ''''" using check_version_nonempty by blast
    have "deferred_ok ?s (ce_id ?c, token, ?req)" using w v by (simp add: deferred_ok_def)
    from handle_request_inv [OF s this] have h: "server_inv (snd (handle_request ?c token ?req ?s))" .
    have "server_inv (snd (do_login ?c token version md None ?s))" by (rule do_login_inv [OF s c v])
    then show ?thesis using True h s handle_request_not [of ?c token ?req ?s]
      by (cases "handle_request ?c token ?req ?s") (simp add: handle_login_def args Let_def)
  next
    case False
    then show ?thesis using s by (auto simp: handle_login_def args Let_def)
  qed
qed

subsection \<open>Joining a group\<close>

lemma get_next_user_id_fresh:
  assumes "get_next_user_id grp = (u, grp')" and "\<And>v. v \<in> set (gr_users grp) \<Longrightarrow> 0 \<le> us_id v \<and> us_id v < gr_next_user_id grp"
    and "0 \<le> gr_next_user_id grp"
  shows "0 \<le> u" and "u \<notin> us_id ` set (gr_users grp)" and "u < gr_next_user_id grp'"
    and "grp' = grp\<lparr> gr_next_user_id := gr_next_user_id grp' \<rparr>" and "gr_next_user_id grp \<le> gr_next_user_id grp'"
  using assms by (auto simp: get_next_user_id_def find_user_None find_Some_iff find_None_iff split: option.splits) fastforce

lemma add_group_user_entries: "set (ce_group_users (add_group_user grp usr c)) = insert (gr_id grp, us_id usr) (set (ce_group_users c))"
  by (auto simp: add_group_user_def)

lemma add_group_user_fields [simp]:
  "ce_id (add_group_user grp usr c) = ce_id c" "ce_receiver (add_group_user grp usr c) = ce_receiver c"
  "client_active (add_group_user grp usr c) = client_active c"
  "distinct (ce_group_users (add_group_user grp usr c)) = distinct (ce_group_users c)"
  by (simp_all add: add_group_user_def client_active_def)

lemma inv_add_entry:
  assumes "server_inv s" and "find_client i s = Some c" and "client_active c" and "gr_id grp < sv_next_group_id s"
  shows "server_inv_but {i} (set_client (add_group_user grp usr c) s)"
proof (rule inv_set_client [where c = c])
  show "server_inv_but (insert i {i}) s" using assms(1) by (rule server_inv_mono) simp
  show "client_wf i s (add_group_user grp usr c)"
    using invD(3) [OF assms(1,2)] assms(3,4) unfolding client_wf_def by (auto simp: add_group_user_entries)
  show "(g, us_id u) \<in> set (ce_group_users (add_group_user grp usr c))"
    if "find_group g s = Some grp'" "u \<in> set (gr_users grp')" "us_client u = i" "user_active u" for g grp' u
    using invD(2) [OF assms(1)] that assms(2) unfolding members_ok_def add_group_user_entries by fastforce
qed (use assms in simp_all)

lemma inv_join:
  assumes inv: "server_inv s" and c: "find_client i s = Some c" "client_active c" and g: "0 \<le> g" "g < sv_next_group_id s"
    and w: "group_wf g grp'" and usr: "usr \<in> set (gr_users grp')" "us_client usr = i \<or> user_persistent usr"
    and names: "\<And>h grp. find_group h s = Some grp \<Longrightarrow> h \<noteq> g \<Longrightarrow> gr_name grp \<noteq> gr_name grp'"
    and old: "\<And>v. v \<in> set (gr_users grp') \<Longrightarrow> v = usr \<or> (\<exists>grp. find_group g s = Some grp \<and> v \<in> set (gr_users grp))"
    and keep: "\<And>grp. find_group g s = Some grp \<Longrightarrow> set (gr_users grp) \<subseteq> set (gr_users grp')"
    and entries: "\<And>j e v. find_group g s = None \<Longrightarrow> find_client j s = Some e \<Longrightarrow> (g, v) \<notin> set (ce_group_users e)"
    and requests: "\<And>j t req. find_group g s = None \<Longrightarrow> (j, t, req) \<in> set (sv_deferred s) \<Longrightarrow> join_request_ok g req grp'"
  shows "server_inv (set_client (add_group_user grp' usr c) (set_group grp' s))"
proof -
  let ?c = "add_group_user grp' usr c"
  note d = invD [OF inv] and wd = group_wfD [OF w]
  have i: "ce_id ?c = i" using client_wfD(1) [OF d(3) [OF c(1)]] by simp
  have fu: "find_user v grp' = Some x \<longleftrightarrow> x \<in> set (gr_users grp') \<and> us_id x = v" for v x by (rule find_user_iff [OF w])
  have en: "\<exists>x. find_user v grp' = Some x \<and> (us_client x = j \<or> user_persistent x)"
    if e: "find_client j s = Some e" "(g, v) \<in> set (ce_group_users e)" for j e v
  proof -
    obtain grp where f: "find_group g s = Some grp" using entries [OF _ e(1)] e(2) by blast
    then obtain x where "find_user v grp = Some x" "us_client x = j \<or> user_persistent x" using d(4) [OF e(1)] e(2) unfolding entries_ok_def by blast
    moreover have "group_wf g grp" using groups_okD(4) [OF d(1) f] .
    ultimately show ?thesis using keep [OF f] fu find_user_iff [of g grp v] by auto
  qed
  have "server_inv_but {i} (set_client ?c s)" using inv_add_entry [OF inv c] g(2) wd(1) by simp
  then have "server_inv_but {i} (set_group grp' (set_client ?c s))"
  proof (rule inv_put_group [OF _ g(1) _ w])
    show "g < sv_next_group_id (set_client ?c s)" using g(2) by simp
    show "gr_name grp \<noteq> gr_name grp'" if "find_group h (set_client ?c s) = Some grp" "h \<noteq> g" for h grp using names that by simp
    show "\<exists>e. find_client (us_client v) (set_client ?c s) = Some e \<and> (g, us_id v) \<in> set (ce_group_users e)"
      if v: "v \<in> set (gr_users grp')" "user_active v" for v
    proof (cases "v = usr")
      case True
      then have "us_client v = i" using usr(2) wd(7) [OF v(1)] v(2) by simp
      then show ?thesis using True i wd(1) by (simp add: add_group_user_entries)
    next
      case False
      then obtain grp where "find_group g s = Some grp" "v \<in> set (gr_users grp)" using old [OF v(1)] by blast
      then obtain e where "find_client (us_client v) s = Some e" "(g, us_id v) \<in> set (ce_group_users e)" using d(2) v(2) unfolding members_ok_def by blast
      then show ?thesis using c(1) i by (auto simp: add_group_user_entries)
    qed
    show "\<exists>x. find_user v grp' = Some x \<and> (us_client x = j \<or> user_persistent x)"
      if "find_client j (set_client ?c s) = Some e" "j \<notin> {i}" "(g, v) \<in> set (ce_group_users e)" for j e v
      using en [of j e v] that i by simp
    show "join_request_ok g req grp'" if r: "(j, t, req) \<in> set (sv_deferred (set_client ?c s))" for j t req
    proof (cases "find_group g s")
      case (Some grp)
      have "join_request_ok g req grp" using deferred_request_ok [OF d(5) Some] r by simp
      then show ?thesis using keep [OF Some] fu find_user_iff [OF groups_okD(4) [OF d(1) Some]]
        by (auto simp: join_request_ok_def split: AooRequest.splits)
    qed (use requests r in simp)
  qed
  then have "server_inv (set_group grp' (set_client ?c s))"
  proof (rule server_inv_restore)
    fix e assume "find_client i (set_group grp' (set_client ?c s)) = Some e"
    then have e: "e = ?c" using i by simp
    show "entries_ok i (set_group grp' (set_client ?c s)) e \<and> receiver_wf (ce_receiver e)"
      unfolding entries_ok_def e
    proof (intro conjI allI impI)
      show "receiver_wf (ce_receiver ?c)" using invD(6) [OF inv c(1)] by simp
    next
      fix h v grp assume m: "(h, v) \<in> set (ce_group_users ?c)" and f: "find_group h (set_group grp' (set_client ?c s)) = Some grp"
      consider "h = g" "v = us_id usr" | "h = g" "(g, v) \<in> set (ce_group_users c)" | "h \<noteq> g" "(h, v) \<in> set (ce_group_users c)"
        using m wd(1) by (auto simp: add_group_user_entries)
      then show "\<exists>x. find_user v grp = Some x \<and> (us_client x = i \<or> user_persistent x)"
      proof cases
        case 1
        then show ?thesis using f usr wd(1) fu by auto
      next
        case 2
        then show ?thesis using f en [OF c(1)] wd(1) by auto
      next
        case 3
        then show ?thesis using f d(4) [OF c(1)] wd(1) unfolding entries_ok_def by auto
      qed
    qed
  qed
  moreover have "set_client ?c (set_group grp' s) = set_group grp' (set_client ?c s)" by (simp add: set_client_def set_group_def)
  ultimately show ?thesis by simp
qed

definition join_ok :: "Server \<Rightarrow> AooRequestGroupJoin \<Rightarrow> bool" where
  "join_ok s j \<longleftrightarrow> rj_userId j = kAooIdInvalid \<or> (\<forall>grp. find_group (rj_groupId j) s = Some grp \<longrightarrow>
     (\<exists>usr. find_user (rj_userId j) grp = Some usr \<and> user_persistent usr))"

text \<open>The state after a successful request, but for what was sent.\<close>

lemma do_group_join_tables:
  assumes "join_group request response s = (Some (grp, created), s1)" and "join_user (ce_id c) request response created grp = (Some usr, grp')"
  shows "tables (snd (snd (do_group_join c token request response s))) = tables (set_client (add_group_user grp' usr c) (set_group grp' s1))"
  using assms by (simp add: do_group_join_def Let_def on_group_join_def)

lemma join_user_new:
  assumes "find_user (rj_userId request) grp = None" and "join_user i request response created grp = (r, grp')" and "0 \<le> i"
    and "gr_id grp = g" and "distinct (map us_id (gr_users grp))" and "distinct (map us_name (gr_users grp))" and "0 \<le> gr_next_user_id grp"
    and "\<And>v. v \<in> set (gr_users grp) \<Longrightarrow> 0 \<le> us_id v \<and> us_id v < gr_next_user_id grp \<and> us_group v = g \<and> (user_active v \<longleftrightarrow> \<not> user_persistent v)"
  shows "gr_name grp' = gr_name grp"
    and "r = None \<Longrightarrow> gr_users grp' = gr_users grp \<and> gr_users grp \<noteq> [] \<and> (group_wf g grp \<longrightarrow> group_wf g grp')"
    and "r = Some usr \<Longrightarrow> gr_users grp' = gr_users grp @ [usr] \<and> us_client usr = i \<and> group_wf g grp' \<and> us_name usr = rj_userName request"
proof -
  obtain u grp1 where u: "get_next_user_id grp = (u, grp1)" by (cases "get_next_user_id grp")
  note f = get_next_user_id_fresh [OF u _ assms(7)]
  have fr: "0 \<le> u" "u \<notin> us_id ` set (gr_users grp)" "u < gr_next_user_id grp1" "grp1 = grp\<lparr> gr_next_user_id := gr_next_user_id grp1 \<rparr>"
    "gr_next_user_id grp \<le> gr_next_user_id grp1" using f assms(8) by blast+
  have eq: "gr_users grp1 = gr_users grp" "gr_name grp1 = gr_name grp" "gr_id grp1 = g" "group_persistent grp1 = group_persistent grp"
    using arg_cong [OF fr(4), of gr_users] arg_cong [OF fr(4), of gr_name] arg_cong [OF fr(4), of gr_id] arg_cong [OF fr(4), of gr_flags] assms(4)
    by (simp_all add: group_persistent_def)
  let ?flags = "if created then kAooUserGroupCreator else 0"
  have fl: "?flags AND kAooUserPersistent = 0" by (simp add: server_flag_defs)
  define usr' where "usr' = user_new (rj_userName request) (case rj_userPwd request of Some p \<Rightarrow> p | None \<Rightarrow> []) u g i
    (if rp_userMetadata response \<noteq> None then rp_userMetadata response else rj_userMetadata request) (rj_relayAddress request) ?flags"
  have n: "us_id usr' = u" "us_name usr' = rj_userName request" "us_client usr' = i" "us_group usr' = g" "\<not> user_persistent usr'" "user_active usr'"
    using fl assms(3) by (simp_all add: usr'_def user_new_def user_persistent_def user_active_def kAooIdInvalid_def)
  have j: "(r, grp') = (if find_user_by_name (rj_userName request) grp = None then (Some usr', grp1\<lparr> gr_users := gr_users grp @ [usr'] \<rparr>) else (None, grp1))"
  proof -
    have "join_user i request response created grp = (let (added, g2) = add_user usr' grp1 in (if added then Some usr' else None, g2))"
      unfolding join_user_def usr'_def assms(1) u Let_def prod.case option.case eq(3) ..
    then show ?thesis using assms(2) n(2) eq(1) by (simp add: add_user_def find_user_by_name_def)
  qed
  have le: "v \<in> set (gr_users grp) \<Longrightarrow> us_id v < gr_next_user_id grp1" for v using assms(8) fr(5) by fastforce
  show "gr_name grp' = gr_name grp" using j eq(2) by (auto split: if_splits)
  show "gr_users grp' = gr_users grp \<and> gr_users grp \<noteq> [] \<and> (group_wf g grp \<longrightarrow> group_wf g grp')" if "r = None"
    using j that eq le fr(1,3) by (auto simp: find_user_by_name_def group_wf_def split: if_splits)
  show "gr_users grp' = gr_users grp @ [usr] \<and> us_client usr = i \<and> group_wf g grp' \<and> us_name usr = rj_userName request" if "r = Some usr"
  proof -
    have k: "usr = usr'" "grp' = grp1\<lparr> gr_users := gr_users grp @ [usr'] \<rparr>" "rj_userName request \<notin> us_name ` set (gr_users grp)"
      using j that by (auto simp: find_user_by_name_def find_None_key split: if_splits)
    have "group_wf g grp'" using eq n fr le assms(5,6,8) k(3) by (auto simp: group_wf_def k(2))
    then show ?thesis using n k by simp
  qed
qed

lemma inv_next_group_id:
  assumes "server_inv s"
  shows "server_inv (s\<lparr> sv_next_group_id := sv_next_group_id s + 1 \<rparr>)" (is "server_inv ?s")
proof -
  have f: "find_client i ?s = find_client i s" "find_group g ?s = find_group g s" for i g by (simp_all add: find_client_def find_group_def)
  note d = invD [OF assms]
  have "groups_ok ?s" using d(1) unfolding groups_ok_def f by (auto simp: order.strict_implies_order)
  moreover have "members_ok ?s" using d(2) unfolding members_ok_def f .
  moreover have "client_wf i ?s c \<and> entries_ok i ?s c \<and> receiver_wf (ce_receiver c)" if "find_client i s = Some c" for i c
    using d(3) [OF that] d(4,6) [OF that] by (auto simp: client_wf_def entries_ok_def f)
  moreover have "deferred_ok ?s x" if "x \<in> set (sv_deferred s)" for x
    using d(5) [OF that] by (auto simp: deferred_ok_def f split: prod.splits AooRequest.splits)
  ultimately show ?thesis using assms unfolding server_inv_but_def f by simp
qed

lemma join_old_inv:
  assumes inv: "server_inv s" and c: "find_client i s = Some c" "client_active c" and f: "find_group (rj_groupId request) s = Some grp"
    and ok: "join_ok s request"
  shows "server_inv (snd (snd (do_group_join c token request response s)))"
proof -
  let ?g = "rj_groupId request"
  note d = invD [OF inv] and cw = client_wfD [OF invD(3) [OF inv c(1)]]
  have w: "group_wf ?g grp" using groups_okD(4) [OF d(1) f] .
  note wd = group_wfD [OF w]
  have g: "0 \<le> ?g" "?g < sv_next_group_id s" using groups_okD(2,3) [OF d(1) f] by simp_all
  have jg: "join_group request response s = (Some (grp, False), s)" using f by (simp add: join_group_def)
  have nm: "gr_name grp' \<noteq> gr_name grp" if "find_group h s = Some grp'" "h \<noteq> ?g" for h grp'
    using groups_okD(6) [OF d(1) that(1) f] that(2) by auto
  obtain r grp' where ju: "join_user (ce_id c) request response False grp = (r, grp')" by (cases "join_user (ce_id c) request response False grp")
  show ?thesis
  proof (cases "find_user (rj_userId request) grp")
    case (Some usr)
    then have u: "usr \<in> set (gr_users grp)" "us_id usr = rj_userId request" using find_user_iff [OF w] by simp_all
    have "rj_userId request \<noteq> kAooIdInvalid" using wd(4) [OF u(1)] u(2) by (simp add: kAooIdInvalid_def)
    then have p: "user_persistent usr" using ok f Some by (auto simp: join_ok_def)
    have e: "r = Some usr" "grp' = grp" using ju Some by (auto simp: join_user_def)
    have "server_inv (set_client (add_group_user grp usr c) (set_group grp s))"
      by (rule inv_join [OF inv c g w u(1)]) (use f p nm in auto)
    then show ?thesis using do_group_join_tables [OF jg, of c] ju e server_inv_tables by metis
  next
    case None
    have i: "0 \<le> ce_id c" "ce_id c = i" using cw by simp_all
    note new = join_user_new [OF None ju i(1) wd(1,2,3,9)]
    show ?thesis
    proof (cases r)
      case None
      have "server_inv (set_group grp' s)"
        by (rule inv_change_group [OF inv f]) (use new(1) new(2) [OF _ None] w wd in auto)
      then show ?thesis using jg ju None by (simp add: do_group_join_def)
    next
      case (Some usr)
      have n: "gr_users grp' = gr_users grp @ [usr]" "us_client usr = i" "group_wf ?g grp'" using new(3) [OF _ Some] wd i by auto
      have m: "gr_name grp' = gr_name grp" using new(1) wd by auto
      have "server_inv (set_client (add_group_user grp' usr c) (set_group grp' s))"
        by (rule inv_join [OF inv c g n(3)]) (use n f nm m in auto)
      then show ?thesis using do_group_join_tables [OF jg, of c] ju Some server_inv_tables by metis
    qed
  qed
qed

lemma group_new_fields [simp]:
  "gr_name (group_new name pwd i md relay flags) = name" "gr_id (group_new name pwd i md relay flags) = i"
  "gr_users (group_new name pwd i md relay flags) = []" "gr_next_user_id (group_new name pwd i md relay flags) = 0"
  "gr_flags (group_new name pwd i md relay flags) = flags"
  by (simp_all add: group_new_def)

lemma set_group_added:
  "find_group g s = None \<Longrightarrow> gr_id grp = g \<Longrightarrow> gr_id grp' = g \<Longrightarrow>
   tables (set_group grp' (s\<lparr> sv_groups := sv_groups s @ [(g, grp)] \<rparr>)) = tables (set_group grp' s)"
proof -
  have "g \<notin> fst ` set al \<Longrightarrow> AList.update g x (al @ [(g, y)]) = AList.update g x al" for al x and y :: server_group
    by (induction al) auto
  then show "find_group g s = None \<Longrightarrow> gr_id grp = g \<Longrightarrow> gr_id grp' = g \<Longrightarrow> ?thesis"
    by (simp add: tables_def set_group_def find_group_def map_of_eq_None_iff)
qed

lemma join_new_inv:
  assumes inv: "server_inv s" and c: "find_client i s = Some c" "client_active c" and f: "find_group (rj_groupId request) s = None"
  shows "server_inv (snd (snd (do_group_join c token request response s)))"
proof -
  let ?g = "sv_next_group_id s" and ?s = "s\<lparr> sv_next_group_id := sv_next_group_id s + 1 \<rparr>"
  define grp where "grp = group_new (rj_groupName request) (case rj_groupPwd request of Some p \<Rightarrow> p | None \<Rightarrow> []) ?g
    (if rp_groupMetadata response \<noteq> None then rp_groupMetadata response else rj_groupMetadata request) (rp_relayAddress response) 0"
  note d = invD [OF inv] and cw = client_wfD [OF invD(3) [OF inv c(1)]]
  have s: "server_inv ?s" by (rule inv_next_group_id [OF inv])
  have fs: "find_client j ?s = find_client j s" "find_group h ?s = find_group h s" "find_group_by_name n ?s = find_group_by_name n s" for j h n
    by (simp_all add: find_client_def find_group_def find_group_by_name_def)
  have jg: "join_group request response s = (let (added, s) = add_group grp ?s in
      if added then (Some (grp, True), server_send_event (GroupAddEvent (gr_id grp) (gr_flags grp) (gr_name grp) (gr_md grp)) s) else (None, s))"
    unfolding join_group_def f get_next_group_id_def Let_def prod.case option.case grp_def ..
  have ng: "find_group ?g s = None" using groups_okD(3) [OF d(1), of ?g] by (cases "find_group ?g s") auto
  have gi: "gr_id grp = ?g" "gr_users grp = []" "gr_name grp = rj_groupName request" "gr_next_user_id grp = 0" by (simp_all add: grp_def)
  show ?thesis
  proof (cases "find_group_by_name (rj_groupName request) s")
    case (Some old)
    then have "join_group request response s = (None, ?s)" unfolding jg by (simp add: add_group_def gi fs)
    then show ?thesis using s by (simp add: do_group_join_def)
  next
    case None
    let ?s2 = "?s\<lparr> sv_groups := sv_groups ?s @ [(?g, grp)] \<rparr>"
    let ?s1 = "server_send_event (GroupAddEvent (gr_id grp) (gr_flags grp) (gr_name grp) (gr_md grp)) ?s2"
    have j: "join_group request response s = (Some (grp, True), ?s1)" unfolding jg by (simp add: add_group_def gi fs None ng)
    obtain r grp' where ju: "join_user (ce_id c) request response True grp = (r, grp')" by (cases "join_user (ce_id c) request response True grp")
    have i: "0 \<le> ce_id c" "ce_id c = i" using cw by simp_all
    have fu: "find_user (rj_userId request) grp = None" by (simp add: find_user_def gi)
    note new = join_user_new [OF fu ju i(1) gi(1)]
    obtain usr where r: "r = Some usr" using new(2) gi by (cases r) auto
    have n: "gr_users grp' = [usr]" "us_client usr = i" "group_wf ?g grp'" "gr_name grp' = rj_groupName request"
      using new(3) [OF _ _ _ _ r] new(1) gi i by auto
    have "server_inv (set_client (add_group_user grp' usr c) (set_group grp' ?s))"
    proof (rule inv_join [OF s _ c(2) _ _ n(3)])
      show "find_client i ?s = Some c" using c(1) fs by simp
      show "0 \<le> ?g" using inv by (simp add: server_inv_but_def)
      show "gr_name grp'' \<noteq> gr_name grp'" if "find_group h ?s = Some grp''" "h \<noteq> ?g" for h grp''
        using find_group_by_name_None [OF None] that fs n(4) by simp
      show "(?g, v) \<notin> set (ce_group_users e)" if "find_client j ?s = Some e" for j e v
        using client_wfD(6) [OF d(3)] that fs by fastforce
      show "join_request_ok ?g req grp'" if "(j, t, req) \<in> set (sv_deferred ?s)" for j t req
        using d(5) [of "(j, t, req)"] that by (auto simp: deferred_ok_def join_request_ok_def split: AooRequest.splits)
    qed (use n ng fs in auto)
    moreover have "tables (set_client (add_group_user grp' usr c) (set_group grp' ?s1)) = tables (set_client (add_group_user grp' usr c) (set_group grp' ?s))"
    proof (rule tables_set_client)
      have "tables (set_group grp' ?s1) = tables (set_group grp' ?s2)" by (rule tables_set_group) simp
      also have "\<dots> = tables (set_group grp' ?s)" using ng fs gi(1) group_wfD(1) [OF n(3)] by (intro set_group_added) simp_all
      finally show "tables (set_group grp' ?s1) = tables (set_group grp' ?s)" .
    qed
    moreover have "tables (snd (snd (do_group_join c token request response s))) = tables (set_client (add_group_user grp' usr c) (set_group grp' ?s1))"
      using do_group_join_tables [OF j] ju r by blast
    ultimately show ?thesis using server_inv_tables by (metis (no_types))
  qed
qed

lemma do_group_join_inv:
  "server_inv s \<Longrightarrow> find_client i s = Some c \<Longrightarrow> client_active c \<Longrightarrow> join_ok s request \<Longrightarrow>
   server_inv (snd (snd (do_group_join c token request response s)))"
  using join_old_inv join_new_inv by (cases "find_group (rj_groupId request) s") blast+

end
