(* ===== verification/Server_System.thy ===== *)
theory Server_System
  imports Server_Join
begin

text \<open>
  The server as a transition system: connections, data, timers and the calls of the application, in any order. Every state
  that can be reached has the invariant of the server.
\<close>

subsection \<open>Messages\<close>

definition join_request :: "join_args \<Rightarrow> int \<times> int \<Rightarrow> AooRequestGroupJoin" where
  "join_request args gu = \<lparr> rj_groupName = ja_group_name args, rj_groupPwd = non_empty (ja_group_pwd args), rj_groupId = fst gu,
     rj_groupMetadata = ja_group_md args, rj_userName = ja_user_name args, rj_userPwd = non_empty (ja_user_pwd args),
     rj_userId = snd gu, rj_userMetadata = ja_user_md args, rj_relayAddress = ja_relay args \<rparr>"

lemma handle_group_join_request:
  "check_join args s = Inr gu \<Longrightarrow> handle_group_join c args s =
     (case handle_request c (ja_token args) (RequestGroupJoin (join_request args gu)) s of (handled, s') \<Rightarrow>
        if handled then s' else snd (snd (do_group_join c (ja_token args) (join_request args gu) response_join_new s')))"
  by (cases gu) (simp add: handle_group_join_def join_request_def Let_def case_prod_beta)

text \<open>A request that has passed the checks names a group that exists or is to be created, and no active user.\<close>

lemma check_join_ok:
  assumes inv: "server_inv s" and ok: "check_join args s = Inr gu"
  shows "fst gu < sv_next_group_id s \<and> join_ok s (join_request args gu)"
proof (cases "find_group_by_name (ja_group_name args) s")
  case None
  then show ?thesis using ok inv by (auto simp: check_join_def join_request_def join_ok_def server_inv_but_def kAooIdInvalid_def split: if_splits)
next
  case (Some grp)
  note d = invD [OF inv]
  have f: "find_group (gr_id grp) s = Some grp" using find_group_by_nameD [OF d(1) Some] by blast
  have w: "group_wf (gr_id grp) grp" using groups_okD(4) [OF d(1) f] .
  have g: "fst gu = gr_id grp" using ok Some by (auto simp: check_join_def split: if_splits option.splits)
  have "join_ok s (join_request args gu)"
  proof (cases "find_user_by_name (ja_user_name args) grp")
    case None
    then show ?thesis using ok Some by (auto simp: check_join_def join_ok_def join_request_def split: if_splits)
  next
    case (Some usr)
    then have u: "usr \<in> set (gr_users grp)" by (auto simp: find_user_by_name_def find_Some_iff)
    have "snd gu = us_id usr" "\<not> user_active usr" using ok Some \<open>find_group_by_name (ja_group_name args) s = Some grp\<close>
      by (auto simp: check_join_def split: if_splits)
    moreover have "find_user (us_id usr) grp = Some usr" using find_user_iff [OF w] u by simp
    ultimately show ?thesis using group_wfD(7) [OF w u] f g by (auto simp: join_ok_def join_request_def)
  qed
  then show ?thesis using groups_okD(3) [OF d(1) f] g by simp
qed

lemma handle_group_join_inv:
  assumes "server_inv s" and "find_client i s = Some c" and "client_active c"
  shows "server_inv (handle_group_join c args s)"
proof (cases "check_join args s")
  case (Inr gu)
  note r = check_join_ok [OF assms(1) Inr] and cw = client_wfD [OF invD(3) [OF assms(1,2)]]
  have "deferred_ok s (ce_id c, ja_token args, RequestGroupJoin (join_request args gu))"
    using r cw assms(2,3) by (auto simp: deferred_ok_def join_ok_def join_request_def)
  from handle_request_then [OF assms(1) this] do_group_join_inv [OF assms conjunct2 [OF r]]
  show ?thesis by (simp add: handle_group_join_request [OF Inr])
qed (simp add: handle_group_join_def assms)

lemma tables_do_remove_set_client:
  "tables s1 = tables s \<Longrightarrow> tables (do_remove_user_from_group grp usr (set_client c s1)) = tables (set_client c (do_remove_user_from_group grp usr s))"
  using do_remove_tables [of grp usr s] unfolding do_remove_tables [of grp usr "set_client c s1"]
  by (auto simp: tables_def set_client_def set_group_def split: if_splits)

lemma leave_inv_tables:
  assumes "server_inv s" and "find_group g s = Some grp" and "find_user u grp = Some usr" and "user_active usr"
    and "find_client (us_client usr) s = Some c" and "tables s1 = tables s" and "tables s2 = tables (set_client (remove_group_user grp usr c) s1)"
  shows "server_inv (do_remove_user_from_group grp usr s2)"
proof -
  have "tables (do_remove_user_from_group grp usr s2) = tables (do_remove_user_from_group grp usr (set_client (remove_group_user grp usr c) s1))"
    unfolding do_remove_tables using assms(7) by (auto simp: tables_def set_group_def)
  also have "\<dots> = tables (set_client (remove_group_user grp usr c) (do_remove_user_from_group grp usr s))"
    by (rule tables_do_remove_set_client [OF assms(6)])
  finally show ?thesis using leave_inv [OF assms(1-3) refl assms(5,4)] server_inv_tables by blast
qed

lemma do_group_leave_inv:
  assumes "server_inv s" and "find_client i s = Some c"
  shows "server_inv (snd (do_group_leave c token g s))"
proof -
  note d = invD [OF assms(1)] and cw = client_wfD [OF invD(3) [OF assms]]
  have "server_inv (do_remove_user_from_group grp usr (on_group_leave grp usr False c (on_user_left_group grp usr s)))"
    if f: "find_group g s = Some grp" "find_user_by_client (ce_id c) grp = Some usr" for grp usr
  proof -
    have u: "usr \<in> set (gr_users grp)" "us_client usr = i" using f(2) cw(1) by (auto simp: find_user_by_client_def find_Some_iff)
    have "find_user (us_id usr) grp = Some usr" using find_user_iff [OF groups_okD(4) [OF d(1) f(1)]] u(1) by simp
    from leave_inv_tables [OF assms(1) f(1) this, of c "on_user_left_group grp usr s" "on_group_leave grp usr False c (on_user_left_group grp usr s)"]
    show ?thesis using u(2) cw(2) assms(2) by (simp add: user_active_def kAooIdInvalid_def on_group_leave_def)
  qed
  then show ?thesis using assms(1) by (auto simp: do_group_leave_def Let_def split: option.split)
qed

lemma handle_group_leave_inv:
  assumes "server_inv s" and "find_client i s = Some c"
  shows "server_inv (handle_group_leave c args s)"
proof -
  obtain token g where a: "args = (token, g)" by (cases args)
  have "deferred_ok s (ce_id c, token, RequestGroupLeave g)" using client_wfD [OF invD(3) [OF assms]] by (simp add: deferred_ok_def)
  from handle_request_then [OF assms(1) this] do_group_leave_inv [OF assms] show ?thesis by (simp add: handle_group_leave_def a)
qed

text \<open>Metadata.\<close>

lemma change_metadata_inv:
  assumes "server_inv s" and "find_group g s = Some grp"
  shows "server_inv (set_group (grp\<lparr> gr_md := md \<rparr>) s)"
    and "server_inv (set_group (grp\<lparr> gr_users := change_user u (\<lambda>u. u\<lparr> us_md := md \<rparr>) (gr_users grp) \<rparr>) s)"
proof -
  have w: "group_wf g grp" using groups_okD(4) [OF invD(1) [OF assms(1)] assms(2)] .
  note wd = group_wfD [OF w]
  show "server_inv (set_group (grp\<lparr> gr_md := md \<rparr>) s)"
    by (rule inv_change_group [OF assms]) (use w in \<open>auto simp: group_wf_def group_persistent_def\<close>)
  let ?grp = "grp\<lparr> gr_users := change_user u (\<lambda>u. u\<lparr> us_md := md \<rparr>) (gr_users grp) \<rparr>"
  have st: "set (gr_users ?grp) = (\<lambda>v. if us_id v = u then v\<lparr> us_md := md \<rparr> else v) ` set (gr_users grp)"
    using change_user_set [OF wd(2)] by simp
  have k: "change_user u h us = [] \<longleftrightarrow> us = []" for h us by (cases us) auto
  have "group_wf g ?grp" using w unfolding group_wf_def st
    by (auto simp: change_user_map k group_persistent_def user_active_def user_persistent_def)
  then show "server_inv (set_group ?grp s)"
  proof (rule inv_change_group [OF assms])
    fix v assume "v \<in> set (gr_users grp)"
    then have "(if us_id v = u then v\<lparr> us_md := md \<rparr> else v) \<in> set (gr_users ?grp)" unfolding st by blast
    then show "\<exists>w \<in> set (gr_users ?grp). us_id w = us_id v \<and> us_client w = us_client v \<and> user_persistent w = user_persistent v"
      by (rule rev_bexI) (simp add: user_persistent_def)
  qed (use st in auto)
qed

lemma do_update_inv:
  assumes "server_inv s"
  shows "server_inv (snd (do_group_update c token g md s))" and "server_inv (snd (do_user_update c token g u md s))"
  using change_metadata_inv [OF assms] assms
  by (auto simp: do_group_update_def do_user_update_def Let_def split: option.split)

lemma handle_update_inv:
  assumes "server_inv s" and "find_client i s = Some c"
  shows "server_inv (handle_group_update c args s)" and "server_inv (handle_user_update c args s)" and "server_inv (handle_custom_request c cargs s)"
proof -
  note cw = client_wfD [OF invD(3) [OF assms]]
  have ok: "deferred_ok s (ce_id c, token, RequestGroupUpdate g md)" "deferred_ok s (ce_id c, token, RequestUserUpdate g u md)"
    "deferred_ok s (ce_id c, token, RequestCustom md flags)" for token g u md flags using cw by (simp_all add: deferred_ok_def)
  obtain token g md where a: "args = (token, g, md)" by (cases args)
  show "server_inv (handle_group_update c args s)"
    using handle_request_then [OF assms(1) ok(1)] do_update_inv(1) [OF assms(1)] assms(1) by (simp add: handle_group_update_def a split: option.split)
  show "server_inv (handle_user_update c args s)"
    using handle_request_then [OF assms(1) ok(2)] do_update_inv(2) [OF assms(1)] assms(1) by (simp add: handle_user_update_def a split: option.split)
  obtain token' flags data where a': "cargs = (token', flags, data)" by (cases cargs)
  show "server_inv (handle_custom_request c cargs s)"
    using handle_request_then [OF assms(1) ok(3)] assms(1) by (simp add: handle_custom_request_def a')
qed

lemma handle_message_inv:
  assumes "server_inv s" and "find_client i s = Some c" and "handle_message c msg s = (e, s')"
  shows "server_inv s'"
proof -
  have p: "server_inv (handle_client_pong c s)"
    using client_wfD [OF invD(3) [OF assms(1,2)]] invD(6) [OF assms(1,2)] unfolding handle_client_pong_def
    by (intro inv_touch_client [OF assms(1,2)]) (simp_all add: client_active_def)
  show ?thesis
    using assms p handle_login_inv [OF assms(1,2)] handle_group_join_inv [OF assms(1,2)] handle_group_leave_inv [OF assms(1,2)] handle_update_inv [OF assms(1,2)]
    by (cases msg) (auto simp: handle_message_def with_args_def split: if_splits sum.splits)
qed

subsection \<open>Data and timers\<close>

lemma handle_stream_keeps:
  assumes keep: "\<And>m s e s'. I s \<Longrightarrow> h m s = (e, s') \<Longrightarrow> I s'" and "receiver_wf r" and "I s" and "handle_stream h data r s = Some (e, r', s')"
  shows "I s'"
  using assms(2-4)
proof (induction "length data" arbitrary: data r s rule: less_induct)
  case less
  consider "data = []" | "data \<noteq> []" "length (or_buffer r) < 4" | "data \<noteq> []" "\<not> length (or_buffer r) < 4" "length (or_buffer r) = 4 \<longrightarrow> hd data = 0x2F"
    | "data \<noteq> []" "\<not> length (or_buffer r) < 4" "length (or_buffer r) = 4" "hd data \<noteq> 0x2F" by blast
  then show ?case
  proof cases
    case 2
    obtain e1 r1 data1 where rs: "receive_size r data = (e1, r1, data1)" by (cases "receive_size r data")
    show ?thesis
    proof (cases e1)
      case None
      have "length data1 < length data" using receive_size_shorter [OF 2(2,1)] rs by simp
      moreover have "receiver_wf r1" using receive_size_wf [OF _ 2(2)] rs None by blast
      ultimately show ?thesis using less(1) less(3,4) handle_stream_size [OF 2, of h s] rs None by simp
    qed (use less(3,4) handle_stream_size [OF 2, of h s] rs in simp)
  next
    case 3
    have b: "0 < bytes_missing r" using less(2) 3(2) by (auto simp: receiver_wf_def bytes_missing_def)
    let ?m = "drop 4 (or_buffer r @ take (bytes_missing r) data)"
    obtain e1 s1 where m: "h ?m s = (e1, s1)" by (cases "h ?m s")
    have s1: "I s1" using keep [OF less(3) m] .
    show ?thesis
    proof (cases "bytes_missing r \<le> length data \<and> e1 = None")
      case True
      then have "handle_stream h (drop (bytes_missing r) data) receiver_reset s1 = Some (e, r', s')"
        using less(4) m by (simp add: handle_stream_data [OF 3 less(2)])
      moreover have "length (drop (bytes_missing r) data) < length data" using b 3(1) by simp
      ultimately show ?thesis using less(1) [OF _ receiver_reset_wf s1] by blast
    next
      case False
      then show ?thesis using less(3,4) m s1 by (auto simp: handle_stream_data [OF 3 less(2)] split: if_splits)
    qed
  next
    case 4
    then show ?thesis using less(3,4) by (subst (asm) handle_stream.simps) simp
  qed (use less(3,4) in simp)
qed

lemma handle_packet_inv: "server_inv s \<Longrightarrow> handle_packet parse i m s = (e, s') \<Longrightarrow> server_inv s'"
  using handle_message_inv by (auto simp: handle_packet_def split: option.splits)

lemma handle_client_data_inv:
  assumes "server_inv s"
  shows "\<exists>s'. handle_client_data parse i err data s = Some s' \<and> server_inv s'"
proof (cases "find_client i s = None \<or> data = []")
  case True
  then show ?thesis using assms remove_client_inv [OF assms] by (auto simp: handle_client_data_def split: option.split)
next
  case False
  then obtain c where c: "find_client i s = Some c" by (cases "find_client i s") auto
  note cw = client_wfD [OF invD(3) [OF assms c]]
  have r: "receiver_wf (ce_receiver c)" using invD(6) [OF assms c] by simp
  obtain e r1 s1 where h: "handle_stream (handle_packet parse i) data (ce_receiver c) s = Some (e, r1, s1)" "e = None \<longrightarrow> receiver_wf r1"
    using handle_stream_wf [OF r, of "handle_packet parse i" data s] by (elim exE conjE)
  have s1: "server_inv s1" using handle_stream_keeps [where I = server_inv, OF _ r assms h(1)] handle_packet_inv by blast
  let ?s = "case find_client i s1 of Some c \<Rightarrow> set_client (c\<lparr> ce_receiver := r1 \<rparr>) s1 | None \<Rightarrow> s1"
  have hd: "handle_data_of parse c data s = Some (e, ?s)" using h(1) cw(1) by (simp add: handle_data_of_def)
  have touch: "server_inv_but X ?s" if "e = None \<or> i \<in> X" for X
  proof (cases "find_client i s1")
    case (Some c1)
    have "server_inv_but X s1" using s1 by (rule server_inv_mono) simp
    then show ?thesis using Some that h(2) client_wfD(1) [OF invD(3) [OF s1 Some]]
      by (auto intro!: inv_touch_client simp: client_active_def)
  qed (use s1 server_inv_mono in auto)
  show ?thesis
  proof (cases e)
    case None
    then show ?thesis using touch [of "{}"] hd c False by (simp add: handle_client_data_def)
  next
    case (Some code)
    have "server_inv (snd (remove_client i code [] ?s))"
    proof (cases "find_client i s1")
      case None
      then show ?thesis using remove_client_inv [OF s1] by simp
    next
      case (Some c1)
      then have i: "ce_id c1 = i" using client_wfD(1) [OF invD(3) [OF s1 Some]] by simp
      have "entries_ok i ?s (c1\<lparr> ce_receiver := r1 \<rparr>)" using invD(4) [OF s1 Some] Some by (simp add: entries_ok_def)
      then show ?thesis using Some i touch [of "{i}"] by (intro remove_client_inv_but) (auto simp: i)
    qed
    then show ?thesis using Some hd c False by (simp add: handle_client_data_def)
  qed
qed

lemma client_update_inv:
  assumes "server_inv s" and "find_client i s = Some c"
  shows "server_inv (snd (client_update now settings c s))"
proof -
  obtain state ping wait timer where t: "timer_update now settings False (ce_ping_timer c) = ((state, ping, wait), timer)"
    by (metis prod.exhaust)
  let ?s = "if ping then send_message_to c ClientPing s else s"
  have k: "tables ?s = tables s" by simp
  have s: "server_inv ?s" "find_client i ?s = Some c" using assms by (simp_all add: tablesD [OF k])
  have "server_inv (set_client (c\<lparr> ce_ping_timer := timer \<rparr>) ?s)" "server_inv (set_client (c\<lparr> ce_ping_timer := timer, ce_active := False \<rparr>) ?s)"
    using client_wfD(1) [OF invD(3) [OF s]] invD(6) [OF s] by (intro inv_touch_client [OF s]; simp add: client_active_def)+
  then show ?thesis by (simp add: client_update_def t Let_def)
qed

lemma update_clients_inv: "server_inv s \<Longrightarrow> update_clients now settings is sleep s = (ts, sl, s') \<Longrightarrow> server_inv s'"
proof (induction now settings "is" sleep s arbitrary: ts sl s' rule: update_clients.induct)
  case (2 now settings i "is" sleep s)
  show ?case
  proof (cases "find_client i s")
    case (Some c)
    obtain timeout wait s1 where u: "client_update now settings c s = ((timeout, wait), s1)" by (metis prod.exhaust)
    have "server_inv s1" using client_update_inv [OF 2(3) Some, of now settings] u by simp
    then show ?thesis using 2(2) [OF Some u [symmetric] refl] 2(4) Some u by (auto simp: Let_def split: prod.splits)
  qed (use 2 in simp)
qed simp

lemma remove_timeouts_inv: "server_inv s \<Longrightarrow> server_inv (remove_timeouts is s)"
  by (induction "is" arbitrary: s) (simp_all add: remove_client_inv)

lemma run_round_inv:
  assumes "server_inv s"
  shows "server_inv (snd (run_round now s))"
proof -
  obtain ts sl s1 where u: "update_clients now (sv_ping_settings s) (map fst (sv_clients s)) 1000000000000 s = (ts, sl, s1)" by (metis prod.exhaust)
  have "server_inv (remove_timeouts ts s1)" using update_clients_inv [OF assms u] by (rule remove_timeouts_inv)
  moreover have "tables (s\<lparr> sv_message_queue := [] \<rparr>) = tables s" for s by (simp add: tables_def)
  ultimately have "server_inv ((remove_timeouts ts s1)\<lparr> sv_message_queue := [] \<rparr>)" using server_inv_tables by blast
  then show ?thesis by (simp add: run_round_def u Let_def)
qed

subsection \<open>The application\<close>

lemma handleRequest_inv:
  assumes "server_inv s" and "(i, t, req) \<in> set (sv_deferred s)" and "handleRequest i token (Some req) result response s = (e, r, s')"
  shows "server_inv s'"
proof (cases "find_client i s")
  case (Some c)
  note d = invD(5) [OF assms(1,2)]
  have j: "server_inv (snd (snd (do_group_join c token join rj s)))" if "req = RequestGroupJoin join" for join rj
    using do_group_join_inv [OF assms(1) Some] d that Some by (auto simp: deferred_ok_def join_ok_def)
  have l: "server_inv (snd (do_login c token version md rmd s))" if "req = RequestLogin version pwd md" for version pwd md rmd
    using do_login_inv [OF assms(1) Some] d that by (auto simp: deferred_ok_def)
  have ok: "do_login c token version md rmd s = (e', t') \<Longrightarrow> req = RequestLogin version pwd md \<Longrightarrow> server_inv t'"
    "do_group_join c token join rj s = (e', r', t') \<Longrightarrow> req = RequestGroupJoin join \<Longrightarrow> server_inv t'"
    "do_group_leave c token g s = (e', t') \<Longrightarrow> server_inv t'" "do_group_update c token g umd s = (e', t') \<Longrightarrow> server_inv t'"
    "do_user_update c token g u umd s = (e', t') \<Longrightarrow> server_inv t'"
    for version pwd md rmd e' t' join rj r' g u umd
    using l [of version pwd md rmd] j [of join rj] do_group_leave_inv [OF assms(1) Some, of token g] do_update_inv [OF assms(1), of c token g]
    by (auto, metis snd_conv, metis snd_conv)
  show ?thesis
  proof (cases "result = kAooOk")
    case True
    then show ?thesis using assms(1,3) Some ok
      by (cases req) (auto simp: handleRequest_def do_custom_request_def Let_def split: if_splits option.splits AooResponse.splits prod.splits)
  next
    case False
    then show ?thesis using assms(1,3) Some by (auto simp: handleRequest_def Let_def split: option.splits AooResponse.splits)
  qed
qed (use assms in \<open>simp add: handleRequest_def\<close>)

lemma accept_client_inv:
  assumes "server_inv s"
  shows "server_inv (snd (accept_client s))"
proof -
  let ?i = "sv_next_client_id s"
  have n: "find_client ?i s = None" using client_wfD(3) [OF invD(3) [OF assms]] by (cases "find_client ?i s") fastforce+
  let ?s = "s\<lparr> sv_next_client_id := ?i + 1, sv_clients := sv_clients s @ [(?i, client_new ?i)] \<rparr>"
  have s: "snd (accept_client s) = ?s" using n by (simp add: accept_client_def get_next_client_id_def find_client_def)
  note d = invD [OF assms]
  have f: "find_client j ?s = (if j = ?i then Some (client_new ?i) else find_client j s)" "find_group g ?s = find_group g s" for j g
    using n by (auto simp: find_client_def find_group_def map_add_def split: option.split)
  have "groups_ok ?s" using d(1) unfolding groups_ok_def f by simp
  moreover have "members_ok ?s" using d(2) n unfolding members_ok_def f by fastforce
  moreover have "client_wf j ?s c \<and> entries_ok j ?s c \<and> receiver_wf (ce_receiver c)" if "find_client j ?s = Some c" for j c
  proof (cases "j = ?i")
    case True
    then have "c = client_new ?i" using that f(1) [of ?i] by simp
    then show ?thesis using True assms by (simp add: client_new_def client_wf_def entries_ok_def server_inv_but_def)
  next
    case False
    then show ?thesis using that d(3,4,6) [of j c] by (auto simp: f client_wf_def entries_ok_def)
  qed
  moreover have "deferred_ok ?s x" if "x \<in> set (sv_deferred s)" for x
    using d(5) [OF that] by (auto simp: deferred_ok_def f split: prod.splits AooRequest.splits)
  ultimately show ?thesis using assms unfolding s server_inv_but_def by simp
qed

lemma update_absent: "k \<notin> fst ` set al \<Longrightarrow> AList.update k v al = al @ [(k, v)]"
  by (induction al) auto

lemma addGroup_inv:
  assumes "server_inv s"
  shows "server_inv (snd (addGroup md5 name pwd md relay s))"
proof -
  let ?g = "sv_next_group_id s" and ?s = "s\<lparr> sv_next_group_id := sv_next_group_id s + 1 \<rparr>"
  let ?grp = "group_new name (case pwd of Some p \<Rightarrow> encrypt md5 p | None \<Rightarrow> []) ?g md relay kAooGroupPersistent"
  have s: "server_inv ?s" by (rule inv_next_group_id [OF assms])
  note d = invD [OF assms]
  have ng: "find_group ?g s = None" using groups_okD(3) [OF d(1), of ?g] by (cases "find_group ?g s") auto
  have fs: "find_client j ?s = find_client j s" "find_group h ?s = find_group h s" "find_group_by_name n ?s = find_group_by_name n s" for j h n
    by (simp_all add: find_client_def find_group_def find_group_by_name_def)
  show ?thesis
  proof (cases "find_group_by_name name s")
    case None
    have "server_inv (set_group ?grp ?s)"
    proof (rule inv_put_group [OF s])
      show "0 \<le> ?g" using assms by (simp add: server_inv_but_def)
      show "group_wf ?g ?grp" by (simp add: group_wf_def group_persistent_def server_flag_defs)
      show "gr_name grp \<noteq> gr_name ?grp" if "find_group h ?s = Some grp" for h grp using find_group_by_name_None [OF None] that fs by simp
      show "\<exists>usr. find_user u ?grp = Some usr \<and> (us_client usr = i \<or> user_persistent usr)"
        if "find_client i ?s = Some c" "(?g, u) \<in> set (ce_group_users c)" for i c u
        using client_wfD(6) [OF d(3)] that fs by fastforce
      show "join_request_ok ?g req ?grp" if "(j, t, req) \<in> set (sv_deferred ?s)" for j t req
        using d(5) [of "(j, t, req)"] that by (auto simp: deferred_ok_def join_request_ok_def split: AooRequest.splits)
    qed simp_all
    moreover have "tables (?s\<lparr> sv_groups := sv_groups ?s @ [(?g, ?grp)] \<rparr>) = tables (set_group ?grp ?s)"
      using ng by (simp add: tables_def set_group_def find_group_def map_of_eq_None_iff update_absent)
    ultimately have "server_inv (?s\<lparr> sv_groups := sv_groups ?s @ [(?g, ?grp)] \<rparr>)" using server_inv_tables by blast
    then show ?thesis using None ng fs by (simp add: addGroup_def get_next_group_id_def add_group_def)
  next
    case (Some a)
    then show ?thesis using s fs by (simp add: addGroup_def get_next_group_id_def add_group_def)
  qed
qed

lemma removeUserFromGroup_inv:
  assumes "server_inv s"
  shows "server_inv (snd (removeUserFromGroup g u s))"
proof -
  note d = invD [OF assms]
  have "server_inv (do_remove_user_from_group grp usr (if user_active usr then
      on_user_left_group grp usr (case find_client (us_client usr) s of Some c \<Rightarrow> on_group_leave grp usr True c s | None \<Rightarrow> s) else s))"
    if f: "find_group g s = Some grp" "find_user u grp = Some usr" for grp usr
  proof -
    have w: "group_wf g grp" using groups_okD(4) [OF d(1) f(1)] .
    have usr: "usr \<in> set (gr_users grp)" "us_id usr = u" using f(2) find_user_iff [OF w] by simp_all
    show ?thesis
    proof (cases "user_active usr")
      case True
      then obtain c where c: "find_client (us_client usr) s = Some c" using d(2) f(1) usr(1) unfolding members_ok_def by blast
      show ?thesis using True c
        leave_inv_tables [OF assms f True c, of "send_message_to c (ClientGroupEject (gr_id grp)) s"
          "on_user_left_group grp usr (on_group_leave grp usr True c s)"]
        by (simp add: on_group_leave_def)
    next
      case False
      then have "user_persistent usr" using group_wfD(7) [OF w usr(1)] by simp
      then show ?thesis using do_remove_inv [OF assms f] False by simp
    qed
  qed
  note rem = this
  show ?thesis
  proof (cases "find_group g s")
    case (Some grp)
    then show ?thesis using rem [OF Some] assms by (cases "find_user u grp") (auto simp: removeUserFromGroup_def Let_def split: if_splits)
  qed (simp add: removeUserFromGroup_def assms)
qed

lemma addUserToGroup_inv:
  assumes "server_inv s"
  shows "server_inv (snd (addUserToGroup md5 g name pwd md s))"
proof (cases "find_group g s")
  case (Some grp)
  have w: "group_wf g grp" using groups_okD(4) [OF invD(1) [OF assms] Some] .
  note wd = group_wfD [OF w]
  obtain u grp1 where u: "get_next_user_id grp = (u, grp1)" by (cases "get_next_user_id grp")
  have fr: "0 \<le> u" "u \<notin> us_id ` set (gr_users grp)" "u < gr_next_user_id grp1" "grp1 = grp\<lparr> gr_next_user_id := gr_next_user_id grp1 \<rparr>"
    "gr_next_user_id grp \<le> gr_next_user_id grp1" using get_next_user_id_fresh [OF u _ wd(9)] wd(4,5) by blast+
  have eq: "gr_users grp1 = gr_users grp" "gr_name grp1 = gr_name grp" "gr_id grp1 = g" "group_persistent grp1 = group_persistent grp"
    using arg_cong [OF fr(4), of gr_users] arg_cong [OF fr(4), of gr_name] arg_cong [OF fr(4), of gr_id] arg_cong [OF fr(4), of gr_flags] wd(1)
    by (simp_all add: group_persistent_def)
  have le: "v \<in> set (gr_users grp) \<Longrightarrow> us_id v < gr_next_user_id grp1" for v using wd(5) fr(5) by fastforce
  let ?usr = "user_new name (case pwd of Some p \<Rightarrow> encrypt md5 p | None \<Rightarrow> []) u (gr_id grp1) kAooIdInvalid md None kAooUserPersistent"
  have n: "us_id ?usr = u" "us_name ?usr = name" "us_group ?usr = g" "user_persistent ?usr" "\<not> user_active ?usr"
    using eq(3) by (simp_all add: user_new_def user_persistent_def user_active_def server_flag_defs)
  obtain added grp2 where a: "add_user ?usr grp1 = (added, grp2)" by (cases "add_user ?usr grp1")
  have "server_inv (set_group grp2 s)"
  proof (cases added)
    case True
    then have k: "grp2 = grp1\<lparr> gr_users := gr_users grp @ [?usr] \<rparr>" "name \<notin> us_name ` set (gr_users grp)"
      using a n(2) eq(1) by (auto simp: add_user_def find_user_by_name_def find_None_key split: if_splits)
    have "group_wf g grp2" using w eq n fr le k(2) by (auto simp: group_wf_def k(1) group_persistent_def)
    then show ?thesis by (rule inv_change_group [OF assms Some]) (use n eq k(1) in auto)
  next
    case False
    then have k: "grp2 = grp1" using a by (auto simp: add_user_def split: if_splits)
    have "group_wf g grp2" using w eq fr(1,3) le by (auto simp: group_wf_def k)
    then show ?thesis by (rule inv_change_group [OF assms Some]) (use eq k in auto)
  qed
  then show ?thesis using Some u a by (simp add: addUserToGroup_def Let_def)
qed (simp add: addUserToGroup_def assms)

lemma groupControl_inv: "server_inv s \<Longrightarrow> server_inv (snd (groupControl g ctl s))"
  using change_metadata_inv
  by (cases ctl) (auto simp: groupControl_def update_group_def update_user_def Let_def split: option.split)

end
