(* ===== verification/Server_Knowledge.thy ===== *)
theory Server_Knowledge
  imports Server_System
begin

text \<open>
  What the clients know of each other: the peers that the messages of the server have announced to a client
  and not taken back. In all reachable states a member of a group knows exactly the other members.
\<close>

subsection \<open>Definitions\<close>

text \<open>The peers of a group that a client knows of: a reply to a request to join starts with none.\<close>

definition know_step :: "int \<Rightarrow> int \<Rightarrow> int set \<Rightarrow> int \<times> client_message \<Rightarrow> int set" where
  "know_step c g K m = (if fst m \<noteq> c then K else
     (case snd m of
        ReplyGroupJoin _ g' _ _ _ _ _ _ _ \<Rightarrow> if g' = g then {} else K
      | ClientPeerJoin _ g' _ u _ _ _ _ _ \<Rightarrow> if g' = g then insert u K else K
      | ClientPeerLeave g' u \<Rightarrow> if g' = g then K - {u} else K
      | _ \<Rightarrow> K))"

definition known :: "int \<Rightarrow> int \<Rightarrow> Server \<Rightarrow> int set" where
  "known c g s = foldl (know_step c g) {} (sv_sent s)"

definition membership :: "user \<Rightarrow> int \<times> int \<times> bool" where
  "membership u = (us_id u, us_client u, user_persistent u)"

definition members :: "int \<Rightarrow> Server \<Rightarrow> (int \<times> int \<times> bool) set" where
  "members g s = (case find_group g s of Some grp \<Rightarrow> membership ` set (gr_users grp) | None \<Rightarrow> {})"

definition no_persistent :: "Server \<Rightarrow> bool" where
  "no_persistent s \<longleftrightarrow> (\<forall>g u c p. (u, c, p) \<in> members g s \<longrightarrow> \<not> p)"

definition know_ok :: "Server \<Rightarrow> bool" where
  "know_ok s \<longleftrightarrow> (\<forall>g v c p. (v, c, p) \<in> members g s \<longrightarrow>
     known c g s \<subseteq> fst ` members g s \<and> (\<forall>u d q. (u, d, q) \<in> members g s \<longrightarrow> d \<noteq> c \<longrightarrow> u \<in> known c g s))"

definition knowledge :: "Server \<Rightarrow> bool" where
  "knowledge s \<longleftrightarrow> no_persistent s \<and> know_ok s"

lemma know_step_simps [simp]:
  "know_step c g K (i, ClientPeerLeave h u) = (if i = c \<and> h = g then K - {u} else K)"
  "know_step c g K (i, ClientPeerJoin gn h un u ver fl md rel addr) = (if i = c \<and> h = g then insert u K else K)"
  "know_step c g K (i, ReplyGroupJoin t h gf gmd uid uf umd pmd rel) = (if i = c \<and> h = g then {} else K)"
  by (simp_all add: know_step_def)

lemma fst_membership [simp]: "fst (membership u) = us_id u"
  by (simp add: membership_def)

subsection \<open>Operations that change neither\<close>

definition quiet :: "client_message \<Rightarrow> bool" where
  "quiet m \<longleftrightarrow> (\<forall>c g K. know_step c g K (c, m) = K)"

lemma quiet_messages [simp]:
  "quiet (ReplyLogin a y b e)" "quiet (ReplyGroupLeave a)" "quiet (ReplyGroupUpdate a e)" "quiet (ReplyUserUpdate a e)" "quiet (ReplyRequest a f e)"
  "quiet (ReplyError t a x b y)" "quiet ClientPing" "quiet ClientPong" "quiet (ClientMessage z)" "quiet (ClientGroupChanged a b e)"
  "quiet (ClientUserChanged a b e)" "quiet (ClientPeerChanged a b e)" "quiet (ClientGroupEject a)"
  by (simp_all add: quiet_def know_step_def)

text \<open>The two states are alike up to what the knowledge does not depend on.\<close>

definition alike :: "Server \<Rightarrow> Server \<Rightarrow> bool" where
  "alike s s' \<longleftrightarrow> (\<forall>g. members g s' = members g s \<or> members g s' = {}) \<and> (\<forall>c g. known c g s' = known c g s)"

lemma alikeI: "(\<And>g. members g s' = members g s \<or> members g s' = {}) \<Longrightarrow> sv_sent s' = sv_sent s \<Longrightarrow> alike s s'"
  by (simp add: alike_def known_def)

lemma alike_refl [simp]: "alike s s"
  by (simp add: alike_def)

lemma alike_trans [trans]: "alike s t \<Longrightarrow> alike t u \<Longrightarrow> alike s u"
  unfolding alike_def by metis

lemma alike_knowledge: "alike s s' \<Longrightarrow> knowledge s \<Longrightarrow> knowledge s'"
  unfolding alike_def knowledge_def no_persistent_def know_ok_def by (metis empty_iff)

lemma members_cong: "(\<And>g. find_group g s' = find_group g s) \<Longrightarrow> members g s' = members g s"
  by (simp add: members_def)

lemma alike_send: "quiet m \<Longrightarrow> alike s (send_message_to c m s)"
proof -
  assume q: "quiet m"
  have "know_step c' g K (ce_id c, m) = K" for c' g K using q by (cases "c' = ce_id c") (auto simp: quiet_def know_step_def)
  then show ?thesis by (auto simp: alike_def known_def send_message_to_def intro!: members_cong) (simp add: find_group_def)
qed

lemma alike_event: "alike s (server_send_event e s)"
  by (rule alikeI) (auto simp: server_send_event_def intro!: members_cong split: AooEventMode.split, simp_all add: find_group_def)

lemma alike_error: "alike s (send_error c token type result response s)"
  by (auto simp: send_error_def error_message_def alike_send split: option.split)

lemma alike_set_client: "alike s (set_client c s)"
  by (rule alikeI) (auto simp: set_client_def intro!: members_cong, simp_all add: find_group_def)

lemma alike_send_to_users: "(\<And>u m. f u = Some m \<Longrightarrow> quiet m) \<Longrightarrow> alike s (send_to_users f us s)"
proof (induction us arbitrary: s)
  case (Cons u us)
  let ?t = "case (f u, find_client (us_client u) s) of (Some msg, Some c) \<Rightarrow> send_message_to c msg s | _ \<Rightarrow> s"
  have "alike s ?t" using Cons.prems by (auto intro!: alike_send split: option.split)
  also have "alike ?t (send_to_users f us ?t)" using Cons by blast
  finally show ?case by simp
qed simp

lemma alike_request: "alike s (snd (handle_request c token req s))"
  by (auto simp: handle_request_def split: option.split intro!: alikeI members_cong) (simp_all add: find_group_def)

lemma alike_set_group:
  assumes "find_group (gr_id grp') s = Some grp" and "membership ` set (gr_users grp') = membership ` set (gr_users grp)"
  shows "alike s (set_group grp' s)"
  by (rule alikeI) (use assms in \<open>auto simp: members_def set_group_def find_group_def map_of_update\<close>)

subsection \<open>Leaving\<close>

definition users_found :: "server_group \<Rightarrow> Server \<Rightarrow> bool" where
  "users_found grp s \<longleftrightarrow> (\<forall>p \<in> set (gr_users grp). user_active p \<and> (\<exists>c. find_client (us_client p) s = Some c \<and> ce_id c = us_client p))"

lemma users_foundI:
  assumes "server_inv_but X s" and "no_persistent s" and "find_group g s = Some grp"
  shows "users_found grp s"
  unfolding users_found_def
proof
  fix p assume p: "p \<in> set (gr_users grp)"
  then have "membership p \<in> members g s" using assms(3) by (simp add: members_def)
  then have "\<not> user_persistent p" using assms(2) unfolding no_persistent_def membership_def by blast
  then have a: "user_active p" using group_wfD(7) [OF groups_okD(4) [OF invD(1) [OF assms(1)] assms(3)] p] by simp
  then obtain c where "find_client (us_client p) s = Some c" using invD(2) [OF assms(1)] assms(3) p unfolding members_ok_def by blast
  then show "user_active p \<and> (\<exists>c. find_client (us_client p) s = Some c \<and> ce_id c = us_client p)"
    using a client_wfD(1) [OF invD(3) [OF assms(1)]] by blast
qed

lemma known_send: "known c g (send_message_to c' m s) = know_step c g (known c g s) (ce_id c', m)"
  by (simp add: known_def send_message_to_def)

lemma known_event [simp]: "known c g (server_send_event e s) = known c g s"
  using alike_event [of s e] by (simp add: alike_def)

lemma known_peer_leave:
  assumes "\<forall>p \<in> set us. us_id p \<noteq> us_id usr \<longrightarrow> (\<exists>c. find_client (us_client p) s = Some c \<and> ce_id c = us_client p)"
  shows "known c g (send_to_users (\<lambda>p. if us_id p \<noteq> us_id usr then Some (peer_leave_message grp usr) else None) us s) =
    (if g = gr_id grp \<and> (\<exists>p \<in> set us. us_id p \<noteq> us_id usr \<and> us_client p = c) then known c g s - {us_id usr} else known c g s)"
  using assms
proof (induction us arbitrary: s)
  case (Cons p us)
  let ?f = "\<lambda>p. if us_id p \<noteq> us_id usr then Some (peer_leave_message grp usr) else None"
  let ?t = "case (?f p, find_client (us_client p) s) of (Some msg, Some c) \<Rightarrow> send_message_to c msg s | _ \<Rightarrow> s"
  have t: "tables ?t = tables s" by (auto split: option.split)
  have "\<forall>p \<in> set us. us_id p \<noteq> us_id usr \<longrightarrow> (\<exists>c. find_client (us_client p) ?t = Some c \<and> ce_id c = us_client p)"
    unfolding tablesD(1) [OF t] using Cons.prems by simp
  moreover have "known c g ?t = (if g = gr_id grp \<and> us_id p \<noteq> us_id usr \<and> us_client p = c then known c g s - {us_id usr} else known c g s)"
    using Cons.prems by (auto simp: known_send peer_leave_message_def)
  ultimately show ?case using Cons.IH [of ?t] by auto
qed simp

lemma known_left:
  assumes "users_found grp s"
  shows "known c g (on_user_left_group grp usr s) =
    (if g = gr_id grp \<and> (\<exists>p \<in> set (gr_users grp). us_id p \<noteq> us_id usr \<and> us_client p = c) then known c g s - {us_id usr} else known c g s)"
  using known_peer_leave [of "gr_users grp" usr s] assms by (simp add: on_user_left_group_def users_found_def)

lemma sv_sent_do_remove:
  "find_group (gr_id grp) s \<noteq> None \<Longrightarrow> sv_sent (do_remove_user_from_group grp usr s) = sv_sent s"
  by (auto simp: do_remove_user_from_group_def Let_def set_group_def remove_group_def find_group_def map_of_update server_send_event_def
      split: AooEventMode.split option.split)

lemma leave_knowledge:
  assumes w: "group_wf g grp" and f: "find_group g s2 = Some grp" and usr: "find_user u grp = Some usr" and found: "users_found grp s1"
    and k: "knowledge s" and mem: "\<And>h. members h s2 = members h s" "members g s = membership ` set (gr_users grp)"
    and kn: "\<And>c h. known c h s2 = known c h (on_user_left_group grp usr s1)" "\<And>c h. known c h s1 = known c h s"
  shows "knowledge (do_remove_user_from_group grp usr s2)" (is "knowledge ?s")
proof -
  note wd = group_wfD [OF w]
  have u: "usr \<in> set (gr_users grp)" "us_id usr = u" using usr find_user_iff [OF w] by simp_all
  have np: "\<not> user_persistent usr" using k u(1) mem(2) unfolding knowledge_def no_persistent_def membership_def by blast
  have "members h ?s = (if h = g then {x \<in> members g s. fst x \<noteq> u} else members h s)" for h
  proof (cases "h = g")
    case True
    have "membership ` set (erase_user u (gr_users grp)) = {x \<in> membership ` set (gr_users grp). fst x \<noteq> u}"
      by (simp only: erase_user_set [OF wd(2)] Compr_image_eq fst_membership)
    moreover have "members g ?s = membership ` set (erase_user u (gr_users grp))"
      using np find_group_do_remove [OF w f usr, of g] by (auto simp: members_def)
    ultimately show ?thesis using True mem(2) by simp
  next
    case False
    then show ?thesis using find_group_do_remove [OF w f usr, of h] mem(1) [of h] by (simp add: members_def)
  qed
  note m = this
  have kn': "known c h ?s = (if h = g \<and> (\<exists>p \<in> set (gr_users grp). us_id p \<noteq> u \<and> us_client p = c) then known c h s - {u} else known c h s)" for c h
  proof -
    have "known c h ?s = known c h s2" using sv_sent_do_remove [of grp s2 usr] f wd(1) by (simp add: known_def)
    then show ?thesis by (simp only: kn known_left [OF found] wd(1) u(2))
  qed
  have "known c h ?s \<subseteq> fst ` members h ?s \<and> (\<forall>x d q. (x, d, q) \<in> members h ?s \<longrightarrow> d \<noteq> c \<longrightarrow> x \<in> known c h ?s)"
    if v: "(v, c, p) \<in> members h ?s" for v c p h
  proof -
    have v': "(v, c, p) \<in> members h s" "h = g \<longrightarrow> v \<noteq> u" using v m by (auto split: if_splits)
    have ko: "known c h s \<subseteq> fst ` members h s" "\<And>x d q. (x, d, q) \<in> members h s \<Longrightarrow> d \<noteq> c \<Longrightarrow> x \<in> known c h s"
      using k v'(1) unfolding knowledge_def know_ok_def by blast+
    show ?thesis
    proof (cases "h = g")
      case True
      then have "\<exists>p \<in> set (gr_users grp). us_id p \<noteq> u \<and> us_client p = c" using v' mem(2) by (auto simp: membership_def)
      then show ?thesis using True ko unfolding kn' m by force
    qed (use ko kn' m in auto)
  qed
  moreover have "no_persistent ?s" using k unfolding knowledge_def no_persistent_def m by (metis (mono_tags, lifting) mem_Collect_eq)
  ultimately show ?thesis unfolding knowledge_def know_ok_def by blast
qed

subsection \<open>Joining\<close>

lemma known_introduce:
  assumes "\<forall>p \<in> set us. us_id p \<noteq> us_id usr \<longrightarrow> user_active p \<and> (\<exists>c. find_client (us_client p) s = Some c \<and> ce_id c = us_client p)"
  shows "known c g (introduce_peers grp usr client us s) =
    (if g = gr_id grp then known c g s \<union> (if c = ce_id client then {us_id p | p. p \<in> set us \<and> us_id p \<noteq> us_id usr} else {}) \<union>
       (if \<exists>p \<in> set us. us_id p \<noteq> us_id usr \<and> us_client p = c then {us_id usr} else {}) else known c g s)"
  using assms
proof (induction us arbitrary: s)
  case (Cons p us)
  let ?t = "if us_id p \<noteq> us_id usr \<and> user_active p then
      case find_client (us_client p) s of
        Some other \<Rightarrow> send_message_to other (peer_join_message grp usr client) (send_message_to client (peer_join_message grp p other) s)
      | None \<Rightarrow> s
    else s"
  have t: "tables ?t = tables s" by (auto split: option.split)
  have "\<forall>p \<in> set us. us_id p \<noteq> us_id usr \<longrightarrow> user_active p \<and> (\<exists>c. find_client (us_client p) ?t = Some c \<and> ce_id c = us_client p)"
    unfolding tablesD(1) [OF t] using Cons.prems by simp
  note ih = Cons.IH [OF this]
  show ?case
  proof (cases "us_id p = us_id usr")
    case True
    then show ?thesis using ih by auto
  next
    case False
    then obtain other where o: "user_active p" "find_client (us_client p) s = Some other" "ce_id other = us_client p" using Cons.prems by auto
    have "known c g ?t = (if g = gr_id grp then known c g s \<union> (if c = ce_id client then {us_id p} else {}) \<union> (if us_client p = c then {us_id usr} else {})
        else known c g s)"
      using False o by (auto simp: known_send peer_join_message_def Let_def)
    then show ?thesis using ih False o by (auto split: if_splits)
  qed
qed simp

lemma join_knowledge:
  assumes k: "knowledge s" and w: "group_wf g grp'" and usr: "usr \<in> set (gr_users grp')" "us_client usr = i" "\<not> user_persistent usr"
    and i: "ce_id client = i" and fresh: "us_id usr \<notin> fst ` members g s"
    and mem: "\<And>h. members h s2 = (if h = g then insert (membership usr) (members g s) else members h s)" "members g s2 = membership ` set (gr_users grp')"
    and kn: "\<And>c h. known c h s2 = (if c = i \<and> h = g then {} else known c h s)" and found: "users_found grp' s2"
  shows "knowledge (on_user_joined_group grp' usr client s2)" (is "knowledge ?s")
proof -
  have gi: "gr_id grp' = g" using group_wfD(1) [OF w] .
  have m: "members h ?s = members h s2" for h by (rule members_cong) (rule tablesD(2), simp)
  have peers: "{us_id p | p. p \<in> set (gr_users grp') \<and> us_id p \<noteq> us_id usr} = fst ` members g s"
  proof -
    have "{us_id p | p. p \<in> set (gr_users grp') \<and> us_id p \<noteq> us_id usr} = fst ` members g s2 - {us_id usr}" unfolding mem(2) image_image fst_membership by auto
    then show ?thesis unfolding mem(1) using fresh by simp
  qed
  have oth: "(\<exists>p \<in> set (gr_users grp'). us_id p \<noteq> us_id usr \<and> us_client p = c) \<longleftrightarrow> (\<exists>v q. (v, c, q) \<in> members g s)" for c
  proof -
    have "(\<exists>p \<in> set (gr_users grp'). us_id p \<noteq> us_id usr \<and> us_client p = c) \<longleftrightarrow> (\<exists>v q. (v, c, q) \<in> members g s2 \<and> v \<noteq> us_id usr)"
      unfolding mem(2) by (auto simp: membership_def image_iff)
    also have "\<dots> \<longleftrightarrow> (\<exists>v q. (v, c, q) \<in> members g s)" unfolding mem(1) using fresh by (auto simp: membership_def image_iff) force
    finally show ?thesis .
  qed
  have kn': "known c h ?s = (if h = g then (if c = i then {} else known c h s) \<union> (if c = i then fst ` members g s else {}) \<union>
      (if \<exists>v q. (v, c, q) \<in> members g s then {us_id usr} else {}) else known c h s)" for c h
  proof -
    have f: "\<forall>p \<in> set (gr_users grp'). us_id p \<noteq> us_id usr \<longrightarrow> user_active p \<and> (\<exists>c. find_client (us_client p) s2 = Some c \<and> ce_id c = us_client p)"
      using found by (simp add: users_found_def)
    have "known c h ?s = known c h (introduce_peers grp' usr client (gr_users grp') s2)" by (simp add: on_user_joined_group_def)
    then show ?thesis unfolding known_introduce [OF f] kn gi i peers oth by auto
  qed
  have "known c h ?s \<subseteq> fst ` members h ?s \<and> (\<forall>x d q. (x, d, q) \<in> members h ?s \<longrightarrow> d \<noteq> c \<longrightarrow> x \<in> known c h ?s)"
    if v: "(v, c, p) \<in> members h ?s" for v c p h
  proof (cases "h = g")
    case True
    show ?thesis
    proof (cases "c = i")
      case True
      then show ?thesis using \<open>h = g\<close> usr(2) unfolding kn' m mem(1) by (auto simp: membership_def image_iff) force+
    next
      case False
      then have v': "(v, c, p) \<in> members g s" using v True usr(2) unfolding m mem(1) by (auto simp: membership_def)
      then have "known c g s \<subseteq> fst ` members g s" "\<And>x d q. (x, d, q) \<in> members g s \<Longrightarrow> d \<noteq> c \<Longrightarrow> x \<in> known c g s"
        using k unfolding knowledge_def know_ok_def by blast+
      then show ?thesis using True False v' unfolding kn' m mem(1) by (auto simp: membership_def)
    qed
  next
    case False
    then have "(v, c, p) \<in> members h s" using v unfolding m mem(1) by simp
    then have "known c h s \<subseteq> fst ` members h s" "\<And>x d q. (x, d, q) \<in> members h s \<Longrightarrow> d \<noteq> c \<Longrightarrow> x \<in> known c h s"
      using k unfolding knowledge_def know_ok_def by blast+
    then show ?thesis using False unfolding kn' m mem(1) by auto
  qed
  moreover have "no_persistent ?s" using k usr(3) unfolding knowledge_def no_persistent_def m mem(1) by (auto simp: membership_def split: if_splits)
  ultimately show ?thesis unfolding knowledge_def know_ok_def by blast
qed

end
