(* ===== verification/Server_Peers.thy ===== *)
theory Server_Peers
  imports Server_Knowledge
begin

text \<open>
  Every operation of the server keeps the knowledge of its clients.
\<close>

subsection \<open>Clients and groups that leave\<close>

lemma alike_on_group_leave: "alike s (on_group_leave grp usr eject c s)"
proof -
  have "alike s (if eject then send_message_to c (ClientGroupEject (gr_id grp)) s else s)" by (simp add: alike_send)
  also have "alike \<dots> (set_client (remove_group_user grp usr c) \<dots>)" by (rule alike_set_client)
  finally show ?thesis by (simp add: on_group_leave_def)
qed

lemma alike_eject_users: "alike s (eject_users grp us s)"
proof (induction us arbitrary: s)
  case (Cons usr us)
  let ?t = "case find_client (us_client usr) s of Some c \<Rightarrow> on_group_leave grp usr True c s | None \<Rightarrow> s"
  have "alike s ?t" by (simp add: alike_on_group_leave split: option.split)
  also have "alike ?t (eject_users grp us ?t)" by (rule Cons.IH)
  finally show ?case by simp
qed simp

lemma alike_remove_group: "alike s (snd (remove_group g s))"
proof (cases "find_group g s")
  case (Some grp)
  let ?t = "eject_users grp (gr_users grp) s"
  have "alike s ?t" by (rule alike_eject_users)
  also have "alike ?t (?t\<lparr> sv_groups := AList.delete g (sv_groups ?t) \<rparr>)"
    by (rule alikeI) (auto simp: members_def find_group_def map_of_delete_key)
  finally show ?thesis using Some by (simp add: remove_group_def Let_def)
qed (simp add: remove_group_def)

lemma members_group: "find_group g s = Some grp \<Longrightarrow> members g s = membership ` set (gr_users grp)"
  by (simp add: members_def)

lemma members_tables: "tables s' = tables s \<Longrightarrow> members g s' = members g s"
  by (rule members_cong) (rule tablesD)

lemma leave_now:
  assumes "server_inv_but X s" and "knowledge s" and "find_group g s = Some grp" and "find_user u grp = Some usr"
    and "tables s2 = tables (set_client c (on_user_left_group grp usr s)) \<or> tables s2 = tables (on_user_left_group grp usr s)"
    and "\<And>c h. known c h s2 = known c h (on_user_left_group grp usr s)"
  shows "knowledge (do_remove_user_from_group grp usr s2)"
proof (rule leave_knowledge [where s = s and ?s1.0 = s])
  let ?t = "on_user_left_group grp usr s"
  have f: "find_group h s2 = find_group h s" for h
    using assms(5) tablesD(2) [of s2 "set_client c ?t" h] tablesD(2) [of s2 ?t h] tablesD(2) [of ?t s h] by auto
  show "find_group g s2 = Some grp" using f assms(3) by simp
  show "members h s2 = members h s" for h using f by (rule members_cong)
  show "group_wf g grp" using groups_okD(4) [OF invD(1) [OF assms(1)] assms(3)] .
  show "users_found grp s" using users_foundI [OF assms(1) _ assms(3)] assms(2) by (simp add: knowledge_def)
qed (use assms in \<open>simp_all add: members_group\<close>)

lemma leave_groups_knowledge:
  "server_inv_but {i} s \<Longrightarrow> entries_left i gus s \<Longrightarrow> knowledge s \<Longrightarrow> knowledge (leave_groups gus s)"
proof (induction gus s rule: leave_groups.induct)
  case (2 g u gus s)
  show ?case
  proof (cases "find_group g s")
    case None
    then have "entries_left i gus s" using 2(3) unfolding entries_left_def by (auto dest: spec) (metis option.distinct(1))
    then show ?thesis using None 2 by simp
  next
    case (Some grp)
    then obtain usr where usr: "find_user u grp = Some usr" using 2(3) unfolding entries_left_def by (metis list.set_intros(1))
    let ?s = "on_user_left_group grp usr s"
    have c: "tables ?s = tables s" by simp
    have "entries_left i ((g, u) # gus) ?s" "find_group g ?s = Some grp" using 2(3) Some by (simp_all add: entries_left_def tablesD [OF c])
    from leave_groups_step [OF _ this usr] have "server_inv_but {i} (do_remove_user_from_group grp usr ?s)" "entries_left i gus (do_remove_user_from_group grp usr ?s)"
      using 2(2) by simp_all
    moreover have "knowledge (do_remove_user_from_group grp usr ?s)" by (rule leave_now [OF 2(2,4) Some usr]) simp_all
    ultimately show ?thesis using 2(1) Some usr by simp
  qed
qed simp

lemma remove_client_knowledge:
  assumes inv: "server_inv_but {i} s" and en: "\<And>c. find_client i s = Some c \<Longrightarrow> entries_ok i s c" and k: "knowledge s"
  shows "knowledge (snd (remove_client i err msg s))"
proof (cases "find_client i s")
  case (Some c)
  note d = invD [OF inv]
  have "entries_left i (ce_group_users c) s"
    using d(2) en [OF Some] client_wfD(4) [OF d(3) [OF Some]] Some unfolding entries_left_def members_ok_def entries_ok_def by fastforce
  from leave_groups_knowledge [OF inv this k] have l: "knowledge (leave_groups (ce_group_users c) s)" .
  let ?t = "if client_active c then server_send_event (ClientLogoutEvent i err msg) (leave_groups (ce_group_users c) s) else leave_groups (ce_group_users c) s"
  have "alike (leave_groups (ce_group_users c) s) ?t" by (simp add: alike_event)
  also have "alike ?t (?t\<lparr> sv_clients := AList.delete i (sv_clients ?t) \<rparr>)"
    by (rule alikeI) (auto intro!: members_cong simp: find_group_def)
  finally have "knowledge (?t\<lparr> sv_clients := AList.delete i (sv_clients ?t) \<rparr>)" using alike_knowledge l by blast
  then show ?thesis using Some
    by (cases "client_active c") (simp_all add: remove_client_def on_close_def Let_def, simp_all add: client_active_def)
qed (simp add: remove_client_def k)

lemma do_group_leave_knowledge:
  assumes "server_inv s" and "knowledge s" and "find_client i s = Some c"
  shows "knowledge (snd (do_group_leave c token g s))"
proof -
  have "knowledge (do_remove_user_from_group grp usr (on_group_leave grp usr False c (on_user_left_group grp usr s)))"
    if f: "find_group g s = Some grp" "find_user_by_client (ce_id c) grp = Some usr" for grp usr
  proof -
    have "usr \<in> set (gr_users grp)" using f(2) by (auto simp: find_user_by_client_def find_Some_iff)
    then have u: "find_user (us_id usr) grp = Some usr" using find_user_iff [OF groups_okD(4) [OF invD(1) [OF assms(1)] f(1)]] by simp
    show ?thesis using alike_on_group_leave [of "on_user_left_group grp usr s" grp usr False c]
      by (intro leave_now [OF assms(1,2) f(1) u, of _ "remove_group_user grp usr c"]) (simp_all add: on_group_leave_def alike_def)
  qed
  then show ?thesis using assms(2) alike_send [THEN alike_knowledge] alike_error [THEN alike_knowledge]
    by (simp add: do_group_leave_def Let_def split: option.split)
qed

lemma removeUserFromGroup_knowledge:
  assumes inv: "server_inv s" and k: "knowledge s"
  shows "knowledge (snd (removeUserFromGroup g u s))"
proof -
  have "knowledge (do_remove_user_from_group grp usr (if user_active usr then
      on_user_left_group grp usr (case find_client (us_client usr) s of Some c \<Rightarrow> on_group_leave grp usr True c s | None \<Rightarrow> s) else s))"
    if f: "find_group g s = Some grp" "find_user u grp = Some usr" for grp usr
  proof -
    have w: "group_wf g grp" using groups_okD(4) [OF invD(1) [OF inv] f(1)] .
    have fo: "users_found grp s" using users_foundI [OF inv _ f(1)] k by (simp add: knowledge_def)
    have "usr \<in> set (gr_users grp)" using f(2) find_user_iff [OF w] by simp
    then obtain c where a: "user_active usr" "find_client (us_client usr) s = Some c" "ce_id c = us_client usr" using fo unfolding users_found_def by blast
    let ?s1 = "on_group_leave grp usr True c s"
    have sm: "alike s ?s1" by (rule alike_on_group_leave)
    have cl: "find_client j ?s1 = (if j = ce_id c then Some (remove_group_user grp usr c) else find_client j s)" "find_group h ?s1 = find_group h s" for j h
      by (simp_all add: on_group_leave_def remove_group_user_def) (simp_all add: send_message_to_def find_client_def find_group_def)
    have c2: "tables (on_user_left_group grp usr ?s1) = tables ?s1" by simp
    have "knowledge (do_remove_user_from_group grp usr (on_user_left_group grp usr ?s1))"
    proof (rule leave_knowledge [OF w _ f(2) _ k])
      show "find_group g (on_user_left_group grp usr ?s1) = Some grp" using f(1) cl(2) tablesD(2) [OF c2] by simp
      show "users_found grp ?s1" using fo unfolding users_found_def cl by (auto simp: remove_group_user_def)
      show "members h (on_user_left_group grp usr ?s1) = members h s" for h using cl(2) tablesD(2) [OF c2] by (simp add: members_def)
      show "known c h ?s1 = known c h s" for c h using sm by (simp add: alike_def)
    qed (use f(1) in \<open>simp_all add: members_group\<close>)
    then show ?thesis using a by simp
  qed
  note rem = this
  show ?thesis
  proof (cases "find_group g s")
    case (Some grp)
    then show ?thesis using rem [OF Some] k by (cases "find_user u grp") (auto simp: removeUserFromGroup_def Let_def split: if_splits)
  qed (simp add: removeUserFromGroup_def k)
qed

subsection \<open>Joining\<close>

lemma join_success_knowledge:
  assumes inv: "server_inv (snd (snd (do_group_join c token request response s)))" and k: "knowledge s" and i: "ce_id c = i"
    and jg: "join_group request response s = (Some (grp, created), s1)" and ju: "join_user i request response created grp = (Some usr, grp')"
    and alike: "\<And>h. members h s1 = members h s" "sv_sent s1 = sv_sent s"
    and w: "group_wf g grp'" and us: "gr_users grp' = gr_users grp @ [usr]" "us_client usr = i" and mem: "members g s = membership ` set (gr_users grp)"
  shows "knowledge (snd (snd (do_group_join c token request response s)))"
proof -
  let ?t = "on_group_join grp' usr c (set_group grp' s1)"
  let ?reply = "ReplyGroupJoin token (gr_id grp') (gr_flags grp') (osc_metadata (gr_md grp')) (us_id usr) (user_flags usr)
    (osc_metadata (us_md usr)) (osc_metadata (metadata_of (rp_privateMetadata response))) (osc_host (join_relay grp' ?t))"
  let ?s2 = "send_message_to c ?reply ?t"
  note wd = group_wfD [OF w]
  have res: "snd (snd (do_group_join c token request response s)) = on_user_joined_group grp' usr (add_group_user grp' usr c) ?s2"
    using jg ju i by (simp add: do_group_join_def Let_def)
  have inv2: "server_inv ?s2" using inv by (simp add: res)
  have fg: "find_group h ?s2 = (if h = g then Some grp' else find_group h s1)" for h
  proof -
    have "find_group h ?s2 = find_group h ?t" by (rule tablesD(2)) simp
    then show ?thesis using wd(1) by (simp add: on_group_join_def)
  qed
  have u: "usr \<in> set (gr_users grp')" using us(1) by simp
  have fresh: "us_id usr \<notin> us_id ` set (gr_users grp)" using wd(2) us(1) by simp
  have "find_client i ?s2 = Some (add_group_user grp' usr c)"
  proof -
    have "find_client i ?s2 = find_client i ?t" by (rule tablesD(1)) simp
    then show ?thesis using i by (simp add: on_group_join_def)
  qed
  then have "0 \<le> i" using client_wfD(2) [OF invD(3) [OF inv2]] by blast
  then have np: "\<not> user_persistent usr" using wd(7) [OF u] us(2) by (simp add: user_active_def kAooIdInvalid_def)
  have m2: "members h ?s2 = (if h = g then insert (membership usr) (members g s) else members h s)" for h
    using alike(1) [of h] us(1) mem by (auto simp: members_def fg)
  have kn: "known d h ?s2 = (if d = i \<and> h = g then {} else known d h s)" for d h
  proof -
    have "known d h ?t = known d h s" using alike(2) by (simp add: known_def on_group_join_def set_client_def set_group_def)
    then show ?thesis using i wd(1) by (auto simp: known_send)
  qed
  have nps: "no_persistent ?s2" using k np unfolding knowledge_def no_persistent_def m2 by (auto simp: membership_def split: if_splits)
  have fu: "users_found grp' ?s2" by (rule users_foundI [OF inv2 nps, of g]) (simp add: fg)
  have fr: "us_id usr \<notin> fst ` members g s" unfolding mem image_image fst_membership using fresh .
  have mg: "members g ?s2 = membership ` set (gr_users grp')" using fg [of g] by (simp add: members_def)
  show ?thesis unfolding res by (rule join_knowledge [OF k w u us(2) np _ fr m2 mg kn fu]) (simp add: i)
qed

lemma do_group_join_knowledge:
  assumes inv: "server_inv s" and k: "knowledge s" and c: "find_client i s = Some c" "client_active c" and ok: "join_ok s request"
  shows "knowledge (snd (snd (do_group_join c token request response s)))"
proof -
  note d = invD [OF inv] and cw = client_wfD [OF invD(3) [OF inv c(1)]]
  have inv': "server_inv (snd (snd (do_group_join c token request response s)))" by (rule do_group_join_inv [OF inv c ok])
  show ?thesis
  proof (cases "find_group (rj_groupId request) s")
    case (Some grp)
    let ?g = "rj_groupId request"
    have w: "group_wf ?g grp" using groups_okD(4) [OF d(1) Some] .
    note wd = group_wfD [OF w]
    have jg: "join_group request response s = (Some (grp, False), s)" using Some by (simp add: join_group_def)
    have fu: "find_user (rj_userId request) grp = None"
    proof (rule ccontr)
      assume "find_user (rj_userId request) grp \<noteq> None"
      then obtain usr where f: "find_user (rj_userId request) grp = Some usr" by blast
      then have u: "usr \<in> set (gr_users grp)" "us_id usr = rj_userId request" using find_user_iff [OF w] by simp_all
      have "rj_userId request \<noteq> kAooIdInvalid" using wd(4) [OF u(1)] u(2) by (simp add: kAooIdInvalid_def)
      then have "user_persistent usr" using ok Some f by (auto simp: join_ok_def)
      moreover have "membership usr \<in> members ?g s" using u(1) by (simp add: members_group [OF Some])
      ultimately show False using k unfolding knowledge_def no_persistent_def membership_def by auto
    qed
    obtain r grp' where ju: "join_user i request response False grp = (r, grp')" by (cases "join_user i request response False grp")
    have i: "ce_id c = i" "0 \<le> i" using cw by simp_all
    note new = join_user_new [OF fu ju i(2) wd(1,2,3,9)]
    show ?thesis
    proof (cases r)
      case None
      have "gr_users grp' = gr_users grp" "gr_id grp' = ?g" using new(2) [OF _ None] w wd group_wfD(1) [of ?g grp'] by auto
      then have "alike s (set_group grp' s)" using Some by (intro alike_set_group) simp_all
      then show ?thesis using jg ju None i k alike_knowledge alike_error by (simp add: do_group_join_def) blast
    next
      case (Some usr)
      have n: "gr_users grp' = gr_users grp @ [usr]" "us_client usr = i" "group_wf ?g grp'" using new(3) [OF _ Some] wd by auto
      show ?thesis
        by (rule join_success_knowledge [OF inv' k i(1) jg ju [unfolded Some] refl refl n(3,1,2)]) (simp add: members_group [OF \<open>find_group ?g s = Some grp\<close>])
    qed
  next
    case None
    let ?g = "sv_next_group_id s" and ?s = "s\<lparr> sv_next_group_id := sv_next_group_id s + 1 \<rparr>"
    define grp where "grp = group_new (rj_groupName request) (case rj_groupPwd request of Some p \<Rightarrow> p | None \<Rightarrow> []) ?g
      (if rp_groupMetadata response \<noteq> None then rp_groupMetadata response else rj_groupMetadata request) (rp_relayAddress response) 0"
    have jg: "join_group request response s = (let (added, s) = add_group grp ?s in
        if added then (Some (grp, True), server_send_event (GroupAddEvent (gr_id grp) (gr_flags grp) (gr_name grp) (gr_md grp)) s) else (None, s))"
      unfolding join_group_def None get_next_group_id_def Let_def prod.case option.case grp_def ..
    have gi: "gr_id grp = ?g" "gr_users grp = []" "gr_next_user_id grp = 0" by (simp_all add: grp_def)
    have ng: "find_group ?g s = None" using groups_okD(3) [OF d(1), of ?g] by (cases "find_group ?g s") auto
    obtain added s1 where a: "add_group grp ?s = (added, s1)" by (cases "add_group grp ?s")
    show ?thesis
    proof (cases added)
      case False
      have "alike s ?s" by (rule alikeI) (simp_all add: members_def find_group_def)
      moreover have "s1 = ?s" using a False by (auto simp: add_group_def split: if_splits)
      ultimately show ?thesis using jg a False k alike_knowledge alike_error by (simp add: do_group_join_def) blast
    next
      case True
      let ?s1 = "server_send_event (GroupAddEvent (gr_id grp) (gr_flags grp) (gr_name grp) (gr_md grp)) s1"
      have j: "join_group request response s = (Some (grp, True), ?s1)" using jg a True by simp
      have s1: "s1 = ?s\<lparr> sv_groups := sv_groups ?s @ [(?g, grp)] \<rparr>" using a True gi(1) by (auto simp: add_group_def split: if_splits)
      have m1: "members h ?s1 = members h s" for h
      proof -
        have "members h ?s1 = members h s1" by (rule members_tables) simp
        also have "\<dots> = members h s" using ng gi(2) by (auto simp: s1 members_def find_group_def map_add_def split: option.split)
        finally show ?thesis .
      qed
      have sent: "sv_sent ?s1 = sv_sent s" by (simp add: server_send_event_def s1 split: AooEventMode.split)
      obtain r grp' where ju: "join_user i request response True grp = (r, grp')" by (cases "join_user i request response True grp")
      have i: "ce_id c = i" "0 \<le> i" using cw by simp_all
      have fu: "find_user (rj_userId request) grp = None" by (simp add: find_user_def gi)
      note new = join_user_new [OF fu ju i(2) gi(1)]
      obtain usr where r: "r = Some usr" using new(2) gi by (cases r) auto
      have n: "gr_users grp' = gr_users grp @ [usr]" "us_client usr = i" "group_wf ?g grp'" using new(3) [OF _ _ _ _ r] gi by auto
      show ?thesis
        by (rule join_success_knowledge [OF inv' k i(1) j ju [unfolded r] m1 sent n(3,1,2)]) (simp add: gi members_def ng)
    qed
  qed
qed

end
