(* ===== verification/Server_Run.thy ===== *)
theory Server_Run
  imports Server_Peers
begin

text \<open>
  The server as a transition system: connections, data, the rounds of the main loop and the calls of the application, in any
  order. Every state that can be reached has the invariant of the server, and its clients know their peers.
\<close>

subsection \<open>Requests and messages\<close>

lemma alike_login: "alike s (snd (do_login c token version md rmd s))"
proof -
  let ?c = "c\<lparr> ce_version := version \<rparr>"
  let ?s = "send_message_to ?c (ReplyLogin token aoo_version (ce_id ?c) (osc_metadata (metadata_of rmd))) (set_client ?c s)"
  have "alike s (set_client ?c s)" by (rule alike_set_client)
  also have "alike \<dots> ?s" by (rule alike_send) simp
  also have "alike ?s (server_send_event (ClientLoginEvent (ce_id ?c) kAooOk (ce_version ?c) (metadata_of md)) ?s)" by (rule alike_event)
  finally show ?thesis by (simp add: do_login_def Let_def)
qed

lemma handle_request_alike:
  assumes "alike s (F s)"
  shows "alike s (case handle_request c token req s of (handled, s') \<Rightarrow> if handled then s' else F s')"
  using assms alike_request [of s c token req] by (auto simp: handle_request_def split: option.splits)

lemma alike_handle_login: "alike s (handle_login c args s)"
proof -
  obtain token version pwd md addresses where a: "args = (token, version, pwd, md, addresses)" by (metis prod.exhaust)
  let ?c = "c\<lparr> ce_public_addresses := ce_public_addresses c @ addresses \<rparr>"
  let ?s = "set_client ?c s"
  have refuse: "alike s (server_send_event e (send_error ?c token kAooRequestLogin err None ?s))" for e err
    using alike_trans [OF alike_trans [OF alike_set_client alike_error] alike_event] .
  have "alike s (case handle_request ?c token req ?s of (handled, s') \<Rightarrow> if handled then s' else snd (do_login ?c token version md None s'))" for req
    by (rule alike_trans [OF alike_set_client handle_request_alike]) (rule alike_login)
  then show ?thesis using refuse by (simp add: handle_login_def a Let_def)
qed

lemma alike_metadata:
  assumes "server_inv s" and "find_group g s = Some grp"
  shows "alike s (set_group (grp\<lparr> gr_md := md \<rparr>) s)"
    and "alike s (set_group (grp\<lparr> gr_users := change_user u (\<lambda>u. u\<lparr> us_md := md \<rparr>) (gr_users grp) \<rparr>) s)"
proof -
  note wd = group_wfD [OF groups_okD(4) [OF invD(1) [OF assms(1)] assms(2)]]
  have "map membership (change_user u (\<lambda>u. u\<lparr> us_md := md \<rparr>) (gr_users grp)) = map membership (gr_users grp)"
    by (rule change_user_map) (simp add: membership_def user_persistent_def)
  then have e: "membership ` set (change_user u (\<lambda>u. u\<lparr> us_md := md \<rparr>) (gr_users grp)) = membership ` set (gr_users grp)" by (metis set_map)
  show "alike s (set_group (grp\<lparr> gr_md := md \<rparr>) s)" by (rule alike_set_group) (simp_all add: wd(1) assms(2))
  show "alike s (set_group (grp\<lparr> gr_users := change_user u (\<lambda>u. u\<lparr> us_md := md \<rparr>) (gr_users grp) \<rparr>) s)"
    by (rule alike_set_group) (simp_all add: wd(1) assms(2) e)
qed

lemma alike_update_messages:
  "alike s (send_to_users (\<lambda>u. Some (group_update_message grp i)) us s)"
  "alike s (send_to_users (\<lambda>u. if P u then Some (group_update_message grp i) else None) us s)"
  "alike s (send_to_users (\<lambda>u. if P u then Some (peer_update_message usr) else None) us s)"
  "alike s (send_to_users (\<lambda>u. Some (if P u then user_update_message u else peer_update_message u)) us s)"
  "alike s (send_to_users (\<lambda>u. Some (ClientMessage data)) us s)"
  by (rule alike_send_to_users; auto simp: quiet_def know_step_def group_update_message_def peer_update_message_def user_update_message_def split: if_splits)+

lemma alike_updates:
  assumes "server_inv s"
  shows "alike s (snd (do_group_update c token g md s))" and "alike s (snd (do_user_update c token g u md s))"
    and "alike s (snd (groupControl g ctl s))"
proof -
  have q: "alike t (server_send_event e (send_message_to c (ReplyGroupUpdate token m) t))" "alike t (server_send_event e (send_message_to c (ReplyUserUpdate token m) t))" for t e m
    by (rule alike_trans [OF alike_send alike_event], simp)+
  show "alike s (snd (do_group_update c token g md s))"
    using alike_trans [OF alike_trans [OF alike_metadata(1) [OF assms] alike_update_messages(2)] q(1)]
    by (simp add: do_group_update_def Let_def split: option.split)
  show "alike s (snd (do_user_update c token g u md s))"
    using alike_trans [OF alike_trans [OF alike_metadata(2) [OF assms] alike_update_messages(3)] q(2)]
    by (simp add: do_user_update_def Let_def split: option.split)
  show "alike s (snd (groupControl g ctl s))"
    using alike_trans [OF alike_metadata(1) [OF assms] alike_update_messages(1)] alike_trans [OF alike_metadata(2) [OF assms] alike_update_messages(4)]
    by (simp add: groupControl_def update_group_def update_user_def Let_def split: option.split group_control.split)
qed

lemma alike_handle_updates:
  assumes "server_inv s"
  shows "alike s (handle_group_update c args s)" and "alike s (handle_user_update c args s)" and "alike s (handle_custom_request c cargs s)"
proof -
  obtain token g md where a: "args = (token, g, md)" by (metis prod.exhaust)
  obtain token' flags data where a': "cargs = (token', flags, data)" by (metis prod.exhaust)
  have h: "alike s (case handle_request c token req s of (handled, s') \<Rightarrow> if handled then s' else snd (do_group_update c token g md s'))"
    "alike s (case handle_request c token req s of (handled, s') \<Rightarrow> if handled then s' else snd (do_user_update c token g u md s'))" for req u
    by (rule handle_request_alike, rule alike_updates [OF assms])+
  have h3: "alike s (case handle_request c token req s of (handled, s') \<Rightarrow> if handled then s' else send_error c token type result response s')"
    for token req type result response by (rule handle_request_alike) (rule alike_error)
  show "alike s (handle_group_update c args s)" using h(1) alike_error by (simp add: handle_group_update_def a split: option.split)
  show "alike s (handle_user_update c args s)" using h(2) alike_error by (simp add: handle_user_update_def a split: option.split)
  show "alike s (handle_custom_request c cargs s)" using h3 by (simp add: handle_custom_request_def a')
qed

lemma handle_group_join_knowledge:
  assumes "server_inv s" and "knowledge s" and "find_client i s = Some c" and "client_active c"
  shows "knowledge (handle_group_join c args s)"
proof (cases "check_join args s")
  case (Inl e)
  then show ?thesis using alike_knowledge [OF alike_error assms(2)] by (simp add: handle_group_join_def)
next
  case (Inr gu)
  have "knowledge (snd (snd (do_group_join c (ja_token args) (join_request args gu) response_join_new s)))"
    using do_group_join_knowledge [OF assms] check_join_ok [OF assms(1) Inr] by blast
  then show ?thesis using alike_knowledge [OF alike_request assms(2), of c "ja_token args" "RequestGroupJoin (join_request args gu)"]
    by (auto simp: handle_group_join_request [OF Inr] handle_request_def split: option.splits)
qed

lemma handle_group_leave_knowledge:
  assumes "server_inv s" and "knowledge s" and "find_client i s = Some c"
  shows "knowledge (handle_group_leave c args s)"
proof -
  obtain token g where a: "args = (token, g)" by (cases args)
  show ?thesis using do_group_leave_knowledge [OF assms, of token g] alike_knowledge [OF alike_request assms(2), of c token "RequestGroupLeave g"]
    by (auto simp: handle_group_leave_def a handle_request_def split: option.splits)
qed

lemma handle_message_knowledge:
  assumes "server_inv s" and "knowledge s" and "find_client i s = Some c" and "handle_message c msg s = (e, s')"
  shows "knowledge s'"
proof -
  have p: "alike s (handle_client_pong c s)" unfolding handle_client_pong_def by (rule alike_set_client)
  have q: "alike s (send_message_to c ClientPong s)" by (rule alike_send) simp
  note k = alike_knowledge [OF _ assms(2)]
  show ?thesis
    using assms k [OF p] k [OF q] k [OF alike_handle_login] handle_group_join_knowledge [OF assms(1-3)] handle_group_leave_knowledge [OF assms(1-3)]
      alike_handle_updates [OF assms(1), THEN k]
    by (cases msg) (auto simp: handle_message_def with_args_def split: if_splits sum.splits)
qed

lemma handle_packet_knowledge:
  "server_inv s \<Longrightarrow> knowledge s \<Longrightarrow> handle_packet parse i m s = (e, s') \<Longrightarrow> knowledge s'"
  using handle_message_knowledge by (auto simp: handle_packet_def split: option.splits)

lemma handle_client_data_knowledge:
  assumes inv: "server_inv s" and k: "knowledge s" and run: "handle_client_data parse i err data s = Some s'"
  shows "knowledge s'"
proof (cases "find_client i s = None \<or> data = []")
  case True
  have "knowledge (snd (remove_client i e msg s))" for e msg
    using remove_client_knowledge [OF server_inv_mono [OF inv], of i] invD(4) [OF inv, of i] k by auto
  then show ?thesis using True k run by (auto simp: handle_client_data_def split: option.splits if_splits)
next
  case False
  then obtain c where c: "find_client i s = Some c" by (cases "find_client i s") auto
  have r: "receiver_wf (ce_receiver c)" using invD(6) [OF inv c] by simp
  obtain e r1 s1 where h: "handle_stream (handle_packet parse i) data (ce_receiver c) s = Some (e, r1, s1)"
    using handle_stream_wf [OF r, of "handle_packet parse i" data s] by (elim exE conjE)
  have keep: "server_inv t \<and> knowledge t \<Longrightarrow> handle_packet parse i m t = (e, t') \<Longrightarrow> server_inv t' \<and> knowledge t'" for m t e t'
    using handle_packet_inv handle_packet_knowledge by blast
  have s1: "server_inv s1" "knowledge s1"
    using handle_stream_keeps [where I = "\<lambda>s. server_inv s \<and> knowledge s", OF keep r _ h] inv k by auto
  let ?s = "case find_client i s1 of Some c \<Rightarrow> set_client (c\<lparr> ce_receiver := r1 \<rparr>) s1 | None \<Rightarrow> s1"
  have hd: "handle_data_of parse c data s = Some (e, ?s)" using h client_wfD(1) [OF invD(3) [OF inv c]] by (simp add: handle_data_of_def)
  have ks: "knowledge ?s" using alike_knowledge [OF alike_set_client s1(2)] s1(2) by (simp split: option.split)
  have "server_inv_but {i} ?s"
  proof (cases "find_client i s1")
    case (Some c1)
    then show ?thesis using client_wfD(1) [OF invD(3) [OF s1(1) Some]] server_inv_mono [OF s1(1), of "{i}"]
      by (auto intro!: inv_touch_client simp: client_active_def)
  qed (use s1(1) server_inv_mono in auto)
  moreover have "entries_ok i ?s c2" if f: "find_client i ?s = Some c2" for c2
  proof (cases "find_client i s1")
    case (Some c1)
    then show ?thesis using f invD(4) [OF s1(1) Some] client_wfD(1) [OF invD(3) [OF s1(1) Some]] by (auto simp: entries_ok_def)
  qed (use f in simp)
  ultimately have "knowledge (snd (remove_client i code [] ?s))" for code using remove_client_knowledge ks by blast
  then have "knowledge (tcp_close i (snd (remove_client i code [] ?s)))" for code
    by (rule alike_knowledge [rotated]) (rule alikeI, auto simp: tcp_close_def members_def find_group_def)
  then show ?thesis using run c False hd ks by (cases e) (auto simp: handle_client_data_def)
qed

lemma remove_client_keeps:
  "server_inv s \<and> knowledge s \<Longrightarrow> server_inv (tcp_close i (snd (remove_client i e msg s))) \<and> knowledge (tcp_close i (snd (remove_client i e msg s)))"
proof -
  assume a: "server_inv s \<and> knowledge s"
  then have "knowledge (snd (remove_client i e msg s))"
    using remove_client_knowledge [OF server_inv_mono, of "{}" s i] invD(4) [of "{}" s i] by auto
  then have "knowledge (tcp_close i (snd (remove_client i e msg s)))"
    by (rule alike_knowledge [rotated]) (rule alikeI, auto simp: tcp_close_def members_def find_group_def)
  then show ?thesis using a remove_client_inv [of s i e msg] by simp
qed

subsection \<open>The main loop\<close>

lemma alike_update_clients: "update_clients now settings is sleep s = (ts, sl, s') \<Longrightarrow> alike s s'"
proof (induction now settings "is" sleep s arbitrary: ts sl s' rule: update_clients.induct)
  case (2 now settings i "is" sleep s)
  show ?case
  proof (cases "find_client i s")
    case (Some c)
    obtain timeout wait s1 where u: "client_update now settings c s = ((timeout, wait), s1)" by (metis prod.exhaust)
    have "alike s (send_message_to c ClientPing s)" by (rule alike_send) simp
    then have "alike s s1" using u alike_set_client [of s] alike_trans [OF _ alike_set_client]
      by (auto simp: client_update_def Let_def split: prod.splits if_splits)
    moreover have "alike s1 s'" using 2(2) [OF Some u [symmetric] refl] 2(3) Some u by (auto simp: Let_def split: prod.splits)
    ultimately show ?thesis by (rule alike_trans)
  qed (use 2 in simp)
qed simp

lemma alike_dispatch: "alike s (dispatch_messages ns s)"
proof (induction ns arbitrary: s)
  case (Cons n ns)
  have "alike s (notify_clients (ClientMessage data) cs s)" for data cs
  proof (induction "ClientMessage data" cs s rule: notify_clients.induct)
    case (2 i c cs s)
    have "alike s (send_message_to c (ClientMessage data) s)" by (rule alike_send) simp
    then show ?case using alike_trans 2 by simp
  qed simp
  moreover have "alike s (send_message_to c (ClientMessage data) s)" for c data by (rule alike_send) simp
  ultimately have "alike s (dispatch_message n s)"
    using alike_update_messages(5) [of s "sn_data n"]
    by (auto simp: dispatch_message_def Let_def simp del: send_to_users.simps split: option.split)
  then show ?case using alike_trans Cons by simp
qed simp

lemma run_round_knowledge:
  assumes "server_inv s" and "knowledge s"
  shows "knowledge (snd (run_round now s))"
proof -
  obtain ts sl s1 where u: "update_clients now (sv_ping_settings s) (map fst (sv_clients s)) 1000000000000 s = (ts, sl, s1)" by (metis prod.exhaust)
  have s1: "server_inv s1 \<and> knowledge s1" using update_clients_inv [OF assms(1) u] alike_knowledge [OF alike_update_clients [OF u] assms(2)] by simp
  have "server_inv t \<and> knowledge t \<Longrightarrow> knowledge (remove_timeouts is t)" for "is" t
    by (induction "is" arbitrary: t) (simp_all del: server_inv_send add: remove_client_keeps)
  then have "knowledge (remove_timeouts ts s1)" using s1 .
  moreover have "alike t (dispatch_messages q (t\<lparr> sv_message_queue := [] \<rparr>))" for t q
    by (rule alike_trans [OF alikeI alike_dispatch]) (auto simp: members_def find_group_def)
  ultimately show ?thesis using alike_knowledge by (auto simp: run_round_def u Let_def)
qed

subsection \<open>The application\<close>

lemma handleRequest_knowledge:
  assumes "server_inv s" and "knowledge s" and "(i, t, req) \<in> set (sv_deferred s)" and "handleRequest i token (Some req) result response s = (e, r, s')"
  shows "knowledge s'"
proof (cases "find_client i s")
  case (Some c)
  note d = invD(5) [OF assms(1,3)] and k = alike_knowledge [OF _ assms(2)]
  have j: "knowledge (snd (snd (do_group_join c token join rj s)))" if "req = RequestGroupJoin join" for join rj
    using do_group_join_knowledge [OF assms(1,2) Some] d that Some by (auto simp: deferred_ok_def join_ok_def)
  have ok: "do_login c token version md rmd s = (e', t') \<Longrightarrow> knowledge t'"
    "do_group_join c token join rj s = (e', r', t') \<Longrightarrow> req = RequestGroupJoin join \<Longrightarrow> knowledge t'"
    "do_group_leave c token g s = (e', t') \<Longrightarrow> knowledge t'" "do_group_update c token g umd s = (e', t') \<Longrightarrow> knowledge t'"
    "do_user_update c token g u umd s = (e', t') \<Longrightarrow> knowledge t'"
    for version md rmd e' t' join rj r' g u umd
    using k [OF alike_login, of c token version md rmd] j [of join rj] do_group_leave_knowledge [OF assms(1,2) Some, of token g]
      alike_updates(1,2) [OF assms(1), of c token g, THEN k]
    by (auto, metis snd_conv, metis snd_conv)
  have q: "knowledge (send_message_to c (ReplyRequest token f m) s)" for f m by (rule k) (simp add: alike_send)
  have er: "knowledge (send_error c token type result re s)" "knowledge (server_send_event ev (send_error c token type result re s))" for type re ev
    by (rule k, rule alike_error) (rule k, rule alike_trans [OF alike_error alike_event])
  show ?thesis
  proof (cases "result = kAooOk")
    case True
    then show ?thesis using assms(2,4) Some ok q
      by (cases req) (auto simp: handleRequest_def do_custom_request_def Let_def split: if_splits option.splits AooResponse.splits prod.splits)
  next
    case False
    then show ?thesis using assms(2,4) Some er by (auto simp: handleRequest_def Let_def split: option.splits AooResponse.splits)
  qed
qed (use assms in \<open>simp add: handleRequest_def\<close>)

lemma alike_fields:
  assumes "sv_groups s' = sv_groups s" and "sv_sent s' = sv_sent s"
  shows "alike s s'"
  using assms by (intro alikeI) (simp_all add: members_def find_group_def)

lemma alike_accept: "alike s (snd (accept_client s))"
  by (rule alike_fields) (simp_all add: accept_client_def get_next_client_id_def)

lemma alike_addGroup:
  assumes "server_inv s"
  shows "alike s (snd (addGroup md5 name pwd md relay s))"
proof -
  have ng: "find_group (sv_next_group_id s) s = None"
    using groups_okD(3) [OF invD(1) [OF assms], of "sv_next_group_id s"] by (cases "find_group (sv_next_group_id s) s") auto
  show ?thesis
    by (rule alikeI) (use ng in \<open>auto simp: addGroup_def get_next_group_id_def add_group_def members_def find_group_def map_add_def Let_def
        split: option.split prod.split\<close>)
qed

subsection \<open>Steps and runs\<close>

text \<open>
  The steps of a server: a connection, data or the end of a connection (no data), a round of the main loop, the
  answer to a request that the application has taken over, and the other calls of the application. \<open>parse\<close> reads
  OSC packets, \<open>md5\<close> is the hash function.
\<close>

inductive server_step :: "(byte list \<Rightarrow> server_message option) \<Rightarrow> (string \<Rightarrow> string) \<Rightarrow> Server \<Rightarrow> Server \<Rightarrow> bool"
  for parse md5 s where
  step_accept: "server_step parse md5 s (snd (accept_client s))"
| step_data: "handle_client_data parse i err data s = Some s' \<Longrightarrow> server_step parse md5 s s'"
| step_round: "server_step parse md5 s (snd (run_round now s))"
| step_request: "(i, t, req) \<in> set (sv_deferred s) \<Longrightarrow> handleRequest i token (Some req) result response s = (e, r, s') \<Longrightarrow>
    server_step parse md5 s s'"
| step_add_group: "server_step parse md5 s (snd (addGroup md5 name pwd md relay s))"
| step_remove_group: "server_step parse md5 s (snd (removeGroup g s))"
| step_add_user: "server_step parse md5 s (snd (addUserToGroup md5 g name pwd md s))"
| step_remove_user: "server_step parse md5 s (snd (removeUserFromGroup g u s))"
| step_group_control: "server_step parse md5 s (snd (groupControl g gctl s))"
| step_control: "server_step parse md5 s (snd (server_control md5 ctl s))"
| step_event_handler: "server_step parse md5 s (setEventHandler mode s)"
| step_poll: "server_step parse md5 s (pollEvents s)"
| step_request_handler: "server_step parse md5 s (setRequestHandler f s)"
| step_notify_client: "server_step parse md5 s (snd (notifyClient i data s))"
| step_notify_group: "server_step parse md5 s (snd (notifyGroup g u data s))"
| step_close: "server_step parse md5 s (server_close s)"

text \<open>The runs of a server all of whose states satisfy \<open>guard\<close>.\<close>

inductive server_run :: "(byte list \<Rightarrow> server_message option) \<Rightarrow> (string \<Rightarrow> string) \<Rightarrow> (Server \<Rightarrow> bool) \<Rightarrow> Server \<Rightarrow> bool"
  for parse md5 guard where
  run_start: "server_run parse md5 guard Server_new"
| run_step: "server_run parse md5 guard s \<Longrightarrow> server_step parse md5 s t \<Longrightarrow> guard t \<Longrightarrow> server_run parse md5 guard t"

text \<open>What holds at the start and is kept by every step holds in every run.\<close>

locale server_invariant =
  fixes parse :: "byte list \<Rightarrow> server_message option" and md5 :: "string \<Rightarrow> string" and guard :: "Server \<Rightarrow> bool" and I :: "Server \<Rightarrow> bool"
  assumes start: "I Server_new"
    and keeps: "I s \<Longrightarrow> server_step parse md5 s t \<Longrightarrow> guard t \<Longrightarrow> I t"
begin

lemma run_holds: "server_run parse md5 guard s \<Longrightarrow> I s"
  by (induction rule: server_run.induct) (auto intro: start keeps)

end

lemma tables_application [simp]:
  "tables (snd (server_control md5 ctl s)) = tables s" "tables (setEventHandler mode s) = tables s" "tables (pollEvents s) = tables s"
  "tables (setRequestHandler f s) = tables s" "tables (snd (notifyClient i data s)) = tables s" "tables (snd (notifyGroup g u data s)) = tables s"
  by (auto simp: tables_def server_control_def setEventHandler_def pollEvents_def setRequestHandler_def notifyClient_def notifyGroup_def
      push_message_def split: server_ctl.split option.split)

lemma alike_application:
  "alike s (snd (server_control md5 ctl s))" "alike s (setEventHandler mode s)" "alike s (pollEvents s)"
  "alike s (setRequestHandler f s)" "alike s (snd (notifyClient i data s))" "alike s (snd (notifyGroup g u data s))"
  by (rule alike_fields; simp add: server_control_def setEventHandler_def pollEvents_def setRequestHandler_def notifyClient_def notifyGroup_def
      push_message_def split: server_ctl.split option.split)+

lemma server_close_inv: "server_inv s \<Longrightarrow> server_inv (server_close s)"
proof -
  assume inv: "server_inv s"
  let ?s = "server_close s"
  have f: "find_client i ?s = None" "find_group g ?s = None" "sv_groups ?s = []" for i g
    by (simp_all add: server_close_def find_client_def find_group_def)
  have n: "sv_deferred ?s = sv_deferred s" "sv_next_client_id ?s = sv_next_client_id s" "sv_next_group_id ?s = sv_next_group_id s"
    by (simp_all add: server_close_def)
  have "deferred_ok ?s d" if "deferred_ok s d" for d
    using that by (auto simp: deferred_ok_def f n split: AooRequest.splits)
  then show ?thesis using inv by (simp add: server_inv_but_def groups_ok_def members_ok_def f n)
qed

lemma alike_close: "alike s (server_close s)"
  by (rule alikeI) (simp_all add: server_close_def members_def find_group_def)

lemma server_step_inv: "server_step parse md5 s t \<Longrightarrow> server_inv s \<Longrightarrow> server_inv t"
proof (induction rule: server_step.induct)
  case (step_data i err data s')
  then show ?case using handle_client_data_inv [of s parse i err data] by auto
next
  case (step_request i t req token result response e r s')
  then show ?case using handleRequest_inv by blast
next
  case (step_remove_group g)
  then show ?case using remove_group_inv [where s = s and g = g] by (simp add: removeGroup_def case_prod_beta)
qed (simp_all add: accept_client_inv run_round_inv addGroup_inv addUserToGroup_inv removeUserFromGroup_inv groupControl_inv server_close_inv
    server_inv_tables [OF tables_application(1)] server_inv_tables [OF tables_application(2)] server_inv_tables [OF tables_application(3)]
    server_inv_tables [OF tables_application(4)] server_inv_tables [OF tables_application(5)] server_inv_tables [OF tables_application(6)])

lemma Server_new_inv: "server_inv Server_new"
  by (simp add: server_inv_but_def Server_new_def groups_ok_def members_ok_def find_client_def find_group_def)

interpretation consistent: server_invariant parse md5 "\<lambda>s. True" server_inv for parse md5
  by unfold_locales (simp_all add: Server_new_inv server_step_inv)

lemma addUserToGroup_alike:
  assumes "server_inv s" and "no_persistent (snd (addUserToGroup md5 g name pwd md s))"
  shows "alike s (snd (addUserToGroup md5 g name pwd md s))"
proof (cases "find_group g s")
  case (Some grp)
  note wd = group_wfD [OF groups_okD(4) [OF invD(1) [OF assms(1)] Some]]
  obtain u grp1 where u: "get_next_user_id grp = (u, grp1)" by (cases "get_next_user_id grp")
  have eq: "gr_users grp1 = gr_users grp" "gr_id grp1 = g" using u wd(1) by (auto simp: get_next_user_id_def split: option.splits)
  let ?usr = "user_new name (case pwd of Some p \<Rightarrow> encrypt md5 p | None \<Rightarrow> []) u (gr_id grp1) kAooIdInvalid md None kAooUserPersistent"
  obtain added grp2 where a: "add_user ?usr grp1 = (added, grp2)" by (cases "add_user ?usr grp1")
  have t: "snd (addUserToGroup md5 g name pwd md s) = set_group grp2 s" using Some u a by (simp add: addUserToGroup_def Let_def)
  have i: "gr_id grp2 = g" using a eq by (auto simp: add_user_def split: if_splits)
  have "\<not> added"
  proof
    assume added
    then have "?usr \<in> set (gr_users grp2)" using a by (auto simp: add_user_def split: if_splits)
    then have "membership ?usr \<in> members g (set_group grp2 s)" using i by (simp add: members_def)
    moreover have "user_persistent ?usr" by (simp add: user_new_def user_persistent_def server_flag_defs)
    ultimately show False using assms(2) unfolding t no_persistent_def membership_def by blast
  qed
  then have "gr_users grp2 = gr_users grp" using a eq by (auto simp: add_user_def split: if_splits)
  then show ?thesis unfolding t using Some i by (intro alike_set_group) simp_all
qed (simp add: addUserToGroup_def)

lemma server_step_knowledge:
  "server_step parse md5 s t \<Longrightarrow> server_inv s \<Longrightarrow> knowledge s \<Longrightarrow> no_persistent t \<Longrightarrow> knowledge t"
proof (induction rule: server_step.induct)
  case (step_data i err data s')
  then show ?case using handle_client_data_knowledge by blast
next
  case (step_request i t req token result response e r s')
  then show ?case using handleRequest_knowledge by blast
next
  case (step_remove_group g)
  then show ?case using alike_knowledge [OF alike_remove_group, of s g] by (simp add: removeGroup_def case_prod_beta)
next
  case (step_add_user g name pwd md)
  then show ?case using alike_knowledge [OF addUserToGroup_alike] by blast
next
  case (step_add_group name pwd md relay)
  then show ?case using alike_knowledge [OF alike_addGroup] by blast
next
  case (step_group_control g gctl)
  then show ?case using alike_knowledge [OF alike_updates(3)] by blast
qed (simp_all add: run_round_knowledge removeUserFromGroup_knowledge alike_knowledge [OF alike_accept] alike_knowledge [OF alike_close]
    alike_application [THEN alike_knowledge])

interpretation informed: server_invariant parse md5 no_persistent "\<lambda>s. server_inv s \<and> knowledge s" for parse md5
proof unfold_locales
  show "server_inv Server_new \<and> knowledge Server_new"
    by (simp add: Server_new_inv knowledge_def no_persistent_def know_ok_def members_def find_group_def) (simp add: Server_new_def)
qed (use server_step_inv server_step_knowledge in blast)

subsection \<open>Examples\<close>

definition ex_join :: "string \<Rightarrow> join_args" where
  "ex_join name = \<lparr> ja_token = 1, ja_group_name = ''g'', ja_group_pwd = [], ja_group_md = None, ja_user_name = name,
     ja_user_pwd = [], ja_user_md = None, ja_relay = None \<rparr>"

definition ex_parse :: "byte list \<Rightarrow> server_message option" where
  "ex_parse m =
     (case m of
        [_, k, _, _] \<Rightarrow>
          if k = 1 then Some (ServerLogin (Inr (0, ''2.0'', [], None, [])))
          else if k = 2 then Some (ServerGroupJoin (Inr (ex_join ''a'')))
          else if k = 3 then Some (ServerGroupJoin (Inr (ex_join ''b'')))
          else None
      | _ \<Rightarrow> None)"

definition ex_request :: "int \<Rightarrow> byte \<Rightarrow> Server \<Rightarrow> Server" where
  "ex_request i k s = the (handle_client_data ex_parse i 0 [0, 0, 0, 4, 0x2F, k, 0, 0] s)"

text \<open>Two clients log in and join a group.\<close>

definition ex_server_log :: "Server list" where
  "ex_server_log =
     (let s1 = snd (accept_client Server_new); s2 = snd (accept_client s1);
          s3 = ex_request 0 1 s2; s4 = ex_request 1 1 s3; s5 = ex_request 0 2 s4
      in [s1, s2, s3, s4, s5, ex_request 1 3 s5])"

definition ex_server :: Server where
  "ex_server = last ex_server_log"

text \<open>A client joins as a user that the application has added to a group.\<close>

definition ex_persistent :: Server where
  "ex_persistent = ex_request 0 2 (ex_request 0 1 (snd (accept_client
     (snd (addUserToGroup id 0 ''a'' None None (snd (addGroup id ''g'' None None None Server_new)))))))"

definition plain_users :: "Server \<Rightarrow> bool" where
  "plain_users s \<longleftrightarrow> list_all (\<lambda>(g, grp). list_all (\<lambda>u. \<not> user_persistent u) (gr_users grp)) (sv_groups s)"

lemma plain_users_ok: "plain_users s \<Longrightarrow> no_persistent s"
  by (auto simp: plain_users_def no_persistent_def members_def find_group_def membership_def list_all_iff dest!: map_of_SomeD split: option.splits)

lemma run_request:
  assumes "server_run ex_parse md5 guard s" and "server_inv s" and "guard (ex_request i k s)"
  shows "server_run ex_parse md5 guard (ex_request i k s)"
proof -
  obtain s' where "handle_client_data ex_parse i 0 [0, 0, 0, 4, 0x2F, k, 0, 0] s = Some s'"
    using handle_client_data_inv [OF assms(2)] by blast
  then show ?thesis using run_step [OF assms(1) step_data assms(3)] by (simp add: ex_request_def)
qed

lemma ex_server_plain: "list_all plain_users ex_server_log"
  by code_simp

lemma ex_server_run: "server_run ex_parse md5 no_persistent ex_server"
proof -
  note inv = informed.run_holds [THEN conjunct1]
  have p: "no_persistent s" if "s \<in> set ex_server_log" for s using ex_server_plain that plain_users_ok by (auto simp: list_all_iff)
  note l = p [unfolded ex_server_log_def Let_def, simplified]
  define s1 s2 where "s1 = snd (accept_client Server_new)" and "s2 = snd (accept_client s1)"
  define s3 s4 s5 where "s3 = ex_request 0 1 s2" and "s4 = ex_request 1 1 s3" and "s5 = ex_request 0 2 s4"
  note d = s1_def s2_def s3_def s4_def s5_def
  have log: "ex_server_log = [s1, s2, s3, s4, s5, ex_request 1 3 s5]" by (simp add: ex_server_log_def d Let_def)
  have r2: "server_run ex_parse md5 no_persistent s2"
  proof -
    have "no_persistent s1" "no_persistent s2" using p by (simp_all add: log)
    then show ?thesis unfolding s2_def s1_def by (intro run_step [OF run_step [OF run_start step_accept] step_accept])
  qed
  have r3: "server_run ex_parse md5 no_persistent s3" unfolding s3_def by (rule run_request [OF r2 inv [OF r2] p]) (simp add: log flip: s3_def)
  have r4: "server_run ex_parse md5 no_persistent s4" unfolding s4_def by (rule run_request [OF r3 inv [OF r3] p]) (simp add: log flip: s4_def)
  have r5: "server_run ex_parse md5 no_persistent s5" unfolding s5_def by (rule run_request [OF r4 inv [OF r4] p]) (simp add: log flip: s5_def)
  have "server_run ex_parse md5 no_persistent (ex_request 1 3 s5)" by (rule run_request [OF r5 inv [OF r5] p]) (simp add: log)
  then show ?thesis by (simp add: ex_server_def log)
qed

lemma run_any: "server_run parse md5 guard s \<Longrightarrow> server_run parse md5 (\<lambda>s. True) s"
  by (induction rule: server_run.induct) (auto intro: run_start run_step)

lemma ex_persistent_run: "server_run ex_parse id (\<lambda>s. True) ex_persistent"
proof -
  note inv = consistent.run_holds
  define s where "s = snd (accept_client (snd (addUserToGroup id 0 ''a'' None None (snd (addGroup id ''g'' None None None Server_new)))))"
  have r: "server_run ex_parse id (\<lambda>s. True) s" unfolding s_def
    by (rule run_step [OF run_step [OF run_step [OF run_start step_add_group TrueI] step_add_user TrueI] step_accept TrueI])
  have r1: "server_run ex_parse id (\<lambda>s. True) (ex_request 0 1 s)" by (rule run_request [OF r inv [OF r] TrueI])
  show ?thesis unfolding ex_persistent_def s_def [symmetric] by (rule run_request [OF r1 inv [OF r1] TrueI])
qed

definition group_table :: "Server \<Rightarrow> (int \<times> (int \<times> int) list) list" where
  "group_table s = map (\<lambda>(g, grp). (g, map (\<lambda>u. (us_id u, us_client u)) (gr_users grp))) (sv_groups s)"

lemma ex_server_table: "group_table ex_server = [(0, [(0, 0), (1, 1)])]"
  by code_simp

lemma ex_server_group:
  obtains grp a b where "find_group 0 ex_server = Some grp" "gr_users grp = [a, b]" "us_id a = 0" "us_client a = 0" "us_id b = 1" "us_client b = 1"
proof -
  obtain grp where g: "sv_groups ex_server = [(0, grp)]" "map (\<lambda>u. (us_id u, us_client u)) (gr_users grp) = [(0, 0), (1, 1)]"
    using ex_server_table unfolding group_table_def by (auto simp: map_eq_Cons_conv)
  from g(2) obtain a b where "gr_users grp = [a, b]" "us_id a = 0" "us_client a = 0" "us_id b = 1" "us_client b = 1"
    by (auto simp: map_eq_Cons_conv)
  then show thesis using that [of grp a b] g(1) by (simp add: find_group_def)
qed

subsection \<open>Properties\<close>

text \<open>
  C13. In every state of a server, whatever its clients send, however their data is cut into pieces, and whatever the
  application calls: identifiers and names are unique in a group and the names of groups are unique; every user that
  is online belongs to a client that is connected and logged in and that has the user among its own; every user
  that a client has in a group is a user of the group, the client's own or one that the application has added; and no
  group without users is kept, unless the application has added it.
\<close>

theorem server_membership:
  assumes "server_run parse md5 (\<lambda>s. True) s" and "find_group g s = Some grp"
  shows "distinct (map us_id (gr_users grp)) \<and> distinct (map us_name (gr_users grp)) \<and>
    (\<forall>h grp'. find_group h s = Some grp' \<longrightarrow> gr_name grp' = gr_name grp \<longrightarrow> h = g) \<and>
    (\<forall>usr \<in> set (gr_users grp). user_active usr \<longrightarrow>
       (\<exists>c. find_client (us_client usr) s = Some c \<and> client_active c \<and> (g, us_id usr) \<in> set (ce_group_users c))) \<and>
    (\<forall>i c u. find_client i s = Some c \<longrightarrow> (g, u) \<in> set (ce_group_users c) \<longrightarrow>
       (\<exists>usr. find_user u grp = Some usr \<and> (us_client usr = i \<or> user_persistent usr))) \<and>
    (group_persistent grp \<or> gr_users grp \<noteq> [])"
proof -
  have inv: "server_inv s" using consistent.run_holds [OF assms(1)] .
  note d = invD [OF inv] and wd = group_wfD [OF groups_okD(4) [OF invD(1) [OF inv] assms(2)]]
  have "\<exists>c. find_client (us_client usr) s = Some c \<and> client_active c \<and> (g, us_id usr) \<in> set (ce_group_users c)"
    if u: "usr \<in> set (gr_users grp)" "user_active usr" for usr
  proof -
    obtain c where c: "find_client (us_client usr) s = Some c" "(g, us_id usr) \<in> set (ce_group_users c)"
      using d(2) assms(2) u unfolding members_ok_def by blast
    then show ?thesis using client_wfD(5) [OF d(3) [OF c(1)]] by auto
  qed
  moreover have "\<exists>usr. find_user u grp = Some usr \<and> (us_client usr = i \<or> user_persistent usr)"
    if "find_client i s = Some c" "(g, u) \<in> set (ce_group_users c)" for i c u
    using d(4) [OF that(1)] that(2) assms(2) by (auto simp: entries_ok_def)
  ultimately show ?thesis using wd(2,3,8) groups_okD(6) [OF d(1)] assms(2) by blast
qed

theorem server_membership_witness:
  "\<exists>grp. find_group 0 ex_server = Some grp \<and> length (gr_users grp) = 2 \<and> distinct (map us_name (gr_users grp))"
proof -
  obtain grp a b where g: "find_group 0 ex_server = Some grp" "gr_users grp = [a, b]" by (rule ex_server_group) blast
  show ?thesis using g server_membership [OF run_any [OF ex_server_run, of id] g(1)] by simp
qed

text \<open>
  C12. Clients know their peers. A client knows of a user from the message that announces it (\<open>peer/join\<close>) until the message
  that takes it back (\<open>peer/leave\<close>), beginning with the reply to its own request to join. In every state of a server to
  whose groups the application adds no users itself, a client that is a member of a group knows, besides users of its
  own, exactly the users of the other clients in the group.
\<close>

theorem clients_know_peers:
  assumes "server_run parse md5 no_persistent s" and "find_group g s = Some grp" and "usr \<in> set (gr_users grp)"
  shows "known (us_client usr) g s - us_id ` {u \<in> set (gr_users grp). us_client u = us_client usr} =
    us_id ` {u \<in> set (gr_users grp). us_client u \<noteq> us_client usr}" (is "?K - ?own = ?others")
proof -
  have inv: "server_inv s" and k: "knowledge s" using informed.run_holds [OF assms(1)] by simp_all
  have dist: "inj_on us_id (set (gr_users grp))"
    using group_wfD(2) [OF groups_okD(4) [OF invD(1) [OF inv] assms(2)]] by (simp add: distinct_map)
  have m: "members g s = membership ` set (gr_users grp)" by (rule members_group [OF assms(2)])
  have "(us_id usr, us_client usr, user_persistent usr) \<in> members g s" using assms(3) by (simp add: m membership_def [symmetric])
  then have sub: "?K \<subseteq> fst ` members g s" and all: "\<And>u d q. (u, d, q) \<in> members g s \<Longrightarrow> d \<noteq> us_client usr \<Longrightarrow> u \<in> ?K"
    using k unfolding knowledge_def know_ok_def by blast+
  have "us_id u \<in> ?K" if "u \<in> set (gr_users grp)" "us_client u \<noteq> us_client usr" for u
    using all [of "us_id u" "us_client u" "user_persistent u"] that by (simp add: m membership_def [symmetric])
  then have "?others \<subseteq> ?K" by blast
  moreover have "?K \<subseteq> us_id ` set (gr_users grp)" using sub by (simp add: m image_image fst_membership)
  moreover have "?own \<inter> ?others = {}" using dist by (auto dest: inj_onD)
  ultimately show ?thesis by blast
qed

theorem clients_know_peers_witness: "known 0 0 ex_server - {0} = {1} \<and> known 1 0 ex_server - {1} = {0}"
proof -
  obtain grp a b where g: "find_group 0 ex_server = Some grp" and u: "gr_users grp = [a, b]" "us_id a = 0" "us_client a = 0" "us_id b = 1" "us_client b = 1"
    by (rule ex_server_group) blast
  have own: "{x. (x = a \<or> x = b) \<and> us_client x = 0} = {a}" "{x. (x = a \<or> x = b) \<and> us_client x = 1} = {b}"
    "{x. (x = a \<or> x = b) \<and> us_client x \<noteq> 0} = {b}" "{x. (x = a \<or> x = b) \<and> us_client x \<noteq> 1} = {a}" using u by auto
  show ?thesis using clients_know_peers [OF ex_server_run g, of a] clients_know_peers [OF ex_server_run g, of b] by (simp add: u own)
qed

text \<open>
  C14. Whatever bytes a client sends, in whatever pieces, the server handles them without reading or writing outside of a
  buffer and without an endless loop, in every state that can be reached.
\<close>

theorem server_never_faults:
  assumes "server_run parse md5 (\<lambda>s. True) s"
  shows "\<exists>s'. handle_client_data parse i err data s = Some s'"
  using handle_client_data_inv [OF consistent.run_holds [OF assms]] by blast

theorem server_never_faults_witness: "\<exists>s'. handle_client_data ex_parse 1 0 [0, 0] ex_server = Some s'"
  by (rule server_never_faults [OF run_any [OF ex_server_run]])

text \<open>
  C40. A user that the application has added to a group never counts as online, even when a client has joined as this user,
  because the client of the user is never set; so a client that is in a group only as such a user is told that it is
  no member when it asks to leave.
\<close>

theorem persistent_user_cannot_leave:
  assumes "server_run parse md5 (\<lambda>s. True) s" and "find_client i s = Some c" and "find_group g s = Some grp"
    and "\<forall>u. (g, u) \<in> set (ce_group_users c) \<longrightarrow> (\<exists>usr. find_user u grp = Some usr \<and> user_persistent usr)"
  shows "(\<forall>usr \<in> set (gr_users grp). user_persistent usr \<longrightarrow> \<not> user_active usr) \<and>
    fst (do_group_leave c token g s) = kAooErrorNotGroupMember"
proof -
  have inv: "server_inv s" using consistent.run_holds [OF assms(1)] .
  note d = invD [OF inv] and w = groups_okD(4) [OF invD(1) [OF inv] assms(3)] and cw = client_wfD [OF invD(3) [OF inv assms(2)]]
  note wd = group_wfD [OF w]
  have "us_client usr \<noteq> ce_id c" if u: "usr \<in> set (gr_users grp)" for usr
  proof
    assume e: "us_client usr = ce_id c"
    then have a: "user_active usr" using cw(1,2) by (simp add: user_active_def kAooIdInvalid_def)
    then have "(g, us_id usr) \<in> set (ce_group_users c)" using d(2) assms(2,3) u e cw(1) unfolding members_ok_def by fastforce
    then obtain usr' where "find_user (us_id usr) grp = Some usr'" "user_persistent usr'" using assms(4) by blast
    then have "user_persistent usr" using find_user_iff [OF w] u wd(2) by (auto simp: distinct_map dest: inj_onD)
    then show False using wd(7) [OF u] a by simp
  qed
  then have "find_user_by_client (ce_id c) grp = None" by (auto simp: find_user_by_client_def find_None_iff)
  then show ?thesis using wd(7) assms(3) by (auto simp: do_group_leave_def)
qed

lemma ex_persistent_state:
  "map_option ce_group_users (find_client 0 ex_persistent) = Some [(0, 0)]"
  "map_option (\<lambda>grp. map_option user_persistent (find_user 0 grp)) (find_group 0 ex_persistent) = Some (Some True)"
  by code_simp+

theorem persistent_user_cannot_leave_witness:
  "\<exists>c. find_client 0 ex_persistent = Some c \<and> (0, 0) \<in> set (ce_group_users c) \<and>
     fst (do_group_leave c 7 0 ex_persistent) = kAooErrorNotGroupMember"
proof -
  obtain c where c: "find_client 0 ex_persistent = Some c" "ce_group_users c = [(0, 0)]" using ex_persistent_state(1) by auto
  obtain grp usr where g: "find_group 0 ex_persistent = Some grp" "find_user 0 grp = Some usr" "user_persistent usr"
    using ex_persistent_state(2) by (auto simp: map_option_case split: option.splits)
  show ?thesis using persistent_user_cannot_leave [OF ex_persistent_run c(1) g(1)] c g by auto
qed

end
