(* ===== verification/Spec2Isabelle.thy ===== *)
theory Spec2Isabelle
  imports Low_Latency Net_Address Bin_Msg Data_Message Resampler Stream_Message Resend Pcm_Stream Pool_System Peer_Limits Server_Run
begin

text \<open>
  Verification development of AOO (audio over OSC), a peer-to-peer audio streaming library in C++.

  \<^bold>\<open>The program.\<close> A source (\<^verbatim>\<open>aoo/src/source.cpp\<close>) encodes blocks of audio, together with the stream messages
  that belong to them, splits every block into frames and sends each frame as a data message to
  its sinks. A sink (\<^verbatim>\<open>aoo/src/sink.cpp\<close>) has one source description per source: the network thread puts the
  packets into a queue, the audio thread moves them into a jitter buffer (\<^verbatim>\<open>aoo/src/packet_buffer.cpp\<close>), asks
  the source for the frames that are missing, decodes the blocks in order, resamples them
  (\<^verbatim>\<open>aoo/src/resampler.cpp\<close>), dispatches their messages and adds the samples to its output. Packets travel as
  binary messages (\<^verbatim>\<open>aoo/src/binmsg.hpp\<close>), possibly wrapped into relay messages (\<^verbatim>\<open>aoo/src/aoo.cpp\<close>); a low-latency
  extension (\<^verbatim>\<open>aoo/src/low_latency.cpp\<close>) adds a configuration record and a packet header of its own. Clients that
  are in the same group are peers (\<^verbatim>\<open>aoo/src/net/peer.cpp\<close>): they find each other with a handshake, directly or over a relay, and
  exchange messages, which they resend until they are acknowledged where the message is reliable. A server
  (\<^verbatim>\<open>aoo/src/net/server.cpp\<close>) keeps the groups: clients log in over TCP, join and leave groups, and the server tells the members
  of a group about each other.

  \<^bold>\<open>Conventions.\<close> A struct is a record, an enum or tagged union a datatype, a machine integer a word
  (or an int where the code cannot leave its range, with the conversion written out where it can). A function
  that may read or write outside of its memory or dereference a null pointer
  returns an option, and \<^const>\<open>None\<close> is that fault: so a theorem that says \<open>= Some \<dots>\<close> says that the code
  does not fault. Memory that is shared (the data frames) is an explicit heap of addresses. Floating-point
  numbers that only travel are bit patterns (\<^verbatim>\<open>Floats\<close>); those that are computed with (time, sample positions, samples)
  are real numbers, without rounding, except in the PCM codec, whose subject is the rounding and where every operation is followed by
  that of its type (overflow to infinity and the sign of zero are not represented). Loops with a structural measure are recursive functions; the loops
  of the audio callback are partial functions whose termination is a theorem. There is no fuel. In
  \<^verbatim>\<open>drop_incomplete\<close> the number of rounds is given as the size of the jitter buffer: every round
  removes a block, so that the bound is never what ends the loop.

  \<^bold>\<open>The theories.\<close>

  \<^item> \<^verbatim>\<open>Prelude\<close>: shared types, the constants of \<^verbatim>\<open>include/aoo_types.h\<close>, \<^verbatim>\<open>aoo_defines.h\<close> and the error codes, the collections of
    rewrite rules, and lemmas on lists, options and words.

  \<^item> \<^verbatim>\<open>Ring\<close>: positions and contents of ring buffers, and the locale \<^verbatim>\<open>bounded_fifo\<close>, the contract of a bounded queue.

  \<^item> \<^verbatim>\<open>Byte_Utils\<close> (\<^verbatim>\<open>common/utils.hpp\<close>): reading and writing of big-endian integers, and the checked readers; every
    writer is undone by its reader.

  \<^item> \<^verbatim>\<open>Low_Latency\<close> (\<^verbatim>\<open>aoo/src/low_latency.cpp\<close>): validation, encoding and decoding of the stream configuration and
    the packet header. Round trips, soundness of the validation, and exactness of the decoder.

  \<^item> \<^verbatim>\<open>Net_Address\<close> (\<^verbatim>\<open>common/net_utils.cpp\<close>): the constructors and accessors of IP addresses that do not call the system.

  \<^item> \<^verbatim>\<open>Bin_Msg\<close> (\<^verbatim>\<open>aoo/src/binmsg.hpp\<close>, \<^verbatim>\<open>aoo/src/aoo.cpp\<close>): the header of binary messages, pattern parsing, relay messages. A
    relayed message arrives as it was sent, except on the dual-stack path, where a theorem shows the loss.

  \<^item> \<^verbatim>\<open>Data_Frame\<close> (\<^verbatim>\<open>aoo/src/data_frame.cpp\<close>, \<^verbatim>\<open>data_frame.hpp\<close>): the frame allocator with its bins, and the storage of the frames
    of a block (an array for small blocks, a sorted linked list for large ones). The locale \<^verbatim>\<open>frame_store\<close> is the
    contract of the storage; its interpretation shows that frames may arrive in any order and that none is
    lost, shared or leaked.

  \<^item> \<^verbatim>\<open>Packet_Buffer\<close> (\<^verbatim>\<open>aoo/src/packet_buffer.cpp\<close>): sent blocks and the history of a source, received blocks and the jitter
    buffer of a sink. The jitter buffer interprets \<^verbatim>\<open>bounded_fifo\<close>; its binary search over the wrapped ring is
    shown to find exactly the block that is there.

  \<^item> \<^verbatim>\<open>Data_Message\<close> (\<^verbatim>\<open>aoo/src/source.cpp\<close>, \<^verbatim>\<open>aoo/src/sink.cpp\<close>): writing, sending and parsing of data messages. Round trip, bounds,
    and equivalence of the loop that reuses one buffer for all sinks with writing a message per sink.

  \<^item> \<^verbatim>\<open>Priority_Queue\<close> (\<^verbatim>\<open>common/priority_queue.hpp\<close>): the binary heap; the locale \<^verbatim>\<open>stable_queue\<close> is its contract, also
    interpreted by the scheduled messages of a sink.

  \<^item> \<^verbatim>\<open>Stream_Message\<close> (\<^verbatim>\<open>aoo/src/source.cpp\<close>, \<^verbatim>\<open>aoo/src/sink.cpp\<close>): queueing, encoding, decoding, scheduling and dispatching of stream
    messages; each message is dispatched exactly once, unless it comes too late.

  \<^item> \<^verbatim>\<open>Resampler\<close> (\<^verbatim>\<open>aoo/src/resampler.cpp\<close>): the resampler on its ring buffer with mirrored frames, refining the
    interpolation of an unbounded stream.

  \<^item> \<^verbatim>\<open>Resend\<close> (\<^verbatim>\<open>aoo/src/source.cpp\<close>, \<^verbatim>\<open>aoo/src/sink.cpp\<close>): the search for missing frames, data requests with their bit sets, and
    resending from the history. One round of requests completes a block.

  \<^item> \<^verbatim>\<open>Floats\<close>, \<^verbatim>\<open>Stream_Sink\<close> (\<^verbatim>\<open>aoo/src/sink.cpp\<close>): the state of a source description, receiving data, the packet queue, adding
    packets to the jitter buffer, under- and overruns.

  \<^item> \<^verbatim>\<open>Frame_Ownership\<close>, \<^verbatim>\<open>Sink_Invariant\<close>: the invariant of a source description: which frame belongs to which block or
    packet, the order of the blocks, and that the bytes in them are those of the source. Every operation
    of \<^verbatim>\<open>Stream_Sink\<close> keeps it.

  \<^item> \<^verbatim>\<open>Sink_Process\<close>, \<^verbatim>\<open>Sink_Playout\<close> (\<^verbatim>\<open>aoo/src/sink.cpp\<close>): buffering, trimming, concealment and decoding of a block, and that
    they keep the invariant and make progress.

  \<^item> \<^verbatim>\<open>Sink_Audio\<close> (\<^verbatim>\<open>aoo/src/sink.cpp\<close>): the audio callback; its loops end.

  \<^item> \<^verbatim>\<open>Sink_System\<close>: the network thread and the audio thread as a transition system. No reachable state makes one of
    them fault, the callback returns, and the decoder only sees blocks that the source has sent.

  \<^item> \<^verbatim>\<open>Float_Format\<close>: rounding of real numbers to binary floating-point formats, and their bit patterns.

  \<^item> \<^verbatim>\<open>Pcm\<close> (\<^verbatim>\<open>aoo/src/codec/pcm.cpp\<close>): the conversions of samples, the set-up, encoding and decoding of the PCM codec. \<^verbatim>\<open>Pcm_Quality\<close>: the
    error of each sample format. \<^verbatim>\<open>Pcm_Codec\<close>: a block that is encoded on one machine is decoded on another one, of either byte
    order, within that error; encoding again what was decoded loses nothing, except with 24 bits. \<^verbatim>\<open>Pcm_Stream\<close>: the PCM
    decoder meets the contract that the sink has for decoders, so that the sink plays the samples of the source.

  \<^item> \<^verbatim>\<open>Memory_Pool\<close> (\<^verbatim>\<open>aoo/src/rt_memory_pool.hpp\<close>): the free lists and the bump allocator of the memory pool, as one thread sees
    them: a compare-and-swap succeeds at once. \<^verbatim>\<open>Pool_Safety\<close>: the blocks in use and the free lists partition the arena. \<^verbatim>\<open>Pool_System\<close>: the
    pool and its users as a transition system; blocks in use are disjoint and large enough, no operation
    faults, and memory that is given back is used again.

  \<^item> \<^verbatim>\<open>Message_Buffer\<close> (\<^verbatim>\<open>aoo/src/net/message_buffer.cpp\<close>): sent messages with the frames that are not yet acknowledged, and
    received messages that are put together from their frames.

  \<^item> \<^verbatim>\<open>Peer\<close> (\<^verbatim>\<open>aoo/src/net/peer.cpp\<close>, \<^verbatim>\<open>ping_timer.hpp\<close>): a peer with its handshake, pings, messages and acknowledgements. What is
    sent is a value; an OSC message is the list of its arguments, and a relayed datagram is
    marked as such (the bytes of a relay message are in \<^verbatim>\<open>Bin_Msg\<close>).

  \<^item> \<^verbatim>\<open>Peer_Wire\<close>: a packet of a message is read as it was written. \<^verbatim>\<open>Peer_Receive\<close>: the invariant of a receiver, that every packet
    keeps it, and that a message is delivered when all its frames have arrived. \<^verbatim>\<open>Peer_Send\<close>: the same for the sender: every
    packet it sends or resends is a frame of a message.

  \<^item> \<^verbatim>\<open>Peer_Link\<close>: two peers and a network that loses, duplicates and reorders packets, as a transition system. The
    receiver has always delivered a prefix of what was sent, and the sender does not forget a message
    before all its frames have been received. \<^verbatim>\<open>Peer_Limits\<close>: what happens outside of the conditions of these theorems.

  \<^item> \<^verbatim>\<open>Stream_Receiver\<close> (\<^verbatim>\<open>aoo/src/net/osc_stream_receiver.hpp\<close>): the receiver that cuts a TCP stream into messages, independently of the
    pieces in which it arrives.

  \<^item> \<^verbatim>\<open>Server_Groups\<close> (\<^verbatim>\<open>aoo/src/net/client_endpoint.hpp\<close>, \<^verbatim>\<open>include/aoo_requests.h\<close>): users, groups, clients, requests and the messages to the
    clients. \<^verbatim>\<open>Server\<close>, \<^verbatim>\<open>Server_Requests\<close>, \<^verbatim>\<open>Server_Api\<close> (\<^verbatim>\<open>aoo/src/net/server.cpp\<close>): the state of the server and the changes of groups,
    the handlers of the requests, and the interface of the application with the main loop and the UDP socket.

  \<^item> \<^verbatim>\<open>Server_Invariant\<close>, \<^verbatim>\<open>Server_Preserve\<close>, \<^verbatim>\<open>Server_Join\<close>, \<^verbatim>\<open>Server_System\<close>: the invariant of the server (names, identifiers, who is a member of what) and
    that every operation keeps it. \<^verbatim>\<open>Server_Knowledge\<close>, \<^verbatim>\<open>Server_Peers\<close>: what the clients know of each other from the messages of the
    server. \<^verbatim>\<open>Server_Run\<close>: the server as a transition system; the locale \<^verbatim>\<open>server_invariant\<close> carries both invariants to all runs.

  \<^bold>\<open>Assertions.\<close> A violated assertion is \<^const>\<open>None\<close>, like any other fault, in the memory pool, the frame allocator and the storage of
  frames, the jitter buffer, the peers and their message buffers, the PCM codec, the resampler and the receiver of streams; the assertions of \<^verbatim>\<open>push\<close> and
  \<^verbatim>\<open>init\<close> of the jitter buffer are predicates that their callers evaluate (\<^verbatim>\<open>push_asserts\<close>, \<^verbatim>\<open>init_asserts\<close>), and in the sink the one on the number
  of decoded samples is part of \<^verbatim>\<open>decode_samples\<close>. So the theorems that an operation does not fault cover them. The model describes a build
  without assertions for the rest of \<^verbatim>\<open>sink.cpp\<close> (the event buffer is empty and the callback has samples in \<^verbatim>\<open>process\<close>, no rate flag
  without a rate in \<^verbatim>\<open>handle_data\<close>), for \<^verbatim>\<open>source.cpp\<close> and \<^verbatim>\<open>binmsg.hpp\<close>, and for \<^verbatim>\<open>sent_block::get_frame\<close>.

  \<^bold>\<open>Assumptions.\<close> The decoder is a parameter, chosen at run time through the codec interface; it returns
  the number of samples that it was asked for. The packets that arrive are frames of blocks of one
  source (\<^verbatim>\<open>arrives\<close>), in any order, with losses and duplicates; what malformed packets can do is the subject of the
  theorems of kind error. The steps of the two threads are atomic: the code separates them by
  lock-free queues and by a mutex that the audio thread only tries to take. The theorems on messages between peers name
  their condition on the messages (\<^verbatim>\<open>message_ok\<close>), and those on the jitter buffer that the capacity of its vector is its size. In the server the parser of OSC packets and the hash of passwords are parameters, the
  buffer in which a message is built is large enough, the tables are visited in the order of lists, identifiers do not wrap around, callbacks do not call the
  server themselves, and the application only answers requests that its handler has taken over, as often and whenever it likes.

  \<^bold>\<open>Not modelled.\<close> Sockets, threads and timers (input and output); the lock-free containers (their correctness is a
  statement about the C++ memory model, which this development does not have; they appear as lists); OSC messages (oscpack is a third-party
  library); the null codec, which does nothing, and Opus (a third-party codec); interleaved operations of several threads on the
  memory pool; the client (\<^verbatim>\<open>aoo/src/net/client.cpp\<close>: connections, requests and responses over sockets and
  OSC), and the sockets and threads of the server; the Apple bridge, the Pd and SuperCollider plug-ins, examples and tests. Of the sink, the
  handlers of start, stop, decline and ping messages, invitations and statistics are left out; of the source,
  stream control and encoding.
\<close>

end
